(* ===== verification/Prelude.thy ===== *)
theory Prelude
  imports Main "HOL-Library.Word" "HOL-Library.Multiset" "HOL-Library.Monad_Syntax"
begin

unbundle bit_operations_syntax

text \<open>
  Shared vocabulary of the development: the fault monad in which the C code is written,
  checked reads and writes of a buffer, the conversion to \<open>short\<close>, and generic facts
  about lists and multisets used by several components.

  Every C function that can touch memory or fail an \<open>assert\<close> returns an option:
  \<open>None\<close> is a fault (an access outside a buffer, a null or uninitialised pointer that
  is followed, a failed assertion, a loop that does not end), \<open>Some\<close> is a normal return.
\<close>

named_theorems buf_simps \<open>equations of the checked buffer operations\<close>

type_synonym byte = "8 word"

subsection \<open>Checked memory access\<close>

definition buf_read :: "'a list \<Rightarrow> nat \<Rightarrow> 'a option" where
  "buf_read xs i = (if i < length xs then Some (xs ! i) else None)"

definition buf_write :: "'a list \<Rightarrow> nat \<Rightarrow> 'a \<Rightarrow> 'a list option" where
  "buf_write xs i v = (if i < length xs then Some (xs[i := v]) else None)"

definition c_assert :: "bool \<Rightarrow> unit option" where
  "c_assert b = (if b then Some () else None)"

lemma buf_read_eq [buf_simps]: "i < length xs \<Longrightarrow> buf_read xs i = Some (xs ! i)"
  by (simp add: buf_read_def)

lemma buf_read_Some_iff: "buf_read xs i = Some v \<longleftrightarrow> i < length xs \<and> v = xs ! i"
  by (auto simp: buf_read_def)

lemma buf_write_eq [buf_simps]: "i < length xs \<Longrightarrow> buf_write xs i v = Some (xs[i := v])"
  by (simp add: buf_write_def)

lemma buf_write_Some_iff: "buf_write xs i v = Some ys \<longleftrightarrow> i < length xs \<and> ys = xs[i := v]"
  by (auto simp: buf_write_def)

lemma c_assert_True [simp]: "c_assert True = Some ()"
  by (simp add: c_assert_def)

lemma c_assert_Some_iff [simp]: "c_assert b = Some u \<longleftrightarrow> b"
  by (simp add: c_assert_def)

lemma c_assert_eq [buf_simps]: "b \<Longrightarrow> c_assert b = Some ()"
  by (simp add: c_assert_def)

subsection \<open>C integer conversions\<close>

text \<open>Conversion of an \<open>int\<close> to a 16 bit two's complement \<open>short\<close>.\<close>

definition to_short :: "int \<Rightarrow> int" where
  "to_short x = (x + 32768) mod 65536 - 32768"

lemma to_short_id [simp]: "- 32768 \<le> x \<Longrightarrow> x < 32768 \<Longrightarrow> to_short x = x"
  by (simp add: to_short_def)

lemma to_short_range: "- 32768 \<le> to_short x" "to_short x < 32768"
  by (simp_all add: to_short_def)

text \<open>C division of two ints truncates towards zero.\<close>

definition c_div :: "int \<Rightarrow> int \<Rightarrow> int" where
  "c_div a b = sgn a * sgn b * (\<bar>a\<bar> div \<bar>b\<bar>)"

lemma c_div_nonneg [simp]: "0 \<le> a \<Longrightarrow> 0 < b \<Longrightarrow> c_div a b = a div b"
  by (cases "a = 0") (simp_all add: c_div_def)

subsection \<open>Flag words\<close>

text \<open>The test \<open>flags & mask\<close> of C, on a 32 bit flag word.\<close>

definition flag_set :: "32 word \<Rightarrow> 32 word \<Rightarrow> bool" where
  "flag_set f m \<longleftrightarrow> f AND m \<noteq> 0"

lemma flag_set_or: "flag_set (f OR g) m \<longleftrightarrow> flag_set f m \<or> flag_set g m"
  by (simp add: flag_set_def bit.conj_disj_distrib2 or_eq_0_iff)

lemma flag_set_mask_or: "flag_set f (m OR n) \<longleftrightarrow> flag_set f m \<or> flag_set f n"
  by (simp add: flag_set_def bit.conj_disj_distrib or_eq_0_iff)

lemma flag_set_0 [simp]: "\<not> flag_set 0 m"
  by (simp add: flag_set_def)

subsection \<open>Lists as arrays with a live prefix\<close>

text \<open>
  \<open>a[i] = a[--n]\<close>: the last live element replaces the one at index \<open>i\<close>.
\<close>

definition swap_remove :: "'a list \<Rightarrow> nat \<Rightarrow> 'a list" where
  "swap_remove xs i = butlast (xs[i := last xs])"

lemma length_swap_remove [simp]: "length (swap_remove xs i) = length xs - 1"
  by (simp add: swap_remove_def)

lemma mset_swap_remove:
  assumes "i < length xs"
  shows "mset (swap_remove xs i) = mset xs - {#xs ! i#}"
proof -
  from assms have ne: "xs \<noteq> []" by auto
  then obtain ys z where xs: "xs = ys @ [z]" by (metis rev_exhaust)
  show ?thesis
  proof (cases "i < length ys")
    case True
    then have "swap_remove xs i = ys[i := z]"
      by (simp add: swap_remove_def xs list_update_append butlast_append)
    then show ?thesis using True
      by (simp add: xs mset_update nth_append)
  next
    case False
    with assms have "i = length ys" by (simp add: xs)
    then show ?thesis by (simp add: swap_remove_def xs butlast_append)
  qed
qed

lemma set_swap_remove: "i < length xs \<Longrightarrow> set (swap_remove xs i) \<subseteq> set xs"
  by (metis mset_swap_remove diff_subset_eq_self mset_subset_eqD set_mset_mset subsetI)

end
