(* ===== verification/PixelGrid.thy ===== *)
theory PixelGrid
  imports Prelude
begin

text \<open>
  The reference semantics of segmentation, independent of the code: the pixels of an image
  of width \<open>W\<close> in row-major order, their four-neighbourhood, the connected components of
  the first \<open>n\<close> pixels, and which components touch. All are executable or relations over
  pixel indices; the segmenter is proved against them.
\<close>

definition west :: "nat \<Rightarrow> nat \<Rightarrow> nat \<Rightarrow> bool" where
  "west W p q \<longleftrightarrow> q = Suc p \<and> q mod W \<noteq> 0"

definition north :: "nat \<Rightarrow> nat \<Rightarrow> nat \<Rightarrow> bool" where
  "north W p q \<longleftrightarrow> q = p + W"

text \<open>\<open>p\<close> is the west or north neighbour of \<open>q\<close>; the four-neighbourhood is its symmetric closure.\<close>

definition before :: "nat \<Rightarrow> nat \<Rightarrow> nat \<Rightarrow> bool" where
  "before W p q \<longleftrightarrow> west W p q \<or> north W p q"

definition nbr :: "nat \<Rightarrow> nat \<Rightarrow> nat \<Rightarrow> bool" where
  "nbr W p q \<longleftrightarrow> before W p q \<or> before W q p"

lemma nbr_sym: "nbr W p q \<longleftrightarrow> nbr W q p"
  by (auto simp: nbr_def)

text \<open>A step between neighbours of the same colour among the first \<open>n\<close> pixels.\<close>

definition same_step :: "nat \<Rightarrow> 'c list \<Rightarrow> nat \<Rightarrow> nat \<Rightarrow> nat \<Rightarrow> bool" where
  "same_step W src n p q \<longleftrightarrow> p < n \<and> q < n \<and> nbr W p q \<and> src ! p = src ! q"

definition conn :: "nat \<Rightarrow> 'c list \<Rightarrow> nat \<Rightarrow> nat \<Rightarrow> nat \<Rightarrow> bool" where
  "conn W src n = (same_step W src n)\<^sup>*\<^sup>*"

lemma same_step_sym: "same_step W src n p q \<Longrightarrow> same_step W src n q p"
  by (auto simp: same_step_def nbr_sym)

lemma conn_refl [simp, intro]: "conn W src n p p"
  by (simp add: conn_def)

lemma conn_step: "same_step W src n p q \<Longrightarrow> conn W src n p q"
  by (simp add: conn_def)

lemma conn_trans: "conn W src n p q \<Longrightarrow> conn W src n q r \<Longrightarrow> conn W src n p r"
  unfolding conn_def by (rule rtranclp_trans)

lemma conn_sym: "conn W src n p q \<Longrightarrow> conn W src n q p"
  unfolding conn_def
proof (induction rule: rtranclp_induct)
  case (step y z)
  then show ?case by (meson converse_rtranclp_into_rtranclp same_step_sym)
qed simp

lemma conn_mono: "conn W src n p q \<Longrightarrow> n \<le> n' \<Longrightarrow> conn W src n' p q"
  unfolding conn_def
  by (erule rtranclp_mono [THEN predicate2D, rotated]) (auto simp: same_step_def)

lemma conn_colour: "conn W src n p q \<Longrightarrow> src ! p = src ! q"
  unfolding conn_def by (induction rule: rtranclp_induct) (auto simp: same_step_def)

text \<open>
  \<open>f\<close> labels the first \<open>n\<close> pixels by their connected component: two of them have the same
  label exactly when they are connected.
\<close>

definition labels :: "nat \<Rightarrow> 'c list \<Rightarrow> nat \<Rightarrow> (nat \<Rightarrow> nat) \<Rightarrow> bool" where
  "labels W src n f \<longleftrightarrow> (\<forall>p < n. \<forall>q < n. f p = f q \<longleftrightarrow> conn W src n p q)"

lemma labelsI:
  assumes const: "\<And>p q. p < n \<Longrightarrow> q < n \<Longrightarrow> before W p q \<Longrightarrow> src ! p = src ! q \<Longrightarrow> f p = f q"
    and conn: "\<And>p q. p < n \<Longrightarrow> q < n \<Longrightarrow> f p = f q \<Longrightarrow> conn W src n p q"
  shows "labels W src n f"
proof -
  have "f p = f q" if "conn W src n p q" for p q
    using that unfolding conn_def
  proof (induction rule: rtranclp_induct)
    case (step y z)
    then have "f y = f z" using const [of y z] const [of z y]
      by (auto simp: same_step_def nbr_def)
    with step.IH show ?case by simp
  qed simp
  with conn show ?thesis unfolding labels_def by blast
qed

lemma labelsD:
  assumes "labels W src n f" "p < n" "q < n"
  shows "f p = f q \<longleftrightarrow> conn W src n p q"
  using assms by (simp add: labels_def)

lemma labels_before:
  assumes "labels W src n f" "before W p q" "p < n" "q < n" "src ! p = src ! q"
  shows "f p = f q"
proof -
  have "same_step W src n p q" using assms by (simp add: same_step_def nbr_def)
  then show ?thesis using labelsD [OF assms(1,3,4)] conn_step by blast
qed

subsection \<open>Contacts between components\<close>

definition contact :: "nat \<Rightarrow> nat \<Rightarrow> (nat \<Rightarrow> nat) \<Rightarrow> nat \<Rightarrow> nat \<Rightarrow> bool" where
  "contact W n f x a \<longleftrightarrow> x \<noteq> a \<and> (\<exists>p q. p < n \<and> q < n \<and> nbr W p q \<and> f p = x \<and> f q = a)"

lemma contact_sym: "contact W n f x a \<longleftrightarrow> contact W n f a x"
  unfolding contact_def using nbr_sym by metis

lemma contactI: "p < n \<Longrightarrow> q < n \<Longrightarrow> nbr W p q \<Longrightarrow> f p \<noteq> f q \<Longrightarrow> contact W n f (f p) (f q)"
  by (auto simp: contact_def)

text \<open>The pairs of neighbours that the pixel \<open>n\<close> adds.\<close>

lemma contact_Suc:
  assumes W: "0 < W" and f: "\<And>p. p < n \<Longrightarrow> f' p = f p"
  shows "contact W (Suc n) f' x a \<longleftrightarrow> contact W n f x a \<or>
     (x \<noteq> a \<and> (\<exists>p < n. before W p n \<and> (x = f p \<and> a = f' n \<or> x = f' n \<and> a = f p)))"
proof -
  have irr: "\<not> nbr W n n" using W by (auto simp: nbr_def before_def west_def north_def)
  have bef: "before W p q \<Longrightarrow> p < q" for p q using W by (auto simp: before_def west_def north_def)
  show ?thesis
    unfolding contact_def less_Suc_eq using irr f
    by (auto simp: nbr_def dest: bef) (metis bef less_irrefl)+
qed

lemma contact_relabel:
  "contact W n (\<lambda>p. h (f p)) x a \<longleftrightarrow> x \<noteq> a \<and> (\<exists>x0 a0. contact W n f x0 a0 \<and> h x0 = x \<and> h a0 = a)"
  by (auto simp: contact_def) metis+

subsection \<open>Indices\<close>

lemma pixel_west: "0 < x \<Longrightarrow> x < W \<Longrightarrow> west W (y * W + x - 1) (y * W + x)"
  by (simp add: west_def)

lemma pixel_north: "0 < y \<Longrightarrow> north W ((y - 1) * W + x) (y * W + x)"
  by (cases y) (simp_all add: north_def)

lemma before_pixel:
  assumes "x < W"
  shows "before W p (y * W + x) \<longleftrightarrow>
     (0 < x \<and> p = y * W + x - 1) \<or> (0 < y \<and> p = (y - 1) * W + x)"
proof -
  have "(y * W + x) mod W = x" using assms by simp
  moreover have "y * W + x = p + W \<longleftrightarrow> 0 < y \<and> p = (y - 1) * W + x"
    using assms by (cases y) auto
  ultimately show ?thesis by (auto simp: before_def west_def north_def)
qed

end
