(* ===== verification/Region.thy ===== *)
theory Region
  imports Prelude
begin

text \<open>
  The data of \<^verbatim>\<open>segment.h\<close>: the \<open>Region\<close> and \<open>RegionReference\<close> structs, the region
  flags and the \<open>Segmenter\<close> struct. A \<open>Region *\<close> that is known to point into the region
  buffer is the index of its slot; a \<open>Region *\<close> that may also be null or point to a list
  head outside the buffer is an \<open>rptr\<close>. A \<open>RegionReference *\<close> is the index of its slot in
  \<open>region_refs\<close>.
\<close>

subsection \<open>Flags\<close>

definition NO_REGION_FLAG :: "32 word" where "NO_REGION_FLAG = 0"
definition FREE_REGION_FLAG :: "32 word" where "FREE_REGION_FLAG = 1"
definition ADJACENT_TO_ROOT_REGION_FLAG :: "32 word" where "ADJACENT_TO_ROOT_REGION_FLAG = 2"
definition SATURATED_REGION_FLAG :: "32 word" where "SATURATED_REGION_FLAG = 4"
definition FRAGMENTED_REGION_FLAG :: "32 word" where "FRAGMENTED_REGION_FLAG = 8"
definition LOST_SYMBOL_FLAG :: "32 word" where "LOST_SYMBOL_FLAG = 16"

definition UNKNOWN_REGION_LEVEL :: int where "UNKNOWN_REGION_LEVEL = - 1"

lemmas region_flag_defs =
  NO_REGION_FLAG_def FREE_REGION_FLAG_def ADJACENT_TO_ROOT_REGION_FLAG_def
  SATURATED_REGION_FLAG_def FRAGMENTED_REGION_FLAG_def LOST_SYMBOL_FLAG_def

subsection \<open>Structs\<close>

datatype rptr = Null | Reg nat | Head nat

text \<open>
  \<open>adjacent_regions\<close> is the live prefix of the C array of that name, so its length is
  \<open>adjacent_region_count\<close>; the capacity is the segmenter's \<open>max_adjacent_regions\<close>.
  The \<open>short\<close> fields are kept as integers in the range of a \<open>short\<close>. The span fields are
  set to null and never used, \<open>area\<close> is set to 0 and never changed.
\<close>

record Region =
  previous :: rptr
  nxt :: rptr
  colour :: byte
  left :: int
  rtop :: int
  right :: int
  bottom :: int
  area :: int
  flags :: "32 word"
  level :: int
  depth :: int
  children_visited_count :: int
  descendent_count :: int
  depth_string :: "nat option"
  adjacent_regions :: "nat list"

record RegionReference =
  region :: "nat option"
  redirect :: nat

text \<open>
  The buffers are lists of their allocated length; a null buffer (a failed \<open>malloc\<close>) is
  the empty list. An uninitialised entry of \<open>regions_under_construction\<close> is \<open>None\<close>.
\<close>

record Segmenter =
  region_refs :: "RegionReference list"
  region_ref_count :: nat
  regions :: "Region list"
  region_count :: nat
  freed_regions_head :: rptr
  max_adjacent_regions :: nat
  width :: nat
  height :: nat
  regions_under_construction :: "nat option list"

definition adjacent_region_count :: "Region \<Rightarrow> nat" where
  "adjacent_region_count r = length (adjacent_regions r)"

subsection \<open>Access to the region buffer\<close>

text \<open>\<open>LOOKUP_SEGMENTER_REGION( s, i )\<close>, dereferenced.\<close>

definition get_region :: "Segmenter \<Rightarrow> nat \<Rightarrow> Region option" where
  "get_region s i = buf_read (regions s) i"

definition upd_region :: "Segmenter \<Rightarrow> nat \<Rightarrow> (Region \<Rightarrow> Region) \<Rightarrow> Segmenter option" where
  "upd_region s i f = do {
     r \<leftarrow> buf_read (regions s) i;
     rs \<leftarrow> buf_write (regions s) i (f r);
     Some (s\<lparr>regions := rs\<rparr>)
   }"

definition or_flags :: "Segmenter \<Rightarrow> nat \<Rightarrow> 32 word \<Rightarrow> Segmenter option" where
  "or_flags s i m = upd_region s i (\<lambda>r. r\<lparr>flags := flags r OR m\<rparr>)"

abbreviation reg :: "Segmenter \<Rightarrow> nat \<Rightarrow> Region" where
  "reg s i \<equiv> regions s ! i"

lemma get_region_eq [buf_simps]: "i < length (regions s) \<Longrightarrow> get_region s i = Some (reg s i)"
  by (simp add: get_region_def buf_simps)

lemma get_region_Some_iff: "get_region s i = Some r \<longleftrightarrow> i < length (regions s) \<and> r = reg s i"
  by (simp add: get_region_def buf_read_Some_iff)

lemma upd_region_eq [buf_simps]:
  "i < length (regions s) \<Longrightarrow>
   upd_region s i f = Some (s\<lparr>regions := (regions s)[i := f (reg s i)]\<rparr>)"
  by (simp add: upd_region_def buf_simps)

lemma or_flags_eq [buf_simps]:
  "i < length (regions s) \<Longrightarrow> or_flags s i m =
     Some (s\<lparr>regions := (regions s)[i := (reg s i)\<lparr>flags := flags (reg s i) OR m\<rparr>]\<rparr>)"
  by (simp add: or_flags_def buf_simps)

end
