(* ===== verification/Segment.thy ===== *)
theory Segment
  imports Region
begin

text \<open>
  The operations of \<^verbatim>\<open>segment.c\<close>: the region allocator, the adjacency lists, the merge of
  two regions, the resolution of redirected references and the row scan \<open>build_regions\<close>.
  Each definition follows the statement order of the C function of the same name.
\<close>

subsection \<open>Allocation\<close>

definition new_region :: "Segmenter \<Rightarrow> nat \<Rightarrow> nat \<Rightarrow> byte \<Rightarrow> (nat \<times> Segmenter) option" where
  "new_region s x y col = do {
     (r, s) \<leftarrow> (case freed_regions_head s of
         Reg f \<Rightarrow> do {
           fr \<leftarrow> get_region s f;
           Some (f, s\<lparr>freed_regions_head := nxt fr\<rparr>) }
       | Null \<Rightarrow> Some (region_count s, s\<lparr>region_count := Suc (region_count s)\<rparr>)
       | Head _ \<Rightarrow> None);
     c_assert (col = 0 \<or> col = 255);
     s \<leftarrow> upd_region s r (\<lambda>reg. reg\<lparr>
           colour := col,
           left := to_short (int x), right := to_short (int x),
           rtop := to_short (int y), bottom := to_short (int y),
           flags := NO_REGION_FLAG,
           area := 0,
           level := UNKNOWN_REGION_LEVEL,
           depth := 0,
           children_visited_count := 0,
           descendent_count := 32767,
           adjacent_regions := []\<rparr>);
     let result = region_ref_count s;
     refs \<leftarrow> buf_write (region_refs s) result \<lparr>region = Some r, redirect = result\<rparr>;
     Some (result, s\<lparr>region_refs := refs, region_ref_count := Suc result\<rparr>)
   }"

subsection \<open>Adjacency lists\<close>

fun adjacent_list_contains :: "nat list \<Rightarrow> nat \<Rightarrow> bool" where
  "adjacent_list_contains [] r2 = False"
| "adjacent_list_contains (a # as) r2 = (if a = r2 then True else adjacent_list_contains as r2)"

definition r1_adjacent_contains_r2 :: "Segmenter \<Rightarrow> nat \<Rightarrow> nat \<Rightarrow> bool option" where
  "r1_adjacent_contains_r2 s r1 r2 = do {
     a \<leftarrow> get_region s r1;
     Some (adjacent_list_contains (adjacent_regions a) r2)
   }"

definition is_adjacent :: "Segmenter \<Rightarrow> nat \<Rightarrow> nat \<Rightarrow> bool option" where
  "is_adjacent s r1 r2 = do {
     a \<leftarrow> get_region s r1;
     b \<leftarrow> get_region s r2;
     if adjacent_region_count a > adjacent_region_count b
     then Some (adjacent_list_contains (adjacent_regions b) r1)
     else Some (adjacent_list_contains (adjacent_regions a) r2)
   }"

text \<open>The search loop of \<open>remove_adjacent_from\<close> and \<open>replace_adjacent\<close>, from index \<open>i\<close>.\<close>

fun find_adjacent :: "nat list \<Rightarrow> nat \<Rightarrow> nat \<Rightarrow> nat option" where
  "find_adjacent [] r2 i = None"
| "find_adjacent (a # as) r2 i = (if a = r2 then Some i else find_adjacent as r2 (Suc i))"

text \<open>Remove \<open>r2\<close> from \<open>r1\<close>. The final \<open>assert( found )\<close> fails when there is no such entry.\<close>

definition remove_adjacent_from :: "Segmenter \<Rightarrow> nat \<Rightarrow> nat \<Rightarrow> Segmenter option" where
  "remove_adjacent_from s r1 r2 = do {
     a \<leftarrow> get_region s r1;
     i \<leftarrow> find_adjacent (adjacent_regions a) r2 0;
     upd_region s r1 (\<lambda>r. r\<lparr>adjacent_regions := swap_remove (adjacent_regions r) i\<rparr>)
   }"

text \<open>Replace \<open>r2\<close> with \<open>r3\<close> in the adjacency list of \<open>r1\<close>.\<close>

definition replace_adjacent :: "Segmenter \<Rightarrow> nat \<Rightarrow> nat \<Rightarrow> nat \<Rightarrow> Segmenter option" where
  "replace_adjacent s r1 r2 r3 = do {
     a \<leftarrow> get_region s r1;
     i \<leftarrow> find_adjacent (adjacent_regions a) r2 0;
     upd_region s r1 (\<lambda>r. r\<lparr>adjacent_regions := (adjacent_regions r)[i := r3]\<rparr>)
   }"

text \<open>The write \<open>r->adjacent_regions[ r->adjacent_region_count++ ] = a\<close>, within the capacity.\<close>

definition append_adjacent :: "Segmenter \<Rightarrow> nat \<Rightarrow> nat \<Rightarrow> Segmenter option" where
  "append_adjacent s r a = do {
     p \<leftarrow> get_region s r;
     c_assert (adjacent_region_count p < max_adjacent_regions s);
     upd_region s r (\<lambda>p. p\<lparr>adjacent_regions := adjacent_regions p @ [a]\<rparr>)
   }"

fun make_saturated_loop :: "Segmenter \<Rightarrow> nat \<Rightarrow> nat \<Rightarrow> nat \<Rightarrow> Segmenter option" where
  "make_saturated_loop s r1 i 0 = Some s"
| "make_saturated_loop s r1 i (Suc n) = do {
     p \<leftarrow> get_region s r1;
     a \<leftarrow> buf_read (adjacent_regions p) i;
     s \<leftarrow> remove_adjacent_from s a r1;
     s \<leftarrow> or_flags s a FRAGMENTED_REGION_FLAG;
     make_saturated_loop s r1 (Suc i) n
   }"

definition make_saturated :: "Segmenter \<Rightarrow> nat \<Rightarrow> Segmenter option" where
  "make_saturated s r1 = do {
     p \<leftarrow> get_region s r1;
     s \<leftarrow> make_saturated_loop s r1 0 (adjacent_region_count p);
     s \<leftarrow> upd_region s r1 (\<lambda>r. r\<lparr>adjacent_regions := []\<rparr>);
     or_flags s r1 SATURATED_REGION_FLAG
   }"

definition is_saturated :: "Region \<Rightarrow> bool" where
  "is_saturated r = flag_set (flags r) SATURATED_REGION_FLAG"

text \<open>The body of \<open>make_adjacent\<close> for two regions that are not adjacent yet.\<close>

definition make_adjacent_update :: "Segmenter \<Rightarrow> nat \<Rightarrow> nat \<Rightarrow> Segmenter option" where
  "make_adjacent_update s r1 r2 = do {
     p1 \<leftarrow> get_region s r1;
     p2 \<leftarrow> get_region s r2;
     if is_saturated p1 then or_flags s r2 FRAGMENTED_REGION_FLAG
     else if is_saturated p2 then or_flags s r1 FRAGMENTED_REGION_FLAG
     else if adjacent_region_count p1 = max_adjacent_regions s then do {
       s \<leftarrow> make_saturated s r1;
       s \<leftarrow> or_flags s r2 FRAGMENTED_REGION_FLAG;
       p2 \<leftarrow> get_region s r2;
       if adjacent_region_count p2 = max_adjacent_regions s then do {
         s \<leftarrow> make_saturated s r2;
         or_flags s r1 FRAGMENTED_REGION_FLAG
       } else Some s
     } else if adjacent_region_count p2 = max_adjacent_regions s then do {
       s \<leftarrow> make_saturated s r2;
       or_flags s r1 FRAGMENTED_REGION_FLAG
     } else do {
       c_assert (\<not> is_saturated p1);
       c_assert (\<not> is_saturated p2);
       c_assert (adjacent_region_count p1 < max_adjacent_regions s);
       c_assert (adjacent_region_count p2 < max_adjacent_regions s);
       s \<leftarrow> append_adjacent s r1 r2;
       append_adjacent s r2 r1
     }
   }"

definition make_adjacent :: "Segmenter \<Rightarrow> nat \<Rightarrow> nat \<Rightarrow> Segmenter option" where
  "make_adjacent s r1 r2 = do {
     adj \<leftarrow> is_adjacent s r1 r2;
     s \<leftarrow> (if \<not> adj then make_adjacent_update s r1 r2 else Some s);
     c12 \<leftarrow> r1_adjacent_contains_r2 s r1 r2;
     c21 \<leftarrow> r1_adjacent_contains_r2 s r2 r1;
     c_assert ((c12 \<and> c21) \<or> (\<not> c12 \<and> \<not> c21));
     Some s
   }"

subsection \<open>Merging two regions\<close>

text \<open>
  The loop that removes the adjacencies of \<open>r2\<close> which are already in \<open>r1\<close>. The index is
  advanced also after a removal, as in the source, so the entry that was moved into the
  hole is not examined. The fuel is the number of entries left, which bounds the loop.
\<close>

fun merge_common_loop :: "Segmenter \<Rightarrow> nat \<Rightarrow> nat \<Rightarrow> nat \<Rightarrow> nat \<Rightarrow> Segmenter option" where
  "merge_common_loop s r1 r2 i 0 = Some s"
| "merge_common_loop s r1 r2 i (Suc n) = do {
     p2 \<leftarrow> get_region s r2;
     if i < adjacent_region_count p2 then do {
       a \<leftarrow> buf_read (adjacent_regions p2) i;
       adj \<leftarrow> is_adjacent s a r1;
       s \<leftarrow> (if adj then do {
           s \<leftarrow> remove_adjacent_from s a r2;
           upd_region s r2 (\<lambda>r. r\<lparr>adjacent_regions := swap_remove (adjacent_regions r) i\<rparr>)
         } else Some s);
       merge_common_loop s r1 r2 (Suc i) n
     } else Some s
   }"
text \<open>The loop that moves the remaining adjacencies of \<open>r2\<close> to \<open>r1\<close>.\<close>

fun merge_move_loop :: "Segmenter \<Rightarrow> nat \<Rightarrow> nat \<Rightarrow> nat \<Rightarrow> nat \<Rightarrow> Segmenter option" where
  "merge_move_loop s r1 r2 i 0 = Some s"
| "merge_move_loop s r1 r2 i (Suc n) = do {
     p2 \<leftarrow> get_region s r2;
     a \<leftarrow> buf_read (adjacent_regions p2) i;
     s \<leftarrow> replace_adjacent s a r2 r1;
     s \<leftarrow> append_adjacent s r1 a;
     pa \<leftarrow> get_region s a;
     p1 \<leftarrow> get_region s r1;
     c_assert (adjacent_region_count pa \<le> max_adjacent_regions s);
     c_assert (adjacent_region_count p1 \<le> max_adjacent_regions s);
     merge_move_loop s r1 r2 (Suc i) n
   }"

text \<open>The last statements: the flags of \<open>r2\<close> are added to \<open>r1\<close>, the bounding boxes united.\<close>

definition merge_bounds :: "Region \<Rightarrow> Region \<Rightarrow> Region" where
  "merge_bounds p1 p2 = p1\<lparr>
     flags := flags p1 OR flags p2,
     left := (if left p2 < left p1 then left p2 else left p1),
     rtop := (if rtop p2 < rtop p1 then rtop p2 else rtop p1),
     right := (if right p2 > right p1 then right p2 else right p1),
     bottom := (if bottom p2 > bottom p1 then bottom p2 else bottom p1)\<rparr>"

text \<open>The part of \<open>merge_regions\<close> that moves or drops the adjacencies of \<open>r2\<close>.\<close>

definition merge_adjacencies :: "Segmenter \<Rightarrow> nat \<Rightarrow> nat \<Rightarrow> Segmenter option" where
  "merge_adjacencies s r1 r2 = do {
     p1 \<leftarrow> get_region s r1;
     p2 \<leftarrow> get_region s r2;
     if is_saturated p1 then do {
       s \<leftarrow> make_saturated s r2;
       p2 \<leftarrow> get_region s r2;
       if is_saturated p2 then make_saturated s r1 else Some s
     } else if is_saturated p2 then make_saturated s r1
     else do {
       s \<leftarrow> merge_common_loop s r1 r2 0 (adjacent_region_count p2);
       p1 \<leftarrow> get_region s r1;
       p2 \<leftarrow> get_region s r2;
       if adjacent_region_count p1 + adjacent_region_count p2 > max_adjacent_regions s then do {
         s \<leftarrow> make_saturated s r1;
         make_saturated s r2
       } else do {
         s \<leftarrow> merge_move_loop s r1 r2 0 (adjacent_region_count p2);
         upd_region s r2 (\<lambda>r. r\<lparr>adjacent_regions := []\<rparr>)
       }
     }
   }"

definition merge_regions :: "Segmenter \<Rightarrow> nat \<Rightarrow> nat \<Rightarrow> Segmenter option" where
  "merge_regions s r1 r2 = do {
     c_assert (r1 \<noteq> r2);
     c12 \<leftarrow> r1_adjacent_contains_r2 s r1 r2;
     c21 \<leftarrow> r1_adjacent_contains_r2 s r2 r1;
     c_assert (\<not> c12 \<and> \<not> c21);
     s \<leftarrow> merge_adjacencies s r1 r2;
     p2 \<leftarrow> get_region s r2;
     s \<leftarrow> upd_region s r1 (\<lambda>p1. merge_bounds p1 p2);
     p1 \<leftarrow> get_region s r1;
     c_assert (\<forall>a \<in> set (adjacent_regions p1). adjacent_list_contains (adjacent_regions p1) a);
     Some s
   }"

subsection \<open>Redirected references\<close>

text \<open>
  The while loop of \<open>RESOLVE_REGIONREF_REDIRECTS\<close>: follow \<open>redirect\<close> to a reference that
  redirects to itself. \<open>None\<close> is a loop that does not end or a bad reference.
\<close>

partial_function (option) follow_redirects :: "Segmenter \<Rightarrow> nat \<Rightarrow> nat option" where
  "follow_redirects s r = do {
     p \<leftarrow> buf_read (region_refs s) r;
     if redirect p = r then Some r else follow_redirects s (redirect p)
   }"

declare follow_redirects.simps [code]

text \<open>The macro: the reference is made to redirect to its root, which is the result.\<close>

definition resolve_regionref :: "Segmenter \<Rightarrow> nat \<Rightarrow> (nat \<times> Segmenter) option" where
  "resolve_regionref s r = do {
     p \<leftarrow> buf_read (region_refs s) r;
     if redirect p \<noteq> r then do {
       result \<leftarrow> follow_redirects s r;
       refs \<leftarrow> buf_write (region_refs s) r (p\<lparr>redirect := result\<rparr>);
       Some (result, s\<lparr>region_refs := refs\<rparr>)
     } else Some (r, s)
   }"

text \<open>Read and write a cell of a row; \<open>base\<close> is the row pointer's offset in the buffer.\<close>

definition row_get :: "Segmenter \<Rightarrow> nat \<Rightarrow> nat \<Rightarrow> nat option" where
  "row_get s base x = do {
     c \<leftarrow> buf_read (regions_under_construction s) (base + x);
     c
   }"

definition row_set :: "Segmenter \<Rightarrow> nat \<Rightarrow> nat \<Rightarrow> nat \<Rightarrow> Segmenter option" where
  "row_set s base x ref = do {
     rows \<leftarrow> buf_write (regions_under_construction s) (base + x) (Some ref);
     Some (s\<lparr>regions_under_construction := rows\<rparr>)
   }"

text \<open>\<open>row[x]->region\<close>, and \<open>RESOLVE_REGIONREF_REDIRECTS( row[x], row[x] )\<close>.\<close>

definition ref_region :: "Segmenter \<Rightarrow> nat \<Rightarrow> nat option" where
  "ref_region s ref = do {
     p \<leftarrow> buf_read (region_refs s) ref;
     region p
   }"

definition row_resolve :: "Segmenter \<Rightarrow> nat \<Rightarrow> nat \<Rightarrow> Segmenter option" where
  "row_resolve s base x = do {
     ref \<leftarrow> row_get s base x;
     (result, s) \<leftarrow> resolve_regionref s ref;
     row_set s base x result
   }"

definition row_region :: "Segmenter \<Rightarrow> nat \<Rightarrow> nat \<Rightarrow> nat option" where
  "row_region s base x = do {
     ref \<leftarrow> row_get s base x;
     ref_region s ref
   }"

subsection \<open>The row scan\<close>

text \<open>The top line: pixel \<open>x\<close> for \<open>x \<ge> 1\<close>, then the loop over \<open>n\<close> pixels from \<open>x\<close>.\<close>

definition top_pixel :: "Segmenter \<Rightarrow> nat \<Rightarrow> byte list \<Rightarrow> nat \<Rightarrow> Segmenter option" where
  "top_pixel s cur source x = do {
     p \<leftarrow> buf_read source x;
     q \<leftarrow> buf_read source (x - 1);
     if p = q then do {
       ref \<leftarrow> row_get s cur (x - 1);
       row_set s cur x ref
     } else do {
       (ref, s) \<leftarrow> new_region s x 0 p;
       s \<leftarrow> row_set s cur x ref;
       r \<leftarrow> row_region s cur x;
       s \<leftarrow> or_flags s r ADJACENT_TO_ROOT_REGION_FLAG;
       w \<leftarrow> row_region s cur (x - 1);
       make_adjacent s r w
     }
   }"

fun top_loop :: "Segmenter \<Rightarrow> nat \<Rightarrow> byte list \<Rightarrow> nat \<Rightarrow> nat \<Rightarrow> Segmenter option" where
  "top_loop s cur source x 0 = Some s"
| "top_loop s cur source x (Suc n) = do {
     s \<leftarrow> top_pixel s cur source x;
     top_loop s cur source (Suc x) n
   }"

definition top_line :: "Segmenter \<Rightarrow> nat \<Rightarrow> byte list \<Rightarrow> Segmenter option" where
  "top_line s cur source = do {
     p \<leftarrow> buf_read source 0;
     (ref, s) \<leftarrow> new_region s 0 0 p;
     s \<leftarrow> row_set s cur 0 ref;
     r \<leftarrow> row_region s cur 0;
     s \<leftarrow> or_flags s r ADJACENT_TO_ROOT_REGION_FLAG;
     top_loop s cur source 1 (width s - 1)
   }"

text \<open>The left edge of line \<open>y\<close>.\<close>

definition left_edge :: "Segmenter \<Rightarrow> nat \<Rightarrow> nat \<Rightarrow> byte list \<Rightarrow> nat \<Rightarrow> Segmenter option" where
  "left_edge s prev cur source y = do {
     s \<leftarrow> row_resolve s prev 0;
     p \<leftarrow> buf_read source (y * width s);
     u \<leftarrow> row_region s prev 0;
     pu \<leftarrow> get_region s u;
     if p = colour pu then do {
       ref \<leftarrow> row_get s prev 0;
       row_set s cur 0 ref
     } else do {
       (ref, s) \<leftarrow> new_region s 0 y p;
       s \<leftarrow> row_set s cur 0 ref;
       r \<leftarrow> row_region s cur 0;
       s \<leftarrow> or_flags s r ADJACENT_TO_ROOT_REGION_FLAG;
       u \<leftarrow> row_region s prev 0;
       make_adjacent s r u
     }
   }"

text \<open>
  Merge the region of the west pixel into the region of the north pixel, put its slot on
  the free list and redirect its reference.
\<close>

definition merge_into_previous :: "Segmenter \<Rightarrow> nat \<Rightarrow> nat \<Rightarrow> nat \<Rightarrow> Segmenter option" where
  "merge_into_previous s prev cur x = do {
     u \<leftarrow> row_region s prev x;
     c \<leftarrow> row_region s cur x;
     s \<leftarrow> merge_regions s u c;
     s \<leftarrow> upd_region s c (\<lambda>r. r\<lparr>flags := FREE_REGION_FLAG, nxt := freed_regions_head s\<rparr>);
     let s = s\<lparr>freed_regions_head := Reg c\<rparr>;
     cref \<leftarrow> row_get s cur x;
     uref \<leftarrow> row_get s prev x;
     refs \<leftarrow> buf_write (region_refs s) cref \<lparr>region = None, redirect = uref\<rparr>;
     row_set (s\<lparr>region_refs := refs\<rparr>) cur x uref
   }"

text \<open>A pixel of the centre span (\<open>x \<ge> 1\<close>) of line \<open>y\<close>.\<close>

definition center_pixel ::
  "Segmenter \<Rightarrow> nat \<Rightarrow> nat \<Rightarrow> byte list \<Rightarrow> nat \<Rightarrow> nat \<Rightarrow> Segmenter option" where
  "center_pixel s prev cur source y x = do {
     let i = y * width s + x;
     s \<leftarrow> row_resolve s prev x;
     p \<leftarrow> buf_read source i;
     q \<leftarrow> buf_read source (i - 1);
     if p = q then do {
       cref \<leftarrow> row_get s cur (x - 1);
       s \<leftarrow> row_set s cur x cref;
       uref \<leftarrow> row_get s prev x;
       if cref \<noteq> uref then do {
         u \<leftarrow> row_region s prev x;
         pu \<leftarrow> get_region s u;
         if p = colour pu then merge_into_previous s prev cur x else Some s
       } else Some s
     } else do {
       w \<leftarrow> row_region s cur (x - 1);
       pw \<leftarrow> get_region s w;
       s \<leftarrow> (if right pw < int x - 1
            then upd_region s w (\<lambda>r. r\<lparr>right := to_short (int x - 1)\<rparr>)
            else Some s);
       u \<leftarrow> row_region s prev x;
       pu \<leftarrow> get_region s u;
       if p = colour pu then do {
         uref \<leftarrow> row_get s prev x;
         s \<leftarrow> row_set s cur x uref;
         r \<leftarrow> row_region s cur x;
         upd_region s r (\<lambda>r. r\<lparr>bottom := to_short (int y)\<rparr>)
       } else do {
         (ref, s) \<leftarrow> new_region s x y p;
         s \<leftarrow> row_set s cur x ref;
         r \<leftarrow> row_region s cur x;
         u \<leftarrow> row_region s prev x;
         s \<leftarrow> make_adjacent s r u;
         w \<leftarrow> row_region s cur (x - 1);
         u \<leftarrow> row_region s prev x;
         if w \<noteq> u then do {
           r \<leftarrow> row_region s cur x;
           make_adjacent s r w
         } else Some s
       }
     }
   }"

fun center_loop ::
  "Segmenter \<Rightarrow> nat \<Rightarrow> nat \<Rightarrow> byte list \<Rightarrow> nat \<Rightarrow> nat \<Rightarrow> nat \<Rightarrow> Segmenter option" where
  "center_loop s prev cur source y x 0 = Some s"
| "center_loop s prev cur source y x (Suc n) = do {
     s \<leftarrow> center_pixel s prev cur source y x;
     center_loop s prev cur source y (Suc x) n
   }"

definition process_line ::
  "Segmenter \<Rightarrow> nat \<Rightarrow> nat \<Rightarrow> byte list \<Rightarrow> nat \<Rightarrow> Segmenter option" where
  "process_line s prev cur source y = do {
     s \<leftarrow> left_edge s prev cur source y;
     s \<leftarrow> center_loop s prev cur source y 1 (width s - 1);
     r \<leftarrow> row_region s cur (width s - 1);
     or_flags s r ADJACENT_TO_ROOT_REGION_FLAG
   }"

text \<open>The loop over \<open>n\<close> lines from \<open>y\<close>; each line begins by swapping the two rows.\<close>

fun line_loop ::
  "Segmenter \<Rightarrow> nat \<Rightarrow> nat \<Rightarrow> byte list \<Rightarrow> nat \<Rightarrow> nat \<Rightarrow> (nat \<times> Segmenter) option" where
  "line_loop s prev cur source y 0 = Some (cur, s)"
| "line_loop s prev cur source y (Suc n) = do {
     let (prev, cur) = (cur, prev);
     s \<leftarrow> process_line s prev cur source y;
     line_loop s prev cur source (Suc y) n
   }"

fun bottom_loop :: "Segmenter \<Rightarrow> nat \<Rightarrow> nat \<Rightarrow> nat \<Rightarrow> Segmenter option" where
  "bottom_loop s cur x 0 = Some s"
| "bottom_loop s cur x (Suc n) = do {
     s \<leftarrow> row_resolve s cur x;
     r \<leftarrow> row_region s cur x;
     s \<leftarrow> or_flags s r ADJACENT_TO_ROOT_REGION_FLAG;
     bottom_loop s cur (Suc x) n
   }"

definition build_regions :: "Segmenter \<Rightarrow> byte list \<Rightarrow> Segmenter option" where
  "build_regions s source = do {
     let cur = 0;
     let prev = width s;
     let s = s\<lparr>region_ref_count := 0, region_count := 0, freed_regions_head := Null\<rparr>;
     s \<leftarrow> top_line s cur source;
     (cur, s) \<leftarrow> line_loop s prev cur source 1 (height s - 1);
     bottom_loop s cur 0 (width s)
   }"

subsection \<open>The interface of the segmenter\<close>

text \<open>
  The three results of \<open>malloc\<close> are arguments: the fresh memory of the references and of
  the regions, whose contents are arbitrary, and whether the rows were allocated. A failed
  allocation is the empty list.
\<close>

definition initialize_segmenter ::
  "nat \<Rightarrow> nat \<Rightarrow> nat \<Rightarrow> RegionReference list \<Rightarrow> Region list \<Rightarrow> nat option list \<Rightarrow> Segmenter" where
  "initialize_segmenter w h max_adj refs_mem regs_mem rows_mem = \<lparr>
     region_refs = refs_mem,
     region_ref_count = 0,
     regions = regs_mem,
     region_count = 0,
     freed_regions_head = Null,
     max_adjacent_regions = max_adj,
     width = w,
     height = h,
     regions_under_construction = rows_mem\<rparr>"

definition step_segmenter :: "Segmenter \<Rightarrow> byte list \<Rightarrow> Segmenter option" where
  "step_segmenter s source =
     (if region_refs s \<noteq> [] \<and> regions s \<noteq> [] \<and> regions_under_construction s \<noteq> []
      then build_regions s source else Some s)"

text \<open>The memory a successful initialisation obtains: \<open>w * h\<close> slots and two rows.\<close>

definition segmenter_memory :: "Segmenter \<Rightarrow> bool" where
  "segmenter_memory s \<longleftrightarrow>
     length (region_refs s) = width s * height s \<and>
     length (regions s) = width s * height s \<and>
     length (regions_under_construction s) = 2 * width s"

end
