(* ===== verification/SegmentGraph.thy ===== *)
theory SegmentGraph
  imports Segment
begin

text \<open>
  The abstract specification of the adjacency operations of \<^verbatim>\<open>segment.c\<close>: the adjacency
  lists are an undirected multigraph, the flags a word per region. Each C function is shown
  to return normally and to implement the abstract operation, changing nothing but
  adjacency lists and flags.
\<close>

record graph =
  edges :: "nat \<Rightarrow> nat multiset"
  gflags :: "nat \<Rightarrow> 32 word"

definition graph :: "Segmenter \<Rightarrow> graph" where
  "graph s = \<lparr>
     edges = (\<lambda>x. if x < length (regions s) then mset (adjacent_regions (reg s x)) else {#}),
     gflags = (\<lambda>x. if x < length (regions s) then flags (reg s x) else 0)\<rparr>"

lemma edges_graph: "x < length (regions s) \<Longrightarrow> edges (graph s) x = mset (adjacent_regions (reg s x))"
  by (simp add: graph_def)

lemma gflags_graph: "x < length (regions s) \<Longrightarrow> gflags (graph s) x = flags (reg s x)"
  by (simp add: graph_def)

lemma edges_graph_out [simp]: "\<not> x < length (regions s) \<Longrightarrow> edges (graph s) x = {#}"
  by (simp add: graph_def)

lemma graph_update [simp]:
  "i < length (regions s) \<Longrightarrow>
   graph (s\<lparr>regions := (regions s)[i := p]\<rparr>) = (graph s)\<lparr>
     edges := (edges (graph s))(i := mset (adjacent_regions p)),
     gflags := (gflags (graph s))(i := flags p)\<rparr>"
  by (simp add: graph_def fun_eq_iff)

text \<open>What an adjacency operation leaves alone: all but lists and flags.\<close>

definition same_region :: "Region \<Rightarrow> Region \<Rightarrow> bool" where
  "same_region p q \<longleftrightarrow>
     previous q = previous p \<and> nxt q = nxt p \<and> colour q = colour p \<and>
     left q = left p \<and> rtop q = rtop p \<and> right q = right p \<and> bottom q = bottom p \<and>
     area q = area p \<and> level q = level p \<and> depth q = depth p \<and>
     children_visited_count q = children_visited_count p \<and>
     descendent_count q = descendent_count p \<and> depth_string q = depth_string p"

definition frame :: "Segmenter \<Rightarrow> Segmenter \<Rightarrow> bool" where
  "frame s s' \<longleftrightarrow>
     region_refs s' = region_refs s \<and> region_ref_count s' = region_ref_count s \<and>
     region_count s' = region_count s \<and> freed_regions_head s' = freed_regions_head s \<and>
     max_adjacent_regions s' = max_adjacent_regions s \<and> width s' = width s \<and>
     height s' = height s \<and> regions_under_construction s' = regions_under_construction s \<and>
     length (regions s') = length (regions s) \<and>
     (\<forall>x < length (regions s). same_region (reg s x) (reg s' x))"

lemma same_region_refl [intro, simp]: "same_region p p"
  by (simp add: same_region_def)

lemma same_region_trans: "same_region p q \<Longrightarrow> same_region q r \<Longrightarrow> same_region p r"
  by (simp add: same_region_def)

lemma same_region_flags [simp]: "same_region p (p\<lparr>flags := f\<rparr>)"
  and same_region_adj [simp]: "same_region p (p\<lparr>adjacent_regions := as\<rparr>)"
  by (simp_all add: same_region_def)

lemma frame_refl [intro, simp]: "frame s s"
  by (simp add: frame_def)

lemma frame_trans: "frame s t \<Longrightarrow> frame t u \<Longrightarrow> frame s u"
  unfolding frame_def by (auto intro: same_region_trans)

lemma frame_length: "frame s s' \<Longrightarrow> length (regions s') = length (regions s)"
  by (simp add: frame_def)

lemma frame_fields:
  assumes "frame s s'"
  shows "region_refs s' = region_refs s" "region_ref_count s' = region_ref_count s"
    "region_count s' = region_count s" "freed_regions_head s' = freed_regions_head s"
    "max_adjacent_regions s' = max_adjacent_regions s" "width s' = width s" "height s' = height s"
    "regions_under_construction s' = regions_under_construction s"
  using assms by (simp_all add: frame_def)

lemma frame_region: "frame s s' \<Longrightarrow> x < length (regions s) \<Longrightarrow> same_region (reg s x) (reg s' x)"
  by (simp add: frame_def)

lemma frame_update:
  "i < length (regions s) \<Longrightarrow> same_region (reg s i) p \<Longrightarrow>
   frame s (s\<lparr>regions := (regions s)[i := p]\<rparr>)"
  by (simp add: frame_def nth_list_update)

text \<open>
  An operation \<open>m\<close> started in \<open>s\<close> implements the abstract result \<open>g\<close>: it returns, keeps the
  frame, and the graph of the new state is \<open>g\<close>.
\<close>

definition implements :: "Segmenter \<Rightarrow> Segmenter option \<Rightarrow> graph \<Rightarrow> bool" where
  "implements s m g \<longleftrightarrow> (\<exists>s'. m = Some s' \<and> frame s s' \<and> graph s' = g)"

lemma implementsI: "m = Some s' \<Longrightarrow> frame s s' \<Longrightarrow> graph s' = g \<Longrightarrow> implements s m g"
  by (auto simp: implements_def)

lemma implementsE:
  assumes "implements s m g"
  obtains s' where "m = Some s'" "frame s s'" "graph s' = g" "length (regions s') = length (regions s)"
  using assms by (auto simp: implements_def frame_length)

lemma implements_Some [simp]: "implements s (Some s) (graph s)"
  by (auto simp: implements_def)

lemma implements_bind:
  assumes "implements s m g"
    and "\<And>t. m = Some t \<Longrightarrow> frame s t \<Longrightarrow> graph t = g \<Longrightarrow> length (regions t) = length (regions s) \<Longrightarrow>
           implements t (k t) h"
  shows "implements s (m \<bind> k) h"
proof -
  from assms(1) obtain t where t: "m = Some t" "frame s t" "graph t = g" "length (regions t) = length (regions s)"
    by (rule implementsE)
  with assms(2) obtain u where "k t = Some u" "frame t u" "graph u = h" by (auto elim: implementsE)
  with t show ?thesis by (auto intro: implementsI frame_trans)
qed

subsection \<open>The abstract operations\<close>

definition g_or :: "nat \<Rightarrow> 32 word \<Rightarrow> graph \<Rightarrow> graph" where
  "g_or r m g = g\<lparr>gflags := (gflags g)(r := gflags g r OR m)\<rparr>"

definition g_unlink :: "nat \<Rightarrow> nat \<Rightarrow> graph \<Rightarrow> graph" where
  "g_unlink r1 r2 g = g\<lparr>edges := (edges g)(r1 := edges g r1 - {#r2#})\<rparr>"

text \<open>Saturating \<open>r1\<close> detaches it from all its neighbours and marks them as fragmented.\<close>

definition g_saturate :: "nat \<Rightarrow> graph \<Rightarrow> graph" where
  "g_saturate r1 g = \<lparr>
     edges = (\<lambda>x. if x = r1 then {#} else edges g x - replicate_mset (count (edges g r1) x) r1),
     gflags = (\<lambda>x. if x = r1 then gflags g x OR SATURATED_REGION_FLAG
                  else if x \<in># edges g r1 then gflags g x OR FRAGMENTED_REGION_FLAG
                  else gflags g x)\<rparr>"

definition g_link :: "nat \<Rightarrow> nat \<Rightarrow> graph \<Rightarrow> graph" where
  "g_link r1 r2 g = g\<lparr>edges := (edges g)(r1 := add_mset r2 (edges g r1), r2 := add_mset r1 (edges g r2))\<rparr>"

definition g_saturated :: "graph \<Rightarrow> nat \<Rightarrow> bool" where
  "g_saturated g r = flag_set (gflags g r) SATURATED_REGION_FLAG"

text \<open>The contract of \<open>make_adjacent\<close> with at most \<open>m\<close> edges at a region.\<close>

definition g_make_adjacent :: "nat \<Rightarrow> nat \<Rightarrow> nat \<Rightarrow> graph \<Rightarrow> graph" where
  "g_make_adjacent m r1 r2 g =
     (if r2 \<in># edges g r1 then g
      else if g_saturated g r1 then g_or r2 FRAGMENTED_REGION_FLAG g
      else if g_saturated g r2 then g_or r1 FRAGMENTED_REGION_FLAG g
      else if size (edges g r1) = m then
        (let g' = g_or r2 FRAGMENTED_REGION_FLAG (g_saturate r1 g)
         in if size (edges g' r2) = m
            then g_or r1 FRAGMENTED_REGION_FLAG (g_saturate r2 g') else g')
      else if size (edges g r2) = m then g_or r1 FRAGMENTED_REGION_FLAG (g_saturate r2 g)
      else g_link r1 r2 g)"

text \<open>
  The edges of a set of regions \<open>D\<close> are well formed: they stay in \<open>D\<close>, are symmetric with
  multiplicities, number at most \<open>m\<close> at each region, join different classes of \<open>c\<close> (the
  colours), and saturated regions have none.
\<close>

definition graph_ok :: "nat \<Rightarrow> (nat \<Rightarrow> byte) \<Rightarrow> nat set \<Rightarrow> graph \<Rightarrow> bool" where
  "graph_ok m c D g \<longleftrightarrow> (\<forall>r\<in>D. set_mset (edges g r) \<subseteq> D \<and> size (edges g r) \<le> m \<and>
     (g_saturated g r \<longrightarrow> edges g r = {#}) \<and>
     (\<forall>a\<in>D. count (edges g r) a = count (edges g a) r) \<and>
     (\<forall>a\<in>#edges g r. c a \<noteq> c r))"

lemma graph_okD:
  assumes "graph_ok m c D g" "r \<in> D"
  shows "set_mset (edges g r) \<subseteq> D" "size (edges g r) \<le> m"
    "g_saturated g r \<Longrightarrow> edges g r = {#}"
    "a \<in> D \<Longrightarrow> count (edges g r) a = count (edges g a) r"
    "a \<in># edges g r \<Longrightarrow> c a \<noteq> c r"
  using assms by (auto simp: graph_ok_def)

lemma graph_okI:
  assumes "\<And>r. r \<in> D \<Longrightarrow> set_mset (edges g r) \<subseteq> D" "\<And>r. r \<in> D \<Longrightarrow> size (edges g r) \<le> m"
    "\<And>r. r \<in> D \<Longrightarrow> g_saturated g r \<Longrightarrow> edges g r = {#}"
    "\<And>r a. r \<in> D \<Longrightarrow> a \<in> D \<Longrightarrow> count (edges g r) a = count (edges g a) r"
    "\<And>r a. r \<in> D \<Longrightarrow> a \<in># edges g r \<Longrightarrow> c a \<noteq> c r"
  shows "graph_ok m c D g"
  using assms by (simp add: graph_ok_def)

lemma graph_ok_cong:
  assumes ok: "graph_ok m c D g" and c: "\<And>x. x \<in> D \<Longrightarrow> c' x = c x"
  shows "graph_ok m c' D g"
proof (rule graph_okI)
  fix r a assume r: "r \<in> D" and a: "a \<in># edges g r"
  then have "a \<in> D" using graph_okD(1) [OF ok r] by auto
  then show "c' a \<noteq> c' r" using graph_okD(5) [OF ok r a] c r by simp
qed (use graph_okD [OF ok] in auto)

lemma graph_ok_irrefl: "graph_ok m c D g \<Longrightarrow> r \<in> D \<Longrightarrow> r \<notin># edges g r"
  using graph_okD(5) by blast

lemma graph_ok_sym: "graph_ok m c D g \<Longrightarrow> r \<in> D \<Longrightarrow> a \<in> D \<Longrightarrow> a \<in># edges g r \<longleftrightarrow> r \<in># edges g a"
  by (metis graph_okD(4) count_greater_zero_iff)

lemma g_saturate_sym:
  assumes ok: "graph_ok m c D g" and r: "r1 \<in> D" and x: "x \<in> D"
  shows "edges (g_saturate r1 g) x = (if x = r1 then {#} else filter_mset (\<lambda>a. a \<noteq> r1) (edges g x))"
proof (cases "x = r1")
  case True
  then show ?thesis by (simp add: g_saturate_def)
next
  case False
  have "count (edges g r1) x = count (edges g x) r1" using ok r x by (simp add: graph_okD(4))
  then have "edges g x - replicate_mset (count (edges g r1) x) r1 = filter_mset (\<lambda>a. a \<noteq> r1) (edges g x)"
    by (auto intro!: multiset_eqI)
  with False show ?thesis by (simp add: g_saturate_def)
qed

subsection \<open>The C operations implement the abstract ones\<close>

lemma adjacent_list_contains_iff [simp]: "adjacent_list_contains xs a \<longleftrightarrow> a \<in> set xs"
  by (induction xs) auto

lemma find_adjacent_Some:
  "find_adjacent xs a i = Some j \<Longrightarrow> i \<le> j \<and> j - i < length xs \<and> xs ! (j - i) = a"
proof (induction xs arbitrary: i)
  case (Cons x xs)
  show ?case
  proof (cases "x = a")
    case True
    with Cons.prems show ?thesis by simp
  next
    case False
    with Cons.prems Cons.IH [of "Suc i"]
    have "Suc i \<le> j" "j - Suc i < length xs" "xs ! (j - Suc i) = a" by auto
    then show ?thesis by (auto simp: nth_Cons' Suc_diff_Suc)
  qed
qed simp

lemma find_adjacent_ex: "a \<in> set xs \<Longrightarrow> \<exists>j. find_adjacent xs a i = Some j"
  by (induction xs arbitrary: i) auto

lemma find_adjacent_found:
  assumes "a \<in> set xs"
  obtains j where "find_adjacent xs a 0 = Some j" "j < length xs" "xs ! j = a"
  using find_adjacent_ex [OF assms, of 0] find_adjacent_Some [of xs a 0] by auto

lemma or_flags_impl:
  "r < length (regions s) \<Longrightarrow> implements s (or_flags s r m) (g_or r m (graph s))"
  by (rule implementsI [OF or_flags_eq])
    (auto intro: frame_update simp: g_or_def gflags_graph edges_graph [symmetric])

lemma or_flags_impl':
  "r < length (regions t) \<Longrightarrow> graph t = g \<Longrightarrow> implements t (or_flags t r m) (g_or r m g)"
  using or_flags_impl by blast

lemma remove_adjacent_eq:
  assumes r1: "r1 < length (regions s)" and r2: "r2 \<in># edges (graph s) r1"
  obtains xs where
    "remove_adjacent_from s r1 r2 =
       Some (s\<lparr>regions := (regions s)[r1 := (reg s r1)\<lparr>adjacent_regions := xs\<rparr>]\<rparr>)"
    "mset xs = edges (graph s) r1 - {#r2#}"
proof -
  from r1 r2 have "r2 \<in> set (adjacent_regions (reg s r1))" by (simp add: edges_graph)
  then obtain j where j: "find_adjacent (adjacent_regions (reg s r1)) r2 0 = Some j"
      "j < length (adjacent_regions (reg s r1))" "adjacent_regions (reg s r1) ! j = r2"
    by (rule find_adjacent_found)
  show ?thesis
    by (rule that [of "swap_remove (adjacent_regions (reg s r1)) j"])
      (simp_all add: remove_adjacent_from_def buf_simps r1 j edges_graph mset_swap_remove)
qed

lemma remove_adjacent_impl:
  assumes "r1 < length (regions s)" "r2 \<in># edges (graph s) r1"
  shows "implements s (remove_adjacent_from s r1 r2) (g_unlink r1 r2 (graph s))"
proof -
  from assms obtain xs where rm: "remove_adjacent_from s r1 r2 =
       Some (s\<lparr>regions := (regions s)[r1 := (reg s r1)\<lparr>adjacent_regions := xs\<rparr>]\<rparr>)"
      and xs: "mset xs = edges (graph s) r1 - {#r2#}"
    by (rule remove_adjacent_eq)
  show ?thesis
    by (rule implementsI [OF rm])
      (use assms xs in \<open>simp_all add: frame_update g_unlink_def gflags_graph [symmetric]\<close>)
qed

text \<open>Detaching \<open>r1\<close> from the regions of a list, marking each as fragmented.\<close>

definition g_detach :: "nat list \<Rightarrow> nat \<Rightarrow> graph \<Rightarrow> graph" where
  "g_detach L r1 g = \<lparr>
     edges = (\<lambda>x. edges g x - replicate_mset (count (mset L) x) r1),
     gflags = (\<lambda>x. if x \<in> set L then gflags g x OR FRAGMENTED_REGION_FLAG else gflags g x)\<rparr>"

lemma word_or_absorb: "((x :: 32 word) OR m) OR m = x OR m"
  by (simp add: or.assoc)

lemma g_detach_Cons:
  "g_detach (a # L) r1 g = g_detach L r1 (g_or a FRAGMENTED_REGION_FLAG (g_unlink a r1 g))"
proof -
  have "edges g a - add_mset r1 (replicate_mset n r1) = edges g a - {#r1#} - replicate_mset n r1" for n
    by (simp add: multiset_eq_iff)
  then show ?thesis
    by (auto simp: g_detach_def g_or_def g_unlink_def fun_eq_iff word_or_absorb)
qed

lemma g_detach_Nil [simp]: "g_detach [] r1 g = g"
  by (cases g) (simp add: g_detach_def)

lemma make_saturated_loop_impl:
  assumes "adjacent_regions (reg s r1) = as" "i + n = length as" "r1 < length (regions s)"
    and "r1 \<notin> set as" "set as \<subseteq> {..<length (regions s)}"
    and "\<And>x. count (mset (drop i as)) x \<le> count (edges (graph s) x) r1"
  shows "implements s (make_saturated_loop s r1 i n) (g_detach (drop i as) r1 (graph s))"
  using assms
proof (induction n arbitrary: s i)
  case 0
  then show ?case by simp
next
  case (Suc n)
  define a where "a = as ! i"
  from Suc.prems have i: "i < length as" by simp
  then have dr: "drop i as = a # drop (Suc i) as" by (simp add: a_def Cons_nth_drop_Suc)
  from i have a_in: "a \<in> set as" by (simp add: a_def)
  with Suc.prems have a: "a \<noteq> r1" "a < length (regions s)" by auto
  have "0 < count (mset (drop i as)) a" by (simp add: dr)
  also have "\<dots> \<le> count (edges (graph s) a) r1" by (rule Suc.prems(6))
  finally have "r1 \<in># edges (graph s) a" by (simp only: count_greater_zero_iff)
  with a obtain xs where rm: "remove_adjacent_from s a r1 =
       Some (s\<lparr>regions := (regions s)[a := (reg s a)\<lparr>adjacent_regions := xs\<rparr>]\<rparr>)"
      and xs: "mset xs = edges (graph s) a - {#r1#}"
    by (elim remove_adjacent_eq)
  define t where "t = s\<lparr>regions := (regions s)[a := (reg s a)\<lparr>adjacent_regions := xs,
      flags := flags (reg s a) OR FRAGMENTED_REGION_FLAG\<rparr>]\<rparr>"
  have step: "make_saturated_loop s r1 i (Suc n) = make_saturated_loop t r1 (Suc i) n"
    using Suc.prems i a by (simp add: buf_simps a_def [symmetric] rm t_def)
  have g: "graph t = g_or a FRAGMENTED_REGION_FLAG (g_unlink a r1 (graph s))"
    using a xs by (simp add: t_def g_or_def g_unlink_def gflags_graph)
  have fr: "frame s t"
    unfolding t_def using a by (intro frame_update) (simp_all add: same_region_def)
  have cnt: "count (mset (drop (Suc i) as)) x \<le> count (edges (graph t) x) r1" for x
    using Suc.prems(6) [of x] by (auto simp: g dr g_or_def g_unlink_def split: if_splits)
  have IH: "implements t (make_saturated_loop t r1 (Suc i) n) (g_detach (drop (Suc i) as) r1 (graph t))"
    using Suc.prems a cnt by (intro Suc.IH) (simp_all add: t_def)
  then have "implements s (make_saturated_loop t r1 (Suc i) n) (g_detach (drop (Suc i) as) r1 (graph t))"
    using fr by (auto elim!: implementsE intro: implementsI frame_trans)
  then show ?case by (simp only: step dr g g_detach_Cons)
qed

text \<open>The precondition of \<open>make_saturated\<close>: the neighbours of \<open>r1\<close> have matching entries.\<close>

definition attached :: "graph \<Rightarrow> nat \<Rightarrow> nat \<Rightarrow> bool" where
  "attached g n r1 \<longleftrightarrow> r1 < n \<and> r1 \<notin># edges g r1 \<and> set_mset (edges g r1) \<subseteq> {..<n} \<and>
     (\<forall>x. count (edges g r1) x \<le> count (edges g x) r1)"

lemma make_saturated_impl:
  assumes "attached (graph s) (length (regions s)) r1"
  shows "implements s (make_saturated s r1) (g_saturate r1 (graph s))"
proof -
  define as where "as = adjacent_regions (reg s r1)"
  from assms have r1: "r1 < length (regions s)" by (simp add: attached_def)
  then have e: "edges (graph s) r1 = mset as" by (simp add: as_def edges_graph)
  with assms have as: "r1 \<notin> set as" "set as \<subseteq> {..<length (regions s)}"
      "\<And>x. count (mset as) x \<le> count (edges (graph s) x) r1"
    by (auto simp: attached_def)
  have "implements s (make_saturated_loop s r1 0 (length as)) (g_detach as r1 (graph s))"
    using make_saturated_loop_impl [OF as_def [symmetric], of 0 "length as"] r1 as by simp
  then obtain t where t: "make_saturated_loop s r1 0 (length as) = Some t" "frame s t"
      "graph t = g_detach as r1 (graph s)" "length (regions t) = length (regions s)"
    by (rule implementsE)
  define u where "u = t\<lparr>regions := (regions t)[r1 := (reg t r1)\<lparr>adjacent_regions := [],
      flags := flags (reg t r1) OR SATURATED_REGION_FLAG\<rparr>]\<rparr>"
  have "make_saturated s r1 = Some u"
    using r1 t by (simp add: make_saturated_def buf_simps adjacent_region_count_def as_def [symmetric] u_def)
  moreover have "frame s u"
    using t r1 unfolding u_def by (intro frame_trans [OF t(2)] frame_update) (simp_all add: same_region_def)
  moreover have "gflags (graph t) r1 = gflags (graph s) r1"
    using t(3) as by (simp add: g_detach_def)
  then have "flags (reg t r1) = gflags (graph s) r1"
    using r1 t(4) by (simp add: gflags_graph)
  then have "graph u = g_saturate r1 (graph s)"
    using r1 t as e by (simp add: u_def g_saturate_def g_detach_def fun_eq_iff)
  ultimately show ?thesis by (rule implementsI)
qed

lemma graph_ok_attached:
  assumes "graph_ok m c D g" "r1 \<in> D" "D \<subseteq> {..<n}"
  shows "attached g n r1"
proof -
  have "count (edges g r1) x \<le> count (edges g x) r1" for x
  proof (cases "x \<in> D")
    case True
    with assms show ?thesis by (simp add: graph_okD(4))
  next
    case False
    with assms have "x \<notin># edges g r1" using graph_okD(1) by blast
    then show ?thesis by (simp add: not_in_iff)
  qed
  with assms graph_okD(1) [OF assms(1,2)] graph_ok_irrefl [OF assms(1,2)] show ?thesis
    by (auto simp: attached_def)
qed

subsection \<open>The abstract operations keep the graph well formed\<close>

lemma not_sat_fragmented [simp]:
  "\<not> flag_set FRAGMENTED_REGION_FLAG SATURATED_REGION_FLAG"
  "\<not> flag_set ADJACENT_TO_ROOT_REGION_FLAG SATURATED_REGION_FLAG"
  "flag_set SATURATED_REGION_FLAG SATURATED_REGION_FLAG"
  by (simp_all add: flag_set_def region_flag_defs)

lemma g_or_simps [simp]:
  "edges (g_or r w g) = edges g"
  "g_saturated (g_or r w g) x \<longleftrightarrow>
     g_saturated g x \<or> (x = r \<and> flag_set w SATURATED_REGION_FLAG)"
  by (auto simp: g_or_def g_saturated_def flag_set_or)

lemma g_saturated_saturate [simp]:
  "g_saturated (g_saturate r g) x \<longleftrightarrow> g_saturated g x \<or> x = r"
  by (auto simp: g_saturate_def g_saturated_def flag_set_or)

lemma g_or_ok:
  "graph_ok m c D g \<Longrightarrow> \<not> flag_set w SATURATED_REGION_FLAG \<Longrightarrow> graph_ok m c D (g_or r w g)"
  by (simp add: graph_ok_def)

lemma g_saturate_ok:
  assumes ok: "graph_ok m c D g" and r1: "r1 \<in> D"
  shows "graph_ok m c D (g_saturate r1 g)"
proof -
  note e = g_saturate_sym [OF ok r1]
  have sz: "size (filter_mset P (edges g r)) \<le> m" if "r \<in> D" for P r
    using size_filter_mset_lesseq graph_okD(2) [OF ok that] by (rule le_trans)
  show ?thesis
  proof (rule graph_okI)
    fix r assume r: "r \<in> D"
    show "set_mset (edges (g_saturate r1 g) r) \<subseteq> D" using graph_okD(1) [OF ok r] r by (auto simp: e)
    show "size (edges (g_saturate r1 g) r) \<le> m" using sz [OF r] r by (simp add: e)
    show "edges (g_saturate r1 g) r = {#}" if "g_saturated (g_saturate r1 g) r"
      using that graph_okD(3) [OF ok r] r by (auto simp: e)
    show "c a \<noteq> c r" if "a \<in># edges (g_saturate r1 g) r" for a
      using that graph_okD(5) [OF ok r] r by (auto simp: e split: if_splits)
    show "count (edges (g_saturate r1 g) r) a = count (edges (g_saturate r1 g) a) r" if "a \<in> D" for a
      using graph_okD(4) [OF ok r that] that r by (simp add: e)
  qed
qed

lemma g_link_ok:
  assumes ok: "graph_ok m c D g" and r: "r1 \<in> D" "r2 \<in> D" and c: "c r1 \<noteq> c r2"
    and sz: "size (edges g r1) < m" "size (edges g r2) < m"
    and sat: "\<not> g_saturated g r1" "\<not> g_saturated g r2"
  shows "graph_ok m c D (g_link r1 r2 g)"
proof -
  have ne: "r1 \<noteq> r2" using c by auto
  have s: "g_saturated (g_link r1 r2 g) x = g_saturated g x" for x
    by (simp add: g_link_def g_saturated_def)
  show ?thesis
    unfolding graph_ok_def s
    using ok r c sz sat ne
    by (auto simp: g_link_def graph_ok_def)
qed

lemma g_make_adjacent_ok:
  assumes ok: "graph_ok m c D g" and r: "r1 \<in> D" "r2 \<in> D" and c: "c r1 \<noteq> c r2"
  shows "graph_ok m c D (g_make_adjacent m r1 r2 g)"
proof -
  have "size (edges g r1) < m" if "size (edges g r1) \<noteq> m"
    using graph_okD(2) [OF ok r(1)] that by simp
  moreover have "size (edges g r2) < m" if "size (edges g r2) \<noteq> m"
    using graph_okD(2) [OF ok r(2)] that by simp
  ultimately show ?thesis
    using assms
    by (auto simp: g_make_adjacent_def Let_def intro!: g_or_ok g_saturate_ok g_link_ok)
qed

lemma is_adjacent_eq:
  assumes "graph_ok m c D (graph s)" "D \<subseteq> {..<length (regions s)}" "r1 \<in> D" "r2 \<in> D"
  shows "is_adjacent s r1 r2 = Some (r2 \<in># edges (graph s) r1)"
proof -
  from assms have len: "r1 < length (regions s)" "r2 < length (regions s)" by auto
  with graph_ok_sym [OF assms(1,3,4)]
  show ?thesis by (simp add: is_adjacent_def buf_simps edges_graph)
qed

lemma r1_adjacent_contains_r2_eq:
  "r1 < length (regions s) \<Longrightarrow> r1_adjacent_contains_r2 s r1 r2 = Some (r2 \<in># edges (graph s) r1)"
  by (simp add: r1_adjacent_contains_r2_def buf_simps edges_graph)

lemma adjacent_region_count_eq:
  "r < length (regions s) \<Longrightarrow> adjacent_region_count (reg s r) = size (edges (graph s) r)"
  by (simp add: adjacent_region_count_def edges_graph)

lemma is_saturated_eq:
  "r < length (regions s) \<Longrightarrow> is_saturated (reg s r) = g_saturated (graph s) r"
  by (simp add: is_saturated_def g_saturated_def gflags_graph)

lemma append_adjacent_impl:
  assumes "r < length (regions s)" "size (edges (graph s) r) < max_adjacent_regions s"
  shows "implements s (append_adjacent s r a)
           ((graph s)\<lparr>edges := (edges (graph s))(r := add_mset a (edges (graph s) r))\<rparr>)"
proof -
  let ?p = "(reg s r)\<lparr>adjacent_regions := adjacent_regions (reg s r) @ [a]\<rparr>"
  have "append_adjacent s r a = Some (s\<lparr>regions := (regions s)[r := ?p]\<rparr>)"
    using assms by (simp add: append_adjacent_def buf_simps adjacent_region_count_eq)
  then show ?thesis
    by (rule implementsI) (use assms in \<open>simp_all add: frame_update edges_graph gflags_graph [symmetric]\<close>)
qed

lemma make_adjacent_impl:
  assumes ok: "graph_ok m c D (graph s)" and D: "D \<subseteq> {..<length (regions s)}"
    and r: "r1 \<in> D" "r2 \<in> D" and c: "c r1 \<noteq> c r2" and m: "m = max_adjacent_regions s"
  shows "implements s (make_adjacent s r1 r2) (g_make_adjacent m r1 r2 (graph s))"
proof -
  let ?g = "graph s" and ?F = FRAGMENTED_REGION_FLAG
  from r D have len: "r1 < length (regions s)" "r2 < length (regions s)" by auto
  have lt: "size (edges ?g x) < m" if "x \<in> D" "size (edges ?g x) \<noteq> m" for x
    using graph_okD(2) [OF ok that(1)] that(2) by simp
  have sat: "implements t (make_saturated t x) (g_saturate x (graph t))"
    if "graph_ok m c D (graph t)" "x \<in> D" "frame s t" for t x
    using that D by (intro make_saturated_impl graph_ok_attached [OF that(1,2)]) (simp add: frame_length)
  have inner: "implements s (make_adjacent_update s r1 r2) (g_make_adjacent m r1 r2 ?g)"
    if "r2 \<notin># edges ?g r1"
  proof -
    have eqs: "get_region s r1 = Some (reg s r1)" "get_region s r2 = Some (reg s r2)"
      using len by (simp_all add: buf_simps)
    note [simp] = eqs is_saturated_eq [OF len(1)] is_saturated_eq [OF len(2)] m [symmetric]
      adjacent_region_count_eq [OF len(1)] adjacent_region_count_eq [OF len(2)]
    consider (s1) "g_saturated ?g r1" | (s2) "\<not> g_saturated ?g r1" "g_saturated ?g r2"
      | (f1) "\<not> g_saturated ?g r1" "\<not> g_saturated ?g r2" "size (edges ?g r1) = m"
      | (f2) "\<not> g_saturated ?g r1" "\<not> g_saturated ?g r2" "size (edges ?g r1) \<noteq> m" "size (edges ?g r2) = m"
      | (free) "\<not> g_saturated ?g r1" "\<not> g_saturated ?g r2" "size (edges ?g r1) \<noteq> m" "size (edges ?g r2) \<noteq> m"
      by blast
    then show ?thesis
    proof cases
      case s1
      then show ?thesis using that or_flags_impl [OF len(2)]
        by (simp add: make_adjacent_update_def g_make_adjacent_def)
    next
      case s2
      then show ?thesis using that or_flags_impl [OF len(1)]
        by (simp add: make_adjacent_update_def g_make_adjacent_def)
    next
      case f2
      have "implements s (make_saturated s r2 \<bind> (\<lambda>s. or_flags s r1 ?F)) (g_or r1 ?F (g_saturate r2 ?g))"
        by (rule implements_bind [OF sat [OF ok r(2) frame_refl]], rule or_flags_impl') (use len in auto)
      then show ?thesis using f2 that by (simp add: make_adjacent_update_def g_make_adjacent_def)
    next
      case free
      have "implements s (append_adjacent s r1 r2 \<bind> (\<lambda>s. append_adjacent s r2 r1)) (g_link r1 r2 ?g)"
      proof (rule implements_bind [OF append_adjacent_impl])
        show "size (edges ?g r1) < max_adjacent_regions s" using free lt r by simp
        fix t assume t: "frame s t" "length (regions t) = length (regions s)"
          "graph t = ?g\<lparr>edges := (edges ?g)(r1 := add_mset r2 (edges ?g r1))\<rparr>"
        have "implements t (append_adjacent t r2 r1)
            ((graph t)\<lparr>edges := (edges (graph t))(r2 := add_mset r1 (edges (graph t) r2))\<rparr>)"
          using free lt [OF r(2)] len t(2,3) c frame_fields(5) [OF t(1)]
          by (intro append_adjacent_impl) auto
        moreover have "(graph t)\<lparr>edges := (edges (graph t))(r2 := add_mset r1 (edges (graph t) r2))\<rparr>
            = g_link r1 r2 ?g"
          using c by (auto simp: t(3) g_link_def)
        ultimately show "implements t (append_adjacent t r2 r1) (g_link r1 r2 ?g)" by simp
      qed (use len in simp)
      then show ?thesis using free that lt [OF r(1)] lt [OF r(2)]
        by (simp add: make_adjacent_update_def g_make_adjacent_def)
    next
      case f1
      define g' where "g' = g_or r2 ?F (g_saturate r1 ?g)"
      have g'_ok: "graph_ok m c D g'"
        unfolding g'_def by (intro g_or_ok g_saturate_ok assms) simp
      have "implements s (make_saturated s r1 \<bind> (\<lambda>s. or_flags s r2 ?F \<bind> (\<lambda>s.
          get_region s r2 \<bind> (\<lambda>p2. if adjacent_region_count p2 = max_adjacent_regions s
            then make_saturated s r2 \<bind> (\<lambda>s. or_flags s r1 ?F) else Some s))))
          (if size (edges g' r2) = m then g_or r1 ?F (g_saturate r2 g') else g')"
      proof (rule implements_bind [OF sat [OF assms(1) r(1) frame_refl]],
          rule implements_bind [OF or_flags_impl'])
        fix t assume t: "frame s t" "length (regions t) = length (regions s)"
        show "r2 < length (regions t)" using len t by simp
        fix u assume "frame t u" "graph u = g_or r2 ?F (g_saturate r1 ?g)"
          and lu: "length (regions u) = length (regions t)"
        then have u: "frame s u" "graph u = g'" "r1 < length (regions u)" "r2 < length (regions u)"
          using t len by (auto intro: frame_trans simp: g'_def)
        have mu: "max_adjacent_regions u = m" using frame_fields(5) [OF u(1)] by simp
        have "implements u (make_saturated u r2) (g_saturate r2 g')"
          using sat [of u r2] u g'_ok r by simp
        then have "implements u (make_saturated u r2 \<bind> (\<lambda>s. or_flags s r1 ?F))
            (g_or r1 ?F (g_saturate r2 g'))"
          by (rule implements_bind) (use u in \<open>auto intro: or_flags_impl'\<close>)
        then show "implements u (get_region u r2 \<bind> (\<lambda>p2.
            if adjacent_region_count p2 = max_adjacent_regions u
            then make_saturated u r2 \<bind> (\<lambda>s. or_flags s r1 ?F) else Some u))
            (if size (edges g' r2) = m then g_or r1 ?F (g_saturate r2 g') else g')"
          using u mu implements_Some [of u] by (simp add: buf_simps adjacent_region_count_eq)
      qed simp
      then show ?thesis using f1 that
        by (simp add: make_adjacent_update_def g_make_adjacent_def g'_def Let_def split: if_split_asm)
    qed
  qed
  have "implements s (if r2 \<notin># edges ?g r1 then make_adjacent_update s r1 r2 else Some s)
      (g_make_adjacent m r1 r2 ?g)"
    using inner implements_Some [of s] by (simp add: g_make_adjacent_def)
  then obtain t where t: "(if r2 \<notin># edges ?g r1 then make_adjacent_update s r1 r2 else Some s) = Some t"
      "frame s t" "graph t = g_make_adjacent m r1 r2 ?g" "length (regions t) = length (regions s)"
    by (rule implementsE)
  have "graph_ok m c D (graph t)" unfolding t(3) by (rule g_make_adjacent_ok [OF ok r c])
  then have "r2 \<in># edges (graph t) r1 \<longleftrightarrow> r1 \<in># edges (graph t) r2" using r by (rule graph_ok_sym)
  then have "make_adjacent s r1 r2 = Some t"
    using len t(1,4) by (auto simp: make_adjacent_def is_adjacent_eq [OF ok D r]
        r1_adjacent_contains_r2_eq)
  with t(2,3) show ?thesis by (auto intro: implementsI)
qed

end
