(* ===== verification/SegmentMerge.thy ===== *)
theory SegmentMerge
  imports SegmentGraph
begin

text \<open>
  The merge of two regions: the adjacency part of \<open>merge_regions\<close> implements an abstract
  merge of two nodes of the multigraph, up to the choice \<open>C\<close> of the common neighbours whose
  second edge is dropped (the scan of the code may leave some of them).
\<close>

definition g_drop :: "nat \<Rightarrow> nat multiset \<Rightarrow> graph \<Rightarrow> graph" where
  "g_drop r2 C g = g\<lparr>edges := (\<lambda>x. if x = r2 then edges g r2 - C
                              else edges g x - replicate_mset (count C x) r2)\<rparr>"

definition g_move :: "nat list \<Rightarrow> nat \<Rightarrow> nat \<Rightarrow> graph \<Rightarrow> graph" where
  "g_move L r1 r2 g = g\<lparr>edges := (\<lambda>x. if x = r1 then edges g r1 + mset L
      else edges g x - replicate_mset (count (mset L) x) r2 + replicate_mset (count (mset L) x) r1)\<rparr>"

text \<open>All edges of \<open>r2\<close> become edges of \<open>r1\<close>.\<close>

definition g_absorb :: "nat \<Rightarrow> nat \<Rightarrow> graph \<Rightarrow> graph" where
  "g_absorb r1 r2 g = g\<lparr>edges := (\<lambda>x. if x = r1 then edges g r1 + edges g r2
      else if x = r2 then {#}
      else edges g x - replicate_mset (count (edges g r2) x) r2 + replicate_mset (count (edges g r2) x) r1)\<rparr>"

definition g_merge :: "nat \<Rightarrow> nat \<Rightarrow> nat \<Rightarrow> nat multiset \<Rightarrow> graph \<Rightarrow> graph" where
  "g_merge m r1 r2 C g =
     (if g_saturated g r1 then g_saturate r1 (g_saturate r2 g)
      else if g_saturated g r2 then g_saturate r1 g
      else let g1 = g_drop r2 C g in
        if size (edges g1 r1) + size (edges g1 r2) > m then g_saturate r2 (g_saturate r1 g1)
        else g_absorb r1 r2 g1)"

lemma g_drop_empty [simp]: "g_drop r2 {#} g = g"
  by (cases g) (simp add: g_drop_def fun_eq_iff)

lemma g_drop_add:
  assumes "a \<noteq> r2" "C \<subseteq># edges g r2 - {#a#}"
  shows "g_drop r2 C (g_drop r2 {#a#} g) = g_drop r2 (add_mset a C) g"
proof -
  have "edges g x - {#r2#} - replicate_mset n r2 = edges g x - add_mset r2 (replicate_mset n r2)" for x n
    by (simp add: multiset_eq_iff)
  with assms show ?thesis by (auto simp: g_drop_def fun_eq_iff multiset_eq_iff)
qed

lemma g_drop_simps [simp]:
  "gflags (g_drop r2 C g) = gflags g"
  "g_saturated (g_drop r2 C g) = g_saturated g"
  by (simp_all add: g_drop_def g_saturated_def fun_eq_iff)

lemma g_drop_ok:
  assumes ok: "graph_ok m c D g" and r2: "r2 \<in> D" and C: "C \<subseteq># edges g r2"
  shows "graph_ok m c D (g_drop r2 C g)"
proof (rule graph_okI)
  have r2C: "r2 \<notin># C" using graph_ok_irrefl [OF ok r2] C mset_subset_eqD by metis
  have sub: "edges (g_drop r2 C g) r \<subseteq># edges g r" for r
    by (simp add: g_drop_def)
  fix r assume r: "r \<in> D"
  show "set_mset (edges (g_drop r2 C g) r) \<subseteq> D"
    using graph_okD(1) [OF ok r] set_mset_mono [OF sub [of r]] by simp
  show "size (edges (g_drop r2 C g) r) \<le> m"
    using graph_okD(2) [OF ok r] size_mset_mono [OF sub [of r]] by simp
  show "edges (g_drop r2 C g) r = {#}" if "g_saturated (g_drop r2 C g) r"
    using graph_okD(3) [OF ok r] that sub [of r] by simp
  show "c a \<noteq> c r" if "a \<in># edges (g_drop r2 C g) r" for a
    using graph_okD(5) [OF ok r] mset_subset_eqD [OF sub that] by simp
  show "count (edges (g_drop r2 C g) r) a = count (edges (g_drop r2 C g) a) r" if a: "a \<in> D" for a
    using graph_okD(4) [OF ok r a] r2C
    by (auto simp: g_drop_def not_in_iff)
qed

lemma merge_common_loop_impl:
  assumes "graph_ok m c D (graph s)" "D \<subseteq> {..<length (regions s)}" "r1 \<in> D" "r2 \<in> D" "r1 \<noteq> r2"
    "r1 \<notin># edges (graph s) r2"
  shows "\<exists>C. C \<subseteq># edges (graph s) r2 \<and> set_mset C \<subseteq> set_mset (edges (graph s) r1) \<and>
     implements s (merge_common_loop s r1 r2 i n) (g_drop r2 C (graph s))"
  using assms
proof (induction n arbitrary: s i)
  case 0
  then show ?case by (intro exI [of _ "{#}"]) simp
next
  case (Suc n)
  let ?g = "graph s" and ?as = "adjacent_regions (reg s r2)"
  from Suc.prems have len: "r1 < length (regions s)" "r2 < length (regions s)" by auto
  show ?case
  proof (cases "i < length ?as")
    case False
    then show ?thesis using len
      by (intro exI [of _ "{#}"]) (simp add: buf_simps adjacent_region_count_def)
  next
    case True
    define a where "a = ?as ! i"
    have a_in: "a \<in># edges ?g r2" using True len by (simp add: edges_graph a_def)
    then have a: "a \<in> D" "a \<noteq> r2" "a \<noteq> r1"
      using graph_okD(1) [OF Suc.prems(1,4)] graph_ok_irrefl [OF Suc.prems(1,4)] Suc.prems(6) by auto
    with Suc.prems(2) have la: "a < length (regions s)" by auto
    have step: "merge_common_loop s r1 r2 i (Suc n) =
        (if r1 \<in># edges ?g a then remove_adjacent_from s a r2 \<bind> (\<lambda>s. upd_region s r2
             (\<lambda>r. r\<lparr>adjacent_regions := swap_remove (adjacent_regions r) i\<rparr>)) else Some s) \<bind>
        (\<lambda>s. merge_common_loop s r1 r2 (Suc i) n)"
      using True len
      by (simp add: buf_simps adjacent_region_count_def a_def [symmetric]
          is_adjacent_eq [OF Suc.prems(1,2) a(1) Suc.prems(3)])
    show ?thesis
    proof (cases "r1 \<in># edges ?g a")
      case False
      then show ?thesis unfolding step using Suc.IH [OF Suc.prems] by simp
    next
      case common: True
      have "r2 \<in># edges ?g a" using a_in graph_ok_sym [OF Suc.prems(1,4) a(1)] by simp
      with la obtain xs where rm: "remove_adjacent_from s a r2 =
           Some (s\<lparr>regions := (regions s)[a := (reg s a)\<lparr>adjacent_regions := xs\<rparr>]\<rparr>)"
          and xs: "mset xs = edges ?g a - {#r2#}"
        by (rule remove_adjacent_eq)
      define t where "t = s\<lparr>regions := (regions s)[a := (reg s a)\<lparr>adjacent_regions := xs\<rparr>,
          r2 := (reg s r2)\<lparr>adjacent_regions := swap_remove ?as i\<rparr>]\<rparr>"
      have st: "merge_common_loop s r1 r2 i (Suc n) = merge_common_loop t r1 r2 (Suc i) n"
        unfolding step using common a len by (simp add: rm t_def buf_simps)
      have fr: "frame s t"
        using a la len by (simp add: t_def frame_def nth_list_update)
      have gt: "graph t = g_drop r2 {#a#} ?g"
      proof -
        have "graph t = (graph s)\<lparr>
           edges := (edges ?g)(a := mset xs, r2 := mset (swap_remove ?as i)),
           gflags := gflags ?g\<rparr>"
          using a la len by (auto simp: graph_def t_def fun_eq_iff nth_list_update)
        also have "\<dots> = g_drop r2 {#a#} ?g"
          using a la len xs True
          by (auto simp: g_drop_def fun_eq_iff mset_swap_remove edges_graph a_def)
        finally show ?thesis .
      qed
      have lt: "length (regions t) = length (regions s)" by (simp add: t_def)
      have "\<exists>C. C \<subseteq># edges (graph t) r2 \<and> set_mset C \<subseteq> set_mset (edges (graph t) r1) \<and>
          implements t (merge_common_loop t r1 r2 (Suc i) n) (g_drop r2 C (graph t))"
      proof (rule Suc.IH)
        show "graph_ok m c D (graph t)"
          unfolding gt by (rule g_drop_ok [OF Suc.prems(1,4)]) (simp add: a_in)
        show "r1 \<notin># edges (graph t) r2"
          using Suc.prems(6) by (auto simp: gt g_drop_def dest: in_diffD)
      qed (use Suc.prems lt in auto)
      then obtain C where C: "C \<subseteq># edges (graph t) r2" "set_mset C \<subseteq> set_mset (edges (graph t) r1)"
          "implements t (merge_common_loop t r1 r2 (Suc i) n) (g_drop r2 C (graph t))" by blast
      have C2: "C \<subseteq># edges ?g r2 - {#a#}" using C(1) by (simp add: gt g_drop_def)
      have "add_mset a C \<subseteq># edges ?g r2"
        using C2 a_in by (simp add: insert_subset_eq_iff)
      moreover have "a \<in># edges ?g r1" using common graph_ok_sym [OF Suc.prems(1,3) a(1)] by simp
      then have "set_mset (add_mset a C) \<subseteq> set_mset (edges ?g r1)"
        using C(2) Suc.prems(5) a by (auto simp: gt g_drop_def)
      moreover have "implements s (merge_common_loop s r1 r2 i (Suc n)) (g_drop r2 (add_mset a C) ?g)"
        using C(3) fr unfolding st g_drop_add [OF a(2) C2, symmetric] gt
        by (auto elim!: implementsE intro: implementsI frame_trans)
      ultimately show ?thesis by blast
    qed
  qed
qed

lemma replace_adjacent_eq:
  assumes a: "a < length (regions s)" and r2: "r2 \<in># edges (graph s) a"
  obtains xs where
    "replace_adjacent s a r2 r1 =
       Some (s\<lparr>regions := (regions s)[a := (reg s a)\<lparr>adjacent_regions := xs\<rparr>]\<rparr>)"
    "mset xs = add_mset r1 (edges (graph s) a - {#r2#})"
proof -
  from assms have "r2 \<in> set (adjacent_regions (reg s a))" by (simp add: edges_graph)
  then obtain j where j: "find_adjacent (adjacent_regions (reg s a)) r2 0 = Some j"
      "j < length (adjacent_regions (reg s a))" "adjacent_regions (reg s a) ! j = r2"
    by (rule find_adjacent_found)
  show ?thesis
    by (rule that [of "(adjacent_regions (reg s a))[j := r1]"])
      (simp_all add: replace_adjacent_def buf_simps a j edges_graph mset_update)
qed

lemma g_move_Nil [simp]: "g_move [] r1 r2 g = g"
  by (cases g) (simp add: g_move_def fun_eq_iff)

lemma g_move_Cons:
  assumes "r1 \<noteq> r2" "a \<noteq> r1"
  shows "g_move (a # L) r1 r2 g = g_move L r1 r2 (g\<lparr>edges := (edges g)(
     a := add_mset r1 (edges g a - {#r2#}), r1 := add_mset a (edges g r1))\<rparr>)"
proof -
  have "edges g a - add_mset r2 (replicate_mset n r2) + add_mset r1 (replicate_mset n r1)
      = add_mset r1 (edges g a - {#r2#}) - replicate_mset n r2 + replicate_mset n r1" for n
    using assms(1) by (auto simp: multiset_eq_iff)
  then show ?thesis using assms by (auto simp: g_move_def fun_eq_iff)
qed

lemma merge_move_loop_impl:
  assumes "adjacent_regions (reg s r2) = as" "i + n = length as"
    "r1 < length (regions s)" "r2 < length (regions s)" "r1 \<noteq> r2"
    "r1 \<notin> set as" "r2 \<notin> set as" "set as \<subseteq> {..<length (regions s)}"
    "\<And>x. count (mset (drop i as)) x \<le> count (edges (graph s) x) r2"
    "\<And>x. x \<in> set as \<Longrightarrow> size (edges (graph s) x) \<le> m"
    "size (edges (graph s) r1) + n \<le> m" "m = max_adjacent_regions s"
  shows "implements s (merge_move_loop s r1 r2 i n) (g_move (drop i as) r1 r2 (graph s))"
  using assms
proof (induction n arbitrary: s i)
  case 0
  then show ?case by simp
next
  case (Suc n)
  let ?g = "graph s"
  define a where "a = as ! i"
  from Suc.prems(2) have i: "i < length as" by simp
  then have dr: "drop i as = a # drop (Suc i) as" by (simp add: a_def Cons_nth_drop_Suc)
  from i have a_in: "a \<in> set as" by (simp add: a_def)
  with Suc.prems have a: "a \<noteq> r1" "a \<noteq> r2" "a < length (regions s)" by auto
  have "0 < count (mset (drop i as)) a" by (simp add: dr)
  also have "\<dots> \<le> count (edges ?g a) r2" by (rule Suc.prems(9))
  finally have "r2 \<in># edges ?g a" by (simp only: count_greater_zero_iff)
  with a(3) obtain xs where rp: "replace_adjacent s a r2 r1 =
       Some (s\<lparr>regions := (regions s)[a := (reg s a)\<lparr>adjacent_regions := xs\<rparr>]\<rparr>)"
      and xs: "mset xs = add_mset r1 (edges ?g a - {#r2#})"
    by (rule replace_adjacent_eq)
  have len_xs: "length xs = size (edges ?g a)"
    using arg_cong [OF xs, of size] \<open>r2 \<in># edges ?g a\<close> by (simp add: size_Suc_Diff1)
  define t where "t = s\<lparr>regions := (regions s)[a := (reg s a)\<lparr>adjacent_regions := xs\<rparr>,
      r1 := (reg s r1)\<lparr>adjacent_regions := adjacent_regions (reg s r1) @ [a]\<rparr>]\<rparr>"
  have lr1: "length (adjacent_regions (reg s r1)) < m"
    using Suc.prems(3,11) by (simp add: edges_graph)
  have st: "merge_move_loop s r1 r2 i (Suc n) = merge_move_loop t r1 r2 (Suc i) n"
    using Suc.prems(1,3,4,10,12) i a lr1 len_xs a_in
    by (simp add: buf_simps a_def [symmetric] rp t_def append_adjacent_def adjacent_region_count_def)
  have fr: "frame s t"
    using a Suc.prems by (simp add: t_def frame_def nth_list_update)
  have gt: "graph t = ?g\<lparr>edges := (edges ?g)(a := add_mset r1 (edges ?g a - {#r2#}),
      r1 := add_mset a (edges ?g r1))\<rparr>"
    using a Suc.prems(3) xs by (auto simp: graph_def t_def fun_eq_iff nth_list_update)
  have "implements t (merge_move_loop t r1 r2 (Suc i) n) (g_move (drop (Suc i) as) r1 r2 (graph t))"
  proof (rule Suc.IH)
    show "adjacent_regions (reg t r2) = as" using a Suc.prems(1,5) by (simp add: t_def)
    show "count (mset (drop (Suc i) as)) x \<le> count (edges (graph t) x) r2" for x
      using Suc.prems(9) [of x] Suc.prems(5,6) a
      by (auto simp: gt dr not_in_iff dest!: in_set_dropD)
    show "size (edges (graph t) x) \<le> m" if "x \<in> set as" for x
      using Suc.prems(6,10) that len_xs xs
      by (auto simp: gt simp del: size_mset size_add_mset simp flip: size_mset)
    show "size (edges (graph t) r1) + n \<le> m" using Suc.prems(11) by (simp add: gt)
  qed (use Suc.prems a in \<open>auto simp: t_def\<close>)
  then have "implements s (merge_move_loop t r1 r2 (Suc i) n) (g_move (drop (Suc i) as) r1 r2 (graph t))"
    using fr by (auto elim!: implementsE intro: implementsI frame_trans)
  then show ?case by (simp only: st dr gt g_move_Cons [OF Suc.prems(5) a(1)])
qed

lemma g_move_absorb:
  "mset L = edges g r2 \<Longrightarrow> r1 \<noteq> r2 \<Longrightarrow>
   (g_move L r1 r2 g)\<lparr>edges := (edges (g_move L r1 r2 g))(r2 := {#})\<rparr> = g_absorb r1 r2 g"
  by (auto simp: g_move_def g_absorb_def fun_eq_iff)

lemma merge_move_impl:
  assumes ok: "graph_ok m c D (graph s)" and D: "D \<subseteq> {..<length (regions s)}"
    and r: "r1 \<in> D" "r2 \<in> D" "r1 \<noteq> r2" and c: "c r1 = c r2" and m: "m = max_adjacent_regions s"
    and sz: "size (edges (graph s) r1) + size (edges (graph s) r2) \<le> m"
  shows "implements s (merge_move_loop s r1 r2 0 (adjacent_region_count (reg s r2)) \<bind>
      (\<lambda>s. upd_region s r2 (\<lambda>r. r\<lparr>adjacent_regions := []\<rparr>))) (g_absorb r1 r2 (graph s))"
proof -
  let ?L = "adjacent_regions (reg s r2)"
  from r D have len: "r1 < length (regions s)" "r2 < length (regions s)" by auto
  have L: "mset ?L = edges (graph s) r2" using len by (simp add: edges_graph)
  have LD: "set ?L \<subseteq> D" using graph_okD(1) [OF ok r(2)] by (simp add: L [symmetric])
  have r1L: "r1 \<notin> set ?L" and r2L: "r2 \<notin> set ?L"
    using graph_okD(5) [OF ok r(2)] c by (auto simp: L [symmetric])
  have cnt: "count (mset ?L) x \<le> count (edges (graph s) x) r2" for x
  proof (cases "x \<in> D")
    case True
    then show ?thesis using graph_okD(4) [OF ok r(2) True] by (simp add: L)
  next
    case False
    with LD have "x \<notin># mset ?L" by auto
    then show ?thesis by (simp only: not_in_iff)
  qed
  have "implements s (merge_move_loop s r1 r2 0 (length ?L)) (g_move (drop 0 ?L) r1 r2 (graph s))"
  proof (rule merge_move_loop_impl [OF refl])
    show "size (edges (graph s) r1) + length ?L \<le> m" using sz by (simp add: L [symmetric])
    show "count (mset (drop 0 ?L)) x \<le> count (edges (graph s) x) r2" for x using cnt [of x] by simp
    show "size (edges (graph s) x) \<le> m" if "x \<in> set ?L" for x
      using LD that by (intro graph_okD(2) [OF ok]) auto
  qed (use len r r1L r2L LD D m in auto)
  then obtain t where t: "merge_move_loop s r1 r2 0 (length ?L) = Some t" "frame s t"
      "graph t = g_move ?L r1 r2 (graph s)" "length (regions t) = length (regions s)"
    by (auto elim: implementsE)
  define u where "u = t\<lparr>regions := (regions t)[r2 := (reg t r2)\<lparr>adjacent_regions := []\<rparr>]\<rparr>"
  have "graph u = (graph t)\<lparr>edges := (edges (graph t))(r2 := {#})\<rparr>"
    using len t(4) by (simp add: u_def gflags_graph [symmetric])
  then have "graph u = g_absorb r1 r2 (graph s)" by (simp only: t(3) g_move_absorb [OF L r(3)])
  moreover have "frame s u"
    using len t unfolding u_def by (intro frame_trans [OF t(2)] frame_update) simp_all
  moreover have "merge_move_loop s r1 r2 0 (adjacent_region_count (reg s r2)) \<bind>
      (\<lambda>s. upd_region s r2 (\<lambda>r. r\<lparr>adjacent_regions := []\<rparr>)) = Some u"
    using t(1,4) len by (simp add: adjacent_region_count_def buf_simps u_def)
  ultimately show ?thesis by (intro implementsI)
qed

lemma merge_adjacencies_impl:
  assumes ok: "graph_ok m c D (graph s)" and D: "D \<subseteq> {..<length (regions s)}"
    and r: "r1 \<in> D" "r2 \<in> D" "r1 \<noteq> r2" and c: "c r1 = c r2" and m: "m = max_adjacent_regions s"
  shows "\<exists>C. C \<subseteq># edges (graph s) r2 \<and> set_mset C \<subseteq> set_mset (edges (graph s) r1) \<and>
    implements s (merge_adjacencies s r1 r2) (g_merge m r1 r2 C (graph s))"
proof -
  let ?g = "graph s"
  from r D have len: "r1 < length (regions s)" "r2 < length (regions s)" by auto
  note eqs = buf_simps len is_saturated_eq [OF len(1)] is_saturated_eq [OF len(2)]
  have sat: "implements t (make_saturated t x) (g_saturate x (graph t))"
    if "graph_ok m c D (graph t)" "x \<in> D" "frame s t" for t x
    using that D by (intro make_saturated_impl graph_ok_attached [OF that(1,2)]) (simp add: frame_length)
  consider (s1) "g_saturated ?g r1" | (s2) "\<not> g_saturated ?g r1" "g_saturated ?g r2"
    | (none) "\<not> g_saturated ?g r1" "\<not> g_saturated ?g r2" by blast
  then show ?thesis
  proof cases
    case s1
    have "implements s (make_saturated s r2 \<bind> (\<lambda>s. get_region s r2 \<bind>
        (\<lambda>p2. if is_saturated p2 then make_saturated s r1 else Some s)))
        (g_saturate r1 (g_saturate r2 ?g))"
    proof (rule implements_bind [OF sat [OF ok r(2) frame_refl]])
      fix t assume t: "frame s t" "graph t = g_saturate r2 ?g" "length (regions t) = length (regions s)"
      have "implements t (make_saturated t r1) (g_saturate r1 (graph t))"
        using t ok r by (intro sat) (simp_all add: g_saturate_ok)
      moreover have "is_saturated (reg t r2)" using len t by (simp add: is_saturated_eq)
      ultimately show "implements t (get_region t r2 \<bind>
          (\<lambda>p2. if is_saturated p2 then make_saturated t r1 else Some t)) (g_saturate r1 (g_saturate r2 ?g))"
        using len t by (simp add: buf_simps)
    qed
    then show ?thesis using s1
      by (intro exI [of _ "{#}"]) (simp add: merge_adjacencies_def eqs g_merge_def)
  next
    case s2
    then show ?thesis using sat [OF ok r(1) frame_refl]
      by (intro exI [of _ "{#}"]) (simp add: merge_adjacencies_def eqs g_merge_def)
  next
    case none
    let ?loop = "merge_common_loop s r1 r2 0 (adjacent_region_count (reg s r2))"
    have r12: "r1 \<notin># edges ?g r2" using graph_okD(5) [OF ok r(2)] c by auto
    obtain C where C: "C \<subseteq># edges ?g r2" "set_mset C \<subseteq> set_mset (edges ?g r1)"
        and lp: "implements s ?loop (g_drop r2 C ?g)"
      using merge_common_loop_impl [OF ok D r r12] by blast
    define g1 where "g1 = g_drop r2 C ?g"
    have g1: "graph_ok m c D g1" unfolding g1_def by (rule g_drop_ok [OF ok r(2) C(1)])
    have "implements s (?loop \<bind> (\<lambda>s. get_region s r1 \<bind> (\<lambda>p1. get_region s r2 \<bind> (\<lambda>p2.
        if adjacent_region_count p1 + adjacent_region_count p2 > max_adjacent_regions s
        then make_saturated s r1 \<bind> (\<lambda>s. make_saturated s r2)
        else merge_move_loop s r1 r2 0 (adjacent_region_count p2) \<bind>
          (\<lambda>s. upd_region s r2 (\<lambda>r. r\<lparr>adjacent_regions := []\<rparr>))))))
        (if size (edges g1 r1) + size (edges g1 r2) > m then g_saturate r2 (g_saturate r1 g1)
         else g_absorb r1 r2 g1)"
    proof (rule implements_bind [OF lp])
      fix t assume t: "frame s t" "graph t = g_drop r2 C ?g" "length (regions t) = length (regions s)"
      then have gt: "graph t = g1" by (simp add: g1_def)
      have mt: "max_adjacent_regions t = m" using frame_fields(5) [OF t(1)] m by simp
      have "implements t (make_saturated t r1 \<bind> (\<lambda>s. make_saturated s r2))
          (g_saturate r2 (g_saturate r1 g1))"
      proof (rule implements_bind [OF sat [OF _ r(1) t(1)]])
        fix u assume "frame t u" "graph u = g_saturate r1 (graph t)"
        then show "implements u (make_saturated u r2) (g_saturate r2 (g_saturate r1 g1))"
          using sat [of u r2] g1 r t(1) frame_trans [of s t u] by (simp add: gt g_saturate_ok)
      qed (simp add: gt g1)
      moreover have "implements t (merge_move_loop t r1 r2 0 (adjacent_region_count (reg t r2)) \<bind>
          (\<lambda>s. upd_region s r2 (\<lambda>r. r\<lparr>adjacent_regions := []\<rparr>))) (g_absorb r1 r2 g1)"
        if "size (edges g1 r1) + size (edges g1 r2) \<le> m"
        by (rule merge_move_impl [of m c D t r1 r2, unfolded gt]) (use g1 D r c mt t(3) that in auto)
      ultimately show "implements t (get_region t r1 \<bind> (\<lambda>p1. get_region t r2 \<bind> (\<lambda>p2.
        if adjacent_region_count p1 + adjacent_region_count p2 > max_adjacent_regions t
        then make_saturated t r1 \<bind> (\<lambda>s. make_saturated s r2)
        else merge_move_loop t r1 r2 0 (adjacent_region_count p2) \<bind>
          (\<lambda>s. upd_region s r2 (\<lambda>r. r\<lparr>adjacent_regions := []\<rparr>)))))
        (if size (edges g1 r1) + size (edges g1 r2) > m then g_saturate r2 (g_saturate r1 g1)
         else g_absorb r1 r2 g1)"
        using len t mt gt by (simp add: buf_simps adjacent_region_count_eq)
    qed
    then show ?thesis using none C
      by (intro exI [of _ C]) (simp add: merge_adjacencies_def eqs g_merge_def g1_def Let_def split: if_split_asm)
  qed
qed

end
