(* ===== verification/SegmentContacts.thy ===== *)
theory SegmentContacts
  imports SegmentMerge
begin

text \<open>
  The edges of the multigraph against a contact relation \<open>T\<close> between regions: every edge is
  a contact, and every contact is an edge unless one of the two regions is saturated and the
  other is saturated or marked as fragmented. The abstract operations keep this exactness
  for the contact relation that goes with them.
\<close>

definition g_fragmented :: "graph \<Rightarrow> nat \<Rightarrow> bool" where
  "g_fragmented g r = flag_set (gflags g r) FRAGMENTED_REGION_FLAG"

definition detached :: "graph \<Rightarrow> nat \<Rightarrow> nat \<Rightarrow> bool" where
  "detached g x a \<longleftrightarrow>
     (g_saturated g x \<and> (g_saturated g a \<or> g_fragmented g a)) \<or>
     (g_saturated g a \<and> (g_saturated g x \<or> g_fragmented g x))"

definition exact :: "nat set \<Rightarrow> graph \<Rightarrow> (nat \<Rightarrow> nat \<Rightarrow> bool) \<Rightarrow> bool" where
  "exact D g T \<longleftrightarrow> (\<forall>x\<in>D. \<forall>a\<in>D. (a \<in># edges g x \<longrightarrow> T x a) \<and>
     (T x a \<longrightarrow> a \<in># edges g x \<or> detached g x a))"

lemma exactD:
  assumes "exact D g T" "x \<in> D" "a \<in> D"
  shows "a \<in># edges g x \<Longrightarrow> T x a" "T x a \<Longrightarrow> a \<in># edges g x \<or> detached g x a"
  using assms by (auto simp: exact_def)

lemma exactI:
  assumes "\<And>x a. x \<in> D \<Longrightarrow> a \<in> D \<Longrightarrow> a \<in># edges g x \<Longrightarrow> T x a"
    and "\<And>x a. x \<in> D \<Longrightarrow> a \<in> D \<Longrightarrow> T x a \<Longrightarrow> a \<in># edges g x \<or> detached g x a"
  shows "exact D g T"
  using assms by (simp add: exact_def)

lemma exact_cong: "(\<And>x a. x \<in> D \<Longrightarrow> a \<in> D \<Longrightarrow> T x a = T' x a) \<Longrightarrow> exact D g T = exact D g T'"
  by (auto simp: exact_def)

lemma fragmented_flags [simp]:
  "flag_set FRAGMENTED_REGION_FLAG FRAGMENTED_REGION_FLAG"
  "\<not> flag_set SATURATED_REGION_FLAG FRAGMENTED_REGION_FLAG"
  "\<not> flag_set ADJACENT_TO_ROOT_REGION_FLAG FRAGMENTED_REGION_FLAG"
  by (simp_all add: flag_set_def region_flag_defs)

text \<open>Flags only grow; \<open>detached\<close> is monotone in them.\<close>

definition flags_le :: "graph \<Rightarrow> graph \<Rightarrow> bool" where
  "flags_le g g' \<longleftrightarrow> (\<forall>x m. flag_set (gflags g x) m \<longrightarrow> flag_set (gflags g' x) m)"

lemma flags_le_refl [simp, intro]: "flags_le g g"
  and flags_le_trans: "flags_le g h \<Longrightarrow> flags_le h k \<Longrightarrow> flags_le g k"
  by (auto simp: flags_le_def)

lemma detached_mono: "flags_le g g' \<Longrightarrow> detached g x a \<Longrightarrow> detached g' x a"
  by (auto simp: flags_le_def detached_def g_saturated_def g_fragmented_def)

lemma detached_sym: "detached g x a \<longleftrightarrow> detached g a x"
  by (auto simp: detached_def)

lemma flags_le_ops [simp, intro]:
  "flags_le g (g_or r m g)" "flags_le g (g_saturate r g)" "flags_le g (g_link r1 r2 g)"
  "flags_le g (g_drop r C g)" "flags_le g (g_absorb r1 r2 g)"
  by (simp_all add: flags_le_def g_or_def g_saturate_def g_link_def g_absorb_def flag_set_or)

lemma flags_le_make_adjacent: "flags_le g (g_make_adjacent m r1 r2 g)"
proof -
  have sat: "flags_le g (g_or y w (g_saturate x g))" for g x y w
    by (rule flags_le_trans [OF flags_le_ops(2) flags_le_ops(1)])
  then have "flags_le g (g_or y w (g_saturate x (g_or u v (g_saturate z g))))" for x y z u v w
    using flags_le_trans by blast
  with sat show ?thesis by (simp add: g_make_adjacent_def Let_def)
qed

lemma g_fragmented_or [simp]:
  "g_fragmented (g_or r m g) x \<longleftrightarrow> g_fragmented g x \<or> (x = r \<and> flag_set m FRAGMENTED_REGION_FLAG)"
  by (auto simp: g_fragmented_def g_or_def flag_set_or)

lemma g_fragmented_saturate:
  "g_fragmented (g_saturate r g) x \<longleftrightarrow> g_fragmented g x \<or> (x \<noteq> r \<and> x \<in># edges g r)"
  by (auto simp: g_fragmented_def g_saturate_def flag_set_or)

lemma exact_or: "exact D g T \<Longrightarrow> exact D (g_or r m g) T"
  unfolding exact_def g_or_simps using detached_mono [OF flags_le_ops(1)] by blast

lemma exact_saturate:
  assumes ok: "graph_ok m c D g" and r: "r \<in> D" and ex: "exact D g T"
  shows "exact D (g_saturate r g) T"
proof (rule exactI)
  fix x a assume x: "x \<in> D" and a: "a \<in> D"
  note e = g_saturate_sym [OF ok r x]
  show "T x a" if "a \<in># edges (g_saturate r g) x"
    using that exactD(1) [OF ex x a] by (auto simp: e split: if_splits)
  show "a \<in># edges (g_saturate r g) x \<or> detached (g_saturate r g) x a" if T: "T x a"
  proof (cases "detached g x a")
    case True
    then show ?thesis using detached_mono by blast
  next
    case False
    with exactD(2) [OF ex x a T] have in_x: "a \<in># edges g x" by blast
    consider "x = r" | "a = r" | "x \<noteq> r" "a \<noteq> r" by blast
    then show ?thesis
    proof cases
      case 1
      then have "a \<noteq> r" using in_x graph_ok_irrefl [OF ok r] by auto
      with 1 in_x show ?thesis by (simp add: detached_def g_fragmented_saturate)
    next
      case 2
      then have "x \<in># edges g r" "x \<noteq> r"
        using in_x graph_ok_sym [OF ok x r] graph_ok_irrefl [OF ok x] by auto
      with 2 show ?thesis by (simp add: detached_def g_fragmented_saturate)
    next
      case 3
      with in_x show ?thesis by (simp add: e)
    qed
  qed
qed

lemma exact_insert:
  assumes ex: "exact D g T" and "detached g r1 r2 \<or> (r2 \<in># edges g r1 \<and> r1 \<in># edges g r2)"
  shows "exact D g (\<lambda>x a. T x a \<or> (x = r1 \<and> a = r2) \<or> (x = r2 \<and> a = r1))"
  using assms detached_sym [of g r1 r2] by (auto simp: exact_def)

lemma exact_link:
  "exact D g T \<Longrightarrow> exact D (g_link r1 r2 g) (\<lambda>x a. T x a \<or> (x = r1 \<and> a = r2) \<or> (x = r2 \<and> a = r1))"
proof (rule exactI)
  have e: "a \<in># edges (g_link r1 r2 g) x \<longleftrightarrow>
      a \<in># edges g x \<or> (x = r1 \<and> a = r2) \<or> (x = r2 \<and> a = r1)" for x a
    by (auto simp: g_link_def)
  assume ex: "exact D g T"
  fix x a assume x: "x \<in> D" and a: "a \<in> D"
  show "T x a \<or> (x = r1 \<and> a = r2) \<or> (x = r2 \<and> a = r1)" if "a \<in># edges (g_link r1 r2 g) x"
    using that exactD(1) [OF ex x a] unfolding e by blast
  show "a \<in># edges (g_link r1 r2 g) x \<or> detached (g_link r1 r2 g) x a"
    if "T x a \<or> (x = r1 \<and> a = r2) \<or> (x = r2 \<and> a = r1)"
    using that exactD(2) [OF ex x a] detached_mono [OF flags_le_ops(3)] unfolding e by blast
qed

lemma exact_make_adjacent:
  assumes ok: "graph_ok m c D g" and r: "r1 \<in> D" "r2 \<in> D" and ex: "exact D g T"
  shows "exact D (g_make_adjacent m r1 r2 g) (\<lambda>x a. T x a \<or> (x = r1 \<and> a = r2) \<or> (x = r2 \<and> a = r1))"
proof -
  let ?F = FRAGMENTED_REGION_FLAG
  have sat1: "exact D (g_or r2 ?F (g_saturate r1 g)) T"
    and sat2: "exact D (g_or r1 ?F (g_saturate r2 g)) T"
    using exact_or exact_saturate [OF ok _ ex] r by blast+
  have ok1: "graph_ok m c D (g_or r2 ?F (g_saturate r1 g))"
    by (intro g_or_ok g_saturate_ok ok r) simp
  have sat12: "exact D (g_or r1 ?F (g_saturate r2 (g_or r2 ?F (g_saturate r1 g)))) T"
    by (intro exact_or exact_saturate [OF ok1 r(2) sat1])
  consider "r2 \<in># edges g r1" | "r2 \<notin># edges g r1" "g_saturated g r1 \<or> g_saturated g r2"
    | "r2 \<notin># edges g r1" "\<not> g_saturated g r1" "\<not> g_saturated g r2" by blast
  then show ?thesis
  proof cases
    case 1
    then show ?thesis using ex graph_ok_sym [OF ok r]
      by (simp add: g_make_adjacent_def exact_insert)
  next
    case 2
    then show ?thesis using exact_or [OF ex]
      by (auto simp: g_make_adjacent_def detached_def intro!: exact_insert)
  next
    case 3
    then show ?thesis using sat1 sat2 sat12 exact_link [OF ex]
      by (auto simp: g_make_adjacent_def Let_def detached_def intro!: exact_insert)
  qed
qed

subsection \<open>The merge\<close>

text \<open>The label of a region after \<open>r2\<close> has become part of \<open>r1\<close>, and the new contacts.\<close>

definition relabel :: "nat \<Rightarrow> nat \<Rightarrow> nat \<Rightarrow> nat" where
  "relabel r1 r2 z = (if z = r2 then r1 else z)"

definition merged_contact ::
  "nat set \<Rightarrow> nat \<Rightarrow> nat \<Rightarrow> (nat \<Rightarrow> nat \<Rightarrow> bool) \<Rightarrow> nat \<Rightarrow> nat \<Rightarrow> bool" where
  "merged_contact D r1 r2 T x a \<longleftrightarrow> x \<noteq> a \<and>
     (\<exists>x0\<in>D. \<exists>a0\<in>D. T x0 a0 \<and> relabel r1 r2 x0 = x \<and> relabel r1 r2 a0 = a)"

lemma merged_contactI:
  "x0 \<in> D \<Longrightarrow> a0 \<in> D \<Longrightarrow> T x0 a0 \<Longrightarrow> relabel r1 r2 x0 = x \<Longrightarrow> relabel r1 r2 a0 = a \<Longrightarrow> x \<noteq> a \<Longrightarrow>
   merged_contact D r1 r2 T x a"
  by (auto simp: merged_contact_def)

lemma g_absorb_edges:
  assumes ok: "graph_ok m c D g" and r: "r1 \<in> D" "r2 \<in> D" "r1 \<noteq> r2" and x: "x \<in> D" "x \<noteq> r2"
  shows "a \<in># edges (g_absorb r1 r2 g) x \<longleftrightarrow>
    (if x = r1 then a \<in># edges g r1 \<or> a \<in># edges g r2
     else (a \<noteq> r2 \<and> a \<in># edges g x) \<or> (a = r1 \<and> x \<in># edges g r2))"
proof (cases "x = r1")
  case True
  then show ?thesis by (simp add: g_absorb_def)
next
  case False
  have c: "count (edges g r2) x = count (edges g x) r2" using graph_okD(4) [OF ok r(2) x(1)] .
  have "a \<in># edges g x - replicate_mset (count (edges g r2) x) r2 \<longleftrightarrow> a \<noteq> r2 \<and> a \<in># edges g x"
    unfolding c by (auto simp: in_diff_count)
  moreover have "a \<in># replicate_mset (count (edges g r2) x) r1 \<longleftrightarrow> a = r1 \<and> x \<in># edges g r2"
    by (simp only: in_replicate_mset count_greater_zero_iff conj_commute)
  moreover have "edges (g_absorb r1 r2 g) x = edges g x - replicate_mset (count (edges g r2) x) r2
      + replicate_mset (count (edges g r2) x) r1"
    using False x by (simp add: g_absorb_def)
  ultimately show ?thesis using False by (simp only: union_iff if_False)
qed

lemma g_absorb_count:
  assumes ok: "graph_ok m c D g" and r: "r1 \<in> D" "r2 \<in> D" "r1 \<noteq> r2" and c: "c r1 = c r2"
    and x: "x \<in> D"
  shows "count (edges (g_absorb r1 r2 g) x) a =
    (if x = r2 \<or> a = r2 then 0
     else if x = r1 then count (edges g r1) a + count (edges g r2) a
     else if a = r1 then count (edges g x) r1 + count (edges g r2) x
     else count (edges g x) a)"
proof -
  have "r1 \<notin># edges g r2" "r2 \<notin># edges g r1" "r2 \<notin># edges g r2"
    using graph_okD(5) [OF ok r(2)] graph_okD(5) [OF ok r(1)] c by auto
  then have z: "count (edges g r2) r1 = 0" "count (edges g r1) r2 = 0" "count (edges g r2) r2 = 0"
    by (simp_all only: not_in_iff)
  have k: "count (edges g x) r2 = count (edges g r2) x" by (rule graph_okD(4) [OF ok x r(2)])
  show ?thesis
    using r(3) by (cases "x = r1"; cases "x = r2"; cases "a = r2"; cases "a = r1")
      (simp_all add: g_absorb_def z k)
qed

lemma g_absorb_ok:
  assumes ok: "graph_ok m c D g" and r: "r1 \<in> D" "r2 \<in> D" "r1 \<noteq> r2" and c: "c r1 = c r2"
    and sz: "size (edges g r1) + size (edges g r2) \<le> m"
    and sat: "\<not> g_saturated g r1" "\<not> g_saturated g r2"
  shows "graph_ok m c D (g_absorb r1 r2 g)"
proof (rule graph_okI)
  have s: "g_saturated (g_absorb r1 r2 g) = g_saturated g"
    by (simp add: g_absorb_def g_saturated_def fun_eq_iff)
  have r12: "r1 \<notin># edges g r2" "r2 \<notin># edges g r1"
    using graph_okD(5) [OF ok r(2)] graph_okD(5) [OF ok r(1)] c by auto
  fix x assume x: "x \<in> D"
  show "set_mset (edges (g_absorb r1 r2 g) x) \<subseteq> D"
  proof (cases "x = r2")
    case True
    then show ?thesis using r by (simp add: g_absorb_def)
  next
    case False
    then show ?thesis
      using g_absorb_edges [OF ok r x False] graph_okD(1) [OF ok x] graph_okD(1) [OF ok r(1)]
        graph_okD(1) [OF ok r(2)] r by (auto split: if_splits)
  qed
  show "size (edges (g_absorb r1 r2 g) x) \<le> m"
  proof (cases "x = r1 \<or> x = r2")
    case True
    then show ?thesis using sz r by (auto simp: g_absorb_def)
  next
    case False
    let ?n = "count (edges g r2) x"
    have "?n \<le> count (edges g x) r2" using graph_okD(4) [OF ok r(2) x] by simp
    then have sub: "replicate_mset ?n r2 \<subseteq># edges g x"
      by (simp only: count_le_replicate_mset_subset_eq)
    have "size (edges (g_absorb r1 r2 g) x) = size (edges g x - replicate_mset ?n r2) + ?n"
      using False by (simp add: g_absorb_def)
    also have "\<dots> = size (edges g x)"
      using size_mset_mono [OF sub] size_Diff_submset [OF sub] by simp
    finally show ?thesis using graph_okD(2) [OF ok x] by simp
  qed
  show "edges (g_absorb r1 r2 g) x = {#}" if "g_saturated (g_absorb r1 r2 g) x"
  proof -
    have xs: "x \<noteq> r1" "x \<noteq> r2" "edges g x = {#}" using that sat graph_okD(3) [OF ok x] by (auto simp: s)
    then have "count (edges g r2) x = 0" using graph_okD(4) [OF ok r(2) x] by simp
    with xs show ?thesis by (simp add: g_absorb_def)
  qed
  show "c a \<noteq> c x" if "a \<in># edges (g_absorb r1 r2 g) x" for a
  proof (cases "x = r2")
    case True
    then show ?thesis using that r by (simp add: g_absorb_def)
  next
    case False
    then show ?thesis
      using that g_absorb_edges [OF ok r x False, of a] graph_okD(5) [OF ok x, of a]
        graph_okD(5) [OF ok r(1), of a] graph_okD(5) [OF ok r(2), of a] graph_okD(5) [OF ok r(2), of x] c
      by (auto split: if_splits)
  qed
  show "count (edges (g_absorb r1 r2 g) x) a = count (edges (g_absorb r1 r2 g) a) x" if a: "a \<in> D" for a
    using graph_okD(4) [OF ok x a] graph_okD(4) [OF ok x r(1)] graph_okD(4) [OF ok a r(1)]
    by (simp add: g_absorb_count [OF ok r c x] g_absorb_count [OF ok r c a])
qed

lemma g_merge_ok:
  assumes ok: "graph_ok m c D g" and r: "r1 \<in> D" "r2 \<in> D" "r1 \<noteq> r2" and c: "c r1 = c r2"
    and C: "C \<subseteq># edges g r2"
  shows "graph_ok m c D (g_merge m r1 r2 C g)"
  using g_drop_ok [OF ok r(2) C] assms
  by (auto simp: g_merge_def Let_def intro!: g_saturate_ok g_absorb_ok)

lemma g_merge_edges_r2:
  assumes ok: "graph_ok m c D g" and r: "r1 \<in> D" "r2 \<in> D" "r1 \<noteq> r2"
  shows "edges (g_merge m r1 r2 C g) r2 = {#}"
  using r graph_okD(3) [OF ok r(2)] by (auto simp: g_merge_def Let_def g_saturate_def g_absorb_def)

text \<open>
  A region \<open>r2\<close> without edges can be given the label of \<open>r1\<close> when \<open>r1\<close> takes its flags.
\<close>

lemma exact_relabel:
  assumes ok: "graph_ok m c D g" and r: "r1 \<in> D" "r2 \<in> D" "r1 \<noteq> r2" and ex: "exact D g T"
    and r2: "edges g r2 = {#}"
  shows "exact (D - {r2}) (g_or r1 (gflags g r2) g) (merged_contact D r1 r2 T)"
proof (rule exactI)
  let ?g = "g_or r1 (gflags g r2) g"
  fix x a assume x: "x \<in> D - {r2}" and a: "a \<in> D - {r2}"
  show "merged_contact D r1 r2 T x a" if "a \<in># edges ?g x"
    by (rule merged_contactI [of x _ a])
      (use that x a exactD(1) [OF ex, of x a] graph_ok_irrefl [OF ok, of x] in \<open>auto simp: relabel_def\<close>)
  show "a \<in># edges ?g x \<or> detached ?g x a" if mc: "merged_contact D r1 r2 T x a"
  proof -
    obtain x0 a0 where h: "x0 \<in> D" "a0 \<in> D" "T x0 a0" "relabel r1 r2 x0 = x" "relabel r1 r2 a0 = a"
      using mc by (auto simp: merged_contact_def)
    have fl: "flag_set (gflags g z) k \<Longrightarrow> flag_set (gflags ?g (relabel r1 r2 z)) k" for z k
      by (auto simp: g_or_def relabel_def flag_set_or)
    from exactD(2) [OF ex h(1-3)] show ?thesis
    proof
      assume e: "a0 \<in># edges g x0"
      then have "x0 \<noteq> r2" "a0 \<noteq> r2" using r2 graph_ok_sym [OF ok h(1) r(2)] by auto
      with e h(4,5) show ?thesis by (simp add: relabel_def)
    next
      assume "detached g x0 a0"
      then have "detached ?g (relabel r1 r2 x0) (relabel r1 r2 a0)"
        using fl unfolding detached_def g_saturated_def g_fragmented_def by blast
      then show ?thesis by (simp add: h)
    qed
  qed
qed

text \<open>Dropping second edges to common neighbours does not lose a contact of the merged region.\<close>

definition kept_contact ::
  "graph \<Rightarrow> nat \<Rightarrow> nat multiset \<Rightarrow> (nat \<Rightarrow> nat \<Rightarrow> bool) \<Rightarrow> nat \<Rightarrow> nat \<Rightarrow> bool" where
  "kept_contact g r2 C T x a \<longleftrightarrow> T x a \<and>
     (x = r2 \<longrightarrow> a \<in># C \<longrightarrow> a \<in># edges g x) \<and> (a = r2 \<longrightarrow> x \<in># C \<longrightarrow> a \<in># edges g x)"

lemma exact_drop:
  assumes ok: "graph_ok m c D g" and r2: "r2 \<in> D" and ex: "exact D g T" and C: "C \<subseteq># edges g r2"
  shows "exact D (g_drop r2 C g) (kept_contact (g_drop r2 C g) r2 C T)"
proof (rule exactI)
  fix x a assume x: "x \<in> D" and a: "a \<in> D"
  have sub: "edges (g_drop r2 C g) x \<subseteq># edges g x" by (simp add: g_drop_def)
  show "kept_contact (g_drop r2 C g) r2 C T x a" if "a \<in># edges (g_drop r2 C g) x"
    using that exactD(1) [OF ex x a] mset_subset_eqD [OF sub that] by (auto simp: kept_contact_def)
  show "a \<in># edges (g_drop r2 C g) x \<or> detached (g_drop r2 C g) x a"
    if T: "kept_contact (g_drop r2 C g) r2 C T x a"
  proof (cases "detached g x a")
    case True
    then show ?thesis using detached_mono flags_le_ops(4) by blast
  next
    case False
    with T exactD(2) [OF ex x a] have e: "a \<in># edges g x" by (simp add: kept_contact_def)
    show ?thesis
    proof (cases "(x = r2 \<and> a \<in># C) \<or> (a = r2 \<and> x \<in># C)")
      case True
      then show ?thesis using T by (auto simp: kept_contact_def)
    next
      case False
      then have "count (edges (g_drop r2 C g) x) a = count (edges g x) a"
        by (auto simp: g_drop_def not_in_iff)
      with e show ?thesis by (metis count_greater_zero_iff)
    qed
  qed
qed

lemma merged_kept_contact:
  assumes ok: "graph_ok m c D g" and r: "r1 \<in> D" "r2 \<in> D" "r1 \<noteq> r2" and ex: "exact D g T"
    and sym: "\<And>x a. T x a \<Longrightarrow> T a x"
    and C: "C \<subseteq># edges g r2" "set_mset C \<subseteq> set_mset (edges g r1)" and r12: "r1 \<notin># edges g r2"
  shows "merged_contact D r1 r2 (kept_contact g' r2 C T) = merged_contact D r1 r2 T"
proof (intro ext iffI)
  fix x a
  show "merged_contact D r1 r2 T x a" if "merged_contact D r1 r2 (kept_contact g' r2 C T) x a"
    using that by (auto simp: merged_contact_def kept_contact_def)
  assume "merged_contact D r1 r2 T x a"
  then obtain x0 a0 where h: "x0 \<in> D" "a0 \<in> D" "T x0 a0" "relabel r1 r2 x0 = x" "relabel r1 r2 a0 = a"
      and ne: "x \<noteq> a" by (auto simp: merged_contact_def)
  have C_D: "z \<in> D" "T r1 z" "z \<noteq> r2" "z \<noteq> r1" if "z \<in># C" for z
  proof -
    have z: "z \<in># edges g r1" "z \<in># edges g r2" using C that by (auto dest: mset_subset_eqD)
    show "z \<in> D" using graph_okD(1) [OF ok r(1)] z by auto
    then show "T r1 z" using exactD(1) [OF ex r(1)] z by blast
    show "z \<noteq> r2" "z \<noteq> r1" using z graph_ok_irrefl [OF ok r(1)] graph_ok_irrefl [OF ok r(2)] by auto
  qed
  have keep: "kept_contact g' r2 C T r1 z \<and> kept_contact g' r2 C T z r1" if "z \<in># C" for z
    using C_D [OF that] sym r(3) by (auto simp: kept_contact_def dest: C_D)
  show "merged_contact D r1 r2 (kept_contact g' r2 C T) x a"
  proof (cases "x0 = r2 \<and> a0 \<in># C")
    case True
    then have "x = r1" "a = a0" using h C_D by (auto simp: relabel_def)
    then show ?thesis using True keep [of a0] C_D [of a0] r ne
      by (intro merged_contactI [of r1 _ a0]) (auto simp: relabel_def)
  next
    case not1: False
    show ?thesis
    proof (cases "a0 = r2 \<and> x0 \<in># C")
      case True
      then have "a = r1" "x = x0" using h C_D by (auto simp: relabel_def)
      then show ?thesis using True keep [of x0] C_D [of x0] r ne
        by (intro merged_contactI [of x0 _ r1]) (auto simp: relabel_def)
    next
      case False
      with not1 h ne show ?thesis by (auto simp: merged_contact_def kept_contact_def)
    qed
  qed
qed

lemma exact_absorb:
  assumes ok: "graph_ok m c D g" and r: "r1 \<in> D" "r2 \<in> D" "r1 \<noteq> r2" and c: "c r1 = c r2"
    and ex: "exact D g T"
  shows "exact (D - {r2}) (g_or r1 (gflags g r2) (g_absorb r1 r2 g)) (merged_contact D r1 r2 T)"
proof (rule exactI)
  let ?g = "g_or r1 (gflags g r2) (g_absorb r1 r2 g)"
  have r12: "r1 \<notin># edges g r2" "r2 \<notin># edges g r1"
    using graph_okD(5) [OF ok r(2)] graph_okD(5) [OF ok r(1)] c by auto
  fix x a assume x: "x \<in> D - {r2}" and a: "a \<in> D - {r2}"
  then have xD: "x \<in> D" "x \<noteq> r2" and aD: "a \<in> D" "a \<noteq> r2" by auto
  note e = g_absorb_edges [OF ok r xD]
  show "merged_contact D r1 r2 T x a" if "a \<in># edges ?g x"
  proof -
    have "a \<in># edges (g_absorb r1 r2 g) x" using that by simp
    then consider (x1) "x = r1" "a \<in># edges g r1" | (x2) "x = r1" "a \<in># edges g r2"
      | (a1) "x \<noteq> r1" "a = r1" "x \<in># edges g r2" | (old) "x \<noteq> r1" "a \<in># edges g x"
      unfolding e by (auto split: if_splits)
    then show ?thesis
    proof cases
      case x1
      then show ?thesis using exactD(1) [OF ex r(1) aD(1)] graph_ok_irrefl [OF ok r(1)] r aD
        by (intro merged_contactI [of r1 _ a]) (auto simp: relabel_def)
    next
      case x2
      then show ?thesis using exactD(1) [OF ex r(2) aD(1)] r12 r aD
        by (intro merged_contactI [of r2 _ a]) (auto simp: relabel_def)
    next
      case a1
      then have "r2 \<in># edges g x" using graph_ok_sym [OF ok r(2) xD(1)] by simp
      with a1 show ?thesis using exactD(1) [OF ex xD(1) r(2)] r xD
        by (intro merged_contactI [of x _ r2]) (auto simp: relabel_def)
    next
      case old
      then show ?thesis using exactD(1) [OF ex xD(1) aD(1)] graph_ok_irrefl [OF ok xD(1)] xD aD
        by (intro merged_contactI [of x _ a]) (auto simp: relabel_def)
    qed
  qed
  show "a \<in># edges ?g x \<or> detached ?g x a" if mc: "merged_contact D r1 r2 T x a"
  proof -
    obtain x0 a0 where h: "x0 \<in> D" "a0 \<in> D" "T x0 a0" "relabel r1 r2 x0 = x" "relabel r1 r2 a0 = a"
      using mc by (auto simp: merged_contact_def)
    have fl: "flag_set (gflags g z) k \<Longrightarrow> flag_set (gflags ?g (relabel r1 r2 z)) k" for z k
      by (auto simp: g_or_def g_absorb_def relabel_def flag_set_or)
    from exactD(2) [OF ex h(1-3)] show ?thesis
    proof
      assume e0: "a0 \<in># edges g x0"
      have "a \<in># edges (g_absorb r1 r2 g) x"
      proof (cases "x0 = r2")
        case True
        then have "x = r1" "a0 \<noteq> r2" using h e0 graph_ok_irrefl [OF ok r(2)] by (auto simp: relabel_def)
        with True e0 h(5) show ?thesis unfolding e by (simp add: relabel_def)
      next
        case False
        then have "x = x0" using h(4) by (simp add: relabel_def)
        show ?thesis
        proof (cases "a0 = r2")
          case True
          then have "a = r1" "x0 \<in># edges g r2" "x0 \<noteq> r1"
            using h e0 graph_ok_sym [OF ok h(1) r(2)] r12 by (auto simp: relabel_def)
          with \<open>x = x0\<close> show ?thesis unfolding e by simp
        next
          case False
          then have "a = a0" using h(5) by (simp add: relabel_def)
          with \<open>x = x0\<close> e0 aD show ?thesis unfolding e by auto
        qed
      qed
      then show ?thesis by simp
    next
      assume "detached g x0 a0"
      then have "detached ?g (relabel r1 r2 x0) (relabel r1 r2 a0)"
        using fl unfolding detached_def g_saturated_def g_fragmented_def by blast
      then show ?thesis by (simp add: h)
    qed
  qed
qed

lemma exact_merge:
  assumes ok: "graph_ok m c D g" and r: "r1 \<in> D" "r2 \<in> D" "r1 \<noteq> r2" and c: "c r1 = c r2"
    and ex: "exact D g T" and sym: "\<And>x a. T x a \<Longrightarrow> T a x"
    and C: "C \<subseteq># edges g r2" "set_mset C \<subseteq> set_mset (edges g r1)"
  shows "exact (D - {r2}) (g_or r1 (gflags (g_merge m r1 r2 C g) r2) (g_merge m r1 r2 C g))
           (merged_contact D r1 r2 T)"
proof -
  let ?g = "g_merge m r1 r2 C g" and ?g1 = "g_drop r2 C g"
  have r12: "r1 \<notin># edges g r2" using graph_okD(5) [OF ok r(2)] c by auto
  have ok': "graph_ok m c D ?g" by (rule g_merge_ok [OF ok r c C(1)])
  have ok1: "graph_ok m c D ?g1" by (rule g_drop_ok [OF ok r(2) C(1)])
  have ex1: "exact D ?g1 (kept_contact ?g1 r2 C T)" by (rule exact_drop [OF ok r(2) ex C(1)])
  note mk = merged_kept_contact [OF ok r ex sym C r12]
  note rl = exact_relabel [OF ok' r _ g_merge_edges_r2 [OF ok r]]
  consider (s1) "g_saturated g r1" | (s2) "\<not> g_saturated g r1" "g_saturated g r2"
    | (over) "\<not> g_saturated g r1" "\<not> g_saturated g r2" "size (edges ?g1 r1) + size (edges ?g1 r2) > m"
    | (fit) "\<not> g_saturated g r1" "\<not> g_saturated g r2" "size (edges ?g1 r1) + size (edges ?g1 r2) \<le> m"
    by fastforce
  then show ?thesis
  proof cases
    case s1
    then have "exact D ?g T"
      using exact_saturate [OF g_saturate_ok [OF ok r(2)] r(1) exact_saturate [OF ok r(2) ex]]
      by (simp add: g_merge_def)
    then show ?thesis by (rule rl)
  next
    case s2
    then have "exact D ?g T" using exact_saturate [OF ok r(1) ex] by (simp add: g_merge_def)
    then show ?thesis by (rule rl)
  next
    case over
    then have "exact D ?g (kept_contact ?g1 r2 C T)"
      using exact_saturate [OF g_saturate_ok [OF ok1 r(1)] r(2) exact_saturate [OF ok1 r(1) ex1]]
      by (simp add: g_merge_def Let_def)
    then show ?thesis using rl mk by metis
  next
    case fit
    then have g: "?g = g_absorb r1 r2 ?g1" by (simp add: g_merge_def)
    have "gflags ?g r2 = gflags ?g1 r2" by (simp add: g g_absorb_def)
    then show ?thesis using exact_absorb [OF ok1 r c ex1] mk by (simp add: g)
  qed
qed

lemma flags_le_merge: "flags_le g (g_merge m r1 r2 C g)"
proof -
  have "flags_le h (g_saturate y (g_saturate x h))" for h x y
    using flags_le_trans flags_le_ops(2) by blast
  moreover from this have "flags_le g (g_saturate y (g_saturate x (g_drop r2 C g)))" for x y
    using flags_le_trans flags_le_ops(4) by blast
  moreover have "flags_le g (g_absorb r1 r2 (g_drop r2 C g))"
    using flags_le_trans flags_le_ops(4,5) by blast
  ultimately show ?thesis by (simp add: g_merge_def Let_def)
qed

end
