(* ===== verification/SegmentInv.thy ===== *)
theory SegmentInv
  imports SegmentContacts
begin

text \<open>
  The invariant of the segmenter's memory: the redirect chains of the references end in
  roots that own distinct live regions, the free list holds exactly the dead region slots,
  and the adjacency lists of the live regions are a well-formed multigraph that represents
  a given contact relation. Each operation of the row scan is shown to return normally and
  to keep it.
\<close>

subsection \<open>Redirected references\<close>

inductive resolves :: "RegionReference list \<Rightarrow> nat \<Rightarrow> nat \<Rightarrow> nat \<Rightarrow> bool" for refs n where
  root: "r < n \<Longrightarrow> redirect (refs ! r) = r \<Longrightarrow> resolves refs n r r"
| step: "r < n \<Longrightarrow> redirect (refs ! r) \<noteq> r \<Longrightarrow> resolves refs n (redirect (refs ! r)) t \<Longrightarrow>
    resolves refs n r t"

lemma resolves_bound: "resolves refs n r t \<Longrightarrow> r < n \<and> t < n"
  by (induction rule: resolves.induct) auto

lemma resolves_is_root: "resolves refs n r t \<Longrightarrow> redirect (refs ! t) = t"
  by (induction rule: resolves.induct) auto

lemma resolves_det: "resolves refs n r t \<Longrightarrow> resolves refs n r t' \<Longrightarrow> t = t'"
proof (induction arbitrary: t' rule: resolves.induct)
  case (root r)
  then show ?case by (auto elim: resolves.cases)
next
  case (step r t)
  from step.prems step.hyps(2) have "resolves refs n (redirect (refs ! r)) t'"
    by (auto elim: resolves.cases)
  then show ?case by (rule step.IH)
qed

lemma follow_redirects_resolves:
  "resolves (region_refs s) n r t \<Longrightarrow> n \<le> length (region_refs s) \<Longrightarrow> follow_redirects s r = Some t"
proof (induction rule: resolves.induct)
  case (root r)
  then show ?case by (subst follow_redirects.simps) (simp add: buf_simps)
next
  case (step r t)
  then show ?case by (subst follow_redirects.simps) (simp add: buf_simps)
qed

lemma resolves_compress:
  assumes "resolves refs n x y" and t: "resolves refs n r t" and n: "n \<le> length refs"
  shows "resolves (refs[r := (refs ! r)\<lparr>redirect := t\<rparr>]) n x y"
  using assms(1)
proof (induction rule: resolves.induct)
  case (root x)
  show ?case
  proof (cases "x = r")
    case True
    then have "t = r" using resolves_det [OF t] resolves.root [OF root] by auto
    with True root n show ?thesis by (auto intro!: resolves.root)
  next
    case False
    with root show ?thesis by (auto intro!: resolves.root)
  qed
next
  case (step x y)
  show ?case
  proof (cases "x = r")
    case True
    have "resolves refs n r y" using step True by (auto intro: resolves.step)
    then have y: "y = t" using t by (rule resolves_det)
    have ty: "redirect (refs ! t) = t" "t < n" using resolves_is_root [OF t] resolves_bound [OF t] by auto
    then have "t \<noteq> r" using step.hyps(2) True by auto
    then have "resolves (refs[r := (refs ! r)\<lparr>redirect := t\<rparr>]) n t t"
      using ty by (auto intro: resolves.root)
    with True y step.hyps(1) \<open>t \<noteq> r\<close> n show ?thesis by - (rule resolves.step, auto)
  next
    case False
    with step show ?thesis by - (rule resolves.step, auto)
  qed
qed

lemma resolves_append:
  "resolves refs n x y \<Longrightarrow> resolves (refs[n := q]) (Suc n) x y"
proof (induction rule: resolves.induct)
  case (step x y)
  then show ?case by - (rule resolves.step, auto)
qed (auto intro!: resolves.root)

lemma resolves_link:
  assumes "resolves refs n x y" and c: "c < n" "redirect (refs ! c) = c"
    and u: "u < n" "redirect (refs ! u) = u" "u \<noteq> c" and n: "n \<le> length refs"
  shows "resolves (refs[c := \<lparr>region = None, redirect = u\<rparr>]) n x (if y = c then u else y)"
  using assms(1)
proof (induction rule: resolves.induct)
  case (root x)
  have "resolves (refs[c := \<lparr>region = None, redirect = u\<rparr>]) n u u"
    using u by (auto intro!: resolves.root)
  then show ?case using root c u n by (cases "x = c") (auto intro: resolves.root resolves.step)
next
  case (step x y)
  then have "x \<noteq> c" using c by auto
  with step show ?case by - (rule resolves.step, auto)
qed

text \<open>The region a reference stands for.\<close>

definition ref_stands :: "Segmenter \<Rightarrow> nat \<Rightarrow> nat \<Rightarrow> bool" where
  "ref_stands s r d \<longleftrightarrow> (\<exists>t. resolves (region_refs s) (region_ref_count s) r t \<and>
     region (region_refs s ! t) = Some d)"

definition is_root :: "Segmenter \<Rightarrow> nat \<Rightarrow> bool" where
  "is_root s r \<longleftrightarrow> r < region_ref_count s \<and> redirect (region_refs s ! r) = r"

definition refs_ok :: "Segmenter \<Rightarrow> nat set \<Rightarrow> bool" where
  "refs_ok s D \<longleftrightarrow> region_ref_count s \<le> length (region_refs s) \<and>
     (\<forall>r < region_ref_count s. \<exists>d\<in>D. ref_stands s r d) \<and>
     (\<forall>t u. is_root s t \<longrightarrow> is_root s u \<longrightarrow>
        region (region_refs s ! t) = region (region_refs s ! u) \<longrightarrow> t = u)"

lemma ref_stands_bound: "ref_stands s r d \<Longrightarrow> r < region_ref_count s"
  by (auto simp: ref_stands_def dest: resolves_bound)

lemma ref_stands_root: "is_root s r \<Longrightarrow> ref_stands s r d \<longleftrightarrow> region (region_refs s ! r) = Some d"
  unfolding ref_stands_def is_root_def using resolves.root resolves_det by metis

lemma refs_ok_D:
  assumes "refs_ok s D" "ref_stands s r d"
  shows "d \<in> D"
  using assms unfolding refs_ok_def
  by (metis ref_stands_bound ref_stands_def resolves_det option.inject)

lemma ref_region_root:
  "refs_ok s D \<Longrightarrow> is_root s r \<Longrightarrow> ref_stands s r d \<Longrightarrow> ref_region s r = Some d"
  by (simp add: ref_region_def ref_stands_root)
    (simp add: is_root_def refs_ok_def buf_simps)

subsection \<open>The region slots\<close>

fun free_list :: "Region list \<Rightarrow> rptr \<Rightarrow> nat list \<Rightarrow> bool" where
  "free_list rs p [] \<longleftrightarrow> p = Null"
| "free_list rs p (x # F) \<longleftrightarrow> p = Reg x \<and> x < length rs \<and> free_list rs (nxt (rs ! x)) F"

lemma free_list_cong:
  "length rs' = length rs \<Longrightarrow> (\<And>x. x \<in> set F \<Longrightarrow> nxt (rs' ! x) = nxt (rs ! x)) \<Longrightarrow>
   free_list rs' p F = free_list rs p F"
  by (induction F arbitrary: p) auto

definition is_free :: "Region \<Rightarrow> bool" where
  "is_free r = flag_set (flags r) FREE_REGION_FLAG"

text \<open>A freed slot is marked as free and has no neighbours.\<close>

definition is_idle :: "Region \<Rightarrow> bool" where
  "is_idle r \<longleftrightarrow> is_free r \<and> adjacent_regions r = []"

lemma is_idle_free: "is_idle r \<Longrightarrow> is_free r"
  by (simp add: is_idle_def)

definition slots_ok :: "Segmenter \<Rightarrow> nat set \<Rightarrow> bool" where
  "slots_ok s D \<longleftrightarrow> region_count s \<le> region_ref_count s \<and> region_count s \<le> length (regions s) \<and>
     (\<forall>x\<in>D. \<not> is_free (reg s x)) \<and>
     (\<exists>F. free_list (regions s) (freed_regions_head s) F \<and> distinct F \<and> set F \<inter> D = {} \<and>
        set F \<union> D = {..<region_count s} \<and> (\<forall>x \<in> set F. is_idle (reg s x)))"

lemma slots_ok_D:
  assumes "slots_ok s D"
  shows "D \<subseteq> {..<region_count s}" "D \<subseteq> {..<length (regions s)}"
proof -
  show D: "D \<subseteq> {..<region_count s}" using assms unfolding slots_ok_def by blast
  have "region_count s \<le> length (regions s)" using assms by (simp add: slots_ok_def)
  then show "D \<subseteq> {..<length (regions s)}" using D by auto
qed

abbreviation colours :: "Segmenter \<Rightarrow> nat \<Rightarrow> byte" where
  "colours s \<equiv> \<lambda>x. colour (reg s x)"

text \<open>The invariant for the live regions \<open>D\<close> with contacts \<open>T\<close>.\<close>

definition core :: "nat set \<Rightarrow> (nat \<Rightarrow> nat \<Rightarrow> bool) \<Rightarrow> Segmenter \<Rightarrow> bool" where
  "core D T s \<longleftrightarrow> refs_ok s D \<and> slots_ok s D \<and>
     graph_ok (max_adjacent_regions s) (colours s) D (graph s) \<and> exact D (graph s) T"

lemma coreD:
  assumes "core D T s"
  shows "refs_ok s D" "slots_ok s D" "graph_ok (max_adjacent_regions s) (colours s) D (graph s)"
    "exact D (graph s) T" "D \<subseteq> {..<length (regions s)}"
  using assms slots_ok_D by (auto simp: core_def)

text \<open>What the invariant reads of a region.\<close>

definition alike :: "Region \<Rightarrow> Region \<Rightarrow> bool" where
  "alike p q \<longleftrightarrow> nxt q = nxt p \<and> colour q = colour p \<and> flags q = flags p \<and>
     adjacent_regions q = adjacent_regions p"

text \<open>Everything but the regions and the contents of the rows is the same.\<close>

definition same_refs :: "Segmenter \<Rightarrow> Segmenter \<Rightarrow> bool" where
  "same_refs s s' \<longleftrightarrow> region_refs s' = region_refs s \<and> region_ref_count s' = region_ref_count s \<and>
     region_count s' = region_count s \<and> freed_regions_head s' = freed_regions_head s \<and>
     max_adjacent_regions s' = max_adjacent_regions s \<and> width s' = width s \<and> height s' = height s \<and>
     length (regions_under_construction s') = length (regions_under_construction s) \<and>
     length (regions s') = length (regions s)"

lemma same_refs_stands:
  "same_refs s s' \<Longrightarrow> ref_stands s' = ref_stands s" "same_refs s s' \<Longrightarrow> is_root s' = is_root s"
  by (simp_all add: same_refs_def ref_stands_def is_root_def fun_eq_iff)

lemma frame_same_refs: "frame s s' \<Longrightarrow> same_refs s s'"
  by (simp add: frame_def same_refs_def)

lemma graph_alike:
  assumes "length (regions s') = length (regions s)"
    and "\<And>x. x < length (regions s) \<Longrightarrow> alike (reg s x) (reg s' x)"
  shows "graph s' = graph s"
  using assms by (simp add: graph_def alike_def fun_eq_iff)

lemma slots_ok_cong:
  assumes ok: "slots_ok s D" and refs: "same_refs s s'"
    and same: "\<And>x. x < length (regions s) \<Longrightarrow> nxt (reg s' x) = nxt (reg s x) \<and> is_free (reg s' x) = is_free (reg s x)"
    and idle: "\<And>x. x < length (regions s) \<Longrightarrow> x \<notin> D \<Longrightarrow> adjacent_regions (reg s x) = [] \<Longrightarrow> adjacent_regions (reg s' x) = []"
  shows "slots_ok s' D"
proof -
  obtain F where F: "free_list (regions s) (freed_regions_head s) F" "distinct F" "set F \<inter> D = {}"
      "set F \<union> D = {..<region_count s}" "\<forall>x\<in>set F. is_idle (reg s x)"
      "region_count s \<le> region_ref_count s" "region_count s \<le> length (regions s)"
      "\<forall>x\<in>D. \<not> is_free (reg s x)"
    using ok unfolding slots_ok_def by blast
  have lt: "x < length (regions s)" if "x \<in> set F \<union> D" for x using that F(4,7) by auto
  have "free_list (regions s') (freed_regions_head s') F"
    using F(1) refs same lt by (subst free_list_cong [of _ "regions s"]) (auto simp: same_refs_def)
  moreover have "is_free (reg s' x) = is_free (reg s x)" if "x \<in> set F \<union> D" for x
    using same lt [OF that] by blast
  moreover have "is_idle (reg s' x)" if "x \<in> set F" for x
    using F(3,5) that same [OF lt] idle [OF lt, of x] unfolding is_idle_def by blast
  ultimately show ?thesis using F refs
    unfolding slots_ok_def same_refs_def by (intro conjI exI [of _ F]) auto
qed

lemma core_alike:
  assumes core: "core D T s" and refs: "same_refs s s'"
    and alike: "\<And>x. x < length (regions s) \<Longrightarrow> alike (reg s x) (reg s' x)"
  shows "core D T s'"
proof -
  note [simp] = same_refs_stands [OF refs]
  have D: "D \<subseteq> {..<length (regions s)}" using core by (rule coreD)
  have g: "graph s' = graph s" using refs alike by (intro graph_alike) (simp_all add: same_refs_def)
  have "graph_ok (max_adjacent_regions s) (colours s') D (graph s)"
    using coreD(3) [OF core] by (rule graph_ok_cong) (use alike D in \<open>auto simp: alike_def\<close>)
  moreover have "slots_ok s' D"
    by (rule slots_ok_cong [OF coreD(2) [OF core] refs]) (use alike in \<open>simp_all add: alike_def is_free_def\<close>)
  moreover have "refs_ok s' D" using coreD(1) [OF core] refs by (simp add: refs_ok_def same_refs_def)
  ultimately show ?thesis using coreD(4) [OF core] refs by (simp add: core_def g same_refs_def)
qed

subsection \<open>Steps of the scan: what is kept\<close>

definition dims :: "Segmenter \<Rightarrow> Segmenter \<Rightarrow> bool" where
  "dims s s' \<longleftrightarrow> max_adjacent_regions s' = max_adjacent_regions s \<and> width s' = width s \<and>
     height s' = height s \<and> length (region_refs s') = length (region_refs s) \<and>
     length (regions s') = length (regions s) \<and>
     length (regions_under_construction s') = length (regions_under_construction s)"

definition stands_le :: "(nat \<Rightarrow> nat) \<Rightarrow> Segmenter \<Rightarrow> Segmenter \<Rightarrow> bool" where
  "stands_le h s s' \<longleftrightarrow> (\<forall>r e. ref_stands s r e \<longrightarrow> ref_stands s' r (h e))"

definition roots_le :: "Segmenter \<Rightarrow> Segmenter \<Rightarrow> bool" where
  "roots_le s s' \<longleftrightarrow> (\<forall>r. is_root s r \<longrightarrow> is_root s' r)"

definition rows_but :: "nat set \<Rightarrow> Segmenter \<Rightarrow> Segmenter \<Rightarrow> bool" where
  "rows_but K s s' \<longleftrightarrow>
     length (regions_under_construction s') = length (regions_under_construction s) \<and>
     (\<forall>j. j \<notin> K \<longrightarrow> regions_under_construction s' ! j = regions_under_construction s ! j)"

text \<open>Cell \<open>x\<close> of the row at offset \<open>b\<close> refers to region \<open>d\<close>, and does so through a root.\<close>

definition cell :: "Segmenter \<Rightarrow> nat \<Rightarrow> nat \<Rightarrow> nat \<Rightarrow> bool" where
  "cell s b x d \<longleftrightarrow> b + x < length (regions_under_construction s) \<and>
     (\<exists>ref. regions_under_construction s ! (b + x) = Some ref \<and> ref_stands s ref d)"

definition root_cell :: "Segmenter \<Rightarrow> nat \<Rightarrow> nat \<Rightarrow> nat \<Rightarrow> bool" where
  "root_cell s b x d \<longleftrightarrow> b + x < length (regions_under_construction s) \<and>
     (\<exists>ref. regions_under_construction s ! (b + x) = Some ref \<and> is_root s ref \<and> ref_stands s ref d)"

lemma root_cell_cell: "root_cell s b x d \<Longrightarrow> cell s b x d"
  by (auto simp: root_cell_def cell_def)

lemma cell_step:
  "cell s b x d \<Longrightarrow> stands_le h s s' \<Longrightarrow> rows_but K s s' \<Longrightarrow> b + x \<notin> K \<Longrightarrow> cell s' b x (h d)"
  by (auto simp: cell_def stands_le_def rows_but_def)

lemma root_cell_step:
  "root_cell s b x d \<Longrightarrow> stands_le h s s' \<Longrightarrow> roots_le s s' \<Longrightarrow> rows_but K s s' \<Longrightarrow> b + x \<notin> K \<Longrightarrow>
   root_cell s' b x (h d)"
  by (auto simp: root_cell_def stands_le_def roots_le_def rows_but_def)

lemma root_cell_get:
  assumes "root_cell s b x d" "refs_ok s D"
  shows "row_region s b x = Some d"
    and "\<exists>ref. row_get s b x = Some ref \<and> is_root s ref \<and> ref_stands s ref d"
  using assms ref_region_root [OF assms(2)]
  by (auto simp: root_cell_def row_region_def row_get_def buf_simps)

text \<open>A step that keeps the cells and the shape of the memory; \<open>h\<close> renames the regions.\<close>

definition scan_step :: "(nat \<Rightarrow> nat) \<Rightarrow> nat set \<Rightarrow> Segmenter \<Rightarrow> Segmenter \<Rightarrow> bool" where
  "scan_step h K s s' \<longleftrightarrow> dims s s' \<and> stands_le h s s' \<and> rows_but K s s'"

lemma scan_step_refl [simp, intro]: "scan_step (\<lambda>d. d) K s s"
  by (simp add: scan_step_def dims_def stands_le_def rows_but_def)

lemma scan_step_trans:
  "scan_step h K s t \<Longrightarrow> scan_step h' K t u \<Longrightarrow> scan_step (\<lambda>d. h' (h d)) K s u"
  by (simp add: scan_step_def dims_def stands_le_def rows_but_def)

lemma scan_step_trans_id:
  "scan_step (\<lambda>d. d) K s t \<Longrightarrow> scan_step (\<lambda>d. d) K t u \<Longrightarrow> scan_step (\<lambda>d. d) K s u"
  using scan_step_trans [of "\<lambda>d. d" K s t "\<lambda>d. d" u] by simp

lemma scan_step_mono: "scan_step h K s t \<Longrightarrow> K \<subseteq> K' \<Longrightarrow> scan_step h K' s t"
  by (auto simp: scan_step_def rows_but_def)

lemma roots_le_refl [simp, intro]: "roots_le s s"
  and roots_le_trans: "roots_le s t \<Longrightarrow> roots_le t u \<Longrightarrow> roots_le s u"
  by (simp_all add: roots_le_def)

lemma cell_scan: "cell s b x d \<Longrightarrow> scan_step h K s s' \<Longrightarrow> b + x \<notin> K \<Longrightarrow> cell s' b x (h d)"
  by (auto simp: scan_step_def intro: cell_step)

lemma root_cell_scan:
  "root_cell s b x d \<Longrightarrow> scan_step h K s s' \<Longrightarrow> roots_le s s' \<Longrightarrow> b + x \<notin> K \<Longrightarrow> root_cell s' b x (h d)"
  by (auto simp: scan_step_def intro: root_cell_step)

lemma frame_scan:
  assumes "frame s s'"
  shows "scan_step (\<lambda>d. d) K s s'" "roots_le s s'"
  using frame_fields [OF assms] frame_length [OF assms] same_refs_stands [OF frame_same_refs [OF assms]]
  by (simp_all add: scan_step_def dims_def stands_le_def rows_but_def roots_le_def)

subsection \<open>Resolving a cell\<close>

lemma graph_refs_update [simp]: "graph (s\<lparr>region_refs := refs\<rparr>) = graph s"
  by (rule graph_alike) (simp_all add: alike_def)

lemma core_refs_update:
  assumes core: "core D T s" and ok: "refs_ok (s\<lparr>region_refs := refs\<rparr>) D"
  shows "core D T (s\<lparr>region_refs := refs\<rparr>)"
  using core ok by (simp add: core_def slots_ok_def)

lemma resolve_regionref_ok:
  assumes core: "core D T s" and r: "ref_stands s r d"
  shows "\<exists>t refs. resolve_regionref s r = Some (t, s\<lparr>region_refs := refs\<rparr>) \<and>
     length refs = length (region_refs s) \<and>
     core D T (s\<lparr>region_refs := refs\<rparr>) \<and> is_root (s\<lparr>region_refs := refs\<rparr>) t \<and>
     ref_stands (s\<lparr>region_refs := refs\<rparr>) t d \<and>
     stands_le (\<lambda>d. d) s (s\<lparr>region_refs := refs\<rparr>) \<and> roots_le s (s\<lparr>region_refs := refs\<rparr>)"
proof -
  let ?n = "region_ref_count s" and ?refs = "region_refs s"
  have n: "?n \<le> length ?refs" using coreD(1) [OF core] by (simp add: refs_ok_def)
  obtain t where t: "resolves ?refs ?n r t" "region (?refs ! t) = Some d"
    using r by (auto simp: ref_stands_def)
  have b: "r < ?n" "t < ?n" "redirect (?refs ! t) = t"
    using resolves_bound [OF t(1)] resolves_is_root [OF t(1)] by auto
  show ?thesis
  proof (cases "redirect (?refs ! r) = r")
    case True
    then have "t = r" using t(1) resolves_det resolves.root [OF b(1) True] by blast
    have "s\<lparr>region_refs := ?refs\<rparr> = s" by simp
    then show ?thesis
      using core r True b n
      by (intro exI [of _ r] exI [of _ ?refs])
        (simp add: resolve_regionref_def buf_simps is_root_def stands_le_def)
  next
    case False
    define refs where "refs = ?refs[r := (?refs ! r)\<lparr>redirect := t\<rparr>]"
    let ?s = "s\<lparr>region_refs := refs\<rparr>"
    have reg_eq: "region (refs ! x) = region (?refs ! x)" for x
      by (cases "x = r"; cases "r < length ?refs") (simp_all add: refs_def list_update_beyond)
    have res: "resolves refs ?n x y" if "resolves ?refs ?n x y" for x y
      unfolding refs_def by (rule resolves_compress [OF that t(1) n])
    have st: "ref_stands ?s x e" if "ref_stands s x e" for x e
      using that res by (auto simp: ref_stands_def reg_eq)
    have rt: "is_root ?s x \<longleftrightarrow> is_root s x" for x
      using False b n by (cases "x = r") (auto simp: is_root_def refs_def)
    have "refs_ok ?s D"
    proof -
      have "length refs = length ?refs" by (simp add: refs_def)
      then show ?thesis
        using coreD(1) [OF core] st unfolding refs_ok_def rt by (simp add: reg_eq) blast
    qed
    then have "core D T ?s" by (rule core_refs_update [OF core])
    moreover have "resolve_regionref s r = Some (t, ?s)"
      using False b n follow_redirects_resolves [OF t(1) n]
      by (simp add: resolve_regionref_def buf_simps refs_def)
    moreover have ts: "is_root s t" using b by (simp add: is_root_def)
    then have "is_root ?s t" by (simp only: rt)
    moreover have "ref_stands ?s t d" using ts t(2) by (intro st) (simp add: ref_stands_root)
    ultimately show ?thesis using st rt
      by (intro exI [of _ t] exI [of _ refs])
        (simp add: stands_le_def roots_le_def, simp add: refs_def)
  qed
qed

lemma row_resolve_ok:
  assumes core: "core D T s" and c: "cell s b x d"
  shows "\<exists>s'. row_resolve s b x = Some s' \<and> core D T s' \<and> root_cell s' b x d \<and>
     scan_step (\<lambda>d. d) {b + x} s s' \<and> roots_le s s' \<and> regions s' = regions s \<and>
     region_ref_count s' = region_ref_count s \<and> region_count s' = region_count s"
proof -
  obtain ref where ref: "regions_under_construction s ! (b + x) = Some ref" "ref_stands s ref d"
      and bx: "b + x < length (regions_under_construction s)"
    using c by (auto simp: cell_def)
  obtain t refs where t: "resolve_regionref s ref = Some (t, s\<lparr>region_refs := refs\<rparr>)"
      "length refs = length (region_refs s)"
      "core D T (s\<lparr>region_refs := refs\<rparr>)" "is_root (s\<lparr>region_refs := refs\<rparr>) t"
      "ref_stands (s\<lparr>region_refs := refs\<rparr>) t d"
      "stands_le (\<lambda>d. d) s (s\<lparr>region_refs := refs\<rparr>)" "roots_le s (s\<lparr>region_refs := refs\<rparr>)"
    using resolve_regionref_ok [OF core ref(2)] by blast
  define s' where "s' = s\<lparr>region_refs := refs,
     regions_under_construction := (regions_under_construction s)[b + x := Some t]\<rparr>"
  have sr: "same_refs (s\<lparr>region_refs := refs\<rparr>) s'" by (simp add: same_refs_def s'_def)
  note eqs = same_refs_stands [OF sr]
  have "row_resolve s b x = Some s'"
    using bx ref t(1) by (simp add: row_resolve_def row_get_def row_set_def buf_simps s'_def)
  moreover have "core D T s'"
    by (rule core_alike [OF t(3) sr]) (simp add: s'_def alike_def)
  moreover have "root_cell s' b x d"
  proof -
    have "is_root s' t" "ref_stands s' t d" using t(4,5) by (simp_all add: eqs)
    moreover have "regions_under_construction s' = (regions_under_construction s)[b + x := Some t]"
      by (simp add: s'_def)
    ultimately show ?thesis using bx by (simp add: root_cell_def)
  qed
  moreover have "stands_le (\<lambda>d. d) s s'" using t(6) by (simp add: stands_le_def eqs)
  then have "scan_step (\<lambda>d. d) {b + x} s s'"
    using t(2) by (simp add: scan_step_def dims_def rows_but_def s'_def)
  moreover have "roots_le s s'" using t(7) by (simp add: roots_le_def eqs)
  ultimately show ?thesis by (auto simp: s'_def)
qed

end
