(* ===== verification/SegmentOps.thy ===== *)
theory SegmentOps
  imports SegmentInv
begin

text \<open>
  Each state-changing operation of the row scan keeps the invariant of the segmenter's
  memory: linking two regions, marking a border region, allocating a region and merging
  two regions. The effect on the regions' colours, bounding boxes and border marks is
  stated through their view.
\<close>

subsection \<open>What the clients of the segmenter see of a region\<close>

record View =
  v_colour :: byte
  v_left :: int
  v_top :: int
  v_right :: int
  v_bottom :: int
  v_border :: bool

definition view :: "Segmenter \<Rightarrow> nat \<Rightarrow> View" where
  "view s x = \<lparr>v_colour = colour (reg s x), v_left = left (reg s x), v_top = rtop (reg s x),
     v_right = right (reg s x), v_bottom = bottom (reg s x),
     v_border = flag_set (flags (reg s x)) ADJACENT_TO_ROOT_REGION_FLAG\<rparr>"

lemma view_simps [simp]:
  "v_colour (view s x) = colours s x" "v_left (view s x) = left (reg s x)"
  "v_top (view s x) = rtop (reg s x)" "v_right (view s x) = right (reg s x)"
  "v_bottom (view s x) = bottom (reg s x)"
  "v_border (view s x) = flag_set (flags (reg s x)) ADJACENT_TO_ROOT_REGION_FLAG"
  by (simp_all add: view_def)

definition same_view :: "nat set \<Rightarrow> Segmenter \<Rightarrow> Segmenter \<Rightarrow> bool" where
  "same_view D s s' \<longleftrightarrow> (\<forall>x\<in>D. view s' x = view s x)"

lemma same_view_refl [simp, intro]: "same_view D s s"
  and same_view_trans: "same_view D s t \<Longrightarrow> same_view D t u \<Longrightarrow> same_view D s u"
  by (simp_all add: same_view_def)

lemma same_viewD: "same_view D s s' \<Longrightarrow> x \<in> D \<Longrightarrow> view s' x = view s x"
  by (simp add: same_view_def)

lemma same_view_colour: "same_view D s s' \<Longrightarrow> x \<in> D \<Longrightarrow> colours s' x = colours s x"
  by (metis same_viewD view_simps(1))

subsection \<open>Flags that the adjacency operations leave alone\<close>

definition other_flag :: "32 word \<Rightarrow> bool" where
  "other_flag m \<longleftrightarrow> \<not> flag_set SATURATED_REGION_FLAG m \<and> \<not> flag_set FRAGMENTED_REGION_FLAG m"

lemma other_flags [simp]: "other_flag FREE_REGION_FLAG" "other_flag ADJACENT_TO_ROOT_REGION_FLAG"
  by (simp_all add: other_flag_def flag_set_def region_flag_defs)

lemma flags_disjoint [simp]:
  "\<not> flag_set ADJACENT_TO_ROOT_REGION_FLAG FREE_REGION_FLAG"
  "\<not> flag_set FREE_REGION_FLAG ADJACENT_TO_ROOT_REGION_FLAG"
  "flag_set ADJACENT_TO_ROOT_REGION_FLAG ADJACENT_TO_ROOT_REGION_FLAG"
  "flag_set FREE_REGION_FLAG FREE_REGION_FLAG"
  "flag_set NO_REGION_FLAG m = False"
  by (simp_all add: flag_set_def region_flag_defs)

lemma other_flag_or:
  "other_flag m \<Longrightarrow> flag_set (gflags (g_or r SATURATED_REGION_FLAG g) x) m = flag_set (gflags g x) m"
  "other_flag m \<Longrightarrow> flag_set (gflags (g_or r FRAGMENTED_REGION_FLAG g) x) m = flag_set (gflags g x) m"
  by (auto simp: other_flag_def g_or_def flag_set_or)

lemma other_flag_saturate:
  "other_flag m \<Longrightarrow> flag_set (gflags (g_saturate r g) x) m = flag_set (gflags g x) m"
  by (auto simp: other_flag_def g_saturate_def flag_set_or)

lemma other_flag_make_adjacent:
  "other_flag m \<Longrightarrow> flag_set (gflags (g_make_adjacent k r1 r2 g) x) m = flag_set (gflags g x) m"
  by (simp add: g_make_adjacent_def Let_def other_flag_or other_flag_saturate g_link_def)

lemma other_flag_merge:
  "other_flag m \<Longrightarrow> flag_set (gflags (g_merge k r1 r2 C g) x) m = flag_set (gflags g x) m"
  by (simp add: g_merge_def Let_def other_flag_saturate g_absorb_def)

lemma frame_view:
  assumes "frame s s'" "D \<subseteq> {..<length (regions s)}"
    and "\<And>x. flag_set (gflags (graph s') x) ADJACENT_TO_ROOT_REGION_FLAG =
              flag_set (gflags (graph s) x) ADJACENT_TO_ROOT_REGION_FLAG"
  shows "same_view D s s'"
  unfolding same_view_def
proof
  fix x assume "x \<in> D"
  then have x: "x < length (regions s)" using assms(2) by auto
  then have "same_region (reg s x) (reg s' x)" using assms(1) by (rule frame_region [rotated])
  moreover have "flag_set (flags (reg s' x)) ADJACENT_TO_ROOT_REGION_FLAG =
      flag_set (flags (reg s x)) ADJACENT_TO_ROOT_REGION_FLAG"
    using assms(3) [of x] x by (simp add: gflags_graph frame_length [OF assms(1)])
  ultimately show "view s' x = view s x" by (simp add: view_def same_region_def)
qed

text \<open>An adjacency operation keeps the invariant when its abstract graph does.\<close>

lemma core_graph:
  assumes core: "core D T s" and fr: "frame s s'"
    and ok: "graph_ok (max_adjacent_regions s) (colours s) D (graph s')"
    and ex: "exact D (graph s') T'"
    and free: "\<And>x. flag_set (gflags (graph s') x) FREE_REGION_FLAG =
                    flag_set (gflags (graph s) x) FREE_REGION_FLAG"
    and idle: "\<And>x. x \<notin> D \<Longrightarrow> edges (graph s) x = {#} \<Longrightarrow> edges (graph s') x = {#}"
  shows "core D T' s'"
proof -
  note [simp] = same_refs_stands [OF frame_same_refs [OF fr]] frame_fields [OF fr]
  have D: "D \<subseteq> {..<length (regions s)}" using core by (rule coreD)
  have "slots_ok s' D"
  proof (rule slots_ok_cong [OF coreD(2) [OF core] frame_same_refs [OF fr]])
    fix x assume x: "x < length (regions s)"
    then show "nxt (reg s' x) = nxt (reg s x) \<and> is_free (reg s' x) = is_free (reg s x)"
      using frame_region [OF fr x] free [of x] frame_length [OF fr]
      by (simp add: same_region_def is_free_def gflags_graph)
    show "x \<notin> D \<Longrightarrow> adjacent_regions (reg s x) = [] \<Longrightarrow> adjacent_regions (reg s' x) = []"
      using idle [of x] x frame_length [OF fr] by (simp add: edges_graph)
  qed
  moreover have "graph_ok (max_adjacent_regions s) (colours s') D (graph s')"
    using ok by (rule graph_ok_cong) (use D frame_region [OF fr] in \<open>auto simp: same_region_def\<close>)
  moreover have "refs_ok s' D" using coreD(1) [OF core] by (simp add: refs_ok_def)
  ultimately show ?thesis using ex by (simp add: core_def)
qed

subsection \<open>Linking two regions\<close>

definition add_contact :: "nat \<Rightarrow> nat \<Rightarrow> (nat \<Rightarrow> nat \<Rightarrow> bool) \<Rightarrow> nat \<Rightarrow> nat \<Rightarrow> bool" where
  "add_contact a b T x y \<longleftrightarrow> T x y \<or> (x = a \<and> y = b) \<or> (x = b \<and> y = a)"

text \<open>Regions that the adjacency operations are not about stay without neighbours.\<close>

lemma idle_make_adjacent:
  "x \<noteq> r1 \<Longrightarrow> x \<noteq> r2 \<Longrightarrow> edges g x = {#} \<Longrightarrow> edges (g_make_adjacent m r1 r2 g) x = {#}"
  by (simp add: g_make_adjacent_def g_saturate_def g_or_def g_link_def Let_def)

lemma idle_merge:
  assumes "set_mset (edges g r2) \<subseteq> D" "r1 \<in> D" "x \<notin> D" "edges g x = {#}"
  shows "edges (g_merge m r1 r2 C g) x = {#}"
proof -
  have "x \<notin># edges (g_drop r2 C g) r2" using assms(1,3) by (auto simp: g_drop_def dest: in_diffD)
  then have "count (edges (g_drop r2 C g) r2) x = 0" by (simp only: not_in_iff)
  then show ?thesis using assms by (auto simp: g_merge_def g_saturate_def g_absorb_def Let_def g_drop_def)
qed

lemma core_make_adjacent:
  assumes core: "core D T s" and ab: "a \<in> D" "b \<in> D" and c: "colours s a \<noteq> colours s b"
  shows "\<exists>s'. make_adjacent s a b = Some s' \<and> core D (add_contact a b T) s' \<and> frame s s' \<and>
    same_view D s s'"
proof -
  let ?g = "g_make_adjacent (max_adjacent_regions s) a b (graph s)"
  obtain s' where s': "make_adjacent s a b = Some s'" "frame s s'" "graph s' = ?g"
    using make_adjacent_impl [OF coreD(3,5) [OF core] ab c refl] by (rule implementsE)
  have "exact D ?g (add_contact a b T)"
    using exact_make_adjacent [OF coreD(3) [OF core] ab coreD(4) [OF core]]
    by (simp add: add_contact_def [abs_def])
  then have "core D (add_contact a b T) s'"
    by (intro core_graph [OF core s'(2)])
      (use ab in \<open>auto simp: s'(3) other_flag_make_adjacent g_make_adjacent_ok [OF coreD(3) [OF core] ab c] intro: idle_make_adjacent\<close>)
  moreover have "same_view D s s'"
    by (rule frame_view [OF s'(2) coreD(5) [OF core]]) (simp add: s'(3) other_flag_make_adjacent)
  ultimately show ?thesis using s' by blast
qed

text \<open>Marking a region as adjacent to the root region.\<close>

lemma core_or_border:
  assumes core: "core D T s" and a: "a \<in> D"
  shows "\<exists>s'. or_flags s a ADJACENT_TO_ROOT_REGION_FLAG = Some s' \<and> core D T s' \<and> frame s s' \<and>
    (\<forall>x\<in>D. view s' x = (view s x)\<lparr>v_border := v_border (view s x) \<or> x = a\<rparr>)"
proof -
  have al: "a < length (regions s)" using a coreD(5) [OF core] by auto
  then obtain s' where s': "or_flags s a ADJACENT_TO_ROOT_REGION_FLAG = Some s'" "frame s s'"
      "graph s' = g_or a ADJACENT_TO_ROOT_REGION_FLAG (graph s)"
    using or_flags_impl by (metis implementsE)
  have "core D T s'"
    by (rule core_graph [OF core s'(2)])
      (simp_all add: s'(3) g_or_ok [OF coreD(3) [OF core]] exact_or [OF coreD(4) [OF core]],
       simp add: g_or_def flag_set_or)
  moreover have "\<forall>x\<in>D. view s' x = (view s x)\<lparr>v_border := v_border (view s x) \<or> x = a\<rparr>"
    using s'(1) al coreD(5) [OF core] by (auto simp: buf_simps view_def nth_list_update flag_set_or)
  ultimately show ?thesis using s' by blast
qed

subsection \<open>A new region\<close>

definition new_view :: "nat \<Rightarrow> nat \<Rightarrow> byte \<Rightarrow> View" where
  "new_view x y col = \<lparr>v_colour = col, v_left = to_short (int x), v_top = to_short (int y),
     v_right = to_short (int x), v_bottom = to_short (int y), v_border = False\<rparr>"

text \<open>The slot and the free list after an allocation.\<close>

lemma slots_alloc:
  assumes ok: "slots_ok s D" and n: "region_ref_count s < length (regions s)"
  obtains d h k F where
    "(case freed_regions_head s of
         Reg f \<Rightarrow> do { fr \<leftarrow> get_region s f; Some (f, s\<lparr>freed_regions_head := nxt fr\<rparr>) }
       | Null \<Rightarrow> Some (region_count s, s\<lparr>region_count := Suc (region_count s)\<rparr>)
       | Head _ \<Rightarrow> None) = Some (d, s\<lparr>freed_regions_head := h, region_count := k\<rparr>)"
    "d < length (regions s)" "d \<notin> D" "k \<le> Suc (region_ref_count s)" "k \<le> length (regions s)"
    "free_list (regions s) h F" "distinct F" "set F \<inter> insert d D = {}"
    "set F \<union> insert d D = {..<k}" "\<forall>x \<in> set F. is_idle (reg s x)"
proof -
  obtain F where F: "free_list (regions s) (freed_regions_head s) F" "distinct F" "set F \<inter> D = {}"
      "set F \<union> D = {..<region_count s}" "\<forall>x\<in>set F. is_idle (reg s x)"
      "region_count s \<le> region_ref_count s" "region_count s \<le> length (regions s)"
    using ok unfolding slots_ok_def by blast
  show ?thesis
  proof (cases F)
    case Nil
    then show ?thesis using F n
      by (intro that [where d = "region_count s" and h = Null and k = "Suc (region_count s)" and F = "[]"]) auto
  next
    case (Cons f F')
    then have f: "freed_regions_head s = Reg f" "f < length (regions s)" using F(1) by auto
    show ?thesis
      by (rule that [where d = f and h = "nxt (reg s f)" and k = "region_count s" and F = F'])
        (use F Cons f in \<open>auto simp: buf_simps\<close>)
  qed
qed

lemma refs_ok_append:
  assumes ok: "refs_ok s D" and n: "region_ref_count s < length (region_refs s)" and d: "d \<notin> D"
    and s': "region_refs s' = (region_refs s)[region_ref_count s := \<lparr>region = Some d, redirect = region_ref_count s\<rparr>]"
      "region_ref_count s' = Suc (region_ref_count s)"
  shows "refs_ok s' (insert d D)" "ref_stands s r e \<Longrightarrow> ref_stands s' r e" "is_root s r \<Longrightarrow> is_root s' r"
    "ref_stands s' (region_ref_count s) d" "is_root s' (region_ref_count s)"
proof -
  let ?n = "region_ref_count s"
  have root: "is_root s' t \<longleftrightarrow> is_root s t \<or> t = ?n" for t
    using n by (auto simp: is_root_def s' less_Suc_eq)
  show st: "ref_stands s' r e" if "ref_stands s r e" for r e
    using that unfolding ref_stands_def s'
    by (metis less_irrefl nth_list_update_neq resolves_append resolves_bound)
  show "is_root s r \<Longrightarrow> is_root s' r" "is_root s' ?n" by (simp_all add: root)
  then show nd: "ref_stands s' ?n d" using n by (simp add: ref_stands_root s')
  show "refs_ok s' (insert d D)"
    unfolding refs_ok_def
  proof (intro conjI allI impI)
    fix r assume "r < region_ref_count s'"
    then consider "r < ?n" | "r = ?n" by (auto simp: s' less_Suc_eq)
    then show "\<exists>e\<in>insert d D. ref_stands s' r e"
      using ok nd st unfolding refs_ok_def by cases blast+
  next
    fix t u assume t: "is_root s' t" and u: "is_root s' u"
      and eq: "region (region_refs s' ! t) = region (region_refs s' ! u)"
    have D: "region (region_refs s ! x) \<noteq> Some d" if "is_root s x" for x
      using refs_ok_D [OF ok, of x d] that d by (auto simp: ref_stands_root)
    have lt: "x \<noteq> ?n" if "is_root s x" for x using that by (simp add: is_root_def)
    show "t = u"
      using t u eq D [of t] D [of u] lt [of t] lt [of u] ok n
      unfolding root refs_ok_def by (auto simp: s')
  qed (use n in \<open>simp add: s'\<close>)
qed

lemma core_new_region:
  assumes core: "core D T s" and n: "region_ref_count s < length (region_refs s)"
      "region_ref_count s < length (regions s)"
    and col: "col = 0 \<or> col = 255" and T: "\<And>x a. T x a \<Longrightarrow> x \<in> D \<and> a \<in> D"
  shows "\<exists>d s'. new_region s x y col = Some (region_ref_count s, s') \<and> d \<notin> D \<and>
    core (insert d D) T s' \<and> region_ref_count s' = Suc (region_ref_count s) \<and>
    ref_stands s' (region_ref_count s) d \<and> is_root s' (region_ref_count s) \<and>
    view s' d = new_view x y col \<and> same_view D s s' \<and>
    scan_step (\<lambda>d. d) {} s s' \<and> roots_le s s'"
proof -
  obtain d h k F where alloc: "(case freed_regions_head s of
         Reg f \<Rightarrow> do { fr \<leftarrow> get_region s f; Some (f, s\<lparr>freed_regions_head := nxt fr\<rparr>) }
       | Null \<Rightarrow> Some (region_count s, s\<lparr>region_count := Suc (region_count s)\<rparr>)
       | Head _ \<Rightarrow> None) = Some (d, s\<lparr>freed_regions_head := h, region_count := k\<rparr>)"
    and d: "d < length (regions s)" "d \<notin> D" and k: "k \<le> Suc (region_ref_count s)" "k \<le> length (regions s)"
    and F: "free_list (regions s) h F" "distinct F" "set F \<inter> insert d D = {}"
      "set F \<union> insert d D = {..<k}" "\<forall>x \<in> set F. is_idle (reg s x)"
    by (rule slots_alloc [OF coreD(2) [OF core] n(2)]) blast
  define p where "p = (reg s d)\<lparr>
           colour := col,
           left := to_short (int x), right := to_short (int x),
           rtop := to_short (int y), bottom := to_short (int y),
           flags := NO_REGION_FLAG, area := 0, level := UNKNOWN_REGION_LEVEL, depth := 0,
           children_visited_count := 0, descendent_count := 32767, adjacent_regions := []\<rparr>"
  let ?n = "region_ref_count s"
  define s' where "s' = s\<lparr>freed_regions_head := h, region_count := k, regions := (regions s)[d := p],
      region_refs := (region_refs s)[?n := \<lparr>region = Some d, redirect = ?n\<rparr>], region_ref_count := Suc ?n\<rparr>"
  have fields: "region_refs s' = (region_refs s)[?n := \<lparr>region = Some d, redirect = ?n\<rparr>]"
      "region_ref_count s' = Suc ?n" "regions s' = (regions s)[d := p]" "freed_regions_head s' = h"
      "region_count s' = k" "max_adjacent_regions s' = max_adjacent_regions s"
    by (simp_all add: s'_def)
  have new: "new_region s x y col = Some (?n, s')"
    using d n col unfolding new_region_def alloc
    by (simp add: buf_simps Let_def s'_def p_def)
  note refs = refs_ok_append [OF coreD(1) [OF core] n(1) d(2) fields(1,2)]
  have gs: "graph s' = (graph s)\<lparr>edges := (edges (graph s))(d := {#}), gflags := (gflags (graph s))(d := 0)\<rparr>"
    using d by (simp add: graph_def fields fun_eq_iff nth_list_update p_def NO_REGION_FLAG_def)
  have slots: "slots_ok s' (insert d D)"
  proof -
    have Fd: "z \<noteq> d" if "z \<in> set F" for z using that F(3) by auto
    then have "free_list (regions s') h F" using F(1) d by (subst free_list_cong [of _ "regions s"]) (auto simp: fields nth_list_update p_def)
    moreover have "\<not> is_free (reg s' z)" if "z \<in> insert d D" for z
      using that coreD(2) [OF core] d by (cases "z = d") (auto simp: fields p_def is_free_def slots_ok_def)
    moreover have "is_idle (reg s' z)" if "z \<in> set F" for z using F(5) Fd [OF that] that by (simp add: fields)
    ultimately show ?thesis using F k unfolding slots_ok_def fields
      by (intro conjI exI [of _ F]) auto
  qed
  have gok: "graph_ok (max_adjacent_regions s) (colours s') (insert d D) (graph s')"
  proof -
    note ok = coreD(3) [OF core]
    have cd: "colours s' r = colours s r" if "r \<noteq> d" for r using that by (simp add: fields)
    have sub: "set_mset (edges (graph s) r) \<subseteq> D" if "r \<in> D" for r using graph_okD(1) [OF ok that] .
    show ?thesis
    proof (rule graph_okI)
      fix r a assume r: "r \<in> insert d D" and a: "a \<in># edges (graph s') r"
      then have "r \<noteq> d" "a \<in># edges (graph s) r" by (auto simp: gs split: if_splits)
      moreover with r sub d have "a \<noteq> d" by auto
      ultimately show "colours s' a \<noteq> colours s' r"
        using cd r graph_okD(5) [OF ok, of r a] by auto
    next
      fix r a assume ra: "r \<in> insert d D" "a \<in> insert d D"
      have "count (edges (graph s) r) d = 0" if "r \<in> D" for r using sub [OF that] d by (meson not_in_iff subsetD)
      then show "count (edges (graph s') r) a = count (edges (graph s') a) r"
        using ra graph_okD(4) [OF ok, of r a] by (auto simp: gs)
    qed (use sub graph_okD(2,3) [OF ok] in \<open>auto simp: gs g_saturated_def\<close>)
  qed
  have "exact (insert d D) (graph s') T"
  proof (rule exactI)
    fix z a assume za: "z \<in> insert d D" "a \<in> insert d D"
    note ex = exactD [OF coreD(4) [OF core]]
    show "T z a" if "a \<in># edges (graph s') z"
      using that za ex(1) [of z a] graph_okD(1) [OF coreD(3) [OF core], of z] d by (auto simp: gs split: if_splits)
    show "a \<in># edges (graph s') z \<or> detached (graph s') z a" if "T z a"
      using T [OF that] d ex(2) [of z a] that
      by (auto simp: gs detached_def g_saturated_def g_fragmented_def)
  qed
  then have "core (insert d D) T s'" using gok refs(1) slots by (simp add: core_def fields)
  moreover have "view s' d = new_view x y col"
    using d by (simp add: view_def fields p_def new_view_def)
  moreover have "same_view D s s'"
    unfolding same_view_def
  proof
    fix z assume "z \<in> D"
    with d(2) have "reg s' z = reg s z" by (metis fields(3) nth_list_update_neq)
    then show "view s' z = view s z" by (simp add: view_def)
  qed
  moreover have "scan_step (\<lambda>d. d) {} s s'"
    using refs(2) by (simp add: scan_step_def dims_def stands_le_def rows_but_def s'_def)
  moreover have "roots_le s s'" using refs(3) by (simp add: roots_le_def)
  ultimately show ?thesis using new refs(4,5) d(2) fields(2) by blast
qed

text \<open>Writing a cell of a row.\<close>

lemma core_row_set:
  assumes core: "core D T s" and b: "b + x < length (regions_under_construction s)"
  shows "\<exists>s'. row_set s b x ref = Some s' \<and> core D T s' \<and> scan_step (\<lambda>d. d) {b + x} s s' \<and>
    same_refs s s' \<and> regions s' = regions s \<and> (\<forall>d. ref_stands s ref d \<longrightarrow> cell s' b x d) \<and>
    (\<forall>d. ref_stands s ref d \<longrightarrow> is_root s ref \<longrightarrow> root_cell s' b x d)"
proof -
  define s' where "s' = s\<lparr>regions_under_construction := (regions_under_construction s)[b + x := Some ref]\<rparr>"
  have sr: "same_refs s s'" by (simp add: same_refs_def s'_def)
  note eqs = same_refs_stands [OF sr]
  have rows: "regions_under_construction s' = (regions_under_construction s)[b + x := Some ref]"
    by (simp add: s'_def)
  have "row_set s b x ref = Some s'" using b by (simp add: row_set_def buf_simps s'_def)
  moreover have "core D T s'" by (rule core_alike [OF core sr]) (simp add: s'_def alike_def)
  moreover have "scan_step (\<lambda>d. d) {b + x} s s'"
    by (simp add: scan_step_def stands_le_def eqs) (simp add: dims_def rows_but_def s'_def)
  moreover have "cell s' b x d" if "ref_stands s ref d" for d using that b by (simp add: cell_def eqs rows)
  moreover have "root_cell s' b x d" if "ref_stands s ref d" "is_root s ref" for d
    using that b by (simp add: root_cell_def eqs rows)
  ultimately show ?thesis using sr by (auto simp: s'_def)
qed

subsection \<open>Merging two regions\<close>

definition merge_view :: "View \<Rightarrow> View \<Rightarrow> View" where
  "merge_view p q = \<lparr>v_colour = v_colour p, v_left = min (v_left p) (v_left q),
     v_top = min (v_top p) (v_top q), v_right = max (v_right p) (v_right q),
     v_bottom = max (v_bottom p) (v_bottom q), v_border = v_border p \<or> v_border q\<rparr>"

lemma g_merge_saturated:
  "g_saturated (g_merge m r1 r2 C g) r2 \<Longrightarrow> g_saturated (g_merge m r1 r2 C g) r1"
  by (simp add: g_merge_def Let_def g_absorb_def g_saturated_def split: if_splits)
    (simp_all add: g_saturated_def [symmetric])

lemma graph_ok_less:
  assumes ok: "graph_ok m c D g" and r2: "edges g r2 = {#}"
    and g': "\<And>x. x \<in> D - {r2} \<Longrightarrow> edges g' x = edges g x"
    and sat: "\<And>x. x \<in> D - {r2} \<Longrightarrow> g_saturated g' x \<Longrightarrow> edges g x = {#}"
  shows "graph_ok m c (D - {r2}) g'"
proof (rule graph_okI)
  fix r assume r: "r \<in> D - {r2}"
  have "r2 \<in> D \<Longrightarrow> r2 \<notin># edges g r" using graph_ok_sym [OF ok, of r r2] r r2 by auto
  then show "set_mset (edges g' r) \<subseteq> D - {r2}" using graph_okD(1) [OF ok, of r] g' [OF r] r by auto
qed (use graph_okD [OF ok] g' sat in auto)

lemma refs_ok_link:
  assumes ok: "refs_ok s D" and c: "is_root s cref" "ref_stands s cref c"
    and u: "is_root s uref" "ref_stands s uref u" and uc: "u \<noteq> c"
    and s': "region_refs s' = (region_refs s)[cref := \<lparr>region = None, redirect = uref\<rparr>]"
      "region_ref_count s' = region_ref_count s"
  shows "refs_ok s' (D - {c})" "ref_stands s r e \<Longrightarrow> ref_stands s' r (relabel u c e)"
    "is_root s' t \<longleftrightarrow> is_root s t \<and> t \<noteq> cref"
proof -
  have n: "region_ref_count s \<le> length (region_refs s)" using ok by (simp add: refs_ok_def)
  have cl: "cref < length (region_refs s)" using c n by (simp add: is_root_def)
  have ne: "uref \<noteq> cref" using c u uc by (auto simp: ref_stands_root)
  show root: "is_root s' t \<longleftrightarrow> is_root s t \<and> t \<noteq> cref" for t
    using cl ne by (cases "t = cref") (auto simp: is_root_def s')
  show st: "ref_stands s' r (relabel u c e)" if r: "ref_stands s r e" for r e
  proof -
    obtain t where t: "resolves (region_refs s) (region_ref_count s) r t" "region (region_refs s ! t) = Some e"
      using r by (auto simp: ref_stands_def)
    have rt: "is_root s t" using resolves_bound [OF t(1)] resolves_is_root [OF t(1)] by (simp add: is_root_def)
    have "resolves (region_refs s') (region_ref_count s') r (if t = cref then uref else t)"
      unfolding s' using c u ne n by (intro resolves_link [OF t(1)]) (auto simp: is_root_def)
    moreover have "region (region_refs s' ! (if t = cref then uref else t)) = Some (relabel u c e)"
    proof (cases "t = cref")
      case True
      then have "e = c" using t(2) c by (simp add: ref_stands_root)
      then show ?thesis using True u ne by (simp add: s' relabel_def ref_stands_root)
    next
      case False
      then have "e \<noteq> c" using rt c t(2) ok unfolding refs_ok_def by (metis ref_stands_root)
      then show ?thesis using False t(2) by (simp add: s' relabel_def)
    qed
    ultimately show ?thesis unfolding ref_stands_def by blast
  qed
  show "refs_ok s' (D - {c})"
    unfolding refs_ok_def
  proof (intro conjI allI impI)
    fix r assume "r < region_ref_count s'"
    then obtain e where e: "ref_stands s r e" "e \<in> D" using ok by (auto simp: refs_ok_def s')
    have "u \<in> D" using refs_ok_D [OF ok u(2)] .
    then have "relabel u c e \<in> D - {c}" using e uc by (auto simp: relabel_def)
    then show "\<exists>d\<in>D - {c}. ref_stands s' r d" using st [OF e(1)] by blast
  next
    fix t v assume "is_root s' t" "is_root s' v" "region (region_refs s' ! t) = region (region_refs s' ! v)"
    then show "t = v" using ok unfolding root refs_ok_def by (simp add: s')
  qed (use n in \<open>simp add: s'\<close>)
qed

text \<open>
  \<open>merge_regions\<close> unites two regions of one colour that are not in contact. The region
  that was absorbed is still live, without edges, and its flags have been taken over.
\<close>

lemma merge_regions_ok:
  assumes core: "core D T s" and uc: "u \<in> D" "c \<in> D" "u \<noteq> c" and col: "colours s u = colours s c"
    and sym: "\<And>x a. T x a \<Longrightarrow> T a x"
  shows "\<exists>s'. merge_regions s u c = Some s' \<and> same_refs s s' \<and>
    regions_under_construction s' = regions_under_construction s \<and>
    (\<forall>x < length (regions s). nxt (reg s' x) = nxt (reg s x) \<and> is_free (reg s' x) = is_free (reg s x)) \<and>
    (\<forall>x. x \<notin> D \<longrightarrow> edges (graph s) x = {#} \<longrightarrow> edges (graph s') x = {#}) \<and>
    edges (graph s') c = {#} \<and>
    (\<forall>g'. edges g' = edges (graph s') \<longrightarrow> (\<forall>x. x \<noteq> c \<longrightarrow> gflags g' x = gflags (graph s') x) \<longrightarrow>
       graph_ok (max_adjacent_regions s) (colours s) (D - {c}) g' \<and>
       exact (D - {c}) g' (merged_contact D u c T)) \<and>
    (\<forall>x\<in>D. view s' x = (if x = u then merge_view (view s u) (view s c) else view s x))"
proof -
  let ?m = "max_adjacent_regions s" and ?g = "graph s" and ?T' = "merged_contact D u c T"
  note ok = coreD(3) [OF core] and D = coreD(5) [OF core]
  have len: "u < length (regions s)" "c < length (regions s)" using uc D by auto
  obtain C where C: "C \<subseteq># edges ?g c" "set_mset C \<subseteq> set_mset (edges ?g u)"
      and impl: "implements s (merge_adjacencies s u c) (g_merge ?m u c C ?g)"
    using merge_adjacencies_impl [OF ok D uc col refl] by blast
  define g1 where "g1 = g_merge ?m u c C ?g"
  obtain t where t: "merge_adjacencies s u c = Some t" "frame s t" "graph t = g1"
      "length (regions t) = length (regions s)"
    using impl by (auto simp: g1_def elim: implementsE)
  define s' where "s' = t\<lparr>regions := (regions t)[u := merge_bounds (reg t u) (reg t c)]\<rparr>"
  have regs: "regions s' = (regions t)[u := merge_bounds (reg t u) (reg t c)]" by (simp add: s'_def)
  have fl: "flag_set (gflags g1 x) f = flag_set (gflags ?g x) f" if "other_flag f" for f x
    using that by (simp add: g1_def other_flag_merge)
  have flr: "flag_set (flags (reg t x)) f = flag_set (flags (reg s x)) f"
    if "other_flag f" "x < length (regions s)" for f x
    using fl [OF that(1), of x] t(4) that(2) by (simp add: gflags_graph flip: t(3))
  have same: "same_region (reg s x) (reg t x)" if "x < length (regions s)" for x
    by (rule frame_region [OF t(2) that])
  have g': "graph s' = g_or u (gflags g1 c) g1"
    using len t(4) unfolding s'_def
    by (simp add: g_or_def merge_bounds_def gflags_graph edges_graph flip: t(3))
      (simp flip: edges_graph)
  have irr: "c \<notin># edges ?g u" "u \<notin># edges ?g c"
    using graph_okD(5) [OF ok] uc col by (metis, metis)
  have "merge_regions s u c = Some s'"
    using len uc irr t(1,4) unfolding merge_regions_def
    by (simp add: r1_adjacent_contains_r2_eq buf_simps s'_def)
  moreover have "same_refs s s'"
    using frame_same_refs [OF t(2)] by (simp add: same_refs_def s'_def)
  moreover have "regions_under_construction s' = regions_under_construction s"
    using frame_fields [OF t(2)] by (simp add: s'_def)
  moreover have "nxt (reg s' x) = nxt (reg s x) \<and> is_free (reg s' x) = is_free (reg s x)"
    if x: "x < length (regions s)" for x
  proof -
    have nf: "\<not> is_free (reg s u)" "\<not> is_free (reg s c)"
      using coreD(2) [OF core] uc by (auto simp: slots_ok_def)
    show ?thesis using same [OF x] flr [of FREE_REGION_FLAG] x nf len t(4)
      by (cases "x = u") (auto simp: regs merge_bounds_def same_region_def is_free_def flag_set_or)
  qed
  moreover have "edges g1 x = {#}" if "x \<notin> D" "edges ?g x = {#}" for x
    unfolding g1_def by (rule idle_merge [OF graph_okD(1) [OF ok uc(2)] uc(1) that])
  moreover have e2: "edges g1 c = {#}" unfolding g1_def by (rule g_merge_edges_r2 [OF ok uc])
  moreover have "graph_ok ?m (colours s) (D - {c}) g' \<and> exact (D - {c}) g' ?T'"
    if eq: "edges g' = edges (graph s')" "\<forall>x. x \<noteq> c \<longrightarrow> gflags g' x = gflags (graph s') x" for g'
  proof
    have ok1: "graph_ok ?m (colours s) D g1" unfolding g1_def by (rule g_merge_ok [OF ok uc col C(1)])
    have sat: "g_saturated g' x \<longleftrightarrow> g_saturated g1 x \<or> (x = u \<and> g_saturated g1 c)" if "x \<noteq> c" for x
      using that eq uc by (auto simp: g' g_saturated_def g_or_def flag_set_or)
    show "graph_ok ?m (colours s) (D - {c}) g'"
    proof (rule graph_ok_less [OF ok1 e2])
      fix x assume x: "x \<in> D - {c}" "g_saturated g' x"
      then have "g_saturated g1 x" using sat [of x] g_merge_saturated [of ?m u c C ?g] by (auto simp: g1_def)
      then show "edges g1 x = {#}" using graph_okD(3) [OF ok1] x by auto
    qed (simp add: eq g')
    have "exact (D - {c}) (graph s') ?T'"
      unfolding g' g1_def by (rule exact_merge [OF ok uc col coreD(4) [OF core] sym C])
    then show "exact (D - {c}) g' ?T'"
      using eq by (auto simp: exact_def detached_def g_saturated_def g_fragmented_def)
  qed
  moreover have "view s' x = (if x = u then merge_view (view s u) (view s c) else view s x)" if x: "x \<in> D" for x
    using same [of x] same [of c] flr [of ADJACENT_TO_ROOT_REGION_FLAG] x D len t(4)
    by (cases "x = u") (auto simp: regs merge_bounds_def view_def merge_view_def same_region_def flag_set_or)
  ultimately show ?thesis by (auto simp: g')
qed

lemma slots_free:
  assumes ok: "slots_ok s D" and c: "c \<in> D"
    and s': "region_ref_count s' = region_ref_count s" "region_count s' = region_count s"
      "freed_regions_head s' = Reg c" "length (regions s') = length (regions s)"
      "nxt (reg s' c) = freed_regions_head s" "is_idle (reg s' c)"
    and same: "\<And>x. x < length (regions s) \<Longrightarrow> x \<noteq> c \<Longrightarrow>
       nxt (reg s' x) = nxt (reg s x) \<and> is_free (reg s' x) = is_free (reg s x)"
    and idle: "\<And>x. x < length (regions s) \<Longrightarrow> x \<notin> D \<Longrightarrow> adjacent_regions (reg s x) = [] \<Longrightarrow> adjacent_regions (reg s' x) = []"
  shows "slots_ok s' (D - {c})"
proof -
  obtain F where F: "free_list (regions s) (freed_regions_head s) F" "distinct F" "set F \<inter> D = {}"
      "set F \<union> D = {..<region_count s}" "\<forall>x\<in>set F. is_idle (reg s x)"
      "region_count s \<le> region_ref_count s" "region_count s \<le> length (regions s)"
      "\<forall>x\<in>D. \<not> is_free (reg s x)"
    using ok unfolding slots_ok_def by blast
  have lt: "x < length (regions s)" if "x \<in> set F \<union> D" for x using that F(4,7) by auto
  have cF: "c \<notin> set F" using F(3) c by auto
  have sm: "nxt (reg s' x) = nxt (reg s x) \<and> is_free (reg s' x) = is_free (reg s x)"
    if "x \<in> set F \<union> D" "x \<noteq> c" for x using same lt [OF that(1)] that(2) by blast
  have "free_list (regions s') (freed_regions_head s) F"
    using F(1) s' sm cF by (subst free_list_cong [of _ "regions s"]) auto
  then have "free_list (regions s') (freed_regions_head s') (c # F)" using s' lt c by simp
  moreover have "is_idle (reg s' x)" if "x \<in> set (c # F)" for x
    using that sm [of x] F(3,5) s'(6) idle [OF lt, of x] unfolding is_idle_def by (cases "x = c") auto
  moreover have "\<not> is_free (reg s' x)" if "x \<in> D - {c}" for x using that sm [of x] F(8) by auto
  moreover have "distinct (c # F)" "set (c # F) \<inter> (D - {c}) = {}" "set (c # F) \<union> (D - {c}) = {..<region_count s'}"
    using F cF c s' by auto
  ultimately show ?thesis using F(6,7) s'
    unfolding slots_ok_def by (intro conjI exI [of _ "c # F"]) auto
qed

lemma merge_into_previous_ok:
  assumes core: "core D T s" and u: "root_cell s prev x u" and c: "root_cell s cur x c"
    and uc: "u \<noteq> c" and col: "colours s u = colours s c" and sym: "\<And>x a. T x a \<Longrightarrow> T a x"
  shows "\<exists>s'. merge_into_previous s prev cur x = Some s' \<and> core (D - {c}) (merged_contact D u c T) s' \<and>
    root_cell s' cur x u \<and> scan_step (relabel u c) {cur + x} s s' \<and>
    (\<forall>z\<in>D - {c}. view s' z = (if z = u then merge_view (view s u) (view s c) else view s z)) \<and>
    region_ref_count s' = region_ref_count s"
proof -
  note ok = coreD(1) [OF core]
  obtain uref where uref: "row_get s prev x = Some uref" "is_root s uref" "ref_stands s uref u"
    using root_cell_get [OF u ok] by blast
  obtain cref where cref: "row_get s cur x = Some cref" "is_root s cref" "ref_stands s cref c"
    using root_cell_get [OF c ok] by blast
  have rows: "regions_under_construction s ! (prev + x) = Some uref" "regions_under_construction s ! (cur + x) = Some cref"
      "prev + x < length (regions_under_construction s)" "cur + x < length (regions_under_construction s)"
    using uref(1) cref(1) u c by (auto simp: row_get_def root_cell_def buf_simps)
  have D: "u \<in> D" "c \<in> D" using refs_ok_D [OF ok] uref cref by blast+
  have len: "u < length (regions s)" "c < length (regions s)" using D coreD(5) [OF core] by auto
  have refl: "cref < length (region_refs s)" using cref(2) ok by (simp add: is_root_def refs_ok_def)
  obtain t where t: "merge_regions s u c = Some t" "same_refs s t"
      "regions_under_construction t = regions_under_construction s"
      "\<forall>x < length (regions s). nxt (reg t x) = nxt (reg s x) \<and> is_free (reg t x) = is_free (reg s x)"
      "\<forall>x. x \<notin> D \<longrightarrow> edges (graph s) x = {#} \<longrightarrow> edges (graph t) x = {#}"
      "edges (graph t) c = {#}"
      "\<forall>g'. edges g' = edges (graph t) \<longrightarrow> (\<forall>x. x \<noteq> c \<longrightarrow> gflags g' x = gflags (graph t) x) \<longrightarrow>
         graph_ok (max_adjacent_regions s) (colours s) (D - {c}) g' \<and>
         exact (D - {c}) g' (merged_contact D u c T)"
      "\<forall>x\<in>D. view t x = (if x = u then merge_view (view s u) (view s c) else view s x)"
    using merge_regions_ok [OF core D uc col sym] by blast
  have tf: "region_refs t = region_refs s" "length (regions t) = length (regions s)"
      "freed_regions_head t = freed_regions_head s"
    using t(2) by (simp_all add: same_refs_def)
  define s' where "s' = t\<lparr>
      regions := (regions t)[c := (reg t c)\<lparr>flags := FREE_REGION_FLAG, nxt := freed_regions_head s\<rparr>],
      freed_regions_head := Reg c,
      region_refs := (region_refs s)[cref := \<lparr>region = None, redirect = uref\<rparr>],
      regions_under_construction := (regions_under_construction s)[cur + x := Some uref]\<rparr>"
  have f: "regions s' = (regions t)[c := (reg t c)\<lparr>flags := FREE_REGION_FLAG, nxt := freed_regions_head s\<rparr>]"
      "freed_regions_head s' = Reg c" "region_refs s' = (region_refs s)[cref := \<lparr>region = None, redirect = uref\<rparr>]"
      "regions_under_construction s' = (regions_under_construction s)[cur + x := Some uref]"
      "region_ref_count s' = region_ref_count s" "region_count s' = region_count s"
      "max_adjacent_regions s' = max_adjacent_regions s"
    using t(2) by (simp_all add: s'_def same_refs_def)
  have "merge_into_previous s prev cur x = Some s'"
    using root_cell_get(1) [OF u ok] root_cell_get(1) [OF c ok] t(1,3) tf len rows refl
    unfolding merge_into_previous_def row_get_def row_set_def
    by (simp add: buf_simps Let_def s'_def)
  moreover note link = refs_ok_link [OF ok cref(2,3) uref(2,3) uc f(3,5)]
  have idle: "adjacent_regions (reg t x) = []"
    if "x < length (regions s)" "x \<notin> D" "adjacent_regions (reg s x) = []" for x
    using t(5) [rule_format, of x] that tf(2) by (simp add: edges_graph)
  have ac: "adjacent_regions (reg t c) = []" using t(6) len(2) tf(2) by (simp add: edges_graph)
  have "slots_ok s' (D - {c})"
    by (rule slots_free [OF coreD(2) [OF core] D(2)])
      (use len t(4) idle ac tf D in \<open>auto simp: f is_free_def is_idle_def nth_list_update\<close>)
  moreover have gr: "graph s' = (graph t)\<lparr>gflags := (gflags (graph t))(c := FREE_REGION_FLAG)\<rparr>"
    using len tf by (simp add: graph_def f fun_eq_iff nth_list_update)
  have "graph_ok (max_adjacent_regions s) (colours s) (D - {c}) (graph s') \<and>
      exact (D - {c}) (graph s') (merged_contact D u c T)"
    by (rule t(7) [rule_format]) (simp_all add: gr)
  moreover have vw: "view s' z = (if z = u then merge_view (view s u) (view s c) else view s z)" if z: "z \<in> D - {c}" for z
  proof -
    have "reg s' z = reg t z" using z by (simp add: f)
    then show ?thesis using t(8) z by (simp add: view_def)
  qed
  moreover have "colours s' z = colours s z" if "z \<in> D - {c}" for z
    using arg_cong [OF vw [OF that], of v_colour] by (simp add: merge_view_def split: if_splits)
  ultimately have "core (D - {c}) (merged_contact D u c T) s'"
    using link(1) graph_ok_cong [of "max_adjacent_regions s" "colours s" "D - {c}" "graph s'" "colours s'"]
    by (simp only: core_def f(7))
  moreover have "root_cell s' cur x u"
  proof -
    have "uref \<noteq> cref" using uref cref uc by (auto simp: ref_stands_root)
    then have "is_root s' uref" using uref(2) by (simp add: link(3))
    moreover have "ref_stands s' uref u" using link(2) [OF uref(3)] uc by (simp add: relabel_def)
    ultimately show ?thesis using rows by (simp add: root_cell_def f)
  qed
  moreover have "scan_step (relabel u c) {cur + x} s s'"
    using t(2) link(2) by (simp add: scan_step_def dims_def stands_le_def rows_but_def same_refs_def s'_def)
  ultimately show ?thesis using vw f(5) \<open>merge_into_previous s prev cur x = Some s'\<close> by blast
qed

end
