(* ===== verification/ScanLabels.thy ===== *)
theory ScanLabels
  imports PixelGrid SegmentOps
begin

text \<open>
  How one more pixel changes the reference semantics of an image: its connected components,
  the contacts between them, their border pixels and their bounding boxes. These lemmas are
  about labellings of pixels alone; the row scan of the segmenter is proved with them.
\<close>

subsection \<open>One more pixel: components\<close>

lemma before_less: "0 < W \<Longrightarrow> before W p q \<Longrightarrow> p < q"
  by (auto simp: before_def west_def north_def)

lemma labels_extend:
  assumes W: "0 < W" and lab: "labels W src n f"
    and p0: "before W p0 n" "src ! p0 = src ! n"
    and others: "\<And>q. before W q n \<Longrightarrow> src ! q = src ! n \<Longrightarrow> f q = f p0"
  shows "labels W src (Suc n) (f(n := f p0))"
proof (rule labelsI)
  have p0n: "p0 < n" using before_less [OF W p0(1)] .
  fix p q assume pq: "p < Suc n" "q < Suc n"
  show "(f(n := f p0)) p = (f(n := f p0)) q" if "before W p q" "src ! p = src ! q"
  proof (cases "q = n")
    case True
    then show ?thesis using that others before_less [OF W that(1)] by auto
  next
    case False
    then have "q < n" "p < n" using pq before_less [OF W that(1)] by auto
    then show ?thesis using labels_before [OF lab that(1)] that(2) by simp
  qed
  have to_n: "conn W src (Suc n) p n" if p: "p < Suc n" and eq: "(f(n := f p0)) p = f p0" for p
  proof (cases "p = n")
    case False
    then have "p < n" using p by simp
    then have "conn W src n p p0" using eq p0n False labelsD [OF lab] by simp
    moreover have "same_step W src (Suc n) p0 n" using p0 p0n by (simp add: same_step_def nbr_def)
    ultimately show ?thesis by (meson conn_mono conn_step conn_trans le_Suc_eq order_refl)
  qed simp
  show "conn W src (Suc n) p q" if "(f(n := f p0)) p = (f(n := f p0)) q"
  proof (cases "p = n \<or> q = n")
    case True
    then show ?thesis using that to_n [OF pq(1)] to_n [OF pq(2)] by (auto intro: conn_sym)
  next
    case False
    then have "conn W src n p q" using pq that labelsD [OF lab, of p q] by auto
    then show ?thesis by (rule conn_mono) simp
  qed
qed

lemma labels_new:
  assumes W: "0 < W" and lab: "labels W src n f" and d: "d \<notin> f ` {..<n}"
    and none: "\<And>q. before W q n \<Longrightarrow> src ! q \<noteq> src ! n"
  shows "labels W src (Suc n) (f(n := d))"
proof (rule labelsI)
  fix p q assume pq: "p < Suc n" "q < Suc n"
  show "(f(n := d)) p = (f(n := d)) q" if "before W p q" "src ! p = src ! q"
  proof -
    have "q \<noteq> n" using that none by auto
    then have "q < n" "p < n" using pq before_less [OF W that(1)] by auto
    then show ?thesis using labels_before [OF lab that(1)] that(2) by simp
  qed
  show "conn W src (Suc n) p q" if "(f(n := d)) p = (f(n := d)) q"
  proof (cases "p = n \<or> q = n")
    case True
    then have "p = q" using that d pq by (auto split: if_splits simp: less_Suc_eq)
    then show ?thesis by simp
  next
    case False
    then have "conn W src n p q" using pq that labelsD [OF lab, of p q] by auto
    then show ?thesis by (rule conn_mono) simp
  qed
qed

lemma labels_merge:
  assumes W: "0 < W" and lab: "labels W src n f"
    and a: "before W a n" "src ! a = src ! n" and b: "before W b n" "src ! b = src ! n"
    and only: "\<And>q. before W q n \<Longrightarrow> q = a \<or> q = b"
  shows "labels W src (Suc n) (\<lambda>p. if p = n then f a else relabel (f a) (f b) (f p))"
    (is "labels W src (Suc n) ?h")
proof (rule labelsI)
  have lt: "a < n" "b < n" using before_less [OF W] a b by auto
  have step: "conn W src (Suc n) a n" "conn W src (Suc n) b n"
    using a b lt by (auto intro!: conn_step simp: same_step_def nbr_def)
  fix p q assume pq: "p < Suc n" "q < Suc n"
  show "?h p = ?h q" if "before W p q" "src ! p = src ! q"
  proof (cases "q = n")
    case True
    then show ?thesis using only [of p] that lt by (auto simp: relabel_def)
  next
    case False
    then have "q < n" "p < n" using pq before_less [OF W that(1)] by auto
    then show ?thesis using labels_before [OF lab that(1)] that(2) by simp
  qed
  have to_n: "conn W src (Suc n) p n" if p: "p < Suc n" and eq: "?h p = f a" for p
  proof (cases "p = n")
    case False
    then have "p < n" using p by simp
    moreover have "f p = f a \<or> f p = f b" using eq False by (auto simp: relabel_def split: if_splits)
    ultimately have "conn W src n p a \<or> conn W src n p b" using lt labelsD [OF lab] by auto
    then show ?thesis using step by (meson conn_mono conn_trans le_Suc_eq order_refl)
  qed simp
  show "conn W src (Suc n) p q" if eq: "?h p = ?h q"
  proof (cases "?h p = f a")
    case True
    then show ?thesis using to_n [OF pq(1)] to_n [OF pq(2)] eq by (metis conn_sym conn_trans)
  next
    case False
    then have "p \<noteq> n" "q \<noteq> n" using eq by auto
    moreover from this False eq have "f p = f q" by (auto simp: relabel_def split: if_splits)
    ultimately have "conn W src n p q" using pq labelsD [OF lab, of p q] by auto
    then show ?thesis by (rule conn_mono) simp
  qed
qed

subsection \<open>One more pixel: contacts\<close>

lemma contact_extend:
  assumes W: "0 < W" and p0: "p0 < n"
    and others: "\<And>q. before W q n \<Longrightarrow> f q = f p0 \<or> contact W n f (f q) (f p0)"
  shows "contact W (Suc n) (f(n := f p0)) = contact W n f"
proof (intro ext)
  fix x a
  have "f q = f p0 \<or> contact W n f (f q) (f p0) \<and> contact W n f (f p0) (f q)" if "before W q n" for q
    using others [OF that] contact_sym [of W n f] by blast
  then show "contact W (Suc n) (f(n := f p0)) x a = contact W n f x a"
    using p0 by (auto simp: contact_Suc [OF W, of n "f(n := f p0)" f]) metis+
qed

lemma contact_new:
  assumes W: "0 < W" and d: "d \<notin> f ` {..<n}"
  shows "contact W (Suc n) (f(n := d)) x a \<longleftrightarrow> contact W n f x a \<or>
     (\<exists>q. before W q n \<and> (x = f q \<and> a = d \<or> x = d \<and> a = f q))"
proof -
  have "q < n \<and> f q \<noteq> d" if "before W q n" for q using before_less [OF W that] d by auto
  then show ?thesis by (subst contact_Suc [OF W, of n "f(n := d)" f]) (simp, metis fun_upd_same)
qed

lemma contact_merge:
  assumes W: "0 < W" and lt: "a < n" "b < n" and only: "\<And>q. before W q n \<Longrightarrow> q = a \<or> q = b"
  shows "contact W (Suc n) (\<lambda>p. if p = n then f a else relabel (f a) (f b) (f p)) =
    merged_contact (f ` {..<n}) (f a) (f b) (contact W n f)" (is "contact W (Suc n) ?h = ?m")
proof (intro ext)
  fix x z
  let ?r = "\<lambda>p. relabel (f a) (f b) (f p)"
  have "contact W (Suc n) ?h x z \<longleftrightarrow> contact W n ?r x z"
    using only by (subst contact_Suc [OF W, of n ?h ?r]) (auto simp: relabel_def)
  also have "\<dots> \<longleftrightarrow> ?m x z"
    by (auto simp: contact_relabel merged_contact_def) (auto simp: contact_def)
  finally show "contact W (Suc n) ?h x z \<longleftrightarrow> ?m x z" .
qed

text \<open>
  In an image of two colours, the pixel to the north-west shows that the regions to the
  west and to the north are in contact already when they differ in colour.
\<close>

lemma corner_contact:
  assumes lab: "labels W src n f" and n: "west W p n" "north W q n" and W: "0 < W"
    and bin: "src ! p \<noteq> src ! q" "\<And>c. c \<in> set src \<Longrightarrow> c = src ! p \<or> c = src ! q" and len: "n < length src"
  shows "contact W n f (f p) (f q)"
proof -
  have pn: "n = Suc p" "n = q + W" "n mod W \<noteq> 0" using n by (auto simp: west_def north_def)
  have "0 < q"
  proof (rule ccontr)
    assume "\<not> 0 < q"
    then have "n = W" using pn by simp
    then show False using pn(3) by simp
  qed
  then obtain c where c: "q = Suc c" by (metis gr0_implies_Suc)
  have "q mod W = n mod W" using pn(2) by simp
  then have cq: "west W c q" using pn(3) c by (simp add: west_def)
  have cp: "north W c p" using pn c by (simp add: north_def)
  have lt: "c < n" "p < n" "q < n" using pn c W by auto
  have qmod: "before W c q" "before W c p" using cp cq by (auto simp: before_def)
  have pq: "f p \<noteq> f q" using labelsD [OF lab lt(2,3)] conn_colour bin(1) by metis
  have "src ! c = src ! p \<or> src ! c = src ! q" using bin(2) [of "src ! c"] lt len by simp
  then show ?thesis
  proof
    assume "src ! c = src ! p"
    then have "f c = f p" by (rule labels_before [OF lab qmod(2) lt(1,2)])
    then show ?thesis using contactI [OF lt(1,3), of W f] qmod pq by (simp add: nbr_def)
  next
    assume "src ! c = src ! q"
    then have "f c = f q" by (rule labels_before [OF lab qmod(1) lt(1,3)])
    then show ?thesis using contactI [OF lt(2,1), of W f] qmod pq by (simp add: nbr_def)
  qed
qed

subsection \<open>Border marks\<close>

text \<open>A region is marked when it has one of the pixels of \<open>B\<close>.\<close>

definition borders :: "nat set \<Rightarrow> nat \<Rightarrow> (nat \<Rightarrow> nat) \<Rightarrow> (nat \<Rightarrow> View) \<Rightarrow> bool" where
  "borders B n f V \<longleftrightarrow> (\<forall>p<n. v_border (V (f p)) \<longleftrightarrow> (\<exists>q<n. q \<in> B \<and> f q = f p))"

lemma borders_cong:
  "borders B n f V \<Longrightarrow> (\<And>p. p < n \<Longrightarrow> v_border (V' (f p)) = v_border (V (f p))) \<Longrightarrow> borders B n f V'"
  by (simp add: borders_def)

lemma borders_extend:
  assumes "borders B n f V" "p0 < n" "n \<in> B \<Longrightarrow> p0 \<in> B"
  shows "borders B (Suc n) (f(n := f p0)) V"
  using assms unfolding borders_def less_Suc_eq
  by (auto simp: all_conj_distrib) (metis fun_upd_apply less_irrefl)+

lemma borders_new:
  assumes "borders B n f V" "d \<notin> f ` {..<n}" "v_border (V d) \<longleftrightarrow> n \<in> B"
  shows "borders B (Suc n) (f(n := d)) V"
  using assms unfolding borders_def less_Suc_eq by (auto simp: image_iff)

lemma borders_mark:
  assumes "borders B n f V" "p0 < n"
    and "\<And>p. p < n \<Longrightarrow> v_border (V' (f p)) \<longleftrightarrow> v_border (V (f p)) \<or> f p = f p0"
  shows "borders (insert p0 B) n f V'"
  unfolding borders_def
proof (intro allI impI)
  fix p assume p: "p < n"
  then have "v_border (V' (f p)) \<longleftrightarrow> (\<exists>q<n. q \<in> B \<and> f q = f p) \<or> f p = f p0"
    using assms(1,3) by (simp add: borders_def)
  then show "v_border (V' (f p)) \<longleftrightarrow> (\<exists>q<n. q \<in> insert p0 B \<and> f q = f p)"
    using assms(2) by auto
qed

lemma borders_merge:
  assumes bd: "borders B n f V" and ab: "a < n" "b < n" and n: "n \<notin> B"
    and V': "\<And>z. z \<in> f ` {..<n} \<Longrightarrow> z \<noteq> f b \<Longrightarrow>
      v_border (V' z) \<longleftrightarrow> (if z = f a then v_border (V (f a)) \<or> v_border (V (f b)) else v_border (V z))"
    and neq: "f a \<noteq> f b"
  shows "borders B (Suc n) (\<lambda>p. if p = n then f a else relabel (f a) (f b) (f p)) V'"
    (is "borders B (Suc n) ?h V'")
proof -
  have key: "v_border (V' (?h p)) \<longleftrightarrow> (\<exists>q<n. q \<in> B \<and> ?h q = ?h p)" if p: "p < n" for p
  proof -
    have hp: "?h p \<in> f ` {..<n}" "?h p \<noteq> f b" using p ab neq by (auto simp: relabel_def)
    have bd': "v_border (V (f p)) \<longleftrightarrow> (\<exists>q<n. q \<in> B \<and> f q = f p)" if "p < n" for p
      using bd that by (simp add: borders_def)
    show ?thesis
    proof (cases "f p = f a \<or> f p = f b")
      case True
      then have h: "?h p = f a" using p by (auto simp: relabel_def)
      have "q < n \<and> q \<in> B \<and> ?h q = f a \<longleftrightarrow>
          (q < n \<and> q \<in> B \<and> f q = f a) \<or> (q < n \<and> q \<in> B \<and> f q = f b)" for q
        by (auto simp: relabel_def)
      then show ?thesis using V' [OF hp] bd' [OF ab(1)] bd' [OF ab(2)] unfolding h
        by (simp add: ex_disj_distrib)
    next
      case False
      then have h: "?h p = f p" using p by (simp add: relabel_def)
      have "q < n \<and> q \<in> B \<and> ?h q = f p \<longleftrightarrow> q < n \<and> q \<in> B \<and> f q = f p" for q using False by (auto simp: relabel_def)
      then show ?thesis using V' [OF hp] bd' [OF p] False unfolding h by simp
    qed
  qed
  have "?h n = ?h a" using ab neq by (simp add: relabel_def)
  then show ?thesis using key key [OF ab(1)] ab n
    unfolding borders_def less_Suc_eq by auto
qed

subsection \<open>Bounding boxes\<close>

text \<open>
  What a box \<open>v\<close> owes to the pixel \<open>p\<close> once \<open>n\<close> pixels have been scanned. The right side is
  only brought up to date when a run of pixels is followed by another one in the line, the
  lower side only when a run begins after another one.
\<close>

definition box_in :: "nat \<Rightarrow> 'c list \<Rightarrow> nat \<Rightarrow> View \<Rightarrow> nat \<Rightarrow> bool" where
  "box_in W src n v p \<longleftrightarrow> v_left v \<le> int (p mod W) \<and> v_top v \<le> int (p div W) \<and>
     (W \<le> p \<longrightarrow> Suc p < n \<longrightarrow> Suc p mod W \<noteq> 0 \<longrightarrow> src ! p \<noteq> src ! Suc p \<longrightarrow> int (p mod W) \<le> v_right v) \<and>
     (p mod W \<noteq> 0 \<longrightarrow> src ! (p - 1) \<noteq> src ! p \<longrightarrow> int (p div W) \<le> v_bottom v)"

text \<open>Each side of the box goes through a pixel of the region \<open>d\<close>.\<close>

definition attained :: "nat \<Rightarrow> nat \<Rightarrow> (nat \<Rightarrow> nat) \<Rightarrow> nat \<Rightarrow> View \<Rightarrow> bool" where
  "attained W n f d v \<longleftrightarrow>
     (\<exists>q<n. f q = d \<and> v_left v = int (q mod W)) \<and> (\<exists>q<n. f q = d \<and> v_top v = int (q div W)) \<and>
     (\<exists>q<n. f q = d \<and> v_right v = int (q mod W)) \<and> (\<exists>q<n. f q = d \<and> v_bottom v = int (q div W))"

definition boxes :: "nat \<Rightarrow> 'c list \<Rightarrow> nat \<Rightarrow> (nat \<Rightarrow> nat) \<Rightarrow> (nat \<Rightarrow> View) \<Rightarrow> bool" where
  "boxes W src n f V \<longleftrightarrow> (\<forall>p<n. box_in W src n (V (f p)) p \<and> attained W n f (f p) (V (f p)))"

definition box_le :: "View \<Rightarrow> View \<Rightarrow> bool" where
  "box_le v v' \<longleftrightarrow> v_left v' \<le> v_left v \<and> v_top v' \<le> v_top v \<and>
     v_right v \<le> v_right v' \<and> v_bottom v \<le> v_bottom v'"

lemma box_le_refl [simp, intro]: "box_le v v"
  by (simp add: box_le_def)

lemma box_le_merge [simp, intro]: "box_le v (merge_view v w)" "box_le w (merge_view v w)"
  by (simp_all add: box_le_def merge_view_def)

lemma box_in_le: "box_in W src n v p \<Longrightarrow> box_le v v' \<Longrightarrow> box_in W src n v' p"
  by (auto simp: box_in_def box_le_def)

lemma attained_mono:
  assumes "attained W n f d v" "\<And>p. p < n \<Longrightarrow> f' p = h (f p)"
  shows "attained W (Suc n) f' (h d) v"
proof -
  have "\<exists>q<Suc n. f' q = h d \<and> P q" if "\<exists>q<n. f q = d \<and> P q" for P
    using that assms(2) less_SucI by metis
  then show ?thesis using assms(1) unfolding attained_def by simp
qed

lemma attained_merge:
  assumes "attained W n f d v" "attained W n f d w"
  shows "attained W n f d (merge_view v w)"
  using assms unfolding attained_def merge_view_def
  by (auto simp: min_def max_def)

lemma attained_right: "attained W n f d v \<Longrightarrow> p < n \<Longrightarrow> f p = d \<Longrightarrow> attained W n f d (v\<lparr>v_right := int (p mod W)\<rparr>)"
  and attained_bottom: "attained W n f d v \<Longrightarrow> p < n \<Longrightarrow> f p = d \<Longrightarrow> attained W n f d (v\<lparr>v_bottom := int (p div W)\<rparr>)"
  by (auto simp: attained_def)

lemma boxes_close:
  assumes bx: "boxes W src n f V" and p: "p < n"
    and V': "\<And>q. q < n \<Longrightarrow> V' (f q) = (if f q = f p
      then (V (f p))\<lparr>v_right := max (v_right (V (f p))) (int (p mod W))\<rparr> else V (f q))"
  shows "boxes W src n f V'" "int (p mod W) \<le> v_right (V' (f p))"
proof -
  show "int (p mod W) \<le> v_right (V' (f p))" using V' [OF p] by simp
  show "boxes W src n f V'"
    unfolding boxes_def
  proof (intro allI impI conjI)
    fix q assume q: "q < n"
    have b: "box_in W src n (V (f q)) q" "attained W n f (f q) (V (f q))"
      using bx q by (simp_all add: boxes_def)
    show "box_in W src n (V' (f q)) q"
      using b(1) by (rule box_in_le) (auto simp: V' [OF q] box_le_def)
    show "attained W n f (f q) (V' (f q))"
      using b(2) attained_right [OF b(2), of p] p by (auto simp: V' [OF q] max_def)
  qed
qed

lemma boxes_grow:
  assumes bx: "boxes W src n f V"
    and le: "\<And>p. p < n \<Longrightarrow> box_le (V (f p)) (V' (f' p))"
    and closed: "\<And>p. n = Suc p \<Longrightarrow> W \<le> p \<Longrightarrow> n mod W \<noteq> 0 \<Longrightarrow> src ! p \<noteq> src ! n \<Longrightarrow> int (p mod W) \<le> v_right (V (f p))"
    and last: "box_in W src (Suc n) (V' (f' n)) n"
    and att: "\<And>p. p < Suc n \<Longrightarrow> attained W (Suc n) f' (f' p) (V' (f' p))"
  shows "boxes W src (Suc n) f' V'"
  unfolding boxes_def
proof (intro allI impI conjI)
  fix q assume q: "q < Suc n"
  show "attained W (Suc n) f' (f' q) (V' (f' q))" by (rule att [OF q])
  show "box_in W src (Suc n) (V' (f' q)) q"
  proof (cases "q = n")
    case False
    with q have qn: "q < n" by simp
    then have "box_in W src n (V (f q)) q" using bx by (simp add: boxes_def)
    moreover have "Suc q < Suc n \<Longrightarrow> Suc q < n \<or> n = Suc q" by auto
    moreover have "int (q mod W) \<le> v_right (V (f q))"
      if "n = Suc q" "W \<le> q" "Suc q mod W \<noteq> 0" "src ! q \<noteq> src ! Suc q"
      using that closed by simp
    ultimately have "box_in W src (Suc n) (V (f q)) q" unfolding box_in_def by blast
    then show ?thesis using le [OF qn] by (rule box_in_le)
  qed (simp add: last)
qed

text \<open>The effect of one pixel on the boxes: it continues a region, begins one, or unites two.\<close>

definition box_closed :: "nat \<Rightarrow> 'c list \<Rightarrow> nat \<Rightarrow> (nat \<Rightarrow> nat) \<Rightarrow> (nat \<Rightarrow> View) \<Rightarrow> bool" where
  "box_closed W src n f V \<longleftrightarrow> (\<forall>p. n = Suc p \<longrightarrow> W \<le> p \<longrightarrow> n mod W \<noteq> 0 \<longrightarrow> src ! p \<noteq> src ! n \<longrightarrow>
     int (p mod W) \<le> v_right (V (f p)))"

lemma before_box:
  assumes "0 < W" "before W p n"
  shows "p mod W \<le> n mod W" "p div W \<le> n div W"
  using assms before_less [OF assms]
  by (auto simp: before_def west_def north_def mod_Suc split: if_splits intro!: div_le_mono)

lemma boxes_extend:
  assumes W: "0 < W" and bx: "boxes W src n f V" and p0: "before W p0 n"
    and closed: "box_closed W src n f V" and same: "n mod W = 0 \<or> src ! (n - 1) = src ! n"
  shows "boxes W src (Suc n) (f(n := f p0)) V"
proof (rule boxes_grow [OF bx])
  have lt: "p0 < n" using before_less [OF W p0] .
  have b: "box_in W src n (V (f p0)) p0" using bx lt by (simp add: boxes_def)
  show "box_in W src (Suc n) (V ((f(n := f p0)) n)) n"
    using b same before_box [OF W p0] by (auto simp: box_in_def)
  have "attained W (Suc n) (f(n := f p0)) (f p) (V (f p))" if "p < n" for p
    using attained_mono [of W n f "f p" "V (f p)" "f(n := f p0)" "\<lambda>x. x"] bx that
    by (simp add: boxes_def)
  then show "attained W (Suc n) (f(n := f p0)) ((f(n := f p0)) p) (V ((f(n := f p0)) p))"
    if "p < Suc n" for p using that lt by (cases "p = n") auto
qed (use closed in \<open>auto simp: box_closed_def\<close>)

lemma boxes_extend_bottom:
  assumes W: "0 < W" and bx: "boxes W src n f V" and p0: "before W p0 n"
    and closed: "box_closed W src n f V"
    and V': "\<And>p. p < n \<Longrightarrow> V' (f p) = (if f p = f p0 then (V (f p0))\<lparr>v_bottom := int (n div W)\<rparr> else V (f p))"
    and max: "\<And>p. p < n \<Longrightarrow> p div W \<le> n div W"
  shows "boxes W src (Suc n) (f(n := f p0)) V'"
proof (rule boxes_grow [OF bx])
  have lt: "p0 < n" using before_less [OF W p0] .
  have b: "box_in W src n (V (f p)) p" "attained W n f (f p) (V (f p))" if "p < n" for p
    using bx that by (simp_all add: boxes_def)
  have V0: "V' (f p0) = (V (f p0))\<lparr>v_bottom := int (n div W)\<rparr>" using V' [OF lt] by simp
  show "box_le (V (f p)) (V' ((f(n := f p0)) p))" if p: "p < n" for p
    using V' [OF p] p b(2) [OF p] max by (auto simp: box_le_def attained_def)
  show "box_in W src (Suc n) (V' ((f(n := f p0)) n)) n"
    using b(1) [OF lt] before_box [OF W p0] by (auto simp: box_in_def V0)
  have att: "attained W (Suc n) (f(n := f p0)) (f p) (V (f p))" if "p < n" for p
    using attained_mono [of W n f "f p" "V (f p)" "f(n := f p0)" "\<lambda>x. x"] b(2) that by simp
  have "attained W (Suc n) (f(n := f p0)) (f p0) (V' (f p0))"
    using attained_bottom [OF att [OF lt], of n] by (simp add: V0)
  then have "attained W (Suc n) (f(n := f p0)) (f p) (V' (f p))" if "p < n" for p
    using att [OF that] V' [OF that] V0 by (cases "f p = f p0") auto
  then show "attained W (Suc n) (f(n := f p0)) ((f(n := f p0)) p) (V' ((f(n := f p0)) p))"
    if "p < Suc n" for p using that lt by (cases "p = n") auto
qed (use closed in \<open>auto simp: box_closed_def\<close>)

lemma boxes_new:
  assumes W: "0 < W" and bx: "boxes W src n f V" and d: "d \<notin> f ` {..<n}"
    and closed: "box_closed W src n f V" and V': "\<And>p. p < n \<Longrightarrow> V' (f p) = V (f p)"
    and new: "v_left (V' d) = int (n mod W)" "v_top (V' d) = int (n div W)"
      "v_right (V' d) = int (n mod W)" "v_bottom (V' d) = int (n div W)"
  shows "boxes W src (Suc n) (f(n := d)) V'"
proof (rule boxes_grow [OF bx])
  show "box_le (V (f p)) (V' ((f(n := d)) p))" if "p < n" for p using V' [OF that] that by simp
  show "box_in W src (Suc n) (V' ((f(n := d)) n)) n" using new by (simp add: box_in_def)
  show "attained W (Suc n) (f(n := d)) ((f(n := d)) p) (V' ((f(n := d)) p))" if p: "p < Suc n" for p
  proof (cases "p = n")
    case True
    then show ?thesis using new by (auto simp: attained_def intro!: exI [of _ n])
  next
    case False
    then have "p < n" using p by simp
    then show ?thesis
      using attained_mono [of W n f "f p" "V (f p)" "f(n := d)" "\<lambda>x. x"] bx V'
      by (simp add: boxes_def)
  qed
qed (use closed in \<open>auto simp: box_closed_def\<close>)

lemma boxes_merge:
  assumes W: "0 < W" and bx: "boxes W src n f V" and a: "before W a n" and b: "before W b n"
    and neq: "f a \<noteq> f b" and same: "n mod W = 0 \<or> src ! (n - 1) = src ! n"
    and V': "\<And>z. z \<in> f ` {..<n} \<Longrightarrow> z \<noteq> f b \<Longrightarrow>
      V' z = (if z = f a then merge_view (V (f a)) (V (f b)) else V z)"
  shows "boxes W src (Suc n) (\<lambda>p. if p = n then f a else relabel (f a) (f b) (f p)) V'"
    (is "boxes W src (Suc n) ?h V'")
proof (rule boxes_grow [OF bx])
  have lt: "a < n" "b < n" using before_less [OF W] a b by auto
  have bb: "box_in W src n (V (f p)) p" "attained W n f (f p) (V (f p))" if "p < n" for p
    using bx that by (simp_all add: boxes_def)
  have Va: "V' (f a) = merge_view (V (f a)) (V (f b))" using V' [of "f a"] lt neq by auto
  show "box_le (V (f p)) (V' (?h p))" if p: "p < n" for p
    using V' [of "f p"] p Va by (auto simp: relabel_def)
  show "box_in W src (Suc n) (V' (?h n)) n"
    using box_in_le [OF bb(1) [OF lt(1)], of "V' (f a)"] before_box [OF W a] same Va
    by (auto simp: box_in_def)
  have att: "attained W (Suc n) ?h (relabel (f a) (f b) (f p)) (V (f p))" if "p < n" for p
    using attained_mono [of W n f "f p" "V (f p)" ?h "relabel (f a) (f b)"] bb(2) that by simp
  have "attained W (Suc n) ?h (f a) (V' (f a))"
    unfolding Va using att [OF lt(1)] att [OF lt(2)] by (intro attained_merge) (auto simp: relabel_def split: if_splits)
  then have "attained W (Suc n) ?h (relabel (f a) (f b) (f p)) (V' (relabel (f a) (f b) (f p)))" if "p < n" for p
    using att [OF that] V' [of "f p"] that by (auto simp: relabel_def split: if_splits)
  then show "attained W (Suc n) ?h (?h p) (V' (?h p))" if "p < Suc n" for p
    using that lt neq \<open>attained W (Suc n) ?h (f a) (V' (f a))\<close> by (cases "p = n") auto
  show "int (p mod W) \<le> v_right (V (f p))" if "n = Suc p" "W \<le> p" "n mod W \<noteq> 0" "src ! p \<noteq> src ! n" for p
    using that same by simp
qed

text \<open>
  When all pixels have been scanned, the boxes of the regions that touch neither the top nor
  the left nor the right border are their bounding boxes.
\<close>

definition bounding_box :: "nat \<Rightarrow> nat \<Rightarrow> (nat \<Rightarrow> nat) \<Rightarrow> nat \<Rightarrow> View \<Rightarrow> bool" where
  "bounding_box W n f d v \<longleftrightarrow> attained W n f d v \<and> (\<forall>q<n. f q = d \<longrightarrow>
     v_left v \<le> int (q mod W) \<and> int (q mod W) \<le> v_right v \<and>
     v_top v \<le> int (q div W) \<and> int (q div W) \<le> v_bottom v)"

lemma boxes_exact:
  assumes lab: "labels W src N f" and N: "N = W * H" and W: "0 < W" and bx: "boxes W src N f V" and p: "p < N"
    and inner: "\<And>q. q < N \<Longrightarrow> f q = f p \<Longrightarrow> W \<le> q \<and> q mod W \<noteq> 0 \<and> Suc (q mod W) \<noteq> W"
  shows "bounding_box W N f (f p) (V (f p))"
proof -
  let ?v = "V (f p)"
  have b: "box_in W src N ?v q" if "q < N" "f q = f p" for q using bx that by (metis boxes_def)
  have right: "int (q mod W) \<le> v_right ?v" if "q < N" "f q = f p" for q
    using that
  proof (induction "W - q mod W" arbitrary: q rule: less_induct)
    case less
    note q = inner [OF less.prems] and qW = mod_less_divisor [OF W, of q]
    have m: "Suc q mod W = Suc (q mod W)" using q by (simp add: mod_Suc)
    have "Suc q \<noteq> N" using m N by auto
    then have lt: "Suc q < N" using less.prems by simp
    show ?case
    proof (cases "src ! q = src ! Suc q")
      case True
      have "before W q (Suc q)" using m by (simp add: before_def west_def)
      then have "f (Suc q) = f p" using labels_before [OF lab] less.prems lt True by metis
      then have "int (Suc q mod W) \<le> v_right ?v" using less.hyps [of "Suc q"] m q qW lt by simp
      then show ?thesis using m by simp
    next
      case False
      then show ?thesis using b [OF less.prems] q m lt by (simp add: box_in_def)
    qed
  qed
  have bottom: "int (q div W) \<le> v_bottom ?v" if "q < N" "f q = f p" for q
    using that
  proof (induction "q mod W" arbitrary: q rule: less_induct)
    case less
    note q = inner [OF less.prems]
    obtain r where r: "q = Suc r" using q by (cases q) auto
    have m: "q mod W = Suc (r mod W)" using q r by (auto simp: mod_Suc split: if_splits)
    then have dv: "q div W = r div W" using r by (metis div_Suc mod_Suc nat.distinct(1))
    show ?case
    proof (cases "src ! r = src ! q")
      case True
      have "before W r q" using m r by (simp add: before_def west_def)
      then have "f r = f p" using labels_before [OF lab] less.prems r True by (metis Suc_lessD)
      then show ?thesis using less.hyps [of r] m less.prems r dv by simp
    next
      case False
      then show ?thesis using b [OF less.prems] q r by (simp add: box_in_def)
    qed
  qed
  show ?thesis
    using bx p b right bottom by (simp add: bounding_box_def boxes_def box_in_def)
qed

end
