(* ===== verification/SegmentScan.thy ===== *)
theory SegmentScan
  imports ScanLabels
begin

text \<open>
  The row scan of \<^verbatim>\<open>build_regions\<close> against the reference semantics of images: every pixel
  step of the top line, the left edge and the centre span keeps the invariant of the scan.
\<close>

subsection \<open>The invariant of the scan\<close>

definition binary_image :: "nat \<Rightarrow> nat \<Rightarrow> byte list \<Rightarrow> bool" where
  "binary_image W H src \<longleftrightarrow> 0 < W \<and> 0 < H \<and> length src = W * H \<and> set src \<subseteq> {0, 255}"

text \<open>
  After \<open>n\<close> pixels, with \<open>f\<close> the region of each pixel and \<open>B\<close> the pixels whose regions must
  be marked as adjacent to the root region.
\<close>

definition scan_inv ::
  "nat \<Rightarrow> nat \<Rightarrow> byte list \<Rightarrow> nat set \<Rightarrow> nat \<Rightarrow> (nat \<Rightarrow> nat) \<Rightarrow> Segmenter \<Rightarrow> bool" where
  "scan_inv W H src B n f s \<longleftrightarrow> segmenter_memory s \<and> width s = W \<and> height s = H \<and>
     region_ref_count s \<le> n \<and> core (f ` {..<n}) (contact W n f) s \<and>
     (\<forall>p<n. colours s (f p) = src ! p) \<and> labels W src n f \<and> borders B n f (view s) \<and>
     (W \<le> 32768 \<longrightarrow> H \<le> 32768 \<longrightarrow> boxes W src n f (view s))"

lemma scan_invD:
  assumes "scan_inv W H src B n f s"
  shows "segmenter_memory s" "width s = W" "height s = H" "region_ref_count s \<le> n"
    "core (f ` {..<n}) (contact W n f) s" "p < n \<Longrightarrow> colours s (f p) = src ! p" "labels W src n f"
    "borders B n f (view s)" "W \<le> 32768 \<Longrightarrow> H \<le> 32768 \<Longrightarrow> boxes W src n f (view s)"
  using assms by (auto simp: scan_inv_def)

lemma boxes_cong:
  "boxes W src n f V \<Longrightarrow> (\<And>p. p < n \<Longrightarrow> V' (f p) = V (f p)) \<Longrightarrow> boxes W src n f V'"
  by (simp add: boxes_def)

lemma dims_memory:
  "dims s s' \<Longrightarrow> segmenter_memory s' = segmenter_memory s" "dims s s' \<Longrightarrow> width s' = width s"
  "dims s s' \<Longrightarrow> height s' = height s"
  by (simp_all add: dims_def segmenter_memory_def)

lemma dims_trans: "dims s t \<Longrightarrow> dims t u \<Longrightarrow> dims s u"
  by (simp add: dims_def)

lemma scan_step_dims: "scan_step h K s s' \<Longrightarrow> dims s s'"
  by (simp add: scan_step_def)

text \<open>A step that changes nothing the invariant reads.\<close>

lemma scan_keep:
  assumes inv: "scan_inv W H src B n f s" and core: "core (f ` {..<n}) (contact W n f) s'"
    and "dims s s'" "region_ref_count s' = region_ref_count s" and vw: "same_view (f ` {..<n}) s s'"
  shows "scan_inv W H src B n f s'"
proof -
  have v: "view s' (f p) = view s (f p)" if "p < n" for p using vw that by (auto simp: same_view_def)
  have "colours s' (f p) = src ! p" if "p < n" for p
    using arg_cong [OF v [OF that], of v_colour] scan_invD(6) [OF inv that] by simp
  moreover have "borders B n f (view s')"
    by (rule borders_cong [OF scan_invD(8) [OF inv]]) (simp only: v)
  moreover have "W \<le> 32768 \<Longrightarrow> H \<le> 32768 \<Longrightarrow> boxes W src n f (view s')"
    by (rule boxes_cong [OF scan_invD(9) [OF inv]]) (simp_all only: v)
  ultimately show ?thesis using scan_invD(1-4,7) [OF inv] assms(2-4)
    by (simp add: scan_inv_def dims_memory)
qed

subsection \<open>The cells in use\<close>

text \<open>
  Before pixel \<open>x\<close> of line \<open>y\<close>: the cells of the current row to the west, the last of them
  resolved, and the cells of the previous row from \<open>x\<close> on.
\<close>

definition window ::
  "nat \<Rightarrow> (nat \<Rightarrow> nat) \<Rightarrow> nat \<Rightarrow> nat \<Rightarrow> nat \<Rightarrow> nat \<Rightarrow> Segmenter \<Rightarrow> bool" where
  "window W f cur prev y x s \<longleftrightarrow> (\<forall>j<x. cell s cur j (f (y * W + j))) \<and>
     (0 < x \<longrightarrow> root_cell s cur (x - 1) (f (y * W + x - 1))) \<and>
     (0 < y \<longrightarrow> (\<forall>j. x \<le> j \<longrightarrow> j < W \<longrightarrow> cell s prev j (f ((y - 1) * W + j))))"

definition row_bases :: "nat \<Rightarrow> nat \<Rightarrow> nat \<Rightarrow> bool" where
  "row_bases W cur prev \<longleftrightarrow> (cur = 0 \<and> prev = W) \<or> (cur = W \<and> prev = 0)"

lemma window_step:
  assumes win: "window W f cur prev y x s" and st: "scan_step h {cur + x, prev + x} s s'"
    and h: "\<And>p. p < y * W + x \<Longrightarrow> f' p = h (f p)"
    and new: "root_cell s' cur x (f' (y * W + x))" and rb: "row_bases W cur prev" and x: "x < W"
  shows "window W f' cur prev y (Suc x) s'"
  unfolding window_def
proof (intro conjI allI impI)
  have ne: "cur + j \<noteq> prev + i" "prev + i \<noteq> cur + j" if "j < W" "i < W" for i j
    using rb that by (auto simp: row_bases_def)
  fix j
  show "cell s' cur j (f' (y * W + j))" if "j < Suc x"
  proof (cases "j = x")
    case True
    then show ?thesis using new by (simp add: root_cell_cell)
  next
    case False
    then have j: "j < x" using that by simp
    then have "cell s cur j (f (y * W + j))" using win by (simp add: window_def)
    then show ?thesis using cell_scan [OF _ st] h j ne [of j x] x by simp
  qed
  show "cell s' prev j (f' ((y - 1) * W + j))" if "0 < y" "Suc x \<le> j" "j < W"
  proof -
    have "cell s prev j (f ((y - 1) * W + j))" using win that by (simp add: window_def)
    moreover have "(y - 1) * W + j < y * W + x" using that by (cases y) auto
    ultimately show ?thesis using cell_scan [OF _ st] h ne [of x j] x that by simp
  qed
qed (use new in simp)

lemma window_cells:
  assumes "window W f cur prev y x s" "x < W"
  shows "0 < y \<Longrightarrow> cell s prev x (f (y * W + x - W))"
    "0 < x \<Longrightarrow> root_cell s cur (x - 1) (f (y * W + x - 1))"
proof -
  assume y: "0 < y"
  then have "(y - 1) * W + x = y * W + x - W" by (cases y) auto
  with y assms show "cell s prev x (f (y * W + x - W))" by (auto simp: window_def)
qed (use assms in \<open>auto simp: window_def\<close>)

subsection \<open>Reading a cell that holds a root\<close>

lemma root_refs_eq:
  assumes "refs_ok s D" "is_root s r" "ref_stands s r d" "is_root s r'" "ref_stands s r' d'"
  shows "r = r' \<longleftrightarrow> d = d'"
  using assms by (metis ref_stands_root refs_ok_def option.inject)

lemma root_cellE:
  assumes "root_cell s b x d" "refs_ok s D"
  obtains ref where "row_get s b x = Some ref" "is_root s ref" "ref_stands s ref d"
    "row_region s b x = Some d" "d \<in> D"
  using root_cell_get [OF assms] refs_ok_D [OF assms(2)] by blast

subsection \<open>Changing a side of a box\<close>

lemma core_upd:
  assumes core: "core D T s" and a: "a \<in> D" and g: "\<And>p. alike p (g p)"
  shows "\<exists>s'. upd_region s a g = Some s' \<and> core D T s' \<and> scan_step (\<lambda>d. d) {} s s' \<and> roots_le s s' \<and>
     region_ref_count s' = region_ref_count s \<and> reg s' a = g (reg s a) \<and>
     (\<forall>x\<in>D. x \<noteq> a \<longrightarrow> view s' x = view s x)"
proof -
  define s' where "s' = s\<lparr>regions := (regions s)[a := g (reg s a)]\<rparr>"
  have al: "a < length (regions s)" using a coreD(5) [OF core] by auto
  have sr: "same_refs s s'" by (simp add: same_refs_def s'_def)
  have regs: "regions s' = (regions s)[a := g (reg s a)]" by (simp add: s'_def)
  have "core D T s'"
    by (rule core_alike [OF core sr]) (use al g in \<open>auto simp: regs nth_list_update alike_def\<close>)
  moreover have "stands_le (\<lambda>d. d) s s'" "roots_le s s'"
    by (simp_all add: stands_le_def roots_le_def same_refs_stands [OF sr])
  moreover have "dims s s'" "rows_but {} s s'" by (simp_all add: dims_def rows_but_def s'_def)
  moreover have "view s' x = view s x" if "x \<noteq> a" for x using that by (simp add: view_def regs)
  ultimately show ?thesis using al
    by (intro exI [of _ s']) (simp add: buf_simps scan_step_def s'_def)
qed

lemma core_cong: "core D T s \<Longrightarrow> (\<And>x a. x \<in> D \<Longrightarrow> a \<in> D \<Longrightarrow> T x a = T' x a) \<Longrightarrow> core D T' s"
  unfolding core_def using exact_cong by metis

lemma scan_step_frame: "frame s s' \<Longrightarrow> scan_step (\<lambda>d. d) K s s' \<and> roots_le s s' \<and> region_ref_count s' = region_ref_count s"
  using frame_scan frame_fields(2) by blast

subsection \<open>Beginning a region at a pixel\<close>

lemma image_Suc: "(f(n := d)) ` {..<Suc n} = insert d (f ` {..<n})"
  by (auto simp: lessThan_Suc)

lemma start_region:
  assumes inv: "scan_inv W H src B n f s" and bin: "binary_image W H src" and n: "n < W * H"
    and rb: "row_bases W cur prev" and x: "x < W"
  shows "\<exists>d s1 s2. new_region s x y (src ! n) = Some (region_ref_count s, s1) \<and>
    row_set s1 cur x (region_ref_count s) = Some s2 \<and> d \<notin> f ` {..<n} \<and>
    core (insert d (f ` {..<n})) (contact W n f) s2 \<and> region_ref_count s2 \<le> Suc n \<and>
    root_cell s2 cur x d \<and> view s2 d = new_view x y (src ! n) \<and> same_view (f ` {..<n}) s s2 \<and>
    scan_step (\<lambda>d. d) {cur + x} s s2 \<and> roots_le s s2"
proof -
  note iv = scan_invD [OF inv]
  let ?D = "f ` {..<n}"
  have mem: "length (region_refs s) = W * H" "length (regions s) = W * H"
      "length (regions_under_construction s) = 2 * W"
    using iv(1-3) by (simp_all add: segmenter_memory_def)
  have "src ! n \<in> set src" using bin n by (simp add: binary_image_def)
  then have col: "src ! n = 0 \<or> src ! n = 255" using bin by (auto simp: binary_image_def)
  have T: "u \<in> ?D \<and> v \<in> ?D" if "contact W n f u v" for u v using that by (auto simp: contact_def)
  obtain d s1 where s1: "new_region s x y (src ! n) = Some (region_ref_count s, s1)" "d \<notin> ?D"
      "core (insert d ?D) (contact W n f) s1" "region_ref_count s1 = Suc (region_ref_count s)"
      "ref_stands s1 (region_ref_count s) d" "is_root s1 (region_ref_count s)"
      "view s1 d = new_view x y (src ! n)" "same_view ?D s s1" "scan_step (\<lambda>d. d) {} s s1" "roots_le s s1"
    using core_new_region [OF iv(5) _ _ col T, of x y] mem n iv(4) by auto
  have "cur + x < length (regions_under_construction s1)"
    using s1(9) mem rb x by (auto simp: scan_step_def dims_def row_bases_def)
  from core_row_set [OF s1(3) this] obtain s2 where s2: "row_set s1 cur x (region_ref_count s) = Some s2"
      "core (insert d ?D) (contact W n f) s2" "scan_step (\<lambda>d. d) {cur + x} s1 s2" "same_refs s1 s2"
      "regions s2 = regions s1" "root_cell s2 cur x d"
    using s1(5,6) by blast
  have v: "view s2 z = view s1 z" for z by (simp add: view_def s2(5))
  have "scan_step (\<lambda>d. d) {cur + x} s s2"
    by (rule scan_step_trans_id [OF scan_step_mono [OF s1(9)] s2(3)]) auto
  moreover have "roots_le s s2"
    using s1(10) same_refs_stands(2) [OF s2(4)] by (simp add: roots_le_def)
  moreover have "region_ref_count s2 \<le> Suc n" using s1(4) s2(4) iv(4) by (simp add: same_refs_def)
  moreover have "same_view ?D s s2" using s1(8) by (simp add: same_view_def v)
  moreover have "view s2 d = new_view x y (src ! n)" using s1(7) by (simp only: v)
  ultimately show ?thesis using s1(1,2) s2(1,2,6) by blast
qed

lemma scan_new:
  assumes inv: "scan_inv W H src B n f s" and W: "0 < W" and d: "d \<notin> f ` {..<n}"
    and core: "core (insert d (f ` {..<n})) T s'"
    and T: "\<And>x a. T x a \<longleftrightarrow> contact W n f x a \<or> (\<exists>q. before W q n \<and> (x = f q \<and> a = d \<or> x = d \<and> a = f q))"
    and new: "view s' d = (new_view (n mod W) (n div W) (src ! n))\<lparr>v_border := n \<in> B\<rparr>"
    and old: "same_view (f ` {..<n}) s s'" and dm: "dims s s'" and cnt: "region_ref_count s' \<le> Suc n"
    and none: "\<And>q. before W q n \<Longrightarrow> src ! q \<noteq> src ! n" and n: "n < W * H"
    and closed: "W \<le> 32768 \<Longrightarrow> H \<le> 32768 \<Longrightarrow> box_closed W src n f (view s)"
  shows "scan_inv W H src B (Suc n) (f(n := d)) s'"
proof -
  note iv = scan_invD [OF inv]
  have v: "view s' (f p) = view s (f p)" if "p < n" for p using old that by (auto simp: same_view_def)
  have TT: "T = contact W (Suc n) (f(n := d))"
    by (intro ext) (simp add: T contact_new [OF W d])
  have "colours s' ((f(n := d)) p) = src ! p" if "p < Suc n" for p
  proof (cases "p = n")
    case True
    then show ?thesis using arg_cong [OF new, of v_colour] by (simp add: new_view_def)
  next
    case False
    then have "p < n" using that by simp
    then show ?thesis using arg_cong [OF v, of p v_colour] iv(6) by simp
  qed
  moreover have "labels W src (Suc n) (f(n := d))" by (rule labels_new [OF W iv(7) d none])
  moreover have "borders B (Suc n) (f(n := d)) (view s')"
    by (rule borders_new [OF borders_cong [OF iv(8)] d]) (simp_all only: v, simp add: new del: view_simps)
  moreover have "boxes W src (Suc n) (f(n := d)) (view s')" if "W \<le> 32768" "H \<le> 32768"
  proof (rule boxes_new [OF W iv(9) [OF that] d closed [OF that] v])
    have "n mod W < 32768" using W that(1) by (meson mod_less_divisor order_less_le_trans)
    moreover have "n div W < H" using n W by (simp add: less_mult_imp_div_less mult.commute)
    ultimately have b: "to_short (int (n mod W)) = int (n mod W)" "to_short (int (n div W)) = int (n div W)"
      using that by auto
    show "v_left (view s' d) = int (n mod W)" "v_top (view s' d) = int (n div W)"
      "v_right (view s' d) = int (n mod W)" "v_bottom (view s' d) = int (n div W)"
      unfolding new by (simp_all add: new_view_def b)
  qed
  ultimately show ?thesis
    using core iv(1-3) dm cnt unfolding scan_inv_def image_Suc TT
    by (simp add: dims_memory)
qed

text \<open>A pixel that continues the region of the neighbour \<open>p0\<close>.\<close>

lemma scan_extend:
  assumes inv: "scan_inv W H src B n f s" and W: "0 < W" and p0: "before W p0 n" "src ! p0 = src ! n"
    and same: "\<And>q. before W q n \<Longrightarrow> src ! q = src ! n \<Longrightarrow> f q = f p0"
    and others: "\<And>q. before W q n \<Longrightarrow> f q = f p0 \<or> contact W n f (f q) (f p0)"
    and B: "n \<in> B \<Longrightarrow> p0 \<in> B"
    and core: "core (f ` {..<n}) (contact W n f) s'" and dm: "dims s s'"
    and cnt: "region_ref_count s' = region_ref_count s"
    and old: "\<And>p. p < n \<Longrightarrow> v_colour (view s' (f p)) = v_colour (view s (f p)) \<and>
      v_border (view s' (f p)) = v_border (view s (f p))"
    and bx: "W \<le> 32768 \<Longrightarrow> H \<le> 32768 \<Longrightarrow> boxes W src (Suc n) (f(n := f p0)) (view s')"
  shows "scan_inv W H src B (Suc n) (f(n := f p0)) s'"
proof -
  note iv = scan_invD [OF inv]
  have lt: "p0 < n" by (rule before_less [OF W p0(1)])
  have "labels W src (Suc n) (f(n := f p0))" by (rule labels_extend [OF W iv(7) p0 same])
  moreover have "contact W (Suc n) (f(n := f p0)) = contact W n f" by (rule contact_extend [OF W lt others])
  moreover have "(f(n := f p0)) ` {..<Suc n} = f ` {..<n}" using lt by (auto simp: image_Suc)
  moreover have "colours s' ((f(n := f p0)) p) = src ! p" if "p < Suc n" for p
    using that old [of p] old [OF lt] iv(6) [of p] iv(6) [OF lt] p0(2) by (cases "p = n") auto
  moreover have "borders B (Suc n) (f(n := f p0)) (view s')"
    by (rule borders_extend [OF borders_cong [OF iv(8)] lt B]) (use old in blast)+
  ultimately show ?thesis
    using core iv(1-4) dm cnt bx by (simp add: scan_inv_def dims_memory)
qed

lemma extend_cell:
  assumes core: "core D T s" and c: "root_cell s b z d" and b: "cur + x < length (regions_under_construction s)"
  shows "\<exists>ref s'. row_get s b z = Some ref \<and> row_set s cur x ref = Some s' \<and> core D T s' \<and>
     scan_step (\<lambda>d. d) {cur + x} s s' \<and> roots_le s s' \<and> same_refs s s' \<and> regions s' = regions s \<and>
     root_cell s' cur x d \<and> is_root s ref \<and> ref_stands s ref d"
proof -
  obtain ref where ref: "row_get s b z = Some ref" "is_root s ref" "ref_stands s ref d"
    using root_cellE [OF c coreD(1) [OF core]] by blast
  obtain s' where "row_set s cur x ref = Some s'" "core D T s'" "scan_step (\<lambda>d. d) {cur + x} s s'"
      "same_refs s s'" "regions s' = regions s" "root_cell s' cur x d"
    using core_row_set [OF core b, of ref] ref by blast
  then show ?thesis using ref same_refs_stands(2) [of s s'] by (auto simp: roots_le_def)
qed

lemma root_cell_frame: "frame s s' \<Longrightarrow> root_cell s b x d \<Longrightarrow> root_cell s' b x d"
  using root_cell_scan [OF _ frame_scan(1) [of s s' "{}"] frame_scan(2)] by simp

lemma same_regions_view: "regions s' = regions s \<Longrightarrow> view s' = view s"
  by (simp add: view_def fun_eq_iff)

lemma inv_rows:
  assumes "scan_inv W H src B n f s" "row_bases W cur prev" "x < W"
  shows "cur + x < length (regions_under_construction s)" "prev + x < length (regions_under_construction s)"
  using scan_invD(1-3) [OF assms(1)] assms(2,3) by (auto simp: segmenter_memory_def row_bases_def)

text \<open>Marking the region of a new pixel at the border and linking it to a neighbour.\<close>

lemma mark_region:
  assumes core: "core D T s" and d: "d \<in> D" and v: "v_border (view s d) = False"
  shows "\<exists>s'. or_flags s d ADJACENT_TO_ROOT_REGION_FLAG = Some s' \<and> core D T s' \<and> frame s s' \<and>
    view s' d = (view s d)\<lparr>v_border := True\<rparr> \<and> same_view (D - {d}) s s'"
proof -
  obtain s' where s': "or_flags s d ADJACENT_TO_ROOT_REGION_FLAG = Some s'" "core D T s'" "frame s s'"
      "\<forall>x\<in>D. view s' x = (view s x)\<lparr>v_border := v_border (view s x) \<or> x = d\<rparr>"
    using core_or_border [OF core d] by blast
  have "view s' x = view s x" if "x \<in> D" "x \<noteq> d" for x using s'(4) that by simp
  then show ?thesis using s' d v by (auto simp: same_view_def)
qed

subsection \<open>The top line\<close>

lemma top_pixel_ok:
  assumes inv: "scan_inv W H src B x f s" and bin: "binary_image W H src" and x: "0 < x" "x < W"
    and win: "window W f cur prev 0 x s" and rb: "row_bases W cur prev" and B: "\<And>p. p < W \<Longrightarrow> p \<in> B"
  shows "\<exists>s' f'. top_pixel s cur src x = Some s' \<and> scan_inv W H src B (Suc x) f' s' \<and>
     window W f' cur prev 0 (Suc x) s'"
proof -
  note iv = scan_invD [OF inv]
  let ?w = "f (x - 1)" and ?D = "f ` {..<x}"
  have W: "0 < W" using x by simp
  have n: "x < W * H" using bin x by (cases H) (auto simp: binary_image_def)
  have len: "x < length src" "x - 1 < length src" using bin n by (simp_all add: binary_image_def)
  have bef: "before W q x \<longleftrightarrow> q = x - 1" for q using before_pixel [OF x(2), of q 0] x(1) by simp
  have wc: "root_cell s cur (x - 1) ?w" using window_cells(2) [OF win x(2) x(1)] by simp
  have wD: "?w \<in> ?D" using x by auto
  have close: "box_closed W src x f V" for V using x by (simp add: box_closed_def)
  note rows = inv_rows [OF inv rb x(2)]
  show ?thesis
  proof (cases "src ! x = src ! (x - 1)")
    case True
    obtain ref s' where s': "row_get s cur (x - 1) = Some ref" "row_set s cur x ref = Some s'"
        "core ?D (contact W x f) s'" "scan_step (\<lambda>d. d) {cur + x} s s'" "roots_le s s'" "same_refs s s'"
        "regions s' = regions s" "root_cell s' cur x ?w"
      using extend_cell [OF iv(5) wc rows(1)] by blast
    note v = same_regions_view [OF s'(7)]
    have "top_pixel s cur src x = Some s'" using True len s'(1,2) by (simp add: top_pixel_def buf_simps)
    moreover have "scan_inv W H src B (Suc x) (f(x := ?w)) s'"
    proof (rule scan_extend [OF inv W])
      show "boxes W src (Suc x) (f(x := ?w)) (view s')" if "W \<le> 32768" "H \<le> 32768"
        unfolding v by (rule boxes_extend [OF W iv(9) [OF that] _ close]) (use True bef x in auto)
    qed (use True bef B x s' v in \<open>auto simp: scan_step_def same_refs_def\<close>)
    moreover have "window W (f(x := ?w)) cur prev 0 (Suc x) s'"
      by (rule window_step [OF win scan_step_mono [OF s'(4)] _ _ rb x(2)]) (use s'(8) in auto)
    ultimately show ?thesis by blast
  next
    case False
    let ?E = "\<lambda>d. insert d ?D"
    obtain d s1 s2 where s2: "new_region s x 0 (src ! x) = Some (region_ref_count s, s1)"
        "row_set s1 cur x (region_ref_count s) = Some s2" "d \<notin> ?D" "core (?E d) (contact W x f) s2"
        "region_ref_count s2 \<le> Suc x" "root_cell s2 cur x d" "view s2 d = new_view x 0 (src ! x)"
        "same_view ?D s s2" "scan_step (\<lambda>d. d) {cur + x} s s2" "roots_le s s2"
      using start_region [OF inv bin n rb x(2), of 0] by blast
    have nb: "v_border (view s2 d) = False" unfolding s2(7) by (simp add: new_view_def)
    obtain s3 where s3: "or_flags s2 d ADJACENT_TO_ROOT_REGION_FLAG = Some s3"
        "core (?E d) (contact W x f) s3" "frame s2 s3" "view s3 d = (view s2 d)\<lparr>v_border := True\<rparr>"
        "same_view (?E d - {d}) s2 s3"
      using mark_region [OF s2(4) insertI1 nb] by blast
    have same3: "same_view ?D s s3"
      using s2(3,8) s3(5) by (auto simp: same_view_def)
    have v3: "view s3 d = (new_view x 0 (src ! x))\<lparr>v_border := True\<rparr>" by (simp only: s3(4) s2(7))
    have col: "colours s3 d \<noteq> colours s3 ?w"
      using arg_cong [OF v3, of v_colour] same_view_colour [OF same3 wD] iv(6) [of "x - 1"] x False
      by (simp add: new_view_def)
    obtain s4 where s4: "make_adjacent s3 d ?w = Some s4" "core (?E d) (add_contact d ?w (contact W x f)) s4"
        "frame s3 s4" "same_view (?E d) s3 s4"
      using core_make_adjacent [OF s3(2) _ _ col] wD by blast
    have ne: "cur + (x - 1) \<notin> {cur + x}" using x by auto
    have cell2: "root_cell s2 cur (x - 1) ?w" using root_cell_scan [OF wc s2(9,10) ne] .
    have cell3: "root_cell s3 cur (x - 1) ?w"
      by (rule root_cell_frame [OF s3(3) cell2])
    note ok = coreD(1) [OF s2(4)] coreD(1) [OF s3(2)]
    have "top_pixel s cur src x = Some s4"
      using False len s2(1,2) s3(1) s4(1) root_cell_get(1) [OF s2(6) ok(1)] root_cell_get(1) [OF cell3 ok(2)]
      by (simp add: top_pixel_def buf_simps)
    moreover have st: "scan_step (\<lambda>d. d) {cur + x, prev + x} s s4"
      using scan_step_trans_id [OF scan_step_mono [OF s2(9)] scan_step_trans_id [OF frame_scan(1) [OF s3(3)] frame_scan(1) [OF s4(3)]]] by simp
    have "scan_inv W H src B (Suc x) (f(x := d)) s4"
    proof (rule scan_new [OF inv W s2(3) s4(2)])
      show "view s4 d = new_view (x mod W) (x div W) (src ! x)\<lparr>v_border := x \<in> B\<rparr>"
        using same_viewD [OF s4(4), of d] v3 B x by simp
      show "same_view ?D s s4" using same3 s4(4) by (simp add: same_view_def)
      show "region_ref_count s4 \<le> Suc x"
        using s2(5) frame_fields(2) [OF s3(3)] frame_fields(2) [OF s4(3)] by simp
    qed (use False bef scan_step_dims [OF st] n close in \<open>auto simp: add_contact_def\<close>)
    moreover have "window W (f(x := d)) cur prev 0 (Suc x) s4"
    proof (rule window_step [OF win st _ _ rb x(2)])
      show "root_cell s4 cur x ((f(x := d)) (0 * W + x))"
        using root_cell_frame [OF s4(3) root_cell_frame [OF s3(3) s2(6)]] by simp
    qed simp
    ultimately show ?thesis by blast
  qed
qed

subsection \<open>The left edge\<close>

text \<open>Each line begins a pixel by resolving the cell to the north.\<close>

lemma resolve_north:
  assumes inv: "scan_inv W H src B (y * W + x) f s" and win: "window W f cur prev y x s"
    and rb: "row_bases W cur prev" and x: "x < W" and y: "0 < y"
  shows "\<exists>s'. row_resolve s prev x = Some s' \<and> scan_inv W H src B (y * W + x) f s' \<and>
     window W f cur prev y x s' \<and> root_cell s' prev x (f (y * W + x - W))"
proof -
  obtain s' where s': "row_resolve s prev x = Some s'" "core (f ` {..<y * W + x}) (contact W (y * W + x) f) s'"
      "root_cell s' prev x (f (y * W + x - W))" "scan_step (\<lambda>d. d) {prev + x} s s'" "roots_le s s'"
      "regions s' = regions s" "region_ref_count s' = region_ref_count s"
    using row_resolve_ok [OF scan_invD(5) [OF inv] window_cells(1) [OF win x y]] by blast
  have "scan_inv W H src B (y * W + x) f s'"
    by (rule scan_keep [OF inv s'(2) scan_step_dims [OF s'(4)] s'(7)])
      (simp add: same_view_def same_regions_view [OF s'(6)])
  moreover have "window W f cur prev y x s'"
    unfolding window_def
  proof (intro conjI allI impI)
    have ne: "cur + j \<noteq> prev + x" if "j < W" for j using rb x that by (auto simp: row_bases_def)
    show "cell s' cur j (f (y * W + j))" if "j < x" for j
      using cell_scan [OF _ s'(4), of cur j] win that x ne [of j] by (simp add: window_def)
    show "root_cell s' cur (x - 1) (f (y * W + x - 1))" if "0 < x"
      using root_cell_scan [OF _ s'(4,5), of cur "x - 1"] win that x ne [of "x - 1"] by (simp add: window_def)
    show "cell s' prev j (f ((y - 1) * W + j))" if "x \<le> j" "j < W" for j
    proof (cases "j = x")
      case True
      then have "(y - 1) * W + j = y * W + x - W" using y by (cases y) auto
      then show ?thesis using s'(3) True by (simp add: root_cell_cell)
    next
      case False
      then show ?thesis using cell_scan [OF _ s'(4), of prev j] win that y by (simp add: window_def)
    qed
  qed
  ultimately show ?thesis using s' by blast
qed

text \<open>The colour of the region a root cell holds.\<close>

lemma cell_colour:
  assumes inv: "scan_inv W H src B n f s" and c: "root_cell s b z (f p)" and p: "p < n"
  shows "row_region s b z = Some (f p)" "get_region s (f p) = Some (reg s (f p))" "colours s (f p) = src ! p"
proof -
  note core = scan_invD(5) [OF inv]
  show "row_region s b z = Some (f p)" by (rule root_cell_get(1) [OF c coreD(1) [OF core]])
  show "get_region s (f p) = Some (reg s (f p))"
    by (rule get_region_eq) (use coreD(5) [OF core] p in auto)
  show "colours s (f p) = src ! p" by (rule scan_invD(6) [OF inv p])
qed

lemma pixel_bound: "y < H \<Longrightarrow> x < W \<Longrightarrow> y * W + x < W * (H :: nat)"
proof -
  assume "y < H" "x < W"
  then have "y * W + x < Suc y * W" "Suc y * W \<le> H * W" by (simp, intro mult_le_mono) auto
  then show ?thesis by (simp add: mult.commute)
qed

lemma left_edge_ok:
  assumes inv: "scan_inv W H src B (y * W) f s" and bin: "binary_image W H src" and y: "0 < y" "y < H"
    and win: "window W f cur prev y 0 s" and rb: "row_bases W cur prev" and B: "\<And>p. p mod W = 0 \<Longrightarrow> p \<in> B"
  shows "\<exists>s' f'. left_edge s prev cur src y = Some s' \<and> scan_inv W H src B (Suc (y * W)) f' s' \<and>
     window W f' cur prev y 1 s'"
proof -
  let ?n = "y * W" let ?u = "f (?n - W)" and ?D = "f ` {..<?n}"
  have W: "0 < W" using bin by (simp add: binary_image_def)
  have n: "?n < W * H" using pixel_bound [OF y(2) W] by simp
  have un: "?n - W < ?n" using y W by simp
  have len: "?n < length src" using bin n by (simp add: binary_image_def)
  have yy: "(y - 1) * W = ?n - W" using y by (cases y) auto
  have bef: "before W q ?n \<longleftrightarrow> q = ?n - W" for q using before_pixel [OF W, of q y] y yy by simp
  have close: "box_closed W src ?n f V" for V
    unfolding box_closed_def by (metis mod_mult_self2_is_0)
  obtain s1 where s1: "row_resolve s prev 0 = Some s1" "scan_inv W H src B ?n f s1"
      "window W f cur prev y 0 s1" "root_cell s1 prev 0 ?u"
    using resolve_north [of W H src B y 0 f s cur prev] inv win rb W y(1) by auto
  note iv = scan_invD [OF s1(2)]
  note uc = cell_colour [OF s1(2,4) un]
  note rows = inv_rows [OF s1(2) rb W]
  have uD: "?u \<in> ?D" using un by auto
  have nB: "?n \<in> B" "?n - W \<in> B" using B [of ?n] B [of "(y - 1) * W"] yy by simp_all
  show ?thesis
  proof (cases "src ! ?n = src ! (?n - W)")
    case True
    obtain ref s' where s': "row_get s1 prev 0 = Some ref" "row_set s1 cur 0 ref = Some s'"
        "core ?D (contact W ?n f) s'" "scan_step (\<lambda>d. d) {cur + 0} s1 s'" "roots_le s1 s'" "same_refs s1 s'"
        "regions s' = regions s1" "root_cell s' cur 0 ?u"
      using extend_cell [OF iv(5) s1(4) rows(1)] by blast
    note v = same_regions_view [OF s'(7)]
    have "left_edge s prev cur src y = Some s'"
      using True len s'(1,2) s1(1) uc iv(2) by (simp add: left_edge_def buf_simps)
    moreover have "scan_inv W H src B (Suc ?n) (f(?n := ?u)) s'"
    proof (rule scan_extend [OF s1(2) W])
      show "boxes W src (Suc ?n) (f(?n := ?u)) (view s')" if "W \<le> 32768" "H \<le> 32768"
        unfolding v by (rule boxes_extend [OF W iv(9) [OF that] _ close]) (use bef in auto)
    qed (use True bef nB s' v in \<open>auto simp: scan_step_def same_refs_def\<close>)
    moreover have "window W (f(?n := ?u)) cur prev y (Suc 0) s'"
      by (rule window_step [OF s1(3) scan_step_mono [OF s'(4)] _ _ rb W]) (use s'(8) in auto)
    ultimately show ?thesis by auto
  next
    case False
    let ?E = "\<lambda>d. insert d ?D"
    obtain d t1 s2 where s2: "new_region s1 0 y (src ! ?n) = Some (region_ref_count s1, t1)"
        "row_set t1 cur 0 (region_ref_count s1) = Some s2" "d \<notin> ?D" "core (?E d) (contact W ?n f) s2"
        "region_ref_count s2 \<le> Suc ?n" "root_cell s2 cur 0 d" "view s2 d = new_view 0 y (src ! ?n)"
        "same_view ?D s1 s2" "scan_step (\<lambda>d. d) {cur + 0} s1 s2" "roots_le s1 s2"
      using start_region [OF s1(2) bin n rb W, of y] by blast
    have nb: "v_border (view s2 d) = False" unfolding s2(7) by (simp add: new_view_def)
    obtain s3 where s3: "or_flags s2 d ADJACENT_TO_ROOT_REGION_FLAG = Some s3"
        "core (?E d) (contact W ?n f) s3" "frame s2 s3" "view s3 d = (view s2 d)\<lparr>v_border := True\<rparr>"
        "same_view (?E d - {d}) s2 s3"
      using mark_region [OF s2(4) insertI1 nb] by blast
    have same3: "same_view ?D s1 s3"
      using s2(3,8) s3(5) by (auto simp: same_view_def)
    have v3: "view s3 d = (new_view 0 y (src ! ?n))\<lparr>v_border := True\<rparr>" by (simp only: s3(4) s2(7))
    have col: "colours s3 d \<noteq> colours s3 ?u"
      using arg_cong [OF v3, of v_colour] same_view_colour [OF same3 uD] uc(3) False
      by (simp add: new_view_def)
    obtain s4 where s4: "make_adjacent s3 d ?u = Some s4" "core (?E d) (add_contact d ?u (contact W ?n f)) s4"
        "frame s3 s4" "same_view (?E d) s3 s4"
      using core_make_adjacent [OF s3(2) _ _ col] uD by blast
    have cell2: "root_cell s2 prev 0 ?u" using root_cell_scan [OF s1(4) s2(9,10)] rb W by (auto simp: row_bases_def)
    have cell3: "root_cell s3 prev 0 ?u" by (rule root_cell_frame [OF s3(3) cell2])
    note ok = coreD(1) [OF s2(4)] coreD(1) [OF s3(2)]
    have "left_edge s prev cur src y = Some s4"
      using False len s1(1) s2(1,2) s3(1) s4(1) root_cell_get(1) [OF s2(6) ok(1)] root_cell_get(1) [OF cell3 ok(2)] uc iv(2)
      by (simp add: left_edge_def buf_simps)
    moreover have st: "scan_step (\<lambda>d. d) {cur + 0, prev + 0} s1 s4"
      using scan_step_trans_id [OF scan_step_mono [OF s2(9)] scan_step_trans_id [OF frame_scan(1) [OF s3(3)] frame_scan(1) [OF s4(3)]]] by simp
    have "scan_inv W H src B (Suc ?n) (f(?n := d)) s4"
    proof (rule scan_new [OF s1(2) W s2(3) s4(2)])
      show "view s4 d = new_view (?n mod W) (?n div W) (src ! ?n)\<lparr>v_border := ?n \<in> B\<rparr>"
        using same_viewD [OF s4(4), of d] v3 nB W by simp
      show "same_view ?D s1 s4" using same3 s4(4) by (simp add: same_view_def)
      show "region_ref_count s4 \<le> Suc ?n"
        using s2(5) frame_fields(2) [OF s3(3)] frame_fields(2) [OF s4(3)] by simp
    qed (use False bef scan_step_dims [OF st] n close in \<open>auto simp: add_contact_def\<close>)
    moreover have "window W (f(?n := d)) cur prev y (Suc 0) s4"
    proof (rule window_step [OF s1(3) st _ _ rb W])
      show "root_cell s4 cur 0 ((f(?n := d)) (?n + 0))"
        using root_cell_frame [OF s4(3) root_cell_frame [OF s3(3) s2(6)]] by simp
    qed simp
    ultimately show ?thesis by auto
  qed
qed

end
