(* ===== verification/SegmentCenter.thy ===== *)
theory SegmentCenter
  imports SegmentScan
begin

text \<open>
  The centre span of a line in \<^verbatim>\<open>build_regions\<close>: a pixel continues the region to the west,
  unites it with the region to the north, continues the region to the north, or begins a
  new region; in each case the invariant of the scan is kept.
\<close>

subsection \<open>The neighbours of a centre pixel\<close>

definition center :: "nat \<Rightarrow> nat \<Rightarrow> nat \<Rightarrow> nat \<Rightarrow> bool" where
  "center W H y x \<longleftrightarrow> 0 < x \<and> x < W \<and> 0 < y \<and> y < H"

lemma center_facts:
  assumes c: "center W H y x" and bin: "binary_image W H src"
  shows "0 < W" "y * W + x < W * H" "y * W + x < length src" "y * W + x - 1 < length src"
    "(y * W + x) mod W = x" "(y * W + x) div W = y"
    "west W (y * W + x - 1) (y * W + x)" "north W (y * W + x - W) (y * W + x)"
    "before W q (y * W + x) \<longleftrightarrow> q = y * W + x - 1 \<or> q = y * W + x - W"
    "y * W + x - 1 < y * W + x" "y * W + x - W < y * W + x" "W \<le> y * W + x - 1"
proof -
  have xy: "0 < x" "x < W" "0 < y" "y < H" using c by (auto simp: center_def)
  show W: "0 < W" using xy by simp
  show n: "y * W + x < W * H" using pixel_bound xy by blast
  show "y * W + x < length src" "y * W + x - 1 < length src" using n bin by (auto simp: binary_image_def)
  show "(y * W + x) mod W = x" "(y * W + x) div W = y" using xy by simp_all
  show "west W (y * W + x - 1) (y * W + x)" using xy by (simp add: west_def)
  have yy: "(y - 1) * W + x = y * W + x - W" "W \<le> y * W" "y * W + x - W + W = y * W + x"
    using xy by (cases y; simp)+
  show "north W (y * W + x - W) (y * W + x)" using yy(3) by (simp add: north_def del: diff_add)
  show "before W q (y * W + x) \<longleftrightarrow> q = y * W + x - 1 \<or> q = y * W + x - W"
    using before_pixel [OF xy(2), of q y] xy yy by auto
  show "y * W + x - 1 < y * W + x" "y * W + x - W < y * W + x" "W \<le> y * W + x - 1" using xy yy by auto
qed

lemma binary_other:
  assumes bin: "binary_image W H src" and "p < length src" "q < length src" "src ! p \<noteq> src ! q" "c \<in> set src"
  shows "c = src ! p \<or> c = src ! q"
proof -
  have "set src \<subseteq> {0, 255}" using bin by (simp add: binary_image_def)
  then have "src ! p \<in> {0, 255}" "src ! q \<in> {0, 255}" "c \<in> {0, 255}"
    using assms(2,3,5) nth_mem by blast+
  then show ?thesis using assms(4) by auto
qed

lemma center_contact:
  assumes inv: "scan_inv W H src B (y * W + x) f s" and c: "center W H y x" and bin: "binary_image W H src"
    and neq: "src ! (y * W + x - 1) \<noteq> src ! (y * W + x - W)"
  shows "contact W (y * W + x) f (f (y * W + x - 1)) (f (y * W + x - W))"
proof (rule corner_contact [OF scan_invD(7) [OF inv]])
  note cf = center_facts [OF c bin]
  show "src ! (y * W + x - 1) \<noteq> src ! (y * W + x - W)" by (rule neq)
  show "c = src ! (y * W + x - 1) \<or> c = src ! (y * W + x - W)" if "c \<in> set src" for c
    using binary_other [OF bin _ _ neq that] cf by simp
qed (use center_facts [OF c bin] in auto)

text \<open>Uniting the regions of the north pixel \<open>a\<close> and the west pixel \<open>b\<close>.\<close>

lemma scan_merge:
  assumes inv: "scan_inv W H src B n f s" and W: "0 < W"
    and a: "before W a n" "src ! a = src ! n" and b: "before W b n" "src ! b = src ! n"
    and only: "\<And>q. before W q n \<Longrightarrow> q = a \<or> q = b" and neq: "f a \<noteq> f b" and nB: "n \<notin> B"
    and last: "n mod W = 0 \<or> src ! (n - 1) = src ! n"
    and core: "core (f ` {..<n} - {f b}) (merged_contact (f ` {..<n}) (f a) (f b) (contact W n f)) s'"
    and V': "\<And>z. z \<in> f ` {..<n} - {f b} \<Longrightarrow>
      view s' z = (if z = f a then merge_view (view s (f a)) (view s (f b)) else view s z)"
    and dm: "dims s s'" and cnt: "region_ref_count s' = region_ref_count s"
  shows "scan_inv W H src B (Suc n) (\<lambda>p. if p = n then f a else relabel (f a) (f b) (f p)) s'"
    (is "scan_inv W H src B (Suc n) ?h s'")
proof -
  note iv = scan_invD [OF inv]
  have lt: "a < n" "b < n" using before_less [OF W] a b by auto
  have h: "?h p \<in> f ` {..<n} - {f b}" if "p < Suc n" for p
    using that lt neq by (auto simp: relabel_def less_Suc_eq)
  have im: "?h ` {..<Suc n} = f ` {..<n} - {f b}"
  proof (intro equalityI subsetI)
    fix z assume "z \<in> f ` {..<n} - {f b}"
    then obtain p where "p < n" "f p = z" "z \<noteq> f b" by auto
    then have "z = ?h p" "p \<in> {..<Suc n}" by (auto simp: relabel_def)
    then show "z \<in> ?h ` {..<Suc n}" by (rule image_eqI)
  next
    fix z assume "z \<in> ?h ` {..<Suc n}"
    then obtain p where "z = ?h p" "p < Suc n" by (elim imageE) (simp only: lessThan_iff)
    then show "z \<in> f ` {..<n} - {f b}" using h [of p] by (simp only:)
  qed
  have col: "colours s (f a) = src ! n" "colours s (f b) = src ! n" using iv(6) lt a b by auto
  have "colours s' (?h p) = src ! p" if p: "p < Suc n" for p
  proof (cases "p = n")
    case True
    then show ?thesis using arg_cong [OF V' [OF h [OF p]], of v_colour] col by (simp add: merge_view_def)
  next
    case False
    then have pn: "p < n" using p by simp
    show ?thesis using arg_cong [OF V' [OF h [OF p]], of v_colour] col iv(6) [OF pn] False
      by (auto simp: merge_view_def relabel_def split: if_splits)
  qed
  moreover have "labels W src (Suc n) ?h" by (rule labels_merge [OF W iv(7) a b only])
  moreover have "borders B (Suc n) ?h (view s')"
    by (rule borders_merge [OF iv(8) lt nB _ neq]) (simp add: V' merge_view_def del: view_simps)
  moreover have "boxes W src (Suc n) ?h (view s')" if "W \<le> 32768" "H \<le> 32768"
    by (rule boxes_merge [OF W iv(9) [OF that] a(1) b(1) neq last]) (simp add: V' del: view_simps)
  moreover have "core (f ` {..<n} - {f b}) (contact W (Suc n) ?h) s'"
    using core contact_merge [OF W lt, of f] only by simp
  ultimately show ?thesis
    using iv(1-4) dm cnt unfolding scan_inv_def im by (simp add: dims_memory)
qed

subsection \<open>A pixel of the colour of the west pixel\<close>

lemma center_west:
  assumes inv: "scan_inv W H src B (y * W + x) f s" and c: "center W H y x" and bin: "binary_image W H src"
    and win: "window W f cur prev y x s" and rb: "row_bases W cur prev" and nB: "y * W + x \<notin> B"
    and up: "root_cell s prev x (f (y * W + x - W))" and same: "src ! (y * W + x) = src ! (y * W + x - 1)"
  shows "\<exists>cref s2 uref s' f'. row_get s cur (x - 1) = Some cref \<and> row_set s cur x cref = Some s2 \<and>
     row_get s2 prev x = Some uref \<and>
     (if cref \<noteq> uref then do {
         u \<leftarrow> row_region s2 prev x;
         pu \<leftarrow> get_region s2 u;
         if src ! (y * W + x) = colour pu then merge_into_previous s2 prev cur x else Some s2
       } else Some s2) = Some s' \<and>
     scan_inv W H src B (Suc (y * W + x)) f' s' \<and> window W f' cur prev y (Suc x) s'"
proof -
  let ?n = "y * W + x" let ?w = "f (?n - 1)" and ?u = "f (?n - W)" and ?D = "f ` {..<y * W + x}"
  note cf = center_facts [OF c bin]
  have x: "0 < x" "x < W" using c by (auto simp: center_def)
  note iv = scan_invD [OF inv]
  note rows = inv_rows [OF inv rb x(2)]
  have wc: "root_cell s cur (x - 1) ?w" using window_cells(2) [OF win x(2) x(1)] .
  obtain cref s2 where s2: "row_get s cur (x - 1) = Some cref" "row_set s cur x cref = Some s2"
      "core ?D (contact W ?n f) s2" "scan_step (\<lambda>d. d) {cur + x} s s2" "roots_le s s2" "same_refs s s2"
      "regions s2 = regions s" "root_cell s2 cur x ?w" "is_root s cref" "ref_stands s cref ?w"
    using extend_cell [OF iv(5) wc rows(1)] by blast
  have v2: "view s2 = view s" by (rule same_regions_view [OF s2(7)])
  have inv2: "scan_inv W H src B ?n f s2"
    by (rule scan_keep [OF inv s2(3) scan_step_dims [OF s2(4)]])
      (use s2(6) v2 in \<open>simp_all add: same_refs_def same_view_def\<close>)
  have up2: "root_cell s2 prev x ?u"
    using root_cell_scan [OF up s2(4,5)] rb x by (auto simp: row_bases_def)
  note ok = coreD(1) [OF s2(3)]
  obtain uref where uref: "row_get s2 prev x = Some uref" "is_root s2 uref" "ref_stands s2 uref ?u"
    using root_cellE [OF up2 ok] by blast
  have "is_root s2 cref" "ref_stands s2 cref ?w" using s2(9,10) same_refs_stands [OF s2(6)] by simp_all
  then have refs: "cref = uref \<longleftrightarrow> ?w = ?u" using root_refs_eq [OF ok _ _ uref(2,3)] by blast
  note uc = cell_colour [OF inv2 up2 cf(11)]
  note st2 = scan_step_mono [OF s2(4), of "{cur + x, prev + x}"]
  have extend: ?thesis
    if eq: "src ! ?n \<noteq> src ! (?n - W) \<or> ?w = ?u"
  proof -
    have "scan_inv W H src B (Suc ?n) (f(?n := ?w)) s2"
    proof (rule scan_extend [OF inv cf(1) _ same [symmetric] _ _ _ s2(3) scan_step_dims [OF s2(4)]])
      have "box_closed W src ?n f (view s)" using same by (auto simp: box_closed_def)
      then show "boxes W src (Suc ?n) (f(?n := ?w)) (view s2)" if "W \<le> 32768" "H \<le> 32768"
        unfolding v2 by (intro boxes_extend [OF cf(1) iv(9) [OF that]]) (use same cf in auto)
      have "?u = ?w \<or> contact W ?n f ?u ?w"
        using eq center_contact [OF inv c bin] same contact_sym by metis
      then show "f q = ?w \<or> contact W ?n f (f q) ?w" if "before W q ?n" for q
        using that cf(9) by auto
      show "f q = ?w" if "before W q ?n" "src ! q = src ! ?n" for q
        using that cf(9) eq by auto
    qed (use s2 v2 nB cf in \<open>auto simp: same_refs_def before_def\<close>)
    moreover have "window W (f(?n := ?w)) cur prev y (Suc x) s2"
      by (rule window_step [OF win st2 _ _ rb x(2)]) (use s2(8) in auto)
    moreover have "(if cref \<noteq> uref then do {
         u \<leftarrow> row_region s2 prev x;
         pu \<leftarrow> get_region s2 u;
         if src ! ?n = colour pu then merge_into_previous s2 prev cur x else Some s2
       } else Some s2) = Some s2"
      using eq refs uc by auto
    ultimately show ?thesis using s2(1,2) uref(1) by blast
  qed
  show ?thesis
  proof (cases "src ! ?n \<noteq> src ! (?n - W) \<or> ?w = ?u")
    case False
    then have eq: "src ! (?n - W) = src ! ?n" and neq: "?u \<noteq> ?w" by auto
    have colw: "colours s2 ?w = src ! ?n" using scan_invD(6) [OF inv2 cf(10)] same by simp
    obtain s' where s': "merge_into_previous s2 prev cur x = Some s'"
        "core (?D - {?w}) (merged_contact ?D ?u ?w (contact W ?n f)) s'" "root_cell s' cur x ?u"
        "scan_step (relabel ?u ?w) {cur + x} s2 s'"
        "\<forall>z\<in>?D - {?w}. view s' z = (if z = ?u then merge_view (view s2 ?u) (view s2 ?w) else view s2 z)"
        "region_ref_count s' = region_ref_count s2"
      using merge_into_previous_ok [OF s2(3) up2 s2(8) neq] uc(3) colw eq contact_sym by metis
    let ?h = "\<lambda>p. if p = ?n then ?u else relabel ?u ?w (f p)"
    have "scan_inv W H src B (Suc ?n) ?h s'"
      by (rule scan_merge [OF inv2 cf(1) _ eq _ same [symmetric] _ neq nB _ s'(2) _ scan_step_dims [OF s'(4)] s'(6)])
        (use cf s'(5) same in \<open>auto simp: before_def\<close>)
    moreover have "window W ?h cur prev y (Suc x) s'"
      by (rule window_step [OF win scan_step_trans [OF st2 scan_step_mono [OF s'(4)]] _ _ rb x(2)])
        (use s'(3) in auto)
    moreover have "cref \<noteq> uref" using refs neq by auto
    ultimately show ?thesis using s2(1,2) uref(1) uc eq s'(1)
      by (intro exI [of _ cref] exI [of _ s2] exI [of _ uref] exI [of _ s'] exI [of _ ?h]) simp
  qed (rule extend)
qed

subsection \<open>A pixel that ends the run to the west\<close>

lemma close_run:
  assumes inv: "scan_inv W H src B (y * W + x) f s" and c: "center W H y x" and bin: "binary_image W H src"
    and win: "window W f cur prev y x s" and rb: "row_bases W cur prev"
    and up: "root_cell s prev x (f (y * W + x - W))"
  defines "w \<equiv> f (y * W + x - 1)"
  shows "\<exists>s'. (if right (reg s w) < int x - 1 then upd_region s w (\<lambda>r. r\<lparr>right := to_short (int x - 1)\<rparr>)
       else Some s) = Some s' \<and>
     scan_inv W H src B (y * W + x) f s' \<and> window W f cur prev y x s' \<and>
     root_cell s' prev x (f (y * W + x - W)) \<and>
     (W \<le> 32768 \<longrightarrow> H \<le> 32768 \<longrightarrow> box_closed W src (y * W + x) f (view s'))"
proof -
  let ?n = "y * W + x" let ?D = "f ` {..<y * W + x}"
  note cf = center_facts [OF c bin] and iv = scan_invD [OF inv]
  have x: "0 < x" "x < W" using c by (auto simp: center_def)
  have wD: "w \<in> ?D" using cf(10) by (auto simp: w_def)
  have m: "(?n - 1) mod W = x - 1"
  proof -
    have "?n - 1 = y * W + (x - 1)" using x by simp
    moreover have "x - 1 < W" using x by simp
    ultimately show ?thesis by (metis mod_less mod_mult_self3)
  qed
  have closed: "box_closed W src ?n f V" if "int (x - 1) \<le> v_right (V w)" for V
    using that m cf(10) unfolding box_closed_def w_def by (metis diff_Suc_1)
  show ?thesis
  proof (cases "right (reg s w) < int x - 1")
    case False
    then have "box_closed W src ?n f (view s)" using x by (intro closed) simp
    then show ?thesis using False inv win up by auto
  next
    case True
    obtain s' where s': "upd_region s w (\<lambda>r. r\<lparr>right := to_short (int x - 1)\<rparr>) = Some s'"
        "core ?D (contact W ?n f) s'" "scan_step (\<lambda>d. d) {} s s'" "roots_le s s'"
        "region_ref_count s' = region_ref_count s" "reg s' w = (reg s w)\<lparr>right := to_short (int x - 1)\<rparr>"
        "\<forall>z\<in>?D. z \<noteq> w \<longrightarrow> view s' z = view s z"
      using core_upd [OF iv(5) wD, of "\<lambda>r. r\<lparr>right := to_short (int x - 1)\<rparr>"] by (auto simp: alike_def)
    have vw: "view s' w = (view s w)\<lparr>v_right := to_short (int x - 1)\<rparr>" by (simp add: view_def s'(6))
    have vo: "view s' (f p) = view s (f p)" if "p < ?n" "f p \<noteq> w" for p using s'(7) that by auto
    have id: "to_short (int x - 1) = int (x - 1)" if "W \<le> 32768" using that x by auto
    have bx: "boxes W src ?n f (view s')" "int (x - 1) \<le> v_right (view s' w)" if "W \<le> 32768" "H \<le> 32768"
    proof -
      have V: "view s' (f q) = (if f q = f (?n - 1) then (view s (f (?n - 1)))\<lparr>v_right :=
          max (v_right (view s (f (?n - 1)))) (int ((?n - 1) mod W))\<rparr> else view s (f q))" if "q < ?n" for q
        using vw vo [OF that] id [OF \<open>W \<le> 32768\<close>] x True unfolding w_def [symmetric] m
        by (auto simp: max_def)
      show "boxes W src ?n f (view s')" "int (x - 1) \<le> v_right (view s' w)"
        using boxes_close [OF iv(9) [OF that] cf(10) V] m by (simp_all add: w_def)
    qed
    have "view s' (f p) = (view s (f p))\<lparr>v_right := v_right (view s' (f p))\<rparr>" if "p < ?n" for p
      using vw vo [OF that] by (cases "f p = w") simp_all
    then have same: "v_colour (view s' (f p)) = v_colour (view s (f p))"
        "v_border (view s' (f p)) = v_border (view s (f p))" if "p < ?n" for p
      using that by (metis View.select_convs(1) View.surjective View.update_convs(4), metis View.select_convs(6) View.surjective View.update_convs(4))
    have "borders B ?n f (view s')" by (rule borders_cong [OF iv(8)]) (rule same)
    then have "scan_inv W H src B ?n f s'"
      using iv(1-7) s'(2,5) scan_step_dims [OF s'(3)] bx(1) same(1)
      by (simp add: scan_inv_def dims_memory)
    moreover have "window W f cur prev y x s'"
      using win cell_scan [OF _ s'(3)] root_cell_scan [OF _ s'(3,4)] by (simp add: window_def)
    moreover have "root_cell s' prev x (f (?n - W))" using root_cell_scan [OF up s'(3,4)] by simp
    ultimately show ?thesis using True s'(1) closed bx(2) by auto
  qed
qed

text \<open>The pixel continues the region to the north.\<close>

lemma center_north:
  assumes inv: "scan_inv W H src B (y * W + x) f s" and c: "center W H y x" and bin: "binary_image W H src"
    and win: "window W f cur prev y x s" and rb: "row_bases W cur prev" and nB: "y * W + x \<notin> B"
    and up: "root_cell s prev x (f (y * W + x - W))" and other: "src ! (y * W + x) \<noteq> src ! (y * W + x - 1)"
    and same: "src ! (y * W + x) = src ! (y * W + x - W)"
    and closed: "W \<le> 32768 \<longrightarrow> H \<le> 32768 \<longrightarrow> box_closed W src (y * W + x) f (view s)"
  shows "\<exists>uref s2 s' f'. row_get s prev x = Some uref \<and> row_set s cur x uref = Some s2 \<and>
     (do { r \<leftarrow> row_region s2 cur x; upd_region s2 r (\<lambda>r. r\<lparr>bottom := to_short (int y)\<rparr>) }) = Some s' \<and>
     scan_inv W H src B (Suc (y * W + x)) f' s' \<and> window W f' cur prev y (Suc x) s'"
proof -
  let ?n = "y * W + x" let ?u = "f (?n - W)" and ?D = "f ` {..<y * W + x}"
  note cf = center_facts [OF c bin] and iv = scan_invD [OF inv]
  have x: "0 < x" "x < W" "y < H" using c by (auto simp: center_def)
  note rows = inv_rows [OF inv rb x(2)]
  have uD: "?u \<in> ?D" using cf(11) by auto
  obtain uref s2 where s2: "row_get s prev x = Some uref" "row_set s cur x uref = Some s2"
      "core ?D (contact W ?n f) s2" "scan_step (\<lambda>d. d) {cur + x} s s2" "roots_le s s2" "same_refs s s2"
      "regions s2 = regions s" "root_cell s2 cur x ?u"
    using extend_cell [OF iv(5) up rows(1)] by blast
  have v2: "view s2 = view s" by (rule same_regions_view [OF s2(7)])
  obtain s' where s': "upd_region s2 ?u (\<lambda>r. r\<lparr>bottom := to_short (int y)\<rparr>) = Some s'"
      "core ?D (contact W ?n f) s'" "scan_step (\<lambda>d. d) {} s2 s'" "roots_le s2 s'"
      "region_ref_count s' = region_ref_count s2" "reg s' ?u = (reg s2 ?u)\<lparr>bottom := to_short (int y)\<rparr>"
      "\<forall>z\<in>?D. z \<noteq> ?u \<longrightarrow> view s' z = view s2 z"
    using core_upd [OF s2(3) uD, of "\<lambda>r. r\<lparr>bottom := to_short (int y)\<rparr>"] by (auto simp: alike_def)
  have vu: "view s' ?u = (view s ?u)\<lparr>v_bottom := to_short (int y)\<rparr>"
    by (simp add: view_def s'(6) s2(7))
  have vo: "view s' (f p) = view s (f p)" if "p < ?n" "f p \<noteq> ?u" for p using s'(7) that v2 by auto
  have st: "scan_step (\<lambda>d. d) {cur + x, prev + x} s s'"
    by (rule scan_step_trans_id [OF scan_step_mono [OF s2(4)] scan_step_mono [OF s'(3)]]) auto
  have "scan_inv W H src B (Suc ?n) (f(?n := ?u)) s'"
  proof (rule scan_extend [OF inv cf(1) _ same [symmetric] _ _ _ s'(2) scan_step_dims [OF st]])
    show "region_ref_count s' = region_ref_count s" using s'(5) s2(6) by (simp add: same_refs_def)
    show "f q = ?u" if "before W q ?n" "src ! q = src ! ?n" for q using that cf(9) other by auto
    have "contact W ?n f (f (?n - 1)) ?u" using center_contact [OF inv c bin] other same by simp
    then show "f q = ?u \<or> contact W ?n f (f q) ?u" if "before W q ?n" for q using that cf(9) by auto
    show "v_colour (view s' (f p)) = v_colour (view s (f p)) \<and> v_border (view s' (f p)) = v_border (view s (f p))"
      if "p < ?n" for p
      using vu vo [OF that] by (cases "f p = ?u") (simp_all del: view_simps)
    show "boxes W src (Suc ?n) (f(?n := ?u)) (view s')" if "W \<le> 32768" "H \<le> 32768"
    proof (rule boxes_extend_bottom [OF cf(1) iv(9) [OF that]])
      show "box_closed W src ?n f (view s)" using closed that by blast
      show "view s' (f p) = (if f p = ?u then (view s ?u)\<lparr>v_bottom := int (?n div W)\<rparr> else view s (f p))"
        if "p < ?n" for p
        using vu vo [OF that] x \<open>H \<le> 32768\<close> cf(6) by (auto simp del: view_simps)
      show "p div W \<le> ?n div W" if "p < ?n" for p using that by (intro div_le_mono) simp
    qed (use cf in \<open>simp add: before_def\<close>)
  qed (use nB cf in \<open>simp_all add: before_def\<close>)
  moreover have "window W (f(?n := ?u)) cur prev y (Suc x) s'"
    by (rule window_step [OF win st _ _ rb x(2)]) (use root_cell_scan [OF s2(8) s'(3,4)] in auto)
  moreover have "row_region s2 cur x = Some ?u" by (rule root_cell_get(1) [OF s2(8) coreD(1) [OF s2(3)]])
  ultimately show ?thesis using s2(1,2) s'(1)
    by (intro exI [of _ uref] exI [of _ s2] exI [of _ s'] exI [of _ "f(?n := ?u)"]) simp
qed

subsection \<open>A pixel that begins a region\<close>

text \<open>The links of the new region \<open>d\<close> to the regions to the north and to the west.\<close>

lemma link_new:
  assumes core: "core (insert d D) T s" and D: "u \<in> D" "w \<in> D" "d \<notin> D"
    and col: "colours s d \<noteq> colours s u" "colours s d \<noteq> colours s w"
    and dc: "root_cell s cur x d" and uc: "root_cell s prev x u" and wc: "root_cell s cur (x - 1) w"
  shows "\<exists>s3 s'. make_adjacent s d u = Some s3 \<and> row_region s3 cur (x - 1) = Some w \<and>
     row_region s3 prev x = Some u \<and> row_region s3 cur x = Some d \<and>
     (if w \<noteq> u then make_adjacent s3 d w else Some s3) = Some s' \<and>
     core (insert d D) (\<lambda>a b. T a b \<or> (\<exists>z \<in> {u, w}. (a = z \<and> b = d) \<or> (a = d \<and> b = z))) s' \<and>
     frame s s' \<and> same_view (insert d D) s s'"
proof -
  obtain s3 where s3: "make_adjacent s d u = Some s3" "core (insert d D) (add_contact d u T) s3"
      "frame s s3" "same_view (insert d D) s s3"
    using core_make_adjacent [OF core _ _ col(1)] D by blast
  note ok = coreD(1) [OF s3(2)]
  note cells = root_cell_get(1) [OF root_cell_frame [OF s3(3) dc] ok]
    root_cell_get(1) [OF root_cell_frame [OF s3(3) uc] ok] root_cell_get(1) [OF root_cell_frame [OF s3(3) wc] ok]
  show ?thesis
  proof (cases "w = u")
    case True
    have "core (insert d D) (\<lambda>a b. T a b \<or> (\<exists>z \<in> {u, w}. (a = z \<and> b = d) \<or> (a = d \<and> b = z))) s3"
      by (rule core_cong [OF s3(2)]) (use True in \<open>auto simp: add_contact_def\<close>)
    then show ?thesis using s3 cells True by auto
  next
    case False
    have col3: "colours s3 d \<noteq> colours s3 w"
      using same_view_colour [OF s3(4), of d] same_view_colour [OF s3(4), of w] D col(2) by simp
    obtain s' where s': "make_adjacent s3 d w = Some s'"
        "core (insert d D) (add_contact d w (add_contact d u T)) s'" "frame s3 s'" "same_view (insert d D) s3 s'"
      using core_make_adjacent [OF s3(2) _ _ col3] D by blast
    have "core (insert d D) (\<lambda>a b. T a b \<or> (\<exists>z \<in> {u, w}. (a = z \<and> b = d) \<or> (a = d \<and> b = z))) s'"
      by (rule core_cong [OF s'(2)]) (auto simp: add_contact_def)
    then show ?thesis using s3 s' cells False by (auto intro: frame_trans same_view_trans)
  qed
qed

lemma center_new:
  assumes inv: "scan_inv W H src B (y * W + x) f s" and c: "center W H y x" and bin: "binary_image W H src"
    and win: "window W f cur prev y x s" and rb: "row_bases W cur prev" and nB: "y * W + x \<notin> B"
    and up: "root_cell s prev x (f (y * W + x - W))" and other: "src ! (y * W + x) \<noteq> src ! (y * W + x - 1)"
    and other': "src ! (y * W + x) \<noteq> src ! (y * W + x - W)"
    and closed: "W \<le> 32768 \<longrightarrow> H \<le> 32768 \<longrightarrow> box_closed W src (y * W + x) f (view s)"
  shows "\<exists>ref s1 s' f'. new_region s x y (src ! (y * W + x)) = Some (ref, s1) \<and> (do {
       s \<leftarrow> row_set s1 cur x ref;
       r \<leftarrow> row_region s cur x;
       u \<leftarrow> row_region s prev x;
       s \<leftarrow> make_adjacent s r u;
       w \<leftarrow> row_region s cur (x - 1);
       u \<leftarrow> row_region s prev x;
       if w \<noteq> u then do { r \<leftarrow> row_region s cur x; make_adjacent s r w } else Some s
     }) = Some s' \<and>
     scan_inv W H src B (Suc (y * W + x)) f' s' \<and> window W f' cur prev y (Suc x) s'"
proof -
  let ?n = "y * W + x" let ?u = "f (?n - W)" and ?w = "f (?n - 1)" and ?D = "f ` {..<y * W + x}"
  note cf = center_facts [OF c bin] and iv = scan_invD [OF inv]
  have x: "0 < x" "x < W" using c by (auto simp: center_def)
  have D: "?u \<in> ?D" "?w \<in> ?D" using cf(10,11) by auto
  obtain d s1 s2 where s2: "new_region s x y (src ! ?n) = Some (region_ref_count s, s1)"
      "row_set s1 cur x (region_ref_count s) = Some s2" "d \<notin> ?D" "core (insert d ?D) (contact W ?n f) s2"
      "region_ref_count s2 \<le> Suc ?n" "root_cell s2 cur x d" "view s2 d = new_view x y (src ! ?n)"
      "same_view ?D s s2" "scan_step (\<lambda>d. d) {cur + x} s s2" "roots_le s s2"
    using start_region [OF inv bin cf(2) rb x(2), of y] by blast
  have ne: "prev + x \<notin> {cur + x}" "cur + (x - 1) \<notin> {cur + x}" using rb x by (auto simp: row_bases_def)
  have up2: "root_cell s2 prev x ?u" using root_cell_scan [OF up s2(9,10) ne(1)] .
  have wc2: "root_cell s2 cur (x - 1) ?w"
    using root_cell_scan [OF window_cells(2) [OF win x(2,1)] s2(9,10) ne(2)] .
  have cd: "colours s2 d = src ! ?n" using arg_cong [OF s2(7), of v_colour] by (simp add: new_view_def)
  have "colours s2 d \<noteq> colours s2 ?u" "colours s2 d \<noteq> colours s2 ?w"
    unfolding cd using same_view_colour [OF s2(8) D(1)] same_view_colour [OF s2(8) D(2)]
      iv(6) [OF cf(11)] iv(6) [OF cf(10)] other other' by simp_all
  from link_new [OF s2(4) D s2(3) this s2(6) up2 wc2]
  obtain s3 s' where s': "make_adjacent s2 d ?u = Some s3" "row_region s3 cur (x - 1) = Some ?w"
      "row_region s3 prev x = Some ?u" "row_region s3 cur x = Some d"
      "(if ?w \<noteq> ?u then make_adjacent s3 d ?w else Some s3) = Some s'"
      "core (insert d ?D) (\<lambda>a b. contact W ?n f a b \<or>
         (\<exists>z \<in> {?u, ?w}. (a = z \<and> b = d) \<or> (a = d \<and> b = z))) s'"
      "frame s2 s'" "same_view (insert d ?D) s2 s'"
    by blast
  have st: "scan_step (\<lambda>d. d) {cur + x, prev + x} s s'"
    using scan_step_trans_id [OF scan_step_mono [OF s2(9)] frame_scan(1) [OF s'(7)]] by simp
  have "scan_inv W H src B (Suc ?n) (f(?n := d)) s'"
  proof (rule scan_new [OF inv cf(1) s2(3) s'(6)])
    show "view s' d = new_view (?n mod W) (?n div W) (src ! ?n)\<lparr>v_border := ?n \<in> B\<rparr>"
      using same_viewD [OF s'(8), of d] s2(7) cf(5,6) nB by (simp add: new_view_def)
    show "same_view ?D s s'" using s2(8) s'(8) by (simp add: same_view_def)
    show "region_ref_count s' \<le> Suc ?n" using s2(5) frame_fields(2) [OF s'(7)] by simp
    show "box_closed W src ?n f (view s)" if "W \<le> 32768" "H \<le> 32768" using closed that by blast
    show "src ! q \<noteq> src ! ?n" if "before W q ?n" for q using that cf(9) other other' by auto
  qed (use cf scan_step_dims [OF st] in auto)
  moreover have "window W (f(?n := d)) cur prev y (Suc x) s'"
    by (rule window_step [OF win st _ _ rb x(2)]) (use root_cell_frame [OF s'(7) s2(6)] in auto)
  moreover note ok2 = coreD(1) [OF s2(4)]
  have "(do {
       s \<leftarrow> row_set s1 cur x (region_ref_count s);
       r \<leftarrow> row_region s cur x;
       u \<leftarrow> row_region s prev x;
       s \<leftarrow> make_adjacent s r u;
       w \<leftarrow> row_region s cur (x - 1);
       u \<leftarrow> row_region s prev x;
       if w \<noteq> u then do { r \<leftarrow> row_region s cur x; make_adjacent s r w } else Some s
     }) = Some s'"
    using s2(2) root_cell_get(1) [OF s2(6) ok2] root_cell_get(1) [OF up2 ok2] s'(1-5)
    by (cases "?w = ?u") (simp_all del: One_nat_def)
  ultimately show ?thesis using s2(1) by blast
qed

subsection \<open>Any pixel of the centre span\<close>

lemma center_pixel_ok:
  assumes inv: "scan_inv W H src B (y * W + x) f s" and c: "center W H y x" and bin: "binary_image W H src"
    and win: "window W f cur prev y x s" and rb: "row_bases W cur prev" and nB: "y * W + x \<notin> B"
  shows "\<exists>s' f'. center_pixel s prev cur src y x = Some s' \<and>
     scan_inv W H src B (Suc (y * W + x)) f' s' \<and> window W f' cur prev y (Suc x) s'"
proof -
  let ?n = "y * W + x" let ?u = "f (?n - W)" and ?w = "f (?n - 1)"
  note cf = center_facts [OF c bin]
  have x: "0 < x" "x < W" "0 < y" using c by (auto simp: center_def)
  obtain s1 where s1: "row_resolve s prev x = Some s1" "scan_inv W H src B ?n f s1"
      "window W f cur prev y x s1" "root_cell s1 prev x ?u"
    using resolve_north [OF inv win rb x(2,3)] by blast
  have n: "y * width s + x = ?n" using scan_invD(2) [OF inv] by simp
  have rd: "buf_read src ?n = Some (src ! ?n)" "buf_read src (?n - 1) = Some (src ! (?n - 1))"
    using cf by (simp_all add: buf_simps)
  show ?thesis
  proof (cases "src ! ?n = src ! (?n - 1)")
    case True
    obtain cref s2 uref s' f' where r: "row_get s1 cur (x - 1) = Some cref" "row_set s1 cur x cref = Some s2"
        "row_get s2 prev x = Some uref"
        "(if cref \<noteq> uref then do {
           u \<leftarrow> row_region s2 prev x;
           pu \<leftarrow> get_region s2 u;
           if src ! ?n = colour pu then merge_into_previous s2 prev cur x else Some s2
         } else Some s2) = Some s'"
        "scan_inv W H src B (Suc ?n) f' s'" "window W f' cur prev y (Suc x) s'"
      using center_west [OF s1(2) c bin s1(3) rb nB s1(4) True] by blast
    have "center_pixel s prev cur src y x = Some s'"
      using s1(1) rd(1) rd(2) [folded True] r(1-4) unfolding center_pixel_def n Let_def
        by (simp del: One_nat_def split del: if_split)
    then show ?thesis using r(5,6) by blast
  next
    case False
    obtain s2 where s2: "(if right (reg s1 ?w) < int x - 1
          then upd_region s1 ?w (\<lambda>r. r\<lparr>right := to_short (int x - 1)\<rparr>) else Some s1) = Some s2"
        "scan_inv W H src B ?n f s2" "window W f cur prev y x s2" "root_cell s2 prev x ?u"
        "W \<le> 32768 \<longrightarrow> H \<le> 32768 \<longrightarrow> box_closed W src ?n f (view s2)"
      using close_run [OF s1(2) c bin s1(3) rb s1(4)] by blast
    note w = cell_colour [OF s1(2) window_cells(2) [OF s1(3) x(2,1)] cf(10)]
    note u = cell_colour [OF s2(2,4) cf(11)]
    show ?thesis
    proof (cases "src ! ?n = src ! (?n - W)")
      case True
      obtain uref s3 s' f' where r: "row_get s2 prev x = Some uref" "row_set s2 cur x uref = Some s3"
          "(do { r \<leftarrow> row_region s3 cur x; upd_region s3 r (\<lambda>r. r\<lparr>bottom := to_short (int y)\<rparr>) }) = Some s'"
          "scan_inv W H src B (Suc ?n) f' s'" "window W f' cur prev y (Suc x) s'"
        using center_north [OF s2(2) c bin s2(3) rb nB s2(4) False True s2(5)] by blast
      have "center_pixel s prev cur src y x = Some s'"
        using s1(1) rd False w u s2(1) True r(1-3) unfolding center_pixel_def n Let_def
        by (simp del: One_nat_def split del: if_split)
      then show ?thesis using r(4,5) by blast
    next
      case False': False
      obtain ref s3 s' f' where r: "new_region s2 x y (src ! ?n) = Some (ref, s3)" "(do {
            s \<leftarrow> row_set s3 cur x ref;
            r \<leftarrow> row_region s cur x;
            u \<leftarrow> row_region s prev x;
            s \<leftarrow> make_adjacent s r u;
            w \<leftarrow> row_region s cur (x - 1);
            u \<leftarrow> row_region s prev x;
            if w \<noteq> u then do { r \<leftarrow> row_region s cur x; make_adjacent s r w } else Some s
          }) = Some s'"
          "scan_inv W H src B (Suc ?n) f' s'" "window W f' cur prev y (Suc x) s'"
        using center_new [OF s2(2) c bin s2(3) rb nB s2(4) False False' s2(5)] by blast
      have "center_pixel s prev cur src y x = Some s'"
        using s1(1) rd False w u s2(1) False' r(1,2) unfolding center_pixel_def n Let_def
        by (simp del: One_nat_def split del: if_split)
      then show ?thesis using r(3,4) by blast
    qed
  qed
qed

end
