(* ===== verification/SegmentCorrect.thy ===== *)
theory SegmentCorrect
  imports SegmentCenter
begin

text \<open>
  Lines and whole images: the row scan of \<^verbatim>\<open>build_regions\<close> returns on every binary image
  and computes its segmentation.
\<close>

subsection \<open>Marking a region that a cell holds\<close>

lemma boxes_border:
  assumes bx: "boxes W src n f V"
    and V': "\<And>p. p < n \<Longrightarrow> \<exists>b. V' (f p) = (V (f p))\<lparr>v_border := b\<rparr>"
  shows "boxes W src n f V'"
  unfolding boxes_def
proof (intro allI impI)
  fix p assume p: "p < n"
  obtain b where b: "V' (f p) = (V (f p))\<lparr>v_border := b\<rparr>" using V' [OF p] by blast
  have "box_in W src n (V (f p)) p \<and> attained W n f (f p) (V (f p))" using bx p by (simp add: boxes_def)
  then show "box_in W src n (V' (f p)) p \<and> attained W n f (f p) (V' (f p))"
    unfolding b by (simp add: box_in_def attained_def)
qed

lemma scan_mark:
  assumes inv: "scan_inv W H src B n f s" and c: "root_cell s b z (f p0)" and p0: "p0 < n"
  shows "\<exists>s'. row_region s b z = Some (f p0) \<and> or_flags s (f p0) ADJACENT_TO_ROOT_REGION_FLAG = Some s' \<and>
     scan_inv W H src (insert p0 B) n f s' \<and> frame s s'"
proof -
  note iv = scan_invD [OF inv]
  have D: "f p0 \<in> f ` {..<n}" using p0 by auto
  obtain s' where s': "or_flags s (f p0) ADJACENT_TO_ROOT_REGION_FLAG = Some s'"
      "core (f ` {..<n}) (contact W n f) s'" "frame s s'"
      "\<forall>x\<in>f ` {..<n}. view s' x = (view s x)\<lparr>v_border := v_border (view s x) \<or> x = f p0\<rparr>"
    using core_or_border [OF iv(5) D] by blast
  have v: "view s' (f p) = (view s (f p))\<lparr>v_border := v_border (view s (f p)) \<or> f p = f p0\<rparr>" if "p < n" for p
    using s'(4) that by auto
  have "colours s' (f p) = src ! p" if "p < n" for p
    using arg_cong [OF v [OF that], of v_colour] iv(6) [OF that] by simp
  moreover have "borders (insert p0 B) n f (view s')"
    by (rule borders_mark [OF iv(8) p0]) (simp add: v del: view_simps)
  moreover have "boxes W src n f (view s')" if "W \<le> 32768" "H \<le> 32768"
    by (rule boxes_border [OF iv(9) [OF that]]) (use v in blast)
  moreover have "dims s s'" by (rule scan_step_dims [OF frame_scan(1) [OF s'(3), of "{}"]])
  ultimately have "scan_inv W H src (insert p0 B) n f s'"
    using iv(1-4,7) s'(2) frame_fields(2) [OF s'(3)] by (simp add: scan_inv_def dims_memory)
  then show ?thesis using s'(1,3) root_cell_get(1) [OF c coreD(1) [OF iv(5)]] by blast
qed

lemma scan_marks: "scan_inv W H src B n f s \<Longrightarrow> (\<And>p. p < n \<Longrightarrow> p \<in> B \<longleftrightarrow> p \<in> B') \<Longrightarrow> scan_inv W H src B' n f s"
  unfolding scan_inv_def borders_def by auto

lemma window_frame: "window W f cur prev y x s \<Longrightarrow> frame s s' \<Longrightarrow> window W f cur prev y x s'"
  using cell_scan [OF _ frame_scan(1), of s _ _ _ s' "{}"] root_cell_frame [of s s']
  unfolding window_def by simp

subsection \<open>The top line\<close>

text \<open>The pixels whose regions are marked when the first \<open>y\<close> lines are done.\<close>

definition border_upto :: "nat \<Rightarrow> nat \<Rightarrow> nat set" where
  "border_upto W y = {p. p < W \<or> p mod W = 0 \<or> (Suc (p mod W) = W \<and> p < y * W)}"

lemma first_pixel:
  assumes inv: "scan_inv W H src B 0 f s" and bin: "binary_image W H src" and rb: "row_bases W cur prev"
    and B: "0 \<in> B"
  shows "\<exists>ref s1 s2 d s' f'. new_region s 0 0 (src ! 0) = Some (ref, s1) \<and> row_set s1 cur 0 ref = Some s2 \<and>
     row_region s2 cur 0 = Some d \<and> or_flags s2 d ADJACENT_TO_ROOT_REGION_FLAG = Some s' \<and>
     scan_inv W H src B 1 f' s' \<and> window W f' cur prev 0 1 s'"
proof -
  have W: "0 < W" "0 < H" using bin by (auto simp: binary_image_def)
  then have n: "0 < W * H" by simp
  obtain d s1 s2 where s2: "new_region s 0 0 (src ! 0) = Some (region_ref_count s, s1)"
      "row_set s1 cur 0 (region_ref_count s) = Some s2" "d \<notin> f ` {..<0}"
      "core (insert d (f ` {..<0})) (contact W 0 f) s2"
      "region_ref_count s2 \<le> Suc 0" "root_cell s2 cur 0 d" "view s2 d = new_view 0 0 (src ! 0)"
      "same_view (f ` {..<0}) s s2" "scan_step (\<lambda>d. d) {cur + 0} s s2" "roots_le s s2"
    using start_region [OF inv bin n rb W(1), of 0] by blast
  have nb: "v_border (view s2 d) = False" unfolding s2(7) by (simp add: new_view_def)
  obtain s3 where s3: "or_flags s2 d ADJACENT_TO_ROOT_REGION_FLAG = Some s3"
      "core (insert d (f ` {..<0})) (contact W 0 f) s3" "frame s2 s3" "view s3 d = (view s2 d)\<lparr>v_border := True\<rparr>"
    using mark_region [OF s2(4) insertI1 nb] by blast
  have st: "scan_step (\<lambda>d. d) {cur + 0, prev + 0} s s3"
    using scan_step_trans_id [OF scan_step_mono [OF s2(9)] frame_scan(1) [OF s3(3)]] by simp
  have bef: "\<not> before W q 0" for q using before_less [OF W(1)] by blast
  have "scan_inv W H src B (Suc 0) (f(0 := d)) s3"
    by (rule scan_new [OF inv W(1) s2(3) s3(2)])
      (use s3(4) s2(7) B bef n scan_step_dims [OF st] s2(5) frame_fields(2) [OF s3(3)]
       in \<open>simp_all add: same_view_def box_closed_def\<close>)
  moreover have "window W (f(0 := d)) cur prev 0 1 s3"
  proof -
    have "root_cell s3 cur 0 d" by (rule root_cell_frame [OF s3(3) s2(6)])
    then show ?thesis by (simp add: window_def root_cell_cell)
  qed
  moreover have "row_region s2 cur 0 = Some d" by (rule root_cell_get(1) [OF s2(6) coreD(1) [OF s2(4)]])
  ultimately show ?thesis using s2(1,2) s3(1) by auto
qed

lemma top_loop_ok:
  assumes "scan_inv W H src B x f s" "binary_image W H src" "0 < x" "x + n \<le> W"
    "window W f cur prev 0 x s" "row_bases W cur prev" "\<And>p. p < W \<Longrightarrow> p \<in> B"
  shows "\<exists>s' f'. top_loop s cur src x n = Some s' \<and> scan_inv W H src B (x + n) f' s' \<and>
     window W f' cur prev 0 (x + n) s'"
  using assms
proof (induction n arbitrary: x f s)
  case (Suc n)
  obtain s1 f1 where s1: "top_pixel s cur src x = Some s1" "scan_inv W H src B (Suc x) f1 s1"
      "window W f1 cur prev 0 (Suc x) s1"
    using top_pixel_ok [OF Suc.prems(1-3) _ Suc.prems(5-7)] Suc.prems(4) by auto
  show ?case using Suc.IH [OF s1(2) Suc.prems(2) _ _ s1(3) Suc.prems(6,7)] Suc.prems(4) s1(1) by simp
qed auto

lemma top_line_ok:
  assumes inv: "scan_inv W H src B 0 f s" and bin: "binary_image W H src" and rb: "row_bases W cur prev"
    and B: "\<And>p. p < W \<Longrightarrow> p \<in> B"
  shows "\<exists>s' f'. top_line s cur src = Some s' \<and> scan_inv W H src B W f' s' \<and> window W f' cur prev 0 W s'"
proof -
  have W: "0 < W" "0 < length src" using bin by (auto simp: binary_image_def)
  obtain ref s1 s2 d s3 f3 where s3: "new_region s 0 0 (src ! 0) = Some (ref, s1)" "row_set s1 cur 0 ref = Some s2"
     "row_region s2 cur 0 = Some d" "or_flags s2 d ADJACENT_TO_ROOT_REGION_FLAG = Some s3"
     "scan_inv W H src B 1 f3 s3" "window W f3 cur prev 0 1 s3"
    using first_pixel [OF inv bin rb B [OF W(1)]] by blast
  obtain s' f' where s': "top_loop s3 cur src 1 (W - 1) = Some s'" "scan_inv W H src B (1 + (W - 1)) f' s'"
      "window W f' cur prev 0 (1 + (W - 1)) s'"
    using top_loop_ok [OF s3(5) bin _ _ s3(6) rb B, of "W - 1"] W by auto
  have "top_line s cur src = Some s'"
    using s3(1-4) s'(1) W(2) scan_invD(2) [OF s3(5)] by (simp add: top_line_def buf_simps)
  then show ?thesis using s'(2,3) W by auto
qed

subsection \<open>The other lines\<close>

lemma center_loop_ok:
  assumes "scan_inv W H src (border_upto W y) (y * W + x) f s" "binary_image W H src"
    "0 < x" "x + n \<le> W" "0 < y" "y < H" "window W f cur prev y x s" "row_bases W cur prev"
  shows "\<exists>s' f'. center_loop s prev cur src y x n = Some s' \<and>
     scan_inv W H src (border_upto W y) (y * W + (x + n)) f' s' \<and> window W f' cur prev y (x + n) s'"
  using assms
proof (induction n arbitrary: x f s)
  case (Suc n)
  have c: "center W H y x" using Suc.prems by (simp add: center_def)
  have nB: "y * W + x \<notin> border_upto W y"
    using Suc.prems center_facts(5) [OF c Suc.prems(2)] by (cases y) (auto simp: border_upto_def)
  obtain s1 f1 where s1: "center_pixel s prev cur src y x = Some s1"
      "scan_inv W H src (border_upto W y) (y * W + Suc x) f1 s1" "window W f1 cur prev y (Suc x) s1"
    using center_pixel_ok [OF Suc.prems(1) c Suc.prems(2,7,8) nB] by auto
  show ?case
    using Suc.IH [OF s1(2) Suc.prems(2) _ _ Suc.prems(5,6) s1(3) Suc.prems(8)] Suc.prems(4) s1(1) by simp
qed auto

lemma process_line_ok:
  assumes inv: "scan_inv W H src (border_upto W y) (y * W) f s" and bin: "binary_image W H src"
    and y: "0 < y" "y < H" and win: "window W f cur prev y 0 s" and rb: "row_bases W cur prev"
  shows "\<exists>s' f'. process_line s prev cur src y = Some s' \<and>
     scan_inv W H src (border_upto W (Suc y)) (Suc y * W) f' s' \<and> window W f' cur prev y W s'"
proof -
  have W: "0 < W" using bin by (simp add: binary_image_def)
  obtain s1 f1 where s1: "left_edge s prev cur src y = Some s1"
      "scan_inv W H src (border_upto W y) (y * W + 1) f1 s1" "window W f1 cur prev y 1 s1"
    using left_edge_ok [OF inv bin y win rb] by (auto simp: border_upto_def)
  obtain s2 f2 where s2: "center_loop s1 prev cur src y 1 (W - 1) = Some s2"
      "scan_inv W H src (border_upto W y) (y * W + (1 + (W - 1))) f2 s2" "window W f2 cur prev y (1 + (W - 1)) s2"
    using center_loop_ok [OF s1(2) bin _ _ y s1(3) rb, of "W - 1"] W by auto
  have n: "y * W + (1 + (W - 1)) = Suc y * W" and W1: "1 + (W - 1) = W" using W by simp_all
  note inv2 = s2(2) [unfolded n] and win2 = s2(3) [unfolded W1]
  have c: "root_cell s2 cur (W - 1) (f2 (Suc y * W - 1))"
    using win2 W by (simp add: window_def add.commute)
  obtain s' where s': "row_region s2 cur (W - 1) = Some (f2 (Suc y * W - 1))"
      "or_flags s2 (f2 (Suc y * W - 1)) ADJACENT_TO_ROOT_REGION_FLAG = Some s'"
      "scan_inv W H src (insert (Suc y * W - 1) (border_upto W y)) (Suc y * W) f2 s'" "frame s2 s'"
    using scan_mark [OF inv2 c] W by auto
  have "process_line s prev cur src y = Some s'"
    using s1(1) s2(1) s'(1,2) scan_invD(2) [OF s1(2)] scan_invD(2) [OF s2(2)] by (simp add: process_line_def)
  moreover have "scan_inv W H src (border_upto W (Suc y)) (Suc y * W) f2 s'"
  proof (rule scan_marks [OF s'(3)])
    fix p assume "p < Suc y * W"
    have "Suc (p mod W) = W \<and> p < Suc y * W \<longleftrightarrow> p = Suc y * W - 1 \<or> (Suc (p mod W) = W \<and> p < y * W)"
    proof (intro iffI; elim conjE disjE)
      assume a: "Suc (p mod W) = W" "p < Suc y * W"
      have "p div W < Suc y" using a(2) by (rule less_mult_imp_div_less)
      then have "p div W < y \<or> p div W = y" by auto
      then show "p = Suc y * W - 1 \<or> (Suc (p mod W) = W \<and> p < y * W)"
      proof
        assume "p div W < y"
        then show ?thesis using a W by (simp add: div_less_iff_less_mult)
      next
        assume "p div W = y"
        then show ?thesis using a div_mult_mod_eq [of p W] by (intro disjI1) simp
      qed
    next
      assume "p = Suc y * W - 1"
      then have p: "p = y * W + (W - 1)" using W by simp
      have "W - 1 < W" using W by simp
      then have "p mod W = W - 1" unfolding p by (metis mod_less mod_mult_self3)
      then show "Suc (p mod W) = W \<and> p < Suc y * W" using W p by simp
    qed auto
    then show "p \<in> insert (Suc y * W - 1) (border_upto W y) \<longleftrightarrow> p \<in> border_upto W (Suc y)"
      by (auto simp: border_upto_def)
  qed
  ultimately show ?thesis using window_frame [OF win2 s'(4)] by blast
qed

lemma next_line: "window W f cur prev y W s \<Longrightarrow> window W f prev cur (Suc y) 0 s"
  by (simp add: window_def)

lemma line_loop_ok:
  assumes "scan_inv W H src (border_upto W y) (y * W) f s" "binary_image W H src"
    "0 < y" "y + n = H" "window W f cur prev (y - 1) W s" "row_bases W cur prev"
  shows "\<exists>cur' s' f'. line_loop s prev cur src y n = Some (cur', s') \<and>
     scan_inv W H src (border_upto W H) (W * H) f' s' \<and> cur' \<in> {0, W} \<and>
     (\<forall>j<W. cell s' cur' j (f' ((H - 1) * W + j)))"
  using assms
proof (induction n arbitrary: y f s cur prev)
  case 0
  then have y: "y = H" by simp
  have "scan_inv W H src (border_upto W H) (W * H) f s" using 0(1) unfolding y by (simp add: mult.commute)
  moreover have "cell s cur j (f ((H - 1) * W + j))" if "j < W" for j
    using 0(5) that unfolding y by (simp add: window_def)
  moreover have "cur \<in> {0, W}" using 0(6) by (auto simp: row_bases_def)
  ultimately show ?case by (intro exI [of _ cur] exI [of _ s] exI [of _ f]) simp
next
  case (Suc n)
  have rb: "row_bases W prev cur" using Suc.prems(6) by (auto simp: row_bases_def)
  have win: "window W f prev cur y 0 s" using next_line [OF Suc.prems(5)] Suc.prems(3) by simp
  have yH: "y < H" using Suc.prems(4) by simp
  obtain s1 f1 where s1: "process_line s cur prev src y = Some s1"
      "scan_inv W H src (border_upto W (Suc y)) (Suc y * W) f1 s1" "window W f1 prev cur y W s1"
    using process_line_ok [OF Suc.prems(1-3) yH win rb] by blast
  have w1: "window W f1 prev cur (Suc y - 1) W s1" and yn: "Suc y + n = H" using s1(3) Suc.prems(4) by simp_all
  show ?case using Suc.IH [OF s1(2) Suc.prems(2) _ yn w1 rb] s1(1) by simp
qed

subsection \<open>The bottom line\<close>

definition border_pixels :: "nat \<Rightarrow> nat \<Rightarrow> nat set" where
  "border_pixels W H = {p. p < W \<or> p mod W = 0 \<or> Suc (p mod W) = W \<or> (H - 1) * W \<le> p}"

lemma bottom_loop_ok:
  assumes "scan_inv W H src (border_upto W H \<union> {(H - 1) * W..<(H - 1) * W + x}) (W * H) f s"
    "x + n = W" "0 < H" "0 < W" "cur \<in> {0, W}" "\<And>j. x \<le> j \<Longrightarrow> j < W \<Longrightarrow> cell s cur j (f ((H - 1) * W + j))"
  shows "\<exists>s'. bottom_loop s cur x n = Some s' \<and> scan_inv W H src (border_pixels W H) (W * H) f s'"
  using assms
proof (induction n arbitrary: x s)
  case 0
  have HW: "W * H = (H - 1) * W + W" using 0 by (cases H) auto
  have "scan_inv W H src (border_pixels W H) (W * H) f s"
    by (rule scan_marks [OF 0(1)]) (use 0 HW in \<open>auto simp: border_upto_def border_pixels_def mult.commute\<close>)
  then show ?case by simp
next
  case (Suc n)
  have HW: "W * H = (H - 1) * W + W" using Suc.prems by (cases H) auto
  note iv = scan_invD [OF Suc.prems(1)]
  have x: "x < W" using Suc.prems(2) by simp
  obtain s1 where s1: "row_resolve s cur x = Some s1" "core (f ` {..<W * H}) (contact W (W * H) f) s1"
      "root_cell s1 cur x (f ((H - 1) * W + x))" "scan_step (\<lambda>d. d) {cur + x} s s1" "roots_le s s1"
      "regions s1 = regions s" "region_ref_count s1 = region_ref_count s"
    using row_resolve_ok [OF iv(5) Suc.prems(6) [OF order_refl x]] by blast
  have inv1: "scan_inv W H src (border_upto W H \<union> {(H - 1) * W..<(H - 1) * W + x}) (W * H) f s1"
    by (rule scan_keep [OF Suc.prems(1) s1(2) scan_step_dims [OF s1(4)] s1(7)])
      (simp add: same_view_def same_regions_view [OF s1(6)])
  obtain s2 where s2: "row_region s1 cur x = Some (f ((H - 1) * W + x))"
      "or_flags s1 (f ((H - 1) * W + x)) ADJACENT_TO_ROOT_REGION_FLAG = Some s2"
      "scan_inv W H src (insert ((H - 1) * W + x) (border_upto W H \<union> {(H - 1) * W..<(H - 1) * W + x})) (W * H) f s2"
      "frame s1 s2"
    using scan_mark [OF inv1 s1(3)] x HW by auto
  have "scan_inv W H src (border_upto W H \<union> {(H - 1) * W..<(H - 1) * W + Suc x}) (W * H) f s2"
    by (rule scan_marks [OF s2(3)]) auto
  moreover have "cell s2 cur j (f ((H - 1) * W + j))" if "Suc x \<le> j" "j < W" for j
  proof -
    have "cell s1 cur j (f ((H - 1) * W + j))"
      using cell_scan [OF Suc.prems(6) s1(4), of j] that by simp
    then show ?thesis using cell_scan [OF _ frame_scan(1) [OF s2(4), of "{}"]] by simp
  qed
  ultimately show ?case
    using Suc.IH [of "Suc x" s2] Suc.prems(2-5) s1(1) s2(1,2) by simp
qed

subsection \<open>Whole images\<close>

lemma scan_start:
  assumes mem: "segmenter_memory s"
  shows "scan_inv (width s) (height s) src B 0 f
    (s\<lparr>region_ref_count := 0, region_count := 0, freed_regions_head := Null\<rparr>)" (is "scan_inv _ _ _ _ _ _ ?s")
proof -
  have "refs_ok ?s {}" by (simp add: refs_ok_def is_root_def)
  moreover have "slots_ok ?s {}" by (simp add: slots_ok_def exI [of _ "[]"])
  ultimately have "core {} (contact (width s) 0 f) ?s" by (simp add: core_def graph_ok_def exact_def)
  then show ?thesis using mem
    by (simp add: scan_inv_def segmenter_memory_def labels_def borders_def boxes_def)
qed

lemma build_regions_ok:
  assumes bin: "binary_image (width s) (height s) src" and mem: "segmenter_memory s"
  shows "\<exists>s' f. build_regions s src = Some s' \<and>
    scan_inv (width s) (height s) src (border_pixels (width s) (height s)) (width s * height s) f s'"
proof -
  let ?W = "width s" and ?H = "height s"
  have WH: "0 < ?W" "0 < ?H" using bin by (auto simp: binary_image_def)
  define s0 where "s0 = s\<lparr>region_ref_count := 0, region_count := 0, freed_regions_head := Null\<rparr>"
  have inv0: "scan_inv ?W ?H src (border_upto ?W 1) 0 (\<lambda>p. 0) s0"
    unfolding s0_def by (rule scan_start [OF mem])
  obtain s1 f1 where s1: "top_line s0 0 src = Some s1" "scan_inv ?W ?H src (border_upto ?W 1) ?W f1 s1"
      "window ?W f1 0 ?W 0 ?W s1"
    using top_line_ok [OF inv0 bin, of 0 ?W] by (auto simp: row_bases_def border_upto_def)
  obtain cur s2 f2 where s2: "line_loop s1 ?W 0 src 1 (?H - 1) = Some (cur, s2)"
      "scan_inv ?W ?H src (border_upto ?W ?H) (?W * ?H) f2 s2" "cur \<in> {0, ?W}"
      "\<forall>j<?W. cell s2 cur j (f2 ((?H - 1) * ?W + j))"
    using line_loop_ok [of ?W ?H src 1 f1 s1 "?H - 1" 0 ?W] s1(2,3) bin WH by (auto simp: row_bases_def)
  have "scan_inv ?W ?H src (border_upto ?W ?H \<union> {(?H - 1) * ?W..<(?H - 1) * ?W + 0}) (?W * ?H) f2 s2"
    using s2(2) by simp
  then obtain s' where s': "bottom_loop s2 cur 0 ?W = Some s'"
      "scan_inv ?W ?H src (border_pixels ?W ?H) (?W * ?H) f2 s'"
    using bottom_loop_ok [of ?W ?H src 0 f2 s2 ?W cur] s2(3,4) WH by auto
  have w: "width s1 = ?W" "height s1 = ?H" "width s2 = ?W" "width s0 = ?W"
    using scan_invD(2,3) [OF s1(2)] scan_invD(2) [OF s2(2)] by (simp_all add: s0_def)
  have "build_regions s src = Some s'"
    unfolding build_regions_def Let_def s0_def [symmetric] s1(1) bind.simps w s2(1) prod.case
    by (rule s'(1))
  then show ?thesis using s'(2) by blast
qed

subsection \<open>The segmentation of an image\<close>

text \<open>The regions that clients of the segmenter visit: the slots that are not free.\<close>

definition live :: "Segmenter \<Rightarrow> nat set" where
  "live s = {x. x < region_count s \<and> \<not> is_free (reg s x)}"

lemma core_live:
  assumes core: "core D T s"
  shows "live s = D" "x < region_count s \<Longrightarrow> x \<notin> D \<Longrightarrow> adjacent_regions (reg s x) = []"
proof -
  obtain F where F: "set F \<inter> D = {}" "set F \<union> D = {..<region_count s}" "\<forall>x \<in> set F. is_idle (reg s x)"
      "\<forall>x\<in>D. \<not> is_free (reg s x)"
    using coreD(2) [OF core] unfolding slots_ok_def by blast
  then have "\<forall>x \<in> set F. is_free (reg s x)" using is_idle_free by blast
  then show "live s = D" using F(1,2,4) unfolding live_def by blast
  show "x < region_count s \<Longrightarrow> x \<notin> D \<Longrightarrow> adjacent_regions (reg s x) = []"
    using F(2,3) by (auto simp: is_idle_def set_eq_iff)
qed

text \<open>
  \<open>f\<close> maps every pixel to its region: two pixels have the same region exactly when they are
  connected, the live regions are those of pixels, and a region has the colour of its pixels.
\<close>

definition region_map :: "nat \<Rightarrow> nat \<Rightarrow> byte list \<Rightarrow> (nat \<Rightarrow> nat) \<Rightarrow> Segmenter \<Rightarrow> bool" where
  "region_map W H src f s \<longleftrightarrow> labels W src (W * H) f \<and> live s = f ` {..<W * H} \<and>
     (\<forall>p < W * H. colours s (f p) = src ! p)"

text \<open>
  A contact that may be missing from the adjacency lists: one of the regions had too many
  neighbours and was saturated, the other one is saturated or marked as fragmented.
\<close>

definition lost_contact :: "Segmenter \<Rightarrow> nat \<Rightarrow> nat \<Rightarrow> bool" where
  "lost_contact s x a \<longleftrightarrow> is_saturated (reg s x) \<and> (is_saturated (reg s a) \<or> flag_set (flags (reg s a)) FRAGMENTED_REGION_FLAG) \<or>
     is_saturated (reg s a) \<and> (is_saturated (reg s x) \<or> flag_set (flags (reg s x)) FRAGMENTED_REGION_FLAG)"

lemma step_segmenter_ok:
  assumes bin: "binary_image (width s) (height s) src" and mem: "segmenter_memory s"
  shows "\<exists>s' f. step_segmenter s src = Some s' \<and>
    scan_inv (width s) (height s) src (border_pixels (width s) (height s)) (width s * height s) f s'"
proof -
  have "0 < width s" "0 < height s" using bin by (auto simp: binary_image_def)
  then have "region_refs s \<noteq> []" "regions s \<noteq> []" "regions_under_construction s \<noteq> []"
    using mem by (auto simp: segmenter_memory_def)
  then show ?thesis using build_regions_ok [OF assms] by (simp add: step_segmenter_def)
qed

lemma scan_region_map:
  assumes "scan_inv W H src B (W * H) f s"
  shows "region_map W H src f s"
  using scan_invD [OF assms] core_live [OF scan_invD(5) [OF assms]] by (simp add: region_map_def)

lemma scan_adjacency:
  assumes inv: "scan_inv W H src B n f s" and D: "x \<in> live s" "a \<in> live s"
  shows "a \<in> set (adjacent_regions (reg s x)) \<Longrightarrow> contact W n f x a"
    "contact W n f x a \<Longrightarrow> a \<in> set (adjacent_regions (reg s x)) \<or> lost_contact s x a"
proof -
  note core = scan_invD(5) [OF inv]
  have xa: "x \<in> f ` {..<n}" "a \<in> f ` {..<n}" using D core_live [OF core] by simp_all
  have len: "x < length (regions s)" "a < length (regions s)" using xa coreD(5) [OF core] by auto
  have "detached (graph s) x a \<longleftrightarrow> lost_contact s x a"
    using len by (simp add: detached_def lost_contact_def g_saturated_def g_fragmented_def is_saturated_def gflags_graph)
  then show "a \<in> set (adjacent_regions (reg s x)) \<Longrightarrow> contact W n f x a"
    "contact W n f x a \<Longrightarrow> a \<in> set (adjacent_regions (reg s x)) \<or> lost_contact s x a"
    using exactD [OF coreD(4) [OF core] xa] len by (simp_all add: edges_graph)
qed

text \<open>Fresh memory, and a ring of black pixels around a white one, as sample inputs.\<close>

definition blank_region :: Region where
  "blank_region = \<lparr>previous = Null, nxt = Null, colour = 0, left = 0, rtop = 0, right = 0, bottom = 0,
     area = 0, flags = 0, level = 0, depth = 0, children_visited_count = 0, descendent_count = 0,
     depth_string = None, adjacent_regions = []\<rparr>"

definition blank_segmenter :: "nat \<Rightarrow> nat \<Rightarrow> nat \<Rightarrow> Segmenter" where
  "blank_segmenter w h m = initialize_segmenter w h m
     (replicate (w * h) \<lparr>region = None, redirect = 0\<rparr>) (replicate (w * h) blank_region)
     (replicate (2 * w) None)"

definition ring :: "byte list" where "ring = [0, 0, 0, 0, 255, 0, 0, 0, 0]"

lemma blank_segmenter_simps [simp]:
  "width (blank_segmenter w h m) = w" "height (blank_segmenter w h m) = h"
  "segmenter_memory (blank_segmenter w h m)"
  by (simp_all add: blank_segmenter_def initialize_segmenter_def segmenter_memory_def)

lemma binary_ring [simp]: "binary_image 3 3 ring"
  by (simp add: binary_image_def ring_def)

lemma ring_run:
  "map_option (\<lambda>s. (region_count s, map (\<lambda>r. (colour r, flags r, adjacent_regions r)) (take 2 (regions s))))
     (step_segmenter (blank_segmenter 3 3 4) ring) = Some (2, [(0, 2, [1]), (255, 0, [0])])"
  by code_simp

lemma ring_result:
  obtains s where "step_segmenter (blank_segmenter 3 3 4) ring = Some s" "live s = {0, 1}"
proof -
  obtain s where s: "step_segmenter (blank_segmenter 3 3 4) ring = Some s" "region_count s = 2"
      "map (\<lambda>r. (colour r, flags r, adjacent_regions r)) (take 2 (regions s)) = [(0, 2, [1]), (255, 0, [0])]"
    using ring_run by auto
  obtain a b rs where rs: "regions s = a # b # rs" "flags a = 2" "flags b = 0"
    using s(3) by (cases "regions s"; cases "tl (regions s)") auto
  have "live s = {0, 1}"
    by (auto simp: live_def s(2) is_free_def rs less_Suc_eq numeral_2_eq_2 flag_set_def FREE_REGION_FLAG_def)
  then show ?thesis using that s(1) by blast
qed

text \<open>The adjacency lists of the live regions.\<close>

lemma adjacency_facts:
  assumes "binary_image (width s) (height s) src" "segmenter_memory s"
    and "step_segmenter s src = Some s'" "x \<in> live s'" "a \<in> live s'"
  shows "count_list (adjacent_regions (reg s' x)) a = count_list (adjacent_regions (reg s' a)) x \<and>
    set (adjacent_regions (reg s' x)) \<subseteq> live s' \<and>
    (a \<in> set (adjacent_regions (reg s' x)) \<longrightarrow> colours s' a \<noteq> colours s' x) \<and>
    adjacent_region_count (reg s' x) \<le> max_adjacent_regions s' \<and>
    (is_saturated (reg s' x) \<longrightarrow> adjacent_regions (reg s' x) = [])"
proof -
  let ?N = "width s * height s"
  obtain f where inv: "scan_inv (width s) (height s) src (border_pixels (width s) (height s)) ?N f s'"
    using step_segmenter_ok [OF assms(1,2)] assms(3) by auto
  note core = scan_invD(5) [OF inv]
  note D = core_live [OF core]
  have len: "x < length (regions s')" "a < length (regions s')" using assms(4,5) coreD(5) [OF core] by (auto simp: D)
  note ok = graph_okD [OF coreD(3) [OF core] assms(4) [unfolded D]]
  have sat: "is_saturated (reg s' x) = g_saturated (graph s') x" using len(1) by (rule is_saturated_eq)
  show ?thesis
    using ok(1,2,3) ok(4) [OF assms(5) [unfolded D]] ok(5) [of a] len
    by (simp add: sat D edges_graph adjacent_region_count_def count_mset)
qed

subsection \<open>Properties of the segmenter\<close>

text \<open>C1: On every image of two colours \<open>step_segmenter\<close> returns without a fault: no access
  outside a buffer, no failed assertion, no endless redirect chain. The live regions are in
  bijection with the connected components of the image, and have the colour of their pixels.\<close>

theorem segments_image:
  assumes "binary_image (width s) (height s) src" "segmenter_memory s"
  shows "\<exists>s' f. step_segmenter s src = Some s' \<and> region_map (width s) (height s) src f s'"
  using step_segmenter_ok [OF assms] scan_region_map by blast

lemma segments_image_witness:
  "\<exists>s' f. step_segmenter (blank_segmenter 3 3 4) ring = Some s' \<and> region_map 3 3 ring f s'"
  using segments_image [of "blank_segmenter 3 3 4" ring] by simp

text \<open>C13: The adjacency lists hold exactly the contacts between connected components, up to
  contacts that were given up when a region had more than \<open>max_adjacent_regions\<close>
  neighbours, and these are visible in the flags of both regions.\<close>

theorem adjacency_is_contact:
  assumes "binary_image (width s) (height s) src" "segmenter_memory s"
  shows "\<exists>s' f. step_segmenter s src = Some s' \<and> region_map (width s) (height s) src f s' \<and>
    (\<forall>x\<in>live s'. \<forall>a\<in>live s'.
      (a \<in> set (adjacent_regions (reg s' x)) \<longrightarrow> contact (width s) (width s * height s) f x a) \<and>
      (contact (width s) (width s * height s) f x a \<longrightarrow>
         a \<in> set (adjacent_regions (reg s' x)) \<or> lost_contact s' x a))"
proof -
  obtain s' f where s': "step_segmenter s src = Some s'"
      "scan_inv (width s) (height s) src (border_pixels (width s) (height s)) (width s * height s) f s'"
    using step_segmenter_ok [OF assms] by blast
  then show ?thesis using scan_region_map [OF s'(2)] scan_adjacency [OF s'(2)] by blast
qed

lemma adjacency_is_contact_witness:
  "\<exists>s' f. step_segmenter (blank_segmenter 3 3 4) ring = Some s' \<and> region_map 3 3 ring f s' \<and>
    (\<forall>x\<in>live s'. \<forall>a\<in>live s'. (a \<in> set (adjacent_regions (reg s' x)) \<longrightarrow> contact 3 9 f x a) \<and>
      (contact 3 9 f x a \<longrightarrow> a \<in> set (adjacent_regions (reg s' x)) \<or> lost_contact s' x a))"
  using adjacency_is_contact [of "blank_segmenter 3 3 4" ring] by simp

text \<open>C14: A region carries the flag \<open>ADJACENT_TO_ROOT_REGION_FLAG\<close> exactly when one of its
  pixels lies on the border of the image.\<close>

theorem border_regions_flagged:
  assumes "binary_image (width s) (height s) src" "segmenter_memory s"
  shows "\<exists>s' f. step_segmenter s src = Some s' \<and> region_map (width s) (height s) src f s' \<and>
    (\<forall>p < width s * height s. flag_set (flags (reg s' (f p))) ADJACENT_TO_ROOT_REGION_FLAG \<longleftrightarrow>
      (\<exists>q < width s * height s. q \<in> border_pixels (width s) (height s) \<and> f q = f p))"
proof -
  obtain s' f where s': "step_segmenter s src = Some s'"
      "scan_inv (width s) (height s) src (border_pixels (width s) (height s)) (width s * height s) f s'"
    using step_segmenter_ok [OF assms] by blast
  then show ?thesis using scan_region_map [OF s'(2)] scan_invD(8) [OF s'(2)]
    by (auto simp: borders_def)
qed

lemma border_regions_flagged_witness:
  "\<exists>s' f. step_segmenter (blank_segmenter 3 3 4) ring = Some s' \<and> region_map 3 3 ring f s' \<and>
    (\<forall>p < 9. flag_set (flags (reg s' (f p))) ADJACENT_TO_ROOT_REGION_FLAG \<longleftrightarrow>
      (\<exists>q < 9. q \<in> border_pixels 3 3 \<and> f q = f p))"
  using border_regions_flagged [of "blank_segmenter 3 3 4" ring] by simp

text \<open>C15: In an image of at most 32768 by 32768 pixels, the recorded box of every region that
  does not touch the border is the bounding box of its pixels.\<close>

theorem bounding_boxes_exact:
  assumes "binary_image (width s) (height s) src" "segmenter_memory s" "width s \<le> 32768" "height s \<le> 32768"
  shows "\<exists>s' f. step_segmenter s src = Some s' \<and> region_map (width s) (height s) src f s' \<and>
    (\<forall>p < width s * height s. \<not> flag_set (flags (reg s' (f p))) ADJACENT_TO_ROOT_REGION_FLAG \<longrightarrow>
      bounding_box (width s) (width s * height s) f (f p) (view s' (f p)))"
proof -
  let ?W = "width s" and ?H = "height s"
  obtain s' f where s': "step_segmenter s src = Some s'"
      "scan_inv ?W ?H src (border_pixels ?W ?H) (?W * ?H) f s'"
    using step_segmenter_ok [OF assms(1,2)] by blast
  note iv = scan_invD [OF s'(2)]
  have W: "0 < ?W" using assms(1) by (simp add: binary_image_def)
  have "bounding_box ?W (?W * ?H) f (f p) (view s' (f p))"
    if p: "p < ?W * ?H" and nb: "\<not> flag_set (flags (reg s' (f p))) ADJACENT_TO_ROOT_REGION_FLAG" for p
  proof (rule boxes_exact [OF iv(7) refl W iv(9) [OF assms(3,4)] p])
    fix q assume "q < ?W * ?H" "f q = f p"
    then have "q \<notin> border_pixels ?W ?H" using iv(8) nb p unfolding borders_def by auto
    then show "?W \<le> q \<and> q mod ?W \<noteq> 0 \<and> Suc (q mod ?W) \<noteq> ?W" by (auto simp: border_pixels_def)
  qed
  then show ?thesis using s'(1) scan_region_map [OF s'(2)] by blast
qed

lemma bounding_boxes_exact_witness:
  "\<exists>s' f. step_segmenter (blank_segmenter 3 3 4) ring = Some s' \<and> region_map 3 3 ring f s' \<and>
    (\<forall>p < 9. \<not> flag_set (flags (reg s' (f p))) ADJACENT_TO_ROOT_REGION_FLAG \<longrightarrow>
      bounding_box 3 9 f (f p) (view s' (f p)))"
  using bounding_boxes_exact [of "blank_segmenter 3 3 4" ring] by simp

text \<open>C16: After segmentation the adjacency lists of the live regions are symmetric with equal
  multiplicities, name only live regions of the other colour, never exceed
  \<open>max_adjacent_regions\<close>, and are empty for saturated regions.\<close>

theorem adjacency_well_formed:
  assumes "binary_image (width s) (height s) src" "segmenter_memory s"
    and "step_segmenter s src = Some s'" "x \<in> live s'" "a \<in> live s'"
  shows "count_list (adjacent_regions (reg s' x)) a = count_list (adjacent_regions (reg s' a)) x \<and>
    set (adjacent_regions (reg s' x)) \<subseteq> live s' \<and>
    (a \<in> set (adjacent_regions (reg s' x)) \<longrightarrow> colours s' a \<noteq> colours s' x) \<and>
    adjacent_region_count (reg s' x) \<le> max_adjacent_regions s' \<and>
    (is_saturated (reg s' x) \<longrightarrow> adjacent_regions (reg s' x) = [])"
  using adjacency_facts [OF assms] .

lemma adjacency_well_formed_witness:
  "\<exists>s'. step_segmenter (blank_segmenter 3 3 4) ring = Some s' \<and>
    count_list (adjacent_regions (reg s' 0)) 1 = count_list (adjacent_regions (reg s' 1)) 0 \<and>
    adjacent_region_count (reg s' 0) \<le> max_adjacent_regions s'"
  by (rule ring_result) (use adjacency_well_formed [of "blank_segmenter 3 3 4" ring _ 0 1] in auto)

text \<open>The number of live regions is the number of connected components of the image, and
  at most \<open>width * height\<close> region slots are in use.\<close>

theorem region_count_components:
  assumes "binary_image (width s) (height s) src" "segmenter_memory s" "step_segmenter s src = Some s'"
  shows "card (live s') = card ((\<lambda>p. {q. q < width s * height s \<and> conn (width s) src (width s * height s) p q}) ` {..<width s * height s}) \<and>
    region_count s' \<le> width s * height s"
proof -
  let ?W = "width s" and ?N = "width s * height s"
  obtain f where inv: "scan_inv ?W (height s) src (border_pixels ?W (height s)) ?N f s'"
    using step_segmenter_ok [OF assms(1,2)] assms(3) by auto
  let ?C = "\<lambda>p. {q. q < ?N \<and> conn ?W src ?N p q}"
  let ?P = "\<lambda>d. {q. q < ?N \<and> f q = d}"
  have lab: "f p = f q \<longleftrightarrow> conn ?W src ?N p q" if "p < ?N" "q < ?N" for p q
    using labelsD [OF scan_invD(7) [OF inv] that] .
  have "?P (f p) = ?C p" if "p < ?N" for p using lab [OF that] by (metis (lifting))
  then have "?C ` {..<?N} = ?P ` (f ` {..<?N})" by (simp add: image_image)
  moreover have "inj_on ?P (f ` {..<?N})" by (rule inj_onI) (auto simp: set_eq_iff)
  ultimately have "card (live s') = card (?C ` {..<?N})"
    using core_live [OF scan_invD(5) [OF inv]] by (simp add: card_image)
  moreover have "region_count s' \<le> ?N"
    using coreD(2) [OF scan_invD(5) [OF inv]] scan_invD(4) [OF inv] by (simp add: slots_ok_def)
  ultimately show ?thesis by simp
qed

lemma region_count_components_witness:
  "\<exists>s'. step_segmenter (blank_segmenter 3 3 4) ring = Some s' \<and> region_count s' \<le> 9 \<and>
    card {0, 1 :: nat} = card ((\<lambda>p. {q. q < 9 \<and> conn 3 ring 9 p q}) ` {..<9})"
  by (rule ring_result) (use region_count_components [of "blank_segmenter 3 3 4" ring] in auto)

end
