(* ===== verification/Buffers.thy ===== *)
theory Buffers
  imports Prelude
begin

text \<open>
  Image buffers and counted loops: memory that is accessed through an \<open>int\<close> offset, and the
  \<open>for\<close> loops of the threshold code. An access at a negative offset or past the end is a
  fault.
\<close>

subsection \<open>Access by int offset\<close>

definition rd :: "'a list \<Rightarrow> int \<Rightarrow> 'a option" where
  "rd xs i = (if 0 \<le> i then buf_read xs (nat i) else None)"

definition wr :: "'a list \<Rightarrow> int \<Rightarrow> 'a \<Rightarrow> 'a list option" where
  "wr xs i v = (if 0 \<le> i then buf_write xs (nat i) v else None)"

abbreviation ilength :: "'a list \<Rightarrow> int" where
  "ilength xs \<equiv> int (length xs)"

lemma rd_eq [buf_simps]: "0 \<le> i \<Longrightarrow> i < ilength xs \<Longrightarrow> rd xs i = Some (xs ! nat i)"
  by (simp add: rd_def buf_simps)

lemma wr_eq [buf_simps]: "0 \<le> i \<Longrightarrow> i < ilength xs \<Longrightarrow> wr xs i v = Some (xs[nat i := v])"
  by (simp add: wr_def buf_simps)

lemma rd_Some_iff: "rd xs i = Some v \<longleftrightarrow> 0 \<le> i \<and> i < ilength xs \<and> v = xs ! nat i"
  by (auto simp: rd_def buf_read_Some_iff)

lemma rd_None: "ilength xs \<le> i \<Longrightarrow> rd xs i = None"
  by (simp add: rd_def buf_read_def)

lemma wr_Some_iff: "wr xs i v = Some ys \<longleftrightarrow> 0 \<le> i \<and> i < ilength xs \<and> ys = xs[nat i := v]"
  by (auto simp: wr_def buf_write_Some_iff)

text \<open>C division of ints; division by zero is a fault.\<close>

definition quot :: "int \<Rightarrow> int \<Rightarrow> int option" where
  "quot a b = (if b = 0 then None else Some (c_div a b))"

lemma quot_pos [buf_simps]: "0 \<le> a \<Longrightarrow> 0 < b \<Longrightarrow> quot a b = Some (a div b)"
  by (simp add: quot_def)

subsection \<open>Counted loops\<close>

text \<open>\<open>for( i = lo; i < hi; ++i ) body\<close>, where the body does not assign \<open>i\<close>.\<close>

fun loop :: "int \<Rightarrow> nat \<Rightarrow> (int \<Rightarrow> 's \<Rightarrow> 's option) \<Rightarrow> 's \<Rightarrow> 's option" where
  "loop i 0 body s = Some s"
| "loop i (Suc n) body s = do {
     s \<leftarrow> body i s;
     loop (i + 1) n body s
   }"

definition for_range :: "int \<Rightarrow> int \<Rightarrow> (int \<Rightarrow> 's \<Rightarrow> 's option) \<Rightarrow> 's \<Rightarrow> 's option" where
  "for_range lo hi body s = loop lo (nat (hi - lo)) body s"

text \<open>\<open>for( i = lo; i < hi; i += step ) body\<close>, for a positive step; the loop does not end for
  a step that is not positive, unless it is not entered.\<close>

definition for_step :: "int \<Rightarrow> int \<Rightarrow> int \<Rightarrow> (int \<Rightarrow> 's \<Rightarrow> 's option) \<Rightarrow> 's \<Rightarrow> 's option" where
  "for_step lo hi step body s =
     (if hi \<le> lo then Some s
      else if 0 < step then loop 0 (nat ((hi - lo + step - 1) div step)) (\<lambda>k. body (lo + k * step)) s
      else None)"

text \<open>\<open>for( i = count; i > 0; --i ) body\<close>, where \<open>i\<close> only counts.\<close>

definition repeat_times :: "int \<Rightarrow> ('s \<Rightarrow> 's option) \<Rightarrow> 's \<Rightarrow> 's option" where
  "repeat_times n body s = loop 0 (nat n) (\<lambda>_. body) s"

lemma loop_rule:
  assumes "P i s"
    and "\<And>j s. i \<le> j \<Longrightarrow> j < i + int n \<Longrightarrow> P j s \<Longrightarrow> \<exists>s'. body j s = Some s' \<and> P (j + 1) s'"
  shows "\<exists>s'. loop i n body s = Some s' \<and> P (i + int n) s'"
  using assms
proof (induction n arbitrary: i s)
  case (Suc n)
  obtain s1 where s1: "body i s = Some s1" "P (i + 1) s1" using Suc.prems(2) [of i s] Suc.prems(1) by auto
  have "\<exists>s'. loop (i + 1) n body s1 = Some s' \<and> P (i + 1 + int n) s'"
    by (rule Suc.IH [OF s1(2)]) (use Suc.prems(2) in auto)
  then show ?case using s1(1) by (simp add: algebra_simps)
qed simp

lemma for_range_rule:
  assumes "P lo s" "lo \<le> hi"
    and "\<And>j s. lo \<le> j \<Longrightarrow> j < hi \<Longrightarrow> P j s \<Longrightarrow> \<exists>s'. body j s = Some s' \<and> P (j + 1) s'"
  shows "\<exists>s'. for_range lo hi body s = Some s' \<and> P hi s'"
  using loop_rule [of P lo s "nat (hi - lo)" body] assms by (simp add: for_range_def)

lemma for_range_empty [simp]: "hi \<le> lo \<Longrightarrow> for_range lo hi body s = Some s"
  by (simp add: for_range_def)

lemma repeat_rule:
  assumes "P 0 s" "0 \<le> n"
    and "\<And>j s. 0 \<le> j \<Longrightarrow> j < n \<Longrightarrow> P j s \<Longrightarrow> \<exists>s'. body s = Some s' \<and> P (j + 1) s'"
  shows "\<exists>s'. repeat_times n body s = Some s' \<and> P n s'"
  using loop_rule [of P 0 s "nat n" "\<lambda>_. body"] assms by (simp add: repeat_times_def)

lemma for_step_rule:
  assumes "P 0 s" "lo \<le> hi" "0 < step"
    and "\<And>k s. 0 \<le> k \<Longrightarrow> lo + k * step < hi \<Longrightarrow> P k s \<Longrightarrow> \<exists>s'. body (lo + k * step) s = Some s' \<and> P (k + 1) s'"
  shows "\<exists>s'. for_step lo hi step body s = Some s' \<and> P ((hi - lo + step - 1) div step) s'"
proof (cases "hi = lo")
  case True
  have "(step - 1) div step = 0" using assms(3) by simp
  then show ?thesis using True assms(1) by (simp add: for_step_def)
next
  case False
  have pos: "0 \<le> (hi - lo + step - 1) div step" using assms by (simp add: pos_imp_zdiv_nonneg_iff)
  have lt: "lo + k * step < hi" if "k < (hi - lo + step - 1) div step" for k
  proof -
    have "(k + 1) * step \<le> (hi - lo + step - 1) div step * step" using that assms(3) by (intro mult_right_mono) auto
    also have "\<dots> \<le> hi - lo + step - 1" using assms(3) div_mult_mod_eq [of "hi - lo + step - 1" step]
        pos_mod_sign [OF assms(3), of "hi - lo + step - 1"] by linarith
    finally show ?thesis by (simp add: algebra_simps)
  qed
  have "\<exists>s'. loop 0 (nat ((hi - lo + step - 1) div step)) (\<lambda>k. body (lo + k * step)) s = Some s' \<and>
      P (0 + int (nat ((hi - lo + step - 1) div step))) s'"
    by (rule loop_rule) (use assms lt pos in auto)
  then show ?thesis using False assms pos by (simp add: for_step_def)
qed

lemma repeat_0 [simp]: "repeat_times 0 body s = Some s"
  by (simp add: repeat_times_def)

end
