(* ===== verification/TiledBernsen.thy ===== *)
theory TiledBernsen
  imports Buffers
begin

text \<open>
  \<^verbatim>\<open>tiled_bernsen_threshold.c\<close>: local thresholding by the mean of the least and the greatest
  value around a tile. Buffers are byte lists, pointers are offsets into them, and each
  function follows the statement order of the C function of the same name.
\<close>

subsection \<open>The program\<close>

definition WHITE :: byte where "WHITE = 255"
definition BLACK :: byte where "BLACK = 0"

record TiledBernsenThresholder =
  min_max :: "byte list"
  threshold :: "byte list"

text \<open>The two results of \<open>malloc\<close> are arguments; the sizes that are requested:\<close>

definition min_max_size :: "int \<Rightarrow> int \<Rightarrow> int \<Rightarrow> int" where
  "min_max_size width height tile_size =
     (c_div (width - c_div tile_size 2) tile_size + 2) *
     (c_div (height - c_div tile_size 2) tile_size + 2) * 2"

definition threshold_size :: "int \<Rightarrow> int \<Rightarrow> int \<Rightarrow> int" where
  "threshold_size width height tile_size =
     (c_div width tile_size + 1) * (c_div height tile_size + 1)"

definition initialize_tiled_bernsen_thresholder ::
  "(int \<Rightarrow> byte list) \<Rightarrow> int \<Rightarrow> int \<Rightarrow> int \<Rightarrow> TiledBernsenThresholder option" where
  "initialize_tiled_bernsen_thresholder malloc width height tile_size =
     (if tile_size = 0 then None else Some \<lparr>
       min_max = malloc (min_max_size width height tile_size),
       threshold = malloc (threshold_size width height tile_size)\<rparr>)"

definition init_min_max :: "byte list \<Rightarrow> int \<Rightarrow> int \<Rightarrow> byte list option" where
  "init_min_max mm dest n = do {
     (dest, mm) \<leftarrow> repeat_times n (\<lambda>(dest, mm). do {
        mm \<leftarrow> wr mm dest 255;
        mm \<leftarrow> wr mm (dest + 1) 0;
        Some (dest + 2, mm) }) (dest, mm);
     Some mm
   }"

text \<open>The loop body of \<open>compute_span_min_max\<close>.\<close>

fun minmax_update :: "byte \<Rightarrow> byte \<times> byte \<Rightarrow> byte \<times> byte" where
  "minmax_update v (mn, mx) = (if v < mn then (v, mx) else if mx < v then (mn, v) else (mn, mx))"

definition compute_span_min_max ::
  "byte list \<Rightarrow> int \<Rightarrow> byte list \<Rightarrow> int \<Rightarrow> int \<Rightarrow> int \<Rightarrow> byte list option" where
  "compute_span_min_max mm dest src source source_stride n = do {
     mn \<leftarrow> rd mm dest;
     mx \<leftarrow> rd mm (dest + 1);
     (source, mn, mx) \<leftarrow> repeat_times n (\<lambda>(source, mn, mx). do {
        v \<leftarrow> rd src source;
        Some (source + source_stride, minmax_update v (mn, mx)) }) (source, mn, mx);
     mm \<leftarrow> wr mm dest mn;
     wr mm (dest + 1) mx
   }"

definition compute_multiple_spans_min_max ::
  "byte list \<Rightarrow> int \<Rightarrow> byte list \<Rightarrow> int \<Rightarrow> int \<Rightarrow> int \<Rightarrow> int \<Rightarrow> byte list option" where
  "compute_multiple_spans_min_max mm dest src source source_stride vector_size span_count = do {
     let increment = vector_size * source_stride;
     (dest, source, mm) \<leftarrow> repeat_times span_count (\<lambda>(dest, source, mm). do {
        mm \<leftarrow> compute_span_min_max mm dest src source source_stride vector_size;
        Some (dest + 2, source + increment, mm) }) (dest, source, mm);
     Some mm
   }"

definition compute_line_min_max_spans ::
  "byte list \<Rightarrow> int \<Rightarrow> byte list \<Rightarrow> int \<Rightarrow> int \<Rightarrow> int \<Rightarrow> int \<Rightarrow> int \<Rightarrow> int \<Rightarrow> byte list option" where
  "compute_line_min_max_spans mm dest src source source_stride
     first_vector_size full_span_count last_vector_size tile_size = do {
     mm \<leftarrow> compute_span_min_max mm dest src source source_stride first_vector_size;
     let source = source + source_stride * first_vector_size;
     let dest = dest + 2;
     mm \<leftarrow> compute_multiple_spans_min_max mm dest src source source_stride tile_size full_span_count;
     let source = source + source_stride * full_span_count * tile_size;
     let dest = dest + 2 * full_span_count;
     compute_span_min_max mm dest src source source_stride last_vector_size
   }"

text \<open>One block of \<open>n\<close> lines: the inner loops of \<open>compute_frame_min_max_tiles\<close>.\<close>

definition compute_block_lines ::
  "byte list \<Rightarrow> int \<Rightarrow> byte list \<Rightarrow> int \<Rightarrow> int \<Rightarrow> int \<Rightarrow> int \<Rightarrow> int \<Rightarrow> int \<Rightarrow> int \<Rightarrow> int \<Rightarrow> (int \<times> byte list) option" where
  "compute_block_lines mm dest src source source_stride
     first_vector_size full_span_count last_vector_size tile_size increment n =
   repeat_times n (\<lambda>(source, mm). do {
      mm \<leftarrow> compute_line_min_max_spans mm dest src source source_stride
             first_vector_size full_span_count last_vector_size tile_size;
      Some (source + increment, mm) }) (source, mm)"

definition compute_frame_min_max_tiles ::
  "byte list \<Rightarrow> byte list \<Rightarrow> int \<Rightarrow> int \<Rightarrow> int \<Rightarrow> int \<Rightarrow> byte list option" where
  "compute_frame_min_max_tiles mm src source_stride width height tile_size = do {
     first_vector_size \<leftarrow> quot tile_size 2;
     full_span_count \<leftarrow> quot (width - first_vector_size) tile_size;
     let last_vector_size = width - first_vector_size - (full_span_count * tile_size);
     first_block_height \<leftarrow> quot tile_size 2;
     full_block_count \<leftarrow> quot (height - first_block_height) tile_size;
     let last_block_height = height - first_block_height - (full_block_count * tile_size);
     let increment = source_stride * width;
     let dest = 0;
     mm \<leftarrow> init_min_max mm dest (full_span_count + 2);
     (source, mm) \<leftarrow> compute_block_lines mm dest src 0 source_stride
        first_vector_size full_span_count last_vector_size tile_size increment first_block_height;
     let dest = dest + 2 * (full_span_count + 2);
     (dest, source, mm) \<leftarrow> repeat_times full_block_count (\<lambda>(dest, source, mm). do {
        mm \<leftarrow> init_min_max mm dest (full_span_count + 2);
        (source, mm) \<leftarrow> compute_block_lines mm dest src source source_stride
           first_vector_size full_span_count last_vector_size tile_size increment tile_size;
        Some (dest + 2 * (full_span_count + 2), source, mm) }) (dest, source, mm);
     mm \<leftarrow> init_min_max mm dest (full_span_count + 2);
     (source, mm) \<leftarrow> compute_block_lines mm dest src source source_stride
        first_vector_size full_span_count last_vector_size tile_size increment last_block_height;
     Some mm
   }"

text \<open>The threshold of one tile, from the four pairs around it.\<close>

definition tile_threshold :: "byte \<times> byte \<Rightarrow> byte \<times> byte \<Rightarrow> byte \<times> byte \<Rightarrow> byte \<times> byte \<Rightarrow> int \<Rightarrow> byte" where
  "tile_threshold a0 a1 b0 b1 contrast_threshold = (
     let min_a = fst a0; max_a = snd a0;
         min_a = (if fst a1 < min_a then fst a1 else min_a);
         max_a = (if snd a1 > max_a then snd a1 else max_a);
         min_b = fst b0; max_b = snd b0;
         min_b = (if fst b1 < min_b then fst b1 else min_b);
         max_b = (if snd b1 > max_b then snd b1 else max_b);
         min_a = (if min_b < min_a then min_b else min_a);
         max_a = (if max_b > max_a then max_b else max_a);
         test_threshold = (word_of_int (c_div (uint min_a + uint max_a) 2) :: byte)
     in if uint max_a - uint min_a < contrast_threshold
        then (if uint test_threshold < 127 then WHITE else BLACK)
        else test_threshold)"

definition rd_pair :: "byte list \<Rightarrow> int \<Rightarrow> (byte \<times> byte) option" where
  "rd_pair mm p = do { a \<leftarrow> rd mm p; b \<leftarrow> rd mm (p + 1); Some (a, b) }"

definition compute_row_thresholds ::
  "byte list \<Rightarrow> int \<Rightarrow> byte list \<Rightarrow> int \<Rightarrow> int \<Rightarrow> int \<Rightarrow> int \<Rightarrow> byte list option" where
  "compute_row_thresholds th dest mm min_max_a min_max_b n contrast_threshold = do {
     (dest, min_max_a, min_max_b, th) \<leftarrow> repeat_times n (\<lambda>(dest, min_max_a, min_max_b, th). do {
        a0 \<leftarrow> rd_pair mm min_max_a;
        a1 \<leftarrow> rd_pair mm (min_max_a + 2);
        b0 \<leftarrow> rd_pair mm min_max_b;
        b1 \<leftarrow> rd_pair mm (min_max_b + 2);
        th \<leftarrow> wr th dest (tile_threshold a0 a1 b0 b1 contrast_threshold);
        Some (dest + 1, min_max_a + 2, min_max_b + 2, th) }) (dest, min_max_a, min_max_b, th);
     Some th
   }"

definition compute_frame_threshold_tiles ::
  "byte list \<Rightarrow> byte list \<Rightarrow> int \<Rightarrow> int \<Rightarrow> int \<Rightarrow> int \<Rightarrow> byte list option" where
  "compute_frame_threshold_tiles th mm width height tile_size contrast_threshold = do {
     first_vector_size \<leftarrow> quot tile_size 2;
     full_span_count \<leftarrow> quot (width - first_vector_size) tile_size;
     let min_max_width = full_span_count + 2;
     tw \<leftarrow> quot width tile_size;
     let threshold_width = tw + 1;
     thh \<leftarrow> quot height tile_size;
     let threshold_height = thh + 1;
     (dest, p, th) \<leftarrow> repeat_times threshold_height (\<lambda>(dest, p, th). do {
        th \<leftarrow> compute_row_thresholds th dest mm p (p + min_max_width * 2) threshold_width contrast_threshold;
        Some (dest + threshold_width, p + min_max_width * 2, th) }) (0, 0, th);
     Some th
   }"

definition apply_frame_thresholds ::
  "byte list \<Rightarrow> byte list \<Rightarrow> int \<Rightarrow> byte list \<Rightarrow> int \<Rightarrow> int \<Rightarrow> int \<Rightarrow> byte list option" where
  "apply_frame_thresholds dst src source_stride th width height tile_size = do {
     tw \<leftarrow> quot width tile_size;
     let threshold_width = tw + 1;
     (dest, source, threshold, dst) \<leftarrow> for_step 0 height tile_size (\<lambda>j (dest, source, threshold, dst). do {
        let tile_height = (if j + tile_size > height then height - j else tile_size);
        (dest, source, dst) \<leftarrow> for_range 0 tile_height (\<lambda>k (dest, source, dst). do {
           let t = threshold;
           (t, dest, source, dst) \<leftarrow> for_step 0 width tile_size (\<lambda>m (t, dest, source, dst). do {
              tt \<leftarrow> rd th t;
              let tile_width = (if m + tile_size > width then width - m else tile_size);
              (dest, source, dst) \<leftarrow> repeat_times tile_width (\<lambda>(dest, source, dst). do {
                 v \<leftarrow> rd src source;
                 dst \<leftarrow> wr dst dest (if v > tt then WHITE else BLACK);
                 Some (dest + 1, source + source_stride, dst) }) (dest, source, dst);
              Some (t + 1, dest, source, dst) }) (t, dest, source, dst);
           Some (dest, source, dst) }) (dest, source, dst);
        Some (dest, source, threshold + threshold_width, dst) }) (0, 0, 0, dst);
     Some dst
   }"

definition tiled_bernsen_threshold ::
  "TiledBernsenThresholder \<Rightarrow> byte list \<Rightarrow> byte list \<Rightarrow> int \<Rightarrow> int \<Rightarrow> int \<Rightarrow> int \<Rightarrow> int \<Rightarrow>
   (TiledBernsenThresholder \<times> byte list) option" where
  "tiled_bernsen_threshold t dst src source_stride width height tile_size contrast_threshold = do {
     mm \<leftarrow> compute_frame_min_max_tiles (min_max t) src source_stride width height tile_size;
     th \<leftarrow> compute_frame_threshold_tiles (threshold t) mm width height tile_size contrast_threshold;
     dst \<leftarrow> apply_frame_thresholds dst src source_stride th width height tile_size;
     Some (t\<lparr>min_max := mm, threshold := th\<rparr>, dst)
   }"

end
