(* ===== verification/BernsenTiles.thy ===== *)
theory BernsenTiles
  imports TiledBernsen
begin

text \<open>
  The tile minima and maxima of \<^verbatim>\<open>tiled_bernsen_threshold.c\<close>: the buffer \<open>min_max\<close> is a list
  of pairs, and each loop is shown to fold \<open>minmax_update\<close> over the pixels of its spans.
\<close>

subsection \<open>The buffer as a list of pairs\<close>

definition pairs :: "byte list \<Rightarrow> (byte \<times> byte) list" where
  "pairs mm = map (\<lambda>i. (mm ! (2 * i), mm ! Suc (2 * i))) [0..<length mm div 2]"

lemma length_pairs [simp]: "length (pairs mm) = length mm div 2"
  by (simp add: pairs_def)

lemma pairs_nth: "i < length mm div 2 \<Longrightarrow> pairs mm ! i = (mm ! (2 * i), mm ! Suc (2 * i))"
  by (simp add: pairs_def)

lemma pairs_update:
  assumes "i < length mm div 2"
  shows "pairs (mm[2 * i := a, Suc (2 * i) := b]) = (pairs mm)[i := (a, b)]"
proof (rule nth_equalityI)
  fix j assume "j < length (pairs (mm[2 * i := a, Suc (2 * i) := b]))"
  then have j: "j < length mm div 2" by simp
  have "2 * i \<noteq> Suc (2 * j)" "Suc (2 * i) \<noteq> 2 * j" by presburger+
  then show "pairs (mm[2 * i := a, Suc (2 * i) := b]) ! j = (pairs mm)[i := (a, b)] ! j"
    using assms j by (cases "j = i") (auto simp: pairs_nth nth_list_update)
qed simp

lemma rd_pairs:
  assumes "0 \<le> p" "nat p < length mm div 2"
  shows "rd mm (2 * p) = Some (fst (pairs mm ! nat p))" "rd mm (2 * p + 1) = Some (snd (pairs mm ! nat p))"
  using assms by (auto simp: rd_def buf_read_def pairs_nth nat_mult_distrib nat_add_distrib)

lemma wr_pairs:
  assumes "0 \<le> p" "nat p < length mm div 2"
  shows "\<exists>mm1 mm'. wr mm (2 * p) a = Some mm1 \<and> wr mm1 (2 * p + 1) b = Some mm' \<and>
     length mm' = length mm \<and> pairs mm' = (pairs mm)[nat p := (a, b)]"
proof -
  have "nat (2 * p) = 2 * nat p" "nat (2 * p + 1) = Suc (2 * nat p)" using assms(1) by auto
  then show ?thesis using assms pairs_update [OF assms(2)] by (auto simp: wr_def buf_write_def)
qed

subsection \<open>Samples of the source\<close>

definition samples :: "byte list \<Rightarrow> int \<Rightarrow> int \<Rightarrow> int \<Rightarrow> byte list" where
  "samples src source stride n = map (\<lambda>k. src ! nat (source + int k * stride)) [0..<nat n]"

definition readable :: "byte list \<Rightarrow> int \<Rightarrow> int \<Rightarrow> int \<Rightarrow> bool" where
  "readable src source stride n \<longleftrightarrow> (\<forall>k. 0 \<le> k \<longrightarrow> k < n \<longrightarrow> 0 \<le> source + k * stride \<and> source + k * stride < ilength src)"

lemma samples_Suc: "0 \<le> n \<Longrightarrow> samples src p st (n + 1) = samples src p st n @ [src ! nat (p + n * st)]"
  by (simp add: samples_def nat_add_distrib)

lemma samples_0 [simp]: "samples src p st 0 = []"
  by (simp add: samples_def)

text \<open>
  The pairs from \<open>p\<close> on, one for each \<open>c < n\<close>, are updated by the samples \<open>S c\<close>; the other
  pairs stay.
\<close>

definition updated :: "byte list \<Rightarrow> byte list \<Rightarrow> int \<Rightarrow> int \<Rightarrow> (int \<Rightarrow> byte list) \<Rightarrow> bool" where
  "updated mm mm' p n S \<longleftrightarrow> length mm' = length mm \<and>
     (\<forall>i < length mm div 2. pairs mm' ! i =
        (if p \<le> int i \<and> int i < p + n then fold minmax_update (S (int i - p)) (pairs mm ! i) else pairs mm ! i))"

lemma updated_0 [simp]: "updated mm mm p 0 S"
  by (simp add: updated_def)

lemma updated_trans:
  assumes "updated mm mm1 p n S" "updated mm1 mm2 (p + n) m S'" "0 \<le> n" "0 \<le> m"
    and "\<And>c. 0 \<le> c \<Longrightarrow> c < n \<Longrightarrow> R c = S c" "\<And>c. n \<le> c \<Longrightarrow> c < n + m \<Longrightarrow> R c = S' (c - n)"
  shows "updated mm mm2 p (n + m) R"
  using assms unfolding updated_def by (auto simp: algebra_simps)

lemma updated_again:
  assumes "updated mm mm1 p n S" "updated mm1 mm2 p n S'"
    and "\<And>c. 0 \<le> c \<Longrightarrow> c < n \<Longrightarrow> R c = S c @ S' c"
  shows "updated mm mm2 p n R"
  using assms unfolding updated_def by auto

lemma updated_cong:
  "updated mm mm' p n S \<Longrightarrow> (\<And>c. 0 \<le> c \<Longrightarrow> c < n \<Longrightarrow> R c = S c) \<Longrightarrow> updated mm mm' p n R"
  unfolding updated_def by auto

lemma span_ok:
  assumes p: "0 \<le> p" "nat p < length mm div 2" and n: "0 \<le> n" and rd: "readable src source st n"
  shows "\<exists>mm'. compute_span_min_max mm (2 * p) src source st n = Some mm' \<and>
    updated mm mm' p 1 (\<lambda>_. samples src source st n)"
proof -
  let ?init = "pairs mm ! nat p"
  have "\<exists>s'. repeat_times n (\<lambda>(source, mn, mx). do {
        v \<leftarrow> rd src source;
        Some (source + st, minmax_update v (mn, mx)) }) (source, fst ?init, snd ?init) = Some s' \<and>
      s' = (source + n * st, fold minmax_update (samples src source st n) ?init)"
  proof (rule repeat_rule [where P = "\<lambda>j s. s = (source + j * st, fold minmax_update (samples src source st j) ?init)"])
    fix j s assume j: "0 \<le> j" "j < n" and s: "s = (source + j * st, fold minmax_update (samples src source st j) ?init)"
    have "rd src (source + j * st) = Some (src ! nat (source + j * st))"
      using rd j by (intro rd_eq) (auto simp: readable_def)
    then show "\<exists>s'. (\<lambda>(source, mn, mx). do { v \<leftarrow> rd src source; Some (source + st, minmax_update v (mn, mx)) }) s = Some s' \<and>
        s' = (source + (j + 1) * st, fold minmax_update (samples src source st (j + 1)) ?init)"
      unfolding s using j
      by (cases "fold minmax_update (samples src source st j) ?init")
        (simp add: samples_Suc int_distrib del: minmax_update.simps)
  qed (use n in simp_all)
  then have loop: "repeat_times n (\<lambda>(source, mn, mx). do {
        v \<leftarrow> rd src source;
        Some (source + st, minmax_update v (mn, mx)) }) (source, fst ?init, snd ?init) =
      Some (source + n * st, fold minmax_update (samples src source st n) ?init)" by blast
  obtain a b where ab: "fold minmax_update (samples src source st n) ?init = (a, b)" by fastforce
  obtain mm1 mm' where w: "wr mm (2 * p) a = Some mm1" "wr mm1 (2 * p + 1) b = Some mm'"
      "length mm' = length mm" "pairs mm' = (pairs mm)[nat p := (a, b)]"
    using wr_pairs [OF p] by blast
  have "compute_span_min_max mm (2 * p) src source st n = Some mm'"
    using rd_pairs [OF p] loop ab w(1,2) by (simp add: compute_span_min_max_def)
  moreover have "updated mm mm' p 1 (\<lambda>_. samples src source st n)"
    using w(3,4) p ab by (auto simp: updated_def nth_list_update)
  ultimately show ?thesis by blast
qed

lemma multiple_spans_ok:
  assumes p: "0 \<le> p" "nat (p + m) \<le> length mm div 2" and n: "0 \<le> n" and m: "0 \<le> m"
    and rd: "\<And>c. 0 \<le> c \<Longrightarrow> c < m \<Longrightarrow> readable src (source + c * (n * st)) st n"
  shows "\<exists>mm'. compute_multiple_spans_min_max mm (2 * p) src source st n m = Some mm' \<and>
    updated mm mm' p m (\<lambda>c. samples src (source + c * (n * st)) st n)"
proof -
  let ?S = "\<lambda>c. samples src (source + c * (n * st)) st n"
  let ?P = "\<lambda>j (d, so, mm'). d = 2 * (p + j) \<and> so = source + j * (n * st) \<and> updated mm mm' p j ?S"
  have "\<exists>s'. repeat_times m (\<lambda>(dest, source, mm). do {
        mm \<leftarrow> compute_span_min_max mm dest src source st n;
        Some (dest + 2, source + n * st, mm) }) (2 * p, source, mm) = Some s' \<and> ?P m s'"
  proof (rule repeat_rule [where P = ?P])
    fix j s assume j: "0 \<le> j" "j < m" and P: "?P j s"
    obtain mm1 where s: "s = (2 * (p + j), source + j * (n * st), mm1)" "updated mm mm1 p j ?S"
      using P by (cases s) auto
    have l: "length mm1 = length mm" using s(2) by (simp add: updated_def)
    have "nat (p + j) < length mm1 div 2" using p j l by linarith
    then obtain mm2 where mm2: "compute_span_min_max mm1 (2 * (p + j)) src (source + j * (n * st)) st n = Some mm2"
        "updated mm1 mm2 (p + j) 1 (\<lambda>_. ?S j)"
      using span_ok [of "p + j" mm1 n src "source + j * (n * st)" st] p(1) j n rd by auto
    have "updated mm mm2 p (j + 1) ?S"
      by (rule updated_trans [OF s(2) mm2(2)]) (use j in auto)
    then show "\<exists>s'. (\<lambda>(dest, source, mm). do {
        mm \<leftarrow> compute_span_min_max mm dest src source st n;
        Some (dest + 2, source + n * st, mm) }) s = Some s' \<and> ?P (j + 1) s'"
      using s(1) mm2(1) by (simp add: algebra_simps)
  qed (use m in auto)
  then obtain s' where "repeat_times m (\<lambda>(dest, source, mm). do {
        mm \<leftarrow> compute_span_min_max mm dest src source st n;
        Some (dest + 2, source + n * st, mm) }) (2 * p, source, mm) = Some s'" "?P m s'" by blast
  then show ?thesis by (cases s') (auto simp: compute_multiple_spans_min_max_def Let_def)
qed

subsection \<open>Tiles\<close>

text \<open>
  The tiles for the minima and maxima are offset by half a tile: tile \<open>c\<close> of a line of \<open>W\<close>
  pixels covers the columns from \<open>tile_lo\<close> to \<open>tile_hi\<close>.
\<close>

definition tile_lo :: "int \<Rightarrow> int \<Rightarrow> int" where
  "tile_lo T c = (if c = 0 then 0 else T div 2 + (c - 1) * T)"

definition tile_hi :: "int \<Rightarrow> int \<Rightarrow> int \<Rightarrow> int" where
  "tile_hi W T c = min W (T div 2 + c * T)"

definition span_samples :: "byte list \<Rightarrow> int \<Rightarrow> int \<Rightarrow> int \<Rightarrow> int \<Rightarrow> int \<Rightarrow> byte list" where
  "span_samples src so st W T c = samples src (so + tile_lo T c * st) st (tile_hi W T c - tile_lo T c)"

text \<open>The number of full spans in a line, for a positive tile size of at most twice the width.\<close>

definition full_spans :: "int \<Rightarrow> int \<Rightarrow> int" where
  "full_spans W T = (W - T div 2) div T"

lemma full_spans:
  assumes "0 < T" "T div 2 \<le> W"
  shows "0 \<le> full_spans W T" "T div 2 + full_spans W T * T \<le> W" "W < T div 2 + (full_spans W T + 1) * T"
proof -
  have "full_spans W T * T = W - T div 2 - (W - T div 2) mod T"
    by (simp add: full_spans_def minus_mod_eq_div_mult)
  moreover have "0 \<le> (W - T div 2) mod T" "(W - T div 2) mod T < T" using assms(1) by simp_all
  ultimately show "T div 2 + full_spans W T * T \<le> W" "W < T div 2 + (full_spans W T + 1) * T"
    by (auto simp: int_distrib)
  show "0 \<le> full_spans W T" using assms by (simp add: full_spans_def pos_imp_zdiv_nonneg_iff)
qed

lemma tile_hi_full:
  assumes "0 < T" "T div 2 \<le> W" "0 \<le> c" "c \<le> full_spans W T"
  shows "tile_hi W T c = T div 2 + c * T"
proof -
  have "c * T \<le> full_spans W T * T" using assms by (intro mult_right_mono) auto
  then show ?thesis using full_spans(2) [OF assms(1,2)] by (simp add: tile_hi_def)
qed

lemma tile_bounds:
  assumes "0 < T" "T div 2 \<le> W" "0 \<le> c" "c \<le> full_spans W T + 1"
  shows "0 \<le> tile_lo T c" "tile_lo T c \<le> tile_hi W T c" "tile_hi W T c \<le> W"
proof -
  have a: "0 \<le> T div 2" using assms by simp
  show "tile_hi W T c \<le> W" by (simp add: tile_hi_def)
  show "0 \<le> tile_lo T c" using assms a by (simp add: tile_lo_def)
  have "(c - 1) * T \<le> full_spans W T * T" using assms by (intro mult_right_mono) auto
  then have "T div 2 + (c - 1) * T \<le> W" using full_spans(2) [OF assms(1,2)] by simp
  moreover have "T div 2 + (c - 1) * T \<le> T div 2 + c * T" using assms by (simp add: algebra_simps)
  ultimately show "tile_lo T c \<le> tile_hi W T c" using assms a by (auto simp: tile_lo_def tile_hi_def)
qed

subsection \<open>Lines, blocks and the frame\<close>

lemma readable_sub:
  assumes "readable src so st W" "0 \<le> a" "a + n \<le> W"
  shows "readable src (so + a * st) st n"
  unfolding readable_def
proof (intro allI impI)
  fix k assume "0 \<le> k" "k < n"
  then have "0 \<le> so + (a + k) * st \<and> so + (a + k) * st < ilength src"
    using assms unfolding readable_def by (metis add_less_le_mono add_nonneg_nonneg add_strict_left_mono less_le_trans)
  then show "0 \<le> so + a * st + k * st \<and> so + a * st + k * st < ilength src" by (simp add: int_distrib)
qed

lemma line_ok:
  assumes T: "0 < T" "T div 2 \<le> W" and b: "0 \<le> b" "nat (b + full_spans W T + 2) \<le> length mm div 2"
    and rd: "readable src so st W"
  shows "\<exists>mm'. compute_line_min_max_spans mm (2 * b) src so st (T div 2) (full_spans W T)
       (W - T div 2 - full_spans W T * T) T = Some mm' \<and>
     updated mm mm' b (full_spans W T + 2) (span_samples src so st W T)"
proof -
  let ?F = "full_spans W T" and ?h = "T div 2" and ?S = "span_samples src so st W T"
  have h: "0 \<le> ?h" using T by simp
  note F = full_spans [OF T]
  have bl: "nat b < length mm div 2" "nat (b + 1 + ?F) < length mm div 2"
    using b F(1) by linarith+
  have r0: "readable src so st ?h" using readable_sub [OF rd, of 0 ?h] T h by simp
  obtain mm1 where mm1: "compute_span_min_max mm (2 * b) src so st ?h = Some mm1"
      "updated mm mm1 b 1 (\<lambda>_. samples src so st ?h)"
    using span_ok [OF b(1) bl(1) h r0] by blast
  have l1: "length mm1 = length mm" using mm1(2) by (simp add: updated_def)
  have full: "?h + c * T + T \<le> W" if "c < ?F" for c
  proof -
    have "(c + 1) * T \<le> ?F * T" using that T by (intro mult_right_mono) auto
    then show ?thesis using F(2) by (simp add: int_distrib)
  qed
  have r1: "readable src (so + st * ?h + c * (T * st)) st T" if "0 \<le> c" "c < ?F" for c
    using readable_sub [OF rd, of "?h + c * T" T] full [OF that(2)] that T h by (simp add: algebra_simps)
  have b1: "0 \<le> b + 1" "nat (b + 1 + ?F) \<le> length mm1 div 2" "0 \<le> T" using b bl l1 T by simp_all
  obtain mm2 where mm2: "compute_multiple_spans_min_max mm1 (2 * (b + 1)) src (so + st * ?h) st T ?F = Some mm2"
      "updated mm1 mm2 (b + 1) ?F (\<lambda>c. samples src (so + st * ?h + c * (T * st)) st T)"
    using multiple_spans_ok [OF b1 F(1) r1] by blast
  have l2: "length mm2 = length mm" using mm2(2) l1 by (simp add: updated_def)
  let ?last = "W - ?h - ?F * T"
  have r2: "readable src (so + st * ?h + st * ?F * T) st ?last"
    using readable_sub [OF rd, of "?h + ?F * T" ?last] T h F by (simp add: algebra_simps)
  have b2: "0 \<le> b + 1 + ?F" "nat (b + 1 + ?F) < length mm2 div 2" "0 \<le> ?last" using b bl l2 F by simp_all
  obtain mm3 where mm3: "compute_span_min_max mm2 (2 * (b + 1 + ?F)) src (so + st * ?h + st * ?F * T) st ?last = Some mm3"
      "updated mm2 mm3 (b + 1 + ?F) 1 (\<lambda>_. samples src (so + st * ?h + st * ?F * T) st ?last)"
    using span_ok [OF b2 r2] by blast
  have run: "compute_line_min_max_spans mm (2 * b) src so st ?h ?F ?last T = Some mm3"
    using mm1(1) mm2(1) mm3(1) by (simp add: compute_line_min_max_spans_def Let_def algebra_simps)
  have S0: "?S 0 = samples src so st ?h"
    using T by (simp add: span_samples_def tile_lo_def tile_hi_def min_def)
  have S1: "?S c = samples src (so + st * ?h + (c - 1) * (T * st)) st T" if "1 \<le> c" "c < 1 + ?F" for c
    using that T tile_hi_full [OF T, of c] by (simp add: span_samples_def tile_lo_def algebra_simps)
  have S2: "?S (1 + ?F) = samples src (so + st * ?h + st * ?F * T) st ?last"
    using F T by (simp add: span_samples_def tile_lo_def tile_hi_def algebra_simps min_def)
  have "updated mm mm2 b (1 + ?F) ?S"
  proof (rule updated_trans [OF mm1(2) mm2(2)])
    fix c :: int assume "0 \<le> c" "c < 1"
    then have "c = 0" by simp
    then show "?S c = samples src so st ?h" by (simp only: S0)
  next
    fix c assume "1 \<le> c" "c < 1 + ?F"
    then show "?S c = samples src (so + st * ?h + (c - 1) * (T * st)) st T" by (rule S1)
  qed (use F in auto)
  moreover have "updated mm2 mm3 (b + (1 + ?F)) 1 (\<lambda>_. samples src (so + st * ?h + st * ?F * T) st ?last)"
    using mm3(2) by (simp add: add.assoc)
  ultimately have "updated mm mm3 b (1 + ?F + 1) ?S"
  proof (rule updated_trans)
    fix c assume "1 + ?F \<le> c" "c < 1 + ?F + 1"
    then have "c = 1 + ?F" by simp
    then show "?S c = samples src (so + st * ?h + st * ?F * T) st ?last" by (simp only: S2)
  qed (use F in auto)
  then show ?thesis using run by (intro exI [of _ mm3]) (simp add: add.commute add.left_commute)
qed

lemma block_ok:
  assumes T: "0 < T" "T div 2 \<le> W" and b: "0 \<le> b" "nat (b + full_spans W T + 2) \<le> length mm div 2"
    and n: "0 \<le> n" and rd: "\<And>y. 0 \<le> y \<Longrightarrow> y < n \<Longrightarrow> readable src (so + y * (st * W)) st W"
  shows "\<exists>mm'. compute_block_lines mm (2 * b) src so st (T div 2) (full_spans W T)
       (W - T div 2 - full_spans W T * T) T (st * W) n = Some (so + n * (st * W), mm') \<and>
     updated mm mm' b (full_spans W T + 2)
       (\<lambda>c. concat (map (\<lambda>y. span_samples src (so + int y * (st * W)) st W T c) [0..<nat n]))"
proof -
  let ?F = "full_spans W T"
  let ?S = "\<lambda>n c. concat (map (\<lambda>y. span_samples src (so + int y * (st * W)) st W T c) [0..<nat n])"
  let ?P = "\<lambda>j (s, mm'). s = so + j * (st * W) \<and> updated mm mm' b (?F + 2) (?S j)"
  have "\<exists>s'. compute_block_lines mm (2 * b) src so st (T div 2) ?F (W - T div 2 - ?F * T) T (st * W) n = Some s' \<and> ?P n s'"
    unfolding compute_block_lines_def
  proof (rule repeat_rule [where P = ?P])
    show "?P 0 (so, mm)" by (simp add: updated_def)
  next
    fix j s assume j: "0 \<le> j" "j < n" and P: "?P j s"
    obtain mm1 where s: "s = (so + j * (st * W), mm1)" "updated mm mm1 b (?F + 2) (?S j)" using P by (cases s) auto
    have l: "length mm1 = length mm" using s(2) by (simp add: updated_def)
    obtain mm2 where mm2: "compute_line_min_max_spans mm1 (2 * b) src (so + j * (st * W)) st (T div 2) ?F
         (W - T div 2 - ?F * T) T = Some mm2"
        "updated mm1 mm2 b (?F + 2) (span_samples src (so + j * (st * W)) st W T)"
      using line_ok [OF T b(1) _ rd [OF j], of mm1] b(2) l by auto
    have "updated mm mm2 b (?F + 2) (?S (j + 1))"
      by (rule updated_again [OF s(2) mm2(2)]) (use j in \<open>simp add: nat_add_distrib\<close>)
    then show "\<exists>s'. (\<lambda>(source, mm). do {
        mm \<leftarrow> compute_line_min_max_spans mm (2 * b) src source st (T div 2) ?F (W - T div 2 - ?F * T) T;
        Some (source + st * W, mm) }) s = Some s' \<and> ?P (j + 1) s'"
      using s(1) mm2(1) by (simp add: int_distrib add.commute add.left_commute)
  qed (rule n)
  then show ?thesis by auto
qed

lemma init_ok:
  assumes b: "0 \<le> b" "nat (b + n) \<le> length mm div 2" and n: "0 \<le> n"
  shows "\<exists>mm'. init_min_max mm (2 * b) n = Some mm' \<and> length mm' = length mm \<and>
    (\<forall>i < length mm div 2. pairs mm' ! i = (if b \<le> int i \<and> int i < b + n then (255, 0) else pairs mm ! i))"
proof -
  let ?P = "\<lambda>j (d, mm'). d = 2 * (b + j) \<and> length mm' = length mm \<and>
    (\<forall>i < length mm div 2. pairs mm' ! i = (if b \<le> int i \<and> int i < b + j then (255, 0) else pairs mm ! i))"
  have "\<exists>s'. repeat_times n (\<lambda>(dest, mm). do {
        mm \<leftarrow> wr mm dest 255;
        mm \<leftarrow> wr mm (dest + 1) 0;
        Some (dest + 2, mm) }) (2 * b, mm) = Some s' \<and> ?P n s'"
  proof (rule repeat_rule [where P = ?P])
    fix j s assume j: "0 \<le> j" "j < n" and P: "?P j s"
    obtain mm1 where s: "s = (2 * (b + j), mm1)" "length mm1 = length mm"
        "\<forall>i < length mm div 2. pairs mm1 ! i = (if b \<le> int i \<and> int i < b + j then (255, 0) else pairs mm ! i)"
      using P by (cases s) auto
    have p: "0 \<le> b + j" "nat (b + j) < length mm1 div 2" using b j s(2) by linarith+
    obtain mm2 mm3 where w: "wr mm1 (2 * (b + j)) 255 = Some mm2" "wr mm2 (2 * (b + j) + 1) 0 = Some mm3"
        "length mm3 = length mm1" "pairs mm3 = (pairs mm1)[nat (b + j) := (255, 0)]"
      using wr_pairs [OF p] by blast
    have "pairs mm3 ! i = (if b \<le> int i \<and> int i < b + (j + 1) then (255, 0) else pairs mm ! i)"
      if "i < length mm div 2" for i
      using s(2,3) w(4) p that j by (auto simp: nth_list_update)
    then show "\<exists>s'. (\<lambda>(dest, mm). do {
        mm \<leftarrow> wr mm dest 255;
        mm \<leftarrow> wr mm (dest + 1) 0;
        Some (dest + 2, mm) }) s = Some s' \<and> ?P (j + 1) s'"
      using s(1,2) w(1-3) by (simp add: algebra_simps)
  qed (use n in auto)
  then obtain s' where "repeat_times n (\<lambda>(dest, mm). do {
        mm \<leftarrow> wr mm dest 255;
        mm \<leftarrow> wr mm (dest + 1) 0;
        Some (dest + 2, mm) }) (2 * b, mm) = Some s'" "?P n s'" by blast
  then show ?thesis by (cases s') (auto simp: init_min_max_def)
qed

text \<open>The pixels of the tile in row \<open>r\<close> and column \<open>c\<close> of a \<open>W\<close> by \<open>H\<close> image, in scan order.\<close>

definition tile_pixels :: "byte list \<Rightarrow> int \<Rightarrow> int \<Rightarrow> int \<Rightarrow> int \<Rightarrow> int \<Rightarrow> int \<Rightarrow> byte list" where
  "tile_pixels src st W H T r c =
     concat (map (\<lambda>y. span_samples src (tile_lo T r * (st * W) + int y * (st * W)) st W T c)
       [0..<nat (tile_hi H T r - tile_lo T r)])"

definition tile_min_max :: "byte list \<Rightarrow> int \<Rightarrow> int \<Rightarrow> int \<Rightarrow> int \<Rightarrow> int \<Rightarrow> int \<Rightarrow> byte \<times> byte" where
  "tile_min_max src st W H T r c = fold minmax_update (tile_pixels src st W H T r c) (255, 0)"

definition image_readable :: "byte list \<Rightarrow> int \<Rightarrow> int \<Rightarrow> int \<Rightarrow> bool" where
  "image_readable src st W H \<longleftrightarrow> (\<forall>y. 0 \<le> y \<longrightarrow> y < H \<longrightarrow> readable src (y * (st * W)) st W)"

definition rows_done :: "byte list \<Rightarrow> int \<Rightarrow> int \<Rightarrow> int \<Rightarrow> int \<Rightarrow> int \<Rightarrow> byte list \<Rightarrow> bool" where
  "rows_done src st W H T R mm \<longleftrightarrow> (\<forall>r c. 0 \<le> r \<longrightarrow> r < R \<longrightarrow> 0 \<le> c \<longrightarrow> c < full_spans W T + 2 \<longrightarrow>
     pairs mm ! nat (r * (full_spans W T + 2) + c) = tile_min_max src st W H T r c)"

definition mm_memory :: "int \<Rightarrow> int \<Rightarrow> int \<Rightarrow> byte list \<Rightarrow> bool" where
  "mm_memory W H T mm \<longleftrightarrow> ilength mm = 2 * ((full_spans W T + 2) * (full_spans H T + 2))"

lemma row_index:
  assumes "0 \<le> r" "r < R" "0 \<le> c" "c < (m :: int)"
  shows "r * m + c < R * m" "0 \<le> r * m + c"
proof -
  have m: "0 \<le> m" using assms by simp
  have "r * m + c < (r + 1) * m" using assms by (simp add: int_distrib)
  also have "\<dots> \<le> R * m" using assms m by (intro mult_right_mono) auto
  finally show "r * m + c < R * m" .
  show "0 \<le> r * m + c" using assms m by simp
qed

lemma frame_row_ok:
  assumes T: "0 < T" "T div 2 \<le> W" "T div 2 \<le> H" and mem: "mm_memory W H T mm"
    and rd: "image_readable src st W H" and r: "0 \<le> r" "r < full_spans H T + 2"
    and rows: "rows_done src st W H T r mm"
  shows "\<exists>mm1 mm'. init_min_max mm (2 * (r * (full_spans W T + 2))) (full_spans W T + 2) = Some mm1 \<and>
    compute_block_lines mm1 (2 * (r * (full_spans W T + 2))) src (tile_lo T r * (st * W)) st (T div 2)
      (full_spans W T) (W - T div 2 - full_spans W T * T) T (st * W) (tile_hi H T r - tile_lo T r) =
      Some (tile_hi H T r * (st * W), mm') \<and>
    mm_memory W H T mm' \<and> rows_done src st W H T (r + 1) mm'"
proof -
  let ?m = "full_spans W T + 2" and ?b = "r * (full_spans W T + 2)" and ?n = "tile_hi H T r - tile_lo T r"
  have m: "0 < ?m" using full_spans(1) [OF T(1,2)] by simp
  have b0: "0 \<le> ?b" using r m by simp
  have bl: "?b + ?m \<le> ?m * (full_spans H T + 2)"
  proof -
    have "(r + 1) * ?m \<le> (full_spans H T + 2) * ?m" using r m by (intro mult_right_mono) auto
    then show ?thesis by (simp add: int_distrib algebra_simps)
  qed
  have len: "length mm div 2 = nat (?m * (full_spans H T + 2))" using mem by (simp add: mm_memory_def)
  have b: "nat (?b + ?m) \<le> length mm div 2" using bl by (simp add: len nat_mono)
  obtain mm1 where mm1: "init_min_max mm (2 * ?b) ?m = Some mm1" "length mm1 = length mm"
      "\<forall>i < length mm div 2. pairs mm1 ! i = (if ?b \<le> int i \<and> int i < ?b + ?m then (255, 0) else pairs mm ! i)"
    using init_ok [OF b0 b] m by auto
  have tb: "0 \<le> tile_lo T r" "tile_lo T r \<le> tile_hi H T r" "tile_hi H T r \<le> H"
    using tile_bounds [OF T(1,3) r(1)] r(2) by simp_all
  have rd': "readable src (tile_lo T r * (st * W) + y * (st * W)) st W" if "0 \<le> y" "y < ?n" for y
  proof -
    have "readable src ((tile_lo T r + y) * (st * W)) st W" using rd that tb by (simp add: image_readable_def)
    then show ?thesis by (simp add: int_distrib)
  qed
  have bm: "nat (?b + full_spans W T + 2) \<le> length mm1 div 2" using b mm1(2) by (simp add: add.assoc)
  have n0: "0 \<le> ?n" using tb by simp
  obtain mm2 where mm2: "compute_block_lines mm1 (2 * ?b) src (tile_lo T r * (st * W)) st (T div 2)
      (full_spans W T) (W - T div 2 - full_spans W T * T) T (st * W) ?n =
      Some (tile_lo T r * (st * W) + ?n * (st * W), mm2)"
      "updated mm1 mm2 ?b ?m (tile_pixels src st W H T r)"
    using block_ok [OF T(1,2) b0 bm n0 rd'] unfolding tile_pixels_def [abs_def] by auto
  have l2: "length mm2 = length mm" using mm1(2) mm2(2) by (simp add: updated_def)
  have "rows_done src st W H T (r + 1) mm2"
    unfolding rows_done_def
  proof (intro allI impI)
    fix q c assume q: "0 \<le> q" "q < r + 1" and c: "0 \<le> c" "c < ?m"
    let ?i = "nat (q * ?m + c)"
    have qi: "0 \<le> q * ?m + c" "q * ?m + c < (r + 1) * ?m" using row_index [OF q c] by auto
    have "(r + 1) * ?m = ?b + ?m" by (simp add: int_distrib)
    then have i: "?i < length mm div 2" "int ?i = q * ?m + c" using qi b by linarith+
    show "pairs mm2 ! ?i = tile_min_max src st W H T q c"
    proof (cases "q = r")
      case True
      then show ?thesis using mm1(2,3) mm2(2) i c by (simp add: updated_def tile_min_max_def)
    next
      case False
      then have qr: "q < r" using q by simp
      then have "q * ?m + c < ?b" using row_index(1) [OF q(1) qr c] by simp
      then have "pairs mm2 ! ?i = pairs mm ! ?i" using mm1(2,3) mm2(2) i by (simp add: updated_def)
      then show ?thesis using rows q(1) qr c by (simp add: rows_done_def)
    qed
  qed
  moreover have "mm_memory W H T mm2" using mem l2 by (simp add: mm_memory_def)
  moreover have "tile_lo T r * (st * W) + ?n * (st * W) = tile_hi H T r * (st * W)" by (simp add: int_distrib)
  ultimately show ?thesis using mm1(1) mm2(1) by auto
qed

lemma frame_tiles_ok:
  assumes T: "0 < T" "T div 2 \<le> W" "T div 2 \<le> H" and mem: "mm_memory W H T mm"
    and rd: "image_readable src st W H"
  shows "\<exists>mm'. compute_frame_min_max_tiles mm src st W H T = Some mm' \<and> mm_memory W H T mm' \<and>
    rows_done src st W H T (full_spans H T + 2) mm'"
proof -
  let ?F = "full_spans W T" and ?G = "full_spans H T" and ?m = "full_spans W T + 2"
  let ?l = "W - T div 2 - ?F * T"
  have F: "0 \<le> ?F" "0 \<le> ?G" using full_spans(1) T by auto
  note row = frame_row_ok [OF T _ rd]
  have h0: "tile_lo T 0 = 0" "tile_hi H T 0 = T div 2" using T by (simp_all add: tile_lo_def tile_hi_def min_def)
  obtain a mm1 where mm1: "init_min_max mm 0 ?m = Some a"
      "compute_block_lines a 0 src 0 st (T div 2) ?F ?l T (st * W) (T div 2) = Some (T div 2 * (st * W), mm1)"
      "mm_memory W H T mm1" "rows_done src st W H T 1 mm1"
    using row [OF mem, of 0] F h0 by (auto simp: rows_done_def)
  let ?P = "\<lambda>j (d, so, mm). d = 2 * ((1 + j) * ?m) \<and> so = (T div 2 + j * T) * (st * W) \<and>
    mm_memory W H T mm \<and> rows_done src st W H T (1 + j) mm"
  let ?body = "\<lambda>(dest, source, mm). do {
        mm \<leftarrow> init_min_max mm dest ?m;
        (source, mm) \<leftarrow> compute_block_lines mm dest src source st (T div 2) ?F ?l T (st * W) T;
        Some (dest + 2 * ?m, source, mm) }"
  have "\<exists>s'. repeat_times ?G ?body (2 * ?m, T div 2 * (st * W), mm1) = Some s' \<and> ?P ?G s'"
  proof (rule repeat_rule [where P = ?P])
    show "?P 0 (2 * ?m, T div 2 * (st * W), mm1)" using mm1 by simp
  next
    fix j s assume j: "0 \<le> j" "j < ?G" and P: "?P j s"
    obtain mm2 where s: "s = (2 * ((1 + j) * ?m), (T div 2 + j * T) * (st * W), mm2)"
        "mm_memory W H T mm2" "rows_done src st W H T (1 + j) mm2"
      using P by (cases s) auto
    have lo: "tile_lo T (1 + j) = T div 2 + j * T" using j by (simp add: tile_lo_def)
    have hi: "tile_hi H T (1 + j) = T div 2 + (1 + j) * T" using tile_hi_full [OF T(1,3), of "1 + j"] j by simp
    have d: "tile_hi H T (1 + j) - tile_lo T (1 + j) = T" unfolding lo hi by (simp add: int_distrib)
    obtain b mm3 where "init_min_max mm2 (2 * ((1 + j) * ?m)) ?m = Some b"
        "compute_block_lines b (2 * ((1 + j) * ?m)) src ((T div 2 + j * T) * (st * W)) st (T div 2) ?F ?l T (st * W) T =
          Some ((T div 2 + (1 + j) * T) * (st * W), mm3)"
        "mm_memory W H T mm3" "rows_done src st W H T (1 + j + 1) mm3"
      using row [OF s(2) _ _ s(3)] j unfolding d unfolding lo hi by auto
    then show "\<exists>s'. ?body s = Some s' \<and> ?P (j + 1) s'"
      using s(1) by (simp add: int_distrib add.commute add.left_commute)
  qed (use F in auto)
  then obtain mm2 where mm2: "repeat_times ?G ?body (2 * ?m, T div 2 * (st * W), mm1) =
        Some (2 * ((1 + ?G) * ?m), (T div 2 + ?G * T) * (st * W), mm2)"
      "mm_memory W H T mm2" "rows_done src st W H T (1 + ?G) mm2" by auto
  have lo: "tile_lo T (1 + ?G) = T div 2 + ?G * T" using F by (simp add: tile_lo_def)
  have hi: "tile_hi H T (1 + ?G) = H"
    using full_spans(3) [OF T(1,3)] by (simp add: tile_hi_def min_def add.commute)
  have d: "tile_hi H T (1 + ?G) - tile_lo T (1 + ?G) = H - T div 2 - ?G * T" unfolding lo hi by simp
  obtain c mm3 where mm3: "init_min_max mm2 (2 * ((1 + ?G) * ?m)) ?m = Some c"
      "compute_block_lines c (2 * ((1 + ?G) * ?m)) src ((T div 2 + ?G * T) * (st * W)) st (T div 2) ?F ?l T (st * W)
         (H - T div 2 - ?G * T) = Some (H * (st * W), mm3)"
      "mm_memory W H T mm3" "rows_done src st W H T (1 + ?G + 1) mm3"
    using row [OF mm2(2) _ _ mm2(3)] F unfolding d unfolding lo hi by auto
  have q: "quot T 2 = Some (T div 2)" "quot (W - T div 2) T = Some ?F" "quot (H - T div 2) T = Some ?G"
    using T by (simp_all add: buf_simps full_spans_def)
  have "compute_frame_min_max_tiles mm src st W H T = Some mm3"
    unfolding compute_frame_min_max_tiles_def Let_def q bind.simps
    using mm1(1,2) mm2(1) mm3(1,2) by simp
  moreover have "rows_done src st W H T (?G + 2) mm3" using mm3(4) by (simp add: add.commute)
  ultimately show ?thesis using mm3(3) by blast
qed

end
