(* ===== verification/BernsenCorrect.thy ===== *)
theory BernsenCorrect
  imports BernsenTiles
begin

text \<open>
  \<^verbatim>\<open>tiled_bernsen_threshold.c\<close>: the thresholds of the tiles and the whole thresholder against
  a pixel-wise specification, the memory under which it cannot fault, and what its minima
  and maxima are.
\<close>

subsection \<open>Thresholds\<close>

lemma rd_pair_eq:
  assumes "0 \<le> p" "p < int (length mm div 2)"
  shows "rd_pair mm (2 * p) = Some (pairs mm ! nat p)"
proof -
  have "nat p < length mm div 2" using assms by linarith
  then show ?thesis using rd_pairs [OF assms(1)] by (simp add: rd_pair_def)
qed

lemma row_thresholds_ok:
  assumes a: "0 \<le> a" "a + n < int (length mm div 2)" and b: "0 \<le> b" "b + n < int (length mm div 2)"
    and d: "0 \<le> d" "d + n \<le> ilength th" and n: "0 \<le> n"
  shows "\<exists>th'. compute_row_thresholds th d mm (2 * a) (2 * b) n ct = Some th' \<and> length th' = length th \<and>
    (\<forall>i < length th. th' ! i = (if d \<le> int i \<and> int i < d + n then
       tile_threshold (pairs mm ! nat (a + (int i - d))) (pairs mm ! nat (a + (int i - d) + 1))
         (pairs mm ! nat (b + (int i - d))) (pairs mm ! nat (b + (int i - d) + 1)) ct else th ! i))"
proof -
  let ?v = "\<lambda>c. tile_threshold (pairs mm ! nat (a + c)) (pairs mm ! nat (a + c + 1))
         (pairs mm ! nat (b + c)) (pairs mm ! nat (b + c + 1)) ct"
  let ?P = "\<lambda>j (e, p, q, th'). e = d + j \<and> p = 2 * (a + j) \<and> q = 2 * (b + j) \<and> length th' = length th \<and>
    (\<forall>i < length th. th' ! i = (if d \<le> int i \<and> int i < d + j then ?v (int i - d) else th ! i))"
  let ?body = "\<lambda>(dest, min_max_a, min_max_b, th). do {
        a0 \<leftarrow> rd_pair mm min_max_a;
        a1 \<leftarrow> rd_pair mm (min_max_a + 2);
        b0 \<leftarrow> rd_pair mm min_max_b;
        b1 \<leftarrow> rd_pair mm (min_max_b + 2);
        th \<leftarrow> wr th dest (tile_threshold a0 a1 b0 b1 ct);
        Some (dest + 1, min_max_a + 2, min_max_b + 2, th) }"
  have "\<exists>s'. repeat_times n ?body (d, 2 * a, 2 * b, th) = Some s' \<and> ?P n s'"
  proof (rule repeat_rule [where P = ?P])
    fix j s assume j: "0 \<le> j" "j < n" and P: "?P j s"
    obtain th1 where s: "s = (d + j, 2 * (a + j), 2 * (b + j), th1)" "length th1 = length th"
        "\<forall>i < length th. th1 ! i = (if d \<le> int i \<and> int i < d + j then ?v (int i - d) else th ! i)"
      using P by (cases s) auto
    have r: "rd_pair mm (2 * (a + j)) = Some (pairs mm ! nat (a + j))"
        "rd_pair mm (2 * (a + j) + 2) = Some (pairs mm ! nat (a + j + 1))"
        "rd_pair mm (2 * (b + j)) = Some (pairs mm ! nat (b + j))"
        "rd_pair mm (2 * (b + j) + 2) = Some (pairs mm ! nat (b + j + 1))"
      using rd_pair_eq [of "a + j" mm] rd_pair_eq [of "a + j + 1" mm] rd_pair_eq [of "b + j" mm]
        rd_pair_eq [of "b + j + 1" mm] a b j by (simp_all add: algebra_simps)
    have w: "wr th1 (d + j) (?v j) = Some (th1[nat (d + j) := ?v j])"
      using d j s(2) by (intro wr_eq) auto
    have "th1[nat (d + j) := ?v j] ! i = (if d \<le> int i \<and> int i < d + (j + 1) then ?v (int i - d) else th ! i)"
      if i: "i < length th" for i
    proof (cases "int i = d + j")
      case True
      then have "nat (d + j) = i" by simp
      then show ?thesis using True i s(2) d j by simp
    next
      case False
      then have "nat (d + j) \<noteq> i" using d j by auto
      moreover have "int i < d + (j + 1) \<longleftrightarrow> int i < d + j" using False by linarith
      ultimately show ?thesis using s(2,3) i by simp
    qed
    then show "\<exists>s'. ?body s = Some s' \<and> ?P (j + 1) s'"
      using s(1,2) r w by (simp add: algebra_simps)
  qed (use n in auto)
  then obtain s' where "repeat_times n ?body (d, 2 * a, 2 * b, th) = Some s'" "?P n s'" by blast
  then show ?thesis by (cases s') (auto simp: compute_row_thresholds_def)
qed

text \<open>The threshold of tile \<open>(r, c)\<close>: from the four offset tiles that overlap it.\<close>

definition bernsen_threshold :: "byte list \<Rightarrow> int \<Rightarrow> int \<Rightarrow> int \<Rightarrow> int \<Rightarrow> int \<Rightarrow> int \<Rightarrow> int \<Rightarrow> byte" where
  "bernsen_threshold src st W H T ct r c =
     (let m = tile_min_max src st W H T in tile_threshold (m r c) (m r (c + 1)) (m (r + 1) c) (m (r + 1) (c + 1)) ct)"

definition th_memory :: "int \<Rightarrow> int \<Rightarrow> int \<Rightarrow> byte list \<Rightarrow> bool" where
  "th_memory W H T th \<longleftrightarrow> ilength th = (W div T + 1) * (H div T + 1)"

text \<open>
  The rows and columns of \<open>min_max\<close> suffice for the thresholds when the last tile of the
  image is at least half a tile wide and high.
\<close>

definition tiles_fit :: "int \<Rightarrow> int \<Rightarrow> bool" where
  "tiles_fit W T \<longleftrightarrow> 0 < T \<and> T \<le> W \<and> T div 2 \<le> W mod T"

lemma tiles_fit_spans:
  assumes "tiles_fit W T"
  shows "full_spans W T = W div T" "T div 2 \<le> W" "0 < T" "0 < W div T"
proof -
  have T: "0 < T" "T \<le> W" "T div 2 \<le> W mod T" using assms by (auto simp: tiles_fit_def)
  show "0 < T" "T div 2 \<le> W" using T by auto
  show "0 < W div T" using T by (simp add: pos_imp_zdiv_pos_iff)
  have e: "W - T div 2 = (W mod T - T div 2) + (W div T) * T" by (simp add: algebra_simps)
  have "0 \<le> T div 2" using T by simp
  then have "0 \<le> W mod T - T div 2" "W mod T - T div 2 < T" using T(3) pos_mod_bound [OF T(1), of W] by linarith+
  then have "(W mod T - T div 2) div T = 0" by (rule div_pos_pos_trivial)
  then show "full_spans W T = W div T" unfolding full_spans_def e using T(1) by simp
qed

lemma frame_thresholds_ok:
  assumes fit: "tiles_fit W T" "tiles_fit H T" and mem: "mm_memory W H T mm" "th_memory W H T th"
    and rows: "rows_done src st W H T (full_spans H T + 2) mm"
  shows "\<exists>th'. compute_frame_threshold_tiles th mm W H T ct = Some th' \<and> length th' = length th \<and>
    (\<forall>r c. 0 \<le> r \<longrightarrow> r \<le> H div T \<longrightarrow> 0 \<le> c \<longrightarrow> c \<le> W div T \<longrightarrow>
       th' ! nat (r * (W div T + 1) + c) = bernsen_threshold src st W H T ct r c)"
proof -
  note W = tiles_fit_spans [OF fit(1)] and H = tiles_fit_spans [OF fit(2)]
  let ?tw = "W div T + 1" and ?m = "W div T + 2"
  have len: "int (length mm div 2) = ?m * (H div T + 2)"
    using mem(1) W H by (simp add: mm_memory_def zdiv_int)
  let ?P = "\<lambda>j (d, p, th'). d = j * ?tw \<and> p = 2 * (j * ?m) \<and> length th' = length th \<and>
    (\<forall>r c. 0 \<le> r \<longrightarrow> r < j \<longrightarrow> 0 \<le> c \<longrightarrow> c \<le> W div T \<longrightarrow>
       th' ! nat (r * ?tw + c) = bernsen_threshold src st W H T ct r c)"
  let ?body = "\<lambda>(dest, p, th). do {
        th \<leftarrow> compute_row_thresholds th dest mm p (p + ?m * 2) ?tw ct;
        Some (dest + ?tw, p + ?m * 2, th) }"
  have "\<exists>s'. repeat_times (H div T + 1) ?body (0, 0, th) = Some s' \<and> ?P (H div T + 1) s'"
  proof (rule repeat_rule [where P = ?P])
    fix j s assume j: "0 \<le> j" "j < H div T + 1" and P: "?P j s"
    obtain th1 where s: "s = (j * ?tw, 2 * (j * ?m), th1)" "length th1 = length th"
        "\<forall>r c. 0 \<le> r \<longrightarrow> r < j \<longrightarrow> 0 \<le> c \<longrightarrow> c \<le> W div T \<longrightarrow>
           th1 ! nat (r * ?tw + c) = bernsen_threshold src st W H T ct r c"
      using P by (cases s) auto
    have jm: "(j + 1) * ?m \<le> (H div T + 1) * ?m" "0 \<le> j * ?m" using j W by (auto intro!: mult_right_mono)
    have jt: "(j + 1) * ?tw \<le> (H div T + 1) * ?tw" "0 \<le> j * ?tw" using j W by (auto intro!: mult_right_mono)
    have b1: "j * ?m + ?tw < int (length mm div 2)" "(j + 1) * ?m + ?tw < int (length mm div 2)"
      using jm W(4) unfolding len by (simp_all add: int_distrib algebra_simps)
    have b2: "j * ?tw + ?tw \<le> ilength th1" using jt mem(2) s(2) by (simp add: th_memory_def algebra_simps)
    obtain th2 where th2: "compute_row_thresholds th1 (j * ?tw) mm (2 * (j * ?m)) (2 * ((j + 1) * ?m)) ?tw ct = Some th2"
        "length th2 = length th1"
        "\<forall>i < length th1. th2 ! i = (if j * ?tw \<le> int i \<and> int i < j * ?tw + ?tw then
           tile_threshold (pairs mm ! nat (j * ?m + (int i - j * ?tw))) (pairs mm ! nat (j * ?m + (int i - j * ?tw) + 1))
             (pairs mm ! nat ((j + 1) * ?m + (int i - j * ?tw))) (pairs mm ! nat ((j + 1) * ?m + (int i - j * ?tw) + 1)) ct
           else th1 ! i)"
      using row_thresholds_ok [of "j * ?m" ?tw mm "(j + 1) * ?m" "j * ?tw" th1 ct] b1 b2 jm jt W j by auto
    have "th2 ! nat (r * ?tw + c) = bernsen_threshold src st W H T ct r c"
      if r: "0 \<le> r" "r < j + 1" and c: "0 \<le> c" "c \<le> W div T" for r c
    proof -
      have i: "0 \<le> r * ?tw + c" "r * ?tw + c < (j + 1) * ?tw" using row_index [OF r, of c ?tw] c by auto
      have il: "nat (r * ?tw + c) < length th1"
        using i b2 by (simp add: int_distrib nat_less_iff)
      show ?thesis
      proof (cases "r = j")
        case True
        have M: "pairs mm ! nat (q * ?m + e) = tile_min_max src st W H T q e"
          if "0 \<le> q" "q < H div T + 2" "0 \<le> e" "e < ?m" for q e
          using rows that W H by (simp add: rows_done_def)
        have "th2 ! nat (r * ?tw + c) = tile_threshold (pairs mm ! nat (j * ?m + c)) (pairs mm ! nat (j * ?m + (c + 1)))
             (pairs mm ! nat ((j + 1) * ?m + c)) (pairs mm ! nat ((j + 1) * ?m + (c + 1))) ct"
          using th2(3) il i True c by (simp add: int_distrib add.assoc)
        also have "\<dots> = bernsen_threshold src st W H T ct r c"
          using M [of j c] M [of j "c + 1"] M [of "j + 1" c] M [of "j + 1" "c + 1"] True j c
          by (simp add: bernsen_threshold_def Let_def)
        finally show ?thesis .
      next
        case False
        then have rj: "r < j" using r by simp
        have "r * ?tw + c < j * ?tw" using row_index(1) [OF r(1) rj, of c ?tw] c by simp
        then have "th2 ! nat (r * ?tw + c) = th1 ! nat (r * ?tw + c)" using th2(3) il i by auto
        then show ?thesis using s(3) r(1) rj c by simp
      qed
    qed
    then show "\<exists>s'. ?body s = Some s' \<and> ?P (j + 1) s'"
      using s(1,2) th2(1,2) by (simp add: int_distrib algebra_simps)
  qed (use H in auto)
  then obtain s' where s': "repeat_times (H div T + 1) ?body (0, 0, th) = Some s'" "?P (H div T + 1) s'" by blast
  have q: "quot T 2 = Some (T div 2)" "quot (W - T div 2) T = Some (W div T)" "quot W T = Some (W div T)"
      "quot H T = Some (H div T)"
    using W H by (simp_all add: buf_simps full_spans_def [symmetric])
  have "compute_frame_threshold_tiles th mm W H T ct = Some (snd (snd s'))"
    unfolding compute_frame_threshold_tiles_def Let_def q bind.simps
    using s'(1) by (cases s') simp
  then show ?thesis using s'(2) by (cases s') auto
qed

subsection \<open>Applying the thresholds\<close>

text \<open>The output at index \<open>i\<close> for tile thresholds \<open>th\<close>, and a destination that is right up to \<open>D\<close>.\<close>

definition applied :: "byte list \<Rightarrow> int \<Rightarrow> int \<Rightarrow> int \<Rightarrow> byte list \<Rightarrow> int \<Rightarrow> byte" where
  "applied src st W T th i =
     (if src ! nat (i * st) > th ! nat ((i div W) div T * (W div T + 1) + (i mod W) div T) then WHITE else BLACK)"

definition done_to :: "byte list \<Rightarrow> int \<Rightarrow> int \<Rightarrow> int \<Rightarrow> byte list \<Rightarrow> byte list \<Rightarrow> int \<Rightarrow> byte list \<Rightarrow> bool" where
  "done_to src st W T th dst D dst' \<longleftrightarrow> length dst' = length dst \<and>
     (\<forall>i. 0 \<le> i \<longrightarrow> i < D \<longrightarrow> dst' ! nat i = applied src st W T th i)"

lemma done_to_Suc:
  assumes "done_to src st W T th dst D dst'" "0 \<le> D" "D < ilength dst" "v = applied src st W T th D"
  shows "wr dst' D v = Some (dst'[nat D := v])" "done_to src st W T th dst (D + 1) (dst'[nat D := v])"
proof -
  have l: "length dst' = length dst" using assms(1) by (simp add: done_to_def)
  then show "wr dst' D v = Some (dst'[nat D := v])" using assms(2,3) by (intro wr_eq) auto
  have "dst'[nat D := v] ! nat i = applied src st W T th i" if "0 \<le> i" "i < D + 1" for i
    using assms that l by (cases "i = D") (auto simp: done_to_def nth_list_update)
  then show "done_to src st W T th dst (D + 1) (dst'[nat D := v])" using l by (simp add: done_to_def)
qed

lemma image_read:
  assumes "image_readable src st W H" "0 \<le> y" "y < H" "0 \<le> x" "x < W"
  shows "rd src ((y * W + x) * st) = Some (src ! nat ((y * W + x) * st))"
proof -
  have "0 \<le> y * (st * W) + x * st \<and> y * (st * W) + x * st < ilength src"
    using assms unfolding image_readable_def readable_def by blast
  moreover have "y * (st * W) + x * st = (y * W + x) * st" by (simp add: algebra_simps)
  ultimately show ?thesis by (intro rd_eq) auto
qed

text \<open>The innermost loop: the pixels of one line in one tile.\<close>

lemma apply_span_ok:
  assumes T: "0 < T" and rd: "image_readable src st W H" and y: "0 \<le> y" "y < H"
    and m: "0 \<le> m" "m * T < W" and dst: "ilength dst = W * H"
    and D: "done_to src st W T th dst (y * W + m * T) d0"
  defines "w \<equiv> (if m * T + T > W then W - m * T else T)"
    and "tt \<equiv> th ! nat (y div T * (W div T + 1) + m)"
  shows "\<exists>d1. repeat_times w (\<lambda>(dest, source, dst). do {
       v \<leftarrow> rd src source;
       dst \<leftarrow> wr dst dest (if v > tt then WHITE else BLACK);
       Some (dest + 1, source + st, dst) }) (y * W + m * T, (y * W + m * T) * st, d0) =
     Some (y * W + min W ((m + 1) * T), (y * W + min W ((m + 1) * T)) * st, d1) \<and>
     done_to src st W T th dst (y * W + min W ((m + 1) * T)) d1"
proof -
  let ?B = "y * W + m * T"
  let ?body = "\<lambda>(dest, source, dst). do {
       v \<leftarrow> rd src source;
       dst \<leftarrow> wr dst dest (if v > tt then WHITE else BLACK);
       Some (dest + 1, source + st, dst) }"
  let ?P = "\<lambda>j (d, so, d1). d = ?B + j \<and> so = (?B + j) * st \<and> done_to src st W T th dst (?B + j) d1"
  have wT: "w \<le> T" "m * T + w \<le> W" "0 \<le> w" using m T by (auto simp: w_def)
  have mT: "0 \<le> m * T" using m T by simp
  have "\<exists>s'. repeat_times w ?body (?B, ?B * st, d0) = Some s' \<and> ?P w s'"
  proof (rule repeat_rule [where P = ?P])
    fix j s assume j: "0 \<le> j" "j < w" and P: "?P j s"
    obtain d1 where s: "s = (?B + j, (?B + j) * st, d1)" "done_to src st W T th dst (?B + j) d1"
      using P by (cases s) auto
    let ?x = "m * T + j"
    have x: "0 \<le> ?x" "?x < W" using j wT mT by auto
    have i: "?B + j = y * W + ?x" by simp
    have "(?B + j) div W = y" "(?B + j) mod W = ?x" unfolding i using x by simp_all
    moreover have "?x div T = m" using T j wT(1) by (simp add: div_pos_pos_trivial)
    ultimately have v: "applied src st W T th (?B + j) = (if src ! nat ((?B + j) * st) > tt then WHITE else BLACK)"
      by (simp add: applied_def tt_def)
    have r: "rd src ((?B + j) * st) = Some (src ! nat ((?B + j) * st))"
      unfolding i by (rule image_read [OF rd y x])
    have b: "0 \<le> ?B + j" "?B + j < ilength dst" unfolding i dst using row_index [OF y x] by (simp_all add: mult.commute)
    note w = done_to_Suc [OF s(2) b v [symmetric]]
    show "\<exists>s'. ?body s = Some s' \<and> ?P (j + 1) s'"
      unfolding s(1) using r w by (simp add: int_distrib add.assoc)
  qed (use wT D in auto)
  moreover have "?B + w = y * W + min W ((m + 1) * T)" by (simp add: w_def min_def int_distrib)
  ultimately show ?thesis by auto
qed

text \<open>One line.\<close>

lemma apply_line_ok:
  assumes T: "0 < T" and W: "0 < W" and rd: "image_readable src st W H" and y: "0 \<le> y" "y < H"
    and th: "th_memory W H T th" and dst: "ilength dst = W * H"
    and D: "done_to src st W T th dst (y * W) d0"
  shows "\<exists>t d1. for_step 0 W T (\<lambda>m (t, dest, source, dst). do {
       tt \<leftarrow> rd th t;
       let tile_width = (if m + T > W then W - m else T);
       (dest, source, dst) \<leftarrow> repeat_times tile_width (\<lambda>(dest, source, dst). do {
          v \<leftarrow> rd src source;
          dst \<leftarrow> wr dst dest (if v > tt then WHITE else BLACK);
          Some (dest + 1, source + st, dst) }) (dest, source, dst);
       Some (t + 1, dest, source, dst) }) (y div T * (W div T + 1), y * W, y * W * st, d0) =
     Some (t, (y + 1) * W, (y + 1) * W * st, d1) \<and> done_to src st W T th dst ((y + 1) * W) d1"
    (is "\<exists>t d1. for_step 0 W T ?body ?s0 = _ \<and> _")
proof -
  let ?x = "\<lambda>k. y * W + min W (k * T)"
  let ?P = "\<lambda>k (t, d, so, d1). t = y div T * (W div T + 1) + k \<and> d = ?x k \<and> so = ?x k * st \<and>
    done_to src st W T th dst (?x k) d1"
  have "\<exists>s'. for_step 0 W T ?body ?s0 = Some s' \<and> ?P ((W - 0 + T - 1) div T) s'"
  proof (rule for_step_rule [where P = ?P])
    fix k s assume k: "0 \<le> k" "0 + k * T < W" and P: "?P k s"
    have kT: "min W (k * T) = k * T" using k by simp
    obtain d1 where s: "s = (y div T * (W div T + 1) + k, y * W + k * T, (y * W + k * T) * st, d1)"
        "done_to src st W T th dst (y * W + k * T) d1"
      using P unfolding kT by (cases s) auto
    have kW: "k < W div T + 1"
    proof -
      have "k * T div T \<le> W div T" using k T by (intro zdiv_mono1) auto
      then show ?thesis using T by simp
    qed
    have yH: "y div T < H div T + 1" using zdiv_mono1 [of y H T] y T by simp
    have ti: "0 \<le> y div T * (W div T + 1) + k" "y div T * (W div T + 1) + k < ilength th"
    proof -
      have y0: "0 \<le> y div T" using y T by (simp add: pos_imp_zdiv_nonneg_iff)
      show "0 \<le> y div T * (W div T + 1) + k" "y div T * (W div T + 1) + k < ilength th"
        using row_index [OF y0 yH k(1) kW] th by (simp_all add: th_memory_def mult.commute)
    qed
    note r = rd_eq [OF ti]
    obtain d2 where d2: "repeat_times (if k * T + T > W then W - k * T else T) (\<lambda>(dest, source, dst). do {
          v \<leftarrow> rd src source;
          dst \<leftarrow> wr dst dest (if v > th ! nat (y div T * (W div T + 1) + k) then WHITE else BLACK);
          Some (dest + 1, source + st, dst) }) (y * W + k * T, (y * W + k * T) * st, d1) =
        Some (?x (k + 1), ?x (k + 1) * st, d2)" "done_to src st W T th dst (?x (k + 1)) d2"
      using apply_span_ok [OF T rd y k(1) _ dst s(2)] k by auto
    show "\<exists>s'. ?body (0 + k * T) s = Some s' \<and> ?P (k + 1) s'"
      unfolding s(1) add_0 using r d2 by (simp add: Let_def add.assoc split del: if_split)
  qed (use T W D in \<open>simp_all\<close>)
  then obtain t d so d1 where s': "for_step 0 W T ?body ?s0 = Some (t, d, so, d1)" "?P ((W - 0 + T - 1) div T) (t, d, so, d1)"
    by auto
  have "W \<le> (W + T - 1) div T * T"
    using div_mult_mod_eq [of "W + T - 1" T] pos_mod_bound [OF T, of "W + T - 1"] by linarith
  then have "?x ((W - 0 + T - 1) div T) = (y + 1) * W" by (simp add: int_distrib)
  then show ?thesis using s' by auto
qed

lemma apply_ok:
  assumes T: "0 < T" and WH: "0 < W" "0 < H" and rd: "image_readable src st W H"
    and th: "th_memory W H T th" and dst: "ilength dst = W * H"
  shows "\<exists>d. apply_frame_thresholds dst src st th W H T = Some d \<and> done_to src st W T th dst (W * H) d"
proof -
  let ?line = "\<lambda>m (t, dest, source, dst). do {
       tt \<leftarrow> rd th t;
       let tile_width = (if m + T > W then W - m else T);
       (dest, source, dst) \<leftarrow> repeat_times tile_width (\<lambda>(dest, source, dst). do {
          v \<leftarrow> rd src source;
          dst \<leftarrow> wr dst dest (if v > tt then WHITE else BLACK);
          Some (dest + 1, source + st, dst) }) (dest, source, dst);
       Some (t + 1, dest, source, dst) }"
  let ?body = "\<lambda>j (dest, source, threshold, dst). do {
        let tile_height = (if j + T > H then H - j else T);
        (dest, source, dst) \<leftarrow> for_range 0 tile_height (\<lambda>k (dest, source, dst). do {
           let t = threshold;
           (t, dest, source, dst) \<leftarrow> for_step 0 W T ?line (t, dest, source, dst);
           Some (dest, source, dst) }) (dest, source, dst);
        Some (dest, source, threshold + (W div T + 1), dst) }"
  let ?y = "\<lambda>k. min H (k * T)"
  let ?P = "\<lambda>k (d, so, t, d1). d = ?y k * W \<and> so = ?y k * W * st \<and> t = k * (W div T + 1) \<and>
    done_to src st W T th dst (?y k * W) d1"
  have "\<exists>s'. for_step 0 H T ?body (0, 0, 0, dst) = Some s' \<and> ?P ((H - 0 + T - 1) div T) s'"
  proof (rule for_step_rule [where P = ?P])
    show "?P 0 (0, 0, 0, dst)" using WH by (simp add: done_to_def)
  next
    fix k s assume k: "0 \<le> k" "0 + k * T < H" and P: "?P k s"
    have kT: "min H (k * T) = k * T" using k by simp
    obtain d1 where s: "s = (k * T * W, k * T * W * st, k * (W div T + 1), d1)"
        "done_to src st W T th dst (k * T * W) d1"
      using P unfolding kT by (cases s) auto
    let ?h = "if k * T + T > H then H - k * T else T"
    have h: "0 \<le> ?h" "?h \<le> T" "k * T + ?h = ?y (k + 1)" using k T by (auto simp: min_def int_distrib)
    let ?Q = "\<lambda>j (d, so, d2). d = (k * T + j) * W \<and> so = (k * T + j) * W * st \<and>
      done_to src st W T th dst ((k * T + j) * W) d2"
    have "\<exists>s'. for_range 0 ?h (\<lambda>j (dest, source, dst). do {
           let t = k * (W div T + 1);
           (t, dest, source, dst) \<leftarrow> for_step 0 W T ?line (t, dest, source, dst);
           Some (dest, source, dst) }) (k * T * W, k * T * W * st, d1) = Some s' \<and> ?Q ?h s'"
    proof (rule for_range_rule [where P = ?Q])
      fix j u assume j: "0 \<le> j" "j < ?h" and Q: "?Q j u"
      obtain d2 where u: "u = ((k * T + j) * W, (k * T + j) * W * st, d2)"
          "done_to src st W T th dst ((k * T + j) * W) d2"
        using Q by (cases u) auto
      have y: "0 \<le> k * T + j" "k * T + j < H" using j k T by (auto split: if_split_asm)
      have yT: "(k * T + j) div T = k" using j(2) h(2) j(1) T by (simp add: div_pos_pos_trivial)
      obtain t d3 where "for_step 0 W T ?line (k * (W div T + 1), (k * T + j) * W, (k * T + j) * W * st, d2) =
          Some (t, (k * T + j + 1) * W, (k * T + j + 1) * W * st, d3)"
          "done_to src st W T th dst ((k * T + j + 1) * W) d3"
        using apply_line_ok [OF T WH(1) rd y th dst u(2)] unfolding yT by blast
      then show "\<exists>s'. (\<lambda>j (dest, source, dst). do {
           let t = k * (W div T + 1);
           (t, dest, source, dst) \<leftarrow> for_step 0 W T ?line (t, dest, source, dst);
           Some (dest, source, dst) }) j u = Some s' \<and> ?Q (j + 1) s'"
        unfolding u(1) by (simp add: Let_def add.assoc)
    qed (use s(2) h in auto)
    then obtain d2 where "for_range 0 ?h (\<lambda>j (dest, source, dst). do {
           let t = k * (W div T + 1);
           (t, dest, source, dst) \<leftarrow> for_step 0 W T ?line (t, dest, source, dst);
           Some (dest, source, dst) }) (k * T * W, k * T * W * st, d1) =
         Some (?y (k + 1) * W, ?y (k + 1) * W * st, d2)" "done_to src st W T th dst (?y (k + 1) * W) d2"
      unfolding h(3) by auto
    then show "\<exists>s'. ?body (0 + k * T) s = Some s' \<and> ?P (k + 1) s'"
      unfolding s(1) add_0 by (simp add: Let_def int_distrib split del: if_split)
  qed (use T WH in auto)
  then obtain d so t d1 where s': "for_step 0 H T ?body (0, 0, 0, dst) = Some (d, so, t, d1)"
      "?P ((H - 0 + T - 1) div T) (d, so, t, d1)" by auto
  have "H \<le> (H + T - 1) div T * T"
    using div_mult_mod_eq [of "H + T - 1" T] pos_mod_bound [OF T, of "H + T - 1"] by linarith
  then have "?y ((H - 0 + T - 1) div T) * W = W * H" by simp
  moreover have "quot W T = Some (W div T)" using T WH by (simp add: buf_simps)
  then have "apply_frame_thresholds dst src st th W H T = Some d1"
    using s'(1) by (simp add: apply_frame_thresholds_def)
  ultimately show ?thesis using s'(2) by (auto simp: mult.commute [of H W])
qed

subsection \<open>Minima and maxima\<close>

text \<open>
  A sample below all earlier ones only lowers the minimum, it is not compared with the
  maximum. The samples that are:
\<close>

fun compared :: "byte \<Rightarrow> byte list \<Rightarrow> byte list" where
  "compared mn [] = []"
| "compared mn (x # xs) = (if x < mn then compared x xs else x # compared mn xs)"

lemma fold_minmax:
  "fold minmax_update xs (mn, mx) = (Min (insert mn (set xs)), Max (insert mx (set (compared mn xs))))"
proof (induction xs arbitrary: mn mx)
  case (Cons x xs)
  show ?case
  proof (cases "x < mn")
    case True
    have le: "Min (insert x (set xs)) \<le> x" by simp
    have "Min (insert mn (insert x (set xs))) = min mn (Min (insert x (set xs)))" by (rule Min_insert) auto
    also have "\<dots> = Min (insert x (set xs))" using True by (intro min_absorb2 order_trans [OF le]) simp
    finally have "Min (insert mn (set (x # xs))) = Min (insert x (set xs))" by simp
    then show ?thesis using True Cons.IH [of x mx] by simp
  next
    case False
    have le: "Min (insert mn (set xs)) \<le> mn" by simp
    have "Min (insert x (insert mn (set xs))) = min x (Min (insert mn (set xs)))" by (rule Min_insert) auto
    also have "\<dots> = Min (insert mn (set xs))" using False by (intro min_absorb2 order_trans [OF le]) simp
    finally have "Min (insert mn (set (x # xs))) = Min (insert mn (set xs))" by (simp add: insert_commute)
    moreover have "minmax_update x (mn, mx) = (mn, max x mx)" using False by (auto simp: max_def)
    moreover have "Max (insert (max x mx) (set (compared mn xs))) = Max (insert mx (set (compared mn (x # xs))))"
      using False by (cases "compared mn xs = []") (simp_all add: max.assoc max.left_commute max.commute)
    ultimately show ?thesis using Cons.IH [of mn "max x mx"] by simp
  qed
qed simp

lemma compared_subset: "set (compared mn xs) \<subseteq> set xs"
  by (induction xs arbitrary: mn) auto

lemma compared_max:
  assumes "v \<in> set xs" "mn \<le> v" "\<And>x. x \<in> set xs \<Longrightarrow> x \<le> v"
  shows "v \<in> set (compared mn xs)"
  using assms by (induction xs arbitrary: mn) auto

lemma byte_top: "v \<le> (255 :: byte)"
proof -
  have "(255 :: byte) = - 1" by simp
  then show ?thesis using word_n1_ge [of v] by metis
qed

text \<open>The extremes of a fresh tile with the pixels \<open>xs\<close>.\<close>

lemma fresh_extremes:
  assumes "xs \<noteq> []"
  shows "fst (fold minmax_update xs (255, 0)) = Min (set xs)"
    and "Max (set xs) \<in> set (tl xs) \<or> hd xs = 255 \<Longrightarrow> snd (fold minmax_update xs (255, 0)) = Max (set xs)"
proof -
  note top = byte_top
  have "insert 255 (set xs) = set xs \<union> {255}" by simp
  then have "Min (insert 255 (set xs)) = min 255 (Min (set xs))" using assms by simp
  also have "\<dots> = Min (set xs)" using top by (simp add: min_def dual_order.antisym)
  finally show "fst (fold minmax_update xs (255, 0)) = Min (set xs)" by (simp add: fold_minmax)
  assume a: "Max (set xs) \<in> set (tl xs) \<or> hd xs = 255"
  let ?M = "Max (set xs)"
  obtain x ys where xs: "xs = x # ys" using assms by (cases xs) auto
  have le: "z \<le> ?M" if "z \<in> set xs" for z using that by simp
  have "?M \<in> set (compared 255 xs)"
  proof (cases "x < 255")
    case True
    then have "?M \<in> set ys" using a xs by auto
    moreover have "x \<le> ?M" using le xs by simp
    ultimately have "?M \<in> set (compared x ys)" using le xs by (intro compared_max) auto
    then show ?thesis using True xs by simp
  next
    case False
    then have "x = 255" using top [of x] by simp
    moreover from this have "?M = 255" using le [of x] xs top [of ?M] by (simp add: antisym)
    ultimately show ?thesis using xs by simp
  qed
  then have "Max (insert 0 (set (compared 255 xs))) = ?M"
    using compared_subset [of 255 xs] le by (intro Max_eqI) auto
  then show "snd (fold minmax_update xs (255, 0)) = ?M" by (simp add: fold_minmax)
qed

lemma fresh_decreasing:
  assumes "sorted_wrt (\<lambda>a b. b < a) (255 # xs)"
  shows "snd (fold minmax_update xs (255, 0)) = 0"
proof -
  have "compared mn xs = []" if "sorted_wrt (\<lambda>a b. b < a) (mn # xs)" for mn
    using that by (induction xs arbitrary: mn) auto
  then show ?thesis using assms by (simp add: fold_minmax)
qed

subsection \<open>The whole thresholder\<close>

lemma thresholder_memory:
  assumes "initialize_tiled_bernsen_thresholder malloc W H T = Some t" "\<And>n. 0 \<le> n \<Longrightarrow> ilength (malloc n) = n"
    and "0 < T" "T \<le> W" "T \<le> H"
  shows "mm_memory W H T (min_max t)" "th_memory W H T (threshold t)"
proof -
  have h: "0 \<le> T div 2" "T div 2 \<le> T" using assms(3) by simp_all
  then have TW: "T div 2 \<le> W" "T div 2 \<le> H" using assms(4,5) by linarith+
  have F: "0 \<le> full_spans W T" "0 \<le> full_spans H T" using full_spans(1) assms(3) TW by auto
  have "min_max_size W H T = 2 * ((full_spans W T + 2) * (full_spans H T + 2))"
    using assms(3-5) TW by (simp add: min_max_size_def full_spans_def)
  then show "mm_memory W H T (min_max t)"
    using assms(1,2,3) F unfolding initialize_tiled_bernsen_thresholder_def mm_memory_def by auto
  have "threshold_size W H T = (W div T + 1) * (H div T + 1)" "0 \<le> W div T" "0 \<le> H div T"
    using assms(3-5) by (simp_all add: threshold_size_def pos_imp_zdiv_nonneg_iff)
  then show "th_memory W H T (threshold t)"
    using assms(1,2,3) unfolding initialize_tiled_bernsen_thresholder_def th_memory_def by auto
qed

lemma tiled_bernsen_ok:
  assumes fit: "tiles_fit W T" "tiles_fit H T" and mem: "mm_memory W H T (min_max t)" "th_memory W H T (threshold t)"
    and rd: "image_readable src st W H" and dst: "ilength dst = W * H"
  shows "\<exists>t' d. tiled_bernsen_threshold t dst src st W H T ct = Some (t', d) \<and> length d = length dst \<and>
    (\<forall>x y. 0 \<le> x \<longrightarrow> x < W \<longrightarrow> 0 \<le> y \<longrightarrow> y < H \<longrightarrow> d ! nat (y * W + x) =
      (if src ! nat ((y * W + x) * st) > bernsen_threshold src st W H T ct (y div T) (x div T) then WHITE else BLACK))"
proof -
  note W = tiles_fit_spans [OF fit(1)] and H = tiles_fit_spans [OF fit(2)]
  have WH: "0 < W" "0 < H" "0 < T" using fit by (auto simp: tiles_fit_def)
  obtain mm where mm: "compute_frame_min_max_tiles (min_max t) src st W H T = Some mm" "mm_memory W H T mm"
      "rows_done src st W H T (full_spans H T + 2) mm"
    using frame_tiles_ok [OF W(3,2) H(2) mem(1) rd] by blast
  obtain th where th: "compute_frame_threshold_tiles (threshold t) mm W H T ct = Some th" "length th = length (threshold t)"
      "\<forall>r c. 0 \<le> r \<longrightarrow> r \<le> H div T \<longrightarrow> 0 \<le> c \<longrightarrow> c \<le> W div T \<longrightarrow>
       th ! nat (r * (W div T + 1) + c) = bernsen_threshold src st W H T ct r c"
    using frame_thresholds_ok [OF fit mm(2) mem(2) mm(3)] by blast
  have thmem: "th_memory W H T th" using mem(2) th(2) by (simp add: th_memory_def)
  obtain d where d: "apply_frame_thresholds dst src st th W H T = Some d" "done_to src st W T th dst (W * H) d"
    using apply_ok [OF WH(3,1,2) rd thmem dst] by blast
  have "d ! nat (y * W + x) =
      (if src ! nat ((y * W + x) * st) > bernsen_threshold src st W H T ct (y div T) (x div T) then WHITE else BLACK)"
    if "0 \<le> x" "x < W" "0 \<le> y" "y < H" for x y
  proof -
    have "d ! nat (y * W + x) = applied src st W T th (y * W + x)"
      using d(2) row_index [OF that(3,4,1,2)] by (simp add: done_to_def mult.commute)
    moreover have "(y * W + x) div W = y" "(y * W + x) mod W = x" using that by simp_all
    moreover have "0 \<le> y div T" "y div T \<le> H div T" "0 \<le> x div T" "x div T \<le> W div T"
      using that WH(3) by (auto simp: pos_imp_zdiv_nonneg_iff intro: zdiv_mono1)
    ultimately show ?thesis using th(3) by (simp add: applied_def)
  qed
  then show ?thesis using mm(1) th(1) d by (auto simp: tiled_bernsen_threshold_def done_to_def)
qed

text \<open>Every function of the minima and maxima keeps the length of the buffer.\<close>

lemma loop_keeps:
  assumes "P s" "loop i n body s = Some s'" "\<And>j s s'. P s \<Longrightarrow> body j s = Some s' \<Longrightarrow> P s'"
  shows "P s'"
  using assms(1,2)
proof (induction n arbitrary: i s)
  case (Suc n)
  then obtain y where "body i s = Some y" "loop (i + 1) n body y = Some s'"
    by (auto simp: Option.bind_eq_Some_conv)
  then show ?case using Suc.IH assms(3) Suc.prems(1) by blast
qed simp

lemma repeat_keeps:
  assumes "repeat_times n body s = Some s'" "P s" "\<And>s s'. P s \<Longrightarrow> body s = Some s' \<Longrightarrow> P s'"
  shows "P s'"
  using loop_keeps [of P s 0 "nat n" "\<lambda>_. body" s'] assms by (auto simp: repeat_times_def)

lemma init_min_max_length: "init_min_max mm d n = Some mm' \<Longrightarrow> length mm' = length mm"
  unfolding init_min_max_def
  by (auto simp: Option.bind_eq_Some_conv wr_Some_iff
      dest!: repeat_keeps [where P = "\<lambda>(d, m). length m = length mm"])

lemma span_length: "compute_span_min_max mm d src p st n = Some mm' \<Longrightarrow> length mm' = length mm"
  unfolding compute_span_min_max_def by (auto simp: Option.bind_eq_Some_conv wr_Some_iff)

lemma multiple_spans_length:
  "compute_multiple_spans_min_max mm d src p st v n = Some mm' \<Longrightarrow> length mm' = length mm"
  unfolding compute_multiple_spans_min_max_def Let_def
  by (auto simp: Option.bind_eq_Some_conv span_length
      dest!: repeat_keeps [where P = "\<lambda>(d, p, m). length m = length mm"])

lemma line_length:
  "compute_line_min_max_spans mm d src p st f n l T = Some mm' \<Longrightarrow> length mm' = length mm"
  unfolding compute_line_min_max_spans_def Let_def
  by (auto simp: Option.bind_eq_Some_conv dest!: span_length multiple_spans_length)

lemma block_length:
  "compute_block_lines mm d src p st f n l T inc k = Some (p', mm') \<Longrightarrow> length mm' = length mm"
  unfolding compute_block_lines_def
  by (drule repeat_keeps [where P = "\<lambda>(p, m). length m = length mm"])
    (auto simp: Option.bind_eq_Some_conv dest!: line_length)

lemma frame_tiles_length:
  "compute_frame_min_max_tiles mm src st W H T = Some mm' \<Longrightarrow> length mm' = length mm"
  unfolding compute_frame_min_max_tiles_def Let_def
  apply (clarsimp simp: Option.bind_eq_Some_conv)
  apply (drule repeat_keeps [where P = "\<lambda>(d, p, m). length m = length mm"])
    apply (auto simp: Option.bind_eq_Some_conv dest!: init_min_max_length block_length)
  done

text \<open>
  The buffer of minima and maxima has a row too few when the last row of tiles is less than
  half a tile high.
\<close>

lemma loop_last_fails:
  assumes "P i s" and "\<And>j s s'. P j s \<Longrightarrow> body j s = Some s' \<Longrightarrow> P (j + 1) s'"
    and "\<And>s. P (i + int n) s \<Longrightarrow> body (i + int n) s = None"
  shows "loop i (Suc n) body s = None"
  using assms
proof (induction n arbitrary: i s)
  case (Suc n)
  show ?case
  proof (cases "body i s")
    case (Some s1)
    have "loop (i + 1) (Suc n) body s1 = None"
      by (rule Suc.IH [OF Suc.prems(2) [OF Suc.prems(1) Some] Suc.prems(2)])
        (use Suc.prems(3) in \<open>simp_all add: algebra_simps\<close>)
    then show ?thesis using Some by simp
  qed simp
qed simp

lemma row_thresholds_overread:
  assumes "0 < n" "ilength mm \<le> q"
  shows "compute_row_thresholds th d mm p q n ct = None"
proof -
  have "rd_pair mm q = None" using assms(2) by (simp add: rd_pair_def rd_None)
  then have body: "(\<lambda>(dest, min_max_a, min_max_b, th). do {
        a0 \<leftarrow> rd_pair mm min_max_a;
        a1 \<leftarrow> rd_pair mm (min_max_a + 2);
        b0 \<leftarrow> rd_pair mm min_max_b;
        b1 \<leftarrow> rd_pair mm (min_max_b + 2);
        th \<leftarrow> wr th dest (tile_threshold a0 a1 b0 b1 ct);
        Some (dest + 1, min_max_a + 2, min_max_b + 2, th) }) (d, p, q, th) = None"
    by (simp add: Option.bind_eq_None_conv)
  obtain k where "nat n = Suc k" using assms(1) by (cases "nat n") auto
  then show ?thesis using body by (simp add: compute_row_thresholds_def repeat_times_def)
qed

lemma short_spans:
  assumes "0 < T" "T \<le> H" "H mod T < T div 2"
  shows "full_spans H T = H div T - 1" "T div 2 \<le> H"
proof -
  have h: "T div 2 \<le> T" "0 \<le> H mod T" using assms by simp_all
  then show "T div 2 \<le> H" using assms(2) by linarith
  have e: "H - T div 2 = (H mod T - T div 2 + T) + (H div T - 1) * T" by (simp add: algebra_simps)
  have "(H mod T - T div 2 + T) div T = 0" using assms h by (intro div_pos_pos_trivial) linarith+
  then show "full_spans H T = H div T - 1" unfolding full_spans_def e using assms(1) by simp
qed

lemma frame_thresholds_overread:
  assumes T: "0 < T" "T \<le> W" "T \<le> H" "H mod T < T div 2" and mem: "mm_memory W H T mm"
  shows "compute_frame_threshold_tiles th mm W H T ct = None"
proof -
  let ?F = "full_spans W T" and ?tw = "W div T + 1"
  have h: "T div 2 \<le> T" "0 \<le> T div 2" using T(1) by simp_all
  have TW: "T div 2 \<le> W" using T h by linarith
  note F = full_spans(1) [OF T(1) TW]
  note S = short_spans [OF T(1,3,4)]
  have Hd: "0 < H div T" using T by (simp add: pos_imp_zdiv_pos_iff)
  have len: "ilength mm = 2 * ((?F + 2) * (H div T + 1))" using mem S by (simp add: mm_memory_def)
  let ?body = "\<lambda>(dest, p, th). do {
        th \<leftarrow> compute_row_thresholds th dest mm p (p + (?F + 2) * 2) ?tw ct;
        Some (dest + ?tw, p + (?F + 2) * 2, th) }"
  have "loop 0 (Suc (nat (H div T))) (\<lambda>_. ?body) (0, 0, th) = None"
  proof (rule loop_last_fails [where P = "\<lambda>j (d :: int, p, th' :: byte list). p = j * ((?F + 2) * 2)"])
    fix s :: "int \<times> int \<times> byte list" assume "case s of (d, p, th') \<Rightarrow> p = (0 + int (nat (H div T))) * ((?F + 2) * 2)"
    then obtain d th' where s: "s = (d, H div T * ((?F + 2) * 2), th')" using Hd by (cases s) auto
    have "0 < ?tw" using T by (simp add: pos_imp_zdiv_nonneg_iff add_nonneg_pos)
    moreover have "ilength mm \<le> H div T * ((?F + 2) * 2) + (?F + 2) * 2" unfolding len by (simp add: algebra_simps)
    ultimately show "?body s = None" unfolding s by (simp add: row_thresholds_overread)
  qed (auto simp: algebra_simps Option.bind_eq_Some_conv)
  moreover have "nat (H div T + 1) = Suc (nat (H div T))" using Hd by simp
  ultimately have "repeat_times (H div T + 1) ?body (0, 0, th) = None" unfolding repeat_times_def by (simp only:)
  moreover have q: "quot T 2 = Some (T div 2)" "quot (W - T div 2) T = Some ?F" "quot W T = Some (W div T)"
      "quot H T = Some (H div T)"
    using T TW by (simp_all add: buf_simps full_spans_def)
  ultimately show ?thesis unfolding compute_frame_threshold_tiles_def Let_def q bind.simps by simp
qed

subsection \<open>Properties of the thresholder\<close>

text \<open>C18: With the memory of \<open>initialize_tiled_bernsen_thresholder\<close>, and an image whose last row
  and column of tiles are at least half a tile, the thresholder returns and every pixel of
  the destination is white exactly when its source is above the threshold of its tile, which
  is computed from the minima and maxima of the four tiles of the offset grid around it.\<close>

theorem tiled_bernsen_pixels:
  assumes "initialize_tiled_bernsen_thresholder malloc W H T = Some t" "\<And>n. 0 \<le> n \<Longrightarrow> ilength (malloc n) = n"
    and "tiles_fit W T" "tiles_fit H T" "image_readable src st W H" "ilength dst = W * H"
  shows "\<exists>t' d. tiled_bernsen_threshold t dst src st W H T ct = Some (t', d) \<and> length d = length dst \<and>
    (\<forall>x y. 0 \<le> x \<longrightarrow> x < W \<longrightarrow> 0 \<le> y \<longrightarrow> y < H \<longrightarrow> d ! nat (y * W + x) =
      (if src ! nat ((y * W + x) * st) > bernsen_threshold src st W H T ct (y div T) (x div T) then WHITE else BLACK))"
proof -
  have T: "0 < T" "T \<le> W" "T \<le> H" using assms(3,4) by (auto simp: tiles_fit_def)
  show ?thesis
    by (rule tiled_bernsen_ok [OF assms(3,4) thresholder_memory [OF assms(1,2) T] assms(5,6)])
qed

lemma tiled_bernsen_pixels_witness:
  "\<exists>t' d. tiled_bernsen_threshold \<lparr>min_max = replicate 18 0, threshold = replicate 4 0\<rparr>
     (replicate 9 0) [10, 20, 30, 40, 50, 60, 70, 80, 90] 1 3 3 2 0 = Some (t', d) \<and> length d = 9"
proof -
  have i: "initialize_tiled_bernsen_thresholder (\<lambda>n. replicate (nat n) 0) 3 3 2 =
      Some \<lparr>min_max = replicate 18 0, threshold = replicate 4 0\<rparr>"
    by (simp add: initialize_tiled_bernsen_thresholder_def min_max_size_def threshold_size_def)
  have r: "image_readable [10, 20, 30, 40, 50, 60, 70, 80, 90] 1 3 3"
    by (auto simp: image_readable_def readable_def)
  have f: "tiles_fit 3 2" by (simp add: tiles_fit_def)
  show ?thesis
    using tiled_bernsen_pixels [OF i _ f f r, of "replicate 9 0" 0] by auto
qed

text \<open>C20: When the last row of tiles is less than half a tile high, the thresholder reads past
  the end of the memory that \<open>initialize_tiled_bernsen_thresholder\<close> allocates.\<close>

theorem tiled_bernsen_overread:
  assumes "initialize_tiled_bernsen_thresholder malloc W H T = Some t" "\<And>n. 0 \<le> n \<Longrightarrow> ilength (malloc n) = n"
    and "0 < T" "T \<le> W" "T \<le> H" "H mod T < T div 2"
  shows "tiled_bernsen_threshold t dst src st W H T ct = None"
proof (cases "compute_frame_min_max_tiles (min_max t) src st W H T")
  case (Some mm)
  note mem = thresholder_memory [OF assms(1-5)]
  have len: "ilength mm = ilength (min_max t)" using frame_tiles_length [OF Some] by simp
  then have "mm_memory W H T mm" using mem(1) by (simp add: mm_memory_def)
  then show ?thesis using Some frame_thresholds_overread [OF assms(3-6)] by (simp add: tiled_bernsen_threshold_def)
qed (simp add: tiled_bernsen_threshold_def)

lemma tiled_bernsen_overread_witness:
  "tiled_bernsen_threshold \<lparr>min_max = replicate 8 0, threshold = replicate 4 0\<rparr>
     (replicate 16 0) (replicate 16 7) 1 4 4 4 0 = None"
proof -
  have i: "initialize_tiled_bernsen_thresholder (\<lambda>n. replicate (nat n) 0) 4 4 4 =
      Some \<lparr>min_max = replicate 8 0, threshold = replicate 4 0\<rparr>"
    by (simp add: initialize_tiled_bernsen_thresholder_def min_max_size_def threshold_size_def)
  show ?thesis
    using tiled_bernsen_overread [OF i, of "replicate 16 0" "replicate 16 7" 1 0] by auto
qed

text \<open>The bytes of a pair in the buffer.\<close>

lemma pairs_bytes:
  assumes "mm_memory W H T mm" "0 \<le> r" "r < full_spans H T + 2" "0 \<le> c" "c < full_spans W T + 2"
    and "n = r * (full_spans W T + 2) + c"
  shows "mm ! nat (2 * n) = fst (pairs mm ! nat n)" "mm ! nat (2 * n + 1) = snd (pairs mm ! nat n)"
proof -
  have n: "0 \<le> n" "n < (full_spans H T + 2) * (full_spans W T + 2)"
    using row_index [OF assms(2-5)] assms(6) by simp_all
  then have "nat n < length mm div 2" using assms(1) by (auto simp: mm_memory_def mult.commute)
  moreover have "nat (2 * n) = 2 * nat n" "nat (2 * n + 1) = Suc (2 * nat n)" using n(1) by auto
  ultimately show "mm ! nat (2 * n) = fst (pairs mm ! nat n)" "mm ! nat (2 * n + 1) = snd (pairs mm ! nat n)"
    by (simp_all add: pairs_nth)
qed

text \<open>C19: The tile pass returns, and the entry of every tile that has a pixel holds its least
  value; it holds its greatest value when that occurs after the first pixel of the tile or the
  first pixel is 255.\<close>

theorem tile_extremes:
  assumes "0 < T" "T div 2 \<le> W" "T div 2 \<le> H" "mm_memory W H T mm" "image_readable src st W H"
  shows "\<exists>mm'. compute_frame_min_max_tiles mm src st W H T = Some mm' \<and>
    (\<forall>r c n. 0 \<le> r \<longrightarrow> r < full_spans H T + 2 \<longrightarrow> 0 \<le> c \<longrightarrow> c < full_spans W T + 2 \<longrightarrow>
      n = r * (full_spans W T + 2) + c \<longrightarrow> tile_pixels src st W H T r c \<noteq> [] \<longrightarrow>
      mm' ! nat (2 * n) = Min (set (tile_pixels src st W H T r c)) \<and>
      (Max (set (tile_pixels src st W H T r c)) \<in> set (tl (tile_pixels src st W H T r c)) \<or>
        hd (tile_pixels src st W H T r c) = 255 \<longrightarrow>
       mm' ! nat (2 * n + 1) = Max (set (tile_pixels src st W H T r c))))"
proof -
  obtain mm' where mm': "compute_frame_min_max_tiles mm src st W H T = Some mm'" "mm_memory W H T mm'"
      "rows_done src st W H T (full_spans H T + 2) mm'"
    using frame_tiles_ok [OF assms] by blast
  have "mm' ! nat (2 * n) = Min (set P) \<and> (Max (set P) \<in> set (tl P) \<or> hd P = 255 \<longrightarrow> mm' ! nat (2 * n + 1) = Max (set P))"
    if h: "0 \<le> r" "r < full_spans H T + 2" "0 \<le> c" "c < full_spans W T + 2" "n = r * (full_spans W T + 2) + c"
      and P: "P = tile_pixels src st W H T r c" "P \<noteq> []" for r c n P
    using pairs_bytes [OF mm'(2) h] mm'(3) h fresh_extremes [OF P(2)]
    by (simp add: rows_done_def tile_min_max_def P(1))
  then show ?thesis using mm'(1) by blast
qed

lemma tile_extremes_witness:
  "\<exists>mm'. compute_frame_min_max_tiles (replicate 18 0) [10, 20, 30, 40, 50, 60, 70, 80, 90] 1 3 3 2 = Some mm' \<and>
     mm' ! 8 = 50 \<and> mm' ! 9 = 90"
proof -
  have r: "image_readable [10, 20, 30, 40, 50, 60, 70, 80, 90] 1 3 3"
    by (auto simp: image_readable_def readable_def)
  have m: "mm_memory 3 3 2 (replicate 18 0)" by (simp add: mm_memory_def full_spans_def)
  have p: "tile_pixels [10, 20, 30, 40, 50, 60, 70, 80, 90 :: byte] 1 3 3 2 1 1 = [50, 60, 80, 90]" by code_simp
  have f: "full_spans 3 2 = 1" by (simp add: full_spans_def)
  have "0 < (2 :: int)" "2 div 2 \<le> (3 :: int)" by simp_all
  note e = tile_extremes [OF this this(2) m r, unfolded f]
  obtain mm' where mm': "compute_frame_min_max_tiles (replicate 18 0) [10, 20, 30, 40, 50, 60, 70, 80, 90] 1 3 3 2 = Some mm'"
      "mm' ! 8 = Min (set [50, 60, 80, 90 :: byte])" "mm' ! 9 = Max (set [50, 60, 80, 90 :: byte])"
    using e by (elim exE conjE) (drule spec [of _ 1], drule spec [of _ 1], drule spec [of _ 4], simp add: p)
  then show ?thesis by simp
qed

text \<open>The greatest value of a tile is not recorded when the pixels of the tile only fall: the
  entry of the maximum stays at 0.\<close>

theorem falling_tile_maximum_lost:
  assumes "0 < T" "T div 2 \<le> W" "T div 2 \<le> H" "mm_memory W H T mm" "image_readable src st W H"
    and "0 \<le> r" "r < full_spans H T + 2" "0 \<le> c" "c < full_spans W T + 2"
    and "sorted_wrt (\<lambda>a b. b < a) (255 # tile_pixels src st W H T r c)"
  shows "\<exists>mm'. compute_frame_min_max_tiles mm src st W H T = Some mm' \<and>
    mm' ! nat (2 * (r * (full_spans W T + 2) + c) + 1) = 0"
proof -
  obtain mm' where mm': "compute_frame_min_max_tiles mm src st W H T = Some mm'" "mm_memory W H T mm'"
      "rows_done src st W H T (full_spans H T + 2) mm'"
    using frame_tiles_ok [OF assms(1-5)] by blast
  then show ?thesis
    using pairs_bytes(2) [OF mm'(2) assms(6-9) refl] fresh_decreasing [OF assms(10)] assms(6-9)
    by (simp add: rows_done_def tile_min_max_def)
qed

lemma falling_tile_maximum_lost_witness:
  "\<exists>mm'. compute_frame_min_max_tiles (replicate 18 0) [90, 80, 70, 60, 50, 40, 30, 20, 10] 1 3 3 2 = Some mm' \<and>
     mm' ! 9 = 0"
proof -
  have r: "image_readable [90, 80, 70, 60, 50, 40, 30, 20, 10] 1 3 3"
    by (auto simp: image_readable_def readable_def)
  have m: "mm_memory 3 3 2 (replicate 18 0)" by (simp add: mm_memory_def full_spans_def)
  have p: "tile_pixels [90, 80, 70, 60, 50, 40, 30, 20, 10 :: byte] 1 3 3 2 1 1 = [50, 40, 20, 10]" by code_simp
  have f: "full_spans 3 2 = 1" by (simp add: full_spans_def)
  show ?thesis
    using falling_tile_maximum_lost [OF _ _ _ m r, of 1 1] p f by simp
qed

end
