(* ===== verification/RegionList.thy ===== *)
theory RegionList
  imports Region
begin

text \<open>
  The circular doubly linked lists of \<^verbatim>\<open>segment.c\<close>: \<open>initialize_head_region\<close>,
  \<open>link_region\<close> and \<open>unlink_region\<close>. A list head is a \<open>Region\<close> outside the segmenter's
  buffer (a field of \<open>FidtrackerX\<close> or \<open>PartialSegmentTopology\<close>), so the memory of these
  functions is the segmenter together with the heads, and a \<open>Region *\<close> is an \<open>rptr\<close> into it.
\<close>

subsection \<open>The program\<close>

record World =
  seg :: Segmenter
  heads :: "Region list"

fun deref :: "World \<Rightarrow> rptr \<Rightarrow> Region option" where
  "deref w Null = None"
| "deref w (Reg i) = buf_read (regions (seg w)) i"
| "deref w (Head k) = buf_read (heads w) k"

fun assign :: "World \<Rightarrow> rptr \<Rightarrow> (Region \<Rightarrow> Region) \<Rightarrow> World option" where
  "assign w Null f = None"
| "assign w (Reg i) f = do { s \<leftarrow> upd_region (seg w) i f; Some (w\<lparr>seg := s\<rparr>) }"
| "assign w (Head k) f = do {
     r \<leftarrow> buf_read (heads w) k;
     hs \<leftarrow> buf_write (heads w) k (f r);
     Some (w\<lparr>heads := hs\<rparr>)
   }"

definition initialize_head_region :: "World \<Rightarrow> rptr \<Rightarrow> World option" where
  "initialize_head_region w r = assign w r (\<lambda>x. x\<lparr>previous := r, nxt := r\<rparr>)"

definition link_region :: "World \<Rightarrow> rptr \<Rightarrow> rptr \<Rightarrow> World option" where
  "link_region w head r = do {
     h \<leftarrow> deref w head;
     w \<leftarrow> assign w r (\<lambda>x. x\<lparr>previous := previous h\<rparr>);
     w \<leftarrow> assign w r (\<lambda>x. x\<lparr>nxt := head\<rparr>);
     x \<leftarrow> deref w r;
     w \<leftarrow> assign w (previous x) (\<lambda>y. y\<lparr>nxt := r\<rparr>);
     x \<leftarrow> deref w r;
     assign w (nxt x) (\<lambda>y. y\<lparr>previous := r\<rparr>)
   }"

definition unlink_region :: "World \<Rightarrow> rptr \<Rightarrow> World option" where
  "unlink_region w r = do {
     x \<leftarrow> deref w r;
     w \<leftarrow> assign w (previous x) (\<lambda>y. y\<lparr>nxt := nxt x\<rparr>);
     x \<leftarrow> deref w r;
     assign w (nxt x) (\<lambda>y. y\<lparr>previous := previous x\<rparr>)
   }"

subsection \<open>Memory\<close>

fun valid :: "World \<Rightarrow> rptr \<Rightarrow> bool" where
  "valid w Null \<longleftrightarrow> False"
| "valid w (Reg i) \<longleftrightarrow> i < length (regions (seg w))"
| "valid w (Head k) \<longleftrightarrow> k < length (heads w)"

text \<open>The region at a valid pointer, and the memory with one region changed.\<close>

fun at :: "World \<Rightarrow> rptr \<Rightarrow> Region" where
  "at w (Reg i) = reg (seg w) i"
| "at w (Head k) = heads w ! k"
| "at w Null = undefined"

fun put :: "World \<Rightarrow> rptr \<Rightarrow> Region \<Rightarrow> World" where
  "put w (Reg i) x = w\<lparr>seg := (seg w)\<lparr>regions := (regions (seg w))[i := x]\<rparr>\<rparr>"
| "put w (Head k) x = w\<lparr>heads := (heads w)[k := x]\<rparr>"
| "put w Null x = w"

lemma deref_eq [buf_simps]: "valid w p \<Longrightarrow> deref w p = Some (at w p)"
  by (cases p) (simp_all add: buf_simps)

lemma assign_eq [buf_simps]: "valid w p \<Longrightarrow> assign w p f = Some (put w p (f (at w p)))"
  by (cases p) (simp_all add: buf_simps)

lemma valid_put [simp]: "valid (put w p x) q = valid w q"
  by (cases p; cases q) simp_all

lemma at_put: "valid w p \<Longrightarrow> valid w q \<Longrightarrow> at (put w p x) q = (if q = p then x else at w q)"
  by (cases p; cases q) (auto simp: nth_list_update)

text \<open>Two memories that differ only in the links.\<close>

definition same_but_links :: "Region \<Rightarrow> Region \<Rightarrow> bool" where
  "same_but_links x y \<longleftrightarrow> y\<lparr>previous := Null, nxt := Null\<rparr> = x\<lparr>previous := Null, nxt := Null\<rparr>"

definition links_only :: "World \<Rightarrow> World \<Rightarrow> bool" where
  "links_only w w' \<longleftrightarrow>
     (seg w')\<lparr>regions := []\<rparr> = (seg w)\<lparr>regions := []\<rparr> \<and> length (regions (seg w')) = length (regions (seg w)) \<and>
     length (heads w') = length (heads w) \<and> (\<forall>p. valid w p \<longrightarrow> same_but_links (at w p) (at w' p))"

lemma same_but_links_refl [simp]: "same_but_links x x"
  by (simp add: same_but_links_def)

lemma same_but_links_upd [simp]:
  "same_but_links x (y\<lparr>previous := p\<rparr>) = same_but_links x y" "same_but_links x (y\<lparr>nxt := p\<rparr>) = same_but_links x y"
  by (simp_all add: same_but_links_def)

lemma same_but_linksD:
  assumes "same_but_links x y"
  shows "flags y = flags x" "level y = level x" "colour y = colour x" "depth y = depth x"
    "children_visited_count y = children_visited_count x" "descendent_count y = descendent_count x"
    "adjacent_regions y = adjacent_regions x" "left y = left x" "right y = right x" "rtop y = rtop x"
    "bottom y = bottom x" "area y = area x" "depth_string y = depth_string x"
  using arg_cong [OF assms [unfolded same_but_links_def], of flags]
    arg_cong [OF assms [unfolded same_but_links_def], of level]
    arg_cong [OF assms [unfolded same_but_links_def], of colour]
    arg_cong [OF assms [unfolded same_but_links_def], of depth]
    arg_cong [OF assms [unfolded same_but_links_def], of children_visited_count]
    arg_cong [OF assms [unfolded same_but_links_def], of descendent_count]
    arg_cong [OF assms [unfolded same_but_links_def], of adjacent_regions]
    arg_cong [OF assms [unfolded same_but_links_def], of left]
    arg_cong [OF assms [unfolded same_but_links_def], of right]
    arg_cong [OF assms [unfolded same_but_links_def], of rtop]
    arg_cong [OF assms [unfolded same_but_links_def], of bottom]
    arg_cong [OF assms [unfolded same_but_links_def], of area]
    arg_cong [OF assms [unfolded same_but_links_def], of depth_string]
  by simp_all

lemma links_only_refl [simp, intro]: "links_only w w"
  by (simp add: links_only_def)

lemma links_only_valid: "links_only w w' \<Longrightarrow> valid w' p = valid w p"
  by (cases p) (simp_all add: links_only_def)

lemma links_only_put:
  assumes "links_only w0 w" "valid w p" "same_but_links (at w p) x"
  shows "links_only w0 (put w p x)"
proof -
  have "same_but_links (at w0 q) (at (put w p x) q)" if "valid w0 q" for q
  proof -
    have "valid w q" "same_but_links (at w0 q) (at w q)"
      using assms(1) that links_only_valid [OF assms(1)] by (simp_all add: links_only_def)
    then show ?thesis using assms(2,3) by (cases "q = p") (auto simp: at_put same_but_links_def)
  qed
  then show ?thesis using assms(1) by (cases p) (simp_all add: links_only_def)
qed

lemma links_only_trans: "links_only w1 w2 \<Longrightarrow> links_only w2 w3 \<Longrightarrow> links_only w1 w3"
  using links_only_valid [of w1 w2] by (auto simp: links_only_def same_but_links_def)

lemma links_only_reg:
  assumes "links_only w w'" "i < length (regions (seg w))"
  shows "same_but_links (reg (seg w) i) (reg (seg w') i)"
  using assms unfolding links_only_def by (metis valid.simps(2) at.simps(1))

lemma links_only_seg:
  assumes "links_only w w'"
  shows "region_count (seg w') = region_count (seg w)" "length (regions (seg w')) = length (regions (seg w))"
    "max_adjacent_regions (seg w') = max_adjacent_regions (seg w)" "length (heads w') = length (heads w)"
  using assms unfolding links_only_def
  by (auto dest: arg_cong [where f = region_count] arg_cong [where f = max_adjacent_regions])

subsection \<open>Lists of regions\<close>

text \<open>The pointers \<open>ps\<close> are linked one after the other, in both directions.\<close>

fun linked :: "World \<Rightarrow> rptr list \<Rightarrow> bool" where
  "linked w (p # q # ps) \<longleftrightarrow> nxt (at w p) = q \<and> previous (at w q) = p \<and> linked w (q # ps)"
| "linked w _ \<longleftrightarrow> True"

definition ring_of :: "World \<Rightarrow> rptr \<Rightarrow> nat list \<Rightarrow> bool" where
  "ring_of w h xs \<longleftrightarrow> (\<exists>k. h = Head k) \<and> valid w h \<and> (\<forall>x \<in> set xs. valid w (Reg x)) \<and> distinct xs \<and>
     linked w (h # map Reg xs @ [h])"

lemma linked_append:
  "linked w (ps @ p # q # qs) \<longleftrightarrow> linked w (ps @ [p]) \<and> nxt (at w p) = q \<and> previous (at w q) = p \<and> linked w (q # qs)"
proof (induction ps)
  case (Cons a ps)
  then show ?case by (cases ps) auto
qed simp

lemma linked_frame:
  assumes "linked w ps" "\<And>q. q \<in> set (butlast ps) \<Longrightarrow> nxt (at w' q) = nxt (at w q)"
    and "\<And>q. q \<in> set (tl ps) \<Longrightarrow> previous (at w' q) = previous (at w q)"
  shows "linked w' ps"
  using assms by (induction w ps rule: linked.induct) auto

text \<open>The list head and the regions, as pointers, are distinct.\<close>

lemma ring_ofD:
  assumes "ring_of w h xs"
  shows "valid w h" "\<forall>x\<in>set xs. valid w (Reg x)" "distinct xs" "linked w (h # map Reg xs @ [h])"
    "distinct (h # map Reg xs)" "\<And>q. q \<in> set (h # map Reg xs) \<Longrightarrow> valid w q"
  using assms by (auto simp: ring_of_def distinct_map inj_on_def)

lemma ring_frame:
  assumes "ring_of w (Head k) ys" "\<And>p. valid w' p = valid w p"
    and "\<And>q. q \<in> set (Head k # map Reg ys) \<Longrightarrow> nxt (at w' q) = nxt (at w q) \<and> previous (at w' q) = previous (at w q)"
  shows "ring_of w' (Head k) ys"
proof -
  note O = ring_ofD [OF assms(1)]
  have sub: "set (butlast (Head k # map Reg ys @ [Head k])) \<subseteq> set (Head k # map Reg ys)"
      "set (tl (Head k # map Reg ys @ [Head k])) \<subseteq> set (Head k # map Reg ys)"
    by (auto simp: butlast_append dest: in_set_butlastD)
  have "linked w' (Head k # map Reg ys @ [Head k])"
    by (rule linked_frame [OF O(4)]) (metis sub subsetD assms(3))+
  then show ?thesis using O(1-3) assms(2) by (simp add: ring_of_def del: at.simps valid.simps)
qed

lemma initialize_head_region_ok:
  assumes "valid w (Head k)"
  shows "\<exists>w'. initialize_head_region w (Head k) = Some w' \<and> ring_of w' (Head k) [] \<and> links_only w w' \<and>
    (\<forall>k' ys. k' \<noteq> k \<longrightarrow> ring_of w (Head k') ys \<longrightarrow> ring_of w' (Head k') ys)"
proof -
  let ?w = "put w (Head k) ((at w (Head k))\<lparr>previous := Head k, nxt := Head k\<rparr>)"
  note sd = valid.simps at.simps put.simps deref.simps assign.simps
  have a: "at ?w q = (if q = Head k then (at w (Head k))\<lparr>previous := Head k, nxt := Head k\<rparr> else at w q)"
    if "valid w q" for q using that assms by (simp add: at_put del: sd)
  have "initialize_head_region w (Head k) = Some ?w"
    unfolding initialize_head_region_def using assms by (simp add: buf_simps del: sd)
  moreover have "ring_of ?w (Head k) []" using assms a [OF assms] by (simp add: ring_of_def del: sd)
  moreover have "links_only w ?w" using assms by (intro links_only_put) (auto simp del: sd)
  moreover have "ring_of ?w (Head k') ys" if "k' \<noteq> k" "ring_of w (Head k') ys" for k' ys
    using ring_ofD(6) [OF that(2)] that(1) a
    by (intro ring_frame [OF that(2)]) (auto simp del: sd)
  ultimately show ?thesis by blast
qed

text \<open>\<open>link_region\<close> appends the region to the list, and changes nothing but links.\<close>

lemma link_region_ok:
  assumes ring: "ring_of w h xs" and r: "valid w (Reg r)" "r \<notin> set xs"
  shows "\<exists>w'. link_region w h (Reg r) = Some w' \<and> ring_of w' h (xs @ [r]) \<and> links_only w w' \<and>
    (\<forall>k ys. Head k \<noteq> h \<longrightarrow> set ys \<inter> set (r # xs) = {} \<longrightarrow> ring_of w (Head k) ys \<longrightarrow> ring_of w' (Head k) ys)"
proof -
  note R = ring_ofD [OF ring]
  obtain k where h: "h = Head k" using ring by (auto simp: ring_of_def)
  obtain ps p where ps: "h # map Reg xs = ps @ [p]" by (metis rev_exhaust list.distinct(1))
  have pv: "valid w p" using R(6) [of p] unfolding ps by simp
  have rp: "Reg r \<notin> set (ps @ [p])" using r(2) h unfolding ps [symmetric] by auto
  have hp: "h \<in> set (ps @ [p])" unfolding ps [symmetric] by simp
  have rh: "Reg r \<noteq> h" "Reg r \<noteq> p" using rp hp by auto
  have lk: "linked w (ps @ p # h # [])" using R(4) ps by (metis append.assoc append_Cons append_Nil)
  then have prev: "previous (at w h) = p" by (simp only: linked_append)
  let ?w1 = "put w (Reg r) ((at w (Reg r))\<lparr>previous := p\<rparr>)"
  let ?w2 = "put ?w1 (Reg r) ((at ?w1 (Reg r))\<lparr>nxt := h\<rparr>)"
  let ?w3 = "put ?w2 p ((at ?w2 p)\<lparr>nxt := Reg r\<rparr>)"
  let ?w4 = "put ?w3 h ((at ?w3 h)\<lparr>previous := Reg r\<rparr>)"
  note sd = valid.simps at.simps put.simps deref.simps assign.simps
  have run: "link_region w h (Reg r) = Some ?w4"
    unfolding link_region_def
    using r(1) pv R(1) rh prev by (simp add: buf_simps at_put del: sd)
  have at4: "at ?w4 q = (if q = Reg r then (at w q)\<lparr>previous := p, nxt := h\<rparr>
      else if q = h \<and> q = p then (at w q)\<lparr>nxt := Reg r, previous := Reg r\<rparr>
      else if q = h then (at w q)\<lparr>previous := Reg r\<rparr> else if q = p then (at w q)\<lparr>nxt := Reg r\<rparr> else at w q)"
    if "valid w q" for q
    using that r(1) pv R(1) rh by (auto simp: at_put simp del: sd)
  have lo: "links_only w ?w4"
    using r(1) pv R(1) by (intro links_only_put) (auto simp: at_put simp del: sd)
  have "linked ?w4 (ps @ [p])"
  proof (rule linked_frame)
    show "linked w (ps @ [p])" using lk by (simp only: linked_append)
    have d: "distinct (ps @ [p])" using R(5) unfolding ps .
    have v: "valid w q" if "q \<in> set (ps @ [p])" for q using R(6) that unfolding ps .
    show "nxt (at ?w4 q) = nxt (at w q)" if "q \<in> set (butlast (ps @ [p]))" for q
    proof -
      have "q \<in> set ps" "q \<noteq> p" using that d by auto
      then show ?thesis using at4 [OF v, of q] rp by (cases "q = h") auto
    qed
    show "previous (at ?w4 q) = previous (at w q)" if "q \<in> set (tl (ps @ [p]))" for q
    proof -
      have "tl (ps @ [p]) = map Reg xs" using ps by (metis list.sel(3))
      then have "q \<in> set (map Reg xs)" using that by simp
      then have "q \<noteq> h" "q \<in> set (ps @ [p])" using h unfolding ps [symmetric] by auto
      then show ?thesis using at4 [OF v, of q] rp by (cases "q = p") auto
    qed
  qed
  moreover have "nxt (at ?w4 p) = Reg r" "previous (at ?w4 (Reg r)) = p" "nxt (at ?w4 (Reg r)) = h"
      "previous (at ?w4 h) = Reg r"
    using at4 [OF pv] at4 [OF r(1)] at4 [OF R(1)] rh by (auto simp del: sd)
  ultimately have "linked ?w4 (ps @ p # Reg r # h # [])" by (simp only: linked_append) simp
  moreover have "ps @ p # Reg r # h # [] = h # map Reg (xs @ [r]) @ [h]" using ps
    by (metis append.assoc append_Cons append_Nil list.simps(8,9) map_append)
  ultimately have L: "linked ?w4 (h # map Reg (xs @ [r]) @ [h])" by (simp only:)
  have "ring_of ?w4 h (xs @ [r])"
    unfolding ring_of_def by (intro conjI L) (use R(1-3) r h in \<open>auto simp del: sd\<close>)
  moreover have "ring_of ?w4 (Head k') ys"
    if o: "Head k' \<noteq> h" "set ys \<inter> set (r # xs) = {}" "ring_of w (Head k') ys" for k' ys
  proof -
    show ?thesis
    proof (rule ring_frame [OF o(3)])
      fix q assume q: "q \<in> set (Head k' # map Reg ys)"
      then have "q \<notin> set (h # map Reg xs)" "q \<noteq> Reg r" using o(1,2) h by auto
      moreover from this have "q \<noteq> h" "q \<noteq> p" using hp unfolding ps by auto
      ultimately show "nxt (at ?w4 q) = nxt (at w q) \<and> previous (at ?w4 q) = previous (at w q)"
        using at4 [OF ring_ofD(6) [OF o(3) q]] by (simp del: sd)
    qed (simp del: sd)
  qed
  ultimately show ?thesis using run lo by blast
qed


text \<open>\<open>unlink_region\<close> takes a region out of the middle of its list.\<close>

lemma unlink_region_ok:
  assumes ring: "ring_of w h (xs @ r # ys)"
  shows "\<exists>w'. unlink_region w (Reg r) = Some w' \<and> ring_of w' h (xs @ ys) \<and> links_only w w'"
proof -
  note R = ring_ofD [OF ring]
  obtain k where h: "h = Head k" using ring by (auto simp: ring_of_def)
  obtain ps p where ps: "h # map Reg xs = ps @ [p]" by (metis rev_exhaust list.distinct(1))
  obtain q qs where qs: "map Reg ys @ [h] = q # qs" by (cases "map Reg ys @ [h]") auto
  have all: "h # map Reg (xs @ r # ys) @ [h] = ps @ p # Reg r # q # qs" using ps qs by simp
  have lk: "linked w (ps @ p # Reg r # q # qs)" using R(4) unfolding all .
  then have lk1: "linked w (ps @ [p])" "nxt (at w p) = Reg r" "previous (at w (Reg r)) = p" "nxt (at w (Reg r)) = q"
      "linked w (q # qs)"
    unfolding linked_append by auto
  have memb: "set (ps @ [p]) \<subseteq> set (h # map Reg (xs @ r # ys))" "set (q # qs) \<subseteq> set (h # map Reg (xs @ r # ys))"
    unfolding ps [symmetric] qs [symmetric] by auto
  have v: "valid w u" if "u \<in> set (ps @ [p]) \<or> u \<in> set (q # qs)" for u using R(6) memb that by blast
  have val: "valid w p" "valid w q" "valid w (Reg r)" using v [of p] v [of q] R(6) [of "Reg r"] by simp_all
  have d: "distinct (ps @ [p])" "distinct (q # qs)" "Reg r \<notin> set (ps @ [p])" "Reg r \<notin> set (q # qs)"
      "set (tl (ps @ [p])) \<inter> set (q # qs) = {}"
    using R(5) h unfolding ps [symmetric] qs [symmetric] by (auto simp: distinct_map)
  let ?w1 = "put w p ((at w p)\<lparr>nxt := q\<rparr>)"
  let ?w2 = "put ?w1 q ((at ?w1 q)\<lparr>previous := p\<rparr>)"
  note sd = valid.simps at.simps put.simps deref.simps assign.simps
  have ne: "Reg r \<noteq> p" "Reg r \<noteq> q" using d by auto
  have run: "unlink_region w (Reg r) = Some ?w2"
    unfolding unlink_region_def using val lk1 ne by (simp add: buf_simps at_put del: sd)
  have at2: "at ?w2 u = (if u = p \<and> u = q then (at w u)\<lparr>nxt := q, previous := p\<rparr>
      else if u = p then (at w u)\<lparr>nxt := q\<rparr> else if u = q then (at w u)\<lparr>previous := p\<rparr> else at w u)"
    if "valid w u" for u
    using that val by (auto simp: at_put simp del: sd)
  have "linked ?w2 (ps @ [p])"
  proof (rule linked_frame [OF lk1(1)])
    show "nxt (at ?w2 u) = nxt (at w u)" if "u \<in> set (butlast (ps @ [p]))" for u
    proof -
      have "u \<in> set ps" "u \<noteq> p" using that d(1) by auto
      then show ?thesis using at2 [OF v, of u] by auto
    qed
    show "previous (at ?w2 u) = previous (at w u)" if "u \<in> set (tl (ps @ [p]))" for u
    proof -
      have "u \<in> set (ps @ [p])" using that by (cases ps) auto
      moreover have "u \<noteq> q" using that d(5) by auto
      ultimately show ?thesis using at2 [OF v, of u] by auto
    qed
  qed
  moreover have "linked ?w2 (q # qs)"
  proof (rule linked_frame [OF lk1(5)])
    show "nxt (at ?w2 u) = nxt (at w u)" if "u \<in> set (butlast (q # qs))" for u
    proof -
      have u: "u \<in> set (q # qs)" using that by (rule in_set_butlastD)
      have "u \<in> set (map Reg ys)" using that unfolding qs [symmetric] by simp
      moreover have "set (map Reg ys) \<inter> set (h # map Reg xs) = {}" using R(3) h by auto
      ultimately have "u \<noteq> p" unfolding ps by auto
      then show ?thesis using at2 [OF v, of u] u by auto
    qed
    show "previous (at ?w2 u) = previous (at w u)" if "u \<in> set (tl (q # qs))" for u
    proof -
      have "u \<in> set (q # qs)" "u \<noteq> q" using that d(2) by auto
      then show ?thesis using at2 [OF v, of u] by auto
    qed
  qed
  moreover have "nxt (at ?w2 p) = q" "previous (at ?w2 q) = p"
    using at2 [OF val(1)] at2 [OF val(2)] by auto
  ultimately have "linked ?w2 (ps @ p # q # qs)" by (simp only: linked_append)
  moreover have "ps @ p # q # qs = h # map Reg (xs @ ys) @ [h]" using ps qs
    by (metis append.assoc append_Cons append_Nil map_append)
  ultimately have L: "linked ?w2 (h # map Reg (xs @ ys) @ [h])" by (simp only:)
  have "ring_of ?w2 h (xs @ ys)"
    unfolding ring_of_def by (intro conjI L) (use R(1-3) h in \<open>auto simp del: sd\<close>)
  moreover have "links_only w ?w2"
    using val by (intro links_only_put) (auto simp: at_put simp del: sd)
  ultimately show ?thesis using run by blast
qed

subsection \<open>Walking along a list\<close>

text \<open>
  \<open>for( next = head->next; next != head; next = next->next ) body\<close>. The body can leave the
  function, and \<open>world\<close> finds the memory in the state of the loop.
\<close>

partial_function (option) ring_loop ::
  "('s \<Rightarrow> World) \<Rightarrow> rptr \<Rightarrow> (rptr \<Rightarrow> 's \<Rightarrow> ('s \<times> bool) option) \<Rightarrow> rptr \<Rightarrow> 's \<Rightarrow> 's option" where
  "ring_loop world head body next s =
     (if next = head then Some s
      else do {
        (s, stop) \<leftarrow> body next s;
        if stop then Some s else do {
          x \<leftarrow> deref (world s) next;
          ring_loop world head body (nxt x) s
        }
      })"

declare ring_loop.simps [code]

lemma ring_next:
  assumes "ring_of w h (ys @ y # zs)"
  shows "deref w (Reg y) = Some (at w (Reg y))" "nxt (at w (Reg y)) = hd (map Reg zs @ [h])" "Reg y \<noteq> h"
proof -
  note R = ring_ofD [OF assms]
  have "valid w (Reg y)" using R(2) by simp
  then show "deref w (Reg y) = Some (at w (Reg y))" by (rule deref_eq)
  obtain q qs where q: "map Reg zs @ [h] = q # qs" by (cases "map Reg zs @ [h]") auto
  have "linked w ((h # map Reg ys) @ Reg y # q # qs)" using R(4) q by simp
  then show "nxt (at w (Reg y)) = hd (map Reg zs @ [h])" by (simp only: linked_append q list.sel)
  show "Reg y \<noteq> h" using assms by (auto simp: ring_of_def)
qed

lemma ring_first: "ring_of w h xs \<Longrightarrow> nxt (at w h) = hd (map Reg xs @ [h])"
  unfolding ring_of_def by (cases xs) auto

lemma ring_loop_step:
  assumes "xs = ys @ zs" "P ys s" "\<And>s. P xs s \<Longrightarrow> Q s"
    and body: "\<And>ys y zs s. xs = ys @ y # zs \<Longrightarrow> P ys s \<Longrightarrow>
      \<exists>s' stop. body (Reg y) s = Some (s', stop) \<and> (if stop then Q s' else P (ys @ [y]) s' \<and> ring_of (world s') h xs)"
    and head: "\<exists>k. h = Head k"
  shows "\<exists>s'. ring_loop world h body (hd (map Reg zs @ [h])) s = Some s' \<and> Q s'"
  using assms(1,2)
proof (induction zs arbitrary: ys s)
  case Nil
  then show ?case using assms(3) by (simp add: ring_loop.simps)
next
  case (Cons z zs)
  obtain s1 stop where s1: "body (Reg z) s = Some (s1, stop)"
      "if stop then Q s1 else P (ys @ [z]) s1 \<and> ring_of (world s1) h xs"
    using body [OF Cons.prems] by blast
  have ne: "Reg z \<noteq> h" using head by auto
  show ?case
  proof (cases stop)
    case True
    then show ?thesis using s1 ne by (simp add: ring_loop.simps [of world h body "Reg z"])
  next
    case False
    then have P: "P (ys @ [z]) s1" and r: "ring_of (world s1) h (ys @ z # zs)" using s1(2) Cons.prems(1) by simp_all
    have "\<exists>s'. ring_loop world h body (hd (map Reg zs @ [h])) s1 = Some s' \<and> Q s'"
      using Cons.IH [OF _ P] Cons.prems(1) by simp
    then show ?thesis using s1(1) False ne ring_next [OF r]
      by (simp add: ring_loop.simps [of world h body "Reg z"] del: deref.simps at.simps)
  qed
qed

lemma ring_loop_rule:
  assumes ring: "ring_of (world s) h xs" and "P [] s" "\<And>s. P xs s \<Longrightarrow> Q s"
    and body: "\<And>ys y zs s. xs = ys @ y # zs \<Longrightarrow> P ys s \<Longrightarrow>
      \<exists>s' stop. body (Reg y) s = Some (s', stop) \<and> (if stop then Q s' else P (ys @ [y]) s' \<and> ring_of (world s') h xs)"
  shows "\<exists>s'. ring_loop world h body (nxt (at (world s) h)) s = Some s' \<and> Q s'"
proof -
  have "\<exists>k. h = Head k" using ring by (simp add: ring_of_def)
  from ring_loop_step [where ys = "[]" and zs = xs, OF _ assms(2,3) body this] ring_first [OF ring]
  show ?thesis by simp
qed

end
