(* ===== verification/FidtrackX.thy ===== *)
theory FidtrackX
  imports RegionList Segment "HOL-Library.Char_ord"
begin

text \<open>
  \<^verbatim>\<open>fidtrackX.c\<close>, the search for fiducial trees: the upward propagation of descendent counts
  and depths from the leafs, the collection of candidate roots, the numbering of depths and
  the left heavy depth string. The field \<open>root_regions_head\<close> of \<open>FidtrackerX\<close> is the list
  head \<open>Head 0\<close> of the memory, so that the list operations can reach it.
\<close>

subsection \<open>Data\<close>

definition NOT_TRAVERSED :: int where "NOT_TRAVERSED = UNKNOWN_REGION_LEVEL"
definition TRAVERSED :: int where "TRAVERSED = NOT_TRAVERSED - 1"
definition TRAVERSING :: int where "TRAVERSING = NOT_TRAVERSED - 2"
definition FUZZY_NODE_RANGE :: int where "FUZZY_NODE_RANGE = 2"

lemmas traversal_levels = NOT_TRAVERSED_def TRAVERSED_def TRAVERSING_def UNKNOWN_REGION_LEVEL_def

text \<open>The numbers of a \<open>TreeIdMap\<close>.\<close>

record TreeIdMapInfo =
  tree_count :: int
  min_node_count :: int
  max_node_count :: int
  tm_min_depth :: int
  tm_max_depth :: int
  max_adjacencies :: int

text \<open>
  The fields of \<open>FidtrackerX\<close> that the search uses. The two character buffers are memory of
  their allocated length, a \<open>char *\<close> into \<open>depth_strings\<close> is an offset.
\<close>

record FidtrackerX =
  min_target_root_descendent_count :: int
  max_target_root_descendent_count :: int
  min_target_root_descendent_range :: int
  max_target_root_descendent_range :: int
  min_depth :: int
  max_depth :: int
  depth_strings :: "char list"
  depth_string_count :: int
  depth_string_length :: int
  next_depth_string :: int
  temp_coloured_depth_string :: "char list"

definition root_regions_head :: rptr where "root_regions_head = Head 0"

text \<open>The two results of \<open>malloc\<close> are a parameter.\<close>

definition initialize_fidtrackerX :: "(int \<Rightarrow> char list) \<Rightarrow> TreeIdMapInfo \<Rightarrow> FidtrackerX" where
  "initialize_fidtrackerX malloc treeidmap = (
     let min_count = min_node_count treeidmap - 1;
         max_count = max_node_count treeidmap - 1;
         min_range = min_count - FUZZY_NODE_RANGE;
         min_range = (if min_range < 3 then 3 else min_range);
         string_count = max_node_count treeidmap;
         string_length = max_node_count treeidmap + 1
     in \<lparr>min_target_root_descendent_count = min_count,
         max_target_root_descendent_count = max_count,
         min_target_root_descendent_range = min_range,
         max_target_root_descendent_range = max_count + FUZZY_NODE_RANGE,
         min_depth = tm_min_depth treeidmap,
         max_depth = tm_max_depth treeidmap,
         depth_strings = malloc (string_count * string_length),
         depth_string_count = string_count,
         depth_string_length = string_length,
         next_depth_string = 0,
         temp_coloured_depth_string = malloc (string_length + 1)\<rparr>)"

subsection \<open>Regions of the segmenter\<close>

definition region_at :: "World \<Rightarrow> nat \<Rightarrow> Region option" where
  "region_at w r = get_region (seg w) r"

definition set_region :: "World \<Rightarrow> nat \<Rightarrow> (Region \<Rightarrow> Region) \<Rightarrow> World option" where
  "set_region w r f = do { s \<leftarrow> upd_region (seg w) r f; Some (w\<lparr>seg := s\<rparr>) }"

text \<open>The search loop of the \<open>r1_adjacent_contains_r2\<close> of this file.\<close>

definition has_neighbour :: "World \<Rightarrow> nat \<Rightarrow> nat \<Rightarrow> bool option" where
  "has_neighbour w r1 r2 = do {
     x \<leftarrow> region_at w r1;
     Some (adjacent_list_contains (adjacent_regions x) r2)
   }"

subsection \<open>Propagation upwards\<close>

text \<open>
  The loop over the adjacent regions: traversed ones are counted in, any other one is the
  parent, of which there may be only one.
\<close>

fun propagate_loop :: "World \<Rightarrow> nat \<Rightarrow> nat list \<Rightarrow> nat option \<Rightarrow> (World \<times> nat option) option" where
  "propagate_loop w r [] parent = Some (w, parent)"
| "propagate_loop w r (adjacent # rest) parent = do {
     c \<leftarrow> has_neighbour w adjacent r;
     c_assert c;
     a \<leftarrow> region_at w adjacent;
     if level a = TRAVERSED then do {
       w \<leftarrow> set_region w r (\<lambda>x. x\<lparr>
              descendent_count := to_short (descendent_count x + to_short (descendent_count a + 1))\<rparr>);
       w \<leftarrow> set_region w r (\<lambda>x. x\<lparr>depth := to_short (if depth x > depth a + 1 then depth x else depth a + 1)\<rparr>);
       propagate_loop w r rest parent
     } else do {
       c_assert (parent = None);
       propagate_loop w r rest (Some adjacent)
     }
   }"

definition PROPAGATE_BLOCK_FLAGS :: "32 word" where
  "PROPAGATE_BLOCK_FLAGS = SATURATED_REGION_FLAG OR ADJACENT_TO_ROOT_REGION_FLAG OR FREE_REGION_FLAG"

definition ROOT_OR_FRAGMENTED_FLAGS :: "32 word" where
  "ROOT_OR_FRAGMENTED_FLAGS = ADJACENT_TO_ROOT_REGION_FLAG OR FRAGMENTED_REGION_FLAG"

text \<open>The guard of the recursive call: all children of \<open>parent\<close> have been visited.\<close>

definition parent_ready :: "Region \<Rightarrow> bool" where
  "parent_ready p \<longleftrightarrow> \<not> flag_set (flags p) SATURATED_REGION_FLAG \<and>
     (\<not> flag_set (flags p) ROOT_OR_FRAGMENTED_FLAGS \<and>
        children_visited_count p = int (adjacent_region_count p) - 1 \<or>
      flag_set (flags p) ROOT_OR_FRAGMENTED_FLAGS \<and>
        children_visited_count p = int (adjacent_region_count p))"

text \<open>
  \<open>propagate_descendent_count_and_max_depth_upwards\<close> up to its recursive call, which is the
  last statement: the result is the region of that call, if it is made.
\<close>

definition propagate_step :: "FidtrackerX \<Rightarrow> World \<Rightarrow> nat \<Rightarrow> (World \<times> nat option) option" where
  "propagate_step ft w r = do {
     x \<leftarrow> region_at w r;
     c_assert (level x = NOT_TRAVERSED);
     c_assert (children_visited_count x = int (adjacent_region_count x) - 1 \<or>
               children_visited_count x = int (adjacent_region_count x));
     w \<leftarrow> set_region w r (\<lambda>x. x\<lparr>descendent_count := 0, depth := 0, level := TRAVERSING\<rparr>);
     (w, parent) \<leftarrow> propagate_loop w r (adjacent_regions x) None;
     w \<leftarrow> set_region w r (\<lambda>x. x\<lparr>level := TRAVERSED\<rparr>);
     x \<leftarrow> region_at w r;
     let depth_fits = (depth x \<ge> min_depth ft \<and> depth x \<le> max_depth ft);
     if descendent_count x = max_target_root_descendent_count ft \<and> depth_fits
     then do {
       w \<leftarrow> link_region w root_regions_head (Reg r);
       Some (w, None)
     } else do {
       w \<leftarrow> (if descendent_count x \<ge> min_target_root_descendent_count ft \<and>
               descendent_count x < max_target_root_descendent_count ft \<and> depth_fits
             then link_region w root_regions_head (Reg r)
             else if descendent_count x \<ge> min_target_root_descendent_range ft \<and>
               descendent_count x < max_target_root_descendent_range ft \<and> depth_fits
             then do {
               w \<leftarrow> set_region w r (\<lambda>x. x\<lparr>flags := flags x OR LOST_SYMBOL_FLAG\<rparr>);
               link_region w root_regions_head (Reg r)
             } else Some w);
       x \<leftarrow> region_at w r;
       case parent of
         None \<Rightarrow> Some (w, None)
       | Some parent \<Rightarrow>
           if \<not> flag_set (flags x) PROPAGATE_BLOCK_FLAGS then do {
             w \<leftarrow> set_region w parent (\<lambda>p. p\<lparr>children_visited_count := to_short (children_visited_count p + 1)\<rparr>);
             if descendent_count x < max_target_root_descendent_count ft \<and> depth x < max_depth ft then do {
               p \<leftarrow> region_at w parent;
               if parent_ready p then do {
                 c1 \<leftarrow> has_neighbour w r parent;
                 c_assert c1;
                 c2 \<leftarrow> has_neighbour w parent r;
                 c_assert c2;
                 Some (w, Some parent)
               } else Some (w, None)
             } else Some (w, None)
           } else Some (w, None)
     }
   }"

partial_function (option) propagate_descendent_count_and_max_depth_upwards ::
  "FidtrackerX \<Rightarrow> World \<Rightarrow> nat \<Rightarrow> World option" where
  "propagate_descendent_count_and_max_depth_upwards ft w r = do {
     (w, call) \<leftarrow> propagate_step ft w r;
     case call of
       None \<Rightarrow> Some w
     | Some parent \<Rightarrow> propagate_descendent_count_and_max_depth_upwards ft w parent
   }"

declare propagate_descendent_count_and_max_depth_upwards.simps [code]

subsection \<open>Finding the roots\<close>

text \<open>\<open>sanity_check_region_initial_values\<close>, from region \<open>i\<close> on.\<close>

fun sanity_check_from :: "World \<Rightarrow> nat \<Rightarrow> nat \<Rightarrow> unit option" where
  "sanity_check_from w i 0 = Some ()"
| "sanity_check_from w i (Suc n) = do {
     r \<leftarrow> region_at w i;
     c_assert (level r = NOT_TRAVERSED);
     c_assert (children_visited_count r = 0);
     c_assert (descendent_count r = 32767);
     sanity_check_from w (Suc i) n
   }"

definition sanity_check_region_initial_values :: "World \<Rightarrow> unit option" where
  "sanity_check_region_initial_values w = sanity_check_from w 0 (region_count (seg w))"

definition LEAF_BLOCK_FLAGS :: "32 word" where
  "LEAF_BLOCK_FLAGS = SATURATED_REGION_FLAG OR FRAGMENTED_REGION_FLAG OR
     ADJACENT_TO_ROOT_REGION_FLAG OR FREE_REGION_FLAG"

text \<open>The loop of \<open>find_roots\<close>, from region \<open>i\<close> on.\<close>

fun find_roots_from :: "FidtrackerX \<Rightarrow> World \<Rightarrow> nat \<Rightarrow> nat \<Rightarrow> World option" where
  "find_roots_from ft w i 0 = Some w"
| "find_roots_from ft w i (Suc n) = do {
     r \<leftarrow> region_at w i;
     w \<leftarrow> (if adjacent_region_count r = 1 \<and> \<not> flag_set (flags r) LEAF_BLOCK_FLAGS then do {
             c_assert (level r = NOT_TRAVERSED);
             c_assert (children_visited_count r = 0);
             propagate_descendent_count_and_max_depth_upwards ft w i
           } else Some w);
     find_roots_from ft w (Suc i) n
   }"

definition find_roots :: "FidtrackerX \<Rightarrow> World \<Rightarrow> World option" where
  "find_roots ft w = do {
     sanity_check_region_initial_values w;
     find_roots_from ft w 0 (region_count (seg w))
   }"

end
