(* ===== verification/FidtrackTree.thy ===== *)
theory FidtrackTree
  imports FidtrackX Buffers "HOL-Library.List_Lexorder"
begin

text \<open>
  \<^verbatim>\<open>fidtrackX.c\<close>, the functions that walk down a tree that \<open>find_roots\<close> found: \<open>set_depth\<close>
  and \<open>build_left_heavy_depth_string\<close>. A recursive call only goes to a region with a
  smaller descendent count; the fuel bounds the depth of the recursion, and a call without
  fuel is a recursion that does not end.
\<close>

subsection \<open>Depths\<close>

fun set_depth_rec :: "nat \<Rightarrow> World \<Rightarrow> nat \<Rightarrow> int \<Rightarrow> World option"
  and set_depth_loop :: "nat \<Rightarrow> World \<Rightarrow> nat \<Rightarrow> nat list \<Rightarrow> int \<Rightarrow> World option" where
  "set_depth_rec 0 w r d = None"
| "set_depth_rec (Suc k) w r d = do {
     let child_depth = to_short (d + 1);
     w \<leftarrow> set_region w r (\<lambda>x. x\<lparr>depth := d\<rparr>);
     x \<leftarrow> region_at w r;
     if adjacent_region_count x \<noteq> 1 then set_depth_loop k w r (adjacent_regions x) child_depth
     else Some w
   }"
| "set_depth_loop k w r [] child_depth = Some w"
| "set_depth_loop k w r (adjacent # rest) child_depth = do {
     x \<leftarrow> region_at w r;
     a \<leftarrow> region_at w adjacent;
     w \<leftarrow> (if descendent_count a < descendent_count x then set_depth_rec k w adjacent child_depth else Some w);
     set_depth_loop k w r rest child_depth
   }"

definition set_depth :: "World \<Rightarrow> nat \<Rightarrow> int \<Rightarrow> World option" where
  "set_depth w r d = set_depth_rec (Suc (length (regions (seg w)))) w r d"

subsection \<open>C strings\<close>

definition NUL :: char where "NUL = CHR 0x00"

text \<open>The characters of a string at an address; a string that is not terminated is a fault.\<close>

definition c_string :: "char list \<Rightarrow> int \<Rightarrow> string option" where
  "c_string mem p =
     (if 0 \<le> p \<and> NUL \<in> set (drop (nat p) mem) then Some (takeWhile (\<lambda>c. c \<noteq> NUL) (drop (nat p) mem)) else None)"

text \<open>\<open>strcmp\<close> compares as unsigned characters; only the sign of its result is specified.\<close>

definition strcmp :: "string \<Rightarrow> string \<Rightarrow> int" where
  "strcmp a b = (if a < b then - 1 else if b < a then 1 else 0)"

text \<open>\<open>(char)( '0' + depth )\<close>.\<close>

definition depth_char :: "int \<Rightarrow> char" where
  "depth_char d = char_of (nat ((48 + d) mod 256))"

subsection \<open>The left heavy depth string\<close>

text \<open>
  The comparison of two regions by their strings. It is only called on regions whose
  pointer is null or leads to a string, which the caller checks first.
\<close>

definition string_of_region :: "FidtrackerX \<Rightarrow> World \<Rightarrow> nat \<Rightarrow> string option" where
  "string_of_region ft w r = (case depth_string (reg (seg w) r) of
     None \<Rightarrow> None | Some p \<Rightarrow> c_string (depth_strings ft) (int p))"

definition depth_string_cmp :: "FidtrackerX \<Rightarrow> World \<Rightarrow> nat \<Rightarrow> nat \<Rightarrow> int" where
  "depth_string_cmp ft w a b = (case string_of_region ft w a of
     None \<Rightarrow> (case string_of_region ft w b of None \<Rightarrow> 0 | Some y \<Rightarrow> 1)
   | Some x \<Rightarrow> (case string_of_region ft w b of None \<Rightarrow> - 1 | Some y \<Rightarrow> - strcmp x y))"

definition comparable :: "FidtrackerX \<Rightarrow> World \<Rightarrow> nat \<Rightarrow> bool" where
  "comparable ft w a \<longleftrightarrow> a < length (regions (seg w)) \<and>
     (case depth_string (reg (seg w) a) of None \<Rightarrow> True | Some p \<Rightarrow> c_string (depth_strings ft) (int p) \<noteq> None)"

text \<open>\<open>while( *p2 ) *p++ = *p2++\<close>; it ends at the end of memory at the latest.\<close>

fun copy_string :: "nat \<Rightarrow> char list \<Rightarrow> int \<Rightarrow> int \<Rightarrow> (char list \<times> int) option" where
  "copy_string 0 mem p p2 = None"
| "copy_string (Suc k) mem p p2 = do {
     c \<leftarrow> rd mem p2;
     if c = NUL then Some (mem, p) else do {
       mem \<leftarrow> wr mem p c;
       copy_string k mem (p + 1) (p2 + 1)
     }
   }"

text \<open>The second loop: the strings of the adjacent regions are appended in their new order.\<close>

fun append_strings :: "FidtrackerX \<Rightarrow> World \<Rightarrow> nat list \<Rightarrow> int \<Rightarrow> (FidtrackerX \<times> World \<times> int) option" where
  "append_strings ft w [] p = Some (ft, w, p)"
| "append_strings ft w (adjacent # rest) p = do {
     a \<leftarrow> region_at w adjacent;
     case depth_string a of
       None \<Rightarrow> append_strings ft w rest p
     | Some p2 \<Rightarrow> do {
         (mem, p) \<leftarrow> copy_string (Suc (length (depth_strings ft))) (depth_strings ft) p (int p2);
         w \<leftarrow> set_region w adjacent (\<lambda>x. x\<lparr>depth_string := None\<rparr>);
         append_strings (ft\<lparr>depth_strings := mem\<rparr>) w rest p
       }
   }"

type_synonym qsort_fun = "(nat \<Rightarrow> nat \<Rightarrow> int) \<Rightarrow> nat list \<Rightarrow> nat list"

text \<open>
  The result is the address of the string. \<open>qsort\<close> is a parameter because the order of equal
  elements is not specified.
\<close>

fun build_string_rec :: "qsort_fun \<Rightarrow> nat \<Rightarrow> FidtrackerX \<Rightarrow> World \<Rightarrow> nat \<Rightarrow> (int \<times> FidtrackerX \<times> World) option"
  and build_string_loop :: "qsort_fun \<Rightarrow> nat \<Rightarrow> FidtrackerX \<Rightarrow> World \<Rightarrow> nat \<Rightarrow> nat list \<Rightarrow> (FidtrackerX \<times> World) option" where
  "build_string_rec qsort 0 ft w r = None"
| "build_string_rec qsort (Suc k) ft w r = do {
     x \<leftarrow> region_at w r;
     let result = depth_string_length ft * next_depth_string ft;
     let ft = ft\<lparr>next_depth_string := next_depth_string ft + 1\<rparr>;
     mem \<leftarrow> wr (depth_strings ft) result (depth_char (depth x));
     mem \<leftarrow> wr mem (result + 1) NUL;
     let ft = ft\<lparr>depth_strings := mem\<rparr>;
     let p = result + 1;
     if adjacent_region_count x \<noteq> 1 then do {
       (ft, w) \<leftarrow> build_string_loop qsort k ft w r (adjacent_regions x);
       x \<leftarrow> region_at w r;
       c_assert (\<forall>a \<in> set (adjacent_regions x). comparable ft w a);
       let sorted = qsort (depth_string_cmp ft w) (adjacent_regions x);
       w \<leftarrow> set_region w r (\<lambda>x. x\<lparr>adjacent_regions := sorted\<rparr>);
       (ft, w, p) \<leftarrow> append_strings ft w sorted p;
       mem \<leftarrow> wr (depth_strings ft) p NUL;
       Some (result, ft\<lparr>depth_strings := mem\<rparr>, w)
     } else Some (result, ft, w)
   }"
| "build_string_loop qsort k ft w r [] = Some (ft, w)"
| "build_string_loop qsort k ft w r (adjacent # rest) = do {
     x \<leftarrow> region_at w r;
     a \<leftarrow> region_at w adjacent;
     if level a = TRAVERSED \<and> descendent_count a < descendent_count x then do {
       (str, ft, w) \<leftarrow> build_string_rec qsort k ft w adjacent;
       w \<leftarrow> set_region w adjacent (\<lambda>a. a\<lparr>depth_string := Some (nat str)\<rparr>);
       build_string_loop qsort k ft w r rest
     } else do {
       w \<leftarrow> set_region w adjacent (\<lambda>a. a\<lparr>depth_string := None\<rparr>);
       build_string_loop qsort k ft w r rest
     }
   }"

definition build_left_heavy_depth_string ::
  "qsort_fun \<Rightarrow> FidtrackerX \<Rightarrow> World \<Rightarrow> nat \<Rightarrow> (int \<times> FidtrackerX \<times> World) option" where
  "build_left_heavy_depth_string qsort ft w r = build_string_rec qsort (Suc (length (regions (seg w)))) ft w r"

end
