(* ===== verification/TreeIdMap.thy ===== *)
theory TreeIdMap
  imports FidtrackTree
begin

text \<open>
  \<^verbatim>\<open>treeidmap.cpp\<close>, \<^verbatim>\<open>default_trees.h\<close>: the identifiers of the trees, read from a file or taken
  from the built-in table. The \<open>std::map\<close> is an association list of its elements, of which
  only insertion, search and size are used; the text of a file is a string.
\<close>

subsection \<open>The program\<close>

text \<open>\<open>s[i] - '0'\<close>, with a signed \<open>char\<close>.\<close>

definition digit_value :: "char \<Rightarrow> int" where
  "digit_value c = (let n = of_char c in if n < 128 then n else n - 256) - 48"

fun max_depth_loop :: "string \<Rightarrow> int \<Rightarrow> int" where
  "max_depth_loop [] result = result"
| "max_depth_loop (c # cs) result = max_depth_loop cs (if digit_value c > result then digit_value c else result)"

definition find_maximum_tree_depth :: "string \<Rightarrow> int" where
  "find_maximum_tree_depth s = max_depth_loop (drop 1 s) 0"

record TreeIdMapImplementation =
  treeIdMap :: "(string \<times> int) list"
  strings :: "string list"

record TreeIdMap = TreeIdMapInfo +
  implementation :: TreeIdMapImplementation

text \<open>\<open>std::map::insert\<close> leaves an element with the same key as it is.\<close>

definition map_insert :: "(string \<times> int) list \<Rightarrow> string \<Rightarrow> int \<Rightarrow> (string \<times> int) list \<times> bool" where
  "map_insert m k v = (case map_of m k of None \<Rightarrow> (m @ [(k, v)], True) | Some v' \<Rightarrow> (m, False))"

text \<open>\<open>strcpy( ss, s.c_str() )\<close> copies up to the first null character.\<close>

definition c_str :: "string \<Rightarrow> string" where
  "c_str s = takeWhile (\<lambda>c. c \<noteq> NUL) s"

text \<open>The variables of the two constructors.\<close>

record TreeMapState =
  impl :: TreeIdMapImplementation
  next_id :: int
  minNodeCount :: int
  maxNodeCount :: int
  minDepth :: int
  maxDepth :: int

definition add_tree :: "string \<Rightarrow> int \<Rightarrow> TreeMapState \<Rightarrow> TreeMapState" where
  "add_tree s depthSequenceLength st = (
     let ss = c_str s;
         st = st\<lparr>impl := (impl st)\<lparr>strings := strings (impl st) @ [ss]\<rparr>\<rparr>;
         (m, inserted) = map_insert (treeIdMap (impl st)) ss (next_id st);
         st = st\<lparr>impl := (impl st)\<lparr>treeIdMap := m\<rparr>, next_id := next_id st + 1\<rparr>
     in if inserted then
       (let st = (if depthSequenceLength < minNodeCount st then st\<lparr>minNodeCount := depthSequenceLength\<rparr> else st);
            st = (if depthSequenceLength > maxNodeCount st then st\<lparr>maxNodeCount := depthSequenceLength\<rparr> else st);
            maxTreeDepth = find_maximum_tree_depth s;
            st = (if maxTreeDepth < minDepth st then st\<lparr>minDepth := maxTreeDepth\<rparr> else st)
        in if maxTreeDepth > maxDepth st then st\<lparr>maxDepth := maxTreeDepth\<rparr> else st)
     else st)"

definition owner_of :: "TreeMapState \<Rightarrow> TreeIdMap" where
  "owner_of st = \<lparr>tree_count = int (length (treeIdMap (impl st))), min_node_count = minNodeCount st,
     max_node_count = maxNodeCount st, tm_min_depth = minDepth st, tm_max_depth = maxDepth st,
     max_adjacencies = maxNodeCount st, implementation = impl st\<rparr>"

definition empty_impl :: TreeIdMapImplementation where
  "empty_impl = \<lparr>treeIdMap = [], strings = []\<rparr>"

text \<open>\<open>is >> s\<close>: white space is skipped, then the characters up to the next white space are
  read; \<open>eof\<close> is set when the end of the file was seen.\<close>

definition isspace :: "char \<Rightarrow> bool" where
  "isspace c \<longleftrightarrow> c \<in> {CHR '' '', CHR 0x09, CHR 0x0A, CHR 0x0B, CHR 0x0C, CHR 0x0D}"

definition read_token :: "string \<Rightarrow> string \<times> string \<times> bool" where
  "read_token content = (
     let content = dropWhile isspace content;
         s = takeWhile (\<lambda>c. \<not> isspace c) content;
         content = dropWhile (\<lambda>c. \<not> isspace c) content
     in (s, content, content = []))"

text \<open>The colour prefix.\<close>

definition coloured_tree :: "string \<Rightarrow> string \<times> int" where
  "coloured_tree s =
     (if hd s = CHR ''w'' \<or> hd s = CHR ''b'' then (s, int (length s) - 1) else (CHR ''w'' # s, int (length s)))"

lemma dropWhile_shorter: "length (dropWhile P xs) \<le> length xs"
  by (induction xs) simp_all

function read_trees :: "string \<Rightarrow> TreeMapState \<Rightarrow> TreeMapState" where
  "read_trees content st = (
     let (s, rest, eof) = read_token content;
         st = (if s = [] then st else (let (s, n) = coloured_tree s in add_tree s n st))
     in if eof then st else read_trees rest st)"
  by auto

termination
proof (relation "measure (length \<circ> fst)")
  show "wf (measure (length \<circ> fst) :: ((string \<times> TreeMapState) \<times> string \<times> TreeMapState) set)" by simp
  fix content st x s y rest eof st'
  assume r: "x = read_token content" "(s, y) = x" "(rest, eof) = y" "\<not> eof"
  let ?t = "dropWhile isspace content"
  have rest: "rest = dropWhile (\<lambda>c. \<not> isspace c) ?t" "rest \<noteq> []"
    using r by (auto simp: read_token_def Let_def)
  then obtain c t where t: "?t = c # t" by (cases ?t) auto
  then have "\<not> isspace c" using hd_dropWhile [of isspace content] by simp
  then have "length rest < length ?t" using rest(1) t dropWhile_shorter [of "\<lambda>c. \<not> isspace c" t] by simp
  then show "((rest, st'), (content, st)) \<in> measure (length \<circ> fst)"
    using dropWhile_shorter [of isspace content] by simp
qed

text \<open>The file is \<open>None\<close> when it cannot be opened.\<close>

definition initialize_treeidmap_from_file :: "string option \<Rightarrow> TreeIdMap" where
  "initialize_treeidmap_from_file file = owner_of (case file of
     None \<Rightarrow> \<lparr>impl = empty_impl, next_id = 0, minNodeCount = 0, maxNodeCount = 0, minDepth = 0, maxDepth = 0\<rparr>
   | Some content \<Rightarrow> read_trees content
       \<lparr>impl = empty_impl, next_id = 0, minNodeCount = 32767, maxNodeCount = 0, minDepth = 32767, maxDepth = 0\<rparr>)"

definition default_tree :: "string list" where
  "default_tree = [
     ''w0122222212212121111'', ''w0122212221222121111'', ''w0122212221221221111'', ''w0122212221212121111'',
     ''w0122222212221211111'', ''w0122221221221221111'', ''w0122212212212211111'', ''w0122221222122121111'',
     ''w0122222222212111111'', ''w0122221221212121111'', ''w0122222122221211111'', ''w0122221222122211111'',
     ''w0122222222222121111'', ''w0122221212121211111'', ''w0122222121212121111'', ''w0122222121212111111'',
     ''w0122212212212121111'', ''w0122222212222211111'', ''w0122222212212211111'', ''w0122221222121211111'',
     ''w0122222221221221111'', ''w0122222122222121111'', ''w0122222222212211111'', ''w0122212212121211111'',
     ''w0122222212222121111'', ''w0122122122121211111'', ''w0122222212121211111'', ''w0122222222122211111'',
     ''w0122221221221211111'', ''w0122222222222211111'', ''w0122222122212111111'', ''w0122212221212111111'',
     ''w0122222122122111111'', ''w0122212121212121111'', ''w0122222221212111111'', ''w0122222221221211111'',
     ''w0122222212222111111'', ''w0122222221222211111'', ''w0122212212212111111'', ''w0122222212221221111'',
     ''w0122221222122111111'', ''w0122222222122121111'', ''w0122221222212111111'', ''w0122222222122111111'',
     ''w0122222222222221111'', ''w0122222122212121111'', ''w0122222122122121111'', ''w0122222222121211111'',
     ''w0122212221221211111'', ''w0121212121212121111'', ''w0122222222212221111'', ''w0122222222221211111'',
     ''w0122222222121111111'', ''w0122222221222221111'', ''w0122222222222111111'', ''w0122222212212111111'',
     ''w0122222212222221111'', ''w0122222221212121111'', ''w0122221222212211111'', ''w0122121212121211111'',
     ''w0122222221222121111'', ''w0122222221222111111'', ''w0122222122221221111'', ''w0122122122122111111'',
     ''w0122221222212121111'', ''w0122222122212221111'', ''w0122222122212211111'', ''w0122222222221221111'',
     ''w0122221221221111111'', ''w0122212121212111111'', ''w0122221222212221111'', ''w0122212221221111111'',
     ''w0122222222122221111'', ''w0122221212121111111'', ''w0122122121212121111'', ''w0121212121212111111'',
     ''w0122212221222111111'', ''w0122222222221111111'', ''w0122221221212111111'', ''w0122222222212121111'',
     ''w0122222212221111111'', ''w0122221222211111111'', ''w0122122122122121111'', ''w0122221222121111111'',
     ''w0122222122121211111'', ''w0122222122211111111'', ''w0122222221221111111'', ''w0122222122222111111'',
     ''w0122122121212111111'', ''w0122222212211111111'', ''w0122222222211111111'', ''w0122222222111111111'',
     ''w0122222221211111111'', ''w0122222122221111111'', ''w0122212212121111111'', ''w0122222122121111111'',
     ''w0122222122111111111'', ''w0122222121211111111'', ''w0122222212121111111'', ''w0122222221111111111'',
     ''w0122222212111111111'', ''w0122221222111111111'', ''w0122212221211111111'', ''w0122221221211111111'',
     ''w0122122122121111111'', ''w0122212212211111111'', ''w0122121212121111111'', ''w0122212121211111111'',
     ''b0122222212212121111'', ''b0122212221222121111'', ''b0122212221221221111'', ''b0122212221212121111'',
     ''b0122222212221211111'', ''b0122221221221221111'', ''b0122212212212211111'', ''b0122221222122121111'',
     ''b0122222222212111111'', ''b0122221221212121111'', ''b0122222122221211111'', ''b0122221222122211111'',
     ''b0122222222222121111'', ''b0122221212121211111'', ''b0122222121212121111'', ''b0122222121212111111'',
     ''b0122212212212121111'', ''b0122222212222211111'', ''b0122222212212211111'', ''b0122221222121211111'',
     ''b0122222221221221111'', ''b0122222122222121111'', ''b0122222222212211111'', ''b0122212212121211111'',
     ''b0122222212222121111'', ''b0122122122121211111'', ''b0122222212121211111'', ''b0122222222122211111'',
     ''b0122221221221211111'', ''b0122222222222211111'', ''b0122222122212111111'', ''b0122212221212111111'',
     ''b0122222122122111111'', ''b0122212121212121111'', ''b0122222221212111111'', ''b0122222221221211111'',
     ''b0122222212222111111'', ''b0122222221222211111'', ''b0122212212212111111'', ''b0122222212221221111'',
     ''b0122221222122111111'', ''b0122222222122121111'', ''b0122221222212111111'', ''b0122222222122111111'',
     ''b0122222222222221111'', ''b0122222122212121111'', ''b0122222122122121111'', ''b0122222222121211111'',
     ''b0122212221221211111'', ''b0121212121212121111'', ''b0122222222212221111'', ''b0122222222221211111'',
     ''b0122222222121111111'', ''b0122222221222221111'', ''b0122222222222111111'', ''b0122222212212111111'',
     ''b0122222212222221111'', ''b0122222221212121111'', ''b0122221222212211111'', ''b0122121212121211111'',
     ''b0122222221222121111'', ''b0122222221222111111'', ''b0122222122221221111'', ''b0122122122122111111'',
     ''b0122221222212121111'', ''b0122222122212221111'', ''b0122222122212211111'', ''b0122222222221221111'',
     ''b0122221221221111111'', ''b0122212121212111111'', ''b0122221222212221111'', ''b0122212221221111111'',
     ''b0122222222122221111'', ''b0122221212121111111'', ''b0122122121212121111'', ''b0121212121212111111'',
     ''b0122212221222111111'', ''b0122222222221111111'', ''b0122221221212111111'', ''b0122222222212121111'',
     ''b0122222212221111111'', ''b0122221222211111111'', ''b0122122122122121111'', ''b0122221222121111111'',
     ''b0122222122121211111'', ''b0122222122211111111'', ''b0122222221221111111'', ''b0122222122222111111'',
     ''b0122122121212111111'', ''b0122222212211111111'', ''b0122222222211111111'', ''b0122222222111111111'',
     ''b0122222221211111111'', ''b0122222122221111111'', ''b0122212212121111111'', ''b0122222122121111111'',
     ''b0122222122111111111'', ''b0122222121211111111'', ''b0122222212121111111'', ''b0122222221111111111'',
     ''b0122222212111111111'', ''b0122221222111111111'', ''b0122212221211111111'', ''b0122221221211111111'',
     ''b0122122122121111111'', ''b0122212212211111111'', ''b0122121212121111111'', ''b0122212121211111111'']"

fun add_default_trees :: "string list \<Rightarrow> TreeMapState \<Rightarrow> TreeMapState" where
  "add_default_trees [] st = st"
| "add_default_trees (s # rest) st = add_default_trees rest (add_tree s (int (length s) - 1) st)"

definition initialize_treeidmap :: TreeIdMap where
  "initialize_treeidmap = owner_of (add_default_trees default_tree
     \<lparr>impl = empty_impl, next_id = 0, minNodeCount = 32767, maxNodeCount = 0, minDepth = 32767, maxDepth = 0\<rparr>)"

definition INVALID_TREE_ID :: int where "INVALID_TREE_ID = - 1"

definition treestring_to_id :: "TreeIdMap \<Rightarrow> string \<Rightarrow> int" where
  "treestring_to_id m treestring = (case map_of (treeIdMap (implementation m)) treestring of
     Some i \<Rightarrow> i | None \<Rightarrow> INVALID_TREE_ID)"

end
