(* ===== verification/Ieee.thy ===== *)
theory Ieee
  imports Prelude "HOL-Library.Log_Nat"
begin

text \<open>
  The floating point arithmetic of C on the platforms of the program: IEEE 754 binary64 for
  \<open>double\<close> and binary32 for \<open>float\<close>, rounding to nearest, ties to even, without excess
  precision. A number is its sign and its magnitude, so that the zeros are told apart.
\<close>

datatype ieee = Num bool rat | Inf bool | NaN

text \<open>The number of bits of a significand, and the least and the largest exponent of its last bit.\<close>

type_synonym format = "int \<times> int \<times> int"

definition binary64 :: format where "binary64 = (53, - 1074, 971)"
definition binary32 :: format where "binary32 = (24, - 149, 104)"

subsection \<open>Rounding\<close>

definition ilog2 :: "rat \<Rightarrow> int" where
  "ilog2 q = (let (a, b) = quotient_of q; k = bitlen a - bitlen b in if 2 powi k \<le> q then k else k - 1)"

definition round_even :: "rat \<Rightarrow> int" where
  "round_even q = (let n = \<lfloor>q\<rfloor>; d = q - of_int n in
     if d < 1 / 2 then n else if d > 1 / 2 then n + 1 else if even n then n else n + 1)"

text \<open>A magnitude.\<close>

definition round_mag :: "format \<Rightarrow> rat \<Rightarrow> rat" where
  "round_mag = (\<lambda>(p, emin, emax) q. let e = max emin (ilog2 q - (p - 1)) in of_int (round_even (q / 2 powi e)) * 2 powi e)"

definition ieee_round :: "format \<Rightarrow> bool \<Rightarrow> rat \<Rightarrow> ieee" where
  "ieee_round = (\<lambda>(p, emin, emax) s q.
     if q = 0 then Num s 0
     else (let v = round_mag (p, emin, emax) q in if v \<ge> 2 powi (p + emax) then Inf s else Num s v))"

text \<open>A rational number; \<open>z\<close> is the sign of a zero.\<close>

definition of_value :: "format \<Rightarrow> bool \<Rightarrow> rat \<Rightarrow> ieee" where
  "of_value fmt z v = (if v = 0 then Num z 0 else ieee_round fmt (v < 0) \<bar>v\<bar>)"

fun sgn_val :: "bool \<Rightarrow> rat \<Rightarrow> rat" where
  "sgn_val s m = (if s then - m else m)"

subsection \<open>Operations\<close>

fun fneg :: "ieee \<Rightarrow> ieee" where
  "fneg (Num s m) = Num (\<not> s) m"
| "fneg (Inf s) = Inf (\<not> s)"
| "fneg NaN = NaN"

fun fabs :: "ieee \<Rightarrow> ieee" where
  "fabs (Num s m) = Num False m"
| "fabs (Inf s) = Inf False"
| "fabs NaN = NaN"

fun fadd :: "format \<Rightarrow> ieee \<Rightarrow> ieee \<Rightarrow> ieee" where
  "fadd fmt (Num s m) (Num t n) = of_value fmt (s \<and> t) (sgn_val s m + sgn_val t n)"
| "fadd fmt (Inf s) (Inf t) = (if s = t then Inf s else NaN)"
| "fadd fmt (Inf s) (Num t n) = Inf s"
| "fadd fmt (Num s m) (Inf t) = Inf t"
| "fadd fmt NaN y = NaN"
| "fadd fmt x NaN = NaN"

definition fsub :: "format \<Rightarrow> ieee \<Rightarrow> ieee \<Rightarrow> ieee" where
  "fsub fmt x y = fadd fmt x (fneg y)"

fun fmul :: "format \<Rightarrow> ieee \<Rightarrow> ieee \<Rightarrow> ieee" where
  "fmul fmt (Num s m) (Num t n) = ieee_round fmt (s \<noteq> t) (m * n)"
| "fmul fmt (Inf s) (Inf t) = Inf (s \<noteq> t)"
| "fmul fmt (Inf s) (Num t n) = (if n = 0 then NaN else Inf (s \<noteq> t))"
| "fmul fmt (Num s m) (Inf t) = (if m = 0 then NaN else Inf (s \<noteq> t))"
| "fmul fmt NaN y = NaN"
| "fmul fmt x NaN = NaN"

fun fdiv :: "format \<Rightarrow> ieee \<Rightarrow> ieee \<Rightarrow> ieee" where
  "fdiv fmt (Num s m) (Num t n) =
     (if n = 0 then if m = 0 then NaN else Inf (s \<noteq> t) else ieee_round fmt (s \<noteq> t) (m / n))"
| "fdiv fmt (Inf s) (Inf t) = NaN"
| "fdiv fmt (Inf s) (Num t n) = Inf (s \<noteq> t)"
| "fdiv fmt (Num s m) (Inf t) = Num (s \<noteq> t) 0"
| "fdiv fmt NaN y = NaN"
| "fdiv fmt x NaN = NaN"

text \<open>\<open>x < y\<close>; a comparison with a NaN is false.\<close>

fun fless :: "ieee \<Rightarrow> ieee \<Rightarrow> bool" where
  "fless (Num s m) (Num t n) \<longleftrightarrow> sgn_val s m < sgn_val t n"
| "fless (Inf s) (Inf t) \<longleftrightarrow> s \<and> \<not> t"
| "fless (Inf s) (Num t n) \<longleftrightarrow> s"
| "fless (Num s m) (Inf t) \<longleftrightarrow> \<not> t"
| "fless NaN y \<longleftrightarrow> False"
| "fless x NaN \<longleftrightarrow> False"

fun feq :: "ieee \<Rightarrow> ieee \<Rightarrow> bool" where
  "feq (Num s m) (Num t n) \<longleftrightarrow> sgn_val s m = sgn_val t n"
| "feq (Inf s) (Inf t) \<longleftrightarrow> s = t"
| "feq _ _ \<longleftrightarrow> False"

definition fleq :: "ieee \<Rightarrow> ieee \<Rightarrow> bool" where
  "fleq x y \<longleftrightarrow> fless x y \<or> feq x y"

subsection \<open>Conversions\<close>

text \<open>From another format, and from an integer.\<close>

fun fconv :: "format \<Rightarrow> ieee \<Rightarrow> ieee" where
  "fconv fmt (Num s m) = ieee_round fmt s m"
| "fconv fmt x = x"

definition fint :: "format \<Rightarrow> int \<Rightarrow> ieee" where
  "fint fmt i = of_value fmt False (of_int i)"

text \<open>To a 32 bit \<open>int\<close>: the fraction is cut off, a value out of range is a fault.\<close>

fun to_int32 :: "ieee \<Rightarrow> int option" where
  "to_int32 (Num s m) = (let i = (if s then - \<lfloor>m\<rfloor> else \<lfloor>m\<rfloor>) in if - 2147483648 \<le> i \<and> i \<le> 2147483647 then Some i else None)"
| "to_int32 (Inf s) = None"
| "to_int32 NaN = None"

subsection \<open>Bounds\<close>

lemma bitlen_powi:
  assumes "0 < x"
  shows "2 powi (bitlen x - 1) \<le> (of_int x :: rat)" "(of_int x :: rat) < 2 powi (bitlen x)"
proof -
  have l: "1 \<le> bitlen x" using assms bitlen_eq_zero_iff [of x] bitlen_nonneg [of x] by linarith
  note b = bitlen_bounds [OF assms]
  have p: "2 powi k = (of_int (2 ^ nat k) :: rat)" if "0 \<le> k" for k
    using that by (simp add: power_int_def)
  show "2 powi (bitlen x - 1) \<le> (of_int x :: rat)" using b l by (simp only: p of_int_le_iff)
  show "(of_int x :: rat) < 2 powi (bitlen x)" using b l by (simp only: p of_int_less_iff)
qed

lemma ilog2_bounds:
  assumes "0 < q"
  shows "2 powi (ilog2 q) \<le> q" "q < 2 powi (ilog2 q + 1)"
proof -
  obtain a b where ab: "quotient_of q = (a, b)" by (cases "quotient_of q")
  have b: "0 < b" and q: "q = of_int a / of_int b" using quotient_of_denom_pos [OF ab] quotient_of_div [OF ab] by auto
  then have a: "0 < a" using assms by (simp add: zero_less_divide_iff)
  let ?k = "bitlen a - bitlen b"
  note A = bitlen_powi [OF a] and B = bitlen_powi [OF b]
  have split: "2 powi (i - j) * 2 powi j = (2 powi i :: rat)" for i j
    by (simp add: power_int_add [symmetric])
  have bq: "0 < (of_int b :: rat)" using b by simp
  have "2 powi (?k - 1) * of_int b < (2 powi (?k - 1) * 2 powi bitlen b :: rat)"
    using B(2) by (intro mult_strict_left_mono) simp_all
  also have "\<dots> = 2 powi (bitlen a - 1)" using split [of "bitlen a - 1" "bitlen b"] by (simp add: algebra_simps)
  finally have lo: "2 powi (?k - 1) < q" using A(1) bq by (simp add: q pos_less_divide_eq)
  have "of_int a < (2 powi bitlen a :: rat)" by (rule A(2))
  also have "\<dots> = 2 powi (?k + 1) * 2 powi (bitlen b - 1)" using split [of "bitlen a" "bitlen b - 1"] by (simp add: algebra_simps)
  also have "\<dots> \<le> 2 powi (?k + 1) * of_int b" using B(1) by (intro mult_left_mono) simp_all
  finally have hi: "q < 2 powi (?k + 1)" using bq by (simp add: q pos_divide_less_eq)
  show "2 powi (ilog2 q) \<le> q" "q < 2 powi (ilog2 q + 1)"
    using lo hi by (auto simp: ilog2_def ab Let_def)
qed

lemma ilog2_less: "0 < q \<Longrightarrow> q < 2 powi k \<Longrightarrow> ilog2 q < k"
  using ilog2_bounds(1) [of q] power_int_increasing [of k "ilog2 q" "2 :: rat"] by fastforce

lemma round_even_le: "q \<le> of_int m \<Longrightarrow> round_even q \<le> m"
  unfolding round_even_def Let_def by (auto simp: floor_le_iff)

lemma round_even_ge: "of_int m \<le> q \<Longrightarrow> m \<le> round_even q"
proof -
  assume "of_int m \<le> q"
  then have "m \<le> \<lfloor>q\<rfloor>" by (simp add: le_floor_iff)
  then show ?thesis by (simp add: round_even_def Let_def)
qed

text \<open>Rounding does not pass an integer, as long as the integers can be represented.\<close>

lemma round_mag_int:
  assumes "0 < q" "q < 2 powi p" "emin \<le> 0"
  shows "q \<le> of_int m \<Longrightarrow> round_mag (p, emin, emax) q \<le> of_int m"
    "of_int m \<le> q \<Longrightarrow> of_int m \<le> round_mag (p, emin, emax) q"
proof -
  let ?e = "max emin (ilog2 q - (p - 1))"
  have e: "?e \<le> 0" using ilog2_less [OF assms(1,2)] assms(3) by simp
  have pos: "0 < (2 powi ?e :: rat)" by simp
  have up: "of_int m / 2 powi ?e = (of_int (m * 2 ^ nat (- ?e)) :: rat)"
    using e by (simp add: power_int_def field_simps split: if_splits)
  have down: "of_int (m * 2 ^ nat (- ?e)) * 2 powi ?e = (of_int m :: rat)"
    unfolding up [symmetric] by simp
  show "round_mag (p, emin, emax) q \<le> of_int m" if "q \<le> of_int m"
  proof -
    have "q / 2 powi ?e \<le> of_int m / 2 powi ?e" using that pos by (simp add: divide_right_mono)
    then have "round_even (q / 2 powi ?e) \<le> m * 2 ^ nat (- ?e)" unfolding up by (rule round_even_le)
    then have "of_int (round_even (q / 2 powi ?e)) \<le> (of_int (m * 2 ^ nat (- ?e)) :: rat)" by (simp only: of_int_le_iff)
    then have "of_int (round_even (q / 2 powi ?e)) * 2 powi ?e \<le> (of_int (m * 2 ^ nat (- ?e)) * 2 powi ?e :: rat)"
      using pos by (simp add: mult_right_mono)
    then show ?thesis unfolding down by (simp add: round_mag_def Let_def)
  qed
  show "of_int m \<le> round_mag (p, emin, emax) q" if "of_int m \<le> q"
  proof -
    have "of_int m / 2 powi ?e \<le> q / 2 powi ?e" using that pos by (simp add: divide_right_mono)
    then have "m * 2 ^ nat (- ?e) \<le> round_even (q / 2 powi ?e)" unfolding up by (rule round_even_ge)
    then have "of_int (m * 2 ^ nat (- ?e)) \<le> (of_int (round_even (q / 2 powi ?e)) :: rat)" by (simp only: of_int_le_iff)
    then have "of_int (m * 2 ^ nat (- ?e)) * 2 powi ?e \<le> (of_int (round_even (q / 2 powi ?e)) * 2 powi ?e :: rat)"
      using pos by (simp add: mult_right_mono)
    then show ?thesis unfolding down by (simp add: round_mag_def Let_def)
  qed
qed

text \<open>A double between two integers.\<close>

fun between :: "ieee \<Rightarrow> int \<Rightarrow> int \<Rightarrow> bool" where
  "between (Num s v) m n \<longleftrightarrow> \<not> s \<and> of_int m \<le> v \<and> v \<le> of_int n"
| "between x m n \<longleftrightarrow> False"

lemma between_cases:
  assumes "between x m n"
  obtains v where "x = Num False v" "of_int m \<le> v" "v \<le> of_int n"
  using assms by (cases x) auto

abbreviation double_ints :: int where "double_ints \<equiv> 9007199254740992"

lemma round_between:
  assumes "of_int m \<le> q" "q \<le> of_int n" "0 \<le> m" "n < double_ints"
  shows "between (ieee_round binary64 False q) m n"
proof (cases "q = 0")
  case True
  then show ?thesis using assms by (simp add: ieee_round_def binary64_def)
next
  case False
  have "0 \<le> (of_int m :: rat)" using assms(3) by simp
  then have q: "0 < q" using False assms(1) by linarith
  have lim: "of_int n < (2 powi 53 :: rat)" using assms(4) by (simp add: power_int_def flip: of_int_power)
  have "q < 2 powi 53" using lim assms(2) by linarith
  note R = round_mag_int [OF q this, of "- 1074", where emax = 971]
  have r: "of_int m \<le> round_mag (53, - 1074, 971) q" "round_mag (53, - 1074, 971) q \<le> of_int n"
    using R assms(1,2) by simp_all
  have "(2 powi 53 :: rat) \<le> 2 powi (53 + 971)" by (intro power_int_increasing) simp_all
  then have "\<not> 2 powi (53 + 971) \<le> round_mag (53, - 1074, 971) q" using r(2) lim by linarith
  then show ?thesis using r False by (simp add: ieee_round_def binary64_def Let_def)
qed

lemma value_between:
  assumes "of_int m \<le> q" "q \<le> of_int n" "0 \<le> m" "n < double_ints"
  shows "between (of_value binary64 False q) m n"
proof -
  have "0 \<le> (of_int m :: rat)" using assms(3) by simp
  then have "0 \<le> q" using assms(1) by linarith
  then show ?thesis using round_between [OF assms] assms by (auto simp: of_value_def)
qed

lemma fint_between: "0 \<le> i \<Longrightarrow> i < double_ints \<Longrightarrow> fint binary64 i = Num False (of_int i)"
  using value_between [of i "of_int i" i] by (auto simp: fint_def elim!: between_cases)

lemma fadd_between:
  assumes "between x a b" "between y c d" "0 \<le> a" "0 \<le> c" "b + d < double_ints"
  shows "between (fadd binary64 x y) (a + c) (b + d)"
  using assms value_between [of "a + c" _ "b + d"] by (auto elim!: between_cases)

lemma fmul_between:
  assumes "between x a b" "between y c d" "0 \<le> a" "0 \<le> c" "b * d < double_ints"
  shows "between (fmul binary64 x y) (a * c) (b * d)"
proof -
  obtain u v where u: "x = Num False u" "of_int a \<le> u" "u \<le> of_int b" and v: "y = Num False v" "of_int c \<le> v" "v \<le> of_int d"
    using assms(1,2) by (auto elim!: between_cases)
  have nn: "0 \<le> (of_int a :: rat)" "0 \<le> (of_int c :: rat)" using assms(3,4) by simp_all
  have "of_int (a * c) \<le> u * v" "u * v \<le> of_int (b * d)"
    using u v nn by (simp_all add: mult_mono order_trans)
  then show ?thesis using round_between [of "a * c" "u * v" "b * d"] u(1) v(1) assms(3-5) by simp
qed

lemma to_int32_between:
  assumes "between x a b" "0 \<le> a" "b \<le> 2147483647"
  shows "\<exists>i. to_int32 x = Some i \<and> a \<le> i \<and> i \<le> b"
proof -
  obtain v where v: "x = Num False v" "of_int a \<le> v" "v \<le> of_int b" using assms(1) by (auto elim!: between_cases)
  have "a \<le> \<lfloor>v\<rfloor>" "\<lfloor>v\<rfloor> \<le> b" using v(2,3) by (simp_all add: le_floor_iff floor_le_iff)
  then have "- 2147483648 \<le> \<lfloor>v\<rfloor> \<and> \<lfloor>v\<rfloor> \<le> 2147483647" using assms(2,3) by linarith
  then show ?thesis using v(1) \<open>a \<le> \<lfloor>v\<rfloor>\<close> \<open>\<lfloor>v\<rfloor> \<le> b\<close> by (simp only: to_int32.simps Let_def if_False if_True) simp
qed

end
