(* ===== verification/FidtrackStats.thy ===== *)
theory FidtrackStats
  imports FidtrackTree TreeIdMap Ieee
begin

text \<open>
  \<^verbatim>\<open>fidtrackX.c\<close>, from the list of roots to the results: \<open>sum_leaf_centers\<close>,
  \<open>compute_fiducial_statistics\<close>, \<open>find_fiducialsX\<close> and \<open>find_regionsX\<close>. The floating point
  fields of \<open>FidtrackerX\<close> are a record of their own. \<open>atan\<close> is a parameter, because its
  last bits are not specified. A \<open>pixelwarp\<close> array is a list of pairs, or \<open>None\<close> for null.
\<close>

subsection \<open>Doubles and floats\<close>

abbreviation "dadd \<equiv> fadd binary64"
abbreviation "dsub \<equiv> fsub binary64"
abbreviation "dmul \<equiv> fmul binary64"
abbreviation "ddiv \<equiv> fdiv binary64"
abbreviation "dint \<equiv> fint binary64"
abbreviation "smul \<equiv> fmul binary32"
abbreviation "sint32 \<equiv> fint binary32"

text \<open>A decimal constant.\<close>

definition dconst :: "rat \<Rightarrow> ieee" where
  "dconst q = of_value binary64 False q"

definition M_PI :: ieee where "M_PI = dconst (314159265358979323846 / 10 ^ 20)"

abbreviation zero :: ieee where "zero \<equiv> Num False 0"

definition calculate_angle :: "(ieee \<Rightarrow> ieee) \<Rightarrow> ieee \<Rightarrow> ieee \<Rightarrow> ieee" where
  "calculate_angle atan dx dy = (
     if fless (dconst (1 / 1000)) (fabs dx) then
       let result = dsub (atan (ddiv dy dx)) (dmul M_PI (dconst (1 / 2)));
           result = (if fless dx zero then dsub result M_PI else result)
       in if fless result zero then dadd result (dmul (dconst 2) M_PI) else result
     else if fless zero dy then zero else M_PI)"

subsection \<open>Sums over the leafs\<close>

type_synonym warp = "(int \<times> int) list option"

record LeafSums =
  black_x_sum :: ieee
  black_y_sum :: ieee
  black_leaf_count :: ieee
  white_x_sum :: ieee
  white_y_sum :: ieee
  white_leaf_count :: ieee
  black_x_sum_warped :: ieee
  black_y_sum_warped :: ieee
  black_leaf_count_warped :: ieee
  white_x_sum_warped :: ieee
  white_y_sum_warped :: ieee
  white_leaf_count_warped :: ieee
  total_leaf_count :: int
  total_leaf_size :: ieee
  average_leaf_size :: ieee

text \<open>The weight of a leaf, by the area of its depth circle.\<close>

definition leaf_weight :: "int \<Rightarrow> ieee" where
  "leaf_weight d = (let radius = dadd (dconst (1 / 2)) (dint d) in dmul (dmul radius radius) M_PI)"

definition half_float :: "int \<Rightarrow> ieee" where
  "half_float i = smul (sint32 i) (of_value binary32 False (1 / 2))"

text \<open>The position of a leaf in undistorted coordinates.\<close>

definition warped_point :: "warp \<Rightarrow> int \<Rightarrow> int \<Rightarrow> ieee \<times> ieee \<Rightarrow> (ieee \<times> ieee) option" where
  "warped_point pixelwarp W H = (\<lambda>(x, y). case pixelwarp of None \<Rightarrow> None | Some warp \<Rightarrow> do {
     iy \<leftarrow> to_int32 y;
     ix \<leftarrow> to_int32 x;
     let pixel = W * iy + ix;
     if pixel \<ge> 0 \<and> pixel < W * H then do {
       (wx, wy) \<leftarrow> rd warp pixel;
       Some (sint32 wx, sint32 wy)
     } else Some (x, y)
   })"

definition add_warped :: "Region \<Rightarrow> ieee \<Rightarrow> ieee \<times> ieee \<Rightarrow> LeafSums \<Rightarrow> LeafSums" where
  "add_warped r n = (\<lambda>(x, y) s.
     if fless zero x \<and> fless zero y then
       if colour r = 0 then s\<lparr>black_x_sum_warped := dadd (black_x_sum_warped s) (dmul x n),
         black_y_sum_warped := dadd (black_y_sum_warped s) (dmul y n),
         black_leaf_count_warped := dadd (black_leaf_count_warped s) n\<rparr>
       else s\<lparr>white_x_sum_warped := dadd (white_x_sum_warped s) (dmul x n),
         white_y_sum_warped := dadd (white_y_sum_warped s) (dmul y n),
         white_leaf_count_warped := dadd (white_leaf_count_warped s) n\<rparr>
     else s)"

definition add_plain :: "Region \<Rightarrow> ieee \<Rightarrow> ieee \<times> ieee \<Rightarrow> LeafSums \<Rightarrow> LeafSums" where
  "add_plain r n = (\<lambda>(x, y) s.
     if colour r = 0 then s\<lparr>black_x_sum := dadd (black_x_sum s) (dmul x n),
       black_y_sum := dadd (black_y_sum s) (dmul y n),
       black_leaf_count := dadd (black_leaf_count s) n\<rparr>
     else s\<lparr>white_x_sum := dadd (white_x_sum s) (dmul x n),
       white_y_sum := dadd (white_y_sum s) (dmul y n),
       white_leaf_count := dadd (white_leaf_count s) n\<rparr>)"

text \<open>The branch of \<open>sum_leaf_centers\<close> for a leaf. The coordinates that the warped branch
  assigns are those that the rest of the branch uses.\<close>

definition add_leaf :: "warp \<Rightarrow> int \<Rightarrow> int \<Rightarrow> Region \<Rightarrow> LeafSums \<Rightarrow> LeafSums option" where
  "add_leaf warp W H r s = do {
     let n = leaf_weight (depth r);
     let leaf_size = half_float ((bottom r - rtop r) + (right r - left r));
     let s = s\<lparr>total_leaf_size := dadd (total_leaf_size s) leaf_size\<rparr>;
     let p = (half_float (left r + right r), half_float (rtop r + bottom r));
     (s, p) \<leftarrow> (case warp of None \<Rightarrow> Some (s, p) | Some _ \<Rightarrow> do {
        p \<leftarrow> warped_point warp W H p;
        Some (add_warped r n p s, p) });
     let s = add_plain r n p s;
     count \<leftarrow> to_int32 (dadd (dint (total_leaf_count s)) n);
     Some (s\<lparr>total_leaf_count := count\<rparr>)
   }"

fun sum_leaf_rec :: "warp \<Rightarrow> int \<Rightarrow> int \<Rightarrow> nat \<Rightarrow> World \<Rightarrow> nat \<Rightarrow> LeafSums \<Rightarrow> LeafSums option"
  and sum_leaf_loop :: "warp \<Rightarrow> int \<Rightarrow> int \<Rightarrow> nat \<Rightarrow> World \<Rightarrow> nat \<Rightarrow> nat list \<Rightarrow> LeafSums \<Rightarrow> LeafSums option" where
  "sum_leaf_rec warp W H 0 w r s = None"
| "sum_leaf_rec warp W H (Suc k) w r s = do {
     x \<leftarrow> region_at w r;
     if adjacent_region_count x = 1 then add_leaf warp W H x s
     else sum_leaf_loop warp W H k w r (adjacent_regions x) s
   }"
| "sum_leaf_loop warp W H k w r [] s = Some s"
| "sum_leaf_loop warp W H k w r (adjacent # rest) s = do {
     x \<leftarrow> region_at w r;
     a \<leftarrow> region_at w adjacent;
     s \<leftarrow> (if level a = TRAVERSED \<and> descendent_count a < descendent_count x
           then sum_leaf_rec warp W H k w adjacent s else Some s);
     sum_leaf_loop warp W H k w r rest s
   }"

definition sum_leaf_centers :: "warp \<Rightarrow> int \<Rightarrow> int \<Rightarrow> World \<Rightarrow> nat \<Rightarrow> LeafSums \<Rightarrow> LeafSums option" where
  "sum_leaf_centers warp W H w r s = sum_leaf_rec warp W H (Suc (length (regions (seg w)))) w r s"

subsection \<open>The results for one root\<close>

record FiducialX =
  fid :: int
  fx :: ieee
  fy :: ieee
  angle :: ieee
  leaf_size :: ieee
  root_size :: ieee
  root_colour :: int
  node_count :: int

text \<open>The struct \<open>FidtrackerX\<close>: the fields of the search, the sums, and the two pointers.\<close>

record Tracker =
  tracker :: FidtrackerX
  leaf_sums :: LeafSums
  treeidmap :: TreeIdMap
  pixelwarp :: warp

text \<open>The sums are not initialised.\<close>

definition initialize_tracker :: "(int \<Rightarrow> char list) \<Rightarrow> LeafSums \<Rightarrow> TreeIdMap \<Rightarrow> warp \<Rightarrow> Tracker" where
  "initialize_tracker malloc garbage tm warp =
     \<lparr>tracker = initialize_fidtrackerX malloc (TreeIdMapInfo.truncate tm),
      leaf_sums = garbage, treeidmap = tm, pixelwarp = warp\<rparr>"

definition no_leafs :: LeafSums where
  "no_leafs = \<lparr>black_x_sum = zero, black_y_sum = zero, black_leaf_count = zero,
     white_x_sum = zero, white_y_sum = zero, white_leaf_count = zero,
     black_x_sum_warped = zero, black_y_sum_warped = zero, black_leaf_count_warped = zero,
     white_x_sum_warped = zero, white_y_sum_warped = zero, white_leaf_count_warped = zero,
     total_leaf_count = 0, total_leaf_size = zero, average_leaf_size = zero\<rparr>"

definition to_float :: "ieee \<Rightarrow> ieee" where
  "to_float = fconv binary32"

text \<open>The point \<open>(all_x, all_y)\<close> in undistorted coordinates, when some leafs have none.\<close>

definition warped_center ::
  "(ieee \<Rightarrow> ieee) \<Rightarrow> (int \<times> int) list \<Rightarrow> int \<Rightarrow> int \<Rightarrow> ieee \<times> ieee \<Rightarrow> ieee \<times> ieee \<Rightarrow> FiducialX \<Rightarrow> (FiducialX \<times> bool) option" where
  "warped_center atan warp W H = (\<lambda>(all_x, all_y) (black_x, black_y) f. do {
     iy \<leftarrow> to_int32 all_y;
     ix \<leftarrow> to_int32 all_x;
     let pixel = W * iy + ix;
     if pixel \<ge> 0 \<and> pixel < W * H then do {
       (wx, wy) \<leftarrow> rd warp pixel;
       let all_x_warped = dint wx;
       let all_y_warped = dint wy;
       if fless zero all_x_warped \<or> fless zero all_y_warped then do {
         by \<leftarrow> to_int32 black_y;
         bx \<leftarrow> to_int32 black_x;
         let pixel = by * W + bx;
         f \<leftarrow> (if pixel \<ge> 0 \<and> pixel < W * H then do {
               (vx, vy) \<leftarrow> rd warp pixel;
               let black_x_warped = dint vx;
               let black_y_warped = dint vy;
               Some (if fless zero black_x_warped \<or> fless zero black_y_warped
                 then f\<lparr>angle := to_float (calculate_angle atan (dsub all_x_warped black_x_warped) (dsub all_y_warped black_y_warped))\<rparr>
                 else f\<lparr>angle := zero\<rparr>)
             } else Some (f\<lparr>angle := zero\<rparr>));
         Some (f\<lparr>fx := to_float all_x_warped, fy := to_float all_y_warped\<rparr>, False)
       } else Some (f\<lparr>fx := zero, fy := zero, angle := zero\<rparr>, True)
     } else Some (f, True)
   })"

text \<open>The position and the angle; the flag of the result says that the symbol is lost.\<close>

definition place_fiducial ::
  "(ieee \<Rightarrow> ieee) \<Rightarrow> warp \<Rightarrow> int \<Rightarrow> int \<Rightarrow> LeafSums \<Rightarrow> FiducialX \<Rightarrow> (FiducialX \<times> bool) option" where
  "place_fiducial atan warp W H s f = (
     let count = dadd (black_leaf_count s) (white_leaf_count s);
         all_x = ddiv (dadd (black_x_sum s) (white_x_sum s)) count;
         all_y = ddiv (dadd (black_y_sum s) (white_y_sum s)) count;
         black_x = ddiv (black_x_sum s) (black_leaf_count s);
         black_y = ddiv (black_y_sum s) (black_leaf_count s)
     in case warp of
       Some warp \<Rightarrow>
         (let count = dadd (black_leaf_count_warped s) (white_leaf_count_warped s) in
          if fless count (dint (total_leaf_count s))
          then warped_center atan warp W H (all_x, all_y) (black_x, black_y) f
          else
            let all_x = ddiv (dadd (black_x_sum_warped s) (white_x_sum_warped s)) count;
                all_y = ddiv (dadd (black_y_sum_warped s) (white_y_sum_warped s)) count;
                black_x = ddiv (black_x_sum_warped s) (black_leaf_count_warped s);
                black_y = ddiv (black_y_sum_warped s) (black_leaf_count_warped s)
            in Some (f\<lparr>fx := to_float all_x, fy := to_float all_y,
                 angle := to_float (calculate_angle atan (dsub all_x black_x) (dsub all_y black_y))\<rparr>, False))
     | None \<Rightarrow>
         Some (f\<lparr>fx := to_float all_x, fy := to_float all_y,
           angle := to_float (calculate_angle atan (dsub all_x black_x) (dsub all_y black_y))\<rparr>, False))"

text \<open>\<open>strcat( dest, src )\<close>, where \<open>src\<close> is a string in another buffer.\<close>

definition strcat :: "char list \<Rightarrow> string \<Rightarrow> char list option" where
  "strcat dest src = do {
     old \<leftarrow> c_string dest 0;
     let new = old @ src @ [NUL];
     c_assert (length new \<le> length dest);
     Some (new @ drop (length new) dest)
   }"

definition compute_fiducial_statistics ::
  "qsort_fun \<Rightarrow> (ieee \<Rightarrow> ieee) \<Rightarrow> Tracker \<Rightarrow> FiducialX \<Rightarrow> World \<Rightarrow> nat \<Rightarrow> int \<Rightarrow> int \<Rightarrow> (Tracker \<times> FiducialX \<times> World) option" where
  "compute_fiducial_statistics qsort atan ft f w r W H = do {
     w \<leftarrow> set_depth w r 0;
     s \<leftarrow> sum_leaf_centers (pixelwarp ft) W H w r no_leafs;
     let s = s\<lparr>average_leaf_size := ddiv (total_leaf_size s) (dint (total_leaf_count s))\<rparr>;
     let ft = ft\<lparr>leaf_sums := s\<rparr>;
     (f, lost) \<leftarrow> place_fiducial atan (pixelwarp ft) W H s f;
     w \<leftarrow> (if lost then set_region w r (\<lambda>x. x\<lparr>flags := flags x OR LOST_SYMBOL_FLAG\<rparr>) else Some w);
     x \<leftarrow> region_at w r;
     let f = f\<lparr>leaf_size := to_float (average_leaf_size s)\<rparr>;
     let f = f\<lparr>root_size := sint32 (right x - left x)\<rparr>;
     let f = (if fless (root_size f) (sint32 (bottom x - rtop x)) then f\<lparr>root_size := sint32 (bottom x - rtop x)\<rparr> else f);
     let f = f\<lparr>root_colour := uint (colour x)\<rparr>;
     let f = f\<lparr>node_count := descendent_count x\<rparr>;
     if flag_set (flags x) LOST_SYMBOL_FLAG then Some (ft, f\<lparr>fid := INVALID_TREE_ID\<rparr>, w)
     else do {
       (depth_string, t, w) \<leftarrow> build_left_heavy_depth_string qsort ((tracker ft)\<lparr>next_depth_string := 0\<rparr>) w r;
       temp \<leftarrow> wr (temp_coloured_depth_string t) 0 (if colour x \<noteq> 0 then CHR ''w'' else CHR ''b'');
       temp \<leftarrow> wr temp 1 NUL;
       str \<leftarrow> c_string (depth_strings t) depth_string;
       temp \<leftarrow> strcat temp str;
       let ft = ft\<lparr>tracker := t\<lparr>temp_coloured_depth_string := temp\<rparr>\<rparr>;
       name \<leftarrow> c_string temp 0;
       Some (ft, f\<lparr>fid := treestring_to_id (treeidmap ft) name\<rparr>, w)
     }
   }"

subsection \<open>All fiducials\<close>

text \<open>The body of the loop over the list of roots; the second result says to leave the loop.\<close>

type_synonym fiducials_state = "int \<times> FiducialX list \<times> Tracker \<times> World"

definition fiducial_step ::
  "qsort_fun \<Rightarrow> (ieee \<Rightarrow> ieee) \<Rightarrow> int \<Rightarrow> int \<Rightarrow> int \<Rightarrow> rptr \<Rightarrow> fiducials_state \<Rightarrow> (fiducials_state \<times> bool) option" where
  "fiducial_step qsort atan max_count W H next = (\<lambda>(i, fiducials, ft, w). case next of
     Reg r \<Rightarrow> do {
       f \<leftarrow> rd fiducials i;
       (ft, f, w) \<leftarrow> compute_fiducial_statistics qsort atan ft f w r W H;
       fiducials \<leftarrow> wr fiducials i f;
       Some ((i + 1, fiducials, ft, w), i + 1 \<ge> max_count)
     }
   | _ \<Rightarrow> None)"

definition find_fiducialsX ::
  "qsort_fun \<Rightarrow> (ieee \<Rightarrow> ieee) \<Rightarrow> FiducialX list \<Rightarrow> int \<Rightarrow> Tracker \<Rightarrow> World \<Rightarrow> int \<Rightarrow> int \<Rightarrow> fiducials_state option" where
  "find_fiducialsX qsort atan fiducials max_count ft w W H = do {
     w \<leftarrow> initialize_head_region w root_regions_head;
     w \<leftarrow> find_roots (tracker ft) w;
     h \<leftarrow> deref w root_regions_head;
     ring_loop (\<lambda>(i, fiducials, ft, w). w) root_regions_head (fiducial_step qsort atan max_count W H)
       (nxt h) (0, fiducials, ft, w)
   }"

end
