(* ===== verification/TreeTraversal.thy ===== *)
theory TreeTraversal
  imports Prelude
begin

text \<open>
  The bottom-up traversal of a region adjacency graph that \<^verbatim>\<open>fidtrackX.c\<close> makes, as a fact
  about graphs. The locale states what the traversal needs from the segmenter: adjacency
  lists that are symmetric, and no set of unflagged regions that is cut off from the rest.
\<close>

subsection \<open>Ordered trees\<close>

datatype tree = Tree (subtrees: "tree list")

fun nodes :: "tree \<Rightarrow> nat" where
  "nodes (Tree ts) = Suc (sum_list (map nodes ts))"

fun tree_height :: "tree \<Rightarrow> nat" where
  "tree_height (Tree ts) = fold max (map (\<lambda>t. Suc (tree_height t)) ts) 0"

lemma nodes_pos [simp]: "0 < nodes t"
  by (cases t) simp

lemma nodes_member: "t \<in> set ts \<Longrightarrow> nodes t < nodes (Tree ts)"
  by (simp add: member_le_sum_list less_Suc_eq_le)

lemma fold_max_le: "fold max xs (m :: nat) \<le> k \<longleftrightarrow> m \<le> k \<and> (\<forall>x\<in>set xs. x \<le> k)"
  by (induction xs arbitrary: m) auto

lemma height_less_nodes: "tree_height t < nodes t"
proof (induction t rule: nodes.induct)
  case (1 ts)
  have "fold max (map (\<lambda>t. Suc (tree_height t)) ts) 0 \<le> sum_list (map nodes ts)"
    unfolding fold_max_le using 1 nodes_member [of _ ts] by (fastforce simp: Suc_le_eq less_Suc_eq_le)
  then show ?case by simp
qed

subsection \<open>The course of a traversal\<close>

text \<open>
  The regions visited so far, in order; the one neighbour that was not visited before a
  region (its parent); the regions that reported to their parent; the tree below a region.
\<close>

record course =
  order :: "nat list"
  parent_of :: "nat \<Rightarrow> nat option"
  reported :: "nat set"
  below :: "nat \<Rightarrow> tree"

definition start :: course where
  "start = \<lparr>order = [], parent_of = \<lambda>_. None, reported = {}, below = \<lambda>_. Tree []\<rparr>"

text \<open>The children of a region, and how many of them reported.\<close>

definition children :: "(nat \<Rightarrow> nat list) \<Rightarrow> course \<Rightarrow> nat \<Rightarrow> nat list" where
  "children adj g t = filter (\<lambda>a. parent_of g a = Some t) (adj t)"

definition visits :: "course \<Rightarrow> nat \<Rightarrow> nat" where
  "visits g r = card {q \<in> reported g. parent_of g q = Some r}"

text \<open>The next visit: \<open>r\<close> with the parent \<open>p\<close>.\<close>

definition visit :: "(nat \<Rightarrow> nat list) \<Rightarrow> nat \<Rightarrow> nat option \<Rightarrow> course \<Rightarrow> course" where
  "visit adj r p g = g\<lparr>order := order g @ [r], parent_of := (parent_of g)(r := p),
     below := (below g)(r := Tree (map (below g) (filter (\<lambda>a. a \<in> set (order g)) (adj r))))\<rparr>"

definition report :: "nat \<Rightarrow> course \<Rightarrow> course" where
  "report r g = g\<lparr>reported := insert r (reported g)\<rparr>"

definition node_ok :: "(nat \<Rightarrow> nat list) \<Rightarrow> course \<Rightarrow> nat list \<Rightarrow> nat \<Rightarrow> bool" where
  "node_ok adj g ys t \<longleftrightarrow> (case parent_of g t of
     None \<Rightarrow> set (adj t) \<subseteq> set ys
   | Some p \<Rightarrow> p \<notin> set ys \<and> count_list (adj t) p = 1 \<and> set (adj t) \<subseteq> insert p (set ys))"

text \<open>The regions visited so far whose parent has not been visited.\<close>

definition tops :: "course \<Rightarrow> nat set" where
  "tops g = {t \<in> set (order g). \<forall>p \<in> set (order g). parent_of g t \<noteq> Some p}"

definition traversal :: "(nat \<Rightarrow> nat list) \<Rightarrow> (nat \<Rightarrow> bool) \<Rightarrow> (nat \<Rightarrow> bool) \<Rightarrow> course \<Rightarrow> bool" where
  "traversal adj lv cl g \<longleftrightarrow> distinct (order g) \<and> (\<forall>t \<in> set (order g). lv t) \<and>
     (\<forall>ys t zs. order g = ys @ t # zs \<longrightarrow> node_ok adj g ys t) \<and>
     (\<forall>t. parent_of g t \<noteq> None \<longrightarrow> t \<in> set (order g) \<and> \<not> cl t) \<and>
     (\<forall>t \<in> reported g. parent_of g t \<noteq> None) \<and>
     (\<forall>t \<in> set (order g). below g t = Tree (map (below g) (children adj g t))) \<and>
     (\<Sum>t\<in>tops g. nodes (below g t)) = length (order g) \<and>
     (\<forall>t \<in> set (order g). nodes (below g t) \<le> length (order g))"

lemma traversalD:
  assumes "traversal adj lv cl g"
  shows "distinct (order g)" "t \<in> set (order g) \<Longrightarrow> lv t" "order g = ys @ t # zs \<Longrightarrow> node_ok adj g ys t"
    "parent_of g t = Some p \<Longrightarrow> t \<in> set (order g) \<and> \<not> cl t"
    "t \<in> reported g \<Longrightarrow> \<exists>p. parent_of g t = Some p"
    "t \<in> set (order g) \<Longrightarrow> below g t = Tree (map (below g) (children adj g t))"
    "(\<Sum>t\<in>tops g. nodes (below g t)) = length (order g)"
    "t \<in> set (order g) \<Longrightarrow> nodes (below g t) \<le> length (order g)"
  using assms by (auto simp: traversal_def)

lemma traversal_start: "traversal adj lv cl start"
  by (simp add: traversal_def start_def tops_def)

lemma visit_simps [simp]:
  "order (visit adj r p g) = order g @ [r]" "parent_of (visit adj r p g) = (parent_of g)(r := p)"
  "reported (visit adj r p g) = reported g" "order (report r g) = order g"
  "parent_of (report r g) = parent_of g" "below (report r g) = below g"
  "reported (report r g) = insert r (reported g)"
  by (simp_all add: visit_def report_def)

text \<open>
  The abstract notion: with the neighbour \<open>p\<close> taken away, the regions that can be reached
  from \<open>r\<close> form the tree \<open>t\<close>, and none of them but possibly \<open>r\<close> is open.
\<close>

inductive hangs :: "(nat \<Rightarrow> nat list) \<Rightarrow> (nat \<Rightarrow> bool) \<Rightarrow> nat option \<Rightarrow> nat \<Rightarrow> tree \<Rightarrow> bool" for adj cl where
  hangs_Tree: "list_all2 (hangs adj cl (Some r)) (filter (\<lambda>a. Some a \<noteq> p) (adj r)) ts \<Longrightarrow>
    (\<And>q. p = Some q \<Longrightarrow> \<not> cl r \<and> count_list (adj r) q = 1) \<Longrightarrow> hangs adj cl p r (Tree ts)"

inductive_cases hangs_cases: "hangs adj cl p r t"

lemma hangs_unique: "hangs adj cl p r t \<Longrightarrow> hangs adj cl p r t' \<Longrightarrow> t = t'"
proof (induction arbitrary: t' rule: hangs.induct)
  case (hangs_Tree r p ts)
  obtain ts' where t': "t' = Tree ts'" "list_all2 (hangs adj cl (Some r)) (filter (\<lambda>a. Some a \<noteq> p) (adj r)) ts'"
    using hangs_Tree.prems by (auto elim: hangs_cases)
  have "ts = ts'"
    by (rule nth_equalityI) (use hangs_Tree.IH(1) t'(2) in \<open>simp_all add: list_all2_conv_all_nth\<close>)
  then show ?case using t'(1) by simp
qed

subsection \<open>Graphs of regions\<close>

locale region_graph =
  fixes ok :: "'s \<Rightarrow> bool" and slots :: "'s \<Rightarrow> nat" and adj :: "'s \<Rightarrow> nat \<Rightarrow> nat list"
    and lv :: "'s \<Rightarrow> nat \<Rightarrow> bool" and cl :: "'s \<Rightarrow> nat \<Rightarrow> bool"
  assumes live_slot: "ok s \<Longrightarrow> lv s x \<Longrightarrow> x < slots s"
    and adj_live: "ok s \<Longrightarrow> lv s x \<Longrightarrow> a \<in> set (adj s x) \<Longrightarrow> lv s a \<and> a \<noteq> x"
    and adj_sym: "ok s \<Longrightarrow> lv s x \<Longrightarrow> lv s a \<Longrightarrow> count_list (adj s x) a = count_list (adj s a) x"
    and rooted: "ok s \<Longrightarrow> S \<noteq> {} \<Longrightarrow> (\<And>x. x \<in> S \<Longrightarrow> lv s x \<and> set (adj s x) \<subseteq> S) \<Longrightarrow> \<exists>x\<in>S. cl s x"
begin

lemma adj_in: "ok s \<Longrightarrow> lv s x \<Longrightarrow> a \<in> set (adj s x) \<Longrightarrow> x \<in> set (adj s a)"
  using adj_live [of s x a] adj_sym [of s x a] count_list_0_iff by metis

text \<open>Whoever was visited before its neighbour \<open>r\<close> has \<open>r\<close> as its parent.\<close>

lemma visited_parent:
  assumes ok: "ok s" and tr: "traversal (adj s) (lv s) (cl s) g" and r: "lv s r"
    and a: "a \<in> set (adj s r)" "order g = ys @ a # zs" "r \<notin> set ys"
  shows "parent_of g a = Some r" "count_list (adj s r) a = 1"
proof -
  note T = traversalD [OF tr]
  have "r \<in> set (adj s a)" using adj_in [OF ok r a(1)] .
  then have p: "parent_of g a = Some r" using T(3) [OF a(2)] a(3) by (auto simp: node_ok_def split: option.splits)
  then show "parent_of g a = Some r" .
  have "lv s a" using adj_live [OF ok r a(1)] by simp
  then show "count_list (adj s r) a = 1" using T(3) [OF a(2)] p adj_sym [OF ok r] by (simp add: node_ok_def)
qed

text \<open>The visited neighbours of a region that has not been visited yet are its children.\<close>

lemma visited_children:
  assumes "ok s" "traversal (adj s) (lv s) (cl s) g" "lv s r" "r \<notin> set (order g)"
  shows "filter (\<lambda>a. a \<in> set (order g)) (adj s r) = children (adj s) g r"
    "{q. parent_of g q = Some r} = {a \<in> set (adj s r). a \<in> set (order g)}"
    "distinct (filter (\<lambda>a. a \<in> set (order g)) (adj s r))"
proof -
  note T = traversalD [OF assms(2)]
  have vp: "parent_of g a = Some r" "count_list (adj s r) a = 1"
    if "a \<in> set (adj s r)" "a \<in> set (order g)" for a
    using split_list [OF that(2)] visited_parent [OF assms(1-3) that(1)] assms(4) by fastforce+
  have "a \<in> set (order g)" if "parent_of g a = Some r" for a using T(4) [OF that] by simp
  then show "filter (\<lambda>a. a \<in> set (order g)) (adj s r) = children (adj s) g r"
    unfolding children_def using vp(1) by (intro filter_cong) auto
  have "a \<in> set (adj s r)" if p: "parent_of g a = Some r" for a
  proof -
    have a: "a \<in> set (order g)" using T(4) [OF p] by simp
    then obtain ys zs where "order g = ys @ a # zs" using split_list by fast
    from T(3) [OF this] have "count_list (adj s a) r \<noteq> 0" using p by (simp add: node_ok_def)
    then have "r \<in> set (adj s a)" by (simp add: count_list_0_iff)
    then show ?thesis using adj_in [OF assms(1)] T(2) [OF a] by blast
  qed
  then show "{q. parent_of g q = Some r} = {a \<in> set (adj s r). a \<in> set (order g)}" using vp(1) T(4) by auto
  show "distinct (filter (\<lambda>a. a \<in> set (order g)) (adj s r))"
  proof (rule distinct_count_atmost_1 [THEN iffD2], intro allI)
    fix a
    have "count (mset (filter (\<lambda>a. a \<in> set (order g)) (adj s r))) a \<le> 1"
    proof (cases "a \<in> set (adj s r) \<and> a \<in> set (order g)")
      case True
      then show ?thesis using vp(2) by (simp add: count_mset)
    next
      case False
      then have "a \<notin># mset (filter (\<lambda>a. a \<in> set (order g)) (adj s r))" by auto
      then show ?thesis by (simp only: not_in_iff)
    qed
    then show "count (mset (filter (\<lambda>a. a \<in> set (order g)) (adj s r))) a =
        (if a \<in> set (filter (\<lambda>a. a \<in> set (order g)) (adj s r)) then 1 else 0)"
      by (metis Suc_leI Suc_le_eq count_greater_zero_iff count_eq_zero_iff le_antisym One_nat_def set_mset_mset)
  qed
qed

lemma visits_le:
  assumes "ok s" "traversal (adj s) (lv s) (cl s) g" "lv s r" "r \<notin> set (order g)"
  shows "visits g r \<le> length (filter (\<lambda>a. a \<in> set (order g)) (adj s r))" "visits g r \<le> length (adj s r)"
proof -
  note V = visited_children [OF assms]
  have "visits g r \<le> card {a \<in> set (adj s r). a \<in> set (order g)}"
    unfolding visits_def V(2) [symmetric] by (rule card_mono) (auto simp: V(2) Collect_conj_eq)
  also have "\<dots> = length (filter (\<lambda>a. a \<in> set (order g)) (adj s r))"
    using distinct_card [OF V(3)] by (simp add: Collect_conj_eq Int_commute)
  finally show v: "visits g r \<le> length (filter (\<lambda>a. a \<in> set (order g)) (adj s r))" .
  then show "visits g r \<le> length (adj s r)" using length_filter_le le_trans by blast
qed

text \<open>Once all neighbours but one have reported, at most one neighbour is not visited.\<close>

lemma unvisited_neighbours:
  assumes "ok s" "traversal (adj s) (lv s) (cl s) g" "lv s r" "r \<notin> set (order g)"
    and "length (adj s r) \<le> Suc (visits g r)"
  shows "length (filter (\<lambda>a. a \<notin> set (order g)) (adj s r)) \<le> 1"
    "visits g r = length (adj s r) \<Longrightarrow> filter (\<lambda>a. a \<notin> set (order g)) (adj s r) = []"
proof -
  have l: "visits g r + length (filter (\<lambda>a. a \<notin> set (order g)) (adj s r)) \<le> length (adj s r)"
    using visits_le(1) [OF assms(1-4)] sum_length_filter_compl [of "\<lambda>a. a \<in> set (order g)" "adj s r"] by simp
  then show "length (filter (\<lambda>a. a \<notin> set (order g)) (adj s r)) \<le> 1" using assms(5) by simp
  show "filter (\<lambda>a. a \<notin> set (order g)) (adj s r) = []" if "visits g r = length (adj s r)"
    unfolding length_0_conv [symmetric] using l that by linarith
qed

text \<open>Visiting a region whose only unvisited neighbour, if any, becomes its parent.\<close>

lemma traversal_visit:
  assumes ok: "ok s" and tr: "traversal (adj s) (lv s) (cl s) g" and r: "lv s r" "r \<notin> set (order g)"
    and p: "filter (\<lambda>a. a \<notin> set (order g)) (adj s r) = (case p of None \<Rightarrow> [] | Some q \<Rightarrow> [q])"
    and cl: "p \<noteq> None \<Longrightarrow> \<not> cl s r"
  shows "traversal (adj s) (lv s) (cl s) (visit (adj s) r p g)"
proof -
  note T = traversalD [OF tr] and V = visited_children [OF ok tr r]
  let ?g = "visit (adj s) r p g"
  have pr: "q \<noteq> r" "q \<notin> set (order g)" "count_list (adj s r) q = 1" if "p = Some q" for q
  proof -
    have f: "filter (\<lambda>a. a \<notin> set (order g)) (adj s r) = [q]" using p that by simp
    then have "q \<in> set (filter (\<lambda>a. a \<notin> set (order g)) (adj s r))" by simp
    then show q: "q \<notin> set (order g)" "q \<noteq> r" using adj_live [OF ok r(1), of q] by auto
    have "count (mset (filter (\<lambda>a. a \<notin> set (order g)) (adj s r))) q = 1" unfolding f by simp
    then show "count_list (adj s r) q = 1" using q by (simp add: count_mset)
  qed
  have sub: "set (adj s r) \<subseteq> set (order g) \<union> set_option p"
    using arg_cong [OF p, of set] by (auto split: option.splits)
  have nr: "parent_of g r = None" using T(4) [of r] r(2) by (cases "parent_of g r") auto
  have node: "node_ok (adj s) ?g ys t" if yz: "order ?g = ys @ t # zs" for ys t zs
  proof (cases "t = r")
    case True
    have "ys = order g" using yz r(2) True by (auto simp: append_eq_Cons_conv Cons_eq_append_conv append_eq_append_conv2)
    then show ?thesis using True pr sub by (auto simp: node_ok_def split: option.splits)
  next
    case False
    then obtain zs' where "order g = ys @ t # zs'"
      using yz by (cases zs rule: rev_cases) (auto simp: append_eq_append_conv2)
    from T(3) [OF this] False show ?thesis by (simp add: node_ok_def)
  qed
  have kids: "children (adj s) ?g t = children (adj s) g t" if "t \<in> set (order ?g)" for t
  proof -
    have "((parent_of g)(r := p)) a = Some t \<longleftrightarrow> parent_of g a = Some t" for a
      using that pr(1,2) nr by auto
    then show ?thesis by (simp add: children_def)
  qed
  have kids_old: "a \<in> set (order g)" if "a \<in> set (children (adj s) g t)" for a t
    using that T(4) by (auto simp: children_def)
  have br: "below ?g r = Tree (map (below g) (children (adj s) g r))" unfolding V(1) [symmetric] by (simp add: visit_def)
  have bo: "below ?g t = below g t" if "t \<in> set (order g)" for t using that r(2) by (auto simp: visit_def)
  have bk: "map (below ?g) (children (adj s) g t) = map (below g) (children (adj s) g t)" for t
    using kids_old bo by (simp cong: map_cong)
  have below: "below ?g t = Tree (map (below ?g) (children (adj s) ?g t))" if t: "t \<in> set (order ?g)" for t
    using t br bo [of t] T(6) [of t] unfolding kids [OF t] bk by (cases "t = r") auto
  let ?K = "{a \<in> set (adj s r). a \<in> set (order g)}"
  have kp: "parent_of g a = Some r" if "a \<in> ?K" for a using V(2) that by auto
  have tops: "tops ?g = insert r (tops g - ?K)" "r \<notin> tops g - ?K"
    unfolding tops_def using V(2) r(2) pr by (auto simp: set_eq_iff split: if_splits)
  have ktops: "?K \<subseteq> tops g" unfolding tops_def using kp r(2) by fastforce
  have fin: "finite (tops g)" unfolding tops_def by simp
  have kn: "nodes (below ?g r) = Suc (\<Sum>a\<in>?K. nodes (below g a))"
  proof -
    have "(\<Sum>a\<in>?K. nodes (below g a)) = sum_list (map (\<lambda>a. nodes (below g a)) (children (adj s) g r))"
      using V(3) sum_list_distinct_conv_sum_set [OF V(3), of "\<lambda>a. nodes (below g a)"]
      unfolding V(1) [symmetric] by (simp add: Collect_conj_eq Int_commute)
    then show ?thesis unfolding br by (simp add: comp_def)
  qed
  have old: "(\<Sum>t\<in>A. nodes (below ?g t)) = (\<Sum>t\<in>A. nodes (below g t))" if "A \<subseteq> set (order g)" for A
    using that bo by (intro sum.cong) auto
  have tg: "tops g \<subseteq> set (order g)" by (auto simp: tops_def)
  have "(\<Sum>t\<in>tops ?g. nodes (below ?g t)) = nodes (below ?g r) + (\<Sum>t\<in>tops g - ?K. nodes (below ?g t))"
    unfolding tops(1) by (rule sum.insert) (use fin tops(2) in auto)
  also have "\<dots> = Suc ((\<Sum>a\<in>?K. nodes (below g a)) + (\<Sum>t\<in>tops g - ?K. nodes (below g t)))"
    using tg by (simp add: kn old subset_iff)
  also have "\<dots> = Suc (\<Sum>t\<in>tops g. nodes (below g t))"
    using sum.subset_diff [OF ktops fin, of "\<lambda>t. nodes (below g t)"] by simp
  finally have total: "(\<Sum>t\<in>tops ?g. nodes (below ?g t)) = length (order ?g)" using T(7) by simp
  have "nodes (below ?g r) \<le> (\<Sum>t\<in>tops ?g. nodes (below ?g t))"
    using fin tops(1) by (intro member_le_sum) auto
  then have size: "nodes (below ?g t) \<le> length (order ?g)" if "t \<in> set (order ?g)" for t
    using that total T(8) [of t] bo [of t] by (cases "t = r") (auto intro: le_SucI)
  have par: "t \<in> set (order ?g) \<and> \<not> cl s t" if "parent_of ?g t = Some q" for t q
    using that T(4) [of t q] cl by (auto split: if_splits)
  have rep: "parent_of ?g t \<noteq> None" if "t \<in> reported ?g" for t
    using that T(5) [of t] T(4) [of t] r(2) by auto
  show ?thesis unfolding traversal_def
    using T(1,2,4) r node par rep below total size by auto
qed

lemma traversal_report:
  "traversal (adj s) (lv s) (cl s) g \<Longrightarrow> parent_of g r \<noteq> None \<Longrightarrow> traversal (adj s) (lv s) (cl s) (report r g)"
  unfolding traversal_def tops_def by (auto simp: node_ok_def children_def cong: option.case_cong)

text \<open>Two neighbours of which one was visited are parent and child.\<close>

lemma neighbours_split:
  assumes ok: "ok s" and tr: "traversal (adj s) (lv s) (cl s) g" and t: "t \<in> set (order g)" and a: "a \<in> set (adj s t)"
  shows "parent_of g t = Some a \<or> parent_of g a = Some t"
proof -
  note T = traversalD [OF tr]
  obtain ys zs where yz: "order g = ys @ t # zs" using split_list [OF t] by blast
  show ?thesis
  proof (cases "parent_of g t = Some a")
    case False
    then have "a \<in> set ys" using T(3) [OF yz] a by (auto simp: node_ok_def split: option.splits)
    then obtain us vs where u: "order g = us @ a # vs" "t \<notin> set us"
      using yz T(1) by (auto dest!: split_list)
    then show ?thesis using visited_parent(1) [OF ok tr _ a u] T(2) [OF t] by blast
  qed simp
qed

lemma parent_once:
  assumes ok: "ok s" and tr: "traversal (adj s) (lv s) (cl s) g" and p: "parent_of g t = Some p"
  shows "count_list (adj s t) p = 1" "p \<in> set (adj s t)" "parent_of g p \<noteq> Some t"
proof -
  note T = traversalD [OF tr]
  obtain ys zs where yz: "order g = ys @ t # zs" using split_list T(4) [OF p] by metis
  show c: "count_list (adj s t) p = 1" using T(3) [OF yz] p by (simp add: node_ok_def)
  then show member: "p \<in> set (adj s t)" by (metis count_list_0_iff zero_neq_one)
  show "parent_of g p \<noteq> Some t"
  proof
    assume q: "parent_of g p = Some t"
    obtain us vs where u: "order g = us @ p # vs" using split_list T(4) [OF q] by metis
    have "p \<notin> set ys" "t \<notin> set us" using T(3) [OF yz] T(3) [OF u] p q by (auto simp: node_ok_def)
    moreover have "p \<noteq> t" using adj_live [OF ok T(2), of t p] T(4) [OF p] member by blast
    ultimately show False using yz u by (auto simp: append_eq_append_conv2 append_eq_Cons_conv Cons_eq_append_conv)
  qed
qed

text \<open>A region all of whose neighbours are its children is open: the tree would be cut off.\<close>

lemma cut_off:
  assumes ok: "ok s" and tr: "traversal (adj s) (lv s) (cl s) g" and r: "lv s r"
    and all: "\<And>a. a \<in> set (adj s r) \<Longrightarrow> parent_of g a = Some r"
  shows "cl s r"
proof -
  note T = traversalD [OF tr]
  define D where "D = {t. (\<lambda>a b. parent_of g a = Some b)\<^sup>*\<^sup>* t r}"
  have D0: "r \<in> D" by (simp add: D_def)
  have Ds: "a \<in> D" if "parent_of g a = Some t" "t \<in> D" for a t
    using that unfolding D_def by (auto intro: converse_rtranclp_into_rtranclp)
  have Dp: "t = r \<or> (\<exists>p \<in> D. parent_of g t = Some p)" if "t \<in> D" for t
    using that unfolding D_def by (auto elim: converse_rtranclpE)
  have "set (adj s t) \<subseteq> D" if "t \<in> D" for t
    using neighbours_split [OF ok tr, of t] Dp [OF that] T(4) [of t] all D0 Ds that by fastforce
  moreover have "lv s t" if "t \<in> D" for t using Dp [OF that] T(2,4) r by blast
  ultimately have "\<exists>x\<in>D. cl s x" using rooted [OF ok, of D] D0 by blast
  then show ?thesis using Dp T(4) by blast
qed

lemma some_unvisited:
  assumes "ok s" "traversal (adj s) (lv s) (cl s) g" "lv s r" "r \<notin> set (order g)" "\<not> cl s r"
  shows "\<exists>a \<in> set (adj s r). a \<notin> set (order g)"
  using cut_off [OF assms(1-3)] visited_children(2) [OF assms(1-4)] assms(5) by blast

lemma top_is_open:
  assumes "ok s" "traversal (adj s) (lv s) (cl s) g" "r \<in> set (order g)" "parent_of g r = None"
  shows "cl s r"
  using cut_off [OF assms(1,2) traversalD(2) [OF assms(2,3)]] neighbours_split [OF assms(1-3)] assms(4) by simp

text \<open>An unflagged leaf is never the parent of a visited region.\<close>

lemma leaf_is_no_parent:
  assumes ok: "ok s" and tr: "traversal (adj s) (lv s) (cl s) g" and r: "lv s r" "r \<notin> set (order g)"
    and leaf: "length (adj s r) = 1" "\<not> cl s r"
  shows "parent_of g q \<noteq> Some r"
proof
  assume "parent_of g q = Some r"
  then have "q \<in> set (adj s r)" "q \<in> set (order g)" using visited_children(2) [OF ok tr r] by auto
  moreover obtain a where "a \<in> set (adj s r)" "a \<notin> set (order g)" using some_unvisited [OF ok tr r leaf(2)] by blast
  ultimately show False using leaf(1) by (cases "adj s r") auto
qed

text \<open>The trees that a traversal reports are those that hang below the regions.\<close>

lemma hangs_below:
  assumes ok: "ok s" and tr: "traversal (adj s) (lv s) (cl s) g" and t: "t \<in> set (order g)"
  shows "hangs (adj s) (cl s) (parent_of g t) t (below g t)"
proof -
  note T = traversalD [OF tr]
  have "hangs (adj s) (cl s) (parent_of g t) t (below g t)" if "order g = ys @ t # zs" for ys t zs
    using that
  proof (induction "length ys" arbitrary: ys t zs rule: less_induct)
    case less
    have t: "t \<in> set (order g)" using less.prems by simp
    have par: "parent_of g a = Some t \<longleftrightarrow> Some a \<noteq> parent_of g t" if "a \<in> set (adj s t)" for a
      using neighbours_split [OF ok tr t that] parent_once(3) [OF ok tr, of t a] by auto
    have kids: "children (adj s) g t = filter (\<lambda>a. Some a \<noteq> parent_of g t) (adj s t)"
      unfolding children_def by (rule filter_cong) (use par in auto)
    have "hangs (adj s) (cl s) (Some t) a (below g a)" if a: "a \<in> set (children (adj s) g t)" for a
    proof -
      have pa: "a \<in> set (adj s t)" "parent_of g a = Some t" "Some a \<noteq> parent_of g t" using a par by (auto simp: children_def)
      have "a \<in> set ys" using T(3) [OF less.prems] pa by (auto simp: node_ok_def split: option.splits)
      then obtain us vs where "ys = us @ a # vs" by (auto dest: split_list)
      then have "hangs (adj s) (cl s) (parent_of g a) a (below g a)"
        using less.hyps [of us a "vs @ t # zs"] less.prems by simp
      then show ?thesis using pa(2) by simp
    qed
    then have "list_all2 (hangs (adj s) (cl s) (Some t)) (children (adj s) g t) (map (below g) (children (adj s) g t))"
      by (simp add: list.rel_map list_all2_same)
    then show ?case
      unfolding T(6) [OF t] kids using T(4) [of t] parent_once(1) [OF ok tr, of t] by (intro hangs.intros) auto
  qed
  then show ?thesis using split_list [OF t] by blast
qed

end

end
