(* ===== verification/SegmentFresh.thy ===== *)
theory SegmentFresh
  imports SegmentCorrect TreeTraversal
begin

text \<open>
  The fields of the regions that the segmenter initialises for the tree search: after
  \<open>step_segmenter\<close> every region slot in use has the values that
  \<open>sanity_check_region_initial_values\<close> of \<^verbatim>\<open>fidtrackX.c\<close> expects, and no region is
  marked as a lost symbol. The facts are of the form: if the function returns, it keeps them.
\<close>

definition is_short :: "int \<Rightarrow> bool" where
  "is_short z \<longleftrightarrow> - 32768 \<le> z \<and> z < 32768"

lemma is_short_to_short [simp]: "is_short (to_short z)"
  using to_short_range [of z] by (simp add: is_short_def)

definition short_box :: "Region \<Rightarrow> bool" where
  "short_box r \<longleftrightarrow> is_short (left r) \<and> is_short (rtop r) \<and> is_short (right r) \<and> is_short (bottom r)"

definition fresh_region :: "Region \<Rightarrow> bool" where
  "fresh_region r \<longleftrightarrow> level r = UNKNOWN_REGION_LEVEL \<and> children_visited_count r = 0 \<and>
     descendent_count r = 32767 \<and> \<not> flag_set (flags r) LOST_SYMBOL_FLAG \<and> short_box r"

definition fresh :: "nat \<Rightarrow> Segmenter \<Rightarrow> bool" where
  "fresh n s \<longleftrightarrow> region_count s = n \<and> (\<forall>i < n. i < length (regions s) \<longrightarrow> fresh_region (reg s i))"

lemma fresh_upd:
  assumes "upd_region s i f = Some s'" "fresh n s" "\<And>r. fresh_region r \<Longrightarrow> fresh_region (f r)"
  shows "fresh n s'"
  using assms by (auto simp: upd_region_def Option.bind_eq_Some_conv buf_read_Some_iff buf_write_Some_iff
      fresh_def nth_list_update)

lemma fresh_region_simps [simp]:
  "fresh_region (r\<lparr>adjacent_regions := as\<rparr>) = fresh_region r"
  "fresh_region r \<Longrightarrow> fresh_region (r\<lparr>right := to_short z\<rparr>)" "fresh_region r \<Longrightarrow> fresh_region (r\<lparr>bottom := to_short z\<rparr>)"
  by (simp_all add: fresh_region_def short_box_def)

lemma fresh_upd_adj: "upd_region s i (\<lambda>r. r\<lparr>adjacent_regions := g r\<rparr>) = Some s' \<Longrightarrow> fresh n s \<Longrightarrow> fresh n s'"
  by (erule fresh_upd) simp_all

lemma fresh_or_flags:
  assumes "or_flags s i m = Some s'" "fresh n s" "m \<in> {ADJACENT_TO_ROOT_REGION_FLAG, SATURATED_REGION_FLAG, FRAGMENTED_REGION_FLAG}"
  shows "fresh n s'"
proof -
  have "\<not> flag_set m LOST_SYMBOL_FLAG"
    using assms(3) by (auto simp: flag_set_def region_flag_defs)
  then show ?thesis
    using assms(1,2) unfolding or_flags_def
    by (auto elim!: fresh_upd simp: fresh_region_def short_box_def flag_set_or)
qed

lemma fresh_or_flags_each:
  "or_flags s i ADJACENT_TO_ROOT_REGION_FLAG = Some s' \<Longrightarrow> fresh n s \<Longrightarrow> fresh n s'"
  "or_flags s i SATURATED_REGION_FLAG = Some s' \<Longrightarrow> fresh n s \<Longrightarrow> fresh n s'"
  "or_flags s i FRAGMENTED_REGION_FLAG = Some s' \<Longrightarrow> fresh n s \<Longrightarrow> fresh n s'"
  by (erule fresh_or_flags; simp)+

named_theorems fresh_rules \<open>the operations of the segmenter keep the initial values\<close>

lemmas [fresh_rules] = fresh_or_flags_each fresh_upd_adj

lemma fresh_remove [fresh_rules]: "remove_adjacent_from s a b = Some s' \<Longrightarrow> fresh n s \<Longrightarrow> fresh n s'"
  unfolding remove_adjacent_from_def by (auto simp: Option.bind_eq_Some_conv intro: fresh_rules)

lemma fresh_replace [fresh_rules]: "replace_adjacent s a b c = Some s' \<Longrightarrow> fresh n s \<Longrightarrow> fresh n s'"
  unfolding replace_adjacent_def by (auto simp: Option.bind_eq_Some_conv intro: fresh_rules)

lemma fresh_append [fresh_rules]: "append_adjacent s a b = Some s' \<Longrightarrow> fresh n s \<Longrightarrow> fresh n s'"
  unfolding append_adjacent_def by (auto simp: Option.bind_eq_Some_conv intro: fresh_rules)

lemma fresh_sat_loop [fresh_rules]: "make_saturated_loop s r i k = Some s' \<Longrightarrow> fresh n s \<Longrightarrow> fresh n s'"
  by (induction k arbitrary: s i) (auto simp: Option.bind_eq_Some_conv dest: fresh_rules)

lemma fresh_saturated [fresh_rules]: "make_saturated s r = Some s' \<Longrightarrow> fresh n s \<Longrightarrow> fresh n s'"
  unfolding make_saturated_def by (auto simp: Option.bind_eq_Some_conv dest: fresh_rules)

lemma fresh_update [fresh_rules]: "make_adjacent_update s a b = Some s' \<Longrightarrow> fresh n s \<Longrightarrow> fresh n s'"
  unfolding make_adjacent_update_def
  by (auto simp: Option.bind_eq_Some_conv dest: fresh_rules split: if_splits)

lemma fresh_make_adjacent [fresh_rules]: "make_adjacent s a b = Some s' \<Longrightarrow> fresh n s \<Longrightarrow> fresh n s'"
  unfolding make_adjacent_def
  by (auto simp: Option.bind_eq_Some_conv dest: fresh_rules split: if_splits)

lemma fresh_common_loop [fresh_rules]: "merge_common_loop s a b i k = Some s' \<Longrightarrow> fresh n s \<Longrightarrow> fresh n s'"
  by (induction k arbitrary: s i) (auto simp: Option.bind_eq_Some_conv dest: fresh_rules split: if_splits)

lemma fresh_move_loop [fresh_rules]: "merge_move_loop s a b i k = Some s' \<Longrightarrow> fresh n s \<Longrightarrow> fresh n s'"
  by (induction k arbitrary: s i) (auto simp: Option.bind_eq_Some_conv dest: fresh_rules)

lemma fresh_merge_adjacencies [fresh_rules]: "merge_adjacencies s a b = Some s' \<Longrightarrow> fresh n s \<Longrightarrow> fresh n s'"
  unfolding merge_adjacencies_def
  by (auto simp: Option.bind_eq_Some_conv dest: fresh_rules split: if_splits)

lemma fresh_merge:
  assumes "merge_regions s a b = Some s'" "fresh n s" "b < n"
  shows "fresh n s'"
proof -
  obtain s1 p2 where s1: "merge_adjacencies s a b = Some s1" "get_region s1 b = Some p2"
      "upd_region s1 a (\<lambda>p1. merge_bounds p1 p2) = Some s'"
    using assms(1) by (auto simp: merge_regions_def Option.bind_eq_Some_conv)
  have f1: "fresh n s1" using fresh_merge_adjacencies [OF s1(1) assms(2)] .
  then have "fresh_region p2" using assms(3) s1(2) by (auto simp: fresh_def get_region_Some_iff)
  then show ?thesis
    using s1(3) f1 by (auto elim!: fresh_upd simp: fresh_region_def short_box_def merge_bounds_def flag_set_or)
qed

lemma fresh_region_new:
  "fresh_region (r\<lparr>colour := c, left := to_short a, right := to_short b, rtop := to_short d, bottom := to_short e,
     flags := NO_REGION_FLAG, area := 0, level := UNKNOWN_REGION_LEVEL, depth := 0, children_visited_count := 0,
     descendent_count := 32767\<rparr>)"
  by (simp add: fresh_region_def short_box_def NO_REGION_FLAG_def)

lemma fresh_new_region:
  assumes "new_region s x y c = Some (ref, s')" "fresh n s"
  shows "\<exists>n'. fresh n' s'"
proof (cases "freed_regions_head s")
  case Null
  then have "fresh (Suc n) s'"
    using assms by (auto simp: new_region_def Option.bind_eq_Some_conv upd_region_def buf_read_Some_iff
        buf_write_Some_iff fresh_def nth_list_update less_Suc_eq fresh_region_new Let_def)
  then show ?thesis ..
next
  case (Reg f)
  then have "fresh n s'"
    using assms by (auto simp: new_region_def Option.bind_eq_Some_conv upd_region_def buf_read_Some_iff
        buf_write_Some_iff fresh_def nth_list_update fresh_region_new Let_def)
  then show ?thesis ..
next
  case (Head h)
  then show ?thesis using assms by (simp add: new_region_def)
qed

lemma fresh_rows [fresh_rules]:
  "row_set s b x r = Some s' \<Longrightarrow> fresh n s \<Longrightarrow> fresh n s'"
  "resolve_regionref s r = Some (q, s') \<Longrightarrow> fresh n s \<Longrightarrow> fresh n s'"
  by (auto simp: row_set_def resolve_regionref_def fresh_def Option.bind_eq_Some_conv split: if_splits)

lemma fresh_row_resolve [fresh_rules]: "row_resolve s b x = Some s' \<Longrightarrow> fresh n s \<Longrightarrow> fresh n s'"
  unfolding row_resolve_def by (auto simp: Option.bind_eq_Some_conv dest: fresh_rules)

lemma fresh_top_pixel: "top_pixel s cur src x = Some s' \<Longrightarrow> fresh n s \<Longrightarrow> \<exists>n'. fresh n' s'"
  unfolding top_pixel_def
  by (auto simp: Option.bind_eq_Some_conv dest!: fresh_new_region dest: fresh_rules split: if_splits prod.splits)

lemma fresh_top_loop: "top_loop s cur src x k = Some s' \<Longrightarrow> fresh n s \<Longrightarrow> \<exists>n'. fresh n' s'"
  by (induction k arbitrary: s x n) (auto simp: Option.bind_eq_Some_conv dest!: fresh_top_pixel)

lemma fresh_top_line: "top_line s cur src = Some s' \<Longrightarrow> fresh n s \<Longrightarrow> \<exists>n'. fresh n' s'"
  unfolding top_line_def
  by (auto simp: Option.bind_eq_Some_conv dest!: fresh_new_region dest: fresh_rules fresh_top_loop)

lemma fresh_left_edge: "left_edge s prev cur src y = Some s' \<Longrightarrow> fresh n s \<Longrightarrow> \<exists>n'. fresh n' s'"
  unfolding left_edge_def
  by (auto simp: Option.bind_eq_Some_conv dest!: fresh_new_region dest: fresh_rules split: if_splits)

lemma fresh_bottom_loop: "bottom_loop s cur x k = Some s' \<Longrightarrow> fresh n s \<Longrightarrow> fresh n s'"
  by (induction k arbitrary: s x) (auto simp: Option.bind_eq_Some_conv dest: fresh_rules)

lemma fresh_free: "fresh_region r \<Longrightarrow> fresh_region (r\<lparr>flags := FREE_REGION_FLAG, nxt := p\<rparr>)"
  by (simp add: fresh_region_def short_box_def flag_set_def region_flag_defs)

lemma fresh_merge_into_previous:
  assumes "merge_into_previous s prev cur x = Some s'" "fresh n s" "\<And>c. row_region s cur x = Some c \<Longrightarrow> c < n"
  shows "fresh n s'"
proof -
  obtain u c s1 s2 cref uref refs where s1: "row_region s cur x = Some c" "merge_regions s u c = Some s1"
      "upd_region s1 c (\<lambda>r. r\<lparr>flags := FREE_REGION_FLAG, nxt := freed_regions_head s1\<rparr>) = Some s2"
      "row_set (s2\<lparr>freed_regions_head := Reg c, region_refs := refs\<rparr>) cur x uref = Some s'"
    using assms(1) by (auto simp: merge_into_previous_def Option.bind_eq_Some_conv Let_def)
  have "fresh n s1" by (rule fresh_merge [OF s1(2) assms(2) assms(3) [OF s1(1)]])
  then have "fresh n s2" by (rule fresh_upd [OF s1(3)]) (rule fresh_free)
  then have "fresh n (s2\<lparr>freed_regions_head := Reg c, region_refs := refs\<rparr>)" by (simp add: fresh_def)
  then show ?thesis using fresh_rows(1) [OF s1(4)] by blast
qed

text \<open>In the centre the region to the west is a live one, so the merge is of two fresh regions.\<close>

lemma fresh_center_pixel:
  assumes px: "center_pixel s prev cur src y x = Some s'" and f: "fresh n s"
    and inv: "scan_inv W H src B (y * W + x) lab s" and win: "window W lab cur prev y x s"
    and x: "0 < x" "x < W" and y: "0 < y" and rb: "row_bases W cur prev"
  shows "\<exists>n'. fresh n' s'"
proof -
  obtain s1 where s1: "row_resolve s prev x = Some s1" "scan_inv W H src B (y * W + x) lab s1"
      "window W lab cur prev y x s1"
    using resolve_north [OF inv win rb x(2) y] by blast
  have f1: "fresh n s1" by (rule fresh_row_resolve [OF s1(1) f])
  let ?w = "lab (y * W + x - 1)"
  note core = scan_invD(5) [OF s1(2)]
  have "row_region s1 cur (x - 1) = Some ?w"
    by (rule root_cell_get(1) [OF window_cells(2) [OF s1(3) x(2,1)] coreD(1) [OF core]])
  moreover have "?w < n"
  proof -
    have "y * W + x - 1 \<in> {..<y * W + x}" using x(1) by simp
    then show ?thesis using slots_ok_D(1) [OF coreD(2) [OF core]] f1 unfolding fresh_def by blast
  qed
  ultimately have w: "c < n" if "row_get s1 cur (x - 1) = Some r" "row_set s1 cur x r = Some t" "row_region t cur x = Some c" for r t c
    using that by (auto simp: row_region_def row_set_def row_get_def ref_region_def Option.bind_eq_Some_conv
        buf_write_Some_iff buf_read_Some_iff)
  obtain p q where eq: "(if p = q then do {
       cref \<leftarrow> row_get s1 cur (x - 1);
       s \<leftarrow> row_set s1 cur x cref;
       uref \<leftarrow> row_get s prev x;
       if cref \<noteq> uref then do {
         u \<leftarrow> row_region s prev x;
         pu \<leftarrow> get_region s u;
         if p = colour pu then merge_into_previous s prev cur x else Some s
       } else Some s
     } else do {
       w \<leftarrow> row_region s1 cur (x - 1);
       pw \<leftarrow> get_region s1 w;
       s \<leftarrow> (if right pw < int x - 1
            then upd_region s1 w (\<lambda>r. r\<lparr>right := to_short (int x - 1)\<rparr>)
            else Some s1);
       u \<leftarrow> row_region s prev x;
       pu \<leftarrow> get_region s u;
       if p = colour pu then do {
         uref \<leftarrow> row_get s prev x;
         s \<leftarrow> row_set s cur x uref;
         r \<leftarrow> row_region s cur x;
         upd_region s r (\<lambda>r. r\<lparr>bottom := to_short (int y)\<rparr>)
       } else do {
         (ref, s) \<leftarrow> new_region s x y p;
         s \<leftarrow> row_set s cur x ref;
         r \<leftarrow> row_region s cur x;
         u \<leftarrow> row_region s prev x;
         s \<leftarrow> make_adjacent s r u;
         w \<leftarrow> row_region s cur (x - 1);
         u \<leftarrow> row_region s prev x;
         if w \<noteq> u then do {
           r \<leftarrow> row_region s cur x;
           make_adjacent s r w
         } else Some s
       }
     }) = Some s'"
    using px s1(1) unfolding center_pixel_def Let_def by (auto simp: Option.bind_eq_Some_conv simp del: One_nat_def split del: if_split)
  show ?thesis
  proof (cases "p = q")
    case True
    then obtain cref s2 where s2: "row_get s1 cur (x - 1) = Some cref" "row_set s1 cur x cref = Some s2"
        "s' = s2 \<or> merge_into_previous s2 prev cur x = Some s'"
      using eq by (auto simp: Option.bind_eq_Some_conv simp del: One_nat_def split: if_splits)
    have f2: "fresh n s2" by (rule fresh_rows(1) [OF s2(2) f1])
    then show ?thesis using s2(3) fresh_merge_into_previous [OF _ f2 w [OF s2(1,2)]] by blast
  next
    case False
    obtain wr s2 u and pw pu :: Region where s2: "(if right pw < int x - 1
            then upd_region s1 wr (\<lambda>r. r\<lparr>right := to_short (int x - 1)\<rparr>) else Some s1) = Some s2"
      and rest: "(if p = colour pu then do {
         uref \<leftarrow> row_get s2 prev x;
         s \<leftarrow> row_set s2 cur x uref;
         r \<leftarrow> row_region s cur x;
         upd_region s r (\<lambda>r. r\<lparr>bottom := to_short (int y)\<rparr>)
       } else do {
         (ref, s) \<leftarrow> new_region s2 x y p;
         s \<leftarrow> row_set s cur x ref;
         r \<leftarrow> row_region s cur x;
         u \<leftarrow> row_region s prev x;
         s \<leftarrow> make_adjacent s r u;
         w \<leftarrow> row_region s cur (x - 1);
         u \<leftarrow> row_region s prev x;
         if w \<noteq> u then do {
           r \<leftarrow> row_region s cur x;
           make_adjacent s r w
         } else Some s
       }) = Some s'"
      using eq unfolding if_not_P [OF False] Option.bind_eq_Some_conv
      by (elim exE conjE) (rule that, assumption+)
    have f2: "fresh n s2" using s2 f1 by (auto split: if_splits elim: fresh_upd)
    show ?thesis
    proof (cases "p = colour pu")
      case True
      then obtain uref s3 r where s3: "row_set s2 cur x uref = Some s3"
          "upd_region s3 r (\<lambda>r. r\<lparr>bottom := to_short (int y)\<rparr>) = Some s'"
        using rest by (auto simp: Option.bind_eq_Some_conv)
      then have "fresh n s'" using fresh_upd [OF s3(2) fresh_rows(1) [OF s3(1) f2]] by simp
      then show ?thesis ..
    next
      case False
      then obtain ref s3 s4 s5 r v where s5: "new_region s2 x y p = Some (ref, s3)" "row_set s3 cur x ref = Some s4"
          "make_adjacent s4 r v = Some s5" "s' = s5 \<or> (\<exists>r w. make_adjacent s5 r w = Some s')"
        using rest unfolding if_not_P [OF False] by (fastforce simp: Option.bind_eq_Some_conv simp del: One_nat_def split: if_splits)
      obtain m where "fresh m s3" using fresh_new_region [OF s5(1) f2] by blast
      then have "fresh m s5" using fresh_rows(1) [OF s5(2)] fresh_make_adjacent [OF s5(3)] by blast
      then show ?thesis using s5(4) fresh_make_adjacent by blast
    qed
  qed
qed

lemma fresh_center_loop:
  assumes "center_loop s prev cur src y x k = Some s'" "fresh n s"
    "scan_inv W H src (border_upto W y) (y * W + x) lab s" "binary_image W H src"
    "0 < x" "x + k \<le> W" "0 < y" "y < H" "window W lab cur prev y x s" "row_bases W cur prev"
  shows "\<exists>n'. fresh n' s'"
  using assms
proof (induction k arbitrary: x lab s n)
  case (Suc k)
  have xW: "x < W" using Suc.prems(6) by simp
  have c: "center W H y x" using Suc.prems xW by (simp add: center_def)
  have nB: "y * W + x \<notin> border_upto W y"
    using Suc.prems center_facts(5) [OF c Suc.prems(4)] by (cases y) (auto simp: border_upto_def)
  obtain s1 f1 where s1: "center_pixel s prev cur src y x = Some s1"
      "scan_inv W H src (border_upto W y) (y * W + Suc x) f1 s1" "window W f1 cur prev y (Suc x) s1"
    using center_pixel_ok [OF Suc.prems(3) c Suc.prems(4,9,10) nB] by auto
  obtain m where m: "fresh m s1"
    using fresh_center_pixel [OF s1(1) Suc.prems(2,3,9,5) xW Suc.prems(7,10)] by blast
  have "center_loop s1 prev cur src y (Suc x) k = Some s'" using Suc.prems(1) s1(1) by simp
  from Suc.IH [OF this m s1(2) Suc.prems(4) _ _ Suc.prems(7,8) s1(3) Suc.prems(10)] Suc.prems(6)
  show ?case by simp
qed auto

lemma fresh_process_line:
  assumes pl: "process_line s prev cur src y = Some s'" and f: "fresh n s"
    and inv: "scan_inv W H src (border_upto W y) (y * W) lab s" and bin: "binary_image W H src"
    and y: "0 < y" "y < H" and win: "window W lab cur prev y 0 s" and rb: "row_bases W cur prev"
  shows "\<exists>n'. fresh n' s'"
proof -
  have W: "0 < W" using bin by (simp add: binary_image_def)
  obtain s1 f1 where s1: "left_edge s prev cur src y = Some s1"
      "scan_inv W H src (border_upto W y) (y * W + 1) f1 s1" "window W f1 cur prev y 1 s1"
    using left_edge_ok [OF inv bin y win rb] by (auto simp: border_upto_def)
  obtain m where m: "fresh m s1" using fresh_left_edge [OF s1(1) f] by blast
  obtain s2 r where s2: "center_loop s1 prev cur src y 1 (W - 1) = Some s2"
      "or_flags s2 r ADJACENT_TO_ROOT_REGION_FLAG = Some s'"
    using pl s1(1) scan_invD(2) [OF s1(2)] by (auto simp: process_line_def Option.bind_eq_Some_conv)
  obtain m' where "fresh m' s2"
    using fresh_center_loop [OF s2(1) m s1(2) bin _ _ y s1(3) rb] W by auto
  then show ?thesis using fresh_or_flags_each(1) [OF s2(2)] by blast
qed

lemma fresh_line_loop:
  assumes "line_loop s prev cur src y k = Some (c', s')" "fresh n s"
    "scan_inv W H src (border_upto W y) (y * W) lab s" "binary_image W H src"
    "0 < y" "y + k = H" "window W lab cur prev (y - 1) W s" "row_bases W cur prev"
  shows "\<exists>n'. fresh n' s'"
  using assms
proof (induction k arbitrary: y lab s cur prev n)
  case (Suc k)
  have rb: "row_bases W prev cur" using Suc.prems(8) by (auto simp: row_bases_def)
  have win: "window W lab prev cur y 0 s" using next_line [OF Suc.prems(7)] Suc.prems(5) by simp
  have yH: "y < H" using Suc.prems(6) by simp
  obtain s1 f1 where s1: "process_line s cur prev src y = Some s1"
      "scan_inv W H src (border_upto W (Suc y)) (Suc y * W) f1 s1" "window W f1 prev cur y W s1"
    using process_line_ok [OF Suc.prems(3-5) yH win rb] by blast
  obtain m where m: "fresh m s1" using fresh_process_line [OF s1(1) Suc.prems(2-5) yH win rb] by blast
  have w1: "window W f1 prev cur (Suc y - 1) W s1" and yn: "Suc y + k = H" using s1(3) Suc.prems(6) by simp_all
  have "line_loop s1 cur prev src (Suc y) k = Some (c', s')" using Suc.prems(1) s1(1) by simp
  from Suc.IH [OF this m s1(2) Suc.prems(4) _ yn w1 rb] show ?case by simp
qed auto

lemma fresh_build_regions:
  assumes run: "build_regions s src = Some s'" and bin: "binary_image (width s) (height s) src" and mem: "segmenter_memory s"
  shows "\<exists>n. fresh n s'"
proof -
  let ?W = "width s" and ?H = "height s"
  have WH: "0 < ?W" "0 < ?H" using bin by (auto simp: binary_image_def)
  define s0 where "s0 = s\<lparr>region_ref_count := 0, region_count := 0, freed_regions_head := Null\<rparr>"
  have inv0: "scan_inv ?W ?H src (border_upto ?W 1) 0 (\<lambda>p. 0) s0"
    unfolding s0_def by (rule scan_start [OF mem])
  have f0: "fresh 0 s0" by (simp add: fresh_def s0_def)
  obtain s1 f1 where s1: "top_line s0 0 src = Some s1" "scan_inv ?W ?H src (border_upto ?W 1) ?W f1 s1"
      "window ?W f1 0 ?W 0 ?W s1"
    using top_line_ok [OF inv0 bin, of 0 ?W] by (auto simp: row_bases_def border_upto_def)
  obtain m where m: "fresh m s1" using fresh_top_line [OF s1(1) f0] by blast
  have "width s0 = ?W" "height s1 = ?H" using scan_invD(3) [OF s1(2)] by (simp_all add: s0_def)
  then obtain cur s2 where s2: "line_loop s1 ?W 0 src 1 (?H - 1) = Some (cur, s2)"
      "bottom_loop s2 cur 0 (width s2) = Some s'"
    using run [unfolded build_regions_def Let_def, folded s0_def] s1(1) by (auto simp: Option.bind_eq_Some_conv)
  obtain m' where "fresh m' s2"
    using fresh_line_loop [OF s2(1) m, of ?W ?H f1] s1(2,3) bin WH by (auto simp: row_bases_def)
  then show ?thesis using fresh_bottom_loop [OF s2(2)] by blast
qed

subsection \<open>The output of the segmenter as a graph\<close>

text \<open>
  A segmenter state that \<open>step_segmenter\<close> produced from an image, and the parts of it that
  the tree search reads: the regions in use, and the regions that are saturated, fragmented
  or at the border of the image, for which the lists of neighbours may be incomplete.
\<close>

definition segmented :: "Segmenter \<Rightarrow> bool" where
  "segmented s \<longleftrightarrow> (\<exists>s0 src. binary_image (width s0) (height s0) src \<and> segmenter_memory s0 \<and>
     step_segmenter s0 src = Some s)"

definition open_ended :: "Region \<Rightarrow> bool" where
  "open_ended r \<longleftrightarrow> flag_set (flags r) SATURATED_REGION_FLAG \<or> flag_set (flags r) FRAGMENTED_REGION_FLAG \<or>
     flag_set (flags r) ADJACENT_TO_ROOT_REGION_FLAG"

lemma segmentedE:
  assumes "segmented s"
  obtains W H src f where "binary_image W H src"
    "scan_inv W H src (border_pixels W H) (W * H) f s" "\<exists>n. fresh n s"
proof -
  obtain s0 src where s0: "binary_image (width s0) (height s0) src" "segmenter_memory s0" "step_segmenter s0 src = Some s"
    using assms by (auto simp: segmented_def)
  obtain f where inv: "scan_inv (width s0) (height s0) src (border_pixels (width s0) (height s0)) (width s0 * height s0) f s"
    using step_segmenter_ok [OF s0(1,2)] s0(3) by auto
  have "build_regions s0 src = Some s"
    using s0 by (auto simp: step_segmenter_def binary_image_def segmenter_memory_def split: if_splits)
  then have "\<exists>n. fresh n s" by (rule fresh_build_regions [OF _ s0(1,2)])
  then show ?thesis by (rule that [OF s0(1) inv])
qed

text \<open>The initial values that \<open>sanity_check_region_initial_values\<close> asserts.\<close>

lemma segmented_fresh:
  assumes "segmented s" "i < region_count s"
  shows "i < length (regions s)" "fresh_region (reg s i)"
proof -
  from assms(1) obtain W H src f n where "scan_inv W H src (border_pixels W H) (W * H) f s" "fresh n s"
    by (rule segmentedE) blast
  then show i: "i < length (regions s)"
    using slots_ok_D assms(2) coreD(2) [OF scan_invD(5)] unfolding slots_ok_def by fastforce
  show "fresh_region (reg s i)" using \<open>fresh n s\<close> i assms(2) by (simp add: fresh_def)
qed

lemma segmented_graph:
  assumes "segmented s" "x \<in> live s"
  shows "x < region_count s" "a \<in> set (adjacent_regions (reg s x)) \<Longrightarrow> a \<in> live s \<and> a \<noteq> x"
    "y \<in> live s \<Longrightarrow> count_list (adjacent_regions (reg s x)) y = count_list (adjacent_regions (reg s y)) x"
    "length (adjacent_regions (reg s x)) \<le> max_adjacent_regions s"
    "is_saturated (reg s x) \<Longrightarrow> adjacent_regions (reg s x) = []"
    "a \<in> set (adjacent_regions (reg s x)) \<Longrightarrow> colour (reg s a) \<noteq> colour (reg s x)"
proof -
  obtain s0 src where s0: "binary_image (width s0) (height s0) src" "segmenter_memory s0" "step_segmenter s0 src = Some s"
    using assms(1) by (auto simp: segmented_def)
  note wf = adjacency_facts [OF s0 assms(2)]
  show "x < region_count s" using assms(2) by (simp add: live_def)
  show "y \<in> live s \<Longrightarrow> count_list (adjacent_regions (reg s x)) y = count_list (adjacent_regions (reg s y)) x"
    using wf by blast
  show "length (adjacent_regions (reg s x)) \<le> max_adjacent_regions s"
    "is_saturated (reg s x) \<Longrightarrow> adjacent_regions (reg s x) = []"
    using wf [OF assms(2)] by (simp_all add: adjacent_region_count_def)
  assume a: "a \<in> set (adjacent_regions (reg s x))"
  then have "a \<in> live s" using wf [OF assms(2)] by blast
  moreover from this show "colour (reg s a) \<noteq> colour (reg s x)" using wf a by blast
  ultimately show "a \<in> live s \<and> a \<noteq> x" by auto
qed

text \<open>The slots of regions that were merged into others have no neighbours.\<close>

lemma segmented_idle:
  assumes "segmented s" "x < region_count s" "x \<notin> live s"
  shows "adjacent_regions (reg s x) = []"
proof -
  from assms(1) obtain W H src f where inv: "scan_inv W H src (border_pixels W H) (W * H) f s"
    by (rule segmentedE) blast
  show ?thesis using core_live(1) [OF scan_invD(5) [OF inv]] core_live(2) [OF scan_invD(5) [OF inv], of x] assms(2,3) by blast
qed

lemma segmented_colour:
  assumes "segmented s" "x \<in> live s"
  shows "colour (reg s x) = 0 \<or> colour (reg s x) = 255"
proof -
  obtain W H src f where bin: "binary_image W H src" and inv: "scan_inv W H src (border_pixels W H) (W * H) f s"
    using assms(1) by (rule segmentedE)
  obtain p where p: "p < W * H" "x = f p" using assms(2) core_live(1) [OF scan_invD(5) [OF inv]] by auto
  then have "colour (reg s x) = src ! p" using scan_invD(6) [OF inv] by simp
  moreover have "src ! p \<in> set src" using bin p(1) by (simp add: binary_image_def)
  ultimately show ?thesis using bin by (auto simp: binary_image_def)
qed

text \<open>
  Every set of regions that is closed under adjacency contains an open-ended region: the
  pixels of the image are connected, a contact is only lost at an open-ended region, and the
  first pixel lies on the border.
\<close>

lemma segmented_rooted:
  assumes seg: "segmented s" and S: "S \<noteq> {}" "\<And>x. x \<in> S \<Longrightarrow> x \<in> live s \<and> set (adjacent_regions (reg s x)) \<subseteq> S"
  shows "\<exists>x\<in>S. open_ended (reg s x)"
proof (rule ccontr)
  assume no: "\<not> (\<exists>x\<in>S. open_ended (reg s x))"
  obtain W H src f where bin: "binary_image W H src" and inv: "scan_inv W H src (border_pixels W H) (W * H) f s"
    using seg by (rule segmentedE)
  have W: "0 < W" "0 < W * H" using bin by (auto simp: binary_image_def)
  have lv: "live s = f ` {..<W * H}" using core_live(1) [OF scan_invD(5) [OF inv]] .
  have step: "f q \<in> S" if "f p \<in> S" "p < W * H" "q < W * H" "nbr W p q" for p q
  proof (cases "f q = f p")
    case False
    have l: "f p \<in> live s" "f q \<in> live s" using lv that by auto
    have "contact W (W * H) f (f p) (f q)" using that False by (intro contactI) auto
    then have "f q \<in> set (adjacent_regions (reg s (f p))) \<or> lost_contact s (f p) (f q)"
      using scan_adjacency(2) [OF inv l] by blast
    moreover have "\<not> lost_contact s (f p) (f q)"
      using no that(1) by (auto simp: lost_contact_def open_ended_def is_saturated_def)
    ultimately show ?thesis using S(2) [OF that(1)] by blast
  qed (use that in simp)
  have "f 0 \<in> S" if "f p \<in> S" "p < W * H" for p
    using that
  proof (induction p rule: less_induct)
    case (less p)
    show ?case
    proof (cases "p = 0")
      case False
      obtain q where "q < p" "nbr W p q"
      proof (cases "p mod W = 0")
        case True
        then have "W \<le> p" using False by (metis mod_less not_le_imp_less)
        then show ?thesis using that [of "p - W"] W by (auto simp: nbr_def before_def north_def)
      next
        case F: False
        then show ?thesis using that [of "p - 1"] False by (auto simp: nbr_def before_def west_def)
      qed
      then show ?thesis using less step by (meson less_trans)
    qed (use less in simp)
  qed
  moreover obtain p where "p < W * H" "f p \<in> S" using S lv by (metis (no_types) ex_in_conv image_iff lessThan_iff subsetD)
  ultimately have "f 0 \<in> S" by blast
  moreover have "flag_set (flags (reg s (f 0))) ADJACENT_TO_ROOT_REGION_FLAG"
  proof -
    have "0 \<in> border_pixels W H" using W by (simp add: border_pixels_def)
    then have "v_border (view s (f 0))"
      using scan_invD(8) [OF inv, unfolded borders_def, rule_format, OF W(2)] W(2) by (simp only:) (rule exI [of _ 0], simp)
    then show ?thesis by simp
  qed
  ultimately show False using no by (auto simp: open_ended_def)
qed

interpretation seg: region_graph segmented region_count "\<lambda>s i. adjacent_regions (reg s i)"
  "\<lambda>s x. x \<in> live s" "\<lambda>s x. open_ended (reg s x)"
proof
  fix s x a S
  assume s: "segmented s"
  show "x \<in> live s \<Longrightarrow> x < region_count s" by (rule segmented_graph(1) [OF s])
  show "x \<in> live s \<Longrightarrow> a \<in> set (adjacent_regions (reg s x)) \<Longrightarrow> a \<in> live s \<and> a \<noteq> x"
    by (rule segmented_graph(2) [OF s])
  show "x \<in> live s \<Longrightarrow> a \<in> live s \<Longrightarrow>
      count_list (adjacent_regions (reg s x)) a = count_list (adjacent_regions (reg s a)) x"
    by (rule segmented_graph(3) [OF s])
  show "S \<noteq> {} \<Longrightarrow> (\<And>x. x \<in> S \<Longrightarrow> x \<in> live s \<and> set (adjacent_regions (reg s x)) \<subseteq> S) \<Longrightarrow>
      \<exists>x\<in>S. open_ended (reg s x)"
    by (rule segmented_rooted [OF s])
qed

text \<open>C17: What \<open>step_segmenter\<close> leaves in the region table is well typed for its readers: every slot in
  use lies in the buffer, its box fields are values of a \<open>short\<close>, it has the initial level and
  counters of the tree search, at most \<open>max_adjacent_regions\<close> neighbours that lie in the
  table, a live region is black or white, and a freed slot has no neighbours.\<close>

theorem region_fields_typed:
  assumes "binary_image (width s0) (height s0) src" "segmenter_memory s0" "step_segmenter s0 src = Some s" "i < region_count s"
  shows "i < length (regions s) \<and> (let r = reg s i in
    {left r, rtop r, right r, bottom r} \<subseteq> {- 32768..32767} \<and>
    level r = UNKNOWN_REGION_LEVEL \<and> children_visited_count r = 0 \<and> descendent_count r = 32767 \<and>
    adjacent_region_count r \<le> max_adjacent_regions s \<and> set (adjacent_regions r) \<subseteq> {..<region_count s} \<and>
    (if flag_set (flags r) FREE_REGION_FLAG then adjacent_regions r = [] else colour r = 0 \<or> colour r = 255))"
proof -
  have seg: "segmented s" unfolding segmented_def using assms(1-3) by blast
  note F = segmented_fresh [OF seg assms(4)]
  have box: "{left (reg s i), rtop (reg s i), right (reg s i), bottom (reg s i)} \<subseteq> {- 32768..32767}"
    using F(2) by (simp add: fresh_region_def short_box_def is_short_def)
  have lv: "i \<in> live s \<longleftrightarrow> \<not> flag_set (flags (reg s i)) FREE_REGION_FLAG"
    using assms(4) by (simp add: live_def is_free_def)
  have "adjacent_region_count (reg s i) \<le> max_adjacent_regions s \<and> set (adjacent_regions (reg s i)) \<subseteq> {..<region_count s} \<and>
    (if flag_set (flags (reg s i)) FREE_REGION_FLAG then adjacent_regions (reg s i) = [] else colour (reg s i) = 0 \<or> colour (reg s i) = 255)"
  proof (cases "i \<in> live s")
    case True
    have "a < region_count s" if "a \<in> set (adjacent_regions (reg s i))" for a
      using segmented_graph(2) [OF seg True that] by (simp add: live_def)
    then show ?thesis using segmented_graph(4) [OF seg True] segmented_colour [OF seg True] lv True
      by (auto simp: adjacent_region_count_def)
  next
    case False
    then show ?thesis using segmented_idle [OF seg assms(4) False] lv by (simp add: adjacent_region_count_def)
  qed
  then show ?thesis using F box by (simp only: Let_def fresh_region_def) blast
qed

lemma region_fields_typed_witness:
  "\<exists>s. step_segmenter (blank_segmenter 3 3 4) ring = Some s \<and> {left (reg s 1), rtop (reg s 1), right (reg s 1), bottom (reg s 1)} \<subseteq> {- 32768..32767}"
proof -
  obtain s where s: "step_segmenter (blank_segmenter 3 3 4) ring = Some s" "region_count s = 2" using ring_run by auto
  have "binary_image (width (blank_segmenter 3 3 4)) (height (blank_segmenter 3 3 4)) ring" by simp
  from region_fields_typed [OF this blank_segmenter_simps(3) s(1), of 1] s show ?thesis by (auto simp: Let_def)
qed

end
