(* ===== verification/FidtrackTraversal.thy ===== *)
theory FidtrackTraversal
  imports FidtrackX SegmentFresh
begin

text \<open>
  \<open>find_roots\<close> of \<^verbatim>\<open>fidtrackX.c\<close> against the course of a traversal: the fields of the
  regions hold the size and the height of the trees, no assertion fails, and the list of
  roots holds the regions whose tree has the size and the height that the tracker looks for.
\<close>

subsection \<open>Arithmetic of shorts\<close>

lemma to_short_add:
  "to_short (to_short a + b) = to_short (a + b)" "to_short (a + to_short b) = to_short (a + b)"
proof -
  have "(a + 32768 + b) mod 65536 = ((a + 32768) mod 65536 + b) mod 65536" by (simp add: mod_add_left_eq)
  then show "to_short (to_short a + b) = to_short (a + b)" by (simp add: to_short_def algebra_simps)
  have "(a + (b + 32768)) mod 65536 = (a + (b + 32768) mod 65536) mod 65536" by (simp add: mod_add_right_eq)
  then show "to_short (a + to_short b) = to_short (a + b)" by (simp add: to_short_def algebra_simps)
qed

text \<open>The counters of a tree, as the \<open>short\<close> fields of its root.\<close>

definition short_count :: "tree \<Rightarrow> int" where
  "short_count t = to_short (int (nodes t) - 1)"

fun short_height :: "tree \<Rightarrow> int" where
  "short_height (Tree ts) =
     fold (\<lambda>t m. to_short (if m > short_height t + 1 then m else short_height t + 1)) ts 0"

lemma short_count_Tree:
  "fold (\<lambda>t d. to_short (d + to_short (short_count t + 1))) ts (to_short m) =
   to_short (m + int (sum_list (map nodes ts)))"
proof (induction ts arbitrary: m)
  case (Cons t ts)
  have "to_short (to_short m + to_short (short_count t + 1)) = to_short (m + int (nodes t))"
    by (simp add: short_count_def to_short_add)
  then have "fold (\<lambda>t d. to_short (d + to_short (short_count t + 1))) (t # ts) (to_short m) =
      fold (\<lambda>t d. to_short (d + to_short (short_count t + 1))) ts (to_short (m + int (nodes t)))" by simp
  also have "\<dots> = to_short (m + int (nodes t) + int (sum_list (map nodes ts)))" by (rule Cons.IH)
  finally show ?case by (simp add: add.assoc)
qed simp

text \<open>Without overflow they are the number of descendents and the height.\<close>

lemma short_count_exact: "nodes t \<le> 32768 \<Longrightarrow> short_count t = int (nodes t) - 1"
  by (simp add: short_count_def)

lemma short_height_exact: "nodes t \<le> 32768 \<Longrightarrow> short_height t = int (tree_height t)"
proof (induction t rule: short_height.induct)
  case (1 ts)
  have b: "nodes t \<le> 32768" "tree_height t < 32767" if "t \<in> set ts" for t
  proof -
    show "nodes t \<le> 32768" using nodes_member [OF that] "1.prems" by simp
    then show "tree_height t < 32767" using nodes_member [OF that] height_less_nodes [of t] "1.prems" by simp
  qed
  have "fold (\<lambda>t m. to_short (if m > short_height t + 1 then m else short_height t + 1)) us (int m) =
      int (fold max (map (\<lambda>t. Suc (tree_height t)) us) m)" if "set us \<subseteq> set ts" "m \<le> 32767" for us m
    using that
  proof (induction us arbitrary: m)
    case (Cons u us)
    have u: "short_height u = int (tree_height u)" "tree_height u < 32767" using "1.IH" b Cons.prems(1) by auto
    have "to_short (if int m > short_height u + 1 then int m else short_height u + 1) = int (max (Suc (tree_height u)) m)"
      using u Cons.prems(2) by (auto simp: max_def)
    moreover have "max (Suc (tree_height u)) m \<le> 32767" using u Cons.prems(2) by auto
    ultimately show ?case using Cons.IH [of "max (Suc (tree_height u)) m"] Cons.prems(1) by (simp add: max.commute)
  qed simp
  from this [of ts 0] show ?case by simp
qed

subsection \<open>Which trees are roots\<close>

definition depth_fits :: "FidtrackerX \<Rightarrow> tree \<Rightarrow> bool" where
  "depth_fits ft t \<longleftrightarrow> min_depth ft \<le> short_height t \<and> short_height t \<le> max_depth ft"

definition exact_root :: "FidtrackerX \<Rightarrow> tree \<Rightarrow> bool" where
  "exact_root ft t \<longleftrightarrow> depth_fits ft t \<and> short_count t = max_target_root_descendent_count ft"

definition partial_root :: "FidtrackerX \<Rightarrow> tree \<Rightarrow> bool" where
  "partial_root ft t \<longleftrightarrow> depth_fits ft t \<and> min_target_root_descendent_count ft \<le> short_count t \<and>
     short_count t < max_target_root_descendent_count ft"

text \<open>A root that is kept although nodes seem to be missing or spurious; it is flagged as lost.\<close>

definition fuzzy_root :: "FidtrackerX \<Rightarrow> tree \<Rightarrow> bool" where
  "fuzzy_root ft t \<longleftrightarrow> depth_fits ft t \<and> \<not> exact_root ft t \<and> \<not> partial_root ft t \<and>
     min_target_root_descendent_range ft \<le> short_count t \<and> short_count t < max_target_root_descendent_range ft"

definition is_fiducial_root :: "FidtrackerX \<Rightarrow> tree \<Rightarrow> bool" where
  "is_fiducial_root ft t \<longleftrightarrow> exact_root ft t \<or> partial_root ft t \<or> fuzzy_root ft t"

text \<open>Trees above which the search goes on.\<close>

definition goes_on :: "FidtrackerX \<Rightarrow> tree \<Rightarrow> bool" where
  "goes_on ft t \<longleftrightarrow> \<not> exact_root ft t \<and> short_count t < max_target_root_descendent_count ft \<and>
     short_height t < max_depth ft"

subsection \<open>Memory\<close>

lemma region_at_eq [buf_simps]: "i < length (regions (seg w)) \<Longrightarrow> region_at w i = Some (reg (seg w) i)"
  by (simp add: region_at_def buf_simps)

lemma set_region_eq [buf_simps]:
  "i < length (regions (seg w)) \<Longrightarrow> set_region w i f = Some (put w (Reg i) (f (reg (seg w) i)))"
  by (simp add: set_region_def buf_simps)

lemma has_neighbour_eq [buf_simps]:
  "i < length (regions (seg w)) \<Longrightarrow> has_neighbour w i j = Some (j \<in> set (adjacent_regions (reg (seg w) i)))"
  by (simp add: has_neighbour_def buf_simps adjacent_list_contains_iff)

lemma put_reg_simps [simp]:
  "regions (seg (put w (Reg r) x)) = (regions (seg w))[r := x]"
  "heads (put w (Reg r) x) = heads w" "region_count (seg (put w (Reg r) x)) = region_count (seg w)"
  "max_adjacent_regions (seg (put w (Reg r) x)) = max_adjacent_regions (seg w)"
  "put (put w (Reg r) x) (Reg r) y = put w (Reg r) y"
  by simp_all

lemma put_same [simp]: "r < length (regions (seg w)) \<Longrightarrow> put w (Reg r) (reg (seg w) r) = w"
  by simp

lemma fold_put:
  "r \<notin> set bs \<Longrightarrow> fold (\<lambda>a. F (reg (seg (put w (Reg r) x)) a)) bs k = fold (\<lambda>a. F (reg (seg w) a)) bs k"
  by (induction bs arbitrary: k) (auto simp del: put.simps)

text \<open>The loop over the adjacent regions.\<close>

lemma propagate_loop_ok:
  assumes "r < length (regions (seg w))"
    and "\<And>a. a \<in> set as \<Longrightarrow> a < length (regions (seg w)) \<and> a \<noteq> r \<and> r \<in> set (adjacent_regions (reg (seg w) a)) \<and>
      (level (reg (seg w) a) = TRAVERSED \<longleftrightarrow> a \<in> T)"
    and "filter (\<lambda>a. a \<notin> T) as = us" "length us \<le> 1" "us \<noteq> [] \<Longrightarrow> p = None"
  shows "propagate_loop w r as p = Some (put w (Reg r) ((reg (seg w) r)\<lparr>
      descendent_count := fold (\<lambda>a d. to_short (d + to_short (descendent_count (reg (seg w) a) + 1)))
        (filter (\<lambda>a. a \<in> T) as) (descendent_count (reg (seg w) r)),
      depth := fold (\<lambda>a m. to_short (if m > depth (reg (seg w) a) + 1 then m else depth (reg (seg w) a) + 1))
        (filter (\<lambda>a. a \<in> T) as) (depth (reg (seg w) r))\<rparr>),
    if us = [] then p else Some (hd us))"
  using assms
proof (induction as arbitrary: w p us)
  case Nil
  then show ?case by (simp del: put.simps)
next
  case (Cons a as)
  note a = Cons.prems(2) [OF list.set_intros(1)]
  show ?case
  proof (cases "a \<in> T")
    case True
    let ?x = "(reg (seg w) r)\<lparr>
        descendent_count := to_short (descendent_count (reg (seg w) r) + to_short (descendent_count (reg (seg w) a) + 1)),
        depth := to_short (if depth (reg (seg w) r) > depth (reg (seg w) a) + 1 then depth (reg (seg w) r) else depth (reg (seg w) a) + 1)\<rparr>"
    let ?w = "put w (Reg r) ?x"
    have run: "propagate_loop w r (a # as) p = propagate_loop ?w r as p"
      using a True Cons.prems(1) by (simp add: buf_simps cong: if_cong del: put.simps split del: if_split)
    have same: "reg (seg ?w) b = reg (seg w) b" if "b \<noteq> r" for b using that by simp
    have folds: "fold (\<lambda>a d. to_short (d + to_short (descendent_count (reg (seg ?w) a) + 1))) bs k =
        fold (\<lambda>a d. to_short (d + to_short (descendent_count (reg (seg w) a) + 1))) bs k"
      "fold (\<lambda>a m. to_short (if m > depth (reg (seg ?w) a) + 1 then m else depth (reg (seg ?w) a) + 1)) bs k =
        fold (\<lambda>a m. to_short (if m > depth (reg (seg w) a) + 1 then m else depth (reg (seg w) a) + 1)) bs k"
      if "r \<notin> set bs" for bs k
      using fold_put [OF that, of "\<lambda>y d. to_short (d + to_short (descendent_count y + 1))"]
        fold_put [OF that, of "\<lambda>y m. to_short (if m > depth y + 1 then m else depth y + 1)"] by blast+
    have r: "reg (seg ?w) r = ?x" using Cons.prems(1) by simp
    have nr: "r \<notin> set (filter (\<lambda>a. a \<in> T) as)" using Cons.prems(2) by auto
    have prem: "b < length (regions (seg ?w)) \<and> b \<noteq> r \<and> r \<in> set (adjacent_regions (reg (seg ?w) b)) \<and>
        (level (reg (seg ?w) b) = TRAVERSED \<longleftrightarrow> b \<in> T)" if "b \<in> set as" for b
      using Cons.prems(2) [of b] that same [of b] by (simp del: put.simps)
    have us: "filter (\<lambda>a. a \<notin> T) as = us" using Cons.prems(3) True by simp
    show ?thesis
      unfolding run using Cons.IH [OF _ prem us Cons.prems(4,5), unfolded folds [OF nr] r put_reg_simps(5)]
        Cons.prems(1) True
      by (simp del: put.simps split del: if_split)
  next
    case False
    then have us: "us = [a]" "filter (\<lambda>a. a \<notin> T) as = []" using Cons.prems(3,4) by (auto simp: le_Suc_eq)
    have run: "propagate_loop w r (a # as) p = propagate_loop w r as (Some a)"
      using a False us Cons.prems(5) by (simp add: buf_simps)
    have T: "filter (\<lambda>a. a \<in> T) (a # as) = filter (\<lambda>a. a \<in> T) as" using False by simp
    show ?thesis
      unfolding run T using Cons.IH [OF Cons.prems(1) _ us(2), of "Some a"] Cons.prems(2) us(1)
      by (simp del: put.simps split del: if_split)
  qed
qed

subsection \<open>The invariant\<close>

abbreviation adj0 :: "Segmenter \<Rightarrow> nat \<Rightarrow> nat list" where
  "adj0 s i \<equiv> adjacent_regions (reg s i)"

abbreviation course_of :: "Segmenter \<Rightarrow> course \<Rightarrow> bool" where
  "course_of s g \<equiv> traversal (adj0 s) (\<lambda>x. x \<in> live s) (\<lambda>x. open_ended (reg s x)) g"

text \<open>Region \<open>y\<close> is what the course \<open>g\<close> makes of the region \<open>x\<close> of slot \<open>i\<close>.\<close>

definition region_of :: "FidtrackerX \<Rightarrow> course \<Rightarrow> nat \<Rightarrow> Region \<Rightarrow> Region \<Rightarrow> bool" where
  "region_of ft g i x y \<longleftrightarrow>
     adjacent_regions y = adjacent_regions x \<and> colour y = colour x \<and>
     left y = left x \<and> right y = right x \<and> rtop y = rtop x \<and> bottom y = bottom x \<and>
     flags y = (if i \<in> set (order g) \<and> fuzzy_root ft (below g i) then flags x OR LOST_SYMBOL_FLAG else flags x) \<and>
     level y = (if i \<in> set (order g) then TRAVERSED else NOT_TRAVERSED) \<and>
     children_visited_count y = int (visits g i) \<and>
     descendent_count y = (if i \<in> set (order g) then short_count (below g i) else 32767) \<and>
     (i \<in> set (order g) \<longrightarrow> depth y = short_height (below g i))"

definition fields :: "FidtrackerX \<Rightarrow> Segmenter \<Rightarrow> course \<Rightarrow> World \<Rightarrow> bool" where
  "fields ft s g w \<longleftrightarrow> region_count (seg w) = region_count s \<and> length (regions (seg w)) = length (regions s) \<and>
     max_adjacent_regions (seg w) = max_adjacent_regions s \<and>
     (\<forall>i < region_count s. region_of ft g i (reg s i) (reg (seg w) i))"

definition roots_of :: "FidtrackerX \<Rightarrow> course \<Rightarrow> nat list" where
  "roots_of ft g = filter (\<lambda>i. is_fiducial_root ft (below g i)) (order g)"

definition tracked :: "FidtrackerX \<Rightarrow> Segmenter \<Rightarrow> course \<Rightarrow> World \<Rightarrow> bool" where
  "tracked ft s g w \<longleftrightarrow> fields ft s g w \<and> ring_of w root_regions_head (roots_of ft g)"

lemma fieldsD:
  assumes "fields ft s g w"
  shows "region_count (seg w) = region_count s" "length (regions (seg w)) = length (regions s)"
    "i < region_count s \<Longrightarrow> region_of ft g i (reg s i) (reg (seg w) i)"
  using assms by (auto simp: fields_def)

lemma fields_links: "fields ft s g w \<Longrightarrow> links_only w w' \<Longrightarrow> region_count s \<le> length (regions s) \<Longrightarrow> fields ft s g w'"
  unfolding fields_def region_of_def
  using links_only_seg [of w w'] same_but_linksD [OF links_only_reg [of w w']] by auto

lemma fields_put:
  assumes "fields ft s g w" "r < region_count s" "region_count s \<le> length (regions s)"
    and "region_of ft g' r (reg s r) x" "\<And>i. i < region_count s \<Longrightarrow> i \<noteq> r \<Longrightarrow>
      region_of ft g i (reg s i) (reg (seg w) i) \<Longrightarrow> region_of ft g' i (reg s i) (reg (seg w) i)"
  shows "fields ft s g' (put w (Reg r) x)"
  using assms unfolding fields_def by (auto simp: nth_list_update simp del: put.simps)

text \<open>The flags of a region are those of the segmenter, apart from the mark of a lost symbol.\<close>

lemma region_of_flags:
  assumes "region_of ft g i x y" "m AND LOST_SYMBOL_FLAG = 0"
  shows "flag_set (flags y) m = flag_set (flags x) m"
proof -
  have "\<not> flag_set LOST_SYMBOL_FLAG m" using assms(2) by (simp add: flag_set_def and.commute)
  then show ?thesis using assms(1) by (auto simp: region_of_def flag_set_or)
qed

lemma mask_facts [simp]:
  "PROPAGATE_BLOCK_FLAGS AND LOST_SYMBOL_FLAG = 0" "ROOT_OR_FRAGMENTED_FLAGS AND LOST_SYMBOL_FLAG = 0"
  "SATURATED_REGION_FLAG AND LOST_SYMBOL_FLAG = 0" "FREE_REGION_FLAG AND LOST_SYMBOL_FLAG = 0"
  "ADJACENT_TO_ROOT_REGION_FLAG AND LOST_SYMBOL_FLAG = 0" "LEAF_BLOCK_FLAGS AND LOST_SYMBOL_FLAG = 0"
  by (simp_all add: PROPAGATE_BLOCK_FLAGS_def ROOT_OR_FRAGMENTED_FLAGS_def LEAF_BLOCK_FLAGS_def region_flag_defs)

lemma mask_flags:
  "flag_set f PROPAGATE_BLOCK_FLAGS \<longleftrightarrow> flag_set f SATURATED_REGION_FLAG \<or> flag_set f ADJACENT_TO_ROOT_REGION_FLAG \<or> flag_set f FREE_REGION_FLAG"
  "flag_set f ROOT_OR_FRAGMENTED_FLAGS \<longleftrightarrow> flag_set f ADJACENT_TO_ROOT_REGION_FLAG \<or> flag_set f FRAGMENTED_REGION_FLAG"
  "flag_set f LEAF_BLOCK_FLAGS \<longleftrightarrow> flag_set f SATURATED_REGION_FLAG \<or> flag_set f FRAGMENTED_REGION_FLAG \<or>
     flag_set f ADJACENT_TO_ROOT_REGION_FLAG \<or> flag_set f FREE_REGION_FLAG"
  by (auto simp: PROPAGATE_BLOCK_FLAGS_def ROOT_OR_FRAGMENTED_FLAGS_def LEAF_BLOCK_FLAGS_def flag_set_mask_or)

lemma open_ended_masks:
  "open_ended r \<longleftrightarrow> is_saturated r \<or> flag_set (flags r) ROOT_OR_FRAGMENTED_FLAGS"
  by (auto simp: open_ended_def is_saturated_def mask_flags)

text \<open>A region is entered when all its neighbours, or all but its parent, have reported.\<close>

definition ready :: "Segmenter \<Rightarrow> course \<Rightarrow> nat \<Rightarrow> bool" where
  "ready s g p \<longleftrightarrow> \<not> is_saturated (reg s p) \<and>
     (if open_ended (reg s p) then visits g p = length (adj0 s p) else Suc (visits g p) = length (adj0 s p))"

lemma visits_visit:
  assumes "course_of s g" "r \<notin> set (order g)"
  shows "visits (visit (adj0 s) r p g) i = visits g i"
proof -
  have "r \<notin> reported g" using traversalD(4,5) [OF assms(1)] assms(2) by blast
  then have "{q \<in> reported g. ((parent_of g)(r := p)) q = Some i} = {q \<in> reported g. parent_of g q = Some i}" by auto
  then show ?thesis by (simp add: visits_def)
qed

lemma visits_report:
  assumes "course_of s g" "r \<notin> reported g" "parent_of g r = Some p"
  shows "visits (report r g) i = (if i = p then Suc (visits g i) else visits g i)"
proof -
  have "finite (reported g)" using traversalD(4,5) [OF assms(1)] by (metis List.finite_set finite_subset subsetI)
  moreover have "{q \<in> insert r (reported g). parent_of g q = Some i} =
      (if i = p then insert r {q \<in> reported g. parent_of g q = Some i} else {q \<in> reported g. parent_of g q = Some i})"
    using assms(3) by auto
  ultimately show ?thesis using assms(2) by (simp add: visits_def)
qed

lemma region_of_visit:
  assumes "course_of s g" "r \<notin> set (order g)" "i \<noteq> r" "region_of ft g i x y"
  shows "region_of ft (visit (adj0 s) r p g) i x y"
  using assms visits_visit [OF assms(1,2)] by (simp add: region_of_def) (simp add: visit_def)

subsection \<open>One call\<close>

text \<open>The tree of \<open>r\<close> when it is visited next.\<close>

definition grown :: "Segmenter \<Rightarrow> course \<Rightarrow> nat \<Rightarrow> tree" where
  "grown s g r = Tree (map (below g) (filter (\<lambda>a. a \<in> set (order g)) (adj0 s r)))"

lemma below_visit [simp]: "below (visit (adj0 s) r p g) r = grown s g r"
  by (simp add: visit_def grown_def)


text \<open>The statements up to the end of the loop: the counters of \<open>r\<close> are those of its tree.\<close>

lemma count_children:
  assumes seg: "segmented s" and f: "fields ft s g w" and tr: "course_of s g"
    and r: "r \<in> live s" "r \<notin> set (order g)" and v: "length (adj0 s r) \<le> Suc (visits g r)"
    and x0: "x0 = (reg (seg w) r)\<lparr>descendent_count := 0, depth := 0, level := TRAVERSING\<rparr>"
  shows "\<exists>p. filter (\<lambda>a. a \<notin> set (order g)) (adj0 s r) = (case p of None \<Rightarrow> [] | Some q \<Rightarrow> [q]) \<and>
    propagate_loop (put w (Reg r) x0) r (adj0 s r) None =
      Some (put w (Reg r) (x0\<lparr>descendent_count := short_count (grown s g r), depth := short_height (grown s g r)\<rparr>), p)"
proof -
  let ?T = "set (order g)" and ?as = "adj0 s r"
  let ?w = "put w (Reg r) x0" and ?kids = "filter (\<lambda>a. a \<in> set (order g)) (adj0 s r)"
  have n: "region_count s \<le> length (regions s)" using segmented_fresh(1) [OF seg] by (meson leI less_irrefl)
  have rn: "r < region_count s" "r < length (regions (seg w))"
    using segmented_graph(1) [OF seg r(1)] n fieldsD(2) [OF f] by simp_all
  obtain us where us: "filter (\<lambda>a. a \<notin> ?T) ?as = us" "length us \<le> 1"
    using seg.unvisited_neighbours(1) [OF seg tr r v] by blast
  have nb: "a < region_count s" "a \<noteq> r" "a \<in> live s" "r \<in> set (adj0 s a)" if "a \<in> set ?as" for a
    using segmented_graph(2) [OF seg r(1) that] segmented_graph(1) [OF seg] seg.adj_in [OF seg r(1) that] by auto
  have reg_a: "reg (seg ?w) a = reg (seg w) a" if "a \<in> set ?as" for a using nb(2) [OF that] by simp
  have level_a: "level (reg (seg w) a) = TRAVERSED \<longleftrightarrow> a \<in> ?T" "adjacent_regions (reg (seg w) a) = adj0 s a" if "a \<in> set ?as" for a
    using fieldsD(3) [OF f nb(1) [OF that]] by (auto simp: region_of_def traversal_levels)
  have pre: "a < length (regions (seg ?w)) \<and> a \<noteq> r \<and> r \<in> set (adjacent_regions (reg (seg ?w) a)) \<and>
      (level (reg (seg ?w) a) = TRAVERSED \<longleftrightarrow> a \<in> ?T)" if "a \<in> set ?as" for a
    using nb [OF that] level_a [OF that] reg_a [OF that] n fieldsD(2) [OF f] by (simp del: put.simps)
  have kid: "descendent_count (reg (seg w) a) = short_count (below g a)" "depth (reg (seg w) a) = short_height (below g a)"
    if "a \<in> set ?kids" for a
    using fieldsD(3) [OF f nb(1), of a] that by (auto simp: region_of_def)
  have bel: "grown s g r = Tree (map (below g) ?kids)" by (simp add: grown_def)
  have "fold (\<lambda>a d. to_short (d + to_short (descendent_count (reg (seg ?w) a) + 1))) ?kids 0 =
      fold (\<lambda>a d. to_short (d + to_short (short_count (below g a) + 1))) ?kids 0"
    by (rule fold_cong) (use kid reg_a in \<open>auto simp del: put.simps\<close>)
  also have "\<dots> = fold (\<lambda>t d. to_short (d + to_short (short_count t + 1))) (map (below g) ?kids) (to_short 0)"
    by (simp add: fold_map comp_def)
  also have "\<dots> = short_count (Tree (map (below g) ?kids))"
    unfolding short_count_Tree by (simp add: short_count_def comp_def)
  finally have dc: "fold (\<lambda>a d. to_short (d + to_short (descendent_count (reg (seg ?w) a) + 1))) ?kids 0 =
      short_count (Tree (map (below g) ?kids))" .
  have "fold (\<lambda>a m. to_short (if m > depth (reg (seg ?w) a) + 1 then m else depth (reg (seg ?w) a) + 1)) ?kids 0 =
      fold (\<lambda>a m. to_short (if m > short_height (below g a) + 1 then m else short_height (below g a) + 1)) ?kids 0"
    by (rule fold_cong) (use kid reg_a in \<open>auto simp del: put.simps\<close>)
  then have dp: "fold (\<lambda>a m. to_short (if m > depth (reg (seg ?w) a) + 1 then m else depth (reg (seg ?w) a) + 1)) ?kids 0 =
      short_height (Tree (map (below g) ?kids))"
    by (simp add: fold_map comp_def)
  have x0f: "descendent_count x0 = 0" "depth x0 = 0" "reg (seg ?w) r = x0" using rn(2) by (simp_all add: x0)
  have run: "propagate_loop ?w r ?as None = Some (put w (Reg r) (x0\<lparr>descendent_count := short_count (Tree (map (below g) ?kids)),
        depth := short_height (Tree (map (below g) ?kids))\<rparr>), if us = [] then None else Some (hd us))"
    using propagate_loop_ok [OF _ pre us(1,2), of None] rn(2)
    unfolding x0f dc dp put_reg_simps(5) by simp
  show ?thesis
  proof (cases us)
    case Nil
    then show ?thesis using run us(1) bel by (intro exI [of _ None]) simp
  next
    case (Cons q vs)
    then show ?thesis using run us bel by (intro exI [of _ "Some q"]) simp
  qed
qed

text \<open>What a visit of \<open>r\<close> makes of the course.\<close>

definition visited :: "FidtrackerX \<Rightarrow> Segmenter \<Rightarrow> nat \<Rightarrow> nat option \<Rightarrow> course \<Rightarrow> course" where
  "visited ft s r p g = (let g1 = visit (adj0 s) r p g in
     if p \<noteq> None \<and> \<not> exact_root ft (grown s g r) then report r g1 else g1)"

lemma visited_simps [simp]:
  "order (visited ft s r p g) = order g @ [r]" "parent_of (visited ft s r p g) = (parent_of g)(r := p)"
  "below (visited ft s r p g) = below (visit (adj0 s) r p g)"
  by (simp_all add: visited_def Let_def)

definition enter :: "Segmenter \<Rightarrow> course \<Rightarrow> nat \<Rightarrow> bool" where
  "enter s g r \<longleftrightarrow> r \<in> live s \<and> r \<notin> set (order g) \<and> length (adj0 s r) \<le> Suc (visits g r) \<and>
     (visits g r = length (adj0 s r) \<or> \<not> open_ended (reg s r))"

lemma ring_put:
  assumes "ring_of w (Head k) xs" "r < length (regions (seg w))"
    "r \<notin> set xs \<or> nxt x = nxt (reg (seg w) r) \<and> previous x = previous (reg (seg w) r)"
  shows "ring_of (put w (Reg r) x) (Head k) xs"
proof (rule ring_frame [OF assms(1)])
  fix q assume q: "q \<in> set (Head k # map Reg xs)"
  have v: "valid w (Reg r)" "valid w q" using assms(2) ring_ofD(6) [OF assms(1) q] by simp_all
  show "nxt (at (put w (Reg r) x) q) = nxt (at w q) \<and> previous (at (put w (Reg r) x) q) = previous (at w q)"
    using at_put [OF v, of x] assms(3) q by (cases "q = Reg r") (auto simp del: put.simps)
qed (simp del: put.simps valid.simps)

lemma roots_of_visit:
  assumes "r \<notin> set (order g)"
  shows "roots_of ft (visit (adj0 s) r p g) =
    roots_of ft g @ (if is_fiducial_root ft (grown s g r) then [r] else [])"
proof -
  have "filter (\<lambda>i. is_fiducial_root ft (below (visit (adj0 s) r p g) i)) (order g) = roots_of ft g"
    unfolding roots_of_def by (rule filter_cong) (use assms in \<open>auto simp: visit_def\<close>)
  then show ?thesis by (simp add: roots_of_def)
qed

lemma roots_of_order: "set (roots_of ft g) \<subseteq> set (order g)"
  by (auto simp: roots_of_def)

lemma tracked_link:
  assumes "fields ft s g w" "ring_of w root_regions_head xs" "r \<notin> set xs" "r < length (regions (seg w))"
    "roots_of ft g = xs @ [r]" "region_count s \<le> length (regions s)"
  shows "\<exists>w'. link_region w root_regions_head (Reg r) = Some w' \<and> tracked ft s g w'"
proof -
  obtain w' where "link_region w root_regions_head (Reg r) = Some w'" "ring_of w' root_regions_head (xs @ [r])" "links_only w w'"
    using link_region_ok [OF assms(2) _ assms(3)] assms(4) by auto
  then show ?thesis using fields_links [OF assms(1)] assms(5,6) by (auto simp: tracked_def)
qed

text \<open>The statements after the loop that put \<open>r\<close> on the list of roots.\<close>

lemma collect_root:
  assumes n: "region_count s \<le> length (regions s)" and r: "r < region_count s" "r \<notin> set (order g)"
    and f: "fields ft s g w" and ring: "ring_of w root_regions_head (roots_of ft g)" and tr: "course_of s g"
    and x: "x = (reg (seg w) r)\<lparr>descendent_count := short_count (grown s g r), depth := short_height (grown s g r), level := TRAVERSED\<rparr>"
  shows "exact_root ft (grown s g r) \<Longrightarrow>
      \<exists>w'. link_region (put w (Reg r) x) root_regions_head (Reg r) = Some w' \<and> tracked ft s (visit (adj0 s) r p g) w'"
    and "\<not> exact_root ft (grown s g r) \<Longrightarrow>
      \<exists>w'. (if partial_root ft (grown s g r) then link_region (put w (Reg r) x) root_regions_head (Reg r)
            else if fuzzy_root ft (grown s g r) then do {
               w \<leftarrow> set_region (put w (Reg r) x) r (\<lambda>x. x\<lparr>flags := flags x OR LOST_SYMBOL_FLAG\<rparr>);
               link_region w root_regions_head (Reg r)
             } else Some (put w (Reg r) x)) = Some w' \<and> tracked ft s (visit (adj0 s) r p g) w'"
proof -
  let ?g = "visit (adj0 s) r p g" and ?w = "put w (Reg r) x" and ?xs = "roots_of ft g"
  let ?y = "x\<lparr>flags := flags x OR LOST_SYMBOL_FLAG\<rparr>"
  have rl: "r < length (regions (seg w))" using r(1) n fieldsD(2) [OF f] by simp
  have xs: "r \<notin> set ?xs" using r(2) roots_of_order by blast
  have rx: "region_of ft g r (reg s r) (reg (seg w) r)" by (rule fieldsD(3) [OF f r(1)])
  have R: "roots_of ft ?g = ?xs @ (if is_fiducial_root ft (grown s g r) then [r] else [])"
    by (rule roots_of_visit [OF r(2)])
  have v: "visits ?g i = visits g i" for i by (rule visits_visit [OF tr r(2)])
  have f1: "fields ft s ?g ?w" if "\<not> fuzzy_root ft (grown s g r)"
    by (rule fields_put [OF f r(1) n])
      (use rx r(2) v region_of_visit [OF tr r(2)] that in \<open>auto simp: region_of_def x \<close>)
  have f2: "fields ft s ?g (put w (Reg r) ?y)" if "fuzzy_root ft (grown s g r)"
    by (rule fields_put [OF f r(1) n])
      (use rx r(2) v region_of_visit [OF tr r(2)] that in \<open>auto simp: region_of_def x \<close>)
  have ring1: "ring_of (put w (Reg r) z) root_regions_head ?xs" for z
    unfolding root_regions_head_def by (rule ring_put [OF ring [unfolded root_regions_head_def] rl]) (use xs in simp)
  have len: "r < length (regions (seg (put w (Reg r) z)))" for z using rl by (simp del: put.simps)
  show "\<exists>w'. link_region ?w root_regions_head (Reg r) = Some w' \<and> tracked ft s ?g w'" if "exact_root ft (grown s g r)"
    by (rule tracked_link [OF f1 ring1 xs len _ n]) (use that R in \<open>auto simp: fuzzy_root_def is_fiducial_root_def\<close>)
  assume ne: "\<not> exact_root ft (grown s g r)"
  show "\<exists>w'. (if partial_root ft (grown s g r) then link_region ?w root_regions_head (Reg r)
            else if fuzzy_root ft (grown s g r) then do {
               w \<leftarrow> set_region ?w r (\<lambda>x. x\<lparr>flags := flags x OR LOST_SYMBOL_FLAG\<rparr>);
               link_region w root_regions_head (Reg r)
             } else Some ?w) = Some w' \<and> tracked ft s ?g w'"
  proof (cases "partial_root ft (grown s g r)")
    case True
    have "\<exists>w'. link_region ?w root_regions_head (Reg r) = Some w' \<and> tracked ft s ?g w'"
      by (rule tracked_link [OF f1 ring1 xs len _ n]) (use True R in \<open>auto simp: fuzzy_root_def is_fiducial_root_def\<close>)
    then show ?thesis using True by simp
  next
    case np: False
    show ?thesis
    proof (cases "fuzzy_root ft (grown s g r)")
      case True
      have "set_region ?w r (\<lambda>x. x\<lparr>flags := flags x OR LOST_SYMBOL_FLAG\<rparr>) = Some (put w (Reg r) ?y)"
        using rl by (simp add: buf_simps del: put.simps)
      moreover have "\<exists>w'. link_region (put w (Reg r) ?y) root_regions_head (Reg r) = Some w' \<and> tracked ft s ?g w'"
        by (rule tracked_link [OF f2 ring1 xs len _ n]) (use True R in \<open>auto simp: is_fiducial_root_def\<close>)
      ultimately show ?thesis using True np by simp
    next
      case False
      have "tracked ft s ?g ?w"
        using f1 [OF False] ring1 [of x] R ne np False by (simp add: tracked_def is_fiducial_root_def del: put.simps)
      then show ?thesis using np False by simp
    qed
  qed
qed

text \<open>\<open>++parent->children_visited_count\<close>.\<close>

lemma region_of_report: "region_of ft g i x y \<Longrightarrow> region_of ft (report r g) i x (y\<lparr>children_visited_count := int (visits (report r g) i)\<rparr>)"
  by (simp add: region_of_def)

lemma report_parent:
  assumes seg: "segmented s" and t: "tracked ft s g w" and tr: "course_of s g"
    and p: "parent_of g r = Some p" "r \<notin> reported g" "p \<in> live s" "p \<notin> set (order g)"
    and m: "max_adjacent_regions s \<le> 32767"
  shows "\<exists>w'. set_region w p (\<lambda>x. x\<lparr>children_visited_count := to_short (children_visited_count x + 1)\<rparr>) = Some w' \<and>
    tracked ft s (report r g) w'"
proof -
  have f: "fields ft s g w" using t by (simp add: tracked_def)
  have n: "region_count s \<le> length (regions s)" using segmented_fresh(1) [OF seg] by (meson leI less_irrefl)
  have pn: "p < region_count s" "p < length (regions (seg w))"
    using segmented_graph(1) [OF seg p(3)] n fieldsD(2) [OF f] by simp_all
  note v = visits_report [OF tr p(2,1)]
  have tr': "course_of s (report r g)" using seg.traversal_report [OF tr] p(1) by simp
  have "visits (report r g) p \<le> length (adj0 s p)"
    using seg.visits_le(2) [OF seg tr' p(3)] p(4) by simp
  also have "\<dots> \<le> max_adjacent_regions s" by (rule segmented_graph(4) [OF seg p(3)])
  finally have b: "int (visits g p) + 1 \<le> 32767" using v [of p] m by simp
  have px: "region_of ft g p (reg s p) (reg (seg w) p)" by (rule fieldsD(3) [OF f pn(1)])
  then have c: "to_short (children_visited_count (reg (seg w) p) + 1) = int (visits (report r g) p)"
    using b v [of p] by (simp add: region_of_def)
  let ?y = "(reg (seg w) p)\<lparr>children_visited_count := to_short (children_visited_count (reg (seg w) p) + 1)\<rparr>"
  have "fields ft s (report r g) (put w (Reg p) ?y)"
  proof (rule fields_put [OF f pn(1) n])
    show "region_of ft (report r g) p (reg s p) ?y" unfolding c by (rule region_of_report [OF px])
    show "region_of ft (report r g) i (reg s i) (reg (seg w) i)"
      if "i \<noteq> p" "region_of ft g i (reg s i) (reg (seg w) i)" for i
      using region_of_report [OF that(2), of r] that v [of i] by (simp add: region_of_def)
  qed
  moreover have "ring_of (put w (Reg p) ?y) root_regions_head (roots_of ft g)"
    using t ring_put [of w 0 "roots_of ft g" p ?y] pn(2) by (simp add: tracked_def root_regions_head_def del: put.simps)
  moreover have "roots_of ft (report r g) = roots_of ft g" by (simp add: roots_of_def)
  ultimately show ?thesis using pn(2) by (simp add: buf_simps tracked_def del: put.simps)
qed

lemma parent_ready_iff:
  assumes "region_of ft g p x y"
  shows "parent_ready y \<longleftrightarrow> \<not> is_saturated x \<and> (if open_ended x then visits g p = length (adjacent_regions x)
    else Suc (visits g p) = length (adjacent_regions x))"
proof -
  have "flag_set (flags y) SATURATED_REGION_FLAG = is_saturated x" "flag_set (flags y) ROOT_OR_FRAGMENTED_FLAGS = flag_set (flags x) ROOT_OR_FRAGMENTED_FLAGS"
    using region_of_flags [OF assms] by (simp_all add: is_saturated_def)
  then show ?thesis using assms
    by (auto simp: parent_ready_def region_of_def open_ended_masks adjacent_region_count_def)
qed

text \<open>The result of a call: the course with the visit, and the parent if the search goes on there.\<close>

definition next_call :: "FidtrackerX \<Rightarrow> Segmenter \<Rightarrow> nat \<Rightarrow> nat option \<Rightarrow> course \<Rightarrow> nat option" where
  "next_call ft s r p g = (case p of None \<Rightarrow> None | Some q \<Rightarrow>
     if goes_on ft (grown s g r) \<and> ready s (visited ft s r p g) q then Some q else None)"

lemma visited_course:
  assumes seg: "segmented s" and tr: "course_of s g" and e: "enter s g r"
    and p: "filter (\<lambda>a. a \<notin> set (order g)) (adj0 s r) = (case p of None \<Rightarrow> [] | Some q \<Rightarrow> [q])"
  shows "course_of s (visit (adj0 s) r p g)" "course_of s (visited ft s r p g)" "p \<noteq> None \<Longrightarrow> \<not> open_ended (reg s r)"
proof -
  have r: "r \<in> live s" "r \<notin> set (order g)" "length (adj0 s r) \<le> Suc (visits g r)"
      "visits g r = length (adj0 s r) \<or> \<not> open_ended (reg s r)"
    using e by (auto simp: enter_def)
  show cl: "\<not> open_ended (reg s r)" if "p \<noteq> None"
    using seg.unvisited_neighbours(2) [OF seg tr r(1-3)] r(4) p that by auto
  show "course_of s (visit (adj0 s) r p g)" by (rule seg.traversal_visit [OF seg tr r(1,2) p cl])
  then show "course_of s (visited ft s r p g)"
    using seg.traversal_report [of s "visit (adj0 s) r p g" r] by (auto simp: visited_def Let_def)
qed

lemma propagate_step_ok:
  assumes seg: "segmented s" and t: "tracked ft s g w" and tr: "course_of s g" and e: "enter s g r"
    and m: "max_adjacent_regions s \<le> 32767"
  shows "\<exists>w' p. filter (\<lambda>a. a \<notin> set (order g)) (adj0 s r) = (case p of None \<Rightarrow> [] | Some q \<Rightarrow> [q]) \<and>
    propagate_step ft w r = Some (w', next_call ft s r p g) \<and> tracked ft s (visited ft s r p g) w'"
proof -
  have f: "fields ft s g w" and ring: "ring_of w root_regions_head (roots_of ft g)" using t by (auto simp: tracked_def)
  have n: "region_count s \<le> length (regions s)" using segmented_fresh(1) [OF seg] by (meson leI less_irrefl)
  have r: "r \<in> live s" "r \<notin> set (order g)" "length (adj0 s r) \<le> Suc (visits g r)"
    using e by (auto simp: enter_def)
  have vl: "visits g r \<le> length (adj0 s r)" by (rule seg.visits_le(2) [OF seg tr r(1,2)])
  have rn: "r < region_count s" "r < length (regions (seg w))"
    using segmented_graph(1) [OF seg r(1)] n fieldsD(2) [OF f] by simp_all
  have rx: "region_of ft g r (reg s r) (reg (seg w) r)" by (rule fieldsD(3) [OF f rn(1)])
  let ?x = "reg (seg w) r" and ?T = "grown s g r"
  let ?zero = "?x\<lparr>descendent_count := 0, depth := 0, level := TRAVERSING\<rparr>"
  let ?done = "?x\<lparr>descendent_count := short_count ?T, depth := short_height ?T, level := TRAVERSED\<rparr>"
  obtain p where p: "filter (\<lambda>a. a \<notin> set (order g)) (adj0 s r) = (case p of None \<Rightarrow> [] | Some q \<Rightarrow> [q])"
      "propagate_loop (put w (Reg r) ?zero) r (adj0 s r) None =
        Some (put w (Reg r) (?zero\<lparr>descendent_count := short_count ?T, depth := short_height ?T\<rparr>), p)"
    using count_children [OF seg f tr r refl] by blast
  let ?g = "visit (adj0 s) r p g"
  note vc = visited_course [OF seg tr e p(1)]
  have pre: "region_at w r = Some ?x" "level ?x = NOT_TRAVERSED" "adjacent_regions ?x = adj0 s r"
      "children_visited_count ?x = int (adjacent_region_count ?x) - 1 \<or> children_visited_count ?x = int (adjacent_region_count ?x)"
    using rn(2) rx r(2,3) vl by (auto simp: buf_simps region_of_def adjacent_region_count_def)
  have set: "set_region w r (\<lambda>x. x\<lparr>descendent_count := 0, depth := 0, level := TRAVERSING\<rparr>) = Some (put w (Reg r) ?zero)"
      "set_region (put w (Reg r) (?zero\<lparr>descendent_count := short_count ?T, depth := short_height ?T\<rparr>)) r (\<lambda>x. x\<lparr>level := TRAVERSED\<rparr>) =
       Some (put w (Reg r) ?done)" "region_at (put w (Reg r) ?done) r = Some ?done"
    using rn(2) by (simp_all add: buf_simps del: put.simps)
  have x1: "descendent_count ?done = short_count ?T" "depth ?done = short_height ?T" by simp_all
  note cr = collect_root [OF n rn(1) r(2) f ring tr refl, of p]
  note start = propagate_step_def [of ft w r, unfolded pre(1) bind.simps c_assert_eq [OF pre(2)] c_assert_eq [OF pre(4)]
      set(1) pre(3) p(2) prod.case set(2,3) Let_def x1]
  have po: "p = Some q \<Longrightarrow> q \<in> live s \<and> q \<notin> set (order g) \<and> q \<noteq> r \<and> q \<in> set (adj0 s r) \<and> r \<in> set (adj0 s q)" for q
  proof -
    assume "p = Some q"
    then have "q \<in> set (filter (\<lambda>a. a \<notin> set (order g)) (adj0 s r))" using p(1) by simp
    then show ?thesis using segmented_graph(2) [OF seg r(1)] seg.adj_in [OF seg r(1)] by auto
  qed
  show ?thesis
  proof (cases "exact_root ft ?T")
    case True
    obtain w' where w': "link_region (put w (Reg r) ?done) root_regions_head (Reg r) = Some w'" "tracked ft s ?g w'"
      using cr(1) [OF True] by blast
    have "propagate_step ft w r = Some (w', None)"
      unfolding start using True w'(1) by (simp add: exact_root_def depth_fits_def)
    moreover have "next_call ft s r p g = None" using True by (simp add: next_call_def goes_on_def split: option.splits)
    moreover have "visited ft s r p g = ?g" using True by (simp add: visited_def)
    ultimately show ?thesis using p(1) w'(2) by (intro exI [of _ w'] exI [of _ p]) simp
  next
    case ne: False
    obtain w1 where w1: "(if partial_root ft ?T then link_region (put w (Reg r) ?done) root_regions_head (Reg r)
            else if fuzzy_root ft ?T then do {
               w \<leftarrow> set_region (put w (Reg r) ?done) r (\<lambda>x. x\<lparr>flags := flags x OR LOST_SYMBOL_FLAG\<rparr>);
               link_region w root_regions_head (Reg r)
             } else Some (put w (Reg r) ?done)) = Some w1" "tracked ft s ?g w1"
      using cr(2) [OF ne] by blast
    have f1: "fields ft s ?g w1" using w1(2) by (simp add: tracked_def)
    have x2: "region_at w1 r = Some (reg (seg w1) r)" "region_of ft ?g r (reg s r) (reg (seg w1) r)"
      using fieldsD [OF f1] rn n by (simp_all add: buf_simps)
    have c2: "descendent_count (reg (seg w1) r) = short_count ?T" "depth (reg (seg w1) r) = short_height ?T"
        "adjacent_regions (reg (seg w1) r) = adj0 s r"
      using x2(2) by (simp_all add: region_of_def)
    have cond: "\<not> (short_count ?T = max_target_root_descendent_count ft \<and> min_depth ft \<le> short_height ?T \<and> short_height ?T \<le> max_depth ft)"
      using ne by (auto simp: exact_root_def depth_fits_def)
    have collected: "(if min_target_root_descendent_count ft \<le> short_count ?T \<and>
               short_count ?T < max_target_root_descendent_count ft \<and> min_depth ft \<le> short_height ?T \<and> short_height ?T \<le> max_depth ft
             then link_region (put w (Reg r) ?done) root_regions_head (Reg r)
             else if min_target_root_descendent_range ft \<le> short_count ?T \<and>
               short_count ?T < max_target_root_descendent_range ft \<and> min_depth ft \<le> short_height ?T \<and> short_height ?T \<le> max_depth ft
             then do {
               w \<leftarrow> set_region (put w (Reg r) ?done) r (\<lambda>x. x\<lparr>flags := flags x OR LOST_SYMBOL_FLAG\<rparr>);
               link_region w root_regions_head (Reg r)
             } else Some (put w (Reg r) ?done)) = Some w1"
      using w1(1) ne by (auto simp: partial_root_def fuzzy_root_def depth_fits_def split: if_splits)
    show ?thesis
    proof (cases p)
      case None
      have "propagate_step ft w r = Some (w1, None)"
        unfolding start if_not_P [OF cond] collected bind.simps x2(1) using None by simp
      then show ?thesis using p(1) w1(2) None by (intro exI [of _ w1] exI [of _ p]) (simp add: next_call_def visited_def)
    next
      case (Some q)
      note q = po [OF Some]
      have nb: "\<not> flag_set (flags (reg (seg w1) r)) PROPAGATE_BLOCK_FLAGS"
        using region_of_flags [OF x2(2)] vc(3) Some r(1)
        by (auto simp: mask_flags open_ended_def live_def is_free_def)
      have "r \<notin> reported g" using traversalD(4,5) [OF tr] r(2) by blast
      then have nr: "r \<notin> reported ?g" by simp
      have "parent_of ?g r = Some q" using Some by simp
      then obtain w2 where w2: "set_region w1 q (\<lambda>x. x\<lparr>children_visited_count := to_short (children_visited_count x + 1)\<rparr>) = Some w2"
          "tracked ft s (report r ?g) w2"
        using report_parent [OF seg w1(2) vc(1) _ nr _ _ m] q by auto
      have vis: "visited ft s r p g = report r ?g" using ne Some by (simp add: visited_def)
      have f2: "fields ft s (report r ?g) w2" using w2(2) by (simp add: tracked_def)
      have qn: "q < region_count s" "q < length (regions (seg w2))" "r < length (regions (seg w2))"
        using segmented_graph(1) [OF seg] q n rn(1) fieldsD(2) [OF f2] by fastforce+
      have qx: "region_of ft (report r ?g) q (reg s q) (reg (seg w2) q)" "region_of ft (report r ?g) r (reg s r) (reg (seg w2) r)"
        using fieldsD(3) [OF f2] qn(1) rn(1) by blast+
      have at2: "region_at w2 q = Some (reg (seg w2) q)" "has_neighbour w2 r q = Some True" "has_neighbour w2 q r = Some True"
        using qn qx q by (simp_all add: buf_simps region_of_def)
      have rd: "parent_ready (reg (seg w2) q) \<longleftrightarrow> ready s (visited ft s r p g) q"
        using parent_ready_iff [OF qx(1)] by (simp add: ready_def vis)
      have "propagate_step ft w r = Some (w2, next_call ft s r p g)"
        unfolding start if_not_P [OF cond] collected bind.simps x2(1) using c2 Some nb w2(1) at2 rd ne
        by (simp add: next_call_def goes_on_def del: put.simps)
      then show ?thesis using p(1) w2(2) vis by (intro exI [of _ w2] exI [of _ p]) simp
    qed
  qed
qed

subsection \<open>All calls\<close>

text \<open>
  Every region that is ready was entered, unless one of its children is at the limits of the
  tracker; the call that is about to be made is excepted. Only the root of a complete fiducial
  does not report to its parent.
\<close>

definition complete :: "FidtrackerX \<Rightarrow> Segmenter \<Rightarrow> course \<Rightarrow> nat option \<Rightarrow> bool" where
  "complete ft s g c \<longleftrightarrow> (\<forall>p \<in> live s. p \<notin> set (order g) \<longrightarrow> c \<noteq> Some p \<longrightarrow> 0 < visits g p \<longrightarrow> ready s g p \<longrightarrow>
     (\<exists>q. parent_of g q = Some p \<and> \<not> goes_on ft (below g q))) \<and>
     (\<forall>t. parent_of g t \<noteq> None \<longrightarrow> \<not> exact_root ft (below g t) \<longrightarrow> t \<in> reported g)"

definition state_ok :: "FidtrackerX \<Rightarrow> Segmenter \<Rightarrow> course \<Rightarrow> World \<Rightarrow> nat option \<Rightarrow> bool" where
  "state_ok ft s g w c \<longleftrightarrow> tracked ft s g w \<and> course_of s g \<and> complete ft s g c"

definition free_leaf :: "Segmenter \<Rightarrow> nat \<Rightarrow> bool" where
  "free_leaf s x \<longleftrightarrow> length (adj0 s x) = 1 \<and> \<not> open_ended (reg s x)"

lemma visits_visited:
  assumes tr: "course_of s g" and e: "enter s g r" and vc: "course_of s (visit (adj0 s) r p g)"
  shows "visits (visited ft s r p g) i =
    (if p = Some i \<and> \<not> exact_root ft (grown s g r) then Suc (visits g i) else visits g i)"
proof -
  have r: "r \<notin> set (order g)" using e by (simp add: enter_def)
  then have "r \<notin> reported g" using traversalD(4,5) [OF tr] by blast
  then have nr: "r \<notin> reported (visit (adj0 s) r p g)" by simp
  show ?thesis
    using visits_visit [OF tr r] visits_report [OF vc nr] by (cases p) (auto simp: visited_def Let_def)
qed

lemma complete_visited:
  assumes tr: "course_of s g" and e: "enter s g r" and vc: "course_of s (visit (adj0 s) r p g)"
    and c: "complete ft s g (Some r)"
  shows "complete ft s (visited ft s r p g) (next_call ft s r p g)"
  unfolding complete_def
proof (intro conjI allI ballI impI)
  let ?g = "visited ft s r p g"
  note v = visits_visited [OF tr e vc]
  fix t assume "parent_of ?g t \<noteq> None" "\<not> exact_root ft (below ?g t)"
  then show "t \<in> reported ?g"
    using c by (cases "t = r") (auto simp: complete_def visited_def Let_def, auto simp: visit_def)
next
  let ?g = "visited ft s r p g"
  note v = visits_visited [OF tr e vc]
  fix i assume i: "i \<in> live s" "i \<notin> set (order ?g)" "next_call ft s r p g \<noteq> Some i" "0 < visits ?g i" "ready s ?g i"
  show "\<exists>q. parent_of ?g q = Some i \<and> \<not> goes_on ft (below ?g q)"
  proof (cases "p = Some i \<and> \<not> exact_root ft (grown s g r)")
    case True
    then have "\<not> goes_on ft (grown s g r)" using i(3,5) by (auto simp: next_call_def split: if_splits)
    then show ?thesis using True by (intro exI [of _ r]) simp
  next
    case False
    then have vi: "visits ?g i = visits g i" using v by auto
    then have "ready s g i" "0 < visits g i" using i(4,5) unfolding ready_def vi by simp_all
    then obtain q where q: "parent_of g q = Some i" "\<not> goes_on ft (below g q)"
      using c i(1,2) by (auto simp: complete_def)
    have "q \<noteq> r" using traversalD(4) [OF tr q(1)] e by (auto simp: enter_def)
    then show ?thesis using q by (intro exI [of _ q]) (simp add: visit_def)
  qed
qed

lemma next_call_enter:
  assumes seg: "segmented s" and tr: "course_of s g" and e: "enter s g r"
    and p: "filter (\<lambda>a. a \<notin> set (order g)) (adj0 s r) = (case p of None \<Rightarrow> [] | Some q \<Rightarrow> [q])"
    and q: "next_call ft s r p g = Some q"
  shows "enter s (visited ft s r p g) q" "\<not> free_leaf s q"
proof -
  have pq: "p = Some q" "goes_on ft (grown s g r)" "ready s (visited ft s r p g) q"
    using q by (auto simp: next_call_def split: option.splits if_splits)
  note vc = visited_course [OF seg tr e p]
  have "q \<in> set (filter (\<lambda>a. a \<notin> set (order g)) (adj0 s r))" using p pq(1) by simp
  moreover have "r \<in> live s" using e by (simp add: enter_def)
  ultimately have l: "q \<in> live s" "q \<notin> set (order g)" "q \<noteq> r" using segmented_graph(2) [OF seg] by auto
  then show "enter s (visited ft s r p g) q" using pq(3) by (auto simp: enter_def ready_def split: if_splits)
  have "0 < visits (visited ft s r p g) q"
    using visits_visited [OF tr e vc(1), of ft q] pq(1,2) by (simp add: goes_on_def)
  then show "\<not> free_leaf s q" using pq(3) by (auto simp: ready_def free_leaf_def split: if_splits)
qed

lemma propagate_ok:
  assumes seg: "segmented s" and m: "max_adjacent_regions s \<le> 32767"
    and "state_ok ft s g w (Some r)" "enter s g r"
  shows "\<exists>w' g'. propagate_descendent_count_and_max_depth_upwards ft w r = Some w' \<and> state_ok ft s g' w' None \<and>
    insert r (set (order g)) \<subseteq> set (order g') \<and> (\<forall>x \<in> set (order g') - set (order g) - {r}. \<not> free_leaf s x)"
  using assms(3,4)
proof (induction "card (live s - set (order g))" arbitrary: g w r rule: less_induct)
  case less
  have t: "tracked ft s g w" "course_of s g" "complete ft s g (Some r)" using less.prems(1) by (auto simp: state_ok_def)
  note e = less.prems(2)
  obtain w1 p where p: "filter (\<lambda>a. a \<notin> set (order g)) (adj0 s r) = (case p of None \<Rightarrow> [] | Some q \<Rightarrow> [q])"
      "propagate_step ft w r = Some (w1, next_call ft s r p g)" "tracked ft s (visited ft s r p g) w1"
    using propagate_step_ok [OF seg t(1,2) e m] by blast
  let ?g = "visited ft s r p g"
  note vc = visited_course [OF seg t(2) e p(1)]
  have st: "state_ok ft s ?g w1 (next_call ft s r p g)"
    using p(3) vc(2) complete_visited [OF t(2) e vc(1) t(3)] by (simp add: state_ok_def)
  show ?case
  proof (cases "next_call ft s r p g")
    case None
    then show ?thesis
      using p(2) st by (intro exI [of _ w1] exI [of _ ?g])
        (auto simp: propagate_descendent_count_and_max_depth_upwards.simps [of ft w r])
  next
    case (Some q)
    note n = next_call_enter [OF seg t(2) e p(1) Some]
    have "finite (live s)" by (simp add: live_def)
    then have "card (live s - set (order ?g)) < card (live s - set (order g))"
      using e by (intro psubset_card_mono) (auto simp: enter_def)
    from less.hyps [OF this st [unfolded Some] n(1)]
    obtain w' g' where w': "propagate_descendent_count_and_max_depth_upwards ft w1 q = Some w'" "state_ok ft s g' w' None"
        "insert q (set (order ?g)) \<subseteq> set (order g')" "\<forall>x \<in> set (order g') - set (order ?g) - {q}. \<not> free_leaf s x"
      by blast
    have "propagate_descendent_count_and_max_depth_upwards ft w r = Some w'"
      using p(2) w'(1) Some by (simp add: propagate_descendent_count_and_max_depth_upwards.simps [of ft w r])
    moreover have "\<not> free_leaf s x" if "x \<in> set (order g') - set (order g) - {r}" for x
      using that w'(4) n(2) by (cases "x = q") auto
    ultimately show ?thesis using w'(2,3) by (intro exI [of _ w'] exI [of _ g']) auto
  qed
qed

text \<open>The loop of \<open>find_roots\<close>: the leafs below \<open>i\<close> have been visited, the others not.\<close>

definition leafs_upto :: "Segmenter \<Rightarrow> course \<Rightarrow> nat \<Rightarrow> bool" where
  "leafs_upto s g i \<longleftrightarrow> (\<forall>x \<in> live s. free_leaf s x \<longrightarrow> (x \<in> set (order g) \<longleftrightarrow> x < i))"

lemma find_roots_from_ok:
  assumes seg: "segmented s" and m: "max_adjacent_regions s \<le> 32767"
    and "state_ok ft s g w None" "leafs_upto s g i" "i + n = region_count s"
  shows "\<exists>w' g'. find_roots_from ft w i n = Some w' \<and> state_ok ft s g' w' None \<and> leafs_upto s g' (region_count s)"
  using assms(3-5)
proof (induction n arbitrary: g w i)
  case 0
  then show ?case by auto
next
  case (Suc n)
  have t: "fields ft s g w" "course_of s g" "complete ft s g None"
    using Suc.prems(1) by (auto simp: state_ok_def tracked_def)
  have i: "i < region_count s" "i < length (regions (seg w))"
    using Suc.prems(3) segmented_fresh(1) [OF seg, of i] fieldsD(2) [OF t(1)] by simp_all
  have ix: "region_of ft g i (reg s i) (reg (seg w) i)" by (rule fieldsD(3) [OF t(1) i(1)])
  have cond: "adjacent_region_count (reg (seg w) i) = 1 \<and> \<not> flag_set (flags (reg (seg w) i)) LEAF_BLOCK_FLAGS \<longleftrightarrow>
      i \<in> live s \<and> free_leaf s i"
  proof -
    have "flag_set (flags (reg (seg w) i)) LEAF_BLOCK_FLAGS = flag_set (flags (reg s i)) LEAF_BLOCK_FLAGS"
      "adjacent_regions (reg (seg w) i) = adj0 s i"
      using region_of_flags [OF ix, of LEAF_BLOCK_FLAGS] ix by (simp_all add: region_of_def)
    then show ?thesis using i(1)
      by (auto simp: adjacent_region_count_def free_leaf_def open_ended_def mask_flags live_def is_free_def)
  qed
  show ?case
  proof (cases "i \<in> live s \<and> free_leaf s i")
    case True
    then have io: "i \<notin> set (order g)" using Suc.prems(2) by (auto simp: leafs_upto_def)
    have lf: "length (adj0 s i) = 1" "\<not> open_ended (reg s i)" using True by (auto simp: free_leaf_def)
    have "{q. parent_of g q = Some i} = {}"
      using seg.leaf_is_no_parent [OF seg t(2) _ io lf] True by auto
    then have v: "visits g i = 0" by (auto simp: visits_def)
    have a: "level (reg (seg w) i) = NOT_TRAVERSED" "children_visited_count (reg (seg w) i) = 0"
      using ix io v by (auto simp: region_of_def)
    have e: "enter s g i" using True io lf v by (simp add: enter_def)
    have "state_ok ft s g w (Some i)" using Suc.prems(1) by (auto simp: state_ok_def complete_def)
    then obtain w1 g1 where w1: "propagate_descendent_count_and_max_depth_upwards ft w i = Some w1" "state_ok ft s g1 w1 None"
        "insert i (set (order g)) \<subseteq> set (order g1)" "\<forall>x \<in> set (order g1) - set (order g) - {i}. \<not> free_leaf s x"
      using propagate_ok [OF seg m _ e] by blast
    have "leafs_upto s g1 (Suc i)"
      unfolding leafs_upto_def
    proof (intro ballI impI)
      fix x assume x: "x \<in> live s" "free_leaf s x"
      then have "x \<in> set (order g) \<longleftrightarrow> x < i" using Suc.prems(2) by (auto simp: leafs_upto_def)
      then show "x \<in> set (order g1) \<longleftrightarrow> x < Suc i" using w1(3,4) x(2) by (auto simp: less_Suc_eq)
    qed
    from Suc.IH [OF w1(2) this] Suc.prems(3)
    show ?thesis using True cond a i(2) w1(1) by (simp add: buf_simps)
  next
    case False
    then have "leafs_upto s g (Suc i)" using Suc.prems(2) by (auto simp: leafs_upto_def less_Suc_eq)
    moreover have c: "\<not> (adjacent_region_count (reg (seg w) i) = 1 \<and> \<not> flag_set (flags (reg (seg w) i)) LEAF_BLOCK_FLAGS)"
      using cond False by blast
    ultimately show ?thesis
      unfolding find_roots_from.simps region_at_eq [OF i(2)] bind.simps if_not_P [OF c]
      using Suc.IH [OF Suc.prems(1)] Suc.prems(3) by simp
  qed
qed

text \<open>The initial values are those of a course that has not begun.\<close>

lemma sanity_check_ok:
  assumes "\<And>j. i \<le> j \<Longrightarrow> j < i + n \<Longrightarrow> j < length (regions (seg w)) \<and> fresh_region (reg (seg w) j)"
  shows "sanity_check_from w i n = Some ()"
  using assms
proof (induction n arbitrary: i)
  case (Suc n)
  have "i < length (regions (seg w)) \<and> fresh_region (reg (seg w) i)" using Suc.prems [of i] by simp
  moreover have "sanity_check_from w (Suc i) n = Some ()" by (rule Suc.IH) (use Suc.prems in simp)
  ultimately show ?case by (simp add: buf_simps fresh_region_def NOT_TRAVERSED_def)
qed simp

lemma fields_start: "segmented s \<Longrightarrow> fields ft s start (w\<lparr>seg := s\<rparr>)"
  using segmented_fresh(2) [of s]
  by (auto simp: fields_def region_of_def start_def visits_def fresh_region_def NOT_TRAVERSED_def)

lemma find_roots_ok:
  assumes seg: "segmented (seg w)" and m: "max_adjacent_regions (seg w) \<le> 32767"
    and ring: "ring_of w root_regions_head []"
  shows "\<exists>w' g. find_roots ft w = Some w' \<and> state_ok ft (seg w) g w' None \<and> leafs_upto (seg w) g (region_count (seg w))"
proof -
  have f: "fields ft (seg w) start w" using fields_start [OF seg, of ft w] by simp
  have "state_ok ft (seg w) start w None"
    using f ring traversal_start by (auto simp: state_ok_def tracked_def roots_of_def start_def complete_def visits_def)
  moreover have "leafs_upto (seg w) start 0" by (simp add: leafs_upto_def start_def)
  moreover have "sanity_check_region_initial_values w = Some ()"
    unfolding sanity_check_region_initial_values_def
    by (rule sanity_check_ok) (use segmented_fresh [OF seg] in auto)
  ultimately show ?thesis
    using find_roots_from_ok [OF seg m, of ft start w 0 "region_count (seg w)"] by (simp add: find_roots_def)
qed

end
