(* ===== verification/FidtrackRoots.thy ===== *)
theory FidtrackRoots
  imports FidtrackTraversal
begin

text \<open>
  What \<open>find_roots\<close> finds, stated without the course of the traversal: exactly the regions
  below which a tree of regions hangs that has the size and the height of a fiducial.
\<close>

text \<open>The trees hanging below the regions of a segmented image.\<close>

definition region_tree :: "Segmenter \<Rightarrow> nat option \<Rightarrow> nat \<Rightarrow> tree \<Rightarrow> bool" where
  "region_tree s p r t \<longleftrightarrow> r \<in> live s \<and> hangs (adj0 s) (\<lambda>x. open_ended (reg s x)) p r t"

fun inner_trees :: "tree \<Rightarrow> tree list" where
  "inner_trees (Tree ts) = ts @ concat (map inner_trees ts)"

text \<open>The search goes on above every inner tree, so that it reaches the root.\<close>

definition reached :: "FidtrackerX \<Rightarrow> tree \<Rightarrow> bool" where
  "reached ft t \<longleftrightarrow> (\<forall>u \<in> set (inner_trees t). goes_on ft u)"

lemma reached_subtree: "reached ft (Tree ts) \<Longrightarrow> t \<in> set ts \<Longrightarrow> goes_on ft t \<and> reached ft t"
  by (auto simp: reached_def)

lemma visited_tree:
  assumes seg: "segmented s" and c: "course_of s g" and r: "r \<in> set (order g)"
  shows "region_tree s (parent_of g r) r (below g r)"
  using seg.hangs_below [OF seg c r] traversalD(2) [OF c r] by (simp add: region_tree_def)

lemma list_all2_left: "list_all2 P xs ys \<Longrightarrow> x \<in> set xs \<Longrightarrow> \<exists>y \<in> set ys. P x y"
  by (induction rule: list_all2_induct) auto

text \<open>A region is ready once all its children have reported.\<close>

lemma children_reported:
  assumes seg: "segmented s" and c: "course_of s g" and r: "r \<in> live s" "r \<notin> set (order g)" "adj0 s r \<noteq> []"
    and kids: "\<And>a. a \<in> set (adj0 s r) \<Longrightarrow> Some a \<noteq> p \<Longrightarrow> a \<in> set (order g) \<and> a \<in> reported g"
    and p: "\<And>q. p = Some q \<Longrightarrow> \<not> open_ended (reg s r) \<and> count_list (adj0 s r) q = 1"
  shows "ready s g r" "0 < visits g r \<or> free_leaf s r" "\<And>q. parent_of g q = Some r \<Longrightarrow> q \<in> set (adj0 s r) \<and> Some q \<noteq> p"
proof -
  note V = seg.visited_children [OF seg c r(1,2)]
  have pn: "q \<notin> set (order g)" if "p = Some q" for q
    using seg.some_unvisited [OF seg c r(1,2)] p [OF that] kids that by auto
  show par: "q \<in> set (adj0 s r) \<and> Some q \<noteq> p" if "parent_of g q = Some r" for q
    using V(2) that pn by auto
  have "{q \<in> reported g. parent_of g q = Some r} = {a \<in> set (adj0 s r). a \<in> set (order g)}"
    unfolding V(2) [symmetric] using kids par by blast
  also have "\<dots> = set (filter (\<lambda>a. a \<in> set (order g)) (adj0 s r))" by auto
  finally have v: "visits g r = length (filter (\<lambda>a. a \<in> set (order g)) (adj0 s r))"
    using distinct_card [OF V(3)] by (simp add: visits_def)
  have sat: "\<not> is_saturated (reg s r)" using segmented_graph(5) [OF seg r(1)] r(3) by blast
  have "ready s g r \<and> (0 < visits g r \<or> free_leaf s r)"
  proof (cases p)
    case None
    then have "filter (\<lambda>a. a \<in> set (order g)) (adj0 s r) = adj0 s r" using kids by (simp add: filter_id_conv)
    then show ?thesis using v r(3) sat seg.some_unvisited [OF seg c r(1,2)] kids None
      by (auto simp: ready_def)
  next
    case (Some q)
    have "filter (\<lambda>a. a \<notin> set (order g)) (adj0 s r) = filter (\<lambda>a. q = a) (adj0 s r)"
      by (rule filter_cong) (use pn [OF Some] kids Some in auto)
    then have "length (filter (\<lambda>a. a \<notin> set (order g)) (adj0 s r)) = 1"
      using p [OF Some] by (simp add: count_list_eq_length_filter)
    then have "Suc (visits g r) = length (adj0 s r)"
      using v sum_length_filter_compl [of "\<lambda>a. a \<in> set (order g)" "adj0 s r"] by simp
    then show ?thesis using p [OF Some] sat by (auto simp: ready_def free_leaf_def)
  qed
  then show "ready s g r" "0 < visits g r \<or> free_leaf s r" by auto
qed

lemma tree_found:
  assumes seg: "segmented s" and st: "state_ok ft s g w None" and lf: "leafs_upto s g (region_count s)"
    and "hangs (adj0 s) (\<lambda>x. open_ended (reg s x)) p r t" "r \<in> live s" "adj0 s r \<noteq> []" "reached ft t"
  shows "r \<in> set (order g)" "parent_of g r = p" "below g r = t"
proof -
  have c: "course_of s g" and cm: "complete ft s g None" using st by (auto simp: state_ok_def)
  have "r \<in> set (order g) \<and> parent_of g r = p"
    using assms(4-7)
  proof (induction rule: hangs.induct)
    case (hangs_Tree r p ts)
    have kid: "a \<in> set (order g) \<and> parent_of g a = Some r \<and> goes_on ft (below g a) \<and> a \<in> reported g"
      if "a \<in> set (adj0 s r)" "Some a \<noteq> p" for a
    proof -
      have "a \<in> set (filter (\<lambda>a. Some a \<noteq> p) (adj0 s r))" using that by simp
      then obtain u where u: "u \<in> set ts" "hangs (adj0 s) (\<lambda>x. open_ended (reg s x)) (Some r) a u"
          "a \<in> live s \<Longrightarrow> adj0 s a \<noteq> [] \<Longrightarrow> reached ft u \<Longrightarrow> a \<in> set (order g) \<and> parent_of g a = Some r"
        using list_all2_left [OF hangs_Tree.IH(1)] by blast
      note re = reached_subtree [OF hangs_Tree.prems(3) u(1)]
      have "a \<in> live s" "adj0 s a \<noteq> []"
        using segmented_graph(2) [OF seg hangs_Tree.prems(1) that(1)] seg.adj_in [OF seg hangs_Tree.prems(1) that(1)] by auto
      then have a: "a \<in> set (order g)" "parent_of g a = Some r" using u(3) re by auto
      have "below g a = u" using hangs_unique [OF seg.hangs_below [OF seg c a(1)]] a(2) u(2) by simp
      then show ?thesis using a re cm by (auto simp: complete_def goes_on_def)
    qed
    have r: "r \<in> set (order g)"
    proof (rule ccontr)
      assume n: "r \<notin> set (order g)"
      note R = children_reported [OF seg c hangs_Tree.prems(1) n hangs_Tree.prems(2), of p]
      have R': "ready s g r" "0 < visits g r \<or> free_leaf s r" "\<And>q. parent_of g q = Some r \<Longrightarrow> q \<in> set (adj0 s r) \<and> Some q \<noteq> p"
        using R kid hangs_Tree.hyps by blast+
      have "\<not> free_leaf s r" using lf n hangs_Tree.prems(1) by (auto simp: leafs_upto_def live_def)
      then obtain q where "parent_of g q = Some r" "\<not> goes_on ft (below g q)"
        using cm R'(1,2) hangs_Tree.prems(1) n by (auto simp: complete_def)
      then show False using R'(3) kid by blast
    qed
    moreover have "parent_of g r = p"
    proof (cases "parent_of g r")
      case None
      then have "open_ended (reg s r)" using seg.top_is_open [OF seg c r] by simp
      then show ?thesis using hangs_Tree.hyps None by (cases p) auto
    next
      case (Some q)
      show ?thesis using seg.parent_once(2,3) [OF seg c Some] kid Some by auto
    qed
    ultimately show ?case ..
  qed
  then show r: "r \<in> set (order g)" "parent_of g r = p" by auto
  show "below g r = t"
    using hangs_unique [OF seg.hangs_below [OF seg c r(1)]] r(2) assms(4) by simp
qed

subsection \<open>The list of roots\<close>

definition collect_roots :: "FidtrackerX \<Rightarrow> World \<Rightarrow> World option" where
  "collect_roots ft w = do { w \<leftarrow> initialize_head_region w root_regions_head; find_roots ft w }"

lemma collect_roots_ok:
  assumes seg: "segmented (seg w)" and m: "max_adjacent_regions (seg w) \<le> 32767" and h: "heads w \<noteq> []"
  obtains w' g where "collect_roots ft w = Some w'" "state_ok ft (seg w) g w' None"
    "leafs_upto (seg w) g (region_count (seg w))"
proof -
  have v: "valid w (Head 0)" using h by simp
  obtain w1 where w1: "initialize_head_region w root_regions_head = Some w1" "ring_of w1 root_regions_head []"
    using initialize_head_region_ok [OF v] unfolding root_regions_head_def by blast
  have "seg w1 = seg w" using w1(1) v by (auto simp: initialize_head_region_def root_regions_head_def buf_simps)
  then show ?thesis using find_roots_ok [of w1 ft] seg m w1 that by (auto simp: collect_roots_def)
qed

lemma roots_are_trees:
  assumes "segmented s" "state_ok ft s g w None" "r \<in> set (roots_of ft g)"
  shows "\<exists>p t. region_tree s p r t \<and> is_fiducial_root ft t"
  using assms visited_tree by (fastforce simp: roots_of_def state_ok_def)

lemma trees_are_roots:
  assumes seg: "segmented s" and st: "state_ok ft s g w None" and lf: "leafs_upto s g (region_count s)"
    and t: "region_tree s p r t" "adj0 s r \<noteq> []" "reached ft t" "is_fiducial_root ft t"
  shows "r \<in> set (roots_of ft g)"
proof -
  have h: "hangs (adj0 s) (\<lambda>x. open_ended (reg s x)) p r t" "r \<in> live s" using t(1) by (auto simp: region_tree_def)
  from tree_found [OF seg st lf h t(2,3)] show ?thesis using t(4) by (simp add: roots_of_def)
qed

lemma visited_size:
  assumes seg: "segmented s" and c: "course_of s g" and r: "r \<in> set (order g)"
  shows "nodes (below g r) \<le> region_count s"
proof -
  note T = traversalD [OF c]
  have "set (order g) \<subseteq> {..<region_count s}" using T(2) segmented_graph(1) [OF seg] by auto
  then have "card (set (order g)) \<le> card {..<region_count s}" by (intro card_mono) simp_all
  then have "length (order g) \<le> region_count s" using distinct_card [OF T(1)] by simp
  then show ?thesis using T(8) [OF r] by simp
qed

text \<open>A world for the image of one dark ring around a light pixel.\<close>

definition pair_tracker :: FidtrackerX where
  "pair_tracker = initialize_fidtrackerX (\<lambda>n. replicate (nat n) CHR ''x'')
     \<lparr>tree_count = 1, min_node_count = 2, max_node_count = 2, tm_min_depth = 1, tm_max_depth = 1, max_adjacencies = 2\<rparr>"

lemma ring_world:
  obtains s where "segmented s" "max_adjacent_regions s \<le> 32767" "region_count s = 2"
    "region_tree s None 0 (Tree [Tree []])" "adj0 s 0 = [1]" "1 \<in> live s"
proof -
  obtain s where s: "step_segmenter (blank_segmenter 3 3 4) ring = Some s" "region_count s = 2"
      "map (\<lambda>r. (colour r, flags r, adjacent_regions r)) (take 2 (regions s)) = [(0, 2, [1]), (255, 0, [0])]"
    using ring_run by auto
  have "binary_image (width (blank_segmenter 3 3 4)) (height (blank_segmenter 3 3 4)) ring"
    "segmenter_memory (blank_segmenter 3 3 4)" by simp_all
  then have sg: "segmented s" unfolding segmented_def using s(1) by blast
  obtain a b rs where rs: "regions s = a # b # rs" "flags a = 2" "flags b = 0" "adjacent_regions a = [1]" "adjacent_regions b = [0]"
    using s(3) by (cases "regions s"; cases "tl (regions s)") auto
  have "live s = {0, 1}"
    by (auto simp: live_def s(2) is_free_def rs less_Suc_eq numeral_2_eq_2 flag_set_def FREE_REGION_FLAG_def)
  moreover have "hangs (adj0 s) (\<lambda>x. open_ended (reg s x)) None 0 (Tree [Tree []])"
    by (auto intro!: hangs_Tree simp: rs open_ended_def flag_set_def)
  moreover have "map_option max_adjacent_regions (step_segmenter (blank_segmenter 3 3 4) ring) = Some 4" by code_simp
  ultimately show ?thesis using that [OF sg] s(1,2) rs(4) by (simp add: region_tree_def rs(1))
qed

text \<open>C2: On every segmented image the search for roots returns, without a failing assertion,
  and the list of roots holds exactly the right regions: below each of them hangs a tree of
  regions with the size and height of a fiducial, and every region with such a tree is on the
  list, unless the search had to stop at one of the inner trees because it was too large.\<close>

theorem find_roots_trees:
  assumes "segmented (seg w)" "max_adjacent_regions (seg w) \<le> 32767" "heads w \<noteq> []"
  shows "\<exists>w' rs. collect_roots ft w = Some w' \<and> ring_of w' root_regions_head rs \<and>
    (\<forall>r \<in> set rs. \<exists>p t. region_tree (seg w) p r t \<and> is_fiducial_root ft t) \<and>
    (\<forall>p r t. region_tree (seg w) p r t \<and> adjacent_regions (reg (seg w) r) \<noteq> [] \<and> reached ft t \<and>
       is_fiducial_root ft t \<longrightarrow> r \<in> set rs)"
proof -
  obtain w' g where w': "collect_roots ft w = Some w'" "state_ok ft (seg w) g w' None" "leafs_upto (seg w) g (region_count (seg w))"
    using collect_roots_ok [OF assms] .
  have "ring_of w' root_regions_head (roots_of ft g)" using w'(2) by (simp add: state_ok_def tracked_def)
  then show ?thesis
    using w' roots_are_trees [OF assms(1) w'(2)] trees_are_roots [OF assms(1) w'(2,3)] by blast
qed

lemma find_roots_trees_witness:
  "\<exists>w w' rs. collect_roots pair_tracker w = Some w' \<and> ring_of w' root_regions_head rs \<and> 0 \<in> set rs"
proof (rule ring_world)
  fix s assume s: "segmented s" "max_adjacent_regions s \<le> 32767" "region_tree s None 0 (Tree [Tree []])" "adj0 s 0 = [1]"
  let ?w = "\<lparr>seg = s, heads = [blank_region]\<rparr>"
  have "is_fiducial_root pair_tracker (Tree [Tree []])" "reached pair_tracker (Tree [Tree []])" by code_simp+
  moreover obtain w' rs where "collect_roots pair_tracker ?w = Some w'" "ring_of w' root_regions_head rs"
      "\<forall>p r t. region_tree s p r t \<and> adj0 s r \<noteq> [] \<and> reached pair_tracker t \<and> is_fiducial_root pair_tracker t \<longrightarrow> r \<in> set rs"
    using find_roots_trees [of ?w pair_tracker] s by auto
  ultimately show ?thesis using s(3,4) by (metis list.distinct(1))
qed

text \<open>C21: In images with at most 32768 regions the counters do not overflow: every region
  that was traversed carries the exact number of its descendents and the exact height of its
  tree, all others are marked as not traversed, and the segmenter's results are unchanged.\<close>

theorem find_roots_fields:
  assumes "segmented (seg w)" "max_adjacent_regions (seg w) \<le> 32767" "heads w \<noteq> []" "region_count (seg w) \<le> 32768"
  shows "\<exists>w'. collect_roots ft w = Some w' \<and> (\<forall>r < region_count (seg w).
    (let x = reg (seg w) r; y = reg (seg w') r in
      adjacent_regions y = adjacent_regions x \<and> colour y = colour x \<and> left y = left x \<and> right y = right x \<and>
      rtop y = rtop x \<and> bottom y = bottom x \<and>
      (level y = NOT_TRAVERSED \<and> flags y = flags x \<or>
       level y = TRAVERSED \<and> (\<exists>p t. region_tree (seg w) p r t \<and>
         descendent_count y = int (nodes t) - 1 \<and> depth y = int (tree_height t) \<and>
         flags y = (if fuzzy_root ft t then flags x OR LOST_SYMBOL_FLAG else flags x)))))"
proof -
  obtain w' g where w': "collect_roots ft w = Some w'" "state_ok ft (seg w) g w' None"
    using collect_roots_ok [OF assms(1-3)] .
  have f: "fields ft (seg w) g w'" and c: "course_of (seg w) g" using w'(2) by (auto simp: state_ok_def tracked_def)
  have "\<exists>p t. region_tree (seg w) p r t \<and> descendent_count (reg (seg w') r) = int (nodes t) - 1 \<and>
      depth (reg (seg w') r) = int (tree_height t) \<and> flags (reg (seg w') r) =
        (if fuzzy_root ft t then flags (reg (seg w) r) OR LOST_SYMBOL_FLAG else flags (reg (seg w) r))"
    if r: "r < region_count (seg w)" "r \<in> set (order g)" for r
  proof -
    have n: "nodes (below g r) \<le> 32768" using visited_size [OF assms(1) c r(2)] assms(4) by simp
    show ?thesis
      using fieldsD(3) [OF f r(1)] visited_tree [OF assms(1) c r(2)] r(2) short_count_exact [OF n] short_height_exact [OF n]
      by (intro exI [of _ "parent_of g r"] exI [of _ "below g r"]) (simp add: region_of_def)
  qed
  moreover have "region_of ft g r (reg (seg w) r) (reg (seg w') r)" if "r < region_count (seg w)" for r
    using fieldsD(3) [OF f that] .
  ultimately show ?thesis
    using w'(1) by (intro exI [of _ w'] conjI allI impI) (auto simp: region_of_def Let_def)
qed

lemma find_roots_fields_witness:
  "\<exists>w w'. region_count (seg w) = 2 \<and> collect_roots pair_tracker w = Some w' \<and>
     adjacent_regions (reg (seg w') 0) = [1]"
proof (rule ring_world)
  fix s assume s: "segmented s" "max_adjacent_regions s \<le> 32767" "region_count s = 2" "adj0 s 0 = [1]"
  let ?w = "\<lparr>seg = s, heads = [blank_region]\<rparr>"
  obtain w' where "collect_roots pair_tracker ?w = Some w'" "adj0 (seg w') 0 = adj0 s 0"
    using find_roots_fields [of ?w pair_tracker] s by (auto simp: Let_def)
  then show ?thesis using s(3,4) by (intro exI [of _ ?w] exI [of _ w']) simp
qed

subsection \<open>Lists of regions\<close>

text \<open>C23: Linking a region appends it to the list of its head, unlinking takes it out again,
  and neither changes anything but the two links of the regions involved.\<close>

theorem link_unlink:
  assumes "ring_of w h xs" "valid w (Reg r)" "r \<notin> set xs"
  shows "\<exists>w1 w2. link_region w h (Reg r) = Some w1 \<and> ring_of w1 h (xs @ [r]) \<and> links_only w w1 \<and>
    unlink_region w1 (Reg r) = Some w2 \<and> ring_of w2 h xs \<and> links_only w1 w2"
proof -
  obtain w1 where w1: "link_region w h (Reg r) = Some w1" "ring_of w1 h (xs @ [r])" "links_only w w1"
    using link_region_ok [OF assms] by blast
  then show ?thesis using unlink_region_ok [of w1 h xs r "[]"] by auto
qed

lemma link_unlink_witness:
  "\<exists>w w1. link_region w (Head 0) (Reg 0) = Some w1 \<and> ring_of w1 (Head 0) [0]"
proof -
  let ?w = "\<lparr>seg = initialize_segmenter 1 1 4 [] [blank_region] [], heads = [blank_region]\<rparr>"
  have "valid ?w (Head 0)" by simp
  then obtain w where w: "initialize_head_region ?w (Head 0) = Some w" "ring_of w (Head 0) []" "links_only ?w w"
    using initialize_head_region_ok by blast
  then have "valid w (Reg 0)" using links_only_valid [OF w(3), of "Reg 0"] by (simp add: initialize_segmenter_def)
  then show ?thesis using link_unlink [OF w(2), of 0] by auto
qed

end
