(* ===== verification/FidtrackDepth.thy ===== *)
theory FidtrackDepth
  imports FidtrackRoots FidtrackTree
begin

text \<open>
  The regions of a tree that \<open>find_roots\<close> found, as the functions that walk down the tree
  see them, and \<open>set_depth\<close>: it numbers every region of the tree by its distance from the
  root.
\<close>

subsection \<open>Trees of regions\<close>

text \<open>
  What the walks need of the regions, and keep: the adjacency lists up to their order, which
  regions were traversed, and the numbers of descendents.
\<close>

definition tree_world :: "Segmenter \<Rightarrow> course \<Rightarrow> World \<Rightarrow> bool" where
  "tree_world s g w \<longleftrightarrow> length (regions (seg w)) = length (regions s) \<and>
     (\<forall>i < region_count s. mset (adjacent_regions (reg (seg w) i)) = mset (adj0 s i) \<and>
       (level (reg (seg w) i) = TRAVERSED \<longleftrightarrow> i \<in> set (order g)) \<and>
       descendent_count (reg (seg w) i) = (if i \<in> set (order g) then int (nodes (below g i)) - 1 else 32767))"

lemma tree_worldD:
  assumes "tree_world s g w"
  shows "length (regions (seg w)) = length (regions s)"
    "i < region_count s \<Longrightarrow> mset (adjacent_regions (reg (seg w) i)) = mset (adj0 s i)"
    "i < region_count s \<Longrightarrow> level (reg (seg w) i) = TRAVERSED \<longleftrightarrow> i \<in> set (order g)"
    "i < region_count s \<Longrightarrow> i \<in> set (order g) \<Longrightarrow> descendent_count (reg (seg w) i) = int (nodes (below g i)) - 1"
    "i < region_count s \<Longrightarrow> i \<notin> set (order g) \<Longrightarrow> descendent_count (reg (seg w) i) = 32767"
  using assms by (auto simp: tree_world_def)

abbreviation kids :: "Segmenter \<Rightarrow> course \<Rightarrow> nat \<Rightarrow> nat list" where
  "kids s g r \<equiv> children (adj0 s) g r"

text \<open>The image was segmented and traversed, and has few enough regions for the counters.\<close>

definition traversed :: "Segmenter \<Rightarrow> course \<Rightarrow> bool" where
  "traversed s g \<longleftrightarrow> segmented s \<and> course_of s g \<and> region_count s \<le> 32768"

lemma traversedD:
  assumes "traversed s g"
  shows "segmented s" "course_of s g" "region_count s \<le> 32768" "region_count s \<le> length (regions s)"
    "r \<in> set (order g) \<Longrightarrow> r < region_count s" "r \<in> set (order g) \<Longrightarrow> nodes (below g r) \<le> region_count s"
proof -
  show s: "segmented s" "course_of s g" "region_count s \<le> 32768" using assms by (auto simp: traversed_def)
  show "region_count s \<le> length (regions s)" using segmented_fresh(1) [OF s(1)] by (meson leI less_irrefl)
  show "r \<in> set (order g) \<Longrightarrow> r < region_count s"
    using segmented_graph(1) [OF s(1)] traversalD(2) [OF s(2)] by blast
  show "r \<in> set (order g) \<Longrightarrow> nodes (below g r) \<le> region_count s" using visited_size [OF s(1,2)] .
qed

lemma adj_visited:
  assumes "traversed s g" "r \<in> set (order g)" "a \<in> set (adj0 s r)"
  shows "a < region_count s" "a \<noteq> r"
  using segmented_graph(1,2) [OF traversedD(1) [OF assms(1)]] traversalD(2) [OF traversedD(2) [OF assms(1)] assms(2)] assms(3)
  by blast+

lemma kids_facts:
  assumes t: "traversed s g" and r: "r \<in> set (order g)"
  shows "below g r = Tree (map (below g) (kids s g r))" "distinct (kids s g r)"
    "a \<in> set (kids s g r) \<Longrightarrow> a \<in> set (order g) \<and> parent_of g a = Some r \<and> a \<in> set (adj0 s r)"
    "parent_of g a = Some r \<Longrightarrow> a \<in> set (kids s g r)"
    "parent_of g a = Some r \<Longrightarrow> nodes (below g a) < nodes (below g r)"
proof -
  note S = traversedD(1) [OF t] and T = traversalD [OF traversedD(2) [OF t]] and P = seg.parent_once [OF traversedD(1,2) [OF t]]
  show b: "below g r = Tree (map (below g) (kids s g r))" by (rule T(6) [OF r])
  show "a \<in> set (kids s g r) \<Longrightarrow> a \<in> set (order g) \<and> parent_of g a = Some r \<and> a \<in> set (adj0 s r)"
    using T(4) [of a r] by (auto simp: children_def)
  have lv: "r \<in> live s" using T(2) [OF r] .
  have in_adj: "a \<in> set (adj0 s r) \<and> count_list (adj0 s r) a = 1" if "parent_of g a = Some r" for a
  proof -
    have "a \<in> live s" using T(2,4) that by blast
    then show ?thesis
      using P(1,2) [OF that] segmented_graph(3) [OF S lv] seg.adj_in [OF S, of a r] by auto
  qed
  show k: "a \<in> set (kids s g r)" if "parent_of g a = Some r" for a
    using in_adj [OF that] that by (simp add: children_def)
  show "nodes (below g a) < nodes (below g r)" if "parent_of g a = Some r"
    unfolding b using k [OF that] by (intro nodes_member) simp
  have "count (mset (kids s g r)) a = (if a \<in> set (kids s g r) then 1 else 0)" for a
    using in_adj [of a] by (auto simp: children_def count_mset [symmetric])
  then show "distinct (kids s g r)" using distinct_count_atmost_1 by blast
qed

text \<open>The tests of the two walks single out the children.\<close>

lemma child_test:
  assumes t: "traversed s g" and w: "tree_world s g w" and r: "r \<in> set (order g)" and a: "a \<in> set (adj0 s r)"
  shows "descendent_count (reg (seg w) a) < descendent_count (reg (seg w) r) \<longleftrightarrow> parent_of g a = Some r"
    "level (reg (seg w) a) = TRAVERSED \<and> descendent_count (reg (seg w) a) < descendent_count (reg (seg w) r) \<longleftrightarrow>
     parent_of g a = Some r"
proof -
  note D = traversedD [OF t] and W = tree_worldD [OF w] and av = adj_visited [OF t r a]
  note P = seg.parent_once [OF D(1,2)]
  have r': "descendent_count (reg (seg w) r) = int (nodes (below g r)) - 1" "nodes (below g r) \<le> 32768"
    using W(4) [OF D(5) [OF r] r] D(6) [OF r] D(3) by simp_all
  show "descendent_count (reg (seg w) a) < descendent_count (reg (seg w) r) \<longleftrightarrow> parent_of g a = Some r"
  proof (cases "parent_of g a = Some r")
    case True
    then have ao: "a \<in> set (order g)" using traversalD(4) [OF D(2)] by blast
    show ?thesis using True r' W(4) [OF av(1) ao] kids_facts(5) [OF t r True] by simp
  next
    case False
    then have p: "parent_of g r = Some a" using seg.neighbours_split [OF D(1,2) r a] by blast
    have "nodes (below g r) < nodes (below g a)" if "a \<in> set (order g)" using kids_facts(5) [OF t that p] .
    then show ?thesis using False r' W(4,5) [OF av(1)] by (cases "a \<in> set (order g)") auto
  qed
  then show "level (reg (seg w) a) = TRAVERSED \<and> descendent_count (reg (seg w) a) < descendent_count (reg (seg w) r) \<longleftrightarrow>
     parent_of g a = Some r"
    using W(3) [OF av(1)] traversalD(4) [OF D(2)] by blast
qed

text \<open>The regions of the tree below \<open>r\<close>.\<close>

inductive_set under :: "course \<Rightarrow> nat \<Rightarrow> nat set" for g r where
  under_root: "r \<in> under g r"
| under_child: "y \<in> under g r \<Longrightarrow> parent_of g a = Some y \<Longrightarrow> a \<in> under g r"

lemma under_trans: "y \<in> under g a \<Longrightarrow> a \<in> under g r \<Longrightarrow> y \<in> under g r"
  by (induction rule: under.induct) (auto intro: under.intros)

lemma under_split: "y \<in> under g r \<Longrightarrow> y = r \<or> (\<exists>a. parent_of g a = Some r \<and> y \<in> under g a)"
  by (induction rule: under.induct) (auto intro: under.intros)

lemma under_visited:
  assumes "traversed s g" "r \<in> set (order g)" "y \<in> under g r"
  shows "y \<in> set (order g)" "nodes (below g y) \<le> nodes (below g r)"
  using assms(3)
proof (induction rule: under.induct)
  case (under_child y a)
  { case 1 show ?case using traversalD(4) [OF traversedD(2) [OF assms(1)] under_child(2)] by simp }
  { case 2 show ?case using kids_facts(5) [OF assms(1) _ under_child(2)] under_child by simp }
qed (use assms(2) in simp_all)

lemma under_smaller:
  assumes "traversed s g" "a \<in> set (order g)" "r \<in> set (order g)" "parent_of g a = Some r"
  shows "r \<notin> under g a"
  using under_visited(2) [OF assms(1,2), of r] kids_facts(5) [OF assms(1,3,4)] by auto

lemma under_disjoint:
  assumes t: "traversed s g" and r: "r \<in> set (order g)" and ab: "parent_of g a = Some r" "parent_of g b = Some r" "a \<noteq> b"
  shows "under g a \<inter> under g b = {}"
proof -
  have o: "a \<in> set (order g)" "b \<in> set (order g)" using traversalD(4) [OF traversedD(2) [OF t]] ab by blast+
  have "y \<notin> under g b" if "y \<in> under g a" for y
    using that
  proof (induction rule: under.induct)
    case under_root
    show ?case
    proof
      assume "a \<in> under g b"
      then show False using under_smaller [OF t o(2) r ab(2)] ab by (cases rule: under.cases) auto
    qed
  next
    case (under_child y c)
    then have yo: "y \<in> set (order g)" "y \<in> under g a" using under_visited(1) [OF t o(1)] by auto
    show ?case
    proof
      assume "c \<in> under g b"
      then show False
      proof (cases rule: under.cases)
        case under_root
        then have "y = r" using under_child(2) ab(2) by simp
        then show ?thesis using under_smaller [OF t o(1) r ab(1)] yo(2) by simp
      next
        case (under_child z)
        then show ?thesis using \<open>parent_of g c = Some y\<close> \<open>y \<notin> under g b\<close> by auto
      qed
    qed
  qed
  then show ?thesis by blast
qed

text \<open>
  The walks treat a region with one neighbour as a leaf. Only the root of a tree can have one
  neighbour and yet a child.
\<close>

definition proper :: "Segmenter \<Rightarrow> course \<Rightarrow> nat \<Rightarrow> bool" where
  "proper s g r \<longleftrightarrow> length (adj0 s r) = 1 \<longrightarrow> kids s g r = []"

lemma kid_proper:
  assumes t: "traversed s g" and p: "parent_of g a = Some r"
  shows "proper s g a"
  unfolding proper_def
proof
  assume "length (adj0 s a) = 1"
  note P = seg.parent_once [OF traversedD(1,2) [OF t] p]
  then have "adj0 s a = [r]" using \<open>length (adj0 s a) = 1\<close> by (cases "adj0 s a") auto
  then show "kids s g a = []" using P(3) by (simp add: children_def)
qed

subsection \<open>Depths\<close>

definition same_but_depth :: "World \<Rightarrow> World \<Rightarrow> bool" where
  "same_but_depth w w' \<longleftrightarrow> heads w' = heads w \<and> length (regions (seg w')) = length (regions (seg w)) \<and>
     (\<forall>i < length (regions (seg w)). \<exists>d. reg (seg w') i = (reg (seg w) i)\<lparr>depth := d\<rparr>)"

lemma depth_same: "\<exists>d. x = x\<lparr>depth := d\<rparr>" for x :: Region
  by (rule exI [of _ "depth x"]) simp

lemma same_but_depth_refl [simp]: "same_but_depth w w"
  using depth_same by (simp add: same_but_depth_def)

lemma same_but_depth_trans: "same_but_depth w w' \<Longrightarrow> same_but_depth w' w'' \<Longrightarrow> same_but_depth w w''"
  unfolding same_but_depth_def by fastforce

lemma same_but_depth_put:
  "same_but_depth w (put w (Reg r) ((reg (seg w) r)\<lparr>depth := d\<rparr>))"
  unfolding same_but_depth_def
proof (intro conjI allI impI)
  fix i assume "i < length (regions (seg w))"
  then show "\<exists>e. reg (seg (put w (Reg r) ((reg (seg w) r)\<lparr>depth := d\<rparr>))) i = (reg (seg w) i)\<lparr>depth := e\<rparr>"
    using depth_same by (cases "i = r") auto
qed simp_all

lemma tree_world_depth:
  assumes "same_but_depth w w'" "tree_world s g w" "region_count s \<le> length (regions s)"
  shows "tree_world s g w'"
proof -
  have "\<exists>d. reg (seg w') i = (reg (seg w) i)\<lparr>depth := d\<rparr>" if "i < region_count s" for i
    using assms that tree_worldD(1) [OF assms(2)] by (simp add: same_but_depth_def)
  then show ?thesis using assms(1,2) unfolding tree_world_def same_but_depth_def by fastforce
qed

text \<open>The depths of the regions \<open>U\<close> are changed to \<open>D\<close>, if at all; those of \<open>V\<close> are \<open>D\<close>.\<close>

definition depths_set :: "(nat \<Rightarrow> int) \<Rightarrow> nat set \<Rightarrow> nat set \<Rightarrow> World \<Rightarrow> World \<Rightarrow> bool" where
  "depths_set D U V w w' \<longleftrightarrow> same_but_depth w w' \<and>
     (\<forall>i. depth (reg (seg w') i) = depth (reg (seg w) i) \<or> i \<in> U \<and> depth (reg (seg w') i) = D i) \<and>
     (\<forall>i \<in> V. depth (reg (seg w') i) = D i)"

lemma depths_set_trans:
  assumes "depths_set D U V w w'" "depths_set D U' V' w' w''"
  shows "depths_set D (U \<union> U') (V \<union> V') w w''"
proof -
  have s: "same_but_depth w w''" using assms same_but_depth_trans by (auto simp: depths_set_def)
  have c: "depth (reg (seg w'') i) = depth (reg (seg w) i) \<or> i \<in> U \<union> U' \<and> depth (reg (seg w'') i) = D i" for i
    using assms unfolding depths_set_def by (metis UnCI)
  have v: "depth (reg (seg w'') i) = D i" if "i \<in> V \<union> V'" for i
    using assms that unfolding depths_set_def by (metis UnE)
  show ?thesis using s c v by (simp add: depths_set_def)
qed

text \<open>A numbering by distance from the root of the tree.\<close>

definition numbering :: "course \<Rightarrow> (nat \<Rightarrow> int) \<Rightarrow> nat \<Rightarrow> bool" where
  "numbering g D r \<longleftrightarrow> 0 \<le> D r \<and> D r + int (nodes (below g r)) \<le> 32768 \<and>
     (\<forall>y \<in> under g r. \<forall>a. parent_of g a = Some y \<longrightarrow> D a = D y + 1)"

lemma numbering_child:
  assumes "traversed s g" "r \<in> set (order g)" "numbering g D r" "parent_of g a = Some r"
  shows "numbering g D a" "to_short (D r + 1) = D a"
proof -
  have a: "D a = D r + 1" using assms(3,4) under_root by (simp add: numbering_def)
  have "a \<in> under g r" using assms(4) by (auto intro: under.intros)
  then show "numbering g D a"
    using assms(3) a kids_facts(5) [OF assms(1,2,4)] under_trans [of _ g a r] by (auto simp: numbering_def)
  have "1 \<le> int (nodes (below g a))" using nodes_pos [of "below g a"] by (simp add: Suc_le_eq del: nodes_pos)
  then show "to_short (D r + 1) = D a"
    using a assms(3) kids_facts(5) [OF assms(1,2,4)] by (simp add: numbering_def)
qed

lemma set_depth_rec_ok:
  assumes t: "traversed s g"
  shows "r \<in> set (order g) \<Longrightarrow> proper s g r \<Longrightarrow> tree_world s g w \<Longrightarrow> nodes (below g r) \<le> k \<Longrightarrow> numbering g D r \<Longrightarrow>
    \<exists>w'. set_depth_rec k w r (D r) = Some w' \<and> depths_set D (under g r) (under g r) w w'"
proof (induction k arbitrary: w r)
  case 0
  then show ?case using nodes_pos [of "below g r"] by simp
next
  case (Suc k)
  note D = traversedD [OF t]
  have loop: "\<exists>w'. set_depth_loop k w r as (to_short (D r + 1)) = Some w' \<and>
      depths_set D (under g r) (\<Union>a \<in> {a \<in> set as. parent_of g a = Some r}. under g a) w w'"
    if "tree_world s g w" "set as \<subseteq> set (adj0 s r)" for as w
    using that
  proof (induction as arbitrary: w)
    case Nil
    then show ?case by (simp add: depths_set_def)
  next
    case (Cons a as)
    have a: "a \<in> set (adj0 s r)" using Cons.prems(2) by simp
    note av = adj_visited [OF t Suc.prems(1) a]
    have l: "a < length (regions (seg w))" "r < length (regions (seg w))"
      using av(1) D(4) D(5) [OF Suc.prems(1)] tree_worldD(1) [OF Cons.prems(1)] by simp_all
    note ct = child_test(1) [OF t Cons.prems(1) Suc.prems(1) a]
    show ?case
    proof (cases "parent_of g a = Some r")
      case True
      note n = numbering_child [OF t Suc.prems(1,5) True]
      have ao: "a \<in> set (order g)" using traversalD(4) [OF D(2) True] by simp
      have "nodes (below g a) \<le> k" using kids_facts(5) [OF t Suc.prems(1) True] Suc.prems(4) by simp
      from Suc.IH [OF ao kid_proper [OF t True] Cons.prems(1) this n(1)]
      obtain w1 where w1: "set_depth_rec k w a (D a) = Some w1" "depths_set D (under g a) (under g a) w w1" by blast
      have "tree_world s g w1"
        using tree_world_depth [OF _ Cons.prems(1) D(4)] w1(2) by (simp add: depths_set_def)
      then obtain w2 where w2: "set_depth_loop k w1 r as (to_short (D r + 1)) = Some w2"
          "depths_set D (under g r) (\<Union>a \<in> {a \<in> set as. parent_of g a = Some r}. under g a) w1 w2"
        using Cons.IH Cons.prems(2) by auto
      have sub: "under g a \<union> under g r = under g r"
        using under_trans [of _ g a r] under_child [OF under_root True] by blast
      have un: "under g a \<union> (\<Union>a \<in> {a \<in> set as. parent_of g a = Some r}. under g a) =
          (\<Union>a \<in> {x \<in> set (a # as). parent_of g x = Some r}. under g a)" using True by auto
      have "depths_set D (under g r) (\<Union>a \<in> {x \<in> set (a # as). parent_of g x = Some r}. under g a) w w2"
        using depths_set_trans [OF w1(2) w2(2)] unfolding sub un .
      moreover have "set_depth_loop k w r (a # as) (to_short (D r + 1)) = Some w2"
        using w1(1) w2(1) True ct n(2) l by (simp add: buf_simps)
      ultimately show ?thesis by blast
    next
      case False
      then have "{x \<in> set (a # as). parent_of g x = Some r} = {x \<in> set as. parent_of g x = Some r}" by auto
      moreover have "set_depth_loop k w r (a # as) (to_short (D r + 1)) = set_depth_loop k w r as (to_short (D r + 1))"
        using False ct l by (simp add: buf_simps)
      ultimately show ?thesis using Cons.IH [OF Cons.prems(1)] Cons.prems(2) by simp
    qed
  qed
  have rl: "r < length (regions (seg w))" using D(4) D(5) [OF Suc.prems(1)] tree_worldD(1) [OF Suc.prems(3)] by simp
  let ?w = "put w (Reg r) ((reg (seg w) r)\<lparr>depth := D r\<rparr>)"
  have w1: "tree_world s g ?w" by (rule tree_world_depth [OF same_but_depth_put Suc.prems(3) D(4)])
  have s1: "depths_set D {r} {r} w ?w"
    using same_but_depth_put rl by (auto simp: depths_set_def nth_list_update simp del: put.simps)
  have adj: "mset (adjacent_regions (reg (seg w) r)) = mset (adj0 s r)"
    using tree_worldD(2) [OF Suc.prems(3) D(5) [OF Suc.prems(1)]] .
  have run: "set_depth_rec (Suc k) w r (D r) = (if length (adj0 s r) \<noteq> 1
      then set_depth_loop k ?w r (adjacent_regions (reg (seg w) r)) (to_short (D r + 1)) else Some ?w)"
    using rl arg_cong [OF adj, of size] by (simp add: buf_simps adjacent_region_count_def del: put.simps)
  have kids: "{a \<in> set (adjacent_regions (reg (seg w) r)). parent_of g a = Some r} = set (kids s g r)"
    using mset_eq_setD [OF adj] by (auto simp: children_def)
  have und: "under g r = {r} \<union> (\<Union>a \<in> set (kids s g r). under g a)" (is "_ = ?U")
  proof
    show "under g r \<subseteq> ?U" using under_split [of _ g r] kids_facts(4) [OF t Suc.prems(1)] by blast
    show "?U \<subseteq> under g r"
      using under_trans [of _ g _ r] under_child [OF under_root, of g _ r] kids_facts(3) [OF t Suc.prems(1)] under_root by blast
  qed
  show ?case
  proof (cases "length (adj0 s r) = 1")
    case True
    then have "kids s g r = []" using Suc.prems(2) by (simp add: proper_def)
    then have "under g r = {r}" using und by simp
    then show ?thesis using run s1 True by simp
  next
    case False
    obtain w2 where w2: "set_depth_loop k ?w r (adjacent_regions (reg (seg w) r)) (to_short (D r + 1)) = Some w2"
        "depths_set D (under g r) (\<Union>a \<in> set (kids s g r). under g a) ?w w2"
      using loop [OF w1, of "adjacent_regions (reg (seg w) r)"] mset_eq_setD [OF adj] unfolding kids by auto
    have "{r} \<union> under g r = under g r" using under_root by blast
    then have "depths_set D (under g r) (under g r) w w2"
      using depths_set_trans [OF s1 w2(2)] und by simp
    then show ?thesis using run False w2(1) by simp
  qed
qed

text \<open>The distance from the root is a numbering.\<close>

definition distance :: "course \<Rightarrow> nat \<Rightarrow> nat \<Rightarrow> int" where
  "distance g r i = int (LEAST n. ((\<lambda>x. Option.bind x (parent_of g)) ^^ n) (Some i) = Some r)"

lemma numbering_distance:
  assumes t: "traversed s g" and r: "r \<in> set (order g)"
  shows "numbering g (distance g r) r" "distance g r r = 0"
proof -
  let ?up = "\<lambda>n i. ((\<lambda>x. Option.bind x (parent_of g)) ^^ n) (Some i)"
  have up: "\<exists>n. ?up n i = Some r" if "i \<in> under g r" for i
    using that
  proof (induction rule: under.induct)
    case under_root
    then show ?case by (intro exI [of _ 0]) simp
  next
    case (under_child y a)
    then obtain n where "?up n y = Some r" by blast
    then have "?up (Suc n) a = Some r" using under_child(2) by (simp add: funpow_Suc_right del: funpow.simps(2))
    then show ?case by blast
  qed
  show z: "distance g r r = 0" by (simp add: distance_def Least_eq_0)
  have "distance g r a = distance g r y + 1" if y: "y \<in> under g r" "parent_of g a = Some y" for y a
  proof -
    have yo: "y \<in> set (order g)" using under_visited(1) [OF t r y(1)] .
    have "a \<noteq> r" using under_visited(2) [OF t r y(1)] kids_facts(5) [OF t yo y(2)] by auto
    moreover obtain n where "?up n a = Some r" using up under_child [OF y] by blast
    ultimately have "(LEAST n. ?up n a = Some r) = Suc (LEAST n. ?up (Suc n) a = Some r)"
      using Least_Suc [of "\<lambda>n. ?up n a = Some r" n] by simp
    then show ?thesis using y(2) by (simp add: distance_def funpow_Suc_right del: funpow.simps(2))
  qed
  then show "numbering g (distance g r) r"
    using z traversedD(3) [OF t] traversedD(6) [OF t r] by (auto simp: numbering_def)
qed

end
