(* ===== verification/LeftHeavy.thy ===== *)
theory LeftHeavy
  imports TreeTraversal FidtrackTree
begin

text \<open>
  The left heavy depth string of a tree, as a function of the tree, and its purpose: two
  trees have the same string exactly when they are equal up to the order of subtrees.
\<close>

fun left_heavy :: "nat \<Rightarrow> tree \<Rightarrow> string" where
  "left_heavy d (Tree ts) = depth_char (int d) # concat (rev (sort (map (left_heavy (Suc d)) ts)))"

text \<open>Trees up to the order of subtrees.\<close>

inductive same_shape :: "tree \<Rightarrow> tree \<Rightarrow> bool" where
  same_shape_Tree: "list_all2 same_shape ts us' \<Longrightarrow> mset us' = mset us \<Longrightarrow> same_shape (Tree ts) (Tree us)"

inductive_cases same_shape_cases: "same_shape (Tree ts) (Tree us)"

subsection \<open>Characters\<close>

lemma of_char_depth: "d \<le> 207 \<Longrightarrow> of_char (depth_char (int d)) = (48 + d :: nat)"
  by (simp add: depth_char_def flip: of_nat_add)

lemma depth_char_inj: "d \<le> 207 \<Longrightarrow> e \<le> 207 \<Longrightarrow> depth_char (int d) = depth_char (int e) \<longleftrightarrow> d = e"
  using of_char_depth by (metis add_left_cancel)

lemma depth_char_NUL: "d \<le> 207 \<Longrightarrow> depth_char (int d) \<noteq> NUL"
  using of_char_depth [of d] by (auto simp: NUL_def)

lemma set_concat_rev_sort: "set (concat (rev (sort xs))) = (\<Union>x \<in> set xs. set x)"
  by simp

lemma tree_height_child: "t \<in> set ts \<Longrightarrow> tree_height t < tree_height (Tree ts)"
proof -
  assume "t \<in> set ts"
  then have "Suc (tree_height t) \<le> fold max (map (\<lambda>t. Suc (tree_height t)) ts) 0"
    using fold_max_le [of "map (\<lambda>t. Suc (tree_height t)) ts" 0 "fold max (map (\<lambda>t. Suc (tree_height t)) ts) 0"] by simp
  then show ?thesis by simp
qed

lemma left_heavy_chars:
  "c \<in> set (left_heavy d t) \<Longrightarrow> \<exists>e. d \<le> e \<and> e \<le> d + tree_height t \<and> c = depth_char (int e)"
proof (induction d t arbitrary: c rule: left_heavy.induct)
  case (1 d ts)
  then consider "c = depth_char (int d)" | t where "t \<in> set ts" "c \<in> set (left_heavy (Suc d) t)" by auto
  then show ?case
  proof cases
    case 1
    then show ?thesis by auto
  next
    case 2
    then show ?thesis using "1.IH" [OF 2] tree_height_child [OF 2(1)] by (auto dest!: Suc_leD)
  qed
qed

lemma left_heavy_NUL: "d + tree_height t \<le> 207 \<Longrightarrow> NUL \<notin> set (left_heavy d t)"
  using left_heavy_chars [of NUL d t] depth_char_NUL by (metis le_trans)

lemma length_left_heavy [simp]: "length (left_heavy d t) = nodes t"
proof (induction d t rule: left_heavy.induct)
  case (1 d ts)
  have "length (concat (rev (sort (map (left_heavy (Suc d)) ts)))) = sum_mset (image_mset length (mset (map (left_heavy (Suc d)) ts)))"
    by (metis length_concat mset_map mset_rev mset_sort sum_mset_sum_list)
  also have "\<dots> = sum_list (map (\<lambda>t. length (left_heavy (Suc d) t)) ts)"
    by (simp add: image_mset.compositionality comp_def flip: sum_mset_sum_list)
  also have "\<dots> = sum_list (map nodes ts)" using 1 by (simp cong: map_cong)
  finally show ?case by simp
qed

lemma left_heavy_hd:
  assumes "d + tree_height t \<le> 207"
  obtains x where "left_heavy d t = depth_char (int d) # x" "depth_char (int d) \<notin> set x"
proof -
  obtain ts where t: "t = Tree ts" by (cases t)
  let ?x = "concat (rev (sort (map (left_heavy (Suc d)) ts)))"
  have "depth_char (int d) \<notin> set ?x"
  proof
    assume "depth_char (int d) \<in> set ?x"
    then obtain u where u: "u \<in> set ts" "depth_char (int d) \<in> set (left_heavy (Suc d) u)" by auto
    then obtain e where e: "Suc d \<le> e" "e \<le> Suc d + tree_height u" "depth_char (int d) = depth_char (int e)"
      using left_heavy_chars by blast
    moreover have "e \<le> 207" using e(2) assms tree_height_child [OF u(1)] by (simp add: t)
    ultimately show False using depth_char_inj [of d e] assms by simp
  qed
  then show ?thesis using that [of ?x] by (simp add: t)
qed

subsection \<open>Equal strings\<close>

lemma concat_blocks:
  assumes "\<forall>x \<in> set xs. \<exists>y. x = c # y \<and> c \<notin> set y" "\<forall>x \<in> set zs. \<exists>y. x = c # y \<and> c \<notin> set y" "concat xs = concat zs"
  shows "xs = zs"
  using assms
proof (induction xs arbitrary: zs)
  case Nil
  then show ?case by (cases zs) auto
next
  case (Cons x xs)
  obtain z zs' where zs: "zs = z # zs'" using Cons.prems by (cases zs) auto
  obtain y v where x: "x = c # y" "c \<notin> set y" "z = c # v" "c \<notin> set v" using Cons.prems(1,2) zs by auto
  have tl: "takeWhile (\<lambda>a. a \<noteq> c) (y @ concat as) = y"
    if "\<forall>x \<in> set as. \<exists>y. x = c # y \<and> c \<notin> set y" "c \<notin> set y" for as y
  proof -
    have "takeWhile (\<lambda>a. a \<noteq> c) (y @ zs) = y @ takeWhile (\<lambda>a. a \<noteq> c) zs" for zs
      using that(2) by (intro takeWhile_append2) auto
    moreover have "takeWhile (\<lambda>a. a \<noteq> c) (concat as) = []" using that(1) by (cases as) auto
    ultimately show ?thesis by simp
  qed
  have e: "y @ concat xs = v @ concat zs'" using Cons.prems(3) x zs by simp
  then have "y = v" using tl [of xs y] tl [of zs' v] Cons.prems(1,2) x zs by auto
  then show ?case using Cons.IH [of zs'] Cons.prems(1,2) e x zs by auto
qed

lemma mset_map_arrange:
  "mset xs = mset (map f us) \<Longrightarrow> \<exists>us'. mset us' = mset us \<and> map f us' = xs"
proof (induction xs arbitrary: us)
  case (Cons x xs)
  then have "x \<in> set (map f us)" by (metis list.set_intros(1) set_mset_mset)
  then obtain u where u: "u \<in> set us" "x = f u" by auto
  define M where "M = mset (remove1 u us)"
  have m: "M = mset (remove1 u us)" "mset us = add_mset u M" using u(1) by (simp_all add: M_def)
  have "mset xs = image_mset f M" using Cons.prems m(2) u(2) by simp
  then have "mset xs = mset (map f (remove1 u us))" using m(1) by (simp only: mset_map)
  then obtain us' where "mset us' = M" "map f us' = xs" using Cons.IH m(1) by metis
  then show ?case using u m(2) by (intro exI [of _ "u # us'"]) simp
qed simp

lemma sort_mset: "mset xs = mset ys \<Longrightarrow> sort xs = sort ys"
  by (rule properties_for_sort) simp_all

lemma left_heavy_same: "same_shape t u \<Longrightarrow> left_heavy d t = left_heavy d u"
proof (induction arbitrary: d rule: same_shape.induct)
  case (same_shape_Tree ts us' us)
  have "map (left_heavy (Suc d)) ts = map (left_heavy (Suc d)) us'"
    using same_shape_Tree(1) by (auto simp: list_all2_conv_all_nth intro!: nth_equalityI)
  then have "mset (map (left_heavy (Suc d)) ts) = mset (map (left_heavy (Suc d)) us)" using same_shape_Tree(2) by simp
  from sort_mset [OF this] show ?case by simp
qed

lemma left_heavy_determines:
  "left_heavy d t = left_heavy d u \<Longrightarrow> d + tree_height t \<le> 207 \<Longrightarrow> d + tree_height u \<le> 207 \<Longrightarrow> same_shape t u"
proof (induction d t arbitrary: u rule: left_heavy.induct)
  case (1 d ts)
  obtain us where u: "u = Tree us" by (cases u)
  let ?f = "left_heavy (Suc d)"
  have block: "\<exists>y. x = depth_char (int (Suc d)) # y \<and> depth_char (int (Suc d)) \<notin> set y"
    if xv: "x \<in> set (rev (sort (map ?f vs)))" "d + tree_height (Tree vs) \<le> 207" for x vs
  proof -
    obtain v where v: "v \<in> set vs" "x = ?f v" using xv(1) by auto
    have "Suc d + tree_height v \<le> 207" using tree_height_child [OF v(1)] xv(2) by simp
    then show ?thesis using left_heavy_hd [of "Suc d" v] v(2) by metis
  qed
  have "rev (sort (map ?f ts)) = rev (sort (map ?f us))"
    by (rule concat_blocks [of _ "depth_char (int (Suc d))"])
      (use "1.prems" block u in \<open>simp_all del: tree_height.simps set_rev set_sort\<close>)
  then have "mset (map ?f ts) = mset (map ?f us)" by (metis mset_sort rev_rev_ident)
  then obtain us' where us': "mset us' = mset us" "map ?f us' = map ?f ts" using mset_map_arrange by blast
  have "list_all2 same_shape ts us'"
    unfolding list_all2_conv_all_nth
  proof (intro conjI allI impI)
    show l: "length ts = length us'" using us'(2) map_eq_imp_length_eq by metis
    fix i assume i: "i < length ts"
    have m: "ts ! i \<in> set ts" "us' ! i \<in> set us" using i l mset_eq_setD [OF us'(1)] nth_mem by metis+
    have "?f (ts ! i) = ?f (us' ! i)" using us'(2) i l by (metis nth_map)
    moreover have "Suc d + tree_height (ts ! i) \<le> 207" using tree_height_child [OF m(1)] "1.prems"(2) by linarith
    moreover have "Suc d + tree_height (us' ! i) \<le> 207" using tree_height_child [OF m(2)] "1.prems"(3) unfolding u by linarith
    ultimately show "same_shape (ts ! i) (us' ! i)" by (rule "1.IH" [OF m(1)])
  qed
  then show ?case using us'(1) u by (auto intro: same_shape_Tree)
qed

end
