(* ===== verification/FidtrackString.thy ===== *)
theory FidtrackString
  imports FidtrackDepth LeftHeavy
begin

text \<open>
  \<open>build_left_heavy_depth_string\<close> writes the left heavy depth string of the tree of
  regions, for every \<open>qsort\<close> that sorts.
\<close>

subsection \<open>Strings in memory\<close>

definition str_at :: "char list \<Rightarrow> int \<Rightarrow> string \<Rightarrow> bool" where
  "str_at mem q x \<longleftrightarrow> 0 \<le> q \<and> NUL \<notin> set x \<and> (\<exists>rest. drop (nat q) mem = x @ NUL # rest)"

lemma str_at_c_string: "str_at mem q x \<Longrightarrow> c_string mem q = Some x"
  by (auto simp: str_at_def c_string_def takeWhile_append)

lemma str_at_iff:
  "str_at mem q x \<longleftrightarrow> 0 \<le> q \<and> NUL \<notin> set x \<and> nat q + length x < length mem \<and>
     (\<forall>j < length x. mem ! (nat q + j) = x ! j) \<and> mem ! (nat q + length x) = NUL"
proof
  assume *: "str_at mem q x"
  then obtain rest where d: "drop (nat q) mem = x @ NUL # rest" by (auto simp: str_at_def)
  have "length mem - nat q = Suc (length x + length rest)" using arg_cong [OF d, of length] by simp
  then have l: "nat q + length x < length mem" by linarith
  have "mem ! (nat q + j) = (x @ NUL # rest) ! j" if "j \<le> length x" for j
    using that l by (simp flip: d)
  then show "0 \<le> q \<and> NUL \<notin> set x \<and> nat q + length x < length mem \<and>
     (\<forall>j < length x. mem ! (nat q + j) = x ! j) \<and> mem ! (nat q + length x) = NUL"
    using * l by (auto simp: str_at_def nth_append)
next
  assume *: "0 \<le> q \<and> NUL \<notin> set x \<and> nat q + length x < length mem \<and>
     (\<forall>j < length x. mem ! (nat q + j) = x ! j) \<and> mem ! (nat q + length x) = NUL"
  have "take (length x) (drop (nat q) mem) = x" by (rule nth_equalityI) (use * in auto)
  moreover have "drop (length x) (drop (nat q) mem) = NUL # drop (Suc (nat q + length x)) mem"
    using * Cons_nth_drop_Suc [of "nat q + length x" mem] by (simp add: add.commute)
  ultimately show "str_at mem q x" using * unfolding str_at_def by (metis append_take_drop_id)
qed

lemma str_at_frame:
  assumes "str_at mem q x" "length mem' = length mem"
    and "\<And>j. q \<le> int j \<Longrightarrow> int j \<le> q + int (length x) \<Longrightarrow> mem' ! j = mem ! j"
  shows "str_at mem' q x"
  using assms unfolding str_at_iff by (auto simp: le_nat_iff)

text \<open>Writing a string without its end.\<close>

definition blit :: "char list \<Rightarrow> int \<Rightarrow> string \<Rightarrow> char list" where
  "blit mem p x = take (nat p) mem @ x @ drop (nat p + length x) mem"

lemma blit_facts:
  assumes "0 \<le> p" "p + int (length x) \<le> ilength mem"
  shows "length (blit mem p x) = length mem"
    "j < length mem \<Longrightarrow> blit mem p x ! j = (if int j < p \<or> p + int (length x) \<le> int j then mem ! j else x ! (j - nat p))"
proof -
  have l: "nat p + length x \<le> length mem" using assms by linarith
  then show "length (blit mem p x) = length mem" by (simp add: blit_def)
  show "j < length mem \<Longrightarrow> blit mem p x ! j = (if int j < p \<or> p + int (length x) \<le> int j then mem ! j else x ! (j - nat p))"
    using assms(1) l by (auto simp: blit_def nth_append nat_less_iff not_less le_nat_iff min_def nat_le_iff)
qed

lemma blit_Nil [simp]: "blit mem p [] = mem"
  by (simp add: blit_def)

lemma blit_append:
  assumes "0 \<le> p" "p + int (length x) + int (length y) \<le> ilength mem"
  shows "blit (blit mem p x) (p + int (length x)) y = blit mem p (x @ y)"
proof -
  have l: "nat p + length x \<le> length mem" "nat (p + int (length x)) = nat p + length x" using assms by linarith+
  then show ?thesis by (simp add: blit_def add.commute add.left_commute)
qed

lemma blit_single:
  assumes "0 \<le> p" "p < ilength mem"
  shows "mem[nat p := c] = blit mem p [c]"
  using assms by (simp add: blit_def upd_conv_take_nth_drop nat_less_iff)

lemma copy_string_ok:
  assumes "str_at mem q x" "0 \<le> p" "p + int (length x) \<le> q" "length x < k"
  shows "copy_string k mem p q = Some (blit mem p x, p + int (length x))"
  using assms
proof (induction x arbitrary: k mem p q)
  case Nil
  then obtain k' where "k = Suc k'" by (cases k) auto
  moreover have "rd mem q = Some NUL" using Nil by (auto simp: str_at_iff rd_Some_iff)
  ultimately show ?case by simp
next
  case (Cons c x)
  then obtain k' where k: "k = Suc k'" by (cases k) auto
  note S = Cons.prems(1) [unfolded str_at_iff]
  have q: "0 \<le> q" "q < ilength mem" "mem ! nat q = c" "c \<noteq> NUL" "p < ilength mem"
    using S Cons.prems(3) by auto
  let ?mem = "mem[nat p := c]"
  have "str_at ?mem (q + 1) x"
    unfolding str_at_iff
  proof (intro conjI allI impI)
    have n: "nat (q + 1) = Suc (nat q)" using q(1) by simp
    have ne: "nat p \<noteq> Suc (nat q) + j" for j using Cons.prems(2,3) q(1) by (auto simp: nat_le_iff)
    show "?mem ! (nat (q + 1) + j) = x ! j" if "j < length x" for j
      unfolding n using S that ne [of j] by (auto dest!: spec [of _ "Suc j"])
    show "?mem ! (nat (q + 1) + length x) = NUL" unfolding n using S ne [of "length x"] by simp
    show "nat (q + 1) + length x < length ?mem" unfolding n using S by simp
  qed (use S in auto)
  then have "copy_string k' ?mem (p + 1) (q + 1) = Some (blit ?mem (p + 1) x, p + 1 + int (length x))"
    using Cons.prems(2-4) k by (intro Cons.IH) auto
  moreover have "blit ?mem (p + 1) x = blit mem p (c # x)"
    using blit_append [of p "[c]" x mem] Cons.prems(2,3) S q by (simp add: blit_single)
  ultimately show ?case using k q Cons.prems(2) by (simp add: buf_simps add.commute add.left_commute)
qed

subsection \<open>Sorting\<close>

text \<open>What \<open>qsort\<close> requires of the comparison and what it promises.\<close>

definition consistent_on :: "nat set \<Rightarrow> (nat \<Rightarrow> nat \<Rightarrow> int) \<Rightarrow> bool" where
  "consistent_on A cmp \<longleftrightarrow> (\<forall>a \<in> A. \<forall>b \<in> A. sgn (cmp a b) = - sgn (cmp b a)) \<and>
     (\<forall>a \<in> A. \<forall>b \<in> A. \<forall>c \<in> A. cmp a b \<le> 0 \<longrightarrow> cmp b c \<le> 0 \<longrightarrow> cmp a c \<le> 0)"

definition sorts :: "qsort_fun \<Rightarrow> bool" where
  "sorts qsort \<longleftrightarrow> (\<forall>cmp xs. consistent_on (set xs) cmp \<longrightarrow>
     mset (qsort cmp xs) = mset xs \<and> sorted_wrt (\<lambda>a b. cmp a b \<le> 0) (qsort cmp xs))"

text \<open>A function with this contract.\<close>

fun insert_by :: "(nat \<Rightarrow> nat \<Rightarrow> int) \<Rightarrow> nat \<Rightarrow> nat list \<Rightarrow> nat list" where
  "insert_by cmp x [] = [x]"
| "insert_by cmp x (y # ys) = (if cmp x y \<le> 0 then x # y # ys else y # insert_by cmp x ys)"

definition insertion_sort :: qsort_fun where
  "insertion_sort cmp xs = foldr (insert_by cmp) xs []"

lemma mset_insert_by [simp]: "mset (insert_by cmp x ys) = add_mset x (mset ys)"
  by (induction ys) auto

lemma set_insert_by [simp]: "set (insert_by cmp x ys) = insert x (set ys)"
  by (induction ys) auto

lemma sorted_insert_by:
  assumes "consistent_on A cmp" "insert x (set ys) \<subseteq> A" "sorted_wrt (\<lambda>a b. cmp a b \<le> 0) ys"
  shows "sorted_wrt (\<lambda>a b. cmp a b \<le> 0) (insert_by cmp x ys)"
  using assms(2,3)
proof (induction ys)
  case (Cons y ys)
  have yx: "cmp y x \<le> 0" if "\<not> cmp x y \<le> 0"
  proof -
    have "x \<in> A" "y \<in> A" using Cons.prems by auto
    then have "sgn (cmp x y) = - sgn (cmp y x)" using assms(1) unfolding consistent_on_def by blast
    then show ?thesis using that by (auto simp: sgn_if split: if_splits)
  qed
  have tr: "cmp x z \<le> 0" if "cmp x y \<le> 0" "z \<in> set ys" for z
  proof -
    have "cmp y z \<le> 0" "x \<in> A" "y \<in> A" "z \<in> A" using Cons.prems that(2) by auto
    then show ?thesis using assms(1) that(1) unfolding consistent_on_def by blast
  qed
  show ?case using Cons yx tr by auto
qed simp

lemma insertion_sort_sorts: "sorts insertion_sort"
  unfolding sorts_def
proof (intro allI impI)
  fix cmp and xs :: "nat list"
  assume c: "consistent_on (set xs) cmp"
  have "mset (foldr (insert_by cmp) ys []) = mset ys \<and> sorted_wrt (\<lambda>a b. cmp a b \<le> 0) (foldr (insert_by cmp) ys [])"
    if "set ys \<subseteq> set xs" for ys
    using that
  proof (induction ys)
    case (Cons y ys)
    then have ih: "mset (foldr (insert_by cmp) ys []) = mset ys" "sorted_wrt (\<lambda>a b. cmp a b \<le> 0) (foldr (insert_by cmp) ys [])"
      by simp_all
    have "insert y (set (foldr (insert_by cmp) ys [])) \<subseteq> set xs" using mset_eq_setD [OF ih(1)] Cons.prems by simp
    from sorted_insert_by [OF c this ih(2)] show ?case using ih(1) by simp
  qed simp
  then show "mset (insertion_sort cmp xs) = mset xs \<and> sorted_wrt (\<lambda>a b. cmp a b \<le> 0) (insertion_sort cmp xs)"
    by (simp add: insertion_sort_def)
qed

lemma depth_string_cmp_consistent: "consistent_on A (depth_string_cmp ft w)"
  unfolding consistent_on_def
proof (intro conjI ballI impI)
  fix a b c
  show "sgn (depth_string_cmp ft w a b) = - sgn (depth_string_cmp ft w b a)"
    by (auto simp: depth_string_cmp_def strcmp_def split: option.splits)
  show "depth_string_cmp ft w a b \<le> 0 \<Longrightarrow> depth_string_cmp ft w b c \<le> 0 \<Longrightarrow> depth_string_cmp ft w a c \<le> 0"
    by (auto simp: depth_string_cmp_def strcmp_def split: option.splits if_splits)
qed

text \<open>The regions with a string come in the order of descending strings.\<close>

lemma sorted_strings:
  assumes "sorts qsort" and "\<And>a. a \<in> set l \<Longrightarrow> string_of_region ft w a = (if P a then Some (S a) else None)"
  shows "map S (filter P (qsort (depth_string_cmp ft w) l)) = rev (sort (map S (filter P l)))"
    "mset (qsort (depth_string_cmp ft w) l) = mset l"
proof -
  let ?q = "qsort (depth_string_cmp ft w) l"
  have q: "mset ?q = mset l" "sorted_wrt (\<lambda>a b. depth_string_cmp ft w a b \<le> 0) ?q"
    using assms(1) depth_string_cmp_consistent unfolding sorts_def by blast+
  then show "mset ?q = mset l" by simp
  have set: "set ?q = set l" using mset_eq_setD [OF q(1)] .
  have "sorted_wrt (\<lambda>a b. depth_string_cmp ft w a b \<le> 0) (filter P ?q)" using q(2) by (rule sorted_wrt_filter)
  then have "sorted_wrt (\<lambda>a b. S b \<le> S a) (filter P ?q)"
  proof (rule sorted_wrt_mono_rel [rotated])
    fix a b assume "a \<in> set (filter P ?q)" "b \<in> set (filter P ?q)" "depth_string_cmp ft w a b \<le> 0"
    then show "S b \<le> S a" using assms(2) set by (auto simp: depth_string_cmp_def strcmp_def split: if_splits)
  qed
  then have "sorted (rev (map S (filter P ?q)))" by (simp add: sorted_wrt_map sorted_wrt_rev)
  moreover have "mset (rev (map S (filter P ?q))) = mset (map S (filter P l))"
    using q(1) by (metis mset_filter mset_map mset_rev)
  ultimately have "rev (map S (filter P ?q)) = sort (map S (filter P l))" by (metis properties_for_sort)
  then show "map S (filter P ?q) = rev (sort (map S (filter P l)))" by (metis rev_rev_ident)
qed

end
