(* ===== verification/FidtrackBuild.thy ===== *)
theory FidtrackBuild
  imports FidtrackString
begin

text \<open>
  The walk of \<open>build_left_heavy_depth_string\<close>: every call writes the string of its tree into
  the next free slot of \<open>depth_strings\<close>, uses one slot per region below it, and leaves the
  strings of the slots before alone.
\<close>

subsection \<open>Frames\<close>

text \<open>The adjacency lists were permuted, and only the regions of \<open>U\<close> have another string.\<close>

definition walked :: "nat set \<Rightarrow> World \<Rightarrow> World \<Rightarrow> bool" where
  "walked U w w' \<longleftrightarrow> heads w' = heads w \<and> length (regions (seg w')) = length (regions (seg w)) \<and>
     (\<forall>i < length (regions (seg w)). \<exists>as ds. mset as = mset (adjacent_regions (reg (seg w) i)) \<and>
        reg (seg w') i = (reg (seg w) i)\<lparr>adjacent_regions := as, depth_string := ds\<rparr> \<and>
        (i \<notin> U \<longrightarrow> ds = depth_string (reg (seg w) i)))"

lemma region_same: "\<exists>as ds. mset as = mset (adjacent_regions x) \<and>
    x = x\<lparr>adjacent_regions := as, depth_string := ds\<rparr> \<and> (P \<longrightarrow> ds = depth_string x)" for x :: Region
  by (rule exI [of _ "adjacent_regions x"], rule exI [of _ "depth_string x"]) simp

lemma walked_refl [simp]: "walked U w w"
  using region_same by (simp add: walked_def)

lemma walkedD:
  assumes "walked U w w'" "i < length (regions (seg w))"
  shows "mset (adjacent_regions (reg (seg w') i)) = mset (adjacent_regions (reg (seg w) i))"
    "level (reg (seg w') i) = level (reg (seg w) i)" "descendent_count (reg (seg w') i) = descendent_count (reg (seg w) i)"
    "depth (reg (seg w') i) = depth (reg (seg w) i)"
    "i \<notin> U \<Longrightarrow> depth_string (reg (seg w') i) = depth_string (reg (seg w) i)"
    "reg (seg w') i = (reg (seg w) i)\<lparr>adjacent_regions := adjacent_regions (reg (seg w') i), depth_string := depth_string (reg (seg w') i)\<rparr>"
proof -
  obtain as ds where *: "mset as = mset (adjacent_regions (reg (seg w) i))"
      "reg (seg w') i = (reg (seg w) i)\<lparr>adjacent_regions := as, depth_string := ds\<rparr>" "i \<notin> U \<longrightarrow> ds = depth_string (reg (seg w) i)"
    using assms unfolding walked_def by blast
  show "mset (adjacent_regions (reg (seg w') i)) = mset (adjacent_regions (reg (seg w) i))"
    "level (reg (seg w') i) = level (reg (seg w) i)" "descendent_count (reg (seg w') i) = descendent_count (reg (seg w) i)"
    "depth (reg (seg w') i) = depth (reg (seg w) i)"
    "i \<notin> U \<Longrightarrow> depth_string (reg (seg w') i) = depth_string (reg (seg w) i)"
    "reg (seg w') i = (reg (seg w) i)\<lparr>adjacent_regions := adjacent_regions (reg (seg w') i), depth_string := depth_string (reg (seg w') i)\<rparr>"
    unfolding *(2) using *(1,3) by simp_all
qed

lemma walked_mono: "walked U w w' \<Longrightarrow> U \<subseteq> V \<Longrightarrow> walked V w w'"
  unfolding walked_def by (meson subsetD)

lemma walked_trans:
  assumes "walked U w w'" "walked U w' w''"
  shows "walked U w w''"
  unfolding walked_def
proof (intro conjI allI impI)
  show "heads w'' = heads w" "length (regions (seg w'')) = length (regions (seg w))" using assms by (simp_all add: walked_def)
  fix i assume i: "i < length (regions (seg w))"
  then have i': "i < length (regions (seg w'))" using assms(1) by (simp add: walked_def)
  note a = walkedD [OF assms(1) i] and b = walkedD [OF assms(2) i']
  show "\<exists>as ds. mset as = mset (adjacent_regions (reg (seg w) i)) \<and>
        reg (seg w'') i = (reg (seg w) i)\<lparr>adjacent_regions := as, depth_string := ds\<rparr> \<and> (i \<notin> U \<longrightarrow> ds = depth_string (reg (seg w) i))"
  proof (intro exI conjI impI)
    show "reg (seg w'') i = (reg (seg w) i)\<lparr>adjacent_regions := adjacent_regions (reg (seg w'') i), depth_string := depth_string (reg (seg w'') i)\<rparr>"
      by (subst b(6), subst a(6)) simp
  qed (use a b in simp_all)
qed

lemma walked_put:
  assumes "mset as = mset (adjacent_regions (reg (seg w) r))" "r \<in> U \<or> ds = depth_string (reg (seg w) r)"
  shows "walked U w (put w (Reg r) ((reg (seg w) r)\<lparr>adjacent_regions := as, depth_string := ds\<rparr>))" (is "walked U w ?w")
  unfolding walked_def
proof (intro conjI allI impI)
  fix i assume "i < length (regions (seg w))"
  then show "\<exists>as ds. mset as = mset (adjacent_regions (reg (seg w) i)) \<and>
        reg (seg ?w) i = (reg (seg w) i)\<lparr>adjacent_regions := as, depth_string := ds\<rparr> \<and> (i \<notin> U \<longrightarrow> ds = depth_string (reg (seg w) i))"
  proof (cases "i = r")
    case True
    then show ?thesis using assms \<open>i < _\<close> by (intro exI [of _ as] exI [of _ ds]) auto
  next
    case False
    then show ?thesis using region_same by simp
  qed
qed simp_all

lemma walked_put_string:
  "r \<in> U \<Longrightarrow> walked U w (put w (Reg r) ((reg (seg w) r)\<lparr>depth_string := ds\<rparr>))"
  using walked_put [of "adjacent_regions (reg (seg w) r)" w r U ds] by (simp del: put.simps)

lemma walked_put_adjacent:
  "mset as = mset (adjacent_regions (reg (seg w) r)) \<Longrightarrow> walked U w (put w (Reg r) ((reg (seg w) r)\<lparr>adjacent_regions := as\<rparr>))"
  using walked_put [of as w r U "depth_string (reg (seg w) r)"] by (simp del: put.simps)

lemma tree_world_walked:
  assumes "walked U w w'" "tree_world s g w" "region_count s \<le> length (regions s)"
  shows "tree_world s g w'"
  unfolding tree_world_def
proof (intro conjI allI impI)
  have l: "length (regions (seg w)) = length (regions s)" using tree_worldD(1) [OF assms(2)] .
  then show "length (regions (seg w')) = length (regions s)" using assms(1) by (simp add: walked_def)
  fix i assume i: "i < region_count s"
  then have il: "i < length (regions (seg w))" using l assms(3) by simp
  note f = walkedD(1-3) [OF assms(1) il]
  show "mset (adj0 (seg w') i) = mset (adj0 s i)" "(level (reg (seg w') i) = TRAVERSED) = (i \<in> set (order g))"
    "descendent_count (reg (seg w') i) = (if i \<in> set (order g) then int (nodes (below g i)) - 1 else 32767)"
    unfolding f using tree_worldD [OF assms(2)] i by auto
qed

definition depths_hold :: "course \<Rightarrow> (nat \<Rightarrow> int) \<Rightarrow> nat \<Rightarrow> World \<Rightarrow> bool" where
  "depths_hold g D r w \<longleftrightarrow> (\<forall>i \<in> under g r. i < length (regions (seg w)) \<and> depth (reg (seg w) i) = D i)"

lemma depths_hold_walked: "walked U w w' \<Longrightarrow> depths_hold g D r w \<Longrightarrow> depths_hold g D r w'"
  unfolding depths_hold_def using walkedD(4) [of U w w'] by (auto simp: walked_def)

lemma depths_hold_child: "depths_hold g D r w \<Longrightarrow> parent_of g a = Some r \<Longrightarrow> depths_hold g D a w"
  using under_trans [of _ g a r] under_child [OF under_root, of g a r] by (auto simp: depths_hold_def)

text \<open>The buffer: \<open>m\<close> more slots are in use, the slots before are as they were.\<close>

definition built :: "FidtrackerX \<Rightarrow> FidtrackerX \<Rightarrow> nat \<Rightarrow> bool" where
  "built ft ft' m \<longleftrightarrow> (\<exists>mem. ft' = ft\<lparr>next_depth_string := next_depth_string ft + int m, depth_strings := mem\<rparr> \<and>
     length mem = length (depth_strings ft) \<and>
     (\<forall>j. int j < depth_string_length ft * next_depth_string ft \<longrightarrow> mem ! j = depth_strings ft ! j))"

lemma builtD:
  assumes "built ft ft' m"
  shows "next_depth_string ft' = next_depth_string ft + int m" "depth_string_length ft' = depth_string_length ft"
    "depth_string_count ft' = depth_string_count ft" "length (depth_strings ft') = length (depth_strings ft)"
    "int j < depth_string_length ft * next_depth_string ft \<Longrightarrow> depth_strings ft' ! j = depth_strings ft ! j"
    "ft' = ft\<lparr>next_depth_string := next_depth_string ft + int m, depth_strings := depth_strings ft'\<rparr>"
  using assms by (auto simp: built_def)

lemma built_trans:
  assumes "built ft ft' m" "built ft' ft'' m'" "0 < depth_string_length ft"
  shows "built ft ft'' (m + m')"
proof -
  note a = builtD [OF assms(1)] and b = builtD [OF assms(2)]
  have "depth_strings ft'' ! j = depth_strings ft ! j" if j: "int j < depth_string_length ft * next_depth_string ft" for j
  proof -
    have "depth_string_length ft * next_depth_string ft \<le> depth_string_length ft' * next_depth_string ft'"
      unfolding a(1,2) using assms(3) by (intro mult_left_mono) auto
    then show ?thesis using a(5) [OF j] b(5) [of j] j by simp
  qed
  moreover have "ft'' = ft\<lparr>next_depth_string := next_depth_string ft + int (m + m'), depth_strings := depth_strings ft''\<rparr>"
    by (subst b(6), subst a(6)) (simp add: a(1))
  ultimately show ?thesis using a(4) b(4) unfolding built_def by (intro exI [of _ "depth_strings ft''"]) simp
qed

text \<open>Room for \<open>m\<close> strings of at most \<open>k\<close> characters.\<close>

definition room :: "FidtrackerX \<Rightarrow> nat \<Rightarrow> nat \<Rightarrow> bool" where
  "room ft m k \<longleftrightarrow> 0 \<le> next_depth_string ft \<and> int k < depth_string_length ft \<and>
     ilength (depth_strings ft) = depth_string_count ft * depth_string_length ft \<and>
     next_depth_string ft + int m \<le> depth_string_count ft"

lemma room_mono: "room ft m k \<Longrightarrow> m' \<le> m \<Longrightarrow> k' \<le> k \<Longrightarrow> room ft m' k'"
  by (auto simp: room_def)

lemma room_built: "built ft ft' m \<Longrightarrow> room ft (m + m') k \<Longrightarrow> room ft' m' k"
  using builtD [of ft ft' m] by (auto simp: room_def)

lemma room_slot:
  assumes "room ft m k" "0 < m"
  shows "0 \<le> depth_string_length ft * next_depth_string ft"
    "depth_string_length ft * next_depth_string ft + depth_string_length ft \<le> ilength (depth_strings ft)"
proof -
  have "next_depth_string ft + 1 \<le> depth_string_count ft" "0 \<le> depth_string_length ft" using assms by (auto simp: room_def)
  then have "depth_string_length ft * (next_depth_string ft + 1) \<le> depth_string_length ft * depth_string_count ft"
    by (intro mult_left_mono)
  then show "depth_string_length ft * next_depth_string ft + depth_string_length ft \<le> ilength (depth_strings ft)"
    using assms(1) by (simp add: room_def algebra_simps)
  show "0 \<le> depth_string_length ft * next_depth_string ft" using assms(1) by (simp add: room_def)
qed

subsection \<open>The strings of the children\<close>

definition node_string :: "course \<Rightarrow> (nat \<Rightarrow> int) \<Rightarrow> nat \<Rightarrow> string" where
  "node_string g D a = left_heavy (nat (D a)) (below g a)"

lemma length_node_string [simp]: "length (node_string g D a) = nodes (below g a)"
  by (simp add: node_string_def)

lemma node_string_Tree:
  assumes "traversed s g" "r \<in> set (order g)" "numbering g D r"
  shows "node_string g D r = depth_char (D r) # concat (rev (sort (map (node_string g D) (kids s g r))))"
proof -
  have d: "0 \<le> D r" using assms(3) by (simp add: numbering_def)
  have "left_heavy (Suc (nat (D r))) (below g a) = node_string g D a" if "a \<in> set (kids s g r)" for a
  proof -
    have "D a = D r + 1" using kids_facts(3) [OF assms(1,2) that] assms(3) under_root by (simp add: numbering_def)
    then show ?thesis using d by (simp add: node_string_def nat_add_distrib)
  qed
  then have eq: "map (\<lambda>a. left_heavy (Suc (nat (D r))) (below g a)) (kids s g r) = map (node_string g D) (kids s g r)"
    by (intro map_cong) simp_all
  show ?thesis
    unfolding node_string_def [of g D r] kids_facts(1) [OF assms(1,2)] left_heavy.simps map_map comp_def eq using d by simp
qed

text \<open>The regions near \<open>r\<close>: those of its tree, and its parent.\<close>

definition near :: "course \<Rightarrow> nat \<Rightarrow> nat set" where
  "near g r = under g r \<union> {p. parent_of g r = Some p}"

lemma near_adjacent:
  assumes "traversed s g" "r \<in> set (order g)" "a \<in> set (adj0 s r)"
  shows "a \<in> near g r"
  using seg.neighbours_split [OF traversedD(1,2) [OF assms(1)] assms(2,3)] under_child [OF under_root, of g a r]
  by (auto simp: near_def)

lemma near_child: "parent_of g a = Some r \<Longrightarrow> near g a \<subseteq> near g r"
  using under_trans [of _ g a r] under_child [OF under_root, of g a r] under_root [of r g] by (auto simp: near_def)

lemma near_apart:
  assumes t: "traversed s g" and r: "r \<in> set (order g)" and a: "parent_of g a = Some r"
    and b: "b \<in> set (adj0 s r)" "b \<noteq> a"
  shows "b \<notin> near g a"
proof -
  have ao: "a \<in> set (order g)" using traversalD(4) [OF traversedD(2) [OF t] a] by simp
  have "b \<noteq> r" using adj_visited [OF t r b(1)] by simp
  moreover have "b \<notin> under g a"
  proof (cases "parent_of g b = Some r")
    case True
    then show ?thesis using under_disjoint [OF t r a True] b(2) under_root [of b g] by blast
  next
    case False
    then have p: "parent_of g r = Some b"
      using seg.neighbours_split [OF traversedD(1,2) [OF t] r b(1)] by blast
    show ?thesis
    proof
      assume u: "b \<in> under g a"
      then have "b \<in> set (order g)" "nodes (below g b) \<le> nodes (below g a)" using under_visited [OF t ao] by blast+
      then show False using kids_facts(5) [OF t _ p] kids_facts(5) [OF t r a] by simp
    qed
  qed
  ultimately show ?thesis using a by (auto simp: near_def)
qed

text \<open>What the first loop leaves at the regions \<open>as\<close>: a pointer to the string of every
  child into a slot from \<open>b\<close> on, and no pointer at the parent.\<close>

definition strings_at :: "course \<Rightarrow> (nat \<Rightarrow> int) \<Rightarrow> nat \<Rightarrow> int \<Rightarrow> nat set \<Rightarrow> FidtrackerX \<Rightarrow> World \<Rightarrow> bool" where
  "strings_at g D r b A ft w \<longleftrightarrow> (\<forall>a \<in> A. if parent_of g a = Some r
     then \<exists>q. depth_string (reg (seg w) a) = Some (nat q) \<and> b \<le> q \<and>
       q + depth_string_length ft \<le> depth_string_length ft * next_depth_string ft \<and>
       str_at (depth_strings ft) q (node_string g D a) \<and> int (nodes (below g a)) < depth_string_length ft
     else depth_string (reg (seg w) a) = None)"

lemma strings_at_frame:
  assumes "strings_at g D r b A ft w" "built ft ft' m" "0 < depth_string_length ft"
    and "\<And>a. a \<in> A \<Longrightarrow> depth_string (reg (seg w') a) = depth_string (reg (seg w) a)"
  shows "strings_at g D r b A ft' w'"
proof -
  note B = builtD [OF assms(2)]
  have le: "depth_string_length ft * next_depth_string ft \<le> depth_string_length ft' * next_depth_string ft'"
    unfolding B(1,2) using assms(3) by (intro mult_left_mono) auto
  have "str_at (depth_strings ft') q (node_string g D a)"
    if "str_at (depth_strings ft) q (node_string g D a)" "int (nodes (below g a)) < depth_string_length ft"
      "q + depth_string_length ft \<le> depth_string_length ft * next_depth_string ft" for q a
    by (rule str_at_frame [OF that(1) B(4)]) (use B(5) that(2,3) in simp)
  note str = this
  show ?thesis
    unfolding strings_at_def B(2)
  proof (intro ballI)
    fix a assume a: "a \<in> A"
    show "if parent_of g a = Some r then \<exists>q. depth_string (reg (seg w') a) = Some (nat q) \<and> b \<le> q \<and>
        q + depth_string_length ft \<le> depth_string_length ft * next_depth_string ft' \<and>
        str_at (depth_strings ft') q (node_string g D a) \<and> int (nodes (below g a)) < depth_string_length ft
      else depth_string (reg (seg w') a) = None"
    proof (cases "parent_of g a = Some r")
      case True
      then obtain q where q: "depth_string (reg (seg w) a) = Some (nat q)" "b \<le> q"
          "q + depth_string_length ft \<le> depth_string_length ft * next_depth_string ft"
          "str_at (depth_strings ft) q (node_string g D a)" "int (nodes (below g a)) < depth_string_length ft"
        using bspec [OF assms(1) [unfolded strings_at_def] a] unfolding if_P [OF True] by blast
      have "q + depth_string_length ft \<le> depth_string_length ft * next_depth_string ft'"
        using q(3) le B(2) by (metis order_trans)
      then show ?thesis using True str [OF q(4,5,3)] assms(4) [OF a] q by (auto intro!: exI [of _ q])
    qed (use assms(1,4) a in \<open>auto simp: strings_at_def\<close>)
  qed
qed

lemma strings_at_union:
  "strings_at g D r b (A \<union> B) ft w \<longleftrightarrow> strings_at g D r b A ft w \<and> strings_at g D r b B ft w"
  by (auto simp: strings_at_def)

subsection \<open>Appending the strings\<close>

lemma append_strings_ok:
  assumes "\<And>a. a \<in> set as \<Longrightarrow> a < length (regions (seg w)) \<and>
      (if P a then \<exists>q. depth_string (reg (seg w) a) = Some (nat q) \<and> base \<le> q \<and> str_at (depth_strings ft) q (S a)
       else depth_string (reg (seg w) a) = None)"
    and "distinct (filter P as)" "0 \<le> p" "p + int (length (concat (map S (filter P as)))) \<le> base"
    and "base \<le> ilength (depth_strings ft)"
  shows "\<exists>w'. append_strings ft w as p =
      Some (ft\<lparr>depth_strings := blit (depth_strings ft) p (concat (map S (filter P as)))\<rparr>, w',
        p + int (length (concat (map S (filter P as))))) \<and> walked (set as) w w'"
  using assms
proof (induction as arbitrary: ft w p)
  case Nil
  then show ?case by simp
next
  case (Cons a as)
  let ?mem = "depth_strings ft"
  have al: "a < length (regions (seg w))" using Cons.prems(1) [of a] by simp
  show ?case
  proof (cases "P a")
    case True
    obtain q where q: "depth_string (reg (seg w) a) = Some (nat q)" "base \<le> q" "str_at ?mem q (S a)"
      using Cons.prems(1) [of a] True by auto
    have q0: "0 \<le> q" using q(3) by (simp add: str_at_def)
    have pl: "p + int (length (S a)) \<le> base" using Cons.prems(4) True by simp
    have "length (S a) < Suc (length ?mem)" using q(3) by (simp add: str_at_iff)
    then have copy: "copy_string (Suc (length ?mem)) ?mem p q = Some (blit ?mem p (S a), p + int (length (S a)))"
      using copy_string_ok [OF q(3) Cons.prems(3), of "Suc (length ?mem)"] pl q(2) by (simp del: copy_string.simps)
    have fits: "p + int (length (S a)) \<le> ilength ?mem" using pl Cons.prems(5) by simp
    note B = blit_facts [OF Cons.prems(3) fits]
    let ?ft = "ft\<lparr>depth_strings := blit ?mem p (S a)\<rparr>"
    let ?w = "put w (Reg a) ((reg (seg w) a)\<lparr>depth_string := None\<rparr>)"
    have "\<exists>w'. append_strings ?ft ?w as (p + int (length (S a))) =
      Some (?ft\<lparr>depth_strings := blit (depth_strings ?ft) (p + int (length (S a))) (concat (map S (filter P as)))\<rparr>, w',
        p + int (length (S a)) + int (length (concat (map S (filter P as))))) \<and> walked (set as) ?w w'"
    proof (rule Cons.IH)
      fix b assume b: "b \<in> set as"
      have bl: "b < length (regions (seg w))" "P b \<Longrightarrow> b \<noteq> a" using Cons.prems(1) [of b] Cons.prems(2) b True by auto
      have frame: "str_at (blit ?mem p (S a)) q x" if "str_at ?mem q x" "base \<le> q" for q x
        by (rule str_at_frame [OF that(1) B(1)]) (use B(2) that pl in \<open>auto simp: str_at_iff\<close>)
      show "b < length (regions (seg ?w)) \<and>
          (if P b then \<exists>q. depth_string (reg (seg ?w) b) = Some (nat q) \<and> base \<le> q \<and> str_at (depth_strings ?ft) q (S b)
           else depth_string (reg (seg ?w) b) = None)"
        using Cons.prems(1) [of b] b bl al frame by (cases "P b") (auto simp: nth_list_update)
    qed (use Cons.prems True B(1) in auto)
    then obtain w' where w': "append_strings ?ft ?w as (p + int (length (S a))) =
        Some (ft\<lparr>depth_strings := blit ?mem p (concat (map S (filter P (a # as))))\<rparr>, w', p + int (length (concat (map S (filter P (a # as))))))"
        "walked (set as) ?w w'"
      using blit_append [OF Cons.prems(3), of "S a" "concat (map S (filter P as))" ?mem] Cons.prems(4,5) True
      by (auto simp: add.assoc)
    have "append_strings ft w (a # as) p = append_strings ?ft ?w as (p + int (length (S a)))"
      using al q(1) q0 copy by (simp add: buf_simps del: put.simps copy_string.simps)
    moreover have "walked (set (a # as)) w w'"
      by (rule walked_trans [OF walked_put_string walked_mono [OF w'(2)]]) auto
    ultimately show ?thesis using w'(1) by metis
  next
    case False
    then have "append_strings ft w (a # as) p = append_strings ft w as p"
      using Cons.prems(1) [of a] al by (simp add: buf_simps)
    moreover obtain w' where "append_strings ft w as p =
        Some (ft\<lparr>depth_strings := blit ?mem p (concat (map S (filter P as)))\<rparr>, w', p + int (length (concat (map S (filter P as)))))"
        "walked (set as) w w'"
      using Cons.IH [of w ft p] Cons.prems False by auto
    ultimately show ?thesis using False walked_mono [of "set as" w w' "set (a # as)"] by auto
  qed
qed

subsection \<open>The walk\<close>

text \<open>The result of a call for \<open>r\<close>.\<close>

definition wrote :: "qsort_fun \<Rightarrow> course \<Rightarrow> (nat \<Rightarrow> int) \<Rightarrow> nat \<Rightarrow> FidtrackerX \<Rightarrow> World \<Rightarrow> nat \<Rightarrow> bool" where
  "wrote qsort g D k ft w r \<longleftrightarrow> (\<exists>ft' w'.
     build_string_rec qsort k ft w r = Some (depth_string_length ft * next_depth_string ft, ft', w') \<and>
     built ft ft' (nodes (below g r)) \<and> walked (near g r) w w' \<and>
     str_at (depth_strings ft') (depth_string_length ft * next_depth_string ft) (node_string g D r))"

lemma sum_kids_Cons:
  "(\<Sum>a\<leftarrow>filter P (x # xs). f a) = (if P x then f x else (0 :: nat)) + (\<Sum>a\<leftarrow>filter P xs. f a)"
  by simp

lemma build_loop_ok:
  assumes t: "traversed s g" and r: "r \<in> set (order g)"
    and IH: "\<And>a w ft. parent_of g a = Some r \<Longrightarrow> tree_world s g w \<Longrightarrow> depths_hold g D a w \<Longrightarrow>
      room ft (nodes (below g a)) (nodes (below g a)) \<Longrightarrow> wrote qsort g D k ft w a"
    and "tree_world s g w" "depths_hold g D r w" "set (pre @ as) \<subseteq> set (adj0 s r)"
    and "distinct (filter (\<lambda>a. parent_of g a = Some r) (pre @ as))"
    and "room ft (\<Sum>a\<leftarrow>filter (\<lambda>a. parent_of g a = Some r) as. nodes (below g a)) (nodes (below g r))"
    and "strings_at g D r b (set pre) ft w" "b \<le> depth_string_length ft * next_depth_string ft"
  shows "\<exists>ft' w'. build_string_loop qsort k ft w r as = Some (ft', w') \<and>
    built ft ft' (\<Sum>a\<leftarrow>filter (\<lambda>a. parent_of g a = Some r) as. nodes (below g a)) \<and>
    walked (near g r) w w' \<and> strings_at g D r b (set (pre @ as)) ft' w'"
  using assms(4-)
proof (induction as arbitrary: pre ft w)
  case Nil
  have "built ft ft 0" unfolding built_def by (rule exI [of _ "depth_strings ft"]) simp
  then show ?case using Nil by simp
next
  case (Cons a as)
  let ?P = "\<lambda>a. parent_of g a = Some r" and ?L = "depth_string_length ft"
  note D = traversedD [OF t]
  have a: "a \<in> set (adj0 s r)" using Cons.prems(3) by simp
  have l: "a < length (regions (seg w))" "r < length (regions (seg w))"
    using adj_visited(1) [OF t r a] D(4) D(5) [OF r] tree_worldD(1) [OF Cons.prems(1)] by simp_all
  note ct = child_test(2) [OF t Cons.prems(1) r a]
  have L: "0 < ?L" using Cons.prems(5) by (simp add: room_def)
  show ?case
  proof (cases "?P a")
    case True
    have smaller: "nodes (below g a) < nodes (below g r)" by (rule kids_facts(5) [OF t r True])
    have "room ft (nodes (below g a)) (nodes (below g a))"
      by (rule room_mono [OF Cons.prems(5)]) (use True smaller in simp_all)
    from IH [OF True Cons.prems(1) depths_hold_child [OF Cons.prems(2) True] this]
    obtain ft1 w1 where w1: "build_string_rec qsort k ft w a = Some (?L * next_depth_string ft, ft1, w1)"
        "built ft ft1 (nodes (below g a))" "walked (near g a) w w1"
        "str_at (depth_strings ft1) (?L * next_depth_string ft) (node_string g D a)"
      unfolding wrote_def by blast
    note B = builtD [OF w1(2)]
    let ?w = "put w1 (Reg a) ((reg (seg w1) a)\<lparr>depth_string := Some (nat (?L * next_depth_string ft))\<rparr>)"
    have an: "a \<in> near g r" by (rule near_adjacent [OF t r a])
    have wk: "walked (near g r) w ?w"
      by (rule walked_trans [OF walked_mono [OF w1(3) near_child [OF True]] walked_put_string [OF an]])
    have a1: "a < length (regions (seg w1))" using w1(3) l(1) by (simp add: walked_def)
    have pre_a: "x \<noteq> a" if "x \<in> set pre" for x using that Cons.prems(4) True by auto
    have keep: "depth_string (reg (seg ?w) x) = depth_string (reg (seg w) x)" if x: "x \<in> set pre" for x
    proof -
      have xa: "x \<in> set (adj0 s r)" using Cons.prems(3) x by auto
      have "x < length (regions (seg w))" using adj_visited(1) [OF t r xa] D(4) tree_worldD(1) [OF Cons.prems(1)] by simp
      then show ?thesis
        using walkedD(5) [OF w1(3) _ near_apart [OF t r True xa pre_a [OF x]]] pre_a [OF x] by simp
    qed
    have "strings_at g D r b {a} ft1 ?w"
    proof -
      have "?L * next_depth_string ft + ?L \<le> depth_string_length ft1 * next_depth_string ft1"
      proof -
        have "?L * (next_depth_string ft + 1) \<le> ?L * next_depth_string ft1"
          unfolding B(1) using L nodes_pos [of "below g a"] by (intro mult_left_mono) (auto simp: Suc_le_eq simp del: nodes_pos)
        then show ?thesis using B(2) by (simp add: algebra_simps)
      qed
      then show ?thesis
        unfolding strings_at_def using True Cons.prems(5,7) smaller w1(4) a1 B(2)
        by (auto simp: room_def intro!: exI [of _ "?L * next_depth_string ft"])
    qed
    then have st: "strings_at g D r b (set (pre @ [a])) ft1 ?w"
      using strings_at_frame [OF Cons.prems(6) w1(2) L keep] strings_at_union [of g D r b "set pre" "{a}"] by simp
    have rm: "room ft1 (\<Sum>a\<leftarrow>filter ?P as. nodes (below g a)) (nodes (below g r))"
      by (rule room_built [OF w1(2)]) (use Cons.prems(5) True in simp)
    have "?L * next_depth_string ft \<le> depth_string_length ft1 * next_depth_string ft1"
      unfolding B(1,2) using L by (intro mult_left_mono) auto
    then have bl: "b \<le> depth_string_length ft1 * next_depth_string ft1" using Cons.prems(7) by simp
    obtain ft2 w2 where w2: "build_string_loop qsort k ft1 ?w r as = Some (ft2, w2)"
        "built ft1 ft2 (\<Sum>a\<leftarrow>filter ?P as. nodes (below g a))" "walked (near g r) ?w w2"
        "strings_at g D r b (set ((pre @ [a]) @ as)) ft2 w2"
      using Cons.IH [OF tree_world_walked [OF wk Cons.prems(1) D(4)] depths_hold_walked [OF wk Cons.prems(2)], of "pre @ [a]" ft1]
        Cons.prems(3,4) rm st bl by auto
    have "build_string_loop qsort k ft w r (a # as) = Some (ft2, w2)"
      using True ct l w1(1) w2(1) a1 by (simp add: buf_simps del: put.simps)
    then show ?thesis
      using built_trans [OF w1(2) w2(2) L] walked_trans [OF wk w2(3)] w2(4) True by (intro exI [of _ ft2] exI [of _ w2]) simp
  next
    case False
    let ?w = "put w (Reg a) ((reg (seg w) a)\<lparr>depth_string := None\<rparr>)"
    have wk: "walked (near g r) w ?w" by (rule walked_put_string [OF near_adjacent [OF t r a]])
    have st: "strings_at g D r b (set (pre @ [a])) ft ?w"
      using Cons.prems(6) False l(1) by (auto simp: strings_at_def nth_list_update)
    obtain ft2 w2 where w2: "build_string_loop qsort k ft ?w r as = Some (ft2, w2)"
        "built ft ft2 (\<Sum>a\<leftarrow>filter ?P as. nodes (below g a))" "walked (near g r) ?w w2"
        "strings_at g D r b (set ((pre @ [a]) @ as)) ft2 w2"
      using Cons.IH [OF tree_world_walked [OF wk Cons.prems(1) D(4)] depths_hold_walked [OF wk Cons.prems(2)], of "pre @ [a]" ft]
        Cons.prems(3,4,5,7) False st by auto
    have "build_string_loop qsort k ft w r (a # as) = Some (ft2, w2)"
      using False ct l w2(1) by (auto simp: buf_simps simp del: put.simps)
    then show ?thesis
      using w2(2,4) walked_trans [OF wk w2(3)] False by (intro exI [of _ ft2] exI [of _ w2]) simp
  qed
qed

text \<open>The memory after the end of the string was written.\<close>

lemma finished_string:
  assumes "0 \<le> p" "mem ! nat p = c" "p + 1 + int (length x) < ilength mem" "NUL \<notin> set (c # x)"
  shows "str_at ((blit mem (p + 1) x)[nat (p + 1 + int (length x)) := NUL]) p (c # x)"
    "int j < p \<Longrightarrow> (blit mem (p + 1) x)[nat (p + 1 + int (length x)) := NUL] ! j = mem ! j"
proof -
  have b: "0 \<le> p + 1" "p + 1 + int (length x) \<le> ilength mem" using assms by simp_all
  note B = blit_facts [OF b]
  let ?m = "(blit mem (p + 1) x)[nat (p + 1 + int (length x)) := NUL]"
  have n: "nat (p + 1 + int (length x)) = nat p + Suc (length x)" using assms(1) by simp
  have m: "?m ! j = (if j = nat p + Suc (length x) then NUL else if int j < p + 1 \<or> p + 1 + int (length x) \<le> int j then mem ! j else x ! (j - Suc (nat p)))"
    if "j < length mem" for j
  proof -
    have "nat (p + 1) = Suc (nat p)" using assms(1) by simp
    then show ?thesis using that B(1) B(2) [OF that] unfolding n by (simp add: nth_list_update)
  qed
  show "?m ! j = mem ! j" if "int j < p"
  proof -
    have "j < nat p" using that assms(1) by linarith
    then show ?thesis using m [of j] assms(3) that by simp
  qed
  have len: "nat p + Suc (length x) < length mem" using assms(1,3) by linarith
  show "str_at ?m p (c # x)"
    unfolding str_at_iff
  proof (intro conjI allI impI)
    fix j assume j: "j < length (c # x)"
    then show "?m ! (nat p + j) = (c # x) ! j" using m [of "nat p + j"] len assms(1,2) by (cases j) auto
  next
    show "?m ! (nat p + length (c # x)) = NUL" using m [of "nat p + length (c # x)"] len by simp
  qed (use assms B len in auto)
qed

lemma sum_list_mset: "mset xs = mset ys \<Longrightarrow> sum_list (map f xs) = sum_list (map (f :: _ \<Rightarrow> nat) ys)"
  by (metis mset_map sum_mset_sum_list)

lemma kids_of_permuted:
  assumes "traversed s g" "r \<in> set (order g)" "mset l = mset (adj0 s r)"
  shows "mset (filter (\<lambda>a. parent_of g a = Some r) l) = mset (kids s g r)"
    "distinct (filter (\<lambda>a. parent_of g a = Some r) l)"
proof -
  show m: "mset (filter (\<lambda>a. parent_of g a = Some r) l) = mset (kids s g r)"
    using assms(3) by (simp add: children_def)
  show "distinct (filter (\<lambda>a. parent_of g a = Some r) l)"
    using mset_eq_imp_distinct_iff [OF m] kids_facts(2) [OF assms(1,2)] by simp
qed

text \<open>The statements after the first loop.\<close>

lemma join_strings_ok:
  assumes t: "traversed s g" and q: "sorts qsort" and r: "r \<in> set (order g)" and num: "numbering g D r"
    and w: "tree_world s g w" and p: "0 \<le> p" "p + depth_string_length ft \<le> ilength (depth_strings ft)"
    and len: "int (nodes (below g r)) < depth_string_length ft" and c: "depth_strings ft ! nat p = depth_char (D r)"
    and at: "strings_at g D r (p + depth_string_length ft) (set (adjacent_regions (reg (seg w) r))) ft w"
    and h: "D r + int (tree_height (below g r)) \<le> 207"
  shows "\<exists>mem w'. (let l = qsort (depth_string_cmp ft w) (adjacent_regions (reg (seg w) r)) in do {
      w \<leftarrow> set_region w r (\<lambda>x. x\<lparr>adjacent_regions := l\<rparr>);
      (ft, w, p) \<leftarrow> append_strings ft w l (p + 1);
      mem \<leftarrow> wr (depth_strings ft) p NUL;
      Some (ft\<lparr>depth_strings := mem\<rparr>, w) }) = Some (ft\<lparr>depth_strings := mem\<rparr>, w') \<and>
    (\<forall>a \<in> set (adjacent_regions (reg (seg w) r)). comparable ft w a) \<and>
    str_at mem p (node_string g D r) \<and> length mem = length (depth_strings ft) \<and>
    (\<forall>j. int j < p \<longrightarrow> mem ! j = depth_strings ft ! j) \<and> walked (near g r) w w'"
proof -
  let ?P = "\<lambda>a. parent_of g a = Some r" and ?l = "adjacent_regions (reg (seg w) r)" and ?S = "node_string g D"
  note Dt = traversedD [OF t]
  have rl: "r < length (regions (seg w))" using Dt(4) Dt(5) [OF r] tree_worldD(1) [OF w] by simp
  have ml: "mset ?l = mset (adj0 s r)" by (rule tree_worldD(2) [OF w Dt(5) [OF r]])
  note kp = kids_of_permuted [OF t r ml]
  have adj: "a \<in> set (adj0 s r)" "a < length (regions (seg w))" if "a \<in> set ?l" for a
  proof -
    show "a \<in> set (adj0 s r)" using mset_eq_setD [OF ml] that by simp
    from adj_visited(1) [OF t r this] show "a < length (regions (seg w))" using Dt(4) tree_worldD(1) [OF w] by simp
  qed
  have str: "if ?P a then \<exists>q. depth_string (reg (seg w) a) = Some (nat q) \<and> p + depth_string_length ft \<le> q \<and> str_at (depth_strings ft) q (?S a)
      else depth_string (reg (seg w) a) = None" if "a \<in> set ?l" for a
    using bspec [OF at [unfolded strings_at_def] that] by (cases "?P a") auto
  have sr: "string_of_region ft w a = (if ?P a then Some (?S a) else None)" "comparable ft w a" if a: "a \<in> set ?l" for a
  proof -
    have *: "c_string (depth_strings ft) (int (nat q)) = Some x" if "str_at (depth_strings ft) q x" for q x
      using str_at_c_string [OF that] that by (simp add: str_at_def)
    show "string_of_region ft w a = (if ?P a then Some (?S a) else None)" "comparable ft w a"
      using str [OF a] adj(2) [OF a] * by (auto simp: string_of_region_def comparable_def split: if_splits)
  qed
  let ?q = "qsort (depth_string_cmp ft w) ?l"
  note sorted = sorted_strings [OF q sr(1)]
  have sq: "set ?q = set ?l" using mset_eq_setD [OF sorted(2)] .
  let ?x = "concat (map ?S (filter ?P ?q))"
  have "sort (map ?S (filter ?P ?l)) = sort (map ?S (kids s g r))" using kp(1) by (intro sort_mset) (simp only: mset_map)
  then have x: "node_string g D r = depth_char (D r) # ?x" using node_string_Tree [OF t r num] sorted(1) by simp
  then have lx: "nodes (below g r) = Suc (length ?x)" using length_node_string [of g D r] by simp
  let ?w = "put w (Reg r) ((reg (seg w) r)\<lparr>adjacent_regions := ?q\<rparr>)"
  have pre: "a < length (regions (seg ?w)) \<and> (if ?P a then \<exists>q. depth_string (reg (seg ?w) a) = Some (nat q) \<and>
      p + depth_string_length ft \<le> q \<and> str_at (depth_strings ft) q (?S a) else depth_string (reg (seg ?w) a) = None)"
    if "a \<in> set ?q" for a
    using str [of a] adj [of a] adj_visited(2) [OF t r, of a] that sq by auto
  have dq: "distinct (filter ?P ?q)"
    using mset_eq_imp_distinct_iff [of "filter ?P ?q" "filter ?P ?l"] sorted(2) kp(2) by (metis mset_filter)
  obtain w' where w': "append_strings ft ?w ?q (p + 1) =
      Some (ft\<lparr>depth_strings := blit (depth_strings ft) (p + 1) ?x\<rparr>, w', p + 1 + int (length ?x))" "walked (set ?q) ?w w'"
    using append_strings_ok [OF pre dq, of "p + 1"] p len lx by auto
  have nul: "NUL \<notin> set (depth_char (D r) # ?x)"
  proof -
    have "0 \<le> D r" using num by (simp add: numbering_def)
    then have "nat (D r) + tree_height (below g r) \<le> 207" using h by linarith
    then have "NUL \<notin> set (node_string g D r)" using left_heavy_NUL by (simp add: node_string_def)
    then show ?thesis by (simp add: x)
  qed
  have fits: "p + 1 + int (length ?x) < ilength (depth_strings ft)" using p(2) len lx by simp
  note F = finished_string [OF p(1) c fits nul]
  have bl: "length (blit (depth_strings ft) (p + 1) ?x) = length (depth_strings ft)"
    by (rule blit_facts) (use p(1) fits in simp_all)
  let ?mem = "(blit (depth_strings ft) (p + 1) ?x)[nat (p + 1 + int (length ?x)) := NUL]"
  have wk: "walked (near g r) w w'"
    by (rule walked_trans [OF walked_put_adjacent [OF sorted(2)] walked_mono [OF w'(2)]])
      (use near_adjacent [OF t r] adj(1) sq in auto)
  have run: "(let l = ?q in do {
      w \<leftarrow> set_region w r (\<lambda>x. x\<lparr>adjacent_regions := l\<rparr>);
      (ft, w, p) \<leftarrow> append_strings ft w l (p + 1);
      mem \<leftarrow> wr (depth_strings ft) p NUL;
      Some (ft\<lparr>depth_strings := mem\<rparr>, w) }) = Some (ft\<lparr>depth_strings := ?mem\<rparr>, w')"
    using rl w'(1) p(1) fits bl by (simp add: buf_simps Let_def del: put.simps)
  show ?thesis
    by (rule exI [of _ ?mem], rule exI [of _ w'], intro conjI ballI allI impI)
      (use run sr(2) F(1) x bl F(2) wk in auto)
qed

lemma height_child:
  assumes "traversed s g" "r \<in> set (order g)" "parent_of g a = Some r"
  shows "tree_height (below g a) < tree_height (below g r)"
  using tree_height_child [of "below g a" "map (below g) (kids s g r)"] kids_facts(4) [OF assms]
  unfolding kids_facts(1) [OF assms(1,2)] by simp

text \<open>The statements before the first loop.\<close>

lemma slot_start:
  fixes c :: char
  assumes "room ft (Suc m) k" "0 < k"
  defines "p \<equiv> depth_string_length ft * next_depth_string ft"
  defines "mem \<equiv> (depth_strings ft)[nat p := c, nat (p + 1) := NUL]"
  shows "wr (depth_strings ft) p c = Some ((depth_strings ft)[nat p := c])"
    "wr ((depth_strings ft)[nat p := c]) (p + 1) NUL = Some mem"
    "built ft (ft\<lparr>next_depth_string := next_depth_string ft + 1, depth_strings := mem\<rparr>) 1"
    "mem ! nat p = c" "c \<noteq> NUL \<Longrightarrow> str_at mem p [c]"
proof -
  have p: "0 \<le> p" "p + depth_string_length ft \<le> ilength (depth_strings ft)" "1 < depth_string_length ft"
    using room_slot [OF assms(1)] assms(1,2) unfolding p_def by (simp_all add: room_def)
  then show "wr (depth_strings ft) p c = Some ((depth_strings ft)[nat p := c])"
    "wr ((depth_strings ft)[nat p := c]) (p + 1) NUL = Some mem" by (simp_all add: buf_simps mem_def)
  have n: "nat (p + 1) = Suc (nat p)" "Suc (nat p) < length (depth_strings ft)" using p by linarith+
  then show c: "mem ! nat p = c" by (simp add: mem_def)
  have "mem ! j = depth_strings ft ! j" if "int j < p" for j using that p(1) unfolding mem_def n by simp
  then show "built ft (ft\<lparr>next_depth_string := next_depth_string ft + 1, depth_strings := mem\<rparr>) 1"
    unfolding built_def p_def by (intro exI [of _ mem]) (simp add: mem_def)
  show "c \<noteq> NUL \<Longrightarrow> str_at mem p [c]"
    unfolding str_at_iff using p(1) n c by (simp add: mem_def)
qed

lemma build_rec_ok:
  assumes t: "traversed s g" and q: "sorts qsort"
  shows "r \<in> set (order g) \<Longrightarrow> proper s g r \<Longrightarrow> tree_world s g w \<Longrightarrow> nodes (below g r) \<le> k \<Longrightarrow> numbering g D r \<Longrightarrow>
    depths_hold g D r w \<Longrightarrow> D r + int (tree_height (below g r)) \<le> 207 \<Longrightarrow>
    room ft (nodes (below g r)) (nodes (below g r)) \<Longrightarrow> wrote qsort g D k ft w r"
proof (induction k arbitrary: ft w r)
  case 0
  then show ?case using nodes_pos [of "below g r"] by simp
next
  case (Suc k)
  let ?P = "\<lambda>a. parent_of g a = Some r" and ?l = "adjacent_regions (reg (seg w) r)" and ?L = "depth_string_length ft"
  note Dt = traversedD [OF t] and r = Suc.prems(1)
  have rl: "r < length (regions (seg w))" "depth (reg (seg w) r) = D r"
    using Dt(4) Dt(5) [OF r] tree_worldD(1) [OF Suc.prems(3)] Suc.prems(6) under_root by (auto simp: depths_hold_def)
  have ml: "mset ?l = mset (adj0 s r)" by (rule tree_worldD(2) [OF Suc.prems(3) Dt(5) [OF r]])
  have ll: "length ?l = length (adj0 s r)" using arg_cong [OF ml, of size] by simp
  note kp = kids_of_permuted [OF t r ml]
  have nr: "nodes (below g r) = Suc (\<Sum>a\<leftarrow>filter ?P ?l. nodes (below g a))"
    using sum_list_mset [OF kp(1), of "\<lambda>a. nodes (below g a)"] kids_facts(1) [OF t r] by (simp add: comp_def)
  let ?p = "?L * next_depth_string ft" and ?c = "depth_char (D r)"
  let ?mem = "(depth_strings ft)[nat ?p := ?c, nat (?p + 1) := NUL]"
  let ?ft = "ft\<lparr>next_depth_string := next_depth_string ft + 1, depth_strings := ?mem\<rparr>"
  note S = slot_start [OF Suc.prems(8) [unfolded nr] zero_less_Suc, of ?c]
  have L: "0 < ?L" using Suc.prems(8) by (simp add: room_def)
  show ?case
  proof (cases "length (adj0 s r) = 1")
    case True
    then have k0: "kids s g r = []" using Suc.prems(2) by (simp add: proper_def)
    then have one: "nodes (below g r) = 1" using kids_facts(1) [OF t r] by simp
    have ns: "node_string g D r = [?c]" using node_string_Tree [OF t r Suc.prems(5)] k0 by simp
    have "NUL \<notin> set (node_string g D r)"
    proof -
      have "0 \<le> D r" using Suc.prems(5) by (simp add: numbering_def)
      then have "nat (D r) + tree_height (below g r) \<le> 207" using Suc.prems(7) by linarith
      then show ?thesis using left_heavy_NUL by (simp add: node_string_def)
    qed
    then have "str_at ?mem ?p (node_string g D r)" using S(5) by (simp add: ns)
    moreover have "build_string_rec qsort (Suc k) ft w r = Some (?p, ?ft, w)"
      using rl S(1,2) True ll by (simp add: buf_simps adjacent_region_count_def Let_def)
    ultimately show ?thesis
      unfolding wrote_def using S(3) one by (intro exI [of _ ?ft] exI [of _ w]) simp
  next
    case False
    have IH: "wrote qsort g D k ft w a"
      if a: "parent_of g a = Some r" "tree_world s g w" "depths_hold g D a w" "room ft (nodes (below g a)) (nodes (below g a))" for a w ft
    proof (rule Suc.IH [OF _ kid_proper [OF t a(1)] a(2) _ _ a(3) _ a(4)])
      show "a \<in> set (order g)" using traversalD(4) [OF Dt(2) a(1)] by simp
      show "nodes (below g a) \<le> k" using kids_facts(5) [OF t r a(1)] Suc.prems(4) by simp
      show "numbering g D a" by (rule numbering_child(1) [OF t r Suc.prems(5) a(1)])
      have "D a = D r + 1" using a(1) Suc.prems(5) under_root by (simp add: numbering_def)
      then show "D a + int (tree_height (below g a)) \<le> 207" using height_child [OF t r a(1)] Suc.prems(7) by simp
    qed
    have rm: "room ?ft (\<Sum>a\<leftarrow>filter ?P ?l. nodes (below g a)) (nodes (below g r))"
      using room_built [OF S(3)] Suc.prems(8) nr by simp
    obtain ft2 w2 where w2: "build_string_loop qsort k ?ft w r ?l = Some (ft2, w2)"
        "built ?ft ft2 (\<Sum>a\<leftarrow>filter ?P ?l. nodes (below g a))" "walked (near g r) w w2"
        "strings_at g D r (?p + ?L) (set ?l) ft2 w2"
    proof -
      have "\<exists>ft' w'. build_string_loop qsort k ?ft w r ?l = Some (ft', w') \<and>
        built ?ft ft' (\<Sum>a\<leftarrow>filter ?P ?l. nodes (below g a)) \<and> walked (near g r) w w' \<and>
        strings_at g D r (?p + ?L) (set ([] @ ?l)) ft' w'"
        by (rule build_loop_ok [OF t r IH Suc.prems(3,6)])
          (use kp(2) mset_eq_setD [OF ml] rm in \<open>simp_all add: strings_at_def algebra_simps\<close>)
      then show ?thesis using that by auto
    qed
    note B = builtD [OF w2(2)]
    have bf: "built ft ft2 (nodes (below g r))" using built_trans [OF S(3) w2(2) L] nr by simp
    have tw2: "tree_world s g w2" by (rule tree_world_walked [OF w2(3) Suc.prems(3) Dt(4)])
    have rl2: "r < length (regions (seg w2))" using rl(1) w2(3) by (simp add: walked_def)
    have ps: "0 \<le> ?p" "?p + ?L \<le> ilength (depth_strings ft)" using room_slot [OF Suc.prems(8)] nr by simp_all
    have set2: "set (adjacent_regions (reg (seg w2) r)) = set ?l"
      using mset_eq_setD [OF walkedD(1) [OF w2(3) rl(1)]] .
    have L2: "depth_string_length ft2 = ?L" "length (depth_strings ft2) = length (depth_strings ft)" using B(2,4) by simp_all
    have "depth_strings ft2 ! nat ?p = ?mem ! nat ?p"
      using B(5) [of "nat ?p"] ps(1) L by (simp add: algebra_simps)
    then have c2: "depth_strings ft2 ! nat ?p = ?c" using S(4) by simp
    have room2: "int (nodes (below g r)) < depth_string_length ft2" using Suc.prems(8) L2 by (simp add: room_def)
    obtain mem w3 where w3: "(let l = qsort (depth_string_cmp ft2 w2) (adjacent_regions (reg (seg w2) r)) in do {
        w \<leftarrow> set_region w2 r (\<lambda>x. x\<lparr>adjacent_regions := l\<rparr>);
        (ft, w, p) \<leftarrow> append_strings ft2 w l (?p + 1);
        mem \<leftarrow> wr (depth_strings ft) p NUL;
        Some (ft\<lparr>depth_strings := mem\<rparr>, w) }) = Some (ft2\<lparr>depth_strings := mem\<rparr>, w3)"
        "\<forall>a \<in> set (adjacent_regions (reg (seg w2) r)). comparable ft2 w2 a"
        "str_at mem ?p (node_string g D r)" "length mem = length (depth_strings ft2)"
        "\<forall>j. int j < ?p \<longrightarrow> mem ! j = depth_strings ft2 ! j" "walked (near g r) w2 w3"
      using join_strings_ok [OF t q r Suc.prems(5) tw2 ps(1), of ft2] ps(2) L2 room2 c2 w2(4) set2 Suc.prems(7) by auto
    obtain w' ft' p' mem' where st: "set_region w2 r (\<lambda>x. x\<lparr>adjacent_regions := qsort (depth_string_cmp ft2 w2) (adjacent_regions (reg (seg w2) r))\<rparr>) = Some w'"
        "append_strings ft2 w' (qsort (depth_string_cmp ft2 w2) (adjacent_regions (reg (seg w2) r))) (?p + 1) = Some (ft', w3, p')"
        "wr (depth_strings ft') p' NUL = Some mem'" "ft'\<lparr>depth_strings := mem'\<rparr> = ft2\<lparr>depth_strings := mem\<rparr>"
      using w3(1) by (auto simp: Let_def bind_eq_Some_conv simp del: append_strings.simps split: prod.splits)
    have "build_string_rec qsort (Suc k) ft w r = Some (?p, ft2\<lparr>depth_strings := mem\<rparr>, w3)"
      using rl S(1,2) False ll w2(1) rl2 w3(2) st by (simp add: buf_simps adjacent_region_count_def Let_def)
    moreover have "built ft (ft2\<lparr>depth_strings := mem\<rparr>) (nodes (below g r))"
    proof -
      note C = builtD [OF bf]
      have "mem ! j = depth_strings ft ! j" if "int j < ?p" for j using w3(5) C(5) that by simp
      moreover have "ft2\<lparr>depth_strings := mem\<rparr> = ft\<lparr>next_depth_string := next_depth_string ft + int (nodes (below g r)), depth_strings := mem\<rparr>"
        by (subst C(6)) simp
      ultimately show ?thesis unfolding built_def using C(4) w3(4) by (intro exI [of _ mem]) simp
    qed
    ultimately show ?thesis
      unfolding wrote_def using walked_trans [OF w2(3) w3(6)] w3(3) by (intro exI [of _ "ft2\<lparr>depth_strings := mem\<rparr>"] exI [of _ w3]) simp
  qed
qed

end
