(* ===== verification/FidtrackStrings.thy ===== *)
theory FidtrackStrings
  imports FidtrackBuild
begin

text \<open>
  The strings of the roots that \<open>find_roots\<close> collects: what \<open>set_depth\<close> and
  \<open>build_left_heavy_depth_string\<close> compute together, and that the strings tell trees apart.
\<close>

lemma tree_world_collected:
  assumes seg: "segmented s" and n: "region_count s \<le> 32768" and c: "course_of s g" and f: "fields ft s g w"
  shows "tree_world s g w"
  unfolding tree_world_def
proof (intro conjI allI impI)
  show "length (regions (seg w)) = length (regions s)" using fieldsD(2) [OF f] .
  fix i assume i: "i < region_count s"
  note ri = fieldsD(3) [OF f i]
  have "short_count (below g i) = int (nodes (below g i)) - 1" if "i \<in> set (order g)"
    using short_count_exact [of "below g i"] visited_size [OF seg c that] n by simp
  then show "mset (adj0 (seg w) i) = mset (adj0 s i)" "(level (reg (seg w) i) = TRAVERSED) = (i \<in> set (order g))"
    "descendent_count (reg (seg w) i) = (if i \<in> set (order g) then int (nodes (below g i)) - 1 else 32767)"
    using ri by (auto simp: region_of_def traversal_levels)
qed

text \<open>A region with one neighbour gets a string of one character.\<close>

lemma build_leaf:
  assumes "r < length (regions (seg w))" "adjacent_region_count (reg (seg w) r) = 1"
    and "0 \<le> depth (reg (seg w) r)" "depth (reg (seg w) r) \<le> 207" "room ft 1 1"
  shows "\<exists>ft'. build_string_rec qsort (Suc k) ft w r = Some (depth_string_length ft * next_depth_string ft, ft', w) \<and>
    built ft ft' 1 \<and> str_at (depth_strings ft') (depth_string_length ft * next_depth_string ft) [depth_char (depth (reg (seg w) r))]"
proof -
  let ?c = "depth_char (depth (reg (seg w) r))"
  have rm: "room ft (Suc 0) 1" using assms(5) by simp
  note S = slot_start [OF rm zero_less_one, of ?c]
  have "?c \<noteq> NUL" using depth_char_NUL [of "nat (depth (reg (seg w) r))"] assms(3,4) by simp
  from S(5) [OF this] S(1-3) show ?thesis
    using assms(1,2) by (simp add: buf_simps Let_def)
qed

text \<open>The two walks for a visited region.\<close>

definition shown_tree :: "Segmenter \<Rightarrow> nat \<Rightarrow> tree \<Rightarrow> tree" where
  "shown_tree s r t = (if length (adj0 s r) = 1 then Tree [] else t)"

lemma string_of_root:
  assumes t: "traversed s g" and q: "sorts qsort" and r: "r \<in> set (order g)" and w: "tree_world s g w"
    and rm: "room ft (nodes (below g r)) (nodes (below g r))" and h: "tree_height (below g r) \<le> 207"
  shows "\<exists>w2 ft' w3. set_depth w r 0 = Some w2 \<and>
    build_left_heavy_depth_string qsort ft w2 r = Some (depth_string_length ft * next_depth_string ft, ft', w3) \<and>
    str_at (depth_strings ft') (depth_string_length ft * next_depth_string ft) (left_heavy 0 (shown_tree s r (below g r))) \<and>
    (\<exists>m. built ft ft' m) \<and> tree_world s g w3 \<and> same_but_depth w w2 \<and> walked (near g r) w2 w3"
proof -
  note D = traversedD [OF t]
  note num = numbering_distance [OF t r]
  have len: "length (regions (seg w)) = length (regions s)" by (rule tree_worldD(1) [OF w])
  have rl: "r < length (regions (seg w))" using len D(4) D(5) [OF r] by simp
  have fuel: "nodes (below g r) \<le> Suc (length (regions s))" using D(4) D(6) [OF r] by simp
  have adj: "length (adj0 (seg v) r) = length (adj0 s r)" if "tree_world s g v" for v
    using arg_cong [OF tree_worldD(2) [OF that D(5) [OF r]], of size] by simp
  show ?thesis
  proof (cases "length (adj0 s r) = 1")
    case True
    let ?w2 = "put w (Reg r) ((reg (seg w) r)\<lparr>depth := 0\<rparr>)"
    have w2: "tree_world s g ?w2" by (rule tree_world_depth [OF same_but_depth_put w D(4)])
    have "set_depth w r 0 = Some ?w2"
      using rl True adj [OF w] by (simp add: set_depth_def buf_simps adjacent_region_count_def del: put.simps)
    moreover have "room ft 1 1" by (rule room_mono [OF rm]) (simp_all add: Suc_le_eq)
    then obtain ft' where "build_string_rec qsort (Suc (length (regions (seg ?w2)))) ft ?w2 r =
        Some (depth_string_length ft * next_depth_string ft, ft', ?w2)" "built ft ft' 1"
        "str_at (depth_strings ft') (depth_string_length ft * next_depth_string ft) [depth_char 0]"
      using build_leaf [of r ?w2 ft qsort] rl True adj [OF w] by (auto simp: adjacent_region_count_def)
    ultimately show ?thesis
      using w2 True same_but_depth_put
      by (intro exI [of _ ?w2] exI [of _ ft']) (auto simp: build_left_heavy_depth_string_def shown_tree_def)
  next
    case False
    then have pr: "proper s g r" by (simp add: proper_def)
    obtain w2 where w2: "set_depth_rec (Suc (length (regions (seg w)))) w r (distance g r r) = Some w2"
        "depths_set (distance g r) (under g r) (under g r) w w2"
      using set_depth_rec_ok [OF t r pr w _ num(1)] fuel len by metis
    have sd: "same_but_depth w w2" using w2(2) by (simp add: depths_set_def)
    have tw2: "tree_world s g w2" by (rule tree_world_depth [OF sd w D(4)])
    have dh: "depths_hold g (distance g r) r w2"
      unfolding depths_hold_def
    proof
      fix i assume i: "i \<in> under g r"
      then have "i < length (regions s)" using under_visited(1) [OF t r] D(4,5) by fastforce
      then show "i < length (regions (seg w2)) \<and> depth (reg (seg w2) i) = distance g r i"
        using i w2(2) tree_worldD(1) [OF tw2] by (simp add: depths_set_def)
    qed
    have "wrote qsort g (distance g r) (Suc (length (regions (seg w2)))) ft w2 r"
      by (rule build_rec_ok [OF t q r pr tw2 _ num(1) dh _ rm]) (use fuel tree_worldD(1) [OF tw2] num(2) h in simp_all)
    then obtain ft' w3 where w3: "build_string_rec qsort (Suc (length (regions (seg w2)))) ft w2 r =
          Some (depth_string_length ft * next_depth_string ft, ft', w3)"
        "built ft ft' (nodes (below g r))" "walked (near g r) w2 w3"
        "str_at (depth_strings ft') (depth_string_length ft * next_depth_string ft) (node_string g (distance g r) r)"
      unfolding wrote_def by blast
    have "set_depth w r 0 = Some w2" using w2(1) num(2) by (simp add: set_depth_def del: set_depth_rec.simps)
    moreover have "node_string g (distance g r) r = left_heavy 0 (shown_tree s r (below g r))"
      using False num(2) by (simp add: node_string_def shown_tree_def)
    ultimately show ?thesis
      using w3 sd tree_world_walked [OF w3(3) tw2 D(4)]
      by (intro exI [of _ w2] exI [of _ ft'] exI [of _ w3]) (auto simp: build_left_heavy_depth_string_def simp del: build_string_rec.simps)
  qed
qed

text \<open>The buffers that \<open>initialize_fidtrackerX\<close> allocates are large enough for the roots that
  are not marked as lost.\<close>

lemma root_room:
  assumes ft: "ft = initialize_fidtrackerX malloc info" and malloc: "\<And>n. length (malloc n) = nat n"
    and root: "exact_root ft t \<or> partial_root ft t" and n: "nodes t \<le> 32768"
  shows "room ft (nodes t) (nodes t)" "depth_string_length ft * next_depth_string ft = 0"
    "int (tree_height t) \<le> tm_max_depth info"
proof -
  have "int (nodes t) \<le> max_node_count info"
    using root n by (auto simp: ft initialize_fidtrackerX_def Let_def exact_root_def partial_root_def short_count_exact)
  moreover have "0 < int (nodes t)" by simp
  ultimately show "room ft (nodes t) (nodes t)"
    using malloc by (simp add: ft initialize_fidtrackerX_def Let_def room_def)
  show "depth_string_length ft * next_depth_string ft = 0" by (simp add: ft initialize_fidtrackerX_def Let_def)
  show "int (tree_height t) \<le> tm_max_depth info"
    using root n by (auto simp: ft initialize_fidtrackerX_def Let_def exact_root_def partial_root_def depth_fits_def short_height_exact)
qed

text \<open>The string of a root, as \<open>compute_fiducial_statistics\<close> calls for it.\<close>

definition depth_string_of :: "qsort_fun \<Rightarrow> FidtrackerX \<Rightarrow> World \<Rightarrow> nat \<Rightarrow> string option" where
  "depth_string_of qsort ft w r = do {
     w \<leftarrow> set_depth w r 0;
     (str, ft, w) \<leftarrow> build_left_heavy_depth_string qsort (ft\<lparr>next_depth_string := 0\<rparr>) w r;
     c_string (depth_strings ft) str
   }"

lemma collected_strings:
  assumes "segmented (seg w)" "max_adjacent_regions (seg w) \<le> 32767" "heads w \<noteq> []" "region_count (seg w) \<le> 32768"
    and "\<And>n. length (malloc n) = nat n" "tm_max_depth info \<le> 207" "sorts qsort"
    and "ft = initialize_fidtrackerX malloc info"
  obtains w1 rs where "collect_roots ft w = Some w1" "ring_of w1 root_regions_head rs"
    "\<And>r. r \<in> set rs \<Longrightarrow> \<not> flag_set (flags (reg (seg w1) r)) LOST_SYMBOL_FLAG \<Longrightarrow>
      \<exists>p t. region_tree (seg w) p r t \<and> tree_height t \<le> 207 \<and>
        depth_string_of qsort ft w1 r = Some (left_heavy 0 (shown_tree (seg w) r t))"
proof -
  obtain w1 g where w1: "collect_roots ft w = Some w1" "state_ok ft (seg w) g w1 None"
    using collect_roots_ok [OF assms(1-3)] .
  have start0: "ft\<lparr>next_depth_string := 0\<rparr> = ft" by (simp add: assms(8) initialize_fidtrackerX_def Let_def)
  have f: "fields ft (seg w) g w1" "ring_of w1 root_regions_head (roots_of ft g)" "course_of (seg w) g"
    using w1(2) by (auto simp: state_ok_def tracked_def)
  have t: "traversed (seg w) g" using assms(1,4) f(3) by (simp add: traversed_def)
  have tw: "tree_world (seg w) g w1" by (rule tree_world_collected [OF assms(1,4) f(3,1)])
  have "\<exists>p t. region_tree (seg w) p r t \<and> tree_height t \<le> 207 \<and>
      depth_string_of qsort ft w1 r = Some (left_heavy 0 (shown_tree (seg w) r t))"
    if r: "r \<in> set (roots_of ft g)" "\<not> flag_set (flags (reg (seg w1) r)) LOST_SYMBOL_FLAG" for r
  proof -
    have ro: "r \<in> set (order g)" using r(1) roots_of_order by blast
    have "\<not> fuzzy_root ft (below g r)"
      using fieldsD(3) [OF f(1) traversedD(5) [OF t ro]] ro r(2)
      by (auto simp: region_of_def flag_set_or LOST_SYMBOL_FLAG_def flag_set_def split: if_splits)
    then have root: "exact_root ft (below g r) \<or> partial_root ft (below g r)"
      using r(1) by (auto simp: roots_of_def is_fiducial_root_def)
    have n: "nodes (below g r) \<le> 32768" using traversedD(3,6) [OF t] ro by fastforce
    note rr = root_room [OF assms(8,5) root n]
    have h: "tree_height (below g r) \<le> 207" using rr(3) assms(6) by linarith
    obtain w2 ft' w3 where "set_depth w1 r 0 = Some w2" "build_left_heavy_depth_string qsort ft w2 r = Some (0, ft', w3)"
        "str_at (depth_strings ft') 0 (left_heavy 0 (shown_tree (seg w) r (below g r)))"
      using string_of_root [OF t assms(7) ro tw rr(1) h] unfolding rr(2) by blast
    then show ?thesis
      using visited_tree [OF assms(1) f(3) ro] h str_at_c_string
      by (intro exI [of _ "parent_of g r"] exI [of _ "below g r"]) (simp add: depth_string_of_def start0)
  qed
  then show ?thesis using that [OF w1(1) f(2)] by blast
qed

text \<open>C3: For every root that the search collects and does not mark as lost, \<open>set_depth\<close> and
  \<open>build_left_heavy_depth_string\<close> return, and the string is the left heavy depth string of the
  tree that hangs below the root. A root with only one neighbour counts as a leaf.\<close>

theorem fiducial_strings:
  assumes "segmented (seg w)" "max_adjacent_regions (seg w) \<le> 32767" "heads w \<noteq> []" "region_count (seg w) \<le> 32768"
    and "\<And>n. length (malloc n) = nat n" "tm_max_depth info \<le> 207" "sorts qsort"
    and "ft = initialize_fidtrackerX malloc info"
  shows "\<exists>w1 rs. collect_roots ft w = Some w1 \<and> ring_of w1 root_regions_head rs \<and>
    (\<forall>r \<in> set rs. \<not> flag_set (flags (reg (seg w1) r)) LOST_SYMBOL_FLAG \<longrightarrow>
      (\<exists>p t. region_tree (seg w) p r t \<and>
        depth_string_of qsort ft w1 r = Some (left_heavy 0 (if adjacent_region_count (reg (seg w) r) = 1 then Tree [] else t))))"
  by (rule collected_strings [OF assms]) (unfold shown_tree_def adjacent_region_count_def, blast)

lemma fiducial_strings_witness:
  "\<exists>w w1 rs. collect_roots pair_tracker w = Some w1 \<and> ring_of w1 root_regions_head rs \<and>
    (\<forall>r \<in> set rs. \<not> flag_set (flags (reg (seg w1) r)) LOST_SYMBOL_FLAG \<longrightarrow>
      depth_string_of insertion_sort pair_tracker w1 r \<noteq> None)"
proof (rule ring_world)
  fix s assume s: "segmented s" "max_adjacent_regions s \<le> 32767" "region_count s = 2"
  let ?w = "\<lparr>seg = s, heads = [blank_region]\<rparr>"
  obtain w1 rs where "collect_roots pair_tracker ?w = Some w1" "ring_of w1 root_regions_head rs"
      "\<forall>r \<in> set rs. \<not> flag_set (flags (reg (seg w1) r)) LOST_SYMBOL_FLAG \<longrightarrow>
        (\<exists>p t. region_tree s p r t \<and> depth_string_of insertion_sort pair_tracker w1 r =
          Some (left_heavy 0 (if adjacent_region_count (reg s r) = 1 then Tree [] else t)))"
    using fiducial_strings [of ?w "\<lambda>n. replicate (nat n) CHR ''x''", OF _ _ _ _ _ _ insertion_sort_sorts pair_tracker_def] s
    by auto
  then show ?thesis by (intro exI [of _ ?w] exI [of _ w1] exI [of _ rs]) fastforce
qed

text \<open>C22: The strings identify fiducials: two roots, also of two images, have the same string
  exactly when their trees are equal up to the order of subtrees.\<close>

theorem strings_identify:
  assumes "segmented (seg w)" "max_adjacent_regions (seg w) \<le> 32767" "heads w \<noteq> []" "region_count (seg w) \<le> 32768"
    and "segmented (seg v)" "max_adjacent_regions (seg v) \<le> 32767" "heads v \<noteq> []" "region_count (seg v) \<le> 32768"
    and "\<And>n. length (malloc n) = nat n" "tm_max_depth info \<le> 207" "sorts qsort"
    and "ft = initialize_fidtrackerX malloc info"
  shows "\<exists>w1 rs v1 qs. collect_roots ft w = Some w1 \<and> ring_of w1 root_regions_head rs \<and>
    collect_roots ft v = Some v1 \<and> ring_of v1 root_regions_head qs \<and>
    (\<forall>r \<in> set rs. \<forall>q \<in> set qs. \<not> flag_set (flags (reg (seg w1) r)) LOST_SYMBOL_FLAG \<and>
      \<not> flag_set (flags (reg (seg v1) q)) LOST_SYMBOL_FLAG \<longrightarrow>
      (\<exists>p t p' u. region_tree (seg w) p r t \<and> region_tree (seg v) p' q u \<and>
        (depth_string_of qsort ft w1 r = depth_string_of qsort ft v1 q \<longleftrightarrow>
         same_shape (shown_tree (seg w) r t) (shown_tree (seg v) q u))))"
proof -
  obtain w1 rs where w1: "collect_roots ft w = Some w1" "ring_of w1 root_regions_head rs"
    "\<And>r. r \<in> set rs \<Longrightarrow> \<not> flag_set (flags (reg (seg w1) r)) LOST_SYMBOL_FLAG \<Longrightarrow>
      \<exists>p t. region_tree (seg w) p r t \<and> tree_height t \<le> 207 \<and>
        depth_string_of qsort ft w1 r = Some (left_heavy 0 (shown_tree (seg w) r t))"
    using collected_strings [OF assms(1-4,9-12)] by blast
  obtain v1 qs where v1: "collect_roots ft v = Some v1" "ring_of v1 root_regions_head qs"
    "\<And>r. r \<in> set qs \<Longrightarrow> \<not> flag_set (flags (reg (seg v1) r)) LOST_SYMBOL_FLAG \<Longrightarrow>
      \<exists>p t. region_tree (seg v) p r t \<and> tree_height t \<le> 207 \<and>
        depth_string_of qsort ft v1 r = Some (left_heavy 0 (shown_tree (seg v) r t))"
    using collected_strings [OF assms(5-12)] by blast
  have "left_heavy 0 (shown_tree s r t) = left_heavy 0 (shown_tree s' q u) \<longleftrightarrow> same_shape (shown_tree s r t) (shown_tree s' q u)"
    if "tree_height t \<le> 207" "tree_height u \<le> 207" for s r t s' q u
    by (rule iffI [OF left_heavy_determines left_heavy_same]) (use that in \<open>auto simp: shown_tree_def\<close>)
  note same = this
  have "\<exists>p t p' u. region_tree (seg w) p r t \<and> region_tree (seg v) p' q u \<and>
      (depth_string_of qsort ft w1 r = depth_string_of qsort ft v1 q \<longleftrightarrow>
       same_shape (shown_tree (seg w) r t) (shown_tree (seg v) q u))"
    if rq: "r \<in> set rs" "q \<in> set qs" "\<not> flag_set (flags (reg (seg w1) r)) LOST_SYMBOL_FLAG"
      "\<not> flag_set (flags (reg (seg v1) q)) LOST_SYMBOL_FLAG" for r q
  proof -
    obtain p t where t: "region_tree (seg w) p r t" "tree_height t \<le> 207"
        "depth_string_of qsort ft w1 r = Some (left_heavy 0 (shown_tree (seg w) r t))" using w1(3) rq by blast
    obtain p' u where u: "region_tree (seg v) p' q u" "tree_height u \<le> 207"
        "depth_string_of qsort ft v1 q = Some (left_heavy 0 (shown_tree (seg v) q u))" using v1(3) rq by blast
    show ?thesis unfolding t(3) u(3) option.inject same [OF t(2) u(2)] using t(1) u(1) by blast
  qed
  then show ?thesis using w1(1,2) v1(1,2) by blast
qed

lemma strings_identify_witness:
  "\<exists>w w1 rs. collect_roots pair_tracker w = Some w1 \<and> ring_of w1 root_regions_head rs"
proof (rule ring_world)
  fix s assume s: "segmented s" "max_adjacent_regions s \<le> 32767" "region_count s = 2"
  let ?w = "\<lparr>seg = s, heads = [blank_region]\<rparr>"
  obtain w1 rs where "collect_roots pair_tracker ?w = Some w1" "ring_of w1 root_regions_head rs"
    using strings_identify [of ?w ?w "\<lambda>n. replicate (nat n) CHR ''x''", OF _ _ _ _ _ _ _ _ _ _ insertion_sort_sorts pair_tracker_def] s
    by auto
  then show ?thesis by (intro exI [of _ ?w] exI [of _ w1] exI [of _ rs]) simp
qed

end
