(* ===== verification/FidtrackLeafs.thy ===== *)
theory FidtrackLeafs
  imports FidtrackStats FidtrackStrings
begin

text \<open>
  \<open>sum_leaf_centers\<close>: it adds up every leaf of the tree once, and the integer that counts the
  leafs does not overflow.
\<close>

subsection \<open>One leaf\<close>

lemma dconst_between: "of_int m \<le> q \<Longrightarrow> q \<le> of_int n \<Longrightarrow> 0 \<le> m \<Longrightarrow> n < double_ints \<Longrightarrow> between (dconst q) m n"
  unfolding dconst_def by (rule value_between)

lemma leaf_weight_between:
  assumes "0 \<le> d" "d \<le> 207"
  shows "between (leaf_weight d) 0 173056"
proof -
  have d: "between (dint d) d d" using fint_between [of d] assms by simp
  have "between (dconst (1 / 2)) 0 1" by (rule dconst_between) simp_all
  then have r: "between (dadd (dconst (1 / 2)) (dint d)) (0 + d) (1 + d)"
    by (rule fadd_between [OF _ d]) (use assms in simp_all)
  let ?r = "dadd (dconst (1 / 2)) (dint d)"
  have m: "(1 + d) * (1 + d) \<le> 208 * 208" using assms by (intro mult_mono) simp_all
  have rr: "between (dmul ?r ?r) ((0 + d) * (0 + d)) ((1 + d) * (1 + d))"
    by (rule fmul_between [OF r r]) (use assms m in simp_all)
  have pi: "between M_PI 3 4" unfolding M_PI_def by (rule dconst_between) simp_all
  have "between (dmul (dmul ?r ?r) M_PI) ((0 + d) * (0 + d) * 3) ((1 + d) * (1 + d) * 4)"
    by (rule fmul_between [OF rr pi]) (use m in simp_all)
  moreover have "0 \<le> (0 + d) * (0 + d) * 3" by simp
  ultimately obtain v where v: "leaf_weight d = Num False v" "of_int ((0 + d) * (0 + d) * 3) \<le> v" "v \<le> of_int ((1 + d) * (1 + d) * 4)"
    by (auto simp: leaf_weight_def Let_def elim!: between_cases)
  have "(of_int 0 :: rat) \<le> of_int ((0 + d) * (0 + d) * 3)" "(of_int ((1 + d) * (1 + d) * 4) :: rat) \<le> of_int 173056"
    using m by (simp_all only: of_int_le_iff) simp_all
  then have "of_int 0 \<le> v" "v \<le> of_int 173056" using v(2,3) by (blast intro: order_trans)+
  then show ?thesis using v(1) by simp
qed

lemma add_leaf_ok:
  assumes "0 \<le> depth x" "depth x \<le> 207" "0 \<le> total_leaf_count s" "total_leaf_count s + 173056 \<le> 2147483647"
  shows "\<exists>s'. add_leaf None W H x s = Some s' \<and> total_leaf_count s \<le> total_leaf_count s' \<and>
    total_leaf_count s' \<le> total_leaf_count s + 173056"
proof -
  let ?t = "total_leaf_count s"
  have "between (dint ?t) ?t ?t" using fint_between [of ?t] assms(3,4) by simp
  from fadd_between [OF this leaf_weight_between [OF assms(1,2)]]
  have "between (dadd (dint ?t) (leaf_weight (depth x))) ?t (?t + 173056)" using assms(3,4) by simp
  from to_int32_between [OF this] obtain i where
    "to_int32 (dadd (dint ?t) (leaf_weight (depth x))) = Some i" "?t \<le> i" "i \<le> ?t + 173056"
    using assms(3,4) by blast
  then show ?thesis by (simp add: add_leaf_def add_plain_def Let_def)
qed

text \<open>The leafs of a list, one after the other.\<close>

fun add_leafs :: "warp \<Rightarrow> int \<Rightarrow> int \<Rightarrow> Region list \<Rightarrow> LeafSums \<Rightarrow> LeafSums option" where
  "add_leafs warp W H [] s = Some s"
| "add_leafs warp W H (x # xs) s = do { s \<leftarrow> add_leaf warp W H x s; add_leafs warp W H xs s }"

lemma add_leafs_append:
  "add_leafs warp W H (xs @ ys) s = do { s \<leftarrow> add_leafs warp W H xs s; add_leafs warp W H ys s }"
proof (induction xs arbitrary: s)
  case (Cons x xs)
  then show ?case by (cases "add_leaf warp W H x s") simp_all
qed simp

lemma add_leafs_ok:
  assumes "\<forall>x \<in> set xs. 0 \<le> depth x \<and> depth x \<le> 207" "0 \<le> total_leaf_count s"
    "total_leaf_count s + 173056 * int (length xs) \<le> 2147483647"
  shows "\<exists>s'. add_leafs None W H xs s = Some s' \<and> 0 \<le> total_leaf_count s' \<and>
    total_leaf_count s' \<le> total_leaf_count s + 173056 * int (length xs)"
  using assms
proof (induction xs arbitrary: s)
  case (Cons x xs)
  obtain s1 where s1: "add_leaf None W H x s = Some s1" "total_leaf_count s \<le> total_leaf_count s1"
      "total_leaf_count s1 \<le> total_leaf_count s + 173056"
    using add_leaf_ok [of x s W H] Cons.prems by auto
  then show ?case using Cons.IH [of s1] Cons.prems by fastforce
qed simp

subsection \<open>All leafs of a tree\<close>

definition tree_leafs :: "Segmenter \<Rightarrow> course \<Rightarrow> nat \<Rightarrow> nat set" where
  "tree_leafs s g r = {i \<in> under g r. length (adj0 s i) = 1}"

definition adds_all :: "World \<Rightarrow> (LeafSums \<Rightarrow> LeafSums option) \<Rightarrow> warp \<Rightarrow> int \<Rightarrow> int \<Rightarrow> nat set \<Rightarrow> bool" where
  "adds_all w f warp W H L \<longleftrightarrow> (\<exists>ls. distinct ls \<and> set ls = L \<and> (\<forall>s. f s = add_leafs warp W H (map (reg (seg w)) ls) s))"

lemma adds_all_trans:
  assumes "adds_all w f warp W H L" "adds_all w f' warp W H L'" "L \<inter> L' = {}"
  shows "adds_all w (\<lambda>s. Option.bind (f s) f') warp W H (L \<union> L')"
proof -
  obtain ls ls' where "distinct ls" "set ls = L" "\<forall>s. f s = add_leafs warp W H (map (reg (seg w)) ls) s"
      "distinct ls'" "set ls' = L'" "\<forall>s. f' s = add_leafs warp W H (map (reg (seg w)) ls') s"
    using assms(1,2) by (auto simp: adds_all_def)
  moreover from this have "f' = add_leafs warp W H (map (reg (seg w)) ls')" by auto
  ultimately show ?thesis using assms(3)
    unfolding adds_all_def by (intro exI [of _ "ls @ ls'"]) (simp add: add_leafs_append)
qed

lemma adds_none: "adds_all w Some warp W H {}"
  unfolding adds_all_def by (rule exI [of _ "[]"]) simp

lemma under_kids:
  assumes t: "traversed s g" and r: "r \<in> set (order g)"
  shows "under g r = {r} \<union> (\<Union>a \<in> set (kids s g r). under g a)"
proof
  show "under g r \<subseteq> {r} \<union> (\<Union>a \<in> set (kids s g r). under g a)" using under_split [of _ g r] kids_facts(4) [OF t r] by blast
  show "{r} \<union> (\<Union>a \<in> set (kids s g r). under g a) \<subseteq> under g r"
    using under_trans [of _ g _ r] under_child [OF under_root, of g _ r] kids_facts(3) [OF t r] under_root by blast
qed

lemma sum_leaf_rec_ok:
  assumes t: "traversed s g" and w: "tree_world s g w"
  shows "r \<in> set (order g) \<Longrightarrow> proper s g r \<Longrightarrow> nodes (below g r) \<le> k \<Longrightarrow>
    adds_all w (sum_leaf_rec warp W H k w r) warp W H (tree_leafs s g r)"
proof (induction k arbitrary: r)
  case 0
  then show ?case using nodes_pos [of "below g r"] by simp
next
  case (Suc k)
  note D = traversedD [OF t]
  have rl: "r < length (regions (seg w))" using D(4) D(5) [OF Suc.prems(1)] tree_worldD(1) [OF w] by simp
  have adj: "mset (adjacent_regions (reg (seg w) r)) = mset (adj0 s r)"
    using tree_worldD(2) [OF w D(5) [OF Suc.prems(1)]] .
  have loop: "adds_all w (sum_leaf_loop warp W H k w r as) warp W H
      (\<Union>a \<in> {a \<in> set as. parent_of g a = Some r}. tree_leafs s g a)"
    if "set as \<subseteq> set (adj0 s r)" "distinct (filter (\<lambda>a. parent_of g a = Some r) as)" for as
    using that
  proof (induction as)
    case Nil
    have "sum_leaf_loop warp W H k w r [] = Some" by (rule ext) simp
    then show ?case using adds_none by simp
  next
    case (Cons a as)
    have a: "a \<in> set (adj0 s r)" using Cons.prems(1) by simp
    have l: "a < length (regions (seg w))"
      using adj_visited(1) [OF t Suc.prems(1) a] D(4) tree_worldD(1) [OF w] by simp
    have IH: "adds_all w (sum_leaf_loop warp W H k w r as) warp W H
        (\<Union>a \<in> {a \<in> set as. parent_of g a = Some r}. tree_leafs s g a)"
      using Cons.IH Cons.prems by (auto split: if_splits)
    note ct = child_test(2) [OF t w Suc.prems(1) a]
    show ?case
    proof (cases "parent_of g a = Some r")
      case True
      have ao: "a \<in> set (order g)" using traversalD(4) [OF D(2) True] by simp
      have "nodes (below g a) \<le> k" using kids_facts(5) [OF t Suc.prems(1) True] Suc.prems(3) by simp
      note A = Suc.IH [OF ao kid_proper [OF t True] this]
      have "tree_leafs s g a \<inter> (\<Union>b \<in> {b \<in> set as. parent_of g b = Some r}. tree_leafs s g b) = {}"
        using under_disjoint [OF t Suc.prems(1) True] Cons.prems(2) True by (fastforce simp: tree_leafs_def)
      from adds_all_trans [OF A IH this]
      have "adds_all w (\<lambda>s. Option.bind (sum_leaf_rec warp W H k w a s) (sum_leaf_loop warp W H k w r as)) warp W H
          (\<Union>a \<in> {x \<in> set (a # as). parent_of g x = Some r}. tree_leafs s g a)"
        by (rule back_subst) (use True in auto)
      moreover have "sum_leaf_loop warp W H k w r (a # as) =
          (\<lambda>s. Option.bind (sum_leaf_rec warp W H k w a s) (sum_leaf_loop warp W H k w r as))"
        using ct True l rl by (intro ext) (simp add: buf_simps)
      ultimately show ?thesis by simp
    next
      case False
      then have "{x \<in> set (a # as). parent_of g x = Some r} = {x \<in> set as. parent_of g x = Some r}" by auto
      moreover have "sum_leaf_loop warp W H k w r (a # as) = sum_leaf_loop warp W H k w r as"
        using iffD1 [OF ct] False l rl by (intro ext) (auto simp: buf_simps)
      ultimately show ?thesis using IH by simp
    qed
  qed
  have kids: "{a \<in> set (adjacent_regions (reg (seg w) r)). parent_of g a = Some r} = set (kids s g r)"
    using mset_eq_setD [OF adj] by (auto simp: children_def)
  have und: "tree_leafs s g r = (if length (adj0 s r) = 1 then {r} else {}) \<union> (\<Union>a \<in> set (kids s g r). tree_leafs s g a)"
    unfolding tree_leafs_def under_kids [OF t Suc.prems(1)] by auto
  have run: "sum_leaf_rec warp W H (Suc k) w r = (\<lambda>S. if length (adj0 s r) = 1 then add_leaf warp W H (reg (seg w) r) S
      else sum_leaf_loop warp W H k w r (adjacent_regions (reg (seg w) r)) S)"
    using rl arg_cong [OF adj, of size] by (intro ext) (simp add: buf_simps adjacent_region_count_def)
  show ?case
  proof (cases "length (adj0 s r) = 1")
    case True
    then have "tree_leafs s g r = {r}" using und Suc.prems(2) by (simp add: proper_def)
    moreover have "add_leafs warp W H [x] S = add_leaf warp W H x S" for x S
      by (cases "add_leaf warp W H x S") simp_all
    ultimately show ?thesis
      unfolding run adds_all_def using True by (intro exI [of _ "[r]"]) (simp del: add_leafs.simps)
  next
    case False
    have "set (adjacent_regions (reg (seg w) r)) \<subseteq> set (adj0 s r)" using mset_eq_setD [OF adj] by simp
    from loop [OF this kids_of_permuted(2) [OF t Suc.prems(1) adj]] show ?thesis
      unfolding run kids using False und by (simp add: adds_all_def)
  qed
qed

end
