(* ===== verification/TreeIds.thy ===== *)
theory TreeIds
  imports TreeIdMap LeftHeavy
begin

text \<open>
  The tree table: the position of a tree in the file or in the built-in table is its
  identifier, the counts of the table are the extremes of its trees, and every built-in tree
  is the left heavy string of a tree, so that each of them can be recognised.
\<close>

subsection \<open>Insertion of a list of trees\<close>

lemma map_insert_cases:
  "map_insert m k v = (if k \<in> fst ` set m then (m, False) else (m @ [(k, v)], True))"
  unfolding map_insert_def by (auto simp: map_of_eq_None_iff split: option.splits dest!: map_of_SomeD) (force dest: map_of_SomeD)?

lemma c_str_id: "NUL \<notin> set s \<Longrightarrow> c_str s = s"
  unfolding c_str_def by (auto simp: takeWhile_eq_all_conv)

definition start_state :: "int \<Rightarrow> TreeMapState" where
  "start_state m = \<lparr>impl = empty_impl, next_id = 0, minNodeCount = m, maxNodeCount = 0, minDepth = m, maxDepth = 0\<rparr>"

definition add_trees :: "string list \<Rightarrow> TreeMapState \<Rightarrow> TreeMapState" where
  "add_trees = fold (\<lambda>s. add_tree s (int (length s) - 1))"

text \<open>The table of a list of trees.\<close>

definition table :: "string list \<Rightarrow> TreeMapState \<Rightarrow> bool" where
  "table ts st \<longleftrightarrow> next_id st = int (length ts) \<and>
     distinct (map fst (treeIdMap (impl st))) \<and> fst ` set (treeIdMap (impl st)) = set ts \<and>
     (\<forall>k < length ts. ts ! k \<notin> set (take k ts) \<longrightarrow> map_of (treeIdMap (impl st)) (ts ! k) = Some (int k)) \<and>
     minNodeCount st = Min (insert 32767 ((\<lambda>s. int (length s) - 1) ` set ts)) \<and>
     maxNodeCount st = Max (insert 0 ((\<lambda>s. int (length s) - 1) ` set ts)) \<and>
     minDepth st = Min (insert 32767 (find_maximum_tree_depth ` set ts)) \<and>
     maxDepth st = Max (insert 0 (find_maximum_tree_depth ` set ts))"

lemma table_start: "table [] (start_state 32767)"
  by (simp add: table_def start_state_def empty_impl_def)

lemma extremes_insert:
  assumes "finite A"
  shows "Min (insert (a::int) (insert x A)) = (if x < Min (insert a A) then x else Min (insert a A))"
    and "Max (insert a (insert x A)) = (if x > Max (insert a A) then x else Max (insert a A))"
proof -
  have "insert a (insert x A) = insert x (insert a A)" by auto
  then have "Min (insert a (insert x A)) = min x (Min (insert a A))" "Max (insert a (insert x A)) = max x (Max (insert a A))"
    using assms Min_insert [of "insert a A" x] Max_insert [of "insert a A" x] by simp_all
  then show "Min (insert a (insert x A)) = (if x < Min (insert a A) then x else Min (insert a A))"
    "Max (insert a (insert x A)) = (if x > Max (insert a A) then x else Max (insert a A))"
    by (simp_all add: min_def max_def)
qed

lemma table_add:
  assumes t: "table ts st" and s: "NUL \<notin> set s"
  shows "table (ts @ [s]) (add_tree s (int (length s) - 1) st)"
proof (cases "s \<in> set ts")
  case True
  let ?st = "st\<lparr>impl := (impl st)\<lparr>strings := strings (impl st) @ [s]\<rparr>, next_id := next_id st + 1\<rparr>"
  have "add_tree s (int (length s) - 1) st = ?st"
    using True t by (simp add: add_tree_def table_def map_insert_cases c_str_id [OF s] Let_def)
  moreover have "insert s (set ts) = set ts" using True by auto
  ultimately show ?thesis using t True by (auto simp: table_def nth_append less_Suc_eq)
next
  case False
  let ?m = "treeIdMap (impl st) @ [(s, next_id st)]"
  let ?st = "add_tree s (int (length s) - 1) st"
  note T = t [unfolded table_def]
  have st: "treeIdMap (impl ?st) = ?m" "next_id ?st = next_id st + 1"
    "minNodeCount ?st = (if int (length s) - 1 < minNodeCount st then int (length s) - 1 else minNodeCount st)"
    "maxNodeCount ?st = (if int (length s) - 1 > maxNodeCount st then int (length s) - 1 else maxNodeCount st)"
    "minDepth ?st = (if find_maximum_tree_depth s < minDepth st then find_maximum_tree_depth s else minDepth st)"
    "maxDepth ?st = (if find_maximum_tree_depth s > maxDepth st then find_maximum_tree_depth s else maxDepth st)"
    using False conjunct1 [OF conjunct2 [OF conjunct2 [OF T]]] by (simp_all add: add_tree_def map_insert_cases c_str_id [OF s] Let_def)
  have new: "map_of (treeIdMap (impl st)) s = None" using False T by (simp add: map_of_eq_None_iff)
  have ids: "map_of ?m ((ts @ [s]) ! k) = Some (int k)"
    if "k < length (ts @ [s])" "(ts @ [s]) ! k \<notin> set (take k (ts @ [s]))" for k
  proof (cases "k < length ts")
    case True
    then have "ts ! k \<noteq> s" using False by (metis nth_mem)
    then show ?thesis using T True that(2) by (simp add: nth_append)
  next
    case False
    then have "k = length ts" using that(1) by simp
    then show ?thesis using new T by (simp add: map_add_def map_of_append)
  qed
  have S: "set (ts @ [s]) = insert s (set ts)" by auto
  note E = extremes_insert [OF finite_imageI [OF finite_set]]
  have "distinct (map fst ?m)" "fst ` set ?m = insert s (set ts)" using T False by auto
  moreover have "next_id st + 1 = int (length (ts @ [s]))" using T by simp
  ultimately show ?thesis
    unfolding table_def st S image_insert E
    by (intro conjI allI impI) (assumption | erule (1) ids | simp only: T)+
qed

lemma table_adds: "table us st \<Longrightarrow> \<forall>s \<in> set ts. NUL \<notin> set s \<Longrightarrow> table (us @ ts) (add_trees ts st)"
proof (induction ts arbitrary: us st)
  case (Cons s ts)
  from Cons.IH [OF table_add [OF Cons.prems(1)]] Cons.prems(2)
  show ?case by (simp add: add_trees_def)
qed (simp add: add_trees_def)

text \<open>What the table answers.\<close>

definition answers :: "TreeIdMap \<Rightarrow> string list \<Rightarrow> bool" where
  "answers m ts \<longleftrightarrow>
     (\<forall>k < length ts. ts ! k \<notin> set (take k ts) \<longrightarrow> treestring_to_id m (ts ! k) = int k) \<and>
     (\<forall>s. s \<notin> set ts \<longrightarrow> treestring_to_id m s = INVALID_TREE_ID) \<and>
     tree_count m = int (card (set ts)) \<and>
     min_node_count m = Min (insert 32767 ((\<lambda>s. int (length s) - 1) ` set ts)) \<and>
     max_node_count m = Max (insert 0 ((\<lambda>s. int (length s) - 1) ` set ts)) \<and>
     tm_min_depth m = Min (insert 32767 (find_maximum_tree_depth ` set ts)) \<and>
     tm_max_depth m = Max (insert 0 (find_maximum_tree_depth ` set ts)) \<and>
     max_adjacencies m = max_node_count m"

lemma table_answers:
  assumes "table ts st"
  shows "answers (owner_of st) ts"
proof -
  note T = assms [unfolded table_def]
  have "length (treeIdMap (impl st)) = card (set ts)"
    using T distinct_card [of "map fst (treeIdMap (impl st))"] by simp
  moreover have "map_of (treeIdMap (impl st)) s = None" if "s \<notin> set ts" for s
    using T that by (simp add: map_of_eq_None_iff)
  ultimately show ?thesis using T by (simp add: answers_def owner_of_def treestring_to_id_def)
qed

subsection \<open>The trees of a file\<close>

definition coloured :: "string \<Rightarrow> string" where
  "coloured s = fst (coloured_tree s)"

lemma coloured_tree_eq: "s \<noteq> [] \<Longrightarrow> coloured_tree s = (coloured s, int (length (coloured s)) - 1)"
  by (simp add: coloured_def coloured_tree_def)

lemma read_token_word:
  assumes "list_all isspace ws" "t \<noteq> []" "list_all (\<lambda>c. \<not> isspace c) t" "vs \<noteq> []" "list_all isspace vs"
  shows "read_token (ws @ t @ vs @ rest) = (t, vs @ rest, False)"
proof -
  have "dropWhile isspace (ws @ t @ vs @ rest) = t @ vs @ rest"
    using assms(1-3) by (cases t) (auto simp: list_all_iff dropWhile_append)
  moreover obtain v vs' where "vs = v # vs'" "isspace v" using assms(4,5) by (cases vs) auto
  ultimately show ?thesis
    using assms(3) by (simp add: read_token_def Let_def list_all_iff takeWhile_append dropWhile_append)
qed

lemma read_token_end: "list_all isspace ws \<Longrightarrow> read_token ws = ([], [], True)"
proof -
  assume "list_all isspace ws"
  then have "dropWhile isspace ws = []" by (metis dropWhile_eq_Nil_conv list_all_iff)
  then show ?thesis by (simp only: read_token_def Let_def) simp
qed

text \<open>A file: trees that are each followed by white space.\<close>

definition file_of :: "(string \<times> string) list \<Rightarrow> string" where
  "file_of items = concat (map (\<lambda>(t, ws). t @ ws) items)"

definition tree_item :: "string \<times> string \<Rightarrow> bool" where
  "tree_item = (\<lambda>(t, ws). t \<noteq> [] \<and> NUL \<notin> set t \<and> list_all (\<lambda>c. \<not> isspace c) t \<and> ws \<noteq> [] \<and> list_all isspace ws)"

lemma read_trees_items:
  "list_all tree_item items \<Longrightarrow> list_all isspace lead \<Longrightarrow>
   read_trees (lead @ file_of items) st = add_trees (map (coloured \<circ> fst) items) st"
proof (induction items arbitrary: lead st)
  case Nil
  then show ?case
    by (subst read_trees.simps) (simp add: file_of_def read_token_end add_trees_def)
next
  case (Cons a items)
  obtain t ws where a: "a = (t, ws)" by (cases a)
  note i = Cons.prems(1) [unfolded a list.pred_inject tree_item_def]
  have "read_token (lead @ file_of (a # items)) = (t, ws @ file_of items, False)"
    using read_token_word [of lead t ws "file_of items"] i Cons.prems(2) by (simp add: file_of_def a)
  then have "read_trees (lead @ file_of (a # items)) st =
      read_trees (ws @ file_of items) (add_tree (coloured t) (int (length (coloured t)) - 1) st)"
    using i by (subst read_trees.simps) (simp add: coloured_tree_eq del: read_trees.simps)
  moreover have "list_all tree_item items" using Cons.prems(1) by simp
  ultimately show ?case using Cons.IH [of ws] i by (simp add: a add_trees_def del: read_trees.simps)
qed

lemma coloured_NUL: "NUL \<notin> set t \<Longrightarrow> NUL \<notin> set (coloured t)"
  by (simp add: coloured_def coloured_tree_def NUL_def)

lemma file_answers:
  assumes "list_all tree_item items" "list_all isspace lead"
  shows "answers (initialize_treeidmap_from_file (Some (lead @ file_of items))) (map (coloured \<circ> fst) items)"
proof -
  have "\<forall>s \<in> set (map (coloured \<circ> fst) items). NUL \<notin> set s"
    using assms(1) by (auto simp: list_all_iff tree_item_def intro!: coloured_NUL)
  from table_adds [OF table_start this] show ?thesis
    using read_trees_items [OF assms, of "start_state 32767"]
    by (simp add: initialize_treeidmap_from_file_def start_state_def table_answers)
qed

text \<open>C31: A tree file, that is white space and then trees that are each followed by white space,
  is read back: the position of a tree in the file, with the colour \<open>w\<close> put before a tree that
  has none, is its identifier; a repeated tree keeps its first identifier, an unknown string has
  the invalid one, and the counts are those of the trees.\<close>

theorem tree_file_ids:
  assumes "list_all tree_item items" "list_all isspace lead"
    and "m = initialize_treeidmap_from_file (Some (lead @ file_of items))"
    and "ts = map (\<lambda>(t, ws). if hd t = CHR ''w'' \<or> hd t = CHR ''b'' then t else CHR ''w'' # t) items"
  shows "(\<forall>k < length ts. ts ! k \<notin> set (take k ts) \<longrightarrow> treestring_to_id m (ts ! k) = int k) \<and>
    (\<forall>s. s \<notin> set ts \<longrightarrow> treestring_to_id m s = INVALID_TREE_ID) \<and>
    tree_count m = int (card (set ts)) \<and>
    min_node_count m = Min (insert 32767 ((\<lambda>s. int (length s) - 1) ` set ts)) \<and>
    max_node_count m = Max (insert 0 ((\<lambda>s. int (length s) - 1) ` set ts))"
proof -
  have "ts = map (coloured \<circ> fst) items"
    unfolding assms(4) by (auto simp: coloured_def coloured_tree_def)
  then show ?thesis using file_answers [OF assms(1,2)] by (simp add: assms(3) answers_def)
qed

lemma tree_file_ids_witness:
  "treestring_to_id (initialize_treeidmap_from_file (Some ('' 012'' @ [CHR 0x0A] @ ''b0111'' @ [CHR 0x0A]))) ''b0111'' = 1"
proof -
  let ?items = "[(''012'', [CHR 0x0A]), (''b0111'', [CHR 0x0A])]"
  have "list_all tree_item ?items" "list_all isspace '' ''" by code_simp+
  from tree_file_ids [OF this refl refl] show ?thesis by (auto simp: file_of_def less_Suc_eq)
qed

end
