(* ===== verification/DefaultTrees.thy ===== *)
theory DefaultTrees
  imports TreeIds
begin

text \<open>
  The built-in table: its strings are distinct, have 19 nodes and height 2, and are left heavy
  strings. They are checked as lists of depths, on which the kernel computes fast.
\<close>

definition depth_digit :: "char \<Rightarrow> nat" where
  "depth_digit c = (if c = CHR ''2'' then 2 else if c = CHR ''1'' then 1 else if c = CHR ''0'' then 0
     else if c = CHR ''w'' then 3 else 4)"

definition digits :: "string \<Rightarrow> nat list" where
  "digits s = map depth_digit s"

definition to_string :: "nat list \<Rightarrow> string" where
  "to_string ds = map (\<lambda>d. depth_char (int d)) ds"

lemma to_string_digits: "set s \<subseteq> {CHR ''0'', CHR ''1'', CHR ''2''} \<Longrightarrow> to_string (digits s) = s"
proof (induction s)
  case (Cons c s)
  have "depth_char 0 = CHR ''0''" "depth_char 1 = CHR ''1''" "depth_char 2 = CHR ''2''" by code_simp+
  then show ?case using Cons by (auto simp: to_string_def digits_def depth_digit_def)
qed (simp add: to_string_def digits_def)

subsection \<open>Left heavy lists of depths\<close>

fun lexle :: "nat list \<Rightarrow> nat list \<Rightarrow> bool" where
  "lexle [] ys \<longleftrightarrow> True"
| "lexle (x # xs) [] \<longleftrightarrow> False"
| "lexle (x # xs) (y # ys) \<longleftrightarrow> x < y \<or> x = y \<and> lexle xs ys"

fun descending :: "nat list list \<Rightarrow> bool" where
  "descending (a # b # xs) \<longleftrightarrow> lexle b a \<and> descending (b # xs)"
| "descending _ \<longleftrightarrow> True"

text \<open>A list is cut before every \<open>d\<close>.\<close>

fun blocks :: "nat \<Rightarrow> nat list \<Rightarrow> nat list list" where
  "blocks d [] = []"
| "blocks d (x # xs) = (case blocks d xs of [] \<Rightarrow> [[x]] | b # bs \<Rightarrow> if hd b = d then [x] # b # bs else (x # b) # bs)"

fun canonical :: "nat \<Rightarrow> nat \<Rightarrow> nat list \<Rightarrow> bool" where
  "canonical 0 d s \<longleftrightarrow> False"
| "canonical (Suc k) d [] \<longleftrightarrow> False"
| "canonical (Suc k) d (x # xs) \<longleftrightarrow> x = d \<and> (let bs = blocks (Suc d) xs in descending bs \<and> list_all (canonical k (Suc d)) bs)"

lemma concat_blocks_id: "concat (blocks d xs) = xs"
  by (induction xs) (auto split: list.splits)

lemma lexle_strings:
  "lexle xs ys \<Longrightarrow> list_all (\<lambda>d. d \<le> 207) xs \<Longrightarrow> list_all (\<lambda>d. d \<le> 207) ys \<Longrightarrow> to_string xs \<le> to_string ys"
  by (induction xs ys rule: lexle.induct) (auto simp: to_string_def less_char_def of_char_depth)

lemma descending_strings:
  "descending bs \<Longrightarrow> list_all (list_all (\<lambda>d. d \<le> 207)) bs \<Longrightarrow> sorted_wrt (\<ge>) (map to_string bs)"
proof (induction bs rule: descending.induct)
  case (1 a b xs)
  then show ?case using lexle_strings [of b a] by (auto simp: sorted_wrt2 [OF transp_on_ge])
qed simp_all

lemma rev_sort_descending: "sorted_wrt (\<ge>) xs \<Longrightarrow> rev (sort xs) = (xs :: 'a::linorder list)"
proof -
  assume "sorted_wrt (\<ge>) xs"
  then have "sorted (rev xs)" by (simp add: sorted_wrt_rev)
  then have "sort xs = rev xs" by (intro properties_for_sort) simp_all
  then show ?thesis by simp
qed

lemma canonical_left_heavy:
  "canonical k d ds \<Longrightarrow> list_all (\<lambda>d. d \<le> 207) ds \<Longrightarrow> \<exists>t. left_heavy d t = to_string ds"
proof (induction k d ds rule: canonical.induct)
  case (3 k d x xs)
  let ?bs = "blocks (Suc d) xs"
  have x: "x = d" "descending ?bs" "\<forall>b \<in> set ?bs. canonical k (Suc d) b" using "3.prems"(1) by (auto simp: list_all_iff Let_def)
  have small: "list_all (list_all (\<lambda>d. d \<le> 207)) ?bs"
    using "3.prems"(2) arg_cong [OF concat_blocks_id, of set "Suc d" xs] by (auto simp: list_all_iff)
  have "\<forall>b \<in> set ?bs. \<exists>t. left_heavy (Suc d) t = to_string b"
    using "3.IH" [OF refl] x(3) small by (auto simp: list_all_iff)
  then obtain f where f: "\<And>b. b \<in> set ?bs \<Longrightarrow> left_heavy (Suc d) (f b) = to_string b" by metis
  have "left_heavy d (Tree (map f ?bs)) = depth_char (int d) # concat (rev (sort (map to_string ?bs)))"
    using f by (simp cong: map_cong)
  also have "\<dots> = depth_char (int d) # to_string (concat ?bs)"
    using rev_sort_descending [OF descending_strings [OF x(2) small]] by (simp add: to_string_def [abs_def] map_concat)
  finally have "left_heavy d (Tree (map f ?bs)) = to_string (x # xs)"
    using x(1) by (simp add: concat_blocks_id to_string_def)
  then show ?case by blast
qed simp_all

subsection \<open>The table\<close>

definition tree_number :: "string \<Rightarrow> nat" where
  "tree_number s = foldl (\<lambda>n d. 3 * n + d) 0 (digits s)"

lemma default_distinct: "distinct default_tree"
proof -
  have "distinct (map tree_number default_tree)"
    by (simp add: default_tree_def tree_number_def digits_def depth_digit_def del: distinct_map)
  then show ?thesis by (simp add: distinct_map)
qed

lemma default_canonical: "list_all (\<lambda>s. canonical 20 0 (digits (tl s))) default_tree"
  by code_simp

lemma default_facts:
  "list_all (\<lambda>s. length s = 20 \<and> set (tl s) \<subseteq> {CHR ''0'', CHR ''1'', CHR ''2''} \<and> NUL \<notin> set s) default_tree"
  "list_all (\<lambda>s. find_maximum_tree_depth s = 2) default_tree"
  "length default_tree = 216"
  by (simp_all add: default_tree_def NUL_def find_maximum_tree_depth_def digit_value_def)

lemma default_shape: "s \<in> set default_tree \<Longrightarrow> length s = 20 \<and> find_maximum_tree_depth s = 2 \<and> (\<exists>t. tl s = left_heavy 0 t)"
proof -
  assume s: "s \<in> set default_tree"
  then have d: "set (tl s) \<subseteq> {CHR ''0'', CHR ''1'', CHR ''2''}" using default_facts(1) by (auto simp: list_all_iff)
  have "canonical 20 0 (digits (tl s))" using default_canonical s by (simp add: list_all_iff)
  moreover have "list_all (\<lambda>d. d \<le> 207) (digits (tl s))" by (auto simp: list_all_iff digits_def depth_digit_def)
  ultimately have "\<exists>t. tl s = left_heavy 0 t" using canonical_left_heavy to_string_digits [OF d] by metis
  then show ?thesis using default_facts(1,2) s by (auto simp: list_all_iff)
qed

lemma add_default_trees_eq: "add_default_trees ts st = add_trees ts st"
  by (induction ts arbitrary: st) (simp_all add: add_trees_def)

lemma default_answers: "answers initialize_treeidmap default_tree"
  unfolding initialize_treeidmap_def add_default_trees_eq start_state_def [symmetric]
  by (rule table_answers) (use table_adds [OF table_start, of default_tree] default_facts(1) in \<open>simp add: list_all_iff\<close>)

lemma default_counts:
  "tree_count initialize_treeidmap = 216" "min_node_count initialize_treeidmap = 19" "max_node_count initialize_treeidmap = 19"
  "tm_min_depth initialize_treeidmap = 2" "tm_max_depth initialize_treeidmap = 2" "max_adjacencies initialize_treeidmap = 19"
proof -
  have ne: "default_tree \<noteq> []" using default_facts(3) by auto
  then have "(\<lambda>s. int (length s) - 1) ` set default_tree = {19}" "find_maximum_tree_depth ` set default_tree = {2}"
    using default_facts(1,2) by (auto simp: list_all_iff image_constant_conv cong: image_cong_simp)
  then show "tree_count initialize_treeidmap = 216" "min_node_count initialize_treeidmap = 19" "max_node_count initialize_treeidmap = 19"
    "tm_min_depth initialize_treeidmap = 2" "tm_max_depth initialize_treeidmap = 2" "max_adjacencies initialize_treeidmap = 19"
    using default_answers default_facts(3) distinct_card [OF default_distinct] by (simp_all add: answers_def)
qed

lemma default_id: "k < 216 \<Longrightarrow> treestring_to_id initialize_treeidmap (default_tree ! k) = int k"
proof -
  assume k: "k < 216"
  then have "default_tree ! k \<notin> set (take k default_tree)"
    using default_distinct default_facts(3) by (auto simp: distinct_conv_nth in_set_conv_nth)
  then show ?thesis using default_answers k default_facts(3) by (simp add: answers_def)
qed

lemma default_id_iff: "k < 216 \<Longrightarrow> treestring_to_id initialize_treeidmap s = int k \<longleftrightarrow> s = default_tree ! k"
proof (cases "s \<in> set default_tree")
  case True
  assume k: "k < 216"
  obtain i where i: "i < 216" "s = default_tree ! i" using True default_facts(3) by (metis in_set_conv_nth)
  then show ?thesis using k default_id [OF i(1)] default_distinct default_facts(3) by (auto simp: nth_eq_iff_index_eq)
next
  case False
  assume "k < 216"
  then show ?thesis using False default_answers default_facts(3) by (auto simp: answers_def INVALID_TREE_ID_def)
qed

text \<open>C30: The built-in table has 216 different trees of 19 nodes and height 2; the identifier of
  a tree is its position in the table, and each entry is, after its colour, the left heavy depth
  string of a tree, so that the tracker can report every identifier.\<close>

theorem default_tree_ids:
  "map (treestring_to_id initialize_treeidmap) default_tree = map int [0..<216] \<and>
   tree_count initialize_treeidmap = 216 \<and>
   min_node_count initialize_treeidmap = 19 \<and> max_node_count initialize_treeidmap = 19 \<and>
   tm_min_depth initialize_treeidmap = 2 \<and> tm_max_depth initialize_treeidmap = 2 \<and>
   list_all (\<lambda>s. hd s \<in> {CHR ''w'', CHR ''b''} \<and> (\<exists>t. tl s = left_heavy 0 t)) default_tree"
proof (intro conjI)
  show "map (treestring_to_id initialize_treeidmap) default_tree = map int [0..<216]"
    by (rule nth_equalityI) (simp_all add: default_facts(3) default_id)
  have "list_all (\<lambda>s. hd s \<in> {CHR ''w'', CHR ''b''}) default_tree" by (simp add: default_tree_def)
  then show "list_all (\<lambda>s. hd s \<in> {CHR ''w'', CHR ''b''} \<and> (\<exists>t. tl s = left_heavy 0 t)) default_tree"
    using default_shape by (auto simp: list_all_iff)
qed (rule default_counts)+

end
