(* ===== verification/FidtrackIds.thy ===== *)
theory FidtrackIds
  imports FidtrackLeafs DefaultTrees
begin

text \<open>
  \<open>find_fiducialsX\<close> as a whole: it returns, and the identifiers that it reports are those of
  the trees of regions below the roots.
\<close>

subsection \<open>What the statistics leave unchanged\<close>

definition same_but_walk :: "World \<Rightarrow> World \<Rightarrow> bool" where
  "same_but_walk w w' \<longleftrightarrow> heads w' = heads w \<and> length (regions (seg w')) = length (regions (seg w)) \<and>
     (\<forall>i < length (regions (seg w)). \<exists>as ds d. mset as = mset (adjacent_regions (reg (seg w) i)) \<and>
        reg (seg w') i = (reg (seg w) i)\<lparr>adjacent_regions := as, depth_string := ds, depth := d\<rparr>)"

lemma same_but_walk_refl [simp]: "same_but_walk w w"
  unfolding same_but_walk_def
proof (intro conjI allI impI refl)
  fix i show "\<exists>as ds d. mset as = mset (adjacent_regions (reg (seg w) i)) \<and>
      reg (seg w) i = (reg (seg w) i)\<lparr>adjacent_regions := as, depth_string := ds, depth := d\<rparr>"
    by (rule exI [of _ "adjacent_regions (reg (seg w) i)"], rule exI [of _ "depth_string (reg (seg w) i)"],
        rule exI [of _ "depth (reg (seg w) i)"]) simp
qed

lemma same_but_walkD:
  assumes "same_but_walk w w'" "i < length (regions (seg w))"
  shows "mset (adjacent_regions (reg (seg w') i)) = mset (adjacent_regions (reg (seg w) i))"
    "level (reg (seg w') i) = level (reg (seg w) i)" "descendent_count (reg (seg w') i) = descendent_count (reg (seg w) i)"
    "flags (reg (seg w') i) = flags (reg (seg w) i)" "colour (reg (seg w') i) = colour (reg (seg w) i)"
    "left (reg (seg w') i) = left (reg (seg w) i)" "right (reg (seg w') i) = right (reg (seg w) i)"
    "rtop (reg (seg w') i) = rtop (reg (seg w) i)" "bottom (reg (seg w') i) = bottom (reg (seg w) i)"
    "nxt (reg (seg w') i) = nxt (reg (seg w) i)" "previous (reg (seg w') i) = previous (reg (seg w) i)"
proof -
  obtain as ds d where "mset as = mset (adjacent_regions (reg (seg w) i))"
      "reg (seg w') i = (reg (seg w) i)\<lparr>adjacent_regions := as, depth_string := ds, depth := d\<rparr>"
    using assms unfolding same_but_walk_def by blast
  then show "mset (adjacent_regions (reg (seg w') i)) = mset (adjacent_regions (reg (seg w) i))"
    "level (reg (seg w') i) = level (reg (seg w) i)" "descendent_count (reg (seg w') i) = descendent_count (reg (seg w) i)"
    "flags (reg (seg w') i) = flags (reg (seg w) i)" "colour (reg (seg w') i) = colour (reg (seg w) i)"
    "left (reg (seg w') i) = left (reg (seg w) i)" "right (reg (seg w') i) = right (reg (seg w) i)"
    "rtop (reg (seg w') i) = rtop (reg (seg w) i)" "bottom (reg (seg w') i) = bottom (reg (seg w) i)"
    "nxt (reg (seg w') i) = nxt (reg (seg w) i)" "previous (reg (seg w') i) = previous (reg (seg w) i)"
    by simp_all
qed

lemma same_but_walk_trans:
  assumes "same_but_walk w w'" "same_but_walk w' w''"
  shows "same_but_walk w w''"
  unfolding same_but_walk_def
proof (intro conjI allI impI)
  show "heads w'' = heads w" "length (regions (seg w'')) = length (regions (seg w))"
    using assms by (simp_all add: same_but_walk_def)
  fix i assume i: "i < length (regions (seg w))"
  then have i': "i < length (regions (seg w'))" using assms(1) by (simp add: same_but_walk_def)
  obtain as ds d where "mset as = mset (adjacent_regions (reg (seg w) i))"
      "reg (seg w') i = (reg (seg w) i)\<lparr>adjacent_regions := as, depth_string := ds, depth := d\<rparr>"
    using assms(1) i unfolding same_but_walk_def by blast
  moreover obtain as' ds' d' where "mset as' = mset (adjacent_regions (reg (seg w') i))"
      "reg (seg w'') i = (reg (seg w') i)\<lparr>adjacent_regions := as', depth_string := ds', depth := d'\<rparr>"
    using assms(2) i' unfolding same_but_walk_def by blast
  ultimately show "\<exists>as ds d. mset as = mset (adjacent_regions (reg (seg w) i)) \<and>
      reg (seg w'') i = (reg (seg w) i)\<lparr>adjacent_regions := as, depth_string := ds, depth := d\<rparr>"
    by (intro exI [of _ as'] exI [of _ ds'] exI [of _ d']) simp
qed

lemma same_but_walk_depth:
  assumes "same_but_depth w w'"
  shows "same_but_walk w w'"
  unfolding same_but_walk_def
proof (intro conjI allI impI)
  show "heads w' = heads w" "length (regions (seg w')) = length (regions (seg w))"
    using assms by (simp_all add: same_but_depth_def)
  fix i assume "i < length (regions (seg w))"
  then obtain d where "reg (seg w') i = (reg (seg w) i)\<lparr>depth := d\<rparr>" using assms unfolding same_but_depth_def by blast
  then show "\<exists>as ds d. mset as = mset (adjacent_regions (reg (seg w) i)) \<and>
      reg (seg w') i = (reg (seg w) i)\<lparr>adjacent_regions := as, depth_string := ds, depth := d\<rparr>"
    by (intro exI [of _ "adjacent_regions (reg (seg w) i)"] exI [of _ "depth_string (reg (seg w) i)"] exI [of _ d]) simp
qed

lemma same_but_walk_walked:
  assumes "walked U w w'"
  shows "same_but_walk w w'"
  unfolding same_but_walk_def
proof (intro conjI allI impI)
  show "heads w' = heads w" "length (regions (seg w')) = length (regions (seg w))"
    using assms by (simp_all add: walked_def)
  fix i assume "i < length (regions (seg w))"
  then obtain as ds where "mset as = mset (adjacent_regions (reg (seg w) i))"
      "reg (seg w') i = (reg (seg w) i)\<lparr>adjacent_regions := as, depth_string := ds\<rparr>"
    using assms unfolding walked_def by blast
  then show "\<exists>as ds d. mset as = mset (adjacent_regions (reg (seg w) i)) \<and>
      reg (seg w') i = (reg (seg w) i)\<lparr>adjacent_regions := as, depth_string := ds, depth := d\<rparr>"
    by (intro exI [of _ as] exI [of _ ds] exI [of _ "depth (reg (seg w) i)"]) simp
qed

lemma same_but_walk_valid: "same_but_walk w w' \<Longrightarrow> valid w' p = valid w p"
  by (cases p) (simp_all add: same_but_walk_def)

lemma same_but_walk_ring:
  assumes "same_but_walk w w'" "ring_of w (Head k) xs"
  shows "ring_of w' (Head k) xs"
proof (rule ring_frame [OF assms(2)])
  show "valid w' p = valid w p" for p by (rule same_but_walk_valid [OF assms(1)])
  fix q assume "q \<in> set (Head k # map Reg xs)"
  then have v: "valid w q" by (rule ring_ofD(6) [OF assms(2)])
  have "heads w' = heads w" using assms(1) by (simp add: same_but_walk_def)
  then show "nxt (RegionList.at w' q) = nxt (RegionList.at w q) \<and> previous (RegionList.at w' q) = previous (RegionList.at w q)"
    using v same_but_walkD(10,11) [OF assms(1)] by (cases q) simp_all
qed

lemma same_but_walk_tree_world:
  assumes "same_but_walk w w'" "tree_world s g w" "region_count s \<le> length (regions s)"
  shows "tree_world s g w'"
  unfolding tree_world_def
proof (intro conjI allI impI)
  note W = tree_worldD [OF assms(2)]
  show "length (regions (seg w')) = length (regions s)" using W(1) assms(1) by (simp add: same_but_walk_def)
  fix i assume i: "i < region_count s"
  then have "i < length (regions (seg w))" using W(1) assms(3) by simp
  note S = same_but_walkD [OF assms(1) this]
  show "mset (adjacent_regions (reg (seg w') i)) = mset (adj0 s i)"
    "(level (reg (seg w') i) = TRAVERSED) = (i \<in> set (order g))"
    "descendent_count (reg (seg w') i) = (if i \<in> set (order g) then int (nodes (below g i)) - 1 else 32767)"
    using S(1-3) W(2-5) [OF i] by auto
qed

subsection \<open>The size of a tree of regions\<close>

lemma finite_under:
  assumes t: "traversed s g"
  shows "r \<in> set (order g) \<Longrightarrow> finite (under g r) \<and> card (under g r) \<le> nodes (below g r)"
proof (induction "nodes (below g r)" arbitrary: r rule: less_induct)
  case less
  note K = kids_facts [OF t less.prems]
  have kid: "finite (under g a) \<and> card (under g a) \<le> nodes (below g a)" if "a \<in> set (kids s g r)" for a
    using less.hyps [of a] K(3) [OF that] K(5) by blast
  have "card (\<Union>a \<in> set (kids s g r). under g a) \<le> (\<Sum>a \<in> set (kids s g r). card (under g a))"
    by (rule card_UN_le) simp
  also have "\<dots> \<le> (\<Sum>a \<in> set (kids s g r). nodes (below g a))" using kid by (intro sum_mono) simp
  also have "\<dots> = sum_list (map (\<lambda>a. nodes (below g a)) (kids s g r))"
    using K(2) by (simp add: sum_list_distinct_conv_sum_set)
  finally have "card (\<Union>a \<in> set (kids s g r). under g a) \<le> sum_list (map (\<lambda>a. nodes (below g a)) (kids s g r))" .
  moreover have "finite (\<Union>a \<in> set (kids s g r). under g a)" using kid by blast
  moreover have "nodes (below g r) = Suc (sum_list (map (\<lambda>a. nodes (below g a)) (kids s g r)))"
    by (subst K(1)) (simp add: comp_def)
  ultimately show ?case
    unfolding under_kids [OF t less.prems] using card_insert_le_m1 by (simp add: card_insert_if)
qed

lemma under_depth:
  assumes t: "traversed s g" and r: "r \<in> set (order g)" and num: "numbering g D r" and i: "i \<in> under g r"
  shows "0 \<le> D i \<and> D i + int (tree_height (below g i)) \<le> D r + int (tree_height (below g r))"
  using i
proof (induction rule: under.induct)
  case under_root
  then show ?case using num by (simp add: numbering_def)
next
  case (under_child y a)
  have "D a = D y + 1" using num under_child(1,2) by (simp add: numbering_def)
  then show ?case using under_child(3) height_child [OF t under_visited(1) [OF t r under_child(1)] under_child(2)] by simp
qed

subsection \<open>The coloured string\<close>

lemma coloured_string:
  assumes "c \<noteq> NUL" "NUL \<notin> set x" "int (length x) + 2 \<le> ilength temp"
  shows "\<exists>temp1 temp2 temp3. wr temp 0 c = Some temp1 \<and> wr temp1 1 NUL = Some temp2 \<and>
    strcat temp2 x = Some temp3 \<and> c_string temp3 0 = Some (c # x) \<and> length temp3 = length temp"
proof -
  obtain a b rest where temp: "temp = a # b # rest" using assms(3) by (cases temp; cases "tl temp") auto
  let ?t = "c # NUL # rest"
  have s: "strcat ?t x = Some (c # x @ NUL # drop (length x) rest)"
    using assms(1,3) temp by (simp add: strcat_def c_string_def c_assert_def)
  have "c_string (c # x @ NUL # drop (length x) rest) 0 = Some (c # x)"
    using assms(1,2) by (simp add: c_string_def takeWhile_append)
  then show ?thesis using s temp assms(3) by (simp add: wr_def buf_write_def)
qed

subsection \<open>One root\<close>

text \<open>The leafs that the statistics of a root add up.\<close>

definition shown_leafs :: "Segmenter \<Rightarrow> course \<Rightarrow> nat \<Rightarrow> nat set" where
  "shown_leafs s g r = (if length (adj0 s r) = 1 then {r} else tree_leafs s g r)"

lemma leafs_ok:
  assumes t: "traversed s g" and r: "r \<in> set (order g)" and w: "tree_world s g w"
    and h: "tree_height (below g r) \<le> 207"
  shows "\<exists>w2 ls. set_depth w r 0 = Some w2 \<and> same_but_depth w w2 \<and> distinct ls \<and> set ls = shown_leafs s g r \<and>
    (\<forall>i \<in> set ls. i < region_count s \<and> depth (reg (seg w2) i) = distance g r i) \<and>
    (\<forall>S. sum_leaf_centers warp W H w2 r S = add_leafs warp W H (map (reg (seg w2)) ls) S)"
proof -
  note D = traversedD [OF t] and num = numbering_distance [OF t r]
  have len: "length (regions (seg w)) = length (regions s)" by (rule tree_worldD(1) [OF w])
  have rl: "r < length (regions (seg w))" using len D(4) D(5) [OF r] by simp
  have fuel: "nodes (below g r) \<le> Suc (length (regions s))" using D(4) D(6) [OF r] by simp
  have adj: "length (adj0 (seg v) i) = length (adj0 s i)" if "tree_world s g v" "i < region_count s" for v i
    using arg_cong [OF tree_worldD(2) [OF that], of size] by simp
  show ?thesis
  proof (cases "length (adj0 s r) = 1")
    case True
    let ?w2 = "put w (Reg r) ((reg (seg w) r)\<lparr>depth := 0\<rparr>)"
    have w2: "tree_world s g ?w2" by (rule tree_world_depth [OF same_but_depth_put w D(4)])
    have d: "set_depth w r 0 = Some ?w2"
      using rl True adj [OF w D(5) [OF r]] by (simp add: set_depth_def buf_simps adjacent_region_count_def del: put.simps)
    have run: "sum_leaf_centers warp W H ?w2 r S = add_leafs warp W H (map (reg (seg ?w2)) [r]) S" for S
      using rl True adj [OF w D(5) [OF r]]
      by (cases "add_leaf warp W H ((reg (seg w) r)\<lparr>depth := 0\<rparr>) S")
        (simp_all add: sum_leaf_centers_def buf_simps adjacent_region_count_def)
    show ?thesis
      by (rule exI [of _ ?w2], rule exI [of _ "[r]"])
        (use d run same_but_depth_put True rl num(2) D(5) [OF r] in \<open>simp_all add: shown_leafs_def\<close>)
  next
    case False
    then have pr: "proper s g r" by (simp add: proper_def)
    obtain w2 where w2: "set_depth_rec (Suc (length (regions (seg w)))) w r (distance g r r) = Some w2"
        "depths_set (distance g r) (under g r) (under g r) w w2"
      using set_depth_rec_ok [OF t r pr w _ num(1)] fuel len by metis
    have sd: "same_but_depth w w2" using w2(2) by (simp add: depths_set_def)
    have tw2: "tree_world s g w2" by (rule tree_world_depth [OF sd w D(4)])
    obtain ls where ls: "distinct ls" "set ls = tree_leafs s g r"
        "\<forall>S. sum_leaf_rec warp W H (Suc (length (regions (seg w2)))) w2 r S = add_leafs warp W H (map (reg (seg w2)) ls) S"
      using sum_leaf_rec_ok [OF t tw2 r pr, of "Suc (length (regions (seg w2)))" warp W H] fuel tree_worldD(1) [OF tw2]
      by (auto simp: adds_all_def simp del: sum_leaf_rec.simps)
    have "\<forall>i \<in> set ls. i < region_count s \<and> depth (reg (seg w2) i) = distance g r i"
      using w2(2) ls(2) D(5) under_visited(1) [OF t r] by (auto simp: depths_set_def tree_leafs_def)
    moreover have "set_depth w r 0 = Some w2" using w2(1) num(2) by (simp add: set_depth_def del: set_depth_rec.simps)
    ultimately show ?thesis
      using sd ls False by (intro exI [of _ w2] exI [of _ ls]) (simp add: sum_leaf_centers_def shown_leafs_def del: sum_leaf_rec.simps)
  qed
qed

text \<open>The sums over the leafs of a root and the place that is computed from them: no
  conversion overflows, and the symbol is not lost.\<close>

definition sums_ok :: "(ieee \<Rightarrow> ieee) \<Rightarrow> warp \<Rightarrow> int \<Rightarrow> int \<Rightarrow> Region list \<Rightarrow> bool" where
  "sums_ok atan warp W H xs \<longleftrightarrow> (\<exists>S. add_leafs warp W H xs no_leafs = Some S \<and>
     (\<forall>a f. \<exists>f'. place_fiducial atan warp W H (S\<lparr>average_leaf_size := a\<rparr>) f = Some (f', False)))"

definition same_box :: "Region \<Rightarrow> Region \<Rightarrow> bool" where
  "same_box x y \<longleftrightarrow> left x = left y \<and> right x = right y \<and> rtop x = rtop y \<and> bottom x = bottom y \<and> colour x = colour y"

definition measurable :: "(ieee \<Rightarrow> ieee) \<Rightarrow> warp \<Rightarrow> int \<Rightarrow> int \<Rightarrow> Segmenter \<Rightarrow> course \<Rightarrow> nat \<Rightarrow> bool" where
  "measurable atan warp W H s g r \<longleftrightarrow> (\<forall>ls x. distinct ls \<longrightarrow> set ls = shown_leafs s g r \<longrightarrow>
     (\<forall>i \<in> set ls. same_box (x i) (reg s i) \<and> depth (x i) = distance g r i) \<longrightarrow> sums_ok atan warp W H (map x ls))"

lemma shown_leafs_depth:
  assumes t: "traversed s g" and r: "r \<in> set (order g)" and i: "i \<in> shown_leafs s g r"
  shows "i \<in> under g r" "0 \<le> distance g r i" "distance g r i \<le> int (tree_height (below g r))"
proof -
  show u: "i \<in> under g r" using i under_root by (auto simp: shown_leafs_def tree_leafs_def split: if_splits)
  show "0 \<le> distance g r i" "distance g r i \<le> int (tree_height (below g r))"
    using under_depth [OF t r numbering_distance(1) [OF t r] u] numbering_distance(2) [OF t r] by simp_all
qed

lemma shown_leafs_count:
  assumes t: "traversed s g" and r: "r \<in> set (order g)" and ls: "distinct ls" "set ls = shown_leafs s g r"
  shows "length ls \<le> nodes (below g r)"
proof -
  note U = finite_under [OF t r]
  have "card (shown_leafs s g r) \<le> card (under g r)" using U shown_leafs_depth(1) [OF t r] by (intro card_mono) auto
  then show ?thesis using U distinct_card [OF ls(1)] ls(2) by simp
qed

lemma measurable_plain:
  assumes t: "traversed s g" and r: "r \<in> set (order g)"
    and n: "nodes (below g r) \<le> 8002" and h: "tree_height (below g r) \<le> 207"
  shows "measurable atan None W H s g r"
  unfolding measurable_def
proof (intro allI impI)
  fix ls x assume ls: "distinct ls" "set ls = shown_leafs s g r"
    and x: "\<forall>i \<in> set ls. same_box (x i) (reg s i) \<and> depth (x i) = distance g r i"
  have d: "\<forall>y \<in> set (map x ls). 0 \<le> depth y \<and> depth y \<le> 207"
    using shown_leafs_depth [OF t r] ls x h by fastforce
  have c: "0 \<le> total_leaf_count no_leafs" "total_leaf_count no_leafs + 173056 * int (length (map x ls)) \<le> 2147483647"
    using shown_leafs_count [OF t r ls] n by (simp_all add: no_leafs_def)
  show "sums_ok atan None W H (map x ls)"
    using add_leafs_ok [OF d c, of W H] by (auto simp: sums_ok_def place_fiducial_def Let_def)
qed

text \<open>The buffers of the tracker keep their lengths.\<close>

definition buffers_like :: "FidtrackerX \<Rightarrow> FidtrackerX \<Rightarrow> bool" where
  "buffers_like t0 t \<longleftrightarrow> (\<exists>n m b. t = t0\<lparr>next_depth_string := n, depth_strings := m, temp_coloured_depth_string := b\<rparr> \<and>
     length m = length (depth_strings t0) \<and> length b = length (temp_coloured_depth_string t0))"

lemma buffers_like_refl: "buffers_like t t"
  unfolding buffers_like_def
  by (rule exI [of _ "next_depth_string t"], rule exI [of _ "depth_strings t"], rule exI [of _ "temp_coloured_depth_string t"]) simp

lemma buffers_likeD:
  assumes "buffers_like t0 t"
  shows "length (depth_strings t) = length (depth_strings t0)" "length (temp_coloured_depth_string t) = length (temp_coloured_depth_string t0)"
    "depth_string_length t = depth_string_length t0" "depth_string_count t = depth_string_count t0"
  using assms by (auto simp: buffers_like_def)

lemma buffers_like_upd:
  assumes "buffers_like t0 t" "length m = length (depth_strings t)" "length b = length (temp_coloured_depth_string t)"
  shows "buffers_like t0 (t\<lparr>next_depth_string := n, depth_strings := m, temp_coloured_depth_string := b\<rparr>)"
proof -
  have "length m = length (depth_strings t0)" "length b = length (temp_coloured_depth_string t0)"
    using assms(2,3) buffers_likeD(1,2) [OF assms(1)] by simp_all
  moreover have "t\<lparr>next_depth_string := n, depth_strings := m, temp_coloured_depth_string := b\<rparr> =
      t0\<lparr>next_depth_string := n, depth_strings := m, temp_coloured_depth_string := b\<rparr>"
    using assms(1) by (auto simp: buffers_like_def)
  ultimately show ?thesis unfolding buffers_like_def by blast
qed

text \<open>The identifier that belongs to a tree.\<close>

definition coloured_string_of :: "byte \<Rightarrow> tree \<Rightarrow> string" where
  "coloured_string_of c t = (if c = 0 then CHR ''b'' else CHR ''w'') # left_heavy 0 t"

definition reports :: "TreeIdMap \<Rightarrow> Region \<Rightarrow> tree \<Rightarrow> FiducialX \<Rightarrow> bool" where
  "reports m x t f \<longleftrightarrow> root_colour f = uint (colour x) \<and> node_count f = descendent_count x \<and>
     fid f = (if flag_set (flags x) LOST_SYMBOL_FLAG then INVALID_TREE_ID else treestring_to_id m (coloured_string_of (colour x) t))"

lemma statistics_ok:
  assumes t: "traversed s g" and q: "sorts qsort" and r: "r \<in> set (order g)" and w: "tree_world s g w"
    and h: "tree_height (below g r) \<le> 207"
    and ft: "pixelwarp ft = warp" "buffers_like t0 (tracker ft)"
    and box: "\<And>i. i < region_count s \<Longrightarrow> same_box (reg (seg w) i) (reg s i)" and me: "measurable atan warp W H s g r"
    and rm: "\<not> flag_set (flags (reg (seg w) r)) LOST_SYMBOL_FLAG \<Longrightarrow>
      room (t0\<lparr>next_depth_string := 0\<rparr>) (nodes (below g r)) (nodes (below g r)) \<and>
      int (nodes (below g r)) + 2 \<le> ilength (temp_coloured_depth_string t0)"
  shows "\<exists>ft' f' w'. compute_fiducial_statistics qsort atan ft f w r W H = Some (ft', f', w') \<and>
    same_but_walk w w' \<and> buffers_like t0 (tracker ft') \<and> treeidmap ft' = treeidmap ft \<and> pixelwarp ft' = warp \<and>
    reports (treeidmap ft) (reg (seg w) r) (shown_tree s r (below g r)) f'"
proof -
  note D = traversedD [OF t]
  obtain w2 ls where w2: "set_depth w r 0 = Some w2" "same_but_depth w w2" "distinct ls" "set ls = shown_leafs s g r"
      "\<forall>i \<in> set ls. i < region_count s \<and> depth (reg (seg w2) i) = distance g r i"
      "\<forall>S. sum_leaf_centers warp W H w2 r S = add_leafs warp W H (map (reg (seg w2)) ls) S"
    using leafs_ok [OF t r w h, of warp W H] by blast
  have rl: "r < length (regions (seg w))" using tree_worldD(1) [OF w] D(4) D(5) [OF r] by simp
  then have rl2: "r < length (regions (seg w2))" using w2(2) by (simp add: same_but_depth_def)
  note R2 = same_but_walkD [OF same_but_walk_depth [OF w2(2)] rl]
  have "\<forall>i \<in> set ls. same_box (reg (seg w2) i) (reg s i) \<and> depth (reg (seg w2) i) = distance g r i"
  proof
    fix i assume i: "i \<in> set ls"
    then have "i < length (regions (seg w))" using w2(5) tree_worldD(1) [OF w] D(4) by fastforce
    from same_but_walkD [OF same_but_walk_depth [OF w2(2)] this]
    show "same_box (reg (seg w2) i) (reg s i) \<and> depth (reg (seg w2) i) = distance g r i"
      using box [of i] w2(5) i by (simp add: same_box_def)
  qed
  then have "sums_ok atan warp W H (map (reg (seg w2)) ls)" using me w2(3,4) unfolding measurable_def by blast
  then obtain S where S: "sum_leaf_centers warp W H w2 r no_leafs = Some S"
      "\<forall>a f. \<exists>f'. place_fiducial atan warp W H (S\<lparr>average_leaf_size := a\<rparr>) f = Some (f', False)"
    using w2(6) by (auto simp: sums_ok_def)
  let ?S = "S\<lparr>average_leaf_size := ddiv (total_leaf_size S) (dint (total_leaf_count S))\<rparr>"
  obtain f1 where f1: "place_fiducial atan warp W H ?S f = Some (f1, False)" using S(2) by blast
  show ?thesis
  proof (cases "flag_set (flags (reg (seg w) r)) LOST_SYMBOL_FLAG")
    case True
    show ?thesis
      using True f1 S(1) w2(1) rl2 R2 ft same_but_walk_depth [OF w2(2)]
      by (simp add: compute_fiducial_statistics_def Let_def buf_simps reports_def)
  next
    case False
    let ?t = "(tracker ft)\<lparr>next_depth_string := 0\<rparr>"
    have rt: "room ?t (nodes (below g r)) (nodes (below g r))" and tl: "int (nodes (below g r)) + 2 \<le> ilength (temp_coloured_depth_string t0)"
      using rm [OF False] buffers_likeD [OF ft(2)] by (auto simp: room_def)
    obtain t' w3 m where w3: "build_left_heavy_depth_string qsort ?t w2 r = Some (0, t', w3)"
        "str_at (depth_strings t') 0 (left_heavy 0 (shown_tree s r (below g r)))" "built ?t t' m" "walked (near g r) w2 w3"
      using string_of_root [OF t q r w rt h] w2(1) by auto
    let ?x = "left_heavy 0 (shown_tree s r (below g r))"
    let ?c = "if colour (reg (seg w) r) \<noteq> 0 then CHR ''w'' else CHR ''b''"
    obtain mem where t': "t' = ?t\<lparr>next_depth_string := next_depth_string ?t + int m, depth_strings := mem\<rparr>"
        "length mem = length (depth_strings ?t)" using w3(3) by (auto simp: built_def)
    have tmp: "temp_coloured_depth_string t' = temp_coloured_depth_string (tracker ft)" by (simp add: t'(1))
    have nul: "NUL \<notin> set ?x" using w3(2) by (simp add: str_at_def)
    have "length ?x \<le> nodes (below g r)" by (simp add: shown_tree_def Suc_le_eq)
    then have lx: "int (length ?x) + 2 \<le> ilength (temp_coloured_depth_string t')"
      using tl buffers_likeD(2) [OF ft(2)] unfolding tmp by simp
    have c: "?c \<noteq> NUL" by (simp add: NUL_def)
    obtain temp1 temp2 temp3 where temp: "wr (temp_coloured_depth_string t') 0 ?c = Some temp1" "wr temp1 1 NUL = Some temp2"
        "strcat temp2 ?x = Some temp3" "c_string temp3 0 = Some (?c # ?x)" "length temp3 = length (temp_coloured_depth_string t')"
      using coloured_string [OF c nul lx] by blast
    have cs: "c_string (depth_strings t') 0 = Some ?x" using str_at_c_string [OF w3(2)] .
    have like: "buffers_like t0 (t'\<lparr>temp_coloured_depth_string := temp3\<rparr>)"
      using buffers_like_upd [OF ft(2), of mem temp3 "int m"] t' temp(5) tmp by simp
    have walk: "same_but_walk w w3"
      using same_but_walk_trans [OF same_but_walk_depth [OF w2(2)] same_but_walk_walked [OF w3(4)]] .
    show ?thesis
      using f1 S(1) w2(1) rl2 R2 ft(1) False w3(1) temp(1-4) cs like walk
      by (simp add: compute_fiducial_statistics_def Let_def buf_simps reports_def coloured_string_of_def)
  qed
qed

subsection \<open>All roots\<close>

lemma root_size:
  assumes ft: "ft = initialize_fidtrackerX malloc info" and malloc: "\<And>n. length (malloc n) = nat n"
    and root: "is_fiducial_root ft t" and n: "nodes t \<le> 32768" and m: "max_node_count info \<le> 8000" "tm_max_depth info \<le> 207"
  shows "nodes t \<le> 8002" "tree_height t \<le> 207"
    "exact_root ft t \<or> partial_root ft t \<Longrightarrow> room (ft\<lparr>next_depth_string := 0\<rparr>) (nodes t) (nodes t) \<and>
       int (nodes t) + 2 \<le> ilength (temp_coloured_depth_string ft)"
proof -
  show "nodes t \<le> 8002" "tree_height t \<le> 207"
    using root n m
    by (auto simp: is_fiducial_root_def exact_root_def partial_root_def fuzzy_root_def depth_fits_def ft
        initialize_fidtrackerX_def Let_def short_count_exact short_height_exact FUZZY_NODE_RANGE_def)
  assume r: "exact_root ft t \<or> partial_root ft t"
  have "ft\<lparr>next_depth_string := 0\<rparr> = ft" by (simp add: ft initialize_fidtrackerX_def Let_def)
  moreover have "int (nodes t) + 2 \<le> ilength (temp_coloured_depth_string ft)"
    using r n malloc by (auto simp: ft initialize_fidtrackerX_def Let_def exact_root_def partial_root_def short_count_exact)
  ultimately show "room (ft\<lparr>next_depth_string := 0\<rparr>) (nodes t) (nodes t) \<and>
       int (nodes t) + 2 \<le> ilength (temp_coloured_depth_string ft)"
    using root_room(1) [OF ft malloc r n] by simp
qed

lemma not_lost_root:
  assumes f: "fields ft s g w" and t: "traversed s g" and r: "r \<in> set (roots_of ft g)"
    and l: "\<not> flag_set (flags (reg (seg w) r)) LOST_SYMBOL_FLAG"
  shows "exact_root ft (below g r) \<or> partial_root ft (below g r)"
proof -
  have ro: "r \<in> set (order g)" using r roots_of_order by blast
  have "\<not> fuzzy_root ft (below g r)"
    using fieldsD(3) [OF f traversedD(5) [OF t ro]] ro l
    by (auto simp: region_of_def flag_set_or LOST_SYMBOL_FLAG_def flag_set_def split: if_splits)
  then show ?thesis using r by (auto simp: roots_of_def is_fiducial_root_def)
qed

text \<open>The state of the loop after the roots \<open>ys\<close>.\<close>

definition loop_ok ::
  "warp \<Rightarrow> Segmenter \<Rightarrow> course \<Rightarrow> FidtrackerX \<Rightarrow> TreeIdMap \<Rightarrow> World \<Rightarrow> nat \<Rightarrow> nat list \<Rightarrow> fiducials_state \<Rightarrow> bool" where
  "loop_ok warp s g t0 tm w1 l ys = (\<lambda>(i, fs, ft, w). i = int (length ys) \<and> same_but_walk w1 w \<and> buffers_like t0 (tracker ft) \<and>
     treeidmap ft = tm \<and> pixelwarp ft = warp \<and> length fs = l \<and>
     (\<forall>j < length ys. reports tm (reg (seg w1) (ys ! j)) (shown_tree s (ys ! j) (below g (ys ! j))) (fs ! j)))"

lemma fiducial_step_ok:
  assumes t: "traversed s g" and q: "sorts qsort" and f: "fields t0 s g w1" and w1: "tree_world s g w1"
    and t0: "t0 = initialize_fidtrackerX malloc info" and malloc: "\<And>n. length (malloc n) = nat n"
    and m: "max_node_count info \<le> 8000" "tm_max_depth info \<le> 207"
    and y: "y \<in> set (roots_of t0 g)" and st: "loop_ok warp s g t0 tm w1 l ys (i, fs, ft, w)" and i: "length ys < l"
    and me: "measurable atan warp W H s g y"
  shows "\<exists>st'. fiducial_step qsort atan max_count W H (Reg y) (i, fs, ft, w) = Some (st', i + 1 \<ge> max_count) \<and>
    loop_ok warp s g t0 tm w1 l (ys @ [y]) st' \<and> same_but_walk w1 (case st' of (i, fs, ft, w) \<Rightarrow> w)"
proof -
  note D = traversedD [OF t]
  have S: "i = int (length ys)" "same_but_walk w1 w" "buffers_like t0 (tracker ft)" "treeidmap ft = tm" "pixelwarp ft = warp"
    "length fs = l" "\<And>j. j < length ys \<Longrightarrow> reports tm (reg (seg w1) (ys ! j)) (shown_tree s (ys ! j) (below g (ys ! j))) (fs ! j)"
    using st by (auto simp: loop_ok_def)
  have yo: "y \<in> set (order g)" using y roots_of_order by blast
  have root: "is_fiducial_root t0 (below g y)" using y by (simp add: roots_of_def)
  have n: "nodes (below g y) \<le> 32768" using D(3,6) yo by fastforce
  note sz = root_size [OF t0 malloc root n m]
  have yl: "y < length (regions (seg w1))" using tree_worldD(1) [OF w1] D(4) D(5) [OF yo] by simp
  note Y = same_but_walkD [OF S(2) yl]
  have yl': "y < length (regions (seg w))" using yl S(2) by (simp add: same_but_walk_def)
  have "room (t0\<lparr>next_depth_string := 0\<rparr>) (nodes (below g y)) (nodes (below g y)) \<and>
      int (nodes (below g y)) + 2 \<le> ilength (temp_coloured_depth_string t0)"
    if "\<not> flag_set (flags (reg (seg w) y)) LOST_SYMBOL_FLAG"
    using sz(3) [OF not_lost_root [OF f t y]] that Y(4) by simp
  moreover have "same_box (reg (seg w) i) (reg s i)" if "i < region_count s" for i
    using fieldsD(3) [OF f that] same_but_walkD [OF S(2), of i] that D(4) fieldsD(2) [OF f]
    by (simp add: same_box_def region_of_def)
  ultimately
  obtain ft' f' w' where r: "compute_fiducial_statistics qsort atan ft (fs ! length ys) w y W H = Some (ft', f', w')"
      "same_but_walk w w'" "buffers_like t0 (tracker ft')" "treeidmap ft' = tm" "pixelwarp ft' = warp"
      "reports tm (reg (seg w) y) (shown_tree s y (below g y)) f'"
    using statistics_ok [OF t q yo same_but_walk_tree_world [OF S(2) w1 D(4)] sz(2) S(5,3) _ me, of "fs ! length ys"]
    unfolding S(4) by blast
  note walk = same_but_walk_trans [OF S(2) r(2)]
  let ?st = "(i + 1, fs[length ys := f'], ft', w')"
  have "fiducial_step qsort atan max_count W H (Reg y) (i, fs, ft, w) = Some (?st, i + 1 \<ge> max_count)"
    using r(1) S(1,6) i by (simp add: fiducial_step_def buf_simps)
  moreover have "reports tm (reg (seg w1) y) (shown_tree s y (below g y)) f'" using r(6) Y(3-5) by (simp add: reports_def)
  then have "reports tm (reg (seg w1) ((ys @ [y]) ! j)) (shown_tree s ((ys @ [y]) ! j) (below g ((ys @ [y]) ! j))) (fs[length ys := f'] ! j)"
    if "j < length (ys @ [y])" for j
    using that S(6,7) i by (cases "j = length ys") (auto simp: nth_append nth_list_update)
  then have "loop_ok warp s g t0 tm w1 l (ys @ [y]) ?st" using S(1,6) r(3-5) walk by (simp add: loop_ok_def)
  ultimately show ?thesis using walk by (intro exI [of _ ?st]) simp
qed

text \<open>The tracker after its initialisation and after every frame.\<close>

definition tracker_ok :: "(int \<Rightarrow> char list) \<Rightarrow> TreeIdMap \<Rightarrow> warp \<Rightarrow> Tracker \<Rightarrow> bool" where
  "tracker_ok malloc tm warp ft \<longleftrightarrow> treeidmap ft = tm \<and> pixelwarp ft = warp \<and>
     buffers_like (initialize_fidtrackerX malloc (TreeIdMapInfo.truncate tm)) (tracker ft)"

lemma initialize_tracker_ok: "tracker_ok malloc tm warp (initialize_tracker malloc garbage tm warp)"
  by (simp add: tracker_ok_def initialize_tracker_def buffers_like_refl)

lemma buffers_like_roots:
  assumes "buffers_like t0 t"
  shows "roots_of t g = roots_of t0 g" "fields t s g w = fields t0 s g w"
proof -
  have "is_fiducial_root t u = is_fiducial_root t0 u" "fuzzy_root t u = fuzzy_root t0 u" for u
    using assms by (auto simp: buffers_like_def is_fiducial_root_def exact_root_def partial_root_def fuzzy_root_def depth_fits_def)
  then show "roots_of t g = roots_of t0 g" "fields t s g w = fields t0 s g w"
    by (simp_all add: roots_of_def fields_def region_of_def)
qed

lemma find_fiducials_ok:
  assumes "segmented (seg w)" "max_adjacent_regions (seg w) \<le> 32767" "heads w \<noteq> []" "region_count (seg w) \<le> 32768"
    and malloc: "\<And>n. length (malloc n) = nat n" and m: "max_node_count tm \<le> 8000" "tm_max_depth tm \<le> 207" and q: "sorts qsort"
    and ft: "tracker_ok malloc tm warp ft" and c: "0 < max_count" "max_count \<le> ilength fs"
    and me: "\<And>g r. traversed (seg w) g \<Longrightarrow> r \<in> set (order g) \<Longrightarrow> is_fiducial_root (initialize_fidtrackerX malloc (TreeIdMapInfo.truncate tm)) (below g r) \<Longrightarrow>
      nodes (below g r) \<le> 8002 \<Longrightarrow> tree_height (below g r) \<le> 207 \<Longrightarrow> measurable atan warp W H (seg w) g r"
  shows "\<exists>n fs' ft' w' w1 rs. find_fiducialsX qsort atan fs max_count ft w W H = Some (int n, fs', ft', w') \<and>
    collect_roots (tracker ft) w = Some w1 \<and> ring_of w1 root_regions_head rs \<and>
    int n = min max_count (int (length rs)) \<and> length fs' = length fs \<and>
    (\<forall>j < n. \<exists>p t. region_tree (seg w) p (rs ! j) t \<and> tree_height t \<le> 207 \<and>
      reports tm (reg (seg w1) (rs ! j)) (shown_tree (seg w) (rs ! j) t) (fs' ! j)) \<and>
    tracker_ok malloc tm warp ft'"
proof -
  let ?s = "seg w" and ?t0 = "initialize_fidtrackerX malloc (TreeIdMapInfo.truncate tm)"
  have t0: "?t0 = initialize_fidtrackerX malloc (TreeIdMapInfo.truncate tm)" by simp
  have like: "buffers_like ?t0 (tracker ft)" "treeidmap ft = tm" "pixelwarp ft = warp" using ft by (simp_all add: tracker_ok_def)
  have m': "max_node_count (TreeIdMapInfo.truncate tm) \<le> 8000" "tm_max_depth (TreeIdMapInfo.truncate tm) \<le> 207"
    using m by (simp_all add: TreeIdMapInfo.defs)
  obtain w1 g where w1: "collect_roots (tracker ft) w = Some w1" "state_ok (tracker ft) ?s g w1 None"
    using collect_roots_ok [OF assms(1-3)] .
  have f: "fields ?t0 ?s g w1" and ring: "ring_of w1 root_regions_head (roots_of ?t0 g)" and co: "course_of ?s g"
    using w1(2) buffers_like_roots [OF like(1)] by (auto simp: state_ok_def tracked_def)
  have t: "traversed ?s g" using assms(1,4) co by (simp add: traversed_def)
  have tw: "tree_world ?s g w1" by (rule tree_world_collected [OF assms(1,4) co f])
  have measure: "measurable atan warp W H ?s g y" if y: "y \<in> set (roots_of ?t0 g)" for y
  proof -
    have yo: "y \<in> set (order g)" using y roots_of_order by blast
    have root: "is_fiducial_root ?t0 (below g y)" using y by (simp add: roots_of_def)
    have n: "nodes (below g y) \<le> 32768" using traversedD(3,6) [OF t] yo by fastforce
    show ?thesis by (rule me [OF t yo root]) (rule root_size [OF t0 malloc root n m'])+
  qed
  let ?P = "\<lambda>ys st. loop_ok warp ?s g ?t0 tm w1 (length fs) ys st \<and> int (length ys) < max_count"
  let ?Q = "\<lambda>st. \<exists>ys zs. roots_of ?t0 g = ys @ zs \<and> int (length ys) = min max_count (int (length (roots_of ?t0 g))) \<and>
    loop_ok warp ?s g ?t0 tm w1 (length fs) ys st"
  let ?world = "(\<lambda>(i, fs, ft, w). w) :: fiducials_state \<Rightarrow> World"
  have start: "?P [] (0, fs, ft, w1)"
    using c like by (simp add: loop_ok_def)
  have ring': "ring_of (?world (0, fs, ft, w1)) root_regions_head (roots_of ?t0 g)" using ring by simp
  have "\<exists>st. ring_loop ?world root_regions_head (fiducial_step qsort atan max_count W H) (nxt (RegionList.at (?world (0, fs, ft, w1)) root_regions_head))
      (0, fs, ft, w1) = Some st \<and> ?Q st"
  proof (rule ring_loop_rule [where P = ?P and Q = ?Q and world = ?world and s = "(0, fs, ft, w1)", OF ring' start])
    show "?Q st" if "?P (roots_of ?t0 g) st" for st
      using that by (intro exI [of _ "roots_of ?t0 g"] exI [of _ "[]"]) simp
    fix ys y zs st assume y: "roots_of ?t0 g = ys @ y # zs" "?P ys st"
    obtain i fs1 ft1 v where st: "st = (i, fs1, ft1, v)" by (cases st)
    have y': "y \<in> set (roots_of ?t0 g)" "length ys < length fs" using y c by simp_all
    have i: "i = int (length ys)" using y(2) st by (simp add: loop_ok_def)
    obtain st' where st': "fiducial_step qsort atan max_count W H (Reg y) st = Some (st', i + 1 \<ge> max_count)"
        "loop_ok warp ?s g ?t0 tm w1 (length fs) (ys @ [y]) st'" "same_but_walk w1 (?world st')"
      using fiducial_step_ok [OF t q f tw t0 malloc m' y'(1) _ y'(2) measure [OF y'(1)]] y(2) unfolding st by blast
    show "\<exists>st' stop. fiducial_step qsort atan max_count W H (Reg y) st = Some (st', stop) \<and>
        (if stop then ?Q st' else ?P (ys @ [y]) st' \<and> ring_of (?world st') root_regions_head (roots_of ?t0 g))"
    proof (cases "i + 1 \<ge> max_count")
      case True
      have "?Q st'"
        by (rule exI [of _ "ys @ [y]"], rule exI [of _ zs]) (use True y i st'(2) in auto)
      moreover have eqT: "(i + 1 \<ge> max_count) = True" using True by simp
      have "fiducial_step qsort atan max_count W H (Reg y) st = Some (st', True)" using st'(1) unfolding eqT .
      ultimately show ?thesis by (intro exI [of _ st'] exI [of _ True]) (simp only: if_True simp_thms)
    next
      case False
      have "ring_of (?world st') root_regions_head (roots_of ?t0 g)"
        using same_but_walk_ring [OF st'(3), of 0] ring by (simp add: root_regions_head_def)
      moreover have "int (length (ys @ [y])) < max_count" using False i by simp
      ultimately have "?P (ys @ [y]) st' \<and> ring_of (?world st') root_regions_head (roots_of ?t0 g)" using st'(2) by blast
      moreover have eqF: "(i + 1 \<ge> max_count) = False" using False by simp
      have "fiducial_step qsort atan max_count W H (Reg y) st = Some (st', False)" using st'(1) unfolding eqF .
      ultimately show ?thesis by (intro exI [of _ st'] exI [of _ False]) (simp only: if_False simp_thms)
    qed
  qed
  then obtain st where st': "ring_loop ?world root_regions_head (fiducial_step qsort atan max_count W H)
      (nxt (RegionList.at w1 root_regions_head)) (0, fs, ft, w1) = Some st \<and> ?Q st" unfolding prod.case ..
  note st = conjunct1 [OF st'] conjunct2 [OF st']
  obtain n fs' ft' w' where e: "st = (n, fs', ft', w')" by (cases st)
  obtain ys zs where ys: "roots_of ?t0 g = ys @ zs" "int (length ys) = min max_count (int (length (roots_of ?t0 g)))"
    "loop_ok warp ?s g ?t0 tm w1 (length fs) ys (n, fs', ft', w')" using st(2) unfolding e by blast
  obtain w0 where w0: "initialize_head_region w root_regions_head = Some w0" "find_roots (tracker ft) w0 = Some w1"
    using w1(1) by (auto simp: collect_roots_def bind_eq_Some_conv)
  have run: "find_fiducialsX qsort atan fs max_count ft w W H = Some (int (length ys), fs', ft', w')"
    using w0 st(1) ring_ofD(1) [OF ring] ys(3) unfolding find_fiducialsX_def e
    by (simp add: deref_eq loop_ok_def del: deref.simps at.simps)
  have "\<exists>p u. region_tree ?s p (roots_of ?t0 g ! j) u \<and> tree_height u \<le> 207 \<and>
      reports tm (reg (seg w1) (roots_of ?t0 g ! j)) (shown_tree ?s (roots_of ?t0 g ! j) u) (fs' ! j)" if j: "j < length ys" for j
  proof -
    have r: "ys ! j = roots_of ?t0 g ! j" "ys ! j \<in> set (roots_of ?t0 g)" using j ys(1) by (simp_all add: nth_append)
    then have o: "ys ! j \<in> set (order g)" using roots_of_order by blast
    have "nodes (below g (ys ! j)) \<le> 32768" using traversedD(3,6) [OF t] o by fastforce
    then have "tree_height (below g (ys ! j)) \<le> 207"
      using root_size(2) [OF t0 malloc _ _ m'] r(2) by (simp add: roots_of_def)
    moreover have "reports tm (reg (seg w1) (ys ! j)) (shown_tree ?s (ys ! j) (below g (ys ! j))) (fs' ! j)"
      using ys(3) j by (simp add: loop_ok_def)
    ultimately show ?thesis using visited_tree [OF assms(1) co o] unfolding r(1) by blast
  qed
  moreover have "length fs' = length fs" "tracker_ok malloc tm warp ft'" using ys(3) by (simp_all add: loop_ok_def tracker_ok_def)
  ultimately show ?thesis
    using run w1(1) ring ys(2)
    by (intro exI [of _ "length ys"] exI [of _ fs'] exI [of _ ft'] exI [of _ w'] exI [of _ w1] exI [of _ "roots_of ?t0 g"]) simp
qed

text \<open>Without a distortion table.\<close>

lemma find_fiducials_plain:
  assumes "segmented (seg w)" "max_adjacent_regions (seg w) \<le> 32767" "heads w \<noteq> []" "region_count (seg w) \<le> 32768"
    and "\<And>n. length (malloc n) = nat n" "max_node_count tm \<le> 8000" "tm_max_depth tm \<le> 207" "sorts qsort"
    and "ft = initialize_tracker malloc garbage tm None" "0 < max_count" "max_count \<le> ilength fs"
  shows "\<exists>n fs' ft' w' w1 rs. find_fiducialsX qsort atan fs max_count ft w W H = Some (int n, fs', ft', w') \<and>
    collect_roots (tracker ft) w = Some w1 \<and> ring_of w1 root_regions_head rs \<and>
    int n = min max_count (int (length rs)) \<and> length fs' = length fs \<and>
    (\<forall>j < n. \<exists>p t. region_tree (seg w) p (rs ! j) t \<and> tree_height t \<le> 207 \<and>
      reports tm (reg (seg w1) (rs ! j)) (shown_tree (seg w) (rs ! j) t) (fs' ! j))"
proof -
  have ft: "tracker_ok malloc tm None ft" unfolding assms(9) by (rule initialize_tracker_ok)
  show ?thesis using find_fiducials_ok [OF assms(1-8) ft assms(10,11) measurable_plain, of atan W H] by blast
qed

end
