(* ===== verification/FidtrackResults.thy ===== *)
theory FidtrackResults
  imports FidtrackIds
begin

text \<open>
  The results of \<open>find_fiducialsX\<close>: which identifiers it reports, when two fiducials get the
  same identifier, and which positions and angles belong to them.
\<close>

lemma answers_first:
  assumes "answers m ts" "s \<in> set ts"
  shows "\<exists>k < length ts. ts ! k = s \<and> treestring_to_id m s = int k"
proof -
  obtain us vs where ts: "ts = us @ s # vs" "s \<notin> set us" using assms(2) by (metis split_list_first)
  then have "length us < length ts" "ts ! length us = s" "take (length us) ts = us" by simp_all
  then show ?thesis using assms(1) ts(2) unfolding answers_def by metis
qed

lemma answers_inj:
  assumes "answers m ts" "treestring_to_id m s = treestring_to_id m s'" "treestring_to_id m s \<noteq> INVALID_TREE_ID"
  shows "s = s'"
proof -
  have "s \<in> set ts" "s' \<in> set ts" using assms by (auto simp: answers_def)
  then show ?thesis using answers_first [OF assms(1)] assms(2) by (metis of_nat_eq_iff)
qed

lemma coloured_string_eq:
  assumes "tree_height t \<le> 207" "tree_height u \<le> 207"
  shows "coloured_string_of c t = coloured_string_of d u \<longleftrightarrow> (c = 0 \<longleftrightarrow> d = 0) \<and> same_shape t u"
  using assms left_heavy_determines [of 0 t u] left_heavy_same [of t u 0] by (auto simp: coloured_string_of_def)

text \<open>A table for the witnesses, and the tracker that uses it.\<close>

definition small_items :: "(string \<times> string) list" where
  "small_items = [(''b01'', [CHR 0x0A]), (''b0'', [CHR 0x0A])]"

definition small_map :: TreeIdMap where
  "small_map = initialize_treeidmap_from_file (Some ([] @ file_of small_items))"

definition small_tracker :: Tracker where
  "small_tracker = initialize_tracker (\<lambda>n. replicate (nat n) CHR ''x'') no_leafs small_map None"

lemma small_answers: "answers small_map [''b01'', ''b0'']"
proof -
  have i: "list_all tree_item small_items" "list_all isspace []" by code_simp+
  have "map (coloured \<circ> fst) small_items = [''b01'', ''b0'']" by code_simp
  then show ?thesis using file_answers [OF i] unfolding small_map_def by simp
qed

lemma small_facts:
  "min_node_count small_map = 1" "max_node_count small_map = 2" "tm_min_depth small_map = 0" "tm_max_depth small_map = 1"
  "treestring_to_id small_map ''b0'' = 1"
proof -
  have d: "find_maximum_tree_depth ''b01'' = 1" "find_maximum_tree_depth ''b0'' = 0" by code_simp+
  note A = small_answers [unfolded answers_def]
  show "min_node_count small_map = 1" "max_node_count small_map = 2" "tm_min_depth small_map = 0" "tm_max_depth small_map = 1"
    using A d by simp_all
  show "treestring_to_id small_map ''b0'' = 1" using conjunct1 [OF A, rule_format, of 1] by simp
qed

definition blank_fiducial :: FiducialX where
  "blank_fiducial = \<lparr>fid = 0, fx = zero, fy = zero, angle = zero, leaf_size = zero, root_size = zero, root_colour = 0, node_count = 0\<rparr>"

text \<open>C5: On every segmented image with at most 32768 regions, and without a distortion table,
  \<open>find_fiducialsX\<close> returns without a fault. It reports the first \<open>max_count\<close> roots that the
  search collects, in their order, each with its colour and number of descendents; the
  identifier is invalid for a root that is marked as lost, and otherwise the identifier of the
  colour and the left heavy string of the tree of regions below the root.\<close>

theorem fiducials_reported:
  assumes "segmented (seg w)" "max_adjacent_regions (seg w) \<le> 32767" "heads w \<noteq> []" "region_count (seg w) \<le> 32768"
    and "\<And>n. length (malloc n) = nat n" "max_node_count tm \<le> 8000" "tm_max_depth tm \<le> 207" "sorts qsort"
    and "ft = initialize_tracker malloc garbage tm None" "0 < max_count" "max_count \<le> ilength fs"
  shows "\<exists>n fs' ft' w' w1 rs. find_fiducialsX qsort atan fs max_count ft w W H = Some (int n, fs', ft', w') \<and>
    collect_roots (tracker ft) w = Some w1 \<and> ring_of w1 root_regions_head rs \<and>
    int n = min max_count (int (length rs)) \<and> length fs' = length fs \<and>
    (\<forall>j < n. let r = rs ! j; x = reg (seg w1) r in
      (\<exists>p t. region_tree (seg w) p r t \<and>
        root_colour (fs' ! j) = uint (colour x) \<and> node_count (fs' ! j) = descendent_count x \<and>
        fid (fs' ! j) = (if flag_set (flags x) LOST_SYMBOL_FLAG then INVALID_TREE_ID
          else treestring_to_id tm ((if colour x = 0 then CHR ''b'' else CHR ''w'') #
            left_heavy 0 (if adjacent_region_count (reg (seg w) r) = 1 then Tree [] else t)))))"
proof -
  obtain n fs' ft' w' w1 rs where r: "find_fiducialsX qsort atan fs max_count ft w W H = Some (int n, fs', ft', w')"
      "collect_roots (tracker ft) w = Some w1" "ring_of w1 root_regions_head rs"
      "int n = min max_count (int (length rs))" "length fs' = length fs"
      "\<forall>j < n. \<exists>p t. region_tree (seg w) p (rs ! j) t \<and> tree_height t \<le> 207 \<and>
        reports tm (reg (seg w1) (rs ! j)) (shown_tree (seg w) (rs ! j) t) (fs' ! j)"
    using find_fiducials_plain [OF assms, of atan W H] by blast
  have "let r = rs ! j; x = reg (seg w1) r in
      (\<exists>p t. region_tree (seg w) p r t \<and>
        root_colour (fs' ! j) = uint (colour x) \<and> node_count (fs' ! j) = descendent_count x \<and>
        fid (fs' ! j) = (if flag_set (flags x) LOST_SYMBOL_FLAG then INVALID_TREE_ID
          else treestring_to_id tm ((if colour x = 0 then CHR ''b'' else CHR ''w'') #
            left_heavy 0 (if adjacent_region_count (reg (seg w) r) = 1 then Tree [] else t))))" if j: "j < n" for j
  proof -
    obtain p t where "region_tree (seg w) p (rs ! j) t" "reports tm (reg (seg w1) (rs ! j)) (shown_tree (seg w) (rs ! j) t) (fs' ! j)"
      using r(6) j by blast
    then show ?thesis
      unfolding Let_def reports_def coloured_string_of_def shown_tree_def adjacent_region_count_def by blast
  qed
  then show ?thesis using r(1-5) by blast
qed

lemma fiducials_reported_witness:
  "\<exists>w n fs' ft' w'. find_fiducialsX insertion_sort (\<lambda>x. x) [blank_fiducial] 1 small_tracker w 3 3 = Some (int n, fs', ft', w') \<and>
     length fs' = 1"
proof (rule ring_world)
  fix s assume s: "segmented s" "max_adjacent_regions s \<le> 32767" "region_count s = 2"
  let ?w = "\<lparr>seg = s, heads = [blank_region]\<rparr>"
  obtain n fs' ft' w' where "find_fiducialsX insertion_sort (\<lambda>x. x) [blank_fiducial] 1 small_tracker ?w 3 3 = Some (int n, fs', ft', w')"
      "length fs' = 1"
    using fiducials_reported [where atan = "\<lambda>x. x" and W = 3 and H = 3, of ?w "\<lambda>n. replicate (nat n) CHR ''x''" small_map, OF _ _ _ _ _ _ _ insertion_sort_sorts small_tracker_def,
        of 1 "[blank_fiducial]"] s small_facts by auto
  then show ?thesis by blast
qed

text \<open>C29: Identifiers are sound and complete in a frame: of two reported roots that are not
  marked as lost and whose identifier is valid, one has the identifier of the other exactly when
  both are black or both are white and their trees are equal up to the order of subtrees.\<close>

theorem same_id_same_shape:
  assumes "segmented (seg w)" "max_adjacent_regions (seg w) \<le> 32767" "heads w \<noteq> []" "region_count (seg w) \<le> 32768"
    and "\<And>n. length (malloc n) = nat n" "max_node_count tm \<le> 8000" "tm_max_depth tm \<le> 207" "sorts qsort"
    and "ft = initialize_tracker malloc garbage tm None" "0 < max_count" "max_count \<le> ilength fs" "answers tm names"
  shows "\<exists>n fs' ft' w' w1 rs ts. find_fiducialsX qsort atan fs max_count ft w W H = Some (int n, fs', ft', w') \<and>
    collect_roots (tracker ft) w = Some w1 \<and> ring_of w1 root_regions_head rs \<and> n \<le> length rs \<and>
    (\<forall>j < n. \<exists>p. region_tree (seg w) p (rs ! j) (ts ! j)) \<and>
    (\<forall>i < n. \<forall>j < n. fid (fs' ! i) \<noteq> INVALID_TREE_ID \<and> \<not> flag_set (flags (reg (seg w1) (rs ! j))) LOST_SYMBOL_FLAG \<longrightarrow>
      (fid (fs' ! i) = fid (fs' ! j) \<longleftrightarrow>
       (colour (reg (seg w1) (rs ! i)) = 0 \<longleftrightarrow> colour (reg (seg w1) (rs ! j)) = 0) \<and>
       same_shape (shown_tree (seg w) (rs ! i) (ts ! i)) (shown_tree (seg w) (rs ! j) (ts ! j))))"
proof -
  obtain n fs' ft' w' w1 rs where r: "find_fiducialsX qsort atan fs max_count ft w W H = Some (int n, fs', ft', w')"
      "collect_roots (tracker ft) w = Some w1" "ring_of w1 root_regions_head rs"
      "int n = min max_count (int (length rs))"
      "\<forall>j < n. \<exists>p t. region_tree (seg w) p (rs ! j) t \<and> tree_height t \<le> 207 \<and>
        reports tm (reg (seg w1) (rs ! j)) (shown_tree (seg w) (rs ! j) t) (fs' ! j)"
    using find_fiducials_plain [OF assms(1-11), of atan W H] by blast
  obtain T where T: "\<And>j. j < n \<Longrightarrow> (\<exists>p. region_tree (seg w) p (rs ! j) (T j)) \<and> tree_height (T j) \<le> 207 \<and>
      reports tm (reg (seg w1) (rs ! j)) (shown_tree (seg w) (rs ! j) (T j)) (fs' ! j)"
    using r(5) by metis
  let ?ts = "map T [0..<n]" and ?t = "\<lambda>j. shown_tree (seg w) (rs ! j) (T j)" and ?c = "\<lambda>j. colour (reg (seg w1) (rs ! j))"
  have h: "tree_height (?t j) \<le> 207" if "j < n" for j using T [OF that] by (auto simp: shown_tree_def)
  have "fid (fs' ! i) = fid (fs' ! j) \<longleftrightarrow> (?c i = 0 \<longleftrightarrow> ?c j = 0) \<and> same_shape (?t i) (?t j)"
    if "i < n" "j < n" "fid (fs' ! i) \<noteq> INVALID_TREE_ID" "\<not> flag_set (flags (reg (seg w1) (rs ! j))) LOST_SYMBOL_FLAG" for i j
  proof -
    have i: "fid (fs' ! i) = treestring_to_id tm (coloured_string_of (?c i) (?t i))"
      using T [OF that(1)] that(3) by (auto simp: reports_def split: if_splits)
    have j: "fid (fs' ! j) = treestring_to_id tm (coloured_string_of (?c j) (?t j))"
      using T [OF that(2)] that(4) by (simp add: reports_def)
    have "fid (fs' ! i) = fid (fs' ! j) \<longleftrightarrow> coloured_string_of (?c i) (?t i) = coloured_string_of (?c j) (?t j)"
      using answers_inj [OF assms(12)] that(3) unfolding i j by metis
    then show ?thesis unfolding coloured_string_eq [OF h [OF that(1)] h [OF that(2)]] .
  qed
  note same = this
  have n: "n \<le> length rs" using r(4) by simp
  show ?thesis
    using r(1-3) n T same
    by (intro exI [of _ n] exI [of _ fs'] exI [of _ ft'] exI [of _ w'] exI [of _ w1] exI [of _ rs] exI [of _ ?ts]) simp
qed

lemma same_id_same_shape_witness:
  "\<exists>w n fs' ft' w'. find_fiducialsX insertion_sort (\<lambda>x. x) [blank_fiducial] 1 small_tracker w 3 3 = Some (int n, fs', ft', w')"
proof (rule ring_world)
  fix s assume s: "segmented s" "max_adjacent_regions s \<le> 32767" "region_count s = 2"
  let ?w = "\<lparr>seg = s, heads = [blank_region]\<rparr>"
  obtain n fs' ft' w' where "find_fiducialsX insertion_sort (\<lambda>x. x) [blank_fiducial] 1 small_tracker ?w 3 3 = Some (int n, fs', ft', w')"
    using same_id_same_shape [where atan = "\<lambda>x. x" and W = 3 and H = 3, of ?w "\<lambda>n. replicate (nat n) CHR ''x''" small_map, OF _ _ _ _ _ _ _ insertion_sort_sorts small_tracker_def,
        of 1 "[blank_fiducial]", OF _ _ _ _ _ _ _ _ _ small_answers] s small_facts by auto
  then show ?thesis by blast
qed

subsection \<open>Fiducials without a black leaf\<close>

lemma white_leafs:
  assumes "\<forall>x \<in> set xs. colour x \<noteq> 0" "add_leafs warp W H xs s = Some s'"
  shows "black_x_sum s' = black_x_sum s \<and> black_y_sum s' = black_y_sum s \<and> black_leaf_count s' = black_leaf_count s"
  using assms
proof (induction xs arbitrary: s)
  case (Cons x xs)
  obtain s1 where s1: "add_leaf warp W H x s = Some s1" "add_leafs warp W H xs s1 = Some s'"
    using Cons.prems(2) by (auto simp: bind_eq_Some_conv)
  have "black_x_sum s1 = black_x_sum s \<and> black_y_sum s1 = black_y_sum s \<and> black_leaf_count s1 = black_leaf_count s"
    using s1(1) Cons.prems(1)
    by (auto simp: add_leaf_def add_plain_def add_warped_def Let_def bind_eq_Some_conv split: option.splits prod.splits if_splits)
  then show ?case using Cons.IH [OF _ s1(2)] Cons.prems(1) by simp
qed simp

lemma NaN_facts: "dsub x NaN = NaN" "\<not> fless x NaN"
  by (cases x; simp add: fsub_def)+

text \<open>The angle of a fiducial is the direction from the black leafs to all leafs. Without a
  black leaf the centre of the black leafs is not a number, and the reported angle is the
  constant \<open>pi\<close>, whatever the orientation of the fiducial.\<close>

theorem white_fiducial_angle:
  assumes "\<forall>x \<in> set xs. colour x \<noteq> 0" "add_leafs None W H xs no_leafs = Some s"
  shows "\<exists>f'. place_fiducial atan None W H s f = Some (f', False) \<and> angle f' = to_float M_PI"
proof -
  have "black_x_sum s = zero" "black_y_sum s = zero" "black_leaf_count s = zero"
    using white_leafs [OF assms] by (simp_all add: no_leafs_def)
  then show ?thesis by (simp add: place_fiducial_def Let_def NaN_facts calculate_angle_def)
qed

definition white_leaf :: Region where
  "white_leaf = blank_region\<lparr>colour := 255, right := 4, bottom := 2, depth := 1\<rparr>"

lemma white_fiducial_angle_witness:
  "\<exists>s f'. add_leafs None 8 8 [white_leaf] no_leafs = Some s \<and>
     place_fiducial (\<lambda>x. x) None 8 8 s blank_fiducial = Some (f', False) \<and> angle f' = to_float M_PI"
proof -
  have w: "\<forall>x \<in> set [white_leaf]. colour x \<noteq> 0" by (simp add: white_leaf_def)
  have "\<forall>x \<in> set [white_leaf]. 0 \<le> depth x \<and> depth x \<le> 207" "0 \<le> total_leaf_count no_leafs"
      "total_leaf_count no_leafs + 173056 * int (length [white_leaf]) \<le> 2147483647"
    by (simp_all add: white_leaf_def no_leafs_def)
  then obtain s where "add_leafs None 8 8 [white_leaf] no_leafs = Some s" using add_leafs_ok by blast
  then show ?thesis using white_fiducial_angle [OF w] by blast
qed

end
