(* ===== verification/FidtrackRegions.thy ===== *)
theory FidtrackRegions
  imports FidtrackStats FidtrackTraversal
begin

text \<open>
  \<open>find_regionsX\<close> of \<^verbatim>\<open>fidtrackX.c\<close>: the regions whose sides are within given bounds. The field
  \<open>span\<close> of a result is a null pointer, which the segmenter stores in every region, and is
  left out.
\<close>

subsection \<open>The program\<close>

record RegionX =
  top_x :: int
  bottom_x :: int
  left_x :: int
  right_x :: int
  width_x :: int
  height_x :: int
  x_x :: int
  y_x :: int
  area_x :: int
  colour_x :: int

definition fill_region :: "Region \<Rightarrow> RegionX \<Rightarrow> RegionX" where
  "fill_region r x = x\<lparr>left_x := left r, right_x := right r, top_x := rtop r, bottom_x := bottom r,
     width_x := to_short (right r - left r + 1), height_x := to_short (bottom r - rtop r + 1),
     area_x := area r, colour_x := uint (colour r)\<rparr>"

definition size_fits :: "int \<Rightarrow> int \<Rightarrow> RegionX \<Rightarrow> bool" where
  "size_fits min_object_size max_object_size x \<longleftrightarrow>
     width_x x > min_object_size \<and> width_x x < max_object_size \<and> height_x x > min_object_size \<and> height_x x < max_object_size"

definition center_region :: "RegionX \<Rightarrow> RegionX" where
  "center_region x = x\<lparr>x_x := to_short (left_x x + c_div (width_x x) 2), y_x := to_short (top_x x + c_div (height_x x) 2)\<rparr>"

text \<open>The undistorted centre; the second result says that the region is kept.\<close>

definition warp_region :: "warp \<Rightarrow> int \<Rightarrow> int \<Rightarrow> RegionX \<Rightarrow> (RegionX \<times> bool) option" where
  "warp_region table W H x = (case table of None \<Rightarrow> Some (x, True) | Some warp \<Rightarrow>
     (let pixel = y_x x * W + x_x x in
      if pixel < 0 \<or> pixel \<ge> W * H then Some (x, False)
      else do {
        (px, py) \<leftarrow> rd warp pixel;
        Some (x\<lparr>x_x := px, y_x := py\<rparr>, \<not> (px = 0 \<and> py = 0))
      }))"

text \<open>The loop, from region \<open>i\<close> on; \<open>j\<close> results have been found.\<close>

fun find_regions_from ::
  "warp \<Rightarrow> int \<Rightarrow> int \<Rightarrow> int \<Rightarrow> int \<Rightarrow> int \<Rightarrow> World \<Rightarrow> nat \<Rightarrow> nat \<Rightarrow> RegionX list \<Rightarrow> int \<Rightarrow> (int \<times> RegionX list) option" where
  "find_regions_from warp W H min_size max_size max_count w i 0 results j = Some (j, results)"
| "find_regions_from warp W H min_size max_size max_count w i (Suc n) results j = do {
     r \<leftarrow> region_at w i;
     x \<leftarrow> rd results j;
     let x = fill_region r x;
     if size_fits min_size max_size x then do {
       (x, keep) \<leftarrow> warp_region warp W H (center_region x);
       results \<leftarrow> wr results j x;
       if keep then
         if j + 1 = max_count then Some (j + 1, results)
         else find_regions_from warp W H min_size max_size max_count w (Suc i) n results (j + 1)
       else find_regions_from warp W H min_size max_size max_count w (Suc i) n results j
     } else do {
       results \<leftarrow> wr results j x;
       find_regions_from warp W H min_size max_size max_count w (Suc i) n results j
     }
   }"

definition find_regionsX ::
  "RegionX list \<Rightarrow> int \<Rightarrow> warp \<Rightarrow> World \<Rightarrow> int \<Rightarrow> int \<Rightarrow> int \<Rightarrow> int \<Rightarrow> (int \<times> RegionX list \<times> World) option" where
  "find_regionsX results max_count warp w W H min_size max_size = do {
     let max_object_size = (if max_size > H then H else max_size);
     let min_object_size = (if min_size < 2 then 2 else min_size);
     w \<leftarrow> initialize_head_region w root_regions_head;
     (j, results) \<leftarrow> find_regions_from warp W H min_object_size max_object_size max_count w 0 (region_count (seg w)) results 0;
     Some (j, results, w)
   }"

subsection \<open>The regions that are found\<close>

text \<open>A result as a function of the region; all of its fields are overwritten.\<close>

definition region_result :: "Region \<Rightarrow> RegionX" where
  "region_result r = (let x = fill_region r \<lparr>top_x = 0, bottom_x = 0, left_x = 0, right_x = 0, width_x = 0, height_x = 0,
     x_x = 0, y_x = 0, area_x = 0, colour_x = 0\<rparr> in center_region x)"

definition in_size :: "int \<Rightarrow> int \<Rightarrow> Region \<Rightarrow> bool" where
  "in_size lo hi r \<longleftrightarrow> lo < to_short (right r - left r + 1) \<and> to_short (right r - left r + 1) < hi \<and>
     lo < to_short (bottom r - rtop r + 1) \<and> to_short (bottom r - rtop r + 1) < hi"

lemma size_fits_fill: "size_fits lo hi (fill_region r x) = in_size lo hi r"
  by (auto simp: size_fits_def fill_region_def in_size_def)

lemma center_fill: "center_region (fill_region r x) = region_result r"
  by (simp add: region_result_def center_region_def fill_region_def Let_def)

lemma to_short_fill [simp]: "width_x (fill_region r x) = to_short (right r - left r + 1)" "height_x (fill_region r x) = to_short (bottom r - rtop r + 1)"
  by (simp_all add: fill_region_def)

lemma take_Suc_update: "j < length xs \<Longrightarrow> take (Suc j) (xs[j := x]) = take j xs @ [x]"
  by (simp add: take_Suc_conv_app_nth)

definition found_regions :: "int \<Rightarrow> int \<Rightarrow> nat \<Rightarrow> Region list \<Rightarrow> RegionX list" where
  "found_regions lo hi m rs = take m (map region_result (filter (in_size lo hi) rs))"

lemma found_regions_Cons:
  "found_regions lo hi (Suc m) (r # rs) =
     (if in_size lo hi r then region_result r # found_regions lo hi m rs else found_regions lo hi (Suc m) rs)"
  by (simp add: found_regions_def)

lemma found_regions_0 [simp]: "found_regions lo hi 0 rs = []" "found_regions lo hi m [] = []"
  by (simp_all add: found_regions_def)

lemma find_regions_from_ok:
  assumes "i + n \<le> length (regions (seg w))" "int j + int (Suc m) = max_count" "max_count \<le> ilength results"
    and "F = found_regions lo hi (Suc m) (take n (drop i (regions (seg w))))"
  shows "\<exists>results'. find_regions_from None W H lo hi max_count w i n results (int j) = Some (int (j + length F), results') \<and>
    length results' = length results \<and> take (j + length F) results' = take j results @ F"
  using assms
proof (induction n arbitrary: i j m F results)
  case 0
  then show ?case by simp
next
  case (Suc n)
  let ?r = "reg (seg w) i" and ?rest = "take n (drop (Suc i) (regions (seg w)))"
  have i: "i < length (regions (seg w))" and j: "j < length results" using Suc.prems by simp_all
  have split: "take (Suc n) (drop i (regions (seg w))) = ?r # ?rest"
    using i by (simp add: Cons_nth_drop_Suc [symmetric])
  let ?run = "find_regions_from None W H lo hi max_count w"
  show ?case
  proof (cases "in_size lo hi ?r")
    case True
    let ?res = "results[j := region_result ?r]" and ?F = "found_regions lo hi m ?rest"
    have F: "F = region_result ?r # ?F" using Suc.prems(4) True by (simp add: split found_regions_Cons)
    have step: "?run i (Suc n) results (int j) = (if int j + 1 = max_count then Some (int j + 1, ?res)
        else ?run (Suc i) n ?res (int j + 1))"
      using i j True by (simp add: buf_simps size_fits_fill center_fill warp_region_def)
    show ?thesis
    proof (cases m)
      case 0
      then show ?thesis using step Suc.prems(2) j unfolding F by (simp add: take_Suc_update)
    next
      case (Suc m')
      have "\<exists>results'. ?run (Suc i) n ?res (int (Suc j)) = Some (int (Suc j + length ?F), results') \<and>
          length results' = length ?res \<and> take (Suc j + length ?F) results' = take (Suc j) ?res @ ?F"
        by (rule Suc.IH [of "Suc i" "Suc j" m' ?res ?F]) (use Suc.prems Suc in simp_all)
      then show ?thesis using step Suc.prems(2) Suc j unfolding F by (simp add: take_Suc_update add.commute)
    qed
  next
    case False
    let ?res = "results[j := fill_region ?r (results ! j)]"
    have F: "F = found_regions lo hi (Suc m) ?rest" using Suc.prems(4) False by (simp add: split found_regions_Cons)
    have step: "?run i (Suc n) results (int j) = ?run (Suc i) n ?res (int j)"
      using i j False by (simp add: buf_simps size_fits_fill)
    have "\<exists>results'. ?run (Suc i) n ?res (int j) = Some (int (j + length F), results') \<and>
        length results' = length ?res \<and> take (j + length F) results' = take j ?res @ F"
      by (rule Suc.IH [of "Suc i" j m ?res F]) (use Suc.prems F in simp_all)
    then show ?thesis unfolding step by simp
  qed
qed

text \<open>C32: \<open>find_regionsX\<close> without a distortion table returns, in the order of the region table,
  the first \<open>max_count\<close> regions both of whose sides are larger than \<open>min_size\<close> (or 2) and
  smaller than \<open>max_size\<close> (or the height of the image), with their boxes and centres.\<close>

theorem regions_by_size:
  assumes "region_count (seg w) \<le> length (regions (seg w))" "heads w \<noteq> []" "0 < max_count" "max_count \<le> ilength results"
    and "lo = max 2 min_size" "hi = min H max_size"
  shows "\<exists>results' w'. let found = take (nat max_count) (map region_result
      (filter (in_size lo hi) (take (region_count (seg w)) (regions (seg w))))) in
    find_regionsX results max_count None w W H min_size max_size = Some (int (length found), results', w') \<and>
    take (length found) results' = found \<and> length results' = length results \<and> seg w' = seg w"
proof -
  let ?w = "put w (Head 0) ((heads w ! 0)\<lparr>previous := Head 0, nxt := Head 0\<rparr>)"
  have i: "initialize_head_region w root_regions_head = Some ?w" "seg ?w = seg w"
    using assms(2) by (simp_all add: initialize_head_region_def root_regions_head_def buf_simps)
  have s: "(if max_size > H then H else max_size) = hi" "(if min_size < 2 then 2 else min_size) = lo"
    using assms(5,6) by auto
  let ?F = "found_regions lo hi (nat max_count) (take (region_count (seg w)) (regions (seg w)))"
  obtain res' where "find_regions_from None W H lo hi max_count ?w 0 (region_count (seg w)) results (int 0) = Some (int (0 + length ?F), res')"
      "length res' = length results" "take (0 + length ?F) res' = take 0 results @ ?F"
    using find_regions_from_ok [of 0 "region_count (seg w)" ?w 0 "nat max_count - 1" max_count results ?F lo hi W H] assms(1,3,4) i(2)
    by auto
  then show ?thesis
    using i unfolding find_regionsX_def s Let_def found_regions_def
    by (intro exI [of _ res'] exI [of _ ?w]) (simp del: put.simps length_take length_map)
qed

definition two_regions :: World where
  "two_regions = \<lparr>seg = (blank_segmenter 9 9 4)\<lparr>regions := [blank_region\<lparr>right := 3, bottom := 4\<rparr>, blank_region], region_count := 2\<rparr>,
     heads = [blank_region]\<rparr>"

definition blank_result :: RegionX where
  "blank_result = \<lparr>top_x = 0, bottom_x = 0, left_x = 0, right_x = 0, width_x = 0, height_x = 0, x_x = 0, y_x = 0, area_x = 0, colour_x = 0\<rparr>"


lemma regions_by_size_witness:
  "\<exists>w'. find_regionsX [blank_result, blank_result] 2 None two_regions 9 9 2 8 =
     Some (1, [\<lparr>top_x = 0, bottom_x = 4, left_x = 0, right_x = 3, width_x = 4, height_x = 5, x_x = 2, y_x = 2, area_x = 0, colour_x = 0\<rparr>,
       fill_region blank_region blank_result], w') \<and> seg w' = seg two_regions"
  (is "\<exists>w'. ?run = Some (1, [?a, ?b], w') \<and> _")
proof -
  have f: "take (nat 2) (map region_result (filter (in_size 2 8) (take (region_count (seg two_regions)) (regions (seg two_regions))))) = [?a]"
    by code_simp
  obtain results' w' where r: "?run = Some (1, results', w')" "take 1 results' = [?a]" "length results' = 2" "seg w' = seg two_regions"
    using regions_by_size [of two_regions 2 "[blank_result, blank_result]" 2 2 8 9 8 9] unfolding f
    by (auto simp: two_regions_def)
  have "map_option (\<lambda>(j, xs, w). xs) ?run = Some [?a, ?b]" by code_simp
  then show ?thesis using r by auto
qed

text \<open>Room for a result is not checked before it is written: with \<open>max_count\<close> 0, a region
  is stored all the same, and the count is never compared with \<open>max_count\<close> until it is 1.\<close>

theorem regions_without_room:
  assumes "0 < region_count (seg w)" "heads w \<noteq> []" "regions (seg w) \<noteq> []"
  shows "find_regionsX [] 0 warp w W H min_size max_size = None"
proof -
  obtain n where "region_count (seg w) = Suc n" using assms(1) gr0_implies_Suc by blast
  then show ?thesis
    using assms(2,3) by (simp add: find_regionsX_def initialize_head_region_def root_regions_head_def buf_simps rd_def buf_read_def Let_def)
qed

lemma regions_without_room_witness: "find_regionsX [] 0 None two_regions 9 9 2 8 = None"
  by (rule regions_without_room) (simp_all add: two_regions_def)

end
