(* ===== verification/Threshold.thy ===== *)
theory Threshold
  imports Buffers
begin

text \<open>
  \<^verbatim>\<open>threshold.c\<close>: the threshold functions with integer arithmetic. \<open>simple_threshold\<close>
  compares with a constant, \<open>simple_adaptive_threshold\<close> with the mean of a tile, and
  \<open>overlapped_adaptive_threshold2\<close> with the middle of the extremes of the tiles around a
  pixel, where the tiles have an edge that is strong enough. A pointer into an image is an
  offset into its buffer.
\<close>

subsection \<open>Constant threshold\<close>

definition simple_threshold :: "byte list \<Rightarrow> int \<Rightarrow> byte list \<Rightarrow> int \<Rightarrow> int \<Rightarrow> int \<Rightarrow> byte list option" where
  "simple_threshold source source_stride dest width height threshold = do {
     let count = width * height;
     (p, dest) \<leftarrow> for_range 0 count (\<lambda>i (p, dest). do {
        v \<leftarrow> rd source p;
        dest \<leftarrow> wr dest i (if uint v > threshold then 255 else 0);
        Some (p + source_stride, dest) }) (0, dest);
     Some dest
   }"

subsection \<open>Mean of a tile\<close>

definition tile_sum :: "byte list \<Rightarrow> int \<Rightarrow> int \<Rightarrow> int \<Rightarrow> int \<Rightarrow> int \<Rightarrow> int \<Rightarrow> (int \<times> int) option" where
  "tile_sum source source_stride width x xxmax y yymax =
     for_range y yymax (\<lambda>yy. for_range x xxmax (\<lambda>xx (sum, count). do {
       v \<leftarrow> rd source ((yy * width + xx) * source_stride);
       Some (sum + uint v, count + 1) })) (0, 0)"

definition threshold_tile ::
  "byte list \<Rightarrow> int \<Rightarrow> int \<Rightarrow> int \<Rightarrow> int \<Rightarrow> int \<Rightarrow> int \<Rightarrow> int \<Rightarrow> byte list \<Rightarrow> byte list option" where
  "threshold_tile source source_stride width x xxmax y yymax mean dest =
     for_range y yymax (\<lambda>yy. for_range x xxmax (\<lambda>xx dest. do {
       v \<leftarrow> rd source ((yy * width + xx) * source_stride);
       wr dest (yy * width + xx) (if uint v > mean then 255 else 0) })) dest"

definition simple_adaptive_threshold ::
  "byte list \<Rightarrow> int \<Rightarrow> byte list \<Rightarrow> int \<Rightarrow> int \<Rightarrow> int \<Rightarrow> byte list option" where
  "simple_adaptive_threshold source source_stride dest width height tile_size = (
     let x_step = tile_size; y_step = tile_size in
     for_step 0 height y_step (\<lambda>y. for_step 0 width x_step (\<lambda>x dest. do {
       let xxmax = (if x + x_step > width then width else x + x_step);
       let yymax = (if y + y_step > height then height else y + y_step);
       (sum, count) \<leftarrow> tile_sum source source_stride width x xxmax y yymax;
       mean \<leftarrow> quot sum count;
       threshold_tile source source_stride width x xxmax y yymax mean dest })) dest)"

subsection \<open>Extremes of tiles with an edge\<close>

definition TILE_ARRAY_HEIGHT :: int where "TILE_ARRAY_HEIGHT = 480 div 16"
definition TILE_ARRAY_WIDTH :: int where "TILE_ARRAY_WIDTH = 640 div 16"

text \<open>The three global arrays.\<close>

record TileArrays =
  sobel_tiles :: "int list"
  max_tiles :: "byte list"
  min_tiles :: "byte list"

text \<open>The running maximum of the gradient and the running extremes.\<close>

definition edge_update :: "byte \<Rightarrow> byte \<Rightarrow> byte \<Rightarrow> int \<times> byte \<times> byte \<Rightarrow> int \<times> byte \<times> byte" where
  "edge_update p1 p2 p4 = (\<lambda>(mag, mx, mn).
     let approx_gradient_mag = \<bar>uint p2 - uint p1\<bar> + \<bar>uint p4 - uint p1\<bar>;
         mag = (if approx_gradient_mag > mag then approx_gradient_mag else mag)
     in if p1 > mx then (mag, p1, mn) else if p1 < mn then (mag, mx, p1) else (mag, mx, mn))"

definition tile_edges ::
  "byte list \<Rightarrow> int \<Rightarrow> int \<Rightarrow> int \<Rightarrow> int \<Rightarrow> int \<Rightarrow> int \<Rightarrow> (int \<times> byte \<times> byte) option" where
  "tile_edges source source_stride width xstart xend ystart yend = do {
     let linestep = (width - (xend - xstart)) * source_stride;
     let pp1 = (ystart * width + xstart) * source_stride;
     let pp4 = pp1 + width * source_stride;
     (pp1, pp4, acc) \<leftarrow> for_range ystart yend (\<lambda>y s. do {
        (pp1, pp4, acc) \<leftarrow> for_range xstart xend (\<lambda>x (pp1, pp4, acc). do {
           p1 \<leftarrow> rd source pp1;
           p2 \<leftarrow> rd source (pp1 + source_stride);
           p4 \<leftarrow> rd source pp4;
           Some (pp1 + source_stride, pp4 + source_stride, edge_update p1 p2 p4 acc) }) s;
        Some (pp1 + linestep, pp4 + linestep, acc) }) (pp1, pp4, (0, 0, 255));
     Some acc
   }"

definition compute_tiles ::
  "TileArrays \<Rightarrow> byte list \<Rightarrow> int \<Rightarrow> int \<Rightarrow> int \<Rightarrow> int \<Rightarrow> int \<Rightarrow> int \<Rightarrow> TileArrays option" where
  "compute_tiles ts source source_stride width height tile_size xtiles ytiles =
     for_range 0 ytiles (\<lambda>yt. for_range 0 xtiles (\<lambda>xt ts. do {
       let xstart = xt * tile_size;
       let xend = (if xstart + tile_size > width - 1 then width - 1 else xstart + tile_size);
       let ystart = yt * tile_size;
       let yend = (if ystart + tile_size > height - 1 then height - 1 else ystart + tile_size);
       (mag, mx, mn) \<leftarrow> tile_edges source source_stride width xstart xend ystart yend;
       sobel \<leftarrow> wr (sobel_tiles ts) (yt * TILE_ARRAY_WIDTH + xt) mag;
       maxs \<leftarrow> wr (max_tiles ts) (yt * TILE_ARRAY_WIDTH + xt) mx;
       mins \<leftarrow> wr (min_tiles ts) (yt * TILE_ARRAY_WIDTH + xt) mn;
       Some \<lparr>sobel_tiles = sobel, max_tiles = maxs, min_tiles = mins\<rparr> })) ts"

text \<open>The largest and the smallest of some entries of an array.\<close>

fun largest :: "'a::linorder list \<Rightarrow> 'a \<Rightarrow> int list \<Rightarrow> 'a option" where
  "largest arr m [] = Some m"
| "largest arr m (i # is) = do { v \<leftarrow> rd arr i; largest arr (if v > m then v else m) is }"

fun smallest :: "'a::linorder list \<Rightarrow> 'a \<Rightarrow> int list \<Rightarrow> 'a option" where
  "smallest arr m [] = Some m"
| "smallest arr m (i # is) = do { v \<leftarrow> rd arr i; smallest arr (if v < m then v else m) is }"

definition threshold_block ::
  "byte list \<Rightarrow> int \<Rightarrow> byte list \<Rightarrow> int \<Rightarrow> int \<Rightarrow> int \<Rightarrow> int \<Rightarrow> int \<Rightarrow> int \<Rightarrow> byte list option" where
  "threshold_block source source_stride dest width xstart xend ystart yend threshold = do {
     let linestep = (width - (xend - xstart)) * source_stride;
     let destlinestep = width - (xend - xstart);
     (pp1, pdest, dest) \<leftarrow> for_range ystart yend (\<lambda>y s. do {
        (pp1, pdest, dest) \<leftarrow> for_range xstart xend (\<lambda>x (pp1, pdest, dest). do {
           p1 \<leftarrow> rd source pp1;
           dest \<leftarrow> wr dest pdest (if uint p1 > threshold then 255 else 0);
           Some (pp1 + source_stride, pdest + 1, dest) }) s;
        Some (pp1 + linestep, pdest + destlinestep, dest) })
       ((ystart * width + xstart) * source_stride, ystart * width + xstart, dest);
     Some dest
   }"

definition clear_block :: "byte list \<Rightarrow> int \<Rightarrow> int \<Rightarrow> int \<Rightarrow> int \<Rightarrow> int \<Rightarrow> byte list option" where
  "clear_block dest width xstart xend ystart yend = do {
     let destlinestep = width - (xend - xstart);
     (pdest, dest) \<leftarrow> for_range ystart yend (\<lambda>y s. do {
        (pdest, dest) \<leftarrow> for_range xstart xend (\<lambda>x (pdest, dest). do {
           dest \<leftarrow> wr dest pdest 0;
           Some (pdest + 1, dest) }) s;
        Some (pdest + destlinestep, dest) }) (ystart * width + xstart, dest);
     Some dest
   }"

text \<open>
  The statements that the nine kinds of cells have in common: \<open>i\<close> is the index of the first
  tile of the cell, \<open>is\<close> those of the others, in the order in which they are compared.
\<close>

definition threshold_cell ::
  "TileArrays \<Rightarrow> byte list \<Rightarrow> int \<Rightarrow> int \<Rightarrow> int \<Rightarrow> int \<Rightarrow> int \<Rightarrow> int \<Rightarrow> int \<Rightarrow> int \<Rightarrow> int list \<Rightarrow> byte list \<Rightarrow> byte list option" where
  "threshold_cell ts source source_stride width gradient_threshold xstart xend ystart yend i is dest = do {
     mag \<leftarrow> rd (sobel_tiles ts) i;
     mag \<leftarrow> largest (sobel_tiles ts) mag is;
     if mag > gradient_threshold then do {
       mx \<leftarrow> rd (max_tiles ts) i;
       mx \<leftarrow> largest (max_tiles ts) mx is;
       mn \<leftarrow> rd (min_tiles ts) i;
       mn \<leftarrow> smallest (min_tiles ts) mn is;
       threshold_block source source_stride dest width xstart xend ystart yend (c_div (uint mx + uint mn) 2)
     } else clear_block dest width xstart xend ystart yend
   }"

definition top_left_cell ::
  "TileArrays \<Rightarrow> byte list \<Rightarrow> int \<Rightarrow> int \<Rightarrow> int \<Rightarrow> int \<Rightarrow> byte list \<Rightarrow> byte list option" where
  "top_left_cell ts source source_stride width tile_size gradient_threshold dest =
     threshold_cell ts source source_stride width gradient_threshold
       0 (0 + c_div tile_size 2) 0 (0 + c_div tile_size 2) 0 [] dest"

definition top_row_cells ::
  "TileArrays \<Rightarrow> byte list \<Rightarrow> int \<Rightarrow> int \<Rightarrow> int \<Rightarrow> int \<Rightarrow> int \<Rightarrow> byte list \<Rightarrow> byte list option" where
  "top_row_cells ts source source_stride width tile_size xtiles gradient_threshold dest =
     for_range 0 (xtiles - 1) (\<lambda>xt dest.
       let xstart = xt * tile_size + c_div tile_size 2 in
       threshold_cell ts source source_stride width gradient_threshold
         xstart (xstart + tile_size) 0 (0 + c_div tile_size 2) xt [xt + 1] dest) dest"

definition top_right_cell ::
  "TileArrays \<Rightarrow> byte list \<Rightarrow> int \<Rightarrow> int \<Rightarrow> int \<Rightarrow> int \<Rightarrow> int \<Rightarrow> byte list \<Rightarrow> byte list option" where
  "top_right_cell ts source source_stride width tile_size xtiles gradient_threshold dest =
     (let xstart = width - c_div tile_size 2 in
      threshold_cell ts source source_stride width gradient_threshold
        xstart (xstart + c_div tile_size 2) 0 (0 + c_div tile_size 2) (xtiles - 1) [] dest)"

definition left_half_cell ::
  "TileArrays \<Rightarrow> byte list \<Rightarrow> int \<Rightarrow> int \<Rightarrow> int \<Rightarrow> int \<Rightarrow> int \<Rightarrow> byte list \<Rightarrow> byte list option" where
  "left_half_cell ts source source_stride width tile_size gradient_threshold yt dest =
     (let ystart = yt * tile_size + c_div tile_size 2 in
      threshold_cell ts source source_stride width gradient_threshold
        0 (c_div tile_size 2) ystart (ystart + tile_size)
        (yt * TILE_ARRAY_WIDTH) [(yt + 1) * TILE_ARRAY_WIDTH] dest)"

definition full_cells ::
  "TileArrays \<Rightarrow> byte list \<Rightarrow> int \<Rightarrow> int \<Rightarrow> int \<Rightarrow> int \<Rightarrow> int \<Rightarrow> int \<Rightarrow> byte list \<Rightarrow> byte list option" where
  "full_cells ts source source_stride width tile_size xtiles gradient_threshold yt dest =
     for_range 0 (xtiles - 1) (\<lambda>xt dest.
       let xstart = xt * tile_size + c_div tile_size 2;
           ystart = yt * tile_size + c_div tile_size 2 in
       threshold_cell ts source source_stride width gradient_threshold
         xstart (xstart + tile_size) ystart (ystart + tile_size)
         (yt * TILE_ARRAY_WIDTH + xt)
         [(yt + 1) * TILE_ARRAY_WIDTH + xt, (yt + 1) * TILE_ARRAY_WIDTH + xt + 1, yt * TILE_ARRAY_WIDTH + xt + 1] dest) dest"

definition right_half_cell ::
  "TileArrays \<Rightarrow> byte list \<Rightarrow> int \<Rightarrow> int \<Rightarrow> int \<Rightarrow> int \<Rightarrow> int \<Rightarrow> int \<Rightarrow> byte list \<Rightarrow> byte list option" where
  "right_half_cell ts source source_stride width tile_size xtiles gradient_threshold yt dest =
     (let ystart = yt * tile_size + c_div tile_size 2 in
      threshold_cell ts source source_stride width gradient_threshold
        (width - c_div tile_size 2) width ystart (ystart + tile_size)
        (yt * TILE_ARRAY_WIDTH + (xtiles - 1)) [(yt + 1) * TILE_ARRAY_WIDTH + (xtiles - 1)] dest)"

definition bottom_left_cell ::
  "TileArrays \<Rightarrow> byte list \<Rightarrow> int \<Rightarrow> int \<Rightarrow> int \<Rightarrow> int \<Rightarrow> int \<Rightarrow> byte list \<Rightarrow> byte list option" where
  "bottom_left_cell ts source source_stride width tile_size ytiles gradient_threshold dest =
     (let ystart = (ytiles - 1) * tile_size + c_div tile_size 2 in
      threshold_cell ts source source_stride width gradient_threshold
        0 (0 + c_div tile_size 2) ystart (ystart + c_div tile_size 2) ((ytiles - 1) * TILE_ARRAY_WIDTH) [] dest)"

definition bottom_row_cells ::
  "TileArrays \<Rightarrow> byte list \<Rightarrow> int \<Rightarrow> int \<Rightarrow> int \<Rightarrow> int \<Rightarrow> int \<Rightarrow> int \<Rightarrow> byte list \<Rightarrow> byte list option" where
  "bottom_row_cells ts source source_stride width tile_size xtiles ytiles gradient_threshold dest =
     for_range 0 (xtiles - 1) (\<lambda>xt dest.
       let xstart = xt * tile_size + c_div tile_size 2;
           ystart = (ytiles - 1) * tile_size + c_div tile_size 2 in
       threshold_cell ts source source_stride width gradient_threshold
         xstart (xstart + tile_size) ystart (ystart + c_div tile_size 2)
         ((ytiles - 1) * TILE_ARRAY_WIDTH + xt) [(ytiles - 1) * TILE_ARRAY_WIDTH + xt + 1] dest) dest"

definition bottom_right_cell ::
  "TileArrays \<Rightarrow> byte list \<Rightarrow> int \<Rightarrow> int \<Rightarrow> int \<Rightarrow> int \<Rightarrow> int \<Rightarrow> int \<Rightarrow> byte list \<Rightarrow> byte list option" where
  "bottom_right_cell ts source source_stride width tile_size xtiles ytiles gradient_threshold dest =
     (let xstart = width - c_div tile_size 2;
          ystart = (ytiles - 1) * tile_size + c_div tile_size 2 in
      threshold_cell ts source source_stride width gradient_threshold
        xstart (xstart + c_div tile_size 2) ystart (ystart + c_div tile_size 2)
        ((ytiles - 1) * TILE_ARRAY_WIDTH + xtiles - 1) [] dest)"

definition overlapped_adaptive_threshold2 ::
  "TileArrays \<Rightarrow> byte list \<Rightarrow> int \<Rightarrow> byte list \<Rightarrow> int \<Rightarrow> int \<Rightarrow> int \<Rightarrow> int \<Rightarrow> (TileArrays \<times> byte list) option" where
  "overlapped_adaptive_threshold2 ts source source_stride dest width height tile_size gradient_threshold = do {
     xtiles \<leftarrow> quot width tile_size;
     ytiles \<leftarrow> quot height tile_size;
     ts \<leftarrow> compute_tiles ts source source_stride width height tile_size xtiles ytiles;
     dest \<leftarrow> top_left_cell ts source source_stride width tile_size gradient_threshold dest;
     dest \<leftarrow> top_row_cells ts source source_stride width tile_size xtiles gradient_threshold dest;
     dest \<leftarrow> top_right_cell ts source source_stride width tile_size xtiles gradient_threshold dest;
     dest \<leftarrow> for_range 0 (ytiles - 1) (\<lambda>yt dest. do {
        dest \<leftarrow> left_half_cell ts source source_stride width tile_size gradient_threshold yt dest;
        dest \<leftarrow> full_cells ts source source_stride width tile_size xtiles gradient_threshold yt dest;
        right_half_cell ts source source_stride width tile_size xtiles gradient_threshold yt dest }) dest;
     dest \<leftarrow> bottom_left_cell ts source source_stride width tile_size ytiles gradient_threshold dest;
     dest \<leftarrow> bottom_row_cells ts source source_stride width tile_size xtiles ytiles gradient_threshold dest;
     dest \<leftarrow> bottom_right_cell ts source source_stride width tile_size xtiles ytiles gradient_threshold dest;
     Some (ts, dest)
   }"

end
