(* ===== verification/PixelLoops.thy ===== *)
theory PixelLoops
  imports Threshold BernsenCorrect
begin

text \<open>
  Loops over the pixels of a rectangle, row by row: one rule for all of them, and the image
  that results when every pixel of a rectangle is written.
\<close>

text \<open>The pixels of a rectangle, in the order of the loops.\<close>

definition pixels :: "int \<Rightarrow> int \<Rightarrow> int \<Rightarrow> int \<Rightarrow> (int \<times> int) list" where
  "pixels xs xe ys ye = concat (map (\<lambda>y. map (\<lambda>x. (x, y)) [xs..xe - 1]) [ys..ye - 1])"

lemma upto_snoc: "i \<le> j \<Longrightarrow> [i..j] = [i..j - 1] @ [j]"
  by (rule upto_rec2)

lemma pixels_row: "ys \<le> y \<Longrightarrow> pixels xs xe ys (y + 1) = pixels xs xe ys y @ map (\<lambda>x. (x, y)) [xs..xe - 1]"
  by (simp add: pixels_def upto_snoc)

lemma pixels_empty [simp]: "ye \<le> ys \<Longrightarrow> pixels xs xe ys ye = []"
  by (simp add: pixels_def)

lemma set_pixels [simp]: "set (pixels xs xe ys ye) = {xs..<xe} \<times> {ys..<ye}"
  by (auto simp: pixels_def)

lemma length_pixels: "length (pixels xs xe ys ye) = nat (xe - xs) * nat (ye - ys)"
  by (simp add: pixels_def length_concat comp_def sum_list_triv)

lemma pixel_loop_rule:
  assumes outer: "\<And>y s. outer y s = for_range xs xe (inner y) s \<bind> cont y"
    and start: "P [] xs ys s" "xs \<le> xe" "ys \<le> ye"
    and step: "\<And>l x y s. xs \<le> x \<Longrightarrow> x < xe \<Longrightarrow> ys \<le> y \<Longrightarrow> y < ye \<Longrightarrow> P l x y s \<Longrightarrow>
      \<exists>s'. inner y x s = Some s' \<and> P (l @ [(x, y)]) (x + 1) y s'"
    and next_row: "\<And>l y s. ys \<le> y \<Longrightarrow> y < ye \<Longrightarrow> P l xe y s \<Longrightarrow> \<exists>s'. cont y s = Some s' \<and> P l xs (y + 1) s'"
  shows "\<exists>s'. for_range ys ye outer s = Some s' \<and> P (pixels xs xe ys ye) xs ye s'"
proof (rule for_range_rule [where P = "\<lambda>y s. P (pixels xs xe ys y) xs y s"])
  show "P (pixels xs xe ys ys) xs ys s" using start(1) by simp
  fix y s assume y: "ys \<le> y" "y < ye" and s: "P (pixels xs xe ys y) xs y s"
  have "\<exists>s'. for_range xs xe (inner y) s = Some s' \<and>
      P (pixels xs xe ys y @ map (\<lambda>x. (x, y)) [xs..xe - 1]) xe y s'"
  proof (rule for_range_rule [where P = "\<lambda>x. P (pixels xs xe ys y @ map (\<lambda>x. (x, y)) [xs..x - 1]) x y"])
    fix x s assume x: "xs \<le> x" "x < xe" and P: "P (pixels xs xe ys y @ map (\<lambda>x. (x, y)) [xs..x - 1]) x y s"
    show "\<exists>s'. inner y x s = Some s' \<and> P (pixels xs xe ys y @ map (\<lambda>x. (x, y)) [xs..x + 1 - 1]) (x + 1) y s'"
      using step [OF x y P] by (simp add: upto_snoc [OF x(1)])
  qed (use s start(2) in simp_all)
  then obtain s1 where s1: "for_range xs xe (inner y) s = Some s1"
      "P (pixels xs xe ys (y + 1)) xe y s1" using pixels_row [OF y(1)] by auto
  then show "\<exists>s'. outer y s = Some s' \<and> P (pixels xs xe ys (y + 1)) xs (y + 1) s'"
    using next_row [OF y s1(2)] by (simp add: outer)
qed (use start in auto)

text \<open>The same when nothing happens between two rows.\<close>

lemma pixel_loop_rule':
  assumes "P [] xs ys s" "xs \<le> xe" "ys \<le> ye"
    and "\<And>l x y s. xs \<le> x \<Longrightarrow> x < xe \<Longrightarrow> ys \<le> y \<Longrightarrow> y < ye \<Longrightarrow> P l x y s \<Longrightarrow>
      \<exists>s'. inner y x s = Some s' \<and> P (l @ [(x, y)]) (x + 1) y s'"
    and "\<And>l y s. ys \<le> y \<Longrightarrow> y < ye \<Longrightarrow> P l xe y s \<Longrightarrow> P l xs (y + 1) s"
  shows "\<exists>s'. for_range ys ye (\<lambda>y. for_range xs xe (inner y)) s = Some s' \<and> P (pixels xs xe ys ye) xs ye s'"
  by (rule pixel_loop_rule [where inner = inner and cont = "\<lambda>_. Some"]) (use assms in auto)

subsection \<open>Painting\<close>

abbreviation px :: "byte list \<Rightarrow> int \<Rightarrow> int \<Rightarrow> int \<Rightarrow> int \<Rightarrow> byte" where
  "px src st W x y \<equiv> src ! nat ((y * W + x) * st)"

text \<open>The image \<open>d\<close> of \<open>n\<close> bytes has the colours \<open>v\<close> at the pixels \<open>S\<close>.\<close>

definition agrees :: "(int \<Rightarrow> int \<Rightarrow> byte) \<Rightarrow> int \<Rightarrow> int \<Rightarrow> (int \<times> int) set \<Rightarrow> byte list \<Rightarrow> bool" where
  "agrees v W n S d \<longleftrightarrow> ilength d = n \<and> (\<forall>(x, y) \<in> S. d ! nat (y * W + x) = v x y)"

lemma agrees_mono: "agrees v W n S d \<Longrightarrow> S' \<subseteq> S \<Longrightarrow> agrees v W n S' d"
  by (auto simp: agrees_def)

lemma pixel_index:
  assumes "0 \<le> x" "x < W" "0 \<le> y" "0 \<le> x'" "x' < W" "0 \<le> (y' :: int)" "nat (y * W + x) = nat (y' * W + x')"
  shows "x' = x" "y' = y"
proof -
  have "0 \<le> y * W + x" "0 \<le> y' * W + x'" using assms by simp_all
  then have e: "y * W + x = y' * W + x'" using assms(7) by linarith
  have "(y * W + x) mod W = x" "(y' * W + x') mod W = x'" "(y * W + x) div W = y" "(y' * W + x') div W = y'"
    using assms by simp_all
  moreover have "W \<noteq> 0" using assms by simp
  ultimately show "x' = x" "y' = y" using e by simp_all
qed

lemma pixel_in_image:
  assumes "0 \<le> x" "x < W" "0 \<le> y" "y < (H :: int)"
  shows "0 \<le> y * W + x" "y * W + x < W * H"
proof -
  show "0 \<le> y * W + x" using assms by simp
  have "(y + 1) * W \<le> H * W" using assms by (intro mult_right_mono) auto
  then show "y * W + x < W * H" using assms by (simp add: algebra_simps)
qed

lemma agrees_write:
  assumes "agrees v W n S d" "0 \<le> x" "x < W" "0 \<le> y" "y < H" "W * H \<le> n" "S \<subseteq> {0..<W} \<times> {0..}"
  shows "wr d (y * W + x) (v x y) = Some (d[nat (y * W + x) := v x y])"
    "agrees v W n (insert (x, y) S) (d[nat (y * W + x) := v x y])"
proof -
  note i = pixel_in_image [OF assms(2-5)]
  have n: "ilength d = n" using assms(1) by (simp add: agrees_def)
  then show "wr d (y * W + x) (v x y) = Some (d[nat (y * W + x) := v x y])"
    using i assms(6) by (intro wr_eq) auto
  have l: "nat (y * W + x) < length d" using i assms(6) n by linarith
  show "agrees v W n (insert (x, y) S) (d[nat (y * W + x) := v x y])"
    unfolding agrees_def
  proof (intro conjI ballI)
    fix q assume q: "q \<in> insert (x, y) S"
    obtain a b where ab: "q = (a, b)" by (cases q)
    show "case q of (a, b) \<Rightarrow> d[nat (y * W + x) := v x y] ! nat (b * W + a) = v a b"
    proof (cases "nat (y * W + x) = nat (b * W + a)")
      case True
      have "0 \<le> a" "a < W" "0 \<le> b" using q assms(2-4,7) ab by auto
      then have "a = x" "b = y" using pixel_index [OF assms(2-4) _ _ _ True] by simp_all
      then show ?thesis using l ab by simp
    next
      case False
      then have "(a, b) \<in> S" using q ab by auto
      then show ?thesis using False assms(1) ab by (auto simp: agrees_def)
    qed
  qed (use n in simp)
qed

text \<open>A rectangle inside the image.\<close>

definition inside :: "int \<Rightarrow> int \<Rightarrow> int \<Rightarrow> int \<Rightarrow> int \<Rightarrow> int \<Rightarrow> bool" where
  "inside W H xs xe ys ye \<longleftrightarrow> 0 \<le> xs \<and> xs \<le> xe \<and> xe \<le> W \<and> 0 \<le> ys \<and> ys \<le> ye \<and> ye \<le> H"

lemma threshold_block_ok:
  assumes i: "inside W H xs xe ys ye" and rd: "image_readable src st W H" and n: "W * H \<le> n"
    and S: "agrees v W n S d" "S \<subseteq> {0..<W} \<times> {0..}"
    and v: "\<And>x y. (x, y) \<in> {xs..<xe} \<times> {ys..<ye} \<Longrightarrow> v x y = (if uint (px src st W x y) > th then 255 else 0)"
  shows "\<exists>d'. threshold_block src st d W xs xe ys ye th = Some d' \<and> agrees v W n (S \<union> {xs..<xe} \<times> {ys..<ye}) d'"
proof -
  let ?P = "\<lambda>l x y (p, q, d). p = (y * W + x) * st \<and> q = y * W + x \<and> set l \<subseteq> {0..<W} \<times> {0..} \<and> agrees v W n (S \<union> set l) d"
  note I = i [unfolded inside_def]
  have "\<exists>s'. for_range ys ye (\<lambda>y s. do {
        (pp1, pdest, dest) \<leftarrow> for_range xs xe (\<lambda>x (pp1, pdest, dest). do {
           p1 \<leftarrow> rd src pp1;
           dest \<leftarrow> wr dest pdest (if uint p1 > th then 255 else 0);
           Some (pp1 + st, pdest + 1, dest) }) s;
        Some (pp1 + (W - (xe - xs)) * st, pdest + (W - (xe - xs)), dest) })
       ((ys * W + xs) * st, ys * W + xs, d) = Some s' \<and> ?P (pixels xs xe ys ye) xs ye s'"
  proof (rule pixel_loop_rule [OF refl, where P = ?P])
    fix l x y s assume x: "xs \<le> x" "x < xe" and y: "ys \<le> y" "y < ye" and P: "?P l x y s"
    obtain p q d where s: "s = (p, q, d)" by (cases s)
    have xy: "0 \<le> x" "x < W" "0 \<le> y" "y < H" using x y I by auto
    have P': "p = (y * W + x) * st" "q = y * W + x" "set l \<subseteq> {0..<W} \<times> {0..}" "agrees v W n (S \<union> set l) d"
      using P by (simp_all add: s)
    have u: "S \<union> set l \<subseteq> {0..<W} \<times> {0..}" using S(2) P'(3) by simp
    note W = agrees_write [OF P'(4) xy n u]
    have "v x y = (if uint (px src st W x y) > th then 255 else 0)" using v x y by simp
    then show "\<exists>s'. (case s of (pp1, pdest, dest) \<Rightarrow> do {
           p1 \<leftarrow> rd src pp1;
           dest \<leftarrow> wr dest pdest (if uint p1 > th then 255 else 0);
           Some (pp1 + st, pdest + 1, dest) }) = Some s' \<and> ?P (l @ [(x, y)]) (x + 1) y s'"
      using W image_read [OF rd xy(3,4,1,2)] P' xy by (simp add: s algebra_simps)
  next
    fix l y s assume "ys \<le> y" "y < ye" "?P l xe y s"
    then show "\<exists>s'. (case s of (pp1, pdest, dest) \<Rightarrow> Some (pp1 + (W - (xe - xs)) * st, pdest + (W - (xe - xs)), dest)) = Some s' \<and>
        ?P l xs (y + 1) s'" by (cases s) (simp add: algebra_simps)
  qed (use S I in simp_all)
  then show ?thesis by (auto simp: threshold_block_def Let_def)
qed

lemma clear_block_ok:
  assumes i: "inside W H xs xe ys ye" and n: "W * H \<le> n"
    and S: "agrees v W n S d" "S \<subseteq> {0..<W} \<times> {0..}"
    and v: "\<And>x y. (x, y) \<in> {xs..<xe} \<times> {ys..<ye} \<Longrightarrow> v x y = 0"
  shows "\<exists>d'. clear_block d W xs xe ys ye = Some d' \<and> agrees v W n (S \<union> {xs..<xe} \<times> {ys..<ye}) d'"
proof -
  let ?P = "\<lambda>l x y (q, d). q = y * W + x \<and> set l \<subseteq> {0..<W} \<times> {0..} \<and> agrees v W n (S \<union> set l) d"
  note I = i [unfolded inside_def]
  have "\<exists>s'. for_range ys ye (\<lambda>y s. do {
        (pdest, dest) \<leftarrow> for_range xs xe (\<lambda>x (pdest, dest). do {
           dest \<leftarrow> wr dest pdest 0;
           Some (pdest + 1, dest) }) s;
        Some (pdest + (W - (xe - xs)), dest) }) (ys * W + xs, d) = Some s' \<and> ?P (pixels xs xe ys ye) xs ye s'"
  proof (rule pixel_loop_rule [OF refl, where P = ?P])
    fix l x y s assume x: "xs \<le> x" "x < xe" and y: "ys \<le> y" "y < ye" and P: "?P l x y s"
    obtain q d where s: "s = (q, d)" by (cases s)
    have xy: "0 \<le> x" "x < W" "0 \<le> y" "y < H" using x y I by auto
    have P': "q = y * W + x" "set l \<subseteq> {0..<W} \<times> {0..}" "agrees v W n (S \<union> set l) d"
      using P by (simp_all add: s)
    have u: "S \<union> set l \<subseteq> {0..<W} \<times> {0..}" using S(2) P'(2) by simp
    note W = agrees_write [OF P'(3) xy n u]
    have "v x y = 0" using v x y by simp
    then show "\<exists>s'. (case s of (pdest, dest) \<Rightarrow> do { dest \<leftarrow> wr dest pdest 0; Some (pdest + 1, dest) }) = Some s' \<and>
        ?P (l @ [(x, y)]) (x + 1) y s'"
      using W P' xy by (simp add: s algebra_simps)
  next
    fix l y s assume "ys \<le> y" "y < ye" "?P l xe y s"
    then show "\<exists>s'. (case s of (pdest, dest) \<Rightarrow> Some (pdest + (W - (xe - xs)), dest)) = Some s' \<and>
        ?P l xs (y + 1) s'" by (cases s) (simp add: algebra_simps)
  qed (use S I in simp_all)
  then show ?thesis by (auto simp: clear_block_def Let_def)
qed

end
