(* ===== verification/ThresholdTiles.thy ===== *)
theory ThresholdTiles
  imports PixelLoops
begin

text \<open>
  The tile pass of \<open>overlapped_adaptive_threshold2\<close>: what the three arrays hold afterwards,
  and the fault for images with more tiles than the arrays have room for.
\<close>

text \<open>The end of the span of a tile of which the gradient is taken: the last column and the
  last row of the image are left out.\<close>

definition edge_end :: "int \<Rightarrow> int \<Rightarrow> int \<Rightarrow> int" where
  "edge_end W T c = (if c * T + T > W - 1 then W - 1 else c * T + T)"

abbreviation edge_pixels :: "int \<Rightarrow> int \<Rightarrow> int \<Rightarrow> int \<Rightarrow> int \<Rightarrow> (int \<times> int) list" where
  "edge_pixels W H T c r \<equiv> pixels (c * T) (edge_end W T c) (r * T) (edge_end H T r)"

definition edge_at :: "byte list \<Rightarrow> int \<Rightarrow> int \<Rightarrow> int \<times> int \<Rightarrow> int \<times> byte \<times> byte \<Rightarrow> int \<times> byte \<times> byte" where
  "edge_at src st W = (\<lambda>(x, y). edge_update (px src st W x y) (px src st W (x + 1) y) (px src st W x (y + 1)))"

text \<open>The entries of the arrays for the tile in column \<open>c\<close> and row \<open>r\<close>.\<close>

definition tile_entry :: "byte list \<Rightarrow> int \<Rightarrow> int \<Rightarrow> int \<Rightarrow> int \<Rightarrow> int \<Rightarrow> int \<Rightarrow> int \<times> byte \<times> byte" where
  "tile_entry src st W H T c r = fold (edge_at src st W) (edge_pixels W H T c r) (0, 0, 255)"

lemma tile_edges_ok:
  assumes rd: "image_readable src st W H" and i: "inside (W - 1) (H - 1) xs xe ys ye"
  shows "tile_edges src st W xs xe ys ye = Some (fold (edge_at src st W) (pixels xs xe ys ye) (0, 0, 255))"
proof -
  let ?P = "\<lambda>l x y (p, q, acc). p = (y * W + x) * st \<and> q = ((y + 1) * W + x) * st \<and>
    acc = fold (edge_at src st W) l (0, 0, 255)"
  note I = i [unfolded inside_def]
  have "\<exists>s'. for_range ys ye (\<lambda>y s. do {
        (pp1, pp4, acc) \<leftarrow> for_range xs xe (\<lambda>x (pp1, pp4, acc). do {
           p1 \<leftarrow> rd src pp1;
           p2 \<leftarrow> rd src (pp1 + st);
           p4 \<leftarrow> rd src pp4;
           Some (pp1 + st, pp4 + st, edge_update p1 p2 p4 acc) }) s;
        Some (pp1 + (W - (xe - xs)) * st, pp4 + (W - (xe - xs)) * st, acc) })
      ((ys * W + xs) * st, (ys * W + xs) * st + W * st, (0, 0, 255)) = Some s' \<and> ?P (pixels xs xe ys ye) xs ye s'"
  proof (rule pixel_loop_rule [OF refl, where P = ?P])
    fix l x y s assume x: "xs \<le> x" "x < xe" and y: "ys \<le> y" "y < ye" and P: "?P l x y s"
    obtain p q acc where s: "s = (p, q, acc)" by (cases s)
    have P': "p = (y * W + x) * st" "q = ((y + 1) * W + x) * st" "acc = fold (edge_at src st W) l (0, 0, 255)"
      using P by (simp_all add: s)
    have xy: "0 \<le> x" "x < W" "0 \<le> y" "y < H" "x + 1 < W" "y + 1 < H" using x y I by auto
    have r: "rd src p = Some (px src st W x y)" "rd src (p + st) = Some (px src st W (x + 1) y)"
        "rd src q = Some (px src st W x (y + 1))"
      using image_read [OF rd, of y x] image_read [OF rd, of y "x + 1"] image_read [OF rd, of "y + 1" x] xy
      unfolding P'(1,2) by (simp_all add: algebra_simps)
    show "\<exists>s'. (case s of (pp1, pp4, acc) \<Rightarrow> do {
           p1 \<leftarrow> rd src pp1;
           p2 \<leftarrow> rd src (pp1 + st);
           p4 \<leftarrow> rd src pp4;
           Some (pp1 + st, pp4 + st, edge_update p1 p2 p4 acc) }) = Some s' \<and> ?P (l @ [(x, y)]) (x + 1) y s'"
      by (simp add: s r P'(3) edge_at_def) (simp add: P' algebra_simps)
  next
    fix l y s assume "ys \<le> y" "y < ye" "?P l xe y s"
    then show "\<exists>s'. (case s of (pp1, pp4, acc) \<Rightarrow> Some (pp1 + (W - (xe - xs)) * st, pp4 + (W - (xe - xs)) * st, acc)) = Some s' \<and>
        ?P l xs (y + 1) s'" by (cases s) (simp add: algebra_simps)
  qed (use I in \<open>simp_all add: algebra_simps\<close>)
  then show ?thesis by (auto simp: tile_edges_def Let_def)
qed

subsection \<open>The arrays\<close>

definition tile_memory :: "TileArrays \<Rightarrow> bool" where
  "tile_memory ts \<longleftrightarrow> ilength (sobel_tiles ts) = TILE_ARRAY_HEIGHT * TILE_ARRAY_WIDTH \<and>
     ilength (max_tiles ts) = TILE_ARRAY_HEIGHT * TILE_ARRAY_WIDTH \<and>
     ilength (min_tiles ts) = TILE_ARRAY_HEIGHT * TILE_ARRAY_WIDTH"

definition tile_index :: "int \<times> int \<Rightarrow> nat" where
  "tile_index = (\<lambda>(c, r). nat (r * TILE_ARRAY_WIDTH + c))"

definition entries :: "(int \<Rightarrow> int \<Rightarrow> int \<times> byte \<times> byte) \<Rightarrow> (int \<times> int) set \<Rightarrow> TileArrays \<Rightarrow> bool" where
  "entries e A ts \<longleftrightarrow> tile_memory ts \<and> (\<forall>q \<in> A.
     (sobel_tiles ts ! tile_index q, max_tiles ts ! tile_index q, min_tiles ts ! tile_index q) = e (fst q) (snd q))"

lemma tile_index_bound:
  assumes "0 \<le> c" "c < 40" "0 \<le> r" "r < 30"
  shows "0 \<le> r * TILE_ARRAY_WIDTH + c" "r * TILE_ARRAY_WIDTH + c < 1200"
  using assms by (simp_all add: TILE_ARRAY_WIDTH_def)

lemma entries_write:
  assumes "entries e A ts" "0 \<le> c" "c < 40" "0 \<le> r" "r < 30" "A \<subseteq> {0..<40} \<times> {0..}"
    and "e c r = (mag, mx, mn)"
  shows "\<exists>s m1 m2. wr (sobel_tiles ts) (r * TILE_ARRAY_WIDTH + c) mag = Some s \<and>
    wr (max_tiles ts) (r * TILE_ARRAY_WIDTH + c) mx = Some m1 \<and>
    wr (min_tiles ts) (r * TILE_ARRAY_WIDTH + c) mn = Some m2 \<and>
    entries e (insert (c, r) A) \<lparr>sobel_tiles = s, max_tiles = m1, min_tiles = m2\<rparr>"
proof -
  let ?i = "r * TILE_ARRAY_WIDTH + c"
  have m: "ilength (sobel_tiles ts) = 1200" "ilength (max_tiles ts) = 1200" "ilength (min_tiles ts) = 1200"
    using assms(1) by (simp_all add: entries_def tile_memory_def TILE_ARRAY_HEIGHT_def TILE_ARRAY_WIDTH_def)
  note i = tile_index_bound [OF assms(2-5)]
  have w: "wr (sobel_tiles ts) ?i mag = Some ((sobel_tiles ts)[nat ?i := mag])"
    "wr (max_tiles ts) ?i mx = Some ((max_tiles ts)[nat ?i := mx])"
    "wr (min_tiles ts) ?i mn = Some ((min_tiles ts)[nat ?i := mn])"
    using i m by (simp_all add: wr_eq)
  let ?ts = "\<lparr>sobel_tiles = (sobel_tiles ts)[nat ?i := mag], max_tiles = (max_tiles ts)[nat ?i := mx],
    min_tiles = (min_tiles ts)[nat ?i := mn]\<rparr>"
  have "entries e (insert (c, r) A) ?ts"
    unfolding entries_def
  proof (intro conjI ballI)
    show "tile_memory ?ts" using assms(1) by (simp add: entries_def tile_memory_def)
    fix q assume q: "q \<in> insert (c, r) A"
    show "(sobel_tiles ?ts ! tile_index q, max_tiles ?ts ! tile_index q, min_tiles ?ts ! tile_index q) = e (fst q) (snd q)"
    proof (cases "nat ?i = tile_index q")
      case True
      have "0 \<le> fst q" "fst q < 40" "0 \<le> snd q" using q assms(2-6) by auto
      then have "fst q = c" "snd q = r"
        using pixel_index [of c TILE_ARRAY_WIDTH r "fst q" "snd q"] True assms(2-4)
        by (simp_all add: tile_index_def case_prod_unfold TILE_ARRAY_WIDTH_def)
      moreover have "tile_index q < 1200" using True i by linarith
      ultimately show ?thesis using True m assms(7) by simp
    next
      case False
      then have "q \<in> A" using q by (auto simp: tile_index_def)
      then show ?thesis using False assms(1) by (simp add: entries_def)
    qed
  qed
  then show ?thesis using w by blast
qed

lemma edge_end_bounds:
  assumes "0 < T" "0 \<le> c" "c < W div T" "1 < T"
  shows "0 \<le> c * T" "c * T \<le> edge_end W T c" "edge_end W T c \<le> W - 1"
proof -
  show "0 \<le> c * T" using assms by simp
  have "(c + 1) * T \<le> W div T * T" using assms by (intro mult_right_mono) auto
  also have "\<dots> \<le> W" using assms(1) div_mult_mod_eq [of W T] pos_mod_sign [OF assms(1), of W] by linarith
  finally have "c * T + T \<le> W" by (simp add: algebra_simps)
  then show "c * T \<le> edge_end W T c" "edge_end W T c \<le> W - 1" using assms(4) by (auto simp: edge_end_def)
qed

lemma compute_tiles_ok:
  assumes T: "1 < T" and rd: "image_readable src st W H" and m: "tile_memory ts"
    and n: "0 \<le> W" "0 \<le> H" "W div T \<le> 40" "H div T \<le> 30"
  shows "\<exists>ts'. compute_tiles ts src st W H T (W div T) (H div T) = Some ts' \<and>
    entries (tile_entry src st W H T) ({0..<W div T} \<times> {0..<H div T}) ts'"
proof -
  let ?P = "\<lambda>l (c :: int) (r :: int) ts. set l \<subseteq> {0..<40} \<times> {0..} \<and> entries (tile_entry src st W H T) (set l) ts"
  have "\<exists>s'. for_range 0 (H div T) (\<lambda>yt. for_range 0 (W div T) (\<lambda>xt ts. do {
       let xstart = xt * T;
       let xend = (if xstart + T > W - 1 then W - 1 else xstart + T);
       let ystart = yt * T;
       let yend = (if ystart + T > H - 1 then H - 1 else ystart + T);
       (mag, mx, mn) \<leftarrow> tile_edges src st W xstart xend ystart yend;
       sobel \<leftarrow> wr (sobel_tiles ts) (yt * TILE_ARRAY_WIDTH + xt) mag;
       maxs \<leftarrow> wr (max_tiles ts) (yt * TILE_ARRAY_WIDTH + xt) mx;
       mins \<leftarrow> wr (min_tiles ts) (yt * TILE_ARRAY_WIDTH + xt) mn;
       Some \<lparr>sobel_tiles = sobel, max_tiles = maxs, min_tiles = mins\<rparr> })) ts = Some s' \<and>
    ?P (pixels 0 (W div T) 0 (H div T)) 0 (H div T) s'"
  proof (rule pixel_loop_rule' [where P = ?P])
    fix l c r ts assume c: "0 \<le> c" "c < W div T" and r: "0 \<le> r" "r < H div T" and P: "?P l c r ts"
    have t: "0 < T" using T by simp
    have b: "c < 40" "r < 30" using c r n by simp_all
    have i: "inside (W - 1) (H - 1) (c * T) (edge_end W T c) (r * T) (edge_end H T r)"
      using edge_end_bounds [OF t c T] edge_end_bounds [OF t r T] by (simp add: inside_def)
    obtain mag mx mn where e: "tile_entry src st W H T c r = (mag, mx, mn)" by (cases "tile_entry src st W H T c r")
    have te: "tile_edges src st W (c * T) (edge_end W T c) (r * T) (edge_end H T r) = Some (mag, mx, mn)"
      using tile_edges_ok [OF rd i] e by (simp add: tile_entry_def)
    obtain s m1 m2 where w: "wr (sobel_tiles ts) (r * TILE_ARRAY_WIDTH + c) mag = Some s"
        "wr (max_tiles ts) (r * TILE_ARRAY_WIDTH + c) mx = Some m1" "wr (min_tiles ts) (r * TILE_ARRAY_WIDTH + c) mn = Some m2"
        "entries (tile_entry src st W H T) (insert (c, r) (set l)) \<lparr>sobel_tiles = s, max_tiles = m1, min_tiles = m2\<rparr>"
      using entries_write [of "tile_entry src st W H T" "set l" ts c r mag mx mn] P c(1) b r(1) e by blast
    show "\<exists>s'. (do {
       let xstart = c * T;
       let xend = (if xstart + T > W - 1 then W - 1 else xstart + T);
       let ystart = r * T;
       let yend = (if ystart + T > H - 1 then H - 1 else ystart + T);
       (mag, mx, mn) \<leftarrow> tile_edges src st W xstart xend ystart yend;
       sobel \<leftarrow> wr (sobel_tiles ts) (r * TILE_ARRAY_WIDTH + c) mag;
       maxs \<leftarrow> wr (max_tiles ts) (r * TILE_ARRAY_WIDTH + c) mx;
       mins \<leftarrow> wr (min_tiles ts) (r * TILE_ARRAY_WIDTH + c) mn;
       Some \<lparr>sobel_tiles = sobel, max_tiles = maxs, min_tiles = mins\<rparr> }) = Some s' \<and> ?P (l @ [(c, r)]) (c + 1) r s'"
      using te w P c b r by (simp add: Let_def flip: edge_end_def)
  qed (use m n T in \<open>simp_all add: entries_def pos_imp_zdiv_nonneg_iff\<close>)
  then show ?thesis by (auto simp: compute_tiles_def)
qed

text \<open>An image with too many tiles: the arrays are written past their end.\<close>

lemma loop_each:
  assumes "loop i n body s = Some s'" "P s" "\<And>j s s'. P s \<Longrightarrow> body j s = Some s' \<Longrightarrow> P s'" "k < n"
  shows "\<exists>s1 s2. P s1 \<and> body (i + int k) s1 = Some s2"
  using assms(1,2,4)
proof (induction n arbitrary: i s k)
  case (Suc n)
  obtain s1 where s1: "body i s = Some s1" "loop (i + 1) n body s1 = Some s'"
    using Suc.prems(1) by (auto simp: Option.bind_eq_Some_conv)
  show ?case
  proof (cases k)
    case 0
    then show ?thesis using Suc.prems(2) s1(1) by auto
  next
    case (Suc k')
    then show ?thesis
      using Suc.IH [OF s1(2) assms(3) [OF Suc.prems(2) s1(1)], of k'] Suc.prems(3) by (simp add: algebra_simps)
  qed
qed simp

lemma for_range_each:
  assumes "for_range lo hi body s = Some s'" "P s" "\<And>j s s'. P s \<Longrightarrow> body j s = Some s' \<Longrightarrow> P s'" "lo \<le> j" "j < hi"
  shows "\<exists>s1 s2. P s1 \<and> body j s1 = Some s2"
  using loop_each [of lo "nat (hi - lo)" body s s' P "nat (j - lo)"] assms by (auto simp: for_range_def)

lemma for_range_keeps:
  assumes "for_range lo hi body s = Some s'" "P s" "\<And>j s s'. P s \<Longrightarrow> body j s = Some s' \<Longrightarrow> P s'"
  shows "P s'"
  using loop_keeps [of P s lo "nat (hi - lo)" body s'] assms by (auto simp: for_range_def)

lemma compute_tiles_fault:
  assumes "0 < nx" "0 < ny" "TILE_ARRAY_HEIGHT * TILE_ARRAY_WIDTH \<le> (ny - 1) * TILE_ARRAY_WIDTH + (nx - 1)" "tile_memory ts"
  shows "compute_tiles ts src st W H T nx ny = None"
proof (rule ccontr)
  let ?body = "\<lambda>yt xt ts. do {
       let xstart = xt * T;
       let xend = (if xstart + T > W - 1 then W - 1 else xstart + T);
       let ystart = yt * T;
       let yend = (if ystart + T > H - 1 then H - 1 else ystart + T);
       (mag, mx, mn) \<leftarrow> tile_edges src st W xstart xend ystart yend;
       sobel \<leftarrow> wr (sobel_tiles ts) (yt * TILE_ARRAY_WIDTH + xt) mag;
       maxs \<leftarrow> wr (max_tiles ts) (yt * TILE_ARRAY_WIDTH + xt) mx;
       mins \<leftarrow> wr (min_tiles ts) (yt * TILE_ARRAY_WIDTH + xt) mn;
       Some \<lparr>sobel_tiles = sobel, max_tiles = maxs, min_tiles = mins\<rparr> }"
  have keep: "tile_memory s'" if "tile_memory s" "?body yt xt s = Some s'" for yt xt s s'
    using that by (auto simp: Let_def Option.bind_eq_Some_conv wr_Some_iff tile_memory_def)
  have keep': "tile_memory s'" if "tile_memory s" "for_range 0 nx (?body yt) s = Some s'" for yt s s'
    using for_range_keeps [of 0 nx "?body yt" s s' tile_memory] that keep by blast
  assume "compute_tiles ts src st W H T nx ny \<noteq> None"
  then obtain ts' where "for_range 0 ny (\<lambda>yt. for_range 0 nx (?body yt)) ts = Some ts'"
    unfolding compute_tiles_def by blast
  from for_range_each [OF this, of tile_memory "ny - 1"] obtain s1 s2 where
    s1: "tile_memory s1" "for_range 0 nx (?body (ny - 1)) s1 = Some s2" using assms keep' by auto
  from for_range_each [OF s1(2), of tile_memory "nx - 1"] obtain s3 s4 where
    "tile_memory s3" "?body (ny - 1) (nx - 1) s3 = Some s4" using assms(1) keep s1(1) by auto
  then show False
    using assms(3) by (auto simp: Let_def Option.bind_eq_Some_conv wr_Some_iff tile_memory_def)
qed

subsection \<open>What the entries are\<close>

lemma fold_edge_gradient:
  "fst (fold (edge_at src st W) l (m, mx, mn)) =
   fold max (map (\<lambda>(x, y). \<bar>uint (px src st W (x + 1) y) - uint (px src st W x y)\<bar> +
     \<bar>uint (px src st W x (y + 1)) - uint (px src st W x y)\<bar>) l) m"
proof (induction l arbitrary: m mx mn)
  case (Cons q l)
  then show ?case by (cases q) (auto simp: edge_at_def edge_update_def Let_def max_def)
qed simp

lemma fold_edge_max:
  "fst (snd (fold (edge_at src st W) l (m, mx, mn))) = fold max (map (\<lambda>(x, y). px src st W x y) l) mx"
proof (induction l arbitrary: m mx mn)
  case (Cons q l)
  then show ?case by (cases q) (auto simp: edge_at_def edge_update_def Let_def max_def)
qed simp

lemma fold_max_Max: "fold max xs (m :: 'a::linorder) = Max (insert m (set xs))"
  by (metis Max.set_eq_fold list.simps(15))

end
