(* ===== verification/ThresholdCells.thy ===== *)
theory ThresholdCells
  imports ThresholdTiles
begin

text \<open>
  The nine kinds of cells of \<open>overlapped_adaptive_threshold2\<close>: each pixel is thresholded by
  the extremes of the tiles whose centres surround it.
\<close>

subsection \<open>One cell\<close>

lemma largest_ok:
  assumes "\<forall>i \<in> set is. 0 \<le> i \<and> i < ilength arr"
  shows "largest arr m is = Some (Max (insert m ((\<lambda>i. arr ! nat i) ` set is)))"
  using assms
proof (induction "is" arbitrary: m)
  case (Cons i js)
  have "largest arr m (i # js) = largest arr (max m (arr ! nat i)) js"
    using Cons.prems by (simp add: rd_eq max_def not_less) (metis leD order_less_imp_le)
  also have "\<dots> = Some (Max (insert (max m (arr ! nat i)) ((\<lambda>i. arr ! nat i) ` set js)))"
    using Cons.IH Cons.prems by simp
  also have "Max (insert (max m (arr ! nat i)) ((\<lambda>i. arr ! nat i) ` set js)) =
      Max (insert m ((\<lambda>i. arr ! nat i) ` set (i # js)))"
    by (cases "js = []") (simp_all add: Max_insert max.assoc)
  finally show ?case .
qed simp

lemma smallest_ok:
  assumes "\<forall>i \<in> set is. 0 \<le> i \<and> i < ilength arr"
  shows "smallest arr m is = Some (Min (insert m ((\<lambda>i. arr ! nat i) ` set is)))"
  using assms
proof (induction "is" arbitrary: m)
  case (Cons i js)
  have "smallest arr m (i # js) = smallest arr (min m (arr ! nat i)) js"
    using Cons.prems by (simp add: rd_eq min_def not_less) (metis leD order_less_imp_le)
  also have "\<dots> = Some (Min (insert (min m (arr ! nat i)) ((\<lambda>i. arr ! nat i) ` set js)))"
    using Cons.IH Cons.prems by simp
  also have "Min (insert (min m (arr ! nat i)) ((\<lambda>i. arr ! nat i) ` set js)) =
      Min (insert m ((\<lambda>i. arr ! nat i) ` set (i # js)))"
    by (cases "js = []") (simp_all add: Min_insert min.assoc)
  finally show ?case .
qed simp

text \<open>The colour of a pixel of value \<open>p\<close> in a cell with the tiles \<open>A\<close>.\<close>

definition cell_colour :: "(int \<Rightarrow> int \<Rightarrow> int \<times> byte \<times> byte) \<Rightarrow> int \<Rightarrow> (int \<times> int) set \<Rightarrow> byte \<Rightarrow> byte" where
  "cell_colour e gt A p = (
     let mag = Max ((\<lambda>(c, r). fst (e c r)) ` A);
         mx = Max ((\<lambda>(c, r). fst (snd (e c r))) ` A);
         mn = Min ((\<lambda>(c, r). snd (snd (e c r))) ` A)
     in if mag > gt \<and> uint p > (uint mx + uint mn) div 2 then 255 else 0)"

text \<open>The tiles around position \<open>x\<close>, in one dimension.\<close>

definition around :: "int \<Rightarrow> int \<Rightarrow> int \<Rightarrow> int set" where
  "around n T x = {c \<in> {(x + T div 2) div T - 1, (x + T div 2) div T}. 0 \<le> c \<and> c < n}"

lemma around_cases:
  assumes "T = 2 * h" "0 < h" "0 < n"
  shows "0 \<le> x \<Longrightarrow> x < h \<Longrightarrow> around n T x = {0}"
    "0 \<le> c \<Longrightarrow> c < n - 1 \<Longrightarrow> c * T + h \<le> x \<Longrightarrow> x < c * T + h + T \<Longrightarrow> around n T x = {c, c + 1}"
    "n * T - h \<le> x \<Longrightarrow> x < n * T \<Longrightarrow> around n T x = {n - 1}"
proof -
  have d: "(x + T div 2) div T = k" if "k * T \<le> x + h" "x + h < (k + 1) * T" for k
  proof -
    have "T div 2 = h" using assms(1) by simp
    moreover have "x + h = k * T + (x + h - k * T)" "0 \<le> x + h - k * T" "x + h - k * T < T" using that by (simp_all add: algebra_simps)
    ultimately show ?thesis using div_mult_self3 [of T k "x + h - k * T"] div_pos_pos_trivial [of "x + h - k * T" T] assms
      by (metis add.commute add.right_neutral less_irrefl mult_pos_pos zero_less_numeral)
  qed
  show "around n T x = {0}" if "0 \<le> x" "x < h"
    using d [of 0] that assms by (auto simp: around_def)
  show "around n T x = {c, c + 1}" if "0 \<le> c" "c < n - 1" "c * T + h \<le> x" "x < c * T + h + T"
    using d [of "c + 1"] that assms by (auto simp: around_def algebra_simps)
  show "around n T x = {n - 1}" if "n * T - h \<le> x" "x < n * T"
    using d [of n] that assms by (auto simp: around_def algebra_simps)
qed

lemma threshold_cell_ok:
  assumes e: "entries e A ts" and A: "insert q (set qs) \<subseteq> A" "A \<subseteq> {0..<40} \<times> {0..<30}"
    and ij: "i = int (tile_index q)" "is = map (int \<circ> tile_index) qs"
    and rect: "inside W H xs xe ys ye" and rd: "image_readable src st W H" and n: "W * H \<le> n"
    and S: "agrees v W n S d" "S \<subseteq> {0..<W} \<times> {0..}"
    and v: "\<And>x y. (x, y) \<in> {xs..<xe} \<times> {ys..<ye} \<Longrightarrow> v x y = cell_colour e gt (insert q (set qs)) (px src st W x y)"
  shows "\<exists>d'. threshold_cell ts src st W gt xs xe ys ye i is d = Some d' \<and> agrees v W n (S \<union> {xs..<xe} \<times> {ys..<ye}) d'"
proof -
  let ?B = "insert q (set qs)"
  have m: "ilength (sobel_tiles ts) = 1200" "ilength (max_tiles ts) = 1200" "ilength (min_tiles ts) = 1200"
    using e by (simp_all add: entries_def tile_memory_def TILE_ARRAY_HEIGHT_def TILE_ARRAY_WIDTH_def)
  have ib: "tile_index p < 1200" if "p \<in> ?B" for p
    using tile_index_bound [of "fst p" "snd p"] that A by (auto simp: tile_index_def case_prod_unfold)
  have en: "sobel_tiles ts ! tile_index p = fst (e (fst p) (snd p))" "max_tiles ts ! tile_index p = fst (snd (e (fst p) (snd p)))"
    "min_tiles ts ! tile_index p = snd (snd (e (fst p) (snd p)))" if "p \<in> ?B" for p
  proof -
    have "p \<in> A" using that A(1) by blast
    then have "(sobel_tiles ts ! tile_index p, max_tiles ts ! tile_index p, min_tiles ts ! tile_index p) = e (fst p) (snd p)"
      using e by (simp add: entries_def)
    then show "sobel_tiles ts ! tile_index p = fst (e (fst p) (snd p))" "max_tiles ts ! tile_index p = fst (snd (e (fst p) (snd p)))"
      "min_tiles ts ! tile_index p = snd (snd (e (fst p) (snd p)))" by (simp_all add: prod_eq_iff)
  qed
  let ?mag = "Max ((\<lambda>(c, r). fst (e c r)) ` ?B)" and ?mx = "Max ((\<lambda>(c, r). fst (snd (e c r))) ` ?B)"
    and ?mn = "Min ((\<lambda>(c, r). snd (snd (e c r))) ` ?B)"
  have bi: "\<forall>i \<in> set is. 0 \<le> i \<and> i < 1200" "0 \<le> i" "i < 1200" using ib by (auto simp: ij)
  have img: "insert (sobel_tiles ts ! nat i) ((\<lambda>i. sobel_tiles ts ! nat i) ` set is) = (\<lambda>(c, r). fst (e c r)) ` ?B"
    "insert (max_tiles ts ! nat i) ((\<lambda>i. max_tiles ts ! nat i) ` set is) = (\<lambda>(c, r). fst (snd (e c r))) ` ?B"
    "insert (min_tiles ts ! nat i) ((\<lambda>i. min_tiles ts ! nat i) ` set is) = (\<lambda>(c, r). snd (snd (e c r))) ` ?B"
    unfolding ij set_map image_image image_insert comp_def nat_int case_prod_unfold
    using en by (auto intro!: arg_cong2 [where f = insert] image_cong)
  have run: "threshold_cell ts src st W gt xs xe ys ye i is d = (if ?mag > gt
      then threshold_block src st d W xs xe ys ye ((uint ?mx + uint ?mn) div 2) else clear_block d W xs xe ys ye)"
    using bi m unfolding threshold_cell_def
    by (simp add: rd_eq largest_ok smallest_ok img)
  show ?thesis
  proof (cases "?mag > gt")
    case True
    show ?thesis unfolding run using True
      by (simp only: if_True) (rule threshold_block_ok [OF rect rd n S], use v True in \<open>simp add: cell_colour_def Let_def\<close>)
  next
    case False
    show ?thesis unfolding run using False
      by (simp only: if_False) (rule clear_block_ok [OF rect n S], use v False in \<open>simp add: cell_colour_def Let_def\<close>)
  qed
qed

end
