(* ===== verification/ThresholdCorrect.thy ===== *)
theory ThresholdCorrect
  imports ThresholdCells
begin

text \<open>
  The functions of \<^verbatim>\<open>threshold.c\<close> as functions of the image: the value of every pixel of
  the result, and the faults for images that do not fit.
\<close>

subsection \<open>All cells of overlapped_adaptive_threshold2\<close>

lemma span_join: "a \<le> b \<Longrightarrow> b \<le> c \<Longrightarrow> {a..<b} \<times> Y \<union> {b..<c :: int} \<times> Y = {a..<c} \<times> Y"
  by auto

lemma rows_join: "a \<le> b \<Longrightarrow> b \<le> c \<Longrightarrow> X \<times> {a..<b} \<union> X \<times> {b..<c :: int} = X \<times> {a..<c}"
  by auto

text \<open>The arrays are those of an image of \<open>nx\<close> by \<open>ny\<close> tiles of the even size \<open>T\<close>.\<close>

definition tiled :: "byte list \<Rightarrow> int \<Rightarrow> int \<Rightarrow> int \<Rightarrow> int \<Rightarrow> int \<Rightarrow> (int \<Rightarrow> int \<Rightarrow> int \<times> byte \<times> byte) \<Rightarrow> TileArrays \<Rightarrow> bool" where
  "tiled src st T h nx ny e ts \<longleftrightarrow> T = 2 * h \<and> 0 < h \<and> 0 < nx \<and> nx \<le> 40 \<and> 0 < ny \<and> ny \<le> 30 \<and>
     image_readable src st (nx * T) (ny * T) \<and> entries e ({0..<nx} \<times> {0..<ny}) ts"

definition colour_at :: "byte list \<Rightarrow> int \<Rightarrow> int \<Rightarrow> int \<Rightarrow> int \<Rightarrow> (int \<Rightarrow> int \<Rightarrow> int \<times> byte \<times> byte) \<Rightarrow> int \<Rightarrow> int \<Rightarrow> int \<Rightarrow> byte" where
  "colour_at src st T nx ny e gt x y = cell_colour e gt (around nx T x \<times> around ny T y) (px src st (nx * T) x y)"

definition drawn :: "byte list \<Rightarrow> int \<Rightarrow> int \<Rightarrow> int \<Rightarrow> int \<Rightarrow> (int \<Rightarrow> int \<Rightarrow> int \<times> byte \<times> byte) \<Rightarrow> int \<Rightarrow> int \<Rightarrow> (int \<times> int) set \<Rightarrow> byte list \<Rightarrow> bool" where
  "drawn src st T nx ny e gt n S d \<longleftrightarrow> agrees (colour_at src st T nx ny e gt) (nx * T) n S d \<and>
     nx * T * (ny * T) \<le> n \<and> S \<subseteq> {0..<nx * T} \<times> {0..}"

lemma draw_cell:
  assumes t: "tiled src st T h nx ny e ts" and d: "drawn src st T nx ny e gt n S d"
    and q: "insert q (set qs) = X \<times> Y" "X \<subseteq> {0..<nx}" "Y \<subseteq> {0..<ny}"
    and ij: "i = int (tile_index q)" "is = map (int \<circ> tile_index) qs"
    and rect: "inside (nx * T) (ny * T) xs xe ys ye"
    and X: "\<And>x. xs \<le> x \<Longrightarrow> x < xe \<Longrightarrow> around nx T x = X" and Y: "\<And>y. ys \<le> y \<Longrightarrow> y < ye \<Longrightarrow> around ny T y = Y"
  shows "\<exists>d'. threshold_cell ts src st (nx * T) gt xs xe ys ye i is d = Some d' \<and>
    drawn src st T nx ny e gt n (S \<union> {xs..<xe} \<times> {ys..<ye}) d'"
proof -
  have T: "entries e ({0..<nx} \<times> {0..<ny}) ts" "image_readable src st (nx * T) (ny * T)" "nx \<le> 40" "ny \<le> 30"
    using t by (auto simp: tiled_def)
  have D: "agrees (colour_at src st T nx ny e gt) (nx * T) n S d" "nx * T * (ny * T) \<le> n" "S \<subseteq> {0..<nx * T} \<times> {0..}"
    using d by (auto simp: drawn_def)
  have A: "insert q (set qs) \<subseteq> {0..<nx} \<times> {0..<ny}" "{0..<nx} \<times> {0..<ny} \<subseteq> {0..<40} \<times> {0..<30}"
    using q T(3,4) by auto
  have v: "colour_at src st T nx ny e gt x y = cell_colour e gt (insert q (set qs)) (px src st (nx * T) x y)"
    if "(x, y) \<in> {xs..<xe} \<times> {ys..<ye}" for x y
    using that X [of x] Y [of y] q(1) by (simp add: colour_at_def)
  obtain d' where "threshold_cell ts src st (nx * T) gt xs xe ys ye i is d = Some d'"
      "agrees (colour_at src st T nx ny e gt) (nx * T) n (S \<union> {xs..<xe} \<times> {ys..<ye}) d'"
    using threshold_cell_ok [OF T(1) A ij rect T(2) D(2,1,3) v] by blast
  then show ?thesis using D rect by (auto simp: drawn_def inside_def)
qed

lemma tile_index_simps: "0 \<le> c \<Longrightarrow> 0 \<le> r \<Longrightarrow> int (tile_index (c, r)) = r * TILE_ARRAY_WIDTH + c"
  by (simp add: tile_index_def TILE_ARRAY_WIDTH_def)

lemma tiledD:
  assumes "tiled src st T h nx ny e ts"
  shows "T = 2 * h" "0 < h" "0 < nx" "0 < ny" "c_div T 2 = h" "nx * T - h = (nx - 1) * T + h" "ny * T - h = (ny - 1) * T + h"
    "h \<le> nx * T" "h \<le> ny * T" "0 \<le> (nx - 1) * T" "0 \<le> (ny - 1) * T"
proof -
  show a: "T = 2 * h" "0 < h" "0 < nx" "0 < ny" using assms by (auto simp: tiled_def)
  show "c_div T 2 = h" using a by (simp add: c_div_nonneg)
  show "nx * T - h = (nx - 1) * T + h" "ny * T - h = (ny - 1) * T + h" using a(1) by (simp_all add: algebra_simps)
  show "0 \<le> (nx - 1) * T" "0 \<le> (ny - 1) * T" using a by simp_all
  have "1 * T \<le> nx * T" "1 * T \<le> ny * T" using a by (intro mult_right_mono; simp)+
  then show "h \<le> nx * T" "h \<le> ny * T" using a by linarith+
qed

text \<open>A span of columns, or of rows, in which the tiles around do not change.\<close>

definition span :: "int \<Rightarrow> int \<Rightarrow> int \<Rightarrow> int \<Rightarrow> int \<Rightarrow> int set \<Rightarrow> bool" where
  "span n T h a b A \<longleftrightarrow> 0 \<le> a \<and> a \<le> b \<and> b \<le> n * T \<and> A \<subseteq> {0..<n} \<and> (\<forall>x. a \<le> x \<longrightarrow> x < b \<longrightarrow> around n T x = A)"

lemma span_cases:
  assumes "T = 2 * h" "0 < h" "0 < n"
  shows "span n T h 0 h {0}" "0 \<le> c \<Longrightarrow> c < n - 1 \<Longrightarrow> span n T h (c * T + h) (c * T + h + T) {c, c + 1}"
    "span n T h (n * T - h) (n * T) {n - 1}"
proof -
  have n: "T \<le> n * T" using mult_right_mono [of 1 n T] assms by simp
  show "span n T h 0 h {0}" using around_cases(1) [OF assms] n assms by (auto simp: span_def)
  show "span n T h (n * T - h) (n * T) {n - 1}" using around_cases(3) [OF assms] n assms by (auto simp: span_def)
  assume c: "0 \<le> c" "c < n - 1"
  have "(c + 2) * T \<le> n * T" using c assms by (intro mult_right_mono) auto
  then have "c * T + h + T \<le> n * T" using assms by (simp add: algebra_simps)
  moreover have "0 \<le> c * T" using c assms by simp
  ultimately show "span n T h (c * T + h) (c * T + h + T) {c, c + 1}"
    using around_cases(2) [OF assms, of c] c assms by (auto simp: span_def)
qed

lemma draw_spans:
  assumes t: "tiled src st T h nx ny e ts" and d: "drawn src st T nx ny e gt n S d"
    and X: "span nx T h xs xe X" and Y: "span ny T h ys ye Y" and q: "insert q (set qs) = X \<times> Y"
    and ij: "i = int (tile_index q)" "is = map (int \<circ> tile_index) qs"
  shows "\<exists>d'. threshold_cell ts src st (nx * T) gt xs xe ys ye i is d = Some d' \<and>
    drawn src st T nx ny e gt n (S \<union> {xs..<xe} \<times> {ys..<ye}) d'"
  by (rule draw_cell [OF t d q _ _ ij]) (use X Y in \<open>auto simp: span_def inside_def\<close>)

text \<open>A row of cells.\<close>

lemma draw_row:
  assumes t: "tiled src st T h nx ny e ts" and d: "drawn src st T nx ny e gt n S d" and Y: "span ny T h ys ye Y"
    and cell: "\<And>c d. 0 \<le> c \<Longrightarrow> c < nx - 1 \<Longrightarrow> body c d = threshold_cell ts src st (nx * T) gt
      (c * T + h) (c * T + h + T) ys ye (int (tile_index (q c))) (map (int \<circ> tile_index) (qs c)) d"
    and q: "\<And>c. 0 \<le> c \<Longrightarrow> c < nx - 1 \<Longrightarrow> insert (q c) (set (qs c)) = {c, c + 1} \<times> Y"
  shows "\<exists>d'. for_range 0 (nx - 1) body d = Some d' \<and>
    drawn src st T nx ny e gt n (S \<union> {h..<nx * T - h} \<times> {ys..<ye}) d'"
proof -
  note D = tiledD [OF t]
  have "\<exists>d'. for_range 0 (nx - 1) body d = Some d' \<and>
      drawn src st T nx ny e gt n (S \<union> {h..<(nx - 1) * T + h} \<times> {ys..<ye}) d'"
  proof (rule for_range_rule [where P = "\<lambda>c. drawn src st T nx ny e gt n (S \<union> {h..<c * T + h} \<times> {ys..<ye})"])
    fix c d assume c: "0 \<le> c" "c < nx - 1" and d: "drawn src st T nx ny e gt n (S \<union> {h..<c * T + h} \<times> {ys..<ye}) d"
    have "h \<le> c * T + h" "0 \<le> T" using c D(1,2) by simp_all
    then have j: "S \<union> {h..<c * T + h} \<times> {ys..<ye} \<union> {c * T + h..<c * T + h + T} \<times> {ys..<ye} =
        S \<union> {h..<(c + 1) * T + h} \<times> {ys..<ye}"
      using span_join [of h "c * T + h" "c * T + h + T" "{ys..<ye}"] by (simp add: Un_assoc algebra_simps)
    show "\<exists>d'. body c d = Some d' \<and> drawn src st T nx ny e gt n (S \<union> {h..<(c + 1) * T + h} \<times> {ys..<ye}) d'"
      unfolding cell [OF c]
      using draw_spans [OF t d span_cases(2) [OF D(1,2,3) c] Y q [OF c] refl refl] unfolding j .
  qed (use d D in simp_all)
  then show ?thesis unfolding D(6) .
qed

text \<open>The top strip, a strip between two rows of tiles, and the bottom strip.\<close>

lemma strip_set:
  assumes "tiled src st T h nx ny e ts"
  shows "S \<union> {0..<h} \<times> Y \<union> {h..<nx * T - h} \<times> Y \<union> {nx * T - h..<nx * T} \<times> Y = S \<union> {0..<nx * T} \<times> Y"
proof -
  note D = tiledD [OF assms]
  have "h \<le> nx * T - h" unfolding D(6) using D(10) by simp
  then show ?thesis using D(2,8) by auto
qed

lemma top_strip:
  assumes t: "tiled src st T h nx ny e ts" and d: "drawn src st T nx ny e gt n S d"
  shows "\<exists>d'. do {
      dest \<leftarrow> top_left_cell ts src st (nx * T) T gt d;
      dest \<leftarrow> top_row_cells ts src st (nx * T) T nx gt dest;
      top_right_cell ts src st (nx * T) T nx gt dest } = Some d' \<and>
    drawn src st T nx ny e gt n (S \<union> {0..<nx * T} \<times> {0..<h}) d'"
proof -
  note D = tiledD [OF t]
  note Y = span_cases(1) [OF D(1,2,4)] and X = span_cases(1,3) [OF D(1,2,3)]
  obtain d1 where d1: "top_left_cell ts src st (nx * T) T gt d = Some d1" "drawn src st T nx ny e gt n (S \<union> {0..<h} \<times> {0..<h}) d1"
    using draw_spans [OF t d X(1) Y, of "(0, 0)" "[]"] D(5) by (auto simp: top_left_cell_def tile_index_simps)
  obtain d2 where d2: "top_row_cells ts src st (nx * T) T nx gt d1 = Some d2"
      "drawn src st T nx ny e gt n (S \<union> {0..<h} \<times> {0..<h} \<union> {h..<nx * T - h} \<times> {0..<h}) d2"
  proof -
    have "\<exists>d'. top_row_cells ts src st (nx * T) T nx gt d1 = Some d' \<and>
        drawn src st T nx ny e gt n (S \<union> {0..<h} \<times> {0..<h} \<union> {h..<nx * T - h} \<times> {0..<h}) d'"
      unfolding top_row_cells_def
      by (rule draw_row [OF t d1(2) Y, where q = "\<lambda>c. (c, 0)" and qs = "\<lambda>c. [(c + 1, 0)]"])
        (auto simp: tile_index_simps Let_def D(5))
    then show ?thesis using that by blast
  qed
  obtain d3 where d3: "top_right_cell ts src st (nx * T) T nx gt d2 = Some d3"
      "drawn src st T nx ny e gt n (S \<union> {0..<h} \<times> {0..<h} \<union> {h..<nx * T - h} \<times> {0..<h} \<union> {nx * T - h..<nx * T} \<times> {0..<h}) d3"
    using draw_spans [OF t d2(2) X(2) Y, of "(nx - 1, 0)" "[]"] D(3,5) by (auto simp: top_right_cell_def tile_index_simps Let_def)
  show ?thesis using d1(1) d2(1) d3 unfolding strip_set [OF t] by simp
qed

lemma middle_strip:
  assumes t: "tiled src st T h nx ny e ts" and d: "drawn src st T nx ny e gt n S d" and r: "0 \<le> r" "r < ny - 1"
  shows "\<exists>d'. do {
      dest \<leftarrow> left_half_cell ts src st (nx * T) T gt r d;
      dest \<leftarrow> full_cells ts src st (nx * T) T nx gt r dest;
      right_half_cell ts src st (nx * T) T nx gt r dest } = Some d' \<and>
    drawn src st T nx ny e gt n (S \<union> {0..<nx * T} \<times> {r * T + h..<r * T + h + T}) d'"
proof -
  note D = tiledD [OF t]
  note Y = span_cases(2) [OF D(1,2,4) r] and X = span_cases(1,3) [OF D(1,2,3)]
  let ?Y = "{r * T + h..<r * T + h + T}"
  obtain d1 where d1: "left_half_cell ts src st (nx * T) T gt r d = Some d1" "drawn src st T nx ny e gt n (S \<union> {0..<h} \<times> ?Y) d1"
    using draw_spans [OF t d X(1) Y, of "(0, r)" "[(0, r + 1)]"] r D(5) by (auto simp: left_half_cell_def tile_index_simps Let_def)
  have q: "insert (c, r) (set [(c, r + 1), (c + 1, r + 1), (c + 1, r)]) = {c, c + 1} \<times> {r, r + 1}" for c by auto
  obtain d2 where d2: "full_cells ts src st (nx * T) T nx gt r d1 = Some d2"
      "drawn src st T nx ny e gt n (S \<union> {0..<h} \<times> ?Y \<union> {h..<nx * T - h} \<times> ?Y) d2"
  proof -
    have "\<exists>d'. full_cells ts src st (nx * T) T nx gt r d1 = Some d' \<and>
        drawn src st T nx ny e gt n (S \<union> {0..<h} \<times> ?Y \<union> {h..<nx * T - h} \<times> ?Y) d'"
      unfolding full_cells_def
      by (rule draw_row [OF t d1(2) Y, where q = "\<lambda>c. (c, r)" and qs = "\<lambda>c. [(c, r + 1), (c + 1, r + 1), (c + 1, r)]", OF _ q])
        (use r in \<open>simp add: tile_index_simps Let_def D(5) add.assoc\<close>)
    then show ?thesis using that by blast
  qed
  obtain d3 where d3: "right_half_cell ts src st (nx * T) T nx gt r d2 = Some d3"
      "drawn src st T nx ny e gt n (S \<union> {0..<h} \<times> ?Y \<union> {h..<nx * T - h} \<times> ?Y \<union> {nx * T - h..<nx * T} \<times> ?Y) d3"
    using draw_spans [OF t d2(2) X(2) Y, of "(nx - 1, r)" "[(nx - 1, r + 1)]"] r D(3,5)
    by (auto simp: right_half_cell_def tile_index_simps Let_def)
  show ?thesis using d1(1) d2(1) d3 unfolding strip_set [OF t] by simp
qed

lemma bottom_strip:
  assumes t: "tiled src st T h nx ny e ts" and d: "drawn src st T nx ny e gt n S d"
  shows "\<exists>d'. do {
      dest \<leftarrow> bottom_left_cell ts src st (nx * T) T ny gt d;
      dest \<leftarrow> bottom_row_cells ts src st (nx * T) T nx ny gt dest;
      bottom_right_cell ts src st (nx * T) T nx ny gt dest } = Some d' \<and>
    drawn src st T nx ny e gt n (S \<union> {0..<nx * T} \<times> {(ny - 1) * T + h..<ny * T}) d'"
proof -
  note D = tiledD [OF t]
  note Y = span_cases(3) [OF D(1,2,4), unfolded D(7)] and X = span_cases(1,3) [OF D(1,2,3)]
  let ?y = "(ny - 1) * T + h"
  have ye: "?y + h = ny * T" using D(1) by (simp add: algebra_simps)
  have last: "(ny - 1) * TILE_ARRAY_WIDTH + nx - 1 = (ny - 1) * TILE_ARRAY_WIDTH + (nx - 1)" by simp
  obtain d1 where d1: "bottom_left_cell ts src st (nx * T) T ny gt d = Some d1" "drawn src st T nx ny e gt n (S \<union> {0..<h} \<times> {?y..<ny * T}) d1"
    using draw_spans [OF t d X(1) Y, of "(0, ny - 1)" "[]"] D(4,5) ye by (auto simp: bottom_left_cell_def tile_index_simps Let_def)
  obtain d2 where d2: "bottom_row_cells ts src st (nx * T) T nx ny gt d1 = Some d2"
      "drawn src st T nx ny e gt n (S \<union> {0..<h} \<times> {?y..<ny * T} \<union> {h..<nx * T - h} \<times> {?y..<ny * T}) d2"
  proof -
    have "\<exists>d'. bottom_row_cells ts src st (nx * T) T nx ny gt d1 = Some d' \<and>
        drawn src st T nx ny e gt n (S \<union> {0..<h} \<times> {?y..<ny * T} \<union> {h..<nx * T - h} \<times> {?y..<ny * T}) d'"
      unfolding bottom_row_cells_def
      by (rule draw_row [OF t d1(2) Y, where q = "\<lambda>c. (c, ny - 1)" and qs = "\<lambda>c. [(c + 1, ny - 1)]"])
        (use D(4) ye in \<open>auto simp: tile_index_simps Let_def D(5) add.assoc\<close>)
    then show ?thesis using that by blast
  qed
  obtain d3 where d3: "bottom_right_cell ts src st (nx * T) T nx ny gt d2 = Some d3"
      "drawn src st T nx ny e gt n (S \<union> {0..<h} \<times> {?y..<ny * T} \<union> {h..<nx * T - h} \<times> {?y..<ny * T} \<union> {nx * T - h..<nx * T} \<times> {?y..<ny * T}) d3"
    using draw_spans [OF t d2(2) X(2) Y, of "(nx - 1, ny - 1)" "[]"] D(3,4,5) ye last
    by (auto simp: bottom_right_cell_def tile_index_simps Let_def)
  show ?thesis using d1(1) d2(1) d3 unfolding strip_set [OF t] by simp
qed

lemma middle_strips:
  assumes t: "tiled src st T h nx ny e ts" and d: "drawn src st T nx ny e gt n S d"
  shows "\<exists>d'. for_range 0 (ny - 1) (\<lambda>yt dest. do {
        dest \<leftarrow> left_half_cell ts src st (nx * T) T gt yt dest;
        dest \<leftarrow> full_cells ts src st (nx * T) T nx gt yt dest;
        right_half_cell ts src st (nx * T) T nx gt yt dest }) d = Some d' \<and>
    drawn src st T nx ny e gt n (S \<union> {0..<nx * T} \<times> {h..<(ny - 1) * T + h}) d'"
proof (rule for_range_rule [where P = "\<lambda>r. drawn src st T nx ny e gt n (S \<union> {0..<nx * T} \<times> {h..<r * T + h})"])
  note D = tiledD [OF t]
  fix r d assume r: "0 \<le> r" "r < ny - 1" and d: "drawn src st T nx ny e gt n (S \<union> {0..<nx * T} \<times> {h..<r * T + h}) d"
  have "h \<le> r * T + h" "0 \<le> T" using r D(1,2) by simp_all
  then have j: "S \<union> {0..<nx * T} \<times> {h..<r * T + h} \<union> {0..<nx * T} \<times> {r * T + h..<r * T + h + T} =
      S \<union> {0..<nx * T} \<times> {h..<(r + 1) * T + h}"
    using rows_join [of h "r * T + h" "r * T + h + T" "{0..<nx * T}"] by (simp add: Un_assoc algebra_simps)
  show "\<exists>d'. do {
        dest \<leftarrow> left_half_cell ts src st (nx * T) T gt r d;
        dest \<leftarrow> full_cells ts src st (nx * T) T nx gt r dest;
        right_half_cell ts src st (nx * T) T nx gt r dest } = Some d' \<and>
      drawn src st T nx ny e gt n (S \<union> {0..<nx * T} \<times> {h..<(r + 1) * T + h}) d'"
    using middle_strip [OF t d r] unfolding j .
qed (use d tiledD(4) [OF t] in simp_all)

lemma threshold2_ok:
  assumes T: "T = 2 * h" "0 < h" and n: "0 < nx" "nx \<le> 40" "0 < ny" "ny \<le> 30" and m: "tile_memory ts"
    and rd: "image_readable src st (nx * T) (ny * T)" and d: "nx * T * (ny * T) \<le> ilength d"
  shows "\<exists>ts' d'. overlapped_adaptive_threshold2 ts src st d (nx * T) (ny * T) T gt = Some (ts', d') \<and>
    tile_memory ts' \<and> length d' = length d \<and> (\<forall>x y. 0 \<le> x \<longrightarrow> x < nx * T \<longrightarrow> 0 \<le> y \<longrightarrow> y < ny * T \<longrightarrow>
      d' ! nat (y * (nx * T) + x) = colour_at src st T nx ny (tile_entry src st (nx * T) (ny * T) T) gt x y)"
proof -
  let ?e = "tile_entry src st (nx * T) (ny * T) T" and ?W = "nx * T" and ?H = "ny * T"
  have dv: "?W div T = nx" "?H div T = ny" "1 < T" "0 \<le> ?W" "0 \<le> ?H" using T n by simp_all
  have q: "quot ?W T = Some nx" "quot ?H T = Some ny" using dv T by (simp_all add: quot_pos)
  obtain ts' where ts': "compute_tiles ts src st ?W ?H T nx ny = Some ts'" "entries ?e ({0..<nx} \<times> {0..<ny}) ts'"
    using compute_tiles_ok [OF dv(3) rd m dv(4,5)] n unfolding dv(1,2) by auto
  have t: "tiled src st T h nx ny ?e ts'" using T n rd ts'(2) by (simp add: tiled_def)
  note D = tiledD [OF t]
  have d0: "drawn src st T nx ny ?e gt (ilength d) {} d" using d by (simp add: drawn_def agrees_def)
  obtain a b d1 where d1: "top_left_cell ts' src st ?W T gt d = Some a" "top_row_cells ts' src st ?W T nx gt a = Some b"
      "top_right_cell ts' src st ?W T nx gt b = Some d1" "drawn src st T nx ny ?e gt (ilength d) ({} \<union> {0..<?W} \<times> {0..<h}) d1"
    using top_strip [OF t d0] by (auto simp: Option.bind_eq_Some_conv)
  obtain d2 where d2: "for_range 0 (ny - 1) (\<lambda>yt dest. do {
        dest \<leftarrow> left_half_cell ts' src st ?W T gt yt dest;
        dest \<leftarrow> full_cells ts' src st ?W T nx gt yt dest;
        right_half_cell ts' src st ?W T nx gt yt dest }) d1 = Some d2"
      "drawn src st T nx ny ?e gt (ilength d) ({} \<union> {0..<?W} \<times> {0..<h} \<union> {0..<?W} \<times> {h..<(ny - 1) * T + h}) d2"
    using middle_strips [OF t d1(4)] by blast
  obtain a' b' d3 where d3: "bottom_left_cell ts' src st ?W T ny gt d2 = Some a'" "bottom_row_cells ts' src st ?W T nx ny gt a' = Some b'"
      "bottom_right_cell ts' src st ?W T nx ny gt b' = Some d3"
      "drawn src st T nx ny ?e gt (ilength d) ({} \<union> {0..<?W} \<times> {0..<h} \<union> {0..<?W} \<times> {h..<(ny - 1) * T + h} \<union>
        {0..<?W} \<times> {(ny - 1) * T + h..<?H}) d3"
    using bottom_strip [OF t d2(2)] by (auto simp: Option.bind_eq_Some_conv)
  have all: "{} \<union> {0..<?W} \<times> {0..<h} \<union> {0..<?W} \<times> {h..<(ny - 1) * T + h} \<union> {0..<?W} \<times> {(ny - 1) * T + h..<?H} = {0..<?W} \<times> {0..<?H}"
  proof -
    have "(ny - 1) * T + h \<le> ?H" using D(7,2) by simp
    then show ?thesis using D(2,11) by auto
  qed
  have "overlapped_adaptive_threshold2 ts src st d ?W ?H T gt = Some (ts', d3)"
    unfolding overlapped_adaptive_threshold2_def q bind.simps ts'(1) d1(1-3) d2(1) d3(1-3) ..
  moreover have "agrees (colour_at src st T nx ny ?e gt) ?W (ilength d) ({0..<?W} \<times> {0..<?H}) d3"
    using d3(4) unfolding all drawn_def by simp
  ultimately show ?thesis using ts'(2) by (auto simp: agrees_def entries_def)
qed

subsection \<open>The other functions\<close>

lemma simple_threshold_ok:
  assumes rd: "readable src 0 st (W * H)" and d: "W * H \<le> ilength d" "0 \<le> W" "0 \<le> H"
  shows "\<exists>d'. simple_threshold src st d W H th = Some d' \<and> length d' = length d \<and>
    (\<forall>i. 0 \<le> i \<longrightarrow> i < W * H \<longrightarrow> d' ! nat i = (if uint (src ! nat (i * st)) > th then 255 else 0)) \<and>
    (\<forall>j < length d. W * H \<le> int j \<longrightarrow> d' ! j = d ! j)"
proof -
  let ?v = "\<lambda>i. if uint (src ! nat (i * st)) > th then (255 :: byte) else 0"
  let ?P = "\<lambda>i (p, d'). p = i * st \<and> length d' = length d \<and> (\<forall>j. 0 \<le> j \<longrightarrow> j < i \<longrightarrow> d' ! nat j = ?v j) \<and>
    (\<forall>j < length d. i \<le> int j \<longrightarrow> d' ! j = d ! j)"
  have "\<exists>s'. for_range 0 (W * H) (\<lambda>i (p, dest). do {
        v \<leftarrow> rd src p;
        dest \<leftarrow> wr dest i (if uint v > th then 255 else 0);
        Some (p + st, dest) }) (0, d) = Some s' \<and> ?P (W * H) s'"
  proof (rule for_range_rule [where P = ?P])
    fix i s assume i: "0 \<le> i" "i < W * H" and P: "?P i s"
    obtain p d' where s: "s = (p, d')" by (cases s)
    have r: "rd src p = Some (src ! nat (i * st))" using rd i P by (auto simp: s readable_def rd_eq)
    have w: "wr d' i x = Some (d'[nat i := x])" for x using i P d by (intro wr_eq) (auto simp: s)
    have n: "(d'[nat i := ?v i]) ! nat j = ?v j" if "0 \<le> j" "j < i + 1" for j
      using that P i d by (cases "j = i") (auto simp: s nat_eq_iff)
    have k: "(d'[nat i := ?v i]) ! j = d ! j" if "j < length d" "i + 1 \<le> int j" for j
      using that P i by (auto simp: s)
    show "\<exists>s'. (case s of (p, dest) \<Rightarrow> do {
        v \<leftarrow> rd src p;
        dest \<leftarrow> wr dest i (if uint v > th then 255 else 0);
        Some (p + st, dest) }) = Some s' \<and> ?P (i + 1) s'"
      using r w n k P by (simp add: s algebra_simps)
  qed (use d in simp_all)
  then show ?thesis by (auto simp: simple_threshold_def Let_def)
qed

text \<open>The mean of the pixels of a tile, rounded down.\<close>

definition tile_end :: "int \<Rightarrow> int \<Rightarrow> int \<Rightarrow> int" where
  "tile_end W T x = (if x + T > W then W else x + T)"

definition pixel_mean :: "byte list \<Rightarrow> int \<Rightarrow> int \<Rightarrow> (int \<times> int) list \<Rightarrow> int" where
  "pixel_mean src st W l = (\<Sum>(x, y)\<leftarrow>l. uint (px src st W x y)) div int (length l)"

definition tile_mean :: "byte list \<Rightarrow> int \<Rightarrow> int \<Rightarrow> int \<Rightarrow> int \<Rightarrow> int \<Rightarrow> int \<Rightarrow> int" where
  "tile_mean src st W H T c r = pixel_mean src st W (pixels (c * T) (tile_end W T (c * T)) (r * T) (tile_end H T (r * T)))"

lemma tile_sum_ok:
  assumes i: "inside W H xs xe ys ye" and rd: "image_readable src st W H"
  shows "tile_sum src st W xs xe ys ye =
    Some ((\<Sum>(x, y)\<leftarrow>pixels xs xe ys ye. uint (px src st W x y)), int (length (pixels xs xe ys ye)))"
proof -
  let ?P = "\<lambda>l (x :: int) (y :: int) (s, n). s = (\<Sum>(x, y)\<leftarrow>l. uint (px src st W x y)) \<and> n = int (length l)"
  note I = i [unfolded inside_def]
  have "\<exists>s'. for_range ys ye (\<lambda>yy. for_range xs xe (\<lambda>xx (sum, count). do {
       v \<leftarrow> rd src ((yy * W + xx) * st);
       Some (sum + uint v, count + 1) })) (0, 0) = Some s' \<and> ?P (pixels xs xe ys ye) xs ye s'"
  proof (rule pixel_loop_rule' [where P = ?P])
    fix l x y s assume "xs \<le> x" "x < xe" "ys \<le> y" "y < ye" "?P l x y s"
    then show "\<exists>s'. (case s of (a, b) \<Rightarrow> do {
       v \<leftarrow> rd src ((y * W + x) * st);
       Some (a + uint v, b + 1) }) = Some s' \<and> ?P (l @ [(x, y)]) (x + 1) y s'"
      using image_read [OF rd, of y x] I by (cases s) simp
  qed (use I in auto)
  then show ?thesis by (auto simp: tile_sum_def)
qed

lemma threshold_tile_ok:
  assumes i: "inside W H xs xe ys ye" and rd: "image_readable src st W H" and n: "W * H \<le> n"
    and S: "agrees v W n S d" "S \<subseteq> {0..<W} \<times> {0..}"
    and v: "\<And>x y. (x, y) \<in> {xs..<xe} \<times> {ys..<ye} \<Longrightarrow> v x y = (if uint (px src st W x y) > th then 255 else 0)"
  shows "\<exists>d'. threshold_tile src st W xs xe ys ye th d = Some d' \<and> agrees v W n (S \<union> {xs..<xe} \<times> {ys..<ye}) d'"
proof -
  let ?P = "\<lambda>l (x :: int) (y :: int) d. set l \<subseteq> {0..<W} \<times> {0..} \<and> agrees v W n (S \<union> set l) d"
  note I = i [unfolded inside_def]
  have "\<exists>s'. for_range ys ye (\<lambda>yy. for_range xs xe (\<lambda>xx dest. do {
       v \<leftarrow> rd src ((yy * W + xx) * st);
       wr dest (yy * W + xx) (if uint v > th then 255 else 0) })) d = Some s' \<and> ?P (pixels xs xe ys ye) xs ye s'"
  proof (rule pixel_loop_rule' [where P = ?P])
    fix l x y d assume x: "xs \<le> x" "x < xe" and y: "ys \<le> y" "y < ye" and P: "?P l x y d"
    have xy: "0 \<le> x" "x < W" "0 \<le> y" "y < H" using x y I by auto
    have u: "S \<union> set l \<subseteq> {0..<W} \<times> {0..}" using S(2) P by simp
    note W = agrees_write [OF _ xy n u, of v d]
    have "v x y = (if uint (px src st W x y) > th then 255 else 0)" using v x y by simp
    then show "\<exists>s'. (do {
       v \<leftarrow> rd src ((y * W + x) * st);
       wr d (y * W + x) (if uint v > th then 255 else 0) }) = Some s' \<and> ?P (l @ [(x, y)]) (x + 1) y s'"
      using W P image_read [OF rd xy(3,4,1,2)] xy by simp
  qed (use S I in auto)
  then show ?thesis by (auto simp: threshold_tile_def)
qed

text \<open>The tiles of a row end where the next begins, or with the image.\<close>

lemma tile_steps:
  assumes "0 < T" "0 < (W :: int)"
  shows "0 \<le> c \<Longrightarrow> c * T < W \<Longrightarrow> min W ((c + 1) * T) = tile_end W T (c * T)"
    "W \<le> ((W - 0 + T - 1) div T) * T" "0 \<le> c \<Longrightarrow> c * T < W \<Longrightarrow> c * T \<le> x \<Longrightarrow> x < tile_end W T (c * T) \<Longrightarrow> x div T = c"
proof -
  show "0 \<le> c \<Longrightarrow> c * T < W \<Longrightarrow> min W ((c + 1) * T) = tile_end W T (c * T)"
    by (auto simp: tile_end_def min_def algebra_simps)
  have "(W + T - 1) div T * T + (W + T - 1) mod T = W + T - 1" by (rule div_mult_mod_eq)
  then show "W \<le> ((W - 0 + T - 1) div T) * T"
    using pos_mod_bound [OF assms(1), of "W + T - 1"] unfolding diff_0_right by linarith
  assume "0 \<le> c" "c * T < W" "c * T \<le> x" "x < tile_end W T (c * T)"
  then have "x = c * T + (x - c * T)" "0 \<le> x - c * T" "x - c * T < T" by (auto simp: tile_end_def split: if_splits)
  then show "x div T = c"
    using div_mult_self3 [of T c "x - c * T"] div_pos_pos_trivial [of "x - c * T" T] assms(1) by (metis add.commute add.right_neutral less_irrefl)
qed

lemma adaptive_tile_ok:
  assumes T: "0 < T" and WH: "0 < W" "0 < H" and rd: "image_readable src st W H" and n: "W * H \<le> n"
    and c: "0 \<le> c" "c * T < W" and r: "0 \<le> r" "r * T < H"
    and S: "agrees (\<lambda>x y. if uint (px src st W x y) > tile_mean src st W H T (x div T) (y div T) then 255 else 0) W n S d"
      "S \<subseteq> {0..<W} \<times> {0..}"
  defines "xe \<equiv> tile_end W T (c * T)" and "ye \<equiv> tile_end H T (r * T)"
  shows "\<exists>d'. (do {
      (sum, count) \<leftarrow> tile_sum src st W (c * T) xe (r * T) ye;
      mean \<leftarrow> quot sum count;
      threshold_tile src st W (c * T) xe (r * T) ye mean d }) = Some d' \<and>
    agrees (\<lambda>x y. if uint (px src st W x y) > tile_mean src st W H T (x div T) (y div T) then 255 else 0) W n
      (S \<union> {c * T..<xe} \<times> {r * T..<ye}) d'"
proof -
  have cT: "0 \<le> c * T" "0 \<le> r * T" using c r T by simp_all
  have i: "inside W H (c * T) xe (r * T) ye" using cT c r T by (auto simp: inside_def xe_def ye_def tile_end_def)
  have lt: "c * T < xe" "r * T < ye" using c r T by (auto simp: xe_def ye_def tile_end_def)
  let ?l = "pixels (c * T) xe (r * T) ye"
  have len: "0 < int (length ?l)" using lt by (simp add: length_pixels)
  have "0 \<le> (\<Sum>(x, y)\<leftarrow>?l. uint (px src st W x y))" by (rule sum_list_nonneg) auto
  then have mean: "quot (\<Sum>(x, y)\<leftarrow>?l. uint (px src st W x y)) (int (length ?l)) = Some (tile_mean src st W H T c r)"
    using len by (simp add: quot_pos tile_mean_def pixel_mean_def xe_def ye_def)
  have v: "(if uint (px src st W x y) > tile_mean src st W H T (x div T) (y div T) then 255 else (0 :: byte)) =
      (if uint (px src st W x y) > tile_mean src st W H T c r then 255 else 0)"
    if "(x, y) \<in> {c * T..<xe} \<times> {r * T..<ye}" for x y
    using tile_steps(3) [OF T WH(1) c, of x] tile_steps(3) [OF T WH(2) r, of y] that by (simp add: xe_def ye_def)
  from threshold_tile_ok [OF i rd n S v] show ?thesis
    by (simp add: tile_sum_ok [OF i rd] mean)
qed

lemma simple_adaptive_ok:
  assumes T: "0 < T" and WH: "0 < W" "0 < H" and rd: "image_readable src st W H" and d: "W * H \<le> ilength d"
  shows "\<exists>d'. simple_adaptive_threshold src st d W H T = Some d' \<and> length d' = length d \<and>
    (\<forall>x y. 0 \<le> x \<longrightarrow> x < W \<longrightarrow> 0 \<le> y \<longrightarrow> y < H \<longrightarrow> d' ! nat (y * W + x) =
      (if uint (px src st W x y) > tile_mean src st W H T (x div T) (y div T) then 255 else 0))"
proof -
  let ?v = "\<lambda>x y. if uint (px src st W x y) > tile_mean src st W H T (x div T) (y div T) then (255 :: byte) else 0"
  let ?A = "\<lambda>c r. {0..<W} \<times> {0..<min H (r * T)} \<union> {0..<min W (c * T)} \<times> {r * T..<tile_end H T (r * T)}"
  let ?tile = "\<lambda>y x dest. do {
       let xxmax = (if x + T > W then W else x + T);
       let yymax = (if y + T > H then H else y + T);
       (sum, count) \<leftarrow> tile_sum src st W x xxmax y yymax;
       mean \<leftarrow> quot sum count;
       threshold_tile src st W x xxmax y yymax mean dest }"
  have row: "\<exists>d'. for_step 0 W T (?tile (r * T)) d0 = Some d' \<and> agrees ?v W (ilength d) ({0..<W} \<times> {0..<min H ((r + 1) * T)}) d'"
    if r: "0 \<le> r" "r * T < H" and d0: "agrees ?v W (ilength d) ({0..<W} \<times> {0..<min H (r * T)}) d0" for r d0
  proof -
    have "\<exists>d'. for_step 0 W T (?tile (r * T)) d0 = Some d' \<and> agrees ?v W (ilength d) (?A ((W - 0 + T - 1) div T) r) d'"
    proof (rule for_step_rule [where P = "\<lambda>c. agrees ?v W (ilength d) (?A c r)"])
      fix c d1 assume c: "0 \<le> c" "0 + c * T < W" and d1: "agrees ?v W (ilength d) (?A c r) d1"
      have "0 \<le> r * T" using r T by simp
      then have A: "?A c r \<subseteq> {0..<W} \<times> {0..}" by (auto simp: min_def split: if_splits)
      have c': "c * T < W" using c(2) by simp
      have u: "?A c r \<union> {c * T..<tile_end W T (c * T)} \<times> {r * T..<tile_end H T (r * T)} = ?A (c + 1) r"
      proof -
        have "0 \<le> c * T" "c * T \<le> tile_end W T (c * T)" using c c' T by (auto simp: tile_end_def)
        then show ?thesis unfolding tile_steps(1) [OF T WH(1) c(1) c'] using c' by auto
      qed
      show "\<exists>d'. ?tile (r * T) (0 + c * T) d1 = Some d' \<and> agrees ?v W (ilength d) (?A (c + 1) r) d'"
        using adaptive_tile_ok [OF T WH rd d c(1) c' r d1 A] unfolding u by (simp add: Let_def tile_end_def cong: if_cong split del: if_split)
    qed (use d0 T WH in \<open>simp_all add: min_def\<close>)
    moreover have "?A ((W - 0 + T - 1) div T) r = {0..<W} \<times> {0..<min H ((r + 1) * T)}"
    proof -
      have "0 \<le> r * T" "r * T \<le> tile_end H T (r * T)" using r T by (auto simp: tile_end_def)
      then show ?thesis
        using tile_steps(2) [OF T WH(1)] r(2) unfolding tile_steps(1) [OF T WH(2) r] by (auto simp: min_absorb1 min_absorb2)
    qed
    ultimately show ?thesis by simp
  qed
  have "\<exists>d'. for_step 0 H T (\<lambda>y. for_step 0 W T (?tile y)) d = Some d' \<and>
      agrees ?v W (ilength d) ({0..<W} \<times> {0..<min H ((H - 0 + T - 1) div T * T)}) d'"
  proof (rule for_step_rule [where P = "\<lambda>r. agrees ?v W (ilength d) ({0..<W} \<times> {0..<min H (r * T)})"])
    fix r d0 assume "0 \<le> r" "0 + r * T < H" "agrees ?v W (ilength d) ({0..<W} \<times> {0..<min H (r * T)}) d0"
    then show "\<exists>d'. for_step 0 W T (?tile (0 + r * T)) d0 = Some d' \<and>
        agrees ?v W (ilength d) ({0..<W} \<times> {0..<min H ((r + 1) * T)}) d'"
      using row [of r d0] unfolding add_0 by blast
  qed (use T WH in \<open>simp_all add: agrees_def\<close>)
  moreover have "min H ((H - 0 + T - 1) div T * T) = H" using tile_steps(2) [OF T WH(2)] by (simp add: min_absorb1)
  ultimately show ?thesis
    unfolding simple_adaptive_threshold_def Let_def by (auto simp: agrees_def)
qed

subsection \<open>Properties\<close>

text \<open>C24: On an image of at most 40 by 30 tiles of an even size, \<open>overlapped_adaptive_threshold2\<close>
  returns, and every pixel is compared with the middle of the extremes of the tiles whose
  centres surround it; pixels around which no tile has an edge above the threshold are black.\<close>

theorem threshold2_pixels:
  assumes "T = 2 * h" "0 < h" "0 < nx" "nx \<le> 40" "0 < ny" "ny \<le> 30" "tile_memory ts"
    and "image_readable src st (nx * T) (ny * T)" "nx * T * (ny * T) \<le> ilength d"
  shows "\<exists>ts' d'. overlapped_adaptive_threshold2 ts src st d (nx * T) (ny * T) T gt = Some (ts', d') \<and>
    tile_memory ts' \<and> length d' = length d \<and>
    (\<forall>x y. 0 \<le> x \<longrightarrow> x < nx * T \<longrightarrow> 0 \<le> y \<longrightarrow> y < ny * T \<longrightarrow> d' ! nat (y * (nx * T) + x) =
      cell_colour (tile_entry src st (nx * T) (ny * T) T) gt (around nx T x \<times> around ny T y)
        (src ! nat ((y * (nx * T) + x) * st)))"
  using threshold2_ok [OF assms, of gt] unfolding colour_at_def .

definition blank_tiles :: TileArrays where
  "blank_tiles = \<lparr>sobel_tiles = replicate 1200 0, max_tiles = replicate 1200 0, min_tiles = replicate 1200 0\<rparr>"

lemma blank_tiles_memory: "tile_memory blank_tiles"
  by (simp add: tile_memory_def blank_tiles_def TILE_ARRAY_HEIGHT_def TILE_ARRAY_WIDTH_def)

lemma threshold2_pixels_witness:
  "\<exists>ts' d'. overlapped_adaptive_threshold2 blank_tiles [10, 200, 30, 90, 10, 20, 250, 40] 1 (replicate 8 7) 4 2 2 20 = Some (ts', d') \<and>
     length d' = 8"
proof -
  have "image_readable [10, 200, 30, 90, 10, 20, 250, 40] 1 (2 * 2) (1 * 2)"
    by (auto simp: image_readable_def readable_def)
  then show ?thesis
    using threshold2_pixels [of 2 1 2 1 blank_tiles "[10, 200, 30, 90, 10, 20, 250, 40]" 1 "replicate 8 7" 20] blank_tiles_memory
    by auto
qed

text \<open>C25: An image with more tiles than the three global arrays have room for, such as one of
  1024 by 768 pixels with tiles of 16, makes the function write past their end.\<close>

theorem threshold2_large_image:
  assumes "0 < T" "0 < W div T" "0 < H div T" "tile_memory ts"
    and "TILE_ARRAY_HEIGHT * TILE_ARRAY_WIDTH \<le> (H div T - 1) * TILE_ARRAY_WIDTH + (W div T - 1)"
  shows "overlapped_adaptive_threshold2 ts src st d W H T gt = None"
proof -
  have "0 \<le> W" "0 \<le> H" using assms(1-3) by (simp_all add: pos_imp_zdiv_pos_iff)
  then have "quot W T = Some (W div T)" "quot H T = Some (H div T)" using assms(1) by (simp_all add: quot_pos)
  then show ?thesis
    using compute_tiles_fault [OF assms(2,3,5,4)] by (simp add: overlapped_adaptive_threshold2_def)
qed

lemma threshold2_large_image_witness:
  "overlapped_adaptive_threshold2 blank_tiles (replicate 786432 0) 1 (replicate 786432 0) 1024 768 16 20 = None"
  by (rule threshold2_large_image)
    (simp_all add: blank_tiles_memory TILE_ARRAY_HEIGHT_def TILE_ARRAY_WIDTH_def)

subsection \<open>The tile pass\<close>

text \<open>The order in which the pixels are visited.\<close>

definition scanned_before :: "int \<times> int \<Rightarrow> int \<times> int \<Rightarrow> bool" where
  "scanned_before = (\<lambda>(x, y) (x', y'). y < y' \<or> y = y' \<and> x < x')"

lemma rows_in_order:
  assumes "sorted_wrt (<) xs" "sorted_wrt (<) ys"
  shows "sorted_wrt scanned_before (concat (map (\<lambda>y. map (\<lambda>x. (x, y)) xs) ys))"
  using assms by (induction ys) (auto simp: sorted_wrt_append sorted_wrt_map scanned_before_def)

lemma pixels_in_order: "sorted_wrt scanned_before (pixels xs xe ys ye)"
  unfolding pixels_def by (rule rows_in_order) simp_all

text \<open>A pixel that is a new maximum is not compared with the minimum.\<close>

lemma fold_edge_min:
  fixes src st W
  defines "v \<equiv> \<lambda>(x, y). px src st W x y"
  assumes "sorted_wrt scanned_before l"
  shows "snd (snd (fold (edge_at src st W) l (0, 0, 255))) =
    Min (insert 255 (v ` {q \<in> set l. v q = 0 \<or> (\<exists>p \<in> set l. scanned_before p q \<and> v q \<le> v p)}))"
  using assms(2)
proof (induction l rule: rev_induct)
  case (snoc q l)
  let ?kept = "\<lambda>l. {q \<in> set l. v q = 0 \<or> (\<exists>p \<in> set l. scanned_before p q \<and> v q \<le> v p)}"
  obtain m mx mn where f: "fold (edge_at src st W) l (0, 0, 255) = (m, mx, mn)" by (metis prod_cases3)
  have mn: "mn = Min (insert 255 (v ` ?kept l))" using snoc by (simp add: sorted_wrt_append f)
  have mx: "mx = Max (insert 0 (v ` set l))"
    using fold_edge_max [of src st W l 0 0 255] by (simp add: f fold_max_Max v_def)
  have order: "\<forall>p \<in> set l. scanned_before p q" using snoc.prems by (simp add: sorted_wrt_append)
  then have later: "\<not> scanned_before q q" "\<forall>p \<in> set l. \<not> scanned_before q p" by (fastforce simp: scanned_before_def)+
  have raised: "mx < v q \<longleftrightarrow> v q \<noteq> 0 \<and> (\<forall>p \<in> set l. v p < v q)"
    by (simp add: mx word_gt_0 less_le [of 0])
  have kept: "?kept (l @ [q]) = (if mx < v q then ?kept l else insert q (?kept l))"
    unfolding raised using order later by (auto simp: not_less)
  have "fold (edge_at src st W) (l @ [q]) (0, 0, 255) = edge_at src st W q (m, mx, mn)" by (simp add: f)
  then have "snd (snd (fold (edge_at src st W) (l @ [q]) (0, 0, 255))) = (if mx < v q then mn else min (v q) mn)"
    by (cases q) (auto simp: edge_at_def edge_update_def Let_def v_def min_def)
  then show ?case unfolding kept by (auto simp: mn insert_commute [of 255])
qed simp


lemma Max_insert_least:
  assumes "finite A" "A \<noteq> {}" "\<forall>x \<in> A. a \<le> x"
  shows "Max (insert a A) = Max A"
  using assms by (simp add: Max_insert max_def)

lemma tile_not_empty:
  fixes c T W :: int
  assumes "1 < T" "0 \<le> c" "c < W div T"
  shows "c * T < min (c * T + T) (W - 1)"
proof -
  have "(c + 1) * T \<le> W div T * T" by (rule mult_right_mono) (use assms in auto)
  also have "\<dots> \<le> W" using assms(1) div_mult_mod_eq [of W T] pos_mod_sign [of T W] by linarith
  finally show ?thesis using assms(1) by (simp add: algebra_simps)
qed

text \<open>What the arrays hold for a tile, as a function of the image: the largest gradient, the largest
  value and the least of those values that are compared with the minimum.\<close>

definition tile_summary :: "byte list \<Rightarrow> int \<Rightarrow> int \<Rightarrow> (int \<times> int) set \<Rightarrow> int \<times> byte \<times> byte" where
  "tile_summary src st W tile = (let v = \<lambda>(x, y). src ! nat ((y * W + x) * st) in
     (Max ((\<lambda>(x, y). \<bar>uint (v (x + 1, y)) - uint (v (x, y))\<bar> + \<bar>uint (v (x, y + 1)) - uint (v (x, y))\<bar>) ` tile),
      Max (v ` tile),
      Min (insert 255 (v ` {q \<in> tile. v q = 0 \<or> (\<exists>p \<in> tile. scanned_before p q \<and> v q \<le> v p)}))))"

lemma tile_entry_summary:
  assumes "xs < xe" "ys < ye"
  shows "fold (edge_at src st W) (pixels xs xe ys ye) (0, 0, 255) = tile_summary src st W ({xs..<xe} \<times> {ys..<ye})"
proof -
  let ?l = "pixels xs xe ys ye" and ?v = "\<lambda>(x, y). px src st W x y"
  let ?g = "\<lambda>(x, y). \<bar>uint (px src st W (x + 1) y) - uint (px src st W x y)\<bar> + \<bar>uint (px src st W x (y + 1)) - uint (px src st W x y)\<bar>"
  let ?e = "fold (edge_at src st W) ?l (0, 0, 255)"
  have some: "set ?l \<noteq> {}" using assms by simp
  have "fst ?e = Max (?g ` set ?l)" "fst (snd ?e) = Max (?v ` set ?l)"
    unfolding fold_edge_gradient fold_edge_max fold_max_Max set_map
    by (rule Max_insert_least; use some in force)+
  moreover note fold_edge_min [OF pixels_in_order, of src st W xs xe ys ye]
  ultimately show ?thesis unfolding set_pixels by (simp add: tile_summary_def Let_def prod_eq_iff)
qed

text \<open>C26: The tile pass returns, and for every tile the three arrays hold the largest gradient, the largest value
  and the least of those values that were compared with the minimum: a pixel that raises the maximum is not, so that
  a tile whose values rise in scan order keeps the minimum 255. The last column and the last row are left out.\<close>

theorem tile_pass_values:
  assumes "1 < T" "image_readable src st W H" "tile_memory ts" "0 \<le> W" "0 \<le> H" "W div T \<le> 40" "H div T \<le> 30"
  shows "\<exists>ts'. compute_tiles ts src st W H T (W div T) (H div T) = Some ts' \<and>
    (\<forall>c r n. 0 \<le> c \<longrightarrow> c < W div T \<longrightarrow> 0 \<le> r \<longrightarrow> r < H div T \<longrightarrow> n = nat (r * TILE_ARRAY_WIDTH + c) \<longrightarrow>
      (sobel_tiles ts' ! n, max_tiles ts' ! n, min_tiles ts' ! n) =
        tile_summary src st W ({c * T..<min (c * T + T) (W - 1)} \<times> {r * T..<min (r * T + T) (H - 1)}))"
proof -
  obtain ts' where ts': "compute_tiles ts src st W H T (W div T) (H div T) = Some ts'"
      "entries (tile_entry src st W H T) ({0..<W div T} \<times> {0..<H div T}) ts'"
    using compute_tiles_ok [OF assms] by blast
  have "(sobel_tiles ts' ! n, max_tiles ts' ! n, min_tiles ts' ! n) =
      tile_summary src st W ({c * T..<min (c * T + T) (W - 1)} \<times> {r * T..<min (r * T + T) (H - 1)})"
    if cr: "0 \<le> c" "c < W div T" "0 \<le> r" "r < H div T" "n = nat (r * TILE_ARRAY_WIDTH + c)" for c r n
  proof -
    have ends: "edge_end W T c = min (c * T + T) (W - 1)" "edge_end H T r = min (r * T + T) (H - 1)"
      by (auto simp: edge_end_def)
    have "(sobel_tiles ts' ! n, max_tiles ts' ! n, min_tiles ts' ! n) = tile_entry src st W H T c r"
      using ts'(2) cr by (simp add: entries_def tile_index_def)
    then show ?thesis
      unfolding tile_entry_def ends
      by (simp only: tile_entry_summary [OF tile_not_empty [OF assms(1) cr(1,2)] tile_not_empty [OF assms(1) cr(3,4)]])
  qed
  then show ?thesis using ts'(1) by auto
qed

lemma tile_pass_values_witness:
  "\<exists>ts'. compute_tiles blank_tiles [10, 20, 30, 40, 50, 60, 70, 80, 90] 1 3 3 2 1 1 = Some ts' \<and>
     sobel_tiles ts' ! 0 = 40 \<and> max_tiles ts' ! 0 = 50 \<and> min_tiles ts' ! 0 = 255"
proof -
  let ?src = "[10, 20, 30, 40, 50, 60, 70, 80, 90 :: byte]"
  have "image_readable ?src 1 3 3" by (auto simp: image_readable_def readable_def)
  from tile_pass_values [OF _ this blank_tiles_memory, of 2]
  obtain ts' where ts': "compute_tiles blank_tiles ?src 1 3 3 2 1 1 = Some ts'" and
    "\<forall>c r n. 0 \<le> c \<longrightarrow> c < (1 :: int) \<longrightarrow> 0 \<le> r \<longrightarrow> r < (1 :: int) \<longrightarrow> n = nat (r * TILE_ARRAY_WIDTH + c) \<longrightarrow>
      (sobel_tiles ts' ! n, max_tiles ts' ! n, min_tiles ts' ! n) = tile_summary ?src 1 3 ({c * 2..<c * 2 + 2} \<times> {r * 2..<r * 2 + 2})"
    by auto
  from this(2) [rule_format, of 0 0 0]
  have e: "(sobel_tiles ts' ! 0, max_tiles ts' ! 0, min_tiles ts' ! 0) = tile_summary ?src 1 3 ({0..<2} \<times> {0..<2})" by simp
  have "{0..<2 :: int} = {0, 1}" by auto
  then have tile: "{0..<2 :: int} \<times> {0..<2 :: int} = {(0, 0), (1, 0), (0, 1), (1, 1)}" by auto
  have none: "{q. (q = (0, 0) \<or> q = (1, 0) \<or> q = (0, 1) \<or> q = (1, 1)) \<and> P q} = {}"
    if "\<not> P (0, 0)" "\<not> P (1, 0)" "\<not> P (0, 1)" "\<not> P (1, 1)" for P :: "int \<times> int \<Rightarrow> bool" using that by auto
  have "tile_summary ?src 1 3 {(0, 0), (1, 0), (0, 1), (1, 1)} = (40, 50, 255)"
    by (simp add: tile_summary_def Let_def none scanned_before_def)
  then show ?thesis using ts' e unfolding tile by auto
qed

subsection \<open>The simple threshold\<close>

text \<open>C27: \<open>simple_adaptive_threshold\<close> returns for every positive tile size, and every pixel is
  compared with the mean of its tile, rounded down.\<close>

theorem simple_adaptive_pixels:
  assumes "0 < T" "0 < W" "0 < H" "image_readable src st W H" "W * H \<le> ilength d"
  shows "\<exists>d'. simple_adaptive_threshold src st d W H T = Some d' \<and> length d' = length d \<and>
    (\<forall>x y. 0 \<le> x \<longrightarrow> x < W \<longrightarrow> 0 \<le> y \<longrightarrow> y < H \<longrightarrow> d' ! nat (y * W + x) =
      (if uint (src ! nat ((y * W + x) * st)) > tile_mean src st W H T (x div T) (y div T) then 255 else 0))"
  using simple_adaptive_ok [OF assms] .

lemma simple_adaptive_pixels_witness:
  "\<exists>d'. simple_adaptive_threshold [10, 200, 30, 90] 1 [7, 7, 7, 7] 2 2 2 = Some d' \<and> d' ! 1 = 255"
proof -
  have r: "image_readable [10, 200, 30, 90] 1 2 2" by (auto simp: image_readable_def readable_def)
  have p: "pixels 0 2 0 2 = [(0, 0), (1, 0), (0, 1), (1, 1)]" by (simp add: pixels_def upto.simps)
  have "tile_mean [10, 200, 30, 90] 1 2 2 2 0 0 = 82" by (simp add: tile_mean_def pixel_mean_def tile_end_def p)
  moreover obtain d' where d': "simple_adaptive_threshold [10, 200, 30, 90] 1 [7, 7, 7, 7] 2 2 2 = Some d'"
      "\<forall>x y. 0 \<le> x \<longrightarrow> x < 2 \<longrightarrow> 0 \<le> y \<longrightarrow> y < 2 \<longrightarrow> d' ! nat (y * 2 + x) =
        (if uint ([10, 200, 30, 90 :: byte] ! nat ((y * 2 + x) * 1)) > tile_mean [10, 200, 30, 90] 1 2 2 2 (x div 2) (y div 2) then 255 else 0)"
    using simple_adaptive_pixels [OF _ _ _ r, of 2 "[7, 7, 7, 7]"] by auto
  ultimately show ?thesis using d'(1) d'(2) [rule_format, of 1 0] by simp
qed

end
