(* ===== verification/IeeeBounds.thy ===== *)
theory IeeeBounds
  imports Ieee
begin

text \<open>
  More about rounding to \<open>float\<close>: integers and halves are exact, and a result that is neither
  too small nor too large is within a factor of two of the exact one.
\<close>

lemma round_even_int [simp]: "round_even (of_int n) = n"
  using round_even_le [of "of_int n" n] round_even_ge [of n "of_int n"] by simp

text \<open>A number with few bits is not changed.\<close>

lemma round_mag_exact:
  assumes "0 < m" "m < 2 ^ p" "q = of_int m * 2 powi k" "emin \<le> k" "k \<le> 0"
  shows "round_mag (int p, emin, emax) q = q"
proof -
  have two: "(2 :: rat) powi (i + j) = 2 powi i * 2 powi j" for i j by (simp add: power_int_add)
  have "(of_int m :: rat) < 2 powi int p" using assms(2) by (simp flip: of_int_power)
  then have "q < 2 powi (int p + k)" unfolding assms(3) two by simp
  moreover have "0 < q" using assms(1,3) by simp
  ultimately have "ilog2 q < int p + k" by (intro ilog2_less)
  then have e: "max emin (ilog2 q - (int p - 1)) \<le> k" (is "?e \<le> k") using assms(4) by simp
  have "q / 2 powi ?e = of_int m * 2 powi (k - ?e)"
    unfolding assms(3) by (simp add: power_int_diff)
  also have "\<dots> = of_int (m * 2 ^ nat (k - ?e))" using e by (simp add: power_int_def)
  finally have "round_even (q / 2 powi ?e) = m * 2 ^ nat (k - ?e)" by (simp only: round_even_int)
  moreover have "of_int (m * 2 ^ nat (k - ?e)) * 2 powi ?e = q"
    using \<open>of_int m * 2 powi (k - ?e) = of_int (m * 2 ^ nat (k - ?e))\<close> \<open>q / 2 powi ?e = of_int m * 2 powi (k - ?e)\<close>
    by (metis nonzero_eq_divide_eq power_int_not_zero zero_neq_numeral)
  ultimately show ?thesis by (simp add: round_mag_def Let_def)
qed

lemma round_mag_factor:
  assumes "0 < q" "emin \<le> ilog2 q - (int p - 1)" "0 < p"
  shows "q / 2 \<le> round_mag (int p, emin, emax) q" "round_mag (int p, emin, emax) q \<le> 2 * q"
proof -
  let ?k = "ilog2 q" and ?e = "ilog2 q - (int p - 1)"
  note b = ilog2_bounds [OF assms(1)]
  have two: "(2 :: rat) powi (i + j) = 2 powi i * 2 powi j" for i j by (simp add: power_int_add)
  have pos: "0 < (2 powi ?e :: rat)" by simp
  have up: "2 powi (?k + 1) = (of_int (2 ^ p) * 2 powi ?e :: rat)"
    using two [of "int p" ?e] by simp
  have "int (p - 1) + ?e = ?k" using assms(3) by simp
  then have down: "2 powi ?k = (of_int (2 ^ (p - 1)) * 2 powi ?e :: rat)"
    using two [of "int (p - 1)" ?e] by (simp only: power_int_of_nat of_int_power of_int_numeral)
  have "q / 2 powi ?e \<le> of_int (2 ^ p)" using b(2) pos unfolding up by (simp add: pos_divide_le_eq)
  then have hi: "round_even (q / 2 powi ?e) \<le> 2 ^ p" by (rule round_even_le)
  have "of_int (2 ^ (p - 1)) \<le> q / 2 powi ?e" using b(1) pos unfolding down by (simp add: pos_le_divide_eq)
  then have lo: "2 ^ (p - 1) \<le> round_even (q / 2 powi ?e)" by (rule round_even_ge)
  have v: "round_mag (int p, emin, emax) q = of_int (round_even (q / 2 powi ?e)) * 2 powi ?e"
    using assms(2) by (simp add: round_mag_def Let_def max_def)
  have "of_int (2 ^ (p - 1)) * 2 powi ?e \<le> (of_int (round_even (q / 2 powi ?e)) * 2 powi ?e :: rat)"
    using lo pos by (intro mult_right_mono) (simp_all only: of_int_le_iff less_imp_le)
  then have "2 powi ?k \<le> round_mag (int p, emin, emax) q" unfolding v down .
  moreover have "2 powi (?k + 1) = 2 * (2 powi ?k :: rat)" using two [of ?k 1] by simp
  ultimately show "q / 2 \<le> round_mag (int p, emin, emax) q" using b(2) by linarith
  have "(of_int (round_even (q / 2 powi ?e)) * 2 powi ?e :: rat) \<le> of_int (2 ^ p) * 2 powi ?e"
    using hi pos by (intro mult_right_mono) (simp_all only: of_int_le_iff less_imp_le)
  then have "round_mag (int p, emin, emax) q \<le> 2 powi (?k + 1)" unfolding v up .
  then show "round_mag (int p, emin, emax) q \<le> 2 * q" using b(1) \<open>2 powi (?k + 1) = 2 * (2 powi ?k :: rat)\<close> by linarith
qed

text \<open>The same for \<open>float\<close>.\<close>

lemma ilog2_ge: "0 < q \<Longrightarrow> 2 powi k \<le> q \<Longrightarrow> k \<le> ilog2 q"
proof (rule ccontr)
  assume q: "0 < q" "2 powi k \<le> q" and "\<not> k \<le> ilog2 q"
  then have "2 powi (ilog2 q + 1) \<le> (2 powi k :: rat)" by (intro power_int_increasing) simp_all
  then show False using ilog2_bounds(2) [OF q(1)] q(2) by linarith
qed

lemma ieee_round_0 [simp]: "ieee_round fmt s 0 = Num s 0"
  by (cases fmt) (simp add: ieee_round_def)

lemma float_limit: "v \<le> 2 ^ 100 \<Longrightarrow> \<not> 2 powi (24 + 104) \<le> (v :: rat)"
proof -
  assume v: "v \<le> 2 ^ 100"
  have "(2 :: rat) ^ 100 < 2 ^ 128" by (intro power_strict_increasing) simp_all
  then show ?thesis using v by simp
qed

lemma float_round_factor:
  assumes "1 / 2 ^ 100 \<le> q" "q \<le> 2 ^ 99"
  shows "\<exists>v. ieee_round binary32 s q = Num s v \<and> q / 2 \<le> v \<and> v \<le> 2 * q"
proof -
  have "(1 / 2 ^ 100 :: rat) = 2 powi (- 100)" by (simp add: power_int_def field_simps)
  then have lo: "2 powi (- 100) \<le> q" using assms(1) by simp
  have "0 < (2 powi (- 100) :: rat)" by simp
  then have q: "0 < q" using lo by linarith
  have "- 100 \<le> ilog2 q" by (rule ilog2_ge [OF q lo])
  then have "- 149 \<le> ilog2 q - (int 24 - 1)" by simp
  note R = round_mag_factor [OF q this, where emax = 104]
  have "round_mag (24, - 149, 104) q \<le> 2 ^ 100" using R(2) assms(2) by simp
  then have "ieee_round binary32 s q = Num s (round_mag (24, - 149, 104) q)"
    using q float_limit by (simp add: ieee_round_def binary32_def Let_def)
  then show ?thesis using R by simp
qed

fun half_value :: "ieee \<Rightarrow> int \<Rightarrow> bool" where
  "half_value (Num s m) n \<longleftrightarrow> sgn_val s m = of_int n / 2 \<and> 0 \<le> m"
| "half_value x n \<longleftrightarrow> False"

lemma float_half:
  assumes "\<bar>n\<bar> < 2 ^ 24" "n \<noteq> 0"
  shows "ieee_round binary32 s (\<bar>of_int n\<bar> / 2) = Num s (\<bar>of_int n\<bar> / 2)"
proof -
  have q: "\<bar>of_int n\<bar> / 2 = of_int \<bar>n\<bar> * (2 powi (- 1) :: rat)" by (simp add: power_int_def)
  have r: "round_mag (int 24, - 149, 104) (\<bar>of_int n\<bar> / 2) = \<bar>of_int n\<bar> / 2"
    by (rule round_mag_exact [where m = "\<bar>n\<bar>" and k = "- 1"]) (use assms q in simp_all)
  have "(of_int \<bar>n\<bar> :: rat) \<le> 2 ^ 24" using assms(1) by (simp flip: of_int_power add: less_imp_le)
  then have "\<bar>of_int n\<bar> / 2 \<le> (2 ^ 100 :: rat)" by simp
  from float_limit [OF this] show ?thesis using r assms(2) by (simp add: ieee_round_def binary32_def Let_def)
qed

lemma half_value_of:
  assumes "\<bar>n\<bar> < 2 ^ 24"
  shows "half_value (of_value binary32 z (of_int n / 2)) n"
proof (cases "n = 0")
  case False
  then have "of_value binary32 z (of_int n / 2) = Num (n < 0) (\<bar>of_int n\<bar> / 2)"
    using float_half [OF assms False] by (simp add: of_value_def divide_less_0_iff abs_divide)
  then show ?thesis by simp
qed (simp add: of_value_def)

lemma half_value_sub:
  assumes "half_value x m" "half_value y n" "\<bar>m - n\<bar> < 2 ^ 24"
  shows "half_value (fsub binary32 x y) (m - n)"
proof -
  obtain s u t v where x: "x = Num s u" "sgn_val s u = of_int m / 2" and y: "y = Num t v" "sgn_val t v = of_int n / 2"
    using assms(1,2) by (cases x; cases y) auto
  have "sgn_val (\<not> t) v = - (of_int n / 2)" using y(2) by (cases t) auto
  then have e: "sgn_val s u + sgn_val (\<not> t) v = of_int (m - n) / 2" using x(2) by (simp add: diff_divide_distrib)
  have "fsub binary32 x y = of_value binary32 (s \<and> \<not> t) (of_int (m - n) / 2)"
    unfolding fsub_def x(1) y(1) fneg.simps fadd.simps e ..
  then show ?thesis using half_value_of [OF assms(3)] by simp
qed

lemma half_value_int:
  assumes "\<bar>n\<bar> < 2 ^ 24"
  shows "half_value (fdiv binary32 (fint binary32 n) (of_value binary32 False 2)) n"
proof -
  have i: "fint binary32 n = Num (n < 0) \<bar>of_int n\<bar>"
  proof (cases "n = 0")
    case False
    have r: "round_mag (int 24, - 149, 104) \<bar>of_int n\<bar> = \<bar>of_int n\<bar>"
      by (rule round_mag_exact [where m = "\<bar>n\<bar>" and k = 0]) (use assms False in simp_all)
    have "(of_int \<bar>n\<bar> :: rat) \<le> 2 ^ 24" using assms by (simp flip: of_int_power add: less_imp_le)
    then have "\<bar>of_int n\<bar> \<le> (2 ^ 100 :: rat)" by simp
    from float_limit [OF this] show ?thesis using r False
      by (simp add: fint_def of_value_def ieee_round_def binary32_def Let_def)
  qed (simp add: fint_def of_value_def)
  have two: "of_value binary32 False 2 = Num False 2"
  proof -
    have r: "round_mag (int 24, - 149, 104) 2 = 2"
      by (rule round_mag_exact [where m = 2 and k = 0]) simp_all
    show ?thesis using r float_limit [of 2] by (simp add: of_value_def ieee_round_def binary32_def Let_def)
  qed
  show ?thesis
  proof (cases "n = 0")
    case True
    then have "fint binary32 n = Num False 0" by (simp add: fint_def of_value_def)
    then show ?thesis using True unfolding two by simp
  next
    case False
    then show ?thesis using i float_half [OF assms False] unfolding two by simp
  qed
qed

text \<open>The square of a half, and the sum of two squares: \<open>roughly x q k\<close> is a number that is zero
  when \<open>q\<close> is, and otherwise within the factor \<open>k\<close> of \<open>q\<close>.\<close>

fun roughly :: "ieee \<Rightarrow> rat \<Rightarrow> rat \<Rightarrow> bool" where
  "roughly (Num s v) q k \<longleftrightarrow> \<not> s \<and> q / k \<le> v \<and> v \<le> k * q"
| "roughly x q k \<longleftrightarrow> False"

lemma roughly_cases:
  assumes "roughly x q k"
  obtains v where "x = Num False v" "q / k \<le> v" "v \<le> k * q"
  using assms by (cases x) auto

lemma roughly_round:
  assumes "q = 0 \<or> 1 / 2 ^ 100 \<le> q" "q \<le> 2 ^ 99"
  shows "roughly (ieee_round binary32 False q) q 2"
proof (cases "q = 0")
  case True
  then show ?thesis by (simp add: ieee_round_def binary32_def)
next
  case False
  then show ?thesis using float_round_factor [of q False] assms by auto
qed

lemma square_roughly:
  assumes "half_value x n" "\<bar>n\<bar> < 2 ^ 24"
  shows "roughly (fmul binary32 x x) (of_int (n * n) / 4) 2"
proof -
  obtain s m where x: "x = Num s m" "sgn_val s m = of_int n / 2" using assms(1) by (cases x) auto
  have m: "m * m = of_int (n * n) / 4"
  proof -
    have "m * m = (of_int n / 2) * (of_int n / 2)" unfolding x(2) [symmetric] by (cases s) simp_all
    then show ?thesis by simp
  qed
  have "\<bar>n\<bar> * \<bar>n\<bar> \<le> 2 ^ 24 * 2 ^ 24" using assms(2) by (intro mult_mono) simp_all
  then have "n * n \<le> 2 ^ 48" by simp
  then have "(of_int (n * n) :: rat) \<le> of_int (2 ^ 48)" by (simp only: of_int_le_iff)
  then have hi: "of_int (n * n) / 4 \<le> (2 ^ 99 :: rat)" by simp
  have lo: "of_int (n * n) / 4 = (0 :: rat) \<or> 1 / 2 ^ 100 \<le> (of_int (n * n) / 4 :: rat)"
  proof (cases "n = 0")
    case False
    then have "0 < n\<^sup>2" by simp
    then have "1 \<le> n * n" unfolding power2_eq_square by linarith
    then have "(1 :: rat) \<le> of_int (n * n)" by (simp only: of_int_1_le_iff)
    then show ?thesis by simp
  qed simp
  show ?thesis using roughly_round [OF lo hi] by (simp add: x(1) m)
qed

lemma add_roughly:
  assumes x: "roughly x p k" and y: "roughly y q k" and k: "1 \<le> k" "k \<le> 2 ^ 10"
    and p: "p = 0 \<or> 1 / 2 ^ 20 \<le> p" "p \<le> 2 ^ 60" and q: "q = 0 \<or> 1 / 2 ^ 20 \<le> q" "q \<le> 2 ^ 60"
  shows "roughly (fadd binary32 x y) (p + q) (2 * k)"
proof -
  obtain u v where u: "x = Num False u" "p / k \<le> u" "u \<le> k * p" and v: "y = Num False v" "q / k \<le> v" "v \<le> k * q"
    using x y by (elim roughly_cases)
  have nn: "0 \<le> p" "0 \<le> q" using p(1) q(1) by auto
  have k0: "0 < k" using k by linarith
  have "0 \<le> p / k" "0 \<le> q / k" using nn k0 by simp_all
  then have uv: "0 \<le> u" "0 \<le> v" using u v by linarith+
  have lo: "(p + q) / k \<le> u + v" and hi: "u + v \<le> k * (p + q)"
    using u v by (simp_all add: add_divide_distrib algebra_simps)
  have r: "roughly (ieee_round binary32 False (u + v)) (u + v) 2"
  proof (rule roughly_round)
    have "k * (p + q) \<le> 2 ^ 10 * (2 ^ 60 + 2 ^ 60)" using k p(2) q(2) nn by (intro mult_mono) simp_all
    then show "u + v \<le> 2 ^ 99" using hi by simp
    show "u + v = 0 \<or> 1 / 2 ^ 100 \<le> u + v"
    proof (cases "p + q = 0")
      case True
      then show ?thesis using hi uv by simp
    next
      case False
      then have "1 / 2 ^ 20 \<le> p + q" using p(1) q(1) nn by auto
      then have "(1 / 2 ^ 20) / k \<le> (p + q) / k" by (rule divide_right_mono) (use k0 in simp)
      moreover have "(1 / 2 ^ 20 :: rat) / 2 ^ 10 \<le> (1 / 2 ^ 20) / k" using k k0 by (intro divide_left_mono) simp_all
      ultimately have "(1 / 2 ^ 20 :: rat) / 2 ^ 10 \<le> u + v" using lo by linarith
      moreover have "(1 / 2 ^ 100 :: rat) \<le> (1 / 2 ^ 20) / 2 ^ 10" by simp
      ultimately show ?thesis by linarith
    qed
  qed
  have "fadd binary32 x y = ieee_round binary32 False (u + v)"
    using uv by (simp add: u(1) v(1) of_value_def)
  moreover obtain z where z: "ieee_round binary32 False (u + v) = Num False z" "(u + v) / 2 \<le> z" "z \<le> 2 * (u + v)"
    using r by (rule roughly_cases)
  moreover have "(p + q) / (2 * k) = (p + q) / k / 2" by (simp only: divide_divide_eq_left mult.commute)
  moreover have "(p + q) / k / 2 \<le> (u + v) / 2" using lo by (rule divide_right_mono) simp
  moreover have "2 * (u + v) \<le> 2 * k * (p + q)" using hi by simp
  ultimately show ?thesis by (simp only: roughly.simps) (meson order_trans)
qed

end
