(* ===== verification/OverlappedThreshold.thy ===== *)
theory OverlappedThreshold
  imports ThresholdCorrect IeeeBounds
begin

text \<open>
  \<^verbatim>\<open>threshold.c\<close>, \<open>overlapped_adaptive_threshold\<close>: tiles that advance by half their size, of
  which the middle is compared with the mean of the tile, lowered by 10 where the variance of
  the tile (computed in \<open>double\<close>) is below 100.
\<close>

subsection \<open>The program\<close>

text \<open>The second pass over a tile: the sum of the squared differences from the mean.\<close>

definition tile_deviation :: "byte list \<Rightarrow> int \<Rightarrow> int \<Rightarrow> int \<Rightarrow> int \<Rightarrow> int \<Rightarrow> int \<Rightarrow> ieee \<Rightarrow> ieee option" where
  "tile_deviation source source_stride width x xxmax y yymax fmean =
     for_range y yymax (\<lambda>yy. for_range x xxmax (\<lambda>xx sd. do {
       v \<leftarrow> rd source ((yy * width + xx) * source_stride);
       let z = fsub binary64 (fint binary64 (uint v)) fmean;
       Some (fadd binary64 sd (fmul binary64 z z)) })) (Num False 0)"

definition overlapped_adaptive_threshold ::
  "byte list \<Rightarrow> int \<Rightarrow> byte list \<Rightarrow> int \<Rightarrow> int \<Rightarrow> int \<Rightarrow> byte list option" where
  "overlapped_adaptive_threshold source source_stride dest width height tile_size = do {
     let x_step = tile_size;
     let y_step = tile_size;
     half \<leftarrow> quot y_step 2;
     quarter \<leftarrow> quot y_step 4;
     for_step 0 height half (\<lambda>y. for_step 0 width half (\<lambda>x dest. do {
       let xxmax = (if x + x_step > width then width else x + x_step);
       let yymax = (if y + y_step > height then height else y + y_step);
       let count = (yymax - y) * (xxmax - x);
       (sum, _) \<leftarrow> tile_sum source source_stride width x xxmax y yymax;
       mean \<leftarrow> quot sum count;
       let fmean = fdiv binary64 (fint binary64 sum) (fint binary64 count);
       sd \<leftarrow> tile_deviation source source_stride width x xxmax y yymax fmean;
       let fsd = fdiv binary64 sd (fint binary64 count);
       let mean = (if fless fsd (fint binary64 100) then mean - 10 else mean);
       let ys = y + quarter;
       let ymax = (y + y_step) - quarter;
       let ymax = (if ymax > yymax then yymax else ymax);
       let ys = (if y = 0 then 0 else ys);
       let xs = x + quarter;
       let xmax = (x + x_step) - quarter;
       let xmax = (if xmax > xxmax then xxmax else xmax);
       let xs = (if x = 0 then 0 else xs);
       threshold_tile source source_stride width xs xmax ys ymax mean dest })) dest
   }"

subsection \<open>One tile\<close>

text \<open>The level of a tile, as a function of its pixels in scan order.\<close>

definition pixel_level :: "byte list \<Rightarrow> int \<Rightarrow> int \<Rightarrow> (int \<times> int) list \<Rightarrow> int" where
  "pixel_level src st W l = (
     let n = fint binary64 (int (length l));
         fmean = fdiv binary64 (fint binary64 (\<Sum>(x, y)\<leftarrow>l. uint (px src st W x y))) n;
         sd = fold (\<lambda>(x, y) sd. let z = fsub binary64 (fint binary64 (uint (px src st W x y))) fmean
                                in fadd binary64 sd (fmul binary64 z z)) l (Num False 0)
     in pixel_mean src st W l - (if fless (fdiv binary64 sd n) (fint binary64 100) then 10 else 0))"

definition half_tile_level :: "byte list \<Rightarrow> int \<Rightarrow> int \<Rightarrow> int \<Rightarrow> int \<Rightarrow> int \<Rightarrow> int \<Rightarrow> int" where
  "half_tile_level src st W H T c r = (let x = c * (T div 2); y = r * (T div 2) in
     pixel_level src st W (pixels x (tile_end W T x) y (tile_end H T y)))"

lemma tile_deviation_ok:
  assumes i: "inside W H xs xe ys ye" and rd: "image_readable src st W H"
  shows "tile_deviation src st W xs xe ys ye m = Some (fold (\<lambda>(x, y) sd.
     let z = fsub binary64 (fint binary64 (uint (px src st W x y))) m in fadd binary64 sd (fmul binary64 z z))
     (pixels xs xe ys ye) (Num False 0))"
proof -
  let ?f = "\<lambda>(x, y) sd. let z = fsub binary64 (fint binary64 (uint (px src st W x y))) m in fadd binary64 sd (fmul binary64 z z)"
  let ?P = "\<lambda>l (x :: int) (y :: int) s. s = fold ?f l (Num False 0)"
  note I = i [unfolded inside_def]
  have "\<exists>s'. for_range ys ye (\<lambda>yy. for_range xs xe (\<lambda>xx sd. do {
       v \<leftarrow> rd src ((yy * W + xx) * st);
       let z = fsub binary64 (fint binary64 (uint v)) m;
       Some (fadd binary64 sd (fmul binary64 z z)) })) (Num False 0) = Some s' \<and> ?P (pixels xs xe ys ye) xs ye s'"
  proof (rule pixel_loop_rule' [where P = ?P])
    fix l x y s assume "xs \<le> x" "x < xe" "ys \<le> y" "y < ye" "?P l x y s"
    then show "\<exists>s'. (do {
       v \<leftarrow> rd src ((y * W + x) * st);
       let z = fsub binary64 (fint binary64 (uint v)) m;
       Some (fadd binary64 s (fmul binary64 z z)) }) = Some s' \<and> ?P (l @ [(x, y)]) (x + 1) y s'"
      using image_read [OF rd, of y x] I by (simp add: Let_def)
  qed (use I in simp_all)
  then show ?thesis by (simp add: tile_deviation_def)
qed

text \<open>The stretch of a row that tile \<open>c\<close> paints, and the tile that paints a coordinate last.\<close>

definition paint_from :: "int \<Rightarrow> int \<Rightarrow> int" where
  "paint_from T c = (if c = 0 then 0 else c * (T div 2) + T div 4)"

definition paint_to :: "int \<Rightarrow> int \<Rightarrow> int \<Rightarrow> int" where
  "paint_to W T c = min W (c * (T div 2) + T - T div 4)"

definition last_tile :: "int \<Rightarrow> int \<Rightarrow> int" where
  "last_tile T x = (if x < T div 4 then 0 else (x - T div 4) div (T div 2))"

lemma last_tile_nonneg: "2 \<le> T \<Longrightarrow> 0 \<le> last_tile T x"
  by (simp add: last_tile_def pos_imp_zdiv_nonneg_iff)

lemma le_div_iff: "0 < h \<Longrightarrow> c \<le> a div h \<longleftrightarrow> c * h \<le> (a :: int)"
proof
  assume h: "0 < h" and "c \<le> a div h"
  then have "c * h \<le> a div h * h" by (intro mult_right_mono) auto
  then show "c * h \<le> a" using div_mult_mod_eq [of a h] pos_mod_sign [OF h, of a] by linarith
next
  assume h: "0 < h" and "c * h \<le> a"
  then show "c \<le> a div h" using zdiv_mono1 [of "c * h" a h] by simp
qed

lemma last_tile_ge:
  assumes "2 \<le> T" "0 \<le> c" "0 \<le> x"
  shows "c \<le> last_tile T x \<longleftrightarrow> paint_from T c \<le> x"
proof -
  have h: "0 < T div 2" using assms(1) by linarith
  show ?thesis
  proof (cases "c = 0")
    case False
    have "0 \<le> c * (T div 2)" "c * (T div 2) \<noteq> 0" using False assms(2) h by simp_all
    then show ?thesis using False assms(2) le_div_iff [OF h, of c "x - T div 4"] by (auto simp: last_tile_def paint_from_def)
  qed (use assms last_tile_nonneg in \<open>simp add: paint_from_def\<close>)
qed

text \<open>The first \<open>c\<close> tiles of a row paint the columns below \<open>painted W T c\<close>.\<close>

definition painted :: "int \<Rightarrow> int \<Rightarrow> int \<Rightarrow> int" where
  "painted W T c = (if c = 0 then 0 else paint_to W T (c - 1))"

lemma painted_steps:
  assumes "2 \<le> T" "0 < W" "0 \<le> c"
  shows "painted W T c \<le> paint_to W T c" "painted W T (c + 1) = paint_to W T c" "paint_to W T c \<le> W" "0 \<le> painted W T c"
    "painted W T c \<le> x \<Longrightarrow> x < W \<Longrightarrow> paint_from T c \<le> x" "0 \<le> paint_from T c"
    "painted W T ((W - 0 + T div 2 - 1) div (T div 2)) = W"
proof -
  have h: "0 < T div 2" "0 \<le> T div 4" "T div 2 + 2 * (T div 4) \<le> T" using assms(1) by linarith+
  have c: "0 \<le> c * (T div 2)" using h assms by simp
  have c1: "0 \<le> (c - 1) * (T div 2)" if "c \<noteq> 0" using h assms that by simp
  show "painted W T c \<le> paint_to W T c" "painted W T (c + 1) = paint_to W T c" "paint_to W T c \<le> W"
    using assms h c by (auto simp: painted_def paint_to_def algebra_simps min_def)
  show "0 \<le> painted W T c"
  proof (cases "c = 0")
    case False
    then have "T div 4 \<le> (c - 1) * (T div 2) + T" using c1 h by linarith
    then show ?thesis using assms by (simp add: painted_def paint_to_def)
  qed (simp add: painted_def)
  show "painted W T c \<le> x \<Longrightarrow> x < W \<Longrightarrow> paint_from T c \<le> x"
    using assms h by (auto simp: painted_def paint_to_def paint_from_def algebra_simps min_def split: if_splits)
  show "0 \<le> paint_from T c" using c h by (simp add: paint_from_def)
  let ?n = "(W - 0 + T div 2 - 1) div (T div 2)"
  have "1 \<le> ?n" using le_div_iff [OF h(1), of 1] assms by simp
  moreover have "W \<le> ?n * (T div 2)" using tile_steps(2) [OF h(1) assms(2)] .
  ultimately show "painted W T ?n = W" using h by (auto simp: painted_def paint_to_def algebra_simps)
qed

subsection \<open>The windows\<close>

lemma threshold_tile_any:
  assumes i: "0 \<le> xs" "xe \<le> W" "0 \<le> ys" "ye \<le> H" and rd: "image_readable src st W H" and n: "W * H \<le> n"
    and S: "agrees v W n S d" "S \<subseteq> {0..<W} \<times> {0..}"
    and v: "\<And>x y. (x, y) \<in> {xs..<xe} \<times> {ys..<ye} \<Longrightarrow> v x y = (if uint (px src st W x y) > th then 255 else 0)"
  shows "\<exists>d'. threshold_tile src st W xs xe ys ye th d = Some d' \<and> agrees v W n (S \<union> {xs..<xe} \<times> {ys..<ye}) d'"
proof (cases "xs \<le> xe \<and> ys \<le> ye")
  case True
  then show ?thesis using threshold_tile_ok [OF _ rd n S v] i by (simp add: inside_def)
next
  case False
  have "for_range ys ye (\<lambda>_. Some) d = Some d" if "ys \<le> ye" for d :: "byte list"
    using for_range_rule [of "\<lambda>_ s. s = d" ys d ye "\<lambda>_. Some"] that by auto
  moreover have "(\<lambda>yy. for_range xs xe (body yy)) = (\<lambda>_. Some)" if "xe \<le> xs" for body :: "int \<Rightarrow> int \<Rightarrow> byte list \<Rightarrow> byte list option"
    using that by (intro ext) simp
  ultimately show ?thesis using False S(1) by (cases "ys \<le> ye") (auto simp: threshold_tile_def)
qed

text \<open>The value of a pixel when the rows before \<open>r\<close> and \<open>c\<close> tiles of row \<open>r\<close> are done: that of
  the last of these tiles whose window holds it.\<close>

definition level_so_far :: "byte list \<Rightarrow> int \<Rightarrow> int \<Rightarrow> int \<Rightarrow> int \<Rightarrow> int \<Rightarrow> int \<Rightarrow> int \<Rightarrow> int \<Rightarrow> int" where
  "level_so_far src st W H T r c x y =
     (if paint_from T r \<le> y \<and> x < painted W T c then half_tile_level src st W H T (min (c - 1) (last_tile T x)) r
      else half_tile_level src st W H T (last_tile T x) (min (r - 1) (last_tile T y)))"

abbreviation colour_so_far :: "byte list \<Rightarrow> int \<Rightarrow> int \<Rightarrow> int \<Rightarrow> int \<Rightarrow> int \<Rightarrow> int \<Rightarrow> int \<Rightarrow> int \<Rightarrow> byte" where
  "colour_so_far src st W H T r c \<equiv> \<lambda>x y. if uint (px src st W x y) > level_so_far src st W H T r c x y then 255 else 0"

definition region_so_far :: "int \<Rightarrow> int \<Rightarrow> int \<Rightarrow> int \<Rightarrow> int \<Rightarrow> (int \<times> int) set" where
  "region_so_far W H T r c = {0..<W} \<times> {0..<painted H T r} \<union> {0..<painted W T c} \<times> {0..<painted H T (r + 1)}"

lemma region_step:
  assumes T: "2 \<le> T" "0 < W" "0 < H" and c: "0 \<le> c" and r: "0 \<le> r" and S: "(x, y) \<in> region_so_far W H T r (c + 1)"
  shows "(x, y) \<in> region_so_far W H T r c \<or> (x, y) \<in> {paint_from T c..<paint_to W T c} \<times> {paint_from T r..<paint_to H T r}"
  using S painted_steps(5) [OF T(1,2) c, of x] painted_steps(5) [OF T(1,3) r, of y] painted_steps(3) [OF T(1,2) c]
    painted_steps(3) [OF T(1,3) r]
  by (auto simp: region_so_far_def painted_steps(2) [OF T(1,2) c] painted_steps(2) [OF T(1,3) r])

lemma colour_step:
  assumes T: "2 \<le> T" "0 < W" "0 < H" and c: "0 \<le> c" and r: "0 \<le> r" and xy: "0 \<le> x" "0 \<le> y"
  shows "(x, y) \<in> {paint_from T c..<paint_to W T c} \<times> {paint_from T r..<paint_to H T r} \<Longrightarrow>
      level_so_far src st W H T r (c + 1) x y = half_tile_level src st W H T c r"
    "(x, y) \<in> region_so_far W H T r c \<Longrightarrow> (x, y) \<notin> {paint_from T c..<paint_to W T c} \<times> {paint_from T r..<paint_to H T r} \<Longrightarrow>
      level_so_far src st W H T r (c + 1) x y = level_so_far src st W H T r c x y"
proof -
  note P = painted_steps(1-3) [OF T(1,2) c] painted_steps(1-3) [OF T(1,3) r]
  note L = last_tile_ge [OF T(1) c xy(1)]
  show "level_so_far src st W H T r (c + 1) x y = half_tile_level src st W H T c r"
    if "(x, y) \<in> {paint_from T c..<paint_to W T c} \<times> {paint_from T r..<paint_to H T r}"
    using that P L by (simp add: level_so_far_def min_def)
  show "level_so_far src st W H T r (c + 1) x y = level_so_far src st W H T r c x y"
    if S: "(x, y) \<in> region_so_far W H T r c" and w: "(x, y) \<notin> {paint_from T c..<paint_to W T c} \<times> {paint_from T r..<paint_to H T r}"
  proof (cases "paint_from T r \<le> y \<and> x < painted W T (c + 1)")
    case True
    have "y < paint_to H T r" using S P by (auto simp: region_so_far_def)
    then have "x < paint_from T c" using w True P by auto
    moreover have "\<not> c \<le> last_tile T x" using L \<open>x < paint_from T c\<close> by simp
    moreover have "x < W" using True P by linarith
    ultimately have "\<not> c \<le> last_tile T x" "x < painted W T c"
      using painted_steps(5) [OF T(1,2) c, of x] by linarith+
    moreover from this have "min (c - 1) (last_tile T x) = last_tile T x" "min c (last_tile T x) = last_tile T x" by linarith+
    ultimately show ?thesis using True by (simp add: level_so_far_def)
  next
    case False
    then have "\<not> (paint_from T r \<le> y \<and> x < painted W T c)" using P by auto
    then show ?thesis using False by (simp add: level_so_far_def del: de_Morgan_conj)
  qed
qed

lemma half_tile_ok:
  assumes T: "2 \<le> T" "0 < W" "0 < H" and rd: "image_readable src st W H" and n: "W * H \<le> n"
    and c: "0 \<le> c" "c * (T div 2) < W" and r: "0 \<le> r" "r * (T div 2) < H"
    and d: "agrees (colour_so_far src st W H T r c) W n (region_so_far W H T r c) d"
  defines "x \<equiv> c * (T div 2)" and "y \<equiv> r * (T div 2)"
  shows "\<exists>d'. (do {
       (sum, _) \<leftarrow> tile_sum src st W x (tile_end W T x) y (tile_end H T y);
       mean \<leftarrow> quot sum ((tile_end H T y - y) * (tile_end W T x - x));
       sd \<leftarrow> tile_deviation src st W x (tile_end W T x) y (tile_end H T y)
          (fdiv binary64 (fint binary64 sum) (fint binary64 ((tile_end H T y - y) * (tile_end W T x - x))));
       threshold_tile src st W (paint_from T c) (paint_to W T c) (paint_from T r) (paint_to H T r)
         (if fless (fdiv binary64 sd (fint binary64 ((tile_end H T y - y) * (tile_end W T x - x)))) (fint binary64 100)
          then mean - 10 else mean) d }) = Some d' \<and>
     agrees (colour_so_far src st W H T r (c + 1)) W n (region_so_far W H T r (c + 1)) d'"
proof -
  have h: "0 < T div 2" using T(1) by linarith
  have xy: "0 \<le> x" "x < W" "0 \<le> y" "y < H" using c r h by (simp_all add: x_def y_def)
  have lt: "x < tile_end W T x" "y < tile_end H T y" using xy T(1) by (auto simp: tile_end_def)
  have i: "inside W H x (tile_end W T x) y (tile_end H T y)" using xy lt by (auto simp: inside_def tile_end_def)
  let ?l = "pixels x (tile_end W T x) y (tile_end H T y)"
  let ?Wd = "{paint_from T c..<paint_to W T c} \<times> {paint_from T r..<paint_to H T r}"
  have len: "(tile_end H T y - y) * (tile_end W T x - x) = int (length ?l)" "0 < int (length ?l)"
    using lt by (simp_all add: length_pixels)
  have "0 \<le> (\<Sum>(x, y)\<leftarrow>?l. uint (px src st W x y))" by (rule sum_list_nonneg) auto
  then have mean: "quot (\<Sum>(x, y)\<leftarrow>?l. uint (px src st W x y)) (int (length ?l)) = Some (pixel_mean src st W ?l)"
    using len by (simp add: quot_pos pixel_mean_def)
  note P = painted_steps(1-3) [OF T(1,2) c(1)] painted_steps(1-3) [OF T(1,3) r(1)]
    and Z = painted_steps(4) [OF T(1,2) c(1)] painted_steps(4) [OF T(1,3) r(1)] painted_steps(6) [OF T(1,2) c(1)] painted_steps(6) [OF T(1,3) r(1)]
  have S: "region_so_far W H T r c \<subseteq> {0..<W} \<times> {0..}" using P Z by (auto simp: region_so_far_def)
  have old: "agrees (colour_so_far src st W H T r (c + 1)) W n (region_so_far W H T r c - ?Wd) d"
    unfolding agrees_def
  proof (intro conjI ballI)
    show "ilength d = n" using d by (simp add: agrees_def)
    fix p assume p: "p \<in> region_so_far W H T r c - ?Wd"
    obtain a b where ab: "p = (a, b)" by (cases p)
    have "0 \<le> a" "0 \<le> b" using p ab by (auto simp: region_so_far_def)
    then show "case p of (x, y) \<Rightarrow> d ! nat (y * W + x) = colour_so_far src st W H T r (c + 1) x y"
      using d p ab colour_step(2) [OF T c(1) r(1), of a b src st] by (auto simp: agrees_def)
  qed
  have new: "colour_so_far src st W H T r (c + 1) a b = (if uint (px src st W a b) > half_tile_level src st W H T c r then 255 else 0)"
    if "(a, b) \<in> ?Wd" for a b
    using colour_step(1) [OF T c(1) r(1) _ _ that, of src st] that Z by auto
  have lev: "half_tile_level src st W H T c r = pixel_level src st W ?l" by (simp add: half_tile_level_def x_def y_def Let_def)
  obtain d' where d': "threshold_tile src st W (paint_from T c) (paint_to W T c) (paint_from T r) (paint_to H T r)
      (half_tile_level src st W H T c r) d = Some d'"
      "agrees (colour_so_far src st W H T r (c + 1)) W n (region_so_far W H T r c - ?Wd \<union> ?Wd) d'"
    using threshold_tile_any [OF Z(3) P(3) Z(4) P(6) rd n old _ new] S by blast
  have "region_so_far W H T r (c + 1) \<subseteq> region_so_far W H T r c - ?Wd \<union> ?Wd"
  proof (rule subsetI)
    fix p assume "p \<in> region_so_far W H T r (c + 1)"
    then show "p \<in> region_so_far W H T r c - ?Wd \<union> ?Wd"
      using region_step [OF T c(1) r(1), of "fst p" "snd p"] by simp
  qed
  then have "agrees (colour_so_far src st W H T r (c + 1)) W n (region_so_far W H T r (c + 1)) d'"
    using d'(2) by (rule agrees_mono [rotated])
  then show ?thesis
    using d'(1) unfolding lev
    by (simp add: tile_sum_ok [OF i rd] tile_deviation_ok [OF i rd] len(1) mean pixel_level_def Let_def if_distrib [of "\<lambda>z. _ - z"] cong: if_cong)
qed

lemma last_tile_exists:
  assumes "2 \<le> T" "0 < W" "0 \<le> x" "x < W"
  shows "last_tile T x < (W - 0 + T div 2 - 1) div (T div 2)"
proof -
  let ?n = "(W - 0 + T div 2 - 1) div (T div 2)"
  have h: "0 < T div 2" "0 \<le> T div 4" using assms(1) by linarith+
  have n: "1 \<le> ?n" using le_div_iff [OF h(1), of 1] assms by simp
  have "W \<le> ?n * (T div 2)" using tile_steps(2) [OF h(1) assms(2)] .
  then have "\<not> paint_from T ?n \<le> x" using n h assms(4) unfolding paint_from_def by (simp del: diff_0_right)
  then show ?thesis using last_tile_ge [OF assms(1) _ assms(3), of ?n] n by linarith
qed

lemma row_finished:
  assumes T: "2 \<le> T" "0 < W" "0 < H" and r: "0 \<le> r"
    and d: "agrees (colour_so_far src st W H T r n) W m (region_so_far W H T r n) d'" "n = (W - 0 + T div 2 - 1) div (T div 2)"
  shows "agrees (colour_so_far src st W H T (r + 1) 0) W m (region_so_far W H T (r + 1) 0) d'"
proof -
  have W: "painted W T n = W" "painted W T 0 = 0" using painted_steps(7) [OF T(1,2), of 0] d(2) by (simp_all add: painted_def)
  have c: "colour_so_far src st W H T (r + 1) 0 x y = colour_so_far src st W H T r n x y" if xy: "0 \<le> x" "x < W" "0 \<le> y" for x y
  proof -
    have n: "min (n - 1) (last_tile T x) = last_tile T x" using last_tile_exists [OF T(1,2) xy(1,2)] d(2) by linarith
    have "min r (last_tile T y) = (if paint_from T r \<le> y then r else min (r - 1) (last_tile T y))"
      using last_tile_ge [OF T(1) r xy(3)] by (cases "paint_from T r \<le> y") (simp_all add: min_def)
    then show ?thesis using xy n by (simp add: level_so_far_def W)
  qed
  have p: "painted H T r \<le> painted H T (r + 1)" using painted_steps(1,2) [OF T(1,3) r] by simp
  have s: "region_so_far W H T (r + 1) 0 = {0..<W} \<times> {0..<painted H T (r + 1)}" "region_so_far W H T r n = {0..<W} \<times> {0..<painted H T (r + 1)}"
    using p by (auto simp: region_so_far_def W)
  show ?thesis using d(1) c unfolding s agrees_def by force
qed

lemma overlapped_adaptive_ok:
  assumes T: "2 \<le> T" "0 < W" "0 < H" and rd: "image_readable src st W H" and d: "W * H \<le> ilength d"
  shows "\<exists>d'. overlapped_adaptive_threshold src st d W H T = Some d' \<and> length d' = length d \<and>
    (\<forall>x y. 0 \<le> x \<longrightarrow> x < W \<longrightarrow> 0 \<le> y \<longrightarrow> y < H \<longrightarrow> d' ! nat (y * W + x) =
      (if uint (px src st W x y) > half_tile_level src st W H T (last_tile T x) (last_tile T y) then 255 else 0))"
proof -
  have h: "0 < T div 2" using T(1) by linarith
  let ?n = "ilength d"
  let ?done = "\<lambda>r c. agrees (colour_so_far src st W H T r c) W ?n (region_so_far W H T r c)"
  let ?tile = "\<lambda>y x dest. do {
       let xxmax = (if x + T > W then W else x + T);
       let yymax = (if y + T > H then H else y + T);
       let count = (yymax - y) * (xxmax - x);
       (sum, _) \<leftarrow> tile_sum src st W x xxmax y yymax;
       mean \<leftarrow> quot sum count;
       let fmean = fdiv binary64 (fint binary64 sum) (fint binary64 count);
       sd \<leftarrow> tile_deviation src st W x xxmax y yymax fmean;
       let fsd = fdiv binary64 sd (fint binary64 count);
       let mean = (if fless fsd (fint binary64 100) then mean - 10 else mean);
       let ys = y + T div 4;
       let ymax = (y + T) - T div 4;
       let ymax = (if ymax > yymax then yymax else ymax);
       let ys = (if y = 0 then 0 else ys);
       let xs = x + T div 4;
       let xmax = (x + T) - T div 4;
       let xmax = (if xmax > xxmax then xxmax else xmax);
       let xs = (if x = 0 then 0 else xs);
       threshold_tile src st W xs xmax ys ymax mean dest }"
  let ?steps = "\<lambda>W. (W - 0 + T div 2 - 1) div (T div 2)"
  have ends: "(if (c * (T div 2) + T) - T div 4 > tile_end W T (c * (T div 2)) then tile_end W T (c * (T div 2))
      else (c * (T div 2) + T) - T div 4) = paint_to W T c"
    "(if c * (T div 2) = 0 then 0 else c * (T div 2) + T div 4) = paint_from T c" for W c
    using h by (auto simp: paint_to_def paint_from_def tile_end_def min_def)
  have row: "\<exists>d'. for_step 0 W (T div 2) (?tile (r * (T div 2))) d0 = Some d' \<and> ?done (r + 1) 0 d'"
    if r: "0 \<le> r" "r * (T div 2) < H" and d0: "?done r 0 d0" for r d0
  proof -
    have "\<exists>d'. for_step 0 W (T div 2) (?tile (r * (T div 2))) d0 = Some d' \<and> ?done r (?steps W) d'"
    proof (rule for_step_rule [where P = "?done r"])
      fix c d1 assume c: "0 \<le> c" "0 + c * (T div 2) < W" and d1: "?done r c d1"
      show "\<exists>d'. ?tile (r * (T div 2)) (0 + c * (T div 2)) d1 = Some d' \<and> ?done r (c + 1) d'"
        using half_tile_ok [OF T rd d c(1) _ r d1] c(2) unfolding add_0 ends [symmetric]
        by (simp add: Let_def tile_end_def cong: if_cong split del: if_split)
    qed (use d0 h T in simp_all)
    then show ?thesis using row_finished [OF T r(1) _ refl] by blast
  qed
  have "\<exists>d'. for_step 0 H (T div 2) (\<lambda>y. for_step 0 W (T div 2) (?tile y)) d = Some d' \<and> ?done (?steps H) 0 d'"
  proof (rule for_step_rule [where P = "\<lambda>r. ?done r 0"])
    fix r d0 assume "0 \<le> r" "0 + r * (T div 2) < H" "?done r 0 d0"
    then show "\<exists>d'. for_step 0 W (T div 2) (?tile (0 + r * (T div 2))) d0 = Some d' \<and> ?done (r + 1) 0 d'"
      using row [of r d0] unfolding add_0 by blast
  qed (use T h in \<open>simp_all add: agrees_def region_so_far_def painted_def\<close>)
  then obtain d' where d': "for_step 0 H (T div 2) (\<lambda>y. for_step 0 W (T div 2) (?tile y)) d = Some d'" "?done (?steps H) 0 d'"
    by blast
  have "d' ! nat (y * W + x) = (if uint (px src st W x y) > half_tile_level src st W H T (last_tile T x) (last_tile T y) then 255 else 0)"
    if xy: "0 \<le> x" "x < W" "0 \<le> y" "y < H" for x y
  proof -
    have "(x, y) \<in> region_so_far W H T (?steps H) 0"
      using xy painted_steps(7) [OF T(1,3), of 0] by (simp add: region_so_far_def)
    moreover have "level_so_far src st W H T (?steps H) 0 x y = half_tile_level src st W H T (last_tile T x) (last_tile T y)"
    proof -
      have "min (?steps H - 1) (last_tile T y) = last_tile T y" using last_tile_exists [OF T(1,3) xy(3,4)] by linarith
      then show ?thesis using xy by (simp add: level_so_far_def painted_def)
    qed
    ultimately show ?thesis using d'(2) by (fastforce simp: agrees_def)
  qed
  then show ?thesis
    using d' T h unfolding overlapped_adaptive_threshold_def Let_def by (auto simp: agrees_def quot_pos)
qed

subsection \<open>Properties\<close>

text \<open>C28: \<open>overlapped_adaptive_threshold\<close> returns for every tile size from 2 on, and every
  pixel is compared with the level of one tile, the last that paints it: the mean of that tile,
  less 10 where its variance is below 100.\<close>

theorem overlapped_adaptive_pixels:
  assumes "2 \<le> T" "0 < W" "0 < H" "image_readable src st W H" "W * H \<le> ilength d"
  shows "\<exists>d'. overlapped_adaptive_threshold src st d W H T = Some d' \<and> length d' = length d \<and>
    (\<forall>x y. 0 \<le> x \<longrightarrow> x < W \<longrightarrow> 0 \<le> y \<longrightarrow> y < H \<longrightarrow> d' ! nat (y * W + x) =
      (if uint (src ! nat ((y * W + x) * st)) > half_tile_level src st W H T (last_tile T x) (last_tile T y) then 255 else 0))"
  using overlapped_adaptive_ok [OF assms] .

text \<open>Whole numbers are computed exactly.\<close>

lemma round_int:
  assumes "0 \<le> i" "i < double_ints"
  shows "ieee_round binary64 s (of_int i) = Num s (of_int i)"
proof -
  have "ieee_round binary64 False (of_int i) = Num False (of_int i)"
    using round_between [of i "of_int i" i] assms by (auto elim!: between_cases)
  then show ?thesis by (auto simp: ieee_round_def binary64_def Let_def split: if_splits)
qed

lemma round_numeral: "(numeral k :: int) < double_ints \<Longrightarrow> ieee_round binary64 s (numeral k) = Num s (numeral k)"
  using round_int [of "numeral k"] by simp

lemma round_1: "ieee_round binary64 s 1 = Num s 1"
  using round_int [of 1] by simp

lemma overlapped_adaptive_pixels_witness:
  "\<exists>d'. overlapped_adaptive_threshold [100, 130] 1 [7, 7] 2 1 2 = Some d' \<and> d' ! 0 = 0 \<and> d' ! 1 = 255"
proof -
  have r: "image_readable [100, 130] 1 2 1" by (auto simp: image_readable_def readable_def)
  have p: "pixels 0 2 0 1 = [(0, 0), (1, 0)]" "pixels 1 2 0 1 = [(1, 0)]" by (simp_all add: pixels_def upto.simps)
  have "half_tile_level [100, 130] 1 2 1 2 0 0 = 115" "half_tile_level [100, 130] 1 2 1 2 1 0 = 120"
    by (simp_all add: half_tile_level_def pixel_level_def pixel_mean_def tile_end_def p Let_def of_value_def fint_def fsub_def round_numeral round_1)
  moreover have "last_tile 2 0 = 0" "last_tile 2 1 = 1" by (simp_all add: last_tile_def)
  moreover obtain d' where d': "overlapped_adaptive_threshold [100, 130] 1 [7, 7] 2 1 2 = Some d'"
      "\<forall>x y. 0 \<le> x \<longrightarrow> x < 2 \<longrightarrow> 0 \<le> y \<longrightarrow> y < 1 \<longrightarrow> d' ! nat (y * 2 + x) =
        (if uint ([100, 130 :: byte] ! nat ((y * 2 + x) * 1)) > half_tile_level [100, 130] 1 2 1 2 (last_tile 2 x) (last_tile 2 y) then 255 else 0)"
    using overlapped_adaptive_pixels [OF _ _ _ r, of 2 "[7, 7]"] by auto
  ultimately show ?thesis using d'(2) [rule_format, of 0 0] d'(2) [rule_format, of 1 0] by simp
qed

text \<open>With a tile size of 1 the step of both loops is \<open>1 / 2 = 0\<close>: the function never
  returns.\<close>

theorem overlapped_adaptive_stuck:
  assumes "0 < W" "0 < H"
  shows "overlapped_adaptive_threshold src st d W H 1 = None"
  using assms by (simp add: overlapped_adaptive_threshold_def quot_pos for_step_def)

lemma overlapped_adaptive_stuck_witness:
  "overlapped_adaptive_threshold [100, 105] 1 [7, 7] 2 1 1 = None"
  by (rule overlapped_adaptive_stuck) simp_all

end
