(* ===== verification/TopologySearch.thy ===== *)
theory TopologySearch
  imports FidtrackX SegmentFresh
begin

text \<open>
  \<^verbatim>\<open>topologysearch.c\<close>: the bottom-up search for the fiducials of the 120 marker set. Black regions
  with one neighbour are leafs, the white regions around them are leaf containers, and a black
  region around a full set of leaf containers is a root. The three list heads of
  \<open>PartialSegmentTopology\<close> are the heads 0, 1 and 2 of the memory.
\<close>

subsection \<open>The program\<close>

definition LEAF_LEVEL :: int where "LEAF_LEVEL = 0"
definition LEAF_CONTAINER_LEVEL :: int where "LEAF_CONTAINER_LEVEL = 1"
definition ROOT_LEVEL :: int where "ROOT_LEVEL = 2"
definition UNKNOWN_LEVEL :: int where "UNKNOWN_LEVEL = - 1"
definition DISCARDED_LEVEL :: int where "DISCARDED_LEVEL = - 2"

lemmas topology_levels = LEAF_LEVEL_def LEAF_CONTAINER_LEVEL_def ROOT_LEVEL_def UNKNOWN_LEVEL_def DISCARDED_LEVEL_def

definition black_leaf_regions_head :: rptr where "black_leaf_regions_head = Head 0"
definition black_leaf_container_regions_head :: rptr where "black_leaf_container_regions_head = Head 1"
definition pst_root_regions_head :: rptr where "pst_root_regions_head = Head 2"

lemmas pst_heads = black_leaf_regions_head_def black_leaf_container_regions_head_def pst_root_regions_head_def

text \<open>The loop of \<open>find_black_leafs\<close> from region \<open>i\<close> on; \<open>n\<close> regions are left.\<close>

fun find_black_leafs_from :: "World \<Rightarrow> nat \<Rightarrow> nat \<Rightarrow> World option" where
  "find_black_leafs_from w i 0 = Some w"
| "find_black_leafs_from w i (Suc n) = do {
     r \<leftarrow> region_at w i;
     w \<leftarrow> (if colour r = 0 \<and> adjacent_region_count r = 1 then do {
             w \<leftarrow> set_region w i (\<lambda>x. x\<lparr>level := LEAF_LEVEL\<rparr>);
             link_region w black_leaf_regions_head (Reg i)
           } else set_region w i (\<lambda>x. x\<lparr>level := UNKNOWN_LEVEL\<rparr>));
     find_black_leafs_from w (Suc i) n
   }"

definition find_black_leafs :: "World \<Rightarrow> World option" where
  "find_black_leafs w = find_black_leafs_from w 0 (region_count (seg w))"

text \<open>The counting loop over adjacent regions whose level satisfies \<open>P\<close>, from count \<open>n\<close> on.\<close>

fun count_adjacent :: "World \<Rightarrow> (int \<Rightarrow> bool) \<Rightarrow> nat list \<Rightarrow> int \<Rightarrow> int option" where
  "count_adjacent w P [] n = Some n"
| "count_adjacent w P (a # as) n = do {
     x \<leftarrow> region_at w a;
     count_adjacent w P as (if P (level x) then n + 1 else n)
   }"

definition has_only_one_non_leaf_adjacent_region :: "World \<Rightarrow> nat \<Rightarrow> bool option" where
  "has_only_one_non_leaf_adjacent_region w r = do {
     x \<leftarrow> region_at w r;
     n \<leftarrow> count_adjacent w (\<lambda>l. l \<noteq> LEAF_LEVEL) (adjacent_regions x) 0;
     Some (n = 1)
   }"

text \<open>The body of the loop over the leafs.\<close>

definition container_step :: "int \<Rightarrow> rptr \<Rightarrow> World \<Rightarrow> (World \<times> bool) option" where
  "container_step symbol_count leaf w = do {
     x \<leftarrow> deref w leaf;
     c_assert (level x = LEAF_LEVEL);
     c_assert (adjacent_region_count x = 1);
     c_assert (colour x = 0);
     potential_container \<leftarrow> buf_read (adjacent_regions x) 0;
     c \<leftarrow> region_at w potential_container;
     c_assert (colour c = 255);
     if level c = UNKNOWN_LEVEL then do {
       one \<leftarrow> has_only_one_non_leaf_adjacent_region w potential_container;
       if one \<and> adjacent_region_count c \<ge> 2 \<and> int (adjacent_region_count c) \<le> symbol_count + 1 then do {
         w \<leftarrow> set_region w potential_container (\<lambda>x. x\<lparr>level := LEAF_CONTAINER_LEVEL\<rparr>);
         w \<leftarrow> link_region w black_leaf_container_regions_head (Reg potential_container);
         Some (w, False)
       } else do {
         w \<leftarrow> set_region w potential_container (\<lambda>x. x\<lparr>level := DISCARDED_LEVEL\<rparr>);
         Some (w, False)
       }
     } else Some (w, False)
   }"

definition find_black_leaf_container_regions :: "World \<Rightarrow> int \<Rightarrow> World option" where
  "find_black_leaf_container_regions w symbol_count = do {
     h \<leftarrow> deref w black_leaf_regions_head;
     ring_loop (\<lambda>w. w) black_leaf_regions_head (container_step symbol_count) (nxt h) w
   }"

definition count_non_leaf_container_adjacent_regions :: "World \<Rightarrow> nat \<Rightarrow> int option" where
  "count_non_leaf_container_adjacent_regions w r = do {
     x \<leftarrow> region_at w r;
     count_adjacent w (\<lambda>l. l \<noteq> LEAF_CONTAINER_LEVEL) (adjacent_regions x) 0
   }"

text \<open>The loop over the neighbours of a container; it does not change the list it goes through.\<close>

fun root_loop :: "int \<Rightarrow> nat list \<Rightarrow> World \<Rightarrow> World option" where
  "root_loop symbol_count [] w = Some w"
| "root_loop symbol_count (potential_root # rest) w = do {
     non_leaf_container_adjacent_count \<leftarrow> count_non_leaf_container_adjacent_regions w potential_root;
     x \<leftarrow> region_at w potential_root;
     w \<leftarrow> (if level x = UNKNOWN_LEVEL \<and>
              (int (adjacent_region_count x) = symbol_count \<and> non_leaf_container_adjacent_count = 0 \<or>
               int (adjacent_region_count x) = symbol_count + 1 \<and> non_leaf_container_adjacent_count = 1) then do {
             w \<leftarrow> set_region w potential_root (\<lambda>x. x\<lparr>level := ROOT_LEVEL\<rparr>);
             link_region w pst_root_regions_head (Reg potential_root)
           } else Some w);
     root_loop symbol_count rest w
   }"

definition root_step :: "int \<Rightarrow> rptr \<Rightarrow> World \<Rightarrow> (World \<times> bool) option" where
  "root_step symbol_count container w = do {
     x \<leftarrow> deref w container;
     w \<leftarrow> root_loop symbol_count (adjacent_regions x) w;
     Some (w, False)
   }"

definition find_root_regions :: "World \<Rightarrow> int \<Rightarrow> World option" where
  "find_root_regions w symbol_count = do {
     h \<leftarrow> deref w black_leaf_container_regions_head;
     ring_loop (\<lambda>w. w) black_leaf_container_regions_head (root_step symbol_count) (nxt h) w
   }"

definition find_roots_bottom_up :: "World \<Rightarrow> int \<Rightarrow> World option" where
  "find_roots_bottom_up w symbol_count = do {
     w \<leftarrow> find_black_leafs w;
     w \<leftarrow> find_black_leaf_container_regions w symbol_count;
     find_root_regions w symbol_count
   }"

definition initialize_segment_topology :: "World \<Rightarrow> int \<Rightarrow> World option" where
  "initialize_segment_topology w symbol_count = do {
     w \<leftarrow> initialize_head_region w black_leaf_regions_head;
     w \<leftarrow> initialize_head_region w black_leaf_container_regions_head;
     w \<leftarrow> initialize_head_region w pst_root_regions_head;
     find_roots_bottom_up w symbol_count
   }"

subsection \<open>What the search looks for\<close>

text \<open>The notions as properties of the adjacency graph, without levels.\<close>

definition black_leaf :: "Segmenter \<Rightarrow> nat \<Rightarrow> bool" where
  "black_leaf s r \<longleftrightarrow> r < region_count s \<and> colour (reg s r) = 0 \<and> adjacent_region_count (reg s r) = 1"

definition leaf_container :: "Segmenter \<Rightarrow> int \<Rightarrow> nat \<Rightarrow> bool" where
  "leaf_container s k c \<longleftrightarrow> (\<exists>l. black_leaf s l \<and> adjacent_regions (reg s l) = [c]) \<and>
     length (filter (\<lambda>a. \<not> black_leaf s a) (adjacent_regions (reg s c))) = 1 \<and>
     2 \<le> adjacent_region_count (reg s c) \<and> int (adjacent_region_count (reg s c)) \<le> k + 1"

definition symbol_root :: "Segmenter \<Rightarrow> int \<Rightarrow> nat \<Rightarrow> bool" where
  "symbol_root s k r \<longleftrightarrow> (\<exists>c. leaf_container s k c \<and> r \<in> set (adjacent_regions (reg s c))) \<and> \<not> black_leaf s r \<and>
     (let n = length (filter (\<lambda>a. \<not> leaf_container s k a) (adjacent_regions (reg s r)));
          m = int (adjacent_region_count (reg s r))
      in m = k \<and> n = 0 \<or> m = k + 1 \<and> n = 1)"

subsection \<open>Memory with levels\<close>

definition same_but_marks :: "Region \<Rightarrow> Region \<Rightarrow> bool" where
  "same_but_marks x y \<longleftrightarrow> y\<lparr>previous := Null, nxt := Null, level := 0\<rparr> = x\<lparr>previous := Null, nxt := Null, level := 0\<rparr>"

text \<open>The memory \<open>w\<close> is \<open>w0\<close> up to links and levels, and the regions have the levels \<open>lv\<close>.\<close>

definition marked :: "World \<Rightarrow> (nat \<Rightarrow> int) \<Rightarrow> World \<Rightarrow> bool" where
  "marked w0 lv w \<longleftrightarrow> (seg w)\<lparr>regions := []\<rparr> = (seg w0)\<lparr>regions := []\<rparr> \<and>
     length (regions (seg w)) = length (regions (seg w0)) \<and> length (heads w) = length (heads w0) \<and>
     (\<forall>i < length (regions (seg w0)). same_but_marks (reg (seg w0) i) (reg (seg w) i)) \<and>
     (\<forall>i < region_count (seg w0). level (reg (seg w) i) = lv i)"

lemma same_but_marksD:
  assumes "same_but_marks x y"
  shows "colour y = colour x" "adjacent_regions y = adjacent_regions x" "left y = left x" "right y = right x"
    "rtop y = rtop x" "bottom y = bottom x"
  using arg_cong [OF assms [unfolded same_but_marks_def], of colour]
    arg_cong [OF assms [unfolded same_but_marks_def], of adjacent_regions]
    arg_cong [OF assms [unfolded same_but_marks_def], of left]
    arg_cong [OF assms [unfolded same_but_marks_def], of right]
    arg_cong [OF assms [unfolded same_but_marks_def], of rtop]
    arg_cong [OF assms [unfolded same_but_marks_def], of bottom]
  by simp_all

lemma same_but_marks_links: "same_but_marks x y \<Longrightarrow> same_but_links y z \<Longrightarrow> same_but_marks x z"
proof -
  assume a: "same_but_marks x y" "same_but_links y z"
  have "z\<lparr>previous := Null, nxt := Null, level := 0\<rparr> = y\<lparr>previous := Null, nxt := Null, level := 0\<rparr>"
    using arg_cong [OF a(2) [unfolded same_but_links_def], of "\<lambda>z. z\<lparr>level := 0\<rparr>"] by simp
  then show ?thesis using a(1) by (simp add: same_but_marks_def)
qed

lemma markedD:
  assumes "marked w0 lv w"
  shows "region_count (seg w) = region_count (seg w0)" "length (regions (seg w)) = length (regions (seg w0))"
    "length (heads w) = length (heads w0)"
    "i < length (regions (seg w0)) \<Longrightarrow> same_but_marks (reg (seg w0) i) (reg (seg w) i)"
    "i < region_count (seg w0) \<Longrightarrow> level (reg (seg w) i) = lv i"
proof -
  have "(seg w)\<lparr>regions := []\<rparr> = (seg w0)\<lparr>regions := []\<rparr>" using assms by (simp add: marked_def)
  from arg_cong [OF this, of region_count] show "region_count (seg w) = region_count (seg w0)" by simp
qed (use assms in \<open>simp_all add: marked_def\<close>)

lemma marked_start: "marked w (\<lambda>i. level (reg (seg w) i)) w"
  by (simp add: marked_def same_but_marks_def)

lemma marked_cong: "marked w0 lv w \<Longrightarrow> (\<And>i. i < region_count (seg w0) \<Longrightarrow> lv i = lv' i) \<Longrightarrow> marked w0 lv' w"
  by (simp add: marked_def)

lemma marked_links:
  assumes "marked w0 lv w" "links_only w w'" "region_count (seg w0) \<le> length (regions (seg w0))"
  shows "marked w0 lv w'"
proof -
  note M = markedD [OF assms(1)]
  have s: "same_but_links (reg (seg w) i) (reg (seg w') i)" if "i < length (regions (seg w0))" for i
    using links_only_reg [OF assms(2)] that M(2) by simp
  have "same_but_marks (reg (seg w0) i) (reg (seg w') i)" if "i < length (regions (seg w0))" for i
    using same_but_marks_links [OF M(4) s] that by simp
  moreover have "level (reg (seg w') i) = lv i" if "i < region_count (seg w0)" for i
    using same_but_linksD(2) [OF s] M(5) that assms(3) by simp
  ultimately show ?thesis using assms(1,2) by (simp add: marked_def links_only_def)
qed

text \<open>The three lists; a region is in one of them at most.\<close>

definition rings :: "World \<Rightarrow> (nat \<Rightarrow> nat list) \<Rightarrow> bool" where
  "rings w L \<longleftrightarrow> (\<forall>k < 3. ring_of w (Head k) (L k)) \<and> (\<forall>j < 3. \<forall>k < 3. j \<noteq> k \<longrightarrow> set (L j) \<inter> set (L k) = {})"

definition three :: "nat list \<Rightarrow> nat list \<Rightarrow> nat list \<Rightarrow> nat \<Rightarrow> nat list" where
  "three ls cs rs j = (if j = 0 then ls else if j = 1 then cs else rs)"

lemma three_simps [simp]:
  "three ls cs rs 0 = ls" "three ls cs rs (Suc 0) = cs" "three ls cs rs 2 = rs"
  "(three ls cs rs)(0 := xs) = three xs cs rs" "(three ls cs rs)(Suc 0 := xs) = three ls xs rs"
  by (simp_all add: three_def fun_eq_iff)

lemma rings_cong: "rings w L \<Longrightarrow> (\<And>j. j < 3 \<Longrightarrow> L j = L' j) \<Longrightarrow> rings w L'"
  by (simp add: rings_def)

lemma rings_heads:
  assumes "rings w L"
  shows "ring_of w (Head 0) (L 0)" "ring_of w (Head 1) (L 1)" "ring_of w (Head 2) (L 2)"
  using assms by (simp_all add: rings_def)

lemma set_level_ok:
  assumes m: "marked w0 lv w" and r: "r < length (regions (seg w0))" and R: "rings w L"
  shows "\<exists>w'. set_region w r (\<lambda>x. x\<lparr>level := l\<rparr>) = Some w' \<and> marked w0 (lv(r := l)) w' \<and> rings w' L"
proof -
  note M = markedD [OF m]
  let ?w = "put w (Reg r) ((at w (Reg r))\<lparr>level := l\<rparr>)"
  have v: "valid w (Reg r)" using r M(2) by simp
  have run: "set_region w r (\<lambda>x. x\<lparr>level := l\<rparr>) = Some ?w"
    using r M(2) by (simp add: set_region_def buf_simps)
  have "marked w0 (lv(r := l)) ?w"
    using m r M(2) by (auto simp: marked_def nth_list_update same_but_marks_def)
  moreover have "ring_of ?w (Head k) (L k)" if "k < 3" for k
  proof (rule ring_frame)
    show ring: "ring_of w (Head k) (L k)" using R that by (simp add: rings_def)
    show "nxt (at ?w q) = nxt (at w q) \<and> previous (at ?w q) = previous (at w q)" if "q \<in> set (Head k # map Reg (L k))" for q
      using at_put [OF v ring_ofD(6) [OF ring that]] by (cases "q = Reg r") auto
  qed (rule valid_put)
  ultimately show ?thesis using run R by (auto simp: rings_def)
qed

lemma promote_ok:
  assumes m: "marked w0 lv w" and n: "region_count (seg w0) \<le> length (regions (seg w0))" and r: "r < region_count (seg w0)"
    and R: "rings w L" and new: "\<And>j. j < 3 \<Longrightarrow> r \<notin> set (L j)" and k: "k < 3"
  shows "\<exists>w'. (do { w \<leftarrow> set_region w r (\<lambda>x. x\<lparr>level := l\<rparr>); link_region w (Head k) (Reg r) }) = Some w' \<and>
    marked w0 (lv(r := l)) w' \<and> rings w' (L(k := L k @ [r]))"
proof -
  obtain w1 where w1: "set_region w r (\<lambda>x. x\<lparr>level := l\<rparr>) = Some w1" "marked w0 (lv(r := l)) w1" "rings w1 L"
    using set_level_ok [OF m _ R, of r l] r n by auto
  have v: "valid w1 (Reg r)" using markedD(2) [OF w1(2)] r n by simp
  have ring: "ring_of w1 (Head j) (L j)" if "j < 3" for j using w1(3) that by (simp add: rings_def)
  have dis: "set (L i) \<inter> set (L j) = {}" if "i < 3" "j < 3" "i \<noteq> j" for i j using R that by (simp add: rings_def)
  obtain w2 where w2: "link_region w1 (Head k) (Reg r) = Some w2" "ring_of w2 (Head k) (L k @ [r])" "links_only w1 w2"
      "\<forall>j ys. Head j \<noteq> Head k \<longrightarrow> set ys \<inter> set (r # L k) = {} \<longrightarrow> ring_of w1 (Head j) ys \<longrightarrow> ring_of w2 (Head j) ys"
    using link_region_ok [OF ring [OF k] v new [OF k]] by blast
  have "ring_of w2 (Head j) ((L(k := L k @ [r])) j)" if "j < 3" for j
    using w2(2,4) ring [OF that] dis [OF that k] new [OF that] by (cases "j = k") auto
  moreover have "set ((L(k := L k @ [r])) i) \<inter> set ((L(k := L k @ [r])) j) = {}" if "i < 3" "j < 3" "i \<noteq> j" for i j
    using dis [OF that] new [OF that(1)] new [OF that(2)] that(3) by auto
  ultimately have "rings w2 (L(k := L k @ [r]))" by (simp add: rings_def)
  then show ?thesis using w1(1) w2(1) marked_links [OF w1(2) w2(3) n] by simp
qed

subsection \<open>The leafs\<close>

text \<open>The facts about a segmented image that the search rests on.\<close>

lemma black_leafD:
  assumes seg: "segmented s" and l: "black_leaf s l"
  obtains c where "adjacent_regions (reg s l) = [c]" "c < region_count s" "colour (reg s c) = 255"
proof -
  have ll: "l < region_count s" "colour (reg s l) = 0" "length (adjacent_regions (reg s l)) = 1"
    using l by (simp_all add: black_leaf_def adjacent_region_count_def)
  then have lv: "l \<in> live s" using segmented_idle [OF seg ll(1)] by fastforce
  obtain c where c: "adjacent_regions (reg s l) = [c]" using ll(3) by (metis One_nat_def length_0_conv length_Suc_conv)
  then have m: "c \<in> set (adjacent_regions (reg s l))" by simp
  have "c \<in> live s" using segmented_graph(2) [OF seg lv m] by simp
  then show ?thesis
    using that [OF c] segmented_graph(1) [OF seg] segmented_colour [OF seg] segmented_graph(6) [OF seg lv m] ll(2) by metis
qed

lemma neighbour_colour:
  assumes seg: "segmented s" and x: "x < region_count s" and a: "a \<in> set (adjacent_regions (reg s x))"
  shows "a < region_count s" "colour (reg s a) \<noteq> colour (reg s x)"
    "colour (reg s a) = 0 \<longleftrightarrow> colour (reg s x) = 255"
proof -
  have lv: "x \<in> live s" using segmented_idle [OF seg x] a by fastforce
  then have la: "a \<in> live s" using segmented_graph(2) [OF seg lv a] by simp
  then show "a < region_count s" using segmented_graph(1) [OF seg] by simp
  show "colour (reg s a) \<noteq> colour (reg s x)" using segmented_graph(6) [OF seg lv a] .
  then show "colour (reg s a) = 0 \<longleftrightarrow> colour (reg s x) = 255"
    using segmented_colour [OF seg lv] segmented_colour [OF seg la] by auto
qed

definition leaf_levels :: "Segmenter \<Rightarrow> nat \<Rightarrow> int" where
  "leaf_levels s i = (if black_leaf s i then LEAF_LEVEL else UNKNOWN_LEVEL)"

lemma find_black_leafs_ok:
  assumes seg: "segmented (seg w0)" and n: "region_count (seg w0) \<le> length (regions (seg w0))"
    and "i + n = region_count (seg w0)"
    and "marked w0 (\<lambda>j. if j < i then leaf_levels (seg w0) j else lv j) w"
    and "rings w (three (filter (black_leaf (seg w0)) [0..<i]) [] [])"
  shows "\<exists>w'. find_black_leafs_from w i n = Some w' \<and> marked w0 (leaf_levels (seg w0)) w' \<and>
    rings w' (three (filter (black_leaf (seg w0)) [0..<region_count (seg w0)]) [] [])"
  using assms(3-5)
proof (induction n arbitrary: i w)
  case 0
  then have i: "i = region_count (seg w0)" by simp
  have "marked w0 (leaf_levels (seg w0)) w" using 0(2) unfolding i by (rule marked_cong) simp
  then show ?case using 0(3) unfolding i by simp
next
  case (Suc n)
  let ?lv = "\<lambda>i j. if j < i then leaf_levels (seg w0) j else lv j"
  let ?L = "\<lambda>i. three (filter (black_leaf (seg w0)) [0..<i]) [] []"
  have i: "i < region_count (seg w0)" "i < length (regions (seg w0))" using Suc.prems(1) n by simp_all
  note M = markedD [OF Suc.prems(2)]
  have r: "region_at w i = Some (reg (seg w) i)" using i M(2) by (simp add: region_at_def buf_simps)
  have leaf: "colour (reg (seg w) i) = 0 \<and> adjacent_region_count (reg (seg w) i) = 1 \<longleftrightarrow> black_leaf (seg w0) i"
    using same_but_marksD [OF M(4) [OF i(2)]] i by (simp add: black_leaf_def adjacent_region_count_def)
  have step: "\<exists>w1. (if black_leaf (seg w0) i then do {
        w \<leftarrow> set_region w i (\<lambda>x. x\<lparr>level := LEAF_LEVEL\<rparr>);
        link_region w black_leaf_regions_head (Reg i) } else set_region w i (\<lambda>x. x\<lparr>level := UNKNOWN_LEVEL\<rparr>)) = Some w1 \<and>
      marked w0 (?lv (Suc i)) w1 \<and> rings w1 (?L (Suc i))"
  proof (cases "black_leaf (seg w0) i")
    case True
    have "i \<notin> set (?L i j)" for j by (simp add: three_def)
    then obtain w1 where w1: "(do { w \<leftarrow> set_region w i (\<lambda>x. x\<lparr>level := LEAF_LEVEL\<rparr>); link_region w (Head 0) (Reg i) }) = Some w1"
        "marked w0 ((?lv i)(i := LEAF_LEVEL)) w1" "rings w1 ((?L i)(0 := ?L i 0 @ [i]))"
      using promote_ok [OF Suc.prems(2) n i(1) Suc.prems(3), of 0 LEAF_LEVEL] by auto
    have "marked w0 (?lv (Suc i)) w1" using w1(2) by (rule marked_cong) (auto simp: leaf_levels_def True less_Suc_eq)
    moreover have "(?L i)(0 := ?L i 0 @ [i]) = ?L (Suc i)" using True by simp
    ultimately show ?thesis using w1(1,3) True by (simp add: pst_heads)
  next
    case False
    then obtain w1 where w1: "set_region w i (\<lambda>x. x\<lparr>level := UNKNOWN_LEVEL\<rparr>) = Some w1"
        "marked w0 ((?lv i)(i := UNKNOWN_LEVEL)) w1" "rings w1 (?L i)"
      using set_level_ok [OF Suc.prems(2) i(2) Suc.prems(3)] by blast
    have "marked w0 (?lv (Suc i)) w1" using w1(2) by (rule marked_cong) (auto simp: leaf_levels_def False less_Suc_eq)
    moreover have "?L i = ?L (Suc i)" using False by simp
    ultimately show ?thesis using w1 False by simp
  qed
  then obtain w1 where w1: "(if black_leaf (seg w0) i then do {
        w \<leftarrow> set_region w i (\<lambda>x. x\<lparr>level := LEAF_LEVEL\<rparr>);
        link_region w black_leaf_regions_head (Reg i) } else set_region w i (\<lambda>x. x\<lparr>level := UNKNOWN_LEVEL\<rparr>)) = Some w1"
      "marked w0 (?lv (Suc i)) w1" "rings w1 (?L (Suc i))" by blast
  obtain w' where "find_black_leafs_from w1 (Suc i) n = Some w'" "marked w0 (leaf_levels (seg w0)) w'"
      "rings w' (?L (region_count (seg w0)))"
    using Suc.IH [OF _ w1(2,3)] Suc.prems(1) by auto
  then show ?case using w1(1) r leaf by (intro exI [of _ w']) simp
qed

subsection \<open>The containers\<close>

lemma count_adjacent_ok:
  assumes m: "marked w0 lv w" and n: "region_count (seg w0) \<le> length (regions (seg w0))"
    and "\<And>a. a \<in> set as \<Longrightarrow> a < region_count (seg w0)"
  shows "count_adjacent w P as c = Some (c + int (length (filter (\<lambda>a. P (lv a)) as)))"
  using assms(3)
proof (induction as arbitrary: c)
  case (Cons a as)
  have "a < region_count (seg w0)" using Cons.prems by simp
  then have "region_at w a = Some (reg (seg w) a)" "level (reg (seg w) a) = lv a"
    using markedD [OF m] n by (simp_all add: region_at_def buf_simps)
  then show ?case using Cons by simp
qed simp

text \<open>The containers and the levels once the leafs in \<open>S\<close> have been visited.\<close>

definition container_ok :: "Segmenter \<Rightarrow> int \<Rightarrow> nat \<Rightarrow> bool" where
  "container_ok s k c \<longleftrightarrow> length (filter (\<lambda>a. \<not> black_leaf s a) (adjacent_regions (reg s c))) = 1 \<and>
     2 \<le> adjacent_region_count (reg s c) \<and> int (adjacent_region_count (reg s c)) \<le> k + 1"

definition around :: "Segmenter \<Rightarrow> nat set \<Rightarrow> nat \<Rightarrow> bool" where
  "around s S c \<longleftrightarrow> (\<exists>l \<in> S. adjacent_regions (reg s l) = [c])"

definition container_levels :: "Segmenter \<Rightarrow> int \<Rightarrow> nat set \<Rightarrow> nat \<Rightarrow> int" where
  "container_levels s k S c =
     (if around s S c then if container_ok s k c then LEAF_CONTAINER_LEVEL else DISCARDED_LEVEL else leaf_levels s c)"

lemma leaf_container_iff: "leaf_container s k c \<longleftrightarrow> around s {l. black_leaf s l} c \<and> container_ok s k c"
  by (auto simp: leaf_container_def around_def container_ok_def)

lemma container_step_ok:
  assumes seg: "segmented (seg w0)" and n: "region_count (seg w0) \<le> length (regions (seg w0))"
    and m: "marked w0 (container_levels (seg w0) k S) w" and R: "rings w L"
    and L: "set (L 0) = {l. black_leaf (seg w0) l}" "set (L 1) = {c. around (seg w0) S c \<and> container_ok (seg w0) k c}" "L 2 = []"
    and l: "black_leaf (seg w0) l" and S: "S \<subseteq> {l. black_leaf (seg w0) l}"
  shows "\<exists>w' cs. container_step k (Reg l) w = Some (w', False) \<and>
    marked w0 (container_levels (seg w0) k (insert l S)) w' \<and> rings w' (L(1 := cs)) \<and>
    set cs = {c. around (seg w0) (insert l S) c \<and> container_ok (seg w0) k c}"
proof -
  let ?s = "seg w0" and ?lv = "container_levels (seg w0) k"
  note M = markedD [OF m]
  obtain c where c: "adjacent_regions (reg ?s l) = [c]" "c < region_count ?s" "colour (reg ?s c) = 255"
    using seg l by (rule black_leafD)
  have ll: "l < region_count ?s" "colour (reg ?s l) = 0" using l by (simp_all add: black_leaf_def)
  have white: "colour (reg ?s x) = 255" if S': "around ?s S' x" "S' \<subseteq> {l. black_leaf ?s l}" for S' x
  proof -
    obtain l' where "black_leaf ?s l'" "adjacent_regions (reg ?s l') = [x]" using S' by (auto simp: around_def)
    then show ?thesis using black_leafD [OF seg] by (metis list.inject)
  qed
  have nl: "\<not> black_leaf ?s c" using c(3) by (simp add: black_leaf_def)
  have notS: "\<not> around ?s S l" using white [of S l] S ll by auto
  have rl: "same_but_marks (reg ?s l) (reg (seg w) l)" "level (reg (seg w) l) = LEAF_LEVEL"
    and rc: "same_but_marks (reg ?s c) (reg (seg w) c)" "level (reg (seg w) c) = ?lv S c"
    using M(4) [of l] M(5) [OF ll(1)] M(4) [of c] M(5) [OF c(2)] ll(1) c(2) n l notS
    by (simp_all add: container_levels_def leaf_levels_def)
  have d: "deref w (Reg l) = Some (reg (seg w) l)" "region_at w c = Some (reg (seg w) c)"
    using ll(1) c(2) n M(2) by (simp_all add: region_at_def buf_simps)
  have around: "around ?s (insert l S) x \<longleftrightarrow> x = c \<or> around ?s S x" for x by (auto simp: around_def c(1))
  have cl: "a < region_count ?s" if "a \<in> set (adjacent_regions (reg ?s c))" for a
    using neighbour_colour(1) [OF seg c(2) that] .
  have "?lv S a = LEAF_LEVEL \<longleftrightarrow> black_leaf ?s a" if "a \<in> set (adjacent_regions (reg ?s c))" for a
  proof -
    have "colour (reg ?s a) \<noteq> 255" using neighbour_colour(2) [OF seg c(2) that] c(3) by simp
    then have "\<not> around ?s S a" using white [OF _ S] by blast
    then show ?thesis by (simp add: container_levels_def leaf_levels_def topology_levels)
  qed
  then have "filter (\<lambda>a. ?lv S a \<noteq> LEAF_LEVEL) (adjacent_regions (reg ?s c)) =
      filter (\<lambda>a. \<not> black_leaf ?s a) (adjacent_regions (reg ?s c))" by (intro filter_cong) simp_all
  then have one: "has_only_one_non_leaf_adjacent_region w c =
      Some (length (filter (\<lambda>a. \<not> black_leaf ?s a) (adjacent_regions (reg ?s c))) = 1)"
    using d(2) count_adjacent_ok [OF m n cl, where P = "\<lambda>l. l \<noteq> LEAF_LEVEL" and c = 0] same_but_marksD(2) [OF rc(1)]
    by (simp add: has_only_one_non_leaf_adjacent_region_def)
  have run: "container_step k (Reg l) w = (if \<not> around ?s S c then
      if container_ok ?s k c then do {
         w \<leftarrow> set_region w c (\<lambda>x. x\<lparr>level := LEAF_CONTAINER_LEVEL\<rparr>);
         w \<leftarrow> link_region w black_leaf_container_regions_head (Reg c);
         Some (w, False) }
      else do {
         w \<leftarrow> set_region w c (\<lambda>x. x\<lparr>level := DISCARDED_LEVEL\<rparr>);
         Some (w, False) }
      else Some (w, False))"
    using d one rl rc same_but_marksD [OF rl(1)] same_but_marksD [OF rc(1)] c ll nl
    by (simp add: container_step_def adjacent_region_count_def container_ok_def container_levels_def leaf_levels_def
        topology_levels buf_read_def del: deref.simps)
  show ?thesis
  proof (cases "around ?s S c")
    case True
    then have "?lv (insert l S) = ?lv S" "around ?s (insert l S) = around ?s S"
      using around by (auto simp: container_levels_def fun_eq_iff)
    moreover have "L(1 := L 1) = L" by simp
    ultimately show ?thesis using run True m R L(2) by (intro exI [of _ w] exI [of _ "L 1"]) simp
  next
    case new: False
    have lv: "?lv (insert l S) = (?lv S)(c := if container_ok ?s k c then LEAF_CONTAINER_LEVEL else DISCARDED_LEVEL)"
      using around by (auto simp: container_levels_def fun_eq_iff)
    show ?thesis
    proof (cases "container_ok ?s k c")
      case True
      have "c \<notin> set (L j)" if "j < 3" for j
      proof -
        consider "j = 0" | "j = 1" | "j = 2" using \<open>j < 3\<close> by linarith
        then show ?thesis by cases (use L nl new in simp_all)
      qed
      then obtain w' where "(do { w \<leftarrow> set_region w c (\<lambda>x. x\<lparr>level := LEAF_CONTAINER_LEVEL\<rparr>); link_region w (Head 1) (Reg c) }) = Some w'"
          "marked w0 ((?lv S)(c := LEAF_CONTAINER_LEVEL)) w'" "rings w' (L(1 := L 1 @ [c]))"
        using promote_ok [OF m n c(2) R, of 1 LEAF_CONTAINER_LEVEL] by auto
      moreover have "set (L 1 @ [c]) = {x. around ?s (insert l S) x \<and> container_ok ?s k x}"
        using L(2) around True by auto
      ultimately show ?thesis using run new True lv
        by (intro exI [of _ w'] exI [of _ "L 1 @ [c]"]) (simp add: pst_heads Option.bind_eq_Some_conv)
    next
      case False
      obtain w' where "set_region w c (\<lambda>x. x\<lparr>level := DISCARDED_LEVEL\<rparr>) = Some w'"
          "marked w0 ((?lv S)(c := DISCARDED_LEVEL)) w'" "rings w' L"
        using set_level_ok [OF m _ R, of c DISCARDED_LEVEL] c(2) n by auto
      moreover have "set (L 1) = {x. around ?s (insert l S) x \<and> container_ok ?s k x}"
        using L(2) around False by auto
      ultimately show ?thesis using run new False lv by (intro exI [of _ w'] exI [of _ "L 1"]) simp
    qed
  qed
qed

lemma find_containers_ok:
  assumes seg: "segmented (seg w0)" and n: "region_count (seg w0) \<le> length (regions (seg w0))"
    and m: "marked w0 (leaf_levels (seg w0)) w"
    and R: "rings w (three ls [] [])" and ls: "set ls = {l. black_leaf (seg w0) l}"
  shows "\<exists>w' cs. find_black_leaf_container_regions w k = Some w' \<and>
    marked w0 (container_levels (seg w0) k (set ls)) w' \<and>
    rings w' (three ls cs []) \<and> set cs = {c. leaf_container (seg w0) k c}"
proof -
  let ?s = "seg w0"
  let ?P = "\<lambda>ys w. \<exists>cs. marked w0 (container_levels ?s k (set ys)) w \<and>
    rings w (three ls cs []) \<and>
    set cs = {c. around ?s (set ys) c \<and> container_ok ?s k c}"
  have ring: "ring_of w black_leaf_regions_head ls" using rings_heads(1) [OF R] by (simp add: pst_heads)
  have "\<exists>w'. ring_loop (\<lambda>w. w) black_leaf_regions_head (container_step k) (nxt (at w black_leaf_regions_head)) w = Some w' \<and> ?P ls w'"
  proof (rule ring_loop_rule [where P = ?P and Q = "?P ls" and world = "\<lambda>w. w" and s = w])
    have "marked w0 (container_levels ?s k (set [])) w"
      using m by (rule marked_cong) (simp add: container_levels_def around_def)
    then show "?P [] w" using R by (intro exI [of _ "[]"]) (simp add: around_def)
    show "\<exists>w2 stop. container_step k (Reg l) w1 = Some (w2, stop) \<and>
        (if stop then ?P ls w2 else ?P (ys @ [l]) w2 \<and> ring_of w2 black_leaf_regions_head ls)"
      if split: "ls = ys @ l # zs" and P: "?P ys w1" for ys l zs w1
    proof -
      obtain cs where cs: "marked w0 (container_levels ?s k (set ys)) w1"
          "rings w1 (three ls cs [])"
          "set cs = {c. around ?s (set ys) c \<and> container_ok ?s k c}" using P by blast
      have ys: "set ys \<subseteq> {l. black_leaf ?s l}" "black_leaf ?s l" using ls split by auto
      obtain w2 ds where w2: "container_step k (Reg l) w1 = Some (w2, False)"
          "marked w0 (container_levels ?s k (insert l (set ys))) w2"
          "rings w2 (three ls ds [])"
          "set ds = {c. around ?s (insert l (set ys)) c \<and> container_ok ?s k c}"
        using container_step_ok [OF seg n cs(1,2) _ _ _ ys(2,1)] ls cs(3) by auto
      have "?P (ys @ [l]) w2" using w2(2-4) by (intro exI [of _ ds]) simp
      moreover have "ring_of w2 black_leaf_regions_head ls" using rings_heads(1) [OF w2(3)] by (simp add: pst_heads)
      ultimately show ?thesis using w2(1) by (intro exI [of _ w2] exI [of _ False]) simp
    qed
  qed (use ring in simp_all)
  moreover have "deref w black_leaf_regions_head = Some (at w black_leaf_regions_head)"
    using ring_ofD(1) [OF ring] by (rule deref_eq)
  ultimately show ?thesis
    unfolding find_black_leaf_container_regions_def leaf_container_iff ls by (simp del: at.simps deref.simps)
qed

subsection \<open>The roots\<close>

text \<open>The levels once the regions in \<open>S\<close> have been examined as roots.\<close>

definition root_levels :: "Segmenter \<Rightarrow> int \<Rightarrow> nat set \<Rightarrow> nat \<Rightarrow> int" where
  "root_levels s k S r = (if r \<in> S \<and> symbol_root s k r then ROOT_LEVEL
     else container_levels s k {l. black_leaf s l} r)"

definition root_lists :: "Segmenter \<Rightarrow> int \<Rightarrow> nat set \<Rightarrow> (nat \<Rightarrow> nat list) \<Rightarrow> bool" where
  "root_lists s k S L \<longleftrightarrow> set (L 0) = {l. black_leaf s l} \<and> set (L 1) = {c. leaf_container s k c} \<and>
     set (L 2) = {r \<in> S. symbol_root s k r}"

lemma leaf_container_white:
  assumes "segmented s" "leaf_container s k c"
  shows "c < region_count s" "colour (reg s c) = 255" "\<not> black_leaf s c"
proof -
  obtain l where l: "black_leaf s l" "adjacent_regions (reg s l) = [c]" using assms(2) by (auto simp: leaf_container_def)
  obtain c' where "adjacent_regions (reg s l) = [c']" "c' < region_count s" "colour (reg s c') = 255"
    using assms(1) l(1) by (rule black_leafD)
  then show "c < region_count s" "colour (reg s c) = 255" using l(2) by simp_all
  then show "\<not> black_leaf s c" by (simp add: black_leaf_def)
qed

lemma around_white:
  assumes "segmented s" "around s {l. black_leaf s l} c"
  shows "colour (reg s c) = 255"
proof -
  obtain l where l: "black_leaf s l" "adjacent_regions (reg s l) = [c]" using assms(2) by (auto simp: around_def)
  obtain c' where "adjacent_regions (reg s l) = [c']" "c' < region_count s" "colour (reg s c') = 255"
    using assms(1) l(1) by (rule black_leafD)
  then show ?thesis using l(2) by simp
qed

lemma root_loop_ok:
  assumes seg: "segmented (seg w0)" and n: "region_count (seg w0) \<le> length (regions (seg w0))"
    and as: "\<And>a. a \<in> set as \<Longrightarrow> \<exists>c. leaf_container (seg w0) k c \<and> a \<in> set (adjacent_regions (reg (seg w0) c))"
    and "marked w0 (root_levels (seg w0) k S) w" "rings w L" "root_lists (seg w0) k S L"
  shows "\<exists>w' L'. root_loop k as w = Some w' \<and> marked w0 (root_levels (seg w0) k (S \<union> set as)) w' \<and>
    rings w' L' \<and> root_lists (seg w0) k (S \<union> set as) L' \<and> (\<forall>j < 2. L' j = L j)"
  using as assms(4-6)
proof (induction as arbitrary: w S L)
  case Nil
  then show ?case by auto
next
  case (Cons a as)
  let ?s = "seg w0" and ?lv = "root_levels (seg w0) k"
  note m = Cons.prems(2) and R = Cons.prems(3)
  note M = markedD [OF m]
  obtain c where c: "leaf_container ?s k c" "a \<in> set (adjacent_regions (reg ?s c))" using Cons.prems(1) [of a] by auto
  note cw = leaf_container_white [OF seg c(1)]
  note na = neighbour_colour [OF seg cw(1) c(2)]
  have a: "a < region_count ?s" "colour (reg ?s a) = 0" using na cw(2) by simp_all
  have ra: "region_at w a = Some (reg (seg w) a)" "same_but_marks (reg ?s a) (reg (seg w) a)" "level (reg (seg w) a) = ?lv S a"
    using a(1) n M(2) M(4) [of a] M(5) [OF a(1)] by (simp_all add: region_at_def buf_simps)
  have na2: "\<not> around ?s {l. black_leaf ?s l} a" using around_white [OF seg] a(2) by force
  have level: "?lv S a = UNKNOWN_LEVEL \<longleftrightarrow> \<not> black_leaf ?s a \<and> \<not> (a \<in> S \<and> symbol_root ?s k a)"
    using na2 by (simp add: root_levels_def container_levels_def leaf_levels_def topology_levels)
  have "?lv S b = LEAF_CONTAINER_LEVEL \<longleftrightarrow> leaf_container ?s k b" if b: "b \<in> set (adjacent_regions (reg ?s a))" for b
  proof -
    have white: "colour (reg ?s b) \<noteq> 0" using neighbour_colour(2) [OF seg a(1) b] a(2) by simp
    have "colour (reg ?s b) = 0" if "symbol_root ?s k b"
    proof -
      obtain c' where c': "leaf_container ?s k c'" "b \<in> set (adjacent_regions (reg ?s c'))"
        using \<open>symbol_root ?s k b\<close> by (auto simp: symbol_root_def)
      show ?thesis using neighbour_colour(3) [OF seg leaf_container_white(1) [OF seg c'(1)] c'(2)]
        leaf_container_white(2) [OF seg c'(1)] by simp
    qed
    then have "\<not> symbol_root ?s k b \<and> \<not> black_leaf ?s b" using white by (auto simp: black_leaf_def)
    then show ?thesis
      by (simp add: root_levels_def container_levels_def leaf_levels_def topology_levels leaf_container_iff)
  qed
  then have "filter (\<lambda>b. ?lv S b \<noteq> LEAF_CONTAINER_LEVEL) (adjacent_regions (reg ?s a)) =
      filter (\<lambda>b. \<not> leaf_container ?s k b) (adjacent_regions (reg ?s a))" by (intro filter_cong) simp_all
  then have cnt: "count_non_leaf_container_adjacent_regions w a =
      Some (int (length (filter (\<lambda>b. \<not> leaf_container ?s k b) (adjacent_regions (reg ?s a)))))"
    using ra(1) count_adjacent_ok [OF m n neighbour_colour(1) [OF seg a(1)], where P = "\<lambda>l. l \<noteq> LEAF_CONTAINER_LEVEL" and c = 0]
      same_but_marksD(2) [OF ra(2)]
    by (simp add: count_non_leaf_container_adjacent_regions_def)
  have "level (reg (seg w) a) = UNKNOWN_LEVEL \<and>
      (int (adjacent_region_count (reg (seg w) a)) = k \<and> int (length (filter (\<lambda>b. \<not> leaf_container ?s k b) (adjacent_regions (reg ?s a)))) = 0 \<or>
       int (adjacent_region_count (reg (seg w) a)) = k + 1 \<and> int (length (filter (\<lambda>b. \<not> leaf_container ?s k b) (adjacent_regions (reg ?s a)))) = 1)
    \<longleftrightarrow> a \<notin> S \<and> symbol_root ?s k a"
    using level ra(3) same_but_marksD(2) [OF ra(2)] c by (auto simp: symbol_root_def adjacent_region_count_def Let_def)
  then have run: "root_loop k (a # as) w = do {
      w \<leftarrow> (if a \<notin> S \<and> symbol_root ?s k a then do {
             w \<leftarrow> set_region w a (\<lambda>x. x\<lparr>level := ROOT_LEVEL\<rparr>);
             link_region w pst_root_regions_head (Reg a)
           } else Some w);
      root_loop k as w }" using cnt ra(1) by simp
  have "\<exists>w1 L1. (if a \<notin> S \<and> symbol_root ?s k a then do {
             w \<leftarrow> set_region w a (\<lambda>x. x\<lparr>level := ROOT_LEVEL\<rparr>);
             link_region w pst_root_regions_head (Reg a)
           } else Some w) = Some w1 \<and> marked w0 (?lv (insert a S)) w1 \<and> rings w1 L1 \<and>
      root_lists ?s k (insert a S) L1 \<and> (\<forall>j < 2. L1 j = L j)"
  proof (cases "a \<notin> S \<and> symbol_root ?s k a")
    case True
    have lists: "set (L 0) = {l. black_leaf ?s l}" "set (L 1) = {c. leaf_container ?s k c}" "set (L 2) = {r \<in> S. symbol_root ?s k r}"
      using Cons.prems(4) by (simp_all add: root_lists_def)
    have "a \<notin> set (L j)" if "j < 3" for j
    proof -
      consider "j = 0" | "j = 1" | "j = 2" using \<open>j < 3\<close> by linarith
      then show ?thesis
        by cases (use lists True leaf_container_white(2) [OF seg, of k a] a(2) in \<open>auto simp: symbol_root_def\<close>)
    qed
    then obtain w1 where w1: "(do { w \<leftarrow> set_region w a (\<lambda>x. x\<lparr>level := ROOT_LEVEL\<rparr>); link_region w (Head 2) (Reg a) }) = Some w1"
        "marked w0 ((?lv S)(a := ROOT_LEVEL)) w1" "rings w1 (L(2 := L 2 @ [a]))"
      using promote_ok [OF m n a(1) R, of 2 ROOT_LEVEL] by auto
    have "(?lv S)(a := ROOT_LEVEL) = ?lv (insert a S)" using True by (auto simp: root_levels_def fun_eq_iff)
    moreover have "root_lists ?s k (insert a S) (L(2 := L 2 @ [a]))" using lists True by (auto simp: root_lists_def)
    ultimately show ?thesis using w1 True
      by (intro exI [of _ w1] exI [of _ "L(2 := L 2 @ [a])"]) (simp add: pst_heads)
  next
    case False
    have "?lv (insert a S) = ?lv S" using False by (auto simp: root_levels_def fun_eq_iff)
    moreover have "root_lists ?s k (insert a S) L" using Cons.prems(4) False by (auto simp: root_lists_def)
    ultimately show ?thesis using m R False by (intro exI [of _ w] exI [of _ L]) auto
  qed
  then obtain w1 L1 where w1: "(if a \<notin> S \<and> symbol_root ?s k a then do {
             w \<leftarrow> set_region w a (\<lambda>x. x\<lparr>level := ROOT_LEVEL\<rparr>);
             link_region w pst_root_regions_head (Reg a)
           } else Some w) = Some w1" "marked w0 (?lv (insert a S)) w1" "rings w1 L1"
      "root_lists ?s k (insert a S) L1" "\<forall>j < 2. L1 j = L j" by blast
  obtain w' L' where "root_loop k as w1 = Some w'" "marked w0 (?lv (insert a S \<union> set as)) w'" "rings w' L'"
      "root_lists ?s k (insert a S \<union> set as) L'" "\<forall>j < 2. L' j = L1 j"
    using Cons.IH [OF _ w1(2-4)] Cons.prems(1) by auto
  moreover have "insert a S \<union> set as = S \<union> set (a # as)" by auto
  ultimately show ?case using run w1(1,5) by (intro exI [of _ w'] exI [of _ L']) simp
qed

lemma find_root_regions_ok:
  assumes seg: "segmented (seg w0)" and n: "region_count (seg w0) \<le> length (regions (seg w0))"
    and m: "marked w0 (container_levels (seg w0) k {l. black_leaf (seg w0) l}) w"
    and R: "rings w (three ls cs [])" and ls: "set ls = {l. black_leaf (seg w0) l}"
    and cs: "set cs = {c. leaf_container (seg w0) k c}"
  shows "\<exists>w' rs. find_root_regions w k = Some w' \<and>
    marked w0 (root_levels (seg w0) k {r. symbol_root (seg w0) k r}) w' \<and>
    rings w' (three ls cs rs) \<and> set rs = {r. symbol_root (seg w0) k r}"
proof -
  let ?s = "seg w0"
  let ?S = "\<lambda>ys. \<Union>c\<in>set ys. set (adjacent_regions (reg ?s c))"
  let ?P = "\<lambda>ys w. \<exists>L. marked w0 (root_levels ?s k (?S ys)) w \<and> rings w L \<and> root_lists ?s k (?S ys) L \<and> L 0 = ls \<and> L 1 = cs"
  let ?Q = "\<lambda>w'. \<exists>rs. marked w0 (root_levels ?s k {r. symbol_root ?s k r}) w' \<and> rings w' (three ls cs rs) \<and>
    set rs = {r. symbol_root ?s k r}"
  have ring: "ring_of w black_leaf_container_regions_head cs" using rings_heads(2) [OF R] by (simp add: pst_heads)
  have "\<exists>w'. ring_loop (\<lambda>w. w) black_leaf_container_regions_head (root_step k)
      (nxt (at w black_leaf_container_regions_head)) w = Some w' \<and> ?Q w'"
  proof (rule ring_loop_rule [where P = ?P and Q = ?Q and world = "\<lambda>w. w" and s = w])
    have "marked w0 (root_levels ?s k (?S [])) w" using m by (rule marked_cong) (simp add: root_levels_def)
    then show "?P [] w" using R ls cs by (intro exI [of _ "three ls cs []"]) (simp add: root_lists_def)
    show "?Q w1" if P: "?P cs w1" for w1
    proof -
      obtain L where L: "marked w0 (root_levels ?s k (?S cs)) w1" "rings w1 L" "root_lists ?s k (?S cs) L" "L 0 = ls" "L 1 = cs"
        using P by blast
      have "r \<in> ?S cs" if "symbol_root ?s k r" for r using that cs by (auto simp: symbol_root_def)
      then have "root_levels ?s k (?S cs) = root_levels ?s k {r. symbol_root ?s k r}"
          "set (L 2) = {r. symbol_root ?s k r}"
        using L(3) by (auto simp: root_levels_def root_lists_def fun_eq_iff)
      moreover have "rings w1 (three ls cs (L 2))"
      proof -
        have "L j = three ls cs (L 2) j" if "j < 3" for j
        proof -
          consider "j = 0" | "j = 1" | "j = 2" using \<open>j < 3\<close> by linarith
          then show ?thesis by cases (use L(4,5) in simp_all)
        qed
        then show ?thesis by (rule rings_cong [OF L(2)])
      qed
      ultimately show ?thesis using L(1) by (intro exI [of _ "L 2"]) simp
    qed
    show "\<exists>w2 stop. root_step k (Reg c) w1 = Some (w2, stop) \<and>
        (if stop then ?Q w2 else ?P (ys @ [c]) w2 \<and> ring_of w2 black_leaf_container_regions_head cs)"
      if split: "cs = ys @ c # zs" and P: "?P ys w1" for ys c zs w1
    proof -
      obtain L where L: "marked w0 (root_levels ?s k (?S ys)) w1" "rings w1 L" "root_lists ?s k (?S ys) L" "L 0 = ls" "L 1 = cs"
        using P by blast
      have c: "leaf_container ?s k c" using cs split by auto
      have cl: "c < region_count ?s" using leaf_container_white(1) [OF seg c] .
      have d: "deref w1 (Reg c) = Some (reg (seg w1) c)" "adjacent_regions (reg (seg w1) c) = adjacent_regions (reg ?s c)"
        using cl n markedD(2) [OF L(1)] same_but_marksD(2) [OF markedD(4) [OF L(1), of c]] by (simp_all add: buf_simps)
      obtain w2 L2 where w2: "root_loop k (adjacent_regions (reg ?s c)) w1 = Some w2"
          "marked w0 (root_levels ?s k (?S ys \<union> set (adjacent_regions (reg ?s c)))) w2" "rings w2 L2"
          "root_lists ?s k (?S ys \<union> set (adjacent_regions (reg ?s c))) L2" "\<forall>j < 2. L2 j = L j"
        using root_loop_ok [OF seg n _ L(1-3), of "adjacent_regions (reg ?s c)"] c by blast
      have S: "?S ys \<union> set (adjacent_regions (reg ?s c)) = ?S (ys @ [c])" by auto
      have "?P (ys @ [c]) w2" using w2(2-5) L(4,5) unfolding S by (intro exI [of _ L2]) simp
      moreover have "ring_of w2 black_leaf_container_regions_head cs"
        using rings_heads(2) [OF w2(3)] w2(5) L(5) by (simp add: pst_heads)
      ultimately show ?thesis using d w2(1)
        by (intro exI [of _ w2] exI [of _ False]) (simp add: root_step_def del: deref.simps)
    qed
  qed (rule ring)
  moreover have "deref w black_leaf_container_regions_head = Some (at w black_leaf_container_regions_head)"
    using ring_ofD(1) [OF ring] by (rule deref_eq)
  ultimately show ?thesis unfolding find_root_regions_def by (simp del: at.simps deref.simps)
qed

lemma initialize_heads_ok:
  assumes "3 \<le> length (heads w)" "region_count (seg w) \<le> length (regions (seg w))"
  shows "\<exists>w'. (do {
     w \<leftarrow> initialize_head_region w black_leaf_regions_head;
     w \<leftarrow> initialize_head_region w black_leaf_container_regions_head;
     initialize_head_region w pst_root_regions_head }) = Some w' \<and>
   marked w (\<lambda>i. level (reg (seg w) i)) w' \<and> rings w' (three [] [] [])"
proof -
  have v: "valid w (Head 0)" using assms by auto
  obtain w1 where w1: "initialize_head_region w (Head 0) = Some w1" "ring_of w1 (Head 0) []" "links_only w w1"
    using initialize_head_region_ok [OF v] by blast
  have v1: "valid w1 (Head 1)" using assms links_only_seg(4) [OF w1(3)] by simp
  obtain w2 where w2: "initialize_head_region w1 (Head 1) = Some w2" "ring_of w2 (Head 1) []" "ring_of w2 (Head 0) []"
      "links_only w1 w2"
    using initialize_head_region_ok [OF v1] w1(2) by auto
  have v2: "valid w2 (Head 2)" using assms links_only_seg(4) [OF w1(3)] links_only_seg(4) [OF w2(4)] by simp
  obtain w3 where w3: "initialize_head_region w2 (Head 2) = Some w3" "ring_of w3 (Head 2) []" "ring_of w3 (Head 1) []"
      "ring_of w3 (Head 0) []" "links_only w2 w3"
    using initialize_head_region_ok [OF v2] w2(2,3) by auto
  have "ring_of w3 (Head k) (three [] [] [] k)" if "k < 3" for k
  proof -
    consider "k = 0" | "k = 1" | "k = 2" using \<open>k < 3\<close> by linarith
    then show ?thesis by cases (use w3 in simp_all)
  qed
  then have "rings w3 (three [] [] [])" by (auto simp: rings_def three_def)
  moreover have "links_only w w3" using links_only_trans w1(3) w2(4) w3(5) by blast
  then have "marked w (\<lambda>i. level (reg (seg w) i)) w3" by (rule marked_links [OF marked_start _ assms(2)])
  ultimately show ?thesis using w1(1) w2(1) w3(1) by (simp add: pst_heads)
qed

text \<open>The search as a whole.\<close>

lemma topology_ok:
  assumes seg: "segmented (seg w)" and h: "3 \<le> length (heads w)"
  shows "\<exists>w' ls cs rs. initialize_segment_topology w k = Some w' \<and>
    marked w (root_levels (seg w) k {r. symbol_root (seg w) k r}) w' \<and> rings w' (three ls cs rs) \<and>
    ls = filter (black_leaf (seg w)) [0..<region_count (seg w)] \<and>
    set cs = {c. leaf_container (seg w) k c} \<and> set rs = {r. symbol_root (seg w) k r}"
proof -
  let ?ls = "filter (black_leaf (seg w)) [0..<region_count (seg w)]"
  have n: "region_count (seg w) \<le> length (regions (seg w))"
    using segmented_fresh(1) [OF seg] by (meson leI less_irrefl)
  obtain w1 where w1: "(do {
     w \<leftarrow> initialize_head_region w black_leaf_regions_head;
     w \<leftarrow> initialize_head_region w black_leaf_container_regions_head;
     initialize_head_region w pst_root_regions_head }) = Some w1"
     "marked w (\<lambda>i. level (reg (seg w) i)) w1" "rings w1 (three [] [] [])"
    using initialize_heads_ok [OF h n] by blast
  have "marked w (\<lambda>j. if j < 0 then leaf_levels (seg w) j else level (reg (seg w) j)) w1"
    using w1(2) by simp
  moreover have "rings w1 (three (filter (black_leaf (seg w)) [0..<0]) [] [])" using w1(3) by simp
  ultimately obtain w2 where w2: "find_black_leafs_from w1 0 (region_count (seg w)) = Some w2"
      "marked w (leaf_levels (seg w)) w2" "rings w2 (three ?ls [] [])"
    using find_black_leafs_ok [OF seg n, of 0 "region_count (seg w)"] by auto
  have sl: "set ?ls = {l. black_leaf (seg w) l}" by (auto simp: black_leaf_def)
  obtain w3 cs where w3: "find_black_leaf_container_regions w2 k = Some w3"
      "marked w (container_levels (seg w) k (set ?ls)) w3" "rings w3 (three ?ls cs [])" "set cs = {c. leaf_container (seg w) k c}"
    using find_containers_ok [OF seg n w2(2,3) sl] by blast
  obtain w4 rs where w4: "find_root_regions w3 k = Some w4"
      "marked w (root_levels (seg w) k {r. symbol_root (seg w) k r}) w4" "rings w4 (three ?ls cs rs)"
      "set rs = {r. symbol_root (seg w) k r}"
    using find_root_regions_ok [OF seg n w3(2) [unfolded sl] w3(3) sl w3(4)] by blast
  have "initialize_segment_topology w k = Some w4"
    using w1(1) w2(1) w3(1) w4(1) markedD(1) [OF w1(2)]
    by (auto simp: initialize_segment_topology_def find_roots_bottom_up_def find_black_leafs_def Option.bind_eq_Some_conv)
  then show ?thesis using w3(4) w4(2-4) by blast
qed

subsection \<open>Properties\<close>

text \<open>C33: On every segmented image \<open>initialize_segment_topology\<close> returns, without a failing
  assertion, and its three lists hold exactly the regions that the adjacency graph makes a leaf, a
  leaf container or a root: the leafs in the order of the region table, the others without
  repetition, and the levels say which is which.\<close>

theorem topology_lists:
  assumes "segmented (seg w)" "3 \<le> length (heads w)"
  shows "\<exists>w' ls cs rs. initialize_segment_topology w k = Some w' \<and>
    ring_of w' black_leaf_regions_head ls \<and> ls = filter (black_leaf (seg w)) [0..<region_count (seg w)] \<and>
    ring_of w' black_leaf_container_regions_head cs \<and> distinct cs \<and> set cs = {c. leaf_container (seg w) k c} \<and>
    ring_of w' pst_root_regions_head rs \<and> distinct rs \<and> set rs = {r. symbol_root (seg w) k r} \<and>
    (\<forall>i < region_count (seg w). level (reg (seg w') i) =
       (if symbol_root (seg w) k i then ROOT_LEVEL else if leaf_container (seg w) k i then LEAF_CONTAINER_LEVEL
        else if black_leaf (seg w) i then LEAF_LEVEL
        else if \<exists>l. black_leaf (seg w) l \<and> adjacent_regions (reg (seg w) l) = [i] then DISCARDED_LEVEL else UNKNOWN_LEVEL))"
proof -
  let ?s = "seg w"
  obtain w' ls cs rs where w': "initialize_segment_topology w k = Some w'"
      "marked w (root_levels ?s k {r. symbol_root ?s k r}) w'" "rings w' (three ls cs rs)"
      "ls = filter (black_leaf ?s) [0..<region_count ?s]"
      "set cs = {c. leaf_container ?s k c}" "set rs = {r. symbol_root ?s k r}"
    using topology_ok [OF assms] by blast
  note r = rings_heads [OF w'(3)]
  have lv: "root_levels ?s k {r. symbol_root ?s k r} i =
      (if symbol_root ?s k i then ROOT_LEVEL else if leaf_container ?s k i then LEAF_CONTAINER_LEVEL
        else if black_leaf ?s i then LEAF_LEVEL
        else if \<exists>l. black_leaf ?s l \<and> adjacent_regions (reg ?s l) = [i] then DISCARDED_LEVEL else UNKNOWN_LEVEL)" for i
  proof -
    have "\<not> around ?s {l. black_leaf ?s l} i" if "black_leaf ?s i"
      using around_white [OF assms(1), of i] that by (auto simp: black_leaf_def)
    moreover have "around ?s {l. black_leaf ?s l} i \<longleftrightarrow> (\<exists>l. black_leaf ?s l \<and> adjacent_regions (reg ?s l) = [i])"
      by (auto simp: around_def)
    ultimately show ?thesis
      by (auto simp: root_levels_def container_levels_def leaf_levels_def leaf_container_iff)
  qed
  show ?thesis
    using w'(1,4-6) r ring_ofD(3) [OF r(2)] ring_ofD(3) [OF r(3)] markedD(5) [OF w'(2), unfolded lv]
    by (intro exI [of _ w'] exI [of _ ls] exI [of _ cs] exI [of _ rs]) (simp add: pst_heads)
qed

text \<open>A fiducial with one symbol in the corner of an image of 4 by 4 pixels.\<close>

definition corner :: "byte list" where
  "corner = [0, 255, 0, 255,  255, 255, 0, 255,  0, 0, 0, 255,  255, 255, 255, 255]"

lemma corner_run:
  "map_option (\<lambda>s. (region_count s, map (\<lambda>r. (colour r, adjacent_regions r)) (take 5 (regions s))))
     (step_segmenter (blank_segmenter 4 4 5) corner) =
   Some (5, [(0, [1]), (255, [0, 2]), (0, [1, 3]), (255, [2]), (255, [])])"
  by code_simp

lemma corner_result:
  obtains s where "segmented s" "step_segmenter (blank_segmenter 4 4 5) corner = Some s"
    "{r. symbol_root s 1 r} = {2}"
proof -
  obtain s where s: "step_segmenter (blank_segmenter 4 4 5) corner = Some s" "region_count s = 5"
      "map (\<lambda>r. (colour r, adjacent_regions r)) (take 5 (regions s)) =
         [(0, [1]), (255, [0, 2]), (0, [1, 3]), (255, [2]), (255, [])]"
    using corner_run by auto
  have "binary_image (width (blank_segmenter 4 4 5)) (height (blank_segmenter 4 4 5)) corner"
    by (simp add: corner_def binary_image_def)
  then have seg: "segmented s" unfolding segmented_def using s(1) blank_segmenter_simps(3) by blast
  have five: "i \<in> {0, 1, 2, 3, 4}" if "i < 5" for i :: nat using that by auto
  have l: "5 \<le> length (regions s)" using segmented_fresh(1) [OF seg, of 4] s(2) by simp
  have "(colour (reg s i), adjacent_regions (reg s i)) = [(0, [1]), (255, [0, 2]), (0, [1, 3]), (255, [2]), (255, [])] ! i"
    if "i < 5" for i
    using arg_cong [OF s(3), of "\<lambda>xs. xs ! i"] that l by simp
  from this [of 0] this [of 1] this [of 2] this [of 3] this [of 4]
  have r: "colour (reg s 0) = 0" "colour (reg s 1) = 255" "colour (reg s 2) = 0" "colour (reg s 3) = 255" "colour (reg s 4) = 255"
      "adjacent_regions (reg s 0) = [1]" "adjacent_regions (reg s 1) = [0, 2]" "adjacent_regions (reg s 2) = [1, 3]"
      "adjacent_regions (reg s 3) = [2]" "adjacent_regions (reg s 4) = []" by simp_all
  have leaf: "black_leaf s i \<longleftrightarrow> i = 0" for i
    using r five [of i] by (auto simp: black_leaf_def adjacent_region_count_def s(2))
  have cont: "leaf_container s 1 c \<longleftrightarrow> c = 1" for c
    using r by (auto simp: leaf_container_def leaf adjacent_region_count_def)
  have "symbol_root s 1 i \<longleftrightarrow> i = 2" for i
    using r by (auto simp: symbol_root_def cont leaf adjacent_region_count_def)
  then show ?thesis using that [OF seg s(1)] by simp
qed

lemma topology_lists_witness:
  "\<exists>w w' rs. step_segmenter (blank_segmenter 4 4 5) corner = Some (seg w) \<and>
     initialize_segment_topology w 1 = Some w' \<and> ring_of w' pst_root_regions_head rs \<and> rs = [2]"
proof (rule corner_result)
  fix s assume s: "segmented s" "step_segmenter (blank_segmenter 4 4 5) corner = Some s" "{r. symbol_root s 1 r} = {2}"
  let ?w = "\<lparr>seg = s, heads = replicate 3 blank_region\<rparr>"
  have w: "segmented (seg ?w)" "3 \<le> length (heads ?w)" using s(1) by simp_all
  obtain w' rs where rs: "initialize_segment_topology ?w 1 = Some w'" "ring_of w' pst_root_regions_head rs"
      "distinct rs" "set rs = {r. symbol_root (seg ?w) 1 r}"
    using topology_lists [OF w, of 1] by blast
  have "set rs = {2}" using rs(4) s(3) by simp
  then have "rs = [2]" using rs(3) by (cases rs; cases "tl rs") auto
  moreover have "step_segmenter (blank_segmenter 4 4 5) corner = Some (seg ?w)" using s(2) by simp
  ultimately show ?thesis using rs(1,2) by blast
qed

end
