(* ===== verification/SymbolSequence.thy ===== *)
theory SymbolSequence
  imports Buffers
begin

text \<open>
  \<^verbatim>\<open>fidtrack120.c\<close>, \<open>has_all_symbols_once\<close> and \<open>fiducial120_id_from_symbol_sequence\<close>: a
  fiducial carries a permutation of symbols, and its identifier is the rank of that
  permutation in lexicographic order.
\<close>

subsection \<open>The program\<close>

text \<open>The loop of \<open>has_all_symbols_once\<close>, from index \<open>i\<close> on; \<open>n\<close> indices are left.\<close>

fun symbols_loop :: "int list \<Rightarrow> int \<Rightarrow> bool list \<Rightarrow> int \<Rightarrow> nat \<Rightarrow> bool option" where
  "symbols_loop sequence len symbols_present i 0 = Some True"
| "symbols_loop sequence len symbols_present i (Suc n) = do {
     symbol \<leftarrow> rd sequence i;
     if symbol < 0 \<or> symbol \<ge> len then Some False
     else do {
       p \<leftarrow> rd symbols_present symbol;
       if p then Some False
       else do {
         symbols_present \<leftarrow> wr symbols_present symbol True;
         symbols_loop sequence len symbols_present (i + 1) n
       }
     }
   }"

definition has_all_symbols_once :: "int list \<Rightarrow> int \<Rightarrow> bool option" where
  "has_all_symbols_once sequence len = do {
     c_assert (len < 16);
     symbols_loop sequence len (replicate 16 False) 0 (nat len)
   }"

definition factorial_table :: "int list" where
  "factorial_table = [1, 1, 2, 6, 24, 120, 720, 5040]"

definition decrement_from :: "int \<Rightarrow> int \<Rightarrow> int list \<Rightarrow> int list option" where
  "decrement_from lo len mapping = for_range lo len (\<lambda>j mapping. do { m \<leftarrow> rd mapping j; wr mapping j (m - 1) }) mapping"

definition fiducial120_id_from_symbol_sequence :: "int list \<Rightarrow> int \<Rightarrow> int option" where
  "fiducial120_id_from_symbol_sequence sequence len = do {
     s \<leftarrow> rd sequence 0;
     c_assert (s = 0);
     c_assert (len \<le> 8);
     let sequence = drop 1 sequence;
     let len = len - 1;
     (id, mapping) \<leftarrow> for_range 0 len (\<lambda>i (id, mapping). do {
        s \<leftarrow> rd sequence i;
        m \<leftarrow> rd mapping (s - 1);
        f \<leftarrow> rd factorial_table ((len - 1) - i);
        mapping \<leftarrow> decrement_from ((s - 1) + 1) len mapping;
        Some (id + m * f, mapping) }) (0, [0, 1, 2, 3, 4, 5, 6, 7]);
     Some id
   }"

subsection \<open>Permutations of symbols\<close>

lemma symbols_loop_ok:
  assumes "0 \<le> i" "i + int n = len" "len < 16" "len \<le> ilength sequence" "length present = 16"
    and "\<And>v. 0 \<le> v \<Longrightarrow> v < len \<Longrightarrow> present ! nat v \<longleftrightarrow> v \<in> set (take (nat i) sequence)"
  shows "symbols_loop sequence len present i n =
    Some (distinct (take n (drop (nat i) sequence)) \<and>
      set (take n (drop (nat i) sequence)) \<subseteq> {0..<len} - set (take (nat i) sequence))"
  using assms
proof (induction n arbitrary: i present)
  case (Suc n)
  let ?s = "sequence ! nat i" and ?rest = "take n (drop (nat (i + 1)) sequence)"
  have i: "nat i < length sequence" "i < ilength sequence" using Suc.prems by simp_all
  have i1: "nat (i + 1) = Suc (nat i)" using Suc.prems(1) by simp
  have split: "take (Suc n) (drop (nat i) sequence) = ?s # ?rest"
    using i(1) by (simp add: Cons_nth_drop_Suc [symmetric] i1)
  have tk: "take (nat (i + 1)) sequence = take (nat i) sequence @ [?s]" using i(1) by (simp add: i1 take_Suc_conv_app_nth)
  have s: "rd sequence i = Some ?s" using Suc.prems(1) i(2) by (rule rd_eq)
  show ?case
  proof (cases "?s < 0 \<or> ?s \<ge> len")
    case True
    then show ?thesis using s unfolding split by auto
  next
    case False
    then have r: "rd present ?s = Some (present ! nat ?s)" "wr present ?s True = Some (present[nat ?s := True])"
      using Suc.prems(3,5) by (simp_all add: buf_simps)
    show ?thesis
    proof (cases "present ! nat ?s")
      case True
      then have "?s \<in> set (take (nat i) sequence)" using Suc.prems(6) [of ?s] False by simp
      then show ?thesis using s r True False unfolding split by simp
    next
      case new: False
      have "symbols_loop sequence len (present[nat ?s := True]) (i + 1) n = Some (distinct ?rest \<and>
          set ?rest \<subseteq> {0..<len} - set (take (nat (i + 1)) sequence))"
      proof (rule Suc.IH)
        show "present[nat ?s := True] ! nat v \<longleftrightarrow> v \<in> set (take (nat (i + 1)) sequence)" if "0 \<le> v" "v < len" for v
        proof (cases "v = ?s")
          case True
          then show ?thesis using Suc.prems(3,5) that unfolding tk by simp
        next
          case other: False
          then have "nat v \<noteq> nat ?s" using that False by (simp add: eq_nat_nat_iff)
          then show ?thesis using Suc.prems(6) [OF that] other unfolding tk by simp
        qed
      qed (use Suc.prems in simp_all)
      moreover have "?s \<notin> set (take (nat i) sequence)" using Suc.prems(6) [of ?s] False new by simp
      ultimately show ?thesis using s r new False unfolding split tk by auto
    qed
  qed
qed simp

lemma symbols_once_eq:
  assumes "0 \<le> len" "len < 16" "len \<le> ilength sequence"
  shows "has_all_symbols_once sequence len =
    Some (distinct (take (nat len) sequence) \<and> set (take (nat len) sequence) \<subseteq> {0..<len})"
  using symbols_loop_ok [of 0 "nat len" len sequence "replicate 16 False"] assms
  by (simp add: has_all_symbols_once_def c_assert_def)

text \<open>The rank of a list among the arrangements of its elements, in lexicographic order.\<close>

fun rank :: "int list \<Rightarrow> int" where
  "rank [] = 0"
| "rank (x # xs) = int (length (filter (\<lambda>y. y < x) xs)) * fact (length xs) + rank xs"

lemma rank_bounds: "0 \<le> rank xs \<and> rank xs < fact (length xs)"
proof (induction xs)
  case (Cons x xs)
  have m: "int (length (filter (\<lambda>y. y < x) xs)) * fact (length xs) \<le> int (length xs) * fact (length xs)"
    by (rule mult_right_mono) (simp_all add: length_filter_le)
  have "rank (x # xs) < int (length xs) * fact (length xs) + fact (length xs)"
    unfolding rank.simps using m Cons.IH by linarith
  then show ?case using Cons by (simp add: algebra_simps)
qed simp

lemma rank_inj:
  assumes "distinct xs" "mset xs = mset ys" "rank xs = rank ys"
  shows "xs = ys"
  using assms
proof (induction xs arbitrary: ys)
  case (Cons x xs)
  obtain y ys' where ys: "ys = y # ys'" using Cons.prems(2) by (cases ys) auto
  have len: "length ys' = length xs" using mset_eq_length [OF Cons.prems(2)] ys by simp
  have d: "distinct ys" using Cons.prems(1,2) by (metis mset_eq_imp_distinct_iff)
  let ?a = "int (length (filter (\<lambda>z. z < x) xs))" and ?b = "int (length (filter (\<lambda>z. z < y) ys'))"
  have f: "0 < (fact (length xs) :: int)" by simp
  have e: "?a * fact (length xs) + rank xs = ?b * fact (length xs) + rank ys'" using Cons.prems(3) ys len by simp
  have "?a = (?a * fact (length xs) + rank xs) div fact (length xs)" using rank_bounds [of xs] by simp
  also have "\<dots> = ?b" unfolding e using rank_bounds [of ys'] len by simp
  finally have ab: "?a = ?b" .
  have count: "length (filter (\<lambda>z. z < v) zs) = card {z \<in> set zs. z < v}" if "distinct zs" for v and zs :: "int list"
    using distinct_card [of "filter (\<lambda>z. z < v) zs"] that by simp
  have S: "set (x # xs) = set ys" using mset_eq_setD [OF Cons.prems(2)] .
  have xa: "{z \<in> set xs. z < x} = {z \<in> set ys. z < x}" and ya: "{z \<in> set ys'. z < y} = {z \<in> set ys. z < y}"
    using S ys by auto
  have "x = y"
  proof (rule ccontr)
    assume "x \<noteq> y"
    then consider "x < y" | "y < x" by linarith
    then show False
    proof cases
      case 1
      then have "{z \<in> set ys. z < x} \<subset> {z \<in> set ys. z < y}" using S by auto
      then have "card {z \<in> set ys. z < x} < card {z \<in> set ys. z < y}" by (intro psubset_card_mono) simp_all
      then show False using ab Cons.prems(1) d ys by (simp add: count xa ya)
    next
      case 2
      then have "{z \<in> set ys. z < y} \<subset> {z \<in> set ys. z < x}" using S ys by auto
      then have "card {z \<in> set ys. z < y} < card {z \<in> set ys. z < x}" by (intro psubset_card_mono) simp_all
      then show False using ab Cons.prems(1) d ys by (simp add: count xa ya)
    qed
  qed
  moreover have "rank xs = rank ys'" using e ab by simp
  ultimately show ?case using Cons.IH [of ys'] Cons.prems(1,2) ys by simp
qed simp

subsection \<open>The identifier is the rank\<close>

lemma decrement_from_ok:
  assumes "0 \<le> lo" "len \<le> ilength mapping"
  shows "\<exists>m. decrement_from lo len mapping = Some m \<and> length m = length mapping \<and>
    (\<forall>v < length mapping. m ! v = mapping ! v - (if lo \<le> int v \<and> int v < len then 1 else 0))"
proof (cases "lo \<le> len")
  case True
  let ?P = "\<lambda>j m. lo \<le> j \<and> length m = length mapping \<and>
    (\<forall>v < length mapping. m ! v = mapping ! v - (if lo \<le> int v \<and> int v < j then 1 else 0))"
  have "\<exists>m. decrement_from lo len mapping = Some m \<and> ?P len m"
    unfolding decrement_from_def
  proof (rule for_range_rule [where P = ?P])
    show "\<exists>m'. (do { x \<leftarrow> rd m j; wr m j (x - 1) }) = Some m' \<and> ?P (j + 1) m'"
      if j: "lo \<le> j" "j < len" "?P j m" for j m
    proof -
      have "rd m j = Some (m ! nat j)" "wr m j (m ! nat j - 1) = Some (m[nat j := m ! nat j - 1])"
        using j assms by (simp_all add: buf_simps)
      moreover have "?P (j + 1) (m[nat j := m ! nat j - 1])"
      proof -
        obtain k where "j = int k" using j(1) assms(1) by (metis int_nat_eq order_trans)
        moreover from this have "k < length m" using j assms(2) by simp
        ultimately show ?thesis using j by (auto simp: nth_list_update)
      qed
      ultimately show ?thesis by simp
    qed
  qed (use True in auto)
  then show ?thesis by blast
next
  case False
  then show ?thesis by (auto simp: decrement_from_def intro: exI [of _ mapping])
qed

lemma smaller_symbols:
  assumes "distinct xs" "set xs = {1..int n}" "1 \<le> v" "v \<le> int n + 1"
  shows "int (length (filter (\<lambda>y. y < v) xs)) = v - 1"
proof -
  have "length (filter (\<lambda>y. y < v) xs) = card (set (filter (\<lambda>y. y < v) xs))"
    using assms(1) by (intro distinct_card [symmetric]) simp
  also have "set (filter (\<lambda>y. y < v) xs) = {1..v - 1}" using assms(2,4) by auto
  finally show ?thesis using assms(3) by simp
qed

lemma factorial_table_eq: "0 \<le> k \<Longrightarrow> k < 8 \<Longrightarrow> rd factorial_table k = Some (fact (nat k))"
proof -
  assume k: "0 \<le> k" "k < 8"
  then consider "k = 0" | "k = 1" | "k = 2" | "k = 3" | "k = 4" | "k = 5" | "k = 6" | "k = 7" by linarith
  then show ?thesis
    by cases (simp_all add: factorial_table_def buf_simps fact_numeral)
qed

text \<open>The body of the loop: with \<open>xs\<close> the symbols after the alignment symbol, the step at index
  \<open>i\<close> adds the summand of the rank that belongs to the symbol \<open>xs ! i\<close>.\<close>

definition mapping_ok :: "int list \<Rightarrow> nat \<Rightarrow> int list \<Rightarrow> bool" where
  "mapping_ok xs i mapping \<longleftrightarrow> length mapping = 8 \<and>
    (\<forall>v < length xs. mapping ! v = int v - int (length (filter (\<lambda>y. y < int v + 1) (take i xs))))"

lemma id_loop_ok:
  assumes "distinct xs" "set xs = {1..int (length xs)}" "length xs < 8"
    and seq: "\<And>i. i < length xs \<Longrightarrow> rd sequence (int i) = Some (xs ! i)"
  shows "\<exists>mapping. for_range 0 (ilength xs) (\<lambda>i (id, mapping). do {
        s \<leftarrow> rd sequence i;
        m \<leftarrow> rd mapping (s - 1);
        f \<leftarrow> rd factorial_table ((ilength xs - 1) - i);
        mapping \<leftarrow> decrement_from ((s - 1) + 1) (ilength xs) mapping;
        Some (id + m * f, mapping) }) (0, [0, 1, 2, 3, 4, 5, 6, 7]) = Some (rank xs, mapping)"
    (is "\<exists>mapping. for_range 0 _ ?body _ = _")
proof -
  let ?P = "\<lambda>i (id, mapping). 0 \<le> i \<and> id + rank (drop (nat i) xs) = rank xs \<and> mapping_ok xs (nat i) mapping"
  have "\<exists>r. for_range 0 (ilength xs) ?body (0, [0, 1, 2, 3, 4, 5, 6, 7]) = Some r \<and> ?P (ilength xs) r"
  proof (rule for_range_rule [where P = ?P])
    have "[0, 1, 2, 3, 4, 5, 6, 7] = map int [0..<8]" by (simp add: upt_rec)
    moreover have "mapping_ok xs 0 (map int [0..<8])"
      using assms(3) by (simp add: mapping_ok_def)
    ultimately show "?P 0 (0, [0, 1, 2, 3, 4, 5, 6, 7])" by simp
    show "\<exists>r. ?body i s = Some r \<and> ?P (i + 1) r" if i: "0 \<le> i" "i < ilength xs" "?P i s" for i s
    proof -
      obtain id mapping where s: "s = (id, mapping)" by (cases s)
      let ?k = "nat i" and ?v = "xs ! nat i"
      have k: "?k < length xs" and i1: "nat (i + 1) = Suc ?k" using i by simp_all
      have m: "mapping_ok xs ?k mapping" and r: "id + rank (drop ?k xs) = rank xs" using i(3) s by simp_all
      have dr: "drop ?k xs = ?v # drop (Suc ?k) xs" using k by (simp add: Cons_nth_drop_Suc)
      have tk: "take (Suc ?k) xs = take ?k xs @ [?v]" using k by (simp add: take_Suc_conv_app_nth)
      have "?v \<in> set xs" using k by simp
      then have v: "1 \<le> ?v" "?v \<le> ilength xs" using assms(2) by auto
      have "filter (\<lambda>y. y < ?v) xs = filter (\<lambda>y. y < ?v) (take ?k xs @ ?v # drop (Suc ?k) xs)"
        using dr by (metis append_take_drop_id)
      then have "int (length (filter (\<lambda>y. y < ?v) (take ?k xs))) +
          int (length (filter (\<lambda>y. y < ?v) (drop (Suc ?k) xs))) = ?v - 1"
        using smaller_symbols [OF assms(1,2), of ?v] v by simp
      then have mv: "mapping ! nat (?v - 1) = int (length (filter (\<lambda>y. y < ?v) (drop (Suc ?k) xs)))"
        using m v by (simp add: mapping_ok_def nat_less_iff)
      have "ilength xs \<le> ilength mapping" using m assms(3) by (simp add: mapping_ok_def)
      then obtain mapping' where d: "decrement_from ?v (ilength xs) mapping = Some mapping'"
          "length mapping' = length mapping"
          "\<forall>w < length mapping. mapping' ! w = mapping ! w - (if ?v \<le> int w \<and> int w < ilength xs then 1 else 0)"
        using decrement_from_ok [of ?v "ilength xs" mapping] v by auto
      have "mapping_ok xs (Suc ?k) mapping'"
        using m d(2,3) assms(3) unfolding mapping_ok_def tk by auto
      moreover have "nat (ilength xs - 1 - i) = length (drop (Suc ?k) xs)" using i by simp
      then have "rd factorial_table (ilength xs - 1 - i) = Some (fact (length (drop (Suc ?k) xs)))"
        using factorial_table_eq [of "ilength xs - 1 - i"] i assms(3) by simp
      moreover have "rd mapping (?v - 1) = Some (mapping ! nat (?v - 1))"
        using m v assms(3) by (simp add: mapping_ok_def buf_simps)
      moreover have "rd sequence i = Some ?v" using seq [OF k] i(1) by simp
      ultimately show ?thesis using r i(1) unfolding s dr i1 by (simp add: d(1) mv)
    qed
  qed simp
  then show ?thesis by (force simp: rank.simps)
qed

text \<open>The sequences the function accepts: the alignment symbol 0, then the other symbols below
  \<open>len\<close> in any order.\<close>

definition symbol_sequences :: "nat \<Rightarrow> int list set" where
  "symbol_sequences n = {sequence. length sequence = n \<and> sequence ! 0 = 0 \<and>
     distinct sequence \<and> set sequence = {0..<int n}}"

lemma symbol_sequences_tl:
  assumes "sequence \<in> symbol_sequences n" "0 < n"
  shows "sequence = 0 # tl sequence" "distinct (tl sequence)" "set (tl sequence) = {1..int (length (tl sequence))}"
    "length (tl sequence) = n - 1"
proof -
  obtain xs where xs: "sequence = 0 # xs" "length xs = n - 1"
    using assms by (cases sequence) (auto simp: symbol_sequences_def)
  then have d: "distinct xs" "0 \<notin> set xs" "insert 0 (set xs) = {0..<int n}"
    using assms(1) by (simp_all add: symbol_sequences_def)
  have "set xs = {0..<int n} - {0}" using d by blast
  also have "\<dots> = {1..int (length xs)}" using xs(2) assms(2) by auto
  finally show "set (tl sequence) = {1..int (length (tl sequence))}" using xs by simp
  show "sequence = 0 # tl sequence" "distinct (tl sequence)" "length (tl sequence) = n - 1"
    using xs d by simp_all
qed

lemma id_is_rank:
  assumes "sequence \<in> symbol_sequences n" "0 < n" "n \<le> 8"
  shows "fiducial120_id_from_symbol_sequence sequence (int n) = Some (rank (tl sequence))"
proof -
  note t = symbol_sequences_tl [OF assms(1,2)]
  have n: "ilength (tl sequence) = int n - 1" using t(4) assms(2) by simp
  have "rd (drop 1 sequence) (int i) = Some (tl sequence ! i)" if "i < length (tl sequence)" for i
    using that by (simp add: buf_simps drop_Suc)
  moreover have "length (tl sequence) < 8" using t(4) assms(2,3) by simp
  ultimately obtain mapping where "for_range 0 (int n - 1) (\<lambda>i (id, mapping). do {
        s \<leftarrow> rd (drop 1 sequence) i;
        m \<leftarrow> rd mapping (s - 1);
        f \<leftarrow> rd factorial_table ((int n - 1 - 1) - i);
        mapping \<leftarrow> decrement_from ((s - 1) + 1) (int n - 1) mapping;
        Some (id + m * f, mapping) }) (0, [0, 1, 2, 3, 4, 5, 6, 7]) = Some (rank (tl sequence), mapping)"
    using id_loop_ok [OF t(2,3), of "drop 1 sequence"] unfolding n by blast
  moreover have "rd sequence 0 = Some 0" using assms(1,2) by (simp add: rd_eq symbol_sequences_def)
  ultimately show ?thesis using assms(3)
    unfolding fiducial120_id_from_symbol_sequence_def Let_def by (simp add: c_assert_def)
qed

lemma nat_fact: "nat (fact m) = fact m"
  by (metis nat_int of_nat_fact)

lemma symbol_sequences_card: "0 < n \<Longrightarrow> finite (symbol_sequences n) \<and> card (symbol_sequences n) = fact (n - 1)"
proof -
  assume n: "0 < n"
  let ?T = "{xs. length xs = n - 1 \<and> distinct xs \<and> set xs \<subseteq> {1..int n - 1}}"
  have "symbol_sequences n = (#) 0 ` ?T"
  proof (intro equalityI subsetI)
    fix s assume s: "s \<in> symbol_sequences n"
    note t = symbol_sequences_tl [OF s n]
    have "tl s \<in> ?T" using t(2-4) n by auto
    then show "s \<in> (#) 0 ` ?T" using t(1) by blast
  next
    fix s assume "s \<in> (#) 0 ` ?T"
    then obtain xs where xs: "s = 0 # xs" "length xs = n - 1" "distinct xs" "set xs \<subseteq> {1..int n - 1}" by auto
    have "card (set xs) = card {1..int n - 1}" using distinct_card [OF xs(3)] xs(2) n by simp
    then have "set xs = {1..int n - 1}" using xs(4) by (intro card_subset_eq) simp_all
    then show "s \<in> symbol_sequences n" using xs n by (auto simp: symbol_sequences_def)
  qed
  moreover have "finite ?T"
    by (rule finite_subset [OF _ finite_lists_length_eq [of "{1..int n - 1}" "n - 1"]]) auto
  moreover have "card ?T = fact (n - 1)"
    using card_lists_distinct_length_eq [of "{1..int n - 1}" "n - 1"] n by (simp add: fact_prod nat_diff_distrib)
  ultimately show ?thesis by (simp add: card_image)
qed

subsection \<open>Properties\<close>

text \<open>\<open>has_all_symbols_once\<close> answers, without reading or writing outside its arrays, whether the
  first \<open>len\<close> symbols are a permutation of 0 up to \<open>len - 1\<close>.\<close>

theorem symbols_once_iff_permutation:
  assumes "0 \<le> len" "len < 16" "len \<le> ilength sequence"
  shows "has_all_symbols_once sequence len =
    Some (mset (take (nat len) sequence) = mset (map int [0..<nat len]))"
proof -
  let ?xs = "take (nat len) sequence"
  have "has_all_symbols_once sequence len = Some (distinct ?xs \<and> set ?xs \<subseteq> {0..<len})"
    by (rule symbols_once_eq [OF assms])
  moreover have "distinct ?xs \<and> set ?xs \<subseteq> {0..<len} \<longleftrightarrow> mset ?xs = mset (map int [0..<nat len])" (is "?l \<longleftrightarrow> ?r")
  proof
    have S: "set (map int [0..<nat len]) = {0..<len}" using assms(1) by (simp add: image_int_atLeastLessThan)
    have D: "distinct (map int [0..<nat len])" by (simp add: distinct_map)
    show ?r if l: ?l
    proof -
      have "card (set ?xs) = card {0..<len}" using distinct_card [of ?xs] l assms by simp
      then have "set ?xs = {0..<len}" using l by (intro card_subset_eq) simp_all
      then show ?r using set_eq_iff_mset_eq_distinct [of ?xs] D S l by blast
    qed
    show ?l if ?r
      using that S D mset_eq_setD [of ?xs] mset_eq_imp_distinct_iff [of ?xs] by blast
  qed
  ultimately show ?thesis by simp
qed

theorem symbols_once_witness:
  "has_all_symbols_once [0, 2, 1, 3] 4 = Some (mset (take (nat 4) [0, 2, 1, 3]) = mset (map int [0..<nat 4]))"
  using symbols_once_iff_permutation [of 4 "[0, 2, 1, 3]"] by simp

text \<open>C34: the identifiers number the symbol sequences: on the sequences of \<open>n \<le> 8\<close> symbols that begin
  with 0, \<open>fiducial120_id_from_symbol_sequence\<close> returns, and it is a bijection onto the
  numbers below the factorial of \<open>n - 1\<close>. Two fiducials with the same identifier carry the same symbols, and
  with six symbols all of the 120 identifiers occur.\<close>

theorem identifiers_number_sequences:
  assumes "0 < n" "n \<le> 8"
  shows "bij_betw (\<lambda>sequence. fiducial120_id_from_symbol_sequence sequence (int n))
    (symbol_sequences n) (Some ` {0..<fact (n - 1)})"
proof -
  let ?f = "\<lambda>sequence. fiducial120_id_from_symbol_sequence sequence (int n)"
  have f: "?f s = Some (rank (tl s))" if "s \<in> symbol_sequences n" for s using id_is_rank [OF that assms] .
  have inj: "inj_on ?f (symbol_sequences n)"
  proof (rule inj_onI)
    fix s t assume st: "s \<in> symbol_sequences n" "t \<in> symbol_sequences n" "?f s = ?f t"
    note s = symbol_sequences_tl [OF st(1) assms(1)] and t = symbol_sequences_tl [OF st(2) assms(1)]
    have "mset (tl s) = mset (tl t)" using s t set_eq_iff_mset_eq_distinct by metis
    then have "tl s = tl t" using rank_inj [OF s(2)] f st by simp
    then show "s = t" using s(1) t(1) by simp
  qed
  have "?f ` symbol_sequences n \<subseteq> Some ` {0..<fact (n - 1)}"
    using f rank_bounds symbol_sequences_tl(4) [OF _ assms(1)] by fastforce
  moreover have "card (?f ` symbol_sequences n) = card (Some ` {0..<fact (n - 1) :: int})"
    using symbol_sequences_card [OF assms(1)] by (simp add: card_image [OF inj] card_image nat_fact)
  ultimately have "?f ` symbol_sequences n = Some ` {0..<fact (n - 1)}" by (intro card_subset_eq) simp_all
  then show ?thesis using inj by (simp add: bij_betw_def)
qed

theorem identifiers_witness:
  "bij_betw (\<lambda>sequence. fiducial120_id_from_symbol_sequence sequence (int 6)) (symbol_sequences 6) (Some ` {0..<fact (6 - 1)})"
  using identifiers_number_sequences [of 6] by simp

text \<open>the header promises lengths of 9 or less; the function asserts 8 or less, and a sequence of
  nine symbols fails the assertion.\<close>

theorem nine_symbols_fail:
  "fiducial120_id_from_symbol_sequence (0 # xs) 9 = None"
  by (simp add: fiducial120_id_from_symbol_sequence_def c_assert_def buf_simps)

end
