(* ===== verification/Fidtrack120.thy ===== *)
theory Fidtrack120
  imports FidtrackStats TopologySearch SymbolSequence IeeeBounds
begin

text \<open>
  \<^verbatim>\<open>fidtrack120.c\<close>: the six symbol fiducials of the 120 marker set. The six leaf containers of
  a root lie on two lines of three; the symbols are read along the lines, and position and
  angle are averages over the containers. The arithmetic of \<open>float\<close> is binary32, that of
  \<open>double\<close> binary64.
\<close>

subsection \<open>Geometry\<close>

abbreviation "sadd \<equiv> fadd binary32"
abbreviation "ssub \<equiv> fsub binary32"
abbreviation "sdiv \<equiv> fdiv binary32"

record RegionPoint =
  rp_region :: nat
  rp_x :: ieee
  rp_y :: ieee

definition squared_distance :: "RegionPoint \<Rightarrow> RegionPoint \<Rightarrow> ieee" where
  "squared_distance a b = (
     let x = ssub (rp_x a) (rp_x b);
         y = ssub (rp_y a) (rp_y b)
     in sadd (smul x x) (smul y y))"

definition calculate_angle_120 :: "(ieee \<Rightarrow> ieee) \<Rightarrow> ieee \<Rightarrow> ieee \<Rightarrow> ieee" where
  "calculate_angle_120 atan dx dy = (
     let result = (if fless (fabs dx) (dconst (1 / 1000000)) then dmul M_PI (dconst (1 / 2)) else fabs (atan (ddiv dy dx)));
         result = (if fless dx zero then dsub M_PI result else result);
         result = (if fless dy zero then fneg result else result)
     in if fless result zero then dadd result (dmul (dconst 2) M_PI) else result)"

definition intersects :: "RegionPoint \<Rightarrow> RegionPoint \<Rightarrow> RegionPoint \<Rightarrow> RegionPoint \<Rightarrow> bool" where
  "intersects A B C D = (
     let ABx = ssub (rp_x B) (rp_x A);
         ABy = ssub (rp_y B) (rp_y A);
         CDx = ssub (rp_x D) (rp_x C);
         CDy = ssub (rp_y D) (rp_y C);
         a = ssub (smul CDx ABy) (smul CDy ABx)
     in if feq a zero \<or> feq a (fneg zero) then False
        else let b = sadd (smul (ssub (rp_y C) (rp_y A)) ABx) (smul (sadd (fneg (rp_x C)) (rp_x A)) ABy);
                 c = sdiv b a
             in fleq zero c \<and> fleq c (dconst 1))"

text \<open>
  The innermost step of the search for the flattest triple: the indices of the best triple so
  far are \<open>None\<close> as long as the three result pointers have not been assigned.
\<close>

type_synonym triple = "nat \<times> nat \<times> nat"

definition try_triple :: "RegionPoint list \<Rightarrow> nat \<Rightarrow> nat \<Rightarrow> nat \<Rightarrow> ieee \<times> triple option \<Rightarrow> ieee \<times> triple option" where
  "try_triple pts i j k = (\<lambda>(best_distance, line).
     let n = sdiv (sadd (squared_distance (pts ! i) (pts ! j)) (squared_distance (pts ! j) (pts ! k)))
                  (squared_distance (pts ! i) (pts ! k))
     in if fless n best_distance then (n, Some (i, j, k)) else (best_distance, line))"

definition find_straightest_line_of_3 :: "RegionPoint list \<Rightarrow> triple option" where
  "find_straightest_line_of_3 pts = snd (
     fold (\<lambda>i s.
       fold (\<lambda>j s. if j \<noteq> i then
         fold (\<lambda>k s. if k \<noteq> i \<and> k \<noteq> j then try_triple pts i j k s else s) [0..<length pts] s
       else s) [0..<length pts] s) [0..<length pts] (sint32 2147483647, None))"

subsection \<open>The points of a fiducial\<close>

text \<open>The array is the list of its entries assigned so far; there is room for \<open>max_count\<close>.\<close>

definition region_point :: "nat \<Rightarrow> Region \<Rightarrow> RegionPoint" where
  "region_point i r = \<lparr>rp_region = i,
     rp_x = sdiv (sint32 (left r + right r)) (of_value binary32 False 2),
     rp_y = sdiv (sint32 (rtop r + bottom r)) (of_value binary32 False 2)\<rparr>"

fun extract_loop :: "World \<Rightarrow> nat \<Rightarrow> int \<Rightarrow> nat list \<Rightarrow> RegionPoint list \<Rightarrow> RegionPoint list option" where
  "extract_loop w max_count lev [] dest = Some dest"
| "extract_loop w max_count lev (i # rest) dest = do {
     r \<leftarrow> region_at w i;
     if level r = lev then do {
       c_assert (length dest < max_count);
       extract_loop w max_count lev rest (dest @ [region_point i r])
     } else extract_loop w max_count lev rest dest
   }"

definition extract_region_points :: "World \<Rightarrow> nat \<Rightarrow> nat \<Rightarrow> int \<Rightarrow> RegionPoint list option" where
  "extract_region_points w max_count container lev = do {
     x \<leftarrow> region_at w container;
     extract_loop w max_count lev (adjacent_regions x) []
   }"

definition SYMBOL_1_ADJACENT_REGION_COUNT :: nat where "SYMBOL_1_ADJACENT_REGION_COUNT = 2"

definition point_region_count :: "World \<Rightarrow> RegionPoint \<Rightarrow> nat option" where
  "point_region_count w p = map_option adjacent_region_count (region_at w (rp_region p))"

type_synonym line = "RegionPoint \<times> RegionPoint \<times> RegionPoint"

text \<open>The first line begins with the symbol 1, if one of the four ends has that symbol.\<close>

definition order_lines :: "World \<Rightarrow> line \<Rightarrow> line \<Rightarrow> (line \<times> line) option" where
  "order_lines w = (\<lambda>(start1, middle1, end1) (start2, middle2, end2). do {
     c \<leftarrow> point_region_count w start1;
     if c = SYMBOL_1_ADJACENT_REGION_COUNT then Some ((start1, middle1, end1), (start2, middle2, end2))
     else do {
       c \<leftarrow> point_region_count w end1;
       if c = SYMBOL_1_ADJACENT_REGION_COUNT then Some ((end1, middle1, start1), (start2, middle2, end2))
       else do {
         let (start1, start2) = (start2, start1);
         let (middle1, middle2) = (middle2, middle1);
         let (end1, end2) = (end2, end1);
         c \<leftarrow> point_region_count w start1;
         if c = SYMBOL_1_ADJACENT_REGION_COUNT then Some ((start1, middle1, end1), (start2, middle2, end2))
         else do {
           c \<leftarrow> point_region_count w end1;
           if c = SYMBOL_1_ADJACENT_REGION_COUNT then Some ((end1, middle1, start1), (start2, middle2, end2))
           else Some ((start1, middle1, end1), (start2, middle2, end2))
         }
       }
     }
   })"

definition turn_line :: "line \<Rightarrow> line \<Rightarrow> line" where
  "turn_line = (\<lambda>(start1, middle1, end1) (start2, middle2, end2).
     if intersects start1 end2 start2 end1 then (end2, middle2, start2) else (start2, middle2, end2))"

subsection \<open>Results\<close>

record Fiducial120 =
  f120_id :: int
  symbol_sequence :: "int list"
  sequence_length :: int
  f120_x :: ieee
  f120_y :: ieee
  f120_angle :: ieee

definition INVALID_FIDUCIAL120_ID :: int where "INVALID_FIDUCIAL120_ID = - 1"

text \<open>The mean of a coordinate over the two lines.\<close>

definition mean_of_6 :: "(RegionPoint \<Rightarrow> ieee) \<Rightarrow> line \<Rightarrow> line \<Rightarrow> ieee" where
  "mean_of_6 z = (\<lambda>(start1, middle1, end1) (start2, middle2, end2).
     sdiv (sadd (sadd (sadd (z start1) (z middle1)) (z end1)) (sadd (sadd (z start2) (z middle2)) (z end2)))
       (of_value binary32 False 6))"

text \<open>The nine vectors along and across the lines, added up in \<open>double\<close>.\<close>

definition line_vectors :: "line \<Rightarrow> line \<Rightarrow> (ieee \<times> ieee) list" where
  "line_vectors = (\<lambda>(start1, middle1, end1) (start2, middle2, end2).
     [(ssub (rp_x end1) (rp_x start1), fneg (ssub (rp_y end1) (rp_y start1))),
      (ssub (rp_x middle1) (rp_x start1), fneg (ssub (rp_y middle1) (rp_y start1))),
      (ssub (rp_x end1) (rp_x middle1), fneg (ssub (rp_y end1) (rp_y middle1))),
      (ssub (rp_x start2) (rp_x end2), fneg (ssub (rp_y start2) (rp_y end2))),
      (ssub (rp_x middle2) (rp_x end2), fneg (ssub (rp_y middle2) (rp_y end2))),
      (ssub (rp_x start2) (rp_x middle2), fneg (ssub (rp_y start2) (rp_y middle2))),
      (ssub (rp_y start1) (rp_y end2), ssub (rp_x start1) (rp_x end2)),
      (ssub (rp_y middle1) (rp_y middle2), ssub (rp_x middle1) (rp_x middle2)),
      (ssub (rp_y end1) (rp_y start2), ssub (rp_x end1) (rp_x start2))])"

definition lines_angle :: "(ieee \<Rightarrow> ieee) \<Rightarrow> line \<Rightarrow> line \<Rightarrow> ieee" where
  "lines_angle atan l1 l2 = (case line_vectors l1 l2 of [] \<Rightarrow> zero
   | v # vs \<Rightarrow>
     let (dx, dy) = fold (\<lambda>(x, y) (dx, dy). (dadd dx x, dadd dy y)) vs v;
         dx = ddiv dx (dconst 9);
         dy = ddiv dy (dconst 9)
     in to_float (calculate_angle_120 atan dx dy))"

fun symbols_of :: "World \<Rightarrow> RegionPoint list \<Rightarrow> int list option" where
  "symbols_of w [] = Some []"
| "symbols_of w (p # ps) = do {
     c \<leftarrow> point_region_count w p;
     xs \<leftarrow> symbols_of w ps;
     Some ((int c - 2) # xs)
   }"

definition line_points :: "line \<Rightarrow> RegionPoint list" where
  "line_points = (\<lambda>(a, b, c). [a, b, c])"

definition line_at :: "RegionPoint list \<Rightarrow> triple \<Rightarrow> line" where
  "line_at pts = (\<lambda>(i, j, k). (pts ! i, pts ! j, pts ! k))"

definition other_points :: "RegionPoint list \<Rightarrow> triple \<Rightarrow> RegionPoint list" where
  "other_points pts = (\<lambda>(i, j, k). map (nth pts) (filter (\<lambda>n. n \<noteq> i \<and> n \<noteq> j \<and> n \<noteq> k) [0..<length pts]))"

definition compute_location_angle_and_id_for_6_symbol_fiducial ::
  "(ieee \<Rightarrow> ieee) \<Rightarrow> World \<Rightarrow> nat \<Rightarrow> Fiducial120 option" where
  "compute_location_angle_and_id_for_6_symbol_fiducial atan w r = do {
     x \<leftarrow> region_at w r;
     c_assert (adjacent_region_count x = 7);
     points \<leftarrow> extract_region_points w 6 r LEAF_CONTAINER_LEVEL;
     c_assert (length points = 6);
     t1 \<leftarrow> find_straightest_line_of_3 points;
     let points2 = other_points points t1;
     c_assert (length points2 = 3);
     t2 \<leftarrow> find_straightest_line_of_3 points2;
     (line1, line2) \<leftarrow> order_lines w (line_at points t1) (line_at points2 t2);
     let line2 = turn_line line1 line2;
     symbols \<leftarrow> symbols_of w (line_points line1 @ line_points line2);
     ok \<leftarrow> (if symbols ! 0 = 0 then has_all_symbols_once symbols 6 else Some False);
     id \<leftarrow> (if ok then fiducial120_id_from_symbol_sequence symbols 6 else Some INVALID_FIDUCIAL120_ID);
     Some \<lparr>f120_id = id, symbol_sequence = symbols, sequence_length = 6,
       f120_x = mean_of_6 rp_x line1 line2, f120_y = mean_of_6 rp_y line1 line2,
       f120_angle = lines_angle atan line1 line2\<rparr>
   }"

text \<open>The loop over the roots; the state is the array of results and the index \<open>i\<close>.\<close>

type_synonym state120 = "World \<times> Fiducial120 list \<times> int"

definition fiducial120_step :: "(ieee \<Rightarrow> ieee) \<Rightarrow> int \<Rightarrow> rptr \<Rightarrow> state120 \<Rightarrow> (state120 \<times> bool) option" where
  "fiducial120_step atan max_count p = (\<lambda>(w, fiducials, i). case p of
     Reg r \<Rightarrow> do {
       f \<leftarrow> compute_location_angle_and_id_for_6_symbol_fiducial atan w r;
       fiducials \<leftarrow> wr fiducials i f;
       Some ((w, fiducials, i + 1), i + 1 \<ge> max_count)
     }
   | _ \<Rightarrow> None)"

definition find_fiducials120 ::
  "(ieee \<Rightarrow> ieee) \<Rightarrow> Fiducial120 list \<Rightarrow> int \<Rightarrow> World \<Rightarrow> (int \<times> Fiducial120 list \<times> World) option" where
  "find_fiducials120 atan fiducials max_count w = do {
     w \<leftarrow> initialize_segment_topology w 6;
     h \<leftarrow> deref w pst_root_regions_head;
     (w, fiducials, i) \<leftarrow> ring_loop fst pst_root_regions_head (fiducial120_step atan max_count) (nxt h) (w, fiducials, 0);
     Some (i, fiducials, w)
   }"

subsection \<open>The search for a line\<close>

text \<open>A point whose coordinates are halves of \<open>m\<close> and \<open>n\<close>.\<close>

definition placed :: "RegionPoint \<Rightarrow> int \<times> int \<Rightarrow> bool" where
  "placed p = (\<lambda>(m, n). half_value (rp_x p) m \<and> half_value (rp_y p) n \<and> \<bar>m\<bar> \<le> 65536 \<and> \<bar>n\<bar> \<le> 65536)"

definition dist4 :: "int \<times> int \<Rightarrow> int \<times> int \<Rightarrow> int" where
  "dist4 = (\<lambda>(m, n) (m', n'). (m - m') * (m - m') + (n - n') * (n - n'))"

lemma dist4_facts: "0 \<le> dist4 a b" "dist4 a b = 0 \<longleftrightarrow> a = b" "dist4 a b = dist4 b a"
proof -
  obtain m n m' n' where ab: "a = (m, n)" "b = (m', n')" by (cases a; cases b) auto
  show "0 \<le> dist4 a b" by (simp add: ab dist4_def)
  show "dist4 a b = 0 \<longleftrightarrow> a = b" by (simp add: ab dist4_def sum_squares_eq_zero_iff)
  show "dist4 a b = dist4 b a" by (simp add: ab dist4_def algebra_simps)
qed

lemma squared_distance_roughly:
  assumes "placed p a" "placed q b"
  shows "roughly (squared_distance p q) (of_int (dist4 a b) / 4) 4" "dist4 a b \<le> 2 ^ 36"
proof -
  obtain m n m' n' where a: "a = (m, n)" and b: "b = (m', n')" by (cases a; cases b) auto
  have mn: "\<bar>m - m'\<bar> \<le> 2 ^ 17" "\<bar>n - n'\<bar> \<le> 2 ^ 17" using assms by (auto simp: a b placed_def)
  have hx: "half_value (ssub (rp_x p) (rp_x q)) (m - m')" and hy: "half_value (ssub (rp_y p) (rp_y q)) (n - n')"
    using assms mn by (auto simp: a b placed_def intro!: half_value_sub)
  have sq: "z * z \<le> 2 ^ 34" "0 \<le> z * z" if "\<bar>z\<bar> \<le> 2 ^ 17" for z :: int
  proof -
    have "\<bar>z\<bar> * \<bar>z\<bar> \<le> 2 ^ 17 * 2 ^ 17" using that by (intro mult_mono) simp_all
    then show "z * z \<le> 2 ^ 34" "0 \<le> z * z" by simp_all
  qed
  have small: "of_int (z * z) / 4 = (0 :: rat) \<or> 1 / 2 ^ 20 \<le> (of_int (z * z) / 4 :: rat)" "of_int (z * z) / 4 \<le> (2 ^ 60 :: rat)"
    if "\<bar>z\<bar> \<le> 2 ^ 17" for z
  proof -
    have "(of_int (z * z) :: rat) \<le> of_int (2 ^ 34)" using sq(1) [OF that] by (simp only: of_int_le_iff)
    then show "of_int (z * z) / 4 \<le> (2 ^ 60 :: rat)" by simp
    show "of_int (z * z) / 4 = (0 :: rat) \<or> 1 / 2 ^ 20 \<le> (of_int (z * z) / 4 :: rat)"
    proof (cases "z * z = 0")
      case False
      then have "1 \<le> z * z" using sq(2) [OF that] by linarith
      then have "(1 :: rat) \<le> of_int (z * z)" by (simp only: of_int_1_le_iff)
      then show ?thesis by simp
    qed simp
  qed
  have "roughly (smul (ssub (rp_x p) (rp_x q)) (ssub (rp_x p) (rp_x q))) (of_int ((m - m') * (m - m')) / 4) 2"
    and "roughly (smul (ssub (rp_y p) (rp_y q)) (ssub (rp_y p) (rp_y q))) (of_int ((n - n') * (n - n')) / 4) 2"
    by (rule square_roughly [OF hx], use mn(1) in simp) (rule square_roughly [OF hy], use mn(2) in simp)
  then have "roughly (squared_distance p q) (of_int ((m - m') * (m - m')) / 4 + of_int ((n - n') * (n - n')) / 4) (2 * 2)"
    unfolding squared_distance_def Let_def by (rule add_roughly) (use small [OF mn(1)] small [OF mn(2)] in simp_all)
  then show "roughly (squared_distance p q) (of_int (dist4 a b) / 4) 4" by (simp add: a b dist4_def add_divide_distrib)
  show "dist4 a b \<le> 2 ^ 36" using sq(1) [OF mn(1)] sq(1) [OF mn(2)] by (simp add: a b dist4_def)
qed

text \<open>The triple around the two points furthest from each other beats the initial value.\<close>

lemma far_triple:
  assumes p: "placed p a" "placed q b" "placed r c" and ne: "a \<noteq> c"
    and far: "dist4 a b \<le> dist4 a c" "dist4 b c \<le> dist4 a c"
  shows "fless (sdiv (sadd (squared_distance p q) (squared_distance q r)) (squared_distance p r)) (sint32 2147483647)"
proof -
  let ?D = "of_int (dist4 a c) / 4 :: rat"
  note R = squared_distance_roughly [OF p(1,2)] squared_distance_roughly [OF p(2,3)] squared_distance_roughly [OF p(1,3)]
  have "1 \<le> dist4 a c" using dist4_facts(1,2) [of a c] ne by linarith
  then have D1: "1 / 4 \<le> ?D" by simp
  have quarter: "of_int z / 4 = (0 :: rat) \<or> 1 / 2 ^ 20 \<le> (of_int z / 4 :: rat)" if "0 \<le> z" for z
  proof (cases "z = 0")
    case False
    then have "(1 :: rat) \<le> of_int z" using that by (simp only: of_int_1_le_iff)
    then show ?thesis by simp
  qed simp
  have top: "of_int z / 4 \<le> (2 ^ 60 :: rat)" if "z \<le> 2 ^ 36" for z
  proof -
    have "(of_int z :: rat) \<le> of_int (2 ^ 36)" using that by (simp only: of_int_le_iff)
    then show ?thesis by simp
  qed
  have s: "roughly (sadd (squared_distance p q) (squared_distance q r)) (of_int (dist4 a b) / 4 + of_int (dist4 b c) / 4) (2 * 4)"
    by (rule add_roughly [OF R(1,3)]) (use quarter top R(2,4) dist4_facts(1) in simp_all)
  obtain u where u: "sadd (squared_distance p q) (squared_distance q r) = Num False u"
      "(of_int (dist4 a b) / 4 + of_int (dist4 b c) / 4) / (2 * 4) \<le> u" "u \<le> 2 * 4 * (of_int (dist4 a b) / 4 + of_int (dist4 b c) / 4)"
    using s by (rule roughly_cases)
  obtain v where v: "squared_distance p r = Num False v" "?D / 4 \<le> v" "v \<le> 4 * ?D"
    using R(5) by (rule roughly_cases)
  have v0: "1 / 16 \<le> v" using v(2) D1 by linarith
  have nn: "(0 :: rat) \<le> of_int (dist4 a b)" "(0 :: rat) \<le> of_int (dist4 b c)"
    using dist4_facts(1) by simp_all
  have le: "(of_int (dist4 a b) :: rat) \<le> of_int (dist4 a c)" "(of_int (dist4 b c) :: rat) \<le> of_int (dist4 a c)"
    using far by (simp_all only: of_int_le_iff)
  have u0: "0 \<le> u" by (rule order_trans [OF _ u(2)]) (use nn in simp)
  have "u \<le> 2 * of_int (dist4 a b) + 2 * of_int (dist4 b c)" "of_int (dist4 a c) \<le> 16 * v" using u(3) v(2) by simp_all
  then have "u \<le> 64 * v" using le by linarith
  then have q: "u / v \<le> 64" using v0 by (simp add: pos_divide_le_eq)
  have "fless (ieee_round binary32 False (u / v)) (sint32 2147483647)"
  proof -
    have big: "sint32 2147483647 = Num False 2147483648" by code_simp
    show ?thesis
    proof (cases "1 / 2 ^ 100 \<le> u / v")
      case True
      then obtain z where "ieee_round binary32 False (u / v) = Num False z" "z \<le> 2 * (u / v)"
        using float_round_factor [of "u / v" False] q by auto
      then show ?thesis using q unfolding big by simp
    next
      case False
      have "u = 0"
      proof (rule ccontr)
        assume "u \<noteq> 0"
        then have "dist4 a b + dist4 b c \<noteq> 0" using u0 u(3) dist4_facts(1) [of a b] dist4_facts(1) [of b c] by auto
        then have "1 \<le> dist4 a b + dist4 b c" using dist4_facts(1) [of a b] dist4_facts(1) [of b c] by linarith
        then have "(1 :: rat) \<le> of_int (dist4 a b + dist4 b c)" by (simp only: of_int_1_le_iff)
        then have "1 / 32 \<le> u" using u(2) by simp
        moreover have "v \<le> 2 ^ 62" using v(3) top [OF R(6)] by simp
        then have "1 / 2 ^ 100 * v \<le> 1 / 2 ^ 100 * 2 ^ 62" by (rule mult_left_mono) simp
        ultimately have "1 / 2 ^ 100 * v \<le> u" by simp
        then show False using False v0 by (simp add: pos_le_divide_eq)
      qed
      then show ?thesis unfolding big by simp
    qed
  qed
  then show ?thesis using v0 by (simp add: u(1) v(1))
qed

text \<open>A fold that keeps \<open>P\<close>, and for one of its elements establishes \<open>Q\<close>, which is kept.\<close>

lemma fold_reach:
  assumes "\<And>x s. x \<in> set xs \<Longrightarrow> P s \<Longrightarrow> P (f x s)" "\<And>x s. x \<in> set xs \<Longrightarrow> P s \<Longrightarrow> Q s \<Longrightarrow> Q (f x s)"
    and "P s"
  shows "P (fold f xs s) \<and> (Q s \<longrightarrow> Q (fold f xs s)) \<and> ((\<exists>x \<in> set xs. \<forall>s. P s \<longrightarrow> Q (f x s)) \<longrightarrow> Q (fold f xs s))"
  using assms
proof (induction xs arbitrary: s)
  case (Cons x xs)
  have "P (f x s)" using Cons.prems by simp
  from Cons.IH [OF _ _ this] Cons.prems show ?case by auto
qed simp

definition line_state :: "RegionPoint list \<Rightarrow> ieee \<times> triple option \<Rightarrow> bool" where
  "line_state pts s \<longleftrightarrow> (case snd s of None \<Rightarrow> fst s = sint32 2147483647
     | Some (i, j, k) \<Rightarrow> i < length pts \<and> j < length pts \<and> k < length pts \<and> i \<noteq> j \<and> j \<noteq> k \<and> i \<noteq> k)"

definition assigned :: "ieee \<times> triple option \<Rightarrow> bool" where
  "assigned s \<longleftrightarrow> snd s \<noteq> None"

lemma try_triple_state:
  assumes "line_state pts s" "i < length pts" "j < length pts" "k < length pts" "i \<noteq> j" "j \<noteq> k" "i \<noteq> k"
  shows "line_state pts (try_triple pts i j k s)" "assigned s \<Longrightarrow> assigned (try_triple pts i j k s)"
    "fless (sdiv (sadd (squared_distance (pts ! i) (pts ! j)) (squared_distance (pts ! j) (pts ! k)))
       (squared_distance (pts ! i) (pts ! k))) (sint32 2147483647) \<Longrightarrow> assigned (try_triple pts i j k s)"
proof -
  obtain best line where s: "s = (best, line)" by (cases s)
  let ?n = "sdiv (sadd (squared_distance (pts ! i) (pts ! j)) (squared_distance (pts ! j) (pts ! k))) (squared_distance (pts ! i) (pts ! k))"
  have t: "try_triple pts i j k s = (if fless ?n best then (?n, Some (i, j, k)) else s)"
    by (simp only: try_triple_def Let_def s prod.case)
  have new: "line_state pts (?n, Some (i, j, k))" using assms(2-7) by (simp add: line_state_def)
  show "line_state pts (try_triple pts i j k s)" unfolding t using assms(1) new by (cases "fless ?n best") (simp_all only: if_True if_False)
  show "assigned s \<Longrightarrow> assigned (try_triple pts i j k s)" unfolding t by (simp add: assigned_def)
  show "assigned (try_triple pts i j k s)" if "fless ?n (sint32 2147483647)"
  proof (cases line)
    case None
    then have "best = sint32 2147483647" using assms(1) s by (simp only: line_state_def prod.sel option.case)
    then show ?thesis unfolding t using that by (simp only: if_True) (simp add: assigned_def)
  next
    case (Some l)
    then show ?thesis unfolding t by (cases l) (simp add: assigned_def s)
  qed
qed

lemma straightest_line_ok:
  assumes "\<And>i. i < length pts \<Longrightarrow> placed (pts ! i) (c i)"
    and "3 \<le> length pts" "a < length pts" "b < length pts" "c a \<noteq> c b"
  shows "\<exists>i j k. find_straightest_line_of_3 pts = Some (i, j, k) \<and>
    i < length pts \<and> j < length pts \<and> k < length pts \<and> i \<noteq> j \<and> j \<noteq> k \<and> i \<noteq> k"
proof -
  let ?n = "length pts" and ?pairs = "{..<length pts} \<times> {..<length pts}"
  let ?d = "\<lambda>(i, k). dist4 (c i) (c k)"
  have fin: "finite ?pairs" and mem: "(a, b) \<in> ?pairs" using assms(3,4) by auto
  then have "Max (?d ` ?pairs) \<in> ?d ` ?pairs" by (intro Max_in) auto
  then obtain ik where ik: "ik \<in> ?pairs" "?d ik = Max (?d ` ?pairs)" by (metis (no_types, lifting) imageE)
  obtain i0 k0 where i0: "ik = (i0, k0)" by (cases ik)
  have far: "dist4 (c x) (c y) \<le> dist4 (c i0) (c k0)" if "x < ?n" "y < ?n" for x y
  proof -
    have "?d (x, y) \<le> Max (?d ` ?pairs)" using that by (intro Max_ge) auto
    then show ?thesis using ik(2) i0 by simp
  qed
  have "0 < dist4 (c a) (c b)" using dist4_facts(1,2) [of "c a" "c b"] assms(5) by linarith
  then have "0 < dist4 (c i0) (c k0)" using far [OF assms(3,4)] by linarith
  then have ne: "c i0 \<noteq> c k0" using dist4_facts(2) [of "c i0" "c k0"] by auto
  have lt: "i0 < ?n" "k0 < ?n" using ik(1) i0 by auto
  obtain j0 where j0: "j0 < ?n" "j0 \<noteq> i0" "j0 \<noteq> k0"
  proof -
    have "\<exists>j < 3. j \<noteq> i0 \<and> j \<noteq> k0" by presburger
    then show ?thesis using that assms(2) by (metis order_less_le_trans)
  qed
  let ?f3 = "\<lambda>i j k s. if k \<noteq> i \<and> k \<noteq> j then try_triple pts i j k s else s"
  let ?f2 = "\<lambda>i j s. if j \<noteq> i then fold (?f3 i j) [0..<?n] s else s"
  let ?f1 = "\<lambda>i s. fold (?f2 i) [0..<?n] s"
  let ?P = "line_state pts" and ?Q = "assigned"
  have hit: "?Q (?f3 i0 j0 k0 s)" if "?P s" for s
  proof -
    have "fless (sdiv (sadd (squared_distance (pts ! i0) (pts ! j0)) (squared_distance (pts ! j0) (pts ! k0)))
       (squared_distance (pts ! i0) (pts ! k0))) (sint32 2147483647)"
      by (rule far_triple [OF assms(1) assms(1) assms(1) ne]) (use far lt j0 in auto)
    then show ?thesis using try_triple_state(3) [OF that] lt j0 ne by auto
  qed
  have f3: "?P (?f3 i j k s)" "?Q s \<Longrightarrow> ?Q (?f3 i j k s)" if "?P s" "i < ?n" "j < ?n" "k < ?n" "j \<noteq> i" for i j k s
    using try_triple_state [OF that(1-4)] that by auto
  have g3: "?P (fold (?f3 i j) [0..<?n] s)" "?Q s \<Longrightarrow> ?Q (fold (?f3 i j) [0..<?n] s)"
      "(\<exists>k \<in> set [0..<?n]. \<forall>s. ?P s \<longrightarrow> ?Q (?f3 i j k s)) \<Longrightarrow> ?Q (fold (?f3 i j) [0..<?n] s)"
    if "?P s" "i < ?n" "j < ?n" "j \<noteq> i" for i j s
    using fold_reach [where P = ?P and Q = ?Q and xs = "[0..<?n]" and f = "?f3 i j" and s = s] f3 [OF _ that(2,3) _ that(4)] that(1)
    by (simp_all only: set_upt atLeastLessThan_iff)
  have f2: "?P (?f2 i j s)" "?Q s \<Longrightarrow> ?Q (?f2 i j s)" if "?P s" "i < ?n" "j < ?n" for i j s
    using g3(1,2) [OF that] that(1) by (cases "j = i"; simp only: if_True if_False simp_thms)+
  have hit2: "?Q (?f2 i0 j0 s)" if "?P s" for s
    unfolding if_P [OF j0(2)]
    by (rule g3(3) [OF that lt(1) j0(1,2)], rule bexI [of _ k0], intro allI impI, rule hit, assumption) (use lt(2) in simp)
  have g2: "?P (?f1 i s)" "?Q s \<Longrightarrow> ?Q (?f1 i s)" "(\<exists>j \<in> set [0..<?n]. \<forall>s. ?P s \<longrightarrow> ?Q (?f2 i j s)) \<Longrightarrow> ?Q (?f1 i s)"
    if "?P s" "i < ?n" for i s
    using fold_reach [where P = ?P and Q = ?Q and xs = "[0..<?n]" and f = "?f2 i" and s = s] f2 [OF _ that(2)] that(1)
    by (simp_all only: set_upt atLeastLessThan_iff)
  have hit1: "?Q (?f1 i0 s)" if "?P s" for s
    by (rule g2(3) [OF that lt(1)], rule bexI [of _ j0], intro allI impI, rule hit2, assumption) (use j0(1) in simp)
  let ?s0 = "(sint32 2147483647, None :: triple option)"
  have g1: "?P (fold ?f1 [0..<?n] ?s0) \<and> (?Q ?s0 \<longrightarrow> ?Q (fold ?f1 [0..<?n] ?s0)) \<and>
      ((\<exists>i \<in> set [0..<?n]. \<forall>s. ?P s \<longrightarrow> ?Q (?f1 i s)) \<longrightarrow> ?Q (fold ?f1 [0..<?n] ?s0))"
    by (rule fold_reach) (simp_all only: set_upt atLeastLessThan_iff g2(1,2), simp add: line_state_def)
  moreover have "\<exists>i \<in> set [0..<?n]. \<forall>s. ?P s \<longrightarrow> ?Q (?f1 i s)"
    by (rule bexI [of _ i0], intro allI impI, rule hit1, assumption) (use lt(1) in simp)
  ultimately have "?P (fold ?f1 [0..<?n] ?s0)" "?Q (fold ?f1 [0..<?n] ?s0)" by blast+
  moreover obtain best line where e: "fold ?f1 [0..<?n] ?s0 = (best, line)" by (cases "fold ?f1 [0..<?n] ?s0")
  ultimately obtain i j k where "line = Some (i, j, k)" "line_state pts (best, Some (i, j, k))"
    by (cases line) (auto simp: assigned_def)
  moreover have "find_straightest_line_of_3 pts = line" unfolding find_straightest_line_of_3_def e by simp
  ultimately show ?thesis by (simp add: line_state_def)
qed

subsection \<open>One fiducial\<close>

definition box_centre :: "Region \<Rightarrow> int \<times> int" where
  "box_centre r = (left r + right r, rtop r + bottom r)"

lemma region_point_placed:
  assumes "short_box r"
  shows "placed (region_point i r) (box_centre r)"
proof -
  have b: "\<bar>left r + right r\<bar> \<le> 65536" "\<bar>rtop r + bottom r\<bar> \<le> 65536"
    using assms by (auto simp: short_box_def is_short_def)
  then show ?thesis
    using half_value_int [of "left r + right r"] half_value_int [of "rtop r + bottom r"]
    by (simp add: placed_def box_centre_def region_point_def)
qed

lemma extract_loop_ok:
  assumes "\<And>a. a \<in> set as \<Longrightarrow> a < length (regions (seg w))"
    and "length dest + length (filter (\<lambda>a. level (reg (seg w) a) = lev) as) \<le> m"
  shows "extract_loop w m lev as dest =
    Some (dest @ map (\<lambda>a. region_point a (reg (seg w) a)) (filter (\<lambda>a. level (reg (seg w) a) = lev) as))"
  using assms
proof (induction as arbitrary: dest)
  case (Cons a as)
  then have r: "region_at w a = Some (reg (seg w) a)" by (simp add: region_at_def buf_simps)
  show ?case
  proof (cases "level (reg (seg w) a) = lev")
    case True
    then show ?thesis using r Cons.prems Cons.IH [of "dest @ [region_point a (reg (seg w) a)]"]
      by (simp add: c_assert_def)
  next
    case False
    then show ?thesis using r Cons.prems Cons.IH [of dest] by simp
  qed
qed simp

definition in_table :: "World \<Rightarrow> RegionPoint \<Rightarrow> bool" where
  "in_table w p \<longleftrightarrow> rp_region p < length (regions (seg w))"

definition symbol_at :: "World \<Rightarrow> RegionPoint \<Rightarrow> int" where
  "symbol_at w p = int (adjacent_region_count (reg (seg w) (rp_region p))) - 2"

lemma point_region_count_ok: "in_table w p \<Longrightarrow> point_region_count w p = Some (adjacent_region_count (reg (seg w) (rp_region p)))"
  by (simp add: point_region_count_def in_table_def region_at_def buf_simps)

lemma order_lines_ok:
  assumes "\<And>p. p \<in> set (line_points l1 @ line_points l2) \<Longrightarrow> in_table w p"
  shows "\<exists>l1' l2'. order_lines w l1 l2 = Some (l1', l2') \<and>
    mset (line_points l1' @ line_points l2') = mset (line_points l1 @ line_points l2)"
proof -
  obtain s1 m1 e1 s2 m2 e2 where l: "l1 = (s1, m1, e1)" "l2 = (s2, m2, e2)" by (cases l1; cases l2) auto
  have c: "point_region_count w p = Some (adjacent_region_count (reg (seg w) (rp_region p)))" if "p \<in> {s1, e1, s2, e2}" for p
    by (rule point_region_count_ok, rule assms) (use that l in \<open>auto simp: line_points_def\<close>)
  show ?thesis using c [of s1] c [of e1] c [of s2] c [of e2]
    by (simp add: order_lines_def l line_points_def Let_def add_mset_commute)
qed

lemma turn_line_mset: "mset (line_points (turn_line l1 l2)) = mset (line_points l2)"
  by (cases l1; cases l2) (simp add: turn_line_def line_points_def add_mset_commute)

lemma symbols_of_ok: "(\<And>p. p \<in> set ps \<Longrightarrow> in_table w p) \<Longrightarrow> symbols_of w ps = Some (map (symbol_at w) ps)"
  by (induction ps) (simp_all add: point_region_count_ok symbol_at_def)

lemma line_and_others:
  assumes "i < length pts" "j < length pts" "k < length pts" "i \<noteq> j" "j \<noteq> k" "i \<noteq> k"
  shows "mset (line_points (line_at pts (i, j, k)) @ other_points pts (i, j, k)) = mset pts"
proof -
  let ?O = "\<lambda>n. n \<noteq> i \<and> n \<noteq> j \<and> n \<noteq> k"
  have "mset (filter (\<lambda>n. \<not> ?O n) [0..<length pts]) = mset [i, j, k]"
    by (rule iffD1 [OF set_eq_iff_mset_eq_distinct]) (use assms in auto)
  then have "mset (map (nth pts) [i, j, k]) + mset (map (nth pts) (filter ?O [0..<length pts])) =
      image_mset (nth pts) (mset (filter (\<lambda>n. \<not> ?O n) [0..<length pts]) + mset (filter ?O [0..<length pts]))"
    by simp
  also have "\<dots> = image_mset (nth pts) (mset [0..<length pts])"
    using multiset_partition [of "mset [0..<length pts]" ?O] by (simp only: mset_filter union_commute)
  also have "\<dots> = mset pts" by (metis map_nth mset_map)
  finally show ?thesis by (simp add: line_points_def line_at_def other_points_def)
qed

text \<open>What is reported for a root with the containers \<open>cs\<close>: the symbols are the numbers of leafs of the
  containers less 1, in some order, and the identifier is the rank of a permutation that begins with 0.\<close>

definition containers_of :: "World \<Rightarrow> nat \<Rightarrow> nat list" where
  "containers_of w r = filter (\<lambda>a. level (reg (seg w) a) = LEAF_CONTAINER_LEVEL) (adjacent_regions (reg (seg w) r))"

definition reported120 :: "Segmenter \<Rightarrow> nat list \<Rightarrow> Fiducial120 \<Rightarrow> bool" where
  "reported120 s cs f \<longleftrightarrow>
     mset (symbol_sequence f) = mset (map (\<lambda>a. int (adjacent_region_count (reg s a)) - 2) cs) \<and>
     sequence_length f = 6 \<and>
     f120_id f = (if symbol_sequence f \<in> symbol_sequences 6 then rank (tl (symbol_sequence f)) else INVALID_FIDUCIAL120_ID)"

lemma identify_ok:
  assumes "length symbols = 6"
  shows "(do {
     ok \<leftarrow> (if symbols ! 0 = 0 then has_all_symbols_once symbols 6 else Some False);
     (if ok then fiducial120_id_from_symbol_sequence symbols 6 else Some INVALID_FIDUCIAL120_ID) }) =
   Some (if symbols \<in> symbol_sequences 6 then rank (tl symbols) else INVALID_FIDUCIAL120_ID)"
proof -
  have h: "has_all_symbols_once symbols 6 = Some (distinct symbols \<and> set symbols \<subseteq> {0..<6})"
    using symbols_once_eq [of 6 symbols] assms by simp
  have "distinct symbols \<and> set symbols \<subseteq> {0..<6} \<Longrightarrow> set symbols = {0..<6}"
    using assms by (intro card_subset_eq) (simp_all add: distinct_card)
  then have s: "symbols \<in> symbol_sequences 6 \<longleftrightarrow> symbols ! 0 = 0 \<and> distinct symbols \<and> set symbols \<subseteq> {0..<6}"
    using assms by (auto simp: symbol_sequences_def)
  show ?thesis
  proof (cases "symbols \<in> symbol_sequences 6")
    case True
    moreover have "fiducial120_id_from_symbol_sequence symbols 6 = Some (rank (tl symbols))"
      using id_is_rank [OF True] by simp
    moreover have "symbols ! 0 = 0" "distinct symbols \<and> set symbols \<subseteq> {0..<6}" using True s by simp_all
    ultimately show ?thesis unfolding h by simp
  next
    case False
    then have "\<not> (distinct symbols \<and> set symbols \<subseteq> {0..<6})" if "symbols ! 0 = 0" using s that by simp
    then show ?thesis using False unfolding h by (cases "symbols ! 0 = 0") auto
  qed
qed

lemma compute_ok:
  assumes r: "r < length (regions (seg w))" and a: "\<And>a. a \<in> set (adjacent_regions (reg (seg w) r)) \<Longrightarrow>
      a < length (regions (seg w)) \<and> short_box (reg (seg w) a)"
    and seven: "adjacent_region_count (reg (seg w) r) = 7" and six: "length (containers_of w r) = 6"
    and apart: "\<And>c. length (filter (\<lambda>a. box_centre (reg (seg w) a) = c) (containers_of w r)) \<le> 2"
  shows "\<exists>f. compute_location_angle_and_id_for_6_symbol_fiducial atan w r = Some f \<and> reported120 (seg w) (containers_of w r) f"
proof -
  let ?cs = "containers_of w r" and ?pt = "\<lambda>a. region_point a (reg (seg w) a)"
  let ?c = "\<lambda>p. box_centre (reg (seg w) (rp_region p))"
  define pts where "pts = map ?pt ?cs"
  have rr: "region_at w r = Some (reg (seg w) r)" using r by (simp add: region_at_def buf_simps)
  have ex: "extract_region_points w 6 r LEAF_CONTAINER_LEVEL = Some pts" "length pts = 6"
    using rr extract_loop_ok [of "adjacent_regions (reg (seg w) r)" w "[]" LEAF_CONTAINER_LEVEL 6] a six
    by (simp_all add: extract_region_points_def containers_of_def pts_def)
  have p: "in_table w p \<and> placed p (?c p)" if pp: "p \<in> set pts" for p
  proof -
    obtain x where x: "p = ?pt x" "x \<in> set (adjacent_regions (reg (seg w) r))"
      using pp by (auto simp: pts_def containers_of_def)
    have "rp_region p = x" by (simp add: x(1) region_point_def)
    then show ?thesis using a [OF x(2)] region_point_placed [of "reg (seg w) x" x] x(1) by (simp add: in_table_def)
  qed
  have few: "size (filter_mset (\<lambda>p. ?c p = c) (mset pts)) \<le> 2" for c
  proof -
    have "filter (\<lambda>p. ?c p = c) pts = map ?pt (filter (\<lambda>a. box_centre (reg (seg w) a) = c) ?cs)"
      by (simp add: pts_def filter_map comp_def region_point_def)
    then have "length (filter (\<lambda>p. ?c p = c) pts) \<le> 2" using apart [of c] by simp
    then show ?thesis by (simp flip: mset_filter)
  qed
  have two: "\<exists>x < length qs. \<exists>y < length qs. ?c (qs ! x) \<noteq> ?c (qs ! y)" if "mset qs \<subseteq># mset pts" "3 \<le> length qs" for qs
  proof (rule ccontr)
    assume n: "\<not> ?thesis"
    have "?c q = ?c (qs ! 0)" if "q \<in> set qs" for q
      using n that \<open>3 \<le> length qs\<close> by (metis in_set_conv_nth length_pos_if_in_set)
    then have "filter_mset (\<lambda>p. ?c p = ?c (qs ! 0)) (mset qs) = mset qs"
      by (simp add: filter_mset_eq_conv)
    then have "mset qs \<subseteq># filter_mset (\<lambda>p. ?c p = ?c (qs ! 0)) (mset pts)"
      using multiset_filter_mono [OF that(1)] by metis
    then have "length qs \<le> 2" using size_mset_mono few [of "?c (qs ! 0)"] by fastforce
    then show False using that(2) by simp
  qed
  have line: "\<exists>t. find_straightest_line_of_3 qs = Some t \<and> mset (line_points (line_at qs t) @ other_points qs t) = mset qs"
    if q: "mset qs \<subseteq># mset pts" "3 \<le> length qs" for qs
  proof -
    have "placed (qs ! i) (?c (qs ! i))" if "i < length qs" for i
    proof -
      have "qs ! i \<in> set pts" using that mset_subset_eqD [OF q(1), of "qs ! i"] by simp
      then show ?thesis using p by blast
    qed
    moreover obtain x y where xy: "x < length qs" "y < length qs" "?c (qs ! x) \<noteq> ?c (qs ! y)" using two [OF q] by blast
    ultimately obtain i j k where "find_straightest_line_of_3 qs = Some (i, j, k)"
        "i < length qs" "j < length qs" "k < length qs" "i \<noteq> j" "j \<noteq> k" "i \<noteq> k"
      using straightest_line_ok [of qs "\<lambda>i. ?c (qs ! i)" x y] q(2) by blast
    then show ?thesis using line_and_others by blast
  qed
  obtain t1 where t1: "find_straightest_line_of_3 pts = Some t1"
      "mset (line_points (line_at pts t1) @ other_points pts t1) = mset pts"
    using line [of pts] ex(2) by auto
  define pts2 where "pts2 = other_points pts t1"
  have l3: "length (line_points l) = 3" for l by (cases l) (simp add: line_points_def)
  have n2: "length pts2 = 3" using arg_cong [OF t1(2), of size] l3 ex(2) by (simp add: pts2_def)
  have sub2: "mset pts2 \<subseteq># mset pts" unfolding t1(2) [symmetric] pts2_def by simp
  obtain t2 where t2: "find_straightest_line_of_3 pts2 = Some t2"
      "mset (line_points (line_at pts2 t2) @ other_points pts2 t2) = mset pts2"
    using line [OF sub2] n2 by auto
  have "other_points pts2 t2 = []" using arg_cong [OF t2(2), of size] l3 n2 by simp
  then have all: "mset (line_points (line_at pts t1) @ line_points (line_at pts2 t2)) = mset pts"
    using t1(2) t2(2) by (simp add: pts2_def)
  have intab: "in_table w q" if "mset qs = mset pts" "q \<in> set qs" for q qs
    using p that mset_eq_setD by blast
  obtain l1 l2 where l: "order_lines w (line_at pts t1) (line_at pts2 t2) = Some (l1, l2)"
      "mset (line_points l1 @ line_points l2) = mset pts"
    using order_lines_ok [OF intab [OF all]] all by metis
  define l2' where "l2' = turn_line l1 l2"
  have all': "mset (line_points l1 @ line_points l2') = mset pts"
    using l(2) turn_line_mset [of l1 l2] by (simp add: l2'_def)
  define symbols where "symbols = map (symbol_at w) (line_points l1 @ line_points l2')"
  have sy: "symbols_of w (line_points l1 @ line_points l2') = Some symbols" "length symbols = 6"
    unfolding symbols_def by (rule symbols_of_ok, rule intab [OF all'], assumption) (simp add: l3)
  define f where "f = \<lparr>f120_id = (if symbols \<in> symbol_sequences 6 then rank (tl symbols) else INVALID_FIDUCIAL120_ID),
    symbol_sequence = symbols, sequence_length = 6, f120_x = mean_of_6 rp_x l1 l2', f120_y = mean_of_6 rp_y l1 l2',
    f120_angle = lines_angle atan l1 l2'\<rparr>"
  have "compute_location_angle_and_id_for_6_symbol_fiducial atan w r = Some f"
    using identify_ok [OF sy(2)] rr seven ex t1(1) t2(1) n2 l(1) sy(1)
    unfolding compute_location_angle_and_id_for_6_symbol_fiducial_def f_def
    by (auto simp: c_assert_def Let_def Option.bind_eq_Some_conv pts2_def [symmetric] l2'_def [symmetric])
  moreover have "mset symbols = image_mset (symbol_at w) (mset pts)"
    unfolding symbols_def all' [symmetric] by simp
  then have "reported120 (seg w) (containers_of w r) f"
    by (simp add: reported120_def f_def pts_def symbol_at_def [abs_def] region_point_def image_mset.compositionality comp_def)
  ultimately show ?thesis by blast
qed

subsection \<open>All fiducials\<close>

definition root_containers :: "Segmenter \<Rightarrow> nat \<Rightarrow> nat list" where
  "root_containers s r = filter (leaf_container s 6) (adjacent_regions (reg s r))"

text \<open>A root that can be read: it has a neighbour besides its six containers, and no three of the
  containers have boxes with the same centre.\<close>

definition readable :: "Segmenter \<Rightarrow> nat \<Rightarrow> bool" where
  "readable s r \<longleftrightarrow> adjacent_region_count (reg s r) = 7 \<and>
     (\<forall>a \<in> set (root_containers s r). length (filter (\<lambda>b. box_centre (reg s b) = box_centre (reg s a)) (root_containers s r)) \<le> 2)"

lemma marked_container:
  assumes seg: "segmented (seg w0)" and m: "marked w0 (root_levels (seg w0) 6 {r. symbol_root (seg w0) 6 r}) w"
    and a: "a < region_count (seg w0)"
  shows "level (reg (seg w) a) = LEAF_CONTAINER_LEVEL \<longleftrightarrow> leaf_container (seg w0) 6 a"
proof -
  have "\<not> leaf_container (seg w0) 6 a" if sr: "symbol_root (seg w0) 6 a"
  proof
    assume "leaf_container (seg w0) 6 a"
    then have white: "colour (reg (seg w0) a) = 255" by (rule leaf_container_white(2) [OF seg])
    obtain c where c: "leaf_container (seg w0) 6 c" "a \<in> set (adjacent_regions (reg (seg w0) c))"
      using sr by (auto simp: symbol_root_def)
    show False using neighbour_colour(2) [OF seg leaf_container_white(1) [OF seg c(1)] c(2)] white
      leaf_container_white(2) [OF seg c(1)] by simp
  qed
  moreover have "\<not> leaf_container (seg w0) 6 a" if "black_leaf (seg w0) a"
    using leaf_container_white(3) [OF seg] that by blast
  ultimately show ?thesis using markedD(5) [OF m a]
    by (auto simp: root_levels_def container_levels_def leaf_levels_def leaf_container_iff topology_levels)
qed

lemma root_readable:
  assumes seg: "segmented (seg w0)" and m: "marked w0 (root_levels (seg w0) 6 {r. symbol_root (seg w0) 6 r}) w"
    and r: "symbol_root (seg w0) 6 r" "readable (seg w0) r"
  shows "\<exists>f. compute_location_angle_and_id_for_6_symbol_fiducial atan w r = Some f \<and>
    reported120 (seg w0) (root_containers (seg w0) r) f"
proof -
  let ?s = "seg w0" and ?cs = "root_containers (seg w0) r"
  have n: "i < length (regions ?s)" if "i < region_count ?s" for i using segmented_fresh(1) [OF seg that] .
  obtain c where c: "leaf_container ?s 6 c" "r \<in> set (adjacent_regions (reg ?s c))" using r(1) by (auto simp: symbol_root_def)
  have rl: "r < region_count ?s" using neighbour_colour(1) [OF seg leaf_container_white(1) [OF seg c(1)] c(2)] .
  have al: "a < region_count ?s" if "a \<in> set (adjacent_regions (reg ?s r))" for a using neighbour_colour(1) [OF seg rl that] .
  note M = markedD [OF m]
  have sm: "same_but_marks (reg ?s i) (reg (seg w) i)" if "i < region_count ?s" for i using M(4) [OF n [OF that]] .
  have adj: "adjacent_regions (reg (seg w) r) = adjacent_regions (reg ?s r)" using same_but_marksD(2) [OF sm [OF rl]] .
  have cs: "containers_of w r = ?cs"
    unfolding containers_of_def root_containers_def adj by (rule filter_cong) (use marked_container [OF seg m al] in simp_all)
  have csl: "a < region_count ?s" if "a \<in> set ?cs" for a using that al by (auto simp: root_containers_def)
  have centre: "box_centre (reg (seg w) a) = box_centre (reg ?s a)" if "a \<in> set ?cs" for a
    using same_but_marksD [OF sm [OF csl [OF that]]] by (simp add: box_centre_def)
  have seven: "length (adjacent_regions (reg ?s r)) = 7" using r(2) by (simp add: readable_def adjacent_region_count_def)
  then have "length (filter (\<lambda>a. \<not> leaf_container ?s 6 a) (adjacent_regions (reg ?s r))) = 1"
    using r(1) by (simp add: symbol_root_def adjacent_region_count_def)
  then have six: "length ?cs = 6"
    using sum_length_filter_compl [of "leaf_container ?s 6" "adjacent_regions (reg ?s r)"] seven by (simp add: root_containers_def)
  have "length (filter (\<lambda>a. box_centre (reg (seg w) a) = z) (containers_of w r)) \<le> 2" for z
  proof -
    have eq: "filter (\<lambda>a. box_centre (reg (seg w) a) = z) (containers_of w r) = filter (\<lambda>a. box_centre (reg ?s a) = z) ?cs"
      unfolding cs by (rule filter_cong) (use centre in simp_all)
    show ?thesis
    proof (cases "filter (\<lambda>a. box_centre (reg ?s a) = z) ?cs")
      case Nil
      then show ?thesis unfolding eq by simp
    next
      case (Cons a as)
      then have "a \<in> set (filter (\<lambda>a. box_centre (reg ?s a) = z) ?cs)" by simp
      then show ?thesis using r(2) unfolding eq readable_def by auto
    qed
  qed
  moreover have "a < length (regions (seg w)) \<and> short_box (reg (seg w) a)" if "a \<in> set (adjacent_regions (reg (seg w) r))" for a
  proof -
    have a: "a < region_count ?s" using that al unfolding adj by simp
    have "short_box (reg ?s a)" using segmented_fresh(2) [OF seg a] by (simp add: fresh_region_def)
    then show ?thesis using n [OF a] M(2) same_but_marksD [OF sm [OF a]] by (simp add: short_box_def)
  qed
  moreover have "r < length (regions (seg w))" using n [OF rl] M(2) by simp
  ultimately obtain f where f: "compute_location_angle_and_id_for_6_symbol_fiducial atan w r = Some f" "reported120 (seg w) ?cs f"
    using compute_ok [of r w atan] seven six unfolding cs adjacent_region_count_def adj by blast
  have eq: "map (\<lambda>a. int (adjacent_region_count (reg (seg w) a)) - 2) ?cs = map (\<lambda>a. int (adjacent_region_count (reg ?s a)) - 2) ?cs"
    using same_but_marksD(2) [OF sm [OF csl]] by (simp add: adjacent_region_count_def)
  have "reported120 ?s ?cs f" using f(2) unfolding reported120_def eq .
  then show ?thesis using f(1) by blast
qed

text \<open>One step of the search writes what the root shows into the next entry.\<close>

lemma fiducial120_step_ok:
  assumes "segmented (seg w)" "marked w (root_levels (seg w) 6 {r. symbol_root (seg w) 6 r}) w'" "symbol_root (seg w) 6 y"
    and "readable (seg w) y" "i < length fs"
  obtains f where "fiducial120_step atan max_count (Reg y) (w', fs, int i) = Some ((w', fs[i := f], int i + 1), int i + 1 \<ge> max_count)"
    "reported120 (seg w) (root_containers (seg w) y) f"
proof -
  obtain f where f: "compute_location_angle_and_id_for_6_symbol_fiducial atan w' y = Some f"
      "reported120 (seg w) (root_containers (seg w) y) f"
    using root_readable [OF assms(1-4)] by blast
  have "wr fs (int i) f = Some (fs[i := f])" using assms(5) by (simp add: buf_simps)
  then show ?thesis using that f by (simp add: fiducial120_step_def)
qed

text \<open>C35: When every root of a segmented image is readable, \<open>find_fiducials120\<close> returns, no assertion
  fails, and it reports the first \<open>max_count\<close> of the roots that the topology search lists: the symbols are
  the leaf counts of the six containers, and the identifier is the rank of the symbols when they are a
  permutation of 0 to 5 that begins with 0, and invalid otherwise.\<close>

theorem fiducials120_reported:
  assumes "segmented (seg w)" "3 \<le> length (heads w)" "0 < max_count" "max_count \<le> ilength fs"
    and "\<And>r. symbol_root (seg w) 6 r \<Longrightarrow> readable (seg w) r"
  shows "\<exists>n fs' w' rs. find_fiducials120 atan fs max_count w = Some (int n, fs', w') \<and>
    ring_of w' pst_root_regions_head rs \<and> set rs = {r. symbol_root (seg w) 6 r} \<and>
    int n = min max_count (ilength rs) \<and> length fs' = length fs \<and>
    (\<forall>j < n. reported120 (seg w) (root_containers (seg w) (rs ! j)) (fs' ! j))"
proof -
  obtain w' ls cs rs where w': "initialize_segment_topology w 6 = Some w'"
      "marked w (root_levels (seg w) 6 {r. symbol_root (seg w) 6 r}) w'" "rings w' (three ls cs rs)"
      "set rs = {r. symbol_root (seg w) 6 r}"
    using topology_ok [OF assms(1,2), of 6] by blast
  have ring: "ring_of w' pst_root_regions_head rs" using rings_heads(3) [OF w'(3)] by (simp add: pst_heads)
  let ?good = "\<lambda>n fs'. length fs' = length fs \<and> (\<forall>j < n. reported120 (seg w) (root_containers (seg w) (rs ! j)) (fs' ! j))"
  let ?P = "\<lambda>ys (v, fs', i). v = w' \<and> i = ilength ys \<and> i < max_count \<and> ?good (length ys) fs'"
  let ?Q = "\<lambda>(v, fs', i). v = w' \<and> (\<exists>n. i = int n \<and> int n = min max_count (ilength rs) \<and> ?good n fs')"
  let ?s0 = "(w', fs, 0) :: state120"
  have "\<exists>s. ring_loop fst pst_root_regions_head (fiducial120_step atan max_count)
      (nxt (RegionList.at (fst ?s0) pst_root_regions_head)) ?s0 = Some s \<and> ?Q s"
  proof (rule ring_loop_rule [where P = ?P and Q = ?Q and s = ?s0 and world = "fst :: state120 \<Rightarrow> World"])
    show "?P [] ?s0" using assms(3) by simp
    show "?Q s" if P: "?P rs s" for s
      using P by (cases s) (auto intro!: exI [of _ "length rs"])
    show "\<exists>s' stop. fiducial120_step atan max_count (Reg y) s = Some (s', stop) \<and>
        (if stop then ?Q s' else ?P (ys @ [y]) s' \<and> ring_of (fst s') pst_root_regions_head rs)"
      if split: "rs = ys @ y # zs" and P: "?P ys s" for ys y zs s
    proof -
      obtain fs' where s: "s = (w', fs', ilength ys)" "ilength ys < max_count" "?good (length ys) fs'"
        using P by (cases s) auto
      have y: "symbol_root (seg w) 6 y" using w'(4) split by auto
      have "length ys < length fs'" using s(2,3) assms(4) by simp
      then obtain f where f: "fiducial120_step atan max_count (Reg y) (w', fs', ilength ys) =
            Some ((w', fs'[length ys := f], ilength ys + 1), ilength ys + 1 \<ge> max_count)"
          "reported120 (seg w) (root_containers (seg w) y) f"
        using fiducial120_step_ok [OF assms(1) w'(2) y assms(5) [OF y]] by blast
      let ?fs = "fs'[length ys := f]"
      have good: "?good (Suc (length ys)) ?fs"
        using s(2,3) f(2) split assms(4) by (auto simp: less_Suc_eq nth_append)
      note run = f(1) [folded s(1)]
      show ?thesis
      proof (cases "ilength ys + 1 \<ge> max_count")
        case True
        then have "ilength ys + 1 = min max_count (ilength rs)" using s(2) split by simp
        then have "?Q (w', ?fs, ilength ys + 1)" using good by (auto intro!: exI [of _ "Suc (length ys)"])
        then show ?thesis using run True by (intro exI [of _ "(w', ?fs, ilength ys + 1)"] exI [of _ True]) simp
      next
        case False
        then have "?P (ys @ [y]) (w', ?fs, ilength ys + 1)" using good by simp
        then show ?thesis using run False ring by (intro exI [of _ "(w', ?fs, ilength ys + 1)"] exI [of _ False]) simp
      qed
    qed
  qed (use ring in simp)
  then obtain n fs' where n: "ring_loop fst pst_root_regions_head (fiducial120_step atan max_count)
      (nxt (RegionList.at w' pst_root_regions_head)) (w', fs, 0) = Some (w', fs', int n)"
      "int n = min max_count (ilength rs)" "?good n fs'" by auto
  have "deref w' pst_root_regions_head = Some (RegionList.at w' pst_root_regions_head)"
    using ring_ofD(1) [OF ring] by (rule deref_eq)
  then have "find_fiducials120 atan fs max_count w = Some (int n, fs', w')"
    using w'(1) n(1) by (simp add: find_fiducials120_def)
  then show ?thesis using ring w'(4) n(2,3) by blast
qed

subsection \<open>Fiducials without a region around them\<close>

text \<open>The search for roots accepts a region with exactly six neighbours, all of them leaf containers;
  the computation of its location asserts seven.\<close>

lemma six_neighbours_fail:
  assumes "r < length (regions (seg w))" "adjacent_region_count (reg (seg w) r) \<noteq> 7"
  shows "compute_location_angle_and_id_for_6_symbol_fiducial atan w r = None"
  using assms by (simp add: compute_location_angle_and_id_for_6_symbol_fiducial_def region_at_def buf_simps c_assert_def)

text \<open>C36: When the roots of a segmented image are complete fiducials with exactly six neighbours, for
  instance because the black region fills the image, \<open>find_fiducials120\<close> fails its assertion.\<close>

theorem six_neighbour_roots_fail:
  assumes "segmented (seg w)" "3 \<le> length (heads w)" "symbol_root (seg w) 6 r"
    and "\<And>r. symbol_root (seg w) 6 r \<Longrightarrow> adjacent_region_count (reg (seg w) r) = 6"
  shows "find_fiducials120 atan fs max_count w = None"
proof -
  obtain w' ls cs rs where w': "initialize_segment_topology w 6 = Some w'"
      "marked w (root_levels (seg w) 6 {r. symbol_root (seg w) 6 r}) w'" "rings w' (three ls cs rs)"
      "set rs = {r. symbol_root (seg w) 6 r}"
    using topology_ok [OF assms(1,2), of 6] by blast
  have ring: "ring_of w' pst_root_regions_head rs" using rings_heads(3) [OF w'(3)] by (simp add: pst_heads)
  obtain y ys where y: "rs = y # ys" using w'(4) assms(3) by (cases rs) auto
  have sy: "symbol_root (seg w) 6 y" using w'(4) y by auto
  obtain c where c: "leaf_container (seg w) 6 c" "y \<in> set (adjacent_regions (reg (seg w) c))" using sy by (auto simp: symbol_root_def)
  have "y < region_count (seg w)" using neighbour_colour(1) [OF assms(1) leaf_container_white(1) [OF assms(1) c(1)] c(2)] .
  then have yl: "y < length (regions (seg w))" using segmented_fresh(1) [OF assms(1)] by simp
  have "adjacent_region_count (reg (seg w') y) = 6"
    using assms(4) [OF sy] same_but_marksD(2) [OF markedD(4) [OF w'(2) yl]] by (simp add: adjacent_region_count_def)
  then have "compute_location_angle_and_id_for_6_symbol_fiducial atan w' y = None"
    using yl markedD(2) [OF w'(2)] by (intro six_neighbours_fail) simp_all
  then have "fiducial120_step atan max_count (Reg y) (w', fs, 0) = None" by (simp add: fiducial120_step_def)
  moreover have "deref w' pst_root_regions_head = Some (RegionList.at w' pst_root_regions_head)"
    using ring_ofD(1) [OF ring] by (rule deref_eq)
  moreover have "nxt (RegionList.at w' pst_root_regions_head) = Reg y" using ring_first [OF ring] y by simp
  ultimately show ?thesis
    using w'(1) by (simp add: find_fiducials120_def ring_loop.simps [of _ _ _ "Reg y"] pst_heads)
qed

subsection \<open>Two images\<close>

text \<open>The notions of the topology search on a table of colours and adjacency lists, to be evaluated.\<close>

type_synonym region_table = "(byte \<times> nat list) list"

definition t_leaf :: "region_table \<Rightarrow> nat \<Rightarrow> bool" where
  "t_leaf T i \<longleftrightarrow> fst (T ! i) = 0 \<and> length (snd (T ! i)) = 1"

definition t_container :: "region_table \<Rightarrow> nat \<Rightarrow> bool" where
  "t_container T c \<longleftrightarrow> list_ex (\<lambda>l. t_leaf T l \<and> snd (T ! l) = [c]) [0..<length T] \<and>
     length (filter (\<lambda>a. \<not> t_leaf T a) (snd (T ! c))) = 1 \<and> 2 \<le> length (snd (T ! c)) \<and> length (snd (T ! c)) \<le> 7"

definition t_root :: "region_table \<Rightarrow> nat \<Rightarrow> bool" where
  "t_root T r \<longleftrightarrow> list_ex (\<lambda>c. t_container T c \<and> r \<in> set (snd (T ! c))) [0..<length T] \<and> \<not> t_leaf T r \<and>
     (let n = length (filter (\<lambda>a. \<not> t_container T a) (snd (T ! r))); m = length (snd (T ! r)) in m = 6 \<and> n = 0 \<or> m = 7 \<and> n = 1)"

definition region_table :: "Segmenter \<Rightarrow> region_table" where
  "region_table s = map (\<lambda>r. (colour r, adjacent_regions r)) (take (region_count s) (regions s))"

lemma table_notions:
  assumes seg: "segmented s"
  shows "i < region_count s \<Longrightarrow> black_leaf s i \<longleftrightarrow> t_leaf (region_table s) i"
    "c < region_count s \<Longrightarrow> leaf_container s 6 c \<longleftrightarrow> t_container (region_table s) c"
    "symbol_root s 6 r \<longleftrightarrow> r \<in> set (filter (t_root (region_table s)) [0..<region_count s])"
proof -
  let ?T = "region_table s"
  have len: "i < length (regions s)" if "i < region_count s" for i using segmented_fresh(1) [OF seg that] .
  then have rc: "region_count s \<le> length (regions s)" by (meson leI less_irrefl)
  then have lT: "length ?T = region_count s" by (simp add: region_table_def)
  have T: "?T ! i = (colour (reg s i), adjacent_regions (reg s i))" if "i < region_count s" for i
    using that rc by (simp add: region_table_def)
  show leaf: "black_leaf s i \<longleftrightarrow> t_leaf ?T i" if "i < region_count s" for i
    using that T [OF that] by (simp add: black_leaf_def t_leaf_def adjacent_region_count_def)
  have leafs: "filter (\<lambda>a. \<not> black_leaf s a) (adjacent_regions (reg s c)) = filter (\<lambda>a. \<not> t_leaf ?T a) (adjacent_regions (reg s c))"
    if "c < region_count s" for c
    by (rule filter_cong) (use leaf neighbour_colour(1) [OF seg that] in auto)
  have ex: "(\<exists>l. black_leaf s l \<and> adjacent_regions (reg s l) = [c]) \<longleftrightarrow> list_ex (\<lambda>l. t_leaf ?T l \<and> snd (?T ! l) = [c]) [0..<length ?T]" for c
  proof -
    have "black_leaf s l \<and> adjacent_regions (reg s l) = [c] \<longleftrightarrow> l < region_count s \<and> t_leaf ?T l \<and> snd (?T ! l) = [c]" for l
      using leaf [of l] T [of l] by (cases "l < region_count s") (simp_all add: black_leaf_def)
    then show ?thesis by (simp add: list_ex_iff lT Bex_def)
  qed
  show cont: "leaf_container s 6 c \<longleftrightarrow> t_container ?T c" if "c < region_count s" for c
    using leafs [OF that] T [OF that] unfolding leaf_container_def t_container_def ex by (auto simp: adjacent_region_count_def)
  have conts: "filter (\<lambda>a. \<not> leaf_container s 6 a) (adjacent_regions (reg s r)) = filter (\<lambda>a. \<not> t_container ?T a) (adjacent_regions (reg s r))"
    if "r < region_count s" for r
    by (rule filter_cong) (use cont neighbour_colour(1) [OF seg that] in auto)
  have exc: "(\<exists>c. leaf_container s 6 c \<and> r \<in> set (adjacent_regions (reg s c))) \<longleftrightarrow>
      list_ex (\<lambda>c. t_container ?T c \<and> r \<in> set (snd (?T ! c))) [0..<length ?T]" for r
  proof -
    have "leaf_container s 6 c \<and> r \<in> set (adjacent_regions (reg s c)) \<longleftrightarrow> c < region_count s \<and> t_container ?T c \<and> r \<in> set (snd (?T ! c))" for c
      using cont [of c] T [of c] leaf_container_white(1) [OF seg, of 6 c] by (cases "c < region_count s") auto
    then show ?thesis by (simp add: list_ex_iff lT Bex_def)
  qed
  have lt: "r < region_count s" if "symbol_root s 6 r"
    using that neighbour_colour(1) [OF seg] leaf_container_white(1) [OF seg] by (auto simp: symbol_root_def)
  have "symbol_root s 6 r \<longleftrightarrow> t_root ?T r" if "r < region_count s"
    using leaf [OF that] conts [OF that] T [OF that] unfolding symbol_root_def t_root_def exc Let_def by (auto simp: adjacent_region_count_def)
  then show "symbol_root s 6 r \<longleftrightarrow> r \<in> set (filter (t_root ?T) [0..<region_count s])" using lt by auto
qed

text \<open>Six containers with one leaf each at the edges of an image, and one white pixel more.\<close>

definition six_symbols :: "byte list" where
  "six_symbols = concat [
     [0, 255, 0, 255, 0, 255, 0, 255, 0, 255, 0],
     [255, 255, 0, 0, 0, 255, 255, 255, 0, 255, 255],
     [0, 0, 0, 0, 0, 0, 0, 0, 0, 0, 0],
     [255, 255, 0, 0, 0, 255, 255, 255, 0, 255, 255],
     [0, 255, 0, 0, 0, 255, 0, 255, 0, 255, 0]]"

lemma image_run:
  assumes "set src \<subseteq> {0, 255}" "length src = 55"
    "map_option (\<lambda>s. (region_count s, region_table s)) (step_segmenter (blank_segmenter 11 5 8) src) = Some (n, T)"
  obtains s where "step_segmenter (blank_segmenter 11 5 8) src = Some s" "segmented s" "region_count s = n" "region_table s = T"
proof -
  obtain s where s: "step_segmenter (blank_segmenter 11 5 8) src = Some s" "region_count s = n" "region_table s = T"
    using assms(3) by auto
  have "binary_image (width (blank_segmenter 11 5 8)) (height (blank_segmenter 11 5 8)) src"
    using assms(1,2) by (simp add: binary_image_def)
  then have "segmented s" unfolding segmented_def using s(1) blank_segmenter_simps(3) by blast
  then show ?thesis using that s by blast
qed

definition blank120 :: Fiducial120 where
  "blank120 = \<lparr>f120_id = 0, symbol_sequence = [], sequence_length = 0, f120_x = zero, f120_y = zero, f120_angle = zero\<rparr>"

lemma fiducials120_reported_witness:
  "\<exists>w fs' w'. step_segmenter (blank_segmenter 11 5 8) six_symbols = Some (seg w) \<and>
     find_fiducials120 (\<lambda>x. x) [blank120] 1 w =
       Some (int 1, fs', w') \<and> symbol_sequence (fs' ! 0) = [0, 0, 0, 0, 0, 0] \<and> f120_id (fs' ! 0) = - 1"
proof (rule image_run)
  show "set six_symbols \<subseteq> {0, 255}" "length six_symbols = 55" by code_simp+
  let ?T = "[(0, [1]), (255, [0, 8]), (255, [8, 13]), (255, [8]), (255, [8, 11]), (255, [8, 12]), (0, [7]), (255, [6, 8]),
     (0, [7, 9, 3, 1, 4, 5, 2]), (255, [8, 10]), (0, [9]), (0, [4]), (0, [5]), (0, [2])] :: region_table"
  show "map_option (\<lambda>s. (region_count s, region_table s)) (step_segmenter (blank_segmenter 11 5 8) six_symbols) = Some (14, ?T)"
    by code_simp
  fix s assume s: "step_segmenter (blank_segmenter 11 5 8) six_symbols = Some s" "segmented s" "region_count s = 14" "region_table s = ?T"
  let ?w = "\<lparr>seg = s, heads = replicate 3 blank_region\<rparr>"
  have root: "symbol_root s 6 r \<longleftrightarrow> r = 8" for r
  proof -
    have "filter (t_root ?T) [0..<14] = [8]" by code_simp
    then show ?thesis unfolding table_notions(3) [OF s(2)] s(3,4) by simp
  qed
  have adj: "adjacent_regions (reg s i) = snd (?T ! i)" if "i < 14" for i
    using arg_cong [OF s(4), of "\<lambda>T. snd (T ! i)"] segmented_fresh(1) [OF s(2), of i] segmented_fresh(1) [OF s(2), of 13] that s(3)
    by (simp add: region_table_def)
  have cs: "root_containers s 8 = [7, 9, 1, 4, 5, 2]"
  proof -
    have "root_containers s 8 = filter (t_container ?T) [7, 9, 3, 1, 4, 5, 2]"
      unfolding root_containers_def adj [of 8, simplified] s(4) [symmetric]
      by (rule filter_cong) (use table_notions(2) [OF s(2)] s(3) in \<open>auto simp: adj\<close>)
    also have "\<dots> = [7, 9, 1, 4, 5, 2]" by code_simp
    finally show ?thesis .
  qed
  have "map_option (\<lambda>s. map box_centre (map (nth (regions s)) [7, 9, 1, 4, 5, 2])) (step_segmenter (blank_segmenter 11 5 8) six_symbols) =
      Some [(12, 1), (18, 1), (1, 1), (1, 7), (12, 7), (18, 7)]" by code_simp
  then have "map (\<lambda>a. box_centre (reg s a)) (root_containers s 8) = [(12, 1), (18, 1), (1, 1), (1, 7), (12, 7), (18, 7)]"
    unfolding s(1) cs by simp
  then have "readable s 8" by (auto simp: readable_def cs adj adjacent_region_count_def)
  then have rd: "readable (seg ?w) r" if "symbol_root (seg ?w) 6 r" for r using that root by simp
  have w: "segmented (seg ?w)" "3 \<le> length (heads ?w)" "(0 :: int) < 1" "1 \<le> ilength [blank120]" using s(2) by simp_all
  obtain n fs' w' rs where n: "find_fiducials120 (\<lambda>x. x) [blank120] 1 ?w = Some (int n, fs', w')"
      "ring_of w' pst_root_regions_head rs" "set rs = {r. symbol_root (seg ?w) 6 r}" "int n = min 1 (ilength rs)"
      "\<forall>j < n. reported120 (seg ?w) (root_containers (seg ?w) (rs ! j)) (fs' ! j)"
    using fiducials120_reported [OF w rd, of "\<lambda>x. x"] by blast
  have set_rs: "set rs = {8}" using n(3) root by simp
  have "distinct rs" using ring_ofD(3) [OF n(2)] .
  then have rs: "rs = [8]" using set_rs by (cases rs; cases "tl rs") auto
  then have n1: "n = 1" using n(4) by simp
  have "reported120 s [7, 9, 1, 4, 5, 2] (fs' ! 0)" using n(5) n1 rs cs by simp
  then have "mset (symbol_sequence (fs' ! 0)) = mset [0, 0, 0, 0, 0, 0]" "f120_id (fs' ! 0) =
      (if symbol_sequence (fs' ! 0) \<in> symbol_sequences 6 then rank (tl (symbol_sequence (fs' ! 0))) else - 1)"
    by (simp_all add: reported120_def adj adjacent_region_count_def INVALID_FIDUCIAL120_ID_def)
  moreover have "xs = replicate 6 (0 :: int)" if "mset xs = replicate_mset 6 0" for xs
    using that by (metis mset_replicate mset_eq_length length_replicate in_replicate_mset replicate_eqI set_mset_mset)
  ultimately have "symbol_sequence (fs' ! 0) = [0, 0, 0, 0, 0, 0]" by (simp add: numeral_eq_Suc)
  moreover have "[0, 0, 0, 0, 0, 0] \<notin> symbol_sequences 6" by (simp add: symbol_sequences_def)
  ultimately show ?thesis using n(1) n1 s(1) \<open>f120_id (fs' ! 0) = _\<close> by (intro exI [of _ ?w] exI [of _ fs'] exI [of _ w']) simp
qed

lemma six_neighbour_roots_fail_witness:
  "\<exists>w. step_segmenter (blank_segmenter 11 5 8) (six_symbols[3 := 0]) = Some (seg w) \<and> find_fiducials120 (\<lambda>x. x) [blank120] 1 w = None"
proof (rule image_run)
  show "set (six_symbols[3 := 0]) \<subseteq> {0, 255}" "length (six_symbols[3 := 0]) = 55" by code_simp+
  let ?T = "[(0, [1]), (255, [0, 6]), (255, [6, 10]), (255, [6, 11]), (0, [5]), (255, [4, 6]), (0, [5, 7, 1, 2, 3, 9]), (255, [6, 8]),
     (0, [7]), (255, [6, 12]), (0, [2]), (0, [3]), (0, [9])] :: region_table"
  show "map_option (\<lambda>s. (region_count s, region_table s)) (step_segmenter (blank_segmenter 11 5 8) (six_symbols[3 := 0])) = Some (13, ?T)"
    by code_simp
  fix s assume s: "step_segmenter (blank_segmenter 11 5 8) (six_symbols[3 := 0]) = Some s" "segmented s" "region_count s = 13" "region_table s = ?T"
  let ?w = "\<lparr>seg = s, heads = replicate 3 blank_region\<rparr>"
  have root: "symbol_root s 6 r \<longleftrightarrow> r = 6" for r
  proof -
    have "filter (t_root ?T) [0..<13] = [6]" by code_simp
    then show ?thesis unfolding table_notions(3) [OF s(2)] s(3,4) by simp
  qed
  have "adjacent_regions (reg s 6) = snd (?T ! 6)"
    using arg_cong [OF s(4), of "\<lambda>T. snd (T ! 6)"] segmented_fresh(1) [OF s(2), of 12] s(3) by (simp add: region_table_def)
  then have "find_fiducials120 (\<lambda>x. x) [blank120] 1 ?w = None"
    by (intro six_neighbour_roots_fail [of ?w 6]) (use s(2) root in \<open>auto simp: adjacent_region_count_def\<close>)
  then show ?thesis using s(1) by (intro exI [of _ ?w]) simp
qed

end
