(* ===== verification/FidtrackWarp.thy ===== *)
theory FidtrackWarp
  imports FidtrackIds IeeeBounds SegmentCorrect
begin

text \<open>
  \<open>find_fiducialsX\<close> with the distortion table that the application passes, which maps every
  point to itself: the conversions to \<open>int\<close> in \<open>sum_leaf_centers\<close> and
  \<open>compute_fiducial_statistics\<close> are all defined, and no symbol is lost on the way.
\<close>

subsection \<open>Rounding errors\<close>

lemma round_even_close: "\<bar>of_int (round_even q) - q\<bar> \<le> 1 / 2"
  unfolding round_even_def Let_def using floor_correct [of q] by auto

lemma round_close:
  assumes "0 \<le> q" "q \<le> 2 ^ 20"
  shows "\<exists>v. ieee_round binary64 s q = Num s v \<and> q - 1 / 2 ^ 30 \<le> v \<and> v \<le> q + 1 / 2 ^ 30"
proof (cases "q = 0")
  case True
  then show ?thesis by simp
next
  case False
  let ?e = "max (- 1074) (ilog2 q - (53 - 1))" and ?v = "round_mag (53, - 1074, 971) q"
  have "q < 2 powi 21" using assms(2) by (simp add: power_int_def)
  then have "ilog2 q < 21" using False assms(1) by (intro ilog2_less) simp_all
  then have "(2 powi ?e :: rat) \<le> 2 powi (- 32)" by (intro power_int_increasing) simp_all
  moreover have "(2 powi (- 32) :: rat) = 1 / 2 ^ 32" by (simp add: power_int_def field_simps)
  ultimately have e: "0 < (2 powi ?e :: rat)" "(2 powi ?e :: rat) \<le> 1 / 2 ^ 32" by (simp_all only:) simp
  have "\<bar>?v - q\<bar> = \<bar>of_int (round_even (q / 2 powi ?e)) - q / 2 powi ?e\<bar> * 2 powi ?e"
  proof -
    have "?v - q = (of_int (round_even (q / 2 powi ?e)) - q / 2 powi ?e) * 2 powi ?e"
      using e(1) by (simp add: round_mag_def Let_def left_diff_distrib)
    then show ?thesis using e(1) by (simp add: abs_mult)
  qed
  also have "\<dots> \<le> 1 / 2 * (1 / 2 ^ 32)"
    using round_even_close [of "q / 2 powi ?e"] e by (intro mult_mono) simp_all
  finally have "\<bar>?v - q\<bar> \<le> 1 / 2 ^ 30" by simp
  then have c: "q - 1 / 2 ^ 30 \<le> ?v" "?v \<le> q + 1 / 2 ^ 30" unfolding abs_le_iff by linarith+
  have "(2 powi 53 :: rat) \<le> 2 powi (53 + 971)" by (intro power_int_increasing) simp_all
  moreover have "?v < 2 powi 53" using c assms(2) by (simp add: power_int_def)
  ultimately have "\<not> 2 powi (53 + 971) \<le> ?v" by linarith
  then show ?thesis using c False by (simp add: ieee_round_def binary64_def Let_def)
qed

lemma add_close:
  assumes "0 \<le> a" "0 \<le> b" "a + b \<le> 2 ^ 20"
  shows "\<exists>v. dadd (Num False a) (Num False b) = Num False v \<and> a + b - 1 / 2 ^ 30 \<le> v \<and> v \<le> a + b + 1 / 2 ^ 30"
  using round_close [of "a + b" False] assms by (auto simp: of_value_def)

text \<open>The weights of the leafs of the trees of height 2.\<close>

definition weight_floor :: "int \<Rightarrow> int" where
  "weight_floor d = (if d = 0 then 0 else if d = 1 then 7 else 19)"

lemma quarter_exact:
  assumes "0 < n" "n < 1000"
  shows "ieee_round binary64 s (of_int n / 4) = Num s (of_int n / 4)"
proof -
  have r: "round_mag (int 53, - 1074, 971) (of_int n / 4) = of_int n / 4"
    by (rule round_mag_exact [where m = n and k = "- 2"]) (use assms in \<open>simp_all add: power_int_def field_simps\<close>)
  have "(of_int n :: rat) / 4 < 2 powi 53" using assms by (simp add: power_int_def)
  moreover have "(2 powi 53 :: rat) \<le> 2 powi (53 + 971)" by (intro power_int_increasing) simp_all
  ultimately have "\<not> 2 powi (53 + 971) \<le> (of_int n / 4 :: rat)" by linarith
  then show ?thesis using r assms by (simp add: ieee_round_def binary64_def Let_def)
qed

lemma leaf_weights:
  assumes "0 \<le> d" "d \<le> 2"
  shows "\<exists>v. leaf_weight d = Num False v \<and> of_int (weight_floor d) + 3 / 100 \<le> v \<and> v \<le> of_int (weight_floor d) + 97 / 100"
proof -
  let ?pi = "314159265358979323846 / 10 ^ 20 :: rat"
  obtain p where p: "M_PI = Num False p" "?pi - 1 / 2 ^ 30 \<le> p" "p \<le> ?pi + 1 / 2 ^ 30"
    using round_close [of ?pi False] by (auto simp: M_PI_def dconst_def of_value_def)
  have q: "ieee_round binary64 s (1 / 2) = Num s (1 / 2)" "ieee_round binary64 s (1 / 4) = Num s (1 / 4)"
    "ieee_round binary64 s (3 / 2) = Num s (3 / 2)" "ieee_round binary64 s (9 / 4) = Num s (9 / 4)"
    "ieee_round binary64 s (5 / 2) = Num s (5 / 2)" "ieee_round binary64 s (25 / 4) = Num s (25 / 4)"
    "ieee_round binary64 s 1 = Num s 1" "ieee_round binary64 s 2 = Num s 2" for s
    using quarter_exact [of 2 s] quarter_exact [of 1 s] quarter_exact [of 6 s] quarter_exact [of 9 s]
      quarter_exact [of 10 s] quarter_exact [of 25 s] quarter_exact [of 4 s] quarter_exact [of 8 s] by simp_all
  have w: "leaf_weight 0 = ieee_round binary64 False (1 / 4 * p)" "leaf_weight 1 = ieee_round binary64 False (9 / 4 * p)"
    "leaf_weight 2 = ieee_round binary64 False (25 / 4 * p)"
    by (simp_all add: leaf_weight_def dconst_def fint_def of_value_def p(1) q Let_def)
  have p3: "314159 / 100000 \<le> p" "p \<le> 314160 / 100000" using p(2,3) by simp_all
  obtain v0 v1 v2 where v: "leaf_weight 0 = Num False v0" "1 / 4 * p - 1 / 2 ^ 30 \<le> v0" "v0 \<le> 1 / 4 * p + 1 / 2 ^ 30"
      "leaf_weight 1 = Num False v1" "9 / 4 * p - 1 / 2 ^ 30 \<le> v1" "v1 \<le> 9 / 4 * p + 1 / 2 ^ 30"
      "leaf_weight 2 = Num False v2" "25 / 4 * p - 1 / 2 ^ 30 \<le> v2" "v2 \<le> 25 / 4 * p + 1 / 2 ^ 30"
    unfolding w using round_close [of "1 / 4 * p" False] round_close [of "9 / 4 * p" False] round_close [of "25 / 4 * p" False] p3
    by auto
  have "3 / 100 \<le> v0 \<and> v0 \<le> 97 / 100" using v(2,3) p3 by simp
  moreover have "7 + 3 / 100 \<le> v1 \<and> v1 \<le> 7 + 97 / 100" using v(5,6) p3 by simp
  moreover have "19 + 3 / 100 \<le> v2 \<and> v2 \<le> 19 + 97 / 100" using v(8,9) p3 by simp
  moreover have "d = 0 \<or> d = 1 \<or> d = 2" using assms by presburger
  ultimately show ?thesis using v(1,4,7) by (auto simp: weight_floor_def)
qed

text \<open>Halves of integers.\<close>

lemma sint32_exact:
  assumes "\<bar>n\<bar> < 2 ^ 24"
  shows "sint32 n = Num (n < 0) \<bar>of_int n\<bar>"
proof (cases "n = 0")
  case False
  have r: "round_mag (int 24, - 149, 104) \<bar>of_int n\<bar> = \<bar>of_int n\<bar>"
    by (rule round_mag_exact [where m = "\<bar>n\<bar>" and k = 0]) (use assms False in simp_all)
  have "(of_int \<bar>n\<bar> :: rat) \<le> 2 ^ 24" using assms by (simp flip: of_int_power add: less_imp_le)
  then have "\<bar>of_int n\<bar> \<le> (2 ^ 100 :: rat)" by simp
  from float_limit [OF this] show ?thesis using r False
    by (simp add: fint_def of_value_def ieee_round_def binary32_def Let_def)
qed (simp add: fint_def of_value_def)

lemma half_float_exact:
  assumes "\<bar>n\<bar> < 2 ^ 24"
  shows "half_float n = Num (n < 0) (\<bar>of_int n\<bar> / 2)"
proof -
  have h: "of_value binary32 False (1 / 2) = Num False (1 / 2)"
    using float_half [of 1 False] by (simp add: of_value_def)
  show ?thesis
  proof (cases "n = 0")
    case False
    then show ?thesis using float_half [OF assms False] unfolding half_float_def h sint32_exact [OF assms] by simp
  qed (simp add: half_float_def h sint32_exact)
qed

subsection \<open>The sums with the identity as distortion table\<close>

definition identity_warp :: "int \<Rightarrow> int \<Rightarrow> (int \<times> int) list \<Rightarrow> bool" where
  "identity_warp W H d \<longleftrightarrow> 0 < W \<and> W \<le> 32768 \<and> 0 < H \<and> H \<le> 32768 \<and> ilength d = W * H \<and>
     (\<forall>x y. 0 \<le> x \<longrightarrow> x < W \<longrightarrow> 0 \<le> y \<longrightarrow> y < H \<longrightarrow> d ! nat (W * y + x) = (x, y))"

lemma to_int32_half: "\<bar>n\<bar> < 2 ^ 24 \<Longrightarrow> \<exists>i. to_int32 (half_float n) = Some i \<and> (0 \<le> n \<longrightarrow> i = n div 2)"
proof -
  assume n: "\<bar>n\<bar> < 2 ^ 24"
  have f: "\<lfloor>\<bar>of_int n\<bar> / 2 :: rat\<rfloor> = \<bar>n\<bar> div 2" using floor_divide_of_int_eq [of "\<bar>n\<bar>" 2, where 'a = rat] by simp
  have "\<bar>n\<bar> \<le> 16777216" using n by simp
  then have b: "0 \<le> \<bar>n\<bar> div 2" "\<bar>n\<bar> div 2 \<le> 2147483647" by presburger+
  obtain k where k: "k = \<bar>n\<bar> div 2" by blast
  have "to_int32 (half_float n) = Some (if n < 0 then - k else k)"
    using b unfolding half_float_exact [OF n] to_int32.simps f k [symmetric] by (simp add: Let_def)
  then show ?thesis using k by simp
qed

lemma warped_point_ok:
  assumes d: "ilength d = W * H" and n: "\<bar>m\<bar> < 2 ^ 24" "\<bar>n\<bar> < 2 ^ 24"
  shows "\<exists>p. warped_point (Some d) W H (half_float m, half_float n) = Some p"
proof -
  obtain i j where "to_int32 (half_float m) = Some i" "to_int32 (half_float n) = Some j"
    using to_int32_half [OF n(1)] to_int32_half [OF n(2)] by blast
  then show ?thesis using d by (auto simp: warped_point_def rd_eq Let_def split: prod.splits)
qed

lemma warped_point_identity:
  assumes d: "identity_warp W H d" and m: "0 \<le> m" "m div 2 < W" and n: "0 \<le> n" "n div 2 < H"
  shows "warped_point (Some d) W H (half_float m, half_float n) = Some (sint32 (m div 2), sint32 (n div 2))"
proof -
  have D: "W \<le> 32768" "H \<le> 32768" "ilength d = W * H" "0 < W" using d by (simp_all add: identity_warp_def)
  have b: "\<bar>m\<bar> < 2 ^ 24" "\<bar>n\<bar> < 2 ^ 24" using m n D by auto
  have i: "to_int32 (half_float m) = Some (m div 2)" "to_int32 (half_float n) = Some (n div 2)"
    using to_int32_half [OF b(1)] to_int32_half [OF b(2)] m n by auto
  have "W * (n div 2) \<le> W * (H - 1)" using n D by (intro mult_left_mono) auto
  then have p: "0 \<le> W * (n div 2) + m div 2" "W * (n div 2) + m div 2 < W * H"
    using m n D by (simp_all add: algebra_simps)
  moreover have "d ! nat (W * (n div 2) + m div 2) = (m div 2, n div 2)"
    using d m n unfolding identity_warp_def by simp
  ultimately show ?thesis using D(3) by (simp add: warped_point_def i rd_eq Let_def)
qed

definition box_inside :: "int \<Rightarrow> int \<Rightarrow> Region \<Rightarrow> bool" where
  "box_inside W H x \<longleftrightarrow> 1 \<le> left x \<and> 1 \<le> right x \<and> left x < W \<and> right x < W \<and>
     1 \<le> rtop x \<and> 1 \<le> bottom x \<and> rtop x < H \<and> bottom x < H"

text \<open>After \<open>n\<close> leafs: the integer count has lost the fractions of their weights.\<close>

definition counted :: "rat \<Rightarrow> LeafSums \<Rightarrow> bool" where
  "counted n S \<longleftrightarrow> (\<exists>b c. black_leaf_count_warped S = Num False b \<and> white_leaf_count_warped S = Num False c \<and>
     0 \<le> b \<and> 0 \<le> c \<and> 0 \<le> total_leaf_count S \<and> of_int (total_leaf_count S) + n / 100 \<le> b + c \<and> b + c \<le> 20 * n + 20)"

lemma counted_no_leafs: "counted 0 no_leafs"
  by (simp add: counted_def no_leafs_def)

lemma count_total:
  assumes w: "0 \<le> d" "d \<le> 2" and t: "0 \<le> t" "of_int t \<le> (2 ^ 18 :: rat)"
  shows "to_int32 (dadd (dint t) (leaf_weight d)) = Some (t + weight_floor d)"
proof -
  obtain v where v: "leaf_weight d = Num False v" "of_int (weight_floor d) + 3 / 100 \<le> v" "v \<le> of_int (weight_floor d) + 97 / 100"
    using leaf_weights [OF w] by blast
  have f: "0 \<le> weight_floor d" "weight_floor d \<le> 19" by (simp_all add: weight_floor_def)
  have f': "(0 :: rat) \<le> of_int (weight_floor d)" "of_int (weight_floor d) \<le> (19 :: rat)"
    using f by (simp_all add: weight_floor_def)
  have t': "t \<le> 2 ^ 18" using t(2) by (simp flip: of_int_power)
  then have ti: "dint t = Num False (of_int t)" using fint_between [of t] t(1) by simp
  obtain u where u: "dadd (dint t) (leaf_weight d) = Num False u" "of_int t + v - 1 / 2 ^ 30 \<le> u" "u \<le> of_int t + v + 1 / 2 ^ 30"
    using add_close [of "of_int t" v] t v f' unfolding ti v(1) by fastforce
  have "of_int (t + weight_floor d) \<le> u" "u < of_int (t + weight_floor d) + 1" using u(2,3) v(2,3) by simp_all
  then have "\<lfloor>u\<rfloor> = t + weight_floor d" by (simp add: floor_eq_iff)
  then show ?thesis using t t' f unfolding u(1) by (simp add: Let_def)
qed

lemma add_leaf_counted:
  assumes d: "identity_warp W H d" and box: "box_inside W H x" and w: "0 \<le> depth x" "depth x \<le> 2"
    and S: "counted n S" "0 \<le> n" "n \<le> 10000"
  shows "\<exists>S'. add_leaf (Some d) W H x S = Some S' \<and> counted (n + 1) S'"
proof -
  have B: "0 \<le> left x + right x" "(left x + right x) div 2 < W" "0 \<le> rtop x + bottom x" "(rtop x + bottom x) div 2 < H"
    "1 \<le> (left x + right x) div 2" "1 \<le> (rtop x + bottom x) div 2"
    using box by (auto simp: box_inside_def)
  let ?x = "sint32 ((left x + right x) div 2)" and ?y = "sint32 ((rtop x + bottom x) div 2)"
  note p = warped_point_identity [OF d B(1,2,3,4)]
  have D: "W \<le> 32768" "H \<le> 32768" using d by (simp_all add: identity_warp_def)
  have pos: "fless zero ?x" "fless zero ?y"
    using B(2,4-6) D by (simp_all add: sint32_exact)
  obtain b c where bc: "black_leaf_count_warped S = Num False b" "white_leaf_count_warped S = Num False c" "0 \<le> b" "0 \<le> c"
      "0 \<le> total_leaf_count S" "of_int (total_leaf_count S) + n / 100 \<le> b + c" "b + c \<le> 20 * n + 20"
    using S(1) by (auto simp: counted_def)
  have t: "of_int (total_leaf_count S) \<le> (2 ^ 18 :: rat)" using bc(6,7) S(2,3) by simp
  note total = count_total [OF w bc(5) t]
  obtain v where v: "leaf_weight (depth x) = Num False v" "of_int (weight_floor (depth x)) + 3 / 100 \<le> v"
      "v \<le> of_int (weight_floor (depth x)) + 97 / 100" using leaf_weights [OF w] by blast
  have f: "(0 :: rat) \<le> of_int (weight_floor (depth x))" "of_int (weight_floor (depth x)) \<le> (19 :: rat)" "0 \<le> weight_floor (depth x)"
    by (simp_all add: weight_floor_def)
  have sum: "\<exists>u. dadd (Num False a) (Num False v) = Num False u \<and> 0 \<le> u \<and> a + v - 1 / 2 ^ 30 \<le> u \<and> u \<le> a + v + 1 / 2 ^ 30"
    if "0 \<le> a" "a \<le> b + c" for a
    using add_close [of a v] that v f bc(7) S(3) by fastforce
  let ?S = "add_plain x (leaf_weight (depth x)) (?x, ?y) (add_warped x (leaf_weight (depth x)) (?x, ?y)
    (S\<lparr>total_leaf_size := dadd (total_leaf_size S) (half_float ((bottom x - rtop x) + (right x - left x)))\<rparr>))"
  have run: "add_leaf (Some d) W H x S = Some (?S\<lparr>total_leaf_count := total_leaf_count S + weight_floor (depth x)\<rparr>)"
    using total by (simp add: add_leaf_def p Let_def add_plain_def add_warped_def)
  have "counted (n + 1) (?S\<lparr>total_leaf_count := total_leaf_count S + weight_floor (depth x)\<rparr>)"
  proof (cases "colour x = 0")
    case True
    obtain u where u: "dadd (Num False b) (Num False v) = Num False u" "0 \<le> u" "b + v - 1 / 2 ^ 30 \<le> u" "u \<le> b + v + 1 / 2 ^ 30"
      using sum [of b] bc by auto
    have "of_int (total_leaf_count S + weight_floor (depth x)) + (n + 1) / 100 \<le> u + c" "u + c \<le> 20 * (n + 1) + 20"
      using u(3,4) v(2,3) f(2) bc(6,7) by (simp_all add: add_divide_distrib)
    then show ?thesis
      using u True pos bc f v by (simp add: counted_def add_plain_def add_warped_def del: fadd.simps of_int_add)
  next
    case False
    obtain u where u: "dadd (Num False c) (Num False v) = Num False u" "0 \<le> u" "c + v - 1 / 2 ^ 30 \<le> u" "u \<le> c + v + 1 / 2 ^ 30"
      using sum [of c] bc by auto
    have "of_int (total_leaf_count S + weight_floor (depth x)) + (n + 1) / 100 \<le> b + u" "b + u \<le> 20 * (n + 1) + 20"
      using u(3,4) v(2,3) f(2) bc(6,7) by (simp_all add: add_divide_distrib)
    then show ?thesis
      using u False pos bc f v by (simp add: counted_def add_plain_def add_warped_def del: fadd.simps of_int_add)
  qed
  then show ?thesis using run by blast
qed

lemma add_leafs_counted:
  assumes d: "identity_warp W H d"
  shows "\<forall>x \<in> set xs. box_inside W H x \<and> 0 \<le> depth x \<and> depth x \<le> 2 \<Longrightarrow> counted n S \<Longrightarrow> 0 \<le> n \<Longrightarrow>
    n + of_nat (length xs) \<le> 10000 \<Longrightarrow> \<exists>S'. add_leafs (Some d) W H xs S = Some S' \<and> counted (n + of_nat (length xs)) S'"
proof (induction xs arbitrary: n S)
  case (Cons x xs)
  obtain S' where "add_leaf (Some d) W H x S = Some S'" "counted (n + 1) S'"
    using add_leaf_counted [OF d _ _ _ Cons.prems(2,3), of x] Cons.prems(1,4) by auto
  then show ?case using Cons.IH [of "n + 1" S'] Cons.prems by (auto simp: algebra_simps)
qed simp

lemma place_counted:
  assumes S: "counted n S" "0 \<le> n" "n \<le> 10000"
  shows "\<exists>f'. place_fiducial atan (Some d) W H (S\<lparr>average_leaf_size := a\<rparr>) f = Some (f', False)"
proof -
  obtain b c where bc: "black_leaf_count_warped S = Num False b" "white_leaf_count_warped S = Num False c" "0 \<le> b" "0 \<le> c"
      "0 \<le> total_leaf_count S" "of_int (total_leaf_count S) + n / 100 \<le> b + c" "b + c \<le> 20 * n + 20"
    using S(1) by (auto simp: counted_def)
  let ?t = "total_leaf_count S"
  have "of_int ?t \<le> b + c" "b + c \<le> of_int (2 ^ 18)" using bc S by simp_all
  moreover from this have t: "?t \<le> 2 ^ 18" by (metis of_int_le_iff order_trans)
  ultimately have "between (dadd (Num False b) (Num False c)) ?t (2 ^ 18)"
    using value_between [of ?t "b + c" "2 ^ 18"] bc(5) by simp
  then obtain u where "dadd (Num False b) (Num False c) = Num False u" "of_int ?t \<le> u" by (auto elim!: between_cases)
  moreover have "dint ?t = Num False (of_int ?t)" using fint_between [of ?t] t bc(5) by simp
  ultimately have "\<not> fless (dadd (black_leaf_count_warped S) (white_leaf_count_warped S)) (dint ?t)" unfolding bc(1,2) by simp
  then show ?thesis by (simp add: place_fiducial_def Let_def)
qed

lemma add_counts:
  "black_leaf_count_warped (add_plain x n p (add_warped x n p S)) =
     (if fless zero (fst p) \<and> fless zero (snd p) \<and> colour x = 0 then dadd (black_leaf_count_warped S) n else black_leaf_count_warped S)"
  "white_leaf_count_warped (add_plain x n p (add_warped x n p S)) =
     (if fless zero (fst p) \<and> fless zero (snd p) \<and> colour x \<noteq> 0 then dadd (white_leaf_count_warped S) n else white_leaf_count_warped S)"
  by (cases p, simp add: add_plain_def add_warped_def)+

text \<open>A root that has no other neighbour than its child is summed up as a leaf itself.\<close>

lemma single_leaf:
  assumes d: "ilength d = W * H" and box: "short_box x" and w: "depth x = 0"
  shows "\<exists>S. add_leafs (Some d) W H [x] no_leafs = Some S \<and> counted 0 S"
proof -
  have b: "\<bar>left x + right x\<bar> < 2 ^ 24" "\<bar>rtop x + bottom x\<bar> < 2 ^ 24"
    using box by (auto simp: short_box_def is_short_def)
  obtain p where p: "warped_point (Some d) W H (half_float (left x + right x), half_float (rtop x + bottom x)) = Some p"
    using warped_point_ok [OF d b] by blast
  obtain v where v: "leaf_weight (depth x) = Num False v" "3 / 100 \<le> v" "v \<le> 97 / 100"
    using leaf_weights [of "depth x"] w by (auto simp: weight_floor_def)
  obtain u where u: "dadd zero (Num False v) = Num False u" "v - 1 / 2 ^ 30 \<le> u" "u \<le> v + 1 / 2 ^ 30"
    using add_close [of 0 v] v by auto
  have total: "to_int32 (dadd (dint 0) (leaf_weight (depth x))) = Some 0"
    using count_total [of "depth x" 0] w by (simp add: weight_floor_def)
  let ?n = "leaf_weight (depth x)"
  let ?S = "add_plain x ?n p (add_warped x ?n p
    (no_leafs\<lparr>total_leaf_size := dadd (total_leaf_size no_leafs) (half_float ((bottom x - rtop x) + (right x - left x)))\<rparr>))"
  have "total_leaf_count ?S = 0" by (cases p) (simp add: add_plain_def add_warped_def no_leafs_def)
  then have run: "add_leafs (Some d) W H [x] no_leafs = Some (?S\<lparr>total_leaf_count := 0\<rparr>)"
    using p total by (simp add: add_leaf_def Let_def)
  have "0 \<le> u" "u \<le> 20" using u(2,3) v(2,3) by simp_all
  moreover have "black_leaf_count_warped ?S = Num False u \<and> white_leaf_count_warped ?S = zero \<or>
      black_leaf_count_warped ?S = zero \<and> white_leaf_count_warped ?S = Num False u \<or>
      black_leaf_count_warped ?S = zero \<and> white_leaf_count_warped ?S = zero"
    unfolding add_counts v(1) using u(1) by (simp add: no_leafs_def del: fadd.simps)
  ultimately have "counted 0 (?S\<lparr>total_leaf_count := 0\<rparr>)" by (auto simp: counted_def)
  then show ?thesis using run by blast
qed

subsection \<open>The trees of a frame\<close>

lemma inner_box:
  assumes seg: "segmented s" and i: "i \<in> live s" "\<not> open_ended (reg s i)" and dim: "width s \<le> 32768" "height s \<le> 32768"
  shows "box_inside (int (width s)) (int (height s)) (reg s i)"
proof -
  obtain W H src f where b: "binary_image W H src" and inv: "scan_inv W H src (border_pixels W H) (W * H) f s"
    by (rule segmentedE [OF seg])
  note iv = scan_invD [OF inv]
  have W: "0 < W" using b by (simp add: binary_image_def)
  obtain p where p: "p < W * H" "i = f p" using i(1) scan_region_map [OF inv] by (auto simp: region_map_def)
  have nb: "\<not> flag_set (flags (reg s (f p))) ADJACENT_TO_ROOT_REGION_FLAG" using i(2) p by (simp add: open_ended_def)
  have inner: "W \<le> q \<and> q mod W \<noteq> 0 \<and> Suc (q mod W) \<noteq> W" if "q < W * H" "f q = f p" for q
  proof -
    have "q \<notin> border_pixels W H" using iv(8) nb p(1) that unfolding borders_def by auto
    then show ?thesis by (auto simp: border_pixels_def)
  qed
  have "bounding_box W (W * H) f (f p) (view s (f p))"
    by (rule boxes_exact [OF iv(7) refl W iv(9) p(1) inner]) (use dim iv(2,3) in simp_all)
  then have "attained W (W * H) f (f p) (view s (f p))" by (simp add: bounding_box_def)
  moreover have "1 \<le> q mod W \<and> q mod W < W \<and> 1 \<le> q div W \<and> q div W < H" if "q < W * H" "f q = f p" for q
    using inner [OF that] that(1) W by (auto simp: less_mult_imp_div_less Suc_le_eq div_greater_zero_iff mult.commute)
  ultimately show ?thesis
    unfolding attained_def box_inside_def iv(2,3) p(2) by (auto simp flip: of_nat_mult)
qed

lemma measurable_identity:
  assumes t: "traversed s g" and r: "r \<in> set (order g)"
    and n: "nodes (below g r) \<le> 8002" and h: "tree_height (below g r) \<le> 2"
    and d: "identity_warp (int (width s)) (int (height s)) d"
  shows "measurable atan (Some d) (int (width s)) (int (height s)) s g r"
  unfolding measurable_def
proof (intro allI impI)
  fix ls x assume ls: "distinct ls" "set ls = shown_leafs s g r"
    and x: "\<forall>i \<in> set ls. same_box (x i) (reg s i) \<and> depth (x i) = distance g r i"
  note D = traversedD [OF t]
  have dim: "width s \<le> 32768" "height s \<le> 32768" "ilength d = int (width s) * int (height s)"
    using d by (simp_all add: identity_warp_def)
  have "\<exists>S m. add_leafs (Some d) (int (width s)) (int (height s)) (map x ls) no_leafs = Some S \<and> counted m S \<and> 0 \<le> m \<and> m \<le> 10000"
  proof (cases "length (adj0 s r) = 1")
    case True
    then have "ls = [r]" using ls by (cases ls; cases "tl ls") (auto simp: shown_leafs_def)
    moreover have "short_box (x r)" "depth (x r) = 0"
      using x \<open>ls = [r]\<close> segmented_fresh(2) [OF D(1) D(5) [OF r]] numbering_distance(2) [OF t r]
      by (simp_all add: fresh_region_def short_box_def same_box_def)
    ultimately obtain S where "add_leafs (Some d) (int (width s)) (int (height s)) (map x ls) no_leafs = Some S" "counted 0 S"
      using single_leaf [OF dim(3), of "x r"] by (auto simp del: add_leafs.simps)
    then show ?thesis by (intro exI [of _ S] exI [of _ 0]) simp
  next
    case False
    have "box_inside (int (width s)) (int (height s)) (x i) \<and> 0 \<le> depth (x i) \<and> depth (x i) \<le> 2" if i: "i \<in> set ls" for i
    proof -
      have u: "i \<in> under g r" "length (adj0 s i) = 1" using i ls False by (simp_all add: shown_leafs_def tree_leafs_def)
      then have "i \<noteq> r" using False by auto
      with u(1) obtain p where "parent_of g i = Some p" by (cases rule: under.cases) auto
      then have "\<not> open_ended (reg s i)" "i \<in> live s" using traversalD(4) [OF D(2)] traversalD(2) [OF D(2)] by blast+
      from inner_box [OF D(1) this(2,1) dim(1,2)]
      show ?thesis using x i shown_leafs_depth [OF t r, of i] ls(2) h by (auto simp: box_inside_def same_box_def)
    qed
    moreover have "(of_nat (length (map x ls)) :: rat) \<le> 10000"
      using shown_leafs_count [OF t r ls] n by simp
    ultimately show ?thesis
      using add_leafs_counted [OF d, of "map x ls" 0 no_leafs] counted_no_leafs by fastforce
  qed
  then show "sums_ok atan (Some d) (int (width s)) (int (height s)) (map x ls)"
    unfolding sums_ok_def using place_counted by blast
qed

end
