(* ===== verification/FidtrackMemory.thy ===== *)
theory FidtrackMemory
  imports FidtrackIds
begin

text \<open>
  What \<open>find_fiducialsX\<close> leaves of the memory: it writes fields of regions and of the list
  head, but no buffer changes its length and the rest of the segmenter stays as it is, so that
  the memory is fit for the next frame.
\<close>

subsection \<open>Rules for partial results\<close>

definition always :: "'a option \<Rightarrow> ('a \<Rightarrow> bool) \<Rightarrow> bool" where
  "always m P \<longleftrightarrow> (\<forall>x. m = Some x \<longrightarrow> P x)"

lemma alwaysD: "always m P \<Longrightarrow> m = Some x \<Longrightarrow> P x"
  by (simp add: always_def)

lemma always_bind: "always m Q \<Longrightarrow> (\<And>x. Q x \<Longrightarrow> always (f x) P) \<Longrightarrow> always (m \<bind> f) P"
  by (auto simp: always_def bind_eq_Some_conv)

lemma always_skip: "(\<And>x. always (f x) P) \<Longrightarrow> always (m \<bind> f) P"
  by (auto simp: always_def bind_eq_Some_conv)

lemma always_if: "always a P \<Longrightarrow> always b P \<Longrightarrow> always (if c then a else b) P"
  by simp

lemma always_None: "always None P"
  by (simp add: always_def)

lemma always_Some: "P x \<Longrightarrow> always (Some x) P"
  by (simp add: always_def)

lemma always_let: "always (f x) P \<Longrightarrow> always (Let x f) P"
  by simp

lemma always_prod: "(\<And>a b. x = (a, b) \<Longrightarrow> always (f a b) P) \<Longrightarrow> always (case x of (a, b) \<Rightarrow> f a b) P"
  by (cases x) simp

lemma always_option: "always a P \<Longrightarrow> (\<And>y. always (f y) P) \<Longrightarrow> always (case x of None \<Rightarrow> a | Some y \<Rightarrow> f y) P"
  by (cases x) simp_all

subsection \<open>The memory that is kept\<close>

definition keeps :: "World \<Rightarrow> World \<Rightarrow> bool" where
  "keeps w w' \<longleftrightarrow> (seg w')\<lparr>regions := []\<rparr> = (seg w)\<lparr>regions := []\<rparr> \<and>
     length (regions (seg w')) = length (regions (seg w)) \<and> length (heads w') = length (heads w)"

lemma keeps_refl [simp]: "keeps w w"
  by (simp add: keeps_def)

lemma keeps_trans: "keeps w v \<Longrightarrow> keeps v u \<Longrightarrow> keeps w u"
  by (simp add: keeps_def)

named_theorems keeps_ops

lemmas keeps_rules = always_if always_None always_Some always_let always_prod always_option

lemma keeps_assign [keeps_ops]: "keeps w v \<Longrightarrow> always (assign v p f) (keeps w)"
  by (cases p) (auto simp: always_def keeps_def upd_region_def bind_eq_Some_conv buf_write_Some_iff)

lemma keeps_set_region [keeps_ops]: "keeps w v \<Longrightarrow> always (set_region v r f) (keeps w)"
  by (auto simp: always_def keeps_def set_region_def upd_region_def bind_eq_Some_conv buf_write_Some_iff)

lemma keeps_link_region [keeps_ops]: "keeps w v \<Longrightarrow> always (link_region v h r) (keeps w)"
  unfolding link_region_def
  by (rule keeps_rules keeps_ops always_bind [where Q = "keeps w"] always_skip | assumption)+

lemma keeps_initialize_head [keeps_ops]: "keeps w v \<Longrightarrow> always (initialize_head_region v p) (keeps w)"
  unfolding initialize_head_region_def by (rule keeps_assign)

lemma keeps_propagate_loop: "keeps w v \<Longrightarrow> always (propagate_loop v r as p) (\<lambda>(u, _). keeps w u)"
proof (induction as arbitrary: v p)
  case (Cons a as)
  show ?case
    unfolding propagate_loop.simps
    by (rule Cons keeps_rules keeps_ops always_bind [where Q = "keeps w"] always_skip | assumption)+
qed (simp add: always_def)

lemma keeps_propagate_step: "keeps w v \<Longrightarrow> always (propagate_step ft v r) (\<lambda>(u, _). keeps w u)"
  unfolding propagate_step_def
  by (rule keeps_propagate_loop keeps_rules keeps_ops always_bind [where Q = "keeps w"]
      always_bind [where Q = "\<lambda>(u, _). keeps w u"] always_skip | assumption | simp only: prod.case)+

lemma keeps_propagate_eq:
  assumes run: "propagate_descendent_count_and_max_depth_upwards ft v r = Some u"
  shows "keeps v u"
proof (rule propagate_descendent_count_and_max_depth_upwards.raw_induct [where P = "\<lambda>ft v r u. keeps v u", OF _ run])
  fix f ft v r u
  assume IH: "\<And>ft v r u. f ft v r = Some u \<Longrightarrow> keeps v u"
    and body: "propagate_step ft v r \<bind> (\<lambda>(w, call). case call of None \<Rightarrow> Some w | Some parent \<Rightarrow> f ft w parent) = Some u"
  obtain v' c where step: "propagate_step ft v r = Some (v', c)" using body by (auto simp: bind_eq_Some_conv)
  have k: "keeps v v'" using alwaysD [OF keeps_propagate_step [OF keeps_refl] step] by simp
  show "keeps v u"
  proof (cases c)
    case (Some parent)
    then have "f ft v' parent = Some u" using body step by simp
    then show ?thesis using IH k keeps_trans by blast
  qed (use body step k in simp)
qed

lemma keeps_propagate [keeps_ops]:
  "keeps w v \<Longrightarrow> always (propagate_descendent_count_and_max_depth_upwards ft v r) (keeps w)"
  using keeps_propagate_eq keeps_trans unfolding always_def by blast

lemma keeps_find_roots_from [keeps_ops]: "keeps w v \<Longrightarrow> always (find_roots_from ft v i n) (keeps w)"
proof (induction n arbitrary: v i)
  case (Suc n)
  show ?case
    unfolding find_roots_from.simps
    by (rule Suc keeps_rules keeps_ops always_bind [where Q = "keeps w"] always_skip | assumption)+
qed (simp add: always_def)

lemma keeps_find_roots [keeps_ops]: "keeps w v \<Longrightarrow> always (find_roots ft v) (keeps w)"
  unfolding find_roots_def by (rule keeps_ops always_skip | assumption)+

lemma keeps_set_depth_rec: "keeps w v \<Longrightarrow> always (set_depth_rec k v r d) (keeps w)"
proof (induction k arbitrary: v r d)
  case (Suc k)
  have loop: "keeps w v \<Longrightarrow> always (set_depth_loop k v r as d) (keeps w)" for v r as d
  proof (induction as arbitrary: v)
    case (Cons a as)
    show ?case
      unfolding set_depth_loop.simps
      by (rule Cons Suc.IH keeps_rules keeps_ops always_bind [where Q = "keeps w"] always_skip | assumption)+
  qed (simp add: always_def)
  show ?case
    unfolding set_depth_rec.simps Let_def
    by (rule loop Suc.prems keeps_rules keeps_ops always_bind [where Q = "keeps w"] always_skip | assumption)+
qed (simp add: always_def)

lemma keeps_set_depth [keeps_ops]: "keeps w v \<Longrightarrow> always (set_depth v r d) (keeps w)"
  unfolding set_depth_def by (rule keeps_set_depth_rec)

lemma keeps_append_strings:
  "keeps w v \<Longrightarrow> always (append_strings ft v as p) (\<lambda>(_, u, _). keeps w u)"
proof (induction as arbitrary: ft v p)
  case (Cons a as)
  show ?case
    unfolding append_strings.simps
    by (rule Cons keeps_rules keeps_ops always_bind [where Q = "keeps w"] always_skip | assumption)+
qed (simp add: always_def)

lemma keeps_build_string_rec:
  "keeps w v \<Longrightarrow> always (build_string_rec qsort k ft v r) (\<lambda>(_, _, u). keeps w u)"
proof (induction k arbitrary: ft v r)
  case (Suc k)
  have loop: "keeps w v \<Longrightarrow> always (build_string_loop qsort k ft v r as) (\<lambda>(_, u). keeps w u)" for ft v r as
  proof (induction as arbitrary: ft v)
    case (Cons a as)
    show ?case
      unfolding build_string_loop.simps
      by (rule Cons Suc.IH keeps_rules keeps_ops always_bind [where Q = "keeps w"]
          always_bind [where Q = "\<lambda>(_, _, u). keeps w u"] always_skip | assumption | simp only: prod.case)+
  qed (simp add: always_def)
  show ?case
    unfolding build_string_rec.simps Let_def
    by (rule loop Suc.prems keeps_append_strings keeps_rules keeps_ops always_bind [where Q = "keeps w"]
        always_bind [where Q = "\<lambda>(_, u). keeps w u"] always_bind [where Q = "\<lambda>(_, u, _). keeps w u"]
        always_skip | assumption | simp only: prod.case)+
qed (simp add: always_def)

lemma keeps_statistics:
  "keeps w v \<Longrightarrow> always (compute_fiducial_statistics qsort atan ft f v r W H) (\<lambda>(_, _, u). keeps w u)"
  unfolding compute_fiducial_statistics_def build_left_heavy_depth_string_def
  by (rule keeps_build_string_rec keeps_rules keeps_ops always_bind [where Q = "keeps w"]
      always_bind [where Q = "\<lambda>(_, _, u). keeps w u"] always_skip | assumption | simp only: prod.case)+

lemma keeps_fiducial_step:
  "keeps w v \<Longrightarrow> always (fiducial_step qsort atan max_count W H next (i, fs, ft, v)) (\<lambda>((_, _, _, u), _). keeps w u)"
  unfolding fiducial_step_def prod.case
  by (cases "next"; simp only: rptr.case)
    (rule keeps_statistics keeps_rules keeps_ops always_bind [where Q = "keeps w"]
      always_bind [where Q = "\<lambda>(_, _, u). keeps w u"] always_skip | assumption | simp only: prod.case)+

lemma ring_loop_always:
  assumes body: "\<And>next s. K s \<Longrightarrow> always (body next s) (\<lambda>(s, _). K s)" and s: "K s"
  shows "always (ring_loop world head body next s) K"
  unfolding always_def
proof (intro allI impI)
  fix y assume run: "ring_loop world head body next s = Some y"
  have "K s \<longrightarrow> (\<forall>next s. K s \<longrightarrow> always (body next s) (\<lambda>(s, _). K s)) \<longrightarrow> K y"
  proof (rule ring_loop.raw_induct [where P = "\<lambda>world head body next s y.
      K s \<longrightarrow> (\<forall>next s. K s \<longrightarrow> always (body next s) (\<lambda>(s, _). K s)) \<longrightarrow> K y", OF _ run], intro impI)
    fix f world head body "next" s y
    assume IH: "\<And>world head body next s y. f world head body next s = Some y \<Longrightarrow>
        K s \<longrightarrow> (\<forall>next s. K s \<longrightarrow> always (body next s) (\<lambda>(s, _). K s)) \<longrightarrow> K y"
      and run: "(if next = head then Some s else body next s \<bind> (\<lambda>(s, stop). if stop then Some s
        else deref (world s) next \<bind> (\<lambda>x. f world head body (nxt x) s))) = Some y"
      and K: "K s" and body: "\<forall>next s. K s \<longrightarrow> always (body next s) (\<lambda>(s, _). K s)"
    show "K y"
    proof (cases "next = head")
      case False
      obtain s' stop where s': "body next s = Some (s', stop)" using run False by (auto simp: bind_eq_Some_conv)
      then have K': "K s'" using body K unfolding always_def by fastforce
      show ?thesis
      proof (cases stop)
        case False
        then have "deref (world s') next \<bind> (\<lambda>x. f world head body (nxt x) s') = Some y"
          using run s' \<open>next \<noteq> head\<close> by simp
        then have "\<exists>x :: Region. f world head body (nxt x) s' = Some y" unfolding bind_eq_Some_conv by blast
        then show ?thesis using IH K' body by blast
      qed (use run s' K' \<open>next \<noteq> head\<close> in simp)
    qed (use run K in simp)
  qed
  then show "K y" using body s by blast
qed

lemma find_fiducials_keeps:
  assumes run: "find_fiducialsX qsort atan fs max_count ft w W H = Some (n, fs', ft', w')"
  shows "keeps w w'"
proof -
  have "always (find_fiducialsX qsort atan fs max_count ft w W H) (\<lambda>(_, _, _, u). keeps w u)"
    unfolding find_fiducialsX_def
  proof (rule always_bind [OF keeps_initialize_head [OF keeps_refl]], rule always_bind [OF keeps_find_roots], assumption, rule always_skip)
    fix v h assume v: "keeps w v"
    show "always (ring_loop (\<lambda>(i, fiducials, ft, w). w) root_regions_head (fiducial_step qsort atan max_count W H)
        (nxt h) (0, fs, ft, v)) (\<lambda>(_, _, _, u). keeps w u)"
    proof (rule ring_loop_always)
      fix "next" and s :: fiducials_state assume "case s of (_, _, _, u) \<Rightarrow> keeps w u"
      then show "always (fiducial_step qsort atan max_count W H next s) (\<lambda>(s, _). case s of (_, _, _, u) \<Rightarrow> keeps w u)"
        using keeps_fiducial_step by (cases s) (simp add: case_prod_unfold)
    qed (use v in simp)
  qed
  from alwaysD [OF this run] show ?thesis by simp
qed

end
