(* ===== verification/SegmentMemory.thy ===== *)
theory SegmentMemory
  imports FidtrackMemory
begin

text \<open>
  \<open>step_segmenter\<close> changes none of the dimensions of the segmenter, for any input.
\<close>

lemma dims_refl: "dims s s"
  by (simp add: dims_def)

named_theorems dims_ops

lemma dims_upd_region [dims_ops]: "dims s t \<Longrightarrow> always (upd_region t i f) (dims s)"
  by (auto simp: always_def dims_def upd_region_def bind_eq_Some_conv buf_write_Some_iff)

lemma dims_or_flags [dims_ops]: "dims s t \<Longrightarrow> always (or_flags t i m) (dims s)"
  unfolding or_flags_def by (rule dims_ops)

lemma dims_row_set [dims_ops]: "dims s t \<Longrightarrow> always (row_set t b x r) (dims s)"
  by (auto simp: always_def dims_def row_set_def bind_eq_Some_conv buf_write_Some_iff)

lemma dims_resolve: "dims s t \<Longrightarrow> always (resolve_regionref t r) (\<lambda>(_, u). dims s u)"
  by (auto simp: always_def dims_def resolve_regionref_def bind_eq_Some_conv buf_write_Some_iff split: if_splits)

lemma dims_new_region: "dims s t \<Longrightarrow> always (new_region t x y c) (\<lambda>(_, u). dims s u)"
  by (auto simp: always_def dims_def new_region_def upd_region_def Let_def bind_eq_Some_conv buf_write_Some_iff
      split: rptr.splits)

lemmas dims_rules = always_if always_None always_Some always_let always_prod always_option

lemma dims_row_resolve [dims_ops]: "dims s t \<Longrightarrow> always (row_resolve t b x) (dims s)"
  unfolding row_resolve_def
  by (rule dims_rules dims_ops always_bind [OF dims_resolve] always_skip | assumption | simp only: prod.case)+

lemma dims_adjacency [dims_ops]:
  "dims s t \<Longrightarrow> always (remove_adjacent_from t a b) (dims s)"
  "dims s t \<Longrightarrow> always (replace_adjacent t a b c) (dims s)"
  "dims s t \<Longrightarrow> always (append_adjacent t a b) (dims s)"
  unfolding remove_adjacent_from_def replace_adjacent_def append_adjacent_def
  by (rule dims_ops always_skip | assumption)+

lemma dims_make_saturated_loop [dims_ops]: "dims s t \<Longrightarrow> always (make_saturated_loop t r i n) (dims s)"
proof (induction n arbitrary: t i)
  case (Suc n)
  show ?case
    unfolding make_saturated_loop.simps
    by (rule Suc dims_ops always_bind [where Q = "dims s"] always_skip | assumption)+
qed (simp add: always_def)

lemma dims_make_saturated [dims_ops]: "dims s t \<Longrightarrow> always (make_saturated t r) (dims s)"
  unfolding make_saturated_def by (rule dims_ops always_bind [where Q = "dims s"] always_skip | assumption)+

lemma dims_make_adjacent [dims_ops]: "dims s t \<Longrightarrow> always (make_adjacent t a b) (dims s)"
  unfolding make_adjacent_def make_adjacent_update_def
  by (rule dims_rules dims_ops always_bind [where Q = "dims s"] always_skip | assumption)+

lemma dims_merge_common_loop [dims_ops]: "dims s t \<Longrightarrow> always (merge_common_loop t a b i n) (dims s)"
proof (induction n arbitrary: t i)
  case (Suc n)
  show ?case
    unfolding merge_common_loop.simps
    by (rule Suc dims_rules dims_ops always_bind [where Q = "dims s"] always_skip | assumption)+
qed (simp add: always_def)

lemma dims_merge_move_loop [dims_ops]: "dims s t \<Longrightarrow> always (merge_move_loop t a b i n) (dims s)"
proof (induction n arbitrary: t i)
  case (Suc n)
  show ?case
    unfolding merge_move_loop.simps
    by (rule Suc dims_ops always_bind [where Q = "dims s"] always_skip | assumption)+
qed (simp add: always_def)

lemma dims_merge_regions [dims_ops]: "dims s t \<Longrightarrow> always (merge_regions t a b) (dims s)"
  unfolding merge_regions_def merge_adjacencies_def
  by (rule dims_rules dims_ops always_bind [where Q = "dims s"] always_skip | assumption)+

lemma write_length: "always (buf_write xs i v) (\<lambda>ys. length ys = length xs)"
  by (auto simp: always_def buf_write_Some_iff)

lemma dims_fields [dims_ops]:
  "dims s t \<Longrightarrow> dims s (t\<lparr>freed_regions_head := p\<rparr>)"
  "dims s t \<Longrightarrow> length refs = length (region_refs t) \<Longrightarrow> dims s (t\<lparr>region_refs := refs\<rparr>)"
  by (simp_all add: dims_def)

lemma dims_merge_into_previous [dims_ops]: "dims s t \<Longrightarrow> always (merge_into_previous t prev cur x) (dims s)"
  unfolding merge_into_previous_def Let_def
  by (rule dims_rules dims_ops always_bind [where Q = "dims s"] always_bind [OF write_length] always_skip | assumption | simp)+

text \<open>The steps of the scan.\<close>

lemma dims_top_pixel [dims_ops]: "dims s t \<Longrightarrow> always (top_pixel t cur src x) (dims s)"
  unfolding top_pixel_def
  by (rule dims_rules dims_ops always_bind [OF dims_new_region] always_bind [where Q = "dims s"] always_skip
    | assumption | simp only: prod.case)+

lemma dims_top_loop [dims_ops]: "dims s t \<Longrightarrow> always (top_loop t cur src x n) (dims s)"
proof (induction n arbitrary: t x)
  case (Suc n)
  show ?case
    unfolding top_loop.simps by (rule Suc dims_ops always_bind [where Q = "dims s"] | assumption)+
qed (simp add: always_def)

lemma dims_top_line [dims_ops]: "dims s t \<Longrightarrow> always (top_line t cur src) (dims s)"
  unfolding top_line_def
  by (rule dims_rules dims_ops always_bind [OF dims_new_region] always_bind [where Q = "dims s"] always_skip
    | assumption | simp only: prod.case)+

lemma dims_left_edge [dims_ops]: "dims s t \<Longrightarrow> always (left_edge t prev cur src y) (dims s)"
  unfolding left_edge_def
  by (rule dims_rules dims_ops always_bind [OF dims_new_region] always_bind [where Q = "dims s"] always_skip
    | assumption | simp only: prod.case)+

lemma dims_center_pixel [dims_ops]: "dims s t \<Longrightarrow> always (center_pixel t prev cur src y x) (dims s)"
  unfolding center_pixel_def
  by (rule dims_rules dims_ops always_bind [OF dims_new_region] always_bind [where Q = "dims s"] always_skip
    | assumption | simp only: prod.case)+

lemma dims_center_loop [dims_ops]: "dims s t \<Longrightarrow> always (center_loop t prev cur src y x n) (dims s)"
proof (induction n arbitrary: t x)
  case (Suc n)
  show ?case
    unfolding center_loop.simps by (rule Suc dims_ops always_bind [where Q = "dims s"] | assumption)+
qed (simp add: always_def)

lemma dims_process_line [dims_ops]: "dims s t \<Longrightarrow> always (process_line t prev cur src y) (dims s)"
  unfolding process_line_def by (rule dims_ops always_bind [where Q = "dims s"] always_skip | assumption)+

lemma dims_line_loop: "dims s t \<Longrightarrow> always (line_loop t prev cur src y n) (\<lambda>(_, u). dims s u)"
proof (induction n arbitrary: t y prev cur)
  case (Suc n)
  show ?case
    unfolding line_loop.simps Let_def prod.case
    by (rule Suc dims_ops always_bind [where Q = "dims s"] | assumption)+
qed (simp add: always_def)

lemma dims_bottom_loop [dims_ops]: "dims s t \<Longrightarrow> always (bottom_loop t cur x n) (dims s)"
proof (induction n arbitrary: t x)
  case (Suc n)
  show ?case
    unfolding bottom_loop.simps by (rule Suc dims_ops always_bind [where Q = "dims s"] always_skip | assumption)+
qed (simp add: always_def)

lemma step_segmenter_dims:
  assumes "step_segmenter s src = Some s'"
  shows "dims s s'"
proof -
  let ?s0 = "s\<lparr>region_ref_count := 0, region_count := 0, freed_regions_head := Null\<rparr>"
  have s0: "dims s ?s0" by (simp add: dims_def)
  have "always (build_regions s src) (dims s)"
    unfolding build_regions_def Let_def
    by (rule s0 dims_rules dims_ops always_bind [OF dims_line_loop] always_bind [where Q = "dims s"] | assumption | simp only: prod.case)+
  then show ?thesis using assms by (auto simp: step_segmenter_def always_def dims_refl split: if_splits)
qed

end
