(* ===== verification/FiducialFinder.thy ===== *)
theory FiducialFinder
  imports FidtrackWarp SegmentMemory DefaultTrees PixelLoops
begin

text \<open>
  \<^verbatim>\<open>xtrack/fiducials.cpp\<close>: the class \<open>FiducialFinder\<close>, which segments a frame, searches it for
  fiducials and keeps position, speed and acceleration of the first four symbols. The frame is
  the memory of the OpenCV matrix, one byte per pixel; \<open>sqrt\<close>, \<open>atan\<close>, \<open>qsort\<close> and the
  contents of fresh memory are parameters.
\<close>

subsection \<open>The state\<close>

definition MAX_FIDUCIALS :: int where "MAX_FIDUCIALS = 4"

record TrackedFiducial =
  isTracked :: bool
  timestamp :: ieee
  tf_x :: ieee
  tf_y :: ieee
  tf_a :: ieee
  xspeed :: ieee
  yspeed :: ieee
  aspeed :: ieee
  xyacc :: ieee
  aacc :: ieee

record FiducialFinder =
  trackedFiducials :: "TrackedFiducial list"
  rawFiducials :: "FiducialX list"
  world :: World
  fidtrackerx :: Tracker
  fsize :: "int \<times> int"

abbreviation "sadd \<equiv> fadd binary32"
abbreviation "ssub \<equiv> fsub binary32"
abbreviation "sdiv \<equiv> fdiv binary32"

definition isNaN :: "ieee \<Rightarrow> bool" where
  "isNaN f \<longleftrightarrow> \<not> feq f f"

text \<open>\<open>const float PI = 3.14159265358979f\<close> of \<open>stdafx.h\<close>.\<close>

definition PI :: ieee where "PI = of_value binary32 False (314159265358979 / 10 ^ 14)"

subsection \<open>The constructor\<close>

definition make_dmap :: "int \<Rightarrow> int \<Rightarrow> (int \<times> int) list \<Rightarrow> (int \<times> int) list option" where
  "make_dmap W H dmap = for_range 0 H (\<lambda>y. for_range 0 W (\<lambda>x dmap.
     wr dmap (y * W + x) (to_short x, to_short y))) dmap"

definition untracked :: TrackedFiducial where
  "untracked = \<lparr>isTracked = False, timestamp = zero, tf_x = NaN, tf_y = NaN, tf_a = NaN, xspeed = NaN, yspeed = NaN,
     aspeed = NaN, xyacc = NaN, aacc = NaN\<rparr>"

text \<open>The memory that the members and the allocations hold before the constructor runs.\<close>

record FreshMemory =
  fresh_refs :: "RegionReference list"
  fresh_regions :: "Region list"
  fresh_rows :: "nat option list"
  fresh_head :: Region
  fresh_dmap :: "(int \<times> int) list"
  fresh_sums :: LeafSums
  fresh_chars :: "int \<Rightarrow> char list"
  fresh_raw :: "FiducialX list"
  fresh_tracked :: "TrackedFiducial list"

definition new_finder :: "FreshMemory \<Rightarrow> nat \<Rightarrow> nat \<Rightarrow> FiducialFinder option" where
  "new_finder m w h = do {
     let treeidmap = initialize_treeidmap;
     dmap \<leftarrow> make_dmap (int w) (int h) (fresh_dmap m);
     let tracker = initialize_tracker (fresh_chars m) (fresh_sums m) treeidmap (Some dmap);
     let segmenter = initialize_segmenter w h (nat (max_adjacencies treeidmap)) (fresh_refs m) (fresh_regions m) (fresh_rows m);
     fids \<leftarrow> for_range 0 MAX_FIDUCIALS (\<lambda>i fids. wr fids i untracked) (fresh_tracked m);
     Some \<lparr>trackedFiducials = fids, rawFiducials = fresh_raw m,
       world = \<lparr>seg = segmenter, heads = [fresh_head m]\<rparr>, fidtrackerx = tracker, fsize = (int w, int h)\<rparr>
   }"

subsection \<open>A frame\<close>

text \<open>The new values of a symbol that is reported at \<open>fidx\<close>.\<close>

definition track_symbol :: "(ieee \<Rightarrow> ieee) \<Rightarrow> int \<times> int \<Rightarrow> ieee \<Rightarrow> FiducialX \<Rightarrow> TrackedFiducial \<Rightarrow> TrackedFiducial" where
  "track_symbol sqrtf = (\<lambda>(W, H) secTime fidx t.
     let timeDiff = to_float (dsub secTime (timestamp t));
         t = t\<lparr>isTracked := True, timestamp := secTime\<rparr>;
         oldx = tf_x t; oldxSpeed = xspeed t;
         t = t\<lparr>tf_x := sdiv (fx fidx) (sint32 W)\<rparr>;
         t = (if \<not> isNaN oldx then t\<lparr>xspeed := sdiv (ssub (tf_x t) oldx) timeDiff\<rparr> else t);
         oldy = tf_y t; oldySpeed = yspeed t;
         t = t\<lparr>tf_y := sdiv (fy fidx) (sint32 H)\<rparr>;
         t = (if \<not> isNaN oldy then t\<lparr>yspeed := sdiv (ssub (tf_y t) oldy) timeDiff\<rparr> else t);
         t = (if \<not> isNaN oldxSpeed \<and> \<not> isNaN oldySpeed then
                let oldSpeed = sqrtf (sadd (smul oldxSpeed oldxSpeed) (smul oldySpeed oldySpeed));
                    newSpeed = sqrtf (sadd (smul (xspeed t) (xspeed t)) (smul (yspeed t) (yspeed t)))
                in t\<lparr>xyacc := sdiv (ssub newSpeed oldSpeed) timeDiff\<rparr>
              else t);
         olda = tf_a t; oldaSpeed = aspeed t;
         t = t\<lparr>tf_a := angle fidx\<rparr>
     in if \<not> isNaN olda then
          let delta = ssub (tf_a t) olda; twoPI = smul (sint32 2) PI;
              delta = (if fless (fabs (sadd delta twoPI)) (fabs delta) then sadd delta twoPI
                       else if fless (fabs (ssub delta twoPI)) (fabs delta) then ssub delta twoPI else delta);
              t = t\<lparr>aspeed := sdiv delta timeDiff\<rparr>
          in if \<not> isNaN oldaSpeed then t\<lparr>aacc := sdiv (ssub (aspeed t) oldaSpeed) timeDiff\<rparr> else t
        else t)"

text \<open>The bodies of the two loops of \<open>findFiducials\<close>.\<close>

definition transfer_fiducial ::
  "(ieee \<Rightarrow> ieee) \<Rightarrow> int \<times> int \<Rightarrow> ieee \<Rightarrow> FiducialX list \<Rightarrow> int \<Rightarrow> TrackedFiducial list \<Rightarrow> TrackedFiducial list option" where
  "transfer_fiducial sqrtf wh secTime raw i fids = do {
     fidx \<leftarrow> rd raw i;
     if fid fidx \<ge> 0 \<and> fid fidx < MAX_FIDUCIALS then do {
       t \<leftarrow> rd fids (fid fidx);
       if \<not> isTracked t \<or> \<not> feq (timestamp t) secTime
       then wr fids (fid fidx) (track_symbol sqrtf wh secTime fidx t)
       else Some fids
     } else Some fids
   }"

definition drop_untracked :: "ieee \<Rightarrow> int \<Rightarrow> TrackedFiducial list \<Rightarrow> TrackedFiducial list option" where
  "drop_untracked secTime i fids = do {
     t \<leftarrow> rd fids i;
     if \<not> feq (timestamp t) secTime then wr fids i (t\<lparr>isTracked := False\<rparr>) else Some fids
   }"

text \<open>The local variable \<open>tracked\<close> that is returned is never assigned after its initialisation.\<close>

definition findFiducials ::
  "qsort_fun \<Rightarrow> (ieee \<Rightarrow> ieee) \<Rightarrow> (ieee \<Rightarrow> ieee) \<Rightarrow> FiducialFinder \<Rightarrow> byte list \<Rightarrow> int \<Rightarrow> int \<Rightarrow> ieee \<Rightarrow> (int \<times> FiducialFinder) option" where
  "findFiducials qsort atan sqrtf ff data cols rows time = do {
     s \<leftarrow> step_segmenter (seg (world ff)) data;
     (num, raw, ft, w) \<leftarrow> find_fiducialsX qsort atan (rawFiducials ff) MAX_FIDUCIALS (fidtrackerx ff) ((world ff)\<lparr>seg := s\<rparr>) cols rows;
     let secTime = ddiv time (dint 1000);
     let found = 0;
     fids \<leftarrow> for_range 0 num (transfer_fiducial sqrtf (fsize ff) secTime raw) (trackedFiducials ff);
     fids \<leftarrow> for_range 0 MAX_FIDUCIALS (drop_untracked secTime) fids;
     Some (found, ff\<lparr>trackedFiducials := fids, rawFiducials := raw, world := w, fidtrackerx := ft\<rparr>)
   }"

subsection \<open>The state between frames\<close>

lemma make_dmap_ok:
  assumes "0 < W" "W \<le> 32768" "0 < H" "H \<le> 32768" "ilength mem = W * H"
  shows "\<exists>d. make_dmap W H mem = Some d \<and> identity_warp W H d"
proof -
  let ?P = "\<lambda>l (x :: int) (y :: int) d. ilength d = W * H \<and> set l \<subseteq> {0..<W} \<times> {0..<H} \<and>
    (\<forall>(a, b) \<in> set l. d ! nat (b * W + a) = (a, b))"
  have "\<exists>d. for_range 0 H (\<lambda>y. for_range 0 W (\<lambda>x d. wr d (y * W + x) (to_short x, to_short y))) mem = Some d \<and>
      ?P (pixels 0 W 0 H) 0 H d"
  proof (rule pixel_loop_rule' [where P = ?P])
    fix l x y d assume x: "0 \<le> x" "x < W" and y: "0 \<le> y" "y < H" and P: "?P l x y d"
    have i: "0 \<le> y * W + x" "y * W + x < W * H" using pixel_in_image [of x W y H] x y by simp_all
    let ?d = "d[nat (y * W + x) := (x, y)]"
    have run: "wr d (y * W + x) (to_short x, to_short y) = Some ?d" using i P x y assms by (simp add: wr_eq)
    have "?d ! nat (b * W + a) = (a, b)" if ab: "(a, b) \<in> set (l @ [(x, y)])" for a b
    proof (cases "(a, b) = (x, y)")
      case True
      then show ?thesis using i P by (simp add: nat_less_iff)
    next
      case False
      then have "(a, b) \<in> set l" using ab by auto
      moreover from this have "0 \<le> a" "a < W" "0 \<le> b" using P by auto
      then have "nat (b * W + a) \<noteq> nat (y * W + x)" using pixel_index [of a W b x y] x y False by auto
      ultimately show ?thesis using P by auto
    qed
    then have "?P (l @ [(x, y)]) (x + 1) y ?d" using P x y by auto
    then show "\<exists>d'. wr d (y * W + x) (to_short x, to_short y) = Some d' \<and> ?P (l @ [(x, y)]) (x + 1) y d'"
      using run by blast
  qed (use assms in simp_all)
  then obtain d where d: "make_dmap W H mem = Some d" "?P (pixels 0 W 0 H) 0 H d" unfolding make_dmap_def by blast
  have "d ! nat (W * y + x) = (x, y)" if "0 \<le> x" "x < W" "0 \<le> y" "y < H" for x y
    using d(2) that by (auto simp: set_pixels mult.commute [of W y])
  then show ?thesis using d assms by (auto simp: identity_warp_def)
qed

definition finder_ok :: "nat \<Rightarrow> nat \<Rightarrow> FiducialFinder \<Rightarrow> bool" where
  "finder_ok w h ff \<longleftrightarrow> segmenter_memory (seg (world ff)) \<and> width (seg (world ff)) = w \<and> height (seg (world ff)) = h \<and>
     max_adjacent_regions (seg (world ff)) = 19 \<and> heads (world ff) \<noteq> [] \<and>
     length (trackedFiducials ff) = 4 \<and> length (rawFiducials ff) = 4 \<and> fsize ff = (int w, int h) \<and>
     (\<exists>malloc d. (\<forall>n. length (malloc n) = nat n) \<and> identity_warp (int w) (int h) d \<and>
        tracker_ok malloc initialize_treeidmap (Some d) (fidtrackerx ff))"

definition fresh_memory :: "nat \<Rightarrow> nat \<Rightarrow> FreshMemory \<Rightarrow> bool" where
  "fresh_memory w h m \<longleftrightarrow> length (fresh_refs m) = w * h \<and> length (fresh_regions m) = w * h \<and> length (fresh_rows m) = 2 * w \<and>
     length (fresh_dmap m) = w * h \<and> (\<forall>n. length (fresh_chars m n) = nat n) \<and>
     length (fresh_raw m) = 4 \<and> length (fresh_tracked m) = 4"

lemma four: "(i :: nat) < 4 \<longleftrightarrow> i = 0 \<or> i = 1 \<or> i = 2 \<or> i = 3"
  by auto

lemma new_finder_ok:
  assumes "0 < w" "w \<le> 32768" "0 < h" "h \<le> 32768" "fresh_memory w h m"
  shows "\<exists>ff. new_finder m w h = Some ff \<and> finder_ok w h ff \<and> trackedFiducials ff = replicate 4 untracked"
proof -
  obtain d where d: "make_dmap (int w) (int h) (fresh_dmap m) = Some d" "identity_warp (int w) (int h) d"
    using make_dmap_ok [of "int w" "int h" "fresh_dmap m"] assms by (auto simp: fresh_memory_def)
  have "\<exists>t. for_range 0 MAX_FIDUCIALS (\<lambda>i fids. wr fids i untracked) (fresh_tracked m) = Some t \<and>
      length t = 4 \<and> (\<forall>i < 4. int i < MAX_FIDUCIALS \<longrightarrow> t ! i = untracked)"
  proof (rule for_range_rule [where P = "\<lambda>j t. length t = 4 \<and> (\<forall>i < 4. int i < j \<longrightarrow> t ! i = untracked)"])
    fix j :: int and t :: "TrackedFiducial list"
    assume "0 \<le> j" "j < MAX_FIDUCIALS" and t: "length t = 4 \<and> (\<forall>i < 4. int i < j \<longrightarrow> t ! i = untracked)"
    then show "\<exists>t'. wr t j untracked = Some t' \<and> length t' = 4 \<and> (\<forall>i < 4. int i < j + 1 \<longrightarrow> t' ! i = untracked)"
      by (auto simp: wr_eq MAX_FIDUCIALS_def nth_list_update)
  qed (use assms in \<open>auto simp: fresh_memory_def MAX_FIDUCIALS_def\<close>)
  then obtain t where t: "for_range 0 MAX_FIDUCIALS (\<lambda>i fids. wr fids i untracked) (fresh_tracked m) = Some t"
      "length t = 4" "\<forall>i < 4. int i < MAX_FIDUCIALS \<longrightarrow> t ! i = untracked" by blast
  have "t = replicate 4 untracked" using t(2,3) by (intro nth_equalityI) (auto simp: MAX_FIDUCIALS_def)
  moreover let ?ft = "initialize_tracker (fresh_chars m) (fresh_sums m) initialize_treeidmap (Some d)"
  have "\<exists>malloc d. (\<forall>n. length (malloc n) = nat n) \<and> identity_warp (int w) (int h) d \<and> tracker_ok malloc initialize_treeidmap (Some d) ?ft"
    using assms(5) d(2) initialize_tracker_ok unfolding fresh_memory_def by blast
  ultimately show ?thesis
    using d t(1,2) assms(5)
    by (simp add: new_finder_def Let_def finder_ok_def fresh_memory_def initialize_segmenter_def segmenter_memory_def default_counts)
qed

subsection \<open>Segmentation and search\<close>

lemma default_root_height:
  assumes "is_fiducial_root (initialize_fidtrackerX malloc (TreeIdMapInfo.truncate initialize_treeidmap)) t" "nodes t \<le> 8002"
  shows "tree_height t \<le> 2"
proof -
  have "max_depth (initialize_fidtrackerX malloc (TreeIdMapInfo.truncate initialize_treeidmap)) = 2"
    by (simp add: initialize_fidtrackerX_def Let_def TreeIdMapInfo.defs default_counts)
  then have "short_height t \<le> 2"
    using assms(1) by (auto simp: is_fiducial_root_def exact_root_def partial_root_def fuzzy_root_def depth_fits_def)
  then show ?thesis using short_height_exact [of t] assms(2) by simp
qed

text \<open>What one call of \<open>find_fiducialsX\<close> reports for the roots \<open>rs\<close> of a segmented frame.\<close>

definition frame_reports :: "World \<Rightarrow> World \<Rightarrow> nat list \<Rightarrow> nat \<Rightarrow> FiducialX list \<Rightarrow> bool" where
  "frame_reports w w1 rs n raw \<longleftrightarrow> int n = min MAX_FIDUCIALS (int (length rs)) \<and>
     (\<forall>j < n. \<exists>p t. region_tree (seg w) p (rs ! j) t \<and>
        reports initialize_treeidmap (reg (seg w1) (rs ! j)) (shown_tree (seg w) (rs ! j) t) (raw ! j))"

lemma search_ok:
  assumes ok: "finder_ok w h ff" and bin: "binary_image w h data" and q: "sorts qsort"
    and few: "\<And>s. step_segmenter (seg (world ff)) data = Some s \<Longrightarrow> region_count s \<le> 32768"
  shows "\<exists>s n raw ft v w1 rs. step_segmenter (seg (world ff)) data = Some s \<and> segmented s \<and>
    find_fiducialsX qsort atan (rawFiducials ff) MAX_FIDUCIALS (fidtrackerx ff) ((world ff)\<lparr>seg := s\<rparr>) (int w) (int h) =
      Some (int n, raw, ft, v) \<and>
    collect_roots (tracker (fidtrackerx ff)) ((world ff)\<lparr>seg := s\<rparr>) = Some w1 \<and> ring_of w1 root_regions_head rs \<and>
    n \<le> length raw \<and> frame_reports ((world ff)\<lparr>seg := s\<rparr>) w1 rs n raw \<and>
    (\<forall>fids. length fids = 4 \<longrightarrow> finder_ok w h (ff\<lparr>trackedFiducials := fids, rawFiducials := raw, world := v, fidtrackerx := ft\<rparr>))"
proof -
  have F: "segmenter_memory (seg (world ff))" "width (seg (world ff)) = w" "height (seg (world ff)) = h"
    "max_adjacent_regions (seg (world ff)) = 19" "heads (world ff) \<noteq> []" "length (trackedFiducials ff) = 4"
    "length (rawFiducials ff) = 4" "fsize ff = (int w, int h)"
    using ok by (simp_all add: finder_ok_def)
  obtain malloc d where m: "\<And>n. length (malloc n) = nat n" "identity_warp (int w) (int h) d"
      "tracker_ok malloc initialize_treeidmap (Some d) (fidtrackerx ff)"
    using ok by (auto simp: finder_ok_def)
  obtain s f where s: "step_segmenter (seg (world ff)) data = Some s" "scan_inv w h data (border_pixels w h) (w * h) f s"
    using step_segmenter_ok [of "seg (world ff)" data] bin F by auto
  have seg: "segmented s" using s(1) bin F by (auto simp: segmented_def)
  note D = step_segmenter_dims [OF s(1), unfolded dims_def]
  have mem: "segmenter_memory s" "width s = w" "height s = h" using scan_invD(1-3) [OF s(2)] .
  have adj: "max_adjacent_regions s = 19" using D F(4) by simp
  let ?w = "(world ff)\<lparr>seg := s\<rparr>" and ?t0 = "initialize_fidtrackerX malloc (TreeIdMapInfo.truncate initialize_treeidmap)"
  have me: "measurable atan (Some d) (int w) (int h) (seg ?w) g r"
    if "traversed (seg ?w) g" "r \<in> set (order g)" "is_fiducial_root ?t0 (below g r)" "nodes (below g r) \<le> 8002" for g r
    using measurable_identity [of s g r d atan] that default_root_height [OF that(3,4)] m(2) mem by simp
  have c: "0 < MAX_FIDUCIALS" "MAX_FIDUCIALS \<le> ilength (rawFiducials ff)" using F by (simp_all add: MAX_FIDUCIALS_def)
  have pre: "segmented (seg ?w)" "max_adjacent_regions (seg ?w) \<le> 32767" "heads ?w \<noteq> []" "region_count (seg ?w) \<le> 32768"
    "max_node_count initialize_treeidmap \<le> 8000" "tm_max_depth initialize_treeidmap \<le> 207"
    using seg adj F(5) few [OF s(1)] by (simp_all add: default_counts)
  obtain n raw ft v w1 rs where r: "find_fiducialsX qsort atan (rawFiducials ff) MAX_FIDUCIALS (fidtrackerx ff) ?w (int w) (int h) =
      Some (int n, raw, ft, v)"
      "collect_roots (tracker (fidtrackerx ff)) ?w = Some w1" "ring_of w1 root_regions_head rs"
      "int n = min MAX_FIDUCIALS (int (length rs))" "length raw = length (rawFiducials ff)"
      "\<forall>j < n. \<exists>p t. region_tree (seg ?w) p (rs ! j) t \<and> tree_height t \<le> 207 \<and>
        reports initialize_treeidmap (reg (seg w1) (rs ! j)) (shown_tree (seg ?w) (rs ! j) t) (raw ! j)"
      "tracker_ok malloc initialize_treeidmap (Some d) ft"
    using find_fiducials_ok [OF pre(1-4) m(1) pre(5,6) q m(3) c me] by blast
  have K: "keeps ?w v" by (rule find_fiducials_keeps [OF r(1)])
  then have "(seg v)\<lparr>regions := []\<rparr> = s\<lparr>regions := []\<rparr>" "length (regions (seg v)) = length (regions s)" "heads v \<noteq> []"
    using F(5) by (auto simp: keeps_def)
  note E = arg_cong [OF this(1), of width] arg_cong [OF this(1), of height] arg_cong [OF this(1), of max_adjacent_regions]
    arg_cong [OF this(1), of region_refs] arg_cong [OF this(1), of regions_under_construction] this(2,3)
  have fin: "finder_ok w h (ff\<lparr>trackedFiducials := fids, rawFiducials := raw, world := v, fidtrackerx := ft\<rparr>)" if "length fids = 4" for fids
    using that E mem adj F r(5,7) m(1,2) by (auto simp: finder_ok_def segmenter_memory_def)
  have "frame_reports ?w w1 rs n raw" using r(4,6) unfolding frame_reports_def by blast
  moreover have "n \<le> length raw" using r(4,5) F(7) by (simp add: MAX_FIDUCIALS_def)
  ultimately show ?thesis using s(1) seg r(1-3) fin by blast
qed

subsection \<open>The symbols after a frame\<close>

definition seen_at :: "ieee \<Rightarrow> TrackedFiducial \<Rightarrow> bool" where
  "seen_at secTime t \<longleftrightarrow> isTracked t \<and> timestamp t = secTime"

lemma seen_at_updates:
  "seen_at T (t\<lparr>isTracked := True, timestamp := T\<rparr>)" "seen_at T t \<Longrightarrow> seen_at T (t\<lparr>tf_x := v\<rparr>)"
  "seen_at T t \<Longrightarrow> seen_at T (t\<lparr>tf_y := v\<rparr>)" "seen_at T t \<Longrightarrow> seen_at T (t\<lparr>tf_a := v\<rparr>)"
  "seen_at T t \<Longrightarrow> seen_at T (t\<lparr>xspeed := v\<rparr>)" "seen_at T t \<Longrightarrow> seen_at T (t\<lparr>yspeed := v\<rparr>)"
  "seen_at T t \<Longrightarrow> seen_at T (t\<lparr>aspeed := v\<rparr>)" "seen_at T t \<Longrightarrow> seen_at T (t\<lparr>xyacc := v\<rparr>)"
  "seen_at T t \<Longrightarrow> seen_at T (t\<lparr>aacc := v\<rparr>)"
  by (simp_all add: seen_at_def)

lemma seen_at_if: "seen_at T a \<Longrightarrow> seen_at T b \<Longrightarrow> seen_at T (if c then a else b)"
  by simp

lemma seen_at_let:
  "seen_at T e \<Longrightarrow> (\<And>x. seen_at T x \<Longrightarrow> seen_at T (f x)) \<Longrightarrow> seen_at T (let x = e in f x)"
  "(\<And>y. seen_at T (g y)) \<Longrightarrow> seen_at T (let y = (v :: ieee) in g y)"
  by simp_all

lemma track_symbol_seen: "seen_at secTime (track_symbol sqrtf wh secTime f t)"
  unfolding track_symbol_def
  by (cases wh; simp only: prod.case) (rule seen_at_updates seen_at_if seen_at_let | assumption)+

lemma track_symbol_facts [simp]:
  "isTracked (track_symbol sqrtf wh secTime f t)" "timestamp (track_symbol sqrtf wh secTime f t) = secTime"
  using track_symbol_seen unfolding seen_at_def by blast+

lemma transfer_length:
  assumes "rd raw i = Some f" "length fids = 4"
  shows "\<exists>fids'. transfer_fiducial sqrtf wh secTime raw i fids = Some fids' \<and> length fids' = 4"
  using assms by (auto simp: transfer_fiducial_def rd_eq wr_eq MAX_FIDUCIALS_def)

lemma drop_ok:
  assumes "length fids = 4"
  shows "\<exists>fids'. for_range 0 MAX_FIDUCIALS (drop_untracked secTime) fids = Some fids' \<and> length fids' = 4 \<and>
    (\<forall>k < 4. fids' ! k = (if feq (timestamp (fids ! k)) secTime then fids ! k else (fids ! k)\<lparr>isTracked := False\<rparr>))"
proof -
  let ?t = "\<lambda>k. if feq (timestamp (fids ! k)) secTime then fids ! k else (fids ! k)\<lparr>isTracked := False\<rparr>"
  let ?P = "\<lambda>j l. length l = 4 \<and> (\<forall>k < 4. l ! k = (if int k < j then ?t k else fids ! k))"
  have "\<exists>fids'. for_range 0 MAX_FIDUCIALS (drop_untracked secTime) fids = Some fids' \<and> ?P MAX_FIDUCIALS fids'"
  proof (rule for_range_rule [where P = ?P])
    fix j l assume j: "0 \<le> j" "j < MAX_FIDUCIALS" and P: "?P j l"
    then have i: "nat j < 4" "l ! nat j = fids ! nat j" by (simp_all add: MAX_FIDUCIALS_def)
    let ?l = "l[nat j := ?t (nat j)]"
    have "drop_untracked secTime j l = Some ?l"
      using i j P list_update_id [of l "nat j"] by (simp add: drop_untracked_def rd_eq wr_eq MAX_FIDUCIALS_def del: list_update_id)
    moreover have "?P (j + 1) ?l" using i j P by (auto simp: nth_list_update)
    ultimately show "\<exists>l'. drop_untracked secTime j l = Some l' \<and> ?P (j + 1) l'" by blast
  qed (use assms in \<open>simp_all add: MAX_FIDUCIALS_def\<close>)
  then show ?thesis by (auto simp: MAX_FIDUCIALS_def)
qed

text \<open>The value of symbol \<open>k\<close>: of several reports of a symbol, the first one counts.\<close>

definition symbol_after ::
  "(ieee \<Rightarrow> ieee) \<Rightarrow> int \<times> int \<Rightarrow> ieee \<Rightarrow> FiducialX list \<Rightarrow> nat \<Rightarrow> TrackedFiducial \<Rightarrow> TrackedFiducial" where
  "symbol_after sqrtf wh secTime raw k t = (case find (\<lambda>f. fid f = int k) raw of
     None \<Rightarrow> t
   | Some f \<Rightarrow> if \<not> isTracked t \<or> \<not> feq (timestamp t) secTime then track_symbol sqrtf wh secTime f t else t)"

lemma find_snoc: "find P (xs @ [x]) = (case find P xs of None \<Rightarrow> if P x then Some x else None | Some y \<Rightarrow> Some y)"
  by (induction xs) auto

lemma transfer_ok:
  assumes "length fids = 4" "n \<le> length raw" and T: "feq secTime secTime"
  shows "\<exists>fids'. for_range 0 (int n) (transfer_fiducial sqrtf wh secTime raw) fids = Some fids' \<and> length fids' = 4 \<and>
    (\<forall>k < 4. fids' ! k = symbol_after sqrtf wh secTime (take n raw) k (fids ! k))"
proof -
  let ?P = "\<lambda>j l. length l = 4 \<and> (\<forall>k < 4. l ! k = symbol_after sqrtf wh secTime (take (nat j) raw) k (fids ! k))"
  have "\<exists>fids'. for_range 0 (int n) (transfer_fiducial sqrtf wh secTime raw) fids = Some fids' \<and> ?P (int n) fids'"
  proof (rule for_range_rule [where P = ?P])
    fix j l assume j: "0 \<le> j" "j < int n" and P: "?P j l"
    let ?f = "raw ! nat j"
    have jn: "nat j < length raw" using j assms(2) by simp
    have tk: "take (nat (j + 1)) raw = take (nat j) raw @ [?f]"
      using take_Suc_conv_app_nth [OF jn] j(1) by (simp add: nat_add_distrib)
    have other: "symbol_after sqrtf wh secTime (take (nat (j + 1)) raw) k t = symbol_after sqrtf wh secTime (take (nat j) raw) k t"
      if "fid ?f \<noteq> int k" for k t
      using that by (simp add: symbol_after_def tk find_snoc split: option.splits)
    show "\<exists>l'. transfer_fiducial sqrtf wh secTime raw j l = Some l' \<and> ?P (j + 1) l'"
    proof (cases "fid ?f \<ge> 0 \<and> fid ?f < MAX_FIDUCIALS")
      case False
      then have "?P (j + 1) l" using P other by (auto simp: MAX_FIDUCIALS_def)
      moreover have "transfer_fiducial sqrtf wh secTime raw j l = Some l"
        using False jn j(1) by (auto simp: transfer_fiducial_def rd_eq)
      ultimately show ?thesis by blast
    next
      case True
      let ?k = "nat (fid ?f)" and ?t = "l ! nat (fid ?f)"
      have k: "?k < 4" "fid ?f = int ?k" using True by (auto simp: MAX_FIDUCIALS_def)
      let ?t' = "if \<not> isTracked ?t \<or> \<not> feq (timestamp ?t) secTime then track_symbol sqrtf wh secTime ?f ?t else ?t"
      have run: "transfer_fiducial sqrtf wh secTime raw j l = Some (l[?k := ?t'])"
      proof -
        have r: "rd raw j = Some ?f" "rd l (fid ?f) = Some ?t" "\<And>x. wr l (fid ?f) x = Some (l[?k := x])"
          using jn j(1) P True k(1) by (auto simp: rd_eq wr_eq MAX_FIDUCIALS_def)
        show ?thesis using True by (simp add: transfer_fiducial_def r)
      qed
      have "?t' = symbol_after sqrtf wh secTime (take (nat (j + 1)) raw) ?k (fids ! ?k)"
      proof (cases "find (\<lambda>f. fid f = int ?k) (take (nat j) raw)")
        case None
        then have "?t = fids ! ?k" using P k(1) by (simp add: symbol_after_def)
        then show ?thesis using None k(2) by (simp add: symbol_after_def tk find_snoc)
      next
        case (Some f)
        then have t: "?t = (if \<not> isTracked (fids ! ?k) \<or> \<not> feq (timestamp (fids ! ?k)) secTime
            then track_symbol sqrtf wh secTime f (fids ! ?k) else fids ! ?k)" using P k(1) by (simp add: symbol_after_def)
        then have "isTracked ?t \<and> feq (timestamp ?t) secTime" using T by simp
        then show ?thesis using Some t by (simp add: symbol_after_def tk find_snoc)
      qed
      then have "?P (j + 1) (l[?k := ?t'])" using P k other by (auto simp: nth_list_update)
      then show ?thesis using run by blast
    qed
  qed (use assms(1) in \<open>simp_all add: symbol_after_def\<close>)
  then show ?thesis by simp
qed

text \<open>Images of at most 32768 regions, the range of the 16 bit counters of the tree search; all
  images of at most 32768 pixels are such.\<close>

definition few_regions :: "nat \<Rightarrow> nat \<Rightarrow> byte list \<Rightarrow> bool" where
  "few_regions w h data \<longleftrightarrow> (\<forall>s s'. segmenter_memory s \<longrightarrow> width s = w \<longrightarrow> height s = h \<longrightarrow>
     step_segmenter s data = Some s' \<longrightarrow> region_count s' \<le> 32768)"

lemma small_image:
  assumes "binary_image w h data" "w * h \<le> 32768"
  shows "few_regions w h data"
  unfolding few_regions_def
proof (intro allI impI)
  fix s s' assume s: "segmenter_memory s" "width s = w" "height s = h" and s': "step_segmenter s data = Some s'"
  have "segmented s'" using assms(1) s s' by (auto simp: segmented_def)
  then have "region_count s' \<le> length (regions s')" using segmented_fresh(1) by (meson leI less_irrefl)
  moreover have "length (regions s') = w * h"
    using step_segmenter_dims [OF s'] s by (simp add: dims_def segmenter_memory_def)
  ultimately show "region_count s' \<le> 32768" using assms(2) by simp
qed

lemma finder_few:
  assumes "finder_ok w h ff" "few_regions w h data" "step_segmenter (seg (world ff)) data = Some s"
  shows "region_count s \<le> 32768"
  using assms unfolding finder_ok_def few_regions_def by blast

lemma frame_ok:
  assumes ok: "finder_ok w h ff" and bin: "binary_image w h data" and few: "few_regions w h data" and q: "sorts qsort"
  shows "\<exists>ff'. findFiducials qsort atan sqrtf ff data (int w) (int h) time = Some (0, ff') \<and> finder_ok w h ff'"
proof -
  obtain s n raw ft v where r: "step_segmenter (seg (world ff)) data = Some s"
      "find_fiducialsX qsort atan (rawFiducials ff) MAX_FIDUCIALS (fidtrackerx ff) ((world ff)\<lparr>seg := s\<rparr>) (int w) (int h) =
        Some (int n, raw, ft, v)" "n \<le> length raw"
      "\<forall>fids. length fids = 4 \<longrightarrow> finder_ok w h (ff\<lparr>trackedFiducials := fids, rawFiducials := raw, world := v, fidtrackerx := ft\<rparr>)"
    using search_ok [OF ok bin q finder_few [OF ok few], of atan] by blast
  let ?T = "ddiv time (dint 1000)"
  have "\<exists>l. for_range 0 (int n) (transfer_fiducial sqrtf (fsize ff) ?T raw) (trackedFiducials ff) = Some l \<and> length l = 4"
  proof (rule for_range_rule [where P = "\<lambda>_ l. length l = 4"])
    fix j and l :: "TrackedFiducial list" assume "0 \<le> j" "j < int n" "length l = 4"
    then show "\<exists>l'. transfer_fiducial sqrtf (fsize ff) ?T raw j l = Some l' \<and> length l' = 4"
      using transfer_length [of raw j "raw ! nat j" l] r(3) by (simp add: rd_eq)
  qed (use ok in \<open>simp_all add: finder_ok_def\<close>)
  then obtain l where l: "for_range 0 (int n) (transfer_fiducial sqrtf (fsize ff) ?T raw) (trackedFiducials ff) = Some l" "length l = 4"
    by blast
  obtain l' where l': "for_range 0 MAX_FIDUCIALS (drop_untracked ?T) l = Some l'" "length l' = 4"
    using drop_ok [OF l(2)] by blast
  then show ?thesis using r(1,2,4) l(1) by (simp add: findFiducials_def)
qed

text \<open>The values of the symbols after a frame with the time \<open>secTime\<close>, which is a number.\<close>

lemma frame_symbols:
  assumes ok: "finder_ok w h ff" and bin: "binary_image w h data" and few: "few_regions w h data" and q: "sorts qsort"
    and T: "secTime = ddiv time (dint 1000)" "feq secTime secTime"
  shows "\<exists>ff' s w1 rs n. findFiducials qsort atan sqrtf ff data (int w) (int h) time = Some (0, ff') \<and> finder_ok w h ff' \<and>
    step_segmenter (seg (world ff)) data = Some s \<and> segmented s \<and>
    collect_roots (tracker (fidtrackerx ff)) ((world ff)\<lparr>seg := s\<rparr>) = Some w1 \<and> ring_of w1 root_regions_head rs \<and>
    n \<le> length (rawFiducials ff') \<and> frame_reports ((world ff)\<lparr>seg := s\<rparr>) w1 rs n (rawFiducials ff') \<and>
    (\<forall>k < 4. let t = symbol_after sqrtf (int w, int h) secTime (take n (rawFiducials ff')) k (trackedFiducials ff ! k)
       in trackedFiducials ff' ! k = (if feq (timestamp t) secTime then t else t\<lparr>isTracked := False\<rparr>))"
proof -
  obtain s n raw ft v w1 rs where r: "step_segmenter (seg (world ff)) data = Some s" "segmented s"
      "find_fiducialsX qsort atan (rawFiducials ff) MAX_FIDUCIALS (fidtrackerx ff) ((world ff)\<lparr>seg := s\<rparr>) (int w) (int h) =
        Some (int n, raw, ft, v)"
      "collect_roots (tracker (fidtrackerx ff)) ((world ff)\<lparr>seg := s\<rparr>) = Some w1" "ring_of w1 root_regions_head rs"
      "n \<le> length raw" "frame_reports ((world ff)\<lparr>seg := s\<rparr>) w1 rs n raw"
      "\<forall>fids. length fids = 4 \<longrightarrow> finder_ok w h (ff\<lparr>trackedFiducials := fids, rawFiducials := raw, world := v, fidtrackerx := ft\<rparr>)"
    using search_ok [OF ok bin q finder_few [OF ok few], of atan] by blast
  have F: "length (trackedFiducials ff) = 4" "fsize ff = (int w, int h)" using ok by (simp_all add: finder_ok_def)
  obtain l where l: "for_range 0 (int n) (transfer_fiducial sqrtf (int w, int h) secTime raw) (trackedFiducials ff) = Some l" "length l = 4"
      "\<forall>k < 4. l ! k = symbol_after sqrtf (int w, int h) secTime (take n raw) k (trackedFiducials ff ! k)"
    using transfer_ok [OF F(1) r(6) T(2), of sqrtf "(int w, int h)"] by blast
  obtain l' where l': "for_range 0 MAX_FIDUCIALS (drop_untracked secTime) l = Some l'" "length l' = 4"
      "\<forall>k < 4. l' ! k = (if feq (timestamp (l ! k)) secTime then l ! k else (l ! k)\<lparr>isTracked := False\<rparr>)"
    using drop_ok [OF l(2)] by blast
  let ?ff' = "ff\<lparr>trackedFiducials := l', rawFiducials := raw, world := v, fidtrackerx := ft\<rparr>"
  have run: "findFiducials qsort atan sqrtf ff data (int w) (int h) time = Some (0, ?ff')"
    using r(1,3) l(1) l'(1) F(2) T(1) by (simp add: findFiducials_def)
  have "\<forall>k < 4. let t = symbol_after sqrtf (int w, int h) secTime (take n (rawFiducials ?ff')) k (trackedFiducials ff ! k)
       in trackedFiducials ?ff' ! k = (if feq (timestamp t) secTime then t else t\<lparr>isTracked := False\<rparr>)"
    using l(3) l'(3) by (simp add: Let_def)
  moreover have "finder_ok w h ?ff'" using r(8) l'(2) by blast
  ultimately show ?thesis
    using run r(1,2,4-7) by (intro exI [of _ ?ff'] exI [of _ s] exI [of _ w1] exI [of _ rs] exI [of _ n]) simp
qed

subsection \<open>Properties\<close>

text \<open>A sequence of frames, each with its time.\<close>

fun track_frames ::
  "qsort_fun \<Rightarrow> (ieee \<Rightarrow> ieee) \<Rightarrow> (ieee \<Rightarrow> ieee) \<Rightarrow> int \<Rightarrow> int \<Rightarrow> FiducialFinder \<Rightarrow> (byte list \<times> ieee) list \<Rightarrow> FiducialFinder option" where
  "track_frames qsort atan sqrtf cols rows ff [] = Some ff"
| "track_frames qsort atan sqrtf cols rows ff ((data, time) # frames) = do {
     (_, ff) \<leftarrow> findFiducials qsort atan sqrtf ff data cols rows time;
     track_frames qsort atan sqrtf cols rows ff frames
   }"

lemma track_frames_ok:
  assumes "sorts qsort" "\<forall>(data, time) \<in> set frames. binary_image w h data \<and> few_regions w h data" "finder_ok w h ff"
  shows "\<exists>ff'. track_frames qsort atan sqrtf (int w) (int h) ff frames = Some ff' \<and> finder_ok w h ff'"
  using assms(2,3)
proof (induction frames arbitrary: ff)
  case (Cons frame frames)
  obtain data time where f: "frame = (data, time)" by (cases frame)
  obtain ff' where "findFiducials qsort atan sqrtf ff data (int w) (int h) time = Some (0, ff')" "finder_ok w h ff'"
    using frame_ok [OF Cons.prems(2) _ _ assms(1), of data atan sqrtf time] Cons.prems(1) f by fastforce
  then show ?case using Cons.IH [of ff'] Cons.prems(1) f by simp
qed simp

text \<open>C6: From the constructor on, \<open>findFiducials\<close> returns for every frame of every sequence of
  binary images of the size of the finder, with at most 32768 regions each and with any time
  values: no assertion fails, no access is out of range, no conversion to \<open>int\<close> or recursion
  is undefined, and the state is fit for the next frame.\<close>

theorem frames_never_fault:
  assumes "0 < w" "w \<le> 32768" "0 < h" "h \<le> 32768" "fresh_memory w h m" "sorts qsort"
    and "\<forall>(data, time) \<in> set frames. binary_image w h data \<and> few_regions w h data"
  shows "\<exists>ff ff'. new_finder m w h = Some ff \<and> track_frames qsort atan sqrtf (int w) (int h) ff frames = Some ff' \<and>
    finder_ok w h ff'"
  using new_finder_ok [OF assms(1-5)] track_frames_ok [OF assms(6,7)] by blast

definition small_memory :: FreshMemory where
  "small_memory = \<lparr>fresh_refs = replicate 9 \<lparr>region = None, redirect = 0\<rparr>, fresh_regions = replicate 9 blank_region,
     fresh_rows = replicate 6 None, fresh_head = blank_region, fresh_dmap = replicate 9 (0, 0), fresh_sums = no_leafs,
     fresh_chars = (\<lambda>n. replicate (nat n) NUL),
     fresh_raw = replicate 4 \<lparr>fid = 0, fx = zero, fy = zero, angle = zero, leaf_size = zero, root_size = zero, root_colour = 0, node_count = 0\<rparr>,
     fresh_tracked = replicate 4 untracked\<rparr>"

lemma small_memory_fresh: "fresh_memory 3 3 small_memory"
  by (simp add: fresh_memory_def small_memory_def)

lemma small_ring: "binary_image 3 3 ring" "few_regions 3 3 ring"
  by (simp_all add: small_image)

lemma frames_never_fault_witness:
  "\<exists>ff ff'. new_finder small_memory 3 3 = Some ff \<and>
     track_frames insertion_sort (\<lambda>x. x) (\<lambda>x. x) 3 3 ff [(ring, zero), (ring, Num False 40), (ring, NaN)] = Some ff'"
  using frames_never_fault [of 3 3 small_memory insertion_sort "[(ring, zero), (ring, Num False 40), (ring, NaN)]"
      "\<lambda>x. x" "\<lambda>x. x"]
    small_memory_fresh insertion_sort_sorts small_ring by (auto simp del: track_frames.simps)

lemma tracked_symbols:
  assumes "finder_ok w h ff" "binary_image w h data" "few_regions w h data" "sorts qsort"
    and "secTime = ddiv time (dint 1000)" "feq secTime secTime"
    and "\<forall>k < 4. \<not> feq (timestamp (trackedFiducials ff ! k)) secTime"
  shows "\<exists>ff' s w1 rs n. findFiducials qsort atan sqrtf ff data (int w) (int h) time = Some (0, ff') \<and> finder_ok w h ff' \<and>
    step_segmenter (seg (world ff)) data = Some s \<and>
    collect_roots (tracker (fidtrackerx ff)) ((world ff)\<lparr>seg := s\<rparr>) = Some w1 \<and> ring_of w1 root_regions_head rs \<and>
    n = min 4 (length rs) \<and>
    (\<forall>k < 4. isTracked (trackedFiducials ff' ! k) \<longleftrightarrow> (\<exists>j < n. fid (rawFiducials ff' ! j) = int k)) \<and>
    (\<forall>j < n. \<exists>p t. region_tree s p (rs ! j) t \<and> (\<forall>k < 4. fid (rawFiducials ff' ! j) = int k \<longleftrightarrow>
       \<not> flag_set (flags (reg (seg w1) (rs ! j))) LOST_SYMBOL_FLAG \<and>
       coloured_string_of (colour (reg (seg w1) (rs ! j))) (shown_tree s (rs ! j) t) = default_tree ! k))"
proof -
  obtain ff' s w1 rs n where r: "findFiducials qsort atan sqrtf ff data (int w) (int h) time = Some (0, ff')" "finder_ok w h ff'"
      "step_segmenter (seg (world ff)) data = Some s"
      "collect_roots (tracker (fidtrackerx ff)) ((world ff)\<lparr>seg := s\<rparr>) = Some w1" "ring_of w1 root_regions_head rs"
      "n \<le> length (rawFiducials ff')" "frame_reports ((world ff)\<lparr>seg := s\<rparr>) w1 rs n (rawFiducials ff')"
      "\<forall>k < 4. let t = symbol_after sqrtf (int w, int h) secTime (take n (rawFiducials ff')) k (trackedFiducials ff ! k)
       in trackedFiducials ff' ! k = (if feq (timestamp t) secTime then t else t\<lparr>isTracked := False\<rparr>)"
    using frame_symbols [OF assms(1-6), of atan sqrtf] by blast
  have "isTracked (trackedFiducials ff' ! k) \<longleftrightarrow> (\<exists>j < n. fid (rawFiducials ff' ! j) = int k)" if k: "k < 4" for k
  proof (cases "find (\<lambda>f. fid f = int k) (take n (rawFiducials ff'))")
    case None
    then have "trackedFiducials ff' ! k = (trackedFiducials ff ! k)\<lparr>isTracked := False\<rparr>"
      using r(8) assms(7) k by (simp add: symbol_after_def Let_def)
    moreover have "\<not> (\<exists>j < n. fid (rawFiducials ff' ! j) = int k)"
      using None r(6) by (auto simp: find_None_iff in_set_conv_nth)
    ultimately show ?thesis by simp
  next
    case (Some f)
    then have "trackedFiducials ff' ! k = track_symbol sqrtf (int w, int h) secTime f (trackedFiducials ff ! k)"
      using r(8) assms(6,7) k by (simp add: symbol_after_def Let_def)
    moreover have "\<exists>j < n. fid (rawFiducials ff' ! j) = int k" using Some r(6) by (auto simp: find_Some_iff)
    ultimately show ?thesis by simp
  qed
  moreover have "\<exists>p t. region_tree s p (rs ! j) t \<and> (\<forall>k < 4. fid (rawFiducials ff' ! j) = int k \<longleftrightarrow>
       \<not> flag_set (flags (reg (seg w1) (rs ! j))) LOST_SYMBOL_FLAG \<and>
       coloured_string_of (colour (reg (seg w1) (rs ! j))) (shown_tree s (rs ! j) t) = default_tree ! k)" if j: "j < n" for j
  proof -
    obtain p t where t: "region_tree s p (rs ! j) t" "reports initialize_treeidmap (reg (seg w1) (rs ! j)) (shown_tree s (rs ! j) t) (rawFiducials ff' ! j)"
      using r(7) j unfolding frame_reports_def by auto
    have "fid (rawFiducials ff' ! j) = int k \<longleftrightarrow> \<not> flag_set (flags (reg (seg w1) (rs ! j))) LOST_SYMBOL_FLAG \<and>
       coloured_string_of (colour (reg (seg w1) (rs ! j))) (shown_tree s (rs ! j) t) = default_tree ! k" if k: "k < 4" for k
      using t(2) default_id_iff [of k] k by (simp add: reports_def INVALID_TREE_ID_def)
    then show ?thesis using t(1) by blast
  qed
  moreover have "int n = min 4 (int (length rs))" using r(7) by (simp add: frame_reports_def MAX_FIDUCIALS_def)
  then have "n = min 4 (length rs)" by linarith
  ultimately show ?thesis using r(1-5) by blast
qed

text \<open>C7: When the time of a frame differs from the stored ones, exactly the symbols that
  \<open>find_fiducialsX\<close> reports are tracked afterwards, and it reports symbol \<open>k\<close> for one of the first
  four roots exactly when the coloured left heavy depth string of the tree of regions below that
  root is entry \<open>k\<close> of the built-in table. The function returns 0 all the same.\<close>

theorem symbols_tracked:
  assumes "finder_ok w h ff" "binary_image w h data" "few_regions w h data" "sorts qsort"
    and "secTime = ddiv time (dint 1000)" "feq secTime secTime"
    and "\<forall>k < 4. \<not> feq (timestamp (trackedFiducials ff ! k)) secTime"
  shows "\<exists>ff' s w1 rs n. findFiducials qsort atan sqrtf ff data (int w) (int h) time = Some (0, ff') \<and>
    step_segmenter (seg (world ff)) data = Some s \<and>
    collect_roots (tracker (fidtrackerx ff)) ((world ff)\<lparr>seg := s\<rparr>) = Some w1 \<and> ring_of w1 root_regions_head rs \<and>
    n = min 4 (length rs) \<and>
    (\<forall>k < 4. isTracked (trackedFiducials ff' ! k) \<longleftrightarrow> (\<exists>j < n. fid (rawFiducials ff' ! j) = int k)) \<and>
    (\<forall>j < n. \<exists>p t. region_tree s p (rs ! j) t \<and> (\<forall>k < 4. fid (rawFiducials ff' ! j) = int k \<longleftrightarrow>
       \<not> flag_set (flags (reg (seg w1) (rs ! j))) LOST_SYMBOL_FLAG \<and>
       coloured_string_of (colour (reg (seg w1) (rs ! j))) (shown_tree s (rs ! j) t) = default_tree ! k))"
  using tracked_symbols [OF assms, of atan sqrtf] by blast

lemma second_time: "ddiv (Num False 1000) (dint 1000) = Num False 1"
  using quarter_exact [of 4 False] fint_between [of 1000] by simp

lemma symbols_tracked_witness:
  "\<exists>ff ff' s. new_finder small_memory 3 3 = Some ff \<and> step_segmenter (seg (world ff)) ring = Some s \<and>
     findFiducials insertion_sort (\<lambda>x. x) (\<lambda>x. x) ff ring 3 3 (Num False 1000) = Some (0, ff')"
proof -
  obtain ff where ff: "new_finder small_memory 3 3 = Some ff" "finder_ok 3 3 ff" "trackedFiducials ff = replicate 4 untracked"
    using new_finder_ok [OF _ _ _ _ small_memory_fresh] by auto
  then show ?thesis
    using symbols_tracked [OF ff(2) small_ring insertion_sort_sorts refl, of "Num False 1000" "\<lambda>x. x" "\<lambda>x. x"]
    by (auto simp: second_time untracked_def)
qed

text \<open>A frame with the time of the previous one is ignored for the symbols that are tracked:
  if all are, nothing changes, whatever the image shows.\<close>

theorem same_time_ignored:
  assumes "finder_ok w h ff" "binary_image w h data" "few_regions w h data" "sorts qsort"
    and "secTime = ddiv time (dint 1000)" "feq secTime secTime"
    and "\<forall>k < 4. isTracked (trackedFiducials ff ! k) \<and> feq (timestamp (trackedFiducials ff ! k)) secTime"
  shows "\<exists>ff'. findFiducials qsort atan sqrtf ff data (int w) (int h) time = Some (0, ff') \<and>
    trackedFiducials ff' = trackedFiducials ff"
proof -
  obtain ff' n where r: "findFiducials qsort atan sqrtf ff data (int w) (int h) time = Some (0, ff')" "finder_ok w h ff'"
      "\<forall>k < 4. let t = symbol_after sqrtf (int w, int h) secTime (take n (rawFiducials ff')) k (trackedFiducials ff ! k)
       in trackedFiducials ff' ! k = (if feq (timestamp t) secTime then t else t\<lparr>isTracked := False\<rparr>)"
    using frame_symbols [OF assms(1-6), of atan sqrtf] by blast
  have "symbol_after sqrtf (int w, int h) secTime raw k (trackedFiducials ff ! k) = trackedFiducials ff ! k" if "k < 4" for k raw
    using assms(7) that by (simp add: symbol_after_def split: option.split)
  then have "\<forall>k < 4. trackedFiducials ff' ! k = trackedFiducials ff ! k" using r(3) assms(7) by (simp add: Let_def)
  then have "trackedFiducials ff' = trackedFiducials ff"
    using r(2) assms(1) by (intro nth_equalityI) (simp_all add: finder_ok_def)
  then show ?thesis using r(1) by blast
qed

lemma same_time_ignored_witness:
  "\<exists>ff ff'. trackedFiducials ff = replicate 4 (untracked\<lparr>isTracked := True, timestamp := Num False 1\<rparr>) \<and>
     findFiducials insertion_sort (\<lambda>x. x) (\<lambda>x. x) ff ring 3 3 (Num False 1000) = Some (0, ff') \<and>
     trackedFiducials ff' = trackedFiducials ff"
proof -
  obtain ff where ff: "finder_ok 3 3 ff"
    using new_finder_ok [OF _ _ _ _ small_memory_fresh] by auto
  let ?ff = "ff\<lparr>trackedFiducials := replicate 4 (untracked\<lparr>isTracked := True, timestamp := Num False 1\<rparr>)\<rparr>"
  have ok: "finder_ok 3 3 ?ff" using ff by (simp add: finder_ok_def)
  have t: "Num False 1 = ddiv (Num False 1000) (dint 1000)" using second_time by (rule sym)
  have one: "feq (Num False 1) (Num False 1)" by simp
  have all: "\<forall>k < 4. isTracked (trackedFiducials ?ff ! k) \<and> feq (timestamp (trackedFiducials ?ff ! k)) (Num False 1)"
    by simp
  have n: "int 3 = 3" by simp
  have "\<exists>ff'. findFiducials insertion_sort (\<lambda>x. x) (\<lambda>x. x) ?ff ring 3 3 (Num False 1000) = Some (0, ff') \<and>
      trackedFiducials ff' = trackedFiducials ?ff"
    by (rule same_time_ignored [OF ok small_ring insertion_sort_sorts t one all, unfolded n])
  then obtain ff' where "findFiducials insertion_sort (\<lambda>x. x) (\<lambda>x. x) ?ff ring 3 3 (Num False 1000) = Some (0, ff')"
      "trackedFiducials ff' = trackedFiducials ?ff" by blast
  moreover have "trackedFiducials ?ff = replicate 4 (untracked\<lparr>isTracked := True, timestamp := Num False 1\<rparr>)" by simp
  ultimately show ?thesis by blast
qed

end
