(* ===== verification/OscBytes.thy ===== *)
theory OscBytes
  imports Buffers
begin

text \<open>
  \<^verbatim>\<open>wosclib/WOscUtil.cpp\<close>, \<^verbatim>\<open>WOscUtil.h\<close> and \<^verbatim>\<open>WOscString.cpp\<close>: the byte
  order conversions, the padding to multiples of four and the strings of OSC packets. A machine
  word is stored with its least significant byte first (\<open>IS_LITTLE_ENDIAN\<close>); \<open>new n\<close> is
  the memory that an allocation of \<open>n\<close> bytes returns.
\<close>

subsection \<open>Memory\<close>

type_synonym allocator = "int \<Rightarrow> byte list"

definition allocates :: "allocator \<Rightarrow> bool" where
  "allocates new \<longleftrightarrow> (\<forall>n. length (new n) = nat n)"

text \<open>The \<open>n\<close> bytes at an offset, as \<open>memcpy\<close> reads and writes them.\<close>

definition mem_read :: "'a list \<Rightarrow> int \<Rightarrow> int \<Rightarrow> 'a list option" where
  "mem_read m p n = (if 0 \<le> p \<and> 0 \<le> n \<and> p + n \<le> ilength m then Some (take (nat n) (drop (nat p) m)) else None)"

definition mem_write :: "'a list \<Rightarrow> int \<Rightarrow> 'a list \<Rightarrow> 'a list option" where
  "mem_write m p bs = (if 0 \<le> p \<and> p + ilength bs \<le> ilength m
     then Some (take (nat p) m @ bs @ drop (nat p + length bs) m) else None)"

text \<open>A C string ends with the first zero byte.\<close>

definition strlen :: "byte list \<Rightarrow> int \<Rightarrow> int option" where
  "strlen m p = (if 0 \<le> p \<and> 0 \<in> set (drop (nat p) m) then Some (ilength (takeWhile (\<lambda>b. b \<noteq> 0) (drop (nat p) m))) else None)"

definition str_bytes :: "string \<Rightarrow> byte list" where
  "str_bytes s = map of_char s"

subsection \<open>Byte order\<close>

definition object_bytes :: "'a::len word \<Rightarrow> byte list" where
  "object_bytes w = map (\<lambda>i. ucast (drop_bit (8 * i) w)) [0..<LENGTH('a) div 8]"

definition object_of_bytes :: "byte list \<Rightarrow> 'a::len word" where
  "object_of_bytes bs = word_of_int (horner_sum uint (2 ^ 8) bs)"

definition FillBufferWith :: "byte list \<Rightarrow> int \<Rightarrow> 'a::len word \<Rightarrow> byte list option" where
  "FillBufferWith buffer p arg = (let n = int (LENGTH('a) div 8) in
     for_range 0 n (\<lambda>k buffer. let i = n - 1 - k in do {
       b \<leftarrow> rd (object_bytes arg) (n - 1 - i);
       wr buffer (p + i) b
     }) buffer)"

definition BufferTo :: "byte list \<Rightarrow> int \<Rightarrow> 'a::len word option" where
  "BufferTo buffer p = (let n = int (LENGTH('a) div 8) in do {
     tmp \<leftarrow> for_range 0 n (\<lambda>k tmp. let i = n - 1 - k in do {
       b \<leftarrow> rd buffer (p + (n - 1 - i));
       wr tmp i b
     }) (replicate (nat n) 0);
     Some (object_of_bytes tmp)
   })"

subsection \<open>Padding\<close>

text \<open>The remainder of C has the sign of the dividend.\<close>

definition c_mod :: "int \<Rightarrow> int \<Rightarrow> int" where
  "c_mod a b = a - c_div a b * b"

definition GetSizeFourByteAligned :: "int \<Rightarrow> int" where
  "GetSizeFourByteAligned len = len + c_mod (4 - c_mod len 4) 4"

definition GetSizeFourByteAligned_string :: "byte list \<Rightarrow> int \<Rightarrow> int option" where
  "GetSizeFourByteAligned_string m p = do {
     n \<leftarrow> strlen m p;
     let len = n + 1;
     Some (len + c_mod (4 - c_mod len 4) 4)
   }"

definition PadStringWithZeros :: "byte list \<Rightarrow> byte list \<Rightarrow> int \<Rightarrow> byte list option" where
  "PadStringWithZeros destString sourceString p = do {
     n \<leftarrow> strlen sourceString p;
     let len = n + 1;
     osclength \<leftarrow> GetSizeFourByteAligned_string sourceString p;
     s \<leftarrow> mem_read sourceString p len;
     dest \<leftarrow> mem_write destString 0 s;
     for_range len osclength (\<lambda>i dest. wr dest i 0) dest
   }"

definition PadBufferWithZeros :: "byte list \<Rightarrow> byte list \<Rightarrow> int \<Rightarrow> int \<Rightarrow> byte list option" where
  "PadBufferWithZeros destBuffer sourceBuffer destLen srcLen =
     (if destLen \<le> srcLen then do {
        s \<leftarrow> mem_read sourceBuffer 0 destLen;
        mem_write destBuffer 0 s
      } else do {
        s \<leftarrow> mem_read sourceBuffer 0 srcLen;
        dest \<leftarrow> mem_write destBuffer 0 s;
        mem_write dest srcLen (replicate (nat (destLen - srcLen)) 0)
      })"

subsection \<open>Laws of memory\<close>

lemma length_mem_write: "mem_write m p bs = Some m' \<Longrightarrow> length m' = length m"
  by (auto simp: mem_write_def split: if_splits)

lemma mem_write_at [buf_simps]: "p = ilength a \<Longrightarrow> length bs = length b \<Longrightarrow> mem_write (a @ b @ c) p bs = Some (a @ bs @ c)"
  by (simp add: mem_write_def)

lemma mem_read_at [buf_simps]: "p = ilength a \<Longrightarrow> n = ilength b \<Longrightarrow> mem_read (a @ b @ c) p n = Some b"
  by (simp add: mem_read_def)

lemma length_object_bytes [simp]: "length (object_bytes (w :: 'a::len word)) = LENGTH('a) div 8"
  by (simp add: object_bytes_def)

lemma object_of_object_bytes [simp]:
  assumes "8 dvd LENGTH('a::len)"
  shows "object_of_bytes (object_bytes (w :: 'a word)) = w"
proof (rule bit_word_eqI)
  fix n assume n: "n < LENGTH('a)"
  then have "n div 8 < LENGTH('a) div 8" using assms by (auto simp: div_less_iff_less_mult mult.commute elim!: dvdE)
  then show "bit (object_of_bytes (object_bytes w) :: 'a word) n \<longleftrightarrow> bit w n"
    using n bit_horner_sum_uint_exp_iff [of "object_bytes w" n]
    by (simp add: object_of_bytes_def bit_word_of_int_iff object_bytes_def bit_ucast_iff bit_drop_bit_eq bit_simps)
qed

lemma update_middle:
  assumes "i < length b" "length r = length b"
  shows "(a @ take (Suc i) b @ drop (Suc i) r @ c)[length a + i := r ! i] = a @ take i b @ drop i r @ c"
  using assms by (simp add: list_update_append take_Suc_conv_app_nth Cons_nth_drop_Suc [symmetric])

text \<open>A loop that fills \<open>n\<close> entries from the last to the first.\<close>

lemma fill_down:
  assumes "p = ilength a" "length r = length b" "n = ilength b"
    and "\<And>k m. 0 \<le> k \<Longrightarrow> k < n \<Longrightarrow> body k m = wr m (p + (n - 1 - k)) (r ! nat (n - 1 - k))"
  shows "for_range 0 n body (a @ b @ c) = Some (a @ r @ c)"
proof -
  let ?P = "\<lambda>k m. m = a @ take (nat (n - k)) b @ drop (nat (n - k)) r @ c"
  have "\<exists>m. for_range 0 n body (a @ b @ c) = Some m \<and> ?P n m"
  proof (rule for_range_rule [where P = ?P])
    fix k m assume k: "0 \<le> k" "k < n" and m: "?P k m"
    let ?i = "nat (n - 1 - k)"
    have i: "?i < length b" "nat (n - k) = Suc ?i" "nat (n - (k + 1)) = ?i" "nat (p + (n - 1 - k)) = length a + ?i"
      using k assms(1,3) by auto
    have "body k m = Some (m[length a + ?i := r ! ?i])"
      using assms k i m by (simp add: wr_eq)
    also have "m[length a + ?i := r ! ?i] = a @ take ?i b @ drop ?i r @ c"
      using update_middle [of ?i b r a c] i assms(2) m by simp
    finally show "\<exists>m'. body k m = Some m' \<and> ?P (k + 1) m'" using i by simp
  qed (use assms in auto)
  then show ?thesis by simp
qed

lemma FillBufferWith_at [buf_simps]:
  fixes w :: "'a::len word"
  assumes "p = ilength a" "length b = LENGTH('a) div 8"
  shows "FillBufferWith (a @ b @ c) p w = Some (a @ rev (object_bytes w) @ c)"
  unfolding FillBufferWith_def Let_def
  proof (rule fill_down)
  fix k :: int and m assume k: "0 \<le> k" "k < int (LENGTH('a) div 8)"
  then have "nat (int (LENGTH('a) div 8) - 1 - k) = LENGTH('a) div 8 - Suc (nat k)" by linarith
  then show "do { b \<leftarrow> rd (object_bytes w) (int (LENGTH('a) div 8) - 1 - (int (LENGTH('a) div 8) - 1 - k));
        wr m (p + (int (LENGTH('a) div 8) - 1 - k)) b } =
      wr m (p + (int (LENGTH('a) div 8) - 1 - k)) (rev (object_bytes w) ! nat (int (LENGTH('a) div 8) - 1 - k))"
    using k by (simp add: rd_eq rev_nth nat_less_iff)
qed (use assms in simp_all)

lemma BufferTo_at:
  assumes "p = ilength a" "length b = LENGTH('a) div 8"
  shows "BufferTo (a @ b @ c) p = Some (object_of_bytes (rev b) :: 'a::len word)"
proof -
  let ?n = "int (LENGTH('a) div 8)"
  have "for_range 0 ?n (\<lambda>k tmp. let i = ?n - 1 - k in do {
       b \<leftarrow> rd (a @ b @ c) (p + (?n - 1 - i));
       wr tmp i b
     }) ([] @ replicate (nat ?n) 0 @ []) = Some ([] @ rev b @ [])"
  proof (rule fill_down)
    fix k :: int and m :: "byte list" assume k: "0 \<le> k" "k < ?n"
    have "rd (a @ b @ c) (p + k) = Some (b ! nat k)"
      using assms k by (simp add: rd_eq nth_append nat_add_distrib nat_less_iff)
    moreover have "nat (?n - 1 - k) = length b - Suc (nat k)" using assms k by linarith
    then have "rev b ! nat (?n - 1 - k) = b ! nat k" using assms k by (simp add: rev_nth nat_less_iff)
    ultimately show "(let i = ?n - 1 - k in do { b \<leftarrow> rd (a @ b @ c) (p + (?n - 1 - i)); wr m i b }) =
        wr m (0 + (?n - 1 - k)) (rev b ! nat (?n - 1 - k))" by simp
  qed (use assms in simp_all)
  then show ?thesis by (simp add: BufferTo_def Let_def)
qed

lemma BufferTo_word [buf_simps]:
  fixes w :: "'a::len word"
  assumes "p = ilength a" "8 dvd LENGTH('a)"
  shows "BufferTo (a @ rev (object_bytes w) @ c) p = Some w"
  using BufferTo_at [of p a "rev (object_bytes w)" c, where 'a = 'a] assms by simp

subsection \<open>Laws of strings\<close>

text \<open>The characters of an OSC string are followed by one to four zeros.\<close>

definition pad :: "byte list \<Rightarrow> byte list" where
  "pad bs = bs @ replicate (4 - length bs mod 4) 0"

lemma length_pad: "length (pad bs) = 4 * (length bs div 4 + 1)"
proof -
  have "length (pad bs) = length bs + (4 - length bs mod 4)" by (simp add: pad_def)
  then show ?thesis by presburger
qed

lemma c_mod_nonneg [simp]: "0 \<le> a \<Longrightarrow> 0 < b \<Longrightarrow> c_mod a b = a mod b"
  by (simp add: c_mod_def minus_div_mult_eq_mod)

lemma aligned: "0 \<le> n \<Longrightarrow> n + 1 + c_mod (4 - c_mod (n + 1) 4) 4 = 4 * (n div 4 + 1)"
proof -
  assume "0 \<le> n"
  then have "c_mod (n + 1) 4 = (n + 1) mod 4" by simp
  moreover have "c_mod (4 - (n + 1) mod 4) 4 = (4 - (n + 1) mod 4) mod 4" by (rule c_mod_nonneg) auto
  moreover have "n + 1 + (4 - (n + 1) mod 4) mod 4 = 4 * (n div 4 + 1)" by presburger
  ultimately show ?thesis by presburger
qed

definition string_at :: "byte list \<Rightarrow> int \<Rightarrow> byte list \<Rightarrow> bool" where
  "string_at m p bs \<longleftrightarrow> 0 \<le> p \<and> 0 \<notin> set bs \<and> (\<exists>r. drop (nat p) m = bs @ 0 # r)"

lemma strlen_at: "string_at m p bs \<Longrightarrow> strlen m p = Some (ilength bs)"
proof -
  assume s: "string_at m p bs"
  then obtain r where r: "0 \<le> p" "0 \<notin> set bs" "drop (nat p) m = bs @ 0 # r" by (auto simp: string_at_def)
  then have "takeWhile (\<lambda>b. b \<noteq> 0) (bs @ 0 # r) = bs" by (subst takeWhile_append2) auto
  then show ?thesis using r by (simp add: strlen_def)
qed

lemma size_at: "string_at m p bs \<Longrightarrow> GetSizeFourByteAligned_string m p = Some (ilength (pad bs))"
  using aligned [of "ilength bs"] by (simp add: GetSizeFourByteAligned_string_def strlen_at Let_def length_pad)

lemma string_at_read: "string_at m p bs \<Longrightarrow> mem_read m p (ilength bs + 1) = Some (bs @ [0])"
proof -
  assume s: "string_at m p bs"
  then obtain r where r: "0 \<le> p" "drop (nat p) m = bs @ 0 # r" by (auto simp: string_at_def)
  have "length m - nat p = length bs + 1 + length r" using arg_cong [OF r(2), of length] by simp
  then show ?thesis using r by (simp add: mem_read_def nat_add_distrib le_nat_iff)
qed

end
