(* ===== verification/OscTimeTag.thy ===== *)
theory OscTimeTag
  imports OscBytes
begin

text \<open>
  \<^verbatim>\<open>wosclib/WOscTimeTag.cpp\<close>: the time tags of bundles, 64 bit numbers whose value 1 means
  immediately. The clock and \<open>ULONG_MAX\<close> are parameters; \<open>unsigned long\<close> has 32 bits on Windows.
\<close>

type_synonym WOscTimeTag = "64 word"

definition GetSystemTime :: "64 word \<Rightarrow> WOscTimeTag" where
  "GetSystemTime time = time + 2208988800"

definition GetImmediateTime :: WOscTimeTag where "GetImmediateTime = 1"

definition GetLargestTimeTag :: "64 word \<Rightarrow> WOscTimeTag" where "GetLargestTimeTag ULONG_MAX = ULONG_MAX"

definition GetSmallestTimeTag :: WOscTimeTag where "GetSmallestTimeTag = GetImmediateTime"

text \<open>A system time object is the value that its \<open>GetSystemTime\<close> returns, null is \<open>None\<close>.\<close>

definition GetCurrentTime :: "64 word \<Rightarrow> WOscTimeTag option \<Rightarrow> WOscTimeTag" where
  "GetCurrentTime time systemTime = (case systemTime of None \<Rightarrow> GetSystemTime time | Some t \<Rightarrow> t)"

definition SetToCurrentTime :: "WOscTimeTag option \<Rightarrow> WOscTimeTag option" where
  "SetToCurrentTime systemTime = systemTime"

definition SetToImmediateTime :: WOscTimeTag where "SetToImmediateTime = GetImmediateTime"

definition SetToLargestTimeTag :: "64 word \<Rightarrow> WOscTimeTag" where "SetToLargestTimeTag ULONG_MAX = GetLargestTimeTag ULONG_MAX"

definition SetToSmallestTimeTag :: WOscTimeTag where "SetToSmallestTimeTag = GetSmallestTimeTag"

text \<open>The operators; an assignment gives the new value of the left hand side.\<close>

definition time_assign :: "WOscTimeTag \<Rightarrow> WOscTimeTag \<Rightarrow> WOscTimeTag" where "time_assign t rhs = rhs"

definition time_plus :: "WOscTimeTag \<Rightarrow> WOscTimeTag \<Rightarrow> WOscTimeTag" where "time_plus t rhs = t + rhs"

definition time_minus :: "WOscTimeTag \<Rightarrow> WOscTimeTag \<Rightarrow> WOscTimeTag" where "time_minus t rhs = t - rhs"

text \<open>\<open>m_timeTag =+ rhs.m_timeTag\<close>\<close>

definition time_plus_assign :: "WOscTimeTag \<Rightarrow> WOscTimeTag \<Rightarrow> WOscTimeTag" where "time_plus_assign t rhs = rhs"

definition time_minus_assign :: "WOscTimeTag \<Rightarrow> WOscTimeTag \<Rightarrow> WOscTimeTag" where "time_minus_assign t rhs = t - rhs"

definition time_less :: "WOscTimeTag \<Rightarrow> WOscTimeTag \<Rightarrow> bool" where "time_less t rhs \<longleftrightarrow> t < rhs"

definition time_less_eq :: "WOscTimeTag \<Rightarrow> WOscTimeTag \<Rightarrow> bool" where "time_less_eq t rhs \<longleftrightarrow> t \<le> rhs"

definition time_equal :: "WOscTimeTag \<Rightarrow> WOscTimeTag \<Rightarrow> bool" where "time_equal t rhs \<longleftrightarrow> t = rhs"

definition time_not_equal :: "WOscTimeTag \<Rightarrow> WOscTimeTag \<Rightarrow> bool" where "time_not_equal t rhs \<longleftrightarrow> t \<noteq> rhs"

definition time_greater :: "WOscTimeTag \<Rightarrow> WOscTimeTag \<Rightarrow> bool" where "time_greater t rhs \<longleftrightarrow> t > rhs"

definition time_greater_eq :: "WOscTimeTag \<Rightarrow> WOscTimeTag \<Rightarrow> bool" where "time_greater_eq t rhs \<longleftrightarrow> t \<ge> rhs"

definition ToCharArray :: "allocator \<Rightarrow> WOscTimeTag \<Rightarrow> byte list option" where
  "ToCharArray new t = FillBufferWith (new 8) 0 t"

definition WriteToCharArray :: "WOscTimeTag \<Rightarrow> byte list \<Rightarrow> int \<Rightarrow> byte list option" where
  "WriteToCharArray t buffer p = FillBufferWith buffer p t"

definition InitFromCharArray :: "byte list \<Rightarrow> int \<Rightarrow> WOscTimeTag option" where
  "InitFromCharArray buffer p = BufferTo buffer p"

lemma plus_assign_forgets: "t \<noteq> 0 \<Longrightarrow> time_plus_assign t rhs \<noteq> time_plus t rhs"
  by (simp add: time_plus_assign_def time_plus_def)

lemma time_tag_wire: "length b = 8 \<Longrightarrow> \<exists>buffer. WriteToCharArray t (a @ b @ c) (ilength a) = Some buffer \<and> InitFromCharArray buffer (ilength a) = Some t"
  by (simp add: WriteToCharArray_def InitFromCharArray_def FillBufferWith_at BufferTo_word)

end
