(* ===== verification/OscString.thy ===== *)
theory OscString
  imports OscBytes
begin

text \<open>
  \<^verbatim>\<open>wosclib/WOscString.cpp\<close>: strings that are padded with zeros to a multiple of four bytes. An
  exception is the left summand of a result, a null pointer is \<open>None\<close>.
\<close>

datatype ErrorCodes = ERR_NO_ERROR | ERR_REMOVE_FROM_EMPTY_QUEUE | ERR_INVALID_ADDRESS_NO_SLASH
  | ERR_NOT_DISPATCHING_FROM_ROOT | ERR_PARENT_POINTER_NULL | ERR_ROOT_ALIAS | ERR_NULL_ADDRESS
  | ERR_OSC_STR_BUFF_TOO_SMALL | ERR_NULL_BUFFER | ERR_INVALID_INDEX | ERR_BUFFER_TO_SMALL
  | ERR_NOT_ROOT_CONTAINER | ERR_RECURSIVE_ALIAS | ERR_TOO_SHORT | ERR_EMPTY_BUNDLE | ERR_INVALID_TAG
  | ERR_CURRUPT_BUNDLE_LAYOUT | ERR_NO_ITEMS_IN_BUNDLE | ERR_CAN_NOT_CLONE_UNINITIALIZED_BUNDLE

record WOscString =
  str_buffer :: "byte list option"
  str_bufferLen :: int

subsection \<open>Construction and assignment\<close>

definition WOscString_chars :: "allocator \<Rightarrow> byte list \<Rightarrow> int \<Rightarrow> WOscString option" where
  "WOscString_chars new string p = do {
     n \<leftarrow> GetSizeFourByteAligned_string string p;
     buffer \<leftarrow> PadStringWithZeros (new n) string p;
     Some \<lparr>str_buffer = Some buffer, str_bufferLen = n\<rparr>
   }"

definition WOscString_copy :: "allocator \<Rightarrow> WOscString \<Rightarrow> WOscString option" where
  "WOscString_copy new rhs = do {
     source \<leftarrow> str_buffer rhs;
     bs \<leftarrow> mem_read source 0 (str_bufferLen rhs);
     buffer \<leftarrow> mem_write (new (str_bufferLen rhs)) 0 bs;
     Some \<lparr>str_buffer = Some buffer, str_bufferLen = str_bufferLen rhs\<rparr>
   }"

text \<open>The assignments of a \<open>const char*\<close> and of a string; the old memory is freed.\<close>

definition str_assign_chars :: "allocator \<Rightarrow> WOscString \<Rightarrow> byte list \<Rightarrow> int \<Rightarrow> WOscString option" where
  "str_assign_chars new s rhs p = do {
     n \<leftarrow> GetSizeFourByteAligned_string rhs p;
     buffer \<leftarrow> PadStringWithZeros (new n) rhs p;
     Some (s\<lparr>str_buffer := Some buffer, str_bufferLen := n\<rparr>)
   }"

definition str_assign :: "allocator \<Rightarrow> WOscString \<Rightarrow> WOscString \<Rightarrow> WOscString option" where
  "str_assign new s rhs = do {
     source \<leftarrow> str_buffer rhs;
     bs \<leftarrow> mem_read source 0 (str_bufferLen rhs);
     buffer \<leftarrow> mem_write (new (str_bufferLen rhs)) 0 bs;
     Some (s\<lparr>str_buffer := Some buffer, str_bufferLen := str_bufferLen rhs\<rparr>)
   }"

subsection \<open>Concatenation\<close>

definition str_append :: "allocator \<Rightarrow> WOscString \<Rightarrow> WOscString \<Rightarrow> WOscString option" where
  "str_append new s rhs = (case str_buffer s of
     Some buffer \<Rightarrow> do {
       lenLhs \<leftarrow> strlen buffer 0;
       rbuffer \<leftarrow> str_buffer rhs;
       lenRhs \<leftarrow> strlen rbuffer 0;
       let newLen = GetSizeFourByteAligned (lenRhs + lenLhs + 1);
       let newBuf = new newLen;
       l \<leftarrow> mem_read buffer 0 lenLhs;
       newBuf \<leftarrow> mem_write newBuf 0 l;
       r \<leftarrow> mem_read rbuffer 0 lenRhs;
       newBuf \<leftarrow> mem_write newBuf lenLhs r;
       newBuf \<leftarrow> for_range (lenLhs + lenRhs) newLen (\<lambda>i newBuf. wr newBuf i 0) newBuf;
       Some (s\<lparr>str_buffer := Some newBuf, str_bufferLen := newLen\<rparr>)
     }
   | None \<Rightarrow> str_assign new s rhs)"

definition str_append_chars :: "allocator \<Rightarrow> WOscString \<Rightarrow> byte list \<Rightarrow> int \<Rightarrow> WOscString option" where
  "str_append_chars new s rhs p = do {
     tmp \<leftarrow> WOscString_chars new rhs p;
     str_append new s tmp
   }"

definition str_append_char :: "allocator \<Rightarrow> WOscString \<Rightarrow> byte \<Rightarrow> WOscString option" where
  "str_append_char new s rhs = (let str = [rhs, 0] in str_append_chars new s str 0)"

definition str_assign_char :: "allocator \<Rightarrow> WOscString \<Rightarrow> byte \<Rightarrow> WOscString option" where
  "str_assign_char new s rhs = str_append_char new (s\<lparr>str_buffer := None\<rparr>) rhs"

definition str_concat :: "allocator \<Rightarrow> WOscString \<Rightarrow> WOscString \<Rightarrow> WOscString option" where
  "str_concat new s rhs = do {
     retVal \<leftarrow> WOscString_chars new [0] 0;
     if str_buffer s \<noteq> None then do {
       retVal \<leftarrow> str_append new retVal s;
       str_append new retVal rhs
     } else str_assign new retVal rhs
   }"

subsection \<open>Access\<close>

definition str_GetSize :: "WOscString \<Rightarrow> int" where
  "str_GetSize s = str_bufferLen s"

text \<open>The copy to \<open>buffer + p\<close>, a position of the memory of the caller.\<close>

definition str_GetBuffer :: "WOscString \<Rightarrow> byte list \<Rightarrow> int \<Rightarrow> int \<Rightarrow> (ErrorCodes + byte list) option" where
  "str_GetBuffer s buffer p bufferLen =
     (if bufferLen < str_bufferLen s then Some (Inl ERR_OSC_STR_BUFF_TOO_SMALL)
      else do {
        source \<leftarrow> str_buffer s;
        buffer \<leftarrow> for_range 0 bufferLen (\<lambda>i buffer. do { b \<leftarrow> rd source i; wr buffer (p + i) b }) buffer;
        Some (Inr buffer)
      })"

text \<open>\<open>strcmp(a, b) == 0\<close>\<close>

definition str_equal :: "WOscString \<Rightarrow> byte list \<Rightarrow> int \<Rightarrow> bool option" where
  "str_equal s str p = do {
     buffer \<leftarrow> str_buffer s;
     n \<leftarrow> strlen buffer 0;
     m \<leftarrow> strlen str p;
     Some (take (nat n) buffer = take (nat m) (drop (nat p) str))
   }"

subsection \<open>Laws\<close>

definition osc_string :: "byte list \<Rightarrow> WOscString" where
  "osc_string bs = \<lparr>str_buffer = Some (pad bs), str_bufferLen = ilength (pad bs)\<rparr>"

lemma string_at_pad [simp]: "0 \<notin> set bs \<Longrightarrow> string_at (pad bs) 0 bs"
proof -
  have "length bs mod 4 < 4" by simp
  then obtain k where "4 - length bs mod 4 = Suc k" by (metis Suc_diff_Suc)
  moreover assume "0 \<notin> set bs"
  ultimately show ?thesis by (auto simp: string_at_def pad_def)
qed

lemma fill_zeros:
  assumes "lo = ilength a" "hi = lo + ilength b"
  shows "for_range lo hi (\<lambda>i d. wr d i 0) (a @ b) = Some (a @ replicate (length b) 0)"
  using assms
proof (induction b arbitrary: a lo)
  case (Cons x b)
  have "nat (hi - lo) = Suc (nat (hi - (lo + 1)))" using Cons.prems by simp
  then have "for_range lo hi (\<lambda>i d. wr d i 0) (a @ x # b) = for_range (lo + 1) hi (\<lambda>i d. wr d i 0) ((a @ [0]) @ b)"
    using Cons.prems by (simp add: for_range_def wr_eq)
  also have "\<dots> = Some ((a @ [0]) @ replicate (length b) 0)" using Cons.prems by (intro Cons.IH) simp_all
  finally show ?case by simp
qed simp

lemma take_append_zeros:
  "ilength d = hi \<Longrightarrow> lo = ilength a \<Longrightarrow> lo \<le> hi \<Longrightarrow>
   for_range lo hi (\<lambda>i d. wr d i 0) (a @ drop (nat lo) d) = Some (a @ replicate (nat (hi - lo)) 0)"
  using fill_zeros [of lo a hi "drop (nat lo) d"] by (simp add: nat_diff_distrib)

lemma pad_room: "length bs < length (pad bs)"
  by (simp add: pad_def)

lemma pad_zeros: "bs @ replicate (length (pad bs) - length bs) 0 = pad bs"
  by (simp add: pad_def)

lemma PadStringWithZeros_at:
  assumes "string_at m p bs" "length d = length (pad bs)"
  shows "PadStringWithZeros d m p = Some (pad bs)"
proof -
  have "mem_write d 0 (bs @ [0]) = Some ((bs @ [0]) @ drop (length bs + 1) d)"
    using assms(2) pad_room [of bs] by (simp add: mem_write_def)
  moreover have "for_range (ilength bs + 1) (ilength (pad bs)) (\<lambda>i d. wr d i 0) ((bs @ [0]) @ drop (length bs + 1) d) =
      Some ((bs @ [0]) @ replicate (length (pad bs) - (length bs + 1)) 0)"
    using take_append_zeros [of d "ilength (pad bs)" "ilength bs + 1" "bs @ [0]"] assms(2) pad_room [of bs]
    by (simp add: nat_diff_distrib nat_add_distrib)
  moreover have "(bs @ [0]) @ replicate (length (pad bs) - (length bs + 1)) 0 = pad bs"
    using pad_zeros [of bs] pad_room [of bs] by (simp add: Suc_diff_Suc replicate_Suc [symmetric] del: replicate_Suc)
  ultimately show ?thesis
    using assms(1) by (simp add: PadStringWithZeros_def strlen_at size_at string_at_read)
qed

lemma WOscString_chars_at:
  assumes "allocates new" "string_at m p bs"
  shows "WOscString_chars new m p = Some (osc_string bs)"
  using assms by (simp add: WOscString_chars_def size_at PadStringWithZeros_at allocates_def osc_string_def)

lemma str_assign_chars_at:
  assumes "allocates new" "string_at m p bs"
  shows "str_assign_chars new s m p = Some (osc_string bs)"
  using assms by (simp add: str_assign_chars_def size_at PadStringWithZeros_at allocates_def osc_string_def)

lemma str_assign_osc: "allocates new \<Longrightarrow> str_assign new s (osc_string bs) = Some (osc_string bs)"
  by (simp add: str_assign_def osc_string_def mem_read_def mem_write_def allocates_def)

lemma pad_prefix: "mem_read (pad bs) 0 (ilength bs) = Some bs"
  by (simp add: mem_read_def pad_def)

lemma aligned_size: "GetSizeFourByteAligned (ilength bs + 1) = ilength (pad bs)"
  using aligned [of "ilength bs"] by (simp add: GetSizeFourByteAligned_def length_pad)

lemma strlen_pad: "0 \<notin> set bs \<Longrightarrow> strlen (pad bs) 0 = Some (ilength bs)"
  by (rule strlen_at) simp

lemma str_append_osc:
  assumes "allocates new" "0 \<notin> set as" "0 \<notin> set bs"
  shows "str_append new (osc_string as) (osc_string bs) = Some (osc_string (as @ bs))"
proof -
  define n where "n = ilength (pad (as @ bs))"
  define d where "d = new n"
  have d: "ilength d = n" "length as + length bs < length d"
    using assms(1) pad_room [of "as @ bs"] by (simp_all add: d_def n_def allocates_def)
  have size: "GetSizeFourByteAligned (ilength bs + ilength as + 1) = n"
    using aligned_size [of "as @ bs"] by (simp add: n_def add.commute)
  have l: "mem_write d 0 as = Some (as @ drop (length as) d)" using d by (simp add: mem_write_def)
  have r: "mem_write (as @ drop (length as) d) (ilength as) bs = Some ((as @ bs) @ drop (nat (ilength as + ilength bs)) d)"
    using d by (simp add: mem_write_def nat_add_distrib add.commute)
  have z: "for_range (ilength as + ilength bs) n (\<lambda>i d. wr d i 0) ((as @ bs) @ drop (nat (ilength as + ilength bs)) d) =
      Some (pad (as @ bs))"
    using take_append_zeros [of d n "ilength as + ilength bs" "as @ bs"] d pad_zeros [of "as @ bs"]
    by (simp add: n_def nat_diff_distrib nat_add_distrib)
  show ?thesis
    using assms l r z size
    by (simp add: str_append_def osc_string_def strlen_pad pad_prefix Let_def d_def [symmetric] n_def [symmetric])
qed

lemma str_append_char_osc:
  assumes "allocates new" "0 \<notin> set bs" "c \<noteq> 0"
  shows "str_append_char new (osc_string bs) c = Some (osc_string (bs @ [c]))"
proof -
  have "string_at [c, 0] 0 [c]" using assms(3) by (simp add: string_at_def)
  then show ?thesis
    using str_append_osc [of new bs "[c]"] assms by (simp add: str_append_char_def str_append_chars_def WOscString_chars_at)
qed

lemma fill_up:
  assumes "p = ilength a" "length src = length b" "n = ilength b"
  shows "for_range 0 n (\<lambda>i m. do { x \<leftarrow> rd src i; wr m (p + i) x }) (a @ b @ c) = Some (a @ src @ c)"
proof -
  let ?P = "\<lambda>i m. m = a @ take (nat i) src @ drop (nat i) b @ c"
  have "\<exists>m. for_range 0 n (\<lambda>i m. do { x \<leftarrow> rd src i; wr m (p + i) x }) (a @ b @ c) = Some m \<and> ?P n m"
  proof (rule for_range_rule [where P = ?P])
    fix i m assume i: "0 \<le> i" "i < n" and m: "?P i m"
    have k: "nat i < length src" "nat i < length b" "nat (i + 1) = Suc (nat i)" "nat (p + i) = length a + nat i"
      using i assms by auto
    have "drop (nat i) b = b ! nat i # drop (Suc (nat i)) b" using k by (simp add: Cons_nth_drop_Suc)
    then have "m[length a + nat i := src ! nat i] = a @ take (nat (i + 1)) src @ drop (nat (i + 1)) b @ c"
      using k m by (simp add: list_update_append take_Suc_conv_app_nth)
    then show "\<exists>m'. do { x \<leftarrow> rd src i; wr m (p + i) x } = Some m' \<and> ?P (i + 1) m'"
      using i k m assms by (simp add: rd_eq wr_eq)
  qed (use assms in auto)
  then show ?thesis using assms by simp
qed

lemma str_GetBuffer_osc:
  assumes "p = ilength a" "length b = length (pad bs)" "n = ilength b"
  shows "str_GetBuffer (osc_string bs) (a @ b @ c) p n = Some (Inr (a @ pad bs @ c))"
  using fill_up [of p a "pad bs" b n c] assms by (simp add: str_GetBuffer_def osc_string_def)

end
