(* ===== verification/OscMessage.thy ===== *)
theory OscMessage
  imports OscString
begin

text \<open>
  \<^verbatim>\<open>wosclib/WOscMessage.cpp\<close> and \<^verbatim>\<open>WOscBlob.cpp\<close>: messages with an address, a type tag and
  arguments, their binary form, and the constructor that reads that form back. The arrays of
  arguments are null or hold as many values as are counted. An \<open>int\<close> or \<open>float\<close> argument is
  the word of its object representation.
\<close>

text \<open>An exception that nobody catches ends the program.\<close>

definition uncaught :: "('e + 'a) option \<Rightarrow> 'a option" where
  "uncaught r = (case r of Some (Inr x) \<Rightarrow> Some x | _ \<Rightarrow> None)"

subsection \<open>Blobs\<close>

record WOscBlob =
  blob_dataLen :: int
  blob_buffer :: "byte list"
  blob_bufferLen :: int

definition WOscBlob_raw :: "allocator \<Rightarrow> byte list \<Rightarrow> int \<Rightarrow> WOscBlob option" where
  "WOscBlob_raw new m p = do {
     n \<leftarrow> BufferTo m p;
     let dataLen = sint (n :: 32 word);
     let bufferLen = GetSizeFourByteAligned dataLen + 4;
     bs \<leftarrow> mem_read m p bufferLen;
     buffer \<leftarrow> mem_write (new bufferLen) 0 bs;
     Some \<lparr>blob_dataLen = dataLen, blob_buffer = buffer, blob_bufferLen = bufferLen\<rparr>
   }"

definition WOscBlob_data :: "allocator \<Rightarrow> byte list \<Rightarrow> int \<Rightarrow> int \<Rightarrow> WOscBlob option" where
  "WOscBlob_data new m p dataLen = do {
     let bufferLen = GetSizeFourByteAligned dataLen + 4;
     buffer \<leftarrow> FillBufferWith (new bufferLen) 0 (word_of_int dataLen :: 32 word);
     bs \<leftarrow> mem_read m p dataLen;
     buffer \<leftarrow> mem_write buffer 4 bs;
     buffer \<leftarrow> for_range (dataLen + 4) bufferLen (\<lambda>i buffer. wr buffer i 0) buffer;
     Some \<lparr>blob_dataLen = dataLen, blob_buffer = buffer, blob_bufferLen = bufferLen\<rparr>
   }"

definition WOscBlob_copy :: "allocator \<Rightarrow> WOscBlob \<Rightarrow> WOscBlob option" where
  "WOscBlob_copy new b = do {
     bs \<leftarrow> mem_read (blob_buffer b) 0 (blob_bufferLen b);
     buffer \<leftarrow> mem_write (new (blob_bufferLen b)) 0 bs;
     Some (b\<lparr>blob_buffer := buffer\<rparr>)
   }"

definition blob_GetBuffer :: "WOscBlob \<Rightarrow> byte list \<Rightarrow> int \<Rightarrow> int \<Rightarrow> (ErrorCodes + byte list) option" where
  "blob_GetBuffer b buffer p bufferLen =
     (if bufferLen < blob_bufferLen b then Some (Inl ERR_BUFFER_TO_SMALL)
      else do {
        bs \<leftarrow> mem_read (blob_buffer b) 0 (blob_bufferLen b);
        buffer \<leftarrow> mem_write buffer p bs;
        Some (Inr buffer)
      })"

subsection \<open>Messages\<close>

record WOscMessage =
  m_address :: WOscString
  m_typeTag :: WOscString
  m_floats :: "32 word list option"
  m_numFloats :: int
  m_ints :: "32 word list option"
  m_numInts :: int
  m_strings :: "WOscString list option"
  m_numStrings :: int
  m_blobs :: "WOscBlob list option"
  m_numBlobs :: int
  m_bufferLen :: int
  m_buffer :: "byte list option"

text \<open>The length of the binary form: the loop over the type tag.\<close>

fun args_size :: "WOscMessage \<Rightarrow> byte list \<Rightarrow> int \<Rightarrow> int \<Rightarrow> int \<Rightarrow> int option" where
  "args_size msg [] idx_s idx_b len = Some len"
| "args_size msg (t # typeTag) idx_s idx_b len =
     (if t = of_char CHR ''i'' then args_size msg typeTag idx_s idx_b (len + 4)
      else if t = of_char CHR ''f'' then args_size msg typeTag idx_s idx_b (len + 4)
      else if t = of_char CHR ''s'' then do {
        strings \<leftarrow> m_strings msg;
        s \<leftarrow> rd strings idx_s;
        args_size msg typeTag (idx_s + 1) idx_b (len + str_GetSize s)
      }
      else if t = of_char CHR ''b'' then do {
        blobs \<leftarrow> m_blobs msg;
        b \<leftarrow> rd blobs idx_b;
        args_size msg typeTag idx_s (idx_b + 1) (len + blob_bufferLen b)
      }
      else if t = of_char CHR '','' then args_size msg typeTag idx_s idx_b len
      else Some len)"

text \<open>The loop that writes the arguments.\<close>

fun write_args :: "WOscMessage \<Rightarrow> byte list \<Rightarrow> int \<Rightarrow> int \<Rightarrow> int \<Rightarrow> int \<Rightarrow> byte list \<Rightarrow> int \<Rightarrow> byte list option" where
  "write_args msg [] idx_i idx_f idx_s idx_b buffer pos = Some buffer"
| "write_args msg (t # typeTag) idx_i idx_f idx_s idx_b buffer pos =
     (if t = of_char CHR ''i'' then do {
        ints \<leftarrow> m_ints msg;
        v \<leftarrow> rd ints idx_i;
        buffer \<leftarrow> FillBufferWith buffer pos v;
        write_args msg typeTag (idx_i + 1) idx_f idx_s idx_b buffer (pos + 4)
      }
      else if t = of_char CHR ''f'' then do {
        floats \<leftarrow> m_floats msg;
        v \<leftarrow> rd floats idx_f;
        buffer \<leftarrow> FillBufferWith buffer pos v;
        write_args msg typeTag idx_i (idx_f + 1) idx_s idx_b buffer (pos + 4)
      }
      else if t = of_char CHR ''s'' then do {
        strings \<leftarrow> m_strings msg;
        s \<leftarrow> rd strings idx_s;
        buffer \<leftarrow> uncaught (str_GetBuffer s buffer pos (str_GetSize s));
        write_args msg typeTag idx_i idx_f (idx_s + 1) idx_b buffer (pos + str_GetSize s)
      }
      else if t = of_char CHR ''b'' then do {
        blobs \<leftarrow> m_blobs msg;
        b \<leftarrow> rd blobs idx_b;
        buffer \<leftarrow> uncaught (blob_GetBuffer b buffer pos (blob_bufferLen b));
        write_args msg typeTag idx_i idx_f idx_s (idx_b + 1) buffer (pos + blob_bufferLen b)
      }
      else if t = of_char CHR '','' then write_args msg typeTag idx_i idx_f idx_s idx_b buffer pos
      else Some buffer)"

definition GenerateBufferFromMembers :: "allocator \<Rightarrow> WOscMessage \<Rightarrow> WOscMessage option" where
  "GenerateBufferFromMembers new msg = do {
     let typeTagSize = str_GetSize (m_typeTag msg);
     let len = str_GetSize (m_address msg) + typeTagSize;
     typeTag \<leftarrow> str_buffer (m_typeTag msg);
     tags \<leftarrow> mem_read typeTag 0 typeTagSize;
     len \<leftarrow> args_size msg tags 0 0 len;
     buffer \<leftarrow> uncaught (str_GetBuffer (m_address msg) (new len) 0 (str_GetSize (m_address msg)));
     buffer \<leftarrow> uncaught (str_GetBuffer (m_typeTag msg) buffer (str_GetSize (m_address msg)) (str_GetSize (m_typeTag msg)));
     buffer \<leftarrow> write_args msg tags 0 0 0 0 buffer (str_GetSize (m_address msg) + str_GetSize (m_typeTag msg));
     Some (msg\<lparr>m_bufferLen := len, m_buffer := Some buffer\<rparr>)
   }"

subsection \<open>Adding arguments\<close>

text \<open>The array with one more entry: a new array when there was none, else a longer copy.\<close>

definition array_add :: "'a list option \<Rightarrow> int \<Rightarrow> 'a \<Rightarrow> ('a list \<times> int) option" where
  "array_add array num x = (case array of
     None \<Rightarrow> Some ([x], 1)
   | Some old \<Rightarrow> do {
       copied \<leftarrow> mem_read old 0 num;
       Some (copied @ [x], num + 1)
     })"

definition add_float :: "allocator \<Rightarrow> WOscMessage \<Rightarrow> 32 word \<Rightarrow> WOscMessage option" where
  "add_float new msg floatArg = do {
     tag \<leftarrow> str_append_char new (m_typeTag msg) (of_char CHR ''f'');
     (floats, num) \<leftarrow> array_add (m_floats msg) (m_numFloats msg) floatArg;
     GenerateBufferFromMembers new (msg\<lparr>m_typeTag := tag, m_floats := Some floats, m_numFloats := num\<rparr>)
   }"

definition add_int :: "allocator \<Rightarrow> WOscMessage \<Rightarrow> 32 word \<Rightarrow> WOscMessage option" where
  "add_int new msg intArg = do {
     tag \<leftarrow> str_append_char new (m_typeTag msg) (of_char CHR ''i'');
     (ints, num) \<leftarrow> array_add (m_ints msg) (m_numInts msg) intArg;
     GenerateBufferFromMembers new (msg\<lparr>m_typeTag := tag, m_ints := Some ints, m_numInts := num\<rparr>)
   }"

fun copy_strings :: "allocator \<Rightarrow> WOscString \<Rightarrow> WOscString list \<Rightarrow> WOscString list option" where
  "copy_strings new fresh [] = Some []"
| "copy_strings new fresh (s # old) = do {
     s \<leftarrow> str_assign new fresh s;
     copied \<leftarrow> copy_strings new fresh old;
     Some (s # copied)
   }"

text \<open>The array of strings with one more entry; \<open>assign\<close> gives the new entry its value.\<close>

definition strings_add ::
  "allocator \<Rightarrow> WOscString list option \<Rightarrow> int \<Rightarrow> (WOscString \<Rightarrow> WOscString option) \<Rightarrow> (WOscString list \<times> int) option" where
  "strings_add new strings num assign = do {
     fresh \<leftarrow> WOscString_chars new [0] 0;
     case strings of
       None \<Rightarrow> do {
         s \<leftarrow> assign fresh;
         Some ([s], 1)
       }
     | Some old \<Rightarrow> do {
         old \<leftarrow> mem_read old 0 num;
         copied \<leftarrow> copy_strings new fresh old;
         s \<leftarrow> assign fresh;
         Some (copied @ [s], num + 1)
       }
   }"

definition add_chars :: "allocator \<Rightarrow> WOscMessage \<Rightarrow> byte list \<Rightarrow> int \<Rightarrow> WOscMessage option" where
  "add_chars new msg m p = do {
     tag \<leftarrow> str_append_char new (m_typeTag msg) (of_char CHR ''s'');
     (strings, num) \<leftarrow> strings_add new (m_strings msg) (m_numStrings msg) (\<lambda>fresh. str_assign_chars new fresh m p);
     GenerateBufferFromMembers new (msg\<lparr>m_typeTag := tag, m_strings := Some strings, m_numStrings := num\<rparr>)
   }"

definition add_string :: "allocator \<Rightarrow> WOscMessage \<Rightarrow> WOscString \<Rightarrow> WOscMessage option" where
  "add_string new msg s = do {
     tag \<leftarrow> str_append_char new (m_typeTag msg) (of_char CHR ''s'');
     (strings, num) \<leftarrow> strings_add new (m_strings msg) (m_numStrings msg) (\<lambda>fresh. str_assign new fresh s);
     GenerateBufferFromMembers new (msg\<lparr>m_typeTag := tag, m_strings := Some strings, m_numStrings := num\<rparr>)
   }"

text \<open>The new array of blobs has as many entries as there are strings.\<close>

definition add_blob :: "allocator \<Rightarrow> WOscMessage \<Rightarrow> WOscBlob \<Rightarrow> WOscMessage option" where
  "add_blob new msg b = do {
     tag \<leftarrow> str_append_char new (m_typeTag msg) (of_char CHR ''b'');
     (blobs, num) \<leftarrow> (case m_blobs msg of
       Some old \<Rightarrow> do {
         let num = m_numBlobs msg + 1;
         copied \<leftarrow> mem_read old 0 (num - 1);
         c_assert (num \<le> m_numStrings msg);
         b \<leftarrow> WOscBlob_copy new b;
         Some (copied @ [b], num)
       }
     | None \<Rightarrow> do {
         b \<leftarrow> WOscBlob_copy new b;
         Some ([b], m_numBlobs msg + 1)
       });
     GenerateBufferFromMembers new (msg\<lparr>m_typeTag := tag, m_blobs := Some blobs, m_numBlobs := num\<rparr>)
   }"

subsection \<open>Construction\<close>

text \<open>The literal \<open>",\0\0\0"\<close>.\<close>

definition W_OSC_EMPTY_TYPE_TAG :: "byte list" where
  "W_OSC_EMPTY_TYPE_TAG = [of_char CHR '','', 0, 0, 0, 0]"

definition empty_message :: "WOscString \<Rightarrow> WOscString \<Rightarrow> WOscMessage" where
  "empty_message address typeTag = \<lparr>m_address = address, m_typeTag = typeTag, m_floats = None, m_numFloats = 0,
     m_ints = None, m_numInts = 0, m_strings = None, m_numStrings = 0, m_blobs = None, m_numBlobs = 0,
     m_bufferLen = 0, m_buffer = None\<rparr>"

text \<open>\<open>None\<close> is the null pointer. The members \<open>m_address\<close> and \<open>m_typeTag\<close> are empty strings at first.\<close>

definition WOscMessage_new :: "allocator \<Rightarrow> byte list option \<Rightarrow> (ErrorCodes + WOscMessage) option" where
  "WOscMessage_new new address = (case address of
     None \<Rightarrow> Some (Inl ERR_NULL_ADDRESS)
   | Some address \<Rightarrow> do {
       c \<leftarrow> rd address 0;
       if c \<noteq> of_char CHR ''/'' then Some (Inl ERR_INVALID_ADDRESS_NO_SLASH)
       else do {
         fresh \<leftarrow> WOscString_chars new [0] 0;
         addr \<leftarrow> str_assign_chars new fresh address 0;
         tag \<leftarrow> str_assign_chars new fresh W_OSC_EMPTY_TYPE_TAG 0;
         msg \<leftarrow> GenerateBufferFromMembers new (empty_message addr tag);
         Some (Inr msg)
       }
     })"

text \<open>The loop over the type tag of a received message, whose buffer is at \<open>p\<close> of the memory \<open>m\<close>.\<close>

fun read_args :: "allocator \<Rightarrow> byte list \<Rightarrow> int \<Rightarrow> byte list \<Rightarrow> int \<Rightarrow> WOscMessage \<Rightarrow> WOscMessage option" where
  "read_args new m p [] pos msg = Some msg"
| "read_args new m p (t # typeTag) pos msg =
     (if t = of_char CHR ''i'' then do {
        v \<leftarrow> BufferTo m (p + pos);
        msg \<leftarrow> add_int new msg v;
        read_args new m p typeTag (pos + 4) msg
      }
      else if t = of_char CHR ''f'' then do {
        v \<leftarrow> BufferTo m (p + pos);
        msg \<leftarrow> add_float new msg v;
        read_args new m p typeTag (pos + 4) msg
      }
      else if t = of_char CHR ''s'' then do {
        msg \<leftarrow> add_chars new msg m (p + pos);
        strings \<leftarrow> m_strings msg;
        s \<leftarrow> rd strings (m_numStrings msg - 1);
        read_args new m p typeTag (pos + str_GetSize s) msg
      }
      else if t = of_char CHR ''b'' then do {
        blob \<leftarrow> WOscBlob_raw new m (p + pos);
        msg \<leftarrow> add_blob new msg blob;
        read_args new m p typeTag (pos + blob_bufferLen blob) msg
      }
      else if t = of_char CHR '','' then read_args new m p typeTag pos msg
      else Some msg)"

definition WOscMessage_read :: "allocator \<Rightarrow> byte list \<Rightarrow> int \<Rightarrow> int \<Rightarrow> (ErrorCodes + WOscMessage) option" where
  "WOscMessage_read new m p bufferLen =
     (if bufferLen < 1 then Some (Inl ERR_NULL_BUFFER)
      else do {
        c \<leftarrow> rd m p;
        if c \<noteq> of_char CHR ''/'' then Some (Inl ERR_INVALID_ADDRESS_NO_SLASH)
        else do {
          fresh \<leftarrow> WOscString_chars new [0] 0;
          addr \<leftarrow> str_assign_chars new fresh m p;
          let pos = str_GetSize addr;
          tag \<leftarrow> str_assign_chars new fresh W_OSC_EMPTY_TYPE_TAG 0;
          let msg = empty_message addr tag;
          if bufferLen \<le> pos then do {
            msg \<leftarrow> GenerateBufferFromMembers new msg;
            Some (Inr msg)
          }
          else do {
            OscTypeTag \<leftarrow> WOscString_chars new m (p + pos);
            typeTag \<leftarrow> str_buffer OscTypeTag;
            let typeTagSize = str_GetSize OscTypeTag;
            tags \<leftarrow> mem_read typeTag 0 typeTagSize;
            msg \<leftarrow> read_args new m p tags (pos + typeTagSize) msg;
            msg \<leftarrow> GenerateBufferFromMembers new msg;
            Some (Inr msg)
          }
        }
      })"

subsection \<open>Copies\<close>

definition copy_array :: "'a list option \<Rightarrow> int \<Rightarrow> ('a list \<Rightarrow> 'a list option) \<Rightarrow> 'a list option option" where
  "copy_array array num copy = (if num > 0 then do {
       source \<leftarrow> array;
       values \<leftarrow> mem_read source 0 num;
       copied \<leftarrow> copy values;
       Some (Some copied)
     } else Some None)"

fun copy_blobs :: "allocator \<Rightarrow> WOscBlob list \<Rightarrow> WOscBlob list option" where
  "copy_blobs new [] = Some []"
| "copy_blobs new (b # blobs) = do {
     b \<leftarrow> WOscBlob_copy new b;
     copied \<leftarrow> copy_blobs new blobs;
     Some (b # copied)
   }"

text \<open>The old arrays of the message that is assigned to are not freed.\<close>

definition message_Copy :: "allocator \<Rightarrow> WOscMessage \<Rightarrow> WOscMessage \<Rightarrow> WOscMessage option" where
  "message_Copy new this msg = do {
     address \<leftarrow> str_assign new (m_address this) (m_address msg);
     typeTag \<leftarrow> str_assign new (m_typeTag this) (m_typeTag msg);
     floats \<leftarrow> copy_array (m_floats msg) (m_numFloats msg) Some;
     ints \<leftarrow> copy_array (m_ints msg) (m_numInts msg) Some;
     fresh \<leftarrow> WOscString_chars new [0] 0;
     strings \<leftarrow> copy_array (m_strings msg) (m_numStrings msg) (copy_strings new fresh);
     blobs \<leftarrow> copy_array (m_blobs msg) (m_numBlobs msg) (copy_blobs new);
     buffer \<leftarrow> copy_array (m_buffer msg) (m_bufferLen msg) (\<lambda>bs. mem_write (new (m_bufferLen msg)) 0 bs);
     Some \<lparr>m_address = address, m_typeTag = typeTag, m_floats = floats, m_numFloats = m_numFloats msg,
       m_ints = ints, m_numInts = m_numInts msg, m_strings = strings, m_numStrings = m_numStrings msg,
       m_blobs = blobs, m_numBlobs = m_numBlobs msg, m_bufferLen = m_bufferLen msg, m_buffer = buffer\<rparr>
   }"

text \<open>\<open>operator+=\<close> leaves the message as it is, and \<open>operator+\<close> is a copy.\<close>

definition message_merge :: "WOscMessage \<Rightarrow> WOscMessage \<Rightarrow> WOscMessage" where
  "message_merge this rhs = this"

definition message_plus :: "allocator \<Rightarrow> WOscMessage \<Rightarrow> WOscMessage \<Rightarrow> WOscMessage \<Rightarrow> WOscMessage option" where
  "message_plus new fresh this rhs = do {
     tmp \<leftarrow> message_Copy new fresh this;
     Some (message_merge tmp rhs)
   }"

subsection \<open>Access\<close>

text \<open>An index equal to the number of values passes the check.\<close>

definition get_arg :: "'a list option \<Rightarrow> int \<Rightarrow> int \<Rightarrow> (ErrorCodes + 'a) option" where
  "get_arg array num idx = (if idx > num then Some (Inl ERR_INVALID_INDEX)
     else do { values \<leftarrow> array; v \<leftarrow> rd values idx; Some (Inr v) })"

definition GetFloat :: "WOscMessage \<Rightarrow> int \<Rightarrow> (ErrorCodes + 32 word) option" where
  "GetFloat msg = get_arg (m_floats msg) (m_numFloats msg)"

definition GetInt :: "WOscMessage \<Rightarrow> int \<Rightarrow> (ErrorCodes + 32 word) option" where
  "GetInt msg = get_arg (m_ints msg) (m_numInts msg)"

definition GetString :: "WOscMessage \<Rightarrow> int \<Rightarrow> (ErrorCodes + WOscString) option" where
  "GetString msg = get_arg (m_strings msg) (m_numStrings msg)"

definition GetBlob :: "WOscMessage \<Rightarrow> int \<Rightarrow> (ErrorCodes + WOscBlob) option" where
  "GetBlob msg = get_arg (m_blobs msg) (m_numBlobs msg)"

definition msg_GetBuffer :: "WOscMessage \<Rightarrow> byte list \<Rightarrow> int \<Rightarrow> (ErrorCodes + byte list) option" where
  "msg_GetBuffer msg buffer bufferLen =
     (if bufferLen < m_bufferLen msg then Some (Inl ERR_OSC_STR_BUFF_TOO_SMALL)
      else do {
        source \<leftarrow> m_buffer msg;
        buffer \<leftarrow> for_range 0 bufferLen (\<lambda>i buffer. do { b \<leftarrow> rd source i; wr buffer i b }) buffer;
        Some (Inr buffer)
      })"

end
