(* ===== verification/OscEncode.thy ===== *)
theory OscEncode
  imports OscMessage
begin

text \<open>
  The binary form of messages: \<open>osc_message addr args\<close> is the message object that holds the
  address \<open>addr\<close> and the arguments \<open>args\<close>; the operations of \<open>WOscMessage\<close> on ints, floats and
  strings are shown to compute exactly these objects.
\<close>

subsection \<open>Specification\<close>

datatype osc_arg = AInt "32 word" | AFloat "32 word" | AString "byte list"

fun tag_of :: "osc_arg \<Rightarrow> byte" where
  "tag_of (AInt v) = of_char CHR ''i''"
| "tag_of (AFloat v) = of_char CHR ''f''"
| "tag_of (AString s) = of_char CHR ''s''"

fun arg_bytes :: "osc_arg \<Rightarrow> byte list" where
  "arg_bytes (AInt v) = rev (object_bytes v)"
| "arg_bytes (AFloat v) = rev (object_bytes v)"
| "arg_bytes (AString s) = pad s"

definition ints_of :: "osc_arg list \<Rightarrow> 32 word list" where
  "ints_of args = concat (map (\<lambda>a. case a of AInt v \<Rightarrow> [v] | _ \<Rightarrow> []) args)"

definition floats_of :: "osc_arg list \<Rightarrow> 32 word list" where
  "floats_of args = concat (map (\<lambda>a. case a of AFloat v \<Rightarrow> [v] | _ \<Rightarrow> []) args)"

definition strings_of :: "osc_arg list \<Rightarrow> byte list list" where
  "strings_of args = concat (map (\<lambda>a. case a of AString s \<Rightarrow> [s] | _ \<Rightarrow> []) args)"

definition type_tag :: "osc_arg list \<Rightarrow> byte list" where
  "type_tag args = of_char CHR '','' # map tag_of args"

definition args_bytes :: "osc_arg list \<Rightarrow> byte list" where
  "args_bytes args = concat (map arg_bytes args)"

definition message_bytes :: "byte list \<Rightarrow> osc_arg list \<Rightarrow> byte list" where
  "message_bytes addr args = pad addr @ pad (type_tag args) @ args_bytes args"

definition array :: "'a list \<Rightarrow> 'a list option" where
  "array xs = (if xs = [] then None else Some xs)"

definition osc_message :: "byte list \<Rightarrow> osc_arg list \<Rightarrow> WOscMessage" where
  "osc_message addr args = \<lparr>m_address = osc_string addr, m_typeTag = osc_string (type_tag args),
     m_floats = array (floats_of args), m_numFloats = ilength (floats_of args),
     m_ints = array (ints_of args), m_numInts = ilength (ints_of args),
     m_strings = array (map osc_string (strings_of args)), m_numStrings = ilength (strings_of args),
     m_blobs = None, m_numBlobs = 0,
     m_bufferLen = ilength (message_bytes addr args), m_buffer = Some (message_bytes addr args)\<rparr>"

definition plain_args :: "osc_arg list \<Rightarrow> bool" where
  "plain_args args \<longleftrightarrow> (\<forall>s \<in> set (strings_of args). 0 \<notin> set s)"

named_theorems arg_simps \<open>equations of the views of arguments\<close>

lemma views [arg_simps]:
  "ints_of [] = []" "floats_of [] = []" "strings_of [] = []" "args_bytes [] = []"
  "ints_of (a # as) = (case a of AInt v \<Rightarrow> [v] | _ \<Rightarrow> []) @ ints_of as"
  "floats_of (a # as) = (case a of AFloat v \<Rightarrow> [v] | _ \<Rightarrow> []) @ floats_of as"
  "strings_of (a # as) = (case a of AString v \<Rightarrow> [v] | _ \<Rightarrow> []) @ strings_of as"
  "args_bytes (a # as) = arg_bytes a @ args_bytes as"
  "ints_of (as @ bs) = ints_of as @ ints_of bs" "floats_of (as @ bs) = floats_of as @ floats_of bs"
  "strings_of (as @ bs) = strings_of as @ strings_of bs" "args_bytes (as @ bs) = args_bytes as @ args_bytes bs"
  by (simp_all add: ints_of_def floats_of_def strings_of_def args_bytes_def)

lemma array_simps [arg_simps]: "array [] = None" "array (x # xs) = Some (x # xs)" "array (xs @ y # ys) = Some (xs @ y # ys)"
  by (simp_all add: array_def)

lemma rd_next [arg_simps]: "i = ilength as \<Longrightarrow> rd (as @ a # bs) i = Some a"
  by (simp add: rd_eq)

lemma tag_not_zero: "0 \<notin> set (map tag_of args)"
  by (induction args) (auto elim: tag_of.elims split: osc_arg.splits)

lemma type_tag_plain [simp]: "0 \<notin> set (type_tag args)"
  using tag_not_zero [of args] by (simp add: type_tag_def)

lemma type_tag_snoc: "type_tag (args @ [a]) = type_tag args @ [tag_of a]"
  by (simp add: type_tag_def)

lemma osc_string_simps [arg_simps]: "str_GetSize (osc_string s) = ilength (pad s)" "str_buffer (osc_string s) = Some (pad s)"
    "str_bufferLen (osc_string s) = ilength (pad s)"
  by (simp_all add: str_GetSize_def osc_string_def)

lemma uncaught_simps [simp]: "uncaught (Some (Inr x)) = Some x" "uncaught (Some (Inl e)) = None" "uncaught None = None"
  by (simp_all add: uncaught_def)

subsection \<open>The binary form\<close>

lemma args_size_ok:
  assumes "m_strings msg = array (map osc_string (strings_of (as @ bs)))" "i = ilength (strings_of as)"
  shows "args_size msg (map tag_of bs @ replicate k 0) i b n = Some (n + ilength (args_bytes bs))"
  using assms
proof (induction bs arbitrary: as i n)
  case Nil
  then show ?case by (cases k) (simp_all add: arg_simps)
next
  case (Cons a bs)
  have IH: "args_size msg (map tag_of bs @ replicate k 0) (ilength (strings_of (as @ [a]))) b n' =
      Some (n' + ilength (args_bytes bs))" for n'
    by (rule Cons.IH [of "as @ [a]"]) (use Cons.prems in simp_all)
  show ?case
  proof (cases a)
    case (AString s)
    have "m_strings msg = Some (map osc_string (strings_of as) @ osc_string s # map osc_string (strings_of bs))"
      using Cons.prems AString by (simp add: arg_simps)
    moreover have "rd (map osc_string (strings_of as) @ osc_string s # map osc_string (strings_of bs)) i = Some (osc_string s)"
      using Cons.prems by (intro rd_next) simp
    ultimately show ?thesis using IH AString Cons.prems by (simp add: arg_simps add.assoc add.commute [of 1])
  qed (use IH Cons.prems in \<open>simp_all add: arg_simps add.assoc add.commute [of 1]\<close>)
qed

lemma write_args_ok:
  assumes "m_ints msg = array (ints_of (as @ bs))" "m_floats msg = array (floats_of (as @ bs))"
    "m_strings msg = array (map osc_string (strings_of (as @ bs)))"
    "i = ilength (ints_of as)" "f = ilength (floats_of as)" "s = ilength (strings_of as)"
    "pos = ilength d" "length e = length (args_bytes bs)"
  shows "write_args msg (map tag_of bs @ replicate k 0) i f s b (d @ e) pos = Some (d @ args_bytes bs)"
  using assms
proof (induction bs arbitrary: as i f s d e pos)
  case Nil
  then show ?case by (cases k) (simp_all add: arg_simps)
next
  case (Cons a bs)
  obtain e1 e2 where e: "e = e1 @ e2" "length e1 = length (arg_bytes a)" "length e2 = length (args_bytes bs)"
    using Cons.prems(8) by (intro that [of "take (length (arg_bytes a)) e" "drop (length (arg_bytes a)) e"]) (simp_all add: arg_simps)
  have IH: "write_args msg (map tag_of bs @ replicate k 0) (ilength (ints_of (as @ [a]))) (ilength (floats_of (as @ [a])))
      (ilength (strings_of (as @ [a]))) b ((d @ arg_bytes a) @ e2) pos' = Some ((d @ arg_bytes a) @ args_bytes bs)"
    if "pos' = pos + ilength (arg_bytes a)" for pos'
    by (rule Cons.IH [of "as @ [a]"]) (use Cons.prems e that in simp_all)
  show ?case
  proof (cases a)
    case (AInt v)
    have "FillBufferWith (d @ e1 @ e2) pos v = Some (d @ rev (object_bytes v) @ e2)"
      by (rule FillBufferWith_at) (use Cons.prems e AInt in simp_all)
    then show ?thesis using IH Cons.prems AInt e by (simp add: arg_simps add.commute [of 1])
  next
    case (AFloat v)
    have "FillBufferWith (d @ e1 @ e2) pos v = Some (d @ rev (object_bytes v) @ e2)"
      by (rule FillBufferWith_at) (use Cons.prems e AFloat in simp_all)
    then show ?thesis using IH Cons.prems AFloat e by (simp add: arg_simps add.commute [of 1])
  next
    case (AString t)
    have "m_strings msg = Some (map osc_string (strings_of as) @ osc_string t # map osc_string (strings_of bs))"
      using Cons.prems AString by (simp add: arg_simps)
    moreover have "rd (map osc_string (strings_of as) @ osc_string t # map osc_string (strings_of bs)) s = Some (osc_string t)"
      using Cons.prems by (intro rd_next) simp
    moreover have "str_GetBuffer (osc_string t) (d @ e1 @ e2) pos (ilength (pad t)) = Some (Inr (d @ pad t @ e2))"
      by (rule str_GetBuffer_osc) (use Cons.prems e AString in simp_all)
    ultimately show ?thesis using IH Cons.prems AString e by (simp add: arg_simps add.commute [of 1])
  qed
qed

subsection \<open>The operations\<close>

text \<open>A message object whose binary form is out of date.\<close>

definition stale :: "WOscMessage \<Rightarrow> byte list \<Rightarrow> osc_arg list \<Rightarrow> bool" where
  "stale msg addr args \<longleftrightarrow> (\<exists>n b. msg = (osc_message addr args)\<lparr>m_bufferLen := n, m_buffer := b\<rparr>)"

lemma generate_ok:
  assumes "allocates new" "stale msg addr args"
  shows "GenerateBufferFromMembers new msg = Some (osc_message addr args)"
proof -
  let ?tag = "type_tag args" and ?n = "ilength (message_bytes addr args)"
  obtain n b where msg: "msg = (osc_message addr args)\<lparr>m_bufferLen := n, m_buffer := b\<rparr>" using assms(2) by (auto simp: stale_def)
  obtain k where k: "pad ?tag = of_char CHR '','' # map tag_of args @ replicate k 0" by (simp add: pad_def type_tag_def)
  have views: "m_ints msg = array (ints_of ([] @ args))" "m_floats msg = array (floats_of ([] @ args))"
    "m_strings msg = array (map osc_string (strings_of ([] @ args)))" "m_address msg = osc_string addr"
    "m_typeTag msg = osc_string ?tag" using msg by (simp_all add: osc_message_def)
  have size: "args_size msg (pad ?tag) 0 0 (ilength (pad addr) + ilength (pad ?tag)) = Some ?n"
    using args_size_ok [OF views(3), of 0 k] by (simp add: k arg_simps message_bytes_def)
  obtain d1 d2 d3 where d: "new ?n = d1 @ d2 @ d3" "length d1 = length (pad addr)" "length d2 = length (pad ?tag)"
      "length d3 = length (args_bytes args)"
    using assms(1) by (intro that [of "take (length (pad addr)) (new ?n)" "take (length (pad ?tag)) (drop (length (pad addr)) (new ?n))"
      "drop (length (pad ?tag)) (drop (length (pad addr)) (new ?n))"]) (simp_all add: allocates_def message_bytes_def del: drop_drop)
  have w1: "str_GetBuffer (osc_string addr) ([] @ d1 @ d2 @ d3) 0 (ilength (pad addr)) = Some (Inr ([] @ pad addr @ d2 @ d3))"
    by (rule str_GetBuffer_osc) (use d in simp_all)
  have w2: "str_GetBuffer (osc_string ?tag) (pad addr @ d2 @ d3) (ilength (pad addr)) (ilength (pad ?tag)) =
      Some (Inr (pad addr @ pad ?tag @ d3))"
    by (rule str_GetBuffer_osc) (use d in simp_all)
  have w3: "write_args msg (map tag_of args @ replicate k 0) 0 0 0 0 ((pad addr @ pad ?tag) @ d3)
      (ilength (pad addr) + ilength (pad ?tag)) = Some ((pad addr @ pad ?tag) @ args_bytes args)"
    by (rule write_args_ok [OF views(1-3)]) (use d in \<open>simp_all add: arg_simps\<close>)
  then have w3: "write_args msg (pad ?tag) 0 0 0 0 (pad addr @ pad ?tag @ d3) (ilength (pad addr) + ilength (pad ?tag)) =
      Some (message_bytes addr args)"
    by (simp add: k message_bytes_def)
  have "GenerateBufferFromMembers new msg = Some (msg\<lparr>m_bufferLen := ?n, m_buffer := Some (message_bytes addr args)\<rparr>)"
    using size w1 w2 w3 d(1) by (simp add: GenerateBufferFromMembers_def views(4,5) osc_string_simps mem_read_def)
  then show ?thesis by (simp add: msg osc_message_def)
qed

lemma tag_char: "allocates new \<Longrightarrow> str_append_char new (osc_string (type_tag args)) (tag_of a) = Some (osc_string (type_tag (args @ [a])))"
  by (cases a) (simp_all add: str_append_char_osc type_tag_snoc)

lemma array_add_ok: "array_add (array xs) (ilength xs) x = Some (xs @ [x], ilength (xs @ [x]))"
  by (simp add: array_add_def array_def mem_read_def add.commute)

lemma copy_strings_ok: "allocates new \<Longrightarrow> copy_strings new fresh (map osc_string ss) = Some (map osc_string ss)"
  by (induction ss) (simp_all add: str_assign_osc)

lemma fresh_string: "allocates new \<Longrightarrow> WOscString_chars new [0] 0 = Some (osc_string [])"
  by (rule WOscString_chars_at) (simp_all add: string_at_def)

lemma strings_add_ok:
  assumes "allocates new" "\<And>fresh. assign fresh = Some (osc_string s)"
  shows "strings_add new (array (map osc_string ss)) (ilength ss) assign = Some (map osc_string (ss @ [s]), ilength (ss @ [s]))"
  using assms by (simp add: strings_add_def array_def fresh_string mem_read_def copy_strings_ok add.commute)

lemma add_int_ok:
  assumes "allocates new" "stale msg addr args"
  shows "add_int new msg v = Some (osc_message addr (args @ [AInt v]))"
proof -
  obtain n b where msg: "msg = (osc_message addr args)\<lparr>m_bufferLen := n, m_buffer := b\<rparr>" using assms(2) by (auto simp: stale_def)
  have "stale (msg\<lparr>m_typeTag := osc_string (type_tag (args @ [AInt v])), m_ints := Some (ints_of args @ [v]),
      m_numInts := ilength (ints_of args @ [v])\<rparr>) addr (args @ [AInt v])"
    by (simp add: msg stale_def osc_message_def arg_simps array_def)
  then show ?thesis
    using generate_ok [OF assms(1)] tag_char [OF assms(1), of args "AInt v"] array_add_ok [of "ints_of args" v]
    by (simp add: add_int_def msg osc_message_def)
qed

lemma add_float_ok:
  assumes "allocates new" "stale msg addr args"
  shows "add_float new msg v = Some (osc_message addr (args @ [AFloat v]))"
proof -
  obtain n b where msg: "msg = (osc_message addr args)\<lparr>m_bufferLen := n, m_buffer := b\<rparr>" using assms(2) by (auto simp: stale_def)
  have "stale (msg\<lparr>m_typeTag := osc_string (type_tag (args @ [AFloat v])), m_floats := Some (floats_of args @ [v]),
      m_numFloats := ilength (floats_of args @ [v])\<rparr>) addr (args @ [AFloat v])"
    by (simp add: msg stale_def osc_message_def arg_simps array_def)
  then show ?thesis
    using generate_ok [OF assms(1)] tag_char [OF assms(1), of args "AFloat v"] array_add_ok [of "floats_of args" v]
    by (simp add: add_float_def msg osc_message_def)
qed

lemma add_chars_ok:
  assumes "allocates new" "stale msg addr args" "string_at m p s"
  shows "add_chars new msg m p = Some (osc_message addr (args @ [AString s]))"
proof -
  obtain n b where msg: "msg = (osc_message addr args)\<lparr>m_bufferLen := n, m_buffer := b\<rparr>" using assms(2) by (auto simp: stale_def)
  have "stale (msg\<lparr>m_typeTag := osc_string (type_tag (args @ [AString s])),
      m_strings := Some (map osc_string (strings_of args @ [s])), m_numStrings := ilength (strings_of args @ [s])\<rparr>)
      addr (args @ [AString s])"
    by (simp add: msg stale_def osc_message_def arg_simps array_def)
  moreover have "strings_add new (array (map osc_string (strings_of args))) (ilength (strings_of args)) (\<lambda>fresh. str_assign_chars new fresh m p) =
      Some (map osc_string (strings_of args @ [s]), ilength (strings_of args @ [s]))"
    by (rule strings_add_ok) (use assms in \<open>simp_all add: str_assign_chars_at\<close>)
  ultimately show ?thesis
    using generate_ok [OF assms(1)] tag_char [OF assms(1), of args "AString s"]
    by (simp add: add_chars_def msg osc_message_def)
qed

subsection \<open>Construction and reading\<close>

lemma empty_tag: "string_at W_OSC_EMPTY_TYPE_TAG 0 (type_tag [])"
  by (simp add: string_at_def W_OSC_EMPTY_TYPE_TAG_def type_tag_def)

lemma stale_empty: "stale (empty_message (osc_string addr) (osc_string (type_tag []))) addr []"
  by (simp add: stale_def empty_message_def osc_message_def arg_simps)

lemma WOscMessage_new_ok:
  assumes "allocates new" "string_at address 0 addr" "addr \<noteq> []" "hd addr = of_char CHR ''/''"
  shows "WOscMessage_new new (Some address) = Some (Inr (osc_message addr []))"
proof -
  have "rd address 0 = Some (of_char CHR ''/'')"
    using assms(2-4) by (cases addr) (auto simp: string_at_def rd_eq)
  then show ?thesis
    using assms(1,2) empty_tag generate_ok [OF assms(1) stale_empty]
    by (simp add: WOscMessage_new_def fresh_string str_assign_chars_at)
qed

lemma string_at_inside: "p = ilength d \<Longrightarrow> 0 \<notin> set s \<Longrightarrow> string_at (d @ pad s @ r) p s"
  using string_at_pad [of s] by (auto simp: string_at_def)

lemma stale_refl: "stale (osc_message addr args) addr args"
  by (auto simp: stale_def osc_message_def)

lemma read_args_append:
  assumes "allocates new" "stale msg addr as" "m = d @ args_bytes bs @ r" "p + pos = ilength d" "plain_args bs"
  shows "\<exists>msg'. stale msg' addr (as @ bs) \<and>
    (\<forall>ts. read_args new m p (map tag_of bs @ ts) pos msg = read_args new m p ts (pos + ilength (args_bytes bs)) msg')"
  using assms(2-)
proof (induction bs arbitrary: as d pos msg)
  case (Cons a bs)
  let ?msg = "osc_message addr (as @ [a])"
  have IH: "\<exists>msg'. stale msg' addr (as @ a # bs) \<and>
      (\<forall>ts. read_args new m p (map tag_of bs @ ts) pos' ?msg = read_args new m p ts (pos + ilength (args_bytes (a # bs))) msg')"
    if "pos' = pos + ilength (arg_bytes a)" for pos'
    using Cons.IH [of ?msg "as @ [a]" "d @ arg_bytes a" pos'] Cons.prems that by (simp add: arg_simps plain_args_def stale_refl add.assoc)
  show ?case
  proof (cases a)
    case (AInt v)
    have "BufferTo m (p + pos) = Some v"
      using BufferTo_word [of "p + pos" d v "args_bytes bs @ r"] Cons.prems AInt by (simp add: arg_simps)
    then show ?thesis using IH AInt add_int_ok [OF assms(1) Cons.prems(1)] by simp
  next
    case (AFloat v)
    have "BufferTo m (p + pos) = Some v"
      using BufferTo_word [of "p + pos" d v "args_bytes bs @ r"] Cons.prems AFloat by (simp add: arg_simps)
    then show ?thesis using IH AFloat add_float_ok [OF assms(1) Cons.prems(1)] by simp
  next
    case (AString s)
    have "string_at m (p + pos) s"
      using string_at_inside [of "p + pos" d s "args_bytes bs @ r"] Cons.prems AString by (simp add: arg_simps plain_args_def)
    moreover have "m_strings ?msg = Some (map osc_string (strings_of as) @ [osc_string s])"
      "m_numStrings ?msg = ilength (strings_of as) + 1"
      using AString by (simp_all add: osc_message_def arg_simps)
    moreover have "rd (map osc_string (strings_of as) @ [osc_string s]) (ilength (strings_of as)) = Some (osc_string s)"
      by (rule rd_next) simp
    ultimately show ?thesis using IH AString add_chars_ok [OF assms(1) Cons.prems(1)] by (simp add: arg_simps)
  qed
qed (auto simp: arg_simps)

lemma read_args_ok:
  assumes "allocates new" "stale msg addr as" "m = d @ args_bytes bs @ r" "p + pos = ilength d" "plain_args bs"
  shows "\<exists>msg'. read_args new m p (map tag_of bs @ replicate k 0) pos msg = Some msg' \<and> stale msg' addr (as @ bs)"
proof -
  have "read_args new m p (replicate k 0) q msg' = Some msg'" for q msg' by (cases k) simp_all
  then show ?thesis using read_args_append [OF assms] by auto
qed

lemma WOscMessage_read_ok:
  assumes "allocates new" "m = d @ message_bytes addr args @ r" "p = ilength d" "n = ilength (message_bytes addr args)"
    and "0 \<notin> set addr" "addr \<noteq> []" "hd addr = of_char CHR ''/''" "plain_args args"
  shows "WOscMessage_read new m p n = Some (Inr (osc_message addr args))"
proof -
  let ?tag = "type_tag args" and ?empty = "empty_message (osc_string addr) (osc_string (type_tag []))"
  have c: "rd m p = Some (of_char CHR ''/'')"
    using assms(2,3,6,7) by (cases addr) (simp_all add: rd_eq nth_append message_bytes_def pad_def)
  have a: "string_at m p addr" using string_at_inside [of p d addr] assms(2,3,5) by (simp add: message_bytes_def)
  have t: "string_at m (p + ilength (pad addr)) ?tag"
    using string_at_inside [of "p + ilength (pad addr)" "d @ pad addr" ?tag] assms(2,3) by (simp add: message_bytes_def)
  obtain k where k: "pad ?tag = of_char CHR '','' # map tag_of args @ replicate k 0" by (simp add: pad_def type_tag_def)
  have len: "\<not> n < 1" "\<not> n \<le> ilength (pad addr)"
    using pad_room [of addr] pad_room [of ?tag] assms(4) by (simp_all add: message_bytes_def)
  obtain msg where msg: "read_args new m p (map tag_of args @ replicate k 0) (ilength (pad addr) + ilength (pad ?tag)) ?empty = Some msg"
      "stale msg addr args"
    using read_args_ok [OF assms(1) stale_empty [of addr], of m "d @ pad addr @ pad ?tag" args r p "ilength (pad addr) + ilength (pad ?tag)" k]
      assms(2,3,8) by (auto simp: message_bytes_def)
  have "read_args new m p (pad ?tag) (ilength (pad addr) + ilength (pad ?tag)) ?empty = Some msg" using msg(1) by (simp add: k)
  then show ?thesis
    using c a t len generate_ok [OF assms(1) msg(2)] empty_tag assms(1)
    by (simp add: WOscMessage_read_def fresh_string str_assign_chars_at WOscString_chars_at arg_simps mem_read_def)
qed

lemma copy_array_ok:
  assumes "num = ilength xs" "copy xs = Some ys" "length ys = length xs"
  shows "copy_array (array xs) num copy = Some (array ys)"
  using assms by (cases xs; cases ys) (simp_all add: copy_array_def array_def mem_read_def)

lemma message_Copy_ok:
  assumes "allocates new"
  shows "message_Copy new this (osc_message addr args) = Some (osc_message addr args)"
proof -
  have "copy_array (array (map osc_string (strings_of args))) (ilength (strings_of args)) (copy_strings new (osc_string [])) =
      Some (array (map osc_string (strings_of args)))"
    by (rule copy_array_ok) (simp_all add: copy_strings_ok assms)
  moreover have "copy_array (Some (message_bytes addr args)) (ilength (message_bytes addr args))
      (\<lambda>bs. mem_write (new (ilength (message_bytes addr args))) 0 bs) = Some (Some (message_bytes addr args))"
    using assms pad_room [of addr] by (simp add: copy_array_def mem_read_def mem_write_def allocates_def message_bytes_def)
  ultimately show ?thesis
    using assms by (simp add: message_Copy_def osc_message_def str_assign_osc copy_array_ok fresh_string copy_array_def [of None])
qed

subsection \<open>Messages that are too short\<close>

lemma BufferTo_end: "8 \<le> LENGTH('a::len) \<Longrightarrow> p = ilength m \<Longrightarrow> (BufferTo m p :: 'a word option) = None"
proof -
  assume n: "8 \<le> LENGTH('a)" and p: "p = ilength m"
  let ?n = "int (LENGTH('a) div 8)"
  obtain k where k: "LENGTH('a) div 8 = Suc k" using n by (metis div_greater_zero_iff gr0_implies_Suc zero_less_numeral)
  have "nat (1 + int k) = Suc k" by simp
  then show ?thesis by (simp add: BufferTo_def Let_def for_range_def p rd_None k)
qed

text \<open>The constructor does not compare the arguments with the length of the buffer: when the last
  of them are missing, it reads behind the end.\<close>

lemma short_message_overread:
  assumes "allocates new" "0 \<notin> set addr" "addr \<noteq> []" "hd addr = of_char CHR ''/''" "plain_args args"
    and "m = pad addr @ pad (type_tag (args @ [AInt v])) @ args_bytes args"
  shows "WOscMessage_read new m 0 (ilength m) = None"
proof -
  let ?tag = "type_tag (args @ [AInt v])" and ?empty = "empty_message (osc_string addr) (osc_string (type_tag []))"
  have c: "rd m 0 = Some (of_char CHR ''/'')" using assms(3,4,6) by (cases addr) (simp_all add: rd_eq pad_def)
  have a: "string_at m 0 addr" using string_at_inside [of 0 "[]" addr] assms(2,6) by simp
  have t: "string_at m (ilength (pad addr)) ?tag" using string_at_inside [of "ilength (pad addr)" "pad addr" ?tag] assms(6) by simp
  have len: "\<not> ilength m < 1" "\<not> ilength m \<le> ilength (pad addr)" using pad_room [of addr] pad_room [of ?tag] assms(6) by simp_all
  obtain k where k: "pad ?tag = of_char CHR '','' # map tag_of args @ of_char CHR ''i'' # replicate k 0" by (simp add: pad_def type_tag_def)
  obtain msg where "\<forall>ts. read_args new m 0 (map tag_of args @ ts) (ilength (pad addr) + ilength (pad ?tag)) ?empty =
      read_args new m 0 ts (ilength m) msg"
    using read_args_append [OF assms(1) stale_empty [of addr], of m "pad addr @ pad ?tag" args "[]" 0 "ilength (pad addr) + ilength (pad ?tag)"]
      assms(5,6) by (auto simp: add.assoc)
  then have "read_args new m 0 (pad ?tag) (ilength (pad addr) + ilength (pad ?tag)) ?empty = None" by (simp add: k BufferTo_end)
  then show ?thesis
    using c a t len empty_tag assms(1)
    by (simp add: WOscMessage_read_def fresh_string str_assign_chars_at WOscString_chars_at arg_simps mem_read_def)
qed

text \<open>A second blob is written past the end of the array that has an entry for every string.\<close>

lemma second_blob_overruns:
  assumes "m_blobs msg = Some blobs" "m_numBlobs msg = ilength blobs" "m_numStrings msg < ilength blobs + 1"
  shows "add_blob new msg b = None"
  using assms by (cases "str_append_char new (m_typeTag msg) (of_char CHR ''b'')") (simp_all add: add_blob_def mem_read_def c_assert_def)

end
