(* ===== verification/OscBundle.thy ===== *)
theory OscBundle
  imports OscTimeTag OscEncode
begin

text \<open>
  \<^verbatim>\<open>wosclib/WOscBundle.cpp\<close>, the parser of \<^verbatim>\<open>WOscBundle.h\<close> and the bundle processing of
  \<^verbatim>\<open>WOscReceiver.cpp\<close>. The pointer arrays of a bundle are lists, of which \<open>m_numMessages\<close> and
  \<open>m_numBundles\<close> are the lengths; \<open>m_buffer\<close> is not kept, since it is rebuilt whenever it is read.
  The parser counts in 32 bit unsigned integers, \<open>size_t\<close> has 64 bits.
\<close>

subsection \<open>Bundles\<close>

datatype WOscBundle = WOscBundle (b_timeTag: WOscTimeTag) (b_messages: "WOscMessage list") (b_bundles: "WOscBundle list")

definition WOscBundle_new :: WOscBundle where
  "WOscBundle_new = WOscBundle GetImmediateTime [] []"

definition WOscBundle_tagged :: "WOscTimeTag \<Rightarrow> WOscBundle" where
  "WOscBundle_tagged t = WOscBundle t [] []"

definition bundle_Reset :: "WOscBundle \<Rightarrow> WOscBundle" where
  "bundle_Reset b = WOscBundle (b_timeTag b) [] []"

definition bundle_Add :: "WOscBundle \<Rightarrow> WOscMessage \<Rightarrow> WOscBundle" where
  "bundle_Add b msg = WOscBundle (b_timeTag b) (b_messages b @ [msg]) (b_bundles b)"

definition bundle_Add_bundle :: "WOscBundle \<Rightarrow> WOscBundle \<Rightarrow> WOscBundle" where
  "bundle_Add_bundle b bundle = WOscBundle (b_timeTag b) (b_messages b) (b_bundles b @ [bundle])"

text \<open>\<open>GetMessage\<close> and \<open>GetBundle\<close> take the element out of the bundle.\<close>

definition remove_at :: "'a list \<Rightarrow> int \<Rightarrow> 'a list" where
  "remove_at xs idx = take (nat idx) xs @ drop (nat idx + 1) xs"

definition GetMessage :: "WOscBundle \<Rightarrow> int \<Rightarrow> ErrorCodes + WOscMessage \<times> WOscBundle" where
  "GetMessage b idx = (if idx < 0 \<or> idx \<ge> ilength (b_messages b) then Inl ERR_INVALID_INDEX
     else Inr (b_messages b ! nat idx, WOscBundle (b_timeTag b) (remove_at (b_messages b) idx) (b_bundles b)))"

definition GetBundle :: "WOscBundle \<Rightarrow> int \<Rightarrow> ErrorCodes + WOscBundle \<times> WOscBundle" where
  "GetBundle b idx = (if idx < 0 \<or> idx \<ge> ilength (b_bundles b) then Inl ERR_INVALID_INDEX
     else Inr (b_bundles b ! nat idx, WOscBundle (b_timeTag b) (b_messages b) (remove_at (b_bundles b) idx)))"

text \<open>The size: the header, the time tag, and four bytes and the element for each element.\<close>

fun bundle_GetBufferLen :: "WOscBundle \<Rightarrow> int" where
  "bundle_GetBufferLen (WOscBundle t messages bundles) =
     8 + 8 + sum_list (map (\<lambda>msg. 4 + m_bufferLen msg) messages) + sum_list (map (\<lambda>b. 4 + bundle_GetBufferLen b) bundles)"

definition WOSC_BUNDLE_TAG :: "byte list" where
  "WOSC_BUNDLE_TAG = str_bytes ''#bundle'' @ [0]"

fun write_messages :: "WOscMessage list \<Rightarrow> byte list \<Rightarrow> int \<Rightarrow> (byte list \<times> int) option" where
  "write_messages [] buffer wrPtr = Some (buffer, wrPtr)"
| "write_messages (msg # messages) buffer wrPtr = do {
     let msgSize = m_bufferLen msg;
     buffer \<leftarrow> FillBufferWith buffer wrPtr (word_of_int msgSize :: 32 word);
     temp \<leftarrow> m_buffer msg;
     bs \<leftarrow> mem_read temp 0 msgSize;
     buffer \<leftarrow> mem_write buffer (wrPtr + 4) bs;
     write_messages messages buffer (wrPtr + 4 + msgSize)
   }"

fun bundle_GetBuffer :: "allocator \<Rightarrow> WOscBundle \<Rightarrow> byte list option"
and write_bundles :: "allocator \<Rightarrow> WOscBundle list \<Rightarrow> byte list \<Rightarrow> int \<Rightarrow> byte list option" where
  "bundle_GetBuffer new (WOscBundle timeTag messages bundles) = do {
     buffer \<leftarrow> mem_write (new (bundle_GetBufferLen (WOscBundle timeTag messages bundles))) 0 WOSC_BUNDLE_TAG;
     buffer \<leftarrow> WriteToCharArray timeTag buffer 8;
     (buffer, wrPtr) \<leftarrow> write_messages messages buffer 16;
     write_bundles new bundles buffer wrPtr
   }"
| "write_bundles new [] buffer wrPtr = Some buffer"
| "write_bundles new (b # bundles) buffer wrPtr = do {
     let bndlSize = bundle_GetBufferLen b;
     buffer \<leftarrow> FillBufferWith buffer wrPtr (word_of_int bndlSize :: 32 word);
     temp \<leftarrow> bundle_GetBuffer new b;
     bs \<leftarrow> mem_read temp 0 bndlSize;
     buffer \<leftarrow> mem_write buffer (wrPtr + 4) bs;
     write_bundles new bundles buffer (wrPtr + 4 + bndlSize)
   }"

subsection \<open>The parser\<close>

text \<open>\<open>m_bundle\<close> is the position of the bundle in memory.\<close>

record WOscBundleParser =
  bp_bundle :: "int option"
  bp_bundleLen :: "32 word"
  bp_nItems :: "32 word"
  bp_nextItem :: "32 word"
  bp_offset :: "32 word"

definition zero_parser :: WOscBundleParser where
  "zero_parser = \<lparr>bp_bundle = None, bp_bundleLen = 0, bp_nItems = 0, bp_nextItem = 0, bp_offset = 0\<rparr>"

definition ResetStateMachine :: "WOscBundleParser \<Rightarrow> WOscBundleParser" where
  "ResetStateMachine parser = parser\<lparr>bp_nextItem := 0, bp_offset := 0\<rparr>"

text \<open>The loop that steps through the bundle; a negative item length moves it backwards.\<close>

partial_function (option) step_items :: "byte list \<Rightarrow> int \<Rightarrow> 32 word \<Rightarrow> 32 word \<Rightarrow> 32 word \<Rightarrow> (32 word \<times> 32 word) option" where
  "step_items m p dataLen offset nItems =
     (if uint offset + 4 < uint dataLen then do {
        itemLen \<leftarrow> BufferTo m (p + 16 + uint offset);
        step_items m p dataLen (offset + (itemLen + 4)) (nItems + 1)
      } else Some (offset, nItems))"

definition Parse :: "byte list \<Rightarrow> int \<Rightarrow> 32 word \<Rightarrow> (ErrorCodes option \<times> WOscBundleParser) option" where
  "Parse m p len = (let dataLen = len - 16 in
     if dataLen > len then Some (Some ERR_TOO_SHORT, zero_parser)
     else if dataLen = 0 then Some (Some ERR_EMPTY_BUNDLE, zero_parser)
     else do {
       tag \<leftarrow> mem_read m p 8;
       if tag \<noteq> WOSC_BUNDLE_TAG then Some (Some ERR_INVALID_TAG, zero_parser)
       else do {
         (offset, nItems) \<leftarrow> step_items m p dataLen 0 0;
         let parser = zero_parser\<lparr>bp_nItems := nItems\<rparr>;
         if offset \<noteq> dataLen then Some (Some ERR_CURRUPT_BUNDLE_LAYOUT, parser)
         else if nItems = 0 then Some (Some ERR_NO_ITEMS_IN_BUNDLE, parser)
         else Some (None, parser\<lparr>bp_bundle := Some p, bp_bundleLen := len\<rparr>)
       }
     })"

definition GetTimeTag :: "WOscBundleParser \<Rightarrow> byte list \<Rightarrow> WOscTimeTag option" where
  "GetTimeTag parser m = (case bp_bundle parser of None \<Rightarrow> Some GetImmediateTime | Some p \<Rightarrow> InitFromCharArray m (p + 8))"

text \<open>The next item: its position and length.\<close>

definition GetNextItem :: "WOscBundleParser \<Rightarrow> byte list \<Rightarrow> ((int \<times> 32 word) option \<times> WOscBundleParser) option" where
  "GetNextItem parser m = (let dataLen = bp_bundleLen parser - 16 in
     if bp_nextItem parser \<ge> bp_nItems parser \<or> bp_offset parser \<ge> dataLen then Some (None, parser)
     else do {
       p \<leftarrow> bp_bundle parser;
       n \<leftarrow> BufferTo m (p + 16 + uint (bp_offset parser));
       let buffer = p + 16 + uint (bp_offset parser) + 4;
       Some (Some (buffer, n), parser\<lparr>bp_offset := bp_offset parser + (n + 4), bp_nextItem := bp_nextItem parser + 1\<rparr>)
     })"

text \<open>The copy that is queued begins at the data of the bundle, but has the length of the whole.\<close>

definition Clone :: "WOscBundleParser \<Rightarrow> byte list \<Rightarrow> (ErrorCodes + byte list) option" where
  "Clone parser m = (case bp_bundle parser of
     None \<Rightarrow> Some (Inl ERR_CAN_NOT_CLONE_UNINITIALIZED_BUNDLE)
   | Some p \<Rightarrow> do {
       bs \<leftarrow> mem_read m (p + 16) (uint (bp_bundleLen parser));
       Some (Inr bs)
     })"

subsection \<open>The receiver\<close>

text \<open>
  The messages that \<open>ProcessMessage\<close> constructs, in order, and the exception that ended the
  processing. An item is taken for a bundle when its second byte is \<open>'#'\<close>.
\<close>

partial_function (option) process_items ::
  "allocator \<Rightarrow> byte list \<Rightarrow> WOscBundleParser \<Rightarrow> WOscMessage list \<Rightarrow> (ErrorCodes option \<times> WOscMessage list) option" where
  "process_items new m parser msgs = do {
     (item, parser) \<leftarrow> GetNextItem parser m;
     case item of
       None \<Rightarrow> Some (None, msgs)
     | Some (buffer, n) \<Rightarrow>
         (if 0 < n then do {
            c \<leftarrow> rd m (buffer + 1);
            if c = of_char CHR ''#'' then do {
              (err, inner) \<leftarrow> Parse m buffer n;
              if err \<noteq> None then Some (err, msgs)
              else do {
                (err, msgs) \<leftarrow> process_items new m inner msgs;
                if err \<noteq> None then Some (err, msgs) else process_items new m parser msgs
              }
            } else do {
              msg \<leftarrow> WOscMessage_read new m buffer (sint n);
              case msg of
                Inl err \<Rightarrow> Some (Some err, msgs)
              | Inr msg \<Rightarrow> process_items new m parser (msgs @ [msg])
            }
          } else process_items new m parser msgs)
   }"

definition ProcessBundle :: "allocator \<Rightarrow> byte list \<Rightarrow> int \<Rightarrow> 32 word \<Rightarrow> (ErrorCodes option \<times> WOscMessage list) option" where
  "ProcessBundle new m p len = do {
     (err, parser) \<leftarrow> Parse m p len;
     if err \<noteq> None then Some (err, []) else process_items new m parser []
   }"

text \<open>The caller catches the exceptions and drops the rest of the packet.\<close>

definition NetworkReceive :: "allocator \<Rightarrow> byte list \<Rightarrow> int \<Rightarrow> (ErrorCodes option \<times> WOscMessage list) option" where
  "NetworkReceive new data dataLen =
     (if dataLen < 1 then Some (None, [])
      else do {
        c \<leftarrow> rd data 0;
        if c = of_char CHR ''#'' then ProcessBundle new data 0 (word_of_int dataLen)
        else do {
          msg \<leftarrow> WOscMessage_read new data 0 dataLen;
          case msg of Inl err \<Rightarrow> Some (Some err, []) | Inr msg \<Rightarrow> Some (None, [msg])
        }
      })"

end
