(* ===== verification/OscReceive.thy ===== *)
theory OscReceive
  imports OscBundle
begin

text \<open>
  Bundles on the wire: \<open>bundle_image\<close> is the binary form of a bundle with all its elements, and the
  receiver is run on it.
\<close>

subsection \<open>Specification\<close>

definition item_bytes :: "byte list \<Rightarrow> byte list" where
  "item_bytes it = rev (object_bytes (word_of_int (ilength it) :: 32 word)) @ it"

definition items_bytes :: "byte list list \<Rightarrow> byte list" where
  "items_bytes items = concat (map item_bytes items)"

definition bundle_bytes :: "WOscTimeTag \<Rightarrow> byte list list \<Rightarrow> byte list" where
  "bundle_bytes t items = WOSC_BUNDLE_TAG @ rev (object_bytes t) @ items_bytes items"

definition buffer_of :: "WOscMessage \<Rightarrow> byte list" where
  "buffer_of msg = (case m_buffer msg of None \<Rightarrow> [] | Some bs \<Rightarrow> bs)"

fun bundle_image :: "WOscBundle \<Rightarrow> byte list" where
  "bundle_image (WOscBundle t messages bundles) = bundle_bytes t (map buffer_of messages @ map bundle_image bundles)"

definition buffered :: "WOscMessage \<Rightarrow> bool" where
  "buffered msg \<longleftrightarrow> m_buffer msg \<noteq> None \<and> m_bufferLen msg = ilength (buffer_of msg)"

fun all_buffered :: "WOscBundle \<Rightarrow> bool" where
  "all_buffered (WOscBundle t messages bundles) \<longleftrightarrow> list_all buffered messages \<and> list_all all_buffered bundles"

lemma items_bytes_simps [arg_simps]:
  "items_bytes [] = []" "items_bytes (it # items) = item_bytes it @ items_bytes items"
  "items_bytes (as @ bs) = items_bytes as @ items_bytes bs"
  by (simp_all add: items_bytes_def)

lemma length_item [simp]: "length (item_bytes it) = 4 + length it"
  by (simp add: item_bytes_def)

lemma length_tag [simp]: "length WOSC_BUNDLE_TAG = 8"
  by (simp add: WOSC_BUNDLE_TAG_def str_bytes_def)

lemma length_bundle_bytes: "length (bundle_bytes t items) = 16 + length (items_bytes items)"
  by (simp add: bundle_bytes_def)

lemma ilength_items: "ilength (items_bytes items) = sum_list (map (\<lambda>it. 4 + ilength it) items)"
  by (induction items) (simp_all add: arg_simps)

subsection \<open>Writing\<close>

lemma write_item:
  assumes "pos = ilength d" "length e = 4 + length it"
  shows "do { buffer \<leftarrow> FillBufferWith (d @ e @ f) pos (word_of_int (ilength it) :: 32 word); mem_write buffer (pos + 4) it } =
    Some (d @ item_bytes it @ f)"
proof -
  obtain e1 e2 where e: "e = e1 @ e2" "length e1 = 4" "length e2 = length it"
    using assms(2) by (intro that [of "take 4 e" "drop 4 e"]) simp_all
  let ?n = "word_of_int (ilength it) :: 32 word"
  have "FillBufferWith (d @ e1 @ e2 @ f) pos ?n = Some (d @ rev (object_bytes ?n) @ e2 @ f)"
    by (rule FillBufferWith_at) (use assms e in simp_all)
  moreover have "mem_write ((d @ rev (object_bytes ?n)) @ e2 @ f) (pos + 4) it = Some ((d @ rev (object_bytes ?n)) @ it @ f)"
    by (rule mem_write_at) (use assms e in simp_all)
  ultimately show ?thesis by (simp add: e(1) item_bytes_def)
qed

lemma bind_bind_some: "m = Some x \<Longrightarrow> (m \<bind> f) = f x"
  by simp

lemma write_messages_ok:
  assumes "list_all buffered messages" "pos = ilength d" "length e = length (items_bytes (map buffer_of messages))"
  shows "write_messages messages (d @ e @ f) pos =
    Some (d @ items_bytes (map buffer_of messages) @ f, pos + ilength (items_bytes (map buffer_of messages)))"
  using assms
proof (induction messages arbitrary: d e pos)
  case (Cons msg messages)
  let ?it = "buffer_of msg"
  obtain e1 e2 where e: "e = e1 @ e2" "length e1 = 4 + length ?it" "length e2 = length (items_bytes (map buffer_of messages))"
    using Cons.prems(3) by (intro that [of "take (4 + length ?it) e" "drop (4 + length ?it) e"]) (simp_all add: arg_simps)
  have msg: "m_buffer msg = Some ?it" "m_bufferLen msg = ilength ?it"
    using Cons.prems(1) by (auto simp: buffered_def buffer_of_def)
  obtain b where b: "FillBufferWith (d @ e1 @ e2 @ f) pos (word_of_int (ilength ?it) :: 32 word) = Some b"
      "mem_write b (pos + 4) ?it = Some (d @ item_bytes ?it @ e2 @ f)"
    using write_item [of pos d e1 ?it "e2 @ f"] Cons.prems e by (auto simp: bind_eq_Some_conv)
  have "write_messages messages ((d @ item_bytes ?it) @ e2 @ f) (pos + 4 + ilength ?it) =
      Some ((d @ item_bytes ?it) @ items_bytes (map buffer_of messages) @ f,
        pos + 4 + ilength ?it + ilength (items_bytes (map buffer_of messages)))"
    by (rule Cons.IH) (use Cons.prems e in simp_all)
  then show ?case using b by (simp add: e(1) msg mem_read_def arg_simps)
qed (simp add: arg_simps)

lemma GetBufferLen_image: "all_buffered b \<Longrightarrow> bundle_GetBufferLen b = ilength (bundle_image b)"
proof (induction b)
  case (WOscBundle t messages bundles)
  have "map (\<lambda>msg. 4 + m_bufferLen msg) messages = map (\<lambda>it. 4 + ilength it) (map buffer_of messages)"
    using WOscBundle.prems by (auto simp: list_all_iff buffered_def)
  moreover have "map (\<lambda>b. 4 + bundle_GetBufferLen b) bundles = map (\<lambda>it. 4 + ilength it) (map bundle_image bundles)"
    using WOscBundle by (auto simp: list_all_iff)
  ultimately show ?case by (simp add: length_bundle_bytes ilength_items del: map_map)
qed

lemma write_bundles_ok:
  assumes "\<forall>b \<in> set bs. all_buffered b \<and> bundle_GetBuffer new b = Some (bundle_image b)" "pos = ilength d"
    "length e = length (items_bytes (map bundle_image bs))"
  shows "write_bundles new bs (d @ e) pos = Some (d @ items_bytes (map bundle_image bs))"
  using assms
proof (induction bs arbitrary: d e pos)
  case (Cons b bs)
  let ?it = "bundle_image b"
  obtain e1 e2 where e: "e = e1 @ e2" "length e1 = 4 + length ?it" "length e2 = length (items_bytes (map bundle_image bs))"
    using Cons.prems(3) by (intro that [of "take (4 + length ?it) e" "drop (4 + length ?it) e"]) (simp_all add: arg_simps)
  have b: "bundle_GetBufferLen b = ilength ?it" "bundle_GetBuffer new b = Some ?it"
    using Cons.prems(1) by (simp_all add: GetBufferLen_image)
  obtain c where c: "FillBufferWith (d @ e1 @ e2) pos (word_of_int (ilength ?it) :: 32 word) = Some c"
      "mem_write c (pos + 4) ?it = Some (d @ item_bytes ?it @ e2)"
    using write_item [of pos d e1 ?it e2] Cons.prems e by (auto simp: bind_eq_Some_conv)
  have "write_bundles new bs ((d @ item_bytes ?it) @ e2) (pos + 4 + ilength ?it) = Some ((d @ item_bytes ?it) @ items_bytes (map bundle_image bs))"
    by (rule Cons.IH) (use Cons.prems e in simp_all)
  then show ?case using c by (simp add: e(1) b mem_read_def arg_simps)
qed (simp add: arg_simps)

lemma bundle_GetBuffer_ok:
  assumes "allocates new"
  shows "all_buffered b \<Longrightarrow> bundle_GetBuffer new b = Some (bundle_image b)"
proof (induction b)
  case (WOscBundle t messages bundles)
  let ?ms = "items_bytes (map buffer_of messages)" and ?bs = "items_bytes (map bundle_image bundles)"
  let ?n = "bundle_GetBufferLen (WOscBundle t messages bundles)"
  have n: "?n = 16 + ilength ?ms + ilength ?bs"
    using GetBufferLen_image [OF WOscBundle.prems] by (simp add: length_bundle_bytes arg_simps)
  obtain d1 d2 d3 d4 where d: "new ?n = d1 @ d2 @ d3 @ d4" "length d1 = 8" "length d2 = 8" "length d3 = length ?ms" "length d4 = length ?bs"
  proof
    have "length (new ?n) = nat ?n" using assms by (simp add: allocates_def)
    then show "length (take 8 (new ?n)) = 8" "length (take 8 (drop 8 (new ?n))) = 8"
      "length (take (length ?ms) (drop 16 (new ?n))) = length ?ms" "length (drop (length ?ms) (drop 16 (new ?n))) = length ?bs"
      unfolding n by simp_all
    have "drop 8 (drop 8 (new ?n)) = drop 16 (new ?n)" by simp
    then show "new ?n = take 8 (new ?n) @ take 8 (drop 8 (new ?n)) @ take (length ?ms) (drop 16 (new ?n)) @ drop (length ?ms) (drop 16 (new ?n))"
      by (metis append_take_drop_id)
  qed
  have w1: "mem_write ([] @ d1 @ d2 @ d3 @ d4) 0 WOSC_BUNDLE_TAG = Some ([] @ WOSC_BUNDLE_TAG @ d2 @ d3 @ d4)"
    by (rule mem_write_at) (use d in simp_all)
  have w2: "FillBufferWith (WOSC_BUNDLE_TAG @ d2 @ d3 @ d4) 8 t = Some (WOSC_BUNDLE_TAG @ rev (object_bytes t) @ d3 @ d4)"
    by (rule FillBufferWith_at) (use d in simp_all)
  have w3: "write_messages messages ((WOSC_BUNDLE_TAG @ rev (object_bytes t)) @ d3 @ d4) 16 =
      Some ((WOSC_BUNDLE_TAG @ rev (object_bytes t)) @ ?ms @ d4, 16 + ilength ?ms)"
    by (rule write_messages_ok) (use d WOscBundle.prems in simp_all)
  have w4: "write_bundles new bundles ((WOSC_BUNDLE_TAG @ rev (object_bytes t) @ ?ms) @ d4) (16 + ilength ?ms) =
      Some ((WOSC_BUNDLE_TAG @ rev (object_bytes t) @ ?ms) @ ?bs)"
    by (rule write_bundles_ok) (use d WOscBundle in \<open>simp_all add: list_all_iff\<close>)
  show ?case
    using w1 w2 w3 w4 d(1) by (simp add: WriteToCharArray_def bundle_bytes_def arg_simps)
qed

subsection \<open>Parsing\<close>

lemma item_length_read:
  assumes "m = d @ item_bytes it @ r" "p = ilength d"
  shows "BufferTo m p = Some (word_of_int (ilength it) :: 32 word)"
  using BufferTo_word [of p d "word_of_int (ilength it) :: 32 word" "it @ r"] assms by (simp add: item_bytes_def)

lemma uint_of_nat_small: "n < 2 ^ 31 \<Longrightarrow> uint (of_nat n :: 32 word) = int n"
  by (simp add: unsigned_of_nat take_bit_nat_eq_self)

definition parsed_at :: "byte list \<Rightarrow> int \<Rightarrow> byte list list \<Rightarrow> bool" where
  "parsed_at m p items \<longleftrightarrow> (\<exists>d h r. m = d @ h @ items_bytes items @ r \<and> p = ilength d \<and> length h = 16) \<and>
     [] \<notin> set items \<and> length (items_bytes items) < 2 ^ 31 - 16"

lemma item_there:
  assumes "parsed_at m p (as @ it # bs)"
  shows "BufferTo m (p + 16 + ilength (items_bytes as)) = Some (word_of_int (ilength it) :: 32 word)"
    and "\<exists>d r. m = d @ it @ r \<and> ilength d = p + 16 + ilength (items_bytes as) + 4"
    and "it \<noteq> []" "length (items_bytes as) + 4 + length it < 2 ^ 31"
proof -
  obtain d h r where m: "m = d @ h @ items_bytes (as @ it # bs) @ r" "p = ilength d" "length h = 16"
    using assms by (auto simp: parsed_at_def)
  show "BufferTo m (p + 16 + ilength (items_bytes as)) = Some (word_of_int (ilength it) :: 32 word)"
    by (rule item_length_read [of m "d @ h @ items_bytes as" it "items_bytes bs @ r"]) (use m in \<open>simp_all add: arg_simps\<close>)
  have "m = (d @ h @ items_bytes as @ rev (object_bytes (word_of_int (ilength it) :: 32 word))) @ it @ (items_bytes bs @ r)"
    using m by (simp add: arg_simps item_bytes_def)
  then show "\<exists>d r. m = d @ it @ r \<and> ilength d = p + 16 + ilength (items_bytes as) + 4"
    using m by (intro exI [of _ "d @ h @ items_bytes as @ rev (object_bytes (word_of_int (ilength it) :: 32 word))"] exI conjI) simp_all
  show "it \<noteq> []" "length (items_bytes as) + 4 + length it < 2 ^ 31"
    using assms by (auto simp: parsed_at_def arg_simps)
qed

lemma step_items_ok:
  assumes "parsed_at m p (as @ bs)" "N = length (items_bytes (as @ bs))"
  shows "step_items m p (of_nat N) (of_nat (length (items_bytes as))) n = Some (of_nat N, n + of_nat (length bs))"
  using assms
proof (induction bs arbitrary: as n)
  case Nil
  then show ?case by (simp add: step_items.simps)
next
  case (Cons it bs)
  note it = item_there [OF Cons.prems(1)]
  have N: "length (items_bytes as) + 4 < N" "N < 2 ^ 31" "length (items_bytes as) < 2 ^ 31"
    using Cons.prems it(3,4) by (auto simp: parsed_at_def arg_simps)
  have "step_items m p (of_nat N) (of_nat (length (items_bytes (as @ [it])))) (n + 1) = Some (of_nat N, n + 1 + of_nat (length bs))"
    by (rule Cons.IH) (use Cons.prems in simp_all)
  moreover have "(of_nat (length (items_bytes (as @ [it]))) :: 32 word) =
      of_nat (length (items_bytes as)) + (word_of_int (ilength it) + 4)"
    by (simp add: arg_simps)
  ultimately show ?case
    using it(1) N by (simp add: step_items.simps [of m p "of_nat N" "of_nat (length (items_bytes as))"] uint_of_nat_small)
qed

text \<open>The parser in front of the items \<open>bs\<close>, after the items \<open>as\<close>.\<close>

definition parser_at :: "int \<Rightarrow> byte list list \<Rightarrow> byte list list \<Rightarrow> WOscBundleParser" where
  "parser_at p as bs = \<lparr>bp_bundle = Some p, bp_bundleLen = of_nat (16 + length (items_bytes (as @ bs))),
     bp_nItems = of_nat (length (as @ bs)), bp_nextItem = of_nat (length as), bp_offset = of_nat (length (items_bytes as))\<rparr>"

lemma items_count: "length items \<le> length (items_bytes items)"
  by (induction items) (simp_all add: arg_simps)

lemma of_nat_eq_0: "n < 2 ^ 31 \<Longrightarrow> (of_nat n :: 32 word) = 0 \<longleftrightarrow> n = 0"
  by (metis of_nat_0_eq_iff uint_0_iff uint_of_nat_small)

lemma Parse_ok:
  assumes "parsed_at m p items" "items \<noteq> []" "mem_read m p 8 = Some WOSC_BUNDLE_TAG"
  shows "Parse m p (of_nat (16 + length (items_bytes items))) = Some (None, parser_at p [] items)"
proof -
  let ?N = "length (items_bytes items)"
  have N: "?N < 2 ^ 31 - 16" "0 < ?N" "length items < 2 ^ 31"
    using assms(1,2) items_count [of items] by (cases items; auto simp: parsed_at_def arg_simps)+
  have "step_items m p (of_nat ?N) 0 0 = Some (of_nat ?N, of_nat (length items))"
    using step_items_ok [of m p "[]" items ?N 0] assms(1) by (simp add: arg_simps)
  moreover have "\<not> (of_nat ?N :: 32 word) > of_nat (16 + ?N)"
    unfolding word_less_def using N by (subst uint_of_nat_small, simp)+ simp
  ultimately show ?thesis
    using assms(2,3) N of_nat_eq_0 [of ?N] of_nat_eq_0 [of "length items"]
    by (simp add: Parse_def Let_def parser_at_def zero_parser_def arg_simps)
qed

lemma GetNextItem_end: "GetNextItem (parser_at p items []) m = Some (None, parser_at p items [])"
  by (simp add: GetNextItem_def parser_at_def Let_def)

lemma GetNextItem_ok:
  assumes "parsed_at m p (as @ it # bs)"
  shows "GetNextItem (parser_at p as (it # bs)) m =
    Some (Some (p + 16 + ilength (items_bytes as) + 4, word_of_int (ilength it)), parser_at p (as @ [it]) bs)"
proof -
  note it = item_there [OF assms]
  let ?k = "length (items_bytes as)" and ?N = "length (items_bytes (as @ it # bs))"
  have N: "?k < ?N" "?N < 2 ^ 31" "length (as @ it # bs) < 2 ^ 31"
    using assms items_count [of "as @ it # bs"] by (auto simp: parsed_at_def arg_simps)
  have "\<not> (of_nat (length as) :: 32 word) \<ge> of_nat (length (as @ it # bs))"
    unfolding word_le_def using N(3) by (subst uint_of_nat_small, simp)+ simp
  moreover have "\<not> (of_nat ?k :: 32 word) \<ge> of_nat ?N"
    unfolding word_le_def using N(1,2) by (subst uint_of_nat_small, simp)+ simp
  moreover have "uint (of_nat ?k :: 32 word) = ilength (items_bytes as)" using N by (intro uint_of_nat_small) simp
  ultimately show ?thesis
    using it(1) by (simp add: GetNextItem_def parser_at_def Let_def arg_simps ac_simps)
qed

subsection \<open>Receiving\<close>

lemma sint_item: "n < 2 ^ 31 \<Longrightarrow> sint (of_nat n :: 32 word) = int n"
  by (simp add: signed_of_nat signed_take_bit_int_eq_self)

lemma process_end: "process_items new m (parser_at p items []) msgs = Some (None, msgs)"
  by (simp add: process_items.simps [of _ _ "parser_at p items []"] GetNextItem_end)

lemma process_item:
  assumes "parsed_at m p (as @ it # bs)" "2 \<le> length it" "it ! 1 \<noteq> of_char CHR ''#''"
  shows "\<exists>d r. m = d @ it @ r \<and> process_items new m (parser_at p as (it # bs)) msgs =
    do { msg \<leftarrow> WOscMessage_read new m (ilength d) (ilength it);
         case msg of Inl err \<Rightarrow> Some (Some err, msgs)
         | Inr msg \<Rightarrow> process_items new m (parser_at p (as @ [it]) bs) (msgs @ [msg]) }"
proof -
  note it = item_there [OF assms(1)]
  obtain d r where m: "m = d @ it @ r" "ilength d = p + 16 + ilength (items_bytes as) + 4" using it(2) by blast
  have n: "length it < 2 ^ 31" using it(4) by simp
  then have "sint (word_of_int (ilength it) :: 32 word) = ilength it" "(word_of_int (ilength it) :: 32 word) \<noteq> 0"
    using of_nat_eq_0 [of "length it"] assms(2) by (auto simp: sint_item)
  moreover have "rd m (ilength d + 1) = Some (it ! 1)"
    using m(1) assms(2) by (simp add: rd_eq nth_append nat_add_distrib)
  ultimately have "process_items new m (parser_at p as (it # bs)) msgs =
    do { msg \<leftarrow> WOscMessage_read new m (ilength d) (ilength it);
         case msg of Inl err \<Rightarrow> Some (Some err, msgs)
         | Inr msg \<Rightarrow> process_items new m (parser_at p (as @ [it]) bs) (msgs @ [msg]) }"
    using assms(3) by (subst process_items.simps) (simp add: GetNextItem_ok [OF assms(1)] m(2) [symmetric] word_greater_zero_iff)
  then show ?thesis using m(1) by blast
qed

text \<open>Messages that a receiver takes for what they are: the second byte of the address is not \<open>#\<close>.\<close>

definition good_message :: "byte list \<times> osc_arg list \<Rightarrow> bool" where
  "good_message = (\<lambda>(addr, args). addr \<noteq> [] \<and> hd addr = of_char CHR ''/'' \<and> 0 \<notin> set addr \<and>
     pad addr ! 1 \<noteq> of_char CHR ''#'' \<and> plain_args args)"

abbreviation message :: "byte list \<times> osc_arg list \<Rightarrow> WOscMessage" where
  "message \<equiv> case_prod osc_message"

abbreviation wire :: "byte list \<times> osc_arg list \<Rightarrow> byte list" where
  "wire \<equiv> case_prod message_bytes"

lemma pad_4: "4 \<le> length (pad bs)"
  by (simp add: length_pad)

lemma wire_second: "wire spec ! 1 = pad (fst spec) ! 1" "2 \<le> length (wire spec)"
  using pad_4 [of "fst spec"] by (cases spec; simp add: message_bytes_def nth_append)+

lemma message_buffer [simp]: "buffer_of (message spec) = wire spec" "buffered (message spec)"
  by (cases spec; simp add: buffered_def buffer_of_def osc_message_def)+

lemma process_messages:
  assumes "allocates new" "parsed_at m p (as @ map wire specs @ bs)" "list_all good_message specs"
  shows "process_items new m (parser_at p as (map wire specs @ bs)) msgs =
    process_items new m (parser_at p (as @ map wire specs) bs) (msgs @ map message specs)"
  using assms(2,3)
proof (induction specs arbitrary: as msgs)
  case (Cons spec specs)
  obtain addr args where spec: "spec = (addr, args)" by (cases spec)
  obtain d r where m: "m = d @ wire spec @ r"
      "process_items new m (parser_at p as (wire spec # map wire specs @ bs)) msgs =
       do { msg \<leftarrow> WOscMessage_read new m (ilength d) (ilength (wire spec));
         case msg of Inl err \<Rightarrow> Some (Some err, msgs)
         | Inr msg \<Rightarrow> process_items new m (parser_at p (as @ [wire spec]) (map wire specs @ bs)) (msgs @ [msg]) }"
    using process_item [of m p as "wire spec" "map wire specs @ bs" new msgs] Cons.prems wire_second [of spec]
    by (auto simp: good_message_def)
  have "WOscMessage_read new m (ilength d) (ilength (wire spec)) = Some (Inr (message spec))"
    using WOscMessage_read_ok [OF assms(1), of m d addr args r "ilength d" "ilength (wire spec)"] m(1) Cons.prems(2)
    by (simp add: spec good_message_def)
  then show ?case
    using m(2) Cons.IH [of "as @ [wire spec]" "msgs @ [message spec]"] Cons.prems by simp
qed simp

lemma image_head: "\<exists>r. bundle_image b = of_char CHR ''#'' # of_char CHR ''b'' # r"
  by (cases b) (simp add: bundle_bytes_def WOSC_BUNDLE_TAG_def str_bytes_def)

lemma nested_bundle:
  assumes "parsed_at m p (as @ bundle_image b # bs)"
  shows "process_items new m (parser_at p as (bundle_image b # bs)) msgs = Some (Some ERR_INVALID_ADDRESS_NO_SLASH, msgs)"
proof -
  obtain r where r: "bundle_image b = of_char CHR ''#'' # of_char CHR ''b'' # r" using image_head by blast
  then have n: "2 \<le> length (bundle_image b)" "bundle_image b ! 1 \<noteq> of_char CHR ''#''" by simp_all
  obtain d e where m: "m = d @ bundle_image b @ e" "process_items new m (parser_at p as (bundle_image b # bs)) msgs =
      do { msg \<leftarrow> WOscMessage_read new m (ilength d) (ilength (bundle_image b));
         case msg of Inl err \<Rightarrow> Some (Some err, msgs)
         | Inr msg \<Rightarrow> process_items new m (parser_at p (as @ [bundle_image b]) bs) (msgs @ [msg]) }"
    using process_item [OF assms, of new msgs] n by blast
  have "rd m (ilength d) = Some (of_char CHR ''#'')" using m(1) r by (simp add: rd_eq)
  then have "WOscMessage_read new m (ilength d) (ilength (bundle_image b)) = Some (Inl ERR_INVALID_ADDRESS_NO_SLASH)"
    by (simp add: WOscMessage_read_def r)
  then show ?thesis using m(2) by simp
qed

lemma receive_image:
  assumes "allocates new" "list_all good_message specs" "specs \<noteq> [] \<or> bundles \<noteq> []"
    and "b = WOscBundle t (map message specs) bundles" "length (bundle_image b) < 2 ^ 31"
  shows "NetworkReceive new (bundle_image b) (ilength (bundle_image b)) =
    Some (if bundles = [] then None else Some ERR_INVALID_ADDRESS_NO_SLASH, map message specs)"
proof -
  let ?items = "map wire specs @ map bundle_image bundles"
  have bundle_image: "bundle_image b = [] @ (WOSC_BUNDLE_TAG @ rev (object_bytes t)) @ items_bytes ?items @ []"
    using assms(4) by (simp add: bundle_bytes_def comp_def)
  have "[] \<notin> set ?items" using wire_second(2) image_head by (auto, metis list.size(3) not_numeral_le_zero case_prod_conv, metis list.distinct(1))
  then have parsed: "parsed_at (bundle_image b) 0 ?items"
    unfolding parsed_at_def using bundle_image assms(5) by (intro conjI exI [of _ "[]"] exI [of _ "WOSC_BUNDLE_TAG @ rev (object_bytes t)"]) auto
  have len: "word_of_int (ilength (bundle_image b)) = (of_nat (16 + length (items_bytes ?items)) :: 32 word)" by (simp add: bundle_image)
  have "mem_read (bundle_image b) 0 8 = Some WOSC_BUNDLE_TAG" by (simp add: bundle_image mem_read_def)
  then have parse: "Parse (bundle_image b) 0 (word_of_int (ilength (bundle_image b))) = Some (None, parser_at 0 [] ?items)"
    unfolding len using Parse_ok [OF parsed] assms(3) by simp
  have "process_items new (bundle_image b) (parser_at 0 [] ?items) [] =
      process_items new (bundle_image b) (parser_at 0 (map wire specs) (map bundle_image bundles)) (map message specs)"
    using process_messages [OF assms(1), of "bundle_image b" 0 "[]" specs "map bundle_image bundles" "[]"] parsed assms(2) by simp
  also have "\<dots> = Some (if bundles = [] then None else Some ERR_INVALID_ADDRESS_NO_SLASH, map message specs)"
    using process_end nested_bundle [of "bundle_image b" 0 "map wire specs"] parsed by (cases bundles) simp_all
  finally have "ProcessBundle new (bundle_image b) 0 (word_of_int (ilength (bundle_image b))) =
      Some (if bundles = [] then None else Some ERR_INVALID_ADDRESS_NO_SLASH, map message specs)"
    using parse by (simp add: ProcessBundle_def)
  moreover obtain r where "bundle_image b = of_char CHR ''#'' # of_char CHR ''b'' # r" using image_head by blast
  ultimately show ?thesis by (simp add: NetworkReceive_def rd_eq)
qed

text \<open>C9: A bundle survives the wire: \<open>GetBuffer\<close> writes its size in bytes and no more, and the
  receiver that gets them constructs exactly the messages of the bundle, in order, and reports no
  error; but at the first bundle inside the bundle it ends with an error, because it looks for the
  \<open>#\<close> in the second byte of an item.\<close>

theorem bundle_received:
  assumes "allocates new" "list_all good_message specs" "specs \<noteq> [] \<or> bundles \<noteq> []" "list_all all_buffered bundles"
    and "b = WOscBundle t (map message specs) bundles" "bundle_GetBufferLen b < 2 ^ 31"
  shows "\<exists>data. bundle_GetBuffer new b = Some data \<and> ilength data = bundle_GetBufferLen b \<and>
    NetworkReceive new data (ilength data) =
      Some (if bundles = [] then None else Some ERR_INVALID_ADDRESS_NO_SLASH, map message specs)"
proof -
  have ok: "all_buffered b" using assms(4,5) by (simp add: list_all_iff)
  then have "length (bundle_image b) < 2 ^ 31" using assms(6) GetBufferLen_image [of b] by simp
  then show ?thesis
    using bundle_GetBuffer_ok [OF assms(1) ok] GetBufferLen_image [OF ok] receive_image [OF assms(1-3,5)] by auto
qed

lemma bundle_received_witness:
  "\<exists>data. bundle_GetBuffer (\<lambda>n. replicate (nat n) 0) (WOscBundle 1 [osc_message (str_bytes ''/a'') [AInt 5, AString (str_bytes ''xy'')]] [WOscBundle 1 [] []]) = Some data \<and>
     NetworkReceive (\<lambda>n. replicate (nat n) 0) data (ilength data) =
       Some (Some ERR_INVALID_ADDRESS_NO_SLASH, [osc_message (str_bytes ''/a'') [AInt 5, AString (str_bytes ''xy'')]])"
proof -
  let ?specs = "[(str_bytes ''/a'', [AInt 5, AString (str_bytes ''xy'')])]"
  have "list_all good_message ?specs" by (simp add: good_message_def str_bytes_def pad_def plain_args_def arg_simps)
  moreover have "bundle_GetBufferLen (WOscBundle 1 (map message ?specs) [WOscBundle 1 [] []]) < 2 ^ 31"
    by (simp add: osc_message_def message_bytes_def type_tag_def arg_simps length_pad str_bytes_def)
  ultimately show ?thesis
    using bundle_received [of "\<lambda>n. replicate (nat n) 0" ?specs "[WOscBundle 1 [] []]" _ 1] by (auto simp: allocates_def)
qed

text \<open>An item length of -4 leaves the offset of the parser where it is: it never returns.\<close>

lemma step_items_stuck:
  assumes "step_items m p dataLen offset n = Some r" "BufferTo m (p + 16 + uint offset) = Some (- 4 :: 32 word)"
    "uint offset + 4 < uint dataLen"
  shows False
proof -
  have "BufferTo m (p + 16 + uint offset) = Some (- 4 :: 32 word) \<longrightarrow> \<not> uint offset + 4 < uint dataLen"
    by (rule step_items.raw_induct [OF _ assms(1), where P = "\<lambda>m p dataLen offset n r.
        BufferTo m (p + 16 + uint offset) = Some (- 4 :: 32 word) \<longrightarrow> \<not> uint offset + 4 < uint dataLen"])
      (auto simp: bind_eq_Some_conv split: if_splits)
  then show False using assms(2,3) by simp
qed

lemma negative_length_hangs:
  assumes "mem_read m p 8 = Some WOSC_BUNDLE_TAG" "BufferTo m (p + 16) = Some (- 4 :: 32 word)" "20 < uint len"
  shows "Parse m p len = None"
proof -
  have "uint (len - 16) = uint len - 16" using assms(3) by (simp add: uint_sub_if_size)
  then have d: "uint (0 :: 32 word) + 4 < uint (len - 16)" "\<not> len - 16 > len" "len - 16 \<noteq> 0"
    using assms(3) by (auto simp: word_less_def dest: arg_cong [where f = uint])
  have "step_items m p (len - 16) 0 n = None" for n
    using step_items_stuck [of m p "len - 16" 0 n] assms(2) d(1) by (cases "step_items m p (len - 16) 0 n") auto
  then show ?thesis using assms(1) d(2,3) by (simp add: Parse_def Let_def)
qed

end
