(* ===== verification/Tuio.thy ===== *)
theory Tuio
  imports FiducialFinder OscReceive
begin

text \<open>
  \<^verbatim>\<open>xtrack/tuio.cpp\<close>: the message that is sent after every frame, a bundle that lists the tracked
  symbols, gives the data of each and ends with a sequence number. The socket is left out: the
  result is the datagram. \<open>bits\<close> is the object representation of a \<open>float\<close>.
\<close>

subsection \<open>The server\<close>

definition OSC_PATH :: "byte list" where
  "OSC_PATH = str_bytes ''/tuio/2Dobj'' @ [0]"

definition c_string :: "string \<Rightarrow> byte list" where
  "c_string s = str_bytes s @ [0]"

record TuioServer =
  fseq :: int

fun add_floats :: "allocator \<Rightarrow> WOscMessage \<Rightarrow> 32 word list \<Rightarrow> WOscMessage option" where
  "add_floats new msg [] = Some msg"
| "add_floats new msg (v # vs) = do {
     msg \<leftarrow> add_float new msg v;
     add_floats new msg vs
   }"

text \<open>The arguments of the set message that are floats, in the order of the calls of \<open>Add\<close>.\<close>

definition float_args :: "(ieee \<Rightarrow> 32 word) \<Rightarrow> TrackedFiducial \<Rightarrow> 32 word list" where
  "float_args bits t = map bits [tf_x t, tf_y t, tf_a t, xspeed t, yspeed t, aspeed t, xyacc t, aacc t]"

definition set_message :: "allocator \<Rightarrow> (ieee \<Rightarrow> 32 word) \<Rightarrow> int \<Rightarrow> TrackedFiducial \<Rightarrow> WOscMessage option" where
  "set_message new bits i t = do {
     setMsg \<leftarrow> uncaught (WOscMessage_new new (Some OSC_PATH));
     setMsg \<leftarrow> add_chars new setMsg (c_string ''set'') 0;
     setMsg \<leftarrow> add_int new setMsg (word_of_int i);
     setMsg \<leftarrow> add_int new setMsg (word_of_int i);
     add_floats new setMsg (float_args bits t)
   }"

definition sendMessage ::
  "allocator \<Rightarrow> (ieee \<Rightarrow> 32 word) \<Rightarrow> TuioServer \<Rightarrow> TrackedFiducial list \<Rightarrow> (byte list \<times> TuioServer) option" where
  "sendMessage new bits server fiducials = do {
     let bundle = WOscBundle_new;
     aliveMsg \<leftarrow> uncaught (WOscMessage_new new (Some OSC_PATH));
     aliveMsg \<leftarrow> add_chars new aliveMsg (c_string ''alive'') 0;
     aliveMsg \<leftarrow> for_range 0 MAX_FIDUCIALS (\<lambda>i aliveMsg. do {
       t \<leftarrow> rd fiducials i;
       if isTracked t then add_int new aliveMsg (word_of_int i) else Some aliveMsg
     }) aliveMsg;
     let bundle = bundle_Add bundle aliveMsg;
     bundle \<leftarrow> for_range 0 MAX_FIDUCIALS (\<lambda>i bundle. do {
       t \<leftarrow> rd fiducials i;
       if isTracked t then do {
         setMsg \<leftarrow> set_message new bits i t;
         Some (bundle_Add bundle setMsg)
       } else Some bundle
     }) bundle;
     seqMsg \<leftarrow> uncaught (WOscMessage_new new (Some OSC_PATH));
     seqMsg \<leftarrow> add_chars new seqMsg (c_string ''fseq'') 0;
     seqMsg \<leftarrow> add_int new seqMsg (word_of_int (fseq server));
     c_assert (fseq server + 1 < 2 ^ 31);
     let bundle = bundle_Add bundle seqMsg;
     buffer \<leftarrow> bundle_GetBuffer new bundle;
     datagram \<leftarrow> mem_read buffer 0 (bundle_GetBufferLen bundle);
     Some (datagram, server\<lparr>fseq := fseq server + 1\<rparr>)
   }"

subsection \<open>What is sent\<close>

abbreviation path :: "byte list" where "path \<equiv> str_bytes ''/tuio/2Dobj''"

definition alive_args :: "TrackedFiducial list \<Rightarrow> osc_arg list" where
  "alive_args fids = AString (str_bytes ''alive'') #
     map (\<lambda>i. AInt (of_nat i)) (filter (\<lambda>i. isTracked (fids ! i)) [0..<4])"

definition set_args :: "(ieee \<Rightarrow> 32 word) \<Rightarrow> nat \<Rightarrow> TrackedFiducial \<Rightarrow> osc_arg list" where
  "set_args bits i t = [AString (str_bytes ''set''), AInt (of_nat i), AInt (of_nat i),
     AFloat (bits (tf_x t)), AFloat (bits (tf_y t)), AFloat (bits (tf_a t)),
     AFloat (bits (xspeed t)), AFloat (bits (yspeed t)), AFloat (bits (aspeed t)),
     AFloat (bits (xyacc t)), AFloat (bits (aacc t))]"

definition tuio_messages :: "(ieee \<Rightarrow> 32 word) \<Rightarrow> int \<Rightarrow> TrackedFiducial list \<Rightarrow> (byte list \<times> osc_arg list) list" where
  "tuio_messages bits n fids = (path, alive_args fids) #
     map (\<lambda>i. (path, set_args bits i (fids ! i))) (filter (\<lambda>i. isTracked (fids ! i)) [0..<4]) @
     [(path, [AString (str_bytes ''fseq''), AInt (word_of_int n)])]"

subsection \<open>Laws\<close>

lemma bytes_at [simp]: "0 \<notin> set (str_bytes s) \<Longrightarrow> string_at (c_string s) 0 (str_bytes s)"
  by (simp add: string_at_def c_string_def)

lemma path_message: "allocates new \<Longrightarrow> WOscMessage_new new (Some OSC_PATH) = Some (Inr (osc_message path []))"
  by (rule WOscMessage_new_ok) (simp_all add: OSC_PATH_def string_at_def str_bytes_def)

lemma add_chars_c_string:
  "allocates new \<Longrightarrow> 0 \<notin> set (str_bytes s) \<Longrightarrow>
   add_chars new (osc_message addr args) (c_string s) 0 = Some (osc_message addr (args @ [AString (str_bytes s)]))"
  by (simp add: add_chars_ok [OF _ stale_refl])

lemma add_int_message: "allocates new \<Longrightarrow> add_int new (osc_message addr args) v = Some (osc_message addr (args @ [AInt v]))"
  by (simp add: add_int_ok [OF _ stale_refl])

lemma add_floats_message:
  "allocates new \<Longrightarrow> add_floats new (osc_message addr args) vs = Some (osc_message addr (args @ map AFloat vs))"
  by (induction vs arbitrary: args) (simp_all add: add_float_ok [OF _ stale_refl])

lemma set_args_floats:
  "set_args bits i t = [AString (str_bytes ''set''), AInt (of_nat i), AInt (of_nat i)] @ map AFloat (float_args bits t)"
  by (simp add: set_args_def float_args_def)

lemma set_message_ok: "allocates new \<Longrightarrow> set_message new bits (int i) t = Some (osc_message path (set_args bits i t))"
  by (simp add: set_message_def path_message add_chars_c_string add_int_message add_floats_message set_args_floats str_bytes_def)

lemma upto_filter_snoc: "filter P [0..<Suc j] = filter P [0..<j] @ (if P j then [j] else [])"
  by simp

lemma sendMessage_ok:
  assumes "allocates new" "length fids = 4" "fseq server < 2 ^ 31 - 1"
  shows "sendMessage new bits server fids = Some (bundle_image (WOscBundle 1 (map message (tuio_messages bits (fseq server) fids)) []),
    server\<lparr>fseq := fseq server + 1\<rparr>)"
proof -
  let ?T = "\<lambda>j. filter (\<lambda>i. isTracked (fids ! i)) [0..<j]"
  let ?alive = "\<lambda>j. osc_message path (AString (str_bytes ''alive'') # map (\<lambda>i. AInt (of_nat i)) (?T j))"
  let ?sets = "\<lambda>j. map (\<lambda>i. osc_message path (set_args bits i (fids ! i))) (?T j)"
  have alive: "\<exists>msg. for_range 0 MAX_FIDUCIALS (\<lambda>i aliveMsg. do {
       t \<leftarrow> rd fids i;
       if isTracked t then add_int new aliveMsg (word_of_int i) else Some aliveMsg
     }) (osc_message path [AString (str_bytes ''alive'')]) = Some msg \<and> msg = ?alive (nat MAX_FIDUCIALS)"
    by (rule for_range_rule [where P = "\<lambda>j msg. msg = ?alive (nat j)"])
      (use assms in \<open>auto simp: MAX_FIDUCIALS_def rd_eq add_int_message nat_add_distrib\<close>)
  have sets: "\<exists>b. for_range 0 MAX_FIDUCIALS (\<lambda>i bundle. do {
       t \<leftarrow> rd fids i;
       if isTracked t then do { setMsg \<leftarrow> set_message new bits i t; Some (bundle_Add bundle setMsg) } else Some bundle
     }) (WOscBundle 1 [?alive 4] []) = Some b \<and> b = WOscBundle 1 (?alive 4 # ?sets (nat MAX_FIDUCIALS)) []"
  proof (rule for_range_rule [where P = "\<lambda>j b. b = WOscBundle 1 (?alive 4 # ?sets (nat j)) []"])
    fix j b assume j: "0 \<le> j" "j < MAX_FIDUCIALS" and b: "b = WOscBundle 1 (?alive 4 # ?sets (nat j)) []"
    have "rd fids j = Some (fids ! nat j)" "nat (j + 1) = Suc (nat j)"
      using j assms(2) by (simp_all add: rd_eq MAX_FIDUCIALS_def)
    then show "\<exists>b'. do {
       t \<leftarrow> rd fids j;
       if isTracked t then do { setMsg \<leftarrow> set_message new bits j t; Some (bundle_Add b setMsg) } else Some b
     } = Some b' \<and> b' = WOscBundle 1 (?alive 4 # ?sets (nat (j + 1))) []"
      using set_message_ok [OF assms(1), of bits "nat j"] j b by (simp add: bundle_Add_def)
  qed (simp_all add: MAX_FIDUCIALS_def)
  let ?b = "WOscBundle 1 (map message (tuio_messages bits (fseq server) fids)) []"
  have b: "?b = WOscBundle 1 (?alive 4 # ?sets 4 @ [osc_message path [AString (str_bytes ''fseq''), AInt (word_of_int (fseq server))]]) []"
    by (simp add: tuio_messages_def alive_args_def comp_def)
  have "list_all buffered (map message specs)" for specs by (simp add: list_all_iff)
  then have ok: "all_buffered ?b" by simp
  have "mem_read (bundle_image ?b) 0 (bundle_GetBufferLen ?b) = Some (bundle_image ?b)"
    using GetBufferLen_image [OF ok] by (simp add: mem_read_def del: bundle_image.simps)
  moreover have "bundle_GetBuffer new ?b = Some (bundle_image ?b)" by (rule bundle_GetBuffer_ok [OF assms(1) ok])
  ultimately have send: "do { buffer \<leftarrow> bundle_GetBuffer new ?b;
      datagram \<leftarrow> mem_read buffer 0 (bundle_GetBufferLen ?b);
      Some (datagram, server\<lparr>fseq := fseq server + 1\<rparr>) } = Some (bundle_image ?b, server\<lparr>fseq := fseq server + 1\<rparr>)" by simp
  have names: "0 \<notin> set (str_bytes ''alive'')" "0 \<notin> set (str_bytes ''fseq'')" by (simp_all add: str_bytes_def)
  have max: "nat MAX_FIDUCIALS = 4" by (simp add: MAX_FIDUCIALS_def)
  show ?thesis
    using alive sets send names assms(1,3) unfolding b max
    by (simp add: sendMessage_def path_message add_chars_c_string add_int_message WOscBundle_new_def GetImmediateTime_def
        bundle_Add_def del: bundle_image.simps bundle_GetBuffer.simps bundle_GetBufferLen.simps)
qed

subsection \<open>The datagram\<close>

abbreviation tracked_ids :: "TrackedFiducial list \<Rightarrow> nat list" where
  "tracked_ids fids \<equiv> filter (\<lambda>i. isTracked (fids ! i)) [0..<4]"

lemma strings_AInt: "strings_of (map (\<lambda>i. AInt (f i)) xs) = []" "strings_of (map AFloat vs) = []"
  by (induction xs) (simp_all add: arg_simps, induction vs, simp_all add: arg_simps)

lemma plain_tuio: "plain_args (alive_args fids)" "plain_args (set_args bits i t)" "plain_args [AString (str_bytes ''fseq''), AInt v]"
  by (simp_all add: plain_args_def alive_args_def set_args_floats arg_simps strings_AInt) (simp_all add: str_bytes_def)

lemma good_path: "plain_args args \<Longrightarrow> good_message (path, args)"
  by (simp add: good_message_def str_bytes_def pad_def)

lemma good_tuio: "list_all good_message (tuio_messages bits n fids)"
  by (auto simp: tuio_messages_def list_all_iff intro!: good_path plain_tuio)

lemma args_bytes_numbers: "length (args_bytes (map (\<lambda>i. AInt (f i)) xs)) = 4 * length xs" "length (args_bytes (map AFloat vs)) = 4 * length vs"
  by (induction xs) (simp_all add: arg_simps, induction vs, simp_all add: arg_simps)

lemma length_alive:
  assumes "length (tracked_ids fids) = k" "k \<le> 4"
  shows "length (wire (path, alive_args fids)) \<le> 28 + 4 * k"
proof -
  have "length (type_tag (alive_args fids)) = 2 + k" using assms(1) by (simp add: type_tag_def alive_args_def)
  then have "length (pad (type_tag (alive_args fids))) \<le> 8" using assms(2) by (simp add: length_pad)
  moreover have "length (args_bytes (alive_args fids)) = 8 + 4 * k"
    using assms(1) by (simp add: alive_args_def arg_simps args_bytes_numbers length_pad str_bytes_def)
  moreover have "length (pad path) = 12" by (simp add: length_pad str_bytes_def)
  ultimately show ?thesis by (simp add: message_bytes_def)
qed

lemma length_set: "length (wire (path, set_args bits i t)) = 72"
  by (simp add: message_bytes_def set_args_floats type_tag_def arg_simps args_bytes_numbers length_pad str_bytes_def float_args_def)

lemma length_seq: "length (wire (path, [AString (str_bytes ''fseq''), AInt v])) = 28"
  by (simp add: message_bytes_def type_tag_def arg_simps length_pad str_bytes_def)

lemma length_datagram: "length (bundle_image (WOscBundle t (map message (tuio_messages bits n fids)) [])) \<le> 400"
proof -
  let ?k = "length (tracked_ids fids)"
  have k: "?k \<le> 4" using length_filter_le [of "\<lambda>i. isTracked (fids ! i)" "[0..<4]"] by simp
  have "length (items_bytes (map (\<lambda>i. wire (path, set_args bits i (fids ! i))) is)) = 76 * length is" for "is"
    using length_set by (induction "is") (simp_all add: arg_simps)
  moreover have "buffer_of (osc_message addr args) = message_bytes addr args" for addr args
    using message_buffer(1) [of "(addr, args)"] by simp
  ultimately show ?thesis
    using length_alive [OF refl k] k length_seq [of "word_of_int n"]
    by (simp add: length_bundle_bytes tuio_messages_def arg_simps comp_def)
qed

text \<open>C8: The datagram of a frame holds the tracked symbols: \<open>sendMessage\<close> returns at most 400 bytes,
  and the receiver of the library reads from them a message with the numbers of the tracked
  symbols, a message with the data of each of them, and the sequence number. The sequence number
  goes up by one.\<close>

theorem tuio_datagram:
  assumes "allocates new" "length fids = 4" "fseq server < 2 ^ 31 - 1"
  shows "\<exists>datagram. sendMessage new bits server fids = Some (datagram, server\<lparr>fseq := fseq server + 1\<rparr>) \<and>
    length datagram \<le> 400 \<and>
    NetworkReceive new datagram (ilength datagram) = Some (None, map message (tuio_messages bits (fseq server) fids))"
proof -
  let ?b = "WOscBundle 1 (map message (tuio_messages bits (fseq server) fids)) []"
  have "length (bundle_image ?b) \<le> 400" by (rule length_datagram)
  moreover from this have "NetworkReceive new (bundle_image ?b) (ilength (bundle_image ?b)) =
      Some (None, map message (tuio_messages bits (fseq server) fids))"
    using receive_image [OF assms(1) good_tuio, of bits "fseq server" fids "[]" ?b 1] by (simp add: tuio_messages_def del: bundle_image.simps)
  ultimately show ?thesis using sendMessage_ok [OF assms] by (intro exI [of _ "bundle_image ?b"] conjI)
qed

lemma tuio_datagram_witness:
  "\<exists>datagram. sendMessage (\<lambda>n. replicate (nat n) 170) (\<lambda>_. 0) \<lparr>fseq = 7\<rparr> [untracked, untracked\<lparr>isTracked := True\<rparr>, untracked, untracked] =
     Some (datagram, \<lparr>fseq = 8\<rparr>)"
  using tuio_datagram [of "\<lambda>n. replicate (nat n) 170" "[untracked, untracked\<lparr>isTracked := True\<rparr>, untracked, untracked]" "\<lparr>fseq = 7\<rparr>" "\<lambda>_. 0"]
  by (auto simp: allocates_def)

end
