(* ===== verification/PatternMatch.thy ===== *)
theory PatternMatch
  imports Buffers "HOL-Library.Sublist"
begin

text \<open>
  \<^verbatim>\<open>wosclib/WOscPatternMatch.cpp\<close>: the matching of an OSC address pattern against the name of a
  container, with wildcards in both (\<open>WOSC_USE_ADDR_WILDCARDS\<close>). A pointer is the memory from
  there on; \<open>p + 1\<close> is the tail. \<open>char\<close> is signed.
\<close>

subsection \<open>Scans\<close>

abbreviation chr :: "char \<Rightarrow> byte" where "chr c \<equiv> of_char c"

text \<open>The loops that look for a closing brace or bracket; the inner \<open>None\<close> is \<open>return false\<close>.\<close>

fun find_brace :: "byte list \<Rightarrow> byte list option option" where
  "find_brace [] = None"
| "find_brace (c # p) = (if c = chr CHR ''}'' then Some (Some (c # p)) else if c = 0 then Some None else find_brace p)"

fun find_bracket :: "byte list \<Rightarrow> byte list option option" where
  "find_bracket [] = None"
| "find_bracket (c # p) = (if c = chr CHR '']'' then Some (Some (c # p)) else if c = 0 then Some None else find_bracket p)"

text \<open>The first loop of \<open>MatchBrackets\<close>: the result and the position at the label \<open>advance\<close>.\<close>

fun bracket_scan :: "bool \<Rightarrow> byte \<Rightarrow> byte list \<Rightarrow> (bool \<times> byte list) option option" where
  "bracket_scan negated t [] = None"
| "bracket_scan negated t (c # p) =
     (if c = chr CHR '']'' then Some (Some (negated, c # p))
      else if c = 0 then Some None
      else do {
        p1 \<leftarrow> rd p 0;
        in_range \<leftarrow> (if p1 = chr CHR ''-'' then do {
            p2 \<leftarrow> rd p 1;
            Some (p2 \<noteq> 0 \<and> sint t \<ge> sint c \<and> sint t \<le> sint p2)
          } else Some False);
        if in_range then Some (Some (\<not> negated, c # p))
        else if c = t then Some (Some (\<not> negated, c # p))
        else bracket_scan negated t p
      })"

text \<open>The inner loop of \<open>MatchList\<close> that goes to the end of an alternative.\<close>

fun skip_alternative :: "byte list \<Rightarrow> byte list option" where
  "skip_alternative [] = None"
| "skip_alternative (c # p) = (if c \<noteq> chr CHR '','' \<and> c \<noteq> chr CHR ''}'' then skip_alternative p else Some (c # p))"

definition NextSlashOrNull :: "byte list \<Rightarrow> byte list option" where
  "NextSlashOrNull p = (let q = dropWhile (\<lambda>c. c \<noteq> chr CHR ''/'' \<and> c \<noteq> 0) p in if q = [] then None else Some q)"

lemma find_brace_length: "find_brace p = Some (Some q) \<Longrightarrow> q \<noteq> [] \<and> length q \<le> length p"
  by (induction p) (auto split: if_splits)

lemma find_bracket_length: "find_bracket p = Some (Some q) \<Longrightarrow> q \<noteq> [] \<and> length q \<le> length p"
  by (induction p) (auto split: if_splits)

lemma bracket_scan_length: "bracket_scan n t p = Some (Some (r, q)) \<Longrightarrow> q \<noteq> [] \<and> length q \<le> length p"
  by (induction p) (auto simp: bind_eq_Some_conv split: if_splits)

lemma skip_length:
  "skip_alternative p = Some q \<Longrightarrow> q \<noteq> [] \<and> length q \<le> length p \<and>
   (p \<noteq> [] \<and> hd p \<noteq> chr CHR '','' \<and> hd p \<noteq> chr CHR ''}'' \<longrightarrow> length q < length p)"
  by (induction p) (auto split: if_splits)

lemma rd_0: "rd p 0 = Some c \<longleftrightarrow> 1 \<le> length p \<and> c = hd p"
  by (cases p) (auto simp: rd_Some_iff)

lemma rd_1: "rd p 1 = Some c \<longleftrightarrow> 2 \<le> length p \<and> c = p ! 1"
  by (auto simp: rd_Some_iff)

lemma bind_cong_option [fundef_cong]: "m = m' \<Longrightarrow> (\<And>x. m' = Some x \<Longrightarrow> f x = g x) \<Longrightarrow> m \<bind> f = m' \<bind> g"
  by (cases m') simp_all

subsection \<open>The matcher\<close>

text \<open>\<open>list_loop\<close> is the endless loop of \<open>MatchList\<close>.\<close>

function PatternMatch :: "byte list \<Rightarrow> byte list \<Rightarrow> bool option"
  and MatchBrackets :: "byte list \<Rightarrow> byte list \<Rightarrow> bool option"
  and MatchList :: "byte list \<Rightarrow> byte list \<Rightarrow> bool option"
  and list_loop :: "byte list \<Rightarrow> byte list \<Rightarrow> byte list \<Rightarrow> byte list \<Rightarrow> bool option" where
  "PatternMatch pattern test = do {
     c \<leftarrow> rd pattern 0;
     t \<leftarrow> rd test 0;
     if c = 0 then
       if t = chr CHR ''*'' then PatternMatch pattern (tl test) else Some (t = 0)
     else if t = 0 then
       if c = chr CHR ''*'' then PatternMatch (tl pattern) test else Some False
     else if t = chr CHR ''*'' then do {
       b \<leftarrow> PatternMatch pattern (tl test);
       if b then Some True else PatternMatch (tl pattern) test
     }
     else if t = chr CHR ''?'' then PatternMatch (tl pattern) (tl test)
     else if c = chr CHR ''?'' then PatternMatch (tl pattern) (tl test)
     else if c = chr CHR ''*'' then do {
       b \<leftarrow> PatternMatch (tl pattern) test;
       if b then Some True else PatternMatch pattern (tl test)
     }
     else if c = chr CHR '']'' \<or> c = chr CHR ''}'' then Some False
     else if c = chr CHR ''['' then MatchBrackets pattern test
     else if c = chr CHR ''{'' then MatchList pattern test
     else if c = chr CHR 0x5C then do {
       c1 \<leftarrow> rd pattern 1;
       if c1 = 0 then Some (t = 0)
       else if c1 = t then PatternMatch (tl (tl pattern)) (tl test)
       else Some False
     }
     else if c = t then PatternMatch (tl pattern) (tl test) else Some False
   }"
| "MatchBrackets pattern test = do {
     p1 \<leftarrow> rd pattern 1;
     if p1 = 0 then Some False
     else do {
       let negated = (p1 = chr CHR ''!'');
       t \<leftarrow> rd test 0;
       r \<leftarrow> bracket_scan negated t (if negated then tl pattern else pattern);
       case r of None \<Rightarrow> Some False
       | Some (result, p) \<Rightarrow>
           if \<not> result then Some False
           else do {
             q \<leftarrow> find_bracket p;
             case q of None \<Rightarrow> Some False | Some p \<Rightarrow> PatternMatch (tl p) (tl test)
           }
     }
   }"
| "MatchList pattern test = do {
     r \<leftarrow> find_brace pattern;
     case r of None \<Rightarrow> Some False
     | Some restOfPattern \<Rightarrow> list_loop (tl restOfPattern) test (tl pattern) test
   }"
| "list_loop restOfPattern test pattern tp = do {
     c \<leftarrow> rd pattern 0;
     if c = chr CHR '','' then do {
       b \<leftarrow> PatternMatch restOfPattern tp;
       if b then Some True else list_loop restOfPattern test (tl pattern) test
     }
     else if c = chr CHR ''}'' then PatternMatch restOfPattern tp
     else do {
       t \<leftarrow> rd tp 0;
       if c = t then list_loop restOfPattern test (tl pattern) (tl tp)
       else do {
         p \<leftarrow> skip_alternative pattern;
         d \<leftarrow> rd p 0;
         list_loop restOfPattern test (if d = chr CHR '','' then tl p else p) test
       }
     }
   }"
  by pat_completeness auto
termination
  by (relation "measures
      [case_sum (case_sum (\<lambda>(p, t). length p + length t) (\<lambda>(p, t). length p + length t))
         (case_sum (\<lambda>(p, t). length p + length t) (\<lambda>(r, t, p, tp). length r + max (length t) (length tp) + 1)),
       case_sum (case_sum (\<lambda>_. 3) (\<lambda>_. 2)) (case_sum (\<lambda>_. 2) (\<lambda>_. 1)),
       case_sum (case_sum (\<lambda>_. 0) (\<lambda>_. 0)) (case_sum (\<lambda>_. 0) (\<lambda>(r, t, p, tp). length p))]")
    (auto simp: rd_0 rd_1 dest!: find_brace_length find_bracket_length bracket_scan_length skip_length split: if_splits)

declare PatternMatch.simps [simp del] MatchBrackets.simps [simp del] MatchList.simps [simp del] list_loop.simps [simp del]

subsection \<open>The matcher returns\<close>

text \<open>\<open>0 \<in> set p\<close>: the memory from \<open>p\<close> on holds a C string.\<close>

lemma tl_string: "0 \<in> set p \<Longrightarrow> hd p \<noteq> 0 \<Longrightarrow> 0 \<in> set (tl p)"
  by (cases p) auto

lemma string_rd: "0 \<in> set p \<Longrightarrow> rd p 0 = Some (hd p)"
  by (cases p) (auto simp: rd_eq)

lemma string_rd_1: "0 \<in> set p \<Longrightarrow> hd p \<noteq> 0 \<Longrightarrow> rd p 1 = Some (hd (tl p))"
  by (cases p; cases "tl p") (auto simp: rd_eq)

definition braced :: "byte list \<Rightarrow> bool" where
  "braced p \<longleftrightarrow> (\<exists>q. find_brace p = Some (Some q))"

lemma braced_Cons: "braced (c # p) \<longleftrightarrow> c = chr CHR ''}'' \<or> c \<noteq> 0 \<and> braced p"
  by (auto simp: braced_def)

lemma braced_Nil: "\<not> braced []"
  by (simp add: braced_def)

lemma find_brace_ok: "0 \<in> set p \<Longrightarrow> \<exists>r. find_brace p = Some r \<and> (\<forall>q. r = Some q \<longrightarrow> 0 \<in> set (tl q))"
  by (induction p) auto

lemma find_bracket_ok: "0 \<in> set p \<Longrightarrow> \<exists>r. find_bracket p = Some r \<and> (\<forall>q. r = Some q \<longrightarrow> 0 \<in> set (tl q))"
  by (induction p) auto

lemma bracket_scan_ok: "0 \<in> set p \<Longrightarrow> \<exists>r. bracket_scan n t p = Some r \<and> (\<forall>b q. r = Some (b, q) \<longrightarrow> 0 \<in> set q)"
proof (induction p)
  case (Cons c p)
  show ?case
  proof (cases "c = 0")
    case False
    then have p: "0 \<in> set p" using Cons.prems by simp
    show ?thesis using Cons.IH [OF p] p False string_rd [OF p] string_rd_1 [OF p] by auto
  qed simp
qed simp

lemma skip_ok: "braced p \<Longrightarrow> \<exists>c q. skip_alternative p = Some (c # q) \<and> braced (c # q) \<and> (c = chr CHR '','' \<or> c = chr CHR ''}'')"
  by (induction p) (auto simp: braced_Cons braced_Nil)

lemma returns:
  "0 \<in> set p \<Longrightarrow> 0 \<in> set t \<Longrightarrow> PatternMatch p t \<noteq> None"
  "0 \<in> set p' \<Longrightarrow> hd p' \<noteq> 0 \<Longrightarrow> 0 \<in> set t' \<Longrightarrow> hd t' \<noteq> 0 \<Longrightarrow> MatchBrackets p' t' \<noteq> None"
  "0 \<in> set p'' \<Longrightarrow> hd p'' = chr CHR ''{'' \<Longrightarrow> 0 \<in> set t'' \<Longrightarrow> MatchList p'' t'' \<noteq> None"
  "0 \<in> set r \<Longrightarrow> 0 \<in> set s \<Longrightarrow> braced q \<Longrightarrow> 0 \<in> set tp \<Longrightarrow> list_loop r s q tp \<noteq> None"
proof (induction p t and p' t' and p'' t'' and r s q tp rule: PatternMatch_MatchBrackets_MatchList_list_loop.induct)
  case (1 p t)
  note rd = string_rd [OF 1(13)] string_rd [OF 1(14)]
  note IH = 1(1-12) [OF rd]
  have tl: "hd p \<noteq> 0 \<Longrightarrow> 0 \<in> set (tl p)" "hd t \<noteq> 0 \<Longrightarrow> 0 \<in> set (tl t)"
      "hd p \<noteq> 0 \<Longrightarrow> hd (tl p) \<noteq> 0 \<Longrightarrow> 0 \<in> set (tl (tl p))"
    using 1(13,14) tl_string by blast+
  have 2: "hd p \<noteq> 0 \<Longrightarrow> rd p 1 = Some (hd (tl p))" using string_rd_1 1(13) by blast
  consider (end_star) "hd p = 0" "hd t = chr CHR ''*''"
    | (end_p) "hd p = 0" "hd t \<noteq> chr CHR ''*''"
    | (star_end) "hd p \<noteq> 0" "hd t = 0" "hd p = chr CHR ''*''"
    | (end_t) "hd p \<noteq> 0" "hd t = 0" "hd p \<noteq> chr CHR ''*''"
    | (t_star) "hd p \<noteq> 0" "hd t \<noteq> 0" "hd t = chr CHR ''*''"
    | (t_any) "hd p \<noteq> 0" "hd t \<noteq> 0" "hd t \<noteq> chr CHR ''*''" "hd t = chr CHR ''?''"
    | (any) "hd p \<noteq> 0" "hd t \<noteq> 0" "hd t \<noteq> chr CHR ''*''" "hd t \<noteq> chr CHR ''?''" "hd p = chr CHR ''?''"
    | (star) "hd p \<noteq> 0" "hd t \<noteq> 0" "hd t \<noteq> chr CHR ''*''" "hd t \<noteq> chr CHR ''?''" "hd p \<noteq> chr CHR ''?''" "hd p = chr CHR ''*''"
    | (closing) "hd p \<noteq> 0" "hd t \<noteq> 0" "hd t \<noteq> chr CHR ''*''" "hd t \<noteq> chr CHR ''?''" "hd p \<noteq> chr CHR ''?''" "hd p \<noteq> chr CHR ''*''" "hd p = chr CHR '']'' \<or> hd p = chr CHR ''}''"
    | (brackets) "hd p \<noteq> 0" "hd t \<noteq> 0" "hd t \<noteq> chr CHR ''*''" "hd t \<noteq> chr CHR ''?''" "hd p \<noteq> chr CHR ''?''" "hd p \<noteq> chr CHR ''*''" "\<not> (hd p = chr CHR '']'' \<or> hd p = chr CHR ''}'')" "hd p = chr CHR ''[''"
    | (braces) "hd p \<noteq> 0" "hd t \<noteq> 0" "hd t \<noteq> chr CHR ''*''" "hd t \<noteq> chr CHR ''?''" "hd p \<noteq> chr CHR ''?''" "hd p \<noteq> chr CHR ''*''" "\<not> (hd p = chr CHR '']'' \<or> hd p = chr CHR ''}'')" "hd p \<noteq> chr CHR ''[''" "hd p = chr CHR ''{''"
    | (escape) "hd p \<noteq> 0" "hd t \<noteq> 0" "hd t \<noteq> chr CHR ''*''" "hd t \<noteq> chr CHR ''?''" "hd p \<noteq> chr CHR ''?''" "hd p \<noteq> chr CHR ''*''" "\<not> (hd p = chr CHR '']'' \<or> hd p = chr CHR ''}'')" "hd p \<noteq> chr CHR ''[''" "hd p \<noteq> chr CHR ''{''" "hd p = chr CHR 0x5C"
    | (letter) "hd p \<noteq> 0" "hd t \<noteq> 0" "hd t \<noteq> chr CHR ''*''" "hd t \<noteq> chr CHR ''?''" "hd p \<noteq> chr CHR ''?''" "hd p \<noteq> chr CHR ''*''" "\<not> (hd p = chr CHR '']'' \<or> hd p = chr CHR ''}'')" "hd p \<noteq> chr CHR ''[''" "hd p \<noteq> chr CHR ''{''" "hd p \<noteq> chr CHR 0x5C"
    by blast
  then show ?case
  proof cases
    case end_star
    then show ?thesis using IH(1) tl(2) 1(13) by (subst PatternMatch.simps) (simp add: rd)
  next
    case end_p
    then show ?thesis by (subst PatternMatch.simps) (simp add: rd)
  next
    case star_end
    then show ?thesis using IH(2) tl(1) 1(14) by (subst PatternMatch.simps) (simp add: rd)
  next
    case end_t
    then show ?thesis by (subst PatternMatch.simps) (simp add: rd)
  next
    case t_star
    then have a: "PatternMatch p (tl t) \<noteq> None" using IH(3) tl(2) 1(13) by blast
    then obtain b where b: "PatternMatch p (tl t) = Some b" by blast
    have "\<not> b \<Longrightarrow> PatternMatch (tl p) t \<noteq> None" using IH(4) [OF t_star b] tl(1) t_star 1(14) by blast
    then show ?thesis using t_star b by (subst PatternMatch.simps) (auto simp: rd)
  next
    case t_any
    then show ?thesis using IH(5) tl by (subst PatternMatch.simps) (simp add: rd)
  next
    case any
    then show ?thesis using IH(6) tl by (subst PatternMatch.simps) (simp add: rd)
  next
    case star
    then have a: "PatternMatch (tl p) t \<noteq> None" using IH(7) tl(1) 1(14) by blast
    then obtain b where b: "PatternMatch (tl p) t = Some b" by blast
    have "\<not> b \<Longrightarrow> PatternMatch p (tl t) \<noteq> None" using IH(8) [OF star b] tl(2) star 1(13) by blast
    then show ?thesis using star b by (subst PatternMatch.simps) (auto simp: rd)
  next
    case closing
    then show ?thesis by (subst PatternMatch.simps) (auto simp: rd)
  next
    case brackets
    then have "MatchBrackets p t \<noteq> None" using IH(9) 1(13,14) by blast
    then show ?thesis using brackets by (subst PatternMatch.simps) (simp add: rd)
  next
    case braces
    then have "MatchList p t \<noteq> None" using IH(10) 1(13,14) by blast
    then show ?thesis using braces by (subst PatternMatch.simps) (simp add: rd)
  next
    case escape
    have "PatternMatch (tl (tl p)) (tl t) \<noteq> None" if "hd (tl p) \<noteq> 0" "hd (tl p) = hd t"
      using IH(11) [OF escape 2 [OF escape(1)] that] tl that escape(1,2) by blast
    then show ?thesis using escape 2 by (subst PatternMatch.simps) (auto simp: rd)
  next
    case letter
    have "PatternMatch (tl p) (tl t) \<noteq> None" if "hd p = hd t" using IH(12) [OF letter that] tl letter(1,2) by blast
    then show ?thesis using letter by (subst PatternMatch.simps) (auto simp: rd)
  qed
next
  case (2 p t)
  note rd = string_rd [OF 2(4)] string_rd_1 [OF 2(2,3)]
  have tl: "0 \<in> set (tl p)" "0 \<in> set (tl t)" using 2(2-5) tl_string by blast+
  then have "0 \<in> set (if n then tl p else p)" for n using 2(2) by simp
  then obtain r where r: "bracket_scan (hd (tl p) = chr CHR ''!'') (hd t) (if hd (tl p) = chr CHR ''!'' then tl p else p) = Some r"
      "\<forall>b q. r = Some (b, q) \<longrightarrow> 0 \<in> set q" using bracket_scan_ok by blast
  show ?case
  proof (cases r)
    case None
    then show ?thesis using rd r by (subst MatchBrackets.simps) (auto simp: Let_def)
  next
    case (Some bq)
    obtain b q where bq: "bq = (b, q)" by (cases bq)
    obtain u where u: "find_bracket q = Some u" "\<forall>v. u = Some v \<longrightarrow> 0 \<in> set (tl v)"
      using find_bracket_ok [of q] r(2) Some bq by blast
    have "PatternMatch (tl v) (tl t) \<noteq> None" if "hd (tl p) \<noteq> 0" b "u = Some v" for v
      using 2(1) [OF rd(2) that(1) refl rd(1) r(1) Some bq [symmetric] _ u(1) that(3)] that u(2) tl(2) by simp
    then show ?thesis using rd r Some bq u by (subst MatchBrackets.simps) (auto simp: Let_def split: option.split)
  qed
next
  case (3 p t)
  obtain r where r: "find_brace p = Some r" "\<forall>q. r = Some q \<longrightarrow> 0 \<in> set (tl q)" using find_brace_ok [OF 3(2)] by blast
  have "braced (tl p)" if "r = Some q" for q using r(1) that 3(2,3) by (cases p) (auto simp: braced_def)
  then show ?case using 3 r by (subst MatchList.simps) (auto split: option.split)
next
  case (4 r s q tp)
  obtain c q' where q: "q = c # q'" using 4(8) by (cases q) (simp_all add: braced_Nil)
  have rd: "rd q 0 = Some c" "rd tp 0 = Some (hd tp)" using q string_rd [OF 4(9)] by (simp_all add: rd_eq)
  consider "c = chr CHR '',''" | "c = chr CHR ''}''" | "c \<noteq> chr CHR '',''" "c \<noteq> chr CHR ''}''" "c = hd tp"
    | "c \<noteq> chr CHR '',''" "c \<noteq> chr CHR ''}''" "c \<noteq> hd tp" by blast
  then show ?case
  proof cases
    case 1
    then have "braced (tl q)" using 4(8) q by (simp add: braced_Cons)
    then show ?thesis
      using 4(1) [OF rd(1) 1] 4(2) [OF rd(1) 1] 4(6,7,9) rd 1 by (subst list_loop.simps) (auto simp: bind_eq_None_conv)
  next
    case 2
    then show ?thesis using 4(3) [OF rd(1)] 4(6,9) rd by (subst list_loop.simps) simp
  next
    case 3
    then have "braced (tl q)" "0 \<in> set (tl tp)" using 4(8,9) q tl_string [of tp] by (auto simp: braced_Cons)
    then show ?thesis using 4(4) [OF rd(1) 3(1,2) rd(2) 3(3)] 4(6,7) rd 3 by (subst list_loop.simps) simp
  next
    case 4
    obtain d v where v: "skip_alternative q = Some (d # v)" "braced (d # v)" "d = chr CHR '','' \<or> d = chr CHR ''}''"
      using skip_ok \<open>braced q\<close> by blast
    have "rd (d # v) 0 = Some d" by (simp add: rd_eq)
    moreover have "braced (if d = chr CHR '','' then tl (d # v) else d # v)" using v(2,3) by (auto simp: braced_Cons)
    ultimately have "list_loop r s (if d = chr CHR '','' then tl (d # v) else d # v) s \<noteq> None"
      using "4.IH"(5) [OF rd(1) 4(1,2) rd(2) 4(3) v(1)] "4.prems" by blast
    then show ?thesis using rd 4 v(1) \<open>rd (d # v) 0 = Some d\<close> by (subst list_loop.simps) simp
  qed
qed

text \<open>C38: The matcher returns for every pattern and every name, whatever they hold: all its loops
  and recursions end, and it reads no byte behind the end of either string.\<close>

theorem pattern_returns:
  assumes "0 \<in> set pattern" "0 \<in> set test"
  shows "\<exists>b. PatternMatch pattern test = Some b"
  using returns(1) [OF assms] by blast

lemma pattern_returns_witness:
  "\<exists>b. PatternMatch (map of_char ''{a,b*'' @ [0]) (map of_char ''b[*'' @ [0, 7]) = Some b"
  by (rule pattern_returns) simp_all

subsection \<open>The language of a pattern\<close>

fun matches :: "byte list \<Rightarrow> byte list \<Rightarrow> bool" where
  "matches [] t \<longleftrightarrow> t = []"
| "matches (c # p) t \<longleftrightarrow>
     (if c = chr CHR ''*'' then \<exists>s \<in> set (suffixes t). matches p s
      else t \<noteq> [] \<and> (c = chr CHR ''?'' \<or> c = hd t) \<and> matches p (tl t))"

definition plain_pattern :: "byte list \<Rightarrow> bool" where
  "plain_pattern p \<longleftrightarrow> set p \<inter> set (0 # map of_char ''[]{}'' @ [chr CHR 0x5C]) = {}"

definition plain_name :: "byte list \<Rightarrow> bool" where
  "plain_name t \<longleftrightarrow> set t \<inter> set (0 # map of_char ''*?'') = {}"

lemma matches_star: "matches (chr CHR ''*'' # p) t \<longleftrightarrow> matches p t \<or> t \<noteq> [] \<and> matches (chr CHR ''*'' # p) (tl t)"
  by (cases t) auto

text \<open>C39: Without brackets, braces and escapes in the pattern and without wildcards in the name,
  \<open>PatternMatch\<close> decides the language of the pattern: \<open>?\<close> stands for any byte and \<open>*\<close> for any
  number of bytes.\<close>

theorem pattern_language:
  assumes "plain_pattern pattern" "plain_name name"
  shows "PatternMatch (pattern @ [0]) (name @ [0]) = Some (matches pattern name)"
  using assms
proof (induction pattern arbitrary: name)
  case Nil
  then show ?case by (cases name; subst PatternMatch.simps; simp add: rd_eq plain_name_def)
next
  case (Cons c p)
  have p: "plain_pattern p" and c: "c \<noteq> 0" "c \<noteq> chr CHR '']''" "c \<noteq> chr CHR ''}''" "c \<noteq> chr CHR ''[''" "c \<noteq> chr CHR ''{''"
      "c \<noteq> chr CHR 0x5C"
    using Cons.prems(1) by (simp_all add: plain_pattern_def)
  show ?case
  proof (cases "c = chr CHR ''*''")
    case True
    show ?thesis using Cons.prems(2)
    proof (induction name)
      case Nil
      then show ?case using Cons.IH [OF p, of "[]"] c True by (subst PatternMatch.simps) (simp add: rd_eq plain_name_def)
    next
      case (Cons d t)
      then have d: "d \<noteq> 0" "d \<noteq> chr CHR ''*''" "d \<noteq> chr CHR ''?''" "plain_name t" by (simp_all add: plain_name_def)
      show ?case
        using Cons.IH [OF d(4)] \<open>\<And>name. plain_pattern p \<Longrightarrow> plain_name name \<Longrightarrow> PatternMatch (p @ [0]) (name @ [0]) = Some (matches p name)\<close> [OF p Cons.prems]
          c True d by (subst PatternMatch.simps) (auto simp: rd_eq)
    qed
  next
    case False
    show ?thesis
    proof (cases name)
      case Nil
      then show ?thesis using c False by (subst PatternMatch.simps) (simp add: rd_eq)
    next
      case (Cons d t)
      then have d: "d \<noteq> 0" "d \<noteq> chr CHR ''*''" "d \<noteq> chr CHR ''?''" "plain_name t"
        using Cons.prems(2) \<open>plain_name name\<close> by (simp_all add: plain_name_def)
      then show ?thesis using \<open>name = d # t\<close> Cons.IH [OF p d(4)] c False by (subst PatternMatch.simps) (auto simp: rd_eq)
    qed
  qed
qed

lemma pattern_language_witness:
  "PatternMatch (map of_char ''/t?i*/2D'' @ [0]) (map of_char ''/tuio/x/2D'' @ [0]) = Some True"
  using pattern_language [of "map of_char ''/t?i*/2D''" "map of_char ''/tuio/x/2D''"]
  by (simp add: plain_pattern_def plain_name_def)

subsection \<open>Lists of alternatives\<close>

fun join :: "byte list list \<Rightarrow> byte list" where
  "join [] = []"
| "join [a] = a"
| "join (a # as) = a @ chr CHR '','' # join as"

definition plain_alternative :: "byte list \<Rightarrow> bool" where
  "plain_alternative a \<longleftrightarrow> set a \<inter> set (0 # map of_char '',}'') = {}"

lemma skip_plain: "plain_alternative a \<Longrightarrow> x = chr CHR '','' \<or> x = chr CHR ''}'' \<Longrightarrow> skip_alternative (a @ x # xs) = Some (x # xs)"
  by (induction a) (auto simp: plain_alternative_def)

lemma one_alternative:
  assumes "plain_alternative a" "0 \<notin> set s" "x = chr CHR '','' \<or> x = chr CHR ''}''"
  shows "list_loop rest test (a @ x # xs) (s @ [0]) =
    (if prefix a s then list_loop rest test (x # xs) (drop (length a) s @ [0])
     else list_loop rest test (if x = chr CHR '','' then xs else x # xs) test)"
  using assms(1,2)
proof (induction a arbitrary: s)
  case (Cons c a)
  have a: "plain_alternative a" "c \<noteq> 0" "c \<noteq> chr CHR '',''" "c \<noteq> chr CHR ''}''"
    using Cons.prems(1) by (simp_all add: plain_alternative_def)
  show ?case
  proof (cases "s \<noteq> [] \<and> hd s = c")
    case True
    then obtain s' where "s = c # s'" by (cases s) auto
    then show ?thesis using Cons.IH [OF a(1), of s'] Cons.prems(2) a(2-) by (subst list_loop.simps) (simp add: rd_eq)
  next
    case False
    then have "rd (s @ [0]) 0 = Some (hd (s @ [0]))" "hd (s @ [0]) \<noteq> c" "\<not> prefix (c # a) s"
      using a(2) by (cases s; simp add: rd_eq)+
    then show ?thesis using skip_plain [OF Cons.prems(1) assms(3), of xs] a(2-)
      by (subst list_loop.simps) (simp add: rd_eq)
  qed
qed simp

lemma all_alternatives:
  assumes "0 \<in> set rest" "0 \<notin> set t" "alts \<noteq> []" "\<forall>a \<in> set alts. plain_alternative a"
  shows "list_loop rest (t @ [0]) (join alts @ chr CHR ''}'' # rest) (t @ [0]) =
    Some ((\<exists>a \<in> set alts. prefix a t \<and> PatternMatch rest (drop (length a) t @ [0]) = Some True) \<or>
      \<not> prefix (last alts) t \<and> PatternMatch rest (t @ [0]) = Some True)"
  using assms(3,4)
proof (induction alts rule: join.induct)
  case (2 a)
  obtain b where b: "PatternMatch rest (drop (length a) t @ [0]) = Some b" using returns(1) [OF assms(1)] by fastforce
  obtain b' where b': "PatternMatch rest (t @ [0]) = Some b'" using returns(1) [OF assms(1)] by fastforce
  have "list_loop rest test (chr CHR ''}'' # rest) tp = PatternMatch rest tp" for test tp
    by (subst list_loop.simps) (simp add: rd_eq)
  then show ?case using one_alternative [of a t "chr CHR ''}''" rest "t @ [0]" rest] 2(2) assms(2) b b' by simp
next
  case (3 a b as)
  let ?J = "join (b # as) @ chr CHR ''}'' # rest"
  obtain r where r: "PatternMatch rest (drop (length a) t @ [0]) = Some r" using returns(1) [OF assms(1)] by fastforce
  have step: "list_loop rest (t @ [0]) (chr CHR '','' # ?J) (drop (length a) t @ [0]) =
      (if r then Some True else list_loop rest (t @ [0]) ?J (t @ [0]))"
    by (subst list_loop.simps) (simp add: rd_eq r)
  have "list_loop rest (t @ [0]) (join (a # b # as) @ chr CHR ''}'' # rest) (t @ [0]) =
      (if prefix a t \<and> r then Some True else list_loop rest (t @ [0]) ?J (t @ [0]))"
    using one_alternative [of a t "chr CHR '',''" rest "t @ [0]" ?J] 3(3) assms(2) step by simp
  then show ?case using 3 r by auto
qed simp

lemma find_brace_join:
  "\<forall>a \<in> set alts. plain_alternative a \<Longrightarrow> find_brace (join alts @ chr CHR ''}'' # rest) = Some (Some (chr CHR ''}'' # rest))"
proof -
  have plain: "find_brace (a @ xs) = find_brace xs" if "plain_alternative a" for a xs
    using that by (induction a) (auto simp: plain_alternative_def)
  assume "\<forall>a \<in> set alts. plain_alternative a"
  then show ?thesis by (induction alts rule: join.induct) (simp_all add: plain)
qed

text \<open>A list \<open>{a,b,\<dots>}\<close> in a pattern matches a name that begins with one of the alternatives, when
  the pattern goes on to match the rest of the name; but when the last alternative is not one of
  those, the list also stands for the empty name, so that \<open>{ab}c\<close> matches \<open>c\<close>.\<close>

lemma pattern_list:
  assumes "0 \<in> set rest" "plain_name name" "name \<noteq> []" "alts \<noteq> []" "\<forall>a \<in> set alts. plain_alternative a"
  shows "PatternMatch (of_char CHR ''{'' # join alts @ of_char CHR ''}'' # rest) (name @ [0]) =
    Some ((\<exists>a \<in> set alts. prefix a name \<and> PatternMatch rest (drop (length a) name @ [0]) = Some True) \<or>
      \<not> prefix (last alts) name \<and> PatternMatch rest (name @ [0]) = Some True)"
proof -
  let ?p = "chr CHR ''{'' # join alts @ chr CHR ''}'' # rest"
  have n: "0 \<notin> set name" "hd name \<noteq> 0" "hd name \<noteq> chr CHR ''*''" "hd name \<noteq> chr CHR ''?''"
    using assms(2,3) by (cases name; simp add: plain_name_def)+
  have "PatternMatch ?p (name @ [0]) = MatchList ?p (name @ [0])"
    using n(2-) assms(3) by (subst PatternMatch.simps) (cases name; simp add: rd_eq)
  also have "\<dots> = list_loop rest (name @ [0]) (join alts @ chr CHR ''}'' # rest) (name @ [0])"
    using find_brace_join [OF assms(5), of rest] by (subst MatchList.simps) simp
  finally show ?thesis using all_alternatives [OF assms(1) n(1) assms(4,5)] by simp
qed

lemma pattern_list_example:
  "PatternMatch (of_char CHR ''{'' # join [map of_char ''ab''] @ of_char CHR ''}'' # [of_char CHR ''c'', 0]) (map of_char ''c'' @ [0]) = Some True"
  using pattern_list [of "[of_char CHR ''c'', 0]" "map of_char ''c''" "[map of_char ''ab'']"]
    pattern_language [of "[of_char CHR ''c'']" "[of_char CHR ''c'']"]
  by (simp add: plain_name_def plain_alternative_def plain_pattern_def)

subsection \<open>Bracket classes\<close>

text \<open>The scan of a class begins at its opening bracket, so every class contains that bracket.\<close>

lemma class_has_bracket:
  assumes "0 \<notin> set cls" "chr CHR '']'' \<notin> set cls" "cls \<noteq> []" "hd cls \<noteq> chr CHR ''!''"
  shows "PatternMatch (chr CHR ''['' # cls @ chr CHR '']'' # rest) (chr CHR ''['' # t) = PatternMatch rest t"
proof -
  obtain c cs where c: "cls = c # cs" using assms(3) by (cases cls) auto
  let ?p = "cls @ chr CHR '']'' # rest"
  have "find_bracket (as @ chr CHR '']'' # rest) = Some (Some (chr CHR '']'' # rest))" if "0 \<notin> set as" "chr CHR '']'' \<notin> set as" for as
    using that by (induction as) auto
  then have find: "find_bracket (chr CHR ''['' # ?p) = Some (Some (chr CHR '']'' # rest))" using assms(1,2) by simp
  have two: "\<exists>p2. rd ?p 1 = Some p2" using c by (simp add: rd_eq)
  then have scan: "bracket_scan False (chr CHR ''['') (chr CHR ''['' # ?p) = Some (Some (True, chr CHR ''['' # ?p))"
    using c by (auto simp: rd_eq)
  show ?thesis
    using find scan c assms(1,4) by (subst PatternMatch.simps, simp add: rd_eq, subst MatchBrackets.simps) (simp add: rd_eq)
qed

subsection \<open>More memory\<close>

text \<open>A run that ends does not depend on what memory there is behind its arguments.\<close>

definition defined_le :: "'a option \<Rightarrow> 'a option \<Rightarrow> bool" where
  "defined_le a b \<longleftrightarrow> a = None \<or> a = b"

lemma defined_le_refl: "defined_le a a"
  by (simp add: defined_le_def)

lemma defined_leD: "defined_le a b \<Longrightarrow> a = Some v \<Longrightarrow> b = Some v"
  by (auto simp: defined_le_def)

lemma defined_le_bind:
  "(\<And>v. a = Some v \<Longrightarrow> b = Some (h v)) \<Longrightarrow> (\<And>v. a = Some v \<Longrightarrow> defined_le (f v) (g (h v))) \<Longrightarrow> defined_le (a \<bind> f) (b \<bind> g)"
  by (cases a) (auto simp: defined_le_def)

lemma defined_le_bind_same:
  "defined_le a b \<Longrightarrow> (\<And>v. a = Some v \<Longrightarrow> defined_le (f v) (g v)) \<Longrightarrow> defined_le (a \<bind> f) (b \<bind> g)"
  by (cases a) (auto simp: defined_le_def)

lemma defined_le_if:
  "(c \<Longrightarrow> defined_le a b) \<Longrightarrow> (\<not> c \<Longrightarrow> defined_le a' b') \<Longrightarrow> defined_le (if c then a else a') (if c then b else b')"
  by simp

lemmas defined_intros = defined_le_refl defined_le_bind_same defined_le_if

lemma rd_more: "defined_le (rd p i) (rd (p @ x) i)"
  by (auto simp: defined_le_def rd_def buf_read_def nth_append)

lemma find_brace_more: "find_brace p = Some q \<Longrightarrow> find_brace (p @ x) = Some (map_option (\<lambda>q. q @ x) q)"
  by (induction p) auto

lemma find_bracket_more: "find_bracket p = Some q \<Longrightarrow> find_bracket (p @ x) = Some (map_option (\<lambda>q. q @ x) q)"
  by (induction p) auto

lemma bracket_scan_more:
  "bracket_scan n t p = Some q \<Longrightarrow> bracket_scan n t (p @ x) = Some (map_option (\<lambda>(b, q). (b, q @ x)) q)"
proof (induction p)
  case (Cons c p)
  show ?case
  proof (cases "c = chr CHR '']'' \<or> c = 0")
    case False
    let ?range = "\<lambda>p p1. if p1 = chr CHR ''-'' then do {
        p2 \<leftarrow> rd p 1;
        Some (p2 \<noteq> 0 \<and> sint t \<ge> sint c \<and> sint t \<le> sint p2)
      } else Some False"
    obtain p1 r where p1: "rd p 0 = Some p1" and r: "?range p p1 = Some r"
        and q: "(if r then Some (Some (\<not> n, c # p)) else if c = t then Some (Some (\<not> n, c # p)) else bracket_scan n t p) = Some q"
      using Cons.prems False by (simp add: bind_eq_Some_conv) blast
    have "rd (p @ x) 0 = Some p1" by (rule defined_leD [OF rd_more p1])
    moreover have "?range (p @ x) p1 = Some r"
      using r defined_leD [OF rd_more, of p 1 _ x] by (cases "p1 = chr CHR ''-''") (auto simp: bind_eq_Some_conv)
    ultimately have "bracket_scan n t ((c # p) @ x) =
        (if r then Some (Some (\<not> n, c # p @ x)) else if c = t then Some (Some (\<not> n, c # p @ x)) else bracket_scan n t (p @ x))"
      using False by simp
    then show ?thesis using q Cons.IH by (auto split: if_splits)
  qed (use Cons.prems in auto)
qed simp

lemma skip_more: "skip_alternative p = Some q \<Longrightarrow> skip_alternative (p @ x) = Some (q @ x)"
  by (induction p) auto

lemma tl_more: "rd p 0 = Some c \<Longrightarrow> tl (p @ x) = tl p @ x"
  by (cases p) (simp_all add: rd_Some_iff)

lemma tl_tl_more: "rd p 1 = Some c \<Longrightarrow> tl (tl p @ x) = tl (tl p) @ x"
  by (cases p; cases "tl p") (simp_all add: rd_Some_iff)

lemma tl_first: "rd p 1 = Some c \<Longrightarrow> tl (p @ x) = tl p @ x"
  by (cases p) (simp_all add: rd_Some_iff)

lemma bracket_start_more:
  "rd p 1 = Some c \<Longrightarrow> bracket_scan n t (if n then tl p else p) = Some r \<Longrightarrow>
   bracket_scan n t (if n then tl (p @ x) else p @ x) = Some (map_option (\<lambda>(b, q). (b, q @ x)) r)"
  using bracket_scan_more [of n t "if n then tl p else p" r x] by (simp add: tl_first split: if_splits)

lemma defined_le_rest:
  "(\<And>q. r = Some q \<Longrightarrow> defined_le (f q) (g (q @ x))) \<Longrightarrow>
   defined_le (case r of None \<Rightarrow> a | Some q \<Rightarrow> f q) (case map_option (\<lambda>q. q @ x) r of None \<Rightarrow> a | Some q \<Rightarrow> g q)"
  by (cases r) (simp_all add: defined_le_refl)

lemma defined_le_scan:
  "(\<And>b q. r = Some (b, q) \<Longrightarrow> defined_le (f b q) (g b (q @ x))) \<Longrightarrow>
   defined_le (case r of None \<Rightarrow> a | Some (b, q) \<Rightarrow> f b q) (case map_option (\<lambda>(b, q). (b, q @ x)) r of None \<Rightarrow> a | Some (b, q) \<Rightarrow> g b q)"
  by (cases r) (auto simp: defined_le_refl)

lemma more_memory:
  "defined_le (PatternMatch p t) (PatternMatch (p @ x) (t @ y))"
  "defined_le (MatchBrackets p' t') (MatchBrackets (p' @ x) (t' @ y))"
  "defined_le (MatchList p'' t'') (MatchList (p'' @ x) (t'' @ y))"
  "defined_le (list_loop r s q tp) (list_loop (r @ x) (s @ y) (q @ x) (tp @ y))"
proof (induction p t and p' t' and p'' t'' and r s q tp rule: PatternMatch_MatchBrackets_MatchList_list_loop.induct)
  case (1 p t)
  show ?case
    apply (subst PatternMatch.simps [of p t], subst PatternMatch.simps [of "p @ x" "t @ y"])
    apply (intro defined_intros rd_more; (simp (no_asm_simp) only: tl_more tl_tl_more)?; (rule 1; assumption)?)
    done
next
  case (2 p t)
  show ?case
    apply (subst MatchBrackets.simps [of p t], subst MatchBrackets.simps [of "p @ x" "t @ y"])
    apply (unfold Let_def)
    apply (rule defined_le_bind_same, rule rd_more, rule defined_le_if, rule defined_le_refl)
    apply (rule defined_le_bind_same, rule rd_more)
    apply (rule defined_le_bind [where h = "map_option (\<lambda>(b, q). (b, q @ x))"])
     apply (erule bracket_start_more, assumption)
    apply (rule defined_le_scan)
    apply (intro defined_le_if defined_le_refl)
    apply (rule defined_le_bind [where h = "map_option (\<lambda>q. q @ x)"], erule find_bracket_more)
    apply (rule defined_le_rest)
    subgoal premises prems for v va vb b q vc u
    proof -
      have "u \<noteq> []" using find_bracket_length prems(7,8) by blast
      then have "tl (u @ x) = tl u @ x" "tl (t @ y) = tl t @ y" using prems(3) by (auto simp: tl_more)
      then show ?thesis
        using 2 [OF prems(1,2) refl prems(3) _ prems(5) refl _ prems(7,8)] prems(4,6) by simp
    qed
    done
next
  case (3 p t)
  show ?case
    apply (subst MatchList.simps [of p t], subst MatchList.simps [of "p @ x" "t @ y"])
    apply (rule defined_le_bind [where h = "map_option (\<lambda>q. q @ x)"], erule find_brace_more)
    apply (rule defined_le_rest)
    subgoal premises prems for v q
    proof -
      have "q \<noteq> []" "p \<noteq> []" using find_brace_length prems by fastforce+
      then show ?thesis using 3 [OF prems] by simp
    qed
    done
next
  case (4 r s q tp)
  show ?case
    apply (subst list_loop.simps [of r s q tp], subst list_loop.simps [of "r @ x" "s @ y"])
    apply (rule defined_le_bind_same, rule rd_more)
    apply (rule defined_le_if, intro defined_intros; (simp (no_asm_simp) only: tl_more)?; (rule 4; assumption)?)
    apply (rule defined_le_if, (rule 4; assumption))
    apply (rule defined_le_bind_same, rule rd_more, rule defined_le_if, (simp (no_asm_simp) only: tl_more, (rule 4; assumption)))
    apply (rule defined_le_bind [where h = "\<lambda>q. q @ x"], erule skip_more)
    apply (rule defined_le_bind_same, rule rd_more)
    subgoal premises prems for v va u d
    proof -
      have "(if d = chr CHR '','' then tl (u @ x) else u @ x) = (if d = chr CHR '','' then tl u else u) @ x"
        using prems(7) by (simp add: tl_more)
      then show ?thesis using "4.IH"(5) [OF prems] by simp
    qed
    done
qed

end
