(* ===== verification/OscContainer.thy ===== *)
theory OscContainer
  imports OscMessage PatternMatch
begin

text \<open>
  \<^verbatim>\<open>wosclib/WOscContainer.cpp\<close> and \<^verbatim>\<open>WOscMethod.cpp\<close>: the address space of a receiver, a tree
  of containers with methods as leaves, in which a container and a method can have further names
  (aliases). Objects are mutable and shared, so they live in a store: an address is an index, a
  deleted object is \<open>None\<close>, and access to one is a fault. The descriptions of containers and
  methods are left out; nothing depends on them.
\<close>

subsection \<open>The address space\<close>

record WOscContainerEntry =
  ce_container :: nat
  ce_name :: "byte list"
  ce_isAlias :: bool

record WOscMethodEntry =
  me_method :: nat
  me_name :: "byte list"
  me_isAlias :: bool

record WOscContainer =
  m_parent :: "nat option"
  m_containerEntries :: "WOscContainerEntry list"
  m_methodEntries :: "WOscMethodEntry list"

record AddressSpace =
  containers :: "WOscContainer option list"
  methods :: "nat option list"

text \<open>Of a method only its parent matters.\<close>

definition container_at :: "AddressSpace \<Rightarrow> nat \<Rightarrow> WOscContainer option" where
  "container_at sp c = do { x \<leftarrow> buf_read (containers sp) c; x }"

definition method_at :: "AddressSpace \<Rightarrow> nat \<Rightarrow> nat option" where
  "method_at sp m = do { x \<leftarrow> buf_read (methods sp) m; x }"

definition upd_container :: "AddressSpace \<Rightarrow> nat \<Rightarrow> (WOscContainer \<Rightarrow> WOscContainer) \<Rightarrow> AddressSpace option" where
  "upd_container sp c f = do {
     x \<leftarrow> container_at sp c;
     Some (sp\<lparr>containers := (containers sp)[c := Some (f x)]\<rparr>)
   }"

text \<open>A \<open>std::string\<close> that is assigned from a \<open>const char*\<close>.\<close>

definition std_string :: "byte list \<Rightarrow> byte list option" where
  "std_string p = (if 0 \<in> set p then Some (takeWhile (\<lambda>b. b \<noteq> 0) p) else None)"

definition c_str :: "byte list \<Rightarrow> byte list" where
  "c_str name = name @ [0]"

subsection \<open>Construction\<close>

definition AddContainer :: "AddressSpace \<Rightarrow> nat \<Rightarrow> nat \<Rightarrow> byte list \<Rightarrow> bool \<Rightarrow> AddressSpace option" where
  "AddContainer sp this container name isAlias = do {
     name \<leftarrow> std_string name;
     upd_container sp this (\<lambda>x. x\<lparr>m_containerEntries := m_containerEntries x @
       [\<lparr>ce_container = container, ce_name = name, ce_isAlias = isAlias\<rparr>]\<rparr>)
   }"

definition AddMethod :: "AddressSpace \<Rightarrow> nat \<Rightarrow> nat \<Rightarrow> byte list \<Rightarrow> bool \<Rightarrow> AddressSpace option" where
  "AddMethod sp this meth name isAlias = do {
     name \<leftarrow> std_string name;
     upd_container sp this (\<lambda>x. x\<lparr>m_methodEntries := m_methodEntries x @
       [\<lparr>me_method = meth, me_name = name, me_isAlias = isAlias\<rparr>]\<rparr>)
   }"

text \<open>The constructors return the address of the new object; the parent is an older one.\<close>

definition WOscContainer_root :: "AddressSpace \<Rightarrow> nat \<times> AddressSpace" where
  "WOscContainer_root sp = (length (containers sp),
     sp\<lparr>containers := containers sp @ [Some \<lparr>m_parent = None, m_containerEntries = [], m_methodEntries = []\<rparr>]\<rparr>)"

definition WOscContainer_child :: "AddressSpace \<Rightarrow> nat option \<Rightarrow> byte list \<Rightarrow> (ErrorCodes + nat \<times> AddressSpace) option" where
  "WOscContainer_child sp parent name = (case parent of
     None \<Rightarrow> Some (Inl ERR_PARENT_POINTER_NULL)
   | Some p \<Rightarrow> do {
       _ \<leftarrow> container_at sp p;
       let this = length (containers sp);
       let sp = sp\<lparr>containers := containers sp @ [Some \<lparr>m_parent = Some p, m_containerEntries = [], m_methodEntries = []\<rparr>]\<rparr>;
       sp \<leftarrow> AddContainer sp p this name False;
       Some (Inr (this, sp))
     })"

definition AddContainerAlias :: "AddressSpace \<Rightarrow> nat \<Rightarrow> nat option \<Rightarrow> byte list \<Rightarrow> (ErrorCodes + AddressSpace) option" where
  "AddContainerAlias sp this parent alias = do {
     x \<leftarrow> container_at sp this;
     if m_parent x = None then Some (Inl ERR_ROOT_ALIAS)
     else if parent = Some this then Some (Inl ERR_RECURSIVE_ALIAS)
     else case parent of
       None \<Rightarrow> Some (Inl ERR_PARENT_POINTER_NULL)
     | Some p \<Rightarrow> map_option Inr (AddContainer sp p this alias True)
   }"

definition WOscMethod_new :: "AddressSpace \<Rightarrow> nat option \<Rightarrow> byte list \<Rightarrow> (ErrorCodes + nat \<times> AddressSpace) option" where
  "WOscMethod_new sp parent name = (case parent of
     None \<Rightarrow> Some (Inl ERR_PARENT_POINTER_NULL)
   | Some p \<Rightarrow> do {
       let this = length (methods sp);
       let sp = sp\<lparr>methods := methods sp @ [Some p]\<rparr>;
       sp \<leftarrow> AddMethod sp p this name False;
       Some (Inr (this, sp))
     })"

definition AddMethodAlias :: "AddressSpace \<Rightarrow> nat \<Rightarrow> nat option \<Rightarrow> byte list \<Rightarrow> (ErrorCodes + AddressSpace) option" where
  "AddMethodAlias sp this parent alias = (case parent of
     None \<Rightarrow> Some (Inl ERR_PARENT_POINTER_NULL)
   | Some p \<Rightarrow> map_option Inr (AddMethod sp p this alias True))"

subsection \<open>The way to the root\<close>

text \<open>The loop from a container upwards; \<open>lastParent\<close> is the last that was not null.\<close>

partial_function (option) find_root_loop :: "AddressSpace \<Rightarrow> nat option \<Rightarrow> nat \<Rightarrow> nat option" where
  "find_root_loop sp momentaryParent lastParent = (case momentaryParent of
     None \<Rightarrow> Some lastParent
   | Some p \<Rightarrow> do {
       x \<leftarrow> container_at sp p;
       find_root_loop sp (m_parent x) p
     })"

declare find_root_loop.simps [code]

definition FindRoot :: "AddressSpace \<Rightarrow> nat \<Rightarrow> nat option" where
  "FindRoot sp this = do {
     x \<leftarrow> container_at sp this;
     find_root_loop sp (m_parent x) this
   }"

definition IsRoot :: "AddressSpace \<Rightarrow> nat \<Rightarrow> bool option" where
  "IsRoot sp this = map_option (\<lambda>x. m_parent x = None) (container_at sp this)"

definition GetParent :: "AddressSpace \<Rightarrow> nat \<Rightarrow> nat option" where
  "GetParent sp meth = method_at sp meth"

subsection \<open>Callback lists\<close>

text \<open>\<open>m_capacity\<close> is the length of the array, unless the doubling wraps around; an entry that was
  never written is \<open>None\<close>.\<close>

record WOscCallbackList =
  cb_methods :: "nat option list"
  cb_count :: "32 word"
  cb_capacity :: "32 word"

definition WOscCallbackList_new :: "32 word \<Rightarrow> WOscCallbackList" where
  "WOscCallbackList_new initialCapacity =
     \<lparr>cb_methods = replicate (unat initialCapacity) None, cb_count = 0, cb_capacity = initialCapacity\<rparr>"

definition Double :: "WOscCallbackList \<Rightarrow> WOscCallbackList option" where
  "Double l = do {
     let newMethods = replicate (unat (cb_capacity l * 2)) None;
     old \<leftarrow> mem_read (cb_methods l) 0 (uint (cb_capacity l));
     newMethods \<leftarrow> mem_write newMethods 0 old;
     Some (l\<lparr>cb_capacity := cb_capacity l * 2, cb_methods := newMethods\<rparr>)
   }"

definition callback_Reset :: "WOscCallbackList \<Rightarrow> WOscCallbackList" where
  "callback_Reset l = l\<lparr>cb_count := 0\<rparr>"

definition Append :: "WOscCallbackList \<Rightarrow> nat \<Rightarrow> WOscCallbackList option" where
  "Append l meth = do {
     l \<leftarrow> (if cb_count l \<ge> cb_capacity l then Double l else Some l);
     ms \<leftarrow> wr (cb_methods l) (uint (cb_count l)) (Some meth);
     Some (l\<lparr>cb_methods := ms, cb_count := cb_count l + 1\<rparr>)
   }"

text \<open>The methods that \<open>Invoke\<close> calls, in order; \<open>int i = m_count-1\<close> is a conversion to \<open>int\<close>.\<close>

fun invoke_loop :: "AddressSpace \<Rightarrow> nat option list \<Rightarrow> nat \<Rightarrow> nat list option" where
  "invoke_loop sp ms 0 = Some []"
| "invoke_loop sp ms (Suc i) = do {
     x \<leftarrow> buf_read ms 0;
     meth \<leftarrow> x;
     _ \<leftarrow> method_at sp meth;
     rest \<leftarrow> invoke_loop sp (tl ms) i;
     Some (meth # rest)
   }"

definition Invoke :: "AddressSpace \<Rightarrow> WOscCallbackList \<Rightarrow> nat list option" where
  "Invoke sp l = invoke_loop sp (cb_methods l) (nat (sint (cb_count l - 1) + 1))"

definition GetCount :: "WOscCallbackList \<Rightarrow> 32 word" where
  "GetCount l = cb_count l"

subsection \<open>Dispatch\<close>

text \<open>
  The loops run over the entries from the last to the first. While the containers are compared,
  the slash behind the first part of the pattern is zero.
\<close>

fun append_matching :: "WOscMethodEntry list \<Rightarrow> WOscCallbackList \<Rightarrow> byte list \<Rightarrow> WOscCallbackList option" where
  "append_matching [] l pattern = Some l"
| "append_matching (e # es) l pattern = do {
     b \<leftarrow> PatternMatch pattern (c_str (me_name e));
     l \<leftarrow> (if b then Append l (me_method e) else Some l);
     append_matching es l pattern
   }"

lemma next_slash_length: "NextSlashOrNull p = Some q \<Longrightarrow> q \<noteq> [] \<and> length q \<le> length p"
  by (auto simp: NextSlashOrNull_def Let_def length_dropWhile_le split: if_splits)

function DispatchSubMessage :: "AddressSpace \<Rightarrow> nat \<Rightarrow> WOscCallbackList \<Rightarrow> byte list \<Rightarrow> WOscCallbackList option"
  and dispatch_children :: "AddressSpace \<Rightarrow> WOscContainerEntry list \<Rightarrow> WOscCallbackList \<Rightarrow> byte list \<Rightarrow> byte list \<Rightarrow> WOscCallbackList option" where
  "DispatchSubMessage sp this l pattern = do {
     nextSlash \<leftarrow> NextSlashOrNull pattern;
     x \<leftarrow> container_at sp this;
     if hd nextSlash = 0 then append_matching (rev (m_methodEntries x)) l pattern
     else dispatch_children sp (rev (m_containerEntries x)) l
       (pattern[length pattern - length nextSlash := 0]) (tl nextSlash)
   }"
| "dispatch_children sp [] l pattern restOfPattern = Some l"
| "dispatch_children sp (e # es) l pattern restOfPattern = do {
     b \<leftarrow> PatternMatch pattern (c_str (ce_name e));
     l \<leftarrow> (if b then DispatchSubMessage sp (ce_container e) l restOfPattern else Some l);
     dispatch_children sp es l pattern restOfPattern
   }"
  by pat_completeness auto
termination
proof (relation "measures [\<lambda>x. case x of Inl (_, _, _, p) \<Rightarrow> length p | Inr (_, _, _, _, q) \<Rightarrow> length q,
    \<lambda>x. case x of Inl _ \<Rightarrow> 0 | Inr (_, es, _) \<Rightarrow> Suc (length es)]", goal_cases)
  case (2 sp this l pattern q)
  then show ?case using next_slash_length [OF 2(1)] by (cases q) auto
qed auto

declare DispatchSubMessage.simps [simp del]

definition DispatchMessage :: "AddressSpace \<Rightarrow> nat \<Rightarrow> WOscCallbackList \<Rightarrow> WOscMessage \<Rightarrow> (ErrorCodes + WOscCallbackList) option" where
  "DispatchMessage sp this l msg = do {
     x \<leftarrow> container_at sp this;
     if m_parent x \<noteq> None then Some (Inl ERR_NOT_DISPATCHING_FROM_ROOT)
     else case str_buffer (m_address msg) of
       None \<Rightarrow> Some (Inl ERR_INVALID_ADDRESS_NO_SLASH)
     | Some pattern \<Rightarrow> do {
         c \<leftarrow> rd pattern 0;
         if c \<noteq> chr CHR ''/'' then Some (Inl ERR_INVALID_ADDRESS_NO_SLASH)
         else map_option Inr (DispatchSubMessage sp this l (tl pattern))
       }
   }"

subsection \<open>Search by address\<close>

text \<open>\<open>strncmp(a, b, n) == 0\<close>\<close>

fun strncmp_equal :: "byte list \<Rightarrow> byte list \<Rightarrow> nat \<Rightarrow> bool option" where
  "strncmp_equal a b 0 = Some True"
| "strncmp_equal a b (Suc n) = do {
     x \<leftarrow> rd a 0;
     y \<leftarrow> rd b 0;
     if x \<noteq> y then Some False else if x = 0 then Some True else strncmp_equal (tl a) (tl b) n
   }"

function FindContainer :: "AddressSpace \<Rightarrow> nat \<Rightarrow> byte list \<Rightarrow> nat option option"
  and find_in_children :: "AddressSpace \<Rightarrow> WOscContainerEntry list \<Rightarrow> byte list \<Rightarrow> nat \<Rightarrow> byte list \<Rightarrow> nat option option" where
  "FindContainer sp this address = do {
     addrlen \<leftarrow> strlen address 0;
     if addrlen = 0 then Some None
     else if hd address \<noteq> chr CHR ''/'' then Some None
     else if addrlen = 1 then Some (Some this)
     else do {
       nextp \<leftarrow> NextSlashOrNull (tl address);
       x \<leftarrow> container_at sp this;
       if hd nextp = 0 then do {
         name \<leftarrow> std_string (tl address);
         Some (map_option ce_container (find (\<lambda>e. ce_name e = name) (rev (m_containerEntries x))))
       }
       else find_in_children sp (rev (m_containerEntries x)) (tl address) (length address - length nextp) nextp
     }
   }"
| "find_in_children sp [] name thisNodeStrLen nextp = Some None"
| "find_in_children sp (e # es) name thisNodeStrLen nextp = do {
     b \<leftarrow> strncmp_equal (c_str (ce_name e)) name thisNodeStrLen;
     ctnr \<leftarrow> (if b then FindContainer sp (ce_container e) nextp else Some None);
     if ctnr \<noteq> None then Some ctnr else find_in_children sp es name thisNodeStrLen nextp
   }"
  by pat_completeness auto
termination
proof (relation "measures [\<lambda>x. case x of Inl (_, _, a) \<Rightarrow> length a | Inr (_, _, _, _, n) \<Rightarrow> length n,
    \<lambda>x. case x of Inl _ \<Rightarrow> 0 | Inr (_, es, _) \<Rightarrow> Suc (length es)]", goal_cases)
  case (2 sp this address n q)
  then show ?case using next_slash_length [of "tl address" q] by (cases address) (auto simp: strlen_def)
qed auto

declare FindContainer.simps [simp del]

subsection \<open>Names and addresses\<close>

definition container_GetName :: "allocator \<Rightarrow> AddressSpace \<Rightarrow> nat \<Rightarrow> WOscString option" where
  "container_GetName new sp this = do {
     x \<leftarrow> container_at sp this;
     case m_parent x of
       None \<Rightarrow> WOscString_chars new (c_str [chr CHR ''/'']) 0
     | Some p \<Rightarrow> do {
         px \<leftarrow> container_at sp p;
         case find (\<lambda>e. ce_container e = this \<and> \<not> ce_isAlias e) (rev (m_containerEntries px)) of
           Some e \<Rightarrow> WOscString_chars new (c_str (ce_name e)) 0
         | None \<Rightarrow> WOscString_chars new (c_str [chr CHR ''/'']) 0
       }
   }"

partial_function (option) container_address_loop :: "allocator \<Rightarrow> AddressSpace \<Rightarrow> nat option \<Rightarrow> WOscString \<Rightarrow> WOscString option" where
  "container_address_loop new sp momentaryParent address = (case momentaryParent of
     None \<Rightarrow> Some address
   | Some p \<Rightarrow> do {
       name \<leftarrow> container_GetName new sp p;
       joined \<leftarrow> str_concat new name address;
       address \<leftarrow> str_assign new address joined;
       x \<leftarrow> container_at sp p;
       container_address_loop new sp (m_parent x) address
     })"

declare container_address_loop.simps [code]

definition container_GetAddress :: "allocator \<Rightarrow> AddressSpace \<Rightarrow> nat \<Rightarrow> WOscString option" where
  "container_GetAddress new sp this = do {
     x \<leftarrow> container_at sp this;
     if m_parent x = None then WOscString_chars new (c_str [chr CHR ''/'']) 0
     else do {
       address \<leftarrow> container_GetName new sp this;
       address \<leftarrow> str_append_char new address (chr CHR ''/'');
       container_address_loop new sp (m_parent x) address
     }
   }"

definition method_GetName :: "allocator \<Rightarrow> AddressSpace \<Rightarrow> nat \<Rightarrow> WOscString option" where
  "method_GetName new sp meth = do {
     p \<leftarrow> method_at sp meth;
     px \<leftarrow> container_at sp p;
     case find (\<lambda>e. me_method e = meth \<and> \<not> me_isAlias e) (rev (m_methodEntries px)) of
       Some e \<Rightarrow> WOscString_chars new (c_str (me_name e)) 0
     | None \<Rightarrow> WOscString_chars new (c_str []) 0
   }"

text \<open>The loop ends before the root.\<close>

partial_function (option) method_address_loop :: "allocator \<Rightarrow> AddressSpace \<Rightarrow> nat option \<Rightarrow> WOscString \<Rightarrow> WOscString option" where
  "method_address_loop new sp momentaryParent address = (case momentaryParent of
     None \<Rightarrow> Some address
   | Some p \<Rightarrow> do {
       x \<leftarrow> container_at sp p;
       if m_parent x = None then Some address
       else do {
         tmp \<leftarrow> container_GetName new sp p;
         tmp \<leftarrow> str_append_char new tmp (chr CHR ''/'');
         joined \<leftarrow> str_concat new tmp address;
         address \<leftarrow> str_assign new address joined;
         method_address_loop new sp (m_parent x) address
       }
     })"

declare method_address_loop.simps [code]

definition method_GetAddress :: "allocator \<Rightarrow> AddressSpace \<Rightarrow> nat \<Rightarrow> WOscString option" where
  "method_GetAddress new sp meth = do {
     p \<leftarrow> method_at sp meth;
     address \<leftarrow> method_GetName new sp meth;
     tmp \<leftarrow> WOscString_chars new (c_str []) 0;
     address \<leftarrow> method_address_loop new sp (Some p) address;
     tmp \<leftarrow> str_assign_char new tmp (chr CHR ''/'');
     str_concat new tmp address
   }"

text \<open>
  The list of all addresses. The recursion only goes to containers that are no aliases, and the
  fuel bounds its depth, here and in the recursions below: one call for each container.
\<close>

fun list_methods :: "allocator \<Rightarrow> AddressSpace \<Rightarrow> nat \<Rightarrow> WOscMethodEntry list \<Rightarrow> WOscString \<Rightarrow> WOscString option" where
  "list_methods new sp this [] methodList = Some methodList"
| "list_methods new sp this (e # es) methodList = do {
     methodList \<leftarrow> (if me_isAlias e then do {
         address \<leftarrow> container_GetAddress new sp this;
         methodList \<leftarrow> str_append new methodList address;
         str_append_chars new methodList (c_str (me_name e)) 0
       } else do {
         address \<leftarrow> method_GetAddress new sp (me_method e);
         str_append new methodList address
       });
     methodList \<leftarrow> str_append_char new methodList (chr CHR 0x0A);
     list_methods new sp this es methodList
   }"

fun method_list :: "allocator \<Rightarrow> nat \<Rightarrow> AddressSpace \<Rightarrow> nat \<Rightarrow> WOscString option"
  and list_children :: "allocator \<Rightarrow> nat \<Rightarrow> AddressSpace \<Rightarrow> WOscContainerEntry list \<Rightarrow> WOscString \<Rightarrow> WOscString option" where
  "method_list new 0 sp this = None"
| "method_list new (Suc k) sp this = do {
     x \<leftarrow> container_at sp this;
     methodList \<leftarrow> WOscString_chars new (c_str []) 0;
     methodList \<leftarrow> list_methods new sp this (rev (m_methodEntries x)) methodList;
     list_children new k sp (rev (m_containerEntries x)) methodList
   }"
| "list_children new k sp [] methodList = Some methodList"
| "list_children new k sp (e # es) methodList = do {
     methodList \<leftarrow> (if ce_isAlias e then Some methodList
       else do {
         inner \<leftarrow> method_list new k sp (ce_container e);
         str_append new methodList inner
       });
     list_children new k sp es methodList
   }"

definition GetMethodList :: "allocator \<Rightarrow> AddressSpace \<Rightarrow> nat \<Rightarrow> WOscString option" where
  "GetMethodList new sp this = method_list new (Suc (length (containers sp))) sp this"

definition container_GetAddressSpace :: "allocator \<Rightarrow> AddressSpace \<Rightarrow> nat \<Rightarrow> WOscString option" where
  "container_GetAddressSpace new sp this = do {
     root \<leftarrow> FindRoot sp this;
     GetMethodList new sp root
   }"

definition method_GetAddressSpace :: "allocator \<Rightarrow> AddressSpace \<Rightarrow> nat \<Rightarrow> WOscString option" where
  "method_GetAddressSpace new sp meth = do {
     p \<leftarrow> method_at sp meth;
     root \<leftarrow> FindRoot sp p;
     GetMethodList new sp root
   }"

subsection \<open>Removal\<close>

definition erase :: "'a list \<Rightarrow> nat \<Rightarrow> 'a list option" where
  "erase xs i = (if i < length xs then Some (take i xs @ drop (Suc i) xs) else None)"

definition erase_container_entry :: "AddressSpace \<Rightarrow> nat \<Rightarrow> nat \<Rightarrow> AddressSpace option" where
  "erase_container_entry sp this i = do {
     x \<leftarrow> container_at sp this;
     es \<leftarrow> erase (m_containerEntries x) i;
     upd_container sp this (\<lambda>x. x\<lparr>m_containerEntries := es\<rparr>)
   }"

definition erase_method_entry :: "AddressSpace \<Rightarrow> nat \<Rightarrow> nat \<Rightarrow> AddressSpace option" where
  "erase_method_entry sp this i = do {
     x \<leftarrow> container_at sp this;
     es \<leftarrow> erase (m_methodEntries x) i;
     upd_container sp this (\<lambda>x. x\<lparr>m_methodEntries := es\<rparr>)
   }"

text \<open>
  The removal of the aliases of a container, and of a method. The second also goes through
  aliases of containers, so it does not end when an alias leads back up.
\<close>

fun container_aliases :: "nat \<Rightarrow> AddressSpace \<Rightarrow> nat \<Rightarrow> nat \<Rightarrow> AddressSpace option"
  and container_alias_loop :: "nat \<Rightarrow> AddressSpace \<Rightarrow> nat \<Rightarrow> nat \<Rightarrow> nat \<Rightarrow> AddressSpace option" where
  "container_aliases 0 sp this container = None"
| "container_aliases (Suc k) sp this container = do {
     x \<leftarrow> container_at sp this;
     container_alias_loop k sp this container (length (m_containerEntries x))
   }"
| "container_alias_loop k sp this container 0 = Some sp"
| "container_alias_loop k sp this container (Suc i) = do {
     x \<leftarrow> container_at sp this;
     e \<leftarrow> buf_read (m_containerEntries x) i;
     sp \<leftarrow> (if ce_isAlias e
       then if ce_container e = container then erase_container_entry sp this i else Some sp
       else container_aliases k sp (ce_container e) container);
     container_alias_loop k sp this container i
   }"

fun method_alias_loop :: "AddressSpace \<Rightarrow> nat \<Rightarrow> nat \<Rightarrow> nat \<Rightarrow> AddressSpace option" where
  "method_alias_loop sp this meth 0 = Some sp"
| "method_alias_loop sp this meth (Suc i) = do {
     x \<leftarrow> container_at sp this;
     e \<leftarrow> buf_read (m_methodEntries x) i;
     sp \<leftarrow> (if me_isAlias e \<and> me_method e = meth then erase_method_entry sp this i else Some sp);
     method_alias_loop sp this meth i
   }"

fun method_aliases :: "nat \<Rightarrow> AddressSpace \<Rightarrow> nat \<Rightarrow> nat \<Rightarrow> AddressSpace option"
  and child_method_aliases :: "nat \<Rightarrow> AddressSpace \<Rightarrow> nat \<Rightarrow> nat \<Rightarrow> nat \<Rightarrow> AddressSpace option" where
  "method_aliases 0 sp this meth = None"
| "method_aliases (Suc k) sp this meth = do {
     x \<leftarrow> container_at sp this;
     sp \<leftarrow> method_alias_loop sp this meth (length (m_methodEntries x));
     x \<leftarrow> container_at sp this;
     child_method_aliases k sp this meth (length (m_containerEntries x))
   }"
| "child_method_aliases k sp this meth 0 = Some sp"
| "child_method_aliases k sp this meth (Suc i) = do {
     x \<leftarrow> container_at sp this;
     e \<leftarrow> buf_read (m_containerEntries x) i;
     sp \<leftarrow> method_aliases k sp (ce_container e) meth;
     child_method_aliases k sp this meth i
   }"

definition RecursivelyRemoveAliases_container :: "AddressSpace \<Rightarrow> nat \<Rightarrow> nat \<Rightarrow> AddressSpace option" where
  "RecursivelyRemoveAliases_container sp this container = container_aliases (Suc (length (containers sp))) sp this container"

definition RecursivelyRemoveAliases_method :: "AddressSpace \<Rightarrow> nat \<Rightarrow> nat \<Rightarrow> AddressSpace option" where
  "RecursivelyRemoveAliases_method sp this meth = method_aliases (Suc (length (containers sp))) sp this meth"

text \<open>The destructor of a container; the loops over the copies of the entries come first.\<close>

fun unalias_containers :: "AddressSpace \<Rightarrow> nat \<Rightarrow> WOscContainerEntry list \<Rightarrow> AddressSpace option" where
  "unalias_containers sp this [] = Some sp"
| "unalias_containers sp this (it # its) = do {
     sp \<leftarrow> (if ce_isAlias it then Some sp
       else do {
         root \<leftarrow> FindRoot sp this;
         RecursivelyRemoveAliases_container sp root (ce_container it)
       });
     unalias_containers sp this its
   }"

fun unalias_methods :: "AddressSpace \<Rightarrow> nat \<Rightarrow> WOscMethodEntry list \<Rightarrow> AddressSpace option" where
  "unalias_methods sp this [] = Some sp"
| "unalias_methods sp this (it # its) = do {
     sp \<leftarrow> (if me_isAlias it then Some sp
       else do {
         root \<leftarrow> FindRoot sp this;
         RecursivelyRemoveAliases_method sp root (me_method it)
       });
     unalias_methods sp this its
   }"

definition delete_method :: "AddressSpace \<Rightarrow> nat \<Rightarrow> AddressSpace option" where
  "delete_method sp meth = do {
     _ \<leftarrow> method_at sp meth;
     Some (sp\<lparr>methods := (methods sp)[meth := None]\<rparr>)
   }"

fun delete_methods :: "AddressSpace \<Rightarrow> nat \<Rightarrow> nat \<Rightarrow> AddressSpace option" where
  "delete_methods sp this 0 = Some sp"
| "delete_methods sp this (Suc i) = do {
     x \<leftarrow> container_at sp this;
     e \<leftarrow> buf_read (m_methodEntries x) i;
     sp \<leftarrow> (if me_isAlias e then Some sp else delete_method sp (me_method e));
     delete_methods sp this i
   }"

fun delete_container :: "nat \<Rightarrow> AddressSpace \<Rightarrow> nat \<Rightarrow> AddressSpace option"
  and delete_children :: "nat \<Rightarrow> AddressSpace \<Rightarrow> nat \<Rightarrow> nat \<Rightarrow> AddressSpace option" where
  "delete_container 0 sp this = None"
| "delete_container (Suc k) sp this = do {
     x \<leftarrow> container_at sp this;
     sp \<leftarrow> unalias_containers sp this (m_containerEntries x);
     x \<leftarrow> container_at sp this;
     sp \<leftarrow> delete_children k sp this (length (m_containerEntries x));
     sp \<leftarrow> upd_container sp this (\<lambda>x. x\<lparr>m_containerEntries := []\<rparr>);
     x \<leftarrow> container_at sp this;
     sp \<leftarrow> unalias_methods sp this (m_methodEntries x);
     x \<leftarrow> container_at sp this;
     sp \<leftarrow> delete_methods sp this (length (m_methodEntries x));
     sp \<leftarrow> upd_container sp this (\<lambda>x. x\<lparr>m_methodEntries := []\<rparr>);
     Some (sp\<lparr>containers := (containers sp)[this := None]\<rparr>)
   }"
| "delete_children k sp this 0 = Some sp"
| "delete_children k sp this (Suc i) = do {
     x \<leftarrow> container_at sp this;
     e \<leftarrow> buf_read (m_containerEntries x) i;
     sp \<leftarrow> (if ce_isAlias e then Some sp else delete_container k sp (ce_container e));
     delete_children k sp this i
   }"

definition destroy :: "AddressSpace \<Rightarrow> nat \<Rightarrow> AddressSpace option" where
  "destroy sp c = delete_container (Suc (length (containers sp))) sp c"

definition RemoveAll :: "AddressSpace \<Rightarrow> nat \<Rightarrow> AddressSpace option" where
  "RemoveAll sp this = do {
     root \<leftarrow> FindRoot sp this;
     destroy sp root
   }"

fun remove_container_loop :: "AddressSpace \<Rightarrow> nat \<Rightarrow> byte list \<Rightarrow> nat \<Rightarrow> (bool \<times> AddressSpace) option" where
  "remove_container_loop sp this name 0 = Some (False, sp)"
| "remove_container_loop sp this name (Suc i) = do {
     x \<leftarrow> container_at sp this;
     e \<leftarrow> buf_read (m_containerEntries x) i;
     if ce_name e = name then do {
       sp \<leftarrow> (if ce_isAlias e then Some sp else destroy sp (ce_container e));
       sp \<leftarrow> erase_container_entry sp this i;
       Some (True, sp)
     }
     else remove_container_loop sp this name i
   }"

definition RemoveContainer :: "AddressSpace \<Rightarrow> nat \<Rightarrow> byte list \<Rightarrow> (bool \<times> AddressSpace) option" where
  "RemoveContainer sp this name = do {
     x \<leftarrow> container_at sp this;
     name \<leftarrow> std_string name;
     remove_container_loop sp this name (length (m_containerEntries x))
   }"

fun remove_method_loop :: "AddressSpace \<Rightarrow> nat \<Rightarrow> byte list \<Rightarrow> nat \<Rightarrow> (bool \<times> AddressSpace) option" where
  "remove_method_loop sp this name 0 = Some (False, sp)"
| "remove_method_loop sp this name (Suc i) = do {
     x \<leftarrow> container_at sp this;
     e \<leftarrow> buf_read (m_methodEntries x) i;
     if me_name e = name then do {
       sp \<leftarrow> (if me_isAlias e then Some sp else delete_method sp (me_method e));
       sp \<leftarrow> erase_method_entry sp this i;
       Some (True, sp)
     }
     else remove_method_loop sp this name i
   }"

definition RemoveMethod :: "AddressSpace \<Rightarrow> nat \<Rightarrow> byte list \<Rightarrow> (bool \<times> AddressSpace) option" where
  "RemoveMethod sp this name = do {
     x \<leftarrow> container_at sp this;
     name \<leftarrow> std_string name;
     remove_method_loop sp this name (length (m_methodEntries x))
   }"

subsection \<open>The receiver\<close>

text \<open>
  \<^verbatim>\<open>WOscReceiver.cpp\<close>: a message is read and dispatched. The methods are the client's code; what
  \<open>ProcessMessage\<close> does with them is the list of calls.
\<close>

record WOscReceiver =
  m_addrSpaceRootContainer :: "nat option"
  m_callbackList :: WOscCallbackList

datatype processed = NoAddressSpace | Nonmatched | Invoked "nat list"

definition SetAddressSpace :: "AddressSpace \<Rightarrow> WOscReceiver \<Rightarrow> nat option \<Rightarrow> (ErrorCodes + WOscReceiver) option" where
  "SetAddressSpace sp rcv addrSpaceRootContainer = do {
     c \<leftarrow> addrSpaceRootContainer;
     b \<leftarrow> IsRoot sp c;
     Some (if b then Inr (rcv\<lparr>m_addrSpaceRootContainer := addrSpaceRootContainer\<rparr>) else Inl ERR_NOT_ROOT_CONTAINER)
   }"

definition ProcessMessage :: "allocator \<Rightarrow> AddressSpace \<Rightarrow> WOscReceiver \<Rightarrow> byte list \<Rightarrow> int \<Rightarrow> 32 word \<Rightarrow>
    (ErrorCodes + processed \<times> WOscReceiver) option" where
  "ProcessMessage new sp rcv data p len = do {
     msg \<leftarrow> WOscMessage_read new data p (sint len);
     case msg of
       Inl err \<Rightarrow> Some (Inl err)
     | Inr msg \<Rightarrow> (case m_addrSpaceRootContainer rcv of
         None \<Rightarrow> Some (Inr (NoAddressSpace, rcv))
       | Some root \<Rightarrow> do {
           l \<leftarrow> DispatchMessage sp root (callback_Reset (m_callbackList rcv)) msg;
           case l of
             Inl err \<Rightarrow> Some (Inl err)
           | Inr l \<Rightarrow>
               if GetCount l = 0 then Some (Inr (Nonmatched, rcv\<lparr>m_callbackList := l\<rparr>))
               else do {
                 calls \<leftarrow> Invoke sp l;
                 Some (Inr (Invoked calls, rcv\<lparr>m_callbackList := l\<rparr>))
               }
         })
   }"

end
