(* ===== verification/OscDispatch.thy ===== *)
theory OscDispatch
  imports OscContainer OscReceive
begin

text \<open>
  The address space of \<open>OscContainer\<close>: what the constructors build is well formed, and which
  methods a message reaches there.
\<close>

subsection \<open>Callback lists\<close>

definition callbacks :: "WOscCallbackList \<Rightarrow> nat list \<Rightarrow> bool" where
  "callbacks l ms \<longleftrightarrow> 0 < cb_capacity l \<and> length (cb_methods l) = unat (cb_capacity l) \<and>
     length ms = unat (cb_count l) \<and> cb_count l \<le> cb_capacity l \<and> take (length ms) (cb_methods l) = map Some ms"

lemma callbacks_Reset: "callbacks l ms \<Longrightarrow> callbacks (callback_Reset l) []"
  by (simp add: callbacks_def callback_Reset_def)

lemma callbacks_new: "0 < n \<Longrightarrow> callbacks (WOscCallbackList_new n) []"
  by (simp add: callbacks_def WOscCallbackList_new_def)

lemma Double_ok:
  assumes "callbacks l ms" "length ms < 2 ^ 31" "cb_capacity l \<le> cb_count l"
  shows "\<exists>l'. Double l = Some l' \<and> callbacks l' ms \<and> cb_count l' < cb_capacity l'"
proof -
  have len: "length (cb_methods l) = length ms" "unat (cb_capacity l) = length ms" "cb_capacity l = cb_count l"
      "cb_methods l = map Some ms" and pos: "0 < length ms"
    using assms(1,3) by (auto simp: callbacks_def unat_gt_0)
  have two: "unat (cb_capacity l * 2) = 2 * length ms"
    using len(2) assms(2) by (simp add: unat_word_ariths)
  let ?ms = "map Some ms @ replicate (length ms) None"
  have "mem_read (cb_methods l) 0 (uint (cb_capacity l)) = Some (map Some ms)"
    using len by (simp add: mem_read_def uint_nat)
  moreover have "mem_write (replicate (unat (cb_capacity l * 2)) None) 0 (map Some ms) = Some ?ms"
    using two by (simp add: mem_write_def)
  ultimately have "Double l = Some (l\<lparr>cb_capacity := cb_capacity l * 2, cb_methods := ?ms\<rparr>)"
    by (simp add: Double_def Let_def)
  moreover have "cb_count l < cb_capacity l * 2"
    using two len pos assms(1) by (simp add: word_less_nat_alt callbacks_def)
  ultimately show ?thesis
    using two len pos assms(1) by (auto simp: callbacks_def word_less_nat_alt word_le_nat_alt)
qed

lemma Append_ok:
  assumes "callbacks l ms" "length ms < 2 ^ 31"
  shows "\<exists>l'. Append l m = Some l' \<and> callbacks l' (ms @ [m])"
proof -
  obtain l0 where l0: "(if cb_count l \<ge> cb_capacity l then Double l else Some l) = Some l0" "callbacks l0 ms" "cb_count l0 < cb_capacity l0"
    using Double_ok [OF assms] assms(1) by (cases "cb_count l \<ge> cb_capacity l") auto
  have n: "unat (cb_count l0) = length ms" "length ms < length (cb_methods l0)"
    using l0(2,3) by (simp_all add: callbacks_def word_less_nat_alt)
  have suc: "unat (cb_count l0 + 1) = Suc (length ms)" using n assms(2) by (simp add: unat_word_ariths)
  have "wr (cb_methods l0) (uint (cb_count l0)) (Some m) = Some ((cb_methods l0)[length ms := Some m])"
    using n by (simp add: wr_eq uint_nat)
  then have "Append l m = Some (l0\<lparr>cb_methods := (cb_methods l0)[length ms := Some m], cb_count := cb_count l0 + 1\<rparr>)"
    using l0(1) by (simp add: Append_def)
  moreover have "callbacks (l0\<lparr>cb_methods := (cb_methods l0)[length ms := Some m], cb_count := cb_count l0 + 1\<rparr>) (ms @ [m])"
    using l0(2,3) n suc by (auto simp: callbacks_def word_le_nat_alt take_Suc_conv_app_nth)
  ultimately show ?thesis by blast
qed

lemma invoke_loop_ok: "\<forall>m \<in> set ms. method_at sp m \<noteq> None \<Longrightarrow> invoke_loop sp (map Some ms @ r) (length ms) = Some ms"
  by (induction ms) (auto simp: buf_read_eq)

lemma Invoke_ok:
  assumes "callbacks l ms" "length ms < 2 ^ 31" "\<forall>m \<in> set ms. method_at sp m \<noteq> None"
  shows "Invoke sp l = Some ms"
proof -
  have n: "unat (cb_count l) = length ms" "cb_methods l = map Some ms @ drop (length ms) (cb_methods l)"
    using assms(1) append_take_drop_id [of "length ms" "cb_methods l"] unfolding callbacks_def by metis+
  have "nat (sint (cb_count l - 1) + 1) = length ms"
  proof (cases "cb_count l = 0")
    case False
    then have "0 < length ms" using n(1) by (metis unat_gt_0)
    moreover have "cb_count l = of_nat (length ms)" using n(1) by (simp flip: n(1))
    ultimately have "cb_count l - 1 = of_nat (length ms - 1)" by (simp add: of_nat_diff Suc_le_eq)
    then have "sint (cb_count l - 1) = int (length ms - 1)" using sint_item [of "length ms - 1"] assms(2) by simp
    then show ?thesis using \<open>0 < length ms\<close> by simp
  qed (use n in simp)
  then show ?thesis using invoke_loop_ok [OF assms(3)] n(2) unfolding Invoke_def by metis
qed

subsection \<open>Well formed address spaces\<close>

text \<open>
  Every entry leads to an object that exists, names are C strings, and the parent of an object
  exists and is older.
\<close>

definition entries_ok :: "AddressSpace \<Rightarrow> WOscContainer \<Rightarrow> bool" where
  "entries_ok sp x \<longleftrightarrow>
     (\<forall>e \<in> set (m_containerEntries x). container_at sp (ce_container e) \<noteq> None \<and> 0 \<notin> set (ce_name e)) \<and>
     (\<forall>e \<in> set (m_methodEntries x). method_at sp (me_method e) \<noteq> None \<and> 0 \<notin> set (me_name e))"

definition space_ok :: "AddressSpace \<Rightarrow> bool" where
  "space_ok sp \<longleftrightarrow>
     (\<forall>c x. container_at sp c = Some x \<longrightarrow> entries_ok sp x \<and> (\<forall>p. m_parent x = Some p \<longrightarrow> p < c \<and> container_at sp p \<noteq> None)) \<and>
     (\<forall>m p. method_at sp m = Some p \<longrightarrow> container_at sp p \<noteq> None)"

text \<open>What a client can build.\<close>

inductive built :: "AddressSpace \<Rightarrow> bool" where
  empty: "built \<lparr>containers = [], methods = []\<rparr>"
| root: "built sp \<Longrightarrow> WOscContainer_root sp = (c, sp') \<Longrightarrow> built sp'"
| child: "built sp \<Longrightarrow> WOscContainer_child sp parent name = Some (Inr (c, sp')) \<Longrightarrow> built sp'"
| container_alias: "built sp \<Longrightarrow> AddContainerAlias sp c parent name = Some (Inr sp') \<Longrightarrow> built sp'"
| meth: "built sp \<Longrightarrow> WOscMethod_new sp parent name = Some (Inr (m, sp')) \<Longrightarrow> built sp'"
| method_alias: "built sp \<Longrightarrow> method_at sp m \<noteq> None \<Longrightarrow> AddMethodAlias sp m parent name = Some (Inr sp') \<Longrightarrow> built sp'"

lemma container_at_simps:
  "container_at (sp\<lparr>containers := containers sp @ [x]\<rparr>) c = (if c = length (containers sp) then x else container_at sp c)"
  "container_at (sp\<lparr>methods := ms\<rparr>) c = container_at sp c"
  "method_at (sp\<lparr>methods := methods sp @ [y]\<rparr>) m = (if m = length (methods sp) then y else method_at sp m)"
  "method_at (sp\<lparr>containers := cs\<rparr>) m = method_at sp m"
  by (auto simp: container_at_def method_at_def buf_read_def nth_append)

lemma container_at_upd:
  assumes "upd_container sp c f = Some sp'"
  shows "container_at sp' d = (if d = c then map_option f (container_at sp c) else container_at sp d)"
    "method_at sp' = method_at sp" "container_at sp c \<noteq> None"
  using assms by (auto simp: upd_container_def container_at_def method_at_def buf_read_def bind_eq_Some_conv nth_list_update
      split: if_splits intro!: ext)

lemma container_at_length: "container_at sp c \<noteq> None \<Longrightarrow> c < length (containers sp)"
  by (auto simp: container_at_def buf_read_def split: if_splits)

lemma entries_ok_mono:
  "entries_ok sp x \<Longrightarrow> (\<And>c. container_at sp c \<noteq> None \<Longrightarrow> container_at sp' c \<noteq> None) \<Longrightarrow>
   (\<And>m. method_at sp m \<noteq> None \<Longrightarrow> method_at sp' m \<noteq> None) \<Longrightarrow> entries_ok sp' x"
  unfolding entries_ok_def by blast

lemma std_string_ok: "std_string p = Some s \<Longrightarrow> 0 \<notin> set s"
  by (auto simp: std_string_def split: if_splits dest: set_takeWhileD)

lemma space_ok_upd:
  assumes "space_ok sp" "upd_container sp c f = Some sp'" "\<And>x. container_at sp c = Some x \<Longrightarrow> entries_ok sp (f x) \<and> m_parent (f x) = m_parent x"
  shows "space_ok sp'"
proof -
  note at = container_at_upd [OF assms(2)]
  have ex: "\<And>d. container_at sp d \<noteq> None \<Longrightarrow> container_at sp' d \<noteq> None" "\<And>m. method_at sp m \<noteq> None \<Longrightarrow> method_at sp' m \<noteq> None"
    using at by auto
  have "entries_ok sp' x \<and> (\<forall>p. m_parent x = Some p \<longrightarrow> p < d \<and> container_at sp' p \<noteq> None)" if d: "container_at sp' d = Some x" for d x
  proof -
    obtain y where y: "container_at sp d = Some y" "x = (if d = c then f y else y)"
      using d at(1) [of d] at(3) by (cases "d = c") auto
    then have y: "container_at sp d = Some y" "m_parent x = m_parent y" "entries_ok sp x"
      using assms(1,3) unfolding space_ok_def by (cases "d = c"; simp)+
    then show ?thesis using assms(1) ex entries_ok_mono [OF y(3)] unfolding space_ok_def by metis
  qed
  then show ?thesis using assms(1) at(2) ex(1) unfolding space_ok_def by metis
qed

lemma space_ok_AddContainer:
  assumes "space_ok sp" "AddContainer sp p c name b = Some sp'" "container_at sp c \<noteq> None"
  shows "space_ok sp'"
proof -
  obtain s where s: "std_string name = Some s"
      "upd_container sp p (\<lambda>x. x\<lparr>m_containerEntries := m_containerEntries x @ [\<lparr>ce_container = c, ce_name = s, ce_isAlias = b\<rparr>]\<rparr>) = Some sp'"
    using assms(2) by (auto simp: AddContainer_def bind_eq_Some_conv)
  show ?thesis
    by (rule space_ok_upd [OF assms(1) s(2)]) (use assms std_string_ok [OF s(1)] in \<open>auto simp: space_ok_def entries_ok_def\<close>)
qed

lemma space_ok_AddMethod:
  assumes "space_ok sp" "AddMethod sp p m name b = Some sp'" "method_at sp m \<noteq> None"
  shows "space_ok sp'"
proof -
  obtain s where s: "std_string name = Some s"
      "upd_container sp p (\<lambda>x. x\<lparr>m_methodEntries := m_methodEntries x @ [\<lparr>me_method = m, me_name = s, me_isAlias = b\<rparr>]\<rparr>) = Some sp'"
    using assms(2) by (auto simp: AddMethod_def bind_eq_Some_conv)
  show ?thesis
    by (rule space_ok_upd [OF assms(1) s(2)]) (use assms std_string_ok [OF s(1)] in \<open>auto simp: space_ok_def entries_ok_def\<close>)
qed

lemma space_ok_new_container:
  assumes "space_ok sp" "parent = None \<or> (\<exists>p. parent = Some p \<and> container_at sp p \<noteq> None)"
  shows "space_ok (sp\<lparr>containers := containers sp @ [Some \<lparr>m_parent = parent, m_containerEntries = [], m_methodEntries = []\<rparr>]\<rparr>)"
    (is "space_ok ?sp")
proof -
  have ex: "\<And>d. container_at sp d \<noteq> None \<Longrightarrow> container_at ?sp d \<noteq> None" "\<And>m. method_at sp m \<noteq> None \<Longrightarrow> method_at ?sp m \<noteq> None"
    by (auto simp: container_at_simps dest: container_at_length)
  have "entries_ok ?sp x \<and> (\<forall>p. m_parent x = Some p \<longrightarrow> p < d \<and> container_at ?sp p \<noteq> None)" if d: "container_at ?sp d = Some x" for d x
  proof (cases "d = length (containers sp)")
    case True
    then have "x = \<lparr>m_parent = parent, m_containerEntries = [], m_methodEntries = []\<rparr>" using d by (simp add: container_at_simps)
    then show ?thesis using True assms(2) ex(1) container_at_length unfolding entries_ok_def by auto
  next
    case False
    then have "container_at sp d = Some x" using d by (simp add: container_at_simps)
    then show ?thesis using assms(1) ex entries_ok_mono [of sp x ?sp] unfolding space_ok_def by blast
  qed
  then show ?thesis using assms(1) ex(1) unfolding space_ok_def by (simp add: container_at_simps)
qed

lemma space_ok_new_method:
  assumes "space_ok sp" "container_at sp p \<noteq> None"
  shows "space_ok (sp\<lparr>methods := methods sp @ [Some p]\<rparr>)" (is "space_ok ?sp")
proof -
  have "\<And>m. method_at sp m \<noteq> None \<Longrightarrow> method_at ?sp m \<noteq> None" by (auto simp: container_at_simps)
  then have "\<And>x. entries_ok sp x \<Longrightarrow> entries_ok ?sp x" by (auto simp: entries_ok_def container_at_simps)
  then show ?thesis using assms by (auto simp: space_ok_def container_at_simps)
qed

lemma built_ok: "built sp \<Longrightarrow> space_ok sp"
proof (induction rule: built.induct)
  case empty
  then show ?case by (simp add: space_ok_def container_at_def method_at_def buf_read_def)
next
  case (root sp c sp')
  then show ?case using space_ok_new_container [of sp None] by (auto simp: WOscContainer_root_def)
next
  case (child sp parent name c sp')
  then obtain p where p: "container_at sp p \<noteq> None"
      "AddContainer (sp\<lparr>containers := containers sp @ [Some \<lparr>m_parent = Some p, m_containerEntries = [], m_methodEntries = []\<rparr>]\<rparr>)
        p (length (containers sp)) name False = Some sp'"
    by (auto simp: WOscContainer_child_def Let_def bind_eq_Some_conv split: option.splits)
  show ?case
    by (rule space_ok_AddContainer [OF space_ok_new_container p(2)]) (use child.IH p(1) in \<open>auto simp: container_at_simps\<close>)
next
  case (container_alias sp c parent name sp')
  then obtain p where "AddContainer sp p c name True = Some sp'" "container_at sp c \<noteq> None"
    by (auto simp: AddContainerAlias_def bind_eq_Some_conv split: if_splits option.splits)
  then show ?case using space_ok_AddContainer container_alias.IH by blast
next
  case (meth sp parent name m sp')
  then obtain p where p: "AddMethod (sp\<lparr>methods := methods sp @ [Some p]\<rparr>) p (length (methods sp)) name False = Some sp'"
    by (auto simp: WOscMethod_new_def Let_def bind_eq_Some_conv split: option.splits)
  then have "container_at sp p \<noteq> None"
    using container_at_upd(3) by (fastforce simp: AddMethod_def bind_eq_Some_conv container_at_simps)
  then show ?case
    by (intro space_ok_AddMethod [OF space_ok_new_method p]) (use meth.IH in \<open>auto simp: container_at_simps\<close>)
next
  case (method_alias sp m parent name sp')
  then show ?case using space_ok_AddMethod [OF _ _ method_alias.hyps(2)] by (auto simp: AddMethodAlias_def split: option.splits)
qed

subsection \<open>The methods that a message reaches\<close>

definition name_matches :: "byte list \<Rightarrow> byte list \<Rightarrow> bool" where
  "name_matches part name \<longleftrightarrow> PatternMatch (c_str part) (c_str name) = Some True"

text \<open>\<open>reaches sp c ns m\<close>: the names \<open>ns\<close> lead from the container \<open>c\<close> to the method \<open>m\<close>.\<close>

inductive reaches :: "AddressSpace \<Rightarrow> nat \<Rightarrow> byte list list \<Rightarrow> nat \<Rightarrow> bool" where
  leaf: "container_at sp c = Some x \<Longrightarrow> e \<in> set (m_methodEntries x) \<Longrightarrow> reaches sp c [me_name e] (me_method e)"
| inner: "container_at sp c = Some x \<Longrightarrow> e \<in> set (m_containerEntries x) \<Longrightarrow> reaches sp (ce_container e) ns m \<Longrightarrow>
    reaches sp c (ce_name e # ns) m"

inductive_simps reaches_simps: "reaches sp c [] m" "reaches sp c (n # ns) m"

text \<open>The order of the calls: the last entry first.\<close>

definition method_entries :: "AddressSpace \<Rightarrow> nat \<Rightarrow> WOscMethodEntry list" where
  "method_entries sp c = (case container_at sp c of None \<Rightarrow> [] | Some x \<Rightarrow> rev (m_methodEntries x))"

definition container_entries :: "AddressSpace \<Rightarrow> nat \<Rightarrow> WOscContainerEntry list" where
  "container_entries sp c = (case container_at sp c of None \<Rightarrow> [] | Some x \<Rightarrow> rev (m_containerEntries x))"

fun calls :: "AddressSpace \<Rightarrow> nat \<Rightarrow> byte list list \<Rightarrow> nat list" where
  "calls sp c [] = []"
| "calls sp c [s] = map me_method (filter (\<lambda>e. name_matches s (me_name e)) (method_entries sp c))"
| "calls sp c (s # t # ss) =
     concat (map (\<lambda>e. calls sp (ce_container e) (t # ss)) (filter (\<lambda>e. name_matches s (ce_name e)) (container_entries sp c)))"

lemma reaches_nonempty: "reaches sp c ns m \<Longrightarrow> ns \<noteq> []"
  by (induction rule: reaches.induct) simp_all

lemma set_calls:
  "parts \<noteq> [] \<Longrightarrow> set (calls sp c parts) = {m. \<exists>ns. reaches sp c ns m \<and> list_all2 name_matches parts ns}"
proof (induction sp c parts rule: calls.induct)
  case (2 sp c s)
  have "m \<in> set (calls sp c [s]) \<longleftrightarrow> (\<exists>n. reaches sp c [n] m \<and> name_matches s n)" for m
    by (cases "container_at sp c") (force simp: method_entries_def reaches_simps)+
  then show ?case by (auto simp: list_all2_Cons1)
next
  case (3 sp c s t ss)
  have step: "reaches sp c (n # ns) m \<longleftrightarrow> (\<exists>e \<in> set (container_entries sp c). ce_name e = n \<and> reaches sp (ce_container e) ns m)"
    if "ns \<noteq> []" for n ns m
    using that by (cases "container_at sp c") (force simp: container_entries_def reaches_simps dest: reaches_nonempty)+
  have "m \<in> set (calls sp c (s # t # ss)) \<longleftrightarrow> (\<exists>ns. reaches sp c ns m \<and> list_all2 name_matches (s # t # ss) ns)" for m
  proof
    assume "m \<in> set (calls sp c (s # t # ss))"
    then obtain e where e: "e \<in> set (container_entries sp c)" "name_matches s (ce_name e)" "m \<in> set (calls sp (ce_container e) (t # ss))"
      by auto
    then obtain ns where "reaches sp (ce_container e) ns m" "list_all2 name_matches (t # ss) ns" using 3 by auto
    then show "\<exists>ns. reaches sp c ns m \<and> list_all2 name_matches (s # t # ss) ns"
      using step [of ns "ce_name e" m] e(1,2) by (intro exI [of _ "ce_name e # ns"]) (auto dest: reaches_nonempty)
  next
    assume "\<exists>ns. reaches sp c ns m \<and> list_all2 name_matches (s # t # ss) ns"
    then obtain n ns where n: "reaches sp c (n # ns) m" "name_matches s n" "list_all2 name_matches (t # ss) ns"
      by (auto simp: list_all2_Cons1)
    then obtain e where e: "e \<in> set (container_entries sp c)" "ce_name e = n" "reaches sp (ce_container e) ns m"
      using step [of ns n m] by (auto simp: list_all2_Cons1)
    then have "m \<in> set (calls sp (ce_container e) (t # ss))" using 3 n by auto
    then show "m \<in> set (calls sp c (s # t # ss))" using e n by auto
  qed
  then show ?case by blast
qed simp

fun slashed :: "byte list list \<Rightarrow> byte list" where
  "slashed [] = []"
| "slashed [s] = s"
| "slashed (s # t # ss) = s @ chr CHR ''/'' # slashed (t # ss)"

definition part_ok :: "byte list \<Rightarrow> bool" where
  "part_ok s \<longleftrightarrow> 0 \<notin> set s \<and> chr CHR ''/'' \<notin> set s"

lemma NextSlashOrNull_at: "part_ok s \<Longrightarrow> c = 0 \<or> c = chr CHR ''/'' \<Longrightarrow> NextSlashOrNull (s @ c # r) = Some (c # r)"
proof -
  assume "part_ok s" "c = 0 \<or> c = chr CHR ''/''"
  then have "dropWhile (\<lambda>c. c \<noteq> chr CHR ''/'' \<and> c \<noteq> 0) (s @ c # r) = c # r"
    by (subst dropWhile_append2) (auto simp: part_ok_def)
  then show ?thesis by (simp add: NextSlashOrNull_def)
qed

lemma match_name:
  assumes "0 \<notin> set n"
  shows "PatternMatch (s @ 0 # r) (c_str n) = Some (name_matches s n)"
proof -
  obtain b where b: "PatternMatch (c_str s) (c_str n) = Some b"
    using returns(1) [of "c_str s" "c_str n"] by (auto simp: c_str_def)
  have "PatternMatch (c_str s @ r) (c_str n @ []) = Some b" by (rule defined_leD [OF more_memory(1) b])
  then show ?thesis using b by (simp add: c_str_def name_matches_def)
qed

lemma append_matching_ok:
  assumes "callbacks l ms" "\<forall>e \<in> set es. 0 \<notin> set (me_name e)"
    and "length ms + length (filter (\<lambda>e. name_matches s (me_name e)) es) < 2 ^ 31"
  shows "\<exists>l'. append_matching es l (s @ 0 # r) = Some l' \<and>
    callbacks l' (ms @ map me_method (filter (\<lambda>e. name_matches s (me_name e)) es))"
  using assms
proof (induction es arbitrary: l ms)
  case (Cons e es)
  obtain l1 where l1: "(if name_matches s (me_name e) then Append l (me_method e) else Some l) = Some l1"
      "callbacks l1 (ms @ (if name_matches s (me_name e) then [me_method e] else []))"
    using Append_ok [OF Cons.prems(1), of "me_method e"] Cons.prems by (cases "name_matches s (me_name e)") auto
  obtain l' where "append_matching es l1 (s @ 0 # r) = Some l'"
      "callbacks l' ((ms @ (if name_matches s (me_name e) then [me_method e] else [])) @ map me_method (filter (\<lambda>e. name_matches s (me_name e)) es))"
    using Cons.IH [OF l1(2)] Cons.prems by (auto split: if_splits)
  then show ?case using l1(1) Cons.prems(2) by (auto simp: match_name split: if_splits)
qed simp

lemma dispatch_children_ok:
  assumes "callbacks l ms" "\<forall>e \<in> set es. 0 \<notin> set (ce_name e)"
    and "length ms + length (concat (map (\<lambda>e. f (ce_container e)) (filter (\<lambda>e. name_matches s (ce_name e)) es))) < 2 ^ 31"
    and "\<And>e l ms. e \<in> set es \<Longrightarrow> name_matches s (ce_name e) \<Longrightarrow> callbacks l ms \<Longrightarrow> length ms + length (f (ce_container e)) < 2 ^ 31 \<Longrightarrow>
      \<exists>l'. DispatchSubMessage sp (ce_container e) l rest = Some l' \<and> callbacks l' (ms @ f (ce_container e))"
  shows "\<exists>l'. dispatch_children sp es l (s @ 0 # r) rest = Some l' \<and>
    callbacks l' (ms @ concat (map (\<lambda>e. f (ce_container e)) (filter (\<lambda>e. name_matches s (ce_name e)) es)))"
  using assms
proof (induction es arbitrary: l ms)
  case (Cons e es)
  let ?now = "if name_matches s (ce_name e) then f (ce_container e) else []"
  obtain l1 where l1: "(if name_matches s (ce_name e) then DispatchSubMessage sp (ce_container e) l rest else Some l) = Some l1"
      "callbacks l1 (ms @ ?now)"
    using Cons.prems(4) [of e l ms] Cons.prems(1,3) by (cases "name_matches s (ce_name e)") auto
  obtain l' where "dispatch_children sp es l1 (s @ 0 # r) rest = Some l'"
      "callbacks l' ((ms @ ?now) @ concat (map (\<lambda>e. f (ce_container e)) (filter (\<lambda>e. name_matches s (ce_name e)) es)))"
    using Cons.IH [OF l1(2)] Cons.prems(2-4) by (auto split: if_splits)
  then show ?case using l1(1) Cons.prems(2) by (auto simp: match_name split: if_splits)
qed simp

lemma DispatchSubMessage_ok:
  assumes "space_ok sp" "container_at sp c \<noteq> None" "parts \<noteq> []" "list_all part_ok parts" "callbacks l ms"
    and "length ms + length (calls sp c parts) < 2 ^ 31"
  shows "\<exists>l'. DispatchSubMessage sp c l (slashed parts @ 0 # r) = Some l' \<and> callbacks l' (ms @ calls sp c parts)"
  using assms
proof (induction sp c parts arbitrary: l ms rule: calls.induct)
  case (2 sp c s)
  then obtain x where x: "container_at sp c = Some x" "entries_ok sp x" unfolding space_ok_def by blast
  show ?case
    using append_matching_ok [of l ms "rev (m_methodEntries x)" s r] 2 x
    by (subst DispatchSubMessage.simps) (simp add: NextSlashOrNull_at method_entries_def entries_ok_def)
next
  case (3 sp c s t ss)
  then obtain x where x: "container_at sp c = Some x" "entries_ok sp x" unfolding space_ok_def by blast
  let ?rest = "slashed (t # ss) @ 0 # r"
  have "(s @ chr CHR ''/'' # ?rest)[length s := 0] = s @ 0 # ?rest" by (simp add: list_update_append)
  moreover have "\<exists>l'. dispatch_children sp (rev (m_containerEntries x)) l (s @ 0 # ?rest) ?rest = Some l' \<and>
      callbacks l' (ms @ calls sp c (s # t # ss))"
    unfolding calls.simps container_entries_def x(1) option.case
  proof (rule dispatch_children_ok [OF "3.prems"(5), where f = "\<lambda>d. calls sp d (t # ss)"])
    show "\<forall>e \<in> set (rev (m_containerEntries x)). 0 \<notin> set (ce_name e)" using x(2) by (simp add: entries_ok_def)
  next
    fix e l ms
    assume e: "e \<in> set (rev (m_containerEntries x))" "name_matches s (ce_name e)" "callbacks l ms" "length ms + length (calls sp (ce_container e) (t # ss)) < 2 ^ 31"
    have "container_at sp (ce_container e) \<noteq> None" "e \<in> set (filter (\<lambda>e. name_matches s (ce_name e)) (container_entries sp c))"
      using x e(1,2) by (simp_all add: entries_ok_def container_entries_def)
    then show "\<exists>l'. DispatchSubMessage sp (ce_container e) l ?rest = Some l' \<and> callbacks l' (ms @ calls sp (ce_container e) (t # ss))"
      using "3.IH" "3.prems"(1,4) e(3,4) by simp
  qed (use "3.prems"(6) x(1) in \<open>simp add: container_entries_def\<close>)
  ultimately show ?case using "3.prems"(4) x(1) by (subst DispatchSubMessage.simps) (simp add: NextSlashOrNull_at)
qed simp

lemma calls_live: "space_ok sp \<Longrightarrow> m \<in> set (calls sp c parts) \<Longrightarrow> method_at sp m \<noteq> None"
proof (induction sp c parts rule: calls.induct)
  case (2 sp c s)
  then show ?case unfolding space_ok_def entries_ok_def by (cases "container_at sp c") (auto simp: method_entries_def)
next
  case (3 sp c s t ss)
  then show ?case by auto
qed simp

lemma no_zero_slashed: "list_all part_ok parts \<Longrightarrow> 0 \<notin> set (slashed parts)"
  by (induction parts rule: slashed.induct) (auto simp: part_ok_def)

lemma DispatchMessage_ok:
  assumes "space_ok sp" "container_at sp root = Some x" "m_parent x = None" "callbacks l []"
    and "parts \<noteq> []" "list_all part_ok parts" "length (calls sp root parts) < 2 ^ 31"
  shows "\<exists>l'. DispatchMessage sp root l (osc_message (chr CHR ''/'' # slashed parts) args) = Some (Inr l') \<and> callbacks l' (calls sp root parts)"
proof -
  let ?addr = "chr CHR ''/'' # slashed parts"
  have "length ?addr mod 4 < 4" by simp
  then obtain k where "4 - length ?addr mod 4 = Suc k" by (metis Suc_diff_Suc diff_zero)
  then have pad: "pad ?addr = chr CHR ''/'' # slashed parts @ 0 # replicate k 0" by (simp add: pad_def)
  obtain l' where l': "DispatchSubMessage sp root l (slashed parts @ 0 # replicate k 0) = Some l'" "callbacks l' (calls sp root parts)"
    using DispatchSubMessage_ok [of sp root parts l "[]" "replicate k 0"] assms by auto
  have "str_buffer (m_address (osc_message ?addr args)) = Some (chr CHR ''/'' # slashed parts @ 0 # replicate k 0)"
    using pad by (simp add: osc_message_def osc_string_def)
  then show ?thesis using l' assms(2,3) by (simp add: DispatchMessage_def rd_eq)
qed

subsection \<open>Messages\<close>

text \<open>C10: In every address space that a client can build, a message is dispatched to exactly the
  methods whose names on a way from the root match the parts of its address one by one; they are
  called once for each way, none of them is deleted, and a message that nothing matches goes to the
  handler for such messages.\<close>

theorem message_dispatched:
  assumes "built sp" "container_at sp root = Some x" "m_parent x = None"
    and "m_addrSpaceRootContainer rcv = Some root" "callbacks (m_callbackList rcv) old" "allocates new"
    and "parts \<noteq> []" "list_all part_ok parts" "plain_args args"
    and "packet = message_bytes (chr CHR ''/'' # slashed parts) args" "length packet < 2 ^ 31"
    and "length (calls sp root parts) < 2 ^ 31"
  shows "\<exists>rcv'. ProcessMessage new sp rcv packet 0 (of_nat (length packet)) =
      Some (Inr (if calls sp root parts = [] then Nonmatched else Invoked (calls sp root parts), rcv')) \<and>
    set (calls sp root parts) = {m. \<exists>ns. reaches sp root ns m \<and> list_all2 name_matches parts ns} \<and>
    (\<forall>m \<in> set (calls sp root parts). method_at sp m \<noteq> None) \<and>
    m_addrSpaceRootContainer rcv' = Some root \<and> callbacks (m_callbackList rcv') (calls sp root parts)"
proof -
  let ?addr = "chr CHR ''/'' # slashed parts" and ?calls = "calls sp root parts"
  have ok: "space_ok sp" by (rule built_ok [OF assms(1)])
  have read: "WOscMessage_read new packet 0 (ilength packet) = Some (Inr (osc_message ?addr args))"
    using WOscMessage_read_ok [of new packet "[]" ?addr args "[]" 0 "ilength packet"] no_zero_slashed [OF assms(8)] assms(6,9,10)
    by simp
  have len: "sint (of_nat (length packet) :: 32 word) = ilength packet" by (rule sint_item [OF assms(11)])
  obtain l' where l': "DispatchMessage sp root (callback_Reset (m_callbackList rcv)) (osc_message ?addr args) = Some (Inr l')"
      "callbacks l' ?calls"
    using DispatchMessage_ok [OF ok assms(2,3) callbacks_Reset [OF assms(5)] assms(7,8,12)] by blast
  have live: "\<forall>m \<in> set ?calls. method_at sp m \<noteq> None" using calls_live [OF ok] by blast
  have "GetCount l' = 0 \<longleftrightarrow> ?calls = []" using l'(2) unat_eq_zero [of "cb_count l'"] by (auto simp: callbacks_def GetCount_def)
  moreover have "Invoke sp l' = Some ?calls" by (rule Invoke_ok [OF l'(2) assms(12) live])
  ultimately have "ProcessMessage new sp rcv packet 0 (of_nat (length packet)) =
      Some (Inr (if ?calls = [] then Nonmatched else Invoked ?calls, rcv\<lparr>m_callbackList := l'\<rparr>))"
    using read len l'(1) assms(4) by (simp add: ProcessMessage_def)
  then show ?thesis
    using set_calls [OF assms(7)] live l'(2) assms(4) by (intro exI [of _ "rcv\<lparr>m_callbackList := l'\<rparr>"]) auto
qed

text \<open>A root with a container \<open>a\<close> and its alias \<open>b\<close>, in which there is a method \<open>m\<close>.\<close>

definition zero_string :: "string \<Rightarrow> byte list" where
  "zero_string s = c_str (str_bytes s)"

definition small_space :: "AddressSpace option" where
  "small_space = do {
     let (r, sp) = WOscContainer_root \<lparr>containers = [], methods = []\<rparr>;
     (a, sp) \<leftarrow> uncaught (WOscContainer_child sp (Some r) (zero_string ''a''));
     (m, sp) \<leftarrow> uncaught (WOscMethod_new sp (Some a) (zero_string ''m''));
     uncaught (AddContainerAlias sp a (Some r) (zero_string ''b''))
   }"

lemma uncaught_Some: "uncaught r = Some x \<longleftrightarrow> r = Some (Inr x)"
  by (auto simp: uncaught_def split: option.split sum.split)

lemma small_space_built:
  assumes "small_space = Some sp"
  shows "built sp"
proof -
  obtain r sp1 a sp2 m sp3 where steps: "WOscContainer_root \<lparr>containers = [], methods = []\<rparr> = (r, sp1)"
      "WOscContainer_child sp1 (Some r) (zero_string ''a'') = Some (Inr (a, sp2))"
      "WOscMethod_new sp2 (Some a) (zero_string ''m'') = Some (Inr (m, sp3))"
      "AddContainerAlias sp3 a (Some r) (zero_string ''b'') = Some (Inr sp)"
    using assms by (auto simp: small_space_def Let_def bind_eq_Some_conv uncaught_Some split: prod.splits)
  show ?thesis
    by (rule built.container_alias [OF built.meth [OF built.child [OF built.root [OF built.empty steps(1)] steps(2)] steps(3)] steps(4)])
qed

lemma small_space_value:
  "small_space = Some \<lparr>containers =
     [Some \<lparr>m_parent = None, m_containerEntries = [\<lparr>ce_container = 1, ce_name = [97], ce_isAlias = False\<rparr>,
        \<lparr>ce_container = 1, ce_name = [98], ce_isAlias = True\<rparr>], m_methodEntries = []\<rparr>,
      Some \<lparr>m_parent = Some 0, m_containerEntries = [], m_methodEntries = [\<lparr>me_method = 0, me_name = [109], me_isAlias = False\<rparr>]\<rparr>],
     methods = [Some 1]\<rparr>"
  by code_simp

definition some_space :: AddressSpace where
  "some_space = (case small_space of Some sp \<Rightarrow> sp)"

lemma some_space_calls: "calls some_space 0 [str_bytes ''*'', str_bytes ''m''] = [0, 0]"
  by code_simp

lemma message_dispatched_witness:
  "\<exists>rcv'. ProcessMessage (\<lambda>n. replicate (nat n) 0) some_space
      \<lparr>m_addrSpaceRootContainer = Some 0, m_callbackList = WOscCallbackList_new 1\<rparr>
      (message_bytes (str_bytes ''/*/m'') [AInt 5]) 0 (of_nat (length (message_bytes (str_bytes ''/*/m'') [AInt 5]))) =
    Some (Inr (Invoked [0, 0], rcv'))"
proof -
  let ?rcv = "\<lparr>m_addrSpaceRootContainer = Some 0, m_callbackList = WOscCallbackList_new 1\<rparr>"
  let ?parts = "[str_bytes ''*'', str_bytes ''m'']"
  have addr: "str_bytes ''/*/m'' = chr CHR ''/'' # slashed ?parts" by (simp add: str_bytes_def)
  have "small_space = Some some_space" by (simp add: some_space_def small_space_value)
  then have b: "built some_space" by (rule small_space_built)
  obtain x where x: "container_at some_space 0 = Some x" "m_parent x = None"
    by (simp add: some_space_def small_space_value container_at_def buf_read_def)
  have "list_all part_ok ?parts" by (simp add: part_ok_def str_bytes_def)
  moreover have "length (message_bytes (chr CHR ''/'' # slashed ?parts) [AInt 5]) < 2 ^ 31"
    by (simp add: message_bytes_def arg_simps pad_def str_bytes_def type_tag_def)
  moreover have "allocates (\<lambda>n. replicate (nat n) 0)" by (simp add: allocates_def)
  moreover have "plain_args [AInt 5]" by (simp add: plain_args_def strings_of_def)
  moreover have "callbacks (m_callbackList ?rcv) []" by (simp add: callbacks_new)
  ultimately obtain rcv' where "ProcessMessage (\<lambda>n. replicate (nat n) 0) some_space ?rcv
      (message_bytes (chr CHR ''/'' # slashed ?parts) [AInt 5]) 0
      (of_nat (length (message_bytes (chr CHR ''/'' # slashed ?parts) [AInt 5]))) = Some (Inr (Invoked [0, 0], rcv'))"
    using message_dispatched [OF b x, of ?rcv "[]" "\<lambda>n. replicate (nat n) 0" ?parts "[AInt 5]"
      "message_bytes (chr CHR ''/'' # slashed ?parts) [AInt 5]"] some_space_calls
    by (auto simp del: calls.simps slashed.simps)
  then show ?thesis unfolding addr by blast
qed

subsection \<open>What does not work\<close>

text \<open>\<open>FindContainer\<close> compares one character more than the name has, so it finds children of the
  container it is called on only.\<close>

lemma strncmp_slash:
  "chr CHR ''/'' \<notin> set n \<Longrightarrow> part_ok s \<Longrightarrow> strncmp_equal (n @ [0]) (s @ chr CHR ''/'' # r) (Suc (length s)) = Some False"
proof (induction s arbitrary: n)
  case Nil
  then show ?case by (cases n) (auto simp: rd_eq)
next
  case (Cons c s)
  then show ?case by (cases n) (auto simp: rd_eq part_ok_def)
qed

lemma inner_container_not_found:
  assumes "space_ok sp" "container_at sp c = Some x" "\<forall>e \<in> set (m_containerEntries x). chr CHR ''/'' \<notin> set (ce_name e)"
    and "part_ok s" "0 \<notin> set r"
  shows "FindContainer sp c (chr CHR ''/'' # s @ chr CHR ''/'' # r @ [0]) = Some None"
proof -
  let ?rest = "chr CHR ''/'' # r @ [0]"
  have "find_in_children sp es (s @ ?rest) (Suc (length s)) ?rest = Some None"
    if "\<forall>e \<in> set es. chr CHR ''/'' \<notin> set (ce_name e)" for es
    using that strncmp_slash [OF _ assms(4), of _ "r @ [0]"] by (induction es) (simp_all add: c_str_def)
  then have "find_in_children sp (rev (m_containerEntries x)) (s @ ?rest) (Suc (length s)) ?rest = Some None"
    using assms(3) by simp
  moreover have "strlen (chr CHR ''/'' # s @ ?rest) 0 = Some (2 + ilength s + ilength r)"
    using assms(4,5) strlen_at [of "chr CHR ''/'' # s @ ?rest" 0 "chr CHR ''/'' # s @ chr CHR ''/'' # r"]
    by (simp add: string_at_def part_ok_def)
  ultimately show ?thesis
    using assms(2,4) by (subst FindContainer.simps) (simp add: NextSlashOrNull_at)
qed

text \<open>Below the first level the address of a container lacks the slashes between the names.\<close>

definition nested_space :: "AddressSpace option" where
  "nested_space = do {
     let (r, sp) = WOscContainer_root \<lparr>containers = [], methods = []\<rparr>;
     (a, sp) \<leftarrow> uncaught (WOscContainer_child sp (Some r) (zero_string ''a''));
     (b, sp) \<leftarrow> uncaught (WOscContainer_child sp (Some a) (zero_string ''b''));
     (m, sp) \<leftarrow> uncaught (WOscMethod_new sp (Some b) (zero_string ''m''));
     Some sp
   }"

lemma container_address_without_slash:
  "do { sp \<leftarrow> nested_space; container_GetAddress (\<lambda>n. replicate (nat n) 0) sp 2 } = Some (osc_string (str_bytes ''/ab/''))"
  "do { sp \<leftarrow> nested_space; method_GetAddress (\<lambda>n. replicate (nat n) 0) sp 0 } = Some (osc_string (str_bytes ''/a/b/m''))"
  by code_simp+

text \<open>The destructor of a container looks for aliases in the whole tree, also in siblings that
  are already deleted.\<close>

definition two_containers :: "AddressSpace option" where
  "two_containers = do {
     let (r, sp) = WOscContainer_root \<lparr>containers = [], methods = []\<rparr>;
     (a, sp) \<leftarrow> uncaught (WOscContainer_child sp (Some r) (zero_string ''a''));
     (b, sp) \<leftarrow> uncaught (WOscContainer_child sp (Some r) (zero_string ''b''));
     (m, sp) \<leftarrow> uncaught (WOscMethod_new sp (Some a) (zero_string ''m''));
     Some sp
   }"

lemma RemoveAll_uses_deleted:
  "case two_containers of None \<Rightarrow> False | Some sp \<Rightarrow> RemoveAll sp 0 = None"
  by code_simp

text \<open>\<open>RemoveContainer\<close> and \<open>RemoveMethod\<close> leave the aliases of what they delete.\<close>

lemma removed_container_dispatched:
  "case do { sp \<leftarrow> small_space; RemoveContainer sp 0 (zero_string ''a'') } of None \<Rightarrow> False
   | Some (b, sp) \<Rightarrow> b \<and> DispatchSubMessage sp 0 (WOscCallbackList_new 32) (zero_string ''b/m'') = None"
  by code_simp

text \<open>\<open>RecursivelyRemoveAliases\<close> for a method also follows aliases: one that leads back up keeps it
  busy forever.\<close>

lemma alias_cycle:
  "case do { sp \<leftarrow> nested_space; uncaught (AddContainerAlias sp 1 (Some 2) (zero_string ''c'')) } of None \<Rightarrow> False
   | Some sp \<Rightarrow> RecursivelyRemoveAliases_method sp 0 0 = None"
  by code_simp

lemma SetAddressSpace_null: "SetAddressSpace sp rcv None = None"
  by (simp add: SetAddressSpace_def)

end
