(* ===== verification/OscTcp.thy ===== *)
theory OscTcp
  imports OscBytes
begin

text \<open>
  \<^verbatim>\<open>wosclib/WOscTcpHandler.cpp\<close> and \<^verbatim>\<open>WOscTcpClient.cpp\<close>, which are compiled on Unix hosts: packets
  over a stream, each behind its length in four bytes. The results of the system calls are parameters;
  what a call sends and which sockets are closed is recorded. \<open>int\<close> has 32 bits.
\<close>

datatype Error = WOS_ERR_NO_ERROR | WOS_ERR_ALREADY_RUNNING | WOS_ERR_ALREADY_CONNECTED | WOS_ERR_SOCKET_CREATE
  | WOS_ERR_SOCKET_CONNECT | WOS_ERR_CREATE_RX_THREAD | WOS_ERR_NO_SOCKET | WOS_ERR_CONNECTION_LOST
  | WOS_ERR_ALREADY_CLOSED | WOS_ERR_CONNECTION_CLOSED | WOS_ERR_CONNECTION_FAILURE | WOS_ERR_NOT_WHEN_THREADING
  | WOS_ERR_CAN_NOT_SET_NONBLOCKING | WOS_ERR_INVALID_SOCKET | WOS_ERR_USER

text \<open>\<open>WOS_ERR_DISCONNECTED = WOS_ERR_ALREADY_CLOSED\<close>\<close>

definition WOS_ERR_DISCONNECTED :: Error where "WOS_ERR_DISCONNECTED = WOS_ERR_ALREADY_CLOSED"

subsection \<open>State\<close>

record SelectRxState =
  m_isRxPacketLen :: bool
  m_nReceived :: int
  m_packetLen :: "32 word"
  m_packetData :: "byte list option"

definition select_Init :: "SelectRxState \<Rightarrow> SelectRxState" where
  "select_Init s = s\<lparr>m_packetData := None, m_isRxPacketLen := True, m_nReceived := 0\<rparr>"

text \<open>\<open>packetLen\<close> is the uninitialised \<open>m_packetLen\<close>.\<close>

definition SelectRxState_new :: "32 word \<Rightarrow> SelectRxState" where
  "SelectRxState_new packetLen = \<lparr>m_isRxPacketLen = True, m_nReceived = 0, m_packetLen = packetLen, m_packetData = None\<rparr>"

record WOscTcpHandler =
  m_threading :: bool
  m_receptionThreadID :: "64 word"
  m_socketID :: int
  m_selectState :: SelectRxState

definition WOscTcpHandler_new :: "32 word \<Rightarrow> bool \<Rightarrow> WOscTcpHandler" where
  "WOscTcpHandler_new packetLen threading =
     \<lparr>m_threading = threading, m_receptionThreadID = 0, m_socketID = - 1, m_selectState = SelectRxState_new packetLen\<rparr>"

definition GetRxThreadID :: "WOscTcpHandler \<Rightarrow> int" where
  "GetRxThreadID h = sint (ucast (m_receptionThreadID h) :: 32 word)"

subsection \<open>Byte order\<close>

text \<open>\<open>htonl\<close> and \<open>ntohl\<close> on a little endian host.\<close>

definition swap_bytes :: "32 word \<Rightarrow> 32 word" where
  "swap_bytes w = object_of_bytes (rev (object_bytes w))"

subsection \<open>Sending\<close>

text \<open>The results of \<open>send\<close>, in order, and the bytes that it has taken; no result left means that
  the call blocks.\<close>

fun send_loop :: "byte list \<Rightarrow> int \<Rightarrow> int \<Rightarrow> int list \<Rightarrow> byte list \<Rightarrow> (int \<times> int list \<times> byte list) option" where
  "send_loop buffer n nSent results wire =
     (if n - nSent > 0 then
        (case results of
           [] \<Rightarrow> None
         | tmp # results \<Rightarrow>
             if tmp \<le> 0 then Some (- 1, results, wire)
             else do {
               c_assert (tmp \<le> n - nSent);
               bs \<leftarrow> mem_read buffer nSent tmp;
               send_loop buffer n (nSent + tmp) results (wire @ bs)
             })
      else Some (nSent, results, wire))"

declare send_loop.simps [simp del]

definition wosc_send_over_socket :: "byte list \<Rightarrow> int \<Rightarrow> int list \<Rightarrow> (int \<times> int list \<times> byte list) option" where
  "wosc_send_over_socket buffer n results = send_loop buffer n 0 results []"

definition NetworkSend :: "WOscTcpHandler \<Rightarrow> byte list \<Rightarrow> int \<Rightarrow> int list \<Rightarrow> (Error \<times> byte list) option" where
  "NetworkSend h data dataLen results =
     (if m_socketID h < 0 then Some (WOS_ERR_NO_SOCKET, [])
      else do {
        (len, results, wire1) \<leftarrow> wosc_send_over_socket (object_bytes (swap_bytes (word_of_int dataLen))) 4 results;
        if len \<le> 0 then Some (WOS_ERR_CONNECTION_LOST, wire1)
        else do {
          (len, results, wire2) \<leftarrow> wosc_send_over_socket data dataLen results;
          Some (if len \<le> 0 then WOS_ERR_CONNECTION_LOST else WOS_ERR_NO_ERROR, wire1 @ wire2)
        }
      })"

subsection \<open>Receiving\<close>

text \<open>What \<open>recv\<close> returns: 0, a negative number, or bytes, at most as many as asked for.\<close>

datatype received = Closed | Failed | Received "byte list"

text \<open>The packet that is passed to \<open>WOscReceiver::NetworkReceive\<close>, if any, and the new state. A negative
  n is a large \<open>size_t\<close>.\<close>

definition NetworkReceiveInternal :: "allocator \<Rightarrow> SelectRxState \<Rightarrow> received \<Rightarrow> (Error \<times> byte list option \<times> SelectRxState) option" where
  "NetworkReceiveInternal new s recv = (
     let rxCount = (if m_isRxPacketLen s then 4 - m_nReceived s else sint (m_packetLen s) - m_nReceived s) in
     case recv of
       Closed \<Rightarrow> Some (WOS_ERR_CONNECTION_CLOSED, None, s)
     | Failed \<Rightarrow> Some (WOS_ERR_CONNECTION_FAILURE, None, s)
     | Received bs \<Rightarrow> do {
         c_assert (bs \<noteq> [] \<and> ilength bs \<le> rxCount mod 2 ^ 64);
         s \<leftarrow> (if m_isRxPacketLen s then do {
             m \<leftarrow> mem_write (object_bytes (m_packetLen s)) (m_nReceived s) bs;
             Some (s\<lparr>m_packetLen := object_of_bytes m\<rparr>)
           } else do {
             data \<leftarrow> m_packetData s;
             data \<leftarrow> mem_write data 0 bs;
             Some (s\<lparr>m_packetData := Some data\<rparr>)
           });
         let s = s\<lparr>m_nReceived := m_nReceived s + ilength bs\<rparr>;
         if m_isRxPacketLen s \<and> m_nReceived s = 4 then do {
           let packetLen = swap_bytes (m_packetLen s);
           c_assert (0 \<le> sint packetLen);
           Some (WOS_ERR_NO_ERROR, None, s\<lparr>m_packetLen := packetLen, m_isRxPacketLen := False,
             m_packetData := Some (new (sint packetLen)), m_nReceived := 0\<rparr>)
         }
         else if \<not> m_isRxPacketLen s \<and> m_nReceived s = sint (m_packetLen s) then
           Some (WOS_ERR_NO_ERROR, m_packetData s, s\<lparr>m_isRxPacketLen := True, m_nReceived := 0\<rparr>)
         else Some (WOS_ERR_NO_ERROR, None, s)
       })"

definition tcp_NetworkReceive :: "allocator \<Rightarrow> WOscTcpHandler \<Rightarrow> received \<Rightarrow> (Error \<times> byte list option \<times> WOscTcpHandler) option" where
  "tcp_NetworkReceive new h recv =
     (if m_threading h then Some (WOS_ERR_NOT_WHEN_THREADING, None, h)
      else do {
        (err, packet, s) \<leftarrow> NetworkReceiveInternal new (m_selectState h) recv;
        Some (err, packet, h\<lparr>m_selectState := s\<rparr>)
      })"

text \<open>The thread that receives until the connection is closed or fails: the packets, in order.\<close>

fun ReceiveThread :: "allocator \<Rightarrow> SelectRxState \<Rightarrow> received list \<Rightarrow> (byte list list \<times> SelectRxState) option" where
  "ReceiveThread new s [] = Some ([], s)"
| "ReceiveThread new s (recv # recvs) = do {
     (err, packet, s) \<leftarrow> NetworkReceiveInternal new s recv;
     let packets = (case packet of None \<Rightarrow> [] | Some p \<Rightarrow> [p]);
     if err = WOS_ERR_CONNECTION_CLOSED \<or> err = WOS_ERR_CONNECTION_FAILURE then Some (packets, s)
     else do {
       (rest, s) \<leftarrow> ReceiveThread new s recvs;
       Some (packets @ rest, s)
     }
   }"

subsection \<open>Connections\<close>

text \<open>\<open>thread\<close> is the identifier of the new thread or \<open>None\<close> when \<open>pthread_create\<close> fails, \<open>nonblocking\<close>
  whether \<open>fcntl\<close> succeeds.\<close>

definition Start :: "WOscTcpHandler \<Rightarrow> int \<Rightarrow> 64 word option \<Rightarrow> bool \<Rightarrow> Error \<times> WOscTcpHandler" where
  "Start h socketID thread nonblocking =
     (if socketID < 0 then (WOS_ERR_INVALID_SOCKET, h)
      else if m_socketID h \<ge> 0 then (WOS_ERR_ALREADY_CONNECTED, h)
      else if m_receptionThreadID h > 0 then (WOS_ERR_ALREADY_RUNNING, h)
      else let h = h\<lparr>m_socketID := socketID, m_selectState := select_Init (m_selectState h)\<rparr> in
        if m_threading h then
          (case thread of
             None \<Rightarrow> (WOS_ERR_CREATE_RX_THREAD, h\<lparr>m_socketID := - 1, m_receptionThreadID := 0\<rparr>)
           | Some t \<Rightarrow> (WOS_ERR_NO_ERROR, h\<lparr>m_receptionThreadID := t\<rparr>))
        else if \<not> nonblocking then (WOS_ERR_CAN_NOT_SET_NONBLOCKING, h\<lparr>m_socketID := - 1\<rparr>)
        else (WOS_ERR_NO_ERROR, h))"

definition Stop :: "WOscTcpHandler \<Rightarrow> Error \<times> WOscTcpHandler" where
  "Stop h =
     (if m_threading h \<and> m_receptionThreadID h = 0 then (WOS_ERR_ALREADY_CLOSED, h)
      else if m_socketID h < 0 then (WOS_ERR_DISCONNECTED, h)
      else let h = (if m_threading h then h\<lparr>m_receptionThreadID := 0\<rparr> else h) in
        (WOS_ERR_NO_ERROR, h\<lparr>m_socketID := - 1\<rparr>))"

text \<open>The client; \<open>sock\<close> and \<open>connected\<close> are the results of \<open>socket\<close> and \<open>connect\<close>, and the list has the
  sockets that are closed.\<close>

definition Connect :: "WOscTcpHandler \<Rightarrow> int \<Rightarrow> int \<Rightarrow> 64 word option \<Rightarrow> bool \<Rightarrow> Error \<times> WOscTcpHandler \<times> int list" where
  "Connect h sock connected thread nonblocking =
     (if GetRxThreadID h > 0 then (WOS_ERR_ALREADY_RUNNING, h, [])
      else if m_socketID h \<ge> 0 then (WOS_ERR_ALREADY_CONNECTED, h, [])
      else if sock < 0 then (WOS_ERR_SOCKET_CREATE, h, [])
      else if connected < 0 then (WOS_ERR_SOCKET_CONNECT, h, [sock])
      else let (err, h) = Start h sock thread nonblocking in
        (err, h, if err \<noteq> WOS_ERR_NO_ERROR then [sock] else []))"

definition Close :: "WOscTcpHandler \<Rightarrow> Error \<times> WOscTcpHandler \<times> int list" where
  "Close h =
     (if m_threading h \<and> GetRxThreadID h \<noteq> 0 then (WOS_ERR_ALREADY_CLOSED, h, [])
      else if m_socketID h < 0 then (WOS_ERR_DISCONNECTED, h, [])
      else let (err, h) = Stop h in (err, h, [m_socketID h]))"

subsection \<open>What is sent\<close>

lemma send_loop_sends:
  assumes "send_loop buffer n nSent results wire = Some (len, results', wire')" "0 \<le> nSent" "nSent \<le> n" "0 < len"
  shows "wire' = wire @ drop (nat nSent) (take (nat n) buffer)"
  using assms
proof (induction buffer n nSent results wire rule: send_loop.induct)
  case (1 buffer n nSent results wire)
  show ?case
  proof (cases "n - nSent > 0")
    case True
    let ?part = "\<lambda>tmp. take (nat tmp) (drop (nat nSent) buffer)"
    obtain tmp rs where rs: "results = tmp # rs" "\<not> tmp \<le> 0" "tmp \<le> n - nSent" "mem_read buffer nSent tmp = Some (?part tmp)"
        "send_loop buffer n (nSent + tmp) rs (wire @ ?part tmp) = Some (len, results', wire')"
      using 1(2,5) True by (subst (asm) send_loop.simps)
        (auto split: list.splits if_splits simp: mem_read_def c_assert_def Option.bind_eq_Some_conv)
    have "wire' = (wire @ ?part tmp) @ drop (nat (nSent + tmp)) (take (nat n) buffer)"
      using 1(1) [OF True rs(1,2) _ rs(4,5)] rs(2,3) 1(3-5) True by (simp add: c_assert_def)
    moreover have "?part tmp = take (nat tmp) (drop (nat nSent) (take (nat n) buffer))"
      using rs(2,3) 1(3) by (simp add: drop_take min_def nat_diff_distrib [symmetric] nat_le_iff)
    moreover have "nat (nSent + tmp) = nat tmp + nat nSent" using rs(2) 1(3) by (simp add: nat_add_distrib)
    ultimately show ?thesis by (simp flip: drop_drop)
  next
    case False
    then show ?thesis using 1 by (subst (asm) send_loop.simps) auto
  qed
qed

lemma sent_over_socket:
  "wosc_send_over_socket buffer n results = Some (len, results', wire) \<Longrightarrow> 0 < len \<Longrightarrow> wire = take (nat n) buffer"
proof (cases "0 \<le> n")
  case False
  then show "wosc_send_over_socket buffer n results = Some (len, results', wire) \<Longrightarrow> 0 < len \<Longrightarrow> wire = take (nat n) buffer"
    by (simp add: wosc_send_over_socket_def send_loop.simps [of _ n])
qed (auto simp: wosc_send_over_socket_def dest!: send_loop_sends)

text \<open>A packet on the wire.\<close>

definition header :: "byte list \<Rightarrow> byte list" where
  "header packet = rev (object_bytes (word_of_int (ilength packet) :: 32 word))"

lemma object_bytes_of_bytes:
  assumes "length bs = 4"
  shows "object_bytes (object_of_bytes bs :: 32 word) = bs"
proof (rule nth_equalityI)
  fix i assume "i < length (object_bytes (object_of_bytes bs :: 32 word))"
  then have i: "i < 4" by simp
  show "object_bytes (object_of_bytes bs :: 32 word) ! i = bs ! i"
  proof (rule bit_word_eqI)
    fix n assume n: "n < LENGTH(8)"
    then have "8 * i + n < 32" "(8 * i + n) div 8 = i" "(8 * i + n) mod 8 = n" using i by simp_all
    then show "bit (object_bytes (object_of_bytes bs :: 32 word) ! i) n \<longleftrightarrow> bit (bs ! i) n"
      using n i assms bit_horner_sum_uint_exp_iff [of bs "8 * i + n"]
      by (simp add: object_bytes_def object_of_bytes_def bit_ucast_iff bit_drop_bit_eq bit_word_of_int_iff)
  qed
qed (use assms in simp)

lemma swapped_bytes: "object_bytes (swap_bytes w) = rev (object_bytes w)"
  by (simp add: swap_bytes_def object_bytes_of_bytes)

lemma object_bytes_nonempty [simp]: "object_bytes (w :: 32 word) \<noteq> []"
  by (simp flip: length_0_conv)

lemma swap_swap [simp]: "swap_bytes (swap_bytes w) = w"
  by (simp add: swap_bytes_def [of "swap_bytes w"] swapped_bytes)

lemma packet_sent:
  assumes "NetworkSend h packet (ilength packet) results = Some (WOS_ERR_NO_ERROR, wire)"
  shows "wire = header packet @ packet"
  using assms by (auto simp: NetworkSend_def swapped_bytes header_def Option.bind_eq_Some_conv split: if_splits dest!: sent_over_socket)

lemma sends_data:
  assumes "NetworkSend h packet (ilength packet) results = Some (WOS_ERR_NO_ERROR, wire)"
  shows "packet \<noteq> []"
  using assms by (auto simp: NetworkSend_def wosc_send_over_socket_def [of "[]"] wosc_send_over_socket_def [of _ 0] send_loop.simps [of _ 0] Option.bind_eq_Some_conv split: if_splits)

subsection \<open>What is received\<close>

lemma length_header [simp]: "length (header packet) = 4"
  by (simp add: header_def)

lemma header_len:
  assumes "object_bytes w = header packet"
  shows "swap_bytes w = word_of_int (ilength packet)"
  using assms by (simp add: swap_bytes_def header_def)

lemma sint_len: "length packet < 2 ^ 31 \<Longrightarrow> sint (word_of_int (ilength packet) :: 32 word) = ilength packet"
  unfolding int_word_sint by simp

lemma length_piece:
  assumes "NetworkReceiveInternal new s (Received b) = Some (WOS_ERR_NO_ERROR, None, s')"
  shows "ReceiveThread new s (Received b # recvs) = ReceiveThread new s' recvs"
  using assms by (simp add: case_prod_unfold)

lemma header_received:
  assumes "m_isRxPacketLen s" "m_nReceived s = ilength got" "object_bytes (m_packetLen s) = got @ rest" "rest \<noteq> []"
    and "[] \<notin> set pieces" "got @ concat pieces = header packet" "length packet < 2 ^ 31"
  shows "ReceiveThread new s (map Received pieces @ recvs) =
    ReceiveThread new (s\<lparr>m_packetLen := word_of_int (ilength packet), m_isRxPacketLen := False,
      m_packetData := Some (new (ilength packet)), m_nReceived := 0\<rparr>) recvs"
  using assms
proof (induction pieces arbitrary: s got rest)
  case Nil
  have "length got + length rest = 4" using arg_cong [OF Nil(3), of length] by simp
  moreover have "length got = 4" using arg_cong [OF Nil(6), of length] by simp
  ultimately show ?case using Nil(4) by simp
next
  case (Cons b pieces)
  let ?m = "got @ b @ drop (length b) rest"
  have len: "length got + length rest = 4" "length got + (length b + length (concat pieces)) = 4"
    using arg_cong [OF Cons.prems(3), of length] arg_cong [OF Cons.prems(6), of length] by simp_all
  then have ok: "b \<noteq> []" "length b \<le> length rest" using Cons.prems(5) by auto
  have written: "mem_write (object_bytes (m_packetLen s)) (m_nReceived s) b = Some ?m"
    using mem_write_at [of "m_nReceived s" got b "take (length b) rest" "drop (length b) rest"] Cons.prems(2,3) ok by simp
  have bytes: "object_bytes (object_of_bytes ?m :: 32 word) = ?m" using len ok by (intro object_bytes_of_bytes) simp
  have count: "ilength b \<le> (4 - m_nReceived s) mod 2 ^ 64" using Cons.prems(2) len by simp
  show ?case
  proof (cases "length got + length b = 4")
    case True
    then have none: "length (concat pieces) = 0" "length rest = length b" using len by linarith+
    then have "pieces = []" using Cons.prems(5) by (cases pieces) simp_all
    then have "swap_bytes (object_of_bytes ?m) = word_of_int (ilength packet)"
      using Cons.prems(6) none \<open>pieces = []\<close> by (intro header_len) (simp add: object_bytes_of_bytes)
    then have "NetworkReceiveInternal new s (Received b) = Some (WOS_ERR_NO_ERROR, None,
        s\<lparr>m_packetLen := word_of_int (ilength packet), m_isRxPacketLen := False,
          m_packetData := Some (new (ilength packet)), m_nReceived := 0\<rparr>)"
      using Cons.prems(1,2) ok written count True sint_len [OF Cons.prems(7)]
      by (simp add: NetworkReceiveInternal_def Let_def)
    then show ?thesis using \<open>pieces = []\<close> by (simp add: case_prod_unfold)
  next
    case False
    let ?s = "s\<lparr>m_packetLen := object_of_bytes ?m, m_nReceived := m_nReceived s + ilength b\<rparr>"
    have "NetworkReceiveInternal new s (Received b) = Some (WOS_ERR_NO_ERROR, None, ?s)"
      using Cons.prems(1,2) ok written count False by (simp add: NetworkReceiveInternal_def Let_def)
    moreover have "ReceiveThread new ?s (map Received pieces @ recvs) =
        ReceiveThread new (?s\<lparr>m_packetLen := word_of_int (ilength packet), m_isRxPacketLen := False,
          m_packetData := Some (new (ilength packet)), m_nReceived := 0\<rparr>) recvs"
      using Cons.prems len ok False by (intro Cons.IH [of _ "got @ b" "drop (length b) rest"]) (simp_all add: bytes)
    ultimately show ?thesis by (simp add: case_prod_unfold)
  qed
qed

lemma data_received:
  assumes "allocates new" "\<not> m_isRxPacketLen s" "m_nReceived s = 0" "m_packetLen s = word_of_int (ilength packet)"
    and "m_packetData s = Some (new (ilength packet))" "packet \<noteq> []" "length packet < 2 ^ 31"
  shows "NetworkReceiveInternal new s (Received packet) =
    Some (WOS_ERR_NO_ERROR, Some packet, s\<lparr>m_packetData := Some packet, m_isRxPacketLen := True, m_nReceived := 0\<rparr>)"
proof -
  have "mem_write (new (ilength packet)) 0 packet = Some packet"
    using assms(1) by (simp add: allocates_def mem_write_def)
  moreover have "ilength packet \<le> ilength packet mod 2 ^ 64" using assms(7) by simp
  ultimately show ?thesis using assms sint_len [OF assms(7)] by (simp add: NetworkReceiveInternal_def Let_def)
qed

subsection \<open>Packets over a connection\<close>

text \<open>How a packet arrives: its length in pieces of any size, its data at once.\<close>

definition arrives :: "byte list \<Rightarrow> received list \<Rightarrow> byte list \<Rightarrow> bool" where
  "arrives wire recvs packet \<longleftrightarrow>
     (\<exists>pieces. recvs = map Received pieces @ [Received packet] \<and> [] \<notin> set pieces \<and> concat pieces @ packet = wire)"

text \<open>C40: A packet that \<open>NetworkSend\<close> reports as sent is on the wire behind its length, whatever the sizes that
  \<open>send\<close> accepts. When the packets that were sent on a connection arrive, each with its data in one piece, the
  receiving thread passes them on unchanged and in order, and ends when the connection is closed.\<close>

theorem packets_over_connection:
  assumes "allocates new" "m_isRxPacketLen s" "m_nReceived s = 0" "\<forall>packet \<in> set packets. length packet < 2 ^ 31"
    and "list_all2 (\<lambda>packet wire. \<exists>results. NetworkSend h packet (ilength packet) results = Some (WOS_ERR_NO_ERROR, wire)) packets wires"
    and "list_all2 (\<lambda>(wire, packet) recvs. arrives wire recvs packet) (zip wires packets) recvss"
  shows "\<exists>s'. ReceiveThread new s (concat recvss @ Closed # recvs) = Some (packets, s')"
proof -
  have "list_all2 (\<lambda>packet wire. packet \<noteq> [] \<and> wire = header packet @ packet) packets wires"
    using assms(5) by (rule list_all2_mono) (auto dest: packet_sent sends_data)
  then show ?thesis using assms(2-4,6)
  proof (induction packets wires arbitrary: s recvss rule: list_all2_induct)
    case (Cons packet packets wire wires)
    obtain pieces rest where recvss: "recvss = (map Received pieces @ [Received packet]) # rest"
        "[] \<notin> set pieces" "concat pieces @ packet = wire" "list_all2 (\<lambda>(wire, packet) recvs. arrives wire recvs packet) (zip wires packets) rest"
      using Cons.prems(4) by (auto simp: list_all2_Cons1 arrives_def)
    let ?t = "s\<lparr>m_packetLen := word_of_int (ilength packet), m_packetData := Some packet, m_isRxPacketLen := True, m_nReceived := 0\<rparr>"
    obtain s' where s': "ReceiveThread new ?t (concat rest @ Closed # recvs) = Some (packets, s')"
      using Cons.IH [of ?t rest] Cons.prems recvss(4) by auto
    have "ReceiveThread new s (concat recvss @ Closed # recvs) =
        ReceiveThread new (s\<lparr>m_packetLen := word_of_int (ilength packet), m_isRxPacketLen := False,
          m_packetData := Some (new (ilength packet)), m_nReceived := 0\<rparr>) (Received packet # concat rest @ Closed # recvs)"
      using header_received [of s "[]" "object_bytes (m_packetLen s)" pieces packet new] Cons.prems Cons.hyps recvss(1-3)
      by (simp add: object_bytes_nonempty)
    also have "\<dots> = Some (packet # packets, s')"
      using Cons.hyps Cons.prems(3) s' by (simp add: data_received [OF assms(1)])
    finally show ?case by blast
  qed (auto simp: NetworkReceiveInternal_def)
qed

definition zeros :: allocator where "zeros n = replicate (nat n) 0"

text \<open>Two packets; \<open>send\<close> takes the length of the second one in two pieces, and the length of the first one arrives
  in two.\<close>

lemma packets_over_connection_witness:
  "\<exists>s'. ReceiveThread zeros (SelectRxState_new 0)
     (concat [[Received [0], Received [0, 0, 2], Received [1, 2]], [Received [0, 0, 0, 1], Received [3]]] @ [Closed]) =
       Some ([[1, 2], [3]], s')"
proof (rule packets_over_connection [where h = "WOscTcpHandler_new 0 True\<lparr>m_socketID := 5\<rparr>"])
  show "allocates zeros" by (simp add: allocates_def zeros_def)
  have "NetworkSend (WOscTcpHandler_new 0 True\<lparr>m_socketID := 5\<rparr>) [1, 2] (ilength [1, 2 :: byte]) [4, 2] =
      Some (WOS_ERR_NO_ERROR, [0, 0, 0, 2, 1, 2])" by code_simp
  moreover have "NetworkSend (WOscTcpHandler_new 0 True\<lparr>m_socketID := 5\<rparr>) [3] (ilength [3 :: byte]) [1, 3, 1] =
      Some (WOS_ERR_NO_ERROR, [0, 0, 0, 1, 3])" by code_simp
  ultimately show "list_all2 (\<lambda>packet wire. \<exists>results. NetworkSend (WOscTcpHandler_new 0 True\<lparr>m_socketID := 5\<rparr>) packet
      (ilength packet) results = Some (WOS_ERR_NO_ERROR, wire)) [[1, 2], [3]] [[0, 0, 0, 2, 1, 2], [0, 0, 0, 1, 3]]" by auto
  show "list_all2 (\<lambda>(wire, packet) recvs. arrives wire recvs packet)
      (zip [[0, 0, 0, 2, 1, 2], [0, 0, 0, 1, 3]] [[1, 2], [3]])
      [[Received [0], Received [0, 0, 2], Received [1, 2]], [Received [0, 0, 0, 1], Received [3]]]"
    by (simp add: arrives_def) (intro conjI exI [of _ "[[0], [0, 0, 2]]"] exI [of _ "[[0, 0, 0, 1]]"]; simp)
qed (simp_all add: SelectRxState_new_def)

subsection \<open>Faults\<close>

text \<open>The data of a packet is stored at the start of the buffer whatever has been received of it: a packet that arrives
  in two pieces is passed on with its start overwritten.\<close>

lemma data_in_pieces_overwritten:
  "map_option fst (ReceiveThread zeros (SelectRxState_new 0) [Received [0, 0, 0, 4], Received [1, 2], Received [3, 4], Closed]) =
     Some [[3, 4, 0, 0]]"
  by code_simp

text \<open>The test of \<open>Close\<close> is inverted: a client whose thread is running is not closed, so \<open>~WOscTcpClient\<close> leaves the
  thread and the socket.\<close>

lemma running_client_not_closed:
  assumes "Connect h sock connected (Some thread) nonblocking = (WOS_ERR_NO_ERROR, h', closed)" "m_threading h"
    and "GetRxThreadID h' \<noteq> 0"
  shows "Close h' = (WOS_ERR_ALREADY_CLOSED, h', []) \<and> m_socketID h' = sock \<and> closed = []"
  using assms by (auto simp: Connect_def Start_def Close_def Let_def split: if_splits)

text \<open>Without a thread \<open>Stop\<close> has reset the socket before it is closed.\<close>

lemma connection_left_open:
  assumes "Connect h sock connected thread nonblocking = (WOS_ERR_NO_ERROR, h', closed)" "\<not> m_threading h"
  shows "\<exists>h''. Close h' = (WOS_ERR_NO_ERROR, h'', [- 1]) \<and> m_socketID h'' = - 1"
  using assms by (auto simp: Connect_def Start_def Close_def Stop_def Let_def split: if_splits)

end
