(* ===== verification/OscQueue.thy ===== *)
theory OscQueue
  imports OscTimeTag OscString
begin

text \<open>
  \<^verbatim>\<open>wosclib/WOscPriorityQueue.cpp\<close>, compiled with \<open>WOSC_USE_PRIORITY_QUEUE\<close>: an array of pointers to
  items that doubles when it is full and is searched for the earliest item. A pointer is the item or
  \<open>None\<close> for null. An item is its time tag and its return address. \<open>new\<close> gives the contents of a new
  array of pointers.
\<close>

record WOscQueueItem =
  item_time :: WOscTimeTag
  m_ra :: "nat option"

type_synonym pointers = "WOscQueueItem option list"

record WOscPriorityQueue =
  m_list :: pointers
  m_itemsInList :: int
  m_listCapacity :: int

definition WOscPriorityQueue_new :: "(int \<Rightarrow> pointers) \<Rightarrow> int \<Rightarrow> WOscPriorityQueue option" where
  "WOscPriorityQueue_new new initialCapacity = do {
     c_assert (0 \<le> initialCapacity);
     l \<leftarrow> for_range 0 initialCapacity (\<lambda>i l. wr l i None) (new initialCapacity);
     Some \<lparr>m_list = l, m_itemsInList = 0, m_listCapacity = initialCapacity\<rparr>
   }"

definition DoubleCapacity :: "(int \<Rightarrow> pointers) \<Rightarrow> WOscPriorityQueue \<Rightarrow> WOscPriorityQueue option" where
  "DoubleCapacity new q = do {
     let newListCapacity = 2 * m_listCapacity q;
     c_assert (newListCapacity < 2 ^ 31);
     newList \<leftarrow> for_range 0 (m_listCapacity q) (\<lambda>i newList. do {
       p \<leftarrow> rd (m_list q) i;
       wr newList i p
     }) (new newListCapacity);
     newList \<leftarrow> for_range (m_listCapacity q) newListCapacity (\<lambda>i newList. wr newList i None) newList;
     Some (q\<lparr>m_list := newList, m_listCapacity := newListCapacity\<rparr>)
   }"

definition InsertItem :: "(int \<Rightarrow> pointers) \<Rightarrow> WOscPriorityQueue \<Rightarrow> WOscQueueItem \<Rightarrow> WOscPriorityQueue option" where
  "InsertItem new q item = do {
     q \<leftarrow> (if m_itemsInList q = m_listCapacity q then DoubleCapacity new q else Some q);
     l \<leftarrow> wr (m_list q) (m_itemsInList q) (Some item);
     Some (q\<lparr>m_list := l, m_itemsInList := m_itemsInList q + 1\<rparr>)
   }"

definition GetEarliestTimeTag :: "64 word \<Rightarrow> WOscPriorityQueue \<Rightarrow> WOscTimeTag option" where
  "GetEarliestTimeTag ULONG_MAX q = for_range 0 (m_itemsInList q) (\<lambda>i smallest. do {
     p \<leftarrow> rd (m_list q) i;
     x \<leftarrow> p;
     Some (if time_less (item_time x) smallest then item_time x else smallest)
   }) (GetLargestTimeTag ULONG_MAX)"

definition RemoveItem :: "WOscPriorityQueue \<Rightarrow> int \<Rightarrow> WOscPriorityQueue option" where
  "RemoveItem q idx = do {
     let n = m_itemsInList q - 1;
     l \<leftarrow> for_range idx n (\<lambda>i l. do {
       p \<leftarrow> rd l (i + 1);
       wr l i p
     }) (m_list q);
     Some (q\<lparr>m_list := l, m_itemsInList := n\<rparr>)
   }"

definition earliest_index :: "WOscPriorityQueue \<Rightarrow> int option" where
  "earliest_index q = for_range 0 (m_itemsInList q) (\<lambda>i smallestIdx. do {
     p \<leftarrow> rd (m_list q) smallestIdx;
     x \<leftarrow> p;
     p \<leftarrow> rd (m_list q) i;
     y \<leftarrow> p;
     Some (if time_greater (item_time x) (item_time y) then i else smallestIdx)
   }) 0"

definition RemoveEarliestItem :: "WOscPriorityQueue \<Rightarrow> (ErrorCodes + WOscQueueItem \<times> WOscPriorityQueue) option" where
  "RemoveEarliestItem q =
     (if m_itemsInList q = 0 then Some (Inl ERR_REMOVE_FROM_EMPTY_QUEUE)
      else do {
        smallestIdx \<leftarrow> earliest_index q;
        p \<leftarrow> rd (m_list q) smallestIdx;
        x \<leftarrow> p;
        q \<leftarrow> RemoveItem q smallestIdx;
        Some (Inr (x, q))
      })"

definition GetNumItems :: "WOscPriorityQueue \<Rightarrow> int" where "GetNumItems q = m_itemsInList q"

subsection \<open>The abstract queue\<close>

text \<open>A queue is the list of its items in the order in which they were inserted; the earliest item is
  the first one of the stable sort.\<close>

datatype QueueOp = Enqueue WOscQueueItem | Dequeue | Peek | Size
datatype Answer = Done | Removed WOscQueueItem | Thrown ErrorCodes | Tag WOscTimeTag | Number int

fun spec_step :: "64 word \<Rightarrow> QueueOp \<Rightarrow> WOscQueueItem list \<Rightarrow> Answer \<times> WOscQueueItem list" where
  "spec_step u (Enqueue x) xs = (Done, xs @ [x])"
| "spec_step u Dequeue xs = (case sort_key item_time xs of
     [] \<Rightarrow> (Thrown ERR_REMOVE_FROM_EMPTY_QUEUE, xs)
   | x # _ \<Rightarrow> (Removed x, remove1 x xs))"
| "spec_step u Peek xs = (Tag (Min (insert u (item_time ` set xs))), xs)"
| "spec_step u Size xs = (Number (ilength xs), xs)"

fun spec_run :: "64 word \<Rightarrow> QueueOp list \<Rightarrow> WOscQueueItem list \<Rightarrow> Answer list" where
  "spec_run u [] xs = []"
| "spec_run u (op # ops) xs = (let (a, xs) = spec_step u op xs in a # spec_run u ops xs)"

fun queue_step :: "(int \<Rightarrow> pointers) \<Rightarrow> 64 word \<Rightarrow> QueueOp \<Rightarrow> WOscPriorityQueue \<Rightarrow> (Answer \<times> WOscPriorityQueue) option" where
  "queue_step new u (Enqueue x) q = do { q \<leftarrow> InsertItem new q x; Some (Done, q) }"
| "queue_step new u Dequeue q = do {
     r \<leftarrow> RemoveEarliestItem q;
     Some (case r of Inl e \<Rightarrow> (Thrown e, q) | Inr (x, q) \<Rightarrow> (Removed x, q))
   }"
| "queue_step new u Peek q = do { t \<leftarrow> GetEarliestTimeTag u q; Some (Tag t, q) }"
| "queue_step new u Size q = Some (Number (GetNumItems q), q)"

fun queue_run :: "(int \<Rightarrow> pointers) \<Rightarrow> 64 word \<Rightarrow> QueueOp list \<Rightarrow> WOscPriorityQueue \<Rightarrow> Answer list option" where
  "queue_run new u [] q = Some []"
| "queue_run new u (op # ops) q = do {
     (a, q) \<leftarrow> queue_step new u op q;
     as \<leftarrow> queue_run new u ops q;
     Some (a # as)
   }"

subsection \<open>Arrays\<close>

text \<open>A loop that writes one element after the other and reads only what it has not written yet.\<close>

lemma fill_range:
  assumes "0 \<le> lo" "lo \<le> hi" "hi \<le> ilength m"
    and "\<And>i l. lo \<le> i \<Longrightarrow> i < hi \<Longrightarrow> length l = length m \<Longrightarrow> drop (nat i) l = drop (nat i) m \<Longrightarrow> body i l = wr l i (f i)"
  shows "for_range lo hi body m = Some (take (nat lo) m @ map f [lo..hi - 1] @ drop (nat hi) m)"
proof -
  have "\<exists>l. for_range lo hi body m = Some l \<and> l = take (nat lo) m @ map f [lo..hi - 1] @ drop (nat hi) m"
    using _ assms(2)
  proof (rule for_range_rule [of "\<lambda>i l. l = take (nat lo) m @ map f [lo..i - 1] @ drop (nat i) m"])
    fix i l assume i: "lo \<le> i" "i < hi" and l: "l = take (nat lo) m @ map f [lo..i - 1] @ drop (nat i) m"
    have len: "length (take (nat lo) m @ map f [lo..i - 1]) = nat i" using assms i by (simp add: nat_diff_distrib le_nat_iff)
    have "drop (nat i) m = m ! nat i # drop (nat (i + 1)) m" using assms i by (simp add: Cons_nth_drop_Suc nat_add_distrib)
    then have split: "l = (take (nat lo) m @ map f [lo..i - 1]) @ m ! nat i # drop (nat (i + 1)) m" by (simp add: l)
    have "length l = length m" "drop (nat i) l = drop (nat i) m" using len assms(1-3) i by (simp_all add: l)
    then have "body i l = Some (l[nat i := f i])" using assms(4) [of i l] i assms(1-3) by (simp add: wr_eq)
    also have "l[nat i := f i] = (take (nat lo) m @ map f [lo..i - 1]) @ f i # drop (nat (i + 1)) m"
      using list_update_length [of "take (nat lo) m @ map f [lo..i - 1]"] by (simp only: split len)
    finally have "body i l = Some ((take (nat lo) m @ map f [lo..i - 1]) @ f i # drop (nat (i + 1)) m)" .
    then show "\<exists>l'. body i l = Some l' \<and> l' = take (nat lo) m @ map f [lo..i + 1 - 1] @ drop (nat (i + 1)) m"
      using i by (simp add: upto_rec2)
  qed simp
  then show ?thesis by simp
qed

subsection \<open>Each operation\<close>

definition pointer_arrays :: "(int \<Rightarrow> pointers) \<Rightarrow> bool" where
  "pointer_arrays new \<longleftrightarrow> (\<forall>n. length (new n) = nat n)"

definition queue_at :: "WOscPriorityQueue \<Rightarrow> WOscQueueItem list \<Rightarrow> bool" where
  "queue_at q xs \<longleftrightarrow> (\<exists>rest. m_list q = map Some xs @ rest) \<and> m_itemsInList q = ilength xs \<and>
     m_listCapacity q = ilength (m_list q) \<and> 0 < m_listCapacity q \<and> m_listCapacity q < 2 ^ 31"

lemma new_queue:
  assumes "pointer_arrays new" "0 < n" "n < 2 ^ 31"
  shows "\<exists>q. WOscPriorityQueue_new new n = Some q \<and> queue_at q []"
proof -
  have "for_range 0 n (\<lambda>i l. wr l i None) (new n) = Some (map (\<lambda>_. None) [0..n - 1])"
    using fill_range [of 0 n "new n" "\<lambda>i l. wr l i None"] assms by (simp add: pointer_arrays_def)
  then show ?thesis using assms by (simp add: WOscPriorityQueue_new_def queue_at_def)
qed

lemma double_capacity:
  assumes "pointer_arrays new" "m_listCapacity q = ilength (m_list q)" "2 * m_listCapacity q < 2 ^ 31"
  shows "\<exists>rest. DoubleCapacity new q =
    Some (q\<lparr>m_list := m_list q @ rest, m_listCapacity := 2 * m_listCapacity q\<rparr>) \<and> length rest = length (m_list q)"
proof -
  let ?c = "m_listCapacity q" and ?m = "new (2 * m_listCapacity q)"
  have len: "ilength ?m = 2 * ?c" using assms by (simp add: pointer_arrays_def)
  have "for_range 0 ?c (\<lambda>i newList. do { p \<leftarrow> rd (m_list q) i; wr newList i p }) ?m =
      Some (map (\<lambda>i. m_list q ! nat i) [0..?c - 1] @ drop (nat ?c) ?m)"
    using fill_range [of 0 ?c ?m _ "\<lambda>i. m_list q ! nat i"] assms(2) len by (simp add: rd_eq)
  also have "map (\<lambda>i. m_list q ! nat i) [0..?c - 1] = m_list q"
    using assms(2) by (intro nth_equalityI) simp_all
  finally have first: "for_range 0 ?c (\<lambda>i newList. do { p \<leftarrow> rd (m_list q) i; wr newList i p }) ?m =
      Some (m_list q @ drop (nat ?c) ?m)" .
  have "for_range ?c (2 * ?c) (\<lambda>i newList. wr newList i None) (m_list q @ drop (nat ?c) ?m) =
      Some (m_list q @ map (\<lambda>_. None) [?c..2 * ?c - 1])"
    using fill_range [of ?c "2 * ?c" "m_list q @ drop (nat ?c) ?m" _ "\<lambda>_. None"] assms(2) len by simp
  then show ?thesis using first assms
    by (intro exI [of _ "map (\<lambda>_. None) [?c..2 * ?c - 1]"]) (simp add: DoubleCapacity_def Let_def)
qed

lemma insert_item:
  assumes "pointer_arrays new" "queue_at q xs" "length xs < 2 ^ 30"
  shows "\<exists>q'. InsertItem new q x = Some q' \<and> queue_at q' (xs @ [x])"
proof -
  obtain q1 r rest where q1: "(if m_itemsInList q = m_listCapacity q then DoubleCapacity new q else Some q) = Some q1"
      "m_list q1 = map Some xs @ r # rest" "m_itemsInList q1 = ilength xs" "m_listCapacity q1 = ilength (m_list q1)"
      "m_listCapacity q1 < 2 ^ 31"
  proof (cases "m_itemsInList q = m_listCapacity q")
    case True
    then have "m_list q = map Some xs" "2 * m_listCapacity q < 2 ^ 31" using assms(2,3) by (auto simp: queue_at_def)
    moreover obtain rest where "DoubleCapacity new q =
        Some (q\<lparr>m_list := m_list q @ rest, m_listCapacity := 2 * m_listCapacity q\<rparr>)" "length rest = length (m_list q)"
      using double_capacity [OF assms(1), of q] assms(2) calculation(2) by (auto simp: queue_at_def)
    ultimately show ?thesis using True that assms(2) by (cases rest) (auto simp: queue_at_def)
  next
    case False
    then obtain r rest where "m_list q = map Some xs @ r # rest"
      using assms(2) by (auto simp: queue_at_def) (metis append_Nil2 length_map list.exhaust)
    then show ?thesis using False that assms(2) by (auto simp: queue_at_def)
  qed
  then have "wr (m_list q1) (m_itemsInList q1) (Some x) = Some (map Some (xs @ [x]) @ rest)"
    using list_update_length [of "map Some xs" r rest "Some x"] by (simp add: wr_eq)
  then show ?thesis using q1 by (auto simp: InsertItem_def queue_at_def)
qed

lemma item_at: "queue_at q xs \<Longrightarrow> 0 \<le> i \<Longrightarrow> i < ilength xs \<Longrightarrow> rd (m_list q) i = Some (Some (xs ! nat i))"
  by (auto simp: queue_at_def rd_eq nth_append)

lemma earliest_time_tag:
  assumes "queue_at q xs"
  shows "GetEarliestTimeTag u q = Some (Min (insert u (item_time ` set xs)))"
proof -
  have "\<exists>t. GetEarliestTimeTag u q = Some t \<and> t = Min (insert u (item_time ` set (take (nat (ilength xs)) xs)))"
    unfolding GetEarliestTimeTag_def using assms [unfolded queue_at_def]
  proof (simp only:, intro for_range_rule [of "\<lambda>i t. t = Min (insert u (item_time ` set (take (nat i) xs)))"])
    fix i t assume i: "0 \<le> i" "i < ilength xs" and t: "t = Min (insert u (item_time ` set (take (nat i) xs)))"
    have "take (nat (i + 1)) xs = take (nat i) xs @ [xs ! nat i]"
      using i by (simp add: nat_add_distrib take_Suc_conv_app_nth)
    then have "Min (insert u (item_time ` set (take (nat (i + 1)) xs))) = min (item_time (xs ! nat i)) t"
      by (simp add: t insert_commute [of u])
    then show "\<exists>t'. do { p \<leftarrow> rd (m_list q) i; x \<leftarrow> p; Some (if time_less (item_time x) t then item_time x else t) } = Some t' \<and>
        t' = Min (insert u (item_time ` set (take (nat (i + 1)) xs)))"
      using item_at [OF assms i] by (auto simp: time_less_def min_def)
  qed (simp_all add: GetLargestTimeTag_def)
  then show ?thesis by simp
qed

lemma remove_item:
  assumes "queue_at q xs" "0 \<le> k" "k < ilength xs"
  shows "\<exists>q'. RemoveItem q k = Some q' \<and> queue_at q' (take (nat k) xs @ drop (nat k + 1) xs)"
proof -
  let ?n = "ilength xs - 1"
  obtain rest where m: "m_list q = map Some xs @ rest" "m_itemsInList q = ilength xs" using assms(1) by (auto simp: queue_at_def)
  have "do { p \<leftarrow> rd l (i + 1); wr l i p } = wr l i (Some (xs ! nat (i + 1)))"
    if i: "k \<le> i" "i < ?n" and l: "length l = length (m_list q)" "drop (nat i) l = drop (nat i) (m_list q)" for i l
  proof -
    have inside: "nat i + 1 < length (m_list q)" using i assms(2) m(1) by simp
    have "l ! nat (i + 1) = m_list q ! nat (i + 1)"
      using arg_cong [OF l(2), of "\<lambda>l. l ! 1"] i assms(2) l(1) inside by (simp add: nat_add_distrib)
    moreover have "m_list q ! nat (i + 1) = Some (xs ! nat (i + 1))" using i assms(2) m(1) by (simp add: nth_append nat_less_iff)
    ultimately show ?thesis using i assms(2) l(1) m(1) by (simp add: rd_eq)
  qed
  then have "for_range k ?n (\<lambda>i l. do { p \<leftarrow> rd l (i + 1); wr l i p }) (m_list q) =
      Some (take (nat k) (m_list q) @ map (\<lambda>i. Some (xs ! nat (i + 1))) [k..?n - 1] @ drop (nat ?n) (m_list q))"
    using assms(2,3) m(1) by (intro fill_range) simp_all
  moreover have "map (\<lambda>i. Some (xs ! nat (i + 1))) [k..?n - 1] = map Some (drop (nat k + 1) xs)"
    using assms(2,3) by (intro nth_equalityI) (simp_all add: nat_add_distrib nat_diff_distrib ac_simps)
  ultimately show ?thesis using assms m by (auto simp: RemoveItem_def Let_def queue_at_def take_map nat_le_iff)
qed

lemma earliest_found:
  assumes "queue_at q xs" "xs \<noteq> []"
  shows "\<exists>k. earliest_index q = Some k \<and> 0 \<le> k \<and> k < ilength xs \<and>
    (\<forall>j < nat k. item_time (xs ! nat k) < item_time (xs ! j)) \<and> (\<forall>j < length xs. item_time (xs ! nat k) \<le> item_time (xs ! j))"
proof -
  let ?P = "\<lambda>i k. 0 \<le> k \<and> k < ilength xs \<and> (\<forall>j < nat k. item_time (xs ! nat k) < item_time (xs ! j)) \<and>
    (\<forall>j < nat i. item_time (xs ! nat k) \<le> item_time (xs ! j)) \<and> k \<le> i"
  have n: "m_itemsInList q = ilength xs" using assms(1) by (simp add: queue_at_def)
  have "\<exists>k. earliest_index q = Some k \<and> ?P (ilength xs) k"
    unfolding earliest_index_def n
  proof (rule for_range_rule [of ?P])
    fix i k assume i: "0 \<le> i" "i < ilength xs" and k: "?P i k"
    have j: "j < nat (i + 1) \<longleftrightarrow> j < nat i \<or> j = nat i" for j using i by auto
    show "\<exists>k'. do {
         p \<leftarrow> rd (m_list q) k;
         x \<leftarrow> p;
         p \<leftarrow> rd (m_list q) i;
         y \<leftarrow> p;
         Some (if time_greater (item_time x) (item_time y) then i else k)
       } = Some k' \<and> ?P (i + 1) k'"
    proof (cases "item_time (xs ! nat i) < item_time (xs ! nat k)")
      case True
      then have "?P (i + 1) i" using i k unfolding j by (auto intro: less_le_trans less_imp_le)
      then show ?thesis using True item_at [OF assms(1)] i k by (simp add: time_greater_def)
    next
      case False
      then have "?P (i + 1) k" using i k unfolding j by auto
      then show ?thesis using False item_at [OF assms(1)] i k by (simp add: time_greater_def)
    qed
  qed (use assms(2) in simp_all)
  then show ?thesis by auto
qed

lemma first_minimum:
  assumes "\<forall>y \<in> set a. f x < f y" "\<forall>y \<in> set b. f x \<le> f y"
  shows "sort_key f (a @ x # b) = x # sort_key f (a @ b)" "remove1 x (a @ x # b) = a @ b"
proof -
  have none: "filter (\<lambda>y. f y = f x) a = []" using assms(1) by (auto simp: filter_empty_conv)
  show "sort_key f (a @ x # b) = x # sort_key f (a @ b)"
  proof (rule properties_for_sort_key)
    show "sorted (map f (x # sort_key f (a @ b)))" using assms by (auto intro: less_imp_le)
    fix k
    have commute: "(\<lambda>y. f k = f y) = (\<lambda>y. f y = f k)" by auto
    assume "k \<in> set (x # sort_key f (a @ b))"
    show "filter (\<lambda>y. f k = f y) (x # sort_key f (a @ b)) = filter (\<lambda>y. f k = f y) (a @ x # b)"
      unfolding commute using none sort_key_stable [of f "f k" "a @ b"] by (cases "f k = f x") simp_all
  qed simp
  have "x \<notin> set a" using assms(1) by auto
  then show "remove1 x (a @ x # b) = a @ b" by (simp add: remove1_append)
qed

lemma remove_earliest_item:
  assumes "queue_at q xs" "xs \<noteq> []"
  shows "\<exists>x ys q'. sort_key item_time xs = x # ys \<and> RemoveEarliestItem q = Some (Inr (x, q')) \<and> queue_at q' (remove1 x xs)"
proof -
  obtain k where k: "earliest_index q = Some k" "0 \<le> k" "k < ilength xs"
      "\<forall>j < nat k. item_time (xs ! nat k) < item_time (xs ! j)" "\<forall>j < length xs. item_time (xs ! nat k) \<le> item_time (xs ! j)"
    using earliest_found [OF assms] by blast
  have split: "xs = take (nat k) xs @ xs ! nat k # drop (nat k + 1) xs"
    using k(2,3) by (simp add: id_take_nth_drop nat_less_iff)
  have "\<forall>y \<in> set (take (nat k) xs). item_time (xs ! nat k) < item_time y" using k(2-4) by (auto simp: in_set_conv_nth)
  moreover have "\<forall>y \<in> set (drop (nat k + 1) xs). item_time (xs ! nat k) \<le> item_time y"
    using k(5) by (auto dest!: in_set_dropD simp: in_set_conv_nth)
  ultimately have "sort_key item_time xs = xs ! nat k # sort_key item_time (take (nat k) xs @ drop (nat k + 1) xs)"
      "remove1 (xs ! nat k) xs = take (nat k) xs @ drop (nat k + 1) xs"
    using first_minimum [of "take (nat k) xs" item_time "xs ! nat k" "drop (nat k + 1) xs"] split by simp_all
  then show ?thesis using remove_item [OF assms(1) k(2,3)] item_at [OF assms(1) k(2,3)] k(1) assms
    by (auto simp: RemoveEarliestItem_def queue_at_def)
qed

subsection \<open>Sequences of operations\<close>

lemma remove_from_empty: "queue_at q [] \<Longrightarrow> RemoveEarliestItem q = Some (Inl ERR_REMOVE_FROM_EMPTY_QUEUE)"
  by (simp add: RemoveEarliestItem_def queue_at_def)

lemma step_refines:
  assumes "pointer_arrays new" "queue_at q xs" "length xs < 2 ^ 30"
  shows "\<exists>q'. queue_step new u op q = Some (fst (spec_step u op xs), q') \<and> queue_at q' (snd (spec_step u op xs))"
proof (cases op)
  case (Enqueue x)
  then show ?thesis using insert_item [OF assms, of x] by auto
next
  case Dequeue
  then show ?thesis using remove_earliest_item [OF assms(2)] remove_from_empty assms(2) by (cases "xs = []") auto
qed (use assms(2) earliest_time_tag [OF assms(2)] in \<open>auto simp: GetNumItems_def queue_at_def\<close>)

lemma length_step: "length (snd (spec_step u op xs)) \<le> length xs + 1"
  by (cases op) (auto split: list.splits simp: length_remove1)

lemma run_refines:
  assumes "pointer_arrays new" "queue_at q xs" "length xs + length ops \<le> 2 ^ 30"
  shows "queue_run new u ops q = Some (spec_run u ops xs)"
  using assms(2,3)
proof (induction ops arbitrary: q xs)
  case (Cons op ops)
  obtain q' where q': "queue_step new u op q = Some (fst (spec_step u op xs), q')" "queue_at q' (snd (spec_step u op xs))"
    using step_refines [OF assms(1) Cons.prems(1)] Cons.prems(2) by auto
  then show ?case using Cons.IH [OF q'(2)] Cons.prems(2) length_step [of u op xs] by (simp add: case_prod_unfold Let_def)
qed simp

text \<open>C37: Whatever is inserted, removed and asked for, in any order, a queue with a positive capacity answers
  like the list of its items: the earliest item is the first of those with the smallest time tag, an empty queue
  throws, the earliest time tag of an empty queue is the largest one. The array is never left, although it is
  doubled on the way.\<close>

theorem queue_refines:
  assumes "pointer_arrays new" "0 < capacity" "capacity < 2 ^ 31" "length ops \<le> 2 ^ 30"
  shows "\<exists>q. WOscPriorityQueue_new new capacity = Some q \<and> queue_run new u ops q = Some (spec_run u ops [])"
  using new_queue [OF assms(1-3)] run_refines [OF assms(1) _, of _ "[]" ops u] assms(4) by auto

text \<open>A queue with room for one item: the second item of the same time is removed after the first.\<close>

lemma queue_refines_witness:
  "\<exists>q. WOscPriorityQueue_new (\<lambda>n. replicate (nat n) None) 1 = Some q \<and>
     queue_run (\<lambda>n. replicate (nat n) None) 99
       [Dequeue, Peek, Enqueue \<lparr>item_time = 5, m_ra = Some 1\<rparr>, Enqueue \<lparr>item_time = 3, m_ra = Some 2\<rparr>,
        Enqueue \<lparr>item_time = 3, m_ra = Some 3\<rparr>, Peek, Dequeue, Dequeue, Size] q =
     Some [Thrown ERR_REMOVE_FROM_EMPTY_QUEUE, Tag 99, Done, Done, Done, Tag 3, Removed \<lparr>item_time = 3, m_ra = Some 2\<rparr>,
        Removed \<lparr>item_time = 3, m_ra = Some 3\<rparr>, Number 1]"
proof -
  let ?ops = "[Dequeue, Peek, Enqueue \<lparr>item_time = 5, m_ra = Some 1\<rparr>, Enqueue \<lparr>item_time = 3, m_ra = Some 2\<rparr>,
    Enqueue \<lparr>item_time = 3, m_ra = Some 3\<rparr>, Peek, Dequeue, Dequeue, Size]"
  have "pointer_arrays (\<lambda>n. replicate (nat n) None)" by (simp add: pointer_arrays_def)
  from queue_refines [OF this, of 1 ?ops 99] show ?thesis by simp
qed

text \<open>All items that are inserted come out in the order of their time tags, those of the same time in the order in
  which they were inserted.\<close>

lemma first_minimum_exists:
  assumes "xs \<noteq> []"
  obtains a x b where "xs = a @ x # b" "\<forall>y \<in> set a. f x < f y" "\<forall>y \<in> set b. f x \<le> (f y :: _ :: linorder)"
  using assms
proof (induction xs arbitrary: thesis)
  case (Cons z zs)
  show ?case
  proof (cases "zs = []")
    case False
    then obtain a x b where split: "zs = a @ x # b" "\<forall>y \<in> set a. f x < f y" "\<forall>y \<in> set b. f x \<le> f y"
      using Cons.IH by blast
    then show ?thesis
      using Cons.prems(1) [of "[]" z zs] Cons.prems(1) [of "z # a" x b] by (cases "f z \<le> f x") fastforce+
  qed (use Cons.prems(1) [of "[]" z "[]"] in simp)
qed simp

lemma spec_dequeues: "spec_run u (replicate (length xs) Dequeue) xs = map Removed (sort_key item_time xs)"
proof (induction "length xs" arbitrary: xs)
  case (Suc n)
  then have "xs \<noteq> []" by auto
  then obtain a x b where split: "xs = a @ x # b" "\<forall>y \<in> set a. item_time x < item_time y" "\<forall>y \<in> set b. item_time x \<le> item_time y"
    using first_minimum_exists [of xs item_time] by blast
  then have "n = length (a @ b)" using Suc.hyps(2) by simp
  then show ?case using Suc.hyps(1) [of "a @ b"] first_minimum [OF split(2,3)] by (simp add: split(1))
qed simp

lemma spec_enqueues: "spec_run u (map Enqueue xs @ ops) ys = replicate (length xs) Done @ spec_run u ops (ys @ xs)"
  by (induction xs arbitrary: ys) simp_all

lemma queue_sorts:
  assumes "pointer_arrays new" "0 < capacity" "capacity < 2 ^ 31" "length xs \<le> 2 ^ 29"
  shows "\<exists>q. WOscPriorityQueue_new new capacity = Some q \<and>
    queue_run new u (map Enqueue xs @ replicate (length xs) Dequeue) q =
      Some (replicate (length xs) Done @ map Removed (sort_key item_time xs))"
  using new_queue [OF assms(1-3)] run_refines [OF assms(1) _, of _ "[]" "map Enqueue xs @ replicate (length xs) Dequeue" u] assms(4)
  by (auto simp: spec_enqueues spec_dequeues)

text \<open>A capacity of 0 is doubled to 0: the first item is written behind the array.\<close>

lemma empty_capacity_overrun:
  assumes "pointer_arrays new" "WOscPriorityQueue_new new 0 = Some q"
  shows "InsertItem new q item = None"
  using assms by (auto simp: WOscPriorityQueue_new_def InsertItem_def DoubleCapacity_def pointer_arrays_def wr_def buf_write_def)

end
