(* ===== verification/Recorder.thy ===== *)
theory Recorder
  imports TreeIdMap Buffers Ieee
begin

text \<open>
  \<^verbatim>\<open>xtrack/parameters.cpp\<close>, \<^verbatim>\<open>xtrack/record.cpp\<close> and the modes of the main loop in
  \<^verbatim>\<open>xtrack/xtrack.cpp\<close>: normal operation, recording and playback, between which the keys
  switch. What the file system and OpenCV do is a parameter: the listing of the directory, which
  files can be opened, and how many frames they hold. An exception that is not caught, as the
  assertion of OpenCV on an empty image, is a fault.
\<close>

subsection \<open>Parameters\<close>

type_synonym parameters = "string \<rightharpoonup> string"

text \<open>\<open>stream >> int\<close> in the default locale; \<open>None\<close> is the fail bit.\<close>

definition is_digit :: "char \<Rightarrow> bool" where
  "is_digit c \<longleftrightarrow> 48 \<le> (of_char c :: nat) \<and> (of_char c :: nat) \<le> 57"

definition digits_value :: "string \<Rightarrow> nat" where
  "digits_value s = foldl (\<lambda>n c. 10 * n + (of_char c - 48)) 0 s"

definition read_int :: "string \<Rightarrow> int option" where
  "read_int s = (let s = dropWhile isspace s;
       minus = (s \<noteq> [] \<and> hd s = CHR ''-'');
       s = (if s \<noteq> [] \<and> (hd s = CHR ''-'' \<or> hd s = CHR ''+'') then tl s else s);
       ds = takeWhile is_digit s;
       v = (if minus then - int (digits_value ds) else int (digits_value ds))
     in if ds = [] \<or> v < - (2 ^ 31) \<or> 2 ^ 31 \<le> v then None else Some v)"

text \<open>\<open>throw 1\<close> is the left summand.\<close>

definition intParam :: "parameters \<Rightarrow> string \<Rightarrow> int \<Rightarrow> int + int" where
  "intParam parameters key defaultValue = (case parameters key of
     None \<Rightarrow> Inr defaultValue
   | Some value \<Rightarrow> (case read_int value of None \<Rightarrow> Inl 1 | Some result \<Rightarrow> Inr result))"

definition stringParam :: "parameters \<Rightarrow> string \<Rightarrow> string \<Rightarrow> string" where
  "stringParam parameters key defaultValue = (case parameters key of None \<Rightarrow> defaultValue | Some value \<Rightarrow> value)"

definition boolParam :: "parameters \<Rightarrow> string \<Rightarrow> bool \<Rightarrow> bool" where
  "boolParam parameters key defaultValue = (case parameters key of None \<Rightarrow> defaultValue | Some value \<Rightarrow> value = ''true'')"

text \<open>\<open>read_double\<close> is \<open>stream >> double\<close>.\<close>

definition doubleParam :: "(string \<Rightarrow> ieee option) \<Rightarrow> parameters \<Rightarrow> string \<Rightarrow> ieee \<Rightarrow> int + ieee" where
  "doubleParam read_double parameters key defaultValue = (case parameters key of
     None \<Rightarrow> Inr defaultValue
   | Some value \<Rightarrow> (case read_double value of None \<Rightarrow> Inl 1 | Some result \<Rightarrow> Inr result))"

text \<open>\<open>find_first_of('=', 1)\<close>; the arguments of the program without its name.\<close>

definition add_argument :: "parameters \<Rightarrow> string \<Rightarrow> parameters" where
  "add_argument parameters param = (
     let equalsIndex = 1 + length (takeWhile (\<lambda>c. c \<noteq> CHR ''='') (tl param))
     in if equalsIndex < length param \<and> equalsIndex < length param - 1
        then parameters(take equalsIndex param \<mapsto> drop (equalsIndex + 1) param)
        else parameters)"

definition parse_arguments :: "string list \<Rightarrow> parameters" where
  "parse_arguments argv = foldl add_argument Map.empty argv"

subsection \<open>File numbers\<close>

definition FILE_PREFIX :: string where "FILE_PREFIX = ''xtrack''"
definition FILE_EXT :: string where "FILE_EXT = ''.avi''"

text \<open>\<open>substr\<close> throws when the position is behind the end; a count that wraps around is the rest.\<close>

definition substr :: "string \<Rightarrow> nat \<Rightarrow> 64 word \<Rightarrow> string option" where
  "substr s pos n = (if pos \<le> length s then Some (take (unat n) (drop pos s)) else None)"

definition file_number :: "string \<Rightarrow> int option option" where
  "file_number fileName = do {
     s \<leftarrow> substr fileName (length FILE_PREFIX)
       (of_nat (length fileName) - of_nat (length FILE_PREFIX) - of_nat (length FILE_EXT));
     Some (read_int s)
   }"

definition is_next :: "int \<Rightarrow> int \<Rightarrow> int \<Rightarrow> bool" where
  "is_next currentFileNum nextFileNum fileNum \<longleftrightarrow>
     nextFileNum < 0 \<or>
     fileNum > currentFileNum \<and> (nextFileNum \<le> currentFileNum \<or> fileNum < nextFileNum) \<or>
     nextFileNum \<le> currentFileNum \<and> fileNum < nextFileNum"

text \<open>The files that the search finds, each with the attribute that it is a directory.\<close>

type_synonym listing = "(string \<times> bool) list"

fun next_loop :: "int \<Rightarrow> listing \<Rightarrow> int \<Rightarrow> int option" where
  "next_loop currentFileNum [] nextFileNum = Some nextFileNum"
| "next_loop currentFileNum ((fileName, directory) # files) nextFileNum = do {
     nextFileNum \<leftarrow> (if directory then Some nextFileNum
       else do {
         number \<leftarrow> file_number fileName;
         Some (case number of None \<Rightarrow> nextFileNum
           | Some fileNum \<Rightarrow> if is_next currentFileNum nextFileNum fileNum then fileNum else nextFileNum)
       });
     next_loop currentFileNum files nextFileNum
   }"

definition getNextFileNum :: "listing \<Rightarrow> int \<Rightarrow> int option" where
  "getNextFileNum files currentFileNum = next_loop currentFileNum files (- 1)"

fun last_loop :: "listing \<Rightarrow> int \<Rightarrow> int option" where
  "last_loop [] lastFileNum = Some lastFileNum"
| "last_loop ((fileName, directory) # files) lastFileNum = do {
     lastFileNum \<leftarrow> (if directory then Some lastFileNum
       else do {
         number \<leftarrow> file_number fileName;
         Some (case number of None \<Rightarrow> lastFileNum | Some fileNum \<Rightarrow> if fileNum > lastFileNum then fileNum else lastFileNum)
       });
     last_loop files lastFileNum
   }"

definition getLastFileNum :: "listing \<Rightarrow> int option" where
  "getLastFileNum files = last_loop files 0"

text \<open>\<open>output << fileNum\<close> with width 3 and fill character \<open>0\<close>.\<close>

fun decimal :: "nat \<Rightarrow> string" where
  "decimal n = (if n < 10 then [char_of (48 + n)] else decimal (n div 10) @ [char_of (48 + n mod 10)])"

declare decimal.simps [simp del]

definition show_int :: "int \<Rightarrow> string" where
  "show_int i = (let s = (if i < 0 then CHR ''-'' # decimal (nat (- i)) else decimal (nat i))
     in replicate (3 - length s) CHR ''0'' @ s)"

definition getFileName :: "string \<Rightarrow> int \<Rightarrow> string" where
  "getFileName videoDir fileNum = videoDir @ FILE_PREFIX @ show_int fileNum @ FILE_EXT"

subsection \<open>The recorder\<close>

text \<open>
  What the environment does during one frame: the files in the directory, which names can be
  opened for writing and reading, and the number of frames of a file.
\<close>

record Environment =
  listing_of :: listing
  can_write :: "string \<Rightarrow> bool"
  can_read :: "string \<Rightarrow> bool"
  frame_count :: "string \<Rightarrow> nat"

text \<open>
  An open writer is its file and the number of frames written, an open reader its file and position;
  \<open>lastPlayedFrame\<close> tells whether the pointer leads to an allocated frame. Frames themselves are left out.
\<close>

record CameraRecorder =
  videoWriter :: "(string \<times> nat) option"
  videoReader :: "(string \<times> nat) option"
  videoDir :: string
  recordFrameRate :: ieee
  frameRateRatio :: ieee
  frameProgress :: ieee
  codec :: int
  origSize :: "int \<times> int"
  recordSize :: "int \<times> int"
  lastPlayedFileNum :: int
  lastPlayedFrame :: bool

text \<open>The value 1.0 of a \<open>double\<close>, and the sums and products.\<close>

abbreviation one :: ieee where "one \<equiv> Num False 1"
abbreviation "radd \<equiv> fadd binary64"
abbreviation "rsub \<equiv> fsub binary64"
abbreviation "rmul \<equiv> fmul binary64"
abbreviation "rdiv \<equiv> fdiv binary64"

text \<open>
  The constructor. \<open>progress\<close> is the uninitialised \<open>frameProgress\<close>, \<open>fourcc\<close> the function of OpenCV
  that packs the characters of a codec; \<open>videoDir.at\<close> throws for the empty string.
\<close>

definition CameraRecorder_new :: "(string \<Rightarrow> ieee option) \<Rightarrow> (string \<Rightarrow> int) \<Rightarrow> ieee \<Rightarrow> parameters \<Rightarrow> int \<times> int \<Rightarrow>
    (int + CameraRecorder) option" where
  "CameraRecorder_new read_double fourcc progress parameters fsize = (
     case intParam parameters ''ftime'' 33 of Inl e \<Rightarrow> Some (Inl e) | Inr frameTime \<Rightarrow>
     if frameTime \<le> 0 then Some (Inl 1) else
     let videoDir = stringParam parameters ''recorddir'' [CHR ''.'', CHR 0x5C] in
     if videoDir = [] then None else
     let videoDir = (if last videoDir \<noteq> CHR 0x5C then videoDir @ [CHR 0x5C] else videoDir);
         origFrameRate = rdiv (fint binary64 1000) (fint binary64 frameTime) in
     case doubleParam read_double parameters ''recfpsscale'' (of_value binary64 False (6 / 10)) of Inl e \<Rightarrow> Some (Inl e) | Inr scale \<Rightarrow>
     let recordFrameRate = rmul origFrameRate scale in
     if fleq recordFrameRate (Num False 0) \<or> fless origFrameRate recordFrameRate then Some (Inl 1) else
     let codecStr = stringParam parameters ''codec'' ''PIM1'';
         codec = (if length codecStr = 4 then fourcc codecStr else - 1) in
     case doubleParam read_double parameters ''recordscale'' (of_value binary64 False (4 / 10)) of Inl e \<Rightarrow> Some (Inl e) | Inr recordScale \<Rightarrow>
     do {
       width \<leftarrow> to_int32 (rmul recordScale (fint binary64 (fst fsize)));
       height \<leftarrow> to_int32 (rmul recordScale (fint binary64 (snd fsize)));
       Some (Inr \<lparr>videoWriter = None, videoReader = None, videoDir = videoDir, recordFrameRate = recordFrameRate,
         frameRateRatio = rdiv recordFrameRate origFrameRate, frameProgress = progress, codec = codec, origSize = fsize,
         recordSize = (width, height), lastPlayedFileNum = - 1, lastPlayedFrame = False\<rparr>)
     })"

text \<open>\<open>getLastFileNum() + 1\<close> overflows for the largest number.\<close>

definition startRecording :: "Environment \<Rightarrow> CameraRecorder \<Rightarrow> (bool \<times> CameraRecorder) option" where
  "startRecording env rcd = do {
     lastFileNum \<leftarrow> getLastFileNum (listing_of env);
     c_assert (lastFileNum < 2 ^ 31 - 1);
     let nextFileNum = lastFileNum + 1;
     let fileName = getFileName (videoDir rcd) nextFileNum;
     if can_write env fileName
     then Some (True, rcd\<lparr>videoWriter := Some (fileName, 0), lastPlayedFileNum := nextFileNum, frameProgress := Num False 0\<rparr>)
     else Some (False, rcd\<lparr>videoWriter := None\<rparr>)
   }"

text \<open>\<open>resize\<close> fails on an empty image; a writer that is not open ignores the frame.\<close>

definition recordFrame :: "CameraRecorder \<Rightarrow> bool \<Rightarrow> CameraRecorder option" where
  "recordFrame rcd input = (
     let progress = radd (frameProgress rcd) (frameRateRatio rcd) in
     if fleq one progress then do {
       c_assert input;
       Some (rcd\<lparr>videoWriter := map_option (\<lambda>(f, n). (f, n + 1)) (videoWriter rcd), frameProgress := rsub progress one\<rparr>)
     } else Some (rcd\<lparr>frameProgress := progress\<rparr>))"

definition stopRecording :: "CameraRecorder \<Rightarrow> CameraRecorder" where
  "stopRecording rcd = rcd\<lparr>videoWriter := None\<rparr>"

definition open_reader :: "Environment \<Rightarrow> string \<Rightarrow> (string \<times> nat) option" where
  "open_reader env fileName = (if can_read env fileName then Some (fileName, 0) else None)"

definition startPlayback :: "Environment \<Rightarrow> CameraRecorder \<Rightarrow> (bool \<times> CameraRecorder) option" where
  "startPlayback env rcd = do {
     nextFileNum \<leftarrow> (if lastPlayedFileNum rcd < 0 then getNextFileNum (listing_of env) (lastPlayedFileNum rcd)
       else Some (lastPlayedFileNum rcd));
     let fileName = getFileName (videoDir rcd) nextFileNum;
     let rcd = rcd\<lparr>videoReader := open_reader env fileName\<rparr>;
     if videoReader rcd \<noteq> None
     then Some (True, rcd\<lparr>lastPlayedFileNum := nextFileNum, frameProgress := Num False 0, lastPlayedFrame := True\<rparr>)
     else Some (False, rcd)
   }"

text \<open>\<open>videoReader >> frame\<close>: whether the frame has rows and columns.\<close>

definition read_frame :: "Environment \<Rightarrow> CameraRecorder \<Rightarrow> bool \<times> CameraRecorder" where
  "read_frame env rcd = (case videoReader rcd of
     None \<Rightarrow> (False, rcd)
   | Some (f, n) \<Rightarrow> if n < frame_count env f then (True, rcd\<lparr>videoReader := Some (f, n + 1)\<rparr>) else (False, rcd))"

partial_function (option) find_frame :: "Environment \<Rightarrow> bool \<times> CameraRecorder \<Rightarrow> CameraRecorder option" where
  "find_frame env s = (case s of (frame, rcd) \<Rightarrow>
     if frame then Some rcd
     else do {
       fileNum \<leftarrow> getNextFileNum (listing_of env) (lastPlayedFileNum rcd);
       let rcd = rcd\<lparr>lastPlayedFileNum := fileNum\<rparr>;
       let rcd = rcd\<lparr>videoReader := open_reader env (getFileName (videoDir rcd) fileNum)\<rparr>;
       find_frame env (read_frame env rcd)
     })"

declare find_frame.simps [code]

text \<open>The pointer \<open>lastPlayedFrame\<close> is deleted and allocated again.\<close>

definition playbackFrame :: "Environment \<Rightarrow> CameraRecorder \<Rightarrow> CameraRecorder option" where
  "playbackFrame env rcd = (
     let progress = radd (frameProgress rcd) (frameRateRatio rcd);
         rcd = rcd\<lparr>frameProgress := progress\<rparr> in
     if fleq one progress then do {
       c_assert (lastPlayedFrame rcd);
       rcd \<leftarrow> find_frame env (read_frame env (rcd\<lparr>lastPlayedFrame := False\<rparr>));
       Some (rcd\<lparr>frameProgress := rsub (frameProgress rcd) one, lastPlayedFrame := True\<rparr>)
     } else do {
       c_assert (lastPlayedFrame rcd);
       Some rcd
     })"

definition stopPlayback :: "CameraRecorder \<Rightarrow> CameraRecorder option" where
  "stopPlayback rcd = do {
     c_assert (lastPlayedFrame rcd);
     Some (rcd\<lparr>videoReader := None, lastPlayedFrame := False\<rparr>)
   }"

subsection \<open>The modes of the main loop\<close>

datatype RecordMode = NORMAL | RECORDING | PLAYBACK

record Modes =
  recordMode :: RecordMode
  cameraDisplay :: bool
  displayMat :: bool
  cameraRecorder :: CameraRecorder
  term_requested :: bool

text \<open>\<open>cameraDisplay\<close> and \<open>displayMat\<close>: the pointer is not null, the image is not empty.\<close>

definition record_or_play :: "Environment \<Rightarrow> Modes \<Rightarrow> Modes option" where
  "record_or_play env m = (
     let m = (if cameraDisplay m \<and> recordMode m \<noteq> PLAYBACK then m\<lparr>displayMat := True\<rparr> else m) in
     case recordMode m of
       RECORDING \<Rightarrow> do {
         rcd \<leftarrow> recordFrame (cameraRecorder m) (displayMat m);
         Some (m\<lparr>cameraRecorder := rcd\<rparr>)
       }
     | PLAYBACK \<Rightarrow> do {
         rcd \<leftarrow> playbackFrame env (cameraRecorder m);
         c_assert (cameraDisplay m);
         Some (m\<lparr>cameraRecorder := rcd\<rparr>)
       }
     | NORMAL \<Rightarrow> Some m)"

definition try_playback :: "Environment \<Rightarrow> Modes \<Rightarrow> Modes option" where
  "try_playback env m = (
     if \<not> cameraDisplay m then Some m
     else do {
       (started, rcd) \<leftarrow> startPlayback env (cameraRecorder m);
       Some (m\<lparr>cameraRecorder := rcd, recordMode := (if started then PLAYBACK else recordMode m)\<rparr>)
     })"

definition handle_key :: "Environment \<Rightarrow> int \<Rightarrow> Modes \<Rightarrow> Modes option" where
  "handle_key env key m = (
     if key = 27 \<or> key = of_char CHR ''q'' then Some (m\<lparr>term_requested := True\<rparr>)
     else if key = of_char CHR ''r'' then
       (if recordMode m = NORMAL then do {
          (started, rcd) \<leftarrow> startRecording env (cameraRecorder m);
          Some (m\<lparr>cameraRecorder := rcd, recordMode := (if started then RECORDING else NORMAL)\<rparr>)
        } else Some m)
     else if key = of_char CHR ''s'' then
       (case recordMode m of
          RECORDING \<Rightarrow> Some (m\<lparr>cameraRecorder := stopRecording (cameraRecorder m), recordMode := NORMAL\<rparr>)
        | PLAYBACK \<Rightarrow> do {
            rcd \<leftarrow> stopPlayback (cameraRecorder m);
            Some (m\<lparr>cameraRecorder := rcd, recordMode := NORMAL\<rparr>)
          }
        | NORMAL \<Rightarrow> Some (m\<lparr>recordMode := NORMAL\<rparr>))
     else if key = of_char CHR ''p'' then
       (case recordMode m of
          RECORDING \<Rightarrow> try_playback env (m\<lparr>cameraRecorder := stopRecording (cameraRecorder m)\<rparr>)
        | NORMAL \<Rightarrow> try_playback env m
        | PLAYBACK \<Rightarrow> Some m)
     else Some m)"

text \<open>The time that the loop waits for a key; the clocks are in milliseconds.\<close>

definition waitTime :: "int \<Rightarrow> ieee \<Rightarrow> ieee \<Rightarrow> int option" where
  "waitTime frameTime frameStartClock frameEndClock = do {
     elapsed \<leftarrow> to_int32 (radd (rsub frameEndClock frameStartClock) (Num False (1 / 2)));
     let t = frameTime - elapsed;
     Some (if t \<le> 0 then 1 else t)
   }"

text \<open>The frames until the program is asked to end, with what the environment does and the key
  that is pressed, and what follows the loop.\<close>

fun run_modes :: "(Environment \<times> int) list \<Rightarrow> Modes \<Rightarrow> Modes option" where
  "run_modes [] m = Some m"
| "run_modes ((env, key) # frames) m = do {
     m \<leftarrow> record_or_play env m;
     m \<leftarrow> handle_key env key m;
     if term_requested m then Some m else run_modes frames m
   }"

definition finish :: "Modes \<Rightarrow> Modes option" where
  "finish m = (case recordMode m of
     RECORDING \<Rightarrow> Some (m\<lparr>cameraRecorder := stopRecording (cameraRecorder m)\<rparr>)
   | PLAYBACK \<Rightarrow> do {
       rcd \<leftarrow> stopPlayback (cameraRecorder m);
       Some (m\<lparr>cameraRecorder := rcd\<rparr>)
     }
   | NORMAL \<Rightarrow> Some m)"

subsection \<open>Numbers in file names\<close>

lemma digit_char: "(d::nat) < 10 \<Longrightarrow> (of_char (char_of (48 + d) :: char) :: nat) = 48 + d"
  by simp

lemma is_digit_char: "(d::nat) < 10 \<Longrightarrow> is_digit (char_of (48 + d))"
  by (simp add: is_digit_def)

lemma digits_value_append: "digits_value (s @ [c]) = 10 * digits_value s + (of_char c - 48)"
  by (simp add: digits_value_def)

lemma decimal_ok: "decimal n \<noteq> [] \<and> list_all is_digit (decimal n) \<and> digits_value (decimal n) = n \<and> length (decimal n) \<le> Suc n"
proof (induction n rule: decimal.induct)
  case (1 n)
  show ?case
  proof (cases "n < 10")
    case True
    then show ?thesis by (subst (1 2 3 4) decimal.simps) (simp add: is_digit_char digits_value_def)
  next
    case False
    then have "Suc (n div 10) \<le> n" by simp
    then show ?thesis
      using False 1 by (subst (1 2 3 4) decimal.simps) (simp add: is_digit_char digits_value_append)
  qed
qed

lemma digits_value_zeros: "digits_value (replicate k CHR ''0'' @ s) = digits_value s"
  by (induction k) (simp_all add: digits_value_def)

lemma read_digits:
  assumes "ds \<noteq> []" "list_all is_digit ds" "int (digits_value ds) < 2 ^ 31"
  shows "read_int ds = Some (int (digits_value ds))"
proof -
  obtain c cs where c: "ds = c # cs" "is_digit c" using assms(1,2) by (cases ds) auto
  have "\<not> isspace c" "c \<noteq> CHR ''-''" "c \<noteq> CHR ''+''" using c(2) by (auto simp: is_digit_def isspace_def)
  moreover have rest: "takeWhile is_digit cs = cs" using assms(2) unfolding c(1) by (simp add: list_all_iff takeWhile_eq_all_conv)
  ultimately show ?thesis using assms(3) c by (simp add: read_int_def Let_def rest)
qed

lemma show_int_ok:
  assumes "0 \<le> n" "n < 2 ^ 31"
  shows "read_int (show_int n) = Some n" "length (show_int n) \<le> nat n + 3"
proof -
  let ?s = "decimal (nat n)"
  have s: "show_int n = replicate (3 - length ?s) CHR ''0'' @ ?s" using assms(1) by (simp add: show_int_def Let_def)
  have "is_digit CHR ''0''" by (simp add: is_digit_def)
  then have "list_all is_digit (show_int n)" "show_int n \<noteq> []" "digits_value (show_int n) = nat n"
    using decimal_ok [of "nat n"] by (auto simp add: s list_all_iff digits_value_zeros)
  then show "read_int (show_int n) = Some n" using read_digits [of "show_int n"] assms by simp
  show "length (show_int n) \<le> nat n + 3" using decimal_ok [of "nat n"] by (simp add: s) linarith
qed

text \<open>The number of a file that the program has written is read back from its name.\<close>

lemma file_number_written:
  assumes "0 \<le> n" "n < 2 ^ 31"
  shows "file_number (FILE_PREFIX @ show_int n @ FILE_EXT) = Some (Some n)"
proof -
  let ?s = "show_int n"
  have "of_nat (length (FILE_PREFIX @ ?s @ FILE_EXT)) - of_nat (length FILE_PREFIX) - of_nat (length FILE_EXT) = (of_nat (length ?s) :: 64 word)"
    by (simp add: FILE_PREFIX_def FILE_EXT_def)
  moreover have "unat (of_nat (length ?s) :: 64 word) = length ?s"
    using show_int_ok(2) [OF assms] assms by (simp add: unat_of_nat take_bit_nat_eq_self)
  ultimately show ?thesis
    using show_int_ok(1) [OF assms] by (simp add: file_number_def substr_def)
qed

subsection \<open>The search for numbers\<close>

definition numbers :: "listing \<Rightarrow> int set" where
  "numbers files = {n. \<exists>f. (f, False) \<in> set files \<and> file_number f = Some (Some n)}"

definition searchable :: "listing \<Rightarrow> bool" where
  "searchable files \<longleftrightarrow> (\<forall>(f, directory) \<in> set files. length FILE_PREFIX \<le> length f)"

lemma numbers_Nil: "numbers [] = {}"
  by (simp add: numbers_def)

lemma numbers_Cons:
  "numbers ((f, d) # files) = (if d then {} else {n. file_number f = Some (Some n)}) \<union> numbers files"
  by (auto simp: numbers_def)

lemma searchable_Cons: "searchable ((f, d) # files) \<longleftrightarrow> length FILE_PREFIX \<le> length f \<and> searchable files"
  by (simp add: searchable_def)

lemma file_number_returns: "length FILE_PREFIX \<le> length f \<Longrightarrow> \<exists>number. file_number f = Some number"
  by (simp add: file_number_def substr_def)

lemma last_loop_ok:
  "searchable files \<Longrightarrow> \<exists>r. last_loop files a = Some r \<and> a \<le> r \<and> (\<forall>n \<in> numbers files. n \<le> r) \<and> (r = a \<or> r \<in> numbers files)"
proof (induction files arbitrary: a)
  case (Cons e files)
  obtain f d where e: "e = (f, d)" by (cases e)
  obtain number where number: "file_number f = Some number"
    using Cons.prems file_number_returns by (auto simp: e searchable_Cons)
  let ?a = "if d then a else case number of None \<Rightarrow> a | Some n \<Rightarrow> if n > a then n else a"
  obtain r where "last_loop files ?a = Some r" "?a \<le> r" "\<forall>n \<in> numbers files. n \<le> r" "r = ?a \<or> r \<in> numbers files"
    using Cons.IH [of ?a] Cons.prems by (auto simp: e searchable_Cons)
  then show ?case
    by (intro exI [of _ r]) (auto simp: e number numbers_Cons split: option.splits if_splits)
qed (simp add: numbers_Nil)

lemma next_loop_ok:
  "searchable files \<Longrightarrow> \<exists>r. next_loop cur files a = Some r \<and> (r = a \<or> r \<in> numbers files) \<and> (a < 0 \<and> numbers files \<noteq> {} \<longrightarrow> r \<in> numbers files)"
proof (induction files arbitrary: a)
  case (Cons e files)
  obtain f d where e: "e = (f, d)" by (cases e)
  obtain number where number: "file_number f = Some number"
    using Cons.prems file_number_returns by (auto simp: e searchable_Cons)
  let ?a = "if d then a else case number of None \<Rightarrow> a | Some n \<Rightarrow> if is_next cur a n then n else a"
  obtain r where r: "next_loop cur files ?a = Some r" "r = ?a \<or> r \<in> numbers files" "?a < 0 \<and> numbers files \<noteq> {} \<longrightarrow> r \<in> numbers files"
    using Cons.IH [of ?a] Cons.prems by (auto simp: e searchable_Cons)
  have "is_next cur a n" if "a < 0" for n using that by (simp add: is_next_def)
  then show ?case
    using r by (intro exI [of _ r]) (auto simp: e number numbers_Cons split: option.splits if_splits)
qed (simp add: numbers_Nil)

lemma getLastFileNum_ok:
  "searchable files \<Longrightarrow> \<exists>r \<ge> 0. getLastFileNum files = Some r \<and> (\<forall>n \<in> numbers files. n \<le> r) \<and> (r = 0 \<or> r \<in> numbers files)"
  using last_loop_ok [of files 0] unfolding getLastFileNum_def by blast

subsection \<open>Recording\<close>

text \<open>C12: A recording never overwrites a file: \<open>startRecording\<close> returns, and the name that it opens
  is that of no file in the directory and has a number above all numbers in it.\<close>

theorem recording_fresh:
  assumes "searchable (listing_of env)" "\<forall>n \<in> numbers (listing_of env). n < 2 ^ 31 - 1"
  shows "\<exists>name rcd'. startRecording env rcd = Some (can_write env (videoDir rcd @ name), rcd') \<and>
    (name, False) \<notin> set (listing_of env) \<and>
    (can_write env (videoDir rcd @ name) \<longrightarrow> videoWriter rcd' = Some (videoDir rcd @ name, 0) \<and>
      (\<forall>n \<in> numbers (listing_of env). n < lastPlayedFileNum rcd') \<and> file_number name = Some (Some (lastPlayedFileNum rcd')))"
proof -
  obtain r where r: "0 \<le> r" "getLastFileNum (listing_of env) = Some r" "\<forall>n \<in> numbers (listing_of env). n \<le> r"
      "r = 0 \<or> r \<in> numbers (listing_of env)"
    using getLastFileNum_ok [OF assms(1)] by blast
  let ?name = "FILE_PREFIX @ show_int (r + 1) @ FILE_EXT"
  have small: "r < 2 ^ 31 - 1" using r(4) assms(2) by auto
  then have name: "file_number ?name = Some (Some (r + 1))" using file_number_written [of "r + 1"] r(1) by simp
  then have "(?name, False) \<notin> set (listing_of env)" using r(3) by (auto simp: numbers_def)
  then show ?thesis
    using r small name by (intro exI [of _ ?name]) (auto simp: startRecording_def getFileName_def Let_def)
qed

definition some_directory :: Environment where
  "some_directory = \<lparr>listing_of = [(''xtrack007.avi'', False), (''xtracks.avi'', False), (''xtrack009.avi'', True)],
     can_write = (\<lambda>_. True), can_read = (\<lambda>_. True), frame_count = (\<lambda>_. 2)\<rparr>"

definition some_recorder :: CameraRecorder where
  "some_recorder = \<lparr>videoWriter = None, videoReader = None, videoDir = [CHR ''.'', CHR 0x5C], recordFrameRate = Num False 20,
     frameRateRatio = Num False 1, frameProgress = NaN, codec = - 1, origSize = (320, 240), recordSize = (128, 96),
     lastPlayedFileNum = - 1, lastPlayedFrame = False\<rparr>"

lemma some_directory_numbers: "numbers (listing_of some_directory) = {7}"
proof -
  have "file_number ''xtrack007.avi'' = Some (Some 7)" "file_number ''xtracks.avi'' = Some None" by code_simp+
  then show ?thesis by (auto simp: numbers_def some_directory_def)
qed

lemma some_directory_searchable: "searchable (listing_of some_directory)"
  by (simp add: searchable_def some_directory_def FILE_PREFIX_def)

lemma recording_fresh_witness:
  "\<exists>name rcd'. startRecording some_directory some_recorder = Some (True, rcd') \<and>
     (name, False) \<notin> set (listing_of some_directory) \<and> videoWriter rcd' = Some (videoDir some_recorder @ name, 0) \<and> 7 < lastPlayedFileNum rcd'"
proof -
  have "\<forall>n \<in> numbers (listing_of some_directory). n < 2 ^ 31 - 1" by (simp add: some_directory_numbers)
  from recording_fresh [OF some_directory_searchable this, of some_recorder]
  show ?thesis by (auto simp: some_directory_numbers) (auto simp: some_directory_def)
qed

subsection \<open>The modes\<close>

definition modes_ok :: "Modes \<Rightarrow> bool" where
  "modes_ok m \<longleftrightarrow> cameraDisplay m \<and>
     (lastPlayedFrame (cameraRecorder m) \<longleftrightarrow> recordMode m = PLAYBACK) \<and>
     (videoReader (cameraRecorder m) = None \<longleftrightarrow> recordMode m \<noteq> PLAYBACK) \<and>
     (recordMode m \<noteq> RECORDING \<longrightarrow> videoWriter (cameraRecorder m) = None)"

text \<open>The directory holds recordings, and every numbered file in it can be played.\<close>

definition playable :: "string \<Rightarrow> Environment \<Rightarrow> bool" where
  "playable dir env \<longleftrightarrow> searchable (listing_of env) \<and> numbers (listing_of env) \<noteq> {} \<and>
     (\<forall>n \<in> numbers (listing_of env). n < 2 ^ 31 - 1 \<and> can_read env (getFileName dir n) \<and> 0 < frame_count env (getFileName dir n))"

lemma getNextFileNum_ok:
  "playable dir env \<Longrightarrow> \<exists>r \<in> numbers (listing_of env). getNextFileNum (listing_of env) cur = Some r"
  using next_loop_ok [of "listing_of env" cur "- 1"] by (auto simp: playable_def getNextFileNum_def)

lemma find_frame_ok:
  assumes "playable (videoDir rcd) env" "videoReader rcd \<noteq> None"
  shows "\<exists>rcd'. find_frame env (read_frame env rcd) = Some rcd' \<and> videoReader rcd' \<noteq> None \<and>
    videoWriter rcd' = videoWriter rcd \<and> lastPlayedFrame rcd' = lastPlayedFrame rcd \<and> videoDir rcd' = videoDir rcd"
proof (cases "read_frame env rcd")
  case (Pair frame rcd1)
  have same: "videoDir rcd1 = videoDir rcd" "videoWriter rcd1 = videoWriter rcd" "lastPlayedFrame rcd1 = lastPlayedFrame rcd"
      "videoReader rcd1 \<noteq> None"
    using Pair assms(2) by (auto simp: read_frame_def split: option.splits if_splits)
  show ?thesis
  proof (cases frame)
    case True
    then show ?thesis using Pair same by (simp add: find_frame.simps)
  next
    case False
    obtain r where r: "r \<in> numbers (listing_of env)" "getNextFileNum (listing_of env) (lastPlayedFileNum rcd1) = Some r"
      using getNextFileNum_ok [OF assms(1)] by blast
    let ?f = "getFileName (videoDir rcd) r"
    have "open_reader env ?f = Some (?f, 0)" "0 < frame_count env ?f"
      using assms(1) r(1) by (simp_all add: playable_def open_reader_def)
    then have "find_frame env (read_frame env rcd) =
        find_frame env (True, rcd1\<lparr>lastPlayedFileNum := r, videoReader := Some (?f, 1)\<rparr>)"
      using Pair False r(2) same(1) by (subst find_frame.simps) (simp add: read_frame_def Let_def)
    then show ?thesis using same by (simp add: find_frame.simps)
  qed
qed

lemma record_or_play_ok:
  assumes "modes_ok m" "playable (videoDir (cameraRecorder m)) env"
  shows "\<exists>m'. record_or_play env m = Some m' \<and> modes_ok m' \<and> videoDir (cameraRecorder m') = videoDir (cameraRecorder m)"
proof (cases "recordMode m")
  case NORMAL
  then show ?thesis using assms(1) by (simp add: record_or_play_def modes_ok_def)
next
  case RECORDING
  then show ?thesis using assms(1) by (auto simp: record_or_play_def modes_ok_def recordFrame_def Let_def)
next
  case PLAYBACK
  let ?rcd = "cameraRecorder m"
  let ?progress = "radd (frameProgress ?rcd) (frameRateRatio ?rcd)"
  obtain rcd' where "find_frame env (read_frame env (?rcd\<lparr>frameProgress := ?progress, lastPlayedFrame := False\<rparr>)) = Some rcd'"
      "videoReader rcd' \<noteq> None" "videoWriter rcd' = videoWriter ?rcd" "videoDir rcd' = videoDir ?rcd"
    using find_frame_ok [of "?rcd\<lparr>frameProgress := ?progress, lastPlayedFrame := False\<rparr>" env] assms PLAYBACK
    by (auto simp: modes_ok_def)
  then show ?thesis
    using assms(1) PLAYBACK by (auto simp: record_or_play_def modes_ok_def playbackFrame_def Let_def)
qed

lemma startPlayback_ok:
  assumes "playable (videoDir rcd) env"
  obtains started rcd' where "startPlayback env rcd = Some (started, rcd')" "videoWriter rcd' = videoWriter rcd"
    "videoDir rcd' = videoDir rcd" "videoReader rcd' = None \<longleftrightarrow> \<not> started" "lastPlayedFrame rcd' \<longleftrightarrow> started \<or> lastPlayedFrame rcd"
proof -
  obtain r where r: "(if lastPlayedFileNum rcd < 0 then getNextFileNum (listing_of env) (lastPlayedFileNum rcd)
      else Some (lastPlayedFileNum rcd)) = Some r"
    using getNextFileNum_ok [OF assms, of "lastPlayedFileNum rcd"] by (cases "lastPlayedFileNum rcd < 0") auto
  show ?thesis
  proof (cases "open_reader env (getFileName (videoDir rcd) r)")
    case None
    then show ?thesis using r by (intro that [of False "rcd\<lparr>videoReader := None\<rparr>"]) (simp_all add: startPlayback_def Let_def)
  next
    case (Some f)
    then show ?thesis using r by (intro that [of True "rcd\<lparr>videoReader := Some f, lastPlayedFileNum := r, frameProgress := Num False 0, lastPlayedFrame := True\<rparr>"]) (simp_all add: startPlayback_def Let_def)
  qed
qed

lemma try_playback_ok:
  assumes "modes_ok m" "recordMode m \<noteq> PLAYBACK" "videoWriter (cameraRecorder m) = None" "playable (videoDir (cameraRecorder m)) env"
  shows "\<exists>m'. try_playback env m = Some m' \<and> modes_ok m' \<and> videoDir (cameraRecorder m') = videoDir (cameraRecorder m)"
proof -
  obtain started rcd' where p: "startPlayback env (cameraRecorder m) = Some (started, rcd')"
      "videoWriter rcd' = videoWriter (cameraRecorder m)" "videoDir rcd' = videoDir (cameraRecorder m)"
      "videoReader rcd' = None \<longleftrightarrow> \<not> started" "lastPlayedFrame rcd' \<longleftrightarrow> started \<or> lastPlayedFrame (cameraRecorder m)"
    by (rule startPlayback_ok [OF assms(4)])
  show ?thesis using p assms(1-3) by (cases started) (simp_all add: try_playback_def modes_ok_def)
qed

lemma startRecording_returns:
  assumes "playable dir env"
  obtains started rcd' where "startRecording env rcd = Some (started, rcd')" "videoReader rcd' = videoReader rcd"
    "lastPlayedFrame rcd' = lastPlayedFrame rcd" "videoDir rcd' = videoDir rcd" "\<not> started \<longrightarrow> videoWriter rcd' = None"
proof -
  obtain r where "getLastFileNum (listing_of env) = Some r" "r < 2 ^ 31 - 1"
    using getLastFileNum_ok [of "listing_of env"] assms by (auto simp: playable_def)
  then show ?thesis
    by (cases "can_write env (getFileName (videoDir rcd) (r + 1))") (auto intro!: that simp: startRecording_def Let_def)
qed

lemma handle_key_ok:
  assumes "modes_ok m" "playable (videoDir (cameraRecorder m)) env"
  shows "\<exists>m'. handle_key env key m = Some m' \<and> modes_ok m' \<and> videoDir (cameraRecorder m') = videoDir (cameraRecorder m)"
proof -
  let ?stop = "m\<lparr>cameraRecorder := stopRecording (cameraRecorder m)\<rparr>"
  have stop: "recordMode m = RECORDING \<Longrightarrow> \<exists>m'. try_playback env ?stop = Some m' \<and> modes_ok m' \<and>
      videoDir (cameraRecorder m') = videoDir (cameraRecorder m)"
    using try_playback_ok [of ?stop env] assms by (simp add: modes_ok_def stopRecording_def)
  have normal: "recordMode m = NORMAL \<Longrightarrow> \<exists>m'. try_playback env m = Some m' \<and> modes_ok m' \<and>
      videoDir (cameraRecorder m') = videoDir (cameraRecorder m)"
    using try_playback_ok [of m env] assms by (simp add: modes_ok_def)
  obtain started rcd' where r: "startRecording env (cameraRecorder m) = Some (started, rcd')"
      "videoReader rcd' = videoReader (cameraRecorder m)" "lastPlayedFrame rcd' = lastPlayedFrame (cameraRecorder m)"
      "videoDir rcd' = videoDir (cameraRecorder m)" "\<not> started \<longrightarrow> videoWriter rcd' = None"
    by (rule startRecording_returns [OF assms(2)])
  show ?thesis
  proof (cases "recordMode m")
    case NORMAL
    then show ?thesis using normal r assms(1) by (cases started) (simp_all add: handle_key_def modes_ok_def)
  next
    case RECORDING
    then show ?thesis using stop assms(1) by (simp add: handle_key_def modes_ok_def stopRecording_def)
  next
    case PLAYBACK
    then show ?thesis using assms(1) by (simp add: handle_key_def modes_ok_def stopPlayback_def)
  qed
qed

lemma finish_ok:
  "modes_ok m \<Longrightarrow> \<exists>m'. finish m = Some m' \<and> videoWriter (cameraRecorder m') = None \<and> videoReader (cameraRecorder m') = None \<and>
     \<not> lastPlayedFrame (cameraRecorder m')"
  by (cases "recordMode m") (auto simp: finish_def modes_ok_def stopRecording_def stopPlayback_def)

text \<open>C11: With the input window open and recordings that can be played, no sequence of frames and
  keys makes recording or playback fail: the deleted frame of a playback is never used, a playback
  always has an open file and a window to show it in, and after the loop neither a file nor a frame is
  left.\<close>

theorem keys_never_fault:
  assumes "modes_ok m" "\<forall>(env, key) \<in> set frames. playable (videoDir (cameraRecorder m)) env"
  shows "\<exists>m' m''. run_modes frames m = Some m' \<and> modes_ok m' \<and> finish m' = Some m'' \<and>
    videoWriter (cameraRecorder m'') = None \<and> videoReader (cameraRecorder m'') = None \<and> \<not> lastPlayedFrame (cameraRecorder m'')"
proof -
  have "\<exists>m'. run_modes frames m = Some m' \<and> modes_ok m'"
    using assms
  proof (induction frames arbitrary: m)
    case (Cons f frames)
    obtain env key where f: "f = (env, key)" by (cases f)
    obtain m1 where m1: "record_or_play env m = Some m1" "modes_ok m1" "videoDir (cameraRecorder m1) = videoDir (cameraRecorder m)"
      using record_or_play_ok [of m env] Cons.prems by (auto simp: f)
    obtain m2 where m2: "handle_key env key m1 = Some m2" "modes_ok m2" "videoDir (cameraRecorder m2) = videoDir (cameraRecorder m)"
      using handle_key_ok [of m1 env key] m1 Cons.prems by (auto simp: f)
    show ?case using Cons.IH [OF m2(2)] Cons.prems(2) m1(1) m2 by (auto simp: f)
  qed simp
  then show ?thesis using finish_ok by blast
qed

definition some_modes :: "bool \<Rightarrow> Modes" where
  "some_modes display = \<lparr>recordMode = NORMAL, cameraDisplay = display, displayMat = False, cameraRecorder = some_recorder,
     term_requested = False\<rparr>"

text \<open>The keys \<open>p\<close>, none, \<open>s\<close>, \<open>r\<close>, none and \<open>q\<close>.\<close>

lemma keys_never_fault_witness:
  "\<exists>m' m''. run_modes (map (Pair some_directory) [112, - 1, 115, 114, - 1, 113]) (some_modes True) = Some m' \<and> modes_ok m' \<and>
     finish m' = Some m'' \<and> videoWriter (cameraRecorder m'') = None \<and> videoReader (cameraRecorder m'') = None \<and>
     \<not> lastPlayedFrame (cameraRecorder m'')"
proof (rule keys_never_fault)
  show "modes_ok (some_modes True)" by (simp add: modes_ok_def some_modes_def some_recorder_def)
  have "playable dir some_directory" for dir
    using some_directory_searchable some_directory_numbers by (simp add: playable_def) (simp add: some_directory_def)
  then show "\<forall>(env, key) \<in> set (map (Pair some_directory) [112, - 1, 115, 114, - 1, 113]).
      playable (videoDir (cameraRecorder (some_modes True))) env" by simp
qed

text \<open>Without the input window the image that is recorded is empty.\<close>

lemma recording_without_display:
  assumes "recordMode m = RECORDING" "\<not> cameraDisplay m" "\<not> displayMat m"
    and "fleq one (radd (frameProgress (cameraRecorder m)) (frameRateRatio (cameraRecorder m)))"
  shows "record_or_play env m = None"
  using assms by (simp add: record_or_play_def recordFrame_def Let_def c_assert_def)

text \<open>When the key \<open>p\<close> ends a recording and the playback does not start, the mode stays \<open>RECORDING\<close>
  although the file is closed.\<close>

lemma recording_without_file:
  assumes "recordMode m = RECORDING" "\<not> cameraDisplay m"
  shows "\<exists>m'. handle_key env (of_char CHR ''p'') m = Some m' \<and> recordMode m' = RECORDING \<and> videoWriter (cameraRecorder m') = None"
  using assms by (simp add: handle_key_def try_playback_def stopRecording_def)

end
