(* ===== verification/Spec2Isabelle.thy ===== *)
theory Spec2Isabelle
  imports SegmentCorrect BernsenCorrect FidtrackResults FidtrackRegions OverlappedThreshold Fidtrack120 Tuio OscDispatch OscTcp OscQueue Recorder
begin

text \<open>
  A verification development for xtrack, a program that tracks fiducial markers in a camera
  image and sends their positions over the network.

  \<^bold>\<open>The program.\<close> A frame is thresholded to black and white, \<^verbatim>\<open>segment.c\<close> divides it
  into connected regions and records which regions touch, \<^verbatim>\<open>fidtrackX.c\<close> searches the graph
  of regions for the trees of markers, names them by their left heavy depth string with the table of
  \<^verbatim>\<open>treeidmap.cpp\<close> and computes position and angle, and \<open>FiducialFinder\<close> of
  \<^verbatim>\<open>xtrack/fiducials.cpp\<close> keeps position and speed of the first four symbols from frame to
  frame. \<open>TuioServer\<close> of \<^verbatim>\<open>xtrack/tuio.cpp\<close> packs the tracked symbols into a bundle of Open
  Sound Control messages with \<^verbatim>\<open>wosclib/\<close> and sends it; the same library has the receiver.
  \<^verbatim>\<open>topologysearch.c\<close> and \<^verbatim>\<open>fidtrack120.c\<close> are an older search for another
  set of markers on the same graph of regions. The threshold functions of the library
  (\<^verbatim>\<open>threshold.c\<close>, \<^verbatim>\<open>tiled_bernsen_threshold.c\<close>) are alternatives to the one of OpenCV.

  \<^bold>\<open>Conventions\<close> (\<open>Prelude\<close>, \<open>Buffers\<close>). A C function that can touch memory, fail an
  assertion or run forever returns an option; \<open>None\<close> is the fault. So a theorem that concludes
  \<open>f \<dots> = Some \<dots>\<close> says that \<open>f\<close> returns, accesses no memory outside its buffers and fails no
  assertion. Buffers are lists, pointers into them are offsets, and fresh memory
  (\<open>malloc\<close>, \<open>new\<close>, uninitialised members) is a parameter. Pixels are \<open>8 word\<close>, flags are
  \<open>32 word\<close>, a \<open>short\<close> is an \<open>int\<close> behind \<open>to_short\<close>. An \<open>int\<close> is an unbounded integer
  wherever its values are bounded by the size of the image; where they are not, the conversion
  (\<open>to_int32\<close>) is written out and is a fault outside the range. \<open>char\<close> is signed.

  \<^bold>\<open>Floating point\<close> (\<open>Ieee\<close>, \<open>IeeeBounds\<close>). \<open>float\<close> is binary32 and \<open>double\<close> binary64 with
  rounding to nearest even and without excess precision, computed on rationals with signed
  zeros, infinities and one NaN. \<open>sqrt\<close>, \<open>atan\<close> and \<open>qsort\<close> are parameters; of \<open>qsort\<close> only
  that it sorts is assumed, of the others nothing. \<open>abs\<close> in \<^verbatim>\<open>fiducials.cpp\<close> is the overload
  for \<open>float\<close>.

  \<^bold>\<open>Segmenter\<close> (\<^verbatim>\<open>segment.c\<close>). \<open>Region\<close> holds the structs, \<open>RegionList\<close> the linked lists
  and \<open>Segment\<close> the operations under their C names, up to \<open>step_segmenter\<close>. \<open>PixelGrid\<close> is the
  reference semantics: connected components of the first \<open>n\<close> pixels and their contacts.
  \<open>SegmentGraph\<close>, \<open>SegmentMerge\<close> and \<open>SegmentContacts\<close> refine the adjacency lists to an abstract
  multigraph, \<open>SegmentInv\<close> and \<open>SegmentOps\<close> state the invariant of the memory (redirect chains,
  free list, graph) and that every operation keeps it, \<open>ScanLabels\<close>, \<open>SegmentScan\<close> and
  \<open>SegmentCenter\<close> follow the row scan pixel by pixel, and \<open>SegmentCorrect\<close> has the theorems on
  whole images. \<open>follow_redirects\<close> is a \<open>partial_function\<close>; that it returns follows from the
  invariant. \<open>SegmentFresh\<close> has the fields that the searches rely on, \<open>SegmentMemory\<close> that no
  dimension changes.

  \<^bold>\<open>Thresholding.\<close> \<open>TiledBernsen\<close>, \<open>BernsenTiles\<close>, \<open>BernsenCorrect\<close> for
  \<^verbatim>\<open>tiled_bernsen_threshold.c\<close>; \<open>Threshold\<close>, \<open>ThresholdTiles\<close>, \<open>ThresholdCells\<close>,
  \<open>ThresholdCorrect\<close>, \<open>OverlappedThreshold\<close> for \<^verbatim>\<open>threshold.c\<close>; \<open>PixelLoops\<close> is the rule for
  loops over rectangles. The nine almost equal blocks of \<open>overlapped_adaptive_threshold2\<close> are
  nine definitions over one body. The theorems give the value of every pixel of the result and
  the images for which the code leaves its buffers.

  \<^bold>\<open>Tree search\<close> (\<^verbatim>\<open>fidtrackX.c\<close>). \<open>FidtrackX\<close> has the upward propagation from the leafs
  and the collection of roots; \<open>TreeTraversal\<close> is the traversal as a locale over graphs, which
  \<open>FidtrackTraversal\<close> interprets on the segmented regions; \<open>FidtrackRoots\<close> states what is found
  without the course of the traversal. \<open>FidtrackTree\<close> has \<open>set_depth\<close> and
  \<open>build_left_heavy_depth_string\<close>, \<open>LeftHeavy\<close> the string as a function of the tree,
  \<open>FidtrackDepth\<close>, \<open>FidtrackString\<close>, \<open>FidtrackBuild\<close>, \<open>FidtrackStrings\<close> the refinement.
  \<open>FidtrackStats\<close> has the sums over the leafs, position, angle and \<open>find_fiducialsX\<close>;
  \<open>FidtrackLeafs\<close>, \<open>FidtrackIds\<close>, \<open>FidtrackResults\<close> what it reports, \<open>FidtrackWarp\<close> the case of
  the distortion table of the application, \<open>FidtrackMemory\<close> what it leaves of the memory,
  \<open>FidtrackRegions\<close> the search by size. The recursions down a tree have fuel, one more than
  the number of regions: a call goes to a region with a smaller descendent count, so no tree is
  deeper, and that the fuel is enough is part of what the theorems show. The propagation is a \<open>partial_function\<close> and is shown to return.

  \<^bold>\<open>Tree table\<close> (\<^verbatim>\<open>treeidmap.cpp\<close>, \<^verbatim>\<open>default_trees.h\<close>). \<open>TreeIdMap\<close>, \<open>TreeIds\<close>,
  \<open>DefaultTrees\<close>: the \<open>std::map\<close> is an association list, a file is its text.

  \<^bold>\<open>The 120 set.\<close> \<open>TopologySearch\<close>, \<open>SymbolSequence\<close>, \<open>Fidtrack120\<close>.

  \<^bold>\<open>Tracker\<close> (\<^verbatim>\<open>fiducials.cpp\<close>). \<open>FiducialFinder\<close>: the constructor, one frame, and
  sequences of frames with the invariant \<open>finder_ok\<close>.

  \<^bold>\<open>Open Sound Control\<close> (\<^verbatim>\<open>wosclib/\<close>). \<open>OscBytes\<close> has memory, byte order and padding
  (\<open>WOscUtil\<close>; the host is little endian), \<open>OscString\<close> the class \<open>WOscString\<close>, \<open>OscMessage\<close> the
  classes \<open>WOscMessage\<close> and \<open>WOscBlob\<close>, \<open>OscTimeTag\<close> the class \<open>WOscTimeTag\<close>, \<open>OscBundle\<close> the
  classes \<open>WOscBundle\<close> and \<open>WOscBundleParser\<close> and \<open>NetworkReceive\<close> of \<open>WOscReceiver\<close>. What
  \<open>new char[n]\<close> returns is a parameter of which \<open>allocates\<close> says that it has \<open>n\<close> bytes. An
  exception is the left side of a sum; where the program does not catch it, \<open>uncaught\<close> makes it a
  fault. A \<open>float\<close> argument is the word that represents it. \<open>OscEncode\<close> states the binary form
  of a message and that it is written and read, \<open>OscReceive\<close> that of a bundle and what the
  receiver makes of it. \<open>step_items\<close> and \<open>process_items\<close> are \<open>partial_function\<close>s, as a
  malformed packet can keep them busy forever; for the packets of the theorems they return.
  \<open>Tuio\<close> is \<open>sendMessage\<close>, whose datagram is its result. \<open>OscTcp\<close> has the framing of packets on a
  stream (\<open>WOscTcpHandler\<close>, \<open>WOscTcpClient\<close>) with the results of the system calls as arguments: what
  is sent arrives when the data of each packet comes in one piece, and what goes wrong otherwise. \<open>OscQueue\<close> is the class
  \<open>WOscPriorityQueue\<close>, which the library can be compiled with: an array that refines the list of its
  items, removed in the order of a stable sort.

  \<^bold>\<open>Patterns\<close> (\<^verbatim>\<open>WOscPatternMatch.cpp\<close>). \<open>PatternMatch\<close>: the matcher is total on lists, and
  \<open>None\<close> is a read behind the terminating zero of its argument.

  \<^bold>\<open>Address space\<close> (\<^verbatim>\<open>WOscContainer.cpp\<close>, \<^verbatim>\<open>WOscMethod.cpp\<close>, \<open>ProcessMessage\<close>).
  \<open>OscContainer\<close> has the tree of containers, methods and aliases in a store of objects, with the
  constructors, destructors, search and dispatch; \<open>OscDispatch\<close> shows that what a client builds
  (\<open>built\<close>) is well formed and which methods a message calls, and states where removal and
  search fail. The recursions that go down the tree have one call for each container as fuel; a
  deeper one goes round in a circle of aliases and does not end.

  \<^bold>\<open>Main loop\<close> (\<^verbatim>\<open>xtrack/xtrack.cpp\<close>). \<open>process_frame\<close> below composes the search, the
  tracker and the server for one thresholded frame. \<open>Recorder\<close> has the command line parameters
  (\<^verbatim>\<open>parameters.cpp\<close>), \<open>CameraRecorder\<close> (\<^verbatim>\<open>record.cpp\<close>) and the modes of the loop; the
  files, and which of them can be opened, are an \<open>Environment\<close> that can change with every
  frame. \<open>find_frame\<close> is a \<open>partial_function\<close>: without a readable file it does not end.

  \<^bold>\<open>Not modelled.\<close> Functions that only free or print (\<open>terminate_*\<close>, \<open>dump_graph\<close>,
  \<open>print_unordered_depth_string\<close>); code under \<open>#if 0\<close> and, of what the configuration of
  \<^verbatim>\<open>wosclib/\<close> leaves out, the use that \<open>WOscReceiver\<close> makes of the priority queue; the methods
  that the client of the library provides, its UDP sockets, its TCP server and its reference
  counted return addresses; the
  images of the main loop and \<^verbatim>\<open>display.cpp\<close>, which are OpenCV calls, and the copy of the program
  in \<^verbatim>\<open>xtrack-mac/\<close>.
\<close>

section \<open>The main loop\<close>

text \<open>
  \<^verbatim>\<open>xtrack/xtrack.cpp\<close>, the part of the main loop that is not OpenCV: a thresholded frame is
  searched, and the tracked symbols are sent.
\<close>

definition process_frame ::
  "allocator \<Rightarrow> (ieee \<Rightarrow> 32 word) \<Rightarrow> qsort_fun \<Rightarrow> (ieee \<Rightarrow> ieee) \<Rightarrow> (ieee \<Rightarrow> ieee) \<Rightarrow> int \<Rightarrow> int \<Rightarrow>
   byte list \<Rightarrow> ieee \<Rightarrow> FiducialFinder \<times> TuioServer \<Rightarrow> (byte list \<times> FiducialFinder \<times> TuioServer) option" where
  "process_frame new bits qsort atan sqrtf cols rows thresholdMat frameStartClock = (\<lambda>(fiducialFinder, tuioServer). do {
     (_, fiducialFinder) \<leftarrow> findFiducials qsort atan sqrtf fiducialFinder thresholdMat cols rows frameStartClock;
     (datagram, tuioServer) \<leftarrow> sendMessage new bits tuioServer (trackedFiducials fiducialFinder);
     Some (datagram, fiducialFinder, tuioServer)
   })"

text \<open>Symbol \<open>k\<close> is what the tree \<open>t\<close> of regions below the root \<open>i\<close> shows.\<close>

definition shows_symbol :: "Segmenter \<Rightarrow> World \<Rightarrow> nat \<Rightarrow> tree \<Rightarrow> nat \<Rightarrow> bool" where
  "shows_symbol s w i t k \<longleftrightarrow> \<not> flag_set (flags (reg (seg w) i)) LOST_SYMBOL_FLAG \<and>
     coloured_string_of (colour (reg (seg w) i)) (shown_tree s i t) = default_tree ! k"

text \<open>C4: The datagram of a frame names the symbols that the image shows: for every frame whose time
  is new, the receiver of the datagram reads a first message that lists exactly the symbols whose
  string is that of the tree of regions below one of the first four roots.\<close>

theorem frame_sent:
  assumes "finder_ok w h ff" "binary_image w h data" "few_regions w h data" "sorts qsort"
    and "secTime = ddiv time (dint 1000)" "feq secTime secTime"
    and "\<forall>k < 4. \<not> feq (timestamp (trackedFiducials ff ! k)) secTime"
    and "allocates new" "fseq server < 2 ^ 31 - 1"
  shows "\<exists>datagram ff' s w1 rs n T msgs.
    process_frame new bits qsort atan sqrtf (int w) (int h) data time (ff, server) =
      Some (datagram, ff', server\<lparr>fseq := fseq server + 1\<rparr>) \<and> finder_ok w h ff' \<and>
    step_segmenter (seg (world ff)) data = Some s \<and>
    collect_roots (tracker (fidtrackerx ff)) ((world ff)\<lparr>seg := s\<rparr>) = Some w1 \<and> ring_of w1 root_regions_head rs \<and>
    n = min 4 (length rs) \<and> (\<forall>j < n. \<exists>p. region_tree s p (rs ! j) (T j)) \<and>
    NetworkReceive new datagram (ilength datagram) = Some (None, osc_message path (AString (str_bytes ''alive'') #
      map (\<lambda>k. AInt (of_nat k)) (filter (\<lambda>k. \<exists>j < n. shows_symbol s w1 (rs ! j) (T j) k) [0..<4])) # msgs)"
proof -
  obtain ff' s w1 rs n where r: "findFiducials qsort atan sqrtf ff data (int w) (int h) time = Some (0, ff')" "finder_ok w h ff'"
      "step_segmenter (seg (world ff)) data = Some s"
      "collect_roots (tracker (fidtrackerx ff)) ((world ff)\<lparr>seg := s\<rparr>) = Some w1" "ring_of w1 root_regions_head rs"
      "n = min 4 (length rs)"
      "\<forall>k < 4. isTracked (trackedFiducials ff' ! k) \<longleftrightarrow> (\<exists>j < n. fid (rawFiducials ff' ! j) = int k)"
      "\<forall>j < n. \<exists>p t. region_tree s p (rs ! j) t \<and> (\<forall>k < 4. fid (rawFiducials ff' ! j) = int k \<longleftrightarrow> shows_symbol s w1 (rs ! j) t k)"
    using tracked_symbols [OF assms(1-7), of atan sqrtf] unfolding shows_symbol_def by blast
  obtain T where T: "\<forall>j < n. \<exists>p. region_tree s p (rs ! j) (T j) \<and>
      (\<forall>k < 4. fid (rawFiducials ff' ! j) = int k \<longleftrightarrow> shows_symbol s w1 (rs ! j) (T j) k)"
    using r(8) by metis
  have four: "length (trackedFiducials ff') = 4" using r(2) by (simp add: finder_ok_def)
  let ?specs = "tuio_messages bits (fseq server) (trackedFiducials ff')"
  let ?b = "WOscBundle 1 (map message ?specs) []"
  have "filter (\<lambda>k. isTracked (trackedFiducials ff' ! k)) [0..<4] = filter (\<lambda>k. \<exists>j < n. shows_symbol s w1 (rs ! j) (T j) k) [0..<4]"
    using r(7) T by (intro filter_cong) auto
  then have alive: "message (hd ?specs) = osc_message path (AString (str_bytes ''alive'') #
      map (\<lambda>k. AInt (of_nat k)) (filter (\<lambda>k. \<exists>j < n. shows_symbol s w1 (rs ! j) (T j) k) [0..<4]))"
    by (simp add: tuio_messages_def alive_args_def)
  have "length (bundle_image ?b) < 2 ^ 31" using length_datagram by (rule le_less_trans) simp
  then have "NetworkReceive new (bundle_image ?b) (ilength (bundle_image ?b)) = Some (None, map message ?specs)"
    using receive_image [OF assms(8) good_tuio, of bits "fseq server" "trackedFiducials ff'" "[]" ?b 1]
    by (simp add: tuio_messages_def del: bundle_image.simps)
  moreover have "map message ?specs = message (hd ?specs) # map message (tl ?specs)" by (simp add: tuio_messages_def)
  moreover have "process_frame new bits qsort atan sqrtf (int w) (int h) data time (ff, server) =
      Some (bundle_image ?b, ff', server\<lparr>fseq := fseq server + 1\<rparr>)"
    using r(1) sendMessage_ok [OF assms(8) four assms(9), of bits] by (simp add: process_frame_def del: bundle_image.simps)
  ultimately show ?thesis
    using r(2-6) T alive
    by (intro exI [of _ "bundle_image ?b"] exI [of _ ff'] exI [of _ s] exI [of _ w1] exI [of _ rs] exI [of _ n] exI [of _ T]
        exI [of _ "map message (tl ?specs)"]) (auto simp del: bundle_image.simps)
qed

lemma frame_sent_witness:
  "\<exists>ff datagram ff'. new_finder small_memory 3 3 = Some ff \<and>
     process_frame (\<lambda>n. replicate (nat n) 0) (\<lambda>_. 0) insertion_sort (\<lambda>x. x) (\<lambda>x. x) 3 3 ring (Num False 1000) (ff, \<lparr>fseq = 0\<rparr>) =
       Some (datagram, ff', \<lparr>fseq = 1\<rparr>)"
proof -
  obtain ff where ff: "new_finder small_memory 3 3 = Some ff" "finder_ok 3 3 ff" "trackedFiducials ff = replicate 4 untracked"
    using new_finder_ok [OF _ _ _ _ small_memory_fresh] by auto
  have t: "Num False 1 = ddiv (Num False 1000) (dint 1000)" using second_time by (rule sym)
  have one: "feq (Num False 1) (Num False 1)" by simp
  have fresh: "\<forall>k < 4. \<not> feq (timestamp (trackedFiducials ff ! k)) (Num False 1)" by (simp add: ff(3) untracked_def)
  have new: "allocates (\<lambda>n. replicate (nat n) 0)" by (simp add: allocates_def)
  have seq: "fseq \<lparr>fseq = 0\<rparr> < 2 ^ 31 - 1" by simp
  have "\<exists>datagram ff'. process_frame (\<lambda>n. replicate (nat n) 0) (\<lambda>_. 0) insertion_sort (\<lambda>x. x) (\<lambda>x. x) (int 3) (int 3) ring
      (Num False 1000) (ff, \<lparr>fseq = 0\<rparr>) = Some (datagram, ff', \<lparr>fseq = 0\<rparr>\<lparr>fseq := fseq \<lparr>fseq = 0\<rparr> + 1\<rparr>)"
    using frame_sent [OF ff(2) small_ring insertion_sort_sorts t one fresh new seq, of "\<lambda>_. 0" "\<lambda>x. x" "\<lambda>x. x"] by blast
  moreover have "int 3 = 3" "\<lparr>fseq = 0\<rparr>\<lparr>fseq := fseq \<lparr>fseq = 0\<rparr> + 1\<rparr> = \<lparr>fseq = 1\<rparr>" by simp_all
  ultimately have "\<exists>datagram ff'. process_frame (\<lambda>n. replicate (nat n) 0) (\<lambda>_. 0) insertion_sort (\<lambda>x. x) (\<lambda>x. x) 3 3 ring
      (Num False 1000) (ff, \<lparr>fseq = 0\<rparr>) = Some (datagram, ff', \<lparr>fseq = 1\<rparr>)" by (simp only:)
  then show ?thesis using ff(1) by blast
qed

end
